(* ===== verification/LpPrelude.thy ===== *)
theory LpPrelude
  imports Main "HOL-Library.Word"
begin

text \<open>
  Shared vocabulary of the development: the machine integer types of
  \<open>userland/libc/include/types.h\<close>, C strings as byte lists, byte memory, and the
  generic facts on words and lists that the component theories use.
\<close>

unbundle bit_operations_syntax

named_theorems byte_simps
named_theorems mem_simps

section \<open>Machine integers\<close>

type_synonym u8 = "8 word"
type_synonym u16 = "16 word"
type_synonym u32 = "32 word"
type_synonym u64 = "64 word"

lemma u8_less_256 [simp]: "unat (c :: u8) < 256"
  using unsigned_less [of c] by simp

lemma u8_of_nat_unat [simp]: "(of_nat (unat (c :: u8)) :: u8) = c"
  by simp

lemma unat_of_nat_u8: "n < 256 \<Longrightarrow> unat (of_nat n :: u8) = n"
  by (simp add: unat_of_nat take_bit_nat_eq_self)

lemma unat_of_nat_u32: "n < 2 ^ 32 \<Longrightarrow> unat (of_nat n :: u32) = n"
  by (simp add: unat_of_nat take_bit_nat_eq_self)

lemma unat_of_nat_u64: "n < 2 ^ 64 \<Longrightarrow> unat (of_nat n :: u64) = n"
  by (simp add: unat_of_nat take_bit_nat_eq_self)

section \<open>C strings\<close>

text \<open>
  A \<open>const char *\<close> into a NUL-terminated string is the list of the bytes from the
  pointer up to, and not including, the terminator.  Reading at the end of the list is
  reading the terminator, so \<open>deref\<close> and \<open>ch\<close> give 0 there.
\<close>

type_synonym cstring = "u8 list"

definition cs :: "string \<Rightarrow> cstring" where
  "cs s = map of_char s"

definition deref :: "cstring \<Rightarrow> u8" where
  "deref s = (case s of [] \<Rightarrow> 0 | c # _ \<Rightarrow> c)"

definition ch :: "cstring \<Rightarrow> nat \<Rightarrow> u8" where
  "ch s i = (if i < length s then s ! i else 0)"

definition is_cstr :: "cstring \<Rightarrow> bool" where
  "is_cstr s \<longleftrightarrow> 0 \<notin> set s"

lemma deref_simps [simp]: "deref [] = 0" "deref (c # s) = c"
  by (simp_all add: deref_def)

lemma ch_simps [simp]: "ch [] i = 0" "ch (c # s) 0 = c" "ch (c # s) (Suc i) = ch s i"
  by (simp_all add: ch_def)

lemma ch_numeral [simp]: "ch (c # s) (numeral k) = ch s (pred_numeral k)"
  by (simp add: numeral_eq_Suc)

lemma ch_0_deref: "ch s 0 = deref s"
  by (cases s) auto

lemma is_cstr_simps [simp]:
  "is_cstr []" "is_cstr (c # s) \<longleftrightarrow> c \<noteq> 0 \<and> is_cstr s"
  "is_cstr (s @ t) \<longleftrightarrow> is_cstr s \<and> is_cstr t"
  by (auto simp: is_cstr_def)

lemma is_cstr_drop: "is_cstr s \<Longrightarrow> is_cstr (drop n s)"
  by (auto simp: is_cstr_def dest: in_set_dropD)

lemma is_cstr_take: "is_cstr s \<Longrightarrow> is_cstr (take n s)"
  by (auto simp: is_cstr_def dest: in_set_takeD)

lemma deref_nonzero_Cons: "deref s \<noteq> 0 \<Longrightarrow> \<exists>t. s = deref s # t"
  by (cases s) auto

lemma deref_zero_iff: "is_cstr s \<Longrightarrow> deref s = 0 \<longleftrightarrow> s = []"
  by (cases s) auto

lemma ch_nonzero: "ch s i \<noteq> 0 \<Longrightarrow> i < length s"
  by (auto simp: ch_def split: if_splits)

section \<open>Byte memory\<close>

text \<open>
  Where a routine's result depends on addresses (alignment, overlap), memory is a function
  from addresses to bytes.  Objects do not wrap around the address space, so addresses are
  natural numbers.
\<close>

type_synonym mem = "nat \<Rightarrow> u8"

definition poke :: "mem \<Rightarrow> nat \<Rightarrow> u8 \<Rightarrow> mem" where
  "poke m a v = m(a := v)"

definition load64 :: "mem \<Rightarrow> nat \<Rightarrow> u64" where
  "load64 m a = ucast (m a) OR push_bit 8 (ucast (m (a + 1))) OR
     push_bit 16 (ucast (m (a + 2))) OR push_bit 24 (ucast (m (a + 3))) OR
     push_bit 32 (ucast (m (a + 4))) OR push_bit 40 (ucast (m (a + 5))) OR
     push_bit 48 (ucast (m (a + 6))) OR push_bit 56 (ucast (m (a + 7)))"

definition store64 :: "mem \<Rightarrow> nat \<Rightarrow> u64 \<Rightarrow> mem" where
  "store64 m a w = (\<lambda>x. if a \<le> x \<and> x < a + 8 then ucast (drop_bit (8 * (x - a)) w) else m x)"

lemma push_disj:
  "i + 8 \<le> j \<Longrightarrow>
    push_bit i (ucast (v :: u8) :: u64) AND push_bit j (ucast (w :: u8)) = 0"
  by (rule bit_word_eqI) (auto simp: bit_simps dest: bit_imp_le_length)

lemma push_disj_0: "8 \<le> j \<Longrightarrow> (ucast (v :: u8) :: u64) AND push_bit j (ucast (w :: u8)) = 0"
  using push_disj [of 0 j v w] by simp

lemma load64_add:
  "load64 m a = ucast (m a) + (push_bit 8 (ucast (m (a + 1))) +
     (push_bit 16 (ucast (m (a + 2))) + (push_bit 24 (ucast (m (a + 3))) +
     (push_bit 32 (ucast (m (a + 4))) + (push_bit 40 (ucast (m (a + 5))) +
     (push_bit 48 (ucast (m (a + 6))) + push_bit 56 (ucast (m (a + 7)))))))))"
  by (simp add: load64_def disjunctive_add_eq_or push_disj push_disj_0 bit.conj_disj_distrib)

lemma less_8_cases: "(i::nat) < 8 \<Longrightarrow> i \<in> {0, 1, 2, 3, 4, 5, 6, 7}"
  by auto

lemma byte_of_load64:
  assumes "i < 8" shows "(ucast (drop_bit (8 * i) (load64 m a)) :: u8) = m (a + i)"
proof -
  have out: "bit (b :: u8) j = False" if "8 \<le> j" for b j
    using that by (auto dest: bit_imp_le_length)
  have "bit (ucast (drop_bit (8 * i) (load64 m a)) :: u8) k = bit (m (a + i)) k" if "k < 8" for k
    using less_8_cases [OF assms] that
    by (elim insertE) (simp_all add: load64_def bit_simps out)
  then show ?thesis by (auto intro!: bit_word_eqI)
qed

lemma store64_load64 [mem_simps]:
  "store64 m d (load64 m' s) = (\<lambda>x. if d \<le> x \<and> x < d + 8 then m' (s + (x - d)) else m x)"
  by (rule ext) (auto simp: store64_def byte_of_load64)

section \<open>Calls that fail\<close>

text \<open>
  A call that may fail returns a sum, the error on the left; \<open>andthen\<close> is an early return.
\<close>

definition andthen :: "'e + 'a \<Rightarrow> ('a \<Rightarrow> 'e + 'b) \<Rightarrow> 'e + 'b" where
  "andthen r f = (case r of Inl e \<Rightarrow> Inl e | Inr x \<Rightarrow> f x)"

lemma andthen_simps [simp]: "andthen (Inl e) f = Inl e" "andthen (Inr x) f = f x"
  by (simp_all add: andthen_def)

lemma andthen_Inr_iff: "andthen r f = Inr y \<longleftrightarrow> (\<exists>x. r = Inr x \<and> f x = Inr y)"
  by (cases r) auto

lemma andthen_InrE:
  assumes "andthen r f = Inr y" obtains x where "r = Inr x" "f x = Inr y"
  using assms by (cases r) auto

lemma andthen_cong [fundef_cong]:
  "r = r' \<Longrightarrow> (\<And>x. r' = Inr x \<Longrightarrow> f x = g x) \<Longrightarrow> andthen r f = andthen r' g"
  by (cases r') auto

lemma andthen_assoc: "andthen (andthen r f) g = andthen r (\<lambda>x. andthen (f x) g)"
  by (cases r) auto

section \<open>Big-endian words\<close>

definition be32_word :: "u8 \<Rightarrow> u8 \<Rightarrow> u8 \<Rightarrow> u8 \<Rightarrow> u32" where
  "be32_word a b c d = push_bit 24 (ucast a) OR push_bit 16 (ucast b) OR push_bit 8 (ucast c) OR ucast d"

lemma be32_word_put:
  "be32_word (ucast (drop_bit 24 v)) (ucast (drop_bit 16 v)) (ucast (drop_bit 8 v)) (ucast v) = (v :: u32)"
proof (rule bit_word_eqI)
  fix k
  assume "k < LENGTH(32)"
  then have k: "k < 32" by simp
  have out: "bit (b :: u8) j = False" if "8 \<le> j" for b j using that by (auto dest: bit_imp_le_length)
  consider "k < 8" | "8 \<le> k" "k < 16" | "16 \<le> k" "k < 24" | "24 \<le> k" using k by linarith
  then show "bit (be32_word (ucast (drop_bit 24 v)) (ucast (drop_bit 16 v)) (ucast (drop_bit 8 v)) (ucast v)) k = bit v k"
    by cases (use k in \<open>auto simp: be32_word_def bit_simps\<close>)
qed

section \<open>Generic list facts\<close>

lemma takeWhile_nul: "(0 :: u8) \<notin> set s \<Longrightarrow> takeWhile (\<lambda>c. c \<noteq> 0) (s @ 0 # t) = s"
  by (induction s) auto

lemma nth_append_right' [simp]: "(xs @ ys) ! (length xs + i) = ys ! i"
  by (simp add: nth_append)

lemma length_induct_tl: "s \<noteq> [] \<Longrightarrow> length (tl s) < length s"
  by (cases s) auto

lemma drop_eq_Cons_nth: "i < length xs \<Longrightarrow> drop i xs = xs ! i # drop (Suc i) xs"
  by (rule Cons_nth_drop_Suc [symmetric])

end
