(* ===== verification/LpString.thy ===== *)
theory LpString
  imports LpPrelude "HOL-Library.Sublist"
begin

text \<open>
  The C library's string and memory routines (\<open>userland/libc/src/string.c\<close>).
  The block routines work on byte memory, because their word-at-a-time loops depend on
  alignment and \<open>memmove\<close> on overlap; the string routines work on C strings; the UTF-8
  routines decode bytes into code points.
\<close>

section \<open>memset, memcpy, memmove\<close>

text \<open>Each loop of the source is one function; the loop variables are its arguments.\<close>

fun memset_align :: "u8 \<Rightarrow> mem \<Rightarrow> nat \<Rightarrow> nat \<Rightarrow> mem \<times> nat \<times> nat" where
  "memset_align v m d 0 = (m, d, 0)"
| "memset_align v m d (Suc n) =
     (if d mod 8 \<noteq> 0 then memset_align v (poke m d v) (d + 1) n else (m, d, Suc n))"

fun memset_words :: "u64 \<Rightarrow> mem \<Rightarrow> nat \<Rightarrow> nat \<Rightarrow> mem \<times> nat \<times> nat" where
  "memset_words w m d n =
     (if 8 \<le> n then memset_words w (store64 m d w) (d + 8) (n - 8) else (m, d, n))"

fun memset_tail :: "u8 \<Rightarrow> mem \<Rightarrow> nat \<Rightarrow> nat \<Rightarrow> mem" where
  "memset_tail v m d 0 = m"
| "memset_tail v m d (Suc n) = memset_tail v (poke m d v) (d + 1) n"

definition memset :: "mem \<Rightarrow> nat \<Rightarrow> u32 \<Rightarrow> nat \<Rightarrow> mem" where
  "memset m dst c n =
     (let v = (ucast c :: u8);
          (m1, d1, n1) = memset_align v m dst n;
          (m2, d2, n2) = memset_words (0x0101010101010101 * ucast v) m1 d1 n1
      in memset_tail v m2 d2 n2)"

fun memcpy_align :: "mem \<Rightarrow> nat \<Rightarrow> nat \<Rightarrow> nat \<Rightarrow> mem \<times> nat \<times> nat \<times> nat" where
  "memcpy_align m d s 0 = (m, d, s, 0)"
| "memcpy_align m d s (Suc n) =
     (if d mod 8 \<noteq> 0 then memcpy_align (poke m d (m s)) (d + 1) (s + 1) n else (m, d, s, Suc n))"

fun memcpy_words :: "mem \<Rightarrow> nat \<Rightarrow> nat \<Rightarrow> nat \<Rightarrow> mem \<times> nat \<times> nat \<times> nat" where
  "memcpy_words m d s n =
     (if 8 \<le> n then memcpy_words (store64 m d (load64 m s)) (d + 8) (s + 8) (n - 8)
      else (m, d, s, n))"

fun memcpy_tail :: "mem \<Rightarrow> nat \<Rightarrow> nat \<Rightarrow> nat \<Rightarrow> mem" where
  "memcpy_tail m d s 0 = m"
| "memcpy_tail m d s (Suc n) = memcpy_tail (poke m d (m s)) (d + 1) (s + 1) n"

definition memcpy :: "mem \<Rightarrow> nat \<Rightarrow> nat \<Rightarrow> nat \<Rightarrow> mem" where
  "memcpy m dst src n =
     (let (m2, d2, s2, n2) =
        (if (dst XOR src) AND 7 = 0 then
           let (m1, d1, s1, n1) = memcpy_align m dst src n in memcpy_words m1 d1 s1 n1
         else (m, dst, src, n))
      in memcpy_tail m2 d2 s2 n2)"

fun memmove_back :: "mem \<Rightarrow> nat \<Rightarrow> nat \<Rightarrow> nat \<Rightarrow> mem" where
  "memmove_back m d s 0 = m"
| "memmove_back m d s (Suc n) = memmove_back (poke m (d - 1) (m (s - 1))) (d - 1) (s - 1) n"

definition memmove :: "mem \<Rightarrow> nat \<Rightarrow> nat \<Rightarrow> nat \<Rightarrow> mem" where
  "memmove m dst src n =
     (if dst = src \<or> n = 0 then m
      else if dst < src then memcpy m dst src n
      else memmove_back m (dst + n) (src + n) n)"

declare memset_words.simps [simp del] memcpy_words.simps [simp del]

subsection \<open>What the block routines write\<close>

definition filled :: "mem \<Rightarrow> nat \<Rightarrow> u8 \<Rightarrow> nat \<Rightarrow> mem" where
  "filled m d v n = (\<lambda>x. if d \<le> x \<and> x < d + n then v else m x)"

definition copied :: "mem \<Rightarrow> nat \<Rightarrow> nat \<Rightarrow> nat \<Rightarrow> mem" where
  "copied m d s n = (\<lambda>x. if d \<le> x \<and> x < d + n then m (s + (x - d)) else m x)"

text \<open>Regions for which a front-to-back copy reads every byte before overwriting it.\<close>

definition forward_ok :: "nat \<Rightarrow> nat \<Rightarrow> nat \<Rightarrow> bool" where
  "forward_ok d s n \<longleftrightarrow> d \<le> s \<or> s + n \<le> d"

lemma filled_0 [simp]: "filled m d v 0 = m"
  by (rule ext) (auto simp: filled_def)

lemma copied_0 [simp]: "copied m d s 0 = m"
  by (rule ext) (auto simp: copied_def)

lemma filled_filled: "filled (filled m d v k) (d + k) v n = filled m d v (k + n)"
  by (rule ext) (auto simp: filled_def)

lemma filled_poke: "filled (poke m d v) (Suc d) v n = filled m d v (Suc n)"
  by (rule ext) (auto simp: filled_def poke_def)

lemma copied_copied:
  assumes "forward_ok d s (k + n)"
  shows "copied (copied m d s k) (d + k) (s + k) n = copied m d s (k + n)"
  using assms by (intro ext) (auto simp: copied_def forward_ok_def)

lemma copied_poke:
  "forward_ok d s (Suc n) \<Longrightarrow>
    copied (poke m d (m s)) (Suc d) (Suc s) n = copied m d s (Suc n)"
proof -
  assume ok: "forward_ok d s (Suc n)"
  have "poke m d (m s) = copied m d s 1"
    by (rule ext) (auto simp: copied_def poke_def le_less_Suc_eq)
  with copied_copied [of d s 1 n m] ok show ?thesis by simp
qed

lemma forward_ok_Suc: "forward_ok d s (Suc n) \<Longrightarrow> forward_ok (Suc d) (Suc s) n"
  by (auto simp: forward_ok_def)

lemma byte_of_splat:
  assumes "i < 8"
  shows "(ucast (drop_bit (8 * i) (0x0101010101010101 * ucast (v :: u8) :: u64)) :: u8) = v"
proof -
  have "(0x0101010101010101 :: u64) * ucast v = load64 (\<lambda>_. v) 0"
    by (simp add: load64_add push_bit_eq_mult)
  then show ?thesis
    using byte_of_load64 [OF assms, of "\<lambda>_. v" 0] by simp
qed

lemma store64_splat: "store64 m d (0x0101010101010101 * ucast v) = filled m d v 8"
  by (rule ext) (use byte_of_splat in \<open>auto simp: store64_def filled_def\<close>)

lemma store64_copy: "store64 m d (load64 m s) = copied m d s 8"
  by (simp add: store64_load64 copied_def)

lemma memset_align_spec:
  "memset_align v m d n = (m', d', n') \<Longrightarrow>
    \<exists>k. m' = filled m d v k \<and> d' = d + k \<and> n = k + n'"
proof (induction v m d n rule: memset_align.induct)
  case (1 v m d)
  then show ?case by (intro exI [of _ 0]) auto
next
  case (2 v m d n)
  show ?case
  proof (cases "d mod 8 = 0")
    case True
    with 2 show ?thesis by (intro exI [of _ 0]) auto
  next
    case False
    with 2 obtain k where "m' = filled (poke m d v) (Suc d) v k" "d' = Suc d + k" "n = k + n'"
      by auto
    then show ?thesis
      by (intro exI [of _ "Suc k"]) (simp add: filled_poke)
  qed
qed

lemma memset_words_spec:
  "memset_words (0x0101010101010101 * ucast v) m d n = (m', d', n') \<Longrightarrow>
    \<exists>k. m' = filled m d v k \<and> d' = d + k \<and> n = k + n'"
proof (induction n arbitrary: m d rule: less_induct)
  case (less n)
  show ?case
  proof (cases "8 \<le> n")
    case True
    with less.prems have
      "memset_words (0x0101010101010101 * ucast v) (filled m d v 8) (d + 8) (n - 8) = (m', d', n')"
      by (subst (asm) memset_words.simps) (simp add: store64_splat)
    with less.IH [of "n - 8"] True obtain k where
      "m' = filled (filled m d v 8) (d + 8) v k" "d' = d + 8 + k" "n - 8 = k + n'"
      by auto
    with True show ?thesis
      by (intro exI [of _ "8 + k"]) (simp add: filled_filled)
  next
    case False
    with less.prems show ?thesis
      by (intro exI [of _ 0]) (simp add: memset_words.simps [of _ m d n])
  qed
qed

lemma memset_tail_spec: "memset_tail v m d n = filled m d v n"
  by (induction v m d n rule: memset_tail.induct)
     (simp_all add: filled_poke)

lemma memset_filled: "memset m d c n = filled m d (ucast c) n"
proof -
  obtain m1 d1 n1 where 1: "memset_align (ucast c) m d n = (m1, d1, n1)"
    by (metis prod_cases3)
  obtain m2 d2 n2 where
    2: "memset_words (0x0101010101010101 * ucast (ucast c :: u8)) m1 d1 n1 = (m2, d2, n2)"
    by (metis prod_cases3)
  from memset_align_spec [OF 1] obtain k where
    k: "m1 = filled m d (ucast c) k" "d1 = d + k" "n = k + n1" by auto
  from memset_words_spec [OF 2] obtain j where
    j: "m2 = filled m1 d1 (ucast c) j" "d2 = d1 + j" "n1 = j + n2" by auto
  have "memset m d c n = filled m2 d2 (ucast c) n2"
    by (simp add: memset_def 1 2 memset_tail_spec)
  also have "\<dots> = filled (filled m d (ucast c) (k + j)) (d + (k + j)) (ucast c) n2"
    using k j by (simp add: filled_filled add.assoc)
  also have "\<dots> = filled m d (ucast c) n"
    using k j by (simp only: filled_filled add.assoc)
  finally show ?thesis .
qed

lemma memcpy_align_spec:
  "memcpy_align m d s n = (m', d', s', n') \<Longrightarrow> forward_ok d s n \<Longrightarrow>
    \<exists>k. m' = copied m d s k \<and> d' = d + k \<and> s' = s + k \<and> n = k + n'"
proof (induction m d s n rule: memcpy_align.induct)
  case (1 m d s)
  then show ?case by (intro exI [of _ 0]) auto
next
  case (2 m d s n)
  show ?case
  proof (cases "d mod 8 = 0")
    case True
    with 2 show ?thesis by (intro exI [of _ 0]) auto
  next
    case False
    with 2 obtain k where "m' = copied (poke m d (m s)) (Suc d) (Suc s) k"
      "d' = Suc d + k" "s' = Suc s + k" and n: "n = k + n'"
      using forward_ok_Suc by auto
    moreover have "forward_ok d s (Suc k)"
      using 2(3) n by (auto simp: forward_ok_def)
    ultimately show ?thesis
      using n by (intro exI [of _ "Suc k"]) (simp add: copied_poke)
  qed
qed

lemma memcpy_words_spec:
  "memcpy_words m d s n = (m', d', s', n') \<Longrightarrow> forward_ok d s n \<Longrightarrow>
    \<exists>k. m' = copied m d s k \<and> d' = d + k \<and> s' = s + k \<and> n = k + n'"
proof (induction n arbitrary: m d s rule: less_induct)
  case (less n)
  show ?case
  proof (cases "8 \<le> n")
    case True
    with less.prems(1) have
      "memcpy_words (copied m d s 8) (d + 8) (s + 8) (n - 8) = (m', d', s', n')"
      by (subst (asm) memcpy_words.simps) (simp add: store64_copy)
    moreover from True less.prems(2) have ok: "forward_ok (d + 8) (s + 8) (n - 8)"
      by (auto simp: forward_ok_def)
    ultimately obtain k where k: "m' = copied (copied m d s 8) (d + 8) (s + 8) k"
      "d' = d + 8 + k" "s' = s + 8 + k" "n - 8 = k + n'"
      using less.IH [of "n - 8" "copied m d s 8" "d + 8" "s + 8"] True by auto
    moreover from k True less.prems(2) have "forward_ok d s (8 + k)"
      by (auto simp: forward_ok_def)
    ultimately show ?thesis
      using True by (intro exI [of _ "8 + k"]) (simp add: copied_copied)
  next
    case False
    with less.prems show ?thesis
      by (intro exI [of _ 0]) (simp add: memcpy_words.simps [of m d s n])
  qed
qed

lemma memcpy_tail_spec: "forward_ok d s n \<Longrightarrow> memcpy_tail m d s n = copied m d s n"
proof (induction m d s n rule: memcpy_tail.induct)
  case (1 m d s)
  then show ?case by simp
next
  case (2 m d s n)
  from 2(2) have "forward_ok (Suc d) (Suc s) n" by (rule forward_ok_Suc)
  with 2 show ?case by (simp add: copied_poke)
qed

lemma memcpy_copied:
  assumes ok: "forward_ok d s n"
  shows "memcpy m d s n = copied m d s n"
proof (cases "(d XOR s) AND 7 = 0")
  case True
  obtain m1 d1 s1 n1 where 1: "memcpy_align m d s n = (m1, d1, s1, n1)"
    by (metis prod_cases4)
  from memcpy_align_spec [OF this ok] obtain k where
    k: "m1 = copied m d s k" "d1 = d + k" "s1 = s + k" "n = k + n1" by auto
  have ok1: "forward_ok d1 s1 n1"
    using ok k by (auto simp: forward_ok_def)
  obtain m2 d2 s2 n2 where 2: "memcpy_words m1 d1 s1 n1 = (m2, d2, s2, n2)"
    by (metis prod_cases4)
  from memcpy_words_spec [OF this ok1] obtain j where
    j: "m2 = copied m1 d1 s1 j" "d2 = d1 + j" "s2 = s1 + j" "n1 = j + n2" by auto
  have ok2: "forward_ok d2 s2 n2" "forward_ok d s (k + j)"
    using ok k j by (auto simp: forward_ok_def)
  have "memcpy m d s n = memcpy_tail m2 d2 s2 n2"
    by (simp add: memcpy_def True 1 2)
  also have "\<dots> = copied (copied m d s (k + j)) (d + (k + j)) (s + (k + j)) n2"
    using ok2 k j by (simp add: memcpy_tail_spec copied_copied add.assoc)
  also have "\<dots> = copied m d s n"
    using ok k j by (simp add: copied_copied add.assoc)
  finally show ?thesis .
next
  case False
  then show ?thesis by (simp add: memcpy_def memcpy_tail_spec [OF ok])
qed

lemma memmove_back_copied: "d > s \<Longrightarrow> memmove_back m (d + n) (s + n) n = copied m d s n"
proof (induction n arbitrary: m)
  case (Suc n)
  then show ?case
    by (auto simp: copied_def poke_def fun_eq_iff le_less_Suc_eq)
qed simp

section \<open>Comparing and measuring\<close>

fun memcmp :: "u8 list \<Rightarrow> u8 list \<Rightarrow> nat \<Rightarrow> int" where
  "memcmp p q 0 = 0"
| "memcmp p q (Suc n) =
     (if deref p \<noteq> deref q then uint (deref p) - uint (deref q)
      else memcmp (tl p) (tl q) n)"

fun strlen :: "cstring \<Rightarrow> nat" where
  "strlen [] = 0"
| "strlen (c # s) = (if c = 0 then 0 else Suc (strlen s))"

fun strcmp :: "cstring \<Rightarrow> cstring \<Rightarrow> int" where
  "strcmp [] b = - uint (deref b)"
| "strcmp (x # a) b =
     (if x \<noteq> 0 \<and> x = deref b then strcmp a (tl b) else uint x - uint (deref b))"

fun strncmp :: "cstring \<Rightarrow> cstring \<Rightarrow> nat \<Rightarrow> int" where
  "strncmp a b 0 = 0"
| "strncmp a b (Suc n) =
     (if deref a \<noteq> 0 \<and> deref a = deref b then strncmp (tl a) (tl b) n
      else uint (deref a) - uint (deref b))"

section \<open>Searching\<close>

text \<open>A \<open>char *\<close> result is the string it points at, and \<open>None\<close> is \<open>NULL\<close>.\<close>

fun strchr :: "cstring \<Rightarrow> u8 \<Rightarrow> cstring option" where
  "strchr [] c = (if c = 0 then Some [] else None)"
| "strchr (x # s) c =
     (if x = 0 then (if c = 0 then Some (x # s) else None)
      else if x = c then Some (x # s) else strchr s c)"

fun strrchr_loop :: "cstring \<Rightarrow> u8 \<Rightarrow> cstring option \<Rightarrow> cstring option" where
  "strrchr_loop [] c found = (if c = 0 then Some [] else found)"
| "strrchr_loop (x # s) c found =
     (if x = 0 then (if c = 0 then Some (x # s) else found)
      else strrchr_loop s c (if x = c then Some (x # s) else found))"

definition strrchr :: "cstring \<Rightarrow> u8 \<Rightarrow> cstring option" where
  "strrchr s c = strrchr_loop s c None"

fun strstr_loop :: "cstring \<Rightarrow> cstring \<Rightarrow> nat \<Rightarrow> cstring option" where
  "strstr_loop [] needle nlen = None"
| "strstr_loop (h # hay) needle nlen =
     (if h = 0 then None
      else if h = deref needle \<and> strncmp (h # hay) needle nlen = 0 then Some (h # hay)
      else strstr_loop hay needle nlen)"

definition strstr :: "cstring \<Rightarrow> cstring \<Rightarrow> cstring option" where
  "strstr hay needle =
     (if deref needle = 0 then Some hay else strstr_loop hay needle (strlen needle))"

section \<open>Copying strings into buffers\<close>

text \<open>
  A destination buffer is the list of its bytes.  A write outside it is an error, the
  value \<open>None\<close>: the theorems below show which calls never reach it.
\<close>

definition buf_set :: "u8 list \<Rightarrow> nat \<Rightarrow> u8 \<Rightarrow> u8 list option" where
  "buf_set b i v = (if i < length b then Some (b[i := v]) else None)"

definition buf_copy :: "u8 list \<Rightarrow> nat \<Rightarrow> u8 list \<Rightarrow> u8 list option" where
  "buf_copy b off bytes =
     (if off + length bytes \<le> length b
      then Some (take off b @ bytes @ drop (off + length bytes) b) else None)"

text \<open>The C string a buffer holds: its bytes up to the first NUL.\<close>

definition cstr_of :: "u8 list \<Rightarrow> cstring" where
  "cstr_of b = takeWhile (\<lambda>c. c \<noteq> 0) b"

fun strcpy_loop :: "u8 list \<Rightarrow> nat \<Rightarrow> cstring \<Rightarrow> u8 list option" where
  "strcpy_loop d i [] = buf_set d i 0"
| "strcpy_loop d i (c # s) =
     (case buf_set d i c of None \<Rightarrow> None
      | Some d' \<Rightarrow> if c = 0 then Some d' else strcpy_loop d' (i + 1) s)"

definition strcpy :: "u8 list \<Rightarrow> cstring \<Rightarrow> u8 list option" where
  "strcpy d s = strcpy_loop d 0 s"

fun strncpy_loop :: "u8 list \<Rightarrow> nat \<Rightarrow> cstring \<Rightarrow> nat \<Rightarrow> u8 list option" where
  "strncpy_loop d i s 0 = Some d"
| "strncpy_loop d i s (Suc n) =
     (if deref s \<noteq> 0
      then (case buf_set d i (deref s) of None \<Rightarrow> None
            | Some d' \<Rightarrow> strncpy_loop d' (i + 1) (tl s) n)
      else (case buf_set d i 0 of None \<Rightarrow> None
            | Some d' \<Rightarrow> strncpy_loop d' (i + 1) [] n))"

definition strncpy :: "u8 list \<Rightarrow> cstring \<Rightarrow> nat \<Rightarrow> u8 list option" where
  "strncpy d s n = strncpy_loop d 0 s n"

definition strlcpy :: "u8 list \<Rightarrow> cstring \<Rightarrow> nat \<Rightarrow> (u8 list \<times> nat) option" where
  "strlcpy d s sz =
     (let slen = strlen s in
      if sz \<noteq> 0 then
        (let copy = (if slen \<ge> sz then sz - 1 else slen)
         in case buf_copy d 0 (take copy s) of None \<Rightarrow> None
            | Some d1 \<Rightarrow> (case buf_set d1 copy 0 of None \<Rightarrow> None | Some d2 \<Rightarrow> Some (d2, slen)))
      else Some (d, slen))"

fun nul_before :: "u8 list \<Rightarrow> nat \<Rightarrow> nat" where
  "nul_before d 0 = 0"
| "nul_before [] sz = 0"
| "nul_before (c # d) (Suc sz) = (if c \<noteq> 0 then Suc (nul_before d sz) else 0)"

definition strlcat :: "u8 list \<Rightarrow> cstring \<Rightarrow> nat \<Rightarrow> (u8 list \<times> nat) option" where
  "strlcat d s sz =
     (let dlen = nul_before d sz; slen = strlen s in
      if dlen = sz then Some (d, sz + slen)
      else
        (let room = sz - dlen; copy = (if slen \<ge> room then room - 1 else slen)
         in case buf_copy d dlen (take copy s) of None \<Rightarrow> None
            | Some d1 \<Rightarrow> (case buf_set d1 (dlen + copy) 0 of None \<Rightarrow> None
                         | Some d2 \<Rightarrow> Some (d2, dlen + slen))))"

section \<open>Numbers\<close>

text \<open>
  \<open>long\<close> arithmetic that overflows has no defined value in C, so \<open>strtol\<close> returns an
  option, with \<open>None\<close> for a magnitude above \<open>LONG_MAX\<close>.
\<close>

fun strtol_space :: "cstring \<Rightarrow> cstring" where
  "strtol_space (c # s) = (if c = 32 \<or> c = 9 \<or> c = 10 then strtol_space s else c # s)"
| "strtol_space [] = []"

definition strtol_digit :: "u8 \<Rightarrow> nat option" where
  "strtol_digit c =
     (if 48 \<le> c \<and> c \<le> 57 then Some (unat c - 48)
      else if 97 \<le> c \<and> c \<le> 122 then Some (unat c - 97 + 10)
      else if 65 \<le> c \<and> c \<le> 90 then Some (unat c - 65 + 10)
      else None)"

fun strtol_loop :: "nat \<Rightarrow> int \<Rightarrow> cstring \<Rightarrow> (int \<times> cstring) option" where
  "strtol_loop base val [] = Some (val, [])"
| "strtol_loop base val (c # s) =
     (case strtol_digit c of None \<Rightarrow> Some (val, c # s)
      | Some d \<Rightarrow>
          if d \<ge> base then Some (val, c # s)
          else if val * int base + int d < 2 ^ 63
               then strtol_loop base (val * int base + int d) s
               else None)"

definition strtol :: "cstring \<Rightarrow> nat \<Rightarrow> (int \<times> cstring) option" where
  "strtol s base =
     (let s = strtol_space s;
          (neg, s) = (if deref s = 45 then (True, tl s)
                      else if deref s = 43 then (False, tl s) else (False, s));
          (base, s) = (if (base = 0 \<or> base = 16) \<and> ch s 0 = 48 \<and> (ch s 1 = 120 \<or> ch s 1 = 88)
                       then (16, drop 2 s)
                       else if base = 0 then (if ch s 0 = 48 then 8 else 10, s)
                       else (base, s))
      in case strtol_loop base 0 s of None \<Rightarrow> None
         | Some (val, rest) \<Rightarrow> Some (if neg then - val else val, rest))"

text \<open>\<open>atoi\<close> (in \<open>malloc.c\<close>) narrows the result to a 32-bit \<open>int\<close>.\<close>

definition atoi :: "cstring \<Rightarrow> int option" where
  "atoi s = (case strtol s 10 of None \<Rightarrow> None | Some (v, _) \<Rightarrow> Some (sint (word_of_int v :: u32)))"

section \<open>UTF-8\<close>

definition utf8_seq_len :: "u8 \<Rightarrow> nat" where
  "utf8_seq_len lead =
     (if lead < 0x80 then 1
      else if lead AND 0xE0 = 0xC0 then 2
      else if lead AND 0xF0 = 0xE0 then 3
      else if lead AND 0xF8 = 0xF0 then 4
      else 1)"

definition utf8_is_cont :: "u8 \<Rightarrow> bool" where
  "utf8_is_cont c \<longleftrightarrow> c AND 0xC0 = 0x80"

text \<open>\<open>utf8_decode\<close> returns the code point and the number of bytes used.\<close>

definition utf8_decode :: "u8 list \<Rightarrow> nat \<Rightarrow> u32 \<times> nat" where
  "utf8_decode s mx =
     (if mx = 0 then (0, 0)
      else
        (let b0 = ch s 0; n = utf8_seq_len b0 in
         if n = 1 \<or> n > mx then (if b0 < 0x80 then ucast b0 else 0xFFFD, 1)
         else if \<not> list_all (\<lambda>i. utf8_is_cont (ch s i)) [1..<n] then (0xFFFD, 1)
         else
           (let cp0 = (if n = 2 then ucast (b0 AND 0x1F)
                       else if n = 3 then ucast (b0 AND 0x0F)
                       else ucast (b0 AND 0x07))
            in (fold (\<lambda>i cp. push_bit 6 cp OR ucast (ch s i AND 0x3F)) [1..<n] cp0, n))))"

definition utf8_width :: "u32 \<Rightarrow> nat" where
  "utf8_width cp =
     (if (0x0300 \<le> cp \<and> cp \<le> 0x036F) \<or> (0x1160 \<le> cp \<and> cp \<le> 0x11FF) \<or>
         (0x200B \<le> cp \<and> cp \<le> 0x200F) \<or> (0x20D0 \<le> cp \<and> cp \<le> 0x20FF) \<or>
         (0xFE00 \<le> cp \<and> cp \<le> 0xFE0F) then 0
      else if cp < 0x1100 then 1
      else if (0x1100 \<le> cp \<and> cp \<le> 0x115F) \<or> (0x2E80 \<le> cp \<and> cp \<le> 0x303E) \<or>
              (0x3041 \<le> cp \<and> cp \<le> 0x33FF) \<or> (0x3400 \<le> cp \<and> cp \<le> 0x4DBF) \<or>
              (0x4E00 \<le> cp \<and> cp \<le> 0x9FFF) \<or> (0xA000 \<le> cp \<and> cp \<le> 0xA4CF) \<or>
              (0xA960 \<le> cp \<and> cp \<le> 0xA97F) \<or> (0xAC00 \<le> cp \<and> cp \<le> 0xD7A3) \<or>
              (0xF900 \<le> cp \<and> cp \<le> 0xFAFF) \<or> (0xFE10 \<le> cp \<and> cp \<le> 0xFE19) \<or>
              (0xFE30 \<le> cp \<and> cp \<le> 0xFE6F) \<or> (0xFF00 \<le> cp \<and> cp \<le> 0xFF60) \<or>
              (0xFFE0 \<le> cp \<and> cp \<le> 0xFFE6) \<or> (0x1F300 \<le> cp \<and> cp \<le> 0x1F64F) \<or>
              (0x1F900 \<le> cp \<and> cp \<le> 0x1F9FF) \<or> (0x20000 \<le> cp \<and> cp \<le> 0x3FFFD) then 2
      else 1)"

fun utf8_prev_loop :: "u8 list \<Rightarrow> nat \<Rightarrow> nat \<Rightarrow> nat" where
  "utf8_prev_loop s i 0 = i"
| "utf8_prev_loop s i (Suc left) =
     (if 0 < i \<and> utf8_is_cont (ch s i) then utf8_prev_loop s (i - 1) left else i)"

text \<open>The loop's counter \<open>back < 3\<close> runs up; the model counts the steps left.\<close>

definition utf8_prev :: "u8 list \<Rightarrow> nat \<Rightarrow> nat" where
  "utf8_prev s idx = (if idx = 0 then 0 else utf8_prev_loop s (idx - 1) 3)"

definition utf8_next :: "u8 list \<Rightarrow> nat \<Rightarrow> nat \<Rightarrow> nat" where
  "utf8_next s len idx =
     (if len \<le> idx then len
      else (let n = utf8_seq_len (ch s idx) in if idx + n > len then len else idx + n))"

lemma utf8_seq_len_cases: "utf8_seq_len c \<in> {1, 2, 3, 4}"
  by (simp add: utf8_seq_len_def)

lemma utf8_decode_used_pos: "0 < mx \<Longrightarrow> 0 < snd (utf8_decode s mx)"
  using utf8_seq_len_cases [of "ch s 0"] by (auto simp: utf8_decode_def Let_def)

lemma utf8_decode_used_le: "snd (utf8_decode s mx) \<le> mx"
  by (auto simp: utf8_decode_def Let_def)

function utf8_str_width :: "u8 list \<Rightarrow> nat \<Rightarrow> nat \<Rightarrow> nat \<Rightarrow> nat" where
  "utf8_str_width s len i w =
     (if i < len then
        (let (cp, used) = utf8_decode (drop i s) (len - i) in
         if used = 0 then w else utf8_str_width s len (i + used) (w + utf8_width cp))
      else w)"
  by pat_completeness auto
termination
  by (relation "measure (\<lambda>(s, len, i, w). len - i)") auto

declare utf8_str_width.simps [simp del]

section \<open>What the string routines compute\<close>

lemma strlen_length: "is_cstr s \<Longrightarrow> strlen s = length s"
  by (induction s) auto

lemma strlen_le: "strlen s \<le> length s"
  by (induction s) auto

lemma uint_u8_eq [simp]: "uint (a :: u8) = uint b \<longleftrightarrow> a = b"
  by (auto simp: word_uint_eq_iff)

lemma uint_eq_0 [simp]: "uint (a :: u8) = 0 \<longleftrightarrow> a = 0"
  by (auto simp: word_uint_eq_iff)

lemma uint_u8_neg [simp]: "0 < uint (a :: u8) \<longleftrightarrow> a \<noteq> 0"
  using uint_eq_0 [of a] by (metis uint_ge_0 less_le)

lemma strcmp_zero_iff: "is_cstr a \<Longrightarrow> is_cstr b \<Longrightarrow> strcmp a b = 0 \<longleftrightarrow> a = b"
proof (induction a b rule: strcmp.induct)
  case (1 b)
  then show ?case by (cases b) auto
next
  case (2 x a b)
  then show ?case by (cases b) auto
qed

lemma strcmp_neg_iff:
  "is_cstr a \<Longrightarrow> is_cstr b \<Longrightarrow> strcmp a b < 0 \<longleftrightarrow> ord_class.lexordp a b"
proof (induction a b rule: strcmp.induct)
  case (1 b)
  then show ?case by (cases b) auto
next
  case (2 x a b)
  show ?case
  proof (cases b)
    case Nil
    with 2 show ?thesis by auto
  next
    case (Cons y b')
    with 2 show ?thesis
      by (cases "uint x" "uint y" rule: linorder_cases) (auto simp: word_less_def)
  qed
qed

lemma strncmp_prefix:
  "is_cstr a \<Longrightarrow> is_cstr b \<Longrightarrow> strncmp a b (length b) = 0 \<longleftrightarrow> prefix b a"
proof (induction b arbitrary: a)
  case (Cons y b)
  then show ?case by (cases a) auto
qed simp

lemma strstr_loop_spec:
  assumes "is_cstr hay" "is_cstr needle" "needle \<noteq> []"
  shows "strstr_loop hay needle (length needle) =
    find (prefix needle) (map (\<lambda>i. drop i hay) [0..<length hay])"
  using assms(1)
proof (induction hay)
  case (Cons h hay)
  have eq: "map (\<lambda>i. drop i (h # hay)) [0..<length (h # hay)] =
      (h # hay) # map (\<lambda>i. drop i hay) [0..<length hay]"
    by (simp add: upt_conv_Cons map_Suc_upt [symmetric] del: upt_Suc)
  show ?case
  proof (cases "prefix needle (h # hay)")
    case True
    then have "deref needle = h"
      using assms(3) by (cases needle) auto
    moreover have "strncmp (h # hay) needle (length needle) = 0"
      using strncmp_prefix [OF Cons.prems assms(2)] True by simp
    ultimately show ?thesis
      using Cons True unfolding eq by simp
  next
    case False
    then have "strncmp (h # hay) needle (length needle) \<noteq> 0"
      using strncmp_prefix [OF Cons.prems assms(2)] by simp
    then show ?thesis
      using Cons False unfolding eq by simp
  qed
qed simp

lemma buf_set_Some: "i < length b \<Longrightarrow> buf_set b i v = Some (b[i := v])"
  by (simp add: buf_set_def)

lemma buf_copy_Some:
  "off + length xs \<le> length b \<Longrightarrow>
    buf_copy b off xs = Some (take off b @ xs @ drop (off + length xs) b)"
  by (simp add: buf_copy_def)

lemma cstr_of_append_0: "is_cstr s \<Longrightarrow> cstr_of (s @ 0 # t) = s"
  by (induction s) (auto simp: cstr_of_def)

lemma buf_nul_terminated:
  "\<lbrakk>off + length xs < length b\<rbrakk> \<Longrightarrow>
    (take off b @ xs @ drop (off + length xs) b)[off + length xs := 0] =
    take off b @ xs @ 0 # drop (Suc (off + length xs)) b"
  by (auto simp: list_update_append Cons_nth_drop_Suc [symmetric])

lemma buf_put_nul:
  assumes "off + length xs = p" "p < length b"
  shows "(case buf_copy b off xs of None \<Rightarrow> None
      | Some d1 \<Rightarrow> (case buf_set d1 p 0 of None \<Rightarrow> None
                   | Some d2 \<Rightarrow> Some (d2, r))) =
    Some (take off b @ xs @ 0 # drop (Suc p) b, r)"
  using assms buf_nul_terminated [of off xs b] by (auto simp: buf_copy_def buf_set_def)

lemma strlcpy_result:
  assumes "is_cstr s" "0 < n" "n \<le> length d"
  shows "strlcpy d s n =
    Some (take (n - 1) s @ 0 # drop (Suc (min (n - 1) (length s))) d, length s)"
proof (cases "n \<le> length s")
  case True
  then have "min (n - 1) (length s) = n - 1" "min (length s) (n - 1) = n - 1" by auto
  with True assms show ?thesis
    using buf_put_nul [of 0 "take (n - 1) s" "n - 1" d "length s"]
    by (simp add: strlcpy_def Let_def strlen_length)
next
  case False
  then have "min (n - 1) (length s) = length s" by auto
  with False assms show ?thesis
    using buf_put_nul [of 0 s "length s" d "length s"]
    by (simp add: strlcpy_def Let_def strlen_length)
qed

lemma is_cstr_cstr_of [simp]: "is_cstr (cstr_of d)"
  by (auto simp: is_cstr_def cstr_of_def dest: set_takeWhileD)

lemma cstr_split:
  assumes "length (cstr_of d) < length d"
  shows "\<exists>c r. d = c @ 0 # r \<and> is_cstr c \<and> cstr_of d = c"
proof -
  have d: "d = cstr_of d @ dropWhile (\<lambda>c. c \<noteq> 0) d"
    by (simp add: cstr_of_def)
  show ?thesis
  proof (cases "dropWhile (\<lambda>c. c \<noteq> 0) d")
    case Nil
    with d assms show ?thesis by simp
  next
    case (Cons x r)
    then have "x = 0" using hd_dropWhile [of "\<lambda>c. c \<noteq> 0" d] by simp
    with d Cons have "d = cstr_of d @ 0 # r" by simp
    then show ?thesis using is_cstr_cstr_of by blast
  qed
qed

lemma sublist_iff_prefix_drop:
  assumes "needle \<noteq> []"
  shows "sublist needle hay \<longleftrightarrow> (\<exists>i < length hay. prefix needle (drop i hay))"
proof
  assume "sublist needle hay"
  then obtain p q where "hay = p @ needle @ q" by (auto simp: sublist_def)
  then show "\<exists>i < length hay. prefix needle (drop i hay)"
    using assms by (intro exI [of _ "length p"]) auto
next
  assume "\<exists>i < length hay. prefix needle (drop i hay)"
  then obtain i q where "drop i hay = needle @ q" by (auto simp: prefix_def)
  then have "hay = take i hay @ needle @ q" by (metis append_take_drop_id)
  then show "sublist needle hay" unfolding sublist_def by blast
qed

lemma nul_before_cstr: "is_cstr c \<Longrightarrow> length c < n \<Longrightarrow> nul_before (c @ 0 # r) n = length c"
proof (induction c arbitrary: n)
  case Nil
  then show ?case by (cases n) auto
next
  case (Cons x c)
  then show ?case by (cases n) auto
qed

lemma strlcat_result:
  assumes "is_cstr s" "n \<le> length d" "length (cstr_of d) < n"
  shows "strlcat d s n =
    Some (take (n - 1) (cstr_of d @ s) @ 0 #
            drop (Suc (min (n - 1) (length (cstr_of d) + length s))) d,
          length (cstr_of d) + length s)"
proof -
  from assms obtain c r where d: "d = c @ 0 # r" "is_cstr c" "cstr_of d = c"
    using cstr_split [of d] by auto
  let ?k = "length c"
  have nb: "nul_before d n = ?k"
    using d assms(3) by (simp add: nul_before_cstr)
  have k: "?k < n" "?k \<noteq> n" using assms(3) d by auto
  show ?thesis
  proof (cases "n - ?k \<le> length s")
    case True
    then have m: "min (n - 1) (?k + length s) = n - 1" "min (length s) (n - ?k - 1) = n - ?k - 1"
      using k by auto
    have "strlcat d s n = Some (take ?k d @ take (n - ?k - 1) s @ 0 # drop (Suc (n - 1)) d,
        ?k + length s)"
      using buf_put_nul [of ?k "take (n - ?k - 1) s" "?k + (n - ?k - 1)" d "?k + length s"]
        True assms(1,2) k m
      by (simp add: strlcat_def Let_def strlen_length nb)
    then show ?thesis
      using d(3) k unfolding m d(3) by (simp add: d(1))
  next
    case False
    then have m: "min (n - 1) (?k + length s) = ?k + length s" using k by auto
    have "strlcat d s n = Some (take ?k d @ s @ 0 # drop (Suc (?k + length s)) d, ?k + length s)"
      using buf_put_nul [of ?k s "?k + length s" d "?k + length s"] False assms(1,2) k m
      by (simp add: strlcat_def Let_def strlen_length nb)
    then show ?thesis
      using d(3) k False unfolding m d(3) by (simp add: d(1))
  qed
qed

subsection \<open>UTF-8 against its encoding\<close>

text \<open>
  The encoder is the specification (RFC 3629's bit layout, up to four bytes); the C library
  only decodes.
\<close>

definition utf8_encode :: "u32 \<Rightarrow> u8 list" where
  "utf8_encode cp =
     (if cp < 0x80 then [ucast cp]
      else if cp < 0x800 then
        [0xC0 OR ucast (drop_bit 6 cp), 0x80 OR ucast (take_bit 6 cp)]
      else if cp < 0x10000 then
        [0xE0 OR ucast (drop_bit 12 cp), 0x80 OR ucast (take_bit 6 (drop_bit 6 cp)),
         0x80 OR ucast (take_bit 6 cp)]
      else
        [0xF0 OR ucast (drop_bit 18 cp), 0x80 OR ucast (take_bit 6 (drop_bit 12 cp)),
         0x80 OR ucast (take_bit 6 (drop_bit 6 cp)), 0x80 OR ucast (take_bit 6 cp)])"

lemma unat_2_power:
  assumes "k < LENGTH('a)" shows "unat (2 ^ k :: 'a::len word) = 2 ^ k"
proof -
  have "unat (of_nat (2 ^ k) :: 'a word) = 2 ^ k"
    using assms by (simp only: unsigned_of_nat take_bit_nat_eq_self_iff) simp
  then show ?thesis by simp
qed

lemma take_bit_word_less_iff:
  "k < LENGTH('a) \<Longrightarrow> take_bit k (w :: 'a::len word) = w \<longleftrightarrow> w < 2 ^ k"
  by (simp add: word_unat_eq_iff unsigned_take_bit_eq word_less_nat_alt take_bit_nat_eq_self_iff
      unat_2_power)

lemma bit_high_False:
  assumes "(w :: 'a::len word) < 2 ^ k" "k \<le> n" shows "\<not> bit w n"
proof (cases "k < LENGTH('a)")
  case True
  with assms(1) have "take_bit k w = w" by (simp add: take_bit_word_less_iff)
  then show ?thesis using assms(2) by (metis bit_take_bit_iff linorder_not_le)
next
  case False
  with assms(2) show ?thesis by (auto dest: bit_imp_le_length)
qed

lemma u8_bit_eqI: "(\<And>k. k < 8 \<Longrightarrow> bit (a :: u8) k = bit b k) \<Longrightarrow> a = b"
  by (rule bit_word_eqI) simp

lemma bit_u8_out: "8 \<le> j \<Longrightarrow> \<not> bit (b :: u8) j"
  by (auto dest: bit_imp_le_length)

lemma cont_byte:
  fixes w :: u32
  shows "utf8_is_cont (0x80 OR ucast (take_bit 6 w))"
    and "ucast ((0x80 OR ucast (take_bit 6 w) :: u8) AND 0x3F) = take_bit 6 w"
proof -
  show "utf8_is_cont (0x80 OR ucast (take_bit 6 w))"
    unfolding utf8_is_cont_def
    by (rule u8_bit_eqI, drule less_8_cases) (auto simp: bit_simps)
  have "bit (ucast ((0x80 OR ucast (take_bit 6 w) :: u8) AND 0x3F) :: u32) k = bit (take_bit 6 w) k"
    if "k < 32" for k
  proof (cases "k < 8")
    case True
    from less_8_cases [OF True] show ?thesis by (auto simp: bit_simps)
  next
    case False
    then show ?thesis by (auto simp: bit_simps dest: bit_imp_le_length)
  qed
  then show "ucast ((0x80 OR ucast (take_bit 6 w) :: u8) AND 0x3F) = take_bit 6 w"
    by (intro bit_word_eqI) simp
qed

lemma bit7_not_less: "bit (b :: u8) 7 \<Longrightarrow> \<not> b < 0x80"
  using bit_high_False [of b 7 7] by auto

lemma utf8_lead:
  fixes w :: u32
  shows "w < 0x20 \<Longrightarrow> utf8_seq_len (0xC0 OR ucast w) = 2"
    and "w < 0x10 \<Longrightarrow> utf8_seq_len (0xE0 OR ucast w) = 3"
    and "w < 0x08 \<Longrightarrow> utf8_seq_len (0xF0 OR ucast w) = 4"
    and "w < 0x20 \<Longrightarrow> ucast ((0xC0 OR ucast w :: u8) AND 0x1F) = w"
    and "w < 0x10 \<Longrightarrow> ucast ((0xE0 OR ucast w :: u8) AND 0x0F) = w"
    and "w < 0x08 \<Longrightarrow> ucast ((0xF0 OR ucast w :: u8) AND 0x07) = w"
proof -
  have masked: "(b OR ucast w) AND m = v"
    if "\<And>k. k < 8 \<Longrightarrow> (bit b k \<or> bit w k) \<and> bit m k \<longleftrightarrow> bit v k" for b m v :: u8
    by (rule u8_bit_eqI) (simp add: bit_simps that)
  have keep: "ucast ((b OR ucast w :: u8) AND m) = w"
    if "\<And>k. k < 8 \<Longrightarrow> (bit b k \<or> bit w k) \<and> bit m k \<longleftrightarrow> bit w k"
      and "\<And>k. 8 \<le> k \<Longrightarrow> \<not> bit w k" for b m :: u8
  proof (rule bit_word_eqI)
    fix k assume "k < LENGTH(32)"
    show "bit (ucast ((b OR ucast w :: u8) AND m) :: u32) k = bit w k"
    proof (cases "k < 8")
      case True
      then show ?thesis using that(1) [OF True] by (auto simp: bit_simps)
    next
      case False
      then show ?thesis using that(2) [of k] by (auto simp: bit_simps dest: bit_imp_le_length)
    qed
  qed
  have big: "\<not> (b OR ucast w) < (0x80 :: u8)" if "bit b 7" for b :: u8
    by (rule bit7_not_less) (simp add: bit_simps that)
  {
    assume "w < 0x20"
    then have hi: "\<not> bit w k" if "5 \<le> k" for k using bit_high_False [of w 5 k] that by simp
    have "(0xC0 OR ucast w) AND 0xE0 = (0xC0 :: u8)"
      by (rule masked, drule less_8_cases) (auto simp: hi)
    then show "utf8_seq_len (0xC0 OR ucast w) = 2" using big [of "0xC0"] by (simp add: utf8_seq_len_def)
    show "ucast ((0xC0 OR ucast w :: u8) AND 0x1F) = w"
      by (rule keep, drule less_8_cases) (auto simp: hi)
  }
  {
    assume "w < 0x10"
    then have hi: "\<not> bit w k" if "4 \<le> k" for k using bit_high_False [of w 4 k] that by simp
    have "(0xE0 OR ucast w) AND 0xE0 = (0xE0 :: u8)" "(0xE0 OR ucast w) AND 0xF0 = (0xE0 :: u8)"
      by (rule masked, drule less_8_cases, auto simp: hi)+
    then show "utf8_seq_len (0xE0 OR ucast w) = 3" using big [of "0xE0"] by (simp add: utf8_seq_len_def)
    show "ucast ((0xE0 OR ucast w :: u8) AND 0x0F) = w"
      by (rule keep, drule less_8_cases) (auto simp: hi)
  }
  {
    assume "w < 0x08"
    then have hi: "\<not> bit w k" if "3 \<le> k" for k using bit_high_False [of w 3 k] that by simp
    have "(0xF0 OR ucast w) AND 0xE0 = (0xE0 :: u8)" "(0xF0 OR ucast w) AND 0xF0 = (0xF0 :: u8)"
      "(0xF0 OR ucast w) AND 0xF8 = (0xF0 :: u8)"
      by (rule masked, drule less_8_cases, auto simp: hi)+
    then show "utf8_seq_len (0xF0 OR ucast w) = 4" using big [of "0xF0"] by (simp add: utf8_seq_len_def)
    show "ucast ((0xF0 OR ucast w :: u8) AND 0x07) = w"
      by (rule keep, drule less_8_cases) (auto simp: hi)
  }
qed

lemma utf8_ascii:
  fixes w :: u32
  assumes "w < 0x80"
  shows "(ucast w :: u8) < 0x80" "ucast (ucast w :: u8) = w"
proof -
  have hi: "\<not> bit w k" if "7 \<le> k" for k using bit_high_False [of w 7 k] assms that by simp
  have "take_bit 7 (ucast w :: u8) = ucast w"
    by (rule u8_bit_eqI) (use hi in \<open>auto simp: bit_simps intro: ccontr dest: leI\<close>)
  then show "(ucast w :: u8) < 0x80"
    using take_bit_word_less_iff [of 7 "ucast w :: u8"] by simp
  show "ucast (ucast w :: u8) = w"
    by (rule bit_word_eqI) (use hi in \<open>auto simp: bit_simps intro: ccontr dest: leI\<close>)
qed

lemma drop_bit_word_less:
  assumes "(w :: u32) < 2 ^ (m + n)" "m + n < 32" shows "drop_bit m w < 2 ^ n"
proof -
  have "take_bit n (drop_bit m w) = drop_bit m w"
    by (rule bit_word_eqI)
       (use bit_high_False [OF assms(1)] in \<open>auto simp: bit_simps intro: ccontr dest: leI\<close>)
  then show ?thesis using assms(2) by (simp add: take_bit_word_less_iff)
qed

lemma glue3:
  "(push_bit 12 (drop_bit 12 w) OR push_bit 6 (take_bit 6 (drop_bit 6 (w :: u32)))) OR
    take_bit 6 w = w"
proof (rule bit_word_eqI)
  fix n :: nat
  show "bit ((push_bit 12 (drop_bit 12 w) OR push_bit 6 (take_bit 6 (drop_bit 6 w))) OR
    take_bit 6 w) n = bit w n" if "n < LENGTH(32)"
    using that by (cases "n < 6"; cases "n < 12") (auto simp: bit_simps not_less)
qed

lemma glue4:
  "((push_bit 18 (drop_bit 18 w) OR push_bit 12 (take_bit 6 (drop_bit 12 (w :: u32)))) OR
    push_bit 6 (take_bit 6 (drop_bit 6 w))) OR take_bit 6 w = w"
proof (rule bit_word_eqI)
  fix n :: nat
  show "bit (((push_bit 18 (drop_bit 18 w) OR push_bit 12 (take_bit 6 (drop_bit 12 w))) OR
    push_bit 6 (take_bit 6 (drop_bit 6 w))) OR take_bit 6 w) n = bit w n" if "n < LENGTH(32)"
    using that by (cases "n < 6"; cases "n < 12"; cases "n < 18") (auto simp: bit_simps not_less)
qed

lemma glue_low:
  "push_bit 6 (drop_bit 6 (w :: u32)) OR take_bit 6 w = w"
  by (rule bit_word_eqI) (auto simp: bit_simps)

lemma utf8_decode_encode:
  assumes "cp < 0x200000"
  shows "utf8_decode (utf8_encode cp @ rest) (length (utf8_encode cp) + k) =
    (cp, length (utf8_encode cp))"
proof -
  consider "cp < 0x80" | "\<not> cp < 0x80" "cp < 0x800" | "\<not> cp < 0x800" "\<not> cp < 0x80" "cp < 0x10000"
    | "\<not> cp < 0x10000" "\<not> cp < 0x800" "\<not> cp < 0x80"
    by fastforce
  then show ?thesis
  proof cases
    case 1
    then show ?thesis
      by (simp add: utf8_decode_def utf8_encode_def utf8_seq_len_def utf8_ascii)
  next
    case 2
    then have "drop_bit 6 cp < 0x20" using drop_bit_word_less [of cp 6 5] by simp
    with 2 show ?thesis
      by (simp add: utf8_decode_def utf8_encode_def utf8_lead cont_byte upt_rec glue_low glue3 glue4)
  next
    case 3
    then have "drop_bit 12 cp < 0x10" using drop_bit_word_less [of cp 12 4] by simp
    with 3 show ?thesis
      by (simp add: utf8_decode_def utf8_encode_def utf8_lead cont_byte upt_rec glue_low glue3 glue4)
  next
    case 4
    then have "drop_bit 18 cp < 0x08" using drop_bit_word_less [of cp 18 3] assms by simp
    with 4 show ?thesis
      by (simp add: utf8_decode_def utf8_encode_def utf8_lead cont_byte upt_rec glue_low glue3 glue4)
  qed
qed


lemma utf8_lead_not_cont:
  fixes w :: u32
  shows "w < 0x80 \<Longrightarrow> \<not> utf8_is_cont (ucast w)"
    and "bit b 6 \<Longrightarrow> \<not> utf8_is_cont (b OR ucast w)"
proof -
  assume "w < 0x80"
  then have "\<not> bit w 7" using bit_high_False [of w 7 7] by simp
  then have "bit ((ucast w :: u8) AND 0xC0) 7 \<noteq> bit (0x80 :: u8) 7" by (simp add: bit_simps)
  then show "\<not> utf8_is_cont (ucast w)" unfolding utf8_is_cont_def by metis
next
  assume "bit b 6"
  then have "bit ((b OR ucast w :: u8) AND 0xC0) 6 \<noteq> bit (0x80 :: u8) 6" by (simp add: bit_simps)
  then show "\<not> utf8_is_cont (b OR ucast w)" unfolding utf8_is_cont_def by metis
qed

lemma utf8_encode_shape:
  assumes "cp < 0x200000"
  obtains lead conts where "utf8_encode cp = lead # conts" "\<not> utf8_is_cont lead"
    "utf8_seq_len lead = Suc (length conts)" "list_all utf8_is_cont conts" "length conts \<le> 3"
proof -
  consider "cp < 0x80" | "\<not> cp < 0x80" "cp < 0x800" | "\<not> cp < 0x800" "\<not> cp < 0x80" "cp < 0x10000"
    | "\<not> cp < 0x10000" "\<not> cp < 0x800" "\<not> cp < 0x80"
    by fastforce
  then show thesis
  proof cases
    case 1
    then show thesis
      using that [of "ucast cp" "[]"]
      by (simp add: utf8_encode_def utf8_seq_len_def utf8_ascii utf8_lead_not_cont)
  next
    case 2
    then have "drop_bit 6 cp < 0x20" using drop_bit_word_less [of cp 6 5] by simp
    with 2 show thesis
      using that [of "0xC0 OR ucast (drop_bit 6 cp)" "[0x80 OR ucast (take_bit 6 cp)]"]
      by (simp add: utf8_encode_def utf8_lead cont_byte utf8_lead_not_cont)
  next
    case 3
    then have "drop_bit 12 cp < 0x10" using drop_bit_word_less [of cp 12 4] by simp
    with 3 show thesis
      using that [of "0xE0 OR ucast (drop_bit 12 cp)"
        "[0x80 OR ucast (take_bit 6 (drop_bit 6 cp)), 0x80 OR ucast (take_bit 6 cp)]"]
      by (simp add: utf8_encode_def utf8_lead cont_byte utf8_lead_not_cont)
  next
    case 4
    then have "drop_bit 18 cp < 0x08" using drop_bit_word_less [of cp 18 3] assms by simp
    with 4 show thesis
      using that [of "0xF0 OR ucast (drop_bit 18 cp)"
        "[0x80 OR ucast (take_bit 6 (drop_bit 12 cp)), 0x80 OR ucast (take_bit 6 (drop_bit 6 cp)),
          0x80 OR ucast (take_bit 6 cp)]"]
      by (simp add: utf8_encode_def utf8_lead cont_byte utf8_lead_not_cont)
  qed
qed

lemma utf8_prev_loop_back:
  "\<lbrakk>j \<le> left; \<not> utf8_is_cont (ch s p); \<forall>t. 0 < t \<and> t \<le> j \<longrightarrow> utf8_is_cont (ch s (p + t))\<rbrakk>
    \<Longrightarrow> utf8_prev_loop s (p + j) left = p"
proof (induction j arbitrary: left)
  case 0
  then show ?case by (cases left) auto
next
  case (Suc j)
  then obtain left' where "left = Suc left'" by (cases left) auto
  with Suc show ?case by auto
qed

lemma utf8_step_back:
  assumes "cp < 0x200000" and s: "s = pre @ utf8_encode cp @ post"
  shows "utf8_next s (length s) (length pre) = length pre + length (utf8_encode cp)"
    and "utf8_prev s (length pre + length (utf8_encode cp)) = length pre"
proof -
  obtain lead conts where e: "utf8_encode cp = lead # conts" "\<not> utf8_is_cont lead"
    "utf8_seq_len lead = Suc (length conts)" "list_all utf8_is_cont conts" "length conts \<le> 3"
    using utf8_encode_shape [OF assms(1)] .
  have at0: "ch s (length pre) = lead"
    by (simp add: s e ch_def nth_append)
  have at: "ch s (length pre + t) = conts ! (t - 1)" if "0 < t" "t \<le> length conts" for t
    using that by (cases t) (simp_all add: s e ch_def nth_append)
  show "utf8_next s (length s) (length pre) = length pre + length (utf8_encode cp)"
    using at0 by (simp add: utf8_next_def e(3)) (simp add: s e)
  have "utf8_prev_loop s (length pre + length conts) 3 = length pre"
    by (rule utf8_prev_loop_back) (use e at0 at in \<open>auto simp: list_all_length\<close>)
  then show "utf8_prev s (length pre + length (utf8_encode cp)) = length pre"
    by (simp add: utf8_prev_def e)
qed

lemma utf8_str_width_text:
  assumes "\<forall>cp \<in> set cps. cp < 0x200000"
  shows "utf8_str_width (pre @ concat (map utf8_encode cps))
      (length pre + length (concat (map utf8_encode cps))) (length pre) w =
    w + sum_list (map utf8_width cps)"
  using assms
proof (induction cps arbitrary: pre w)
  case Nil
  then show ?case by (simp add: utf8_str_width.simps)
next
  case (Cons cp cps)
  let ?rest = "concat (map utf8_encode cps)"
  have cp: "cp < 0x200000" using Cons.prems by simp
  obtain lead conts where "utf8_encode cp = lead # conts"
    using utf8_encode_shape [OF cp] .
  then have pos: "0 < length (utf8_encode cp)" by simp
  have "utf8_decode (utf8_encode cp @ ?rest) (length (utf8_encode cp) + length ?rest) =
      (cp, length (utf8_encode cp))"
    by (rule utf8_decode_encode [OF cp])
  with Cons.IH [of "pre @ utf8_encode cp" "w + utf8_width cp"] Cons.prems pos show ?case
    by (subst utf8_str_width.simps) (simp add: add.assoc)
qed


section \<open>Properties\<close>

text \<open>
  C23: \<open>memmove\<close> copies correctly for every pair of regions, overlapping or not: afterwards
  byte \<open>i\<close> of the destination is what byte \<open>i\<close> of the source was before the call, and no
  other byte of memory has changed.  This covers the word-at-a-time path of \<open>memcpy\<close>, which
  \<open>memmove\<close> takes when the destination is below the source.
\<close>

theorem memmove_correct:
  "memmove m dst src n =
     (\<lambda>x. if dst \<le> x \<and> x < dst + n then m (src + (x - dst)) else m x)"
proof -
  have "memmove m dst src n = copied m dst src n"
  proof (cases "dst = src \<or> n = 0")
    case True
    then show ?thesis by (auto simp: memmove_def copied_def fun_eq_iff)
  next
    case False
    then show ?thesis
      by (simp add: memmove_def memcpy_copied forward_ok_def memmove_back_copied)
  qed
  then show ?thesis by (simp add: copied_def)
qed

text \<open>
  \<open>memset\<close> sets exactly the \<open>n\<close> bytes from \<open>dst\<close> to the low byte of \<open>c\<close>, whatever the
  alignment of \<open>dst\<close>: the byte prologue, the eight-byte stores of the replicated value and the
  byte epilogue meet without a gap or an overrun.
\<close>

theorem memset_correct:
  "memset m dst c n = (\<lambda>x. if dst \<le> x \<and> x < dst + n then ucast c else m x)"
  using memset_filled by (simp add: filled_def)

text \<open>
  \<open>strcmp\<close> orders C strings lexicographically by unsigned byte value and returns 0 exactly
  when the strings are equal.
\<close>

theorem strcmp_order:
  assumes "is_cstr a" "is_cstr b"
  shows "(strcmp a b = 0 \<longleftrightarrow> a = b) \<and> (strcmp a b < 0 \<longleftrightarrow> ord_class.lexordp a b)"
  using assms by (simp add: strcmp_zero_iff strcmp_neg_iff)

theorem strcmp_order_witness:
  "strcmp [97, 200] [97, 98] \<noteq> 0 \<and> strcmp [97] [97, 98] < 0"
  using strcmp_order [of "[97, 200]" "[97, 98]"] strcmp_order [of "[97]" "[97, 98]"]
  by simp

text \<open>
  \<open>strstr\<close> finds the first occurrence: it returns \<open>NULL\<close> exactly when the needle occurs
  nowhere in the haystack, and otherwise the suffix that starts at the least position at which
  the needle occurs.
\<close>

theorem strstr_first:
  assumes "is_cstr hay" "is_cstr needle"
  shows "(strstr hay needle = None \<longleftrightarrow> \<not> sublist needle hay) \<and>
    (\<forall>t. strstr hay needle = Some t \<longrightarrow>
      (\<exists>i \<le> length hay. t = drop i hay \<and> prefix needle t \<and>
        (\<forall>j < i. \<not> prefix needle (drop j hay))))"
proof (cases "needle = []")
  case True
  then show ?thesis by (auto simp: strstr_def intro: exI [of _ 0])
next
  case False
  with assms have dn: "deref needle \<noteq> 0" by (simp add: deref_zero_iff)
  have eq: "strstr hay needle = find (prefix needle) (map (\<lambda>i. drop i hay) [0..<length hay])"
    using strstr_loop_spec [OF assms False] dn assms(2) by (simp add: strstr_def strlen_length)
  have sub: "sublist needle hay \<longleftrightarrow> (\<exists>i < length hay. prefix needle (drop i hay))"
    by (rule sublist_iff_prefix_drop [OF False])
  show ?thesis
    unfolding eq sub by (auto simp: find_None_iff find_Some_iff) (metis less_imp_le)
qed

theorem strstr_first_witness:
  "strstr [97, 98, 97, 98, 99] [97, 98, 99] = Some [97, 98, 99]"
proof -
  have "is_cstr [97, 98, 97, 98, 99]" "is_cstr [97, 98, 99]" by simp_all
  note strstr_first [OF this]
  then show ?thesis by (simp add: strstr_def)
qed

text \<open>
  \<open>strlcpy\<close> and \<open>strlcat\<close> never write outside the \<open>size\<close> bytes they are given, always
  leave a terminated string there (the longest prefix of the wanted result that fits), and
  return the length the result would have needed, so that a result of at least \<open>size\<close> says
  that it was truncated.
\<close>

theorem strlcpy_strlcat_bounded:
  assumes "is_cstr s" "0 < n" "n \<le> length d" "length (cstr_of d) < n"
  shows "(\<exists>d'. strlcpy d s n = Some (d', length s) \<and> length d' = length d \<and>
       cstr_of d' = take (n - 1) s \<and> drop n d' = drop n d) \<and>
    (\<exists>d'. strlcat d s n = Some (d', length (cstr_of d @ s)) \<and> length d' = length d \<and>
       cstr_of d' = take (n - 1) (cstr_of d @ s) \<and> drop n d' = drop n d)"
proof -
  have shape: "length (take (n - 1) t @ 0 # drop (Suc (min (n - 1) (length t))) d) = length d \<and>
      cstr_of (take (n - 1) t @ 0 # drop (Suc (min (n - 1) (length t))) d) = take (n - 1) t \<and>
      drop n (take (n - 1) t @ 0 # drop (Suc (min (n - 1) (length t))) d) = drop n d"
    if "is_cstr t" for t :: cstring
    using assms(2,3) that
    by (cases n) (auto simp: cstr_of_append_0 is_cstr_take min_def drop_Cons')
  show ?thesis
    using strlcpy_result [OF assms(1-3)] strlcat_result [OF assms(1,3,4)]
      shape [OF assms(1)] shape [of "cstr_of d @ s"] assms(1) by simp
qed

theorem strlcpy_strlcat_bounded_witness:
  "\<exists>d'. strlcat [97, 0, 1, 2, 3] [98, 99, 100] 4 = Some (d', 4) \<and>
    cstr_of d' = [97, 98, 99] \<and> drop 4 d' = [3]"
proof -
  have "length (cstr_of [97, 0, 1, 2, 3]) < 4" by (simp add: cstr_of_def)
  from strlcpy_strlcat_bounded [of "[98, 99, 100]" 4 "[97, 0, 1, 2, 3]", OF _ _ _ this]
  show ?thesis by (auto simp: cstr_of_def)
qed

text \<open>
  C36: UTF-8 text is decoded and traversed correctly: decoding an encoded code point gives it
  back with its length, and from a character boundary \<open>utf8_next\<close> steps to the next boundary
  and \<open>utf8_prev\<close> back again, whatever bytes surround the character.
\<close>

theorem utf8_roundtrip:
  assumes "cp < 0x200000"
  shows "utf8_decode (utf8_encode cp @ rest) (length (utf8_encode cp @ rest)) =
      (cp, length (utf8_encode cp)) \<and>
    utf8_next (pre @ utf8_encode cp @ rest) (length (pre @ utf8_encode cp @ rest)) (length pre) =
      length (pre @ utf8_encode cp) \<and>
    utf8_prev (pre @ utf8_encode cp @ rest) (length (pre @ utf8_encode cp)) = length pre"
  using utf8_decode_encode [OF assms, of rest "length rest"]
    utf8_step_back [OF assms, of "pre @ utf8_encode cp @ rest" pre rest]
  by simp

theorem utf8_roundtrip_witness:
  "utf8_decode [0xED, 0x95, 0x9C, 65] (length [0xED, 0x95, 0x9C, 65 :: u8]) =
    (0xD55C, length [0xED, 0x95, 0x9C :: u8])"
proof -
  have "utf8_encode 0xD55C = [0xED, 0x95, 0x9C]" by (simp add: utf8_encode_def)
  moreover have "(0xD55C :: u32) < 0x200000" by simp
  note utf8_roundtrip [OF this, of "[65]" "[]"]
  ultimately show ?thesis by simp
qed

end
