(* ===== verification/RegexSet.thy ===== *)
theory RegexSet
  imports LpString
begin

text \<open>
  Character kinds and 256-bit character sets of the shared regular expression engine
  (\<open>userland/libc/src/regex.c\<close>, lines 135 to 168, and the escape and POSIX class tables).
  A set is the 32 bytes of the source; the interface the compiler and the matcher rely on
  is the locale \<open>byte_set\<close>.
\<close>

section \<open>Character kinds\<close>

text \<open>The source passes the byte as a non-negative \<open>int\<close>.\<close>

definition is_upper :: "nat \<Rightarrow> bool" where "is_upper c \<longleftrightarrow> 65 \<le> c \<and> c \<le> 90"
definition is_lower :: "nat \<Rightarrow> bool" where "is_lower c \<longleftrightarrow> 97 \<le> c \<and> c \<le> 122"
definition is_alpha :: "nat \<Rightarrow> bool" where "is_alpha c \<longleftrightarrow> is_upper c \<or> is_lower c"
definition is_digit :: "nat \<Rightarrow> bool" where "is_digit c \<longleftrightarrow> 48 \<le> c \<and> c \<le> 57"
definition is_alnum :: "nat \<Rightarrow> bool" where "is_alnum c \<longleftrightarrow> is_alpha c \<or> is_digit c"
definition is_space :: "nat \<Rightarrow> bool" where "is_space c \<longleftrightarrow> c = 32 \<or> (9 \<le> c \<and> c \<le> 13)"
definition is_blank :: "nat \<Rightarrow> bool" where "is_blank c \<longleftrightarrow> c = 32 \<or> c = 9"
definition is_punct :: "nat \<Rightarrow> bool" where
  "is_punct c \<longleftrightarrow> 32 < c \<and> c < 127 \<and> \<not> is_alnum c"
definition is_word :: "nat \<Rightarrow> bool" where "is_word c \<longleftrightarrow> is_alnum c \<or> c = 95"
definition is_xdigit :: "nat \<Rightarrow> bool" where
  "is_xdigit c \<longleftrightarrow> is_digit c \<or> (97 \<le> c \<and> c \<le> 102) \<or> (65 \<le> c \<and> c \<le> 70)"
definition lower :: "u8 \<Rightarrow> u8" where "lower c = (if is_upper (unat c) then c + 32 else c)"

lemmas kind_defs = is_upper_def is_lower_def is_alpha_def is_digit_def is_alnum_def is_space_def
  is_blank_def is_punct_def is_word_def is_xdigit_def

section \<open>256-bit sets\<close>

type_synonym cset = "u8 list"

definition set_empty :: cset where "set_empty = replicate 32 0"

definition set_add :: "cset \<Rightarrow> nat \<Rightarrow> cset" where
  "set_add s c = s[(c mod 256) div 8 := s ! ((c mod 256) div 8) OR push_bit (c mod 8) 1]"

definition set_has :: "cset \<Rightarrow> nat \<Rightarrow> bool" where
  "set_has s c \<longleftrightarrow> drop_bit (c mod 8) (s ! ((c mod 256) div 8)) AND 1 = 1"

function set_range :: "cset \<Rightarrow> nat \<Rightarrow> nat \<Rightarrow> cset" where
  "set_range s a b = (if a \<le> b then set_range (set_add s a) (Suc a) b else s)"
  by pat_completeness auto
termination by (relation "measure (\<lambda>(s, a, b). Suc b - a)") auto

definition set_or :: "cset \<Rightarrow> cset \<Rightarrow> cset" where
  "set_or d s = map (\<lambda>i. d ! i OR s ! i) [0..<32]"

definition set_not :: "cset \<Rightarrow> cset" where
  "set_not s = map (\<lambda>i. NOT (s ! i)) [0..<32]"

text \<open>Clearing bit 0 of byte 0: \<open>set[0] &= (u8)~1\<close>, no set ever holds the terminator.\<close>

definition set_drop_nul :: "cset \<Rightarrow> cset" where
  "set_drop_nul s = s[0 := s ! 0 AND NOT 1]"

definition set_fold :: "cset \<Rightarrow> cset" where
  "set_fold s =
     fold (\<lambda>c s. if set_has s c then set_add s (c - 32)
                 else if set_has s (c - 32) then set_add s c else s) [97..<123] s"

declare set_range.simps [simp del]

subsection \<open>The set of bytes a bit set stands for\<close>

definition cset_wf :: "cset \<Rightarrow> bool" where
  "cset_wf s \<longleftrightarrow> length s = 32"

definition cset_abs :: "cset \<Rightarrow> u8 set" where
  "cset_abs s = {c. set_has s (unat c)}"

lemma set_has_bit: "set_has s c \<longleftrightarrow> bit (s ! ((c mod 256) div 8)) (c mod 8)"
  by (simp add: set_has_def bit_iff_and_drop_bit_eq_1)

lemma set_has_mod [simp]: "set_has s (c mod 256) = set_has s c"
  by (simp add: set_has_bit mod_mod_cancel)

lemma byte_index_less [simp]: "(c mod 256) div 8 < (32 :: nat)"
  by (simp add: less_mult_imp_div_less)

lemma split_index_inj:
  fixes a b :: nat
  assumes "a < 256" "b < 256"
  shows "a div 8 = b div 8 \<and> a mod 8 = b mod 8 \<longleftrightarrow> a = b"
  by (metis div_mult_mod_eq)

lemma set_has_add:
  assumes "cset_wf s"
  shows "set_has (set_add s c) d \<longleftrightarrow> c mod 256 = d mod 256 \<or> set_has s d"
proof -
  have eq: "c mod 256 = d mod 256 \<longleftrightarrow>
      (c mod 256) div 8 = (d mod 256) div 8 \<and> c mod 8 = d mod 8"
    using split_index_inj [of "c mod 256" "d mod 256"] by (simp add: mod_mod_cancel)
  show ?thesis
  proof (cases "(c mod 256) div 8 = (d mod 256) div 8")
    case True
    then show ?thesis
      using assms eq by (auto simp: set_has_bit set_add_def cset_wf_def bit_simps)
  next
    case False
    then show ?thesis
      using eq by (auto simp: set_has_bit set_add_def)
  qed
qed

lemma set_has_empty [simp]: "\<not> set_has set_empty c"
  by (simp add: set_has_bit set_empty_def)

lemma set_has_or [simp]: "set_has (set_or d s) c \<longleftrightarrow> set_has d c \<or> set_has s c"
  by (simp add: set_has_bit set_or_def bit_simps)

lemma set_has_not [simp]: "set_has (set_not s) c \<longleftrightarrow> \<not> set_has s c"
  by (simp add: set_has_bit set_not_def bit_simps)

lemma cset_wf_ops [simp, intro]:
  "cset_wf set_empty" "cset_wf s \<Longrightarrow> cset_wf (set_add s c)" "cset_wf (set_or d s)"
  "cset_wf (set_not s)" "cset_wf s \<Longrightarrow> cset_wf (set_drop_nul s)"
  by (simp_all add: cset_wf_def set_empty_def set_add_def set_or_def set_not_def set_drop_nul_def)

lemma set_has_drop_nul:
  assumes "cset_wf s"
  shows "set_has (set_drop_nul s) c \<longleftrightarrow> c mod 256 \<noteq> 0 \<and> set_has s c"
proof (cases "(c mod 256) div 8 = 0")
  case True
  then have "c mod 256 < 8" by (simp add: div_eq_0_iff)
  moreover have "c mod 256 mod 8 = c mod 8" by (simp add: mod_mod_cancel)
  ultimately have "c mod 256 = c mod 8" by simp
  with True show ?thesis
    using assms by (auto simp: set_has_bit set_drop_nul_def cset_wf_def bit_simps)
next
  case False
  then have "c mod 256 \<noteq> 0" by auto
  with False show ?thesis
    using assms by (simp add: set_has_bit set_drop_nul_def cset_wf_def)
qed

lemma cset_wf_range [simp, intro]: "cset_wf s \<Longrightarrow> cset_wf (set_range s a b)"
  by (induction s a b rule: set_range.induct) (subst set_range.simps, auto)

lemma set_has_range:
  "cset_wf s \<Longrightarrow> b < 256 \<Longrightarrow> set_has (set_range s a b) c \<longleftrightarrow>
    (a \<le> c mod 256 \<and> c mod 256 \<le> b) \<or> set_has s c"
proof (induction s a b rule: set_range.induct)
  case (1 s a b)
  show ?case
  proof (cases "a \<le> b")
    case True
    then show ?thesis
      using 1 by (subst set_range.simps) (auto simp: set_has_add Suc_le_eq order.order_iff_strict)
  next
    case False
    then show ?thesis by (subst set_range.simps) auto
  qed
qed


section \<open>The set interface\<close>

text \<open>
  What the compiler relies on: adding a byte, union and complement act as on sets of bytes,
  and the 32-byte shape is kept.  The loops over all bytes are proved once here.
\<close>

locale byte_set =
  fixes empty :: "'s" and add :: "'s \<Rightarrow> nat \<Rightarrow> 's" and has :: "'s \<Rightarrow> nat \<Rightarrow> bool"
    and union :: "'s \<Rightarrow> 's \<Rightarrow> 's" and compl :: "'s \<Rightarrow> 's" and wf :: "'s \<Rightarrow> bool"
  assumes has_empty: "\<not> has empty c"
    and has_add: "wf s \<Longrightarrow> has (add s c) d \<longleftrightarrow> c mod 256 = d mod 256 \<or> has s d"
    and has_union: "has (union s t) c \<longleftrightarrow> has s c \<or> has t c"
    and has_compl: "has (compl s) c \<longleftrightarrow> \<not> has s c"
    and wf_empty: "wf empty"
    and wf_add: "wf s \<Longrightarrow> wf (add s c)"
    and wf_union: "wf (union s t)"
    and wf_compl: "wf (compl s)"
begin

lemma wf_add_loop: "wf s \<Longrightarrow> wf (fold (\<lambda>i s. if P i then add s i else s) xs s)"
  by (induction xs arbitrary: s) (auto simp: wf_add)

lemma has_add_loop:
  "wf s \<Longrightarrow> has (fold (\<lambda>i s. if P i then add s i else s) xs s) d \<longleftrightarrow>
    (\<exists>i \<in> set xs. P i \<and> i mod 256 = d mod 256) \<or> has s d"
  by (induction xs arbitrary: s) (auto simp: wf_add has_add)

lemma has_add_bytes:
  "d < 256 \<Longrightarrow> has (fold (\<lambda>i s. if P i then add s i else s) [1..<256] empty) d \<longleftrightarrow> d \<noteq> 0 \<and> P d"
proof -
  assume d: "d < 256"
  have "has (fold (\<lambda>i s. if P i then add s i else s) [1..<256] empty) d \<longleftrightarrow>
      (\<exists>i \<in> set [1..<256]. P i \<and> i mod 256 = d mod 256)"
    by (simp add: has_add_loop [OF wf_empty] has_empty)
  with d show ?thesis by auto
qed

lemma de_morgan: "has (compl (union s t)) c \<longleftrightarrow> has (compl s) c \<and> has (compl t) c"
  by (simp add: has_union has_compl)

end

interpretation cset: byte_set set_empty set_add set_has set_or set_not cset_wf
  by unfold_locales (auto simp: set_has_add)

subsection \<open>Case folding\<close>

lemma set_fold_wf: "cset_wf s \<Longrightarrow> cset_wf (set_fold s)"
proof -
  have "cset_wf s \<Longrightarrow> cset_wf (fold (\<lambda>c s. if set_has s c then set_add s (c - 32)
      else if set_has s (c - 32) then set_add s c else s) xs s)" for xs
    by (induction xs arbitrary: s) auto
  then show "cset_wf s \<Longrightarrow> cset_wf (set_fold s)" unfolding set_fold_def .
qed

text \<open>One step of the folding loop looks at one letter only, so the letters do not interact.\<close>

lemma set_fold_loop:
  assumes "cset_wf s" "distinct xs" "set xs \<subseteq> {97..<123}" "d < 256"
  shows "set_has (fold (\<lambda>c s. if set_has s c then set_add s (c - 32)
      else if set_has s (c - 32) then set_add s c else s) xs s) d \<longleftrightarrow>
    set_has s d \<or> (d \<in> set xs \<and> set_has s (d - 32)) \<or> (d + 32 \<in> set xs \<and> set_has s (d + 32))"
  using assms
proof (induction xs arbitrary: s)
  case (Cons c xs)
  let ?s = "if set_has s c then set_add s (c - 32)
      else if set_has s (c - 32) then set_add s c else s"
  have c: "97 \<le> c" "c < 123" using Cons.prems by auto
  have range: "\<And>x. x \<in> set xs \<Longrightarrow> 97 \<le> x \<and> x < 123" using Cons.prems by auto
  have same: "set_has ?s e = set_has s e" if "e < 256" "e \<noteq> c" "e \<noteq> c - 32" for e
    using that c Cons.prems(1) by (auto simp: set_has_add)
  have "cset_wf ?s" using Cons.prems(1) by auto
  then have IH: "set_has (fold (\<lambda>c s. if set_has s c then set_add s (c - 32)
      else if set_has s (c - 32) then set_add s c else s) xs ?s) d \<longleftrightarrow>
    set_has ?s d \<or> (d \<in> set xs \<and> set_has ?s (d - 32)) \<or> (d + 32 \<in> set xs \<and> set_has ?s (d + 32))"
    using Cons by simp
  have "d \<in> set xs \<Longrightarrow> set_has ?s (d - 32) = set_has s (d - 32)"
    by (rule same) (use range [of d] Cons.prems c in \<open>auto simp: eq_diff_iff\<close>)
  moreover have "d + 32 \<in> set xs \<Longrightarrow> set_has ?s (d + 32) = set_has s (d + 32)"
    by (rule same) (use range [of "d + 32"] Cons.prems c in auto)
  moreover have "set_has ?s d \<longleftrightarrow> set_has s d \<or> (d = c \<and> set_has s (d - 32)) \<or>
      (d + 32 = c \<and> set_has s (d + 32))"
    using c Cons.prems(1,4) by (auto simp: set_has_add)
  ultimately show ?case unfolding fold_simps comp_apply IH by auto
qed simp

lemma set_has_fold:
  "cset_wf s \<Longrightarrow> d < 256 \<Longrightarrow> set_has (set_fold s) d \<longleftrightarrow>
    set_has s d \<or> (is_lower d \<and> set_has s (d - 32)) \<or> (is_upper d \<and> set_has s (d + 32))"
proof -
  assume "cset_wf s" "d < 256"
  then have "set_has (set_fold s) d \<longleftrightarrow> set_has s d \<or>
      (d \<in> {97..<123} \<and> set_has s (d - 32)) \<or> (d + 32 \<in> {97..<123} \<and> set_has s (d + 32))"
    unfolding set_fold_def
    using set_fold_loop [of s "[97..<123]" d, unfolded set_upt, OF _ distinct_upt order_refl] by blast
  then show ?thesis by (auto simp: is_lower_def is_upper_def)
qed

section \<open>Escapes and POSIX classes\<close>

text \<open>\<open>esc_char\<close>: the byte \<open>\c\<close> stands for; \<open>None\<close> is the source's -1.\<close>

definition esc_char :: "u8 \<Rightarrow> u8 option" where
  "esc_char c =
     (if c = of_char CHR ''n'' then Some 10
      else if c = of_char CHR ''t'' then Some 9
      else if c = of_char CHR ''r'' then Some 13
      else if c = of_char CHR ''f'' then Some 12
      else if c = of_char CHR ''v'' then Some 11
      else if c = of_char CHR ''a'' then Some 7
      else if c = of_char CHR ''e'' then Some 27
      else if c \<in> set (cs ''wWsSdD'') then None
      else Some c)"

definition esc_set :: "u8 \<Rightarrow> cset \<Rightarrow> cset option" where
  "esc_set c s =
     (let kind = (if c \<in> set (cs ''wW'') then Some is_word
                  else if c \<in> set (cs ''sS'') then Some is_space
                  else if c \<in> set (cs ''dD'') then Some is_digit else None)
      in case kind of None \<Rightarrow> None
         | Some P \<Rightarrow>
             (let tmp = fold (\<lambda>i t. if P i then set_add t i else t) [1..<256] set_empty;
                  tmp = (if is_upper (unat c) then set_drop_nul (set_not tmp) else tmp)
              in Some (set_or s tmp)))"

definition posix_names :: "cstring list" where
  "posix_names = map cs [''alpha'', ''digit'', ''alnum'', ''space'', ''upper'', ''lower'',
     ''punct'', ''xdigit'', ''blank'']"

fun posix_kind_loop :: "cstring list \<Rightarrow> nat \<Rightarrow> cstring \<Rightarrow> nat \<Rightarrow> nat option" where
  "posix_kind_loop [] i n len = None"
| "posix_kind_loop (nm # nms) i n len =
     (if strlen nm = len \<and> strncmp nm n len = 0 then Some i
      else posix_kind_loop nms (i + 1) n len)"

definition posix_kind :: "cstring \<Rightarrow> nat \<Rightarrow> nat option" where
  "posix_kind n len = posix_kind_loop posix_names 0 n len"

definition posix_has :: "nat \<Rightarrow> nat \<Rightarrow> bool" where
  "posix_has k c =
     (if k = 0 then is_alpha c else if k = 1 then is_digit c else if k = 2 then is_alnum c
      else if k = 3 then is_space c else if k = 4 then is_upper c else if k = 5 then is_lower c
      else if k = 6 then is_punct c else if k = 7 then is_xdigit c else is_blank c)"

lemma esc_set_wf: "esc_set c s = Some t \<Longrightarrow> cset_wf t"
  by (auto simp: esc_set_def Let_def split: option.splits if_splits)

lemma esc_set_no_nul: "esc_set c s = Some t \<Longrightarrow> \<not> set_has s 0 \<Longrightarrow> \<not> set_has t 0"
proof -
  have wf: "cset_wf (fold (\<lambda>i t. if P i then set_add t i else t) [1..<256] set_empty)" for P
    by (rule cset.wf_add_loop) simp
  assume "esc_set c s = Some t" "\<not> set_has s 0"
  then show ?thesis
    using cset.has_add_bytes [of 0] wf
    by (auto simp: esc_set_def Let_def set_has_drop_nul split: option.splits if_splits)
qed

text \<open>
  The 32-byte sets behave as sets of bytes: adding a range, union, case folding and
  negation have exactly the members they should, and a negated class, like every class the
  compiler emits, never contains the terminating NUL.
\<close>

theorem set_operations_correct:
  assumes "cset_wf s" "a \<le> b" "b < 256" "d < 256"
  shows "(set_has (set_range s a b) d \<longleftrightarrow> (a \<le> d \<and> d \<le> b) \<or> set_has s d) \<and>
    (set_has (set_fold s) d \<longleftrightarrow>
       set_has s d \<or> (is_lower d \<and> set_has s (d - 32)) \<or> (is_upper d \<and> set_has s (d + 32))) \<and>
    (set_has (set_drop_nul (set_not (set_fold s))) d \<longleftrightarrow> d \<noteq> 0 \<and> \<not> set_has (set_fold s) d)"
  using assms by (simp add: set_has_range set_has_fold set_has_drop_nul set_fold_wf)

theorem set_operations_correct_witness:
  "set_has (set_fold (set_range set_empty 97 99)) 66 \<and>
    \<not> set_has (set_drop_nul (set_not (set_fold (set_range set_empty 97 99)))) 66"
proof -
  have wf: "cset_wf set_empty" "cset_wf (set_range set_empty 97 99)" by simp_all
  have "set_has (set_range set_empty 97 99) 98"
    using set_operations_correct [OF wf(1), of 97 99 98] by simp
  then show ?thesis
    using set_operations_correct [OF wf(2), of 0 0 66] by (simp add: is_upper_def is_lower_def)
qed

end
