(* ===== verification/RegexProg.thy ===== *)
theory RegexProg
  imports RegexSet
begin

text \<open>
  The instruction program of the regular expression engine and the compiler's code
  generator (\<open>userland/libc/src/regex.c\<close>, lines 77 to 435): emitting an instruction,
  inserting one in front of emitted code with relocation, the reachability closure, lifting
  a fragment out and stamping it down, and the repeat operators.
\<close>

section \<open>Instructions and the compiled program\<close>

text \<open>
  The source's \<open>reinst\<close> is a tag with a byte and two integers whose meaning depends on the
  tag.  Jump targets are integers because -1 stands for a hole that is still to be patched.
\<close>

datatype wordb = WB_EITHER | WB_BEGIN | WB_END

datatype reinst =
    I_CHAR u8
  | I_ANY
  | I_CLASS nat
  | I_MATCH
  | I_JMP int
  | I_SPLIT int int
  | I_SAVE nat
  | I_BOL
  | I_EOL
  | I_WORDB wordb
  | I_NWORDB
  | I_LOOP nat int

definition MAX_INST :: nat where "MAX_INST = 4096"
definition MAX_REG :: nat where "MAX_REG = 16"
definition RE_MAX_GROUPS :: nat where "RE_MAX_GROUPS = 10"
definition RE_MAX_CAPS :: nat where "RE_MAX_CAPS = 2 * RE_MAX_GROUPS"

text \<open>
  \<open>struct lpre\<close>.  \<open>prog\<close> holds exactly the \<open>n\<close> live instructions and \<open>cls\<close> the \<open>ncls\<close>
  live sets; the capacities are kept because growing an array can fail.
\<close>

record lpre =
  prog :: "reinst list"
  cap :: nat
  cls :: "cset list"
  clscap :: nat
  ngroup :: nat
  nreg :: nat
  icase :: bool
  save :: "int list"
  stcap :: nat
  jrcap :: nat
  has_first :: bool
  gave_up :: bool
  first :: cset

text \<open>
  The ways a compilation fails.  \<open>Stuck\<close> is not one of the source's: it stands for a loop of
  the model running out of the bound the model gives it, and is shown never to occur.
\<close>

datatype re_error =
    NoPattern
  | TooBig
  | NoMemory
  | NullableRepeats
  | ClassNameUnclosed
  | ClassNameUnknown cstring
  | UnmatchedBracket
  | RangeNotPlain
  | RangeBackwards u8 u8
  | TooManyGroups
  | UnmatchedOpen
  | UnmatchedClose
  | TrailingBackslash
  | Backreference u8
  | RepeatNoNumber
  | RepeatTooMany
  | UnmatchedBrace
  | RepeatBackwards nat nat
  | NothingToRepeat u8
  | Stuck

text \<open>
  Failing calls: \<open>Inl\<close> is the source's \<open>ps->err\<close> together with the failing return value.
  \<open>al\<close>, a parameter throughout, says whether an allocation of so many bytes succeeds.
\<close>

type_synonym 'a re_result = "re_error + 'a"

section \<open>Emitting and inserting\<close>

definition emit :: "(nat \<Rightarrow> bool) \<Rightarrow> lpre \<Rightarrow> reinst \<Rightarrow> (lpre \<times> nat) re_result" where
  "emit al re i =
     (let n = length (prog re) in
      if n \<ge> cap re then
        (let want = (if cap re \<noteq> 0 then cap re * 2 else 32);
             want = (if want > MAX_INST then MAX_INST else want)
         in if n \<ge> want then Inl TooBig
            else if \<not> al (want * 12) then Inl NoMemory
            else Inr (re\<lparr>prog := prog re @ [i], cap := want\<rparr>, n))
      else Inr (re\<lparr>prog := prog re @ [i]\<rparr>, n))"

fun relocate :: "int \<Rightarrow> reinst \<Rightarrow> reinst" where
  "relocate low (I_JMP x) = I_JMP (if x \<ge> low then x + 1 else x)"
| "relocate low (I_SPLIT x y) =
     I_SPLIT (if x \<ge> low then x + 1 else x) (if y \<ge> low then y + 1 else y)"
| "relocate low (I_LOOP r y) = I_LOOP r (if y \<ge> low then y + 1 else y)"
| "relocate low i = i"

definition insert_inst :: "(nat \<Rightarrow> bool) \<Rightarrow> lpre \<Rightarrow> nat \<Rightarrow> reinst \<Rightarrow> lpre re_result" where
  "insert_inst al re at ins =
     andthen (emit al re I_MATCH) (\<lambda>(re, _).
       (let p = prog re; n = length p;
            moved = take (at + 1) p @ drop at (take (n - 1) p);
            fixed = map (\<lambda>i. relocate (if i < at then int at + 1 else int at) (moved ! i)) [0..<n]
        in Inr (re\<lparr>prog := fixed[at := ins]\<rparr>)))"

section \<open>Reachability without consuming a byte\<close>

type_synonym closure_st = "bool list \<times> cset \<times> bool \<times> bool"

definition mark :: "nat \<Rightarrow> nat \<Rightarrow> int \<Rightarrow> closure_st \<Rightarrow> closure_st" where
  "mark start stop t st =
     (case st of (seen, s, any, moved) \<Rightarrow>
        if int start \<le> t \<and> t \<le> int stop \<and> \<not> seen ! (nat t - start)
        then (seen[nat t - start := True], s, any, True) else st)"

fun eps_targets :: "nat \<Rightarrow> reinst \<Rightarrow> int \<times> int" where
  "eps_targets i (I_SAVE _) = (int i + 1, -1)"
| "eps_targets i I_BOL = (int i + 1, -1)"
| "eps_targets i I_EOL = (int i + 1, -1)"
| "eps_targets i (I_WORDB _) = (int i + 1, -1)"
| "eps_targets i I_NWORDB = (int i + 1, -1)"
| "eps_targets i (I_JMP x) = (x, -1)"
| "eps_targets i (I_SPLIT x y) = (x, y)"
| "eps_targets i (I_LOOP _ y) = (y, -1)"
| "eps_targets i _ = (-1, -1)"

fun collect :: "lpre \<Rightarrow> reinst \<Rightarrow> cset \<Rightarrow> cset" where
  "collect re (I_CHAR c) s =
     (let s = set_add s (unat c)
      in if icase re \<and> is_lower (unat c) then set_add s (unat c - 32) else s)"
| "collect re (I_CLASS k) s = set_or s (cls re ! k)"
| "collect re _ s = s"

definition visit :: "lpre \<Rightarrow> nat \<Rightarrow> nat \<Rightarrow> nat \<Rightarrow> closure_st \<Rightarrow> closure_st" where
  "visit re start stop i st =
     (case st of (seen, s, any, moved) \<Rightarrow>
        if \<not> seen ! (i - start) then st
        else
          (let ins = prog re ! i; (t1, t2) = eps_targets i ins
           in mark start stop t2 (mark start stop t1
                (seen, collect re ins s, any \<or> ins = I_MATCH \<or> ins = I_ANY, moved))))"

definition closure_pass :: "lpre \<Rightarrow> nat \<Rightarrow> nat \<Rightarrow> bool list \<times> cset \<times> bool \<Rightarrow> closure_st" where
  "closure_pass re start stop st =
     (case st of (seen, s, any) \<Rightarrow>
        fold (visit re start stop) [start..<stop] (seen, s, any, False))"

definition unseen :: "bool list \<Rightarrow> nat" where
  "unseen seen = length (filter Not seen)"

lemma unseen_update:
  "i < length seen \<Longrightarrow> \<not> seen ! i \<Longrightarrow> Suc (unseen (seen[i := True])) = unseen seen"
proof (induction seen arbitrary: i)
  case (Cons b seen)
  then show ?case by (cases i) (auto simp: unseen_def)
qed simp

text \<open>A state after another one: more seen, and strictly more when \<open>moved\<close> was set anew.\<close>

definition later :: "closure_st \<Rightarrow> closure_st \<Rightarrow> bool" where
  "later st st' \<longleftrightarrow>
     (case (st, st') of ((seen, s, any, moved), (seen', s', any', moved')) \<Rightarrow>
        length seen' = length seen \<and> unseen seen' \<le> unseen seen \<and>
        (\<forall>i. seen ! i \<longrightarrow> i < length seen \<longrightarrow> seen' ! i) \<and>
        (moved' \<and> \<not> moved \<longrightarrow> unseen seen' < unseen seen) \<and> (moved \<longrightarrow> moved') \<and>
        (\<not> moved' \<longrightarrow> seen' = seen))"

lemma later_refl [simp]: "later st st"
  by (cases st) (simp add: later_def)

lemma later_trans: "later a b \<Longrightarrow> later b c \<Longrightarrow> later a c"
  by (cases a; cases b; cases c) (auto simp: later_def)

lemma mark_later:
  assumes "length (fst st) = stop - start + 1"
  shows "later st (mark start stop t st)"
proof -
  obtain seen s any moved where st: "st = (seen, s, any, moved)" by (cases st)
  show ?thesis
  proof (cases "int start \<le> t \<and> t \<le> int stop \<and> \<not> seen ! (nat t - start)")
    case True
    then have "nat t - start < length seen" using assms st by auto
    with True show ?thesis
      using unseen_update [of "nat t - start" seen]
      by (auto simp: st mark_def later_def nth_list_update)
  next
    case False
    then show ?thesis by (auto simp: st mark_def)
  qed
qed

lemma mark_length: "length (fst (mark start stop t st)) = length (fst st)"
  by (cases st) (simp add: mark_def)

lemma later_collect: "later (seen, s, any, moved) st \<Longrightarrow> later (seen, s', any', moved) st"
  by (cases st) (simp add: later_def)

lemma visit_later:
  assumes "length (fst st) = stop - start + 1"
  shows "later st (visit re start stop i st)"
proof -
  obtain seen s any moved where st: "st = (seen, s, any, moved)" by (cases st)
  obtain t1 t2 where t: "eps_targets i (prog re ! i) = (t1, t2)" by (cases "eps_targets i (prog re ! i)")
  let ?st = "(seen, collect re (prog re ! i) s,
    any \<or> prog re ! i = I_MATCH \<or> prog re ! i = I_ANY, moved)"
  have "later ?st (mark start stop t1 ?st)"
    by (rule mark_later) (use assms st in simp)
  moreover have "later (mark start stop t1 ?st) (mark start stop t2 (mark start stop t1 ?st))"
    by (rule mark_later) (use assms st in \<open>simp add: mark_length\<close>)
  ultimately have "later ?st (mark start stop t2 (mark start stop t1 ?st))"
    by (rule later_trans)
  then have "later st (mark start stop t2 (mark start stop t1 ?st))"
    unfolding st by (rule later_collect)
  then show ?thesis
    by (simp add: st visit_def t Let_def)
qed

lemma visit_length: "length (fst (visit re start stop i st)) = length (fst st)"
  by (cases st) (auto simp: visit_def mark_length Let_def split: prod.splits)

lemma fold_visit_later:
  "length (fst st) = stop - start + 1 \<Longrightarrow> later st (fold (visit re start stop) xs st)"
proof (induction xs arbitrary: st)
  case (Cons x xs)
  have "later (visit re start stop x st) (fold (visit re start stop) xs (visit re start stop x st))"
    by (rule Cons.IH) (use Cons.prems in \<open>simp add: visit_length\<close>)
  with visit_later [OF Cons.prems] show ?case
    by (auto intro: later_trans)
qed simp

lemma closure_pass_later:
  assumes "length seen = stop - start + 1"
  shows "later (seen, s, any, False) (closure_pass re start stop (seen, s, any))"
  using fold_visit_later [of "(seen, s, any, False)"] assms by (simp add: closure_pass_def)

function closure_loop :: "lpre \<Rightarrow> nat \<Rightarrow> nat \<Rightarrow> bool list \<times> cset \<times> bool \<Rightarrow> bool list \<times> cset \<times> bool"
where
  "closure_loop re start stop (seen, s, any) =
     (if length seen = stop - start + 1 then
        (let (seen', s', any', moved) = closure_pass re start stop (seen, s, any)
         in if moved then closure_loop re start stop (seen', s', any') else (seen', s', any'))
      else (seen, s, any))"
  by pat_completeness auto
termination
proof (relation "measure (\<lambda>(re, start, stop, seen, s, any). unseen seen)")
  fix re start stop seen s any x seen' y s' z any' moved
  assume "length seen = stop - start + 1"
    and "x = closure_pass re start stop (seen, s, any)"
    and "(seen', y) = x" "(s', z) = y" "(any', moved) = z" moved
  then show "((re, start, stop, seen', s', any'), re, start, stop, seen, s, any)
      \<in> measure (\<lambda>(re, start, stop, seen, s, any). unseen seen)"
    using closure_pass_later [of seen stop start s any re] by (auto simp: later_def)
qed simp

declare closure_loop.simps [simp del]

text \<open>
  \<open>closure\<close> returns whether the end of the stretch is reachable, the bytes collected and the
  \<open>any\<close> flag.  (The length test of \<open>closure_loop\<close> always holds: \<open>seen\<close> is allocated here.)
\<close>

definition closure ::
  "(nat \<Rightarrow> bool) \<Rightarrow> lpre \<Rightarrow> nat \<Rightarrow> nat \<Rightarrow> cset \<Rightarrow> bool \<Rightarrow> bool \<times> cset \<times> bool" where
  "closure al re start stop s any =
     (if \<not> al (stop - start + 1) then (True, s, any)
      else
        (let seen = (replicate (stop - start + 1) False)[0 := True];
             (seen, s, any) = closure_loop re start stop (seen, s, any)
         in (seen ! (stop - start), s, any)))"

section \<open>Fragments\<close>

fun shift_inst :: "int \<Rightarrow> reinst \<Rightarrow> reinst" where
  "shift_inst k (I_JMP x) = I_JMP (x + k)"
| "shift_inst k (I_SPLIT x y) = I_SPLIT (x + k) (y + k)"
| "shift_inst k (I_LOOP r y) = I_LOOP r (y + k)"
| "shift_inst k i = i"

definition frag_save :: "(nat \<Rightarrow> bool) \<Rightarrow> lpre \<Rightarrow> nat \<Rightarrow> reinst list re_result" where
  "frag_save al re start =
     (let L = length (prog re) - start in
      if \<not> al ((if L \<noteq> 0 then L else 1) * 12) then Inl NoMemory
      else Inr (map (shift_inst (- int start)) (drop start (prog re))))"

fun frag_emit_loop :: "(nat \<Rightarrow> bool) \<Rightarrow> lpre \<Rightarrow> nat \<Rightarrow> reinst list \<Rightarrow> lpre re_result" where
  "frag_emit_loop al re dst [] = Inr re"
| "frag_emit_loop al re dst (i # f) =
     andthen (emit al re (shift_inst (int dst) i)) (\<lambda>(re, _). frag_emit_loop al re dst f)"

definition frag_emit :: "(nat \<Rightarrow> bool) \<Rightarrow> lpre \<Rightarrow> reinst list \<Rightarrow> lpre re_result" where
  "frag_emit al re f = frag_emit_loop al re (length (prog re)) f"

section \<open>The repeat operators\<close>

fun set_x :: "reinst \<Rightarrow> int \<Rightarrow> reinst" where
  "set_x (I_JMP _) v = I_JMP v"
| "set_x (I_SPLIT _ y) v = I_SPLIT v y"
| "set_x i v = i"

fun set_y :: "reinst \<Rightarrow> int \<Rightarrow> reinst" where
  "set_y (I_SPLIT x _) v = I_SPLIT x v"
| "set_y (I_LOOP r _) v = I_LOOP r v"
| "set_y i v = i"

fun get_x :: "reinst \<Rightarrow> int" where
  "get_x (I_JMP x) = x" | "get_x (I_SPLIT x _) = x" | "get_x _ = 0"

fun get_y :: "reinst \<Rightarrow> int" where
  "get_y (I_SPLIT _ y) = y" | "get_y (I_LOOP _ y) = y" | "get_y _ = 0"

definition patch_x :: "lpre \<Rightarrow> nat \<Rightarrow> int \<Rightarrow> lpre" where
  "patch_x re s v = re\<lparr>prog := (prog re)[s := set_x (prog re ! s) v]\<rparr>"

definition patch_y :: "lpre \<Rightarrow> nat \<Rightarrow> int \<Rightarrow> lpre" where
  "patch_y re s v = re\<lparr>prog := (prog re)[s := set_y (prog re ! s) v]\<rparr>"

definition emit_star :: "(nat \<Rightarrow> bool) \<Rightarrow> lpre \<Rightarrow> nat \<Rightarrow> lpre re_result" where
  "emit_star al re start =
     (let (guard, _, _) = closure al re start (length (prog re)) set_empty False in
      if guard then
        (if nreg re \<ge> MAX_REG then Inl NullableRepeats
         else
           (let reg = RE_MAX_CAPS + nreg re; re = re\<lparr>nreg := nreg re + 1\<rparr> in
            andthen (insert_inst al re start (I_SAVE reg)) (\<lambda>re.
            andthen (insert_inst al re start (I_SPLIT (int start + 1) (-1))) (\<lambda>re.
            andthen (emit al re (I_LOOP reg (int start))) (\<lambda>(re, _).
            Inr (patch_y re start (int (length (prog re)))))))))
      else
        andthen (insert_inst al re start (I_SPLIT (int start + 1) (-1))) (\<lambda>re.
        andthen (emit al re (I_JMP (int start))) (\<lambda>(re, _).
        Inr (patch_y re start (int (length (prog re)))))))"

definition emit_opt :: "(nat \<Rightarrow> bool) \<Rightarrow> lpre \<Rightarrow> nat \<Rightarrow> lpre re_result" where
  "emit_opt al re start =
     andthen (insert_inst al re start (I_SPLIT (int start + 1) (-1))) (\<lambda>re.
     Inr (patch_y re start (int (length (prog re)))))"

definition emit_plus :: "(nat \<Rightarrow> bool) \<Rightarrow> lpre \<Rightarrow> nat \<Rightarrow> lpre re_result" where
  "emit_plus al re start =
     (let (nullable, _, _) = closure al re start (length (prog re)) set_empty False in
      if \<not> nullable then
        andthen (emit al re (I_SPLIT (int start) 0)) (\<lambda>(re, s).
        Inr (patch_y re s (int s + 1)))
      else
        andthen (frag_save al re start) (\<lambda>f.
        (let cs = length (prog re) in
         andthen (frag_emit al re f) (\<lambda>re. emit_star al re cs))))"

fun emit_copies :: "(nat \<Rightarrow> bool) \<Rightarrow> lpre \<Rightarrow> reinst list \<Rightarrow> nat \<Rightarrow> lpre re_result" where
  "emit_copies al re f 0 = Inr re"
| "emit_copies al re f (Suc k) = andthen (frag_emit al re f) (\<lambda>re. emit_copies al re f k)"

text \<open>The optional tail of \<open>{m,n}\<close>: each copy behind a SPLIT threaded onto \<open>chain\<close>.\<close>

fun emit_optional ::
  "(nat \<Rightarrow> bool) \<Rightarrow> lpre \<Rightarrow> reinst list \<Rightarrow> int \<Rightarrow> nat \<Rightarrow> (lpre \<times> int) re_result" where
  "emit_optional al re f chain 0 = Inr (re, chain)"
| "emit_optional al re f chain (Suc k) =
     andthen (emit al re (I_SPLIT 0 chain)) (\<lambda>(re, s).
     (let re = patch_x re s (int s + 1) in
      andthen (frag_emit al re f) (\<lambda>re. emit_optional al re f (int s) k)))"

fun patch_split_chain :: "nat \<Rightarrow> lpre \<Rightarrow> int \<Rightarrow> lpre re_result" where
  "patch_split_chain fuel re chain =
     (if chain < 0 then Inr re
      else (case fuel of 0 \<Rightarrow> Inl Stuck
            | Suc fuel \<Rightarrow>
                (let nx = get_y (prog re ! nat chain)
                 in patch_split_chain fuel (patch_y re (nat chain) (int (length (prog re)))) nx)))"

declare patch_split_chain.simps [simp del]

text \<open>\<open>n\<close> is \<open>None\<close> for \<open>{m,}\<close>, the source's negative \<open>n\<close>.\<close>

definition emit_rep :: "(nat \<Rightarrow> bool) \<Rightarrow> lpre \<Rightarrow> nat \<Rightarrow> nat \<Rightarrow> nat option \<Rightarrow> lpre re_result" where
  "emit_rep al re start m n =
     andthen (frag_save al re start) (\<lambda>f.
     (let re = re\<lparr>prog := take start (prog re)\<rparr> in
      case n of
        None \<Rightarrow>
          (if m = 0 then
             andthen (frag_emit al re f) (\<lambda>re'. emit_star al re' (length (prog re)))
           else
             andthen (emit_copies al re f (m - 1)) (\<lambda>re.
             andthen (frag_emit al re f) (\<lambda>re'. emit_plus al re' (length (prog re)))))
      | Some n \<Rightarrow>
          andthen (emit_copies al re f m) (\<lambda>re.
          andthen (emit_optional al re f (-1) (n - m)) (\<lambda>(re, chain).
          patch_split_chain (length (prog re)) re chain))))"

end
