(* ===== verification/RegexParse.thy ===== *)
theory RegexParse
  imports RegexProg
begin

text \<open>
  The one-pass compiler of the regular expression engine (\<open>userland/libc/src/regex.c\<close>, lines
  170 to 182 and 437 to 892): bracket expressions, the operators of the two syntaxes, atoms,
  repeats, concatenation, alternation and \<open>re_compile\<close>.  Every function takes the parser state
  and returns the new one or the error; the recursion through groups is bounded by the nine
  groups a pattern may have, and the scanning loops by the pattern's length.
\<close>

text \<open>The source's \<open>pst\<close>: its fields \<open>p\<close>, \<open>ere\<close> and \<open>re\<close>; \<open>err\<close> is the error result.\<close>

record pst =
  pat :: cstring
  is_ere :: bool
  rx :: lpre

section \<open>Bracket expressions\<close>

definition cls_new :: "(nat \<Rightarrow> bool) \<Rightarrow> lpre \<Rightarrow> cset \<Rightarrow> (lpre \<times> nat) re_result" where
  "cls_new al re s =
     (let n = length (cls re) in
      if n \<ge> clscap re then
        (let want = (if clscap re \<noteq> 0 then clscap re * 2 else 4)
         in if \<not> al (want * 32) then Inl NoMemory
            else Inr (re\<lparr>cls := cls re @ [s], clscap := want\<rparr>, n))
      else Inr (re\<lparr>cls := cls re @ [s]\<rparr>, n))"

fun until_colon :: "cstring \<Rightarrow> cstring" where
  "until_colon [] = []"
| "until_colon (c # s) = (if c \<noteq> 0 \<and> c \<noteq> of_char CHR '':'' then until_colon s else c # s)"

text \<open>
  One member of a bracket: the rest of the pattern, the set, and the byte, or \<open>None\<close> when a
  whole set was added (the source's -1).
\<close>

definition class_item :: "cstring \<Rightarrow> cset \<Rightarrow> (cstring \<times> cset \<times> u8 option) re_result" where
  "class_item q s =
     (if ch q 0 = of_char CHR ''['' \<and> ch q 1 = of_char CHR '':'' then
        (let e = until_colon (drop 2 q); len = length q - 2 - length e in
         if ch e 0 \<noteq> of_char CHR '':'' \<or> ch e 1 \<noteq> of_char CHR '']'' then Inl ClassNameUnclosed
         else
           (case posix_kind (drop 2 q) len of
              None \<Rightarrow> Inl (ClassNameUnknown (take len (drop 2 q)))
            | Some k \<Rightarrow>
                Inr (drop 2 e,
                     fold (\<lambda>c s. if posix_has k c then set_add s c else s) [1..<256] s,
                     None)))
      else if ch q 0 = of_char CHR 0x5C \<and> ch q 1 \<noteq> 0 then
        (case esc_set (ch q 1) s of
           Some s' \<Rightarrow> Inr (drop 2 q, s', None)
         | None \<Rightarrow> Inr (drop 2 q, s, esc_char (ch q 1)))
      else Inr (drop 1 q, s, Some (ch q 0)))"

lemma until_colon_length: "length (until_colon s) \<le> length s"
  by (induction s) auto

lemma class_item_shorter:
  assumes "class_item q s = Inr (q', s', b)" "q \<noteq> []"
  shows "length q' < length q"
  using assms until_colon_length [of "drop 2 q"]
  by (cases q) (auto simp: class_item_def Let_def split: if_splits option.splits)

lemma class_item_shorter2:
  assumes "class_item (drop 1 q) s = Inr (q', s', b)" "ch q 1 \<noteq> 0"
  shows "length q' < length q"
proof -
  from assms(2) have "1 < length q" by (rule ch_nonzero)
  with class_item_shorter [OF assms(1)] show ?thesis by simp
qed

lemma class_range_shorter:
  assumes "class_item q s = Inr (q1, s1, b)" "q \<noteq> []"
    "class_item (drop (Suc 0) q1) s1 = Inr (q2, s2, b2)" "ch q1 (Suc 0) \<noteq> 0"
  shows "length q2 < length q"
  using class_item_shorter [OF assms(1,2)] class_item_shorter2 [of q1] assms(3,4) by fastforce

text \<open>The loop of \<open>p_class\<close>, from after the opening bracket and the optional \<open>^\<close>.\<close>

function class_loop :: "cstring \<Rightarrow> cset \<Rightarrow> bool \<Rightarrow> (cstring \<times> cset) re_result" where
  "class_loop q s isfirst =
     (if q = [] then Inl UnmatchedBracket
      else if deref q = of_char CHR '']'' \<and> \<not> isfirst then Inr (drop 1 q, s)
      else
        (case class_item q s of
           Inl e \<Rightarrow> Inl e
         | Inr (q1, s1, None) \<Rightarrow> class_loop q1 s1 False
         | Inr (q1, s1, Some lo) \<Rightarrow>
             if ch q1 0 = of_char CHR ''-'' \<and> ch q1 1 \<noteq> 0 \<and> ch q1 1 \<noteq> of_char CHR '']'' then
               (case class_item (drop 1 q1) s1 of
                  Inl e \<Rightarrow> Inl e
                | Inr (q2, s2, None) \<Rightarrow> Inl RangeNotPlain
                | Inr (q2, s2, Some hi) \<Rightarrow>
                    if hi < lo then Inl (RangeBackwards lo hi)
                    else class_loop q2 (set_range s2 (unat lo) (unat hi)) False)
             else class_loop q1 (set_add s1 (unat lo)) False))"
  by pat_completeness auto
termination
  by (relation "measure (\<lambda>(q, s, f). length q)")
     (auto dest: class_item_shorter intro: class_range_shorter)

declare class_loop.simps [simp del]

definition p_class :: "(nat \<Rightarrow> bool) \<Rightarrow> pst \<Rightarrow> pst re_result" where
  "p_class al ps =
     (let q = drop 1 (pat ps);
          (neg, q) = (if deref q = of_char CHR ''^'' then (True, drop 1 q) else (False, q))
      in andthen (class_loop q set_empty True) (\<lambda>(q, s).
         (let s = (if icase (rx ps) then set_fold s else s);
              s = (if neg then set_not s else s);
              s = set_drop_nul s
          in andthen (cls_new al (rx ps) s) (\<lambda>(r, ci).
             andthen (emit al r (I_CLASS ci)) (\<lambda>(r, _).
             Inr (ps\<lparr>pat := q, rx := r\<rparr>))))))"

section \<open>Operators\<close>

definition at_op :: "u8 \<Rightarrow> pst \<Rightarrow> nat" where
  "at_op c ps =
     (if is_ere ps then (if ch (pat ps) 0 = c then 1 else 0)
      else if ch (pat ps) 0 = of_char CHR 0x5C \<and> ch (pat ps) 1 = c then 2 else 0)"

definition at_open :: "pst \<Rightarrow> nat" where "at_open ps = at_op (of_char CHR ''('') ps"
definition at_close :: "pst \<Rightarrow> nat" where "at_close ps = at_op (of_char CHR '')'') ps"
definition at_bar :: "pst \<Rightarrow> nat" where "at_bar ps = at_op (of_char CHR ''|'') ps"

definition at_postfix :: "pst \<Rightarrow> u8 option" where
  "at_postfix ps =
     (let a = ch (pat ps) 0; b = ch (pat ps) 1 in
      if is_ere ps then
        (if a \<in> set (cs ''*+?'') then Some a
         else if a = of_char CHR ''{'' \<and> is_digit (unat b) then Some (of_char CHR ''{'')
         else None)
      else if a = of_char CHR ''*'' then Some a
      else if a = of_char CHR 0x5C \<and> b \<in> set (cs ''+?'') then Some b
      else if a = of_char CHR 0x5C \<and> b = of_char CHR ''{'' then Some (of_char CHR ''{'')
      else None)"

definition dollar_anchors :: "pst \<Rightarrow> bool" where
  "dollar_anchors ps \<longleftrightarrow>
     is_ere ps \<or> ch (pat ps) 1 = 0 \<or>
     (ch (pat ps) 1 = of_char CHR 0x5C \<and>
      (ch (pat ps) 2 = of_char CHR '')'' \<or> ch (pat ps) 2 = of_char CHR ''|''))"

section \<open>Atoms\<close>

definition emit_at :: "(nat \<Rightarrow> bool) \<Rightarrow> pst \<Rightarrow> nat \<Rightarrow> reinst \<Rightarrow> pst re_result" where
  "emit_at al ps k i = andthen (emit al (rx ps) i) (\<lambda>(r, _). Inr (ps\<lparr>pat := drop k (pat ps), rx := r\<rparr>))"

text \<open>\<open>alt\<close> is the recursive call to \<open>p_alt\<close> for the inside of a group.\<close>

definition p_atom ::
  "(nat \<Rightarrow> bool) \<Rightarrow> (pst \<Rightarrow> pst re_result) \<Rightarrow> pst \<Rightarrow> bool \<Rightarrow> pst re_result" where
  "p_atom al alt ps isfirst =
     (let c = ch (pat ps) 0; k = at_open ps in
      if k \<noteq> 0 then
        (if ngroup (rx ps) + 1 \<ge> RE_MAX_GROUPS then Inl TooManyGroups
         else
           (let g = ngroup (rx ps) + 1;
                ps = ps\<lparr>pat := drop k (pat ps), rx := (rx ps)\<lparr>ngroup := g\<rparr>\<rparr>
            in andthen (emit_at al ps 0 (I_SAVE (2 * g))) (\<lambda>ps.
               andthen (alt ps) (\<lambda>ps.
               (let k = at_close ps in
                if k = 0 then Inl UnmatchedOpen
                else emit_at al ps k (I_SAVE (2 * g + 1)))))))
      else if c = of_char CHR ''.'' then emit_at al ps 1 I_ANY
      else if c = of_char CHR ''['' then p_class al ps
      else if c = of_char CHR ''^'' \<and> (is_ere ps \<or> isfirst) then emit_at al ps 1 I_BOL
      else if c = of_char CHR ''$'' \<and> dollar_anchors ps then emit_at al ps 1 I_EOL
      else if c = of_char CHR 0x5C then
        (let e = ch (pat ps) 1 in
         if e = 0 then Inl TrailingBackslash
         else if e = of_char CHR ''<'' then emit_at al ps 2 (I_WORDB WB_BEGIN)
         else if e = of_char CHR ''>'' then emit_at al ps 2 (I_WORDB WB_END)
         else if e = of_char CHR ''b'' then emit_at al ps 2 (I_WORDB WB_EITHER)
         else if e = of_char CHR ''B'' then emit_at al ps 2 I_NWORDB
         else if of_char CHR ''1'' \<le> e \<and> e \<le> of_char CHR ''9'' then Inl (Backreference e)
         else
           (case esc_set e set_empty of
              Some s \<Rightarrow>
                (let s = (if icase (rx ps) then set_fold s else s)
                 in andthen (cls_new al (rx ps) s) (\<lambda>(r, ci).
                    emit_at al (ps\<lparr>rx := r\<rparr>) 2 (I_CLASS ci)))
            | None \<Rightarrow>
                (case esc_char e of
                   None \<Rightarrow> Inl Stuck
                 | Some lit \<Rightarrow>
                     emit_at al ps 2 (I_CHAR (if icase (rx ps) then lower lit else lit)))))
      else emit_at al ps 1 (I_CHAR (if icase (rx ps) then lower c else c)))"

section \<open>Repeats\<close>

fun scan_count :: "nat \<Rightarrow> cstring \<Rightarrow> (nat \<times> cstring) re_result" where
  "scan_count m [] = Inr (m, [])"
| "scan_count m (c # s) =
     (if is_digit (unat c) then
        (let m = m * 10 + (unat c - 48)
         in if m > 255 then Inl RepeatTooMany else scan_count m s)
      else Inr (m, c # s))"

text \<open>The text of \<open>{m}\<close>, \<open>{m,}\<close> or \<open>{m,n}\<close>: the counts and the rest of the pattern.\<close>

definition scan_bounds :: "bool \<Rightarrow> cstring \<Rightarrow> (nat \<times> nat option \<times> cstring) re_result" where
  "scan_bounds ere q =
     (if \<not> is_digit (unat (deref q)) then Inl RepeatNoNumber
      else
        andthen (scan_count 0 q) (\<lambda>(m, q).
        andthen
          (if deref q = of_char CHR '','' then
             (if is_digit (unat (ch q 1)) then
                andthen (scan_count 0 (drop 1 q)) (\<lambda>(n, q). Inr (Some n, q))
              else Inr (None, drop 1 q))
           else Inr (Some m, q)) (\<lambda>(n, q).
        if (if ere then deref q \<noteq> of_char CHR ''}''
            else ch q 0 \<noteq> of_char CHR 0x5C \<or> ch q 1 \<noteq> of_char CHR ''}'') then Inl UnmatchedBrace
        else (case n of
                Some n' \<Rightarrow> if n' < m then Inl (RepeatBackwards m n')
                           else Inr (m, n, drop (if ere then 1 else 2) q)
              | None \<Rightarrow> Inr (m, n, drop (if ere then 1 else 2) q)))))"

definition p_bounds :: "(nat \<Rightarrow> bool) \<Rightarrow> pst \<Rightarrow> nat \<Rightarrow> pst re_result" where
  "p_bounds al ps start =
     andthen (scan_bounds (is_ere ps) (drop (if is_ere ps then 1 else 2) (pat ps))) (\<lambda>(m, n, q).
     andthen (emit_rep al (rx ps) start m n) (\<lambda>r.
     Inr (ps\<lparr>pat := q, rx := r\<rparr>)))"

lemma scan_count_shorter: "scan_count m q = Inr (n, q') \<Longrightarrow> length q' \<le> length q"
  by (induction m q rule: scan_count.induct) (auto simp: Let_def split: if_splits)

lemma scan_bounds_shorter:
  assumes "scan_bounds e q = Inr (m, n, q')" shows "length q' \<le> length q"
proof -
  from assms obtain m1 q1 n2 q2 where 1: "scan_count 0 q = Inr (m1, q1)"
    and 2: "(if deref q1 = of_char CHR '','' then
             (if is_digit (unat (ch q1 1)) then
                andthen (scan_count 0 (drop 1 q1)) (\<lambda>(n, q). Inr (Some n, q))
              else Inr (None, drop 1 q1))
           else Inr (Some m1, q1)) = Inr (n2, q2)"
    and 3: "q' = drop (if e then 1 else 2) q2"
    by (auto simp: scan_bounds_def elim!: andthen_InrE split: if_splits option.splits)
  from 2 have "length q2 \<le> length q1"
    by (auto simp: andthen_Inr_iff dest!: scan_count_shorter split: if_splits)
  with scan_count_shorter [OF 1] 3 show ?thesis by auto
qed

lemma p_bounds_shorter: "p_bounds al ps start = Inr ps' \<Longrightarrow>
    length (pat ps') \<le> length (pat ps) - 1 \<and> is_ere ps' = is_ere ps"
  by (auto simp: p_bounds_def andthen_Inr_iff dest!: scan_bounds_shorter split: prod.splits if_splits)

lemma at_postfix_nonempty: "at_postfix ps = Some op \<Longrightarrow> pat ps \<noteq> []"
  by (cases "pat ps") (auto simp: at_postfix_def Let_def cs_def split: if_splits)

function p_postfix :: "(nat \<Rightarrow> bool) \<Rightarrow> pst \<Rightarrow> nat \<Rightarrow> pst re_result" where
  "p_postfix al ps start =
     (case at_postfix ps of
        None \<Rightarrow> Inr ps
      | Some op \<Rightarrow>
          if op = of_char CHR ''{'' then
            (case p_bounds al ps start of Inl e \<Rightarrow> Inl e | Inr ps' \<Rightarrow> p_postfix al ps' start)
          else
            (let q = drop (if is_ere ps \<or> op = of_char CHR ''*'' then 1 else 2) (pat ps)
             in case (if op = of_char CHR ''*'' then emit_star al (rx ps) start
                      else if op = of_char CHR ''+'' then emit_plus al (rx ps) start
                      else emit_opt al (rx ps) start) of
                  Inl e \<Rightarrow> Inl e
                | Inr r \<Rightarrow> p_postfix al (ps\<lparr>pat := q, rx := r\<rparr>) start))"
  by pat_completeness auto
termination
  by (relation "measure (\<lambda>(al, ps, start). length (pat ps))")
     (auto dest!: at_postfix_nonempty p_bounds_shorter simp: less_le_not_le Suc_le_eq
       neq_Nil_conv)

declare p_postfix.simps [simp del]

section \<open>Concatenation and alternation\<close>

fun p_concat_loop ::
  "nat \<Rightarrow> (nat \<Rightarrow> bool) \<Rightarrow> (pst \<Rightarrow> pst re_result) \<Rightarrow> pst \<Rightarrow> bool \<Rightarrow> pst re_result" where
  "p_concat_loop 0 al alt ps isfirst = Inl Stuck"
| "p_concat_loop (Suc fuel) al alt ps isfirst =
     (if pat ps = [] \<or> at_bar ps \<noteq> 0 \<or> at_close ps \<noteq> 0 then Inr ps
      else
        (case (if isfirst then at_postfix ps else None) of
           Some op \<Rightarrow>
             if is_ere ps \<or> op \<noteq> of_char CHR ''*'' then Inl (NothingToRepeat op)
             else andthen (p_atom al alt ps isfirst) (\<lambda>ps'.
                  andthen (p_postfix al ps' (length (prog (rx ps)))) (\<lambda>ps'.
                  p_concat_loop fuel al alt ps' False))
         | None \<Rightarrow>
             andthen (p_atom al alt ps isfirst) (\<lambda>ps'.
             andthen (p_postfix al ps' (length (prog (rx ps)))) (\<lambda>ps'.
             p_concat_loop fuel al alt ps' False))))"

definition p_concat :: "(nat \<Rightarrow> bool) \<Rightarrow> (pst \<Rightarrow> pst re_result) \<Rightarrow> pst \<Rightarrow> pst re_result" where
  "p_concat al alt ps = p_concat_loop (length (pat ps) + 1) al alt ps True"

fun p_alt_loop ::
  "nat \<Rightarrow> (nat \<Rightarrow> bool) \<Rightarrow> (pst \<Rightarrow> pst re_result) \<Rightarrow> pst \<Rightarrow> nat \<Rightarrow> int \<Rightarrow> (pst \<times> int) re_result" where
  "p_alt_loop 0 al alt ps branch jchain = Inl Stuck"
| "p_alt_loop (Suc fuel) al alt ps branch jchain =
     (let k = at_bar ps in
      if k = 0 then Inr (ps, jchain)
      else
        (let ps = ps\<lparr>pat := drop k (pat ps)\<rparr> in
         andthen (insert_inst al (rx ps) branch (I_SPLIT (int branch + 1) (-1))) (\<lambda>r.
         andthen (emit al r (I_JMP jchain)) (\<lambda>(r, j).
         (let r = patch_y r branch (int (length (prog r))); ps = ps\<lparr>rx := r\<rparr> in
          andthen (p_concat al alt ps) (\<lambda>ps'.
          p_alt_loop fuel al alt ps' (length (prog r)) (int j)))))))"

fun patch_jmp_chain :: "nat \<Rightarrow> lpre \<Rightarrow> int \<Rightarrow> lpre re_result" where
  "patch_jmp_chain fuel re jchain =
     (if jchain < 0 then Inr re
      else (case fuel of 0 \<Rightarrow> Inl Stuck
            | Suc fuel \<Rightarrow>
                (let nx = get_x (prog re ! nat jchain)
                 in patch_jmp_chain fuel (patch_x re (nat jchain) (int (length (prog re)))) nx)))"

declare patch_jmp_chain.simps [simp del]

text \<open>
  \<open>p_alt\<close> and \<open>p_atom\<close> call each other only for a group, and there can be at most nine, so
  ten levels are enough: the depth argument counts them down.
\<close>

fun p_alt :: "(nat \<Rightarrow> bool) \<Rightarrow> nat \<Rightarrow> pst \<Rightarrow> pst re_result" where
  "p_alt al 0 ps = Inl Stuck"
| "p_alt al (Suc depth) ps =
     andthen (p_concat al (p_alt al depth) ps) (\<lambda>ps'.
     andthen (p_alt_loop (length (pat ps') + 1) al (p_alt al depth) ps' (length (prog (rx ps))) (-1))
       (\<lambda>(ps', jchain).
     andthen (patch_jmp_chain (length (prog (rx ps'))) (rx ps') jchain) (\<lambda>r.
     Inr (ps'\<lparr>rx := r\<rparr>))))"

section \<open>re_compile\<close>

definition lpre_init :: "bool \<Rightarrow> lpre" where
  "lpre_init ic =
     \<lparr>prog = [], cap = 0, cls = [], clscap = 0, ngroup = 0, nreg = 0, icase = ic, save = [],
      stcap = 0, jrcap = 0, has_first = False, gave_up = False, first = set_empty\<rparr>"

text \<open>\<open>sizeof (struct lpre)\<close> only matters to the allocator; 160 is its value on LP64.\<close>

text \<open>The part of \<open>re_compile\<close> after the pattern is parsed.\<close>

definition re_finish :: "(nat \<Rightarrow> bool) \<Rightarrow> lpre \<Rightarrow> lpre re_result" where
  "re_finish al re =
     andthen (emit al re (I_SAVE 1)) (\<lambda>(r, _).
     andthen (emit al r I_MATCH) (\<lambda>(r, _).
     if \<not> al ((RE_MAX_CAPS + nreg r) * 4) then Inl NoMemory
     else
       (let (_, fs, any) = closure al r 0 (length (prog r)) set_empty False;
            hf = (\<not> any \<and> \<not> list_all (\<lambda>b. b = 0) fs)
        in Inr (r\<lparr>save := replicate (RE_MAX_CAPS + nreg r) 0, first := fs, has_first := hf\<rparr>))))"

definition re_compile :: "(nat \<Rightarrow> bool) \<Rightarrow> cstring option \<Rightarrow> bool \<Rightarrow> bool \<Rightarrow> lpre re_result" where
  "re_compile al pattern ere ic =
     (case pattern of
        None \<Rightarrow> Inl NoPattern
      | Some pattern \<Rightarrow>
          if \<not> al 160 then Inl NoMemory
          else
            andthen (emit al (lpre_init ic) (I_SAVE 0)) (\<lambda>(r, _).
            andthen (p_alt al RE_MAX_GROUPS \<lparr>pat = pattern, is_ere = ere, rx = r\<rparr>) (\<lambda>ps.
            if pat ps \<noteq> [] then Inl UnmatchedClose else re_finish al (rx ps))))"

definition re_ngroups :: "lpre option \<Rightarrow> nat" where
  "re_ngroups re = (case re of None \<Rightarrow> 0 | Some re \<Rightarrow> ngroup re)"

end
