(* ===== verification/RegexVM.thy ===== *)
theory RegexVM
  imports RegexParse
begin

text \<open>
  The backtracking machine of the regular expression engine (\<open>userland/libc/src/regex.c\<close>,
  lines 94 to 110 and 894 to 1022), with its explicit stack of pending alternatives and its
  undo journal, and the proof that it is a depth-first search of the nondeterministic machine
  the compiled program denotes.
\<close>

section \<open>The machine\<close>

definition ST_MAX :: nat where "ST_MAX = 32768"
definition JR_MAX :: nat where "JR_MAX = 32768"
definition STEPS_PER_START :: nat where "STEPS_PER_START = 200000"
definition STEPS_TOTAL :: nat where "STEPS_TOTAL = 20000000"

text \<open>
  The locals of \<open>run\<close>: \<open>pc\<close>, \<open>sp\<close>, the slots \<open>sv\<close>, and the two stacks with their tops
  first, so that \<open>nst\<close> and \<open>njr\<close> are their lengths; and the two capacities of the \<open>lpre\<close>.
\<close>

record vm =
  vpc :: int
  vsp :: nat
  vsv :: "int list"
  vst :: "(int \<times> nat \<times> nat) list"
  vjr :: "(nat \<times> int) list"
  vstcap :: nat
  vjrcap :: nat

function double_to :: "nat \<Rightarrow> nat \<Rightarrow> nat" where
  "double_to want need = (if 0 < want \<and> want < need then double_to (want * 2) need else want)"
  by pat_completeness auto
termination by (relation "measure (\<lambda>(want, need). need - want)") auto

declare double_to.simps [simp del]

text \<open>The new capacity, or \<open>None\<close> when there is no room.\<close>

definition stack_room :: "(nat \<Rightarrow> bool) \<Rightarrow> nat \<Rightarrow> nat \<Rightarrow> nat option" where
  "stack_room al cap0 need =
     (if need \<le> cap0 then Some cap0
      else if need > ST_MAX then None
      else
        (let want = double_to (if cap0 \<noteq> 0 then cap0 * 2 else 256) need;
             want = (if want > ST_MAX then ST_MAX else want)
         in if al (want * 12) then Some want else None))"

definition journal_room :: "(nat \<Rightarrow> bool) \<Rightarrow> nat \<Rightarrow> nat \<Rightarrow> nat option" where
  "journal_room al cap0 need =
     (if need \<le> cap0 then Some cap0
      else if need > JR_MAX then None
      else
        (let want = double_to (if cap0 \<noteq> 0 then cap0 * 2 else 256) need;
             want = (if want > JR_MAX then JR_MAX else want)
         in if al (want * 8) then Some want else None))"

text \<open>\<open>in->x\<close> of a \<open>WORDB\<close>; \<open>a\<close> and \<open>b\<close>: is there a word byte before and after.\<close>

fun word_hit :: "wordb option \<Rightarrow> bool \<Rightarrow> bool \<Rightarrow> bool" where
  "word_hit None a b \<longleftrightarrow> a = b"
| "word_hit (Some WB_BEGIN) a b \<longleftrightarrow> \<not> a \<and> b"
| "word_hit (Some WB_END) a b \<longleftrightarrow> a \<and> \<not> b"
| "word_hit (Some WB_EITHER) a b \<longleftrightarrow> a \<noteq> b"

definition word_before :: "cstring \<Rightarrow> nat \<Rightarrow> bool" where
  "word_before tx sp \<longleftrightarrow> sp > 0 \<and> is_word (unat (ch tx (sp - 1)))"

definition word_after :: "cstring \<Rightarrow> nat \<Rightarrow> bool" where
  "word_after tx sp \<longleftrightarrow> sp < length tx \<and> is_word (unat (ch tx sp))"

text \<open>
  One instruction: it runs on, it is blocked (\<open>ok\<close> stays false), it has matched, there was no
  room on a stack (\<open>goto spent\<close>), or it would have read outside an array (\<open>Broken\<close>).
\<close>

datatype outcome = Running vm | Blocked | Accepted | OutOfRoom | Broken

definition go :: "bool \<Rightarrow> vm \<Rightarrow> outcome" where
  "go b m = (if b then Running m else Blocked)"

definition exec :: "(nat \<Rightarrow> bool) \<Rightarrow> lpre \<Rightarrow> cstring \<Rightarrow> bool \<Rightarrow> vm \<Rightarrow> outcome" where
  "exec al re tx notbol m =
     (if \<not> (0 \<le> vpc m \<and> vpc m < int (length (prog re))) then Broken
      else
        (let sp = vsp m; c = ch tx sp; len = length tx;
             fwd = m\<lparr>vpc := vpc m + 1\<rparr>;
             eat = fwd\<lparr>vsp := sp + 1\<rparr>
         in case prog re ! nat (vpc m) of
              I_CHAR k \<Rightarrow> go (sp < len \<and> (if icase re then lower c else c) = k) eat
            | I_ANY \<Rightarrow> go (sp < len) eat
            | I_CLASS k \<Rightarrow>
                if k \<ge> length (cls re) then Broken
                else go (sp < len \<and> set_has (cls re ! k) (unat c)) eat
            | I_BOL \<Rightarrow> go (sp = 0 \<and> \<not> notbol) fwd
            | I_EOL \<Rightarrow> go (sp = len) fwd
            | I_WORDB w \<Rightarrow> go (word_hit (Some w) (word_before tx sp) (word_after tx sp)) fwd
            | I_NWORDB \<Rightarrow> go (word_hit None (word_before tx sp) (word_after tx sp)) fwd
            | I_SAVE x \<Rightarrow>
                if x \<ge> length (vsv m) then Broken
                else
                  (case journal_room al (vjrcap m) (length (vjr m) + 1) of
                     None \<Rightarrow> OutOfRoom
                   | Some jc \<Rightarrow>
                       Running (fwd\<lparr>vjrcap := jc, vjr := (x, vsv m ! x) # vjr m,
                                     vsv := (vsv m)[x := int sp]\<rparr>))
            | I_JMP x \<Rightarrow> Running (m\<lparr>vpc := x\<rparr>)
            | I_SPLIT x y \<Rightarrow>
                (case stack_room al (vstcap m) (length (vst m) + 1) of
                   None \<Rightarrow> OutOfRoom
                 | Some sc \<Rightarrow>
                     Running (m\<lparr>vpc := x, vstcap := sc, vst := (y, sp, length (vjr m)) # vst m\<rparr>))
            | I_LOOP x y \<Rightarrow>
                if x \<ge> length (vsv m) then Broken
                else go (vsv m ! x \<noteq> int sp) (m\<lparr>vpc := y\<rparr>)
            | I_MATCH \<Rightarrow> Accepted))"

text \<open>Putting the slots back: the journal is unwound until it has \<open>k\<close> entries.\<close>

fun undo :: "int list \<Rightarrow> (nat \<times> int) list \<Rightarrow> nat \<Rightarrow> int list \<times> (nat \<times> int) list" where
  "undo sv [] k = (sv, [])"
| "undo sv ((slot, old) # jr) k =
     (if length jr + 1 > k then undo (sv[slot := old]) jr k else (sv, (slot, old) # jr))"

text \<open>
  How an attempt ends.  The source returns true for \<open>Matched\<close> and false for all the others;
  \<open>NoRoom\<close> is a stack at its ceiling, \<open>Exhausted\<close> the step budget spent.
\<close>

datatype verdict = Matched | NoMatch | Exhausted | NoRoom | Crash

text \<open>The loop, with \<open>allow - steps\<close> as its first argument; the second result is \<open>*used\<close>.\<close>

fun run_loop ::
  "nat \<Rightarrow> (nat \<Rightarrow> bool) \<Rightarrow> lpre \<Rightarrow> cstring \<Rightarrow> bool \<Rightarrow> nat \<Rightarrow> vm \<Rightarrow> verdict \<times> nat \<times> vm" where
  "run_loop 0 al re tx notbol steps m = (Exhausted, steps + 1, m)"
| "run_loop (Suc left) al re tx notbol steps m =
     (case exec al re tx notbol m of
        Running m' \<Rightarrow> run_loop left al re tx notbol (steps + 1) m'
      | Accepted \<Rightarrow> (Matched, steps + 1, m)
      | OutOfRoom \<Rightarrow> (NoRoom, steps + 1, m)
      | Broken \<Rightarrow> (Crash, steps + 1, m)
      | Blocked \<Rightarrow>
          (case vst m of
             [] \<Rightarrow> (NoMatch, steps + 1, m)
           | (pc, sp, j) # st \<Rightarrow>
               (let (sv, jr) = undo (vsv m) (vjr m) j
                in run_loop left al re tx notbol (steps + 1)
                     (m\<lparr>vpc := pc, vsp := sp, vsv := sv, vst := st, vjr := jr\<rparr>))))"

definition vm_start :: "lpre \<Rightarrow> nat \<Rightarrow> vm" where
  "vm_start re sp0 =
     \<lparr>vpc = 0, vsp = sp0, vsv = replicate (RE_MAX_CAPS + nreg re) (-1), vst = [], vjr = [],
      vstcap = stcap re, vjrcap = jrcap re\<rparr>"

definition run ::
  "(nat \<Rightarrow> bool) \<Rightarrow> lpre \<Rightarrow> cstring \<Rightarrow> nat \<Rightarrow> bool \<Rightarrow> nat \<Rightarrow> verdict \<times> nat \<times> lpre" where
  "run al re tx sp0 notbol allow =
     (let (v, used, m) = run_loop allow al re tx notbol 0 (vm_start re sp0)
      in (v, used, re\<lparr>save := vsv m, stcap := vstcap m, jrcap := vjrcap m\<rparr>))"

section \<open>What a program means\<close>

text \<open>
  A thread is at an instruction, at an offset of the text, with the slots it has saved.  The
  nondeterministic machine: \<open>SPLIT\<close> has two successors, a blocked thread none.
\<close>

type_synonym thread = "int \<times> nat \<times> int list"

inductive vstep :: "lpre \<Rightarrow> cstring \<Rightarrow> bool \<Rightarrow> thread \<Rightarrow> thread \<Rightarrow> bool"
  for re :: lpre and tx :: cstring and notbol :: bool where
  s_char: "\<lbrakk>prog re ! nat pc = I_CHAR k; sp < length tx;
            (if icase re then lower (tx ! sp) else tx ! sp) = k\<rbrakk>
           \<Longrightarrow> vstep re tx notbol (pc, sp, sv) (pc + 1, sp + 1, sv)"
| s_any: "\<lbrakk>prog re ! nat pc = I_ANY; sp < length tx\<rbrakk>
           \<Longrightarrow> vstep re tx notbol (pc, sp, sv) (pc + 1, sp + 1, sv)"
| s_class: "\<lbrakk>prog re ! nat pc = I_CLASS k; sp < length tx; set_has (cls re ! k) (unat (tx ! sp))\<rbrakk>
           \<Longrightarrow> vstep re tx notbol (pc, sp, sv) (pc + 1, sp + 1, sv)"
| s_bol: "\<lbrakk>prog re ! nat pc = I_BOL; sp = 0; \<not> notbol\<rbrakk>
           \<Longrightarrow> vstep re tx notbol (pc, sp, sv) (pc + 1, sp, sv)"
| s_eol: "\<lbrakk>prog re ! nat pc = I_EOL; sp = length tx\<rbrakk>
           \<Longrightarrow> vstep re tx notbol (pc, sp, sv) (pc + 1, sp, sv)"
| s_wordb: "\<lbrakk>prog re ! nat pc = I_WORDB w;
             word_hit (Some w) (word_before tx sp) (word_after tx sp)\<rbrakk>
           \<Longrightarrow> vstep re tx notbol (pc, sp, sv) (pc + 1, sp, sv)"
| s_nwordb: "\<lbrakk>prog re ! nat pc = I_NWORDB; word_before tx sp = word_after tx sp\<rbrakk>
           \<Longrightarrow> vstep re tx notbol (pc, sp, sv) (pc + 1, sp, sv)"
| s_save: "prog re ! nat pc = I_SAVE x
           \<Longrightarrow> vstep re tx notbol (pc, sp, sv) (pc + 1, sp, sv[x := int sp])"
| s_jmp: "prog re ! nat pc = I_JMP x \<Longrightarrow> vstep re tx notbol (pc, sp, sv) (x, sp, sv)"
| s_left: "prog re ! nat pc = I_SPLIT x y \<Longrightarrow> vstep re tx notbol (pc, sp, sv) (x, sp, sv)"
| s_right: "prog re ! nat pc = I_SPLIT x y \<Longrightarrow> vstep re tx notbol (pc, sp, sv) (y, sp, sv)"
| s_loop: "\<lbrakk>prog re ! nat pc = I_LOOP x y; sv ! x \<noteq> int sp\<rbrakk>
           \<Longrightarrow> vstep re tx notbol (pc, sp, sv) (y, sp, sv)"

inductive_simps vstep_iff: "vstep re tx notbol (pc, sp, sv) t"

abbreviation reaches :: "lpre \<Rightarrow> cstring \<Rightarrow> bool \<Rightarrow> thread \<Rightarrow> thread \<Rightarrow> bool" where
  "reaches re tx notbol \<equiv> (vstep re tx notbol)\<^sup>*\<^sup>*"

definition accepting :: "lpre \<Rightarrow> thread \<Rightarrow> bool" where
  "accepting re t \<longleftrightarrow> prog re ! nat (fst t) = I_MATCH"

definition thread_start :: "lpre \<Rightarrow> nat \<Rightarrow> thread" where
  "thread_start re sp0 = (0, sp0, replicate (RE_MAX_CAPS + nreg re) (-1))"

definition matches_from :: "lpre \<Rightarrow> cstring \<Rightarrow> bool \<Rightarrow> nat \<Rightarrow> int list \<Rightarrow> bool" where
  "matches_from re tx notbol i sv \<longleftrightarrow>
     (\<exists>pc sp. reaches re tx notbol (thread_start re i) (pc, sp, sv) \<and> prog re ! nat pc = I_MATCH)"

section \<open>Well-formed programs\<close>

fun targets :: "reinst \<Rightarrow> int set" where
  "targets (I_JMP x) = {x}"
| "targets (I_SPLIT x y) = {x, y}"
| "targets (I_LOOP _ y) = {y}"
| "targets _ = {}"

fun fields_ok :: "nat \<Rightarrow> nat \<Rightarrow> reinst \<Rightarrow> bool" where
  "fields_ok nsv ncls (I_SAVE x) \<longleftrightarrow> x < nsv"
| "fields_ok nsv ncls (I_LOOP x _) \<longleftrightarrow> x < nsv"
| "fields_ok nsv ncls (I_CLASS k) \<longleftrightarrow> k < ncls"
| "fields_ok nsv ncls _ \<longleftrightarrow> True"

definition fields_wf :: "lpre \<Rightarrow> bool" where
  "fields_wf re \<longleftrightarrow>
     (\<forall>i \<in> set (prog re). fields_ok (RE_MAX_CAPS + nreg re) (length (cls re)) i) \<and>
     list_all cset_wf (cls re)"

definition prog_wf :: "lpre \<Rightarrow> bool" where
  "prog_wf re \<longleftrightarrow>
     fields_wf re \<and> prog re \<noteq> [] \<and> prog re ! (length (prog re) - 1) = I_MATCH \<and>
     (\<forall>i \<in> set (prog re). \<forall>t \<in> targets i. 0 \<le> t \<and> t < int (length (prog re)))"

definition thread_wf :: "lpre \<Rightarrow> cstring \<Rightarrow> thread \<Rightarrow> bool" where
  "thread_wf re tx t \<longleftrightarrow>
     (case t of (pc, sp, sv) \<Rightarrow>
        0 \<le> pc \<and> pc < int (length (prog re)) \<and> sp \<le> length tx \<and>
        length sv = RE_MAX_CAPS + nreg re)"

text \<open>The successors of a thread, in the order the machine tries them.\<close>

definition succs :: "lpre \<Rightarrow> cstring \<Rightarrow> bool \<Rightarrow> thread \<Rightarrow> thread list" where
  "succs re tx notbol t =
     (case t of (pc, sp, sv) \<Rightarrow>
        (let guard = (\<lambda>b t. if b then [t] else []) in
         case prog re ! nat pc of
           I_CHAR k \<Rightarrow> guard (sp < length tx \<and> (if icase re then lower (tx ! sp) else tx ! sp) = k)
                         (pc + 1, sp + 1, sv)
         | I_ANY \<Rightarrow> guard (sp < length tx) (pc + 1, sp + 1, sv)
         | I_CLASS k \<Rightarrow> guard (sp < length tx \<and> set_has (cls re ! k) (unat (tx ! sp))) (pc + 1, sp + 1, sv)
         | I_BOL \<Rightarrow> guard (sp = 0 \<and> \<not> notbol) (pc + 1, sp, sv)
         | I_EOL \<Rightarrow> guard (sp = length tx) (pc + 1, sp, sv)
         | I_WORDB w \<Rightarrow> guard (word_hit (Some w) (word_before tx sp) (word_after tx sp)) (pc + 1, sp, sv)
         | I_NWORDB \<Rightarrow> guard (word_before tx sp = word_after tx sp) (pc + 1, sp, sv)
         | I_SAVE x \<Rightarrow> [(pc + 1, sp, sv[x := int sp])]
         | I_JMP x \<Rightarrow> [(x, sp, sv)]
         | I_SPLIT x y \<Rightarrow> [(x, sp, sv), (y, sp, sv)]
         | I_LOOP x y \<Rightarrow> guard (sv ! x \<noteq> int sp) (y, sp, sv)
         | I_MATCH \<Rightarrow> []))"

lemma vstep_succs: "vstep re tx notbol t t' \<longleftrightarrow> t' \<in> set (succs re tx notbol t)"
proof -
  obtain pc sp sv where t: "t = (pc, sp, sv)" by (cases t)
  show ?thesis
    unfolding t vstep_iff succs_def
    by (cases "prog re ! nat pc") (auto simp: Let_def)
qed

section \<open>The machine is a depth-first search\<close>

lemma undo_undo: "k \<le> j \<Longrightarrow> undo (fst (undo sv jr j)) (snd (undo sv jr j)) k = undo sv jr k"
  by (induction sv jr j rule: undo.induct) auto

lemma undo_all [simp]: "undo sv jr (length jr) = (sv, jr)"
  by (cases "(sv, jr, length jr)" rule: undo.cases) auto

lemma undo_length: "length (fst (undo sv jr k)) = length sv"
  by (induction sv jr k rule: undo.induct) auto

lemma undo_journal: "length (snd (undo sv jr k)) = min k (length jr)"
  by (induction sv jr k rule: undo.induct) auto

lemma undo_save:
  assumes "k \<le> length jr" "x < length sv"
  shows "undo (sv[x := v]) ((x, sv ! x) # jr) k = undo sv jr k"
  using assms by (cases "k = length jr + 1") auto

text \<open>The pending alternatives as threads, each with the slots it will get back.\<close>

definition pending :: "vm \<Rightarrow> thread list" where
  "pending m = map (\<lambda>(pc, sp, j). (pc, sp, fst (undo (vsv m) (vjr m) j))) (vst m)"

definition current :: "vm \<Rightarrow> thread" where
  "current m = (vpc m, vsp m, vsv m)"

text \<open>Journal marks of the stack do not exceed the journal and decrease towards the bottom.\<close>

definition marks_ok :: "vm \<Rightarrow> bool" where
  "marks_ok m \<longleftrightarrow> sorted_wrt (\<ge>) (length (vjr m) # map (\<lambda>(pc, sp, j). j) (vst m))"

lemma marks_okD: "marks_ok m \<Longrightarrow> (pc, sp, j) \<in> set (vst m) \<Longrightarrow> j \<le> length (vjr m)"
  by (force simp: marks_ok_def)

lemma exec_running:
  assumes "exec al re tx notbol m = Running m'" "marks_ok m" "vsp m \<le> length tx"
  shows "current m' # pending m' = succs re tx notbol (current m) @ pending m \<and> marks_ok m'"
proof -
  have pc: "0 \<le> vpc m \<and> vpc m < int (length (prog re))"
    using assms(1) by (auto simp: exec_def split: if_splits)
  have same: "marks_ok m'" "pending m' = pending m"
    if "vsv m' = vsv m" "vst m' = vst m" "vjr m' = vjr m"
    using that assms(2) by (auto simp: marks_ok_def pending_def)
  have save: "pending m' = pending m \<and> marks_ok m'"
    if "vst m' = vst m" "vjr m' = (x, vsv m ! x) # vjr m" "vsv m' = (vsv m)[x := v]"
      "x < length (vsv m)" for x v
    using that assms(2) marks_okD [OF assms(2)]
    by (auto simp: pending_def marks_ok_def undo_save simp del: undo.simps intro: le_SucI)
  have split: "pending m' = (y, vsp m, vsv m) # pending m \<and> marks_ok m'"
    if "vst m' = (y, vsp m, length (vjr m)) # vst m" "vjr m' = vjr m" "vsv m' = vsv m" for y
    using that assms(2) by (auto simp: pending_def marks_ok_def)
  show ?thesis
    using assms(1,3) pc same save split
    by (cases "prog re ! nat (vpc m)")
       (auto simp: exec_def go_def Let_def succs_def current_def ch_def split: if_splits option.splits)
qed

lemma exec_blocked:
  "exec al re tx notbol m = Blocked \<Longrightarrow> succs re tx notbol (current m) = []"
  by (cases "prog re ! nat (vpc m)")
     (auto simp: exec_def go_def Let_def succs_def current_def ch_def split: if_splits option.splits)

lemma exec_accepted:
  "exec al re tx notbol m = Accepted \<longleftrightarrow>
     0 \<le> vpc m \<and> vpc m < int (length (prog re)) \<and> accepting re (current m)"
  by (cases "prog re ! nat (vpc m)")
     (auto simp: exec_def go_def Let_def accepting_def current_def split: if_splits option.splits)

lemma exec_not_broken:
  assumes "prog_wf re" "thread_wf re tx (current m)"
  shows "exec al re tx notbol m \<noteq> Broken"
proof -
  have "fields_ok (RE_MAX_CAPS + nreg re) (length (cls re)) (prog re ! nat (vpc m))"
    using assms by (auto simp: prog_wf_def fields_wf_def thread_wf_def current_def)
  then show ?thesis
    using assms(2)
    by (cases "prog re ! nat (vpc m)")
       (auto simp: exec_def go_def Let_def thread_wf_def current_def split: option.splits)
qed

text \<open>Only \<open>MATCH\<close> is the last instruction, so running on stays inside the program.\<close>

lemma succs_wf:
  assumes "prog_wf re" "thread_wf re tx t" "t' \<in> set (succs re tx notbol t)"
  shows "thread_wf re tx t'"
proof -
  obtain pc sp sv where t: "t = (pc, sp, sv)" by (cases t)
  have pc: "0 \<le> pc" "pc < int (length (prog re))" using assms(2) by (auto simp: t thread_wf_def)
  have tgt: "\<forall>u \<in> targets (prog re ! nat pc). 0 \<le> u \<and> u < int (length (prog re))"
    using assms(1) pc by (auto simp: prog_wf_def)
  have fall: "pc + 1 < int (length (prog re))" if "prog re ! nat pc \<noteq> I_MATCH"
  proof (rule ccontr)
    assume "\<not> ?thesis"
    then have "nat pc = length (prog re) - 1" using pc by linarith
    then show False using that assms(1) by (simp add: prog_wf_def)
  qed
  show ?thesis
    using assms(2,3) tgt fall
    by (cases "prog re ! nat pc") (auto simp: t succs_def thread_wf_def Let_def split: if_splits)
qed

text \<open>The search on a list of threads: take the first, put its successors in its place.\<close>

fun dfs :: "nat \<Rightarrow> lpre \<Rightarrow> cstring \<Rightarrow> bool \<Rightarrow> thread list \<Rightarrow> verdict \<times> thread option" where
  "dfs n re tx notbol [] = (NoMatch, None)"
| "dfs 0 re tx notbol (t # ts) = (Exhausted, None)"
| "dfs (Suc n) re tx notbol (t # ts) =
     (if accepting re t then (Matched, Some t)
      else dfs n re tx notbol (succs re tx notbol t @ ts))"

text \<open>A run that fails has taken at most one step more than it was allowed.\<close>

lemma run_loop_steps:
  assumes "run_loop n al re tx notbol steps m = (v, used, m')"
  shows "steps < used \<and> used \<le> steps + n + 1 \<and> (used = steps + n + 1 \<longleftrightarrow> v = Exhausted)"
  using assms
proof (induction n arbitrary: steps m)
  case 0
  then show ?case by simp
next
  case (Suc n)
  from Suc.prems show ?case
    by (auto split: outcome.splits list.splits prod.splits dest!: Suc.IH)
qed

definition vm_wf :: "lpre \<Rightarrow> cstring \<Rightarrow> vm \<Rightarrow> bool" where
  "vm_wf re tx m \<longleftrightarrow> marks_ok m \<and> (\<forall>t \<in> set (current m # pending m). thread_wf re tx t)"

lemma pop_wf:
  assumes "marks_ok m" "vst m = (pc, sp, j) # st" "undo (vsv m) (vjr m) j = (sv, jr)"
  defines "m' \<equiv> m\<lparr>vpc := pc, vsp := sp, vsv := sv, vst := st, vjr := jr\<rparr>"
  shows "current m' # pending m' = pending m \<and> marks_ok m'"
proof -
  have "j \<le> length (vjr m)" by (rule marks_okD [OF assms(1), of pc sp]) (simp add: assms(2))
  then have jr: "length jr = j" using undo_journal [of "vsv m" "vjr m" j] assms(3) by simp
  have le: "j' \<le> j" if "(pc', sp', j') \<in> set st" for pc' sp' j'
    using assms(1,2) that by (force simp: marks_ok_def)
  have "undo sv jr k = undo (vsv m) (vjr m) k" if "k \<le> j" for k
    using undo_undo [OF that, of "vsv m" "vjr m"] assms(3) by simp
  then have "pending m' = tl (pending m)"
    using le by (auto simp: pending_def m'_def assms(2))
  moreover have "marks_ok m'"
    using assms(1) le by (auto simp: marks_ok_def m'_def assms(2) jr)
  ultimately show ?thesis
    by (simp add: m'_def current_def pending_def assms(2,3))
qed

lemma run_loop_dfs:
  assumes "prog_wf re" "vm_wf re tx m" "run_loop n al re tx notbol steps m = (v, used, m')"
  shows "v \<noteq> Crash \<and> (v \<noteq> NoRoom \<longrightarrow>
     dfs n re tx notbol (current m # pending m) = (v, if v = Matched then Some (current m') else None))"
  using assms(2,3)
proof (induction n arbitrary: steps m)
  case 0
  then show ?case by auto
next
  case (Suc n)
  have wf: "marks_ok m" "thread_wf re tx (current m)" using Suc.prems(1) by (auto simp: vm_wf_def)
  have sp: "vsp m \<le> length tx" using wf(2) by (simp add: thread_wf_def current_def)
  show ?case
  proof (cases "exec al re tx notbol m")
    case (Running m1)
    have eq: "current m1 # pending m1 = succs re tx notbol (current m) @ pending m" and "marks_ok m1"
      using exec_running [OF Running wf(1) sp] by auto
    then have "vm_wf re tx m1"
      using Suc.prems(1) succs_wf [OF assms(1) wf(2)] unfolding vm_wf_def by auto
    moreover have "\<not> accepting re (current m)"
      using exec_accepted [of al re tx notbol m] Running wf(2) by (auto simp: thread_wf_def current_def)
    ultimately show ?thesis
      using Suc.IH [of m1] Suc.prems(2) Running by (simp add: eq)
  next
    case Blocked
    note none = exec_blocked [OF Blocked]
    have na: "\<not> accepting re (current m)"
      using exec_accepted [of al re tx notbol m] Blocked wf(2) by (auto simp: thread_wf_def current_def)
    show ?thesis
    proof (cases "vst m")
      case Nil
      then show ?thesis using Suc.prems(2) Blocked none na by (auto simp: pending_def)
    next
      case (Cons e st)
      obtain pc sp j where e: "e = (pc, sp, j)" by (cases e)
      obtain sv jr where u: "undo (vsv m) (vjr m) j = (sv, jr)" by (cases "undo (vsv m) (vjr m) j")
      let ?m = "m\<lparr>vpc := pc, vsp := sp, vsv := sv, vst := st, vjr := jr\<rparr>"
      have m: "current ?m # pending ?m = pending m" "marks_ok ?m"
        using pop_wf [OF wf(1) Cons [unfolded e] u] by auto
      then have "vm_wf re tx ?m" using Suc.prems(1) by (auto simp: vm_wf_def)
      then show ?thesis
        using Suc.IH [of ?m] Suc.prems(2) Blocked none na Cons e u m(1) by simp
    qed
  next
    case Accepted
    then show ?thesis using Suc.prems(2) exec_accepted [of al re tx notbol m] by auto
  next
    case OutOfRoom
    then show ?thesis using Suc.prems(2) by auto
  next
    case Broken
    then show ?thesis using exec_not_broken [OF assms(1) wf(2)] by simp
  qed
qed

section \<open>The depth-first search is sound and complete\<close>

lemma dfs_sound:
  "dfs n re tx notbol ts = (Matched, r) \<Longrightarrow>
     \<exists>t \<in> set ts. \<exists>t'. r = Some t' \<and> reaches re tx notbol t t' \<and> accepting re t'"
proof (induction n re tx notbol ts rule: dfs.induct)
  case (3 n re tx notbol t ts)
  show ?case
  proof (cases "accepting re t")
    case True
    with "3.prems" have "r = Some t" by simp
    with True show ?thesis by (metis list.set_intros(1) rtranclp.rtrancl_refl)
  next
    case False
    then have "\<exists>u \<in> set (succs re tx notbol t @ ts). \<exists>u'. r = Some u' \<and> reaches re tx notbol u u' \<and> accepting re u'"
      using 3 by (simp del: split_paired_Ex)
    then show ?thesis
      by (metis Un_iff set_append vstep_succs converse_rtranclp_into_rtranclp list.set_intros)
  qed
qed auto

lemma dfs_complete:
  "dfs n re tx notbol ts = (NoMatch, r) \<Longrightarrow> t \<in> set ts \<Longrightarrow>
     reaches re tx notbol t t' \<Longrightarrow> \<not> accepting re t'"
proof (induction n re tx notbol ts arbitrary: t rule: dfs.induct)
  case (3 n re tx notbol u ts)
  then have nu: "\<not> accepting re u" by (auto split: if_splits)
  then have IH: "\<And>t. t \<in> set (succs re tx notbol u @ ts) \<Longrightarrow> reaches re tx notbol t t' \<Longrightarrow>
      \<not> accepting re t'"
    using 3 by auto
  show ?case
  proof (cases "t = u")
    case True
    from \<open>reaches re tx notbol t t'\<close> show ?thesis
      using nu IH True by (cases rule: converse_rtranclpE) (auto simp: vstep_succs)
  next
    case False
    then show ?thesis using IH [of t] "3.prems"(2,3) by (simp del: split_paired_All)
  qed
qed auto

lemma vm_start_wf:
  assumes "prog_wf re" "i \<le> length tx"
  shows "vm_wf re tx (vm_start re i)"
proof -
  have "length (prog re) > 0" using assms(1) by (auto simp: prog_wf_def)
  then show ?thesis
    using assms(2) by (simp add: vm_wf_def marks_ok_def pending_def current_def vm_start_def thread_wf_def)
qed

lemma start_thread: "current (vm_start re i) # pending (vm_start re i) = [thread_start re i]"
  by (simp add: current_def pending_def vm_start_def thread_start_def)

lemma run_facts:
  assumes "prog_wf re" "i \<le> length tx" "run al re tx i notbol allow = (v, used, re')"
  shows "v \<noteq> Crash \<and> (v = Matched \<longrightarrow> matches_from re tx notbol i (save re')) \<and>
     (v = NoMatch \<longrightarrow> (\<forall>sv. \<not> matches_from re tx notbol i sv)) \<and>
     0 < used \<and> used \<le> allow + 1 \<and> (used = allow + 1 \<longleftrightarrow> v = Exhausted)"
proof -
  obtain m where m: "run_loop allow al re tx notbol 0 (vm_start re i) = (v, used, m)"
      and re': "re' = re\<lparr>save := vsv m, stcap := vstcap m, jrcap := vjrcap m\<rparr>"
    using assms(3) by (auto simp: run_def Let_def split: prod.splits)
  note d = run_loop_dfs [OF assms(1) vm_start_wf [OF assms(1,2)] m, unfolded start_thread]
  have 1: "matches_from re tx notbol i (save re')" if "v = Matched"
    using dfs_sound [of allow re tx notbol "[thread_start re i]" "Some (current m)"] d that
    by (auto simp: matches_from_def current_def accepting_def re')
  have 2: "\<not> matches_from re tx notbol i sv" if "v = NoMatch" for sv
    using dfs_complete [of allow re tx notbol "[thread_start re i]" None "thread_start re i"] d that
    by (force simp: matches_from_def accepting_def)
  show ?thesis using 1 2 d run_loop_steps [OF m] by auto
qed

text \<open>
  C4: One run of the backtracking machine, on a well-formed program: it never reads outside an
  array; a match it reports is one of the nondeterministic machine, with exactly the slots of
  that thread (so the undo journal restored them all); when it reports that there is none, no
  thread can match; and it takes at most one step more than it was allowed, the one more
  exactly when it was cut off.
\<close>

theorem run_correct:
  assumes "prog_wf re" "i \<le> length tx" "run al re tx i notbol allow = (v, used, re')"
  shows "v \<noteq> Crash \<and> (v = Matched \<longrightarrow> matches_from re tx notbol i (save re')) \<and>
     (v = NoMatch \<longrightarrow> (\<forall>sv. \<not> matches_from re tx notbol i sv)) \<and>
     0 < used \<and> used \<le> allow + 1 \<and> (used = allow + 1 \<longleftrightarrow> v = Exhausted)"
  using run_facts [OF assms] .

theorem run_correct_witness:
  "let re = (lpre_init False)\<lparr>prog := [I_SAVE 0, I_SPLIT 2 4, I_CHAR 97, I_JMP 1, I_CHAR 98, I_SAVE 1, I_MATCH], stcap := 8, jrcap := 8\<rparr>;
       (v, used, re') = run (\<lambda>_. True) re [97, 97, 98] 0 False 30
   in v = Matched \<and> matches_from re [97, 97, 98] False 0 (save re') \<and> take 2 (save re') = [0, 3]"
proof -
  let ?re = "(lpre_init False)\<lparr>prog := [I_SAVE 0, I_SPLIT 2 4, I_CHAR 97, I_JMP 1, I_CHAR 98, I_SAVE 1, I_MATCH], stcap := 8, jrcap := 8\<rparr>"
  have wf: "prog_wf ?re"
    by (auto simp: prog_wf_def fields_wf_def lpre_init_def RE_MAX_CAPS_def RE_MAX_GROUPS_def)
  obtain v used re' where r: "run (\<lambda>_. True) ?re [97, 97, 98] 0 False 30 = (v, used, re')"
    by (metis prod_cases3)
  have "fst (run (\<lambda>_. True) ?re [97, 97, 98] 0 False 30) = Matched \<and>
      take 2 (save (snd (snd (run (\<lambda>_. True) ?re [97, 97, 98] 0 False 30)))) = [0, 3]"
    by code_simp
  with r run_correct [OF wf _ r] show ?thesis by (simp add: Let_def)
qed

end
