(* ===== verification/RegexWf.thy ===== *)
theory RegexWf
  imports RegexVM
begin

text \<open>
  Every program \<open>re_compile\<close> emits is well formed: its jumps stay inside it, its slots and sets
  exist, and it ends with \<open>MATCH\<close>.  The proof follows the code generator: emitted code is a
  prefix that nothing changes any more and a fragment whose jumps stay inside it.  That the
  compiler's loops never run out of the bounds the model gives them (\<open>Stuck\<close>) comes with it.
\<close>

section \<open>A postcondition of a failing call\<close>

definition post :: "'a re_result \<Rightarrow> ('a \<Rightarrow> bool) \<Rightarrow> bool" where
  "post r Q \<longleftrightarrow> (case r of Inl e \<Rightarrow> e \<noteq> Stuck | Inr x \<Rightarrow> Q x)"

lemma post_simps [simp]: "post (Inl e) Q \<longleftrightarrow> e \<noteq> Stuck" "post (Inr x) Q \<longleftrightarrow> Q x"
  by (simp_all add: post_def)

lemma post_andthen: "post r P \<Longrightarrow> (\<And>x. P x \<Longrightarrow> post (f x) Q) \<Longrightarrow> post (andthen r f) Q"
  by (cases r) auto

lemma post_mono: "post r P \<Longrightarrow> (\<And>x. P x \<Longrightarrow> Q x) \<Longrightarrow> post r Q"
  by (cases r) auto

lemma post_if: "(b \<Longrightarrow> post x Q) \<Longrightarrow> (\<not> b \<Longrightarrow> post y Q) \<Longrightarrow> post (if b then x else y) Q"
  by simp

section \<open>Prefixes, fragments and open fragments\<close>

definition pre :: "reinst list \<Rightarrow> bool" where
  "pre Q \<longleftrightarrow> (\<forall>i \<in> set Q. \<forall>t \<in> targets i. t \<le> int (length Q))"

definition frag :: "nat \<Rightarrow> reinst list \<Rightarrow> bool" where
  "frag lo F \<longleftrightarrow> (\<forall>i \<in> set F. \<forall>t \<in> targets i. int lo \<le> t \<and> t \<le> int (lo + length F))"

lemma frag_Nil [simp]: "frag lo []"
  by (simp add: frag_def)

lemma frag_append: "frag lo F \<Longrightarrow> frag (lo + length F) G \<Longrightarrow> frag lo (F @ G)"
  by (fastforce simp: frag_def)

lemma pre_append: "pre Q \<Longrightarrow> frag (length Q) F \<Longrightarrow> pre (Q @ F)"
  by (fastforce simp: pre_def frag_def)

lemma frag_single: "targets i = {} \<Longrightarrow> frag lo [i]"
  by (simp add: frag_def)

lemma targets_shift: "targets (shift_inst k i) = (\<lambda>t. t + k) ` targets i"
  by (cases i) auto

lemma frag_shift: "frag lo F \<Longrightarrow> int lo' = int lo + k \<Longrightarrow> frag lo' (map (shift_inst k) F)"
  by (fastforce simp: frag_def targets_shift)

lemma relocate_shift: "(\<And>t. t \<in> targets i \<Longrightarrow> low \<le> t) \<Longrightarrow> relocate low i = shift_inst 1 i"
  by (cases i) auto

lemma relocate_id: "\<forall>t \<in> targets i. t < low \<Longrightarrow> relocate low i = i"
  by (cases i) auto

section \<open>The invariant of the program under construction\<close>

definition inv :: "lpre \<Rightarrow> bool" where
  "inv re \<longleftrightarrow> fields_wf re \<and> length (prog re) \<le> cap re \<and> cap re \<le> MAX_INST \<and>
     nreg re \<le> MAX_REG \<and> ngroup re < RE_MAX_GROUPS"

definition ext :: "lpre \<Rightarrow> lpre \<Rightarrow> bool" where
  "ext re re' \<longleftrightarrow> nreg re \<le> nreg re' \<and> length (cls re) \<le> length (cls re') \<and>
     icase re' = icase re \<and> ngroup re \<le> ngroup re'"

lemma ext_refl [simp]: "ext re re"
  by (simp add: ext_def)

lemma ext_trans: "ext a b \<Longrightarrow> ext b c \<Longrightarrow> ext a c"
  by (simp add: ext_def)

lemma ext_prog [simp]: "ext re (re'\<lparr>prog := p, cap := c\<rparr>) = ext re re'" "ext re (re'\<lparr>prog := p\<rparr>) = ext re re'"
  by (simp_all add: ext_def)

abbreviation inst_ok :: "lpre \<Rightarrow> reinst \<Rightarrow> bool" where
  "inst_ok re \<equiv> fields_ok (RE_MAX_CAPS + nreg re) (length (cls re))"

lemma fields_ok_mono: "fields_ok n c i \<Longrightarrow> n \<le> n' \<Longrightarrow> c \<le> c' \<Longrightarrow> fields_ok n' c' i"
  by (cases i) auto

lemma fields_ok_shift [simp]: "fields_ok n c (shift_inst k i) = fields_ok n c i"
  by (cases i) auto

lemma fields_ok_relocate [simp]: "fields_ok n c (relocate k i) = fields_ok n c i"
  by (cases i) auto

lemma fields_ok_set_x [simp]: "fields_ok n c (set_x i v) = fields_ok n c i"
  by (cases i) auto

lemma fields_ok_set_y [simp]: "fields_ok n c (set_y i v) = fields_ok n c i"
  by (cases i) auto

lemma inv_prog:
  "inv re \<Longrightarrow> \<forall>i \<in> set p. inst_ok re i \<Longrightarrow> length p \<le> c \<Longrightarrow> c \<le> MAX_INST \<Longrightarrow>
     inv (re\<lparr>prog := p, cap := c\<rparr>)"
  by (simp add: inv_def fields_wf_def)

lemma inv_insts: "inv re \<Longrightarrow> \<forall>i \<in> set (prog re). inst_ok re i"
  by (simp add: inv_def fields_wf_def)

section \<open>Emitting and inserting\<close>

lemma emit_post:
  assumes "inv re" "inst_ok re i"
  shows "post (emit al re i) (\<lambda>(re', n). n = length (prog re) \<and> prog re' = prog re @ [i] \<and> inv re' \<and>
    ext re re' \<and> ngroup re' = ngroup re \<and> nreg re' = nreg re \<and> cls re' = cls re)"
  using assms by (auto simp: emit_def Let_def inv_def fields_wf_def ext_def MAX_INST_def)

lemma insert_list:
  fixes Q F :: "reinst list" and ins :: reinst
  assumes "pre Q" "frag (length Q) F"
  defines "P \<equiv> Q @ F @ [I_MATCH]" and "at \<equiv> length Q"
  defines "moved \<equiv> take (at + 1) P @ drop at (take (length P - 1) P)"
  shows "(map (\<lambda>i. relocate (if i < at then int at + 1 else int at) (moved ! i)) [0..<length P])[at := ins]
    = Q @ ins # map (shift_inst 1) F"
proof (rule nth_equalityI)
  have len: "length moved = length P" by (simp add: moved_def P_def at_def)
  show "length ((map (\<lambda>i. relocate (if i < at then int at + 1 else int at) (moved ! i)) [0..<length P])[at := ins])
    = length (Q @ ins # map (shift_inst 1) F)"
    by (simp add: P_def)
  fix k
  assume "k < length ((map (\<lambda>i. relocate (if i < at then int at + 1 else int at) (moved ! i)) [0..<length P])[at := ins])"
  then have k: "k < length Q + Suc (length F)" by (simp add: P_def)
  have Q: "relocate (int at + 1) i = i" if "i \<in> set Q" for i
    using assms(1) that by (intro relocate_id) (fastforce simp: pre_def at_def)
  have F: "relocate (int at) i = shift_inst 1 i" if "i \<in> set F" for i
    using assms(2) that by (intro relocate_shift) (fastforce simp: frag_def at_def)
  consider "k < at" | "k = at" | j where "k = at + Suc j" "j < length F"
    using k by (metis at_def less_Suc_eq_le add_Suc_right nat_add_left_cancel_less
        less_imp_Suc_add linorder_neqE_nat add_Suc)
  then show "(map (\<lambda>i. relocate (if i < at then int at + 1 else int at) (moved ! i)) [0..<length P])[at := ins] ! k
    = (Q @ ins # map (shift_inst 1) F) ! k"
  proof cases
    case 1
    then have "moved ! k = Q ! k" by (simp add: moved_def P_def at_def nth_append)
    then show ?thesis using 1 k Q [of "Q ! k"] by (simp add: P_def at_def nth_append)
  next
    case 2
    then show ?thesis by (simp add: P_def at_def nth_append)
  next
    case 3
    then have "moved ! k = F ! j" by (simp add: moved_def P_def at_def nth_append)
    then show ?thesis using 3 F [of "F ! j"] by (simp add: P_def at_def nth_append del: upt_Suc)
  qed
qed

lemma insert_post:
  assumes "inv re" "prog re = Q @ F" "pre Q" "frag (length Q) F" "inst_ok re ins"
  shows "post (insert_inst al re (length Q) ins)
    (\<lambda>re'. prog re' = Q @ ins # map (shift_inst 1) F \<and> inv re' \<and> ext re re' \<and> ngroup re' = ngroup re
       \<and> nreg re' = nreg re \<and> cls re' = cls re)"
  unfolding insert_inst_def
proof (rule post_andthen [OF emit_post [OF assms(1)]])
  show "inst_ok re I_MATCH" by simp
next
  fix x
  assume x: "case x of (re', n) \<Rightarrow> n = length (prog re) \<and> prog re' = prog re @ [I_MATCH] \<and> inv re' \<and>
    ext re re' \<and> ngroup re' = ngroup re \<and> nreg re' = nreg re \<and> cls re' = cls re"
  obtain r n where xr: "x = (r, n)" by (cases x)
  have "inv (r\<lparr>prog := Q @ ins # map (shift_inst 1) F\<rparr>)"
    using x xr assms(2,5) inv_insts [OF assms(1)] by (auto simp: inv_def fields_wf_def)
  then show "post (case x of (re, _) \<Rightarrow>
        (let p = prog re; n = length p; moved = take (length Q + 1) p @ drop (length Q) (take (n - 1) p);
             fixed = map (\<lambda>i. relocate (if i < length Q then int (length Q) + 1 else int (length Q)) (moved ! i)) [0..<n]
         in Inr (re\<lparr>prog := fixed[length Q := ins]\<rparr>)))
     (\<lambda>re'. prog re' = Q @ ins # map (shift_inst 1) F \<and> inv re' \<and> ext re re' \<and> ngroup re' = ngroup re
       \<and> nreg re' = nreg re \<and> cls re' = cls re)"
    using x xr assms(2) insert_list [OF assms(3,4), of ins] by (simp add: Let_def)
qed

section \<open>Open fragments and the chains through them\<close>

text \<open>
  Jumps to a place not yet known are threaded into a list through the field that will hold
  it, \<open>y\<close> of a \<open>SPLIT\<close> (\<open>j = False\<close>) or \<open>x\<close> of a \<open>JMP\<close>.
\<close>

definition fix_of :: "bool \<Rightarrow> reinst \<Rightarrow> int \<Rightarrow> reinst" where
  "fix_of j = (if j then set_x else set_y)"

definition hole_of :: "bool \<Rightarrow> reinst \<Rightarrow> int" where
  "hole_of j = (if j then get_x else get_y)"

fun linked :: "bool \<Rightarrow> reinst list \<Rightarrow> int \<Rightarrow> nat list \<Rightarrow> bool" where
  "linked j P c [] \<longleftrightarrow> c < 0"
| "linked j P c (k # ks) \<longleftrightarrow> c = int k \<and> k < length P \<and> k \<notin> set ks \<and> linked j P (hole_of j (P ! k)) ks"

definition opened :: "bool \<Rightarrow> nat \<Rightarrow> nat list \<Rightarrow> reinst list \<Rightarrow> bool" where
  "opened j lo ks P \<longleftrightarrow> set ks \<subseteq> {lo..<length P} \<and>
     (\<forall>k. lo \<le> k \<and> k < length P \<longrightarrow>
        (\<forall>t \<in> targets (if k \<in> set ks then fix_of j (P ! k) (int (length P)) else P ! k).
           int lo \<le> t \<and> t \<le> int (length P)))"

lemma targets_fix: "t \<in> targets (fix_of j i v) \<Longrightarrow> t = v \<or> t \<in> targets (fix_of j i u)"
  by (cases i; cases j) (auto simp: fix_of_def)

lemma frag_nth: "frag lo (drop lo P) \<longleftrightarrow>
    (\<forall>k. lo \<le> k \<and> k < length P \<longrightarrow> (\<forall>t \<in> targets (P ! k). int lo \<le> t \<and> t \<le> int (length P)))"
  if "lo \<le> length P"
proof -
  have "(\<forall>i \<in> set (drop lo P). R i) \<longleftrightarrow> (\<forall>k. lo \<le> k \<and> k < length P \<longrightarrow> R (P ! k))" for R
    by (auto simp: all_set_conv_all_nth)
       (metis add.commute diff_less_mono le_add_diff_inverse2)
  then show ?thesis using that by (simp add: frag_def)
qed

lemma opened_Nil: "lo \<le> length P \<Longrightarrow> opened j lo [] P \<longleftrightarrow> frag lo (drop lo P)"
  by (simp add: opened_def frag_nth)

lemma opened_append:
  assumes "opened j lo ks P" "frag (length P) G" "lo \<le> length P"
  shows "opened j lo ks (P @ G)"
proof -
  have "int lo \<le> t \<and> t \<le> int (length (P @ G))"
    if k: "lo \<le> k" "k < length (P @ G)"
      and t: "t \<in> targets (if k \<in> set ks then fix_of j ((P @ G) ! k) (int (length (P @ G))) else (P @ G) ! k)"
    for k t
  proof (cases "k < length P")
    case True
    have "t \<in> insert (int (length (P @ G)))
        (targets (if k \<in> set ks then fix_of j (P ! k) (int (length P)) else P ! k))"
      using t True targets_fix [of t j "P ! k" _ "int (length P)"]
      by (auto simp: nth_append simp del: of_nat_add)
    then show ?thesis using assms(1,3) k(1) True by (fastforce simp: opened_def)
  next
    case False
    then have "k \<notin> set ks" using assms(1) by (auto simp: opened_def)
    moreover have "G ! (k - length P) \<in> set G" using False k by simp
    ultimately show ?thesis
      using t False assms(2,3) by (fastforce simp: frag_def nth_append)
  qed
  moreover have "set ks \<subseteq> {lo..<length (P @ G)}" using assms(1) by (auto simp: opened_def)
  ultimately show ?thesis by (auto simp: opened_def)
qed

lemma opened_push:
  assumes "opened j lo ks P" "lo \<le> length P"
    and "\<And>v. int lo \<le> v \<Longrightarrow> v \<le> int (length P + 1) \<Longrightarrow>
      \<forall>t \<in> targets (fix_of j i v). int lo \<le> t \<and> t \<le> int (length P + 1)"
  shows "opened j lo (length P # ks) (P @ [i])"
proof -
  have "int lo \<le> t \<and> t \<le> int (length (P @ [i]))"
    if k: "lo \<le> k" "k < length (P @ [i])"
      and t: "t \<in> targets (if k \<in> set (length P # ks)
        then fix_of j ((P @ [i]) ! k) (int (length (P @ [i]))) else (P @ [i]) ! k)" for k t
  proof (cases "k < length P")
    case True
    have "t \<in> insert (int (length (P @ [i])))
        (targets (if k \<in> set ks then fix_of j (P ! k) (int (length P)) else P ! k))"
      using t True targets_fix [of t j "P ! k" _ "int (length P)"]
      by (auto simp: nth_append simp del: of_nat_add split: if_splits)
    then show ?thesis using assms(1,2) k(1) True by (fastforce simp: opened_def)
  next
    case False
    then have "k = length P" using k by simp
    then show ?thesis using t assms(2) assms(3) [of "int (length P + 1)"] by simp
  qed
  moreover have "set (length P # ks) \<subseteq> {lo..<length (P @ [i])}"
    using assms(1,2) by (auto simp: opened_def)
  ultimately show ?thesis unfolding opened_def by blast
qed

lemma chain_append: "linked j P c ks \<Longrightarrow> linked j (P @ G) c ks"
  by (induction ks arbitrary: c) (auto simp: nth_append)

lemma chain_push: "linked j P (hole_of j i) ks \<Longrightarrow> linked j (P @ [i]) (int (length P)) (length P # ks)"
proof -
  have "set ks \<subseteq> {..<length P}" if "linked j P c ks" for c
    using that by (induction ks arbitrary: c) auto
  then show "linked j P (hole_of j i) ks \<Longrightarrow> ?thesis"
    by (fastforce simp: chain_append)
qed

lemma chain_length: "linked j P c ks \<Longrightarrow> length ks \<le> length P"
proof -
  assume "linked j P c ks"
  then have "distinct ks \<and> set ks \<subseteq> {..<length P}"
    by (induction ks arbitrary: c) auto
  then show ?thesis
    by (metis card_lessThan card_mono distinct_card finite_lessThan)
qed

lemma chain_other: "k \<notin> set ks \<Longrightarrow> linked j (P[k := i]) c ks = linked j P c ks"
  by (induction ks arbitrary: c) auto

definition patched :: "bool \<Rightarrow> nat list \<Rightarrow> reinst list \<Rightarrow> reinst list" where
  "patched j ks P = fold (\<lambda>k P. P[k := fix_of j (P ! k) (int (length P))]) ks P"

lemma patched_length [simp]: "length (patched j ks P) = length P"
  unfolding patched_def by (induction ks arbitrary: P) auto

lemma patched_nth:
  "distinct ks \<Longrightarrow> k < length P \<Longrightarrow>
     patched j ks P ! k = (if k \<in> set ks then fix_of j (P ! k) (int (length P)) else P ! k)"
proof (induction ks arbitrary: P)
  case (Cons a ks)
  then show ?case by (cases "a = k") (auto simp: patched_def)
qed (simp add: patched_def)

lemma chain_distinct: "linked j P c ks \<Longrightarrow> distinct ks"
  by (induction ks arbitrary: c) auto

lemma opened_patched:
  assumes "opened j lo ks P" "linked j P c ks" "lo \<le> length P"
  shows "frag lo (drop lo (patched j ks P)) \<and> take lo (patched j ks P) = take lo P"
proof
  show "frag lo (drop lo (patched j ks P))"
    using assms by (simp add: frag_nth patched_nth chain_distinct opened_def)
  show "take lo (patched j ks P) = take lo P"
    using assms(1,3)
    by (intro nth_equalityI) (auto simp: patched_nth [OF chain_distinct [OF assms(2)]] opened_def)
qed

lemma patch_split_chain_patched:
  "linked False (prog re) c ks \<Longrightarrow> length ks \<le> n \<Longrightarrow>
     patch_split_chain n re c = Inr (re\<lparr>prog := patched False ks (prog re)\<rparr>)"
proof (induction ks arbitrary: n re c)
  case Nil
  then show ?case by (simp add: patch_split_chain.simps patched_def)
next
  case (Cons k ks)
  obtain m where m: "n = Suc m" using Cons.prems(2) by (cases n) auto
  have "linked False (prog (patch_y re k (int (length (prog re))))) (get_y (prog re ! k)) ks"
    using Cons.prems(1) by (simp add: patch_y_def chain_other hole_of_def)
  from Cons.IH [OF this, of m] show ?case
    using Cons.prems m by (simp add: patch_split_chain.simps patched_def patch_y_def fix_of_def)
qed

lemma patch_jmp_chain_patched:
  "linked True (prog re) c ks \<Longrightarrow> length ks \<le> n \<Longrightarrow>
     patch_jmp_chain n re c = Inr (re\<lparr>prog := patched True ks (prog re)\<rparr>)"
proof (induction ks arbitrary: n re c)
  case Nil
  then show ?case by (simp add: patch_jmp_chain.simps patched_def)
next
  case (Cons k ks)
  obtain m where m: "n = Suc m" using Cons.prems(2) by (cases n) auto
  have "linked True (prog (patch_x re k (int (length (prog re))))) (get_x (prog re ! k)) ks"
    using Cons.prems(1) by (simp add: patch_x_def chain_other hole_of_def)
  from Cons.IH [OF this, of m] show ?case
    using Cons.prems m by (simp add: patch_jmp_chain.simps patched_def patch_x_def fix_of_def)
qed

lemma patched_ok: "\<forall>i \<in> set P. fields_ok n c i \<Longrightarrow> \<forall>i \<in> set (patched j ks P). fields_ok n c i"
  unfolding patched_def
proof (induction ks arbitrary: P)
  case (Cons k ks)
  have "\<forall>i \<in> set (P[k := fix_of j (P ! k) (int (length P))]). fields_ok n c i"
  proof (cases "k < length P")
    case True
    then show ?thesis
      using Cons.prems set_update_subset_insert [of P k] by (fastforce simp: fix_of_def)
  qed (use Cons.prems in \<open>simp add: list_update_beyond\<close>)
  then show ?case using Cons.IH by simp
qed simp

section \<open>The repeat operators\<close>

text \<open>What an operator on the atom after \<open>Q\<close> leaves: \<open>Q\<close> as it was and a closed fragment.\<close>

definition kept :: "reinst list \<Rightarrow> lpre \<Rightarrow> lpre \<Rightarrow> bool" where
  "kept Q re re' \<longleftrightarrow>
     (\<exists>F. prog re' = Q @ F \<and> frag (length Q) F) \<and> inv re' \<and> ext re re'"

lemma keptI: "prog re' = Q @ F \<Longrightarrow> frag (length Q) F \<Longrightarrow> inv re' \<Longrightarrow> ext re re' \<Longrightarrow> kept Q re re'"
  by (auto simp: kept_def)

lemma kept_trans: "kept Q a b \<Longrightarrow> kept Q b c \<Longrightarrow> kept Q a c"
  by (auto simp: kept_def intro: ext_trans)

lemma inv_patch:
  "inv re \<Longrightarrow> inv (patch_x re k v)" "inv re \<Longrightarrow> inv (patch_y re k v)"
  by (cases "k < length (prog re)";
      force simp: patch_x_def patch_y_def inv_def fields_wf_def list_update_beyond
        dest: subsetD [OF set_update_subset_insert])+

lemma frag_star:
  assumes "frag (lo + n) F" "n \<ge> 1"
    and "\<forall>i \<in> set G. targets i = {} \<or> targets i = {int lo}" "length H = n"
    and "\<forall>i \<in> set H. targets i \<subseteq> {int lo + 1, int (lo + n + length F + length G)}"
  shows "frag lo (H @ F @ G)"
  using assms unfolding frag_def by (fastforce simp: subset_iff)

lemma map_shift_shift: "map (shift_inst k) (map (shift_inst l) F) = map (shift_inst (l + k)) F"
proof -
  have "shift_inst k (shift_inst l i) = shift_inst (l + k) i" for i by (cases i) auto
  then show ?thesis by simp
qed

lemma star_simple_post:
  assumes "inv re" "prog re = Q @ F" "pre Q" "frag (length Q) F"
    and "inst_ok re back" "targets back = {int (length Q)}"
  shows "post (andthen (insert_inst al re (length Q) (I_SPLIT (int (length Q) + 1) (-1))) (\<lambda>re.
        andthen (emit al re back) (\<lambda>(re, _).
        Inr (patch_y re (length Q) (int (length (prog re))))))) (kept Q re)"
proof (rule post_andthen [OF insert_post [OF assms(1-4)]])
  show "inst_ok re (I_SPLIT (int (length Q) + 1) (-1))" by simp
next
  fix r
  assume r: "prog r = Q @ I_SPLIT (int (length Q) + 1) (-1) # map (shift_inst 1) F \<and> inv r \<and> ext re r \<and>
    ngroup r = ngroup re \<and> nreg r = nreg re \<and> cls r = cls re"
  then have ok: "inst_ok r back" using assms(5) by simp
  show "post (andthen (emit al r back) (\<lambda>(re, _). Inr (patch_y re (length Q) (int (length (prog re)))))) (kept Q re)"
  proof (rule post_andthen [OF emit_post [OF _ ok]])
    show "inv r" using r by simp
  next
    fix x
    assume x: "case x of (re', n) \<Rightarrow> n = length (prog r) \<and> prog re' = prog r @ [back] \<and> inv re' \<and>
      ext r re' \<and> ngroup re' = ngroup r \<and> nreg re' = nreg r \<and> cls re' = cls r"
    obtain u n where xu: "x = (u, n)" by (cases x)
    let ?fin = "int (length Q + 2 + length F)"
    have p: "prog (patch_y u (length Q) (int (length (prog u)))) =
        Q @ [I_SPLIT (int (length Q) + 1) ?fin] @ map (shift_inst 1) F @ [back]"
      using x xu r by (simp add: patch_y_def nth_append list_update_append algebra_simps)
    have f1: "frag (length Q + 1) (map (shift_inst 1) F)"
      by (rule frag_shift [OF assms(4)]) simp
    have f: "frag (length Q) ([I_SPLIT (int (length Q) + 1) ?fin] @ map (shift_inst 1) F @ [back])"
      by (rule frag_star [OF f1]) (use assms(6) in auto)
    show "post (case x of (re, _) \<Rightarrow> Inr (patch_y re (length Q) (int (length (prog re))))) (kept Q re)"
      using keptI [OF p f, of re] x xu r
      by (auto simp: inv_patch ext_def) (auto simp: patch_y_def)
  qed
qed

lemma emit_star_post:
  assumes "inv re" "prog re = Q @ F" "pre Q" "frag (length Q) F"
  shows "post (emit_star al re (length Q)) (kept Q re)"
proof -
  have plain: "post (andthen (insert_inst al re (length Q) (I_SPLIT (int (length Q) + 1) (-1))) (\<lambda>re.
        andthen (emit al re (I_JMP (int (length Q)))) (\<lambda>(re, _).
        Inr (patch_y re (length Q) (int (length (prog re))))))) (kept Q re)"
    by (rule star_simple_post [OF assms]) auto
  have guarded: "post (let reg = RE_MAX_CAPS + nreg re; re = re\<lparr>nreg := nreg re + 1\<rparr> in
            andthen (insert_inst al re (length Q) (I_SAVE reg)) (\<lambda>re.
            andthen (insert_inst al re (length Q) (I_SPLIT (int (length Q) + 1) (-1))) (\<lambda>re.
            andthen (emit al re (I_LOOP reg (int (length Q)))) (\<lambda>(re, _).
            Inr (patch_y re (length Q) (int (length (prog re)))))))) (kept Q re)"
    if "nreg re < MAX_REG"
  proof -
    let ?reg = "RE_MAX_CAPS + nreg re" and ?re = "re\<lparr>nreg := nreg re + 1\<rparr>"
    have inv: "inv ?re"
      using assms(1) that by (auto simp: inv_def fields_wf_def intro: fields_ok_mono)
    have e: "ext re ?re" by (simp add: ext_def)
    show ?thesis
      unfolding Let_def
    proof (rule post_andthen [OF insert_post [OF inv _ assms(3,4)]])
      show "prog ?re = Q @ F" using assms(2) by simp
      show "inst_ok ?re (I_SAVE ?reg)" by simp
    next
      fix r
      assume r: "prog r = Q @ I_SAVE ?reg # map (shift_inst 1) F \<and> inv r \<and> ext ?re r \<and>
        ngroup r = ngroup ?re \<and> nreg r = nreg ?re \<and> cls r = cls ?re"
      have f1: "frag (length Q + 1) (map (shift_inst 1) F)"
        by (rule frag_shift [OF assms(4)]) simp
      have f: "frag (length Q) (I_SAVE ?reg # map (shift_inst 1) F)"
        using frag_append [of "length Q" "[I_SAVE ?reg]"] f1 by (simp add: frag_single)
      have "post (andthen (insert_inst al r (length Q) (I_SPLIT (int (length Q) + 1) (-1))) (\<lambda>re.
            andthen (emit al re (I_LOOP ?reg (int (length Q)))) (\<lambda>(re, _).
            Inr (patch_y re (length Q) (int (length (prog re))))))) (kept Q r)"
        by (rule star_simple_post [OF _ _ assms(3) f]) (use r in auto)
      then show "post (andthen (insert_inst al r (length Q) (I_SPLIT (int (length Q) + 1) (-1))) (\<lambda>re.
            andthen (emit al re (I_LOOP ?reg (int (length Q)))) (\<lambda>(re, _).
            Inr (patch_y re (length Q) (int (length (prog re))))))) (kept Q re)"
        by (rule post_mono) (use r e in \<open>auto simp: kept_def intro: ext_trans\<close>)
    qed
  qed
  show ?thesis
    unfolding emit_star_def using plain guarded by (auto simp: Let_def split: prod.split)
qed

lemma emit_opt_post:
  assumes "inv re" "prog re = Q @ F" "pre Q" "frag (length Q) F"
  shows "post (emit_opt al re (length Q)) (kept Q re)"
  unfolding emit_opt_def
proof (rule post_andthen [OF insert_post [OF assms]])
  show "inst_ok re (I_SPLIT (int (length Q) + 1) (-1))" by simp
next
  fix r
  assume r: "prog r = Q @ I_SPLIT (int (length Q) + 1) (-1) # map (shift_inst 1) F \<and> inv r \<and> ext re r \<and>
    ngroup r = ngroup re \<and> nreg r = nreg re \<and> cls r = cls re"
  let ?fin = "int (length Q + 1 + length F)"
  have p: "prog (patch_y r (length Q) (int (length (prog r)))) =
      Q @ [I_SPLIT (int (length Q) + 1) ?fin] @ map (shift_inst 1) F @ []"
    using r by (simp add: patch_y_def nth_append list_update_append algebra_simps)
  have f1: "frag (length Q + 1) (map (shift_inst 1) F)"
    by (rule frag_shift [OF assms(4)]) simp
  have f: "frag (length Q) ([I_SPLIT (int (length Q) + 1) ?fin] @ map (shift_inst 1) F @ [])"
    by (rule frag_star [OF f1]) auto
  show "post (Inr (patch_y r (length Q) (int (length (prog r))))) (kept Q re)"
    using keptI [OF p f, of re] r by (auto simp: inv_patch ext_def) (auto simp: patch_y_def)
qed

section \<open>Stamping fragments down\<close>

text \<open>A saved fragment: jumps relative to its start, fields that exist in the program.\<close>

definition saved :: "lpre \<Rightarrow> reinst list \<Rightarrow> bool" where
  "saved re f \<longleftrightarrow> frag 0 f \<and> (\<forall>i \<in> set f. inst_ok re i)"

lemma saved_mono: "saved re f \<Longrightarrow> ext re re' \<Longrightarrow> saved re' f"
  by (auto simp: saved_def ext_def intro: fields_ok_mono)

lemma frag_save_post:
  assumes "inv re" "prog re = Q @ F" "frag (length Q) F"
  shows "post (frag_save al re (length Q)) (saved re)"
proof -
  have "frag 0 (map (shift_inst (- int (length Q))) F)"
    by (rule frag_shift [OF assms(3)]) simp
  then show ?thesis
    using inv_insts [OF assms(1)] assms(2) by (auto simp: frag_save_def saved_def Let_def)
qed

lemma frag_emit_loop_post:
  assumes "inv re" "\<forall>i \<in> set f. inst_ok re i"
  shows "post (frag_emit_loop al re dst f) (\<lambda>re'. prog re' = prog re @ map (shift_inst (int dst)) f \<and>
    inv re' \<and> ext re re' \<and> ngroup re' = ngroup re)"
  using assms
proof (induction f arbitrary: re)
  case (Cons i f)
  show ?case
    unfolding frag_emit_loop.simps
  proof (rule post_andthen [OF emit_post [OF Cons.prems(1)]])
    show "inst_ok re (shift_inst (int dst) i)" using Cons.prems by simp
  next
    fix x
    assume x: "case x of (re', n) \<Rightarrow> n = length (prog re) \<and> prog re' = prog re @ [shift_inst (int dst) i] \<and>
      inv re' \<and> ext re re' \<and> ngroup re' = ngroup re \<and> nreg re' = nreg re \<and> cls re' = cls re"
    obtain r n where xr: "x = (r, n)" by (cases x)
    have "post (frag_emit_loop al r dst f) (\<lambda>re'. prog re' = prog r @ map (shift_inst (int dst)) f \<and>
      inv re' \<and> ext r re' \<and> ngroup re' = ngroup r)"
      by (rule Cons.IH) (use x xr Cons.prems in auto)
    then show "post (case x of (re, _) \<Rightarrow> frag_emit_loop al re dst f)
      (\<lambda>re'. prog re' = prog re @ map (shift_inst (int dst)) (i # f) \<and> inv re' \<and> ext re re' \<and> ngroup re' = ngroup re)"
      unfolding xr prod.case by (rule post_mono) (use x xr in \<open>auto intro: ext_trans\<close>)
  qed
qed simp

lemma frag_emit_post:
  assumes "inv re" "saved re f"
  shows "post (frag_emit al re f) (\<lambda>re'. (\<exists>G. prog re' = prog re @ G \<and> frag (length (prog re)) G) \<and>
    inv re' \<and> ext re re' \<and> ngroup re' = ngroup re)"
  unfolding frag_emit_def
proof (rule post_mono [OF frag_emit_loop_post [OF assms(1)]])
  show "\<forall>i \<in> set f. inst_ok re i" using assms(2) by (simp add: saved_def)
next
  fix r
  assume r: "prog r = prog re @ map (shift_inst (int (length (prog re)))) f \<and> inv r \<and> ext re r \<and> ngroup r = ngroup re"
  have "frag (length (prog re)) (map (shift_inst (int (length (prog re)))) f)"
    by (rule frag_shift [of 0]) (use assms(2) in \<open>auto simp: saved_def\<close>)
  with r show "(\<exists>G. prog r = prog re @ G \<and> frag (length (prog re)) G) \<and> inv r \<and> ext re r \<and> ngroup r = ngroup re"
    by auto
qed

lemma kept_app:
  assumes "kept (Q @ F) re re'" "frag (length Q) F"
  shows "kept Q re re'"
proof -
  obtain G where "prog re' = Q @ F @ G" "frag (length Q + length F) G"
    using assms(1) by (auto simp: kept_def)
  then show ?thesis
    using frag_append [OF assms(2)] assms(1) by (auto simp: kept_def)
qed

lemma frag_emit_kept:
  assumes "inv re" "saved re f"
  shows "post (frag_emit al re f) (kept (prog re) re)"
  by (rule post_mono [OF frag_emit_post [OF assms]]) (auto simp: kept_def)

lemma emit_plus_post:
  assumes "inv re" "prog re = Q @ F" "pre Q" "frag (length Q) F"
  shows "post (emit_plus al re (length Q)) (kept Q re)"
proof -
  have simple: "post (andthen (emit al re (I_SPLIT (int (length Q)) 0)) (\<lambda>(re, s).
        Inr (patch_y re s (int s + 1)))) (kept Q re)"
  proof (rule post_andthen [OF emit_post [OF assms(1)]])
    show "inst_ok re (I_SPLIT (int (length Q)) 0)" by simp
  next
    fix x
    assume x: "case x of (re', n) \<Rightarrow> n = length (prog re) \<and> prog re' = prog re @ [I_SPLIT (int (length Q)) 0] \<and>
      inv re' \<and> ext re re' \<and> ngroup re' = ngroup re \<and> nreg re' = nreg re \<and> cls re' = cls re"
    obtain r n where xr: "x = (r, n)" by (cases x)
    let ?i = "I_SPLIT (int (length Q)) (int (length Q + length F) + 1)"
    have p: "prog (patch_y r n (int n + 1)) = Q @ F @ [?i]"
      using x xr assms(2) by (simp add: patch_y_def list_update_append)
    have "frag (length Q) (F @ [?i])"
      using assms(4) by (fastforce simp: frag_def)
    from keptI [OF p this, of re] x xr
    show "post (case x of (re, s) \<Rightarrow> Inr (patch_y re s (int s + 1))) (kept Q re)"
      by (auto simp: inv_patch ext_def) (auto simp: patch_y_def)
  qed
  have nullable: "post (andthen (frag_save al re (length Q)) (\<lambda>f.
        (let cs = length (prog re) in andthen (frag_emit al re f) (\<lambda>re. emit_star al re cs)))) (kept Q re)"
    unfolding Let_def
  proof (rule post_andthen [OF frag_save_post [OF assms(1,2,4)]], rule post_andthen [OF frag_emit_kept [OF assms(1)]])
    fix f r
    assume k: "kept (prog re) re r"
    then obtain G where G: "prog r = (Q @ F) @ G" "frag (length (Q @ F)) G" "inv r"
      by (auto simp: kept_def assms(2))
    have "post (emit_star al r (length (Q @ F))) (kept (Q @ F) r)"
      by (rule emit_star_post [OF G(3,1) _ G(2)]) (rule pre_append [OF assms(3,4)])
    then have "post (emit_star al r (length (prog re))) (kept (Q @ F) r)" by (simp add: assms(2))
    then show "post (emit_star al r (length (prog re))) (kept Q re)"
      by (rule post_mono) (use k assms(2,4) in \<open>auto intro: kept_app kept_trans\<close>)
  qed
  show ?thesis
    unfolding emit_plus_def using simple nullable by (auto simp: Let_def split: prod.split)
qed

lemma emit_copies_post:
  "inv re \<Longrightarrow> saved re f \<Longrightarrow> post (emit_copies al re f k) (kept (prog re) re)"
proof (induction k arbitrary: re)
  case 0
  then show ?case by (simp add: kept_def)
next
  case (Suc k)
  show ?case
    unfolding emit_copies.simps
  proof (rule post_andthen [OF frag_emit_kept [OF Suc.prems]])
    fix r
    assume k: "kept (prog re) re r"
    then have "post (emit_copies al r f k) (kept (prog r) r)"
      by (intro Suc.IH) (use Suc.prems in \<open>auto simp: kept_def intro: saved_mono\<close>)
    then show "post (emit_copies al r f k) (kept (prog re) re)"
      by (rule post_mono) (use k in \<open>auto simp: kept_def intro: kept_app ext_trans frag_append\<close>)
  qed
qed

text \<open>The state of the optional tail: closed but for the chain of \<open>SPLIT\<close>s.\<close>

definition threaded :: "bool \<Rightarrow> reinst list \<Rightarrow> lpre \<Rightarrow> lpre \<Rightarrow> int \<Rightarrow> bool" where
  "threaded j Q re re' c \<longleftrightarrow>
     (\<exists>F ks. prog re' = Q @ F \<and> linked j (prog re') c ks \<and> opened j (length Q) ks (prog re')) \<and>
     inv re' \<and> ext re re'"

lemma threadedI: "prog re' = Q @ F \<Longrightarrow> linked j (prog re') c ks \<Longrightarrow> opened j (length Q) ks (prog re') \<Longrightarrow>
    inv re' \<Longrightarrow> ext re re' \<Longrightarrow> threaded j Q re re' c"
  unfolding threaded_def by blast

lemma threaded_append:
  assumes "threaded j Q re re' c" "kept (prog re') re' r"
  shows "threaded j Q re r c"
proof -
  obtain F ks where F: "prog re' = Q @ F" "linked j (prog re') c ks" "opened j (length Q) ks (prog re')"
    using assms(1) by (auto simp: threaded_def)
  obtain G where G: "prog r = prog re' @ G" "frag (length (prog re')) G"
    using assms(2) by (auto simp: kept_def)
  have "linked j (prog r) c ks" "opened j (length Q) ks (prog r)"
    using chain_append [OF F(2)] opened_append [OF F(3) G(2)] F(1) G(1) by auto
  then show ?thesis
    using assms F(1) G(1) by (auto simp: threaded_def kept_def intro: ext_trans)
qed

lemma threaded_patched:
  assumes "threaded j Q re r c"
  obtains ks where "linked j (prog r) c ks" "length ks \<le> length (prog r)"
    "\<exists>F. patched j ks (prog r) = Q @ F \<and> frag (length Q) F"
    "inv (r\<lparr>prog := patched j ks (prog r)\<rparr>)"
proof -
  obtain F ks where F: "prog r = Q @ F" "linked j (prog r) c ks" "opened j (length Q) ks (prog r)"
    using assms by (auto simp: threaded_def)
  let ?P = "patched j ks (prog r)"
  have "frag (length Q) (drop (length Q) ?P)" "take (length Q) ?P = Q"
    using opened_patched [OF F(3,2)] F(1) by auto
  then have "?P = Q @ drop (length Q) ?P \<and> frag (length Q) (drop (length Q) ?P)"
    by (metis append_take_drop_id)
  moreover have "inv (r\<lparr>prog := ?P\<rparr>)"
    using assms patched_ok [OF inv_insts, of r j ks] by (auto simp: threaded_def inv_def fields_wf_def)
  ultimately show ?thesis using that F(2) chain_length [OF F(2)] by blast
qed

lemma emit_optional_post:
  "inv re \<Longrightarrow> saved re f \<Longrightarrow> threaded False Q re0 re c \<Longrightarrow>
     post (emit_optional al re f c k) (\<lambda>(re', c'). threaded False Q re0 re' c')"
proof (induction k arbitrary: re c)
  case 0
  then show ?case by simp
next
  case (Suc k)
  show ?case
    unfolding emit_optional.simps
  proof (rule post_andthen [OF emit_post [OF Suc.prems(1)]])
    show "inst_ok re (I_SPLIT 0 c)" by simp
  next
    fix x
    assume x: "case x of (re', n) \<Rightarrow> n = length (prog re) \<and> prog re' = prog re @ [I_SPLIT 0 c] \<and>
      inv re' \<and> ext re re' \<and> ngroup re' = ngroup re \<and> nreg re' = nreg re \<and> cls re' = cls re"
    obtain r s where xr: "x = (r, s)" by (cases x)
    let ?i = "I_SPLIT (int (length (prog re)) + 1) c" and ?r = "patch_x r s (int s + 1)"
    have p: "prog ?r = prog re @ [?i]"
      using x xr by (simp add: patch_x_def)
    obtain F ks where F: "prog re = Q @ F" "linked False (prog re) c ks" "opened False (length Q) ks (prog re)"
      using Suc.prems(3) by (auto simp: threaded_def)
    have ch: "linked False (prog ?r) (int s) (length (prog re) # ks)"
      using chain_push [of False "prog re" ?i ks] F(2) x xr p by (simp add: hole_of_def)
    have op: "opened False (length Q) (length (prog re) # ks) (prog ?r)"
      unfolding p by (rule opened_push [OF F(3)]) (use F(1) in \<open>auto simp: fix_of_def\<close>)
    have inv: "inv ?r" using x xr by (simp add: inv_patch)
    have e: "ext re0 ?r" using x xr Suc.prems(3) by (auto simp: patch_x_def threaded_def ext_def)
    have t: "threaded False Q re0 ?r (int s)"
      by (rule threadedI [OF _ ch op inv e, of "F @ [?i]"]) (use p F(1) in simp)
    have "ext re ?r" using x xr by (auto simp: patch_x_def)
    then have "saved ?r f" using Suc.prems(2) by (rule saved_mono [rotated])
    with inv have "post (frag_emit al ?r f) (kept (prog ?r) ?r)" by (intro frag_emit_kept)
    then show "post (case x of (re, s) \<Rightarrow> (let re = patch_x re s (int s + 1) in
        andthen (frag_emit al re f) (\<lambda>re. emit_optional al re f (int s) k)))
      (\<lambda>(re', c'). threaded False Q re0 re' c')"
      unfolding xr prod.case Let_def
    proof (rule post_andthen)
      fix u
      assume u: "kept (prog ?r) ?r u"
      show "post (emit_optional al u f (int s) k) (\<lambda>(re', c'). threaded False Q re0 re' c')"
        by (rule Suc.IH [OF _ _ threaded_append [OF t u]])
           (use u \<open>saved ?r f\<close> in \<open>auto simp: kept_def intro: saved_mono\<close>)
    qed
  qed
qed

lemma inv_truncate: "inv re \<Longrightarrow> inv (re\<lparr>prog := take k (prog re)\<rparr>)"
  by (auto simp: inv_def fields_wf_def dest: in_set_takeD)

lemma threaded_closed:
  "prog re' = Q @ F \<Longrightarrow> frag (length Q) F \<Longrightarrow> inv re' \<Longrightarrow> ext re re' \<Longrightarrow>
     threaded j Q re re' (-1)"
  unfolding threaded_def
  by (intro conjI exI [of _ F] exI [of _ "[]"]) (auto simp: opened_Nil)

lemma emit_rep_post:
  assumes "inv re" "prog re = Q @ F" "pre Q" "frag (length Q) F"
  shows "post (emit_rep al re (length Q) m n) (kept Q re)"
  unfolding emit_rep_def
proof (rule post_andthen [OF frag_save_post [OF assms(1,2,4)]])
  fix f
  assume f: "saved re f"
  let ?re = "re\<lparr>prog := take (length Q) (prog re)\<rparr>"
  have inv: "inv ?re" and p: "prog ?re = Q" and e: "ext re ?re" and s: "saved ?re f"
    using assms(2) f inv_truncate [OF assms(1), of "length Q"] by (auto simp: saved_def)
  have K: "kept Q re r'" if "kept Q ?re r'" for r'
    using that by (auto simp: kept_def ext_def)
  have star: "post (andthen (frag_emit al ?re f) (\<lambda>re'. emit_star al re' (length (prog ?re)))) (kept Q re)"
  proof (rule post_andthen [OF frag_emit_kept [OF inv s]])
    fix r
    assume r: "kept (prog ?re) ?re r"
    then obtain G where G: "prog r = Q @ G" "frag (length Q) G" "inv r" unfolding p by (auto simp: kept_def)
    show "post (emit_star al r (length (prog ?re))) (kept Q re)"
      using emit_star_post [OF G(3,1) assms(3) G(2), of al] r unfolding p
      by (elim post_mono) (auto intro: K kept_trans)
  qed
  have plus: "post (andthen (emit_copies al ?re f (m - 1)) (\<lambda>re.
      andthen (frag_emit al re f) (\<lambda>re'. emit_plus al re' (length (prog re))))) (kept Q re)"
  proof (rule post_andthen [OF emit_copies_post [OF inv s]])
    fix r
    assume r: "kept (prog ?re) ?re r"
    show "post (andthen (frag_emit al r f) (\<lambda>re'. emit_plus al re' (length (prog r)))) (kept Q re)"
    proof (rule post_andthen [OF frag_emit_kept])
    show "inv r" using r by (simp add: kept_def)
    show "saved r f" using r s by (auto simp: kept_def intro: saved_mono)
  next
    fix u
    assume u: "kept (prog r) r u"
    obtain G where G: "prog r = Q @ G" "frag (length Q) G" using r unfolding p by (auto simp: kept_def)
    obtain H where H: "prog u = (Q @ G) @ H" "frag (length (Q @ G)) H" "inv u"
      using u G(1) by (auto simp: kept_def)
    have "post (emit_plus al u (length (Q @ G))) (kept (Q @ G) u)"
      by (rule emit_plus_post [OF H(3,1) pre_append [OF assms(3) G(2)] H(2)])
    then show "post (emit_plus al u (length (prog r))) (kept Q re)"
      unfolding G(1)
      by (rule post_mono)
         (rule K, rule kept_trans [OF r [unfolded p]], rule kept_app [OF kept_trans [OF u [unfolded G(1)]] G(2)])
    qed
  qed
  have opt: "post (andthen (emit_copies al ?re f m) (\<lambda>re.
      andthen (emit_optional al re f (-1) k) (\<lambda>(re, chain). patch_split_chain (length (prog re)) re chain)))
      (kept Q re)" for k
  proof (rule post_andthen [OF emit_copies_post [OF inv s]])
    fix r
    assume r: "kept (prog ?re) ?re r"
    then obtain G where G: "prog r = Q @ G" "frag (length Q) G" "inv r" "ext ?re r"
      unfolding p by (auto simp: kept_def)
    have t: "threaded False Q ?re r (-1)"
      by (rule threaded_closed [OF G(1-4)])
    show "post (andthen (emit_optional al r f (-1) k) (\<lambda>(re, chain). patch_split_chain (length (prog re)) re chain))
      (kept Q re)"
    proof (rule post_andthen [OF emit_optional_post [OF G(3) saved_mono [OF s G(4)] t]])
      fix x
      assume x: "case x of (re', c') \<Rightarrow> threaded False Q ?re re' c'"
      obtain u c where xu: "x = (u, c)" by (cases x)
      obtain ks where "linked False (prog u) c ks" "length ks \<le> length (prog u)"
        "\<exists>F. patched False ks (prog u) = Q @ F \<and> frag (length Q) F"
        "inv (u\<lparr>prog := patched False ks (prog u)\<rparr>)"
        using x xu by (auto elim: threaded_patched)
      then show "post (case x of (re, chain) \<Rightarrow> patch_split_chain (length (prog re)) re chain) (kept Q re)"
        using x xu by (auto simp: patch_split_chain_patched kept_def threaded_def ext_def)
    qed
  qed
  show "post (let re = re\<lparr>prog := take (length Q) (prog re)\<rparr> in
      case n of
        None \<Rightarrow>
          (if m = 0 then
             andthen (frag_emit al re f) (\<lambda>re'. emit_star al re' (length (prog re)))
           else
             andthen (emit_copies al re f (m - 1)) (\<lambda>re.
             andthen (frag_emit al re f) (\<lambda>re'. emit_plus al re' (length (prog re)))))
      | Some n \<Rightarrow>
          andthen (emit_copies al re f m) (\<lambda>re.
          andthen (emit_optional al re f (-1) (n - m)) (\<lambda>(re, chain).
          patch_split_chain (length (prog re)) re chain))) (kept Q re)"
    using star plus opt by (auto simp: Let_def split: option.split)
qed

section \<open>Bracket expressions\<close>

lemma fold_set_add_wf: "cset_wf s \<Longrightarrow> cset_wf (fold (\<lambda>c s. if P c then set_add s c else s) xs s)"
  by (induction xs arbitrary: s) auto

lemma class_item_post:
  "cset_wf s \<Longrightarrow> post (class_item q s) (\<lambda>(q', s', b). cset_wf s')"
  by (auto simp: class_item_def Let_def fold_set_add_wf esc_set_wf split: option.split)

lemma class_loop_post:
  "cset_wf s \<Longrightarrow> post (class_loop q s isfirst) (\<lambda>(q', s'). cset_wf s' \<and> length q' \<le> length q)"
proof (induction "length q" arbitrary: q s isfirst rule: less_induct)
  case less
  have IH: "post (class_loop q' s' f) (\<lambda>(q', s'). cset_wf s' \<and> length q' \<le> length q)"
    if "length q' < length q" "cset_wf s'" for q' s' f
    by (rule post_mono [OF less.hyps [OF that]]) (use that in auto)
  show ?case
  proof (cases "q = []")
    case True
    then show ?thesis by (subst class_loop.simps) simp
  next
    case False
    have one: "post (case class_item q s of Inl e \<Rightarrow> Inl e
         | Inr (q1, s1, None) \<Rightarrow> class_loop q1 s1 False
         | Inr (q1, s1, Some lo) \<Rightarrow>
             if ch q1 0 = of_char CHR ''-'' \<and> ch q1 1 \<noteq> 0 \<and> ch q1 1 \<noteq> of_char CHR '']'' then
               (case class_item (drop 1 q1) s1 of
                  Inl e \<Rightarrow> Inl e
                | Inr (q2, s2, None) \<Rightarrow> Inl RangeNotPlain
                | Inr (q2, s2, Some hi) \<Rightarrow>
                    if hi < lo then Inl (RangeBackwards lo hi)
                    else class_loop q2 (set_range s2 (unat lo) (unat hi)) False)
             else class_loop q1 (set_add s1 (unat lo)) False)
       (\<lambda>(q', s'). cset_wf s' \<and> length q' \<le> length q)"
    proof (cases "class_item q s")
      case (Inl e)
      then show ?thesis using class_item_post [OF less.prems, of q] by auto
    next
      case (Inr x)
      obtain q1 s1 b where x: "x = (q1, s1, b)" by (cases x)
      have wf: "cset_wf s1" using class_item_post [OF less.prems, of q] Inr x by simp
      have sh: "length q1 < length q" using class_item_shorter [of q s q1 s1 b] Inr x False by auto
      have "post (case class_item (drop 1 q1) s1 of
                  Inl e \<Rightarrow> Inl e
                | Inr (q2, s2, None) \<Rightarrow> Inl RangeNotPlain
                | Inr (q2, s2, Some hi) \<Rightarrow>
                    if hi < lo then Inl (RangeBackwards lo hi)
                    else class_loop q2 (set_range s2 (unat lo) (unat hi)) False)
          (\<lambda>(q', s'). cset_wf s' \<and> length q' \<le> length q)" if c: "ch q1 1 \<noteq> 0" for lo
      proof (cases "class_item (drop 1 q1) s1")
        case (Inl e)
        then show ?thesis using class_item_post [OF wf, of "drop 1 q1"] by auto
      next
        case y: (Inr y)
        obtain q2 s2 b2 where y2: "y = (q2, s2, b2)" by (cases y)
        have "cset_wf s2" using class_item_post [OF wf, of "drop 1 q1"] y y2 by simp
        moreover have "length q2 < length q"
          using class_item_shorter2 [OF y [unfolded y2] c] sh by simp
        ultimately show ?thesis using y y2 by (auto simp: IH split: option.split)
      qed
      then show ?thesis using Inr x wf sh by (auto simp: IH split: option.split)
    qed
    show ?thesis
      by (subst class_loop.simps) (use less.prems False one in auto)
  qed
qed

section \<open>The parser\<close>

text \<open>What a parsing function leaves after the prefix \<open>Q\<close>: a closed fragment and less pattern.\<close>

definition parsed :: "reinst list \<Rightarrow> pst \<Rightarrow> pst \<Rightarrow> bool" where
  "parsed Q ps ps' \<longleftrightarrow> kept Q (rx ps) (rx ps') \<and> is_ere ps' = is_ere ps \<and> length (pat ps') \<le> length (pat ps)"

lemma parsed_trans: "parsed Q a b \<Longrightarrow> parsed Q b c \<Longrightarrow> parsed Q a c"
  by (auto simp: parsed_def intro: kept_trans)

text \<open>The state a parsing function starts from.\<close>

definition ready :: "pst \<Rightarrow> bool" where
  "ready ps \<longleftrightarrow> inv (rx ps) \<and> pre (prog (rx ps))"

lemma parsed_ready: "parsed Q ps ps' \<Longrightarrow> pre Q \<Longrightarrow> ready ps'"
  by (auto simp: parsed_def kept_def ready_def pre_append)

lemma parsed_append:
  assumes "parsed Q a b" "parsed (prog (rx b)) b c" shows "parsed Q a c"
proof -
  obtain F where "prog (rx b) = Q @ F" "frag (length Q) F" using assms(1) by (auto simp: parsed_def kept_def)
  then have "kept Q (rx b) (rx c)" using assms(2) by (auto simp: parsed_def intro: kept_app)
  then show ?thesis using assms by (auto simp: parsed_def intro: kept_trans)
qed

lemma cls_new_post:
  assumes "inv re" "cset_wf s"
  shows "post (cls_new al re s) (\<lambda>(r, k). prog r = prog re \<and> k < length (cls r) \<and> inv r \<and> ext re r)"
  using assms
  by (auto simp: cls_new_def Let_def inv_def fields_wf_def ext_def intro: fields_ok_mono)

lemma emit_kept:
  assumes "inv re" "inst_ok re i" "targets i = {}"
  shows "post (emit al re i) (\<lambda>(r, n). kept (prog re) re r \<and> prog r = prog re @ [i])"
  by (rule post_mono [OF emit_post [OF assms(1,2)]]) (auto simp: kept_def frag_single assms(3))

lemma emit_at_post:
  assumes "ready ps" "inst_ok (rx ps) i" "targets i = {}"
  shows "post (emit_at al ps k i) (\<lambda>ps'. parsed (prog (rx ps)) ps ps' \<and> length (pat ps') = length (pat ps) - k)"
  unfolding emit_at_def
  by (rule post_andthen [OF emit_kept [OF _ assms(2,3)]])
     (use assms(1) in \<open>auto simp: ready_def parsed_def\<close>)

lemma class_emit_post:
  assumes "ready ps" "cset_wf s"
  shows "post (andthen (cls_new al (rx ps) s) (\<lambda>(r, ci). emit_at al (ps\<lparr>rx := r\<rparr>) k (I_CLASS ci)))
    (\<lambda>ps'. parsed (prog (rx ps)) ps ps' \<and> length (pat ps') = length (pat ps) - k)"
proof (rule post_andthen [OF cls_new_post [OF _ assms(2)]])
  show "inv (rx ps)" using assms(1) by (simp add: ready_def)
next
  fix x
  assume x: "case x of (r, k) \<Rightarrow> prog r = prog (rx ps) \<and> k < length (cls r) \<and> inv r \<and> ext (rx ps) r"
  obtain r ci where xr: "x = (r, ci)" by (cases x)
  let ?ps = "ps\<lparr>rx := r\<rparr>"
  have "ready ?ps" using x xr assms(1) by (simp add: ready_def)
  then have "post (emit_at al ?ps k (I_CLASS ci))
      (\<lambda>ps'. parsed (prog (rx ?ps)) ?ps ps' \<and> length (pat ps') = length (pat ?ps) - k)"
    by (rule emit_at_post) (use x xr in auto)
  then show "post (case x of (r, ci) \<Rightarrow> emit_at al (ps\<lparr>rx := r\<rparr>) k (I_CLASS ci))
      (\<lambda>ps'. parsed (prog (rx ps)) ps ps' \<and> length (pat ps') = length (pat ps) - k)"
    unfolding xr prod.case
    by (rule post_mono) (use x xr in \<open>auto simp: parsed_def kept_def intro: ext_trans\<close>)
qed

lemma p_class_emit: "andthen (cls_new al r s) (\<lambda>(r, ci). andthen (emit al r (I_CLASS ci)) (\<lambda>(r, _). Inr (ps\<lparr>pat := q, rx := r\<rparr>)))
   = andthen (cls_new al (rx (ps\<lparr>pat := q, rx := r\<rparr>)) s) (\<lambda>(r, ci). emit_at al (ps\<lparr>pat := q, rx := r\<rparr>) 0 (I_CLASS ci))"
  by (cases "cls_new al r s") (auto simp: emit_at_def split: prod.split)

lemma p_class_post:
  assumes "ready ps" "pat ps \<noteq> []"
  shows "post (p_class al ps) (\<lambda>ps'. parsed (prog (rx ps)) ps ps' \<and> length (pat ps') < length (pat ps))"
proof -
  have body: "post (andthen (class_loop q set_empty True) (\<lambda>(q, s).
         (let s = (if icase (rx ps) then set_fold s else s);
              s = (if neg then set_not s else s);
              s = set_drop_nul s
          in andthen (cls_new al (rx ps) s) (\<lambda>(r, ci).
             andthen (emit al r (I_CLASS ci)) (\<lambda>(r, _).
             Inr (ps\<lparr>pat := q, rx := r\<rparr>))))))
      (\<lambda>ps'. parsed (prog (rx ps)) ps ps' \<and> length (pat ps') < length (pat ps))"
    if q: "length q < length (pat ps)" for q neg
  proof (rule post_andthen [OF class_loop_post])
    show "cset_wf set_empty" by simp
  next
    fix x :: "cstring \<times> cset"
    assume x: "case x of (q', s') \<Rightarrow> cset_wf s' \<and> length q' \<le> length q"
    obtain q' s' where xs: "x = (q', s')" by (cases x)
    let ?ps = "ps\<lparr>pat := q'\<rparr>"
    let ?s = "set_drop_nul (if neg then set_not (if icase (rx ps) then set_fold s' else s')
                else if icase (rx ps) then set_fold s' else s')"
    have "cset_wf ?s" using x xs by (auto simp: set_fold_wf)
    moreover have "ready ?ps" using assms(1) by (simp add: ready_def)
    ultimately have "post (andthen (cls_new al (rx ?ps) ?s) (\<lambda>(r, ci). emit_at al (?ps\<lparr>rx := r\<rparr>) 0 (I_CLASS ci)))
        (\<lambda>ps'. parsed (prog (rx ?ps)) ?ps ps' \<and> length (pat ps') = length (pat ?ps) - 0)"
      by (intro class_emit_post)
    then have "post (andthen (cls_new al (rx ps) ?s) (\<lambda>(r, ci). andthen (emit al r (I_CLASS ci)) (\<lambda>(r, _).
        Inr (ps\<lparr>pat := q', rx := r\<rparr>)))) (\<lambda>ps'. parsed (prog (rx ps)) ps ps' \<and> length (pat ps') < length (pat ps))"
      unfolding p_class_emit using q x xs by (auto elim!: post_mono simp: parsed_def)
    then show "post (case x of (q, s) \<Rightarrow>
         (let s = (if icase (rx ps) then set_fold s else s);
              s = (if neg then set_not s else s);
              s = set_drop_nul s
          in andthen (cls_new al (rx ps) s) (\<lambda>(r, ci).
             andthen (emit al r (I_CLASS ci)) (\<lambda>(r, _).
             Inr (ps\<lparr>pat := q, rx := r\<rparr>)))))
      (\<lambda>ps'. parsed (prog (rx ps)) ps ps' \<and> length (pat ps') < length (pat ps))"
      by (simp add: xs Let_def)
  qed
  have "length (drop 1 (pat ps)) < length (pat ps)" "length (drop 1 (drop 1 (pat ps))) < length (pat ps)"
    using assms(2) by (cases "pat ps"; simp)+
  from body [OF this(1), of False] body [OF this(2), of True] show ?thesis
    unfolding p_class_def by (auto simp: Let_def)
qed

lemma esc_char_total: "esc_set c s = None \<Longrightarrow> esc_char c \<noteq> None"
  by (auto simp: esc_set_def esc_char_def cs_def Let_def split: if_splits)

text \<open>The hypothesis on the recursive call of \<open>p_atom\<close>: it parses whenever \<open>k\<close> groups are open.\<close>

definition alt_ok :: "nat \<Rightarrow> (pst \<Rightarrow> pst re_result) \<Rightarrow> bool" where
  "alt_ok k alt \<longleftrightarrow> (\<forall>ps. ready ps \<longrightarrow> k \<le> ngroup (rx ps) \<longrightarrow> post (alt ps) (parsed (prog (rx ps)) ps))"

lemma at_op_pat: "at_op c ps \<noteq> 0 \<Longrightarrow> c \<noteq> 0 \<Longrightarrow> pat ps \<noteq> []"
  by (auto simp: at_op_def ch_def split: if_splits)

lemma drop_shorter: "xs \<noteq> [] \<Longrightarrow> k \<noteq> 0 \<Longrightarrow> length (drop k xs) < length xs"
  by (cases xs; cases k) auto

lemma group_post:
  assumes "ready ps" "alt_ok (Suc n) alt" "n \<le> ngroup (rx ps)" "k \<noteq> 0" "pat ps \<noteq> []"
    and "ngroup (rx ps) + 1 < RE_MAX_GROUPS"
  shows "post (let g = ngroup (rx ps) + 1;
                ps = ps\<lparr>pat := drop k (pat ps), rx := (rx ps)\<lparr>ngroup := g\<rparr>\<rparr>
            in andthen (emit_at al ps 0 (I_SAVE (2 * g))) (\<lambda>ps.
               andthen (alt ps) (\<lambda>ps.
               (let k = at_close ps in
                if k = 0 then Inl UnmatchedOpen
                else emit_at al ps k (I_SAVE (2 * g + 1))))))
      (\<lambda>ps'. parsed (prog (rx ps)) ps ps' \<and> length (pat ps') < length (pat ps))"
proof -
  let ?g = "ngroup (rx ps) + 1"
  let ?ps = "ps\<lparr>pat := drop k (pat ps), rx := (rx ps)\<lparr>ngroup := ?g\<rparr>\<rparr>"
  have rd: "ready ?ps"
    using assms(1,6) by (simp add: ready_def inv_def fields_wf_def)
  have slot: "2 * ?g < RE_MAX_CAPS" "2 * ?g + 1 < RE_MAX_CAPS"
    using assms(6) by (auto simp: RE_MAX_CAPS_def)
  have "length (pat ?ps) < length (pat ps)" using drop_shorter [OF assms(5,4)] by simp
  note sh = this
  have lift: "parsed (prog (rx ps)) ps ps' \<and> length (pat ps') < length (pat ps)"
    if "parsed (prog (rx ?ps)) ?ps ps'" for ps'
    using that sh by (auto simp: parsed_def kept_def ext_def)
  have "post (andthen (emit_at al ?ps 0 (I_SAVE (2 * ?g))) (\<lambda>ps.
               andthen (alt ps) (\<lambda>ps.
               (let k = at_close ps in
                if k = 0 then Inl UnmatchedOpen
                else emit_at al ps k (I_SAVE (2 * ?g + 1)))))) (parsed (prog (rx ?ps)) ?ps)"
  proof (rule post_andthen [OF emit_at_post [OF rd]])
    show "inst_ok (rx ?ps) (I_SAVE (2 * ?g))" using slot by simp
    show "targets (I_SAVE (2 * ?g)) = {}" by simp
  next
    fix p1
    assume p1: "parsed (prog (rx ?ps)) ?ps p1 \<and> length (pat p1) = length (pat ?ps) - 0"
    have rd1: "ready p1" using parsed_ready [of _ ?ps p1] p1 rd by (auto simp: ready_def)
    have ng: "Suc n \<le> ngroup (rx p1)" using p1 assms(3) by (auto simp: parsed_def kept_def ext_def)
    have "post (alt p1) (parsed (prog (rx p1)) p1)" using assms(2) rd1 ng by (auto simp: alt_ok_def)
    then show "post (andthen (alt p1) (\<lambda>ps.
               (let k = at_close ps in
                if k = 0 then Inl UnmatchedOpen
                else emit_at al ps k (I_SAVE (2 * ?g + 1))))) (parsed (prog (rx ?ps)) ?ps)"
    proof (rule post_andthen)
      fix p2
      assume p2: "parsed (prog (rx p1)) p1 p2"
      have p12: "parsed (prog (rx ?ps)) ?ps p2" using parsed_append [of _ ?ps p1 p2] p1 p2 by blast
      have rd2: "ready p2" using parsed_ready [OF p2] rd1 by (auto simp: ready_def)
      have "post (emit_at al p2 k' (I_SAVE (2 * ?g + 1))) (parsed (prog (rx ?ps)) ?ps)" for k'
        by (rule post_mono [OF emit_at_post [OF rd2]])
           (use slot parsed_append [OF p12] in auto)
      then show "post (let k = at_close p2 in
                if k = 0 then Inl UnmatchedOpen
                else emit_at al p2 k (I_SAVE (2 * ?g + 1))) (parsed (prog (rx ?ps)) ?ps)"
        by (simp add: Let_def)
    qed
  qed
  then show ?thesis unfolding Let_def by (rule post_mono) (rule lift)
qed

lemma emit_at_shorter:
  assumes "ready ps" "pat ps \<noteq> []" "k \<noteq> 0" "inst_ok (rx ps) i" "targets i = {}"
  shows "post (emit_at al ps k i) (\<lambda>ps'. parsed (prog (rx ps)) ps ps' \<and> length (pat ps') < length (pat ps))"
  by (rule post_mono [OF emit_at_post [OF assms(1,4,5)]]) (use drop_shorter [OF assms(2,3)] in auto)

lemma class_escape_post:
  assumes "ready ps" "pat ps \<noteq> []" "esc_set e set_empty = Some s"
  shows "post (let s = (if icase (rx ps) then set_fold s else s)
                in andthen (cls_new al (rx ps) s) (\<lambda>(r, ci).
                    emit_at al (ps\<lparr>rx := r\<rparr>) 2 (I_CLASS ci)))
     (\<lambda>ps'. parsed (prog (rx ps)) ps ps' \<and> length (pat ps') < length (pat ps))"
proof -
  let ?s = "if icase (rx ps) then set_fold s else s"
  have "cset_wf ?s" using esc_set_wf [OF assms(3)] by (simp add: set_fold_wf)
  from class_emit_post [OF assms(1) this, of al 2] show ?thesis
    unfolding Let_def by (rule post_mono) (use drop_shorter [OF assms(2), of 2] in auto)
qed

lemma p_atom_post:
  assumes "ready ps" "alt_ok (Suc n) alt" "n \<le> ngroup (rx ps)" "pat ps \<noteq> []"
  shows "post (p_atom al alt ps isfirst)
    (\<lambda>ps'. parsed (prog (rx ps)) ps ps' \<and> length (pat ps') < length (pat ps))"
proof -
  note emits = emit_at_shorter [OF assms(1,4)]
  have grp: "at_open ps \<noteq> 0 \<Longrightarrow> \<not> ngroup (rx ps) + 1 \<ge> RE_MAX_GROUPS \<Longrightarrow> ?thesis"
    using group_post [OF assms(1,2,3) _ assms(4), of "at_open ps" al]
    by (simp add: p_atom_def)
  have esc: "post (case esc_set e set_empty of
              Some s \<Rightarrow>
                (let s = (if icase (rx ps) then set_fold s else s)
                 in andthen (cls_new al (rx ps) s) (\<lambda>(r, ci).
                    emit_at al (ps\<lparr>rx := r\<rparr>) 2 (I_CLASS ci)))
            | None \<Rightarrow>
                (case esc_char e of
                   None \<Rightarrow> Inl Stuck
                 | Some lit \<Rightarrow>
                     emit_at al ps 2 (I_CHAR (if icase (rx ps) then lower lit else lit))))
      (\<lambda>ps'. parsed (prog (rx ps)) ps ps' \<and> length (pat ps') < length (pat ps))" for e
    using esc_char_total [of e set_empty] class_escape_post [OF assms(1,4), of e]
    by (cases "esc_set e set_empty") (auto intro!: emits)
  show ?thesis
  proof (cases "at_open ps \<noteq> 0")
    case True
    then show ?thesis using grp by (cases "ngroup (rx ps) + 1 \<ge> RE_MAX_GROUPS") (auto simp: p_atom_def)
  next
    case False
    then show ?thesis
      unfolding p_atom_def Let_def
      by (simp only: if_False not_not)
         (intro conjI impI post_if | rule emits p_class_post [OF assms(1,4)] esc [unfolded Let_def] | simp)+
  qed
qed

lemma scan_count_post: "post (scan_count m q) (\<lambda>(n, q'). length q' \<le> length q)"
proof -
  have "scan_count m q \<noteq> Inl Stuck"
    by (induction m q rule: scan_count.induct) (auto simp: Let_def)
  then show ?thesis
    by (cases "scan_count m q") (auto dest: scan_count_shorter)
qed

lemma scan_bounds_post: "post (scan_bounds e q) (\<lambda>(m, n, q'). length q' \<le> length q)"
proof -
  have c: "scan_count m q \<noteq> Inl Stuck" for m q
    using scan_count_post [of m q] by (cases "scan_count m q") auto
  have "scan_bounds e q \<noteq> Inl Stuck"
    using c by (auto simp: scan_bounds_def andthen_def split: sum.splits option.splits prod.splits if_splits)
  then show ?thesis
    by (cases "scan_bounds e q") (auto dest: scan_bounds_shorter)
qed

lemma p_bounds_post:
  assumes "inv (rx ps)" "prog (rx ps) = Q @ F" "pre Q" "frag (length Q) F"
  shows "post (p_bounds al ps (length Q)) (parsed Q ps)"
  unfolding p_bounds_def
proof (rule post_andthen [OF scan_bounds_post])
  fix x :: "nat \<times> nat option \<times> cstring"
  assume x: "case x of (m, n, q') \<Rightarrow> length q' \<le> length (drop (if is_ere ps then 1 else 2) (pat ps))"
  obtain m n q where xs: "x = (m, n, q)" by (cases x)
  show "post (case x of (m, n, q) \<Rightarrow> andthen (emit_rep al (rx ps) (length Q) m n) (\<lambda>r.
     Inr (ps\<lparr>pat := q, rx := r\<rparr>))) (parsed Q ps)"
    unfolding xs prod.case
    by (rule post_andthen [OF emit_rep_post [OF assms]]) (use x xs in \<open>auto simp: parsed_def\<close>)
qed

lemma p_postfix_post:
  "inv (rx ps) \<Longrightarrow> prog (rx ps) = Q @ F \<Longrightarrow> pre Q \<Longrightarrow> frag (length Q) F \<Longrightarrow>
     post (p_postfix al ps (length Q)) (parsed Q ps)"
proof (induction "length (pat ps)" arbitrary: ps F rule: less_induct)
  case less
  note now = less.prems
  have IH: "post (p_postfix al ps' (length Q)) (parsed Q ps)"
    if p: "parsed Q ps ps'" and l: "length (pat ps') < length (pat ps)" for ps'
  proof -
    obtain G where "prog (rx ps') = Q @ G" "frag (length Q) G" "inv (rx ps')"
      using p by (auto simp: parsed_def kept_def)
    then have "post (p_postfix al ps' (length Q)) (parsed Q ps')"
      using less.hyps l now(3) by blast
    then show ?thesis by (rule post_mono) (rule parsed_trans [OF p])
  qed
  show ?case
  proof (cases "at_postfix ps")
    case None
    then show ?thesis
      using now by (auto simp: p_postfix.simps parsed_def kept_def)
  next
    case (Some op)
    note ne = at_postfix_nonempty [OF Some]
    have bounds: "post (case p_bounds al ps (length Q) of Inl e \<Rightarrow> Inl e | Inr ps' \<Rightarrow> p_postfix al ps' (length Q))
        (parsed Q ps)"
      using p_bounds_post [OF now, of al] p_bounds_shorter [of al ps "length Q"] ne
      by (cases "p_bounds al ps (length Q)") (auto intro!: IH simp: less_le_not_le neq_Nil_conv)
    have op: "post (case r of Inl e \<Rightarrow> Inl e | Inr r \<Rightarrow> p_postfix al (ps\<lparr>pat := drop k (pat ps), rx := r\<rparr>) (length Q))
        (parsed Q ps)" if "post r (kept Q (rx ps))" "k \<noteq> 0" for r k
      using that drop_shorter [OF ne that(2)]
      by (cases r) (auto intro!: IH simp: parsed_def)
    show ?thesis
      unfolding p_postfix.simps [of al ps] Some option.case Let_def
      by (intro post_if bounds op)
         (auto simp: emit_star_post [OF now] emit_plus_post [OF now] emit_opt_post [OF now])
  qed
qed

lemma p_concat_loop_post:
  "ready ps \<Longrightarrow> alt_ok (Suc n) alt \<Longrightarrow> n \<le> ngroup (rx ps) \<Longrightarrow> length (pat ps) < fuel \<Longrightarrow>
     post (p_concat_loop fuel al alt ps isfirst) (parsed (prog (rx ps)) ps)"
proof (induction fuel arbitrary: ps isfirst)
  case (Suc fuel)
  have refl: "parsed (prog (rx ps)) ps ps"
    using Suc.prems(1) by (simp add: parsed_def kept_def ready_def)
  have one: "post (andthen (p_atom al alt ps isfirst) (\<lambda>ps'.
             andthen (p_postfix al ps' (length (prog (rx ps)))) (\<lambda>ps'.
             p_concat_loop fuel al alt ps' False))) (parsed (prog (rx ps)) ps)"
    if ne: "pat ps \<noteq> []"
  proof (rule post_andthen [OF p_atom_post [OF Suc.prems(1,2,3) ne]])
    fix p1
    assume p1: "parsed (prog (rx ps)) ps p1 \<and> length (pat p1) < length (pat ps)"
    then obtain F where F: "prog (rx p1) = prog (rx ps) @ F" "frag (length (prog (rx ps))) F" "inv (rx p1)"
      by (auto simp: parsed_def kept_def)
    have pre: "pre (prog (rx ps))" using Suc.prems(1) by (simp add: ready_def)
    show "post (andthen (p_postfix al p1 (length (prog (rx ps)))) (\<lambda>ps'.
             p_concat_loop fuel al alt ps' False)) (parsed (prog (rx ps)) ps)"
    proof (rule post_andthen [OF p_postfix_post [OF F(3,1) pre F(2)]])
      fix p2
      assume p2: "parsed (prog (rx ps)) p1 p2"
      have p: "parsed (prog (rx ps)) ps p2" using p1 p2 by (auto intro: parsed_trans)
      have "post (p_concat_loop fuel al alt p2 False) (parsed (prog (rx p2)) p2)"
      proof (rule Suc.IH)
        show "ready p2" using parsed_ready [OF p pre] .
        show "n \<le> ngroup (rx p2)" using p Suc.prems(3) by (auto simp: parsed_def kept_def ext_def)
        show "length (pat p2) < fuel" using p1 p2 Suc.prems(4) by (auto simp: parsed_def)
      qed (rule Suc.prems)
      then show "post (p_concat_loop fuel al alt p2 False) (parsed (prog (rx ps)) ps)"
        by (rule post_mono) (rule parsed_append [OF p])
    qed
  qed
  show ?case
    using refl one by (cases "at_postfix ps") auto
qed simp

lemma p_concat_post:
  "ready ps \<Longrightarrow> alt_ok (Suc n) alt \<Longrightarrow> n \<le> ngroup (rx ps) \<Longrightarrow>
     post (p_concat al alt ps) (parsed (prog (rx ps)) ps)"
  unfolding p_concat_def by (rule p_concat_loop_post) auto

section \<open>Alternation\<close>

lemma opened_reopen:
  assumes "opened j lo ks P" "lo \<le> k" "k < length P"
    and "\<forall>t \<in> targets (fix_of j i (int (length P))). int lo \<le> t \<and> t \<le> int (length P)"
  shows "opened j lo (k # ks) (P[k := i])"
  unfolding opened_def
proof (intro conjI allI impI)
  show "set (k # ks) \<subseteq> {lo..<length (P[k := i])}" using assms(1-3) by (auto simp: opened_def)
  fix m
  assume m: "lo \<le> m \<and> m < length (P[k := i])"
  show "\<forall>t \<in> targets (if m \<in> set (k # ks) then fix_of j (P[k := i] ! m) (int (length (P[k := i]))) else P[k := i] ! m).
      int lo \<le> t \<and> t \<le> int (length (P[k := i]))"
    using m assms by (cases "m = k") (auto simp: opened_def)
qed

text \<open>
  The loop of \<open>p_alt\<close>: the finished branches \<open>B\<close>, open at the jumps that end them, and the
  branch just parsed, a closed fragment.
\<close>

definition branching :: "reinst list \<Rightarrow> lpre \<Rightarrow> pst \<Rightarrow> nat \<Rightarrow> int \<Rightarrow> bool" where
  "branching Q re ps branch c \<longleftrightarrow>
     (\<exists>B F ks. prog (rx ps) = B @ F \<and> length B = branch \<and> take (length Q) B = Q \<and> length Q \<le> branch \<and>
        pre B \<and> frag branch F \<and> linked True B c ks \<and> opened True (length Q) ks B) \<and>
     inv (rx ps) \<and> ext re (rx ps)"

lemma branchingI:
  "prog (rx ps) = B @ F \<Longrightarrow> length B = branch \<Longrightarrow> take (length Q) B = Q \<Longrightarrow> length Q \<le> branch \<Longrightarrow>
     pre B \<Longrightarrow> frag branch F \<Longrightarrow> linked True B c ks \<Longrightarrow> opened True (length Q) ks B \<Longrightarrow>
     inv (rx ps) \<Longrightarrow> ext re (rx ps) \<Longrightarrow> branching Q re ps branch c"
  unfolding branching_def by blast

lemma branching_threaded:
  assumes "branching Q re ps branch c" shows "threaded True Q re (rx ps) c"
proof -
  obtain B F ks where B: "prog (rx ps) = B @ F" "length B = branch" "take (length Q) B = Q" "length Q \<le> branch"
      "frag branch F" "linked True B c ks" "opened True (length Q) ks B"
    using assms by (auto simp: branching_def)
  have p: "prog (rx ps) = Q @ drop (length Q) B @ F"
    using B(1,3) by (metis append.assoc append_take_drop_id)
  have "opened True (length Q) ks (B @ F)"
    by (rule opened_append) (use B in auto)
  then have "opened True (length Q) ks (prog (rx ps))" "linked True (prog (rx ps)) c ks"
    using B(1) chain_append [OF B(6), of F] by auto
  then show ?thesis
    using assms by (intro threadedI [OF p]) (auto simp: branching_def)
qed

lemma branching_ready: "branching Q re ps branch c \<Longrightarrow> ready ps"
  by (auto simp: branching_def ready_def intro: pre_append)

text \<open>One \<open>|\<close>: the branch gets its \<open>SPLIT\<close> in front and its jump behind.\<close>

lemma branch_step:
  assumes "branching Q re ps branch c"
  shows "post (andthen (insert_inst al (rx ps) branch (I_SPLIT (int branch + 1) (-1))) (\<lambda>r.
         andthen (emit al r (I_JMP c)) (\<lambda>(r, j).
         Inr (patch_y r branch (int (length (prog r))), j))))
     (\<lambda>(r, j). branching Q re (ps\<lparr>rx := r\<rparr>) (length (prog r)) (int j))"
proof -
  obtain B F ks where B: "prog (rx ps) = B @ F" "length B = branch" "take (length Q) B = Q" "length Q \<le> branch"
      "pre B" "frag (length B) F" "linked True B c ks" "opened True (length Q) ks B"
      and inv: "inv (rx ps)" and ext: "ext re (rx ps)"
    using assms by (auto simp: branching_def)
  have "post (andthen (insert_inst al (rx ps) (length B) (I_SPLIT (int (length B) + 1) (-1))) (\<lambda>r.
         andthen (emit al r (I_JMP c)) (\<lambda>(r, j).
         Inr (patch_y r (length B) (int (length (prog r))), j))))
     (\<lambda>(r, j). branching Q re (ps\<lparr>rx := r\<rparr>) (length (prog r)) (int j))"
  proof (rule post_andthen [OF insert_post [OF inv B(1,5,6)]])
    show "inst_ok (rx ps) (I_SPLIT (int (length B) + 1) (-1))" by simp
  next
    fix r
    assume r: "prog r = B @ I_SPLIT (int (length B) + 1) (-1) # map (shift_inst 1) F \<and> inv r \<and> ext (rx ps) r \<and>
      ngroup r = ngroup (rx ps) \<and> nreg r = nreg (rx ps) \<and> cls r = cls (rx ps)"
    show "post (andthen (emit al r (I_JMP c)) (\<lambda>(r, j). Inr (patch_y r (length B) (int (length (prog r))), j)))
       (\<lambda>(r, j). branching Q re (ps\<lparr>rx := r\<rparr>) (length (prog r)) (int j))"
    proof (rule post_andthen [OF emit_post])
      show "inv r" using r by simp
      show "inst_ok r (I_JMP c)" by simp
    next
      fix x
      assume x: "case x of (re', n) \<Rightarrow> n = length (prog r) \<and> prog re' = prog r @ [I_JMP c] \<and> inv re' \<and>
        ext r re' \<and> ngroup re' = ngroup r \<and> nreg re' = nreg r \<and> cls re' = cls r"
      obtain u j where xu: "x = (u, j)" by (cases x)
      let ?n = "int (length B + 2 + length F)"
      let ?S = "I_SPLIT (int (length B) + 1) ?n" and ?F = "map (shift_inst 1) F"
      let ?u = "patch_y u (length B) (int (length (prog u)))"
      let ?P = "B @ [?S] @ ?F @ [I_JMP c]"
      have p: "prog ?u = ?P"
        using x xu r by (simp add: patch_y_def nth_append list_update_append algebra_simps)
      have j: "j = length (B @ [?S] @ ?F)" using x xu r by simp
      have f1: "frag (length B + 1) ?F" by (rule frag_shift [OF B(6)]) simp
      have G: "frag (length B) ([?S] @ ?F @ [I_JMP (int (length B))])"
        by (rule frag_star [OF f1]) auto
      have lin: "linked True ?P (int j) (j # ks)"
        using chain_push [of True "B @ [?S] @ ?F" "I_JMP c" ks] chain_append [OF B(7), of "[?S] @ ?F"]
        by (simp add: hole_of_def j)
      have "opened True (length Q) ks (B @ [?S] @ ?F @ [I_JMP (int (length B))])"
        by (rule opened_append [OF B(8) G]) (use B in simp)
      then have "opened True (length Q) (j # ks) ((B @ [?S] @ ?F @ [I_JMP (int (length B))])[j := I_JMP c])"
        by (rule opened_reopen) (use B(2,4) in \<open>auto simp: j fix_of_def\<close>)
      then have op: "opened True (length Q) (j # ks) ?P"
        by (simp add: j list_update_append)
      have "c \<le> int (length B)" using B(7) by (cases ks) auto
      then have "pre ?P"
        using B(5) G by (fastforce simp: pre_def frag_def)
      moreover have "inv ?u" using x xu by (simp add: inv_patch)
      moreover have "ext (rx ps) u" using x xu r by (auto intro: ext_trans)
      then have "ext re ?u" using ext_trans [OF ext] by (simp add: patch_y_def)
      moreover have "take (length Q) ?P = Q" using B(2-4) by simp
      ultimately have "branching Q re (ps\<lparr>rx := ?u\<rparr>) (length (prog ?u)) (int j)"
        by (intro branchingI [of _ ?P "[]" _ _ _ "j # ks"] lin op) (use p B(2,4) in simp_all)
      then show "post (case x of (r, j) \<Rightarrow> Inr (patch_y r (length B) (int (length (prog r))), j))
         (\<lambda>(r, j). branching Q re (ps\<lparr>rx := r\<rparr>) (length (prog r)) (int j))"
        by (simp add: xu)
    qed
  qed
  then show ?thesis by (simp add: B(2))
qed

lemma branching_parsed:
  assumes "branching Q re ps (length (prog (rx ps))) c" "parsed (prog (rx ps)) ps ps'"
  shows "branching Q re ps' (length (prog (rx ps))) c"
proof -
  obtain B F ks where B: "prog (rx ps) = B @ F" "length B = length (prog (rx ps))" "take (length Q) B = Q"
      "length Q \<le> length B" "pre B" "linked True B c ks" "opened True (length Q) ks B" "ext re (rx ps)"
    using assms(1) by (auto simp: branching_def)
  then have eq: "prog (rx ps) = B" by simp
  obtain G where G: "prog (rx ps') = B @ G" "frag (length B) G" "inv (rx ps')" "ext (rx ps) (rx ps')"
    using assms(2) unfolding eq by (auto simp: parsed_def kept_def)
  show ?thesis
    unfolding eq by (rule branchingI [OF G(1) _ B(3,4,5) G(2) B(6,7) G(3) ext_trans [OF B(8) G(4)]]) simp
qed

lemma p_alt_loop_post:
  "branching Q re ps branch c \<Longrightarrow> alt_ok (Suc n) alt \<Longrightarrow> n \<le> ngroup re \<Longrightarrow> length (pat ps) < fuel \<Longrightarrow>
     post (p_alt_loop fuel al alt ps branch c)
       (\<lambda>(ps', c'). threaded True Q re (rx ps') c' \<and> is_ere ps' = is_ere ps \<and> length (pat ps') \<le> length (pat ps))"
proof (induction fuel arbitrary: ps branch c)
  case (Suc fuel)
  show ?case
  proof (cases "at_bar ps = 0")
    case True
    then show ?thesis using branching_threaded [OF Suc.prems(1)] by simp
  next
    case False
    have ne: "pat ps \<noteq> []" by (rule at_op_pat [OF False [unfolded at_bar_def]]) simp
    let ?ps = "ps\<lparr>pat := drop (at_bar ps) (pat ps)\<rparr>"
    have sh: "length (pat ?ps) < length (pat ps)" using drop_shorter [OF ne False] by simp
    have br: "branching Q re ?ps branch c" using Suc.prems(1) by (simp add: branching_def)
    have "post (andthen (andthen (insert_inst al (rx ?ps) branch (I_SPLIT (int branch + 1) (-1))) (\<lambda>r.
         andthen (emit al r (I_JMP c)) (\<lambda>(r, j).
         Inr (patch_y r branch (int (length (prog r))), j)))) (\<lambda>(r, j).
          andthen (p_concat al alt (?ps\<lparr>rx := r\<rparr>)) (\<lambda>ps'.
          p_alt_loop fuel al alt ps' (length (prog r)) (int j))))
       (\<lambda>(ps', c'). threaded True Q re (rx ps') c' \<and> is_ere ps' = is_ere ps \<and> length (pat ps') \<le> length (pat ps))"
    proof (rule post_andthen [OF branch_step [OF br]])
      fix x
      assume x: "case x of (r, j) \<Rightarrow> branching Q re (?ps\<lparr>rx := r\<rparr>) (length (prog r)) (int j)"
      obtain r j where xr: "x = (r, j)" by (cases x)
      let ?q = "?ps\<lparr>rx := r\<rparr>"
      have b1: "branching Q re ?q (length (prog (rx ?q))) (int j)" using x xr by simp
      have n1: "n \<le> ngroup (rx ?q)" using b1 Suc.prems(3) by (auto simp: branching_def ext_def)
      show "post (case x of (r, j) \<Rightarrow>
          andthen (p_concat al alt (?ps\<lparr>rx := r\<rparr>)) (\<lambda>ps'.
          p_alt_loop fuel al alt ps' (length (prog r)) (int j)))
       (\<lambda>(ps', c'). threaded True Q re (rx ps') c' \<and> is_ere ps' = is_ere ps \<and> length (pat ps') \<le> length (pat ps))"
        unfolding xr prod.case
      proof (rule post_andthen [OF p_concat_post [OF branching_ready [OF b1] Suc.prems(2) n1]])
        fix p'
        assume p': "parsed (prog (rx ?q)) ?q p'"
        have "post (p_alt_loop fuel al alt p' (length (prog (rx ?q))) (int j))
          (\<lambda>(ps', c'). threaded True Q re (rx ps') c' \<and> is_ere ps' = is_ere p' \<and> length (pat ps') \<le> length (pat p'))"
        proof (rule Suc.IH [OF branching_parsed [OF b1 p'] Suc.prems(2)])
          show "n \<le> ngroup re" by (rule Suc.prems)
          show "length (pat p') < fuel" using p' sh Suc.prems(4) by (auto simp: parsed_def)
        qed
        then show "post (p_alt_loop fuel al alt p' (length (prog r)) (int j))
          (\<lambda>(ps', c'). threaded True Q re (rx ps') c' \<and> is_ere ps' = is_ere ps \<and> length (pat ps') \<le> length (pat ps))"
          using p' sh by (auto elim!: post_mono simp: parsed_def)
      qed
    qed
    then show ?thesis
      using False by (simp add: Let_def andthen_assoc split_def)
  qed
qed simp

lemma p_alt_post:
  "ready ps \<Longrightarrow> RE_MAX_GROUPS \<le> ngroup (rx ps) + depth \<Longrightarrow>
     post (p_alt al depth ps) (parsed (prog (rx ps)) ps)"
proof (induction depth arbitrary: ps)
  case 0
  then show ?case by (simp add: ready_def inv_def)
next
  case (Suc depth)
  have alt: "alt_ok (Suc (ngroup (rx ps))) (p_alt al depth)"
    using Suc.IH Suc.prems(2) by (simp add: alt_ok_def)
  let ?Q = "prog (rx ps)"
  have pre: "pre ?Q" using Suc.prems(1) by (simp add: ready_def)
  show ?case
    unfolding p_alt.simps
  proof (rule post_andthen [OF p_concat_post [OF Suc.prems(1) alt order_refl]])
    fix p1
    assume p1: "parsed ?Q ps p1"
    then obtain F where F: "prog (rx p1) = ?Q @ F" "frag (length ?Q) F" "inv (rx p1)" "ext (rx ps) (rx p1)"
      by (auto simp: parsed_def kept_def)
    have br: "branching ?Q (rx ps) p1 (length ?Q) (-1)"
      by (rule branchingI [OF F(1) refl _ order_refl pre F(2) _ _ F(3,4), where ks = "[]"]) (auto simp: opened_Nil)
    show "post (andthen (p_alt_loop (length (pat p1) + 1) al (p_alt al depth) p1 (length ?Q) (-1))
       (\<lambda>(ps', jchain).
     andthen (patch_jmp_chain (length (prog (rx ps'))) (rx ps') jchain) (\<lambda>r. Inr (ps'\<lparr>rx := r\<rparr>))))
       (parsed ?Q ps)"
    proof (rule post_andthen [OF p_alt_loop_post [OF br alt order_refl]])
      show "length (pat p1) < length (pat p1) + 1" by simp
    next
      fix x :: "pst \<times> int"
      assume x: "case x of (ps', c') \<Rightarrow>
        threaded True ?Q (rx ps) (rx ps') c' \<and> is_ere ps' = is_ere p1 \<and> length (pat ps') \<le> length (pat p1)"
      obtain p2 c where xp: "x = (p2, c)" by (cases x)
      have t: "threaded True ?Q (rx ps) (rx p2) c" using x xp by simp
      obtain ks where ks: "linked True (prog (rx p2)) c ks" "length ks \<le> length (prog (rx p2))"
        "\<exists>F. patched True ks (prog (rx p2)) = ?Q @ F \<and> frag (length ?Q) F"
        "inv (rx p2\<lparr>prog := patched True ks (prog (rx p2))\<rparr>)"
        by (rule threaded_patched [OF t])
      then show "post (case x of (ps', jchain) \<Rightarrow>
          andthen (patch_jmp_chain (length (prog (rx ps'))) (rx ps') jchain) (\<lambda>r. Inr (ps'\<lparr>rx := r\<rparr>)))
        (parsed ?Q ps)"
        using x xp p1 t
        by (auto simp: patch_jmp_chain_patched [OF ks(1,2)] parsed_def kept_def threaded_def)
    qed
  qed
qed

section \<open>The compiled program\<close>

lemma lpre_init_ready: "inv (lpre_init ic)" "prog (lpre_init ic) = []"
  by (auto simp: inv_def fields_wf_def lpre_init_def MAX_INST_def RE_MAX_GROUPS_def)

text \<open>A compiled program: well formed and within the engine's limits.\<close>

definition compiled :: "bool \<Rightarrow> lpre \<Rightarrow> bool" where
  "compiled ic re \<longleftrightarrow> prog_wf re \<and> length (prog re) \<le> MAX_INST \<and> nreg re \<le> MAX_REG \<and>
     ngroup re < RE_MAX_GROUPS \<and> icase re = ic"

lemma emit_plain:
  assumes "inv r" "inst_ok r i" "\<And>u. inv u \<Longrightarrow> prog u = prog r @ [i] \<Longrightarrow> ext r u \<Longrightarrow> post (f u) Q"
  shows "post (andthen (emit al r i) (\<lambda>(u, _). f u)) Q"
  by (rule post_andthen [OF emit_post [OF assms(1,2)]]) (use assms(3) in auto)

lemma compiled_end:
  assumes "inv v" "prog v = P @ [I_SAVE 1, I_MATCH]" "frag 0 P"
  shows "compiled (icase v) (v\<lparr>save := s, first := fs, has_first := hf\<rparr>)"
proof -
  have "\<forall>i \<in> set (prog v). \<forall>t \<in> targets i. 0 \<le> t \<and> t < int (length (prog v))"
    using assms(2,3) by (fastforce simp: frag_def)
  then show ?thesis
    using assms(1,2) by (simp add: compiled_def prog_wf_def fields_wf_def inv_def nth_append)
qed

lemma re_finish_post:
  assumes "inv r" "frag 0 (prog r)" shows "post (re_finish al r) (compiled (icase r))"
  unfolding re_finish_def
proof (rule emit_plain [OF assms(1)])
  show "inst_ok r (I_SAVE 1)" by (simp add: RE_MAX_CAPS_def RE_MAX_GROUPS_def)
next
  fix u
  assume u: "inv u" "prog u = prog r @ [I_SAVE 1]" "ext r u"
  show "post (andthen (emit al u I_MATCH) (\<lambda>(r, _).
     if \<not> al ((RE_MAX_CAPS + nreg r) * 4) then Inl NoMemory
     else
       (let (_, fs, any) = closure al r 0 (length (prog r)) set_empty False;
            hf = (\<not> any \<and> \<not> list_all (\<lambda>b. b = 0) fs)
        in Inr (r\<lparr>save := replicate (RE_MAX_CAPS + nreg r) 0, first := fs, has_first := hf\<rparr>))))
     (compiled (icase r))"
  proof (rule emit_plain [OF u(1)])
    fix v
    assume v: "inv v" "prog v = prog u @ [I_MATCH]" "ext u v"
    have "icase v = icase r" using u(3) v(3) by (simp add: ext_def)
    with compiled_end [OF v(1) _ assms(2)] u(2) v(2)
    show "post (if \<not> al ((RE_MAX_CAPS + nreg v) * 4) then Inl NoMemory
     else
       (let (_, fs, any) = closure al v 0 (length (prog v)) set_empty False;
            hf = (\<not> any \<and> \<not> list_all (\<lambda>b. b = 0) fs)
        in Inr (v\<lparr>save := replicate (RE_MAX_CAPS + nreg v) 0, first := fs, has_first := hf\<rparr>)))
     (compiled (icase r))"
      by (simp split: prod.split)
  qed simp
qed

lemma re_compile_post: "post (re_compile al pattern ere ic) (compiled ic)"
proof (cases "pattern = None \<or> \<not> al 160")
  case True
  then show ?thesis by (auto simp: re_compile_def split: option.split)
next
  case False
  then obtain p where p: "pattern = Some p" "al 160" by auto
  have "post (andthen (emit al (lpre_init ic) (I_SAVE 0)) (\<lambda>(r, _).
            andthen (p_alt al RE_MAX_GROUPS \<lparr>pat = p, is_ere = ere, rx = r\<rparr>) (\<lambda>ps.
            if pat ps \<noteq> [] then Inl UnmatchedClose else re_finish al (rx ps)))) (compiled ic)"
  proof (rule emit_plain [OF lpre_init_ready(1)])
    show "inst_ok (lpre_init ic) (I_SAVE 0)" by (simp add: RE_MAX_CAPS_def RE_MAX_GROUPS_def)
  next
    fix r
    assume r: "inv r" "prog r = prog (lpre_init ic) @ [I_SAVE 0]" "ext (lpre_init ic) r"
    let ?ps = "\<lparr>pat = p, is_ere = ere, rx = r\<rparr>"
    have rd: "ready ?ps" using r by (simp add: ready_def pre_def lpre_init_ready)
    have ic: "icase r = ic" using r(3) by (simp add: ext_def lpre_init_def)
    show "post (andthen (p_alt al RE_MAX_GROUPS ?ps) (\<lambda>ps.
            if pat ps \<noteq> [] then Inl UnmatchedClose else re_finish al (rx ps))) (compiled ic)"
    proof (rule post_andthen [OF p_alt_post [OF rd]])
      fix ps
      assume "parsed (prog (rx ?ps)) ?ps ps"
      then obtain F where F: "prog (rx ps) = [I_SAVE 0] @ F" "frag 1 F" "inv (rx ps)" "icase (rx ps) = ic"
        using r(2) ic by (auto simp: parsed_def kept_def ext_def lpre_init_ready)
      have "frag 0 (prog (rx ps))"
        unfolding F(1) by (rule frag_append) (use F(2) in \<open>simp_all add: frag_single\<close>)
      from re_finish_post [OF F(3) this, of al] F(4)
      show "post (if pat ps \<noteq> [] then Inl UnmatchedClose else re_finish al (rx ps)) (compiled ic)"
        by simp
    qed simp
  qed
  then show ?thesis using p by (simp add: re_compile_def)
qed

text \<open>
  C3: whatever the pattern, in either syntax and however allocations fail, \<open>re_compile\<close>
  either reports one of its own errors (its loops always finish) or returns a program whose
  jumps, save slots and sets all exist, which ends in \<open>MATCH\<close> and keeps to the engine's limits
  of 4096 instructions, 16 loop registers and 9 groups.
\<close>

theorem re_compile_well_formed:
  "case re_compile al pattern ere ic of
     Inl e \<Rightarrow> e \<noteq> Stuck
   | Inr re \<Rightarrow> prog_wf re \<and> length (prog re) \<le> MAX_INST \<and> nreg re \<le> MAX_REG \<and>
       ngroup re < RE_MAX_GROUPS \<and> icase re = ic"
  using re_compile_post [of al pattern ere ic] by (simp add: post_def compiled_def split: sum.splits)

end
