(* ===== verification/RegexSearch.thy ===== *)
theory RegexSearch
  imports RegexWf
begin

text \<open>
  \<open>re_search\<close> and \<open>re_gave_up\<close> (\<open>userland/libc/src/regex.c\<close>, lines 1024 to 1063): the scan
  over the start offsets, with the first-byte test and the step budgets, and the proof that a
  compiled pattern is found exactly where the nondeterministic machine finds it.
\<close>

section \<open>The scan\<close>

function skip_first :: "cset \<Rightarrow> cstring \<Rightarrow> nat \<Rightarrow> nat" where
  "skip_first fs tx i =
     (if i < length tx \<and> \<not> set_has fs (unat (tx ! i)) then skip_first fs tx (i + 1) else i)"
  by pat_completeness auto
termination by (relation "measure (\<lambda>(fs, tx, i). length tx - i)") auto

declare skip_first.simps [simp del]

lemma skip_first_ge: "i \<le> skip_first fs tx i"
  by (induction fs tx i rule: skip_first.induct) (subst skip_first.simps, auto)

lemma skip_first_le: "i \<le> length tx \<Longrightarrow> skip_first fs tx i \<le> length tx"
  by (induction fs tx i rule: skip_first.induct) (subst skip_first.simps, auto)

lemma skip_first_none: "i \<le> j \<Longrightarrow> j < skip_first fs tx i \<Longrightarrow> j < length tx \<and> \<not> set_has fs (unat (tx ! j))"
proof (induction fs tx i rule: skip_first.induct)
  case (1 fs tx i)
  show ?case
  proof (cases "i < length tx \<and> \<not> set_has fs (unat (tx ! i))")
    case True
    then have "j < skip_first fs tx (i + 1)" using "1.prems"(2) by (subst (asm) skip_first.simps) simp
    then show ?thesis using True 1 by (cases "j = i") auto
  next
    case False
    then have "skip_first fs tx i = i" by (subst skip_first.simps) auto
    then show ?thesis using "1.prems" by simp
  qed
qed

text \<open>
  The loop over the start offsets.  The first result is the captures, when there is a match;
  the last is a log of the attempts and how they ended, which the source does not keep and
  only the statements below look at.  \<open>left\<close> is the source's \<open>long\<close> (it may fall to -1).
\<close>

type_synonym search_log = "(nat \<times> verdict) list"

function search_loop ::
  "(nat \<Rightarrow> bool) \<Rightarrow> lpre \<Rightarrow> cstring \<Rightarrow> bool \<Rightarrow> nat \<Rightarrow> int \<Rightarrow> search_log \<Rightarrow>
     int list option \<times> lpre \<times> int \<times> search_log" where
  "search_loop al re tx notbol i left log =
     (if i > length tx then (None, re, left, log)
      else
        (let i' = (if has_first re then skip_first (first re) tx i else i) in
         if has_first re \<and> i' \<ge> length tx then (None, re, left, log)
         else
           (let allow = (if left < int STEPS_PER_START then left else int STEPS_PER_START) in
            if allow \<le> 0 then (None, re\<lparr>gave_up := True\<rparr>, left, log)
            else
              (let (v, used, re) = run al re tx i' notbol (nat allow);
                   log = log @ [(i', v)]
               in if v = Matched then (Some (take RE_MAX_CAPS (save re)), re, left - int used, log)
                  else
                    (let left = left - int used;
                         re = (if int used \<ge> allow then re\<lparr>gave_up := True\<rparr> else re)
                     in search_loop al re tx notbol (i' + 1) left log)))))"
  by pat_completeness auto
termination
proof (relation "measure (\<lambda>(al, re, tx, notbol, i, left, log). length tx + 1 - i)", goal_cases)
  case (2 al re tx notbol i left log i' allow x v y used re' log' left' re'')
  then show ?case using skip_first_ge [of i "first re" tx] by (auto split: if_splits)
qed simp

declare search_loop.simps [simp del]

text \<open>
  \<open>re\<close> and \<open>text\<close> may be null pointers; \<open>from\<close> is an \<open>int\<close>.  The result: the captures when it
  returns true, the \<open>lpre\<close> afterwards, the steps left and the log.
\<close>

definition re_search ::
  "(nat \<Rightarrow> bool) \<Rightarrow> lpre option \<Rightarrow> cstring option \<Rightarrow> int \<Rightarrow> bool \<Rightarrow>
     int list option \<times> lpre option \<times> int \<times> search_log" where
  "re_search al re tx start notbol =
     (case (re, tx) of
        (Some re, Some tx) \<Rightarrow>
          (let re = re\<lparr>gave_up := False\<rparr>;
               i = (if start < 0 then 0 else start)
           in if i > int (length tx) then (None, Some re, int STEPS_TOTAL, [])
              else
                (let (r, re, left, log) = search_loop al re tx notbol (nat i) (int STEPS_TOTAL) []
                 in (r, Some re, left, log)))
      | _ \<Rightarrow> (None, re, int STEPS_TOTAL, []))"

definition re_gave_up :: "lpre option \<Rightarrow> bool" where
  "re_gave_up re = (case re of None \<Rightarrow> False | Some re \<Rightarrow> gave_up re)"

section \<open>The first-byte test\<close>

text \<open>What one round of the closure has done for an instruction, when it moved nothing.\<close>

definition visited :: "lpre \<Rightarrow> nat \<Rightarrow> bool list \<Rightarrow> cset \<Rightarrow> bool \<Rightarrow> nat \<Rightarrow> bool" where
  "visited re n seen s any i \<longleftrightarrow>
     (seen ! i \<longrightarrow>
        (\<forall>t. t = fst (eps_targets i (prog re ! i)) \<or> t = snd (eps_targets i (prog re ! i)) \<longrightarrow>
           0 \<le> t \<and> t \<le> int n \<longrightarrow> seen ! nat t) \<and>
        (prog re ! i = I_MATCH \<or> prog re ! i = I_ANY \<longrightarrow> any) \<and>
        (\<forall>c. prog re ! i = I_CHAR c \<longrightarrow> set_has s (unat c) \<and>
           (icase re \<and> is_lower (unat c) \<longrightarrow> set_has s (unat c - 32))) \<and>
        (\<forall>k b. prog re ! i = I_CLASS k \<longrightarrow> set_has (cls re ! k) b \<longrightarrow> set_has s b))"

lemma visited_mono:
  "visited re n seen s any i \<Longrightarrow> (\<And>b. set_has s b \<Longrightarrow> set_has s' b) \<Longrightarrow> (any \<Longrightarrow> any') \<Longrightarrow>
     visited re n seen s' any' i"
  by (auto simp: visited_def)

lemma mark_still:
  "mark 0 n t (seen, s, any, moved) = (seen', s', any', False) \<Longrightarrow>
     \<not> moved \<and> seen' = seen \<and> s' = s \<and> any' = any \<and> (0 \<le> t \<and> t \<le> int n \<longrightarrow> seen ! nat t)"
  by (auto simp: mark_def split: if_splits)

lemma collect_mono: "cset_wf s \<Longrightarrow> set_has s b \<Longrightarrow> set_has (collect re i s) b"
  by (cases i) (auto simp: Let_def set_has_add)

lemma collect_wf: "cset_wf s \<Longrightarrow> fields_ok nsv (length (cls re)) i \<Longrightarrow> list_all cset_wf (cls re) \<Longrightarrow>
    cset_wf (collect re i s)"
  by (cases i) (auto simp: Let_def list_all_length)

lemma visit_still:
  assumes "visit re 0 n i (seen, s, any, moved) = (seen', s', any', False)"
    and "cset_wf s" "cset_wf (collect re (prog re ! i) s)"
  shows "\<not> moved \<and> seen' = seen \<and> cset_wf s' \<and> (\<forall>b. set_has s b \<longrightarrow> set_has s' b) \<and> (any \<longrightarrow> any') \<and>
     visited re n seen s' any' i"
proof (cases "seen ! i")
  case False
  then show ?thesis using assms by (auto simp: visit_def visited_def)
next
  case True
  obtain t1 t2 where t: "eps_targets i (prog re ! i) = (t1, t2)" by (cases "eps_targets i (prog re ! i)")
  let ?s = "collect re (prog re ! i) s" and ?a = "any \<or> prog re ! i = I_MATCH \<or> prog re ! i = I_ANY"
  obtain seen1 s1 any1 moved1 where m1: "mark 0 n t1 (seen, ?s, ?a, moved) = (seen1, s1, any1, moved1)"
    by (metis prod_cases4)
  have m2: "mark 0 n t2 (seen1, s1, any1, moved1) = (seen', s', any', False)"
    using assms(1) True t m1 by (simp add: visit_def)
  note r2 = mark_still [OF m2]
  then have "\<not> moved1" by simp
  with m1 have m1': "mark 0 n t1 (seen, ?s, ?a, moved) = (seen1, s1, any1, False)" by simp
  note r1 = mark_still [OF m1']
  have c: "prog re ! i = I_CHAR c \<Longrightarrow> set_has ?s (unat c) \<and>
      (icase re \<and> is_lower (unat c) \<longrightarrow> set_has ?s (unat c - 32))" for c
    using assms(2) by (auto simp: Let_def set_has_add)
  have "prog re ! i = I_CLASS k \<Longrightarrow> set_has (cls re ! k) b \<Longrightarrow> set_has ?s b" for k b
    by simp
  then show ?thesis
    using r1 r2 t assms(2,3) c collect_mono [OF assms(2)] by (auto simp: visited_def)
qed

lemma fold_visit_still:
  assumes "fold (visit re 0 n) xs (seen, s, any, moved) = (seen', s', any', False)"
    and "cset_wf s" "\<And>i s. i \<in> set xs \<Longrightarrow> cset_wf s \<Longrightarrow> cset_wf (collect re (prog re ! i) s)"
  shows "\<not> moved \<and> seen' = seen \<and> cset_wf s' \<and> (\<forall>b. set_has s b \<longrightarrow> set_has s' b) \<and> (any \<longrightarrow> any') \<and>
     (\<forall>i \<in> set xs. visited re n seen s' any' i)"
  using assms
proof (induction xs arbitrary: seen s any moved)
  case (Cons x xs)
  obtain seen1 s1 any1 moved1 where v: "visit re 0 n x (seen, s, any, moved) = (seen1, s1, any1, moved1)"
    by (metis prod_cases4)
  have wf1: "cset_wf s1"
    using v Cons.prems(2) Cons.prems(3) [of x s]
    by (auto simp: visit_def mark_def Let_def split: if_splits prod.splits)
  have IH: "\<not> moved1 \<and> seen' = seen1 \<and> cset_wf s' \<and> (\<forall>b. set_has s1 b \<longrightarrow> set_has s' b) \<and> (any1 \<longrightarrow> any') \<and>
     (\<forall>i \<in> set xs. visited re n seen1 s' any' i)"
    by (rule Cons.IH [OF _ wf1]) (use Cons.prems v in auto)
  with v have v': "visit re 0 n x (seen, s, any, moved) = (seen1, s1, any1, False)" by simp
  from visit_still [OF v' Cons.prems(2)] Cons.prems(2,3) IH show ?case
    by (auto intro: visited_mono)
qed simp

lemma fold_visit_wf:
  assumes "cset_wf s" "\<And>i s. i \<in> set xs \<Longrightarrow> cset_wf s \<Longrightarrow> cset_wf (collect re (prog re ! i) s)"
  shows "cset_wf (fst (snd (fold (visit re start n) xs (seen, s, any, moved))))"
  using assms
proof (induction xs arbitrary: seen s any moved)
  case (Cons x xs)
  obtain seen1 s1 any1 moved1 where v: "visit re start n x (seen, s, any, moved) = (seen1, s1, any1, moved1)"
    by (metis prod_cases4)
  have "cset_wf s1"
    using v Cons.prems(1) Cons.prems(2) [of x s]
    by (auto simp: visit_def mark_def Let_def split: if_splits prod.splits)
  then show ?case using Cons.IH [of s1] Cons.prems(2) v by simp
qed simp

text \<open>When the closure stops, everything it has seen has been looked at.\<close>

lemma closure_loop_closed:
  assumes "length seen = n + 1" "seen ! 0" "cset_wf s"
    and "\<And>i s. i < n \<Longrightarrow> cset_wf s \<Longrightarrow> cset_wf (collect re (prog re ! i) s)"
    and "closure_loop re 0 n (seen, s, any) = (seen', s', any')"
  shows "seen' ! 0 \<and> length seen' = n + 1 \<and> cset_wf s' \<and> (\<forall>i < n. visited re n seen' s' any' i)"
  using assms
proof (induction "unseen seen" arbitrary: seen s any rule: less_induct)
  case less
  obtain seen1 s1 any1 moved where p: "closure_pass re 0 n (seen, s, any) = (seen1, s1, any1, moved)"
    by (metis prod_cases4)
  have lt: "later (seen, s, any, False) (seen1, s1, any1, moved)"
    using closure_pass_later [of seen n 0 s any re] less.prems(1) p by simp
  have f: "fold (visit re 0 n) [0..<n] (seen, s, any, False) = (seen1, s1, any1, moved)"
    using p by (simp add: closure_pass_def)
  have wf1: "cset_wf s1"
    using fold_visit_wf [OF less.prems(3), of "[0..<n]" re 0 n seen any False] less.prems(4) f by simp
  show ?case
  proof (cases moved)
    case True
    have "closure_loop re 0 n (seen1, s1, any1) = (seen', s', any')"
      using less.prems(1,5) p True by (simp add: closure_loop.simps [of re 0 n seen])
    moreover have "unseen seen1 < unseen seen" "length seen1 = n + 1" "seen1 ! 0"
      using lt True less.prems(1,2) by (auto simp: later_def)
    ultimately show ?thesis using less.hyps wf1 less.prems(4) by blast
  next
    case False
    have "(seen1, s1, any1) = (seen', s', any')"
      using less.prems(1,5) p False by (simp add: closure_loop.simps [of re 0 n seen])
    moreover have "seen1 = seen \<and> cset_wf s1 \<and> (\<forall>i \<in> set [0..<n]. visited re n seen s1 any1 i)"
      using fold_visit_still [of re n "[0..<n]" seen s any False seen1 s1 any1] f False less.prems(3,4) by auto
    ultimately show ?thesis using less.prems(1,2) by auto
  qed
qed

definition first_sound :: "lpre \<Rightarrow> bool" where
  "first_sound re \<longleftrightarrow> (has_first re \<longrightarrow>
     (\<forall>tx notbol i sv. i \<le> length tx \<longrightarrow> matches_from re tx notbol i sv \<longrightarrow>
        i < length tx \<and> set_has (first re) (unat (tx ! i))))"

lemma first_soundD: "first_sound re \<Longrightarrow> has_first re \<Longrightarrow> i \<le> length tx \<Longrightarrow> matches_from re tx notbol i sv \<Longrightarrow>
    i < length tx \<and> set_has (first re) (unat (tx ! i))"
  unfolding first_sound_def by blast

lemma lower_cases: "lower c = c \<or> is_lower (unat (lower c)) \<and> unat c = unat (lower c) - 32"
  by (auto simp: lower_def is_upper_def is_lower_def unat_word_ariths word_unat_eq_iff split: if_splits)

lemma closure_thread:
  assumes wf: "prog_wf re" and any: "\<not> any"
    and vis: "\<And>i. i < length (prog re) \<Longrightarrow> visited re (length (prog re)) seen s any i"
    and seen0: "seen ! 0"
    and reach: "reaches re tx notbol (0, i, sv0) (pc, sp, sv)" and wf0: "thread_wf re tx (0, i, sv0)"
  shows "thread_wf re tx (pc, sp, sv) \<and>
    (sp = i \<and> seen ! nat pc \<or> i < length tx \<and> set_has s (unat (tx ! i)))"
  using reach
proof (induction "(pc, sp, sv)" arbitrary: pc sp sv rule: rtranclp_induct)
  case base
  then show ?case using wf0 seen0 by simp
next
  case (step t)
  obtain pc0 sp0 sv0 where t: "t = (pc0, sp0, sv0)" by (cases t)
  have wft: "thread_wf re tx t" using step(3) t by blast
  have wf': "thread_wf re tx (pc, sp, sv)"
    using succs_wf [OF wf wft] step(2) by (simp add: vstep_succs)
  show ?case
  proof (cases "i < length tx \<and> set_has s (unat (tx ! i))")
    case False
    then have s: "sp0 = i" "seen ! nat pc0" using step(3) t by auto
    have pc0: "0 \<le> pc0" "nat pc0 < length (prog re)" using wft t by (auto simp: thread_wf_def)
    have pc: "0 \<le> pc \<and> pc \<le> int (length (prog re))" using wf' by (simp add: thread_wf_def)
    have "sp = i \<and> seen ! nat pc"
      using step(2) vis [OF pc0(2)] s False any pc pc0(1) lower_cases [of "tx ! i"]
      unfolding t vstep_iff
      by (cases "prog re ! nat pc0") (auto simp: visited_def split: if_splits)
    then show ?thesis using wf' by simp
  qed (use wf' in simp)
qed

lemma empty_bytes: "list_all (\<lambda>b. b = 0) set_empty"
  by (simp add: set_empty_def list_all_iff)

lemma eps_targets_cong: "visited re n seen s any i = visited (re\<lparr>save := u, first := f, has_first := h\<rparr>) n seen s any i"
  by (simp add: visited_def)

lemma re_finish_first:
  assumes "re_finish al r = Inr re" "prog_wf re"
  shows "first_sound re"
proof -
  obtain v where v: "prog v \<noteq> []"
      "re = (case closure al v 0 (length (prog v)) set_empty False of (_, fs, any) \<Rightarrow>
         v\<lparr>save := replicate (RE_MAX_CAPS + nreg v) 0, first := fs,
           has_first := (\<not> any \<and> \<not> list_all (\<lambda>b. b = 0) fs)\<rparr>)"
    using assms by (auto simp: re_finish_def andthen_Inr_iff Let_def prog_wf_def split: if_splits prod.splits)
  let ?n = "length (prog v)"
  show ?thesis
  proof (cases "al (?n + 1)")
    case False
    then have "\<not> has_first re" using v(2) by (simp add: closure_def empty_bytes)
    then show ?thesis by (simp add: first_sound_def)
  next
    case True
    let ?seen = "(replicate (?n + 1) False)[0 := True]"
    obtain seen s any where c: "closure_loop v 0 ?n (?seen, set_empty, False) = (seen, s, any)"
      by (metis prod_cases3)
    have re: "re = v\<lparr>save := replicate (RE_MAX_CAPS + nreg v) 0, first := s,
        has_first := (\<not> any \<and> \<not> list_all (\<lambda>b. b = 0) s)\<rparr>"
      using v(2) True c by (simp add: closure_def Let_def)
    have wf: "cset_wf (collect v (prog v ! i) s)" if "i < ?n" "cset_wf s" for i s
      using assms(2) that nth_mem [OF that(1)] unfolding re prog_wf_def fields_wf_def
      by (intro collect_wf [of _ "RE_MAX_CAPS + nreg v"]) auto
    have closed: "seen ! 0 \<and> (\<forall>i < ?n. visited v ?n seen s any i)"
      using closure_loop_closed [of ?seen ?n set_empty v False seen s any] wf c by auto
    have same: "visited re ?n seen s any i = visited v ?n seen s any i" "prog re = prog v" for i
      unfolding re by (simp_all add: visited_def)
    show ?thesis
      unfolding first_sound_def
    proof (intro impI allI)
      fix tx notbol i sv
      assume h: "has_first re" and i: "i \<le> length tx" and m: "matches_from re tx notbol i sv"
      have any: "\<not> any" using h re by simp
      obtain pc sp where r: "reaches re tx notbol (0, i, replicate (RE_MAX_CAPS + nreg re) (-1)) (pc, sp, sv)"
          and mt: "prog re ! nat pc = I_MATCH"
        using m by (auto simp: matches_from_def thread_start_def)
      have "thread_wf re tx (pc, sp, sv) \<and> (sp = i \<and> seen ! nat pc \<or> i < length tx \<and> set_has s (unat (tx ! i)))"
        by (rule closure_thread [OF assms(2) any _ _ r])
           (use closed same i v(1) in \<open>auto simp: thread_wf_def\<close>)
      moreover have "\<not> seen ! nat pc" if "thread_wf re tx (pc, sp, sv)"
        using closed mt any that same(2) unfolding visited_def thread_wf_def
        by (metis (no_types, lifting) case_prod_conv nat_less_iff)
      ultimately show "i < length tx \<and> set_has (first re) (unat (tx ! i))"
        unfolding re by auto
    qed
  qed
qed

lemma re_compile_first: "re_compile al pattern ere ic = Inr re \<Longrightarrow> first_sound re"
  using re_compile_post [of al pattern ere ic]
  by (auto simp: re_compile_def andthen_Inr_iff compiled_def intro: re_finish_first
      split: option.splits if_splits)

section \<open>What a search finds\<close>

text \<open>Two programs that differ only in the scratch state a search uses.\<close>

definition same_code :: "lpre \<Rightarrow> lpre \<Rightarrow> bool" where
  "same_code a b \<longleftrightarrow> prog a = prog b \<and> cls a = cls b \<and> icase a = icase b \<and> nreg a = nreg b \<and>
     has_first a = has_first b \<and> first a = first b"

lemma same_code_matches: "same_code a b \<Longrightarrow> matches_from a = matches_from b"
proof -
  assume s: "same_code a b"
  have "succs a tx n t = succs b tx n t" for tx n t
    using s by (cases t) (simp add: succs_def same_code_def cong: reinst.case_cong)
  then have v: "vstep a = vstep b" by (simp add: vstep_succs fun_eq_iff)
  show ?thesis
    using s by (intro HOL.ext) (simp add: matches_from_def thread_start_def v same_code_def)
qed

lemma same_code_wf: "same_code a b \<Longrightarrow> prog_wf a = prog_wf b"
  by (simp add: same_code_def prog_wf_def fields_wf_def)

lemma run_same_code: "run al re tx i notbol n = (v, used, re') \<Longrightarrow> same_code re re' \<and> gave_up re' = gave_up re"
  by (auto simp: run_def Let_def same_code_def split: prod.splits)

lemma same_code_trans: "same_code a b \<Longrightarrow> same_code b c \<Longrightarrow> same_code a c"
  by (simp add: same_code_def)

lemma same_code_gave_up [simp]: "same_code a (b\<lparr>gave_up := g\<rparr>) = same_code a b"
  by (simp add: same_code_def)

definition search_ok :: "lpre \<Rightarrow> cstring \<Rightarrow> bool \<Rightarrow> nat \<Rightarrow> int list option \<times> lpre \<times> int \<times> search_log \<Rightarrow> bool" where
  "search_ok re tx notbol start out \<longleftrightarrow>
     (case out of (r, re', left, log) \<Rightarrow>
        -1 \<le> left \<and>
        (\<forall>caps. r = Some caps \<longrightarrow>
          (\<exists>i sv. start \<le> i \<and> i \<le> length tx \<and> matches_from re tx notbol i sv \<and> caps = take RE_MAX_CAPS sv \<and>
            (\<forall>j. start \<le> j \<and> j < i \<longrightarrow>
               (j, Exhausted) \<in> set log \<or> (j, NoRoom) \<in> set log \<or> (\<forall>sv. \<not> matches_from re tx notbol j sv)))) \<and>
        (r = None \<and> \<not> gave_up re' \<longrightarrow>
          (\<forall>j. start \<le> j \<and> j \<le> length tx \<longrightarrow>
             (j, NoRoom) \<in> set log \<or> (\<forall>sv. \<not> matches_from re tx notbol j sv))) \<and>
        (\<forall>j v. (j, v) \<in> set log \<longrightarrow> v \<noteq> Crash))"

lemma skipped_no_match:
  assumes "first_sound re" "i \<le> j" "j < (if has_first re then skip_first (first re) tx i else i)"
  shows "\<not> matches_from re tx notbol j sv"
proof (cases "has_first re")
  case True
  with assms(3) have "j < length tx \<and> \<not> set_has (first re) (unat (tx ! j))"
    using skip_first_none [OF assms(2)] by simp
  then show ?thesis using assms(1) True by (auto simp: first_sound_def dest: less_imp_le)
qed (use assms in simp)

lemma first_sound_cong: "same_code a b \<Longrightarrow> first_sound a = first_sound b"
  using same_code_matches [of a b] by (simp add: first_sound_def same_code_def)

lemma search_ok_step:
  assumes "search_ok re tx notbol (m + 1) (r, re', left, log)" "i \<le> m"
    and "\<And>j sv. i \<le> j \<Longrightarrow> j < m \<Longrightarrow> \<not> matches_from re tx notbol j sv"
    and "(m, Exhausted) \<in> set log \<and> gave_up re' \<or> (m, NoRoom) \<in> set log \<or>
      (\<forall>sv. \<not> matches_from re tx notbol m sv)"
  shows "search_ok re tx notbol i (r, re', left, log)"
proof -
  have split: "j < m \<or> j = m \<or> m + 1 \<le> j" for j by arith
  have found: "\<exists>k sv. i \<le> k \<and> k \<le> length tx \<and> matches_from re tx notbol k sv \<and> caps = take RE_MAX_CAPS sv \<and>
      (\<forall>j. i \<le> j \<and> j < k \<longrightarrow> (j, Exhausted) \<in> set log \<or> (j, NoRoom) \<in> set log \<or>
        (\<forall>sv. \<not> matches_from re tx notbol j sv))" if "r = Some caps" for caps
  proof -
    note r = that
    obtain k sv where k: "m + 1 \<le> k" "k \<le> length tx" "matches_from re tx notbol k sv" "caps = take RE_MAX_CAPS sv"
        "\<forall>j. m + 1 \<le> j \<and> j < k \<longrightarrow> (j, Exhausted) \<in> set log \<or> (j, NoRoom) \<in> set log \<or>
          (\<forall>sv. \<not> matches_from re tx notbol j sv)"
      using assms(1) r unfolding search_ok_def prod.case by blast
    then show ?thesis
      using assms(2-4) split by (intro exI [of _ k] exI [of _ sv]) (metis add_leE le_trans)
  qed
  have none: "(j, NoRoom) \<in> set log \<or> (\<forall>sv. \<not> matches_from re tx notbol j sv)"
    if "r = None" "\<not> gave_up re'" "i \<le> j" "j \<le> length tx" for j
    using assms(1,3,4) that split [of j] by (auto simp: search_ok_def)
  show ?thesis
    using assms(1) found none unfolding search_ok_def by simp
qed

lemma search_ok_found:
  assumes "matches_from re tx notbol m sv" "i \<le> m" "m \<le> length tx" "-1 \<le> left"
    and "\<And>j sv. i \<le> j \<Longrightarrow> j < m \<Longrightarrow> \<not> matches_from re tx notbol j sv"
    and "\<forall>j v. (j, v) \<in> set log \<longrightarrow> v \<noteq> Crash"
  shows "search_ok re tx notbol i (Some (take RE_MAX_CAPS sv), re', left, log)"
  unfolding search_ok_def prod.case
  using assms by (intro conjI) (blast | simp)+

lemma search_loop_correct:
  assumes "prog_wf re" "first_sound re" "-1 \<le> left" "\<forall>j v. (j, v) \<in> set log \<longrightarrow> v \<noteq> Crash"
    and "search_loop al re tx notbol i left log = (r, re', left', log')"
  shows "search_ok re tx notbol i (r, re', left', log') \<and> set log \<subseteq> set log' \<and> (gave_up re \<longrightarrow> gave_up re') \<and>
    same_code re re'"
  using assms
proof (induction "length tx + 1 - i" arbitrary: re i left log rule: less_induct)
  case less
  let ?i = "if has_first re then skip_first (first re) tx i else i"
  note no = skipped_no_match [OF less.prems(2), of i _ tx notbol]
  show ?case
  proof (cases "i > length tx")
    case True
    then have "(r, re', left', log') = (None, re, left, log)"
      using less.prems(5) by (subst (asm) search_loop.simps) (simp add: Let_def)
    then show ?thesis using True less.prems(3,4) by (auto simp: search_ok_def same_code_def)
  next
    case i: False
    show ?thesis
    proof (cases "has_first re \<and> ?i \<ge> length tx")
      case True
      then have "has_first re" "skip_first (first re) tx i \<ge> length tx" by auto
      then have out: "(r, re', left', log') = (None, re, left, log)"
        using less.prems(5) i by (subst (asm) search_loop.simps) (simp add: Let_def)
      have "\<not> matches_from re tx notbol j sv" if "i \<le> j" "j \<le> length tx" for j sv
        using True that no first_soundD [OF less.prems(2), of j tx notbol sv] by (cases "j < length tx") auto
      then show ?thesis using out less.prems(3,4) by (auto simp: search_ok_def same_code_def)
    next
      case hf: False
      have i': "?i \<le> length tx" "i \<le> ?i"
        using i skip_first_le [of i tx "first re"] skip_first_ge [of i "first re" tx] by auto
      let ?allow = "if left < int STEPS_PER_START then left else int STEPS_PER_START"
      show ?thesis
      proof (cases "?allow \<le> 0")
        case True
        then have "(r, re', left', log') = (None, re\<lparr>gave_up := True\<rparr>, left, log)"
          using less.prems(5) i hf by (subst (asm) search_loop.simps) (simp add: Let_def split: if_splits)
        then show ?thesis using less.prems(3,4) by (auto simp: search_ok_def same_code_def)
      next
        case al: False
        obtain v used u where run: "run al re tx ?i notbol (nat ?allow) = (v, used, u)"
          by (metis prod_cases3)
        note rc = run_facts [OF less.prems(1) i'(1) run]
        note sc = run_same_code [OF run]
        let ?log = "log @ [(?i, v)]"
        show ?thesis
        proof (cases "v = Matched")
          case True
          then have "search_loop al re tx notbol i left log = (Some (take RE_MAX_CAPS (save u)), u, left - int used, ?log)"
            using i hf al run by (subst search_loop.simps) (simp add: Let_def)
          then have out: "(r, re', left', log') = (Some (take RE_MAX_CAPS (save u)), u, left - int used, ?log)"
            using less.prems(5) by simp
          have "matches_from re tx notbol ?i (save u)" using rc True by blast
          then show ?thesis
            using out search_ok_found [OF _ i'(2,1) _ no, of "save u" "left - int used" ?log u] sc rc al
              less.prems(4) True by (auto split: if_splits)
        next
          case nm: False
          let ?u = "if int used \<ge> ?allow then u\<lparr>gave_up := True\<rparr> else u"
          have "search_loop al re tx notbol i left log =
              search_loop al ?u tx notbol (?i + 1) (left - int used) ?log"
            using i hf al run nm by (subst search_loop.simps) (simp add: Let_def)
          then have eq: "search_loop al ?u tx notbol (?i + 1) (left - int used) ?log = (r, re', left', log')"
            using less.prems(5) by simp
          have sc': "same_code re ?u" using sc by simp
          have IH: "search_ok ?u tx notbol (?i + 1) (r, re', left', log') \<and> set ?log \<subseteq> set log' \<and>
              (gave_up ?u \<longrightarrow> gave_up re') \<and> same_code ?u re'"
          proof (rule less.hyps [OF _ _ _ _ _ eq])
            show "length tx + 1 - (?i + 1) < length tx + 1 - i" using i i' by arith
            show "prog_wf ?u" using less.prems(1) same_code_wf [OF sc'] by simp
            show "first_sound ?u" using less.prems(2) first_sound_cong [OF sc'] by simp
            show "- 1 \<le> left - int used" using rc al by (auto split: if_splits)
            show "\<forall>j v. (j, v) \<in> set ?log \<longrightarrow> v \<noteq> Crash" using less.prems(4) rc by auto
          qed
          have spent: "v = Exhausted \<Longrightarrow> gave_up ?u" using rc al by (auto split: if_splits)
          have here: "(?i, Exhausted) \<in> set log' \<and> gave_up re' \<or> (?i, NoRoom) \<in> set log' \<or>
              (\<forall>sv. \<not> matches_from re tx notbol ?i sv)"
            using rc nm IH spent by (cases v) (auto simp del: if_split)
          have "search_ok re tx notbol (?i + 1) (r, re', left', log')"
            using IH same_code_matches [OF sc'] by (simp add: search_ok_def)
          then have "search_ok re tx notbol i (r, re', left', log')"
            by (rule search_ok_step [OF _ i'(2) no here])
          moreover have "set log \<subseteq> set log'" using IH by simp
          moreover have "gave_up re \<longrightarrow> gave_up re'" using IH sc by (auto split: if_splits)
          moreover have "same_code re re'" using IH same_code_trans [OF sc'] by blast
          ultimately show ?thesis by blast
        qed
      qed
    qed
  qed
qed

lemma re_search_correct:
  assumes "prog_wf re" "first_sound re" "re_search al (Some re) (Some tx) start notbol = (r, re', left, log)"
  obtains re1 where "re' = Some re1" "search_ok re tx notbol (nat start) (r, re1, left, log)"
    "same_code re re1"
proof (cases "(if start < 0 then 0 else start) > int (length tx)")
  case True
  then have gt: "nat start > length tx" by (auto split: if_splits)
  have out: "r = None" "re' = Some (re\<lparr>gave_up := False\<rparr>)" "left = int STEPS_TOTAL" "log = []"
    using assms(3) True by (auto simp: re_search_def split: if_splits)
  have "search_ok re tx notbol (nat start) (r, re\<lparr>gave_up := False\<rparr>, left, log)"
    using gt out by (auto simp: search_ok_def)
  moreover have "same_code re (re\<lparr>gave_up := False\<rparr>)" by (simp add: same_code_def)
  ultimately show ?thesis by (rule that [OF out(2)])
next
  case False
  let ?re = "re\<lparr>gave_up := False\<rparr>"
  obtain re1 where l: "search_loop al ?re tx notbol (nat (if start < 0 then 0 else start)) (int STEPS_TOTAL) []
      = (r, re1, left, log)" and re': "re' = Some re1"
    using assms(3) False by (auto simp: re_search_def Let_def split: prod.splits)
  have sc: "same_code re ?re" by (simp add: same_code_def)
  have "search_ok ?re tx notbol (nat (if start < 0 then 0 else start)) (r, re1, left, log) \<and> same_code ?re re1"
    using search_loop_correct [OF _ _ _ _ l] assms(1,2) same_code_wf [OF sc] first_sound_cong [OF sc] by simp
  moreover have "nat (if start < 0 then 0 else start) = nat start" by simp
  ultimately show ?thesis
    using that [OF re'] same_code_trans [OF sc] same_code_matches [OF sc] by (simp add: search_ok_def)
qed

section \<open>A compiled pattern evaluated\<close>

lemma run_loop_pos:
  "0 < n \<Longrightarrow> run_loop n al re tx notbol steps m =
     (case exec al re tx notbol m of
        Running m' \<Rightarrow> run_loop (n - 1) al re tx notbol (steps + 1) m'
      | Accepted \<Rightarrow> (Matched, steps + 1, m)
      | OutOfRoom \<Rightarrow> (NoRoom, steps + 1, m)
      | Broken \<Rightarrow> (Crash, steps + 1, m)
      | Blocked \<Rightarrow>
          (case vst m of
             [] \<Rightarrow> (NoMatch, steps + 1, m)
           | (pc, sp, j) # st \<Rightarrow>
               (let (sv, jr) = undo (vsv m) (vjr m) j
                in run_loop (n - 1) al re tx notbol (steps + 1)
                     (m\<lparr>vpc := pc, vsp := sp, vsv := sv, vst := st, vjr := jr\<rparr>))))"
  by (cases n) (auto split: outcome.splits list.splits)

lemmas search_eval = re_search_def search_loop.simps skip_first.simps run_def run_loop_pos vm_start_def
  exec_def go_def journal_room_def stack_room_def double_to.simps ST_MAX_def JR_MAX_def Let_def ch_def STEPS_PER_START_def
  STEPS_TOTAL_def RE_MAX_CAPS_def RE_MAX_GROUPS_def

definition ab_code :: lpre where
  "ab_code = (lpre_init False)\<lparr>prog := [I_SAVE 0, I_CHAR 97, I_CHAR 98, I_SAVE 1, I_MATCH], cap := 32,
     save := replicate 20 0, has_first := True, first := set_add set_empty 97\<rparr>"

lemma ab_compiled: "re_compile (\<lambda>_. True) (Some (cs ''ab'')) True False = Inr ab_code"
  by code_simp

lemma ab_first: "set_has (first ab_code) b \<longleftrightarrow> b mod 256 = 97"
  by (auto simp: ab_code_def set_has_add)

lemma ab_simps: "prog ab_code = [I_SAVE 0, I_CHAR 97, I_CHAR 98, I_SAVE 1, I_MATCH]"
  "has_first ab_code" "stcap ab_code = 0" "jrcap ab_code = 0" "nreg ab_code = 0" "\<not> icase ab_code"
  by (simp_all add: ab_code_def lpre_init_def)
text \<open>\<open>ab\<close> is found in \<open>xab\<close> at offset 1, and the attempts are logged.\<close>

lemma ab_search:
  "\<exists>caps re left. re_search (\<lambda>_. True) (Some ab_code) (Some [120, 97, 98]) 0 False =
     (Some caps, re, left, [(1, Matched)]) \<and> caps ! 0 = 1 \<and> caps ! 1 = 3"
  by (simp add: search_eval ab_first ab_simps)

text \<open>
  C1: \<open>re_search\<close> on a compiled pattern.  It never reads outside an array and never spends
  more than its total budget of steps and one.  A match it reports starts at or after
  \<open>from\<close>, is a match of the program's nondeterministic machine with those captures, and no
  earlier offset matches unless the attempt there ran out of steps or of stack; so the
  first-byte test never skips a match.  When it reports none, has not given up and no
  attempt ran out of stack, there is no match at any offset.
\<close>

theorem re_search_leftmost:
  assumes "re_compile al pattern ere ic = Inr re"
    and "re_search al' (Some re) (Some tx) start notbol = (r, re', left, log)"
  shows "(\<forall>caps. r = Some caps \<longrightarrow>
      (\<exists>i sv. nat start \<le> i \<and> i \<le> length tx \<and> matches_from re tx notbol i sv \<and> caps = take RE_MAX_CAPS sv \<and>
        (\<forall>j. nat start \<le> j \<and> j < i \<longrightarrow>
           (j, Exhausted) \<in> set log \<or> (j, NoRoom) \<in> set log \<or> (\<forall>sv. \<not> matches_from re tx notbol j sv)))) \<and>
    (r = None \<and> \<not> re_gave_up re' \<and> (\<forall>j. (j, NoRoom) \<notin> set log) \<longrightarrow>
      (\<forall>j sv. nat start \<le> j \<and> j \<le> length tx \<longrightarrow> \<not> matches_from re tx notbol j sv)) \<and>
    (\<forall>j. (j, Crash) \<notin> set log) \<and> -1 \<le> left"
proof -
  have wf: "prog_wf re" using re_compile_post [of al pattern ere ic] assms(1) by (simp add: compiled_def)
  obtain re1 where re': "re' = Some re1" and ok: "search_ok re tx notbol (nat start) (r, re1, left, log)"
    by (rule re_search_correct [OF wf re_compile_first [OF assms(1)] assms(2)])
  show ?thesis
    using ok unfolding search_ok_def prod.case re' re_gave_up_def option.case by blast
qed

theorem re_search_leftmost_witness:
  "\<exists>caps re left i sv. re_search (\<lambda>_. True) (Some ab_code) (Some [120, 97, 98]) 0 False =
     (Some caps, re, left, [(1, Matched)]) \<and> caps ! 0 = 1 \<and> caps ! 1 = 3 \<and>
     matches_from ab_code [120, 97, 98] False i sv \<and> caps = take RE_MAX_CAPS sv"
proof -
  obtain caps re left where s: "re_search (\<lambda>_. True) (Some ab_code) (Some [120, 97, 98]) 0 False =
     (Some caps, re, left, [(1, Matched)])" "caps ! 0 = 1" "caps ! 1 = 3"
    using ab_search by blast
  from re_search_leftmost [OF ab_compiled s(1)]
  obtain i sv where "matches_from ab_code [120, 97, 98] False i sv" "caps = take RE_MAX_CAPS sv" by blast
  with s show ?thesis by blast
qed

text \<open>
  The source says that a backtrack stack at its ceiling ends a search \<open>the same way\<close> as the
  step budget, and \<open>re_gave_up\<close> is there to tell \<open>no match\<close> from \<open>gave up\<close>.  It does not:
  when a stack cannot grow the attempt ends with fewer steps than it was allowed, and
  \<open>gave_up\<close> stays false although the pattern matches.
\<close>

lemma gave_up_misses_stack_ceiling:
  "(case re_search (\<lambda>_. False) (Some ab_code) (Some [97, 98]) 0 False of
      (r, re, _, log) \<Rightarrow> r = None \<and> \<not> re_gave_up re \<and> (0, NoRoom) \<in> set log) \<and>
   (\<exists>sv. matches_from ab_code [97, 98] False 0 sv)"
proof
  show "case re_search (\<lambda>_. False) (Some ab_code) (Some [97, 98]) 0 False of
      (r, re, _, log) \<Rightarrow> r = None \<and> \<not> re_gave_up re \<and> (0, NoRoom) \<in> set log"
    by (simp add: search_eval ab_first ab_simps re_gave_up_def)
  have wf: "prog_wf ab_code" using re_compile_post ab_compiled by (metis compiled_def post_simps(2))
  obtain v used re' where r: "run (\<lambda>_. True) ab_code [97, 98] 0 False 10 = (v, used, re')"
    by (metis prod_cases3)
  have "v = Matched" using r by (auto simp: search_eval ab_simps)
  with run_facts [OF wf _ r] show "\<exists>sv. matches_from ab_code [97, 98] False 0 sv" by auto
qed

end
