(* ===== verification/LpMalloc.thy ===== *)
theory LpMalloc
  imports LpString
begin

text \<open>
  The C library's allocator and environment (\<open>userland/libc/src/malloc.c\<close>).  The block list
  is a list of its headers in link order; \<open>ram\<close> holds the payload bytes.  Addresses and sizes
  are natural numbers below \<open>2^64\<close> with the source's wrap-around written out.  The kernel's
  \<open>brk\<close> is a parameter: a function from a kernel state and a request to the new break.
\<close>

section \<open>The heap\<close>

definition W :: nat where "W = 2 ^ 64"
definition HDR_SIZE :: nat where "HDR_SIZE = 24"
definition GROW_MIN :: nat where "GROW_MIN = 64 * 1024"

definition ALIGN_UP :: "nat \<Rightarrow> nat" where
  "ALIGN_UP n = ((n + 15) mod W) div 16 * 16"

record block =
  baddr :: nat
  bsize :: nat
  bfree :: bool

record 'k heap =
  blocks :: "block list"
  brk_cur :: nat
  kern :: 'k
  ram :: mem

type_synonym 'k brk_call = "'k \<Rightarrow> nat \<Rightarrow> nat \<times> 'k"

text \<open>The first call asks for the current break; a result that is not positive as a \<open>long\<close> fails.\<close>

definition brk_known :: "'k brk_call \<Rightarrow> 'k heap \<Rightarrow> bool \<times> 'k heap" where
  "brk_known sys h =
     (if brk_cur h = 0 then
        (let (cur, k) = sys (kern h) 0 in
         if cur = 0 \<or> cur \<ge> 2 ^ 63 then (False, h\<lparr>kern := k\<rparr>)
         else (True, h\<lparr>brk_cur := cur, kern := k\<rparr>))
      else (True, h))"

definition heap_grow :: "'k brk_call \<Rightarrow> 'k heap \<Rightarrow> nat \<Rightarrow> nat option \<times> 'k heap" where
  "heap_grow sys h need =
     (let (ok, h) = brk_known sys h in
      if \<not> ok then (None, h)
      else
        (let grow = (if need < GROW_MIN then GROW_MIN else ALIGN_UP need);
             want = (brk_cur h + grow) mod W;
             (got, k) = sys (kern h) want
         in if got < want then (None, h\<lparr>kern := k\<rparr>)
            else (Some (brk_cur h), h\<lparr>brk_cur := got, kern := k\<rparr>)))"

text \<open>First fit: the payload address and the list with the block taken and perhaps split.\<close>

fun first_fit :: "nat \<Rightarrow> block list \<Rightarrow> (nat \<times> block list) option" where
  "first_fit n [] = None"
| "first_fit n (b # bs) =
     (if \<not> bfree b \<or> bsize b < n then
        (case first_fit n bs of None \<Rightarrow> None | Some (p, bs') \<Rightarrow> Some (p, b # bs'))
      else if bsize b \<ge> (n + HDR_SIZE + 16) mod W then
        Some (baddr b + HDR_SIZE,
              b\<lparr>bsize := n, bfree := False\<rparr>
              # \<lparr>baddr = (baddr b + HDR_SIZE + n) mod W,
                 bsize = (bsize b + 2 * W - n - HDR_SIZE) mod W, bfree = True\<rparr> # bs)
      else Some (baddr b + HDR_SIZE, b\<lparr>bfree := False\<rparr> # bs))"

definition malloc :: "'k brk_call \<Rightarrow> 'k heap \<Rightarrow> nat \<Rightarrow> nat option \<times> 'k heap" where
  "malloc sys h n =
     (if n = 0 then (None, h)
      else
        (let n = ALIGN_UP n in
         case first_fit n (blocks h) of
           Some (p, bs) \<Rightarrow> (Some p, h\<lparr>blocks := bs\<rparr>)
         | None \<Rightarrow>
             (case heap_grow sys h ((n + HDR_SIZE) mod W) of
                (None, h) \<Rightarrow> (None, h)
              | (Some mem, h) \<Rightarrow>
                  (let b = \<lparr>baddr = mem, bsize = n, bfree = False\<rparr>;
                       used = (HDR_SIZE + n) mod W;
                       got = brk_cur h - mem;
                       rest = (if got \<ge> (used + HDR_SIZE + 16) mod W then
                                 [\<lparr>baddr = (mem + used) mod W,
                                   bsize = (got + 2 * W - used - HDR_SIZE) mod W, bfree = True\<rparr>]
                               else [])
                   in (Some (mem + HDR_SIZE), h\<lparr>blocks := blocks h @ b # rest\<rparr>)))))"

text \<open>Merging the free blocks that follow; the block list from \<open>b\<close> on.\<close>

fun merge :: "block \<Rightarrow> block list \<Rightarrow> block list" where
  "merge b [] = [b]"
| "merge b (c # ds) =
     (if bfree c \<and> baddr c = (baddr b + HDR_SIZE + bsize b) mod W
      then merge (b\<lparr>bsize := (bsize b + HDR_SIZE + bsize c) mod W\<rparr>) ds
      else b # c # ds)"

text \<open>The header at an address, or none: then the source writes to memory that is no header.\<close>

fun free_at :: "nat \<Rightarrow> block list \<Rightarrow> block list option" where
  "free_at a [] = None"
| "free_at a (b # bs) =
     (if baddr b = a then Some (merge (b\<lparr>bfree := True\<rparr>) bs)
      else (case free_at a bs of None \<Rightarrow> None | Some bs' \<Rightarrow> Some (b # bs')))"

text \<open>\<open>p = 0\<close> is the null pointer.  The result is \<open>None\<close> for a pointer that is no payload.\<close>

definition free :: "'k heap \<Rightarrow> nat \<Rightarrow> 'k heap option" where
  "free h p =
     (if p = 0 then Some h
      else if p < HDR_SIZE then None
      else (case free_at (p - HDR_SIZE) (blocks h) of
              None \<Rightarrow> None | Some bs \<Rightarrow> Some (h\<lparr>blocks := bs\<rparr>)))"

definition calloc :: "'k brk_call \<Rightarrow> 'k heap \<Rightarrow> nat \<Rightarrow> nat \<Rightarrow> nat option \<times> 'k heap" where
  "calloc sys h count sz =
     (if count \<noteq> 0 \<and> sz > (W - 1) div count then (None, h)
      else
        (let total = count * sz in
         case malloc sys h total of
           (None, h) \<Rightarrow> (None, h)
         | (Some p, h) \<Rightarrow> (Some p, h\<lparr>ram := memset (ram h) p 0 total\<rparr>)))"

fun block_at :: "nat \<Rightarrow> block list \<Rightarrow> block option" where
  "block_at a [] = None"
| "block_at a (b # bs) = (if baddr b = a then Some b else block_at a bs)"

definition realloc :: "'k brk_call \<Rightarrow> 'k heap \<Rightarrow> nat \<Rightarrow> nat \<Rightarrow> (nat option \<times> 'k heap) option" where
  "realloc sys h p n =
     (if p = 0 then Some (malloc sys h n)
      else if n = 0 then (case free h p of None \<Rightarrow> None | Some h \<Rightarrow> Some (None, h))
      else if p < HDR_SIZE then None
      else
        (case block_at (p - HDR_SIZE) (blocks h) of
           None \<Rightarrow> None
         | Some b \<Rightarrow>
             if bsize b \<ge> n then Some (Some p, h)
             else
               (case malloc sys h n of
                  (None, h) \<Rightarrow> Some (None, h)
                | (Some np, h) \<Rightarrow>
                    (case free (h\<lparr>ram := memcpy (ram h) np p (bsize b)\<rparr>) p of
                       None \<Rightarrow> None | Some h \<Rightarrow> Some (Some np, h)))))"

section \<open>The invariant of the block list\<close>

text \<open>
  Blocks from \<open>lo\<close> to \<open>hi\<close> in address order, none overlapping the next: each has its header,
  and a payload of at least 16 bytes.
\<close>

fun laid :: "nat \<Rightarrow> block list \<Rightarrow> nat \<Rightarrow> bool" where
  "laid lo [] hi \<longleftrightarrow> lo \<le> hi"
| "laid lo (b # bs) hi \<longleftrightarrow> lo \<le> baddr b \<and> 16 \<le> bsize b \<and> laid (baddr b + HDR_SIZE + bsize b) bs hi"

definition USER_TOP :: nat where "USER_TOP = 2 ^ 47"

definition heap_inv :: "'k heap \<Rightarrow> bool" where
  "heap_inv h \<longleftrightarrow> laid 0 (blocks h) (brk_cur h) \<and> brk_cur h \<le> USER_TOP"

text \<open>Documented behaviour of the kernel: the break of a process is a user-space address.\<close>

definition brk_user :: "'k brk_call \<Rightarrow> bool" where
  "brk_user sys \<longleftrightarrow> (\<forall>k x. fst (sys k x) \<le> USER_TOP)"

text \<open>What the client holds: the payloads of the blocks that are not free.\<close>

definition live :: "'k heap \<Rightarrow> (nat \<times> nat) set" where
  "live h = {(baddr b + HDR_SIZE, bsize b) |b. b \<in> set (blocks h) \<and> \<not> bfree b}"

definition live_of :: "block list \<Rightarrow> (nat \<times> nat) set" where
  "live_of bs = {(baddr b + HDR_SIZE, bsize b) |b. b \<in> set bs \<and> \<not> bfree b}"

lemma live_live_of: "live h = live_of (blocks h)"
  by (simp add: live_def live_of_def)

lemma live_of_simps [simp]:
  "live_of [] = {}"
  "live_of (b # bs) = (if bfree b then live_of bs else insert (baddr b + HDR_SIZE, bsize b) (live_of bs))"
  "live_of (bs @ ds) = live_of bs \<union> live_of ds"
  by (auto simp: live_of_def)

lemma laid_mono: "laid lo bs hi \<Longrightarrow> lo' \<le> lo \<Longrightarrow> hi \<le> hi' \<Longrightarrow> laid lo' bs hi'"
  by (induction lo bs hi arbitrary: lo' rule: laid.induct) auto

lemma HDR_SIZE_pos [simp]: "HDR_SIZE \<noteq> 0" "0 < HDR_SIZE"
  by (simp_all add: HDR_SIZE_def)

lemma wrap_sub: "u + v \<le> a \<Longrightarrow> a < W \<Longrightarrow> (a + 2 * W - u - v) mod W = a - u - v"
proof -
  assume a: "u + v \<le> a" "a < W"
  then have "a + 2 * W - u - v = (a - u - v) + 2 * W" by simp
  moreover have "a - u - v < W" using a by simp
  ultimately show ?thesis by (metis mod_less mod_mult_self2 mult.commute)
qed

lemma laid_le: "laid lo bs hi \<Longrightarrow> lo \<le> hi"
  by (induction lo bs hi rule: laid.induct) auto

lemma laid_append: "laid lo (bs @ ds) hi \<longleftrightarrow> (\<exists>mid. laid lo bs mid \<and> laid mid ds hi)"
  by (induction bs arbitrary: lo) (auto intro: laid_mono)

lemma laid_bounds: "laid lo bs hi \<Longrightarrow> b \<in> set bs \<Longrightarrow> lo \<le> baddr b \<and> baddr b + HDR_SIZE + bsize b \<le> hi"
  by (induction lo bs hi rule: laid.induct) (auto dest: laid_le)

lemma live_bounds: "laid lo bs hi \<Longrightarrow> (p, n) \<in> live_of bs \<Longrightarrow> lo + HDR_SIZE \<le> p \<and> p + n \<le> hi"
  using laid_bounds by (fastforce simp: live_of_def)

text \<open>Two payloads, and their headers, never overlap.\<close>

definition apart :: "nat \<times> nat \<Rightarrow> nat \<times> nat \<Rightarrow> bool" where
  "apart x y \<longleftrightarrow> fst x + snd x + HDR_SIZE \<le> fst y \<or> fst y + snd y + HDR_SIZE \<le> fst x"

lemma apart_sym: "apart x y = apart y x"
  by (auto simp: apart_def)

lemma apart_irrefl [simp]: "\<not> apart x x"
  by (simp add: apart_def HDR_SIZE_def)

lemma laid_apart:
  "laid lo bs hi \<Longrightarrow> x \<in> live_of bs \<Longrightarrow> y \<in> live_of bs \<Longrightarrow> x \<noteq> y \<Longrightarrow> apart x y"
proof (induction lo bs hi rule: laid.induct)
  case (2 lo b bs hi)
  have "baddr b + HDR_SIZE + bsize b + HDR_SIZE \<le> fst z" if "z \<in> live_of bs" for z
    using live_bounds [of _ bs hi "fst z" "snd z"] 2(2) that by fastforce
  note after = this
  have head: "apart (baddr b + HDR_SIZE, bsize b) z" if "z \<in> live_of bs" for z
    using after [OF that] by (simp add: apart_def)
  have tail: "laid (baddr b + HDR_SIZE + bsize b) bs hi" using 2(2) by simp
  show ?case
    using 2(1) [OF tail] 2(3-5) head head [unfolded apart_sym [of "(baddr b + HDR_SIZE, bsize b)"]]
    by (cases "bfree b"; cases "x \<in> live_of bs"; cases "y \<in> live_of bs") auto
qed simp

section \<open>The operations keep the list laid out\<close>

lemma ALIGN_UP_bounds:
  assumes "0 < n" "n \<le> 2 ^ 62"
  shows "n \<le> ALIGN_UP n" "16 \<le> ALIGN_UP n" "ALIGN_UP n \<le> n + 15" "16 dvd ALIGN_UP n"
proof -
  have e: "ALIGN_UP n = (n + 15) div 16 * 16" using assms by (simp add: ALIGN_UP_def W_def)
  have "16 * ((n + 15) div 16) + (n + 15) mod 16 = n + 15" by simp
  moreover have "(n + 15) mod 16 < 16" by simp
  ultimately show "n \<le> ALIGN_UP n" "ALIGN_UP n \<le> n + 15" unfolding e by linarith+
  show "16 dvd ALIGN_UP n" unfolding e by simp
  have "1 \<le> (n + 15) div 16" using assms(1) by (simp add: Suc_le_eq div_greater_zero_iff)
  then show "16 \<le> ALIGN_UP n" unfolding e by simp
qed

text \<open>What an allocation does to the list: one more payload, apart from all the others.\<close>

definition grown :: "nat \<Rightarrow> nat \<Rightarrow> (nat \<times> nat) set \<Rightarrow> (nat \<times> nat) set \<Rightarrow> bool" where
  "grown p n L L' \<longleftrightarrow> (\<exists>s \<ge> n. L' = insert (p, s) L \<and> (\<forall>x \<in> L. apart (p, s) x))"

lemma first_fit_grown:
  "first_fit n bs = Some (p, bs') \<Longrightarrow> laid lo bs hi \<Longrightarrow> hi \<le> USER_TOP \<Longrightarrow> 16 \<le> n \<Longrightarrow>
     laid lo bs' hi \<and> grown p n (live_of bs) (live_of bs') \<and> lo + HDR_SIZE \<le> p"
proof (induction n bs arbitrary: lo bs' rule: first_fit.induct)
  case (2 n b bs)
  have b: "lo \<le> baddr b" "16 \<le> bsize b" "laid (baddr b + HDR_SIZE + bsize b) bs hi"
    using "2.prems"(2) by auto
  have top: "baddr b + HDR_SIZE + bsize b \<le> 2 ^ 47"
    using laid_le [OF b(3)] "2.prems"(3) by (simp add: USER_TOP_def)
  show ?case
  proof (cases "\<not> bfree b \<or> bsize b < n")
    case True
    obtain bs1 where bs1: "first_fit n bs = Some (p, bs1)" "bs' = b # bs1"
      using True "2.prems"(1) by (auto split: option.splits)
    note IH = "2.IH" [OF True bs1(1) b(3) "2.prems"(3,4)]
    then obtain s where s: "s \<ge> n" "live_of bs1 = insert (p, s) (live_of bs)" "\<forall>x \<in> live_of bs. apart (p, s) x"
      and lo: "baddr b + HDR_SIZE + bsize b + HDR_SIZE \<le> p" by (auto simp: grown_def)
    have "apart (p, s) (baddr b + HDR_SIZE, bsize b)" using lo by (simp add: apart_def)
    then show ?thesis
      using s lo b IH unfolding bs1(2) grown_def
      by (auto intro!: exI [of _ s])
  next
    case False
    then have bf: "bfree b" "n \<le> bsize b" by auto
    have after: "baddr b + HDR_SIZE + bsize b + HDR_SIZE \<le> fst x" if "x \<in> live_of bs" for x
      using live_bounds [OF b(3), of "fst x" "snd x"] that by simp
    have ap: "apart (baddr b + HDR_SIZE, s) x" if "s \<le> bsize b" "x \<in> live_of bs" for s x
      using after [OF that(2)] that(1) by (simp add: apart_def)
    have n47: "n \<le> 2 ^ 47" using bf(2) top by simp
    then have m: "(n + HDR_SIZE + 16) mod W = n + HDR_SIZE + 16" by (simp add: W_def HDR_SIZE_def)
    show ?thesis
    proof (cases "bsize b \<ge> n + HDR_SIZE + 16")
      case True
      have a: "(baddr b + HDR_SIZE + n) mod W = baddr b + HDR_SIZE + n"
        using top bf(2) by (simp add: W_def HDR_SIZE_def)
      have z: "(bsize b + 2 * W - n - HDR_SIZE) mod W = bsize b - n - HDR_SIZE"
        by (rule wrap_sub) (use True top in \<open>simp_all add: W_def\<close>)
      have out: "p = baddr b + HDR_SIZE" "bs' = b\<lparr>bsize := n, bfree := False\<rparr> #
          \<lparr>baddr = baddr b + HDR_SIZE + n, bsize = bsize b - n - HDR_SIZE, bfree = True\<rparr> # bs"
        using "2.prems"(1) False m True a z by (auto simp del: mod_mult_self2)
      have "baddr b + HDR_SIZE + n + HDR_SIZE + (bsize b - n - HDR_SIZE) = baddr b + HDR_SIZE + bsize b"
        using True by simp
      then show ?thesis
        using b "2.prems"(4) True ap [of n] bf unfolding out grown_def by (auto simp: add.assoc)
    next
      case F: False
      then have out: "p = baddr b + HDR_SIZE" "bs' = b\<lparr>bfree := False\<rparr> # bs"
        using "2.prems"(1) False m by auto
      show ?thesis using b ap [of "bsize b"] bf unfolding out grown_def by auto
    qed
  qed
qed simp

lemma brk_known_facts:
  assumes "brk_known sys h = (ok, h')" "brk_user sys" "heap_inv h"
  shows "heap_inv h' \<and> blocks h' = blocks h \<and> ram h' = ram h \<and> brk_cur h \<le> brk_cur h' \<and> (ok \<longrightarrow> 0 < brk_cur h')"
proof (cases "brk_cur h = 0")
  case True
  obtain cur k where s: "sys (kern h) 0 = (cur, k)" by (cases "sys (kern h) 0")
  have "cur \<le> USER_TOP" using assms(2) s by (metis brk_user_def fst_conv)
  then show ?thesis
    using assms(1,3) True s
    by (auto simp: brk_known_def heap_inv_def intro: laid_mono split: if_splits)
next
  case False
  then show ?thesis using assms by (auto simp: brk_known_def)
qed

lemma heap_grow_facts:
  assumes "heap_grow sys h need = (r, h')" "brk_user sys" "heap_inv h" "0 < need" "need \<le> 2 ^ 62"
  shows "heap_inv h' \<and> blocks h' = blocks h \<and> ram h' = ram h \<and>
     (\<forall>old. r = Some old \<longrightarrow> 0 < old \<and> laid 0 (blocks h) old \<and> old + need \<le> brk_cur h')"
proof -
  obtain ok h1 where k: "brk_known sys h = (ok, h1)" by (cases "brk_known sys h")
  note f = brk_known_facts [OF k assms(2,3)]
  let ?grow = "if need < GROW_MIN then GROW_MIN else ALIGN_UP need"
  have grow: "need \<le> ?grow" "?grow \<le> need + GROW_MIN"
    using ALIGN_UP_bounds [OF assms(4,5)] by (auto simp: GROW_MIN_def)
  have lt: "brk_cur h1 + ?grow < W"
    using f grow(2) assms(5) by (auto simp: heap_inv_def USER_TOP_def W_def GROW_MIN_def)
  obtain got k1 where s: "sys (kern h1) (brk_cur h1 + ?grow) = (got, k1)"
    by (cases "sys (kern h1) (brk_cur h1 + ?grow)")
  have "got \<le> USER_TOP" using assms(2) s by (metis brk_user_def fst_conv)
  then show ?thesis
    using assms(1) k f grow(1) lt s
    by (auto simp: heap_grow_def Let_def heap_inv_def intro: laid_mono split: if_splits)
qed

lemma malloc_facts:
  assumes "malloc sys h n = (r, h')" "brk_user sys" "heap_inv h" "n \<le> 2 ^ 61"
  shows "heap_inv h' \<and> ram h' = ram h \<and> (r = None \<longrightarrow> live h' = live h) \<and>
     (\<forall>p. r = Some p \<longrightarrow> 0 < p \<and> 0 < n \<and> grown p n (live h) (live h'))"
proof (cases "n = 0")
  case True
  then show ?thesis using assms by (auto simp: malloc_def)
next
  case False
  let ?n = "ALIGN_UP n"
  have n: "n \<le> ?n" "16 \<le> ?n" "?n \<le> n + 15" using ALIGN_UP_bounds [of n] False assms(4) by auto
  show ?thesis
  proof (cases "first_fit ?n (blocks h)")
    case (Some x)
    obtain p bs where x: "x = (p, bs)" by (cases x)
    have out: "r = Some p" "h' = h\<lparr>blocks := bs\<rparr>"
      using assms(1) False Some x by (auto simp: malloc_def Let_def)
    have "laid 0 bs (brk_cur h) \<and> grown p ?n (live_of (blocks h)) (live_of bs) \<and> HDR_SIZE \<le> p"
      using first_fit_grown [of ?n "blocks h" p bs 0 "brk_cur h"] Some x n assms(3)
      by (simp add: heap_inv_def)
    then show ?thesis
      using assms(3) n(1) False unfolding out
      by (auto simp: heap_inv_def live_live_of grown_def HDR_SIZE_def intro: order_trans)
  next
    case None
    have m: "(?n + HDR_SIZE) mod W = ?n + HDR_SIZE" "(HDR_SIZE + ?n) mod W = HDR_SIZE + ?n"
      "(HDR_SIZE + ?n + HDR_SIZE + 16) mod W = HDR_SIZE + ?n + HDR_SIZE + 16"
      using n(3) assms(4) by (simp_all add: W_def HDR_SIZE_def)
    obtain g h1 where g: "heap_grow sys h (?n + HDR_SIZE) = (g, h1)" by (cases "heap_grow sys h (?n + HDR_SIZE)")
    have need: "0 < ?n + HDR_SIZE" "?n + HDR_SIZE \<le> 2 ^ 62" using n assms(4) by (auto simp: HDR_SIZE_def)
    note gf = heap_grow_facts [OF g assms(2,3) need]
    show ?thesis
    proof (cases g)
      case gN: None
      then show ?thesis using assms(1) False None g m gf by (auto simp: malloc_def Let_def live_live_of)
    next
      case (Some mem)
      let ?got = "brk_cur h1 - mem" and ?used = "HDR_SIZE + ?n"
      let ?b = "\<lparr>baddr = mem, bsize = ?n, bfree = False\<rparr>"
      let ?rest = "if ?got \<ge> ?used + HDR_SIZE + 16
        then [\<lparr>baddr = mem + ?used, bsize = ?got - ?used - HDR_SIZE, bfree = True\<rparr>] else []"
      have old: "0 < mem" "laid 0 (blocks h) mem" "mem + (?n + HDR_SIZE) \<le> brk_cur h1" "blocks h1 = blocks h"
        "brk_cur h1 \<le> 2 ^ 47"
        using gf Some by (auto simp: heap_inv_def USER_TOP_def)
      have w: "(mem + ?used) mod W = mem + ?used" using old by (simp add: W_def)
      have z: "(?got + 2 * W - ?used - HDR_SIZE) mod W = ?got - ?used - HDR_SIZE" if "?got \<ge> ?used + HDR_SIZE + 16"
        by (rule wrap_sub) (use that old(5) in \<open>simp_all add: W_def\<close>)
      have out: "r = Some (mem + HDR_SIZE)" "h' = h1\<lparr>blocks := blocks h @ ?b # ?rest\<rparr>"
        using assms(1) False None g m Some w z old(4) by (auto simp: malloc_def Let_def simp del: mod_mult_self2)
      have lay: "laid mem (?b # ?rest) (brk_cur h1)"
        using old n(2) by auto
      have ap: "apart (mem + HDR_SIZE, ?n) x" if "x \<in> live_of (blocks h)" for x
        using live_bounds [OF old(2), of "fst x" "snd x"] that by (simp add: apart_def)
      have "laid 0 (blocks h @ ?b # ?rest) (brk_cur h1)"
        using old(2) lay by (auto simp: laid_append simp del: laid.simps)
      moreover have "live_of (blocks h @ ?b # ?rest) = insert (mem + HDR_SIZE, ?n) (live_of (blocks h))"
        by simp
      ultimately show ?thesis
        using gf n(1) old(1) False ap unfolding out
        by (auto simp: heap_inv_def live_live_of grown_def)
    qed
  qed
qed

lemma merge_facts:
  "laid lo (b # bs) hi \<Longrightarrow> hi \<le> USER_TOP \<Longrightarrow> bfree b \<Longrightarrow>
     laid lo (merge b bs) hi \<and> live_of (merge b bs) = live_of bs"
proof (induction b bs rule: merge.induct)
  case (2 b c cs)
  have top: "baddr b + HDR_SIZE + bsize b \<le> baddr c" "baddr c + HDR_SIZE + bsize c \<le> 2 ^ 47"
    using "2.prems" by (auto simp: USER_TOP_def dest: laid_le)
  have m: "(baddr b + HDR_SIZE + bsize b) mod W = baddr b + HDR_SIZE + bsize b"
    "(bsize b + HDR_SIZE + bsize c) mod W = bsize b + HDR_SIZE + bsize c"
    using top by (simp_all add: W_def)
  show ?case
  proof (cases "bfree c \<and> baddr c = baddr b + HDR_SIZE + bsize b")
    case True
    then have t: "bfree c" "baddr c = baddr b + HDR_SIZE + bsize b" by auto
    let ?b = "b\<lparr>bsize := bsize b + HDR_SIZE + bsize c\<rparr>"
    have "laid lo (?b # cs) hi" using "2.prems"(1) t by (simp add: algebra_simps)
    then have "laid lo (merge ?b cs) hi \<and> live_of (merge ?b cs) = live_of cs"
      using "2.IH" "2.prems"(2,3) True m by simp
    then show ?thesis using t m by simp
  next
    case False
    then show ?thesis using "2.prems" m by auto
  qed
qed simp

lemma free_at_facts:
  "laid lo bs hi \<Longrightarrow> hi \<le> USER_TOP \<Longrightarrow> (a + HDR_SIZE, n) \<in> live_of bs \<Longrightarrow>
     \<exists>bs'. free_at a bs = Some bs' \<and> laid lo bs' hi \<and> live_of bs' = live_of bs - {(a + HDR_SIZE, n)}"
proof (induction lo bs hi rule: laid.induct)
  case (2 lo b bs hi)
  have tail: "laid (baddr b + HDR_SIZE + bsize b) bs hi" using "2.prems"(1) by simp
  have after: "baddr b + HDR_SIZE + bsize b + HDR_SIZE \<le> fst x" if "x \<in> live_of bs" for x
    using live_bounds [OF tail, of "fst x" "snd x"] that by simp
  show ?case
  proof (cases "baddr b = a")
    case True
    have "laid lo (b\<lparr>bfree := True\<rparr> # bs) hi" using "2.prems"(1) by simp
    note mf = merge_facts [OF this "2.prems"(2)]
    have out: "(a + HDR_SIZE, n) \<notin> live_of bs"
      using after [of "(a + HDR_SIZE, n)"] True HDR_SIZE_pos(2) by (auto simp del: HDR_SIZE_pos)
    then have "\<not> bfree b" "n = bsize b" using "2.prems"(3) by (auto split: if_splits)
    then show ?thesis using mf True out by simp
  next
    case False
    then have "(a + HDR_SIZE, n) \<in> live_of bs" using "2.prems"(3) by (auto split: if_splits)
    then obtain bs' where "free_at a bs = Some bs'" "laid (baddr b + HDR_SIZE + bsize b) bs' hi"
        "live_of bs' = live_of bs - {(a + HDR_SIZE, n)}"
      using "2.IH"[OF tail "2.prems"(2)] by blast
    then show ?thesis using False "2.prems"(1) by (simp add: insert_Diff_if)
  qed
qed simp

lemma block_at_facts:
  "laid lo bs hi \<Longrightarrow> (a + HDR_SIZE, n) \<in> live_of bs \<Longrightarrow> \<exists>b. block_at a bs = Some b \<and> bsize b = n"
proof (induction lo bs hi rule: laid.induct)
  case (2 lo b bs hi)
  have tail: "laid (baddr b + HDR_SIZE + bsize b) bs hi" using "2.prems"(1) by simp
  have after: "baddr b + HDR_SIZE + bsize b + HDR_SIZE \<le> fst x" if "x \<in> live_of bs" for x
    using live_bounds [OF tail, of "fst x" "snd x"] that by simp
  show ?case
    using "2.IH" [OF tail] "2.prems"(2) after [of "(a + HDR_SIZE, n)"] by (auto split: if_splits)
qed simp

lemma live_pointer: "heap_inv h \<Longrightarrow> (p, n) \<in> live h \<Longrightarrow> HDR_SIZE \<le> p \<and> 0 < p \<and> p - HDR_SIZE + HDR_SIZE = p"
  using live_bounds [of 0 "blocks h" "brk_cur h" p n] by (auto simp: heap_inv_def live_live_of HDR_SIZE_def)

lemma free_facts:
  assumes "heap_inv h" "(p, n) \<in> live h"
  obtains h' where "free h p = Some h'" "heap_inv h'" "live h' = live h - {(p, n)}" "ram h' = ram h"
proof -
  note p = live_pointer [OF assms]
  have "laid 0 (blocks h) (brk_cur h)" "brk_cur h \<le> USER_TOP" using assms(1) by (auto simp: heap_inv_def)
  moreover have "(p - HDR_SIZE + HDR_SIZE, n) \<in> live_of (blocks h)" using assms(2) p by (simp add: live_live_of)
  ultimately obtain bs where "free_at (p - HDR_SIZE) (blocks h) = Some bs" "laid 0 bs (brk_cur h)"
      "live_of bs = live_of (blocks h) - {(p, n)}"
    using free_at_facts p by metis
  then show ?thesis
    using that [of "h\<lparr>blocks := bs\<rparr>"] p assms(1) by (simp add: free_def heap_inv_def live_live_of)
qed

lemma live_apart: "heap_inv h \<Longrightarrow> x \<in> live h \<Longrightarrow> y \<in> live h \<Longrightarrow> x \<noteq> y \<Longrightarrow> apart x y"
  using laid_apart [of 0 "blocks h" "brk_cur h" x y] by (simp add: heap_inv_def live_live_of)

text \<open>The bytes of a payload.\<close>

definition payload :: "mem \<Rightarrow> nat \<times> nat \<Rightarrow> u8 list" where
  "payload m x = map (\<lambda>i. m (fst x + i)) [0..<snd x]"

lemma payload_outside: "apart x y \<Longrightarrow> payload (copied m (fst x) s (snd x)) y = payload m y"
  by (auto simp: payload_def apart_def copied_def)

section \<open>The allocator as an interface\<close>

text \<open>
  What the clients of an allocator rely on: \<open>acquire\<close> and \<open>release\<close> keep the invariant, an
  allocation adds one payload apart from those that are held, releasing one removes just it,
  and neither touches the bytes.
\<close>

locale allocator =
  fixes acquire :: "'h \<Rightarrow> nat \<Rightarrow> nat option \<times> 'h"
    and release :: "'h \<Rightarrow> nat \<Rightarrow> 'h option"
    and ok :: "'h \<Rightarrow> bool" and held :: "'h \<Rightarrow> (nat \<times> nat) set" and bytes :: "'h \<Rightarrow> mem"
    and limit :: nat
  assumes acquire_ok: "acquire h n = (r, h') \<Longrightarrow> ok h \<Longrightarrow> n \<le> limit \<Longrightarrow>
      ok h' \<and> bytes h' = bytes h \<and> (r = None \<longrightarrow> held h' = held h) \<and>
      (\<forall>p. r = Some p \<longrightarrow> p \<noteq> 0 \<and> grown p n (held h) (held h'))"
    and release_ok: "ok h \<Longrightarrow> (p, n) \<in> held h \<Longrightarrow>
      \<exists>h'. release h p = Some h' \<and> ok h' \<and> held h' = held h - {(p, n)} \<and> bytes h' = bytes h"
begin

lemma grownD: "grown p n L L' \<Longrightarrow> \<exists>s \<ge> n. L' = insert (p, s) L \<and> (p, s) \<notin> L"
  unfolding grown_def using apart_irrefl by blast

text \<open>Giving back what was just taken leaves the client with what it had.\<close>

lemma acquire_release:
  assumes "acquire h n = (Some p, h')" "ok h" "n \<le> limit"
  shows "\<exists>h''. release h' p = Some h'' \<and> ok h'' \<and> held h'' = held h \<and> bytes h'' = bytes h"
proof -
  obtain s where s: "held h' = insert (p, s) (held h)" "(p, s) \<notin> held h"
    using grownD acquire_ok [OF assms] by metis
  then show ?thesis using release_ok [of h' p s] acquire_ok [OF assms] by auto
qed

text \<open>Taking a second block, copying the first into it and giving the first back.\<close>

lemma replace:
  assumes "acquire h n = (Some q, h')" "ok h" "n \<le> limit" "(p, s) \<in> held h"
  shows "\<exists>h'' z. release h' p = Some h'' \<and> ok h'' \<and> n \<le> z \<and> apart (q, z) (p, s) \<and>
    held h'' = insert (q, z) (held h - {(p, s)}) \<and> bytes h'' = bytes h \<and>
    (\<forall>x \<in> held h. apart (q, z) x)"
proof -
  obtain z where z: "n \<le> z" "held h' = insert (q, z) (held h)" "\<forall>x \<in> held h. apart (q, z) x"
    using acquire_ok [OF assms(1-3)] by (auto simp: grown_def)
  have ne: "(q, z) \<noteq> (p, s)" using bspec [OF z(3) assms(4)] by auto
  obtain h'' where h'': "release h' p = Some h''" "ok h''" "held h'' = held h' - {(p, s)}" "bytes h'' = bytes h"
  proof -
    have t: "ok h'" "bytes h' = bytes h" using acquire_ok [OF assms(1-3)] by blast+
    have "(p, s) \<in> held h'" using z(2) assms(4) by blast
    from release_ok [OF t(1) this] show thesis using that t(2) by auto
  qed
  have "held h'' = insert (q, z) (held h - {(p, s)})" using h''(3) z(2) ne by auto
  then show ?thesis
    using h'' z assms(4) by (intro exI [of _ h''] exI [of _ z]) simp
qed

end

interpretation lp: allocator "malloc sys" free "\<lambda>h. heap_inv h \<and> brk_user sys" live ram "2 ^ 61" for sys
proof
  fix h h' :: "'a heap" and n r
  assume "malloc sys h n = (r, h')" "heap_inv h \<and> brk_user sys" "n \<le> 2 ^ 61"
  then show "(heap_inv h' \<and> brk_user sys) \<and> ram h' = ram h \<and> (r = None \<longrightarrow> live h' = live h) \<and>
      (\<forall>p. r = Some p \<longrightarrow> p \<noteq> 0 \<and> grown p n (live h) (live h'))"
    using malloc_facts by blast
next
  fix h :: "'a heap" and p n
  assume "heap_inv h \<and> brk_user sys" "(p, n) \<in> live h"
  then show "\<exists>h'. free h p = Some h' \<and> (heap_inv h' \<and> brk_user sys) \<and> live h' = live h - {(p, n)} \<and> ram h' = ram h"
    using free_facts by metis
qed

lemma memcpy_apart: "apart (q, z) (p, s) \<Longrightarrow> s \<le> z \<Longrightarrow> memcpy m q p s = copied m q p s"
  by (rule memcpy_copied) (auto simp: forward_ok_def apart_def)

section \<open>Properties\<close>

text \<open>
  C20: \<open>malloc\<close> on a heap whose blocks are laid out: the block list stays laid out (in address
  order, no block or header overlapping another, all below the break), no payload byte is
  touched, and a pointer it returns is a new payload of at least the size asked for, apart
  from every payload the program holds; when it returns null, nothing it held has changed.
\<close>

theorem malloc_fresh:
  assumes "heap_inv h" "brk_user sys" "n \<le> 2 ^ 61" "malloc sys h n = (r, h')"
  shows "heap_inv h' \<and> ram h' = ram h \<and> (r = None \<longrightarrow> live h' = live h) \<and>
     (\<forall>p. r = Some p \<longrightarrow> p \<noteq> 0 \<and>
        (\<exists>s \<ge> n. live h' = insert (p, s) (live h) \<and> (\<forall>x \<in> live h. apart (p, s) x)))"
  using lp.acquire_ok [OF assms(4) _ assms(3)] assms(1,2) by (simp add: grown_def)

definition start_heap :: "unit heap" where
  "start_heap = \<lparr>blocks = [\<lparr>baddr = 4096, bsize = 4096 - 24, bfree = True\<rparr>], brk_cur = 8192,
     kern = (), ram = (\<lambda>_. 0)\<rparr>"

definition granting :: "unit brk_call" where
  "granting k x = (if x \<le> USER_TOP then max x 4096 else USER_TOP, k)"

lemma start_heap_ok: "heap_inv start_heap" "brk_user granting"
  by (auto simp: heap_inv_def start_heap_def brk_user_def granting_def USER_TOP_def HDR_SIZE_def)

theorem malloc_fresh_witness:
  "heap_inv (snd (malloc granting start_heap 100)) \<and>
   live (snd (malloc granting start_heap 100)) = {(4120, 112)}"
proof -
  obtain r h where m: "malloc granting start_heap 100 = (r, h)" by (cases "malloc granting start_heap 100")
  have "blocks h = [\<lparr>baddr = 4096, bsize = 112, bfree = False\<rparr>, \<lparr>baddr = 4232, bsize = 3936, bfree = True\<rparr>]"
    using m by (auto simp: malloc_def start_heap_def ALIGN_UP_def W_def HDR_SIZE_def)
  then show ?thesis
    using malloc_fresh [OF start_heap_ok(1,2) _ m] m by (auto simp: live_live_of HDR_SIZE_def)
qed

text \<open>
  \<open>free\<close> of a payload the program holds: the block list stays laid out whatever merging
  takes place, exactly that payload is given up, and no byte changes.  Allocating and giving
  back at once leaves the program with what it held before.
\<close>

theorem free_releases:
  assumes "heap_inv h" "(p, n) \<in> live h"
  shows "\<exists>h'. free h p = Some h' \<and> heap_inv h' \<and> live h' = live h - {(p, n)} \<and> ram h' = ram h"
  using free_facts [OF assms] by metis

theorem free_releases_witness:
  "\<exists>h'. free (snd (malloc granting start_heap 100)) 4120 = Some h' \<and> heap_inv h' \<and> live h' = {}"
proof -
  obtain r h where m: "malloc granting start_heap 100 = (r, h)" by (cases "malloc granting start_heap 100")
  have "blocks h = [\<lparr>baddr = 4096, bsize = 112, bfree = False\<rparr>, \<lparr>baddr = 4232, bsize = 3936, bfree = True\<rparr>]"
    using m by (auto simp: malloc_def start_heap_def ALIGN_UP_def W_def HDR_SIZE_def)
  then have l: "live h = {(4120, 112)}" by (simp add: live_live_of HDR_SIZE_def)
  have "heap_inv h" using lp.acquire_ok [OF m] start_heap_ok by simp
  from free_releases [OF this, of 4120 112] show ?thesis by (auto simp: m l)
qed

text \<open>
  C21: \<open>realloc\<close> to a larger or smaller size keeps the contents: the payload it returns holds
  at least the size asked for and begins with the old bytes, every other payload of the
  program keeps its bytes and its place, and the old payload is given up when it moved.  When
  there is no memory the old payload is still there.
\<close>

theorem realloc_keeps_contents:
  assumes "heap_inv h" "brk_user sys" "0 < n" "n \<le> 2 ^ 61" "(p, s) \<in> live h"
  shows "\<exists>r h'. realloc sys h p n = Some (r, h') \<and> heap_inv h' \<and>
     (case r of
        None \<Rightarrow> live h' = live h \<and> ram h' = ram h
      | Some q \<Rightarrow> \<exists>z. n \<le> z \<and> live h' = insert (q, z) (live h - {(p, s)}) \<and>
          (\<forall>i. i < s \<longrightarrow> ram h' (q + i) = ram h (p + i)) \<and>
          (\<forall>x \<in> live h - {(p, s)}. payload (ram h') x = payload (ram h) x))"
proof -
  note p = live_pointer [OF assms(1,5)]
  have "laid 0 (blocks h) (brk_cur h)" using assms(1) by (simp add: heap_inv_def)
  then obtain b where b: "block_at (p - HDR_SIZE) (blocks h) = Some b" "bsize b = s"
    using block_at_facts [of 0 "blocks h" "brk_cur h" "p - HDR_SIZE" s] assms(5) p by (auto simp: live_live_of)
  show ?thesis
  proof (cases "s \<ge> n")
    case True
    then have "realloc sys h p n = Some (Some p, h)"
      using b p assms(3) by (simp add: realloc_def)
    then show ?thesis using assms(1,5) True by (auto intro!: exI [of _ s])
  next
    case False
    obtain r h1 where m: "malloc sys h n = (r, h1)" by (cases "malloc sys h n")
    have pre: "heap_inv h \<and> brk_user sys" using assms(1,2) by simp
    note mf = lp.acquire_ok [OF m pre assms(4)]
    show ?thesis
    proof (cases r)
      case None
      then have "realloc sys h p n = Some (None, h1)"
        using b p assms(3) False m by (simp add: realloc_def)
      then show ?thesis using mf None by auto
    next
      case (Some q)
      from lp.replace [OF m [unfolded Some] pre assms(4,5)] obtain h2 z where h2: "free h1 p = Some h2"
        "heap_inv h2" "n \<le> z" "apart (q, z) (p, s)" "live h2 = insert (q, z) (live h - {(p, s)})"
        "ram h2 = ram h" "\<forall>x \<in> live h. apart (q, z) x" by blast
      let ?m = "copied (ram h) q p s"
      have cp: "memcpy (ram h1) q p s = ?m"
        using memcpy_apart [OF h2(4)] False h2(3) mf by simp
      have "free (h1\<lparr>ram := ?m\<rparr>) p = Some (h2\<lparr>ram := ?m\<rparr>)"
        using h2(1) p by (auto simp: free_def split: option.splits)
      then have out: "realloc sys h p n = Some (Some q, h2\<lparr>ram := ?m\<rparr>)"
        using b p assms(3) False m Some cp by (simp add: realloc_def)
      have keep: "payload ?m x = payload (ram h) x" if "x \<in> live h" for x
      proof -
        have "apart (q, s) x"
          using h2(7) that False h2(3) by (fastforce simp: apart_def)
        from payload_outside [OF this, of "ram h" p] show ?thesis by simp
      qed
      have "\<forall>i. i < s \<longrightarrow> ?m (q + i) = ram h (p + i)" by (simp add: copied_def)
      moreover have "heap_inv (h2\<lparr>ram := ?m\<rparr>)" "live (h2\<lparr>ram := ?m\<rparr>) = live h2"
        using h2(2) by (simp_all add: heap_inv_def live_def)
      ultimately show ?thesis
        unfolding out using h2(3,5) keep
        by (intro exI [of _ "Some q"] exI [of _ "h2\<lparr>ram := ?m\<rparr>"]) (auto intro!: exI [of _ z])
    qed
  qed
qed

theorem realloc_keeps_contents_witness:
  "\<exists>q h'. realloc granting (snd (malloc granting start_heap 100)) 4120 200 = Some (Some q, h') \<and> heap_inv h' \<and> q \<noteq> 4120"
proof -
  obtain r h where m: "malloc granting start_heap 100 = (r, h)" by (cases "malloc granting start_heap 100")
  have b: "blocks h = [\<lparr>baddr = 4096, bsize = 112, bfree = False\<rparr>, \<lparr>baddr = 4232, bsize = 3936, bfree = True\<rparr>]"
    using m by (auto simp: malloc_def start_heap_def ALIGN_UP_def W_def HDR_SIZE_def)
  then have l: "(4120, 112) \<in> live h" by (simp add: live_live_of HDR_SIZE_def)
  have "heap_inv h" using lp.acquire_ok [OF m] start_heap_ok by simp
  from realloc_keeps_contents [OF this start_heap_ok(2) _ _ l, of 200]
  obtain r' h' where "realloc granting h 4120 200 = Some (r', h')" "heap_inv h'" by auto
  moreover have "fst (the (realloc granting h 4120 200)) = Some 4256"
    using b by (simp add: realloc_def malloc_def ALIGN_UP_def W_def HDR_SIZE_def free_def)
  ultimately show ?thesis by (simp add: m)
qed

text \<open>
  \<open>calloc\<close> refuses a product that does not fit in a \<open>size_t\<close>, and otherwise a payload it
  returns is all zero over the whole of it that was asked for, with the bytes of every payload
  the program holds untouched.
\<close>

theorem calloc_zeroed:
  assumes "heap_inv h" "brk_user sys" "calloc sys h count sz = (r, h')" "count * sz \<le> 2 ^ 61 \<or> W \<le> count * sz"
  shows "heap_inv h' \<and> (W \<le> count * sz \<longrightarrow> r = None) \<and>
     (\<forall>p. r = Some p \<longrightarrow> (\<forall>i < count * sz. ram h' (p + i) = 0) \<and>
        (\<forall>x \<in> live h. payload (ram h') x = payload (ram h) x))"
proof (cases "count \<noteq> 0 \<and> sz > (W - 1) div count")
  case True
  then show ?thesis using assms by (simp add: calloc_def)
next
  case False
  have "sz * count \<le> W - 1" if "count \<noteq> 0"
    using False that less_eq_div_iff_mult_less_eq [of count sz "W - 1"] by simp
  then have small: "count * sz < W" by (cases "count = 0") (auto simp: W_def mult.commute)
  obtain r1 h1 where m: "malloc sys h (count * sz) = (r1, h1)" by (cases "malloc sys h (count * sz)")
  have lim: "count * sz \<le> 2 ^ 61" using assms(4) small by simp
  have pre: "heap_inv h \<and> brk_user sys" using assms(1,2) by simp
  note mf = lp.acquire_ok [OF m pre lim]
  show ?thesis
  proof (cases r1)
    case None
    then show ?thesis using assms(3) False m mf small by (auto simp: calloc_def Let_def)
  next
    case (Some p)
    have out: "r = Some p" "h' = h1\<lparr>ram := filled (ram h) p 0 (count * sz)\<rparr>"
      using assms(3) False m mf Some by (auto simp: calloc_def Let_def memset_filled)
    obtain z where "count * sz \<le> z" "\<forall>x \<in> live h. apart (p, z) x" using mf Some by (auto simp: grown_def)
    then have "payload (filled (ram h) p 0 (count * sz)) x = payload (ram h) x" if "x \<in> live h" for x
      using that by (fastforce simp: payload_def filled_def apart_def)
    then show ?thesis using mf small unfolding out by (auto simp: filled_def heap_inv_def)
  qed
qed

theorem calloc_zeroed_witness:
  "heap_inv (snd (calloc granting start_heap 3 8))"
  using calloc_zeroed [OF start_heap_ok, of 3 8 "fst (calloc granting start_heap 3 8)" "snd (calloc granting start_heap 3 8)"]
  by simp

text \<open>
  Near the top of \<open>size_t\<close> the additions wrap: \<open>malloc\<close> of \<open>2^64 - 32\<close> bytes succeeds without
  growing the heap at all, because the size rounded up with its header wraps to 0.
\<close>

lemma malloc_huge_succeeds:
  "fst (malloc granting (start_heap\<lparr>blocks := []\<rparr>) (2 ^ 64 - 32)) = Some (8192 + 24) \<and>
   brk_cur (snd (malloc granting (start_heap\<lparr>blocks := []\<rparr>) (2 ^ 64 - 32))) = 8192"
  by (simp add: malloc_def start_heap_def ALIGN_UP_def W_def HDR_SIZE_def heap_grow_def brk_known_def
      granting_def GROW_MIN_def USER_TOP_def Let_def)

section \<open>The environment\<close>

text \<open>
  \<open>environ\<close> is a null-terminated array of strings \<open>NAME=value\<close>; \<open>owned\<close> says whether it is
  \<open>env_owned\<close>.  \<open>al\<close> says whether an allocation of so many bytes succeeds.
\<close>

record env =
  environ :: "cstring list option"
  owned :: bool
  env_count :: nat
  env_capacity :: nat

definition entries :: "env \<Rightarrow> cstring list" where
  "entries e = (case environ e of None \<Rightarrow> [] | Some l \<Rightarrow> l)"

definition names :: "cstring \<Rightarrow> cstring \<Rightarrow> bool" where
  "names entry nm \<longleftrightarrow> strncmp entry nm (strlen nm) = 0 \<and> ch entry (strlen nm) = of_char CHR ''=''"

fun getenv_loop :: "cstring list \<Rightarrow> cstring \<Rightarrow> cstring option" where
  "getenv_loop [] nm = None"
| "getenv_loop (e # es) nm = (if names e nm then Some (drop (strlen nm + 1) e) else getenv_loop es nm)"

definition getenv :: "env \<Rightarrow> cstring \<Rightarrow> cstring option" where
  "getenv e nm = (case environ e of None \<Rightarrow> None | Some l \<Rightarrow> getenv_loop l nm)"

fun find_entry :: "cstring list \<Rightarrow> cstring \<Rightarrow> nat \<Rightarrow> nat option" where
  "find_entry [] nm i = None"
| "find_entry (e # es) nm i = (if names e nm then Some i else find_entry es nm (i + 1))"

definition new_entry :: "cstring \<Rightarrow> cstring \<Rightarrow> cstring" where
  "new_entry nm val = nm @ of_char CHR ''='' # val"

text \<open>Taking a copy of the array that can be extended, and extending it.\<close>

definition env_own :: "(nat \<Rightarrow> bool) \<Rightarrow> env \<Rightarrow> env option \<times> env" where
  "env_own al e =
     (if owned e then (Some e, e)
      else
        (let e = e\<lparr>env_count := length (entries e), env_capacity := length (entries e) + 16\<rparr> in
         if \<not> al (8 * (env_capacity e + 1)) then (None, e)
         else (let e = e\<lparr>environ := Some (entries e), owned := True\<rparr> in (Some e, e))))"

definition env_room :: "(nat \<Rightarrow> bool) \<Rightarrow> env \<Rightarrow> env option" where
  "env_room al e =
     (if env_count e + 1 \<ge> env_capacity e then
        (if al (8 * (env_capacity e * 2 + 1)) then Some (e\<lparr>env_capacity := env_capacity e * 2\<rparr>) else None)
      else Some e)"

definition setenv :: "(nat \<Rightarrow> bool) \<Rightarrow> env \<Rightarrow> cstring \<Rightarrow> cstring \<Rightarrow> bool \<Rightarrow> int \<times> env" where
  "setenv al e nm val overwrite =
     (let bytes = strlen nm + strlen val + 2 in
      case find_entry (entries e) nm 0 of
        Some i \<Rightarrow>
          if \<not> overwrite then (0, e)
          else if \<not> al bytes then (-1, e)
          else (0, e\<lparr>environ := Some ((entries e)[i := new_entry nm val])\<rparr>)
      | None \<Rightarrow>
          (case env_own al e of
             (None, e) \<Rightarrow> (-1, e)
           | (Some e, _) \<Rightarrow>
               (case env_room al e of
                  None \<Rightarrow> (-1, e)
                | Some e \<Rightarrow>
                    if \<not> al bytes then (-1, e)
                    else (0, e\<lparr>environ := Some (entries e @ [new_entry nm val]), env_count := env_count e + 1\<rparr>))))"

definition plain_name :: "cstring \<Rightarrow> bool" where
  "plain_name nm \<longleftrightarrow> is_cstr nm \<and> of_char CHR ''='' \<notin> set nm"

definition env_wf :: "env \<Rightarrow> bool" where
  "env_wf e \<longleftrightarrow> list_all is_cstr (entries e) \<and>
     (owned e \<longrightarrow> environ e \<noteq> None \<and> env_count e = length (entries e) \<and> env_count e < env_capacity e \<and>
        16 \<le> env_capacity e)"

lemma names_iff: "is_cstr e \<Longrightarrow> is_cstr nm \<Longrightarrow> names e nm \<longleftrightarrow> prefix (nm @ [of_char CHR ''='']) e"
proof -
  assume c: "is_cstr e" "is_cstr nm"
  have "ch (nm @ t) (length nm) = of_char CHR ''='' \<longleftrightarrow> prefix [of_char CHR ''=''] t" for t
    by (cases t) (auto simp: ch_def)
  then show ?thesis
    using c by (auto simp: names_def strlen_length strncmp_prefix elim!: prefixE dest: append_prefixD
        simp del: append_assoc) (simp_all add: prefix_def)
qed

lemma names_new: "is_cstr val \<Longrightarrow> plain_name nm \<Longrightarrow> plain_name other \<Longrightarrow>
    names (new_entry nm val) other \<longleftrightarrow> other = nm"
proof -
  assume a: "is_cstr val" "plain_name nm" "plain_name other"
  have c: "is_cstr (new_entry nm val)" using a by (simp add: new_entry_def plain_name_def)
  have "prefix (other @ [k]) (nm @ k # val) \<Longrightarrow> k \<notin> set other \<Longrightarrow> k \<notin> set nm \<Longrightarrow> other = nm" for k :: u8
  proof (induction other arbitrary: nm)
    case Nil
    then show ?case by (cases nm) auto
  next
    case (Cons x other)
    then show ?case by (cases nm) auto
  qed
  then show ?thesis
    using a names_iff [OF c, of other] by (auto simp: plain_name_def new_entry_def)
qed

lemma getenv_loop_append: "getenv_loop (es @ [e]) nm =
    (case getenv_loop es nm of Some v \<Rightarrow> Some v | None \<Rightarrow> if names e nm then Some (drop (strlen nm + 1) e) else None)"
  by (induction es) auto

lemma find_entry_None: "find_entry es nm i = None \<longleftrightarrow> getenv_loop es nm = None"
  by (induction es arbitrary: i) auto

lemma find_entry_Some: "find_entry es nm i = Some k \<Longrightarrow>
    i \<le> k \<and> k < i + length es \<and> names (es ! (k - i)) nm \<and> (\<forall>j < k - i. \<not> names (es ! j) nm)"
proof (induction es arbitrary: i)
  case (Cons e es)
  show ?case
  proof (cases "names e nm")
    case False
    then have "i + 1 \<le> k \<and> k < i + 1 + length es \<and> names (es ! (k - (i + 1))) nm \<and> (\<forall>j < k - (i + 1). \<not> names (es ! j) nm)"
      using Cons.IH [of "i + 1"] Cons.prems by simp
    moreover have "k - i = Suc (k - (i + 1))" if "i + 1 \<le> k" using that by simp
    ultimately show ?thesis using False by (auto simp: nth_Cons split: nat.splits)
  qed (use Cons.prems in simp)
qed simp

lemma getenv_loop_update:
  "k < length es \<Longrightarrow> names (es ! k) nm \<Longrightarrow> \<forall>j < k. \<not> names (es ! j) nm \<Longrightarrow> names e nm \<Longrightarrow>
     getenv_loop (es[k := e]) nm = Some (drop (strlen nm + 1) e)"
proof (induction es arbitrary: k)
  case (Cons x es)
  show ?case
  proof (cases k)
    case 0
    then show ?thesis using Cons.prems by simp
  next
    case (Suc m)
    then have "\<not> names x nm" "\<forall>j < m. \<not> names (es ! j) nm" using Cons.prems(3) by auto
    then show ?thesis using Cons Suc by simp
  qed
qed simp

lemma getenv_loop_other:
  "k < length es \<Longrightarrow> \<not> names (es ! k) nm \<Longrightarrow> \<not> names e nm \<Longrightarrow> getenv_loop (es[k := e]) nm = getenv_loop es nm"
  by (induction es arbitrary: k) (auto split: nat.split simp: nth_Cons)

lemma names_unique: "is_cstr e \<Longrightarrow> plain_name a \<Longrightarrow> plain_name b \<Longrightarrow> names e a \<Longrightarrow> names e b \<Longrightarrow> a = b"
proof -
  assume a: "is_cstr e" "plain_name a" "plain_name b" "names e a" "names e b"
  have "prefix (a @ [k]) e \<Longrightarrow> prefix (b @ [k]) e \<Longrightarrow> k \<notin> set a \<Longrightarrow> k \<notin> set b \<Longrightarrow> a = b" for k :: u8
  proof (induction a arbitrary: b e)
    case Nil
    then show ?case by (cases b) (auto simp: prefix_def)
  next
    case (Cons x a)
    then obtain y e' where e: "e = y # e'" by (cases e) auto
    then have xy: "x = y" using Cons.prems(1) by simp
    show ?case
    proof (cases b)
      case Nil
      then show ?thesis using Cons.prems e xy by auto
    next
      case (Cons z b')
      then show ?thesis using Cons.IH [of e' b'] Cons.prems e xy by auto
    qed
  qed
  then show ?thesis using a names_iff [OF a(1)] by (auto simp: plain_name_def)
qed

lemma own_room:
  assumes "env_own al e = (Some e1, e2)" "env_room al e1 = Some e3" "env_wf e"
  shows "env_wf e3 \<and> owned e3 \<and> entries e3 = entries e \<and> env_count e3 + 1 < env_capacity e3"
proof -
  have o: "env_wf e1 \<and> owned e1 \<and> entries e1 = entries e"
    using assms(1,3) by (auto simp: env_own_def env_wf_def entries_def Let_def split: if_splits option.splits)
  then show ?thesis
    using assms(2) by (auto simp: env_room_def env_wf_def entries_def split: if_splits)
qed

lemma env_own_None: "env_own al e = (None, e') \<Longrightarrow> env_wf e \<Longrightarrow> env_wf e' \<and> entries e' = entries e"
  by (auto simp: env_own_def env_wf_def entries_def Let_def split: if_splits)

lemma env_own_Some: "env_own al e = (Some e1, e2) \<Longrightarrow> env_wf e \<Longrightarrow> env_wf e1 \<and> entries e1 = entries e"
  by (auto simp: env_own_def env_wf_def entries_def Let_def split: if_splits option.splits)

lemma getenv_entries: "getenv e nm = getenv_loop (entries e) nm"
  by (simp add: getenv_def entries_def split: option.split)

lemma new_entry_value: "is_cstr nm \<Longrightarrow> drop (strlen nm + 1) (new_entry nm val) = val"
  by (simp add: new_entry_def strlen_length)

lemma list_all_update: "list_all P xs \<Longrightarrow> P x \<Longrightarrow> list_all P (xs[k := x])"
  by (induction xs arbitrary: k) (auto split: nat.split)

lemma setenv_facts:
  assumes "env_wf e" "plain_name nm" "is_cstr val" "setenv al e nm val overwrite = (r, e')"
  shows "env_wf e' \<and> (r = 0 \<or> r = -1) \<and>
     (r = -1 \<longrightarrow> entries e' = entries e) \<and>
     (r = 0 \<longrightarrow> getenv_loop (entries e') nm =
        (case getenv_loop (entries e) nm of Some old \<Rightarrow> if overwrite then Some val else Some old | None \<Rightarrow> Some val)) \<and>
     (\<forall>other. plain_name other \<and> other \<noteq> nm \<longrightarrow> getenv_loop (entries e') other = getenv_loop (entries e) other)"
proof -
  let ?new = "new_entry nm val"
  have cn: "is_cstr nm" using assms(2) by (simp add: plain_name_def)
  have new: "is_cstr ?new" "names ?new nm" "drop (strlen nm + 1) ?new = val"
    using assms(2,3) names_new [of val nm nm] new_entry_value [OF cn]
    by (auto simp: new_entry_def plain_name_def)
  have other: "\<not> names ?new other" if "plain_name other" "other \<noteq> nm" for other
    using names_new [OF assms(3,2) that(1)] that(2) by simp
  show ?thesis
  proof (cases "find_entry (entries e) nm 0")
    case (Some i)
    note fi = find_entry_Some [OF Some]
    then have i: "i < length (entries e)" "names (entries e ! i) nm" "\<forall>j < i. \<not> names (entries e ! j) nm" by auto
    have def: "getenv_loop (entries e) nm \<noteq> None" using Some find_entry_None [of "entries e" nm 0] by auto
    have ci: "is_cstr (entries e ! i)" using assms(1) i(1) by (simp add: env_wf_def list_all_length)
    have oth: "getenv_loop ((entries e)[i := ?new]) o' = getenv_loop (entries e) o'"
      if "plain_name o'" "o' \<noteq> nm" for o'
      using getenv_loop_other [OF i(1) _ other [OF that]] names_unique [OF ci that(1) assms(2)] i(2) that(2) by blast
    show ?thesis
      using assms(1,4) Some i new oth def getenv_loop_update [OF i new(2)]
      by (auto simp: setenv_def Let_def env_wf_def entries_def list_all_update split: if_splits)
  next
    case None
    then have undef: "getenv_loop (entries e) nm = None" by (simp add: find_entry_None)
    obtain o1 e2 where own: "env_own al e = (o1, e2)" by (cases "env_own al e")
    show ?thesis
    proof (cases o1)
      case o: None
      then have "r = -1" "e' = e2" using assms(4) None own by (auto simp: setenv_def Let_def)
      then show ?thesis using env_own_None [of al e e2] own o assms(1) by simp
    next
      case e1: (Some e1)
      show ?thesis
      proof (cases "env_room al e1")
        case r: None
        then have "r = -1" "e' = e1" using assms(4) None own e1 by (auto simp: setenv_def Let_def)
        then show ?thesis using env_own_Some [of al e e1 e2] own e1 assms(1) by simp
      next
        case e3: (Some e3)
        note w = own_room [OF own [unfolded e1] e3 assms(1)]
        show ?thesis
        proof (cases "al (strlen nm + strlen val + 2)")
          case False
          then have "r = -1" "e' = e3" using assms(4) None own e1 e3 by (auto simp: setenv_def Let_def)
          then show ?thesis using w by simp
        next
          case True
          then have out: "r = 0" "e' = e3\<lparr>environ := Some (entries e @ [?new]), env_count := env_count e3 + 1\<rparr>"
            using assms(4) None own e1 e3 w by (auto simp: setenv_def Let_def)
          have ent: "entries e' = entries e @ [?new]" by (simp add: out entries_def)
          have "env_wf e'" using w new(1) assms(1) ent by (auto simp: env_wf_def out)
          moreover have "getenv_loop (entries e') nm = Some val"
            using undef new by (simp add: ent getenv_loop_append)
          moreover have "getenv_loop (entries e') o' = getenv_loop (entries e) o'" if "plain_name o'" "o' \<noteq> nm" for o'
            using other [OF that] by (simp add: ent getenv_loop_append split: option.split)
          ultimately show ?thesis using out undef by simp
        qed
      qed
    qed
  qed
qed

text \<open>
  C33: after a successful \<open>setenv\<close>, \<open>getenv\<close> of that name gives the new value (or the old one,
  when there was one and \<open>overwrite\<close> is false); whether it succeeds or runs out of memory,
  every other variable reads as before, and the array it owns stays within its capacity.
\<close>

theorem setenv_getenv:
  assumes "env_wf e" "plain_name nm" "is_cstr val" "setenv al e nm val overwrite = (r, e')"
  shows "env_wf e' \<and> (r = 0 \<or> r = -1) \<and>
     getenv e' nm = (if r = -1 \<or> (getenv e nm \<noteq> None \<and> \<not> overwrite) then getenv e nm else Some val) \<and>
     (\<forall>other. plain_name other \<and> other \<noteq> nm \<longrightarrow> getenv e' other = getenv e other)"
  using setenv_facts [OF assms] by (auto simp: getenv_entries split: option.splits)

theorem setenv_getenv_witness:
  "getenv (snd (setenv (\<lambda>_. True) \<lparr>environ = Some [cs ''PATH=/bin''], owned = False, env_count = 0, env_capacity = 0\<rparr>
     (cs ''HOME'') (cs ''/root'') True)) (cs ''PATH'') = Some (cs ''/bin'')"
proof -
  let ?e = "\<lparr>environ = Some [cs ''PATH=/bin''], owned = False, env_count = 0, env_capacity = 0\<rparr>"
  obtain r e' where s: "setenv (\<lambda>_. True) ?e (cs ''HOME'') (cs ''/root'') True = (r, e')"
    by (cases "setenv (\<lambda>_. True) ?e (cs ''HOME'') (cs ''/root'') True")
  have "env_wf ?e" by (simp add: env_wf_def entries_def cs_def)
  moreover have "plain_name (cs ''HOME'')" "plain_name (cs ''PATH'')" "is_cstr (cs ''/root'')"
    "cs ''PATH'' \<noteq> cs ''HOME''"
    by (simp_all add: plain_name_def cs_def)
  ultimately have "getenv e' (cs ''PATH'') = getenv ?e (cs ''PATH'')"
    using setenv_getenv [OF _ _ _ s] by blast
  also have "\<dots> = Some (cs ''/bin'')" by code_simp
  finally show ?thesis by (simp add: s)
qed

end
