(* ===== verification/Fdt.thy ===== *)
theory Fdt
  imports LpString
begin

text \<open>
  The bootloader's flattened device tree editor (\<open>firmware/src/fdt.c\<close>): checking a DTB,
  finding \<open>/chosen/bootargs\<close>, and copying a DTB with a new command line and memory size.
  A DTB in memory is the list of its bytes; what lies behind it is not mapped, so that a read
  outside is the fault \<open>Wild\<close>.  Offsets are \<open>u32\<close> in the source: numbers with \<open>mod 2^32\<close>.
\<close>

section \<open>Reading\<close>

text \<open>\<open>Wild\<close>: an access outside the buffers; \<open>Hang\<close>: a loop that outruns the model's bound.\<close>

datatype fault = Wild | Hang

definition W32 :: nat where "W32 = 2 ^ 32"

definition FDT_BEGIN_NODE :: nat where "FDT_BEGIN_NODE = 1"
definition FDT_END_NODE :: nat where "FDT_END_NODE = 2"
definition FDT_PROP :: nat where "FDT_PROP = 3"
definition FDT_NOP :: nat where "FDT_NOP = 4"
definition FDT_END :: nat where "FDT_END = 9"
definition FDT_MAGIC :: nat where "FDT_MAGIC = 0xD00DFEED"
definition FDT_HEADER_SIZE :: nat where "FDT_HEADER_SIZE = 40"

lemmas fdt_tokens = FDT_BEGIN_NODE_def FDT_END_NODE_def FDT_PROP_def FDT_NOP_def FDT_END_def

definition H_MAGIC :: nat where "H_MAGIC = 0"
definition H_TOTALSIZE :: nat where "H_TOTALSIZE = 4"
definition H_OFF_STRUCT :: nat where "H_OFF_STRUCT = 8"
definition H_OFF_STRINGS :: nat where "H_OFF_STRINGS = 12"
definition H_OFF_RSVMAP :: nat where "H_OFF_RSVMAP = 16"
definition H_VERSION :: nat where "H_VERSION = 20"
definition H_LAST_COMP :: nat where "H_LAST_COMP = 24"
definition H_BOOT_CPUID :: nat where "H_BOOT_CPUID = 28"
definition H_SIZE_STRINGS :: nat where "H_SIZE_STRINGS = 32"
definition H_SIZE_STRUCT :: nat where "H_SIZE_STRUCT = 36"

lemmas fdt_header = H_MAGIC_def H_TOTALSIZE_def H_OFF_STRUCT_def H_OFF_STRINGS_def H_OFF_RSVMAP_def
  H_VERSION_def H_LAST_COMP_def H_BOOT_CPUID_def H_SIZE_STRINGS_def H_SIZE_STRUCT_def

definition be32 :: "u8 list \<Rightarrow> nat \<Rightarrow> fault + nat" where
  "be32 p off =
     (if off + 4 \<le> length p
      then Inr (unat (be32_word (p ! off) (p ! (off + 1)) (p ! (off + 2)) (p ! (off + 3))))
      else Inl Wild)"

text \<open>The four bytes \<open>put_be32\<close> writes.\<close>

definition put_be32 :: "nat \<Rightarrow> u8 list" where
  "put_be32 n =
     (let v = (of_nat n :: u32) in
      [ucast (drop_bit 24 v), ucast (drop_bit 16 v), ucast (drop_bit 8 v), ucast v])"

text \<open>A C string in the buffer.\<close>

definition cstr_at :: "u8 list \<Rightarrow> nat \<Rightarrow> fault + cstring" where
  "cstr_at p off =
     (let s = takeWhile (\<lambda>c. c \<noteq> 0) (drop off p) in
      if off + length s < length p then Inr s else Inl Wild)"

definition align4 :: "nat \<Rightarrow> nat" where
  "align4 n = ((n + 3) mod W32) div 4 * 4"

text \<open>\<open>None\<close> is the null pointer.\<close>

definition fdt_valid :: "u8 list option \<Rightarrow> fault + bool" where
  "fdt_valid fdt =
     (case fdt of None \<Rightarrow> Inr False
      | Some p \<Rightarrow>
          andthen (be32 p H_MAGIC) (\<lambda>magic. if magic \<noteq> FDT_MAGIC then Inr False else
          andthen (be32 p H_LAST_COMP) (\<lambda>comp. if comp > 17 then Inr False else
          andthen (be32 p H_TOTALSIZE) (\<lambda>total.
          if total < FDT_HEADER_SIZE \<or> total > 16 * 2 ^ 20 then Inr False else
          andthen (be32 p H_OFF_STRUCT) (\<lambda>so. andthen (be32 p H_SIZE_STRUCT) (\<lambda>ss.
          andthen (be32 p H_OFF_STRINGS) (\<lambda>to. andthen (be32 p H_SIZE_STRINGS) (\<lambda>ts.
          Inr (\<not> ((so + ss) mod W32 > total \<or> (to + ts) mod W32 > total))))))))))"

definition fdt_size :: "u8 list option \<Rightarrow> fault + nat" where
  "fdt_size fdt =
     andthen (fdt_valid fdt) (\<lambda>ok. if ok then be32 (the fdt) H_TOTALSIZE else Inr 0)"

definition string_at :: "u8 list \<Rightarrow> nat \<Rightarrow> fault + cstring" where
  "string_at p off = andthen (be32 p H_OFF_STRINGS) (\<lambda>to. cstr_at p (to + off))"

text \<open>The \<open>i\<close> of the loop only grows, by the string and its NUL; \<open>None\<close> is \<open>0xFFFFFFFF\<close>.\<close>

fun find_string_loop :: "nat \<Rightarrow> u8 list \<Rightarrow> nat \<Rightarrow> nat \<Rightarrow> cstring \<Rightarrow> nat \<Rightarrow> fault + nat option" where
  "find_string_loop 0 p to ts name i = Inl Hang"
| "find_string_loop (Suc fuel) p to ts name i =
     (if i < ts then
        andthen (cstr_at p (to + i)) (\<lambda>s.
        if strcmp s name = 0 then Inr (Some i)
        else find_string_loop fuel p to ts name ((i + strlen s + 1) mod W32))
      else Inr None)"

definition find_string :: "u8 list \<Rightarrow> cstring \<Rightarrow> fault + nat option" where
  "find_string p name =
     andthen (be32 p H_OFF_STRINGS) (\<lambda>to. andthen (be32 p H_SIZE_STRINGS) (\<lambda>ts.
     find_string_loop (ts + 1) p to ts name 0))"

text \<open>
  The walk of \<open>find_bootargs\<close>.  The result is the value of the property as a C string.
\<close>

fun find_bootargs_loop :: "nat \<Rightarrow> u8 list \<Rightarrow> nat \<Rightarrow> nat \<Rightarrow> int \<Rightarrow> bool \<Rightarrow> fault + cstring option" where
  "find_bootargs_loop 0 p off fin depth in_chosen = Inl Hang"
| "find_bootargs_loop (Suc fuel) p off fin depth in_chosen =
     (if off < fin then
        andthen (be32 p off) (\<lambda>tok.
        (let off = (off + 4) mod W32 in
         if tok = FDT_BEGIN_NODE then
           andthen (cstr_at p off) (\<lambda>name.
           (let depth = depth + 1;
                in_chosen = (in_chosen \<or> depth = 2 \<and> strcmp name (cs ''chosen'') = 0)
            in find_bootargs_loop fuel p ((off + align4 (strlen name + 1)) mod W32) fin depth in_chosen))
         else if tok = FDT_END_NODE then
           find_bootargs_loop fuel p off fin (depth - 1) (in_chosen \<and> depth \<noteq> 2)
         else if tok = FDT_PROP then
           andthen (be32 p off) (\<lambda>len.
           andthen (be32 p (off + 4)) (\<lambda>nameoff.
           andthen (if in_chosen then string_at p nameoff else Inr []) (\<lambda>pname.
           if in_chosen \<and> strcmp pname (cs ''bootargs'') = 0 \<and> len > 0
           then andthen (cstr_at p (off + 8)) (\<lambda>v. Inr (Some v))
           else find_bootargs_loop fuel p ((off + 8 + align4 len) mod W32) fin depth in_chosen)))
         else if tok = FDT_NOP then find_bootargs_loop fuel p off fin depth in_chosen
         else Inr None))
      else Inr None)"

text \<open>
  Every round reads a token of at least four bytes, so a walk over a block that is not
  malformed takes at most a quarter of its length in rounds.
\<close>

definition find_bootargs :: "u8 list \<Rightarrow> fault + cstring option" where
  "find_bootargs p =
     andthen (be32 p H_OFF_STRUCT) (\<lambda>so. andthen (be32 p H_SIZE_STRUCT) (\<lambda>ss.
     find_bootargs_loop (length p + 1) p so ((so + ss) mod W32) 0 False))"

section \<open>Writing\<close>

text \<open>The write buffer; \<open>base\<close> is the destination, whatever it held before.\<close>

record wbuf =
  base :: "u8 list"
  wcap :: nat
  wpos :: nat
  overflow :: bool

text \<open>Storing bytes at an offset of the destination, \<open>Wild\<close> when they do not fit.\<close>

definition store :: "u8 list \<Rightarrow> nat \<Rightarrow> u8 list \<Rightarrow> fault + u8 list" where
  "store b pos bytes =
     (if pos + length bytes \<le> length b then Inr (take pos b @ bytes @ drop (pos + length bytes) b)
      else Inl Wild)"

definition w_bytes :: "wbuf \<Rightarrow> u8 list \<Rightarrow> fault + wbuf" where
  "w_bytes w src =
     (let n = length src in
      if (wpos w + n) mod W32 > wcap w then Inr (w\<lparr>overflow := True\<rparr>)
      else andthen (store (base w) (wpos w) src) (\<lambda>b.
           Inr (w\<lparr>base := b, wpos := (wpos w + n) mod W32\<rparr>)))"

text \<open>\<open>w_bytes\<close> from a place in the input.\<close>

definition w_copy :: "wbuf \<Rightarrow> u8 list \<Rightarrow> nat \<Rightarrow> nat \<Rightarrow> fault + wbuf" where
  "w_copy w p off n =
     (if (wpos w + n) mod W32 > wcap w then Inr (w\<lparr>overflow := True\<rparr>)
      else if off + n \<le> length p then w_bytes w (take n (drop off p))
      else Inl Wild)"

definition w_u32 :: "wbuf \<Rightarrow> nat \<Rightarrow> fault + wbuf" where
  "w_u32 w v =
     (if (wpos w + 4) mod W32 > wcap w then Inr (w\<lparr>overflow := True\<rparr>)
      else andthen (store (base w) (wpos w) (put_be32 v)) (\<lambda>b.
           Inr (w\<lparr>base := b, wpos := (wpos w + 4) mod W32\<rparr>)))"

text \<open>At most three rounds.\<close>

fun w_pad_loop :: "nat \<Rightarrow> wbuf \<Rightarrow> fault + wbuf" where
  "w_pad_loop 0 w = Inl Hang"
| "w_pad_loop (Suc fuel) w =
     (if wpos w mod 4 \<noteq> 0 then
        (if wpos w \<ge> wcap w then Inr (w\<lparr>overflow := True\<rparr>)
         else andthen (store (base w) (wpos w) [0]) (\<lambda>b.
              w_pad_loop fuel (w\<lparr>base := b, wpos := (wpos w + 1) mod W32\<rparr>)))
      else Inr w)"

definition w_pad4 :: "wbuf \<Rightarrow> fault + wbuf" where
  "w_pad4 w = w_pad_loop 4 w"

definition w_prop :: "wbuf \<Rightarrow> nat \<Rightarrow> u8 list \<Rightarrow> fault + wbuf" where
  "w_prop w nameoff val =
     andthen (w_u32 w FDT_PROP) (\<lambda>w. andthen (w_u32 w (length val)) (\<lambda>w.
     andthen (w_u32 w nameoff) (\<lambda>w. andthen (w_bytes w val) (\<lambda>w. w_pad4 w))))"

section \<open>The cell counts of the root\<close>

fun root_cells_loop :: "nat \<Rightarrow> u8 list \<Rightarrow> nat \<Rightarrow> nat \<Rightarrow> nat \<Rightarrow> nat \<Rightarrow> nat \<Rightarrow> fault + nat \<times> nat" where
  "root_cells_loop 0 p off fin depth ac sc = Inl Hang"
| "root_cells_loop (Suc fuel) p off fin depth ac sc =
     (if off < fin then
        andthen (be32 p off) (\<lambda>tok.
        (let off = (off + 4) mod W32 in
         if tok = FDT_BEGIN_NODE then
           (if depth + 1 > 1 then Inr (ac, sc)
            else andthen (cstr_at p off) (\<lambda>name.
                 root_cells_loop fuel p ((off + align4 (strlen name + 1)) mod W32) fin (depth + 1) ac sc))
         else if tok = FDT_PROP then
           andthen (be32 p off) (\<lambda>len.
           andthen (be32 p (off + 4)) (\<lambda>nameoff.
           andthen
             (if depth = 1 \<and> len = 4 then
                andthen (string_at p nameoff) (\<lambda>pname. andthen (be32 p (off + 8)) (\<lambda>v.
                Inr (if strcmp pname (cs ''#address-cells'') = 0 then v else ac,
                     if strcmp pname (cs ''#size-cells'') = 0 then v else sc)))
              else Inr (ac, sc)) (\<lambda>(ac, sc).
           root_cells_loop fuel p ((off + 8 + align4 len) mod W32) fin depth ac sc)))
         else if tok = FDT_END_NODE then Inr (ac, sc)
         else if tok = FDT_NOP then root_cells_loop fuel p off fin depth ac sc
         else Inr (ac, sc)))
      else Inr (ac, sc))"

definition root_cells :: "u8 list \<Rightarrow> fault + nat \<times> nat" where
  "root_cells p =
     andthen (be32 p H_OFF_STRUCT) (\<lambda>so. andthen (be32 p H_SIZE_STRUCT) (\<lambda>ss.
     root_cells_loop (length p + 1) p so ((so + ss) mod W32) 0 2 1))"

definition write_cells :: "u64 \<Rightarrow> nat \<Rightarrow> u8 list" where
  "write_cells v cells =
     (if cells \<ge> 2 then put_be32 (unat (drop_bit 32 v)) @ put_be32 (unat (take_bit 32 v))
      else put_be32 (unat (take_bit 32 v)))"

definition is_memory_node :: "cstring \<Rightarrow> bool" where
  "is_memory_node name \<longleftrightarrow>
     strcmp name (cs ''memory'') = 0 \<or>
     (ch name 0 = of_char CHR ''m'' \<and> ch name 1 = of_char CHR ''e'' \<and> ch name 2 = of_char CHR ''m'' \<and>
      ch name 3 = of_char CHR ''o'' \<and> ch name 4 = of_char CHR ''r'' \<and> ch name 5 = of_char CHR ''y'' \<and>
      ch name 6 = of_char CHR ''@'')"

section \<open>Copying with fixups\<close>

record fixup =
  bootargs :: "cstring option"
  mem_base :: u64
  mem_size :: u64

text \<open>The length of the memory reservation block; \<open>None\<close> is the refusal past 4096 bytes.\<close>

function rsv_length :: "u8 list \<Rightarrow> nat \<Rightarrow> nat \<Rightarrow> fault + nat option" where
  "rsv_length p rsvmap n =
     (if n > 4096 then Inr None
      else
        andthen (be32 p (rsvmap + n)) (\<lambda>a. andthen (be32 p (rsvmap + n + 4)) (\<lambda>b.
        andthen (be32 p (rsvmap + n + 8)) (\<lambda>c. andthen (be32 p (rsvmap + n + 12)) (\<lambda>d.
        if a = 0 \<and> b = 0 \<and> c = 0 \<and> d = 0 then Inr (Some (n + 16))
        else rsv_length p rsvmap (n + 16))))))"
  by pat_completeness auto
termination by (relation "measure (\<lambda>(p, r, n). 5000 - n)") auto

declare rsv_length.simps [simp del]

fun align8_loop :: "nat \<Rightarrow> wbuf \<Rightarrow> fault + wbuf option" where
  "align8_loop 0 w = Inl Hang"
| "align8_loop (Suc fuel) w =
     (if wpos w mod 8 \<noteq> 0 then
        (if wpos w \<ge> wcap w then Inr None
         else andthen (store (base w) (wpos w) [0]) (\<lambda>b.
              align8_loop fuel (w\<lparr>base := b, wpos := (wpos w + 1) mod W32\<rparr>)))
      else Inr (Some w))"

text \<open>The locals of the copying loop.\<close>

record cst =
  wb :: wbuf
  depth :: int
  in_chosen :: bool
  in_memory :: bool
  wrote_args :: bool
  saw_chosen :: bool
  wrote_mem :: bool

text \<open>
  \<open>copy_loop\<close> returns \<open>None\<close> for an unknown token (the source returns false).  \<open>ac\<close> and \<open>sc\<close>
  are the cell counts, \<open>ano\<close> the offset of the name \<open>bootargs\<close>.
\<close>

definition copy_begin :: "fixup \<Rightarrow> nat \<Rightarrow> cstring \<Rightarrow> cst \<Rightarrow> fault + cst" where
  "copy_begin fx ano name st =
     (let st = st\<lparr>depth := depth st + 1\<rparr>;
          st = (if depth st = 2 \<and> strcmp name (cs ''chosen'') = 0
                then st\<lparr>in_chosen := True, saw_chosen := True\<rparr> else st);
          st = (if depth st = 2 \<and> mem_size fx \<noteq> 0 \<and> is_memory_node name
                then st\<lparr>in_memory := True\<rparr> else st)
      in andthen (w_u32 (wb st) FDT_BEGIN_NODE) (\<lambda>w.
         andthen (w_bytes w (name @ [0])) (\<lambda>w.
         andthen (w_pad4 w) (\<lambda>w.
         (case bootargs fx of
            Some args \<Rightarrow>
              if in_chosen st \<and> \<not> wrote_args st then
                andthen (w_prop w ano (args @ [0])) (\<lambda>w. Inr (st\<lparr>wb := w, wrote_args := True\<rparr>))
              else Inr (st\<lparr>wb := w\<rparr>)
          | None \<Rightarrow> Inr (st\<lparr>wb := w\<rparr>))))))"

definition copy_prop :: "fixup \<Rightarrow> nat \<Rightarrow> nat \<Rightarrow> u8 list \<Rightarrow> nat \<Rightarrow> nat \<Rightarrow> nat \<Rightarrow> cst \<Rightarrow> fault + cst" where
  "copy_prop fx ac sc p off len nameoff st =
     andthen (if in_chosen st \<and> bootargs fx \<noteq> None \<or> in_memory st then string_at p nameoff else Inr [])
       (\<lambda>pname.
     if in_chosen st \<and> bootargs fx \<noteq> None \<and> strcmp pname (cs ''bootargs'') = 0 then Inr st
     else if in_memory st \<and> strcmp pname (cs ''reg'') = 0 then
       andthen (w_prop (wb st) nameoff (write_cells (mem_base fx) ac @ write_cells (mem_size fx) sc))
         (\<lambda>w. Inr (st\<lparr>wb := w, wrote_mem := True\<rparr>))
     else
       andthen (w_u32 (wb st) FDT_PROP) (\<lambda>w. andthen (w_u32 w len) (\<lambda>w. andthen (w_u32 w nameoff) (\<lambda>w.
       andthen (w_copy w p (off + 12) len) (\<lambda>w.
       andthen (w_pad4 w) (\<lambda>w. Inr (st\<lparr>wb := w\<rparr>)))))))"

definition copy_end_node :: "cst \<Rightarrow> fault + cst" where
  "copy_end_node st =
     (let ic = (in_chosen st \<and> depth st \<noteq> 2); im = (in_memory st \<and> depth st \<noteq> 2) in
      andthen (w_u32 (wb st) FDT_END_NODE) (\<lambda>w.
      Inr (st\<lparr>in_chosen := ic, in_memory := im, depth := depth st - 1, wb := w\<rparr>)))"

fun copy_loop ::
  "nat \<Rightarrow> fixup \<Rightarrow> nat \<Rightarrow> nat \<Rightarrow> nat \<Rightarrow> u8 list \<Rightarrow> nat \<Rightarrow> nat \<Rightarrow> cst \<Rightarrow> fault + cst option" where
  "copy_loop 0 fx ano ac sc p off fin st = Inl Hang"
| "copy_loop (Suc fuel) fx ano ac sc p off fin st =
     (if off < fin \<and> \<not> overflow (wb st) then
        andthen (be32 p off) (\<lambda>tok.
        if tok = FDT_BEGIN_NODE then
          andthen (cstr_at p (off + 4)) (\<lambda>name.
          andthen (copy_begin fx ano name st) (\<lambda>st.
          copy_loop fuel fx ano ac sc p ((off + 4 + align4 (strlen name + 1)) mod W32) fin st))
        else if tok = FDT_PROP then
          andthen (be32 p (off + 4)) (\<lambda>len. andthen (be32 p (off + 8)) (\<lambda>nameoff.
          andthen (copy_prop fx ac sc p off len nameoff st) (\<lambda>st.
          copy_loop fuel fx ano ac sc p ((off + 12 + align4 len) mod W32) fin st)))
        else if tok = FDT_END_NODE then
          andthen (copy_end_node st) (\<lambda>st. copy_loop fuel fx ano ac sc p ((off + 4) mod W32) fin st)
        else if tok = FDT_NOP then copy_loop fuel fx ano ac sc p ((off + 4) mod W32) fin st
        else if tok = FDT_END then Inr (Some st)
        else Inr None)
      else Inr (Some st))"

text \<open>Making \<open>/chosen\<close> when there was none: the \<open>END_NODE\<close> of the root is taken back.\<close>

definition add_chosen :: "fixup \<Rightarrow> nat \<Rightarrow> nat \<Rightarrow> cst \<Rightarrow> fault + cst" where
  "add_chosen fx ano out_struct st =
     (case bootargs fx of
        Some args \<Rightarrow>
          if \<not> saw_chosen st \<and> \<not> overflow (wb st) \<and> wpos (wb st) \<ge> out_struct + 4 then
            andthen (be32 (base (wb st)) (wpos (wb st) - 4)) (\<lambda>t.
            if t = FDT_END_NODE then
              (let w = (wb st)\<lparr>wpos := wpos (wb st) - 4\<rparr> in
               andthen (w_u32 w FDT_BEGIN_NODE) (\<lambda>w. andthen (w_bytes w (cs ''chosen'' @ [0])) (\<lambda>w.
               andthen (w_pad4 w) (\<lambda>w. andthen (w_prop w ano (args @ [0])) (\<lambda>w.
               andthen (w_u32 w FDT_END_NODE) (\<lambda>w. andthen (w_u32 w FDT_END_NODE) (\<lambda>w.
               Inr (st\<lparr>wb := w, wrote_args := True\<rparr>))))))))
            else Inr st)
          else Inr st
      | None \<Rightarrow> Inr st)"

fun put_header :: "u8 list \<Rightarrow> (nat \<times> nat) list \<Rightarrow> fault + u8 list" where
  "put_header b [] = Inr b"
| "put_header b ((off, v) # fs) = andthen (store b off (put_be32 v)) (\<lambda>b. put_header b fs)"

text \<open>The structure block, from the copying loop to its \<open>END\<close> token.\<close>

definition copy_struct ::
  "fixup \<Rightarrow> nat \<Rightarrow> nat \<Rightarrow> nat \<Rightarrow> u8 list \<Rightarrow> nat \<Rightarrow> nat \<Rightarrow> wbuf \<Rightarrow> fault + wbuf option" where
  "copy_struct fx ano ac sc p in_struct in_ssize w =
     (let st = \<lparr>wb = w, depth = 0, in_chosen = False, in_memory = False, wrote_args = False,
                saw_chosen = False, wrote_mem = False\<rparr> in
      andthen (copy_loop (length p + 1) fx ano ac sc p in_struct ((in_struct + in_ssize) mod W32) st) (\<lambda>r.
      case r of None \<Rightarrow> Inr None
      | Some st \<Rightarrow>
          andthen (add_chosen fx ano (wpos w) st) (\<lambda>st.
          andthen (w_u32 (wb st) FDT_END) (\<lambda>w. Inr (if overflow w then None else Some w)))))"

text \<open>The strings block and the header.\<close>

definition copy_tail ::
  "u8 list \<Rightarrow> nat \<Rightarrow> nat \<Rightarrow> bool \<Rightarrow> nat \<Rightarrow> nat \<Rightarrow> nat \<Rightarrow> wbuf \<Rightarrow> fault + (u8 list \<times> nat) option" where
  "copy_tail p in_strings in_tsize add_name cpuid out_rsvmap out_struct w =
     (let out_strings = wpos w in
      andthen (w_copy w p in_strings in_tsize) (\<lambda>w.
      andthen (if add_name then w_bytes w (cs ''bootargs'' @ [0]) else Inr w) (\<lambda>w.
      if overflow w then Inr None
      else
        andthen (put_header (base w)
          [(H_MAGIC, FDT_MAGIC), (H_TOTALSIZE, wpos w), (H_OFF_STRUCT, out_struct),
           (H_OFF_STRINGS, out_strings), (H_OFF_RSVMAP, out_rsvmap), (H_VERSION, 17),
           (H_LAST_COMP, 16), (H_BOOT_CPUID, cpuid), (H_SIZE_STRINGS, wpos w - out_strings),
           (H_SIZE_STRUCT, out_strings - out_struct)]) (\<lambda>b.
        Inr (Some (b, wpos w))))))"

text \<open>
  The result: \<open>None\<close> when it returns false, otherwise the destination afterwards and
  \<open>*out_size\<close>.  The warnings it prints are left out.
\<close>

definition fdt_copy_with_fixups ::
  "u8 list option \<Rightarrow> u8 list \<Rightarrow> nat \<Rightarrow> fixup option \<Rightarrow> fault + (u8 list \<times> nat) option" where
  "fdt_copy_with_fixups src dst capacity fixo =
     andthen (fdt_valid src) (\<lambda>ok.
     case fixo of
       None \<Rightarrow> Inr None
     | Some fx \<Rightarrow>
     if \<not> ok then Inr None
     else
       (let p = the src in
        andthen (root_cells p) (\<lambda>(ac, sc).
        andthen (be32 p H_OFF_STRUCT) (\<lambda>in_struct. andthen (be32 p H_SIZE_STRUCT) (\<lambda>in_ssize.
        andthen (be32 p H_OFF_STRINGS) (\<lambda>in_strings. andthen (be32 p H_SIZE_STRINGS) (\<lambda>in_tsize.
        andthen (be32 p H_OFF_RSVMAP) (\<lambda>in_rsvmap. andthen (be32 p H_BOOT_CPUID) (\<lambda>cpuid.
        andthen (find_string p (cs ''bootargs'')) (\<lambda>found.
        andthen (rsv_length p in_rsvmap 0) (\<lambda>rsv.
        case rsv of None \<Rightarrow> Inr None
        | Some rsv_len \<Rightarrow>
        andthen (w_pad4 \<lparr>base = dst, wcap = capacity, wpos = FDT_HEADER_SIZE, overflow = False\<rparr>) (\<lambda>w.
        (let out_rsvmap = wpos w in
        andthen (w_copy w p in_rsvmap rsv_len) (\<lambda>w.
        andthen (align8_loop 8 w) (\<lambda>al.
        case al of None \<Rightarrow> Inr None
        | Some w \<Rightarrow>
        (let out_struct = wpos w;
             ano = (case found of Some i \<Rightarrow> i | None \<Rightarrow> in_tsize) in
        andthen (copy_struct fx ano ac sc p in_struct in_ssize w) (\<lambda>r.
        case r of None \<Rightarrow> Inr None
        | Some w \<Rightarrow> copy_tail p in_strings in_tsize (found = None) cpuid out_rsvmap out_struct w)))))))))))))))))"

end
