(* ===== verification/FdtWf.thy ===== *)
theory FdtWf
  imports Fdt
begin

text \<open>
  What the device tree editor guarantees.  A well-formed DTB denotes a list of tokens; the
  copy of it denotes the list with the fixups made, and reading \<open>/chosen/bootargs\<close> back from
  the copy gives the new command line.  The proofs go from bytes (segments of a buffer, what
  the writer has put down) to token lists, and argue about the fixups there.
\<close>

section \<open>Big-endian words and segments of a buffer\<close>

lemma length_put_be32 [simp]: "length (put_be32 v) = 4"
  by (simp add: put_be32_def Let_def)

definition seg :: "u8 list \<Rightarrow> nat \<Rightarrow> u8 list \<Rightarrow> bool" where
  "seg b off bs \<longleftrightarrow> off + length bs \<le> length b \<and> take (length bs) (drop off b) = bs"

lemma seg_append: "seg b off (x @ y) \<longleftrightarrow> seg b off x \<and> seg b (off + length x) y"
  by (auto simp: seg_def take_add add.commute)

lemma seg_nth: "seg b off bs \<Longrightarrow> i < length bs \<Longrightarrow> b ! (off + i) = bs ! i"
  by (metis add_leD1 nth_drop nth_take seg_def)

lemma seg_here: "seg (x @ bs @ y) (length x) bs"
  by (simp add: seg_def)

lemma seg_be32:
  assumes "seg b off (put_be32 v)" "v < W32" shows "be32 b off = Inr v"
proof -
  have "b ! off = put_be32 v ! 0" "b ! (off + 1) = put_be32 v ! 1" "b ! (off + 2) = put_be32 v ! 2"
    "b ! (off + 3) = put_be32 v ! 3"
    using seg_nth [OF assms(1), of 0] seg_nth [OF assms(1), of 1] seg_nth [OF assms(1), of 2]
      seg_nth [OF assms(1), of 3] by simp_all
  moreover have "unat (of_nat v :: u32) = v" using assms(2) by (intro unat_of_nat_u32) (simp add: W32_def)
  moreover have "off + 4 \<le> length b" using assms(1) by (simp add: seg_def)
  ultimately show ?thesis by (simp add: be32_def put_be32_def Let_def be32_word_put)
qed

lemma mod4_cases:
  fixes n :: nat
  obtains "n mod 4 = 0" | "n mod 4 = 1" | "n mod 4 = 2" | "n mod 4 = 3"
  by linarith

lemma mod4_Suc: "n mod 4 \<noteq> 0 \<Longrightarrow> (4 - n mod 4) mod 4 = Suc ((4 - (n + 1) mod 4) mod 4)" for n :: nat
  by (rule mod4_cases [of n]) (simp_all add: mod_Suc)

lemma seg_cstr:
  assumes "seg b off (s @ [0])" "is_cstr s" shows "cstr_at b off = Inr s"
proof -
  have l: "off + length s + 1 \<le> length b" using assms(1) by (simp add: seg_def)
  have "take (length (s @ [0])) (drop off b) @ drop (length (s @ [0])) (drop off b) = drop off b"
    by (rule append_take_drop_id)
  then have d: "drop off b = s @ 0 # drop (length (s @ [0])) (drop off b)"
    using assms(1) unfolding seg_def by simp
  have "takeWhile (\<lambda>c. c \<noteq> 0) (drop off b) = s"
    using assms(2) by (subst d) (rule takeWhile_nul, simp add: is_cstr_def)
  then show ?thesis using l by (simp add: cstr_at_def Let_def)
qed

lemma cstr_at_is_cstr: "cstr_at p off = Inr s \<Longrightarrow> is_cstr s"
  by (auto simp: cstr_at_def Let_def is_cstr_def dest: set_takeWhileD split: if_splits)

lemma cstr_at_seg: "cstr_at p off = Inr s \<Longrightarrow> seg p off (s @ [0])"
proof -
  assume "cstr_at p off = Inr s"
  then have s: "s = takeWhile (\<lambda>c. c \<noteq> 0) (drop off p)" "off + length s < length p"
    by (auto simp: cstr_at_def Let_def split: if_splits)
  then have lt: "length s < length (drop off p)" by simp
  then have "drop off p ! length s = 0" using s(1) nth_length_takeWhile by fastforce
  moreover have "take (length s) (drop off p) = s" unfolding s(1) by (rule takeWhile_eq_take [symmetric])
  ultimately have "take (Suc (length s)) (drop off p) = s @ [0]"
    using lt by (simp add: take_Suc_conv_app_nth)
  then show ?thesis using s(2) by (simp add: seg_def)
qed

lemma be32_bound: "be32 p off = Inr v \<Longrightarrow> v < W32 \<and> off + 4 \<le> length p"
  by (auto simp: be32_def W32_def split: if_splits intro: order_less_le_trans [OF unsigned_less])

lemma seg_take: "seg b off bs \<Longrightarrow> off + length bs \<le> n \<Longrightarrow> seg (take n b) off bs"
  by (auto simp: seg_def drop_take take_take min_def)

section \<open>The writer\<close>

text \<open>The writer has put down \<open>P\<close>, or has overflowed because \<open>P\<close> does not fit.\<close>

definition good :: "wbuf \<Rightarrow> u8 list \<Rightarrow> bool" where
  "good w P \<longleftrightarrow> wcap w \<le> length (base w) \<and> wcap w < 2 ^ 30 \<and> wpos w \<le> wcap w \<and>
     (if overflow w then wcap w < length P else wpos w = length P \<and> take (length P) (base w) = P)"

definition same_dst :: "wbuf \<Rightarrow> wbuf \<Rightarrow> bool" where
  "same_dst w w' \<longleftrightarrow> wcap w' = wcap w \<and> length (base w') = length (base w) \<and> (overflow w \<longrightarrow> overflow w')"

lemma same_dst_refl [simp]: "same_dst w w"
  by (simp add: same_dst_def)

lemma same_dst_trans: "same_dst a b \<Longrightarrow> same_dst b c \<Longrightarrow> same_dst a c"
  by (simp add: same_dst_def)

definition writes :: "fault + wbuf \<Rightarrow> wbuf \<Rightarrow> u8 list \<Rightarrow> bool" where
  "writes r w P \<longleftrightarrow> (\<exists>w'. r = Inr w' \<and> good w' P \<and> same_dst w w')"

lemma writes_andthen:
  assumes "writes r w P" "\<And>w'. good w' P \<Longrightarrow> same_dst w w' \<Longrightarrow> writes (f w') w' Q"
  shows "writes (andthen r f) w Q"
  using assms unfolding writes_def by (metis andthen_simps(2) same_dst_trans)

lemma writes_overflow: "writes r w P \<Longrightarrow> overflow w \<Longrightarrow> wcap w < length Q \<Longrightarrow> writes r w Q"
  by (auto simp: writes_def good_def same_dst_def)

lemma store_length: "store b pos bytes = Inr b' \<Longrightarrow> length b' = length b"
  by (auto simp: store_def split: if_splits)

lemma writes_store:
  assumes "good w P" "length src < 2 ^ 30"
  shows "writes (if (wpos w + length src) mod W32 > wcap w then Inr (w\<lparr>overflow := True\<rparr>)
      else andthen (store (base w) (wpos w) src) (\<lambda>b. Inr (w\<lparr>base := b, wpos := (wpos w + length src) mod W32\<rparr>)))
    w (P @ src)"
proof -
  have m: "(wpos w + length src) mod W32 = wpos w + length src"
    using assms by (simp add: good_def W32_def)
  show ?thesis
  proof (cases "wpos w + length src > wcap w")
    case True
    then show ?thesis using assms m by (auto simp: writes_def good_def same_dst_def split: if_splits)
  next
    case False
    have "take (length P + length src) (take (wpos w) (base w) @ src @ drop (wpos w + length src) (base w)) = P @ src"
      if "\<not> overflow w"
      using that assms False by (auto simp: good_def)
    then show ?thesis
      using assms False m by (auto simp: writes_def store_def good_def same_dst_def)
  qed
qed

lemma w_bytes_writes: "good w P \<Longrightarrow> length src < 2 ^ 30 \<Longrightarrow> writes (w_bytes w src) w (P @ src)"
  using writes_store [of w P src] by (simp add: w_bytes_def Let_def)

lemma w_u32_writes: "good w P \<Longrightarrow> writes (w_u32 w v) w (P @ put_be32 v)"
  unfolding w_u32_def using writes_store [of w P "put_be32 v", unfolded length_put_be32] by simp

lemma w_copy_writes:
  "good w P \<Longrightarrow> off + n \<le> length p \<Longrightarrow> n < 2 ^ 30 \<Longrightarrow> writes (w_copy w p off n) w (P @ take n (drop off p))"
proof -
  assume a: "good w P" "off + n \<le> length p" "n < 2 ^ 30"
  then have l: "length (take n (drop off p)) = n" by simp
  have "w_copy w p off n = w_bytes w (take n (drop off p))"
    using a(2) by (simp only: w_copy_def w_bytes_def l Let_def) simp
  then show ?thesis using w_bytes_writes [OF a(1), of "take n (drop off p)"] a(3) l by simp
qed

definition padz :: "nat \<Rightarrow> u8 list" where
  "padz n = replicate ((4 - n mod 4) mod 4) 0"

lemma w_pad_loop_writes:
  "good w P \<Longrightarrow> (\<not> overflow w \<longrightarrow> k = (4 - length P mod 4) mod 4) \<Longrightarrow> (4 - wpos w mod 4) mod 4 < fuel \<Longrightarrow>
     writes (w_pad_loop fuel w) w (P @ replicate k 0)"
proof (induction fuel arbitrary: w P k)
  case (Suc fuel)
  show ?case
  proof (cases "wpos w mod 4 = 0")
    case True
    then have "\<not> overflow w \<longrightarrow> k = 0" using Suc.prems by (auto simp: good_def)
    then show ?thesis using True Suc.prems by (auto simp: writes_def good_def)
  next
    case False
    show ?thesis
    proof (cases "wpos w \<ge> wcap w")
      case True
      moreover have "\<not> overflow w \<Longrightarrow> 0 < k" using mod4_Suc [OF False] Suc.prems(1,2) by (auto simp: good_def)
      ultimately show ?thesis using False Suc.prems(1)
        by (auto simp: writes_def good_def same_dst_def split: if_splits)
    next
      case room: False
      have m: "(wpos w + 1) mod W32 = wpos w + 1" using Suc.prems(1) by (simp add: good_def W32_def)
      let ?b = "take (wpos w) (base w) @ [0] @ drop (wpos w + 1) (base w)"
      let ?w = "w\<lparr>base := ?b, wpos := wpos w + 1\<rparr>"
      have st: "store (base w) (wpos w) [0] = Inr ?b"
        using room Suc.prems(1) by (auto simp: store_def good_def)
      have g: "good ?w (P @ [0])" using room Suc.prems(1) by (auto simp: good_def)
      have sd: "same_dst w ?w" using room Suc.prems(1) by (auto simp: same_dst_def good_def)
      note arith = mod4_Suc [OF False]
      have pw: "wpos ?w = wpos w + 1" "length (P @ [0]) = length P + 1" by simp_all
      have "writes (w_pad_loop fuel ?w) ?w ((P @ [0]) @ replicate (k - 1) 0)"
      proof (rule Suc.IH [OF g])
        show "(4 - wpos ?w mod 4) mod 4 < fuel" unfolding pw using arith Suc.prems(3) by linarith
        show "\<not> overflow ?w \<longrightarrow> k - 1 = (4 - length (P @ [0]) mod 4) mod 4"
          unfolding pw using arith Suc.prems(1,2) by (auto simp: good_def)
      qed
      moreover have "(P @ [0]) @ replicate (k - 1) 0 = P @ replicate k 0" if "\<not> overflow w"
      proof -
        have "k = Suc ((4 - (wpos w + 1) mod 4) mod 4)"
          using that Suc.prems(1,2) arith by (simp only: good_def) simp
        then show ?thesis by simp
      qed
      ultimately have "writes (w_pad_loop fuel ?w) ?w (P @ replicate k 0)"
        using writes_overflow [of _ ?w "(P @ [0]) @ replicate (k - 1) 0" "P @ replicate k 0"] Suc.prems(1)
        by (cases "overflow w") (auto simp: good_def)
      then have "writes (w_pad_loop fuel ?w) w (P @ replicate k 0)"
        using same_dst_trans [OF sd] unfolding writes_def by blast
      then show ?thesis using False room st m by simp
    qed
  qed
qed simp

lemma w_pad4_writes: "good w P \<Longrightarrow> writes (w_pad4 w) w (P @ padz (length P))"
  unfolding w_pad4_def padz_def by (rule w_pad_loop_writes) auto

lemma padz_mod: "4 dvd m \<Longrightarrow> padz (m + n) = padz n"
  unfolding padz_def by (metis add_0 dvd_imp_mod_0 mod_add_left_eq)

lemma padz_length: "4 dvd n + length (padz n)"
  unfolding padz_def length_replicate by (rule mod4_cases [of n]) (simp_all, presburger+)

section \<open>Tokens\<close>

text \<open>The tokens of the structure block; a property has its name and the name's offset.\<close>

datatype tok = TBegin cstring | TProp nat cstring "u8 list" | TEnd | TNop

text \<open>The bytes the writer puts down for a token.\<close>

fun enc :: "tok \<Rightarrow> u8 list" where
  "enc (TBegin nm) = put_be32 FDT_BEGIN_NODE @ nm @ [0] @ padz (length nm + 1)"
| "enc (TProp no nm val) = put_be32 FDT_PROP @ put_be32 (length val) @ put_be32 no @ val @ padz (length val)"
| "enc TEnd = put_be32 FDT_END_NODE"
| "enc TNop = put_be32 FDT_NOP"

text \<open>The tokens a buffer holds from one offset to another.\<close>

inductive stream :: "u8 list \<Rightarrow> nat \<Rightarrow> tok list \<Rightarrow> nat \<Rightarrow> bool" for p :: "u8 list" where
  st_nil: "stream p off [] off"
| st_begin: "\<lbrakk>be32 p off = Inr FDT_BEGIN_NODE; cstr_at p (off + 4) = Inr nm;
     off + 4 + align4 (length nm + 1) \<le> length p; stream p (off + 4 + align4 (length nm + 1)) ts e\<rbrakk>
     \<Longrightarrow> stream p off (TBegin nm # ts) e"
| st_prop: "\<lbrakk>be32 p off = Inr FDT_PROP; be32 p (off + 4) = Inr len; be32 p (off + 8) = Inr no;
     string_at p no = Inr nm; len \<le> length p; off + 12 + align4 len \<le> length p;
     stream p (off + 12 + align4 len) ts e\<rbrakk>
     \<Longrightarrow> stream p off (TProp no nm (take len (drop (off + 12) p)) # ts) e"
| st_end: "\<lbrakk>be32 p off = Inr FDT_END_NODE; stream p (off + 4) ts e\<rbrakk> \<Longrightarrow> stream p off (TEnd # ts) e"
| st_nop: "\<lbrakk>be32 p off = Inr FDT_NOP; stream p (off + 4) ts e\<rbrakk> \<Longrightarrow> stream p off (TNop # ts) e"

inductive_cases stream_NilE: "stream p off [] e"
inductive_cases stream_BeginE: "stream p off (TBegin nm # ts) e"
inductive_cases stream_PropE: "stream p off (TProp no nm val # ts) e"
inductive_cases stream_EndE: "stream p off (TEnd # ts) e"
inductive_cases stream_NopE: "stream p off (TNop # ts) e"

lemma align4_bounds: "n < 2 ^ 30 \<Longrightarrow> n \<le> align4 n \<and> align4 n < n + 4 \<and> align4 n < W32"
proof -
  assume n: "n < 2 ^ 30"
  then have m: "(n + 3) mod W32 = n + 3" by (simp add: W32_def)
  have "(n + 3) div 4 * 4 + (n + 3) mod 4 = n + 3" by simp
  moreover have "(n + 3) mod 4 < 4" by simp
  ultimately have b: "n \<le> (n + 3) div 4 * 4" "(n + 3) div 4 * 4 \<le> n + 3" by linarith+
  have "n + 4 \<le> W32" using n by (simp add: W32_def)
  then show ?thesis unfolding align4_def m using b by linarith
qed

lemma align4_padz: "n < 2 ^ 30 \<Longrightarrow> align4 n = n + length (padz n)"
proof -
  assume n: "n < 2 ^ 30"
  then have m: "(n + 3) mod W32 = n + 3" by (simp add: W32_def)
  show ?thesis
    unfolding align4_def m padz_def length_replicate by (rule mod4_cases [of n]) (simp_all, presburger+)
qed

lemma stream_le: "stream p off ts e \<Longrightarrow> length p < 2 ^ 30 \<Longrightarrow> off + 4 * length ts \<le> e"
  by (induction rule: stream.induct) auto

lemma stream_end: "stream p off ts e \<Longrightarrow> off \<le> length p \<Longrightarrow> length p < 2 ^ 30 \<Longrightarrow> e \<le> length p"
  by (induction rule: stream.induct) (auto dest: be32_bound)

section \<open>The fixups on tokens\<close>

definition enters :: "int \<Rightarrow> cstring \<Rightarrow> bool" where
  "enters d nm \<longleftrightarrow> d = 1 \<and> nm = cs ''chosen''"

definition arg_toks :: "fixup \<Rightarrow> nat \<Rightarrow> tok list" where
  "arg_toks fx ano = (case bootargs fx of None \<Rightarrow> [] | Some a \<Rightarrow> [TProp ano (cs ''bootargs'') (a @ [0])])"

text \<open>
  The depth, whether the walk is inside \<open>/chosen\<close> and \<open>/memory\<close>, and whether the command
  line has been written, as in the source; the tokens the copy consists of.
\<close>

fun fix_toks :: "fixup \<Rightarrow> nat \<Rightarrow> nat \<Rightarrow> nat \<Rightarrow> int \<Rightarrow> bool \<Rightarrow> bool \<Rightarrow> bool \<Rightarrow> tok list \<Rightarrow> tok list" where
  "fix_toks fx ano ac sc d c m w [] = []"
| "fix_toks fx ano ac sc d c m w (TBegin nm # ts) =
     (let c' = (c \<or> enters d nm);
          m' = (m \<or> d = 1 \<and> mem_size fx \<noteq> 0 \<and> is_memory_node nm)
      in TBegin nm # (if c' \<and> \<not> w then arg_toks fx ano else [])
         @ fix_toks fx ano ac sc (d + 1) c' m' (w \<or> c' \<and> bootargs fx \<noteq> None) ts)"
| "fix_toks fx ano ac sc d c m w (TProp no nm val # ts) =
     (if c \<and> bootargs fx \<noteq> None \<and> nm = cs ''bootargs'' then []
      else if m \<and> nm = cs ''reg''
      then [TProp no nm (write_cells (mem_base fx) ac @ write_cells (mem_size fx) sc)]
      else [TProp no nm val])
     @ fix_toks fx ano ac sc d c m w ts"
| "fix_toks fx ano ac sc d c m w (TEnd # ts) =
     TEnd # fix_toks fx ano ac sc (d - 1) (c \<and> d \<noteq> 2) (m \<and> d \<noteq> 2) w ts"
| "fix_toks fx ano ac sc d c m w (TNop # ts) = fix_toks fx ano ac sc d c m w ts"

text \<open>Whether there is a \<open>/chosen\<close> at all.\<close>

fun has_chosen :: "int \<Rightarrow> tok list \<Rightarrow> bool" where
  "has_chosen d [] \<longleftrightarrow> False"
| "has_chosen d (TBegin nm # ts) \<longleftrightarrow> enters d nm \<or> has_chosen (d + 1) ts"
| "has_chosen d (TEnd # ts) \<longleftrightarrow> has_chosen (d - 1) ts"
| "has_chosen d (_ # ts) \<longleftrightarrow> has_chosen d ts"

definition fixed :: "fixup \<Rightarrow> nat \<Rightarrow> nat \<Rightarrow> nat \<Rightarrow> tok list \<Rightarrow> tok list" where
  "fixed fx ano ac sc ts =
     (let o' = fix_toks fx ano ac sc 0 False False False ts in
      if bootargs fx \<noteq> None \<and> \<not> has_chosen 0 ts
      then butlast o' @ [TBegin (cs ''chosen'')] @ arg_toks fx ano @ [TEnd, TEnd]
      else o')"

text \<open>What the reader finds.\<close>

fun find_toks :: "int \<Rightarrow> bool \<Rightarrow> tok list \<Rightarrow> u8 list option" where
  "find_toks d c [] = None"
| "find_toks d c (TBegin nm # ts) = find_toks (d + 1) (c \<or> enters d nm) ts"
| "find_toks d c (TEnd # ts) = find_toks (d - 1) (c \<and> d \<noteq> 2) ts"
| "find_toks d c (TProp no nm val # ts) =
     (if c \<and> nm = cs ''bootargs'' \<and> val \<noteq> [] then Some val else find_toks d c ts)"
| "find_toks d c (TNop # ts) = find_toks d c ts"

section \<open>The loops on a stream\<close>

text \<open>The structure block ends where the stream does, or goes on with an \<open>END\<close> token.\<close>

definition ends_at :: "u8 list \<Rightarrow> nat \<Rightarrow> nat \<Rightarrow> bool" where
  "ends_at p e fin \<longleftrightarrow> e = fin \<or> e < fin \<and> be32 p e = Inr FDT_END"

lemma plain_strcmp: "cstr_at p off = Inr s \<Longrightarrow> is_cstr t \<Longrightarrow> strcmp s t = 0 \<longleftrightarrow> s = t"
  using cstr_at_is_cstr strcmp_zero_iff by blast

lemma string_at_is_cstr: "string_at p off = Inr s \<Longrightarrow> is_cstr s"
  by (auto simp: string_at_def andthen_Inr_iff dest: cstr_at_is_cstr)

lemma fdt_names [simp]: "is_cstr (cs ''chosen'')" "is_cstr (cs ''bootargs'')" "is_cstr (cs ''reg'')"
  "is_cstr (cs ''#address-cells'')" "is_cstr (cs ''#size-cells'')" "is_cstr (cs ''memory'')"
  by (simp_all add: cs_def)

lemma cstr_length: "cstr_at p off = Inr s \<Longrightarrow> off + length s < length p"
  by (auto simp: cstr_at_def Let_def split: if_splits)

lemma W32_mod: "n \<le> length (p :: u8 list) \<Longrightarrow> length p < 2 ^ 30 \<Longrightarrow> n mod W32 = n"
  by (simp add: W32_def)

lemma cstr_at_take:
  assumes "0 \<in> set (take len (drop off p))"
  shows "cstr_at p off = Inr (takeWhile (\<lambda>c. c \<noteq> 0) (take len (drop off p)))"
proof -
  obtain s t where st: "take len (drop off p) = s @ 0 # t" "0 \<notin> set s"
    using split_list_first [OF assms] by blast
  then have d: "drop off p = s @ 0 # t @ drop len (drop off p)"
    by (metis append.assoc append_Cons append_take_drop_id)
  from arg_cong [OF d, of length] have "off + length s < length p" by simp
  moreover have "takeWhile (\<lambda>c. c \<noteq> 0) (drop off p) = s" by (subst d) (rule takeWhile_nul [OF st(2)])
  moreover have "takeWhile (\<lambda>c. c \<noteq> 0) (take len (drop off p)) = s"
    unfolding st(1) by (rule takeWhile_nul [OF st(2)])
  ultimately show ?thesis by (simp add: cstr_at_def Let_def)
qed

lemma off_steps: "x + 4 + 4 = x + (8 :: nat)" "x + 4 + 8 = x + (12 :: nat)"
  by simp_all

lemma find_bootargs_stream:
  assumes "stream p off ts e" "ends_at p e fin" "length p < 2 ^ 30" "length ts < fuel"
    and "\<forall>val. find_toks d c ts = Some val \<longrightarrow> 0 \<in> set val"
  shows "find_bootargs_loop fuel p off fin d c =
    Inr (map_option (takeWhile (\<lambda>b. b \<noteq> 0)) (find_toks d c ts))"
  using assms
proof (induction arbitrary: fuel d c rule: stream.induct)
  case (st_nil off)
  then obtain k where "fuel = Suc k" by (cases fuel) auto
  with st_nil show ?case by (auto simp: ends_at_def fdt_tokens)
next
  case (st_begin off nm ts e)
  then obtain k where k: "fuel = Suc k" by (cases fuel) auto
  have lt: "off < fin" using stream_le [OF st_begin(4)] st_begin(6,7) by (auto simp: ends_at_def)
  have m: "(off + 4) mod W32 = off + 4" "(off + 4 + align4 (length nm + 1)) mod W32 = off + 4 + align4 (length nm + 1)"
    using st_begin(3,7) by (auto intro!: W32_mod [of _ p])
  have "strlen nm = length nm" using cstr_at_is_cstr [OF st_begin(2)] by (simp add: strlen_length)
  then show ?case
    using st_begin lt m k plain_strcmp [OF st_begin(2), of "cs ''chosen''"]
    by (simp add: enters_def Let_def fdt_tokens)
next
  case (st_prop off len no nm ts e)
  then obtain k where k: "fuel = Suc k" by (cases fuel) auto
  have lt: "off < fin" using stream_le [OF st_prop(7)] st_prop(9,10) by (auto simp: ends_at_def)
  have m: "(off + 4) mod W32 = off + 4" "(off + 12 + align4 len) mod W32 = off + 12 + align4 len"
    using st_prop(6,10) by (auto intro!: W32_mod [of _ p])
  let ?val = "take len (drop (off + 12) p)"
  have ne: "?val \<noteq> [] \<longleftrightarrow> len > 0"
    using st_prop(6) align4_bounds [of len] st_prop(5,10) by auto
  have z: "c \<Longrightarrow> nm = cs ''bootargs'' \<Longrightarrow> ?val \<noteq> [] \<Longrightarrow> cstr_at p (off + 12) = Inr (takeWhile (\<lambda>b. b \<noteq> 0) ?val)"
    using st_prop(12) by (intro cstr_at_take) auto
  have "strcmp nm (cs ''bootargs'') = 0 \<longleftrightarrow> nm = cs ''bootargs''"
    using string_at_is_cstr [OF st_prop(4)] by (simp add: strcmp_zero_iff)
  then show ?case
    using st_prop lt m k ne z by (auto simp: Let_def fdt_tokens off_steps)
next
  case (st_end off ts e)
  then obtain k where k: "fuel = Suc k" by (cases fuel) auto
  have lt: "off < fin" using stream_le [OF st_end(2)] st_end(4,5) by (auto simp: ends_at_def)
  have m: "(off + 4) mod W32 = off + 4" using be32_bound [OF st_end(1)] st_end(5) by (auto intro!: W32_mod [of _ p])
  show ?case using st_end lt m k by (simp add: Let_def fdt_tokens)
next
  case (st_nop off ts e)
  then obtain k where k: "fuel = Suc k" by (cases fuel) auto
  have lt: "off < fin" using stream_le [OF st_nop(2)] st_nop(4,5) by (auto simp: ends_at_def)
  have m: "(off + 4) mod W32 = off + 4" using be32_bound [OF st_nop(1)] st_nop(5) by (auto intro!: W32_mod [of _ p])
  show ?case using st_nop lt m k by (simp add: Let_def fdt_tokens)
qed

lemma root_cells_stream:
  "stream p off ts e \<Longrightarrow> ends_at p e fin \<Longrightarrow> length p < 2 ^ 30 \<Longrightarrow> length ts < fuel \<Longrightarrow>
     \<exists>r. root_cells_loop fuel p off fin d ac sc = Inr r"
proof (induction arbitrary: fuel d ac sc rule: stream.induct)
  case (st_nil off)
  then obtain k where "fuel = Suc k" by (cases fuel) auto
  with st_nil show ?case by (auto simp: ends_at_def fdt_tokens)
next
  case (st_begin off nm ts e)
  then obtain k where k: "fuel = Suc k" by (cases fuel) auto
  have m: "(off + 4) mod W32 = off + 4" "(off + 4 + align4 (length nm + 1)) mod W32 = off + 4 + align4 (length nm + 1)"
    using st_begin(3,7) by (auto intro!: W32_mod [of _ p])
  have "strlen nm = length nm" using cstr_at_is_cstr [OF st_begin(2)] by (simp add: strlen_length)
  then show ?case using st_begin m k by (simp add: Let_def fdt_tokens)
next
  case (st_prop off len no nm ts e)
  then obtain k where k: "fuel = Suc k" by (cases fuel) auto
  have m: "(off + 4) mod W32 = off + 4" "(off + 12 + align4 len) mod W32 = off + 12 + align4 len"
    using st_prop(6,10) by (auto intro!: W32_mod [of _ p])
  have v: "\<exists>v. be32 p (off + 12) = Inr v" if "len = 4"
    using st_prop(6) that by (simp add: be32_def align4_def W32_def)
  have IH: "\<exists>r. root_cells_loop k p (off + 12 + align4 len) fin d ac' sc' = Inr r" for ac' sc'
    using st_prop by (auto simp: k)
  show ?case
    using st_prop(1-4) m k v IH by (auto simp: Let_def fdt_tokens off_steps)
next
  case (st_end off ts e)
  then obtain k where k: "fuel = Suc k" by (cases fuel) auto
  show ?case using st_end k by (simp add: Let_def fdt_tokens)
next
  case (st_nop off ts e)
  then obtain k where k: "fuel = Suc k" by (cases fuel) auto
  have m: "(off + 4) mod W32 = off + 4" using be32_bound [OF st_nop(1)] st_nop(5) by (auto intro!: W32_mod [of _ p])
  show ?case using st_nop m k by (simp add: Let_def fdt_tokens)
qed

section \<open>What each step writes\<close>

lemma enc_mod4 [simp]: "4 dvd length (enc t)"
proof (cases t)
  case (TBegin nm)
  have "length (enc t) = 4 + (length nm + 1 + length (padz (length nm + 1)))" by (simp add: TBegin)
  then show ?thesis using padz_length [of "length nm + 1"] by (simp only:) (rule dvd_add, simp_all)
next
  case (TProp no nm val)
  have "length (enc t) = 12 + (length val + length (padz (length val)))" by (simp add: TProp)
  then show ?thesis using padz_length [of "length val"] by (simp only:) (rule dvd_add, simp_all)
qed simp_all

lemma encs_mod4 [simp]: "4 dvd length (concat (map enc ts))"
  by (induction ts) (auto intro: dvd_add)

lemma writesD: "writes r w P \<Longrightarrow> \<exists>w'. r = Inr w' \<and> good w' P \<and> same_dst w w'"
  by (simp add: writes_def)

lemma w_prop_writes:
  assumes "good w P" "4 dvd length P" "length val < 2 ^ 30"
  shows "writes (w_prop w no val) w (P @ enc (TProp no nm val))"
proof -
  let ?Q = "(((P @ put_be32 FDT_PROP) @ put_be32 (length val)) @ put_be32 no) @ val"
  have pad: "padz (length ?Q) = padz (length val)"
    using padz_mod [of "length P + 12" "length val"] assms(2) by (auto simp: algebra_simps intro: dvd_add)
  have "writes (w_prop w no val) w (?Q @ padz (length ?Q))"
    unfolding w_prop_def
    by (rule writes_andthen [OF w_u32_writes [OF assms(1)]], rule writes_andthen [OF w_u32_writes], assumption,
        rule writes_andthen [OF w_u32_writes], assumption,
        rule writes_andthen [OF w_bytes_writes [OF _ assms(3)]], assumption, rule w_pad4_writes)
  then show ?thesis unfolding pad by simp
qed

lemma w_begin_writes:
  assumes "good w P" "4 dvd length P" "length nm + 1 < 2 ^ 30"
  shows "writes (andthen (w_u32 w FDT_BEGIN_NODE) (\<lambda>w. andthen (w_bytes w (nm @ [0])) (\<lambda>w. w_pad4 w))) w
    (P @ enc (TBegin nm))"
proof -
  let ?Q = "(P @ put_be32 FDT_BEGIN_NODE) @ nm @ [0]"
  have pad: "padz (length ?Q) = padz (length nm + 1)"
    using padz_mod [of "length P + 4" "length nm + 1"] assms(2) by (auto simp: algebra_simps intro: dvd_add)
  have "writes (andthen (w_u32 w FDT_BEGIN_NODE) (\<lambda>w. andthen (w_bytes w (nm @ [0])) (\<lambda>w. w_pad4 w))) w
      (?Q @ padz (length ?Q))"
    by (rule writes_andthen [OF w_u32_writes [OF assms(1)]], rule writes_andthen [OF w_bytes_writes], assumption,
        simp add: assms(3) [simplified], rule w_pad4_writes)
  then show ?thesis unfolding pad by simp
qed

text \<open>The state after a step: what has been written and the flags.\<close>

definition at :: "cst \<Rightarrow> u8 list \<Rightarrow> int \<Rightarrow> bool \<Rightarrow> bool \<Rightarrow> bool \<Rightarrow> bool \<Rightarrow> bool" where
  "at st P d c m w s \<longleftrightarrow> good (wb st) P \<and> depth st = d \<and> in_chosen st = c \<and> in_memory st = m \<and>
     wrote_args st = w \<and> saw_chosen st = s"

definition args_small :: "fixup \<Rightarrow> bool" where
  "args_small fx \<longleftrightarrow> (\<forall>a. bootargs fx = Some a \<longrightarrow> is_cstr a \<and> length a + 1 < 2 ^ 30)"

lemma copy_begin_at:
  assumes "at st P d c m w s" "4 dvd length P" "is_cstr nm" "length nm + 1 < 2 ^ 30" "args_small fx"
  shows "\<exists>st'. copy_begin fx ano nm st = Inr st' \<and> same_dst (wb st) (wb st') \<and>
    at st' (P @ enc (TBegin nm) @ concat (map enc (if (c \<or> enters d nm) \<and> \<not> w then arg_toks fx ano else [])))
      (d + 1) (c \<or> enters d nm) (m \<or> d = 1 \<and> mem_size fx \<noteq> 0 \<and> is_memory_node nm)
      (w \<or> (c \<or> enters d nm) \<and> bootargs fx \<noteq> None) (s \<or> enters d nm)"
proof -
  let ?c = "c \<or> enters d nm"
  have g: "good (wb st) P" using assms(1) by (simp add: at_def)
  obtain w1 where w1: "andthen (w_u32 (wb st) FDT_BEGIN_NODE) (\<lambda>w. andthen (w_bytes w (nm @ [0])) (\<lambda>w. w_pad4 w)) = Inr w1"
      "good w1 (P @ enc (TBegin nm))" "same_dst (wb st) w1"
    using writesD [OF w_begin_writes [OF g assms(2,4)]] by blast
  have go: "andthen (w_u32 (wb st) FDT_BEGIN_NODE) (\<lambda>w. andthen (w_bytes w (nm @ [0])) (\<lambda>w. andthen (w_pad4 w) f)) = f w1" for f
    using arg_cong [OF w1(1), of "\<lambda>r. andthen r f"] by (simp add: andthen_assoc)
  have sc: "enters d nm \<longleftrightarrow> d = 1 \<and> strcmp nm (cs ''chosen'') = 0"
    using assms(3) by (simp add: strcmp_zero_iff enters_def)
  have d: "depth st = d" "in_chosen st = c" "in_memory st = m" "wrote_args st = w" "saw_chosen st = s"
    using assms(1) by (auto simp: at_def)
  show ?thesis
  proof (cases "bootargs fx")
    case None
    then show ?thesis
      using w1(2,3) by (auto simp: copy_begin_def Let_def go sc d at_def arg_toks_def)
  next
    case (Some a)
    have a: "length (a @ [0]) < 2 ^ 30" using assms(5) Some by (simp add: args_small_def)
    have "4 dvd length (P @ enc (TBegin nm))" using assms(2) by (simp only: length_append) (rule dvd_add, simp_all del: enc.simps)
    from writesD [OF w_prop_writes [OF w1(2) this a, of ano "cs ''bootargs''"]]
    obtain w2 where w2: "w_prop w1 ano (a @ [0]) = Inr w2" "good w2 ((P @ enc (TBegin nm)) @ enc (TProp ano (cs ''bootargs'') (a @ [0])))"
        "same_dst w1 w2" by blast
    note sd = same_dst_trans [OF w1(3) w2(3)]
    show ?thesis
      using w1(2,3) w2 sd Some
      by (auto simp: copy_begin_def Let_def go sc d at_def arg_toks_def simp del: enc.simps)
  qed
qed

lemma write_cells_length: "length (write_cells v n) \<le> 8"
  by (simp add: write_cells_def)

lemma copy_prop_at:
  assumes "at st P d c m w s" "4 dvd length P" "string_at p no = Inr nm" "off + 12 + len \<le> length p"
    "length p < 2 ^ 30"
  shows "\<exists>st'. copy_prop fx ac sc p off len no st = Inr st' \<and> same_dst (wb st) (wb st') \<and>
    at st' (P @ concat (map enc
       (if c \<and> bootargs fx \<noteq> None \<and> nm = cs ''bootargs'' then []
        else if m \<and> nm = cs ''reg''
        then [TProp no nm (write_cells (mem_base fx) ac @ write_cells (mem_size fx) sc)]
        else [TProp no nm (take len (drop (off + 12) p))]))) d c m w s"
proof -
  have g: "good (wb st) P" using assms(1) by (simp add: at_def)
  have nm: "strcmp nm (cs ''bootargs'') = 0 \<longleftrightarrow> nm = cs ''bootargs''" "strcmp nm (cs ''reg'') = 0 \<longleftrightarrow> nm = cs ''reg''"
    using string_at_is_cstr [OF assms(3)] by (simp_all add: strcmp_zero_iff)
  let ?cells = "write_cells (mem_base fx) ac @ write_cells (mem_size fx) sc"
  let ?val = "take len (drop (off + 12) p)"
  have "length ?cells < 2 ^ 30" using write_cells_length [of "mem_base fx" ac] write_cells_length [of "mem_size fx" sc] by simp
  from writesD [OF w_prop_writes [OF g assms(2) this, of no nm]]
  obtain w1 where w1: "w_prop (wb st) no ?cells = Inr w1" "good w1 (P @ enc (TProp no nm ?cells))" "same_dst (wb st) w1"
    by blast
  have len: "length ?val = len" "len < 2 ^ 30" using assms(4,5) by auto
  have pad: "padz (length ((((P @ put_be32 FDT_PROP) @ put_be32 len) @ put_be32 no) @ ?val)) = padz len"
    using padz_mod [of "length P + 12" len] assms(2) len(1) by (auto simp: algebra_simps intro: dvd_add)
  have "writes (andthen (w_u32 (wb st) FDT_PROP) (\<lambda>w. andthen (w_u32 w len) (\<lambda>w. andthen (w_u32 w no) (\<lambda>w.
       andthen (w_copy w p (off + 12) len) (\<lambda>w. w_pad4 w))))) (wb st)
     (((((P @ put_be32 FDT_PROP) @ put_be32 len) @ put_be32 no) @ ?val)
       @ padz (length ((((P @ put_be32 FDT_PROP) @ put_be32 len) @ put_be32 no) @ ?val)))"
    by (rule writes_andthen [OF w_u32_writes [OF g]], rule writes_andthen [OF w_u32_writes], assumption,
        rule writes_andthen [OF w_u32_writes], assumption,
        rule writes_andthen [OF w_copy_writes [OF _ assms(4) len(2)]], assumption, rule w_pad4_writes)
  then obtain w2 where w2: "andthen (w_u32 (wb st) FDT_PROP) (\<lambda>w. andthen (w_u32 w len) (\<lambda>w. andthen (w_u32 w no) (\<lambda>w.
       andthen (w_copy w p (off + 12) len) (\<lambda>w. w_pad4 w)))) = Inr w2" "good w2 (P @ enc (TProp no nm ?val))"
       "same_dst (wb st) w2"
    unfolding pad using len(1) by (auto dest!: writesD)
  have go: "andthen (w_u32 (wb st) FDT_PROP) (\<lambda>w. andthen (w_u32 w len) (\<lambda>w. andthen (w_u32 w no) (\<lambda>w.
       andthen (w_copy w p (off + 12) len) (\<lambda>w. andthen (w_pad4 w) f)))) = f w2" for f
    using arg_cong [OF w2(1), of "\<lambda>r. andthen r f"] by (simp add: andthen_assoc)
  have str: "(if in_chosen st \<and> bootargs fx \<noteq> None \<or> in_memory st then string_at p no else Inr []) =
      Inr (if in_chosen st \<and> bootargs fx \<noteq> None \<or> in_memory st then nm else [])"
    by (cases "in_chosen st \<and> bootargs fx \<noteq> None \<or> in_memory st")
       (simp_all only: assms(3) if_True if_False not_True_eq_False)
  have d: "depth st = d" "in_chosen st = c" "in_memory st = m" "wrote_args st = w" "saw_chosen st = s"
    using assms(1) by (auto simp: at_def)
  show ?thesis
    unfolding copy_prop_def str using w1 w2(2,3) g by (auto simp: go d nm at_def simp del: enc.simps)
qed

lemma copy_end_at:
  assumes "at st P d c m w s"
  shows "\<exists>st'. copy_end_node st = Inr st' \<and> same_dst (wb st) (wb st') \<and>
    at st' (P @ enc TEnd) (d - 1) (c \<and> d \<noteq> 2) (m \<and> d \<noteq> 2) w s"
proof -
  have g: "good (wb st) P" using assms by (simp add: at_def)
  from writesD [OF w_u32_writes [OF g, of FDT_END_NODE]] show ?thesis
    using assms by (auto simp: copy_end_node_def at_def Let_def)
qed

section \<open>The copying loop\<close>

lemma copy_loop_overflow:
  "overflow (wb st) \<Longrightarrow> 0 < fuel \<Longrightarrow> copy_loop fuel fx ano ac sc p off fin st = Inr (Some st)"
  by (cases fuel) auto

lemma good_overflow: "good w P \<Longrightarrow> overflow w \<Longrightarrow> good w (P @ Q)"
  by (simp add: good_def)

lemma copy_loop_stream:
  assumes "stream p off ts e" "ends_at p e fin" "length p < 2 ^ 30" "length ts < fuel"
    and "at st P d c m w s" "4 dvd length P" "args_small fx"
  shows "\<exists>st'. copy_loop fuel fx ano ac sc p off fin st = Inr (Some st') \<and> same_dst (wb st) (wb st') \<and>
    good (wb st') (P @ concat (map enc (fix_toks fx ano ac sc d c m w ts))) \<and>
    (overflow (wb st') \<or> saw_chosen st' = (s \<or> has_chosen d ts))"
  using assms
proof (induction arbitrary: fuel st P d c m w s rule: stream.induct)
  case (st_nil off)
  then obtain k where "fuel = Suc k" by (cases fuel) auto
  with st_nil show ?case by (auto simp: ends_at_def fdt_tokens at_def)
next
  case (st_begin off nm ts e)
  obtain k where k: "fuel = Suc k" using st_begin.prems(3) by (cases fuel) auto
  show ?case
  proof (cases "overflow (wb st)")
    case True
    then show ?thesis using st_begin.prems(3,4) copy_loop_overflow [of st fuel] good_overflow by (auto simp: at_def)
  next
    case False
    have lt: "off < fin" using stream_le [OF st_begin(4) st_begin.prems(2)] st_begin.prems(1) by (auto simp: ends_at_def)
    have m: "(off + 4 + align4 (length nm + 1)) mod W32 = off + 4 + align4 (length nm + 1)"
      using st_begin(3) st_begin.prems(2) by (auto intro!: W32_mod [of _ p])
    have nm: "is_cstr nm" "strlen nm = length nm" "length nm + 1 < 2 ^ 30"
      using cstr_at_is_cstr [OF st_begin(2)] cstr_length [OF st_begin(2)] st_begin.prems(2) by (auto simp: strlen_length)
    let ?out = "enc (TBegin nm) @ concat (map enc (if (c \<or> enters d nm) \<and> \<not> w then arg_toks fx ano else []))"
    obtain st1 where st1: "copy_begin fx ano nm st = Inr st1" "same_dst (wb st) (wb st1)"
        "at st1 (P @ ?out) (d + 1) (c \<or> enters d nm) (m \<or> d = 1 \<and> mem_size fx \<noteq> 0 \<and> is_memory_node nm)
          (w \<or> (c \<or> enters d nm) \<and> bootargs fx \<noteq> None) (s \<or> enters d nm)"
      using copy_begin_at [OF st_begin.prems(4,5) nm(1,3) st_begin.prems(6)] by blast
    have four: "4 dvd length (P @ ?out)"
      using st_begin.prems(5) by (simp only: length_append) (intro dvd_add, simp_all del: enc.simps)
    have "length ts < k" using st_begin.prems(3) k by simp
    from st_begin.IH [OF st_begin.prems(1,2) this st1(3) four st_begin.prems(6)]
    obtain st2 where st2: "copy_loop k fx ano ac sc p (off + 4 + align4 (length nm + 1)) fin st1 = Inr (Some st2)"
        "same_dst (wb st1) (wb st2)"
        "good (wb st2) ((P @ ?out) @ concat (map enc (fix_toks fx ano ac sc (d + 1) (c \<or> enters d nm)
          (m \<or> d = 1 \<and> mem_size fx \<noteq> 0 \<and> is_memory_node nm) (w \<or> (c \<or> enters d nm) \<and> bootargs fx \<noteq> None) ts)))"
        "overflow (wb st2) \<or> saw_chosen st2 = ((s \<or> enters d nm) \<or> has_chosen (d + 1) ts)"
      by blast
    have "copy_loop fuel fx ano ac sc p off fin st = Inr (Some st2)"
      using st_begin(1,2) lt False m nm(2) st1(1) st2(1) by (simp add: k)
    then show ?thesis
      using st2(2-4) same_dst_trans [OF st1(2) st2(2)] by (auto simp: Let_def simp del: enc.simps)
  qed
next
  case (st_prop off len no nm ts e)
  obtain k where k: "fuel = Suc k" using st_prop.prems(3) by (cases fuel) auto
  show ?case
  proof (cases "overflow (wb st)")
    case True
    then show ?thesis using st_prop.prems(3,4) copy_loop_overflow [of st fuel] good_overflow by (auto simp: at_def)
  next
    case False
    have lt: "off < fin" using stream_le [OF st_prop(7) st_prop.prems(2)] st_prop.prems(1) by (auto simp: ends_at_def)
    have m: "(off + 12 + align4 len) mod W32 = off + 12 + align4 len"
      using st_prop(6) st_prop.prems(2) by (auto intro!: W32_mod [of _ p])
    have in_p: "off + 12 + len \<le> length p"
      using st_prop(5,6) align4_bounds [of len] st_prop.prems(2) by simp
    let ?ts = "if c \<and> bootargs fx \<noteq> None \<and> nm = cs ''bootargs'' then []
        else if m \<and> nm = cs ''reg''
        then [TProp no nm (write_cells (mem_base fx) ac @ write_cells (mem_size fx) sc)]
        else [TProp no nm (take len (drop (off + 12) p))]"
    let ?out = "concat (map enc ?ts)"
    obtain st1 where st1: "copy_prop fx ac sc p off len no st = Inr st1" "same_dst (wb st) (wb st1)"
        "at st1 (P @ ?out) d c m w s"
      using copy_prop_at [OF st_prop.prems(4,5) st_prop(4) in_p st_prop.prems(2)] by blast
    have four: "4 dvd length (P @ ?out)"
      using st_prop.prems(5) by (simp only: length_append) (intro dvd_add encs_mod4)
    have "length ts < k" using st_prop.prems(3) k by simp
    from st_prop.IH [OF st_prop.prems(1,2) this st1(3) four st_prop.prems(6)]
    obtain st2 where st2: "copy_loop k fx ano ac sc p (off + 12 + align4 len) fin st1 = Inr (Some st2)"
        "same_dst (wb st1) (wb st2)" "good (wb st2) ((P @ ?out) @ concat (map enc (fix_toks fx ano ac sc d c m w ts)))"
        "overflow (wb st2) \<or> saw_chosen st2 = (s \<or> has_chosen d ts)"
      by blast
    have "copy_loop fuel fx ano ac sc p off fin st = Inr (Some st2)"
      using st_prop(1-3) lt False m st1(1) st2(1) by (simp add: k fdt_tokens)
    moreover have "(P @ ?out) @ concat (map enc (fix_toks fx ano ac sc d c m w ts)) =
        P @ concat (map enc (fix_toks fx ano ac sc d c m w (TProp no nm (take len (drop (off + 12) p)) # ts)))"
      by (simp only: fix_toks.simps map_append concat_append append.assoc)
    ultimately show ?thesis
      using st2(2-4) same_dst_trans [OF st1(2) st2(2)] by (metis has_chosen.simps(4))
  qed
next
  case (st_end off ts e)
  obtain k where k: "fuel = Suc k" using st_end.prems(3) by (cases fuel) auto
  show ?case
  proof (cases "overflow (wb st)")
    case True
    then show ?thesis using st_end.prems(3,4) copy_loop_overflow [of st fuel] good_overflow by (auto simp: at_def)
  next
    case False
    have lt: "off < fin" using stream_le [OF st_end(2) st_end.prems(2)] st_end.prems(1) by (auto simp: ends_at_def)
    have m: "(off + 4) mod W32 = off + 4" using be32_bound [OF st_end(1)] st_end.prems(2) by (auto intro!: W32_mod [of _ p])
    obtain st1 where st1: "copy_end_node st = Inr st1" "same_dst (wb st) (wb st1)"
        "at st1 (P @ enc TEnd) (d - 1) (c \<and> d \<noteq> 2) (m \<and> d \<noteq> 2) w s"
      using copy_end_at [OF st_end.prems(4)] by blast
    have four: "4 dvd length (P @ enc TEnd)"
      using st_end.prems(5) by (simp only: length_append) (intro dvd_add, simp_all)
    have "length ts < k" using st_end.prems(3) k by simp
    from st_end.IH [OF st_end.prems(1,2) this st1(3) four st_end.prems(6)]
    obtain st2 where st2: "copy_loop k fx ano ac sc p (off + 4) fin st1 = Inr (Some st2)"
        "same_dst (wb st1) (wb st2)"
        "good (wb st2) ((P @ enc TEnd) @ concat (map enc (fix_toks fx ano ac sc (d - 1) (c \<and> d \<noteq> 2) (m \<and> d \<noteq> 2) w ts)))"
        "overflow (wb st2) \<or> saw_chosen st2 = (s \<or> has_chosen (d - 1) ts)"
      by blast
    have "copy_loop fuel fx ano ac sc p off fin st = Inr (Some st2)"
      using st_end(1) lt False m st1(1) st2(1) by (simp add: k fdt_tokens)
    then show ?thesis using st2(2-4) same_dst_trans [OF st1(2) st2(2)] by auto
  qed
next
  case (st_nop off ts e)
  obtain k where k: "fuel = Suc k" using st_nop.prems(3) by (cases fuel) auto
  show ?case
  proof (cases "overflow (wb st)")
    case True
    then show ?thesis using st_nop.prems(3,4) copy_loop_overflow [of st fuel] good_overflow by (auto simp: at_def)
  next
    case False
    have lt: "off < fin" using stream_le [OF st_nop(2) st_nop.prems(2)] st_nop.prems(1) by (auto simp: ends_at_def)
    have m: "(off + 4) mod W32 = off + 4" using be32_bound [OF st_nop(1)] st_nop.prems(2) by (auto intro!: W32_mod [of _ p])
    have "length ts < k" using st_nop.prems(3) k by simp
    from st_nop.IH [OF st_nop.prems(1,2) this st_nop.prems(4-6)]
    show ?thesis using st_nop(1) lt False m by (auto simp: k fdt_tokens)
  qed
qed

section \<open>The strings block\<close>

text \<open>The strings block lies inside the DTB and ends with a NUL.\<close>

definition strings_ok :: "u8 list \<Rightarrow> nat \<Rightarrow> nat \<Rightarrow> bool" where
  "strings_ok p to ts \<longleftrightarrow> to + ts \<le> length p \<and> (ts = 0 \<or> p ! (to + ts - 1) = 0)"

lemma strings_cstr:
  assumes "strings_ok p to ts" "i < ts"
  shows "\<exists>s. cstr_at p (to + i) = Inr s \<and> i + length s < ts"
proof -
  let ?d = "drop (to + i) p" and ?k = "ts - 1 - i"
  have "?d ! ?k = 0" "?k < length ?d" using assms by (auto simp: strings_ok_def)
  then have "length (takeWhile (\<lambda>c. c \<noteq> 0) ?d) \<le> ?k"
    by (metis (mono_tags, lifting) linorder_not_less nth_mem set_takeWhileD takeWhile_nth)
  then show ?thesis using assms by (auto simp: cstr_at_def Let_def strings_ok_def)
qed

lemma find_string_loop_total:
  "strings_ok p to ts \<Longrightarrow> length p < 2 ^ 30 \<Longrightarrow> is_cstr name \<Longrightarrow> i \<le> ts \<Longrightarrow> ts - i < fuel \<Longrightarrow>
     \<exists>r. find_string_loop fuel p to ts name i = Inr r \<and>
       (\<forall>k. r = Some k \<longrightarrow> k + length name < ts \<and> cstr_at p (to + k) = Inr name)"
proof (induction fuel arbitrary: i)
  case (Suc fuel)
  show ?case
  proof (cases "i < ts")
    case True
    obtain s where s: "cstr_at p (to + i) = Inr s" "i + length s < ts" using strings_cstr [OF Suc.prems(1) True] by blast
    have len: "strlen s = length s" using cstr_at_is_cstr [OF s(1)] by (simp add: strlen_length)
    have m: "(i + length s + 1) mod W32 = i + length s + 1"
      using s(2) Suc.prems(1,2) by (simp add: strings_ok_def W32_def)
    have "strcmp s name = 0 \<longleftrightarrow> s = name" using plain_strcmp [OF s(1) Suc.prems(3)] .
    then show ?thesis
      using Suc.IH [of "i + length s + 1"] Suc.prems s len m True by auto
  qed simp
qed simp

section \<open>The memory reservation block\<close>

lemma rsv_length_facts:
  "rsv_length p rsvmap n = Inr (Some k) \<Longrightarrow> n mod 16 = 0 \<Longrightarrow> k mod 16 = 0 \<and> 16 \<le> k \<and> rsvmap + k \<le> length p \<and> k \<le> 4096 + 16"
proof (induction p rsvmap n rule: rsv_length.induct)
  case (1 p rsvmap n)
  obtain a b c d where w: "be32 p (rsvmap + n) = Inr a" "be32 p (rsvmap + n + 4) = Inr b"
      "be32 p (rsvmap + n + 8) = Inr c" "be32 p (rsvmap + n + 12) = Inr d" "\<not> n > 4096"
    using "1.prems"(1) by (subst (asm) rsv_length.simps) (auto simp: andthen_Inr_iff split: if_splits)
  show ?case
  proof (cases "a = 0 \<and> b = 0 \<and> c = 0 \<and> d = 0")
    case True
    then have "k = n + 16" using "1.prems"(1) w by (subst (asm) rsv_length.simps) simp
    then show ?thesis using be32_bound [OF w(4)] w(5) "1.prems"(2) by (simp add: mod_add_eq)
  next
    case False
    then have "rsv_length p rsvmap (n + 16) = Inr (Some k)"
      using "1.prems"(1) w by (subst (asm) rsv_length.simps) (auto split: if_splits)
    then show ?thesis using "1.IH" [OF _ w(1-4) False] w(5) "1.prems"(2) by simp
  qed
qed

lemma mod8_Suc: "n mod 8 \<noteq> 0 \<Longrightarrow> (8 - n mod 8) mod 8 = Suc ((8 - (n + 1) mod 8) mod 8)" for n :: nat
  by (cases "n mod 8 = 7") (auto simp: mod_Suc)

lemma align8_writes:
  "good w P \<Longrightarrow> (\<not> overflow w \<longrightarrow> k = (8 - length P mod 8) mod 8) \<Longrightarrow> (8 - wpos w mod 8) mod 8 < fuel \<Longrightarrow>
     align8_loop fuel w = Inr None \<and> wcap w < length P + k \<or>
     (\<exists>w'. align8_loop fuel w = Inr (Some w') \<and> good w' (P @ replicate k 0) \<and> same_dst w w')"
proof (induction fuel arbitrary: w P k)
  case (Suc fuel)
  show ?case
  proof (cases "wpos w mod 8 = 0")
    case True
    then show ?thesis using Suc.prems by (auto simp: good_def split: if_splits intro!: exI [of _ w])
  next
    case False
    have pos: "\<not> overflow w \<Longrightarrow> 0 < k" using mod8_Suc [OF False] Suc.prems(1,2) by (auto simp: good_def)
    show ?thesis
    proof (cases "wpos w \<ge> wcap w")
      case True
      then show ?thesis using False pos Suc.prems(1) by (auto simp: good_def split: if_splits)
    next
      case room: False
      have m: "(wpos w + 1) mod W32 = wpos w + 1" using Suc.prems(1) by (simp add: good_def W32_def)
      let ?b = "take (wpos w) (base w) @ [0] @ drop (wpos w + 1) (base w)"
      let ?w = "w\<lparr>base := ?b, wpos := wpos w + 1\<rparr>"
      have st: "store (base w) (wpos w) [0] = Inr ?b" using room Suc.prems(1) by (auto simp: store_def good_def)
      have g: "good ?w (P @ [0])" using room Suc.prems(1) by (auto simp: good_def)
      have sd: "same_dst w ?w" using room Suc.prems(1) by (auto simp: same_dst_def good_def)
      note arith = mod8_Suc [OF False]
      have pw: "wpos ?w = wpos w + 1" "length (P @ [0]) = length P + 1" by simp_all
      have f: "(8 - wpos ?w mod 8) mod 8 < fuel" unfolding pw using arith Suc.prems(3) by linarith
      have kk: "\<not> overflow ?w \<longrightarrow> k - 1 = (8 - length (P @ [0]) mod 8) mod 8"
        unfolding pw using arith Suc.prems(1,2) by (auto simp: good_def)
      have step: "align8_loop (Suc fuel) w = align8_loop fuel ?w" using False room st m by simp
      have cap: "wcap ?w = wcap w" by simp
      from Suc.IH [OF g kk f] show ?thesis
      proof (elim disjE exE conjE)
        assume "align8_loop fuel ?w = Inr None" "wcap ?w < length (P @ [0]) + (k - 1)"
        moreover from this(2) have "wcap w < length P + k"
          using pos Suc.prems(1) unfolding cap by (cases "overflow w") (auto simp: good_def)
        ultimately show ?thesis using step by simp
      next
        fix w'
        assume w': "align8_loop fuel ?w = Inr (Some w')" "good w' ((P @ [0]) @ replicate (k - 1) 0)" "same_dst ?w w'"
        have "good w' (P @ replicate k 0)"
        proof (cases "overflow w")
          case True
          then show ?thesis using w'(2,3) Suc.prems(1) by (auto simp: good_def same_dst_def)
        next
          case False
          then have "(P @ [0]) @ replicate (k - 1) 0 = P @ replicate k 0" using pos by (cases k) auto
          then show ?thesis using w'(2) by simp
        qed
        then show ?thesis using w'(1,3) step same_dst_trans [OF sd] by auto
      qed
    qed
  qed
qed simp

end
