(* ===== verification/FdtCopy.thy ===== *)
theory FdtCopy
  imports FdtWf
begin

text \<open>
  The copy as a whole.  \<open>dtb p ts\<close>: the bytes \<open>p\<close> are a well-formed DTB with the tokens \<open>ts\<close>.
  A copy of such a DTB is again one, with the fixed tokens; the command line read back from it
  is the new one; and copying fails only when the destination is too small.
\<close>

section \<open>From what has been written to tokens\<close>

fun tok_ok :: "u8 list \<Rightarrow> tok \<Rightarrow> bool" where
  "tok_ok b (TBegin nm) \<longleftrightarrow> is_cstr nm"
| "tok_ok b (TProp no nm val) \<longleftrightarrow> no < W32 \<and> string_at b no = Inr nm"
| "tok_ok b _ \<longleftrightarrow> True"

lemma fdt_tokens_W32 [simp]: "FDT_BEGIN_NODE < W32" "FDT_END_NODE < W32" "FDT_PROP < W32" "FDT_NOP < W32" "FDT_END < W32"
  by (simp_all add: fdt_tokens W32_def)

lemma seg_len: "seg b off bs \<Longrightarrow> off + length bs \<le> length b"
  by (simp add: seg_def)

lemma enc_stream:
  "seg b off (concat (map enc ts)) \<Longrightarrow> length b < 2 ^ 30 \<Longrightarrow> \<forall>t \<in> set ts. tok_ok b t \<Longrightarrow>
     stream b off ts (off + length (concat (map enc ts)))"
proof (induction ts arbitrary: off)
  case Nil
  then show ?case by (simp add: st_nil)
next
  case (Cons t ts)
  have sg: "seg b off (enc t)" "seg b (off + length (enc t)) (concat (map enc ts))"
    using Cons.prems(1) by (simp_all add: seg_append)
  have tl: "stream b (off + length (enc t)) ts (off + length (concat (map enc (t # ts))))"
    using Cons.IH [OF sg(2)] Cons.prems(2,3) by (simp add: add.assoc)
  have le: "off + length (enc t) \<le> length b" using seg_len [OF sg(1)] .
  show ?case
  proof (cases t)
    case (TBegin nm)
    have n: "length nm + 1 < 2 ^ 30" using le Cons.prems(2) by (simp add: TBegin)
    have al: "align4 (length nm + 1) = length nm + 1 + length (padz (length nm + 1))" by (rule align4_padz [OF n])
    have len: "length (enc t) = 4 + align4 (length nm + 1)"
      by (simp only: TBegin enc.simps length_append al length_put_be32) simp
    have "is_cstr nm" using Cons.prems(3) TBegin by simp
    moreover have "seg b (off + 4) (nm @ [0])" "be32 b off = Inr FDT_BEGIN_NODE"
      using sg(1) seg_append [of b "off + 4 + length nm" "[0]" "padz (Suc (length nm))"]
      by (auto simp: TBegin seg_append intro: seg_be32)
    ultimately show ?thesis
      using tl le unfolding TBegin len [unfolded TBegin] by (auto intro!: st_begin seg_cstr simp: add.assoc)
  next
    case (TProp no nm val)
    have n: "length val < 2 ^ 30" using le Cons.prems(2) by (simp add: TProp)
    have al: "align4 (length val) = length val + length (padz (length val))" by (rule align4_padz [OF n])
    have len: "length (enc t) = 12 + align4 (length val)" by (simp add: TProp al)
    have "length val < W32" using n by (simp add: W32_def)
    then have s: "be32 b off = Inr FDT_PROP" "be32 b (off + 4) = Inr (length val)" "be32 b (off + 8) = Inr no"
      using sg(1) Cons.prems(3) by (auto simp: TProp seg_append off_steps intro!: seg_be32)
    have "seg b (off + 12) val"
      using sg(1) by (simp add: TProp seg_append add.assoc)
    then have v: "val = take (length val) (drop (off + 12) b)" by (simp add: seg_def)
    have "stream b off (TProp no nm (take (length val) (drop (off + 12) b)) # ts) (off + length (concat (map enc (t # ts))))"
      using s tl le Cons.prems(3) unfolding len by (intro st_prop) (auto simp: TProp add.assoc al)
    then show ?thesis using v TProp by simp
  next
    case TEnd
    then show ?thesis using sg tl by (auto intro!: st_end seg_be32)
  next
    case TNop
    then show ?thesis using sg tl by (auto intro!: st_nop seg_be32)
  qed
qed

lemma stream_toks:
  "stream p off ts e \<Longrightarrow> \<forall>t \<in> set ts. tok_ok p t"
  by (induction rule: stream.induct) (auto dest: cstr_at_is_cstr be32_bound)

section \<open>Token lists\<close>

fun net :: "tok list \<Rightarrow> int" where
  "net [] = 0"
| "net (TBegin nm # ts) = net ts + 1"
| "net (TEnd # ts) = net ts - 1"
| "net (_ # ts) = net ts"

text \<open>The nodes are closed, and nothing but no-operations follows the end of the last one.\<close>

definition rooted :: "tok list \<Rightarrow> bool" where
  "rooted ts \<longleftrightarrow> net ts = 0 \<and> (\<exists>xs k. ts = xs @ TEnd # replicate k TNop)"

lemma net_append [simp]: "net (xs @ ys) = net xs + net ys"
  by (induction xs rule: net.induct) auto

lemma has_chosen_append: "has_chosen d (xs @ ys) \<longleftrightarrow> has_chosen d xs \<or> has_chosen (d + net xs) ys"
  by (induction d xs rule: has_chosen.induct) (auto simp: algebra_simps)

lemma find_toks_skip:
  "\<not> has_chosen d xs \<Longrightarrow> find_toks d False (xs @ ys) = find_toks (d + net xs) False ys"
  by (induction d xs rule: has_chosen.induct) (auto simp: algebra_simps)

lemma net_fix_toks [simp]: "net (fix_toks fx ano ac sc d c m w ts) = net ts"
  by (induction fx ano ac sc d c m w ts rule: fix_toks.induct) (auto simp: Let_def arg_toks_def split: option.splits)

lemma has_chosen_arg: "has_chosen d (arg_toks fx ano @ ys) = has_chosen d ys"
  by (auto simp: arg_toks_def split: option.splits)

lemma has_chosen_fix_toks [simp]: "has_chosen d (fix_toks fx ano ac sc d c m w ts) = has_chosen d ts"
proof (induction ts arbitrary: d c m w)
  case (Cons t ts)
  show ?case by (cases t) (simp_all add: Cons.IH Let_def has_chosen_arg)
qed simp

lemma fix_nops [simp]: "fix_toks fx ano ac sc d c m w (replicate k TNop) = []"
  by (induction k) auto

lemma fix_toks_end:
  "\<exists>ys. fix_toks fx ano ac sc d c m w (xs @ TEnd # replicate k TNop) = ys @ [TEnd]"
proof (induction xs arbitrary: d c m w)
  case (Cons t xs)
  then show ?case
  proof (cases t)
    case (TBegin nm)
    let ?c = "c \<or> enters d nm"
    obtain ys where "fix_toks fx ano ac sc (d + 1) ?c (m \<or> d = 1 \<and> mem_size fx \<noteq> 0 \<and> is_memory_node nm)
        (w \<or> ?c \<and> bootargs fx \<noteq> None) (xs @ TEnd # replicate k TNop) = ys @ [TEnd]" using Cons.IH by blast
    then show ?thesis by (simp add: TBegin Let_def)
  next
    case (TProp no nm val)
    obtain ys where "fix_toks fx ano ac sc d c m w (xs @ TEnd # replicate k TNop) = ys @ [TEnd]" using Cons.IH by blast
    then show ?thesis by (simp add: TProp)
  next
    case TEnd
    obtain ys where "fix_toks fx ano ac sc (d - 1) (c \<and> d \<noteq> 2) (m \<and> d \<noteq> 2) w (xs @ TEnd # replicate k TNop) = ys @ [TEnd]"
      using Cons.IH by blast
    then show ?thesis by (simp add: TEnd)
  qed auto
qed simp

lemma find_fixed_chosen:
  "has_chosen d ts \<Longrightarrow> bootargs fx = Some a \<Longrightarrow>
     find_toks d False (fix_toks fx ano ac sc d False m False ts) = Some (a @ [0])"
proof (induction ts arbitrary: d m)
  case (Cons t ts)
  then show ?case
  proof (cases t)
    case (TBegin nm)
    then show ?thesis using Cons by (cases "enters d nm") (auto simp: Let_def arg_toks_def)
  next
    case TEnd
    then show ?thesis using Cons by simp
  qed auto
qed simp

lemma find_fixed:
  assumes "rooted ts" "bootargs fx = Some a"
  shows "find_toks 0 False (fixed fx ano ac sc ts) = Some (a @ [0])"
proof (cases "has_chosen 0 ts")
  case True
  then show ?thesis using find_fixed_chosen [OF True assms(2)] by (simp add: fixed_def Let_def)
next
  case False
  let ?o = "fix_toks fx ano ac sc 0 False False False ts"
  obtain ys where o: "?o = ys @ [TEnd]" using assms(1) fix_toks_end unfolding rooted_def by metis
  have "net ?o = 0" "\<not> has_chosen 0 ?o" using assms(1) False by (simp_all add: rooted_def)
  then have "net ys = 1" "\<not> has_chosen 0 ys" using o by (auto simp: has_chosen_append)
  then show ?thesis
    using False assms(2) o by (simp add: fixed_def Let_def find_toks_skip arg_toks_def enters_def)
qed

lemma fix_toks_set:
  assumes "t \<in> set (fix_toks fx ano ac sc d c m w ts)"
  shows "t \<in> set ts \<or> t \<in> set (arg_toks fx ano) \<or> (\<exists>no nm val val'. t = TProp no nm val \<and> TProp no nm val' \<in> set ts)"
  using assms
  by (induction fx ano ac sc d c m w ts rule: fix_toks.induct)
     (auto simp: Let_def split: if_splits)

section \<open>The structure block\<close>

lemma concat_enc_append: "concat (map enc (xs @ ys)) = concat (map enc xs) @ concat (map enc ys)"
  by simp

lemma add_chosen_writes:
  assumes "good (wb st) (P @ concat (map enc (ys @ [TEnd])))" "4 dvd length P" "args_small fx"
    and "bootargs fx = Some a" "\<not> saw_chosen st" "\<not> overflow (wb st)"
  shows "\<exists>st'. add_chosen fx ano (length P) st = Inr st' \<and> same_dst (wb st) (wb st') \<and>
    good (wb st') (P @ concat (map enc (ys @ [TBegin (cs ''chosen'')] @ arg_toks fx ano @ [TEnd, TEnd])))"
proof -
  let ?Y = "P @ concat (map enc ys)"
  let ?w = "(wb st)\<lparr>wpos := wpos (wb st) - 4\<rparr>"
  have g: "wpos (wb st) = length ?Y + 4" "take (length ?Y + 4) (base (wb st)) = ?Y @ put_be32 FDT_END_NODE"
      "wcap (wb st) \<le> length (base (wb st))" "wpos (wb st) \<le> wcap (wb st)" "wcap (wb st) < 2 ^ 30"
    using assms(1,6) by (auto simp: good_def add.assoc)
  then have "base (wb st) = ?Y @ put_be32 FDT_END_NODE @ drop (length ?Y + 4) (base (wb st))"
    by (metis append.assoc append_take_drop_id)
  then have "seg (base (wb st)) (length ?Y) (put_be32 FDT_END_NODE)" using seg_here by metis
  then have t: "be32 (base (wb st)) (wpos (wb st) - 4) = Inr FDT_END_NODE"
    unfolding g(1) by (simp only: add_diff_cancel_right') (rule seg_be32, simp_all)
  have gw: "good ?w ?Y"
    using g assms(6) by (auto simp: good_def dest: arg_cong [where f = "take (length ?Y)"])
  have dv: "4 dvd length ?Y" using assms(2) by (simp only: length_append) (rule dvd_add, simp_all)
  have nm: "length (cs ''chosen'') + 1 < 2 ^ 30" by (simp add: cs_def)
  have a: "length (a @ [0]) < 2 ^ 30" using assms(3,4) by (simp add: args_small_def)
  have dv2: "4 dvd length (?Y @ enc (TBegin (cs ''chosen'')))"
    using dv by (simp only: length_append [of ?Y]) (rule dvd_add, simp_all del: enc.simps)
  obtain w1 where w1: "andthen (w_u32 ?w FDT_BEGIN_NODE) (\<lambda>w. andthen (w_bytes w (cs ''chosen'' @ [0])) (\<lambda>w. w_pad4 w)) = Inr w1"
      "good w1 (?Y @ enc (TBegin (cs ''chosen'')))" "same_dst ?w w1"
    using writesD [OF w_begin_writes [OF gw dv nm]] by blast
  have go: "andthen (w_u32 ?w FDT_BEGIN_NODE) (\<lambda>w. andthen (w_bytes w (cs ''chosen'' @ [0])) (\<lambda>w. andthen (w_pad4 w) f)) = f w1" for f
    using arg_cong [OF w1(1), of "\<lambda>r. andthen r f"] by (simp add: andthen_assoc)
  obtain w2 where w2: "w_prop w1 ano (a @ [0]) = Inr w2" "same_dst w1 w2"
      "good w2 ((?Y @ enc (TBegin (cs ''chosen''))) @ enc (TProp ano (cs ''bootargs'') (a @ [0])))"
    using writesD [OF w_prop_writes [OF w1(2) dv2 a]] by blast
  obtain w3 where w3: "w_u32 w2 FDT_END_NODE = Inr w3" "same_dst w2 w3"
      "good w3 (((?Y @ enc (TBegin (cs ''chosen''))) @ enc (TProp ano (cs ''bootargs'') (a @ [0]))) @ enc TEnd)"
    using writesD [OF w_u32_writes [OF w2(3)], of FDT_END_NODE] by auto
  obtain w4 where w4: "w_u32 w3 FDT_END_NODE = Inr w4" "same_dst w3 w4"
      "good w4 ((((?Y @ enc (TBegin (cs ''chosen''))) @ enc (TProp ano (cs ''bootargs'') (a @ [0]))) @ enc TEnd) @ enc TEnd)"
    using writesD [OF w_u32_writes [OF w3(3)], of FDT_END_NODE] by auto
  have "wpos (wb st) - 4 = length P + length (concat (map enc ys))" using g(1) by simp
  note go = go [unfolded this]
  have "add_chosen fx ano (length P) st = Inr (st\<lparr>wb := w4, wrote_args := True\<rparr>)"
    using t assms(4-6) w2(1) w3(1) w4(1) by (simp add: add_chosen_def Let_def go g(1))
  moreover have "same_dst (wb st) w4"
    using same_dst_trans [OF same_dst_trans [OF same_dst_trans [OF w1(3) w2(2)] w3(2)] w4(2)]
    by (simp add: same_dst_def)
  moreover have "(((?Y @ enc (TBegin (cs ''chosen''))) @ enc (TProp ano (cs ''bootargs'') (a @ [0]))) @ enc TEnd) @ enc TEnd =
      P @ concat (map enc (ys @ [TBegin (cs ''chosen'')] @ arg_toks fx ano @ [TEnd, TEnd]))"
    using assms(4) by (simp add: arg_toks_def del: enc.simps)
  ultimately show ?thesis
    using w4(3) by (intro exI [of _ "st\<lparr>wb := w4, wrote_args := True\<rparr>"]) (simp del: enc.simps)
qed

lemma copy_struct_writes:
  assumes "stream p off ts e" "ends_at p e ((off + ss) mod W32)" "length p < 2 ^ 30" "rooted ts" "args_small fx"
    and "good w P" "4 dvd length P" "\<not> overflow w"
  shows "(copy_struct fx ano ac sc p off ss w = Inr None \<and>
      wcap w < length P + length (concat (map enc (fixed fx ano ac sc ts))) + 4) \<or>
    (\<exists>w'. copy_struct fx ano ac sc p off ss w = Inr (Some w') \<and> same_dst w w' \<and> \<not> overflow w' \<and>
      good w' (P @ concat (map enc (fixed fx ano ac sc ts)) @ put_be32 FDT_END))"
proof -
  let ?st = "\<lparr>wb = w, depth = 0, in_chosen = False, in_memory = False, wrote_args = False,
                saw_chosen = False, wrote_mem = False\<rparr>"
  let ?o = "fix_toks fx ano ac sc 0 False False False ts"
  have P: "wpos w = length P" using assms(6,8) by (simp add: good_def)
  have "e \<le> length p"
  proof (cases "off \<le> length p")
    case True then show ?thesis using stream_end [OF assms(1) _ assms(3)] by simp
  next
    case False
    have "ts = []" using assms(1) False by (cases rule: stream.cases) (auto dest: be32_bound)
    then show ?thesis using assms(4) by (simp add: rooted_def)
  qed
  then have fuel: "length ts < length p + 1" using stream_le [OF assms(1,3)] by simp
  have "at ?st P 0 False False False False" using assms(6) by (simp add: at_def)
  note ex = copy_loop_stream [OF assms(1-3) fuel this assms(7,5), of ano ac sc]
  from ex obtain st1 where st1: "copy_loop (length p + 1) fx ano ac sc p off ((off + ss) mod W32) ?st = Inr (Some st1)"
      "same_dst w (wb st1)" "good (wb st1) (P @ concat (map enc ?o))"
      "overflow (wb st1) \<or> saw_chosen st1 = has_chosen 0 ts"
    by (auto simp del: copy_loop.simps fix_toks.simps has_chosen.simps)
  obtain ys where ys: "?o = ys @ [TEnd]" using assms(4) fix_toks_end unfolding rooted_def by metis
  obtain st2 where st2: "add_chosen fx ano (length P) st1 = Inr st2" "same_dst (wb st1) (wb st2)"
      "good (wb st2) (P @ concat (map enc (fixed fx ano ac sc ts)))"
  proof (cases "overflow (wb st1)")
    case True
    have "length (concat (map enc ?o)) \<le> length (concat (map enc (fixed fx ano ac sc ts)))"
      unfolding fixed_def Let_def ys by auto
    then have "good (wb st1) (P @ concat (map enc (fixed fx ano ac sc ts)))"
      using True st1(3) by (simp add: good_def)
    moreover have "add_chosen fx ano (length P) st1 = Inr st1"
      using True by (simp add: add_chosen_def split: option.splits)
    ultimately show ?thesis by (rule that [OF _ same_dst_refl, rotated])
  next
    case False
    show ?thesis
    proof (cases "bootargs fx = None \<or> has_chosen 0 ts")
      case True
      then have "add_chosen fx ano (length P) st1 = Inr st1"
        using False st1(4) by (auto simp: add_chosen_def split: option.splits)
      then show ?thesis using that [OF _ same_dst_refl] st1(3) True by (auto simp: fixed_def Let_def)
    next
      case c: False
      then obtain a where a: "bootargs fx = Some a" by auto
      have "good (wb st1) (P @ concat (map enc (ys @ [TEnd])))" using st1(3) ys by simp
      from add_chosen_writes [OF this assms(7,5) a _ False, of ano] c st1(4) False
      obtain st2 where "add_chosen fx ano (length P) st1 = Inr st2" "same_dst (wb st1) (wb st2)"
          "good (wb st2) (P @ concat (map enc (ys @ [TBegin (cs ''chosen'')] @ arg_toks fx ano @ [TEnd, TEnd])))"
        by auto
      moreover have "fixed fx ano ac sc ts = ys @ [TBegin (cs ''chosen'')] @ arg_toks fx ano @ [TEnd, TEnd]"
        using c ys by (simp add: fixed_def Let_def)
      ultimately show ?thesis using that by metis
    qed
  qed
  obtain w3 where w3: "w_u32 (wb st2) FDT_END = Inr w3" "same_dst (wb st2) w3"
      "good w3 ((P @ concat (map enc (fixed fx ano ac sc ts))) @ put_be32 FDT_END)"
    using writesD [OF w_u32_writes [OF st2(3)], of FDT_END] by auto
  have r: "copy_struct fx ano ac sc p off ss w = Inr (if overflow w3 then None else Some w3)"
    using st1(1) st2(1) w3(1) by (simp add: copy_struct_def Let_def P del: copy_loop.simps)
  have sd: "same_dst w w3" using same_dst_trans [OF same_dst_trans [OF st1(2) st2(2)] w3(2)] .
  show ?thesis
  proof (cases "overflow w3")
    case True
    then show ?thesis using r w3(3) sd by (simp add: good_def same_dst_def)
  next
    case False
    then show ?thesis using r w3(3) sd by simp
  qed
qed

section \<open>The other blocks\<close>

lemma store_be32:
  assumes "off + 4 \<le> length b"
  shows "\<exists>b'. store b off (put_be32 v) = Inr b' \<and> length b' = length b \<and> seg b' off (put_be32 v) \<and>
    (\<forall>o' bs. (o' + length bs \<le> off \<or> off + 4 \<le> o') \<longrightarrow> seg b' o' bs = seg b o' bs)"
proof -
  let ?b = "take off b @ put_be32 v @ drop (off + 4) b"
  have lb: "length ?b = length b" using assms by simp
  have "seg ?b off (put_be32 v)" using seg_here [of "take off b" "put_be32 v"] assms by simp
  moreover have "seg ?b o' bs = seg b o' bs" if "o' + length bs \<le> off \<or> off + 4 \<le> o'" for o' bs
  proof -
    have "take (length bs) (drop o' ?b) = take (length bs) (drop o' b)"
    proof (rule nth_equalityI)
      show "length (take (length bs) (drop o' ?b)) = length (take (length bs) (drop o' b))"
        unfolding length_take length_drop lb ..
      fix i
      assume "i < length (take (length bs) (drop o' ?b))"
      then have "i < min (length b - o') (length bs)" by (simp only: length_take length_drop lb)
      then have "i < length bs" "o' + i < length b" by auto
      then show "take (length bs) (drop o' ?b) ! i = take (length bs) (drop o' b) ! i"
        using that assms by (auto simp: nth_append)
    qed
    then show ?thesis using lb unfolding seg_def by metis
  qed
  ultimately show ?thesis using assms by (intro exI [of _ ?b]) (auto simp: store_def)
qed

lemma put_header_facts:
  assumes "40 \<le> length b" "\<forall>q \<in> set fs. fst q + 4 \<le> 40"
    and "sorted_wrt (\<lambda>x y. fst x + 4 \<le> fst y \<or> fst y + 4 \<le> fst x) fs"
  shows "\<exists>b'. put_header b fs = Inr b' \<and> length b' = length b \<and> (\<forall>q \<in> set fs. seg b' (fst q) (put_be32 (snd q))) \<and>
    (\<forall>o' bs. (\<forall>q \<in> set fs. o' + length bs \<le> fst q \<or> fst q + 4 \<le> o') \<longrightarrow> seg b' o' bs = seg b o' bs)"
  using assms
proof (induction fs arbitrary: b)
  case (Cons f fs)
  obtain off v where f: "f = (off, v)" by (cases f)
  have "off + 4 \<le> length b" using Cons.prems f by auto
  from store_be32 [OF this, of v]
  obtain b1 where b1: "store b off (put_be32 v) = Inr b1" "length b1 = length b" "seg b1 off (put_be32 v)"
      "\<And>o' bs. o' + length bs \<le> off \<or> off + 4 \<le> o' \<Longrightarrow> seg b1 o' bs = seg b o' bs" by blast
  have "40 \<le> length b1" "\<forall>q \<in> set fs. fst q + 4 \<le> 40"
      "sorted_wrt (\<lambda>x y. fst x + 4 \<le> fst y \<or> fst y + 4 \<le> fst x) fs"
    using Cons.prems b1(2) by simp_all
  from Cons.IH [OF this]
  obtain b2 where b2: "put_header b1 fs = Inr b2" "length b2 = length b1" "\<forall>q \<in> set fs. seg b2 (fst q) (put_be32 (snd q))"
      "\<And>o' bs. (\<forall>q \<in> set fs. o' + length bs \<le> fst q \<or> fst q + 4 \<le> o') \<Longrightarrow> seg b2 o' bs = seg b1 o' bs" by blast
  have "\<forall>q \<in> set fs. off + length (put_be32 v) \<le> fst q \<or> fst q + 4 \<le> off" using Cons.prems(3) f by simp
  then have s: "seg b2 off (put_be32 v)" using b2(4) b1(3) by blast
  have frame: "seg b2 o' bs = seg b o' bs" if "\<forall>q \<in> set (f # fs). o' + length bs \<le> fst q \<or> fst q + 4 \<le> o'" for o' bs
    using b2(4) [of o' bs] b1(4) [of o' bs] that f by simp
  have "put_header b (f # fs) = Inr b2" using b1(1) b2(1) f by simp
  moreover have "\<forall>q \<in> set (f # fs). seg b2 (fst q) (put_be32 (snd q))" using s b2(3) f by simp
  moreover have "length b2 = length b" using b1(2) b2(2) by simp
  ultimately show ?case using frame by (intro exI [of _ b2] conjI allI impI) assumption+
qed simp

lemma rsv_le: "rsv_length p r n = Inr (Some k) \<Longrightarrow> n + 16 \<le> k"
proof (induction p r n rule: rsv_length.induct)
  case (1 p r n)
  have "\<exists>a b c d. be32 p (r + n) = Inr a \<and> be32 p (r + n + 4) = Inr b \<and> be32 p (r + n + 8) = Inr c \<and>
      be32 p (r + n + 12) = Inr d \<and> \<not> n > 4096"
    using "1.prems" by (subst (asm) rsv_length.simps) (auto simp: andthen_Inr_iff split: if_splits)
  then obtain a b c d where w: "be32 p (r + n) = Inr a" "be32 p (r + n + 4) = Inr b"
      "be32 p (r + n + 8) = Inr c" "be32 p (r + n + 12) = Inr d" "\<not> n > 4096" by blast
  show ?case
  proof (cases "a = 0 \<and> b = 0 \<and> c = 0 \<and> d = 0")
    case True
    then show ?thesis using "1.prems" w by (subst (asm) rsv_length.simps) simp
  next
    case False
    then have "rsv_length p r (n + 16) = Inr (Some k)"
      using "1.prems" w by (subst (asm) rsv_length.simps) (auto split: if_splits)
    then show ?thesis using "1.IH" [OF w(5,1-4) False] by simp
  qed
qed

lemma rsv_copied:
  "rsv_length p r n = Inr (Some k) \<Longrightarrow> (\<And>j v. j + 4 \<le> k \<Longrightarrow> be32 p (r + j) = Inr v \<Longrightarrow> be32 q (r' + j) = Inr v) \<Longrightarrow>
     rsv_length q r' n = Inr (Some k)"
proof (induction p r n rule: rsv_length.induct)
  case (1 p r n)
  have "\<exists>a b c d. be32 p (r + n) = Inr a \<and> be32 p (r + n + 4) = Inr b \<and> be32 p (r + n + 8) = Inr c \<and>
      be32 p (r + n + 12) = Inr d \<and> \<not> n > 4096"
    using "1.prems"(1) by (subst (asm) rsv_length.simps) (auto simp: andthen_Inr_iff split: if_splits)
  then obtain a b c d where w: "be32 p (r + n) = Inr a" "be32 p (r + n + 4) = Inr b"
      "be32 p (r + n + 8) = Inr c" "be32 p (r + n + 12) = Inr d" "\<not> n > 4096" by blast
  have k: "n + 16 \<le> k" by (rule rsv_le [OF "1.prems"(1)])
  have q: "be32 q (r' + n) = Inr a" "be32 q (r' + n + 4) = Inr b" "be32 q (r' + n + 8) = Inr c" "be32 q (r' + n + 12) = Inr d"
    using "1.prems"(2) [of n a] "1.prems"(2) [of "n + 4" b] "1.prems"(2) [of "n + 8" c] "1.prems"(2) [of "n + 12" d] w k
    by (simp_all add: add.assoc)
  show ?case
  proof (cases "a = 0 \<and> b = 0 \<and> c = 0 \<and> d = 0")
    case True
    then have "rsv_length p r n = Inr (Some (n + 16))" "rsv_length q r' n = Inr (Some (n + 16))"
      using w q by (simp_all add: rsv_length.simps [of _ _ n])
    then show ?thesis using "1.prems"(1) by simp
  next
    case False
    then have "rsv_length p r (n + 16) = Inr (Some k)" "rsv_length q r' n = rsv_length q r' (n + 16)"
      using "1.prems"(1) w q by (auto simp: rsv_length.simps [of _ _ n] split: if_splits)
    then show ?thesis using "1.IH" [OF w(5,1-4) False] "1.prems"(2) by simp
  qed
qed

lemma seg_be32_copied:
  assumes "seg q r' (take k (drop r p))" "j + 4 \<le> k" "be32 p (r + j) = Inr v"
  shows "be32 q (r' + j) = Inr v"
proof -
  have le: "r + j + 4 \<le> length p" using assms(3) by (auto simp: be32_def split: if_splits)
  have "q ! (r' + j + i) = p ! (r + j + i)" if "i < 4" for i
    using seg_nth [OF assms(1), of "j + i"] that assms(2) le by (simp add: add.assoc)
  from this [of 0] this [of 1] this [of 2] this [of 3]
  have "q ! (r' + j) = p ! (r + j)" "q ! (r' + j + 1) = p ! (r + j + 1)" "q ! (r' + j + 2) = p ! (r + j + 2)"
    "q ! (r' + j + 3) = p ! (r + j + 3)" by simp_all
  moreover have "r' + j + 4 \<le> length q" using seg_len [OF assms(1)] assms(2) le by (simp add: min_def split: if_splits)
  ultimately show ?thesis using assms(3) le by (simp add: be32_def)
qed

definition out_strings :: "u8 list \<Rightarrow> nat \<Rightarrow> nat \<Rightarrow> bool \<Rightarrow> u8 list" where
  "out_strings p to tsz add = take tsz (drop to p) @ (if add then cs ''bootargs'' @ [0] else [])"

lemma copy_tail_writes:
  fixes add :: bool and os rs cpu to tsz :: nat
  assumes "good w P" "\<not> overflow w" "40 \<le> length P" "wcap w \<le> 2 ^ 24" "to + tsz \<le> length p" "length p < 2 ^ 30"
  defines "S \<equiv> out_strings p to tsz add"
  defines "fs \<equiv> [(H_MAGIC, FDT_MAGIC), (H_TOTALSIZE, length P + length S), (H_OFF_STRUCT, os),
           (H_OFF_STRINGS, length P), (H_OFF_RSVMAP, rs), (H_VERSION, 17),
           (H_LAST_COMP, 16), (H_BOOT_CPUID, cpu), (H_SIZE_STRINGS, length S),
           (H_SIZE_STRUCT, length P - os)]"
  shows "copy_tail p to tsz add cpu rs os w = Inr None \<and> wcap w < length P + length S \<or>
    (\<exists>b. copy_tail p to tsz add cpu rs os w = Inr (Some (b, length P + length S)) \<and> length b = length (base w) \<and>
       length P + length S \<le> wcap w \<and> seg b 40 (drop 40 (P @ S)) \<and> (\<forall>q \<in> set fs. seg b (fst q) (put_be32 (snd q))))"
proof -
  have P: "wpos w = length P" using assms(1,2) by (simp add: good_def)
  have small: "tsz < 2 ^ 30" "length (cs ''bootargs'' @ [0]) < 2 ^ 30" using assms(5,6) by (simp_all add: cs_def)
  obtain w1 where w1: "w_copy w p to tsz = Inr w1" "good w1 (P @ take tsz (drop to p))" "same_dst w w1"
    using writesD [OF w_copy_writes [OF assms(1,5) small(1)]] by blast
  obtain w2 where w2: "(if add then w_bytes w1 (cs ''bootargs'' @ [0]) else Inr w1) = Inr w2" "good w2 (P @ S)" "same_dst w1 w2"
  proof (cases add)
    case True
    then show ?thesis
      using that writesD [OF w_bytes_writes [OF w1(2) small(2)]] by (auto simp: S_def out_strings_def)
  next
    case False
    then show ?thesis using that [of w1] w1(2) by (simp add: S_def out_strings_def)
  qed
  have sd: "same_dst w w2" using same_dst_trans [OF w1(3) w2(3)] .
  show ?thesis
  proof (cases "overflow w2")
    case True
    then have "copy_tail p to tsz add cpu rs os w = Inr None"
      using w1(1) w2(1) by (simp add: copy_tail_def Let_def)
    then show ?thesis using True w2(2) sd by (simp add: good_def same_dst_def)
  next
    case False
    then have w: "wpos w2 = length P + length S" "take (length P + length S) (base w2) = P @ S"
        "length P + length S \<le> wcap w" "wcap w \<le> length (base w2)" "length (base w2) = length (base w)"
      using w2(2) sd by (auto simp: good_def same_dst_def)
    have "40 \<le> length (base w2)" using w assms(3) by linarith
    moreover have "\<forall>q \<in> set fs. fst q + 4 \<le> 40" by (simp add: fs_def fdt_header)
    moreover have "sorted_wrt (\<lambda>x y. fst x + 4 \<le> fst y \<or> fst y + 4 \<le> fst x) fs" by (simp add: fs_def fdt_header)
    ultimately obtain b where b: "put_header (base w2) fs = Inr b" "length b = length (base w2)"
        "\<forall>q \<in> set fs. seg b (fst q) (put_be32 (snd q))"
        "\<And>o' bs. (\<forall>q \<in> set fs. o' + length bs \<le> fst q \<or> fst q + 4 \<le> o') \<Longrightarrow> seg b o' bs = seg (base w2) o' bs"
      using put_header_facts [of "base w2" fs] by blast
    have "P @ S = take 40 (P @ S) @ drop 40 (P @ S)" by (rule append_take_drop_id [symmetric])
    moreover have "base w2 = (P @ S) @ drop (length P + length S) (base w2)" by (metis w(2) append_take_drop_id)
    ultimately have "base w2 = take 40 (P @ S) @ drop 40 (P @ S) @ drop (length P + length S) (base w2)"
      by (metis append.assoc)
    moreover have "length (take 40 (P @ S)) = 40" using assms(3) by simp
    ultimately have "seg (base w2) 40 (drop 40 (P @ S))" using seg_here by metis
    moreover have "\<forall>q \<in> set fs. fst q + 4 \<le> 40" by (simp add: fs_def fdt_header)
    ultimately have sg: "seg b 40 (drop 40 (P @ S))" using b(4) by blast
    have "copy_tail p to tsz add cpu rs os w = Inr (Some (b, length P + length S))"
      using w1(1) w2(1) False b(1) by (simp add: copy_tail_def Let_def P w(1) fs_def)
    then show ?thesis using sg b(2,3) w by auto
  qed
qed

section \<open>Well-formed DTBs\<close>

definition dtb :: "u8 list \<Rightarrow> tok list \<Rightarrow> bool" where
  "dtb p ts \<longleftrightarrow> fdt_valid (Some p) = Inr True \<and> length p < 2 ^ 30 \<and>
     (\<exists>so ss to tsz rsv cpu e k.
        be32 p H_OFF_STRUCT = Inr so \<and> be32 p H_SIZE_STRUCT = Inr ss \<and> be32 p H_OFF_STRINGS = Inr to \<and>
        be32 p H_SIZE_STRINGS = Inr tsz \<and> be32 p H_OFF_RSVMAP = Inr rsv \<and> be32 p H_BOOT_CPUID = Inr cpu \<and>
        so + ss \<le> length p \<and> stream p so ts e \<and> ends_at p e (so + ss) \<and> strings_ok p to tsz \<and>
        rsv_length p rsv 0 = Inr (Some k) \<and> (\<forall>no nm val. TProp no nm val \<in> set ts \<longrightarrow> no + length nm < tsz))"

lemma dtbE:
  assumes "dtb p ts"
  obtains so ss to tsz rsv cpu e k where "fdt_valid (Some p) = Inr True" "length p < 2 ^ 30"
    "be32 p H_OFF_STRUCT = Inr so" "be32 p H_SIZE_STRUCT = Inr ss" "be32 p H_OFF_STRINGS = Inr to"
    "be32 p H_SIZE_STRINGS = Inr tsz" "be32 p H_OFF_RSVMAP = Inr rsv" "be32 p H_BOOT_CPUID = Inr cpu"
    "so + ss \<le> length p" "stream p so ts e" "ends_at p e (so + ss)" "strings_ok p to tsz"
    "rsv_length p rsv 0 = Inr (Some k)" "\<And>no nm val. TProp no nm val \<in> set ts \<Longrightarrow> no + length nm < tsz"
  using assms unfolding dtb_def by blast

text \<open>Names are found in the strings of the copy.\<close>

lemma string_in_out:
  assumes "string_at p no = Inr nm" "be32 p H_OFF_STRINGS = Inr to" "no + length nm < tsz" "to + tsz \<le> length p"
  shows "seg (out_strings p to tsz add) no (nm @ [0])"
proof -
  have "cstr_at p (to + no) = Inr nm" using assms(1,2) by (simp add: string_at_def)
  then have "seg p (to + no) (nm @ [0])" by (rule cstr_at_seg)
  then have "take (length nm + 1) (drop no (take tsz (drop to p))) = nm @ [0]"
    using assms(3) by (simp add: seg_def drop_take take_take min_def add.commute)
  then show ?thesis using assms(3,4) by (simp add: seg_def out_strings_def)
qed

lemma name_in_out:
  assumes "to + tsz \<le> length p"
  shows "seg (out_strings p to tsz True) tsz (cs ''bootargs'' @ [0])"
proof -
  have "length (take tsz (drop to p)) = tsz" using assms by simp
  then show ?thesis
    using seg_here [of "take tsz (drop to p)" "cs ''bootargs'' @ [0]" "[]"] by (simp add: out_strings_def)
qed

lemma seg_in: "seg b off xs \<Longrightarrow> seg xs i ys \<Longrightarrow> seg b (off + i) ys"
proof -
  assume a: "seg b off xs" "seg xs i ys"
  then have "xs = take i xs @ ys @ drop (i + length ys) xs"
    by (metis add.commute append_take_drop_id drop_drop seg_def)
  with a(1) have "seg b off (take i xs @ ys @ drop (i + length ys) xs)" by simp
  moreover have "length (take i xs) = i" using a(2) by (simp add: seg_def)
  ultimately show ?thesis by (simp only: seg_append)
qed

lemma out_strings_last:
  "strings_ok p to tsz \<Longrightarrow> S = out_strings p to tsz add \<Longrightarrow> S = [] \<or> S ! (length S - 1) = 0"
  by (auto simp: out_strings_def strings_ok_def nth_append)

text \<open>Every token of the fixed list can be read back in a buffer with these strings.\<close>

lemma fixed_set:
  "t \<in> set (fixed fx ano ac sc ts) \<Longrightarrow>
     t \<in> set ts \<or> t \<in> set (arg_toks fx ano) \<or> t = TBegin (cs ''chosen'') \<or> t = TEnd \<or>
     (\<exists>no nm val val'. t = TProp no nm val \<and> TProp no nm val' \<in> set ts)"
  by (auto simp: fixed_def Let_def split: if_splits dest!: in_set_butlastD fix_toks_set)

lemma fixed_toks_ok:
  assumes "t \<in> set (fixed fx ano ac sc ts)" "\<forall>t \<in> set ts. tok_ok p t" "be32 p H_OFF_STRINGS = Inr to"
    and "\<And>no nm val. TProp no nm val \<in> set ts \<Longrightarrow> no + length nm < tsz" "to + tsz \<le> length p"
    and "S = out_strings p to tsz add" "seg S ano (cs ''bootargs'' @ [0])"
    and "be32 q H_OFF_STRINGS = Inr to'" "seg q to' S" "length q < 2 ^ 30"
  shows "tok_ok q t" "t = TProp no nm val \<Longrightarrow> no + length nm < length S"
proof -
  have old: "seg S no (nm @ [0]) \<and> is_cstr nm" if "TProp no nm val \<in> set ts" for no nm val
  proof -
    have "string_at p no = Inr nm" using assms(2) that by fastforce
    then show ?thesis
      using string_in_out [OF _ assms(3) assms(4) [OF that] assms(5), of add] string_at_is_cstr by (auto simp: assms(6))
  qed
  have new: "seg S no (nm @ [0]) \<and> is_cstr nm" if "TProp no nm val \<in> set (arg_toks fx ano)" for no nm val
    using that assms(7) by (auto simp: arg_toks_def split: option.splits)
  have either: "seg S no (nm @ [0]) \<and> is_cstr nm" if "t = TProp no nm val" for no nm val
    using fixed_set [OF assms(1)] that old new by auto
  show "t = TProp no nm val \<Longrightarrow> no + length nm < length S"
    using either seg_len by fastforce
  show "tok_ok q t"
  proof (cases t)
    case (TBegin nm)
    then show ?thesis using fixed_set [OF assms(1)] assms(2) by (auto simp: arg_toks_def split: option.splits)
  next
    case (TProp no nm val)
    note e = either [OF TProp]
    have "seg q (to' + no) (nm @ [0])" using seg_in [OF assms(9)] e by blast
    moreover have "no < W32" using seg_len [OF conjunct1 [OF e]] seg_len [OF assms(9)] assms(10) by (simp add: W32_def)
    ultimately show ?thesis using e seg_cstr assms(8) by (simp add: TProp string_at_def)
  qed auto
qed

text \<open>A buffer laid out as the copy is a well-formed DTB.\<close>

lemma out_dtb:
  assumes "dtb p ts" "be32 p H_OFF_STRINGS = Inr to" "be32 p H_SIZE_STRINGS = Inr tsz" "be32 p H_OFF_RSVMAP = Inr rsv"
    and "rsv_length p rsv 0 = Inr (Some k)" "S = out_strings p to tsz add" "seg S ano (cs ''bootargs'' @ [0])"
    and "E = concat (map enc (fixed fx ano ac sc ts))"
    and "length b \<le> 2 ^ 24" "cpu < W32"
    and "seg b 40 (take k (drop rsv p) @ E @ put_be32 FDT_END @ S)"
    and "n = 40 + k + length E + 4 + length S"
    and "\<forall>q \<in> set [(H_MAGIC, FDT_MAGIC), (H_TOTALSIZE, n), (H_OFF_STRUCT, 40 + k),
           (H_OFF_STRINGS, 40 + k + length E + 4), (H_OFF_RSVMAP, 40), (H_VERSION, 17),
           (H_LAST_COMP, 16), (H_BOOT_CPUID, cpu), (H_SIZE_STRINGS, length S),
           (H_SIZE_STRUCT, length E + 4)]. seg b (fst q) (put_be32 (snd q))"
  shows "dtb (take n b) (fixed fx ano ac sc ts)"
proof -
  let ?q = "take n b"
  let ?R = "take k (drop rsv p)"
  obtain so to' tsz' e where d: "length p < 2 ^ 30" "stream p so ts e" "strings_ok p to' tsz'"
      "\<And>no nm val. TProp no nm val \<in> set ts \<Longrightarrow> no + length nm < tsz'"
      "be32 p H_OFF_STRINGS = Inr to'" "be32 p H_SIZE_STRINGS = Inr tsz'"
    using dtbE [OF assms(1)] by metis
  have "to' = to" "tsz' = tsz" using assms(2,3) d(5,6) by simp_all
  note p = d(1-4) [unfolded this]
  have k: "rsv + k \<le> length p" using rsv_length_facts [OF assms(5)] by simp
  then have lR: "length ?R = k" by simp
  have ln: "n \<le> length b" "length ?q = n" using seg_len [OF assms(11)] lR assms(12) by auto
  have n24: "n \<le> 2 ^ 24" using ln(1) assms(9) by simp
  then have small: "n < W32" "n < 2 ^ 30" by (simp_all add: W32_def)
  have f: "be32 ?q (fst x) = Inr (snd x)" if "seg b (fst x) (put_be32 (snd x))" "fst x + 4 \<le> 40" "snd x < W32"
    for x :: "nat \<times> nat"
    using seg_be32 [OF seg_take [OF that(1), of n] that(3)] that(2) assms(12) by simp
  have h: "be32 ?q H_MAGIC = Inr FDT_MAGIC" "be32 ?q H_TOTALSIZE = Inr n" "be32 ?q H_OFF_STRUCT = Inr (40 + k)"
      "be32 ?q H_OFF_STRINGS = Inr (40 + k + length E + 4)" "be32 ?q H_OFF_RSVMAP = Inr 40"
      "be32 ?q H_LAST_COMP = Inr 16" "be32 ?q H_BOOT_CPUID = Inr cpu" "be32 ?q H_SIZE_STRINGS = Inr (length S)"
      "be32 ?q H_SIZE_STRUCT = Inr (length E + 4)"
    using assms(13) f [of "(H_MAGIC, FDT_MAGIC)"] f [of "(H_TOTALSIZE, n)"] f [of "(H_OFF_STRUCT, 40 + k)"]
      f [of "(H_OFF_STRINGS, 40 + k + length E + 4)"] f [of "(H_OFF_RSVMAP, 40)"] f [of "(H_LAST_COMP, 16)"]
      f [of "(H_BOOT_CPUID, cpu)"] f [of "(H_SIZE_STRINGS, length S)"] f [of "(H_SIZE_STRUCT, length E + 4)"]
      small(1) assms(10,12)
    by (simp_all add: fdt_header FDT_MAGIC_def W32_def)
  have sg: "seg ?q 40 ?R" "seg ?q (40 + k) E" "seg ?q (40 + k + length E) (put_be32 FDT_END)"
      "seg ?q (40 + k + length E + 4) S"
    using seg_take [OF assms(11), of n] lR assms(12) by (simp_all add: seg_append add.assoc)
  have "(40 + k + (length E + 4)) mod W32 = 40 + k + (length E + 4)"
      "(40 + k + length E + 4 + length S) mod W32 = n" using small(1) assms(12) by auto
  then have valid: "fdt_valid (Some ?q) = Inr True"
    using h n24 assms(12) by (simp add: fdt_valid_def FDT_HEADER_SIZE_def)
  have oks: "\<forall>t \<in> set (fixed fx ano ac sc ts). tok_ok ?q t"
      and names: "\<forall>no nm val. TProp no nm val \<in> set (fixed fx ano ac sc ts) \<longrightarrow> no + length nm < length S"
    using fixed_toks_ok [OF _ stream_toks [OF p(2)] assms(2) p(4) _ assms(6,7) h(4) sg(4)] p(3) ln(2) small(2)
    by (auto simp: strings_ok_def)
  have st: "stream ?q (40 + k) (fixed fx ano ac sc ts) (40 + k + length E)"
    using enc_stream [OF sg(2) [unfolded assms(8)] _ oks] ln(2) small(2) unfolding assms(8) by simp
  have "be32 ?q (40 + k + length E) = Inr FDT_END" by (rule seg_be32 [OF sg(3)]) simp
  then have ends: "ends_at ?q (40 + k + length E) (40 + k + (length E + 4))" by (simp add: ends_at_def)
  have "?q ! (40 + k + length E + 4 + length S - 1) = 0" if "length S > 0"
    using seg_nth [OF sg(4), of "length S - 1"] out_strings_last [OF p(3) assms(6)] that by auto
  then have strs: "strings_ok ?q (40 + k + length E + 4) (length S)"
    using ln(2) assms(12) by (auto simp: strings_ok_def)
  have rsv: "rsv_length ?q 40 0 = Inr (Some k)"
    using rsv_copied [OF assms(5)] seg_be32_copied [OF sg(1)] by blast
  have le: "40 + k + (length E + 4) \<le> length ?q" using ln(2) assms(12) by simp
  have "length ?q < 2 ^ 30" using ln(2) small(2) by simp
  then show ?thesis unfolding dtb_def using valid h(3-5,7-9) le st ends strs rsv names by blast
qed

declare root_cells_loop.simps [simp del] copy_loop.simps [simp del] find_string_loop.simps [simp del]

lemma copy_struct_overflow:
  assumes "good w P" "overflow w" shows "copy_struct fx ano ac sc p off ss w = Inr None"
proof -
  let ?st = "\<lparr>wb = w, depth = 0, in_chosen = False, in_memory = False, wrote_args = False,
                saw_chosen = False, wrote_mem = False\<rparr>"
  have "copy_loop (length p + 1) fx ano ac sc p off ((off + ss) mod W32) ?st = Inr (Some ?st)"
    by (rule copy_loop_overflow) (simp_all add: assms(2))
  moreover have "add_chosen fx ano (wpos w) ?st = Inr ?st"
    using assms(2) by (simp add: add_chosen_def split: option.splits)
  moreover obtain w' where "w_u32 w FDT_END = Inr w'" "same_dst w w'"
    using writesD [OF w_u32_writes [OF assms(1)]] by blast
  ultimately show ?thesis using assms(2) by (simp add: copy_struct_def Let_def same_dst_def del: copy_loop.simps)
qed

definition copy_room :: "u8 list \<Rightarrow> tok list \<Rightarrow> nat" where
  "copy_room p ts = length p + length (concat (map enc ts)) + 4200"

lemma find_bootargs_name:
  assumes "dtb p ts" "be32 p H_OFF_STRINGS = Inr to" "be32 p H_SIZE_STRINGS = Inr tsz"
  obtains found where "find_string p (cs ''bootargs'') = Inr found"
    "seg (out_strings p to tsz (found = None)) (case found of Some i \<Rightarrow> i | None \<Rightarrow> tsz) (cs ''bootargs'' @ [0])"
proof -
  have p: "strings_ok p to tsz" "length p < 2 ^ 30"
    using dtbE [OF assms(1)] assms(2,3) by (metis sum.inject(2))+
  obtain r where r: "find_string_loop (tsz + 1) p to tsz (cs ''bootargs'') 0 = Inr r"
      "\<forall>k. r = Some k \<longrightarrow> k + length (cs ''bootargs'') < tsz \<and> cstr_at p (to + k) = Inr (cs ''bootargs'')"
    using find_string_loop_total [OF p, of "cs ''bootargs''" 0 "tsz + 1"] by auto
  have "find_string p (cs ''bootargs'') = Inr r" using r(1) assms(2,3) by (simp add: find_string_def)
  moreover have "seg (out_strings p to tsz (r = None)) (case r of Some i \<Rightarrow> i | None \<Rightarrow> tsz) (cs ''bootargs'' @ [0])"
    using r(2) p(1) name_in_out [of to tsz p] string_in_out [OF _ assms(2), of _ "cs ''bootargs''" tsz False] assms(2)
    by (cases r) (auto simp: strings_ok_def string_at_def)
  ultimately show ?thesis by (rule that)
qed

lemma w_pad4_aligned: "wpos w mod 4 = 0 \<Longrightarrow> w_pad4 w = Inr w"
proof -
  have "(4 :: nat) = Suc 3" by simp
  then show "wpos w mod 4 = 0 \<Longrightarrow> w_pad4 w = Inr w" unfolding w_pad4_def by (metis w_pad_loop.simps(2))
qed

lemma copy_facts:
  assumes D: "dtb p ts" and R: "rooted ts" and A: "args_small fx" and dst: "40 \<le> length dst" "length dst \<le> 2 ^ 24"
  shows "\<exists>ano ac sc r. fdt_copy_with_fixups (Some p) dst (length dst) (Some fx) = Inr r \<and> root_cells p = Inr (ac, sc) \<and>
    (r = None \<longrightarrow> length dst < copy_room p (fixed fx ano ac sc ts)) \<and>
    (\<forall>b n. r = Some (b, n) \<longrightarrow> length b = length dst \<and> n \<le> length dst \<and> dtb (take n b) (fixed fx ano ac sc ts))"
proof -
  obtain so ss to tsz rsv cpu e k where p: "fdt_valid (Some p) = Inr True" "length p < 2 ^ 30"
    "be32 p H_OFF_STRUCT = Inr so" "be32 p H_SIZE_STRUCT = Inr ss" "be32 p H_OFF_STRINGS = Inr to"
    "be32 p H_SIZE_STRINGS = Inr tsz" "be32 p H_OFF_RSVMAP = Inr rsv" "be32 p H_BOOT_CPUID = Inr cpu"
    "so + ss \<le> length p" "stream p so ts e" "ends_at p e (so + ss)" "strings_ok p to tsz"
    "rsv_length p rsv 0 = Inr (Some k)" "\<And>no nm val. TProp no nm val \<in> set ts \<Longrightarrow> no + length nm < tsz"
    using dtbE [OF D] by metis
  have m: "(so + ss) mod W32 = so + ss" using p(2,9) by (simp add: W32_def)
  have le: "e \<le> so + ss" using p(11) by (auto simp: ends_at_def)
  have fuel: "length ts < length p + 1" using stream_le [OF p(10,2)] le p(9) by simp
  obtain ac sc where rc: "root_cells p = Inr (ac, sc)"
    using root_cells_stream [OF p(10,11,2) fuel, of 0 2 1] p(3,4) m by (fastforce simp: root_cells_def)
  obtain found where fd: "find_string p (cs ''bootargs'') = Inr found"
    "seg (out_strings p to tsz (found = None)) (case found of Some i \<Rightarrow> i | None \<Rightarrow> tsz) (cs ''bootargs'' @ [0])"
    using find_bootargs_name [OF D p(5,6)] by blast
  define ano where "ano = (case found of Some i \<Rightarrow> i | None \<Rightarrow> tsz)"
  define E where "E = concat (map enc (fixed fx ano ac sc ts))"
  define S where "S = out_strings p to tsz (found = None)"
  have k: "k mod 16 = 0" "rsv + k \<le> length p" "k \<le> 4112" using rsv_length_facts [OF p(13)] by simp_all
  define w0 where "w0 = \<lparr>base = dst, wcap = length dst, wpos = FDT_HEADER_SIZE, overflow = False\<rparr>"
  define P1 where "P1 = take 40 dst @ take k (drop rsv p)"
  have lP1: "length P1 = 40 + k" using dst(1) k(2) by (simp add: P1_def)
  have g0: "good w0 (take 40 dst)" using dst by (simp add: good_def w0_def FDT_HEADER_SIZE_def)
  have pad: "w_pad4 w0 = Inr w0"
    by (rule w_pad4_aligned) (simp add: w0_def FDT_HEADER_SIZE_def)
  obtain w1 where w1: "w_copy w0 p rsv k = Inr w1" "good w1 P1" "same_dst w0 w1"
    using writesD [OF w_copy_writes [OF g0 k(2)]] k(3) unfolding P1_def by auto
  have "(8 - (40 + k) mod 8) mod 8 = (0 :: nat)" using k(1) by presburger
  then have z: "\<not> overflow w1 \<longrightarrow> 0 = (8 - length P1 mod 8) mod 8" unfolding lP1 by simp
  have "(8 - wpos w1 mod 8) mod 8 < (8 :: nat)" by simp
  note al = align8_writes [OF w1(2) z this]
  have strs: "to + tsz \<le> length p" using p(12) by (simp add: strings_ok_def)
  have lS: "length S \<le> length p + 9" using strs by (simp add: S_def out_strings_def cs_def)
  have room: "40 + k + length E + 4 + length S \<le> copy_room p (fixed fx ano ac sc ts)"
    using k(3) lS by (simp add: copy_room_def E_def)
  let ?copy = "fdt_copy_with_fixups (Some p) dst (length dst) (Some fx)"
  have unfold: "?copy = andthen (align8_loop 8 w1) (\<lambda>al. case al of None \<Rightarrow> Inr None
        | Some w \<Rightarrow> andthen (copy_struct fx ano ac sc p so ss w) (\<lambda>r.
            case r of None \<Rightarrow> Inr None
            | Some w' \<Rightarrow> copy_tail p to tsz (found = None) cpu 40 (wpos w) w'))"
    unfolding fdt_copy_with_fixups_def ano_def
    using p(1,3-8,13) rc fd(1) pad w1(1) by (simp add: w0_def [symmetric] Let_def) (simp add: w0_def FDT_HEADER_SIZE_def)
  note sd = w1(3) [unfolded same_dst_def w0_def, simplified]
  have fail: ?thesis if "?copy = Inr None" "length dst < 40 + k + length E + 4 + length S"
    using that rc room
    by (intro exI [of _ ano] exI [of _ ac] exI [of _ sc] exI [of _ None]) simp
  from al show ?thesis
  proof (elim disjE exE conjE)
    assume "align8_loop 8 w1 = Inr None" "wcap w1 < length P1 + 0"
    then show ?thesis using fail unfold sd lP1 by simp
  next
    fix w2
    assume w2: "align8_loop 8 w1 = Inr (Some w2)" "good w2 (P1 @ replicate 0 0)" "same_dst w1 w2"
    have cap: "wcap w2 = length dst" "length (base w2) = length dst" using w2(3) sd by (simp_all add: same_dst_def)
    have g2: "good w2 P1" using w2(2) by simp
    show ?thesis
    proof (cases "overflow w2")
      case True
      then have "?copy = Inr None" using unfold w2(1) copy_struct_overflow [OF g2] by simp
      moreover have "length dst < length P1" using True g2 cap(1) by (simp add: good_def)
      ultimately show ?thesis using fail lP1 by simp
    next
      case False
      then have pos: "wpos w2 = 40 + k" using g2 lP1 by (simp add: good_def)
      have "4 dvd length P1" unfolding lP1 using k(1) by presburger
      have ends: "ends_at p e ((so + ss) mod W32)" unfolding m by (rule p(11))
      from copy_struct_writes [OF p(10) ends p(2) R A g2 \<open>4 dvd length P1\<close> False, of ano ac sc]
      show ?thesis
      proof (elim disjE exE conjE)
        assume "copy_struct fx ano ac sc p so ss w2 = Inr None"
          "wcap w2 < length P1 + length (concat (map enc (fixed fx ano ac sc ts))) + 4"
        then show ?thesis using fail unfold w2(1) cap(1) lP1 by (simp add: E_def)
      next
        fix w3
        assume w3: "copy_struct fx ano ac sc p so ss w2 = Inr (Some w3)" "same_dst w2 w3" "\<not> overflow w3"
          "good w3 (P1 @ concat (map enc (fixed fx ano ac sc ts)) @ put_be32 FDT_END)"
        let ?P = "P1 @ E @ put_be32 FDT_END"
        have cap3: "wcap w3 = length dst" "length (base w3) = length dst" using w3(2) cap by (simp_all add: same_dst_def)
        have lP: "length ?P = 40 + k + length E + 4" using lP1 by simp
        have copy: "?copy = copy_tail p to tsz (found = None) cpu 40 (40 + k) w3"
          using unfold w2(1) w3(1) pos by simp
        have g3: "good w3 ?P" using w3(4) by (simp add: E_def)
        have bounds: "40 \<le> length ?P" "wcap w3 \<le> 2 ^ 24" using lP cap3 dst(2) by simp_all
        note tl = copy_tail_writes [where w = w3 and P = ?P and to = to and tsz = tsz and p = p and
            add = "found = None" and cpu = cpu and rs = 40 and os = "40 + k"]
        from tl [OF g3 w3(3) bounds strs p(2), folded S_def]
        show ?thesis
        proof (elim disjE exE conjE)
          assume "copy_tail p to tsz (found = None) cpu 40 (40 + k) w3 = Inr None" "wcap w3 < length ?P + length S"
          then show ?thesis using fail copy cap3 lP by simp
        next
          fix b
          assume b: "copy_tail p to tsz (found = None) cpu 40 (40 + k) w3 = Inr (Some (b, length ?P + length S))"
            "length b = length (base w3)" "length ?P + length S \<le> wcap w3" "seg b 40 (drop 40 (?P @ S))"
            "\<forall>q \<in> set [(H_MAGIC, FDT_MAGIC), (H_TOTALSIZE, length ?P + length S), (H_OFF_STRUCT, 40 + k),
             (H_OFF_STRINGS, length ?P), (H_OFF_RSVMAP, 40), (H_VERSION, 17), (H_LAST_COMP, 16),
             (H_BOOT_CPUID, cpu), (H_SIZE_STRINGS, length S), (H_SIZE_STRUCT, length ?P - (40 + k))].
               seg b (fst q) (put_be32 (snd q))"
          have d: "drop 40 (?P @ S) = take k (drop rsv p) @ E @ put_be32 FDT_END @ S" using dst(1) by (simp add: P1_def)
          have n: "length ?P + length S = 40 + k + length E + 4 + length S" using lP by simp
          have "dtb (take (length ?P + length S) b) (fixed fx ano ac sc ts)"
            using out_dtb [OF D p(5-7,13) S_def fd(2) [folded S_def ano_def] E_def _ conjunct1 [OF be32_bound [OF p(8)]]
                b(4) [unfolded d] n] b(2,5) lP cap3 dst(2) by (simp add: ac_simps)
          then show ?thesis using copy b(1-3) rc cap3
            by (intro exI [of _ ano] exI [of _ ac] exI [of _ sc] exI [of _ "Some (b, length ?P + length S)"]) simp
        qed
      qed
    qed
  qed
qed

section \<open>A small DTB\<close>

text \<open>A root with a \<open>/chosen\<close> that has an empty command line, and a \<open>/memory\<close>.\<close>

definition ex_toks :: "tok list" where
  "ex_toks = [TBegin [], TBegin (cs ''chosen''), TProp 0 (cs ''bootargs'') [0], TEnd,
     TBegin (cs ''memory''), TProp 9 (cs ''reg'') [0], TEnd, TEnd]"

definition ex_strings :: "u8 list" where
  "ex_strings = cs ''bootargs'' @ [0] @ cs ''reg'' @ [0]"

definition ex_struct :: "u8 list" where
  "ex_struct = concat (map enc ex_toks) @ put_be32 FDT_END"

definition ex_dtb :: "u8 list" where
  "ex_dtb = concat (map put_be32 [FDT_MAGIC, 56 + length ex_struct + 13, 56, 56 + length ex_struct, 40, 17, 16, 0,
     13, length ex_struct]) @ replicate 16 0 @ ex_struct @ ex_strings"

lemma ex_struct_length: "length ex_struct = 80"
 by (simp add: ex_struct_def ex_toks_def padz_def cs_def fdt_tokens)

lemma ex_parts:
  "seg ex_dtb 0 (put_be32 FDT_MAGIC)" "seg ex_dtb 4 (put_be32 149)" "seg ex_dtb 8 (put_be32 56)"
  "seg ex_dtb 12 (put_be32 136)" "seg ex_dtb 16 (put_be32 40)" "seg ex_dtb 24 (put_be32 16)" "seg ex_dtb 28 (put_be32 0)"
  "seg ex_dtb 32 (put_be32 13)" "seg ex_dtb 36 (put_be32 80)" "seg ex_dtb 40 (replicate 16 0)" "seg ex_dtb 56 ex_struct" "seg ex_dtb 136 ex_strings"
proof -
  have "seg ex_dtb 0 ex_dtb" by (simp add: seg_def)
  then have "seg ex_dtb 0 (concat (map put_be32 [FDT_MAGIC, 149, 56, 136, 40, 17, 16, 0, 13, 80]) @ replicate 16 0 @ ex_struct @ ex_strings)"
    by (subst (asm) (2) ex_dtb_def) (simp add: ex_struct_length)
  then show   "seg ex_dtb 0 (put_be32 FDT_MAGIC)" "seg ex_dtb 4 (put_be32 149)" "seg ex_dtb 8 (put_be32 56)"
  "seg ex_dtb 12 (put_be32 136)" "seg ex_dtb 16 (put_be32 40)" "seg ex_dtb 24 (put_be32 16)" "seg ex_dtb 28 (put_be32 0)"
  "seg ex_dtb 32 (put_be32 13)" "seg ex_dtb 36 (put_be32 80)" "seg ex_dtb 40 (replicate 16 0)" "seg ex_dtb 56 ex_struct" "seg ex_dtb 136 ex_strings"
   by (simp_all add: seg_append ex_struct_length)
qed

lemma ex_dtb_length: "length ex_dtb = 149"
  by (simp add: ex_dtb_def ex_struct_length ex_strings_def cs_def)

lemma ex_is_dtb: "dtb ex_dtb ex_toks"
proof -
  have h: "be32 ex_dtb H_MAGIC = Inr FDT_MAGIC" "be32 ex_dtb H_TOTALSIZE = Inr 149" "be32 ex_dtb H_OFF_STRUCT = Inr 56"
    "be32 ex_dtb H_OFF_STRINGS = Inr 136" "be32 ex_dtb H_OFF_RSVMAP = Inr 40" "be32 ex_dtb H_LAST_COMP = Inr 16"
    "be32 ex_dtb H_BOOT_CPUID = Inr 0" "be32 ex_dtb H_SIZE_STRINGS = Inr 13" "be32 ex_dtb H_SIZE_STRUCT = Inr 80"
    unfolding fdt_header by (intro seg_be32 ex_parts; simp add: W32_def FDT_MAGIC_def)+
  have valid: "fdt_valid (Some ex_dtb) = Inr True" by (simp add: fdt_valid_def h FDT_HEADER_SIZE_def W32_def)
  have st: "seg ex_dtb 56 (concat (map enc ex_toks))" "seg ex_dtb 132 (put_be32 FDT_END)"
    using ex_parts(11) ex_struct_length unfolding ex_struct_def seg_append by (simp_all del: enc.simps)
  have len: "length (concat (map enc ex_toks)) = 76" using ex_struct_length by (simp add: ex_struct_def)
  have "seg ex_dtb 136 (cs ''bootargs'' @ [0])" "seg ex_dtb 145 (cs ''reg'' @ [0])"
    using ex_parts(12) seg_append [of ex_dtb 136 "cs ''bootargs'' @ [0]" "cs ''reg'' @ [0]"]
    by (simp_all add: ex_strings_def) (simp add: cs_def)
  then have names: "string_at ex_dtb 0 = Inr (cs ''bootargs'')" "string_at ex_dtb 9 = Inr (cs ''reg'')"
    by (simp_all add: string_at_def h seg_cstr)
  have "stream ex_dtb 56 ex_toks (56 + 76)"
    unfolding len [symmetric] using names
    by (intro enc_stream st, simp add: ex_dtb_length, auto simp: ex_toks_def W32_def is_cstr_def [of "[]"])
  moreover have "be32 ex_dtb 132 = Inr FDT_END" by (rule seg_be32 [OF st(2)]) simp
  then have ends: "ends_at ex_dtb (56 + 76) (56 + 80)" by (simp add: ends_at_def)
  have "ex_dtb ! 148 = 0" using seg_nth [OF ex_parts(12), of 12] by (simp add: ex_strings_def cs_def)
  then have strs: "strings_ok ex_dtb 136 13" by (simp add: strings_ok_def ex_dtb_length)
  have "replicate 16 0 = put_be32 0 @ put_be32 0 @ put_be32 0 @ put_be32 0" by (simp add: put_be32_def numeral_eq_Suc)
  then have "seg ex_dtb 40 (put_be32 0 @ put_be32 0 @ put_be32 0 @ put_be32 0)" using ex_parts(10) by simp
  then have "be32 ex_dtb 40 = Inr 0" "be32 ex_dtb 44 = Inr 0" "be32 ex_dtb 48 = Inr 0" "be32 ex_dtb 52 = Inr 0"
    by (auto simp: seg_append W32_def intro: seg_be32)
  then have rsv: "rsv_length ex_dtb 40 0 = Inr (Some 16)" by (subst rsv_length.simps) simp
  have "\<forall>no nm val. TProp no nm val \<in> set ex_toks \<longrightarrow> no + length nm < 13" by (simp add: ex_toks_def cs_def)
  moreover have "length ex_dtb < 2 ^ 30" "56 + 80 \<le> length ex_dtb" by (simp_all add: ex_dtb_length)
  ultimately show ?thesis using valid h(3-5,7-9) ends strs rsv unfolding dtb_def by blast
qed

lemma ex_rooted: "rooted ex_toks"
  unfolding rooted_def ex_toks_def
  by (intro conjI exI [of _ "butlast ex_toks"] exI [of _ 0]) (simp_all add: ex_toks_def)

lemma find_bootargs_dtb:
  assumes "dtb q ts" "find_toks 0 False ts = Some (a @ [0])" "is_cstr a"
  shows "find_bootargs q = Inr (Some a)"
proof -
  obtain so ss e where q: "length q < 2 ^ 30" "be32 q H_OFF_STRUCT = Inr so" "be32 q H_SIZE_STRUCT = Inr ss"
      "so + ss \<le> length q" "stream q so ts e" "ends_at q e (so + ss)"
    using dtbE [OF assms(1)] by metis
  have m: "(so + ss) mod W32 = so + ss" using q(1,4) by (simp add: W32_def)
  have "e \<le> so + ss" using q(6) by (auto simp: ends_at_def)
  then have "length ts < length q + 1" using stream_le [OF q(5,1)] q(4) by simp
  from find_bootargs_stream [OF q(5,6,1) this, of 0 False] assms(2)
  have "find_bootargs_loop (length q + 1) q so (so + ss) 0 False = Inr (Some (takeWhile (\<lambda>b. b \<noteq> 0) (a @ [0])))" by simp
  moreover have "takeWhile (\<lambda>b. b \<noteq> 0) (a @ [0]) = a" using assms(3) takeWhile_nul [of a "[]"] by (simp add: is_cstr_def)
  ultimately show ?thesis using q(2,3) m by (simp add: find_bootargs_def del: find_bootargs_loop.simps)
qed

text \<open>The fixed list is closed like the original, so that a copy can be copied again.\<close>

lemma rootedI: "net xs = 1 \<Longrightarrow> ts = xs @ [TEnd] \<Longrightarrow> rooted ts"
  unfolding rooted_def by (rule conjI, simp, rule exI [of _ xs], rule exI [of _ 0], simp)

lemma rooted_fixed:
  assumes "rooted ts" shows "rooted (fixed fx ano ac sc ts)"
proof -
  let ?o = "fix_toks fx ano ac sc 0 False False False ts"
  obtain ys where o: "?o = ys @ [TEnd]" using assms fix_toks_end unfolding rooted_def by metis
  have "net ?o = 0" using assms by (simp add: rooted_def)
  then have n: "net ys = 1" using o by simp
  show ?thesis
  proof (cases "bootargs fx \<noteq> None \<and> \<not> has_chosen 0 ts")
    case True
    have "net (arg_toks fx ano) = 0" by (simp add: arg_toks_def split: option.splits)
    then show ?thesis
      using True o n by (intro rootedI [of "ys @ [TBegin (cs ''chosen'')] @ arg_toks fx ano @ [TEnd]"]) (simp_all add: fixed_def Let_def)
  next
    case False
    then show ?thesis using o n by (intro rootedI [of ys]) (auto simp: fixed_def Let_def)
  qed
qed

text \<open>
  C2: copying a well-formed DTB never reads or writes outside its buffers and always returns;
  when it succeeds the destination holds a well-formed DTB with the fixed tokens, closed like
  the original, and it fails only for want of room.
\<close>

theorem fdt_copy_fixes_tokens:
  assumes "dtb p ts" "rooted ts" "args_small fx" "40 \<le> length dst" "length dst \<le> 2 ^ 24"
  shows "\<exists>ano ac sc r. fdt_copy_with_fixups (Some p) dst (length dst) (Some fx) = Inr r \<and> root_cells p = Inr (ac, sc) \<and>
    (r = None \<longrightarrow> length dst < copy_room p (fixed fx ano ac sc ts)) \<and>
    (\<forall>b n. r = Some (b, n) \<longrightarrow> length b = length dst \<and> n \<le> length dst \<and>
      dtb (take n b) (fixed fx ano ac sc ts) \<and> rooted (fixed fx ano ac sc ts))"
proof -
  obtain ano ac sc r where "fdt_copy_with_fixups (Some p) dst (length dst) (Some fx) = Inr r" "root_cells p = Inr (ac, sc)"
      "r = None \<longrightarrow> length dst < copy_room p (fixed fx ano ac sc ts)"
      "\<forall>b n. r = Some (b, n) \<longrightarrow> length b = length dst \<and> n \<le> length dst \<and> dtb (take n b) (fixed fx ano ac sc ts)"
    using copy_facts [OF assms] by blast
  moreover have "rooted (fixed fx ano ac sc ts)" by (rule rooted_fixed [OF assms(2)])
  ultimately show ?thesis by blast
qed

definition ex_fx :: fixup where
  "ex_fx = \<lparr>bootargs = Some (cs ''quiet''), mem_base = 0, mem_size = 0x20000000\<rparr>"

lemma ex_args: "args_small ex_fx"
  by (simp add: args_small_def ex_fx_def cs_def is_cstr_def)

lemma ex_room: "copy_room ex_dtb (fixed ex_fx ano ac sc ex_toks) \<le> 6000"
proof -
  let ?n = "length (write_cells 0 ac) + length (write_cells 0x20000000 sc)"
  have "?n \<le> 16" "(4 - ?n mod 4) mod 4 < 4"
    using write_cells_length [of 0 ac] write_cells_length [of "0x20000000" sc] by simp_all
  then show ?thesis
    by (auto simp: copy_room_def ex_dtb_length fixed_def Let_def ex_toks_def ex_fx_def enters_def arg_toks_def padz_def cs_def)
qed

lemma ex_dst: "40 \<le> length (replicate 6000 (0 :: u8))" "length (replicate 6000 (0 :: u8)) \<le> 2 ^ 24"
  by simp_all

theorem fdt_copy_fixes_tokens_witness:
  "\<exists>ano ac sc b n. fdt_copy_with_fixups (Some ex_dtb) (replicate 6000 0) 6000 (Some ex_fx) = Inr (Some (b, n)) \<and>
    root_cells ex_dtb = Inr (ac, sc) \<and> dtb (take n b) (fixed ex_fx ano ac sc ex_toks)"
proof -
  obtain ano ac sc r where r: "fdt_copy_with_fixups (Some ex_dtb) (replicate 6000 0) 6000 (Some ex_fx) = Inr r"
      "root_cells ex_dtb = Inr (ac, sc)" "r = None \<longrightarrow> 6000 < copy_room ex_dtb (fixed ex_fx ano ac sc ex_toks)"
      "\<forall>b n. r = Some (b, n) \<longrightarrow> dtb (take n b) (fixed ex_fx ano ac sc ex_toks)"
    using fdt_copy_fixes_tokens [OF ex_is_dtb ex_rooted ex_args ex_dst, unfolded length_replicate] by blast
  obtain b n where "r = Some (b, n)" using r(3) ex_room [of ano ac sc] by (cases r) auto
  with r show ?thesis by blast
qed

text \<open>
  C22: after a copy that succeeded, the command line found in the new DTB is the one asked for.
\<close>

theorem fdt_bootargs_installed:
  assumes "dtb p ts" "rooted ts" "args_small fx" "40 \<le> length dst" "length dst \<le> 2 ^ 24" "bootargs fx = Some a"
    and "fdt_copy_with_fixups (Some p) dst (length dst) (Some fx) = Inr (Some (b, n))"
  shows "find_bootargs (take n b) = Inr (Some a)"
proof -
  obtain ano ac sc where "dtb (take n b) (fixed fx ano ac sc ts)"
    using copy_facts [OF assms(1-5)] assms(7) by auto
  then show ?thesis
    using find_bootargs_dtb [OF _ find_fixed [OF assms(2,6)]] assms(3,6) by (simp add: args_small_def)
qed

theorem fdt_bootargs_installed_witness:
  "\<exists>b n. fdt_copy_with_fixups (Some ex_dtb) (replicate 6000 0) 6000 (Some ex_fx) = Inr (Some (b, n)) \<and>
    find_bootargs (take n b) = Inr (Some (cs ''quiet''))"
proof -
  obtain ano ac sc r where r: "fdt_copy_with_fixups (Some ex_dtb) (replicate 6000 0) 6000 (Some ex_fx) = Inr r"
      "r = None \<longrightarrow> 6000 < copy_room ex_dtb (fixed ex_fx ano ac sc ex_toks)"
    using copy_facts [OF ex_is_dtb ex_rooted ex_args ex_dst, unfolded length_replicate] by blast
  obtain b n where b: "r = Some (b, n)" using r(2) ex_room [of ano ac sc] by (cases r) auto
  have "find_bootargs (take n b) = Inr (Some (cs ''quiet''))"
    by (rule fdt_bootargs_installed [OF ex_is_dtb ex_rooted ex_args, of "replicate 6000 0"])
       (use r(1) b in \<open>simp_all add: ex_fx_def\<close>)
  with r(1) b show ?thesis by blast
qed

section \<open>Where the checks have gaps\<close>

text \<open>
  The bound checks of \<open>fdt_valid\<close> add in 32 bits: a structure block that starts far outside
  the DTB passes when its size wraps the sum around.
\<close>

lemma fdt_valid_wraps:
  assumes "be32 p H_MAGIC = Inr FDT_MAGIC" "be32 p H_LAST_COMP = Inr 16" "be32 p H_TOTALSIZE = Inr 4096"
    "be32 p H_OFF_STRUCT = Inr 0xFFFFFF00" "be32 p H_SIZE_STRUCT = Inr 0x200"
    "be32 p H_OFF_STRINGS = Inr 40" "be32 p H_SIZE_STRINGS = Inr 0"
  shows "fdt_valid (Some p) = Inr True"
  using assms by (simp add: fdt_valid_def FDT_HEADER_SIZE_def W32_def)

text \<open>
  A property whose length is close to \<open>2^32\<close> sends the walk of \<open>find_bootargs\<close> back to its own
  token: the source would loop for ever, whatever the bound.
\<close>

lemma find_bootargs_hangs:
  assumes "be32 p 56 = Inr FDT_PROP" "be32 p 60 = Inr 0xFFFFFFF4" "be32 p 64 = Inr 0"
  shows "find_bootargs_loop fuel p 56 100 0 False = Inl Hang"
proof (induction fuel)
  case (Suc fuel)
  have "(60 + 8 + align4 0xFFFFFFF4) mod W32 = 56" by (simp add: align4_def W32_def)
  then show ?case using assms Suc by (simp add: fdt_tokens Let_def W32_def)
qed simp

end
