(* ===== verification/Fat32.thy ===== *)
theory Fat32
  imports Fdt
begin

text \<open>
  The bootloader's read-only FAT32 (\<open>firmware/src/fat32.c\<close>): mounting, walking the root
  directory with long names, finding a file and reading it along its cluster chain.  The SD
  card (\<open>emmc_read\<close>, which drives the controller) is a parameter: for a block number it gives
  the 512 bytes of the block, or \<open>None\<close> when reading fails.  Messages are left out.
\<close>

type_synonym sdcard = "nat \<Rightarrow> u8 list option"

section \<open>Little-endian reads\<close>

definition rd16 :: "u8 list \<Rightarrow> nat \<Rightarrow> nat" where
  "rd16 p i = unat ((ucast (p ! i) :: u16) OR push_bit 8 (ucast (p ! (i + 1))))"

definition rd32 :: "u8 list \<Rightarrow> nat \<Rightarrow> nat" where
  "rd32 p i = unat ((ucast (p ! i) :: u32) OR push_bit 8 (ucast (p ! (i + 1)))
     OR push_bit 16 (ucast (p ! (i + 2))) OR push_bit 24 (ucast (p ! (i + 3))))"

section \<open>Mounting\<close>

record fat_fs =
  ready :: bool
  part_lba :: nat
  sectors_per_cluster :: nat
  fat_lba :: nat
  fat_sectors :: nat
  data_lba :: nat
  root_cluster :: nat
  total_clusters :: nat

definition no_fs :: fat_fs where
  "no_fs = \<lparr>ready = False, part_lba = 0, sectors_per_cluster = 0, fat_lba = 0, fat_sectors = 0,
     data_lba = 0, root_cluster = 0, total_clusters = 0\<rparr>"

definition cluster_lba :: "fat_fs \<Rightarrow> nat \<Rightarrow> nat" where
  "cluster_lba fs cluster =
     (data_lba fs + (cluster + (W32 - 2)) mod W32 * sectors_per_cluster fs) mod W32"

text \<open>The next cluster of a chain, 0 at its end.\<close>

definition next_cluster :: "sdcard \<Rightarrow> fat_fs \<Rightarrow> nat \<Rightarrow> nat" where
  "next_cluster sd fs cluster =
     (let offset = (cluster * 4) mod W32;
          sector = (fat_lba fs + offset div 512) mod W32;
          within = offset mod 512
      in case sd (part_lba fs + sector) of
           None \<Rightarrow> 0
         | Some buf \<Rightarrow>
             (let v = unat ((of_nat (rd32 buf within) :: u32) AND 0x0FFFFFFF) in
              if v \<ge> 0x0FFFFFF7 then 0
              else if v < 2 \<or> total_clusters fs \<noteq> 0 \<and> v \<ge> (total_clusters fs + 2) mod W32 then 0
              else v))"

definition try_bpb :: "sdcard \<Rightarrow> nat \<Rightarrow> fat_fs option" where
  "try_bpb sd lba =
     (case sd lba of
        None \<Rightarrow> None
      | Some b \<Rightarrow>
          if rd16 b 510 \<noteq> 0xAA55 then None
          else
            (let bytes_per_sector = rd16 b 0x0B; spc = unat (b ! 0x0D); reserved = rd16 b 0x0E;
                 num_fats = unat (b ! 0x10); root_entries = rd16 b 0x11; fat_size_16 = rd16 b 0x16;
                 total_16 = rd16 b 0x13; total_32 = rd32 b 0x20; fat_size_32 = rd32 b 0x24;
                 root = rd32 b 0x2C
             in
              if bytes_per_sector \<noteq> 512 \<or> spc = 0 \<or> num_fats = 0 then None
              else if root_entries \<noteq> 0 \<or> fat_size_16 \<noteq> 0 \<or> fat_size_32 = 0 then None
              else if root < 2 then None
              else
                (let total = (if total_32 \<noteq> 0 then total_32 else total_16);
                     data_start = (reserved + num_fats * fat_size_32) mod W32
                 in if total \<le> data_start then None
                    else Some \<lparr>ready = True, part_lba = lba, sectors_per_cluster = spc, fat_lba = reserved,
                           fat_sectors = fat_size_32, data_lba = data_start, root_cluster = root,
                           total_clusters = (total - data_start) div spc\<rparr>)))"

definition looks_fat :: "nat \<Rightarrow> bool" where
  "looks_fat type \<longleftrightarrow> type = 0x0B \<or> type = 0x0C \<or> type = 0x0E \<or> type = 0x06 \<or> type = 0x01 \<or> type = 0x04"

text \<open>The partition dir_entries, in order, from the copy of the table.\<close>

fun mount_parts :: "sdcard \<Rightarrow> u8 list \<Rightarrow> nat list \<Rightarrow> fat_fs option" where
  "mount_parts sd table [] = None"
| "mount_parts sd table (i # is) =
     (let e = drop (i * 16) table; type = unat (e ! 4); start = rd32 e 8; count = rd32 e 12 in
      if start = 0 \<or> count = 0 then mount_parts sd table is
      else if \<not> looks_fat type then mount_parts sd table is
      else case try_bpb sd start of
             Some fs \<Rightarrow> Some fs
           | None \<Rightarrow> mount_parts sd table is)"

text \<open>The result and \<open>fs\<close> afterwards.\<close>

definition fat32_mount :: "sdcard \<Rightarrow> bool \<times> fat_fs" where
  "fat32_mount sd =
     (case sd 0 of
        None \<Rightarrow> (False, no_fs)
      | Some b \<Rightarrow>
          (case (if rd16 b 510 = 0xAA55
                 then mount_parts sd (take 64 (drop 0x1BE b)) [0, 1, 2, 3] else None) of
             Some fs \<Rightarrow> (True, fs)
           | None \<Rightarrow> (case try_bpb sd 0 of Some fs \<Rightarrow> (True, fs) | None \<Rightarrow> (False, no_fs))))"

section \<open>Names\<close>

definition upper :: "u8 \<Rightarrow> u8" where
  "upper c = (if c \<ge> of_char CHR ''a'' \<and> c \<le> of_char CHR ''z''
     then c - of_char CHR ''a'' + of_char CHR ''A'' else c)"

fun name_eq :: "cstring \<Rightarrow> cstring \<Rightarrow> bool" where
  "name_eq (a # as) (b # bs) = (if upper a \<noteq> upper b then False else name_eq as bs)"
| "name_eq as bs = (ch as 0 = ch bs 0)"

text \<open>The characters before the first blank of a field; the name is the C string among them.\<close>

definition expand_83 :: "u8 list \<Rightarrow> cstring" where
  "expand_83 e =
     takeWhile (\<lambda>c. c \<noteq> of_char CHR '' '') (take 8 e) @
     (if e ! 8 \<noteq> of_char CHR '' '' then
        of_char CHR ''.'' # takeWhile (\<lambda>c. c \<noteq> of_char CHR '' '') (take 3 (drop 8 e))
      else [])"

definition lfn_pos :: "nat list" where
  "lfn_pos = [1, 3, 5, 7, 9, 14, 16, 18, 20, 22, 24, 28, 30]"

text \<open>The part the fragment holds: 13 bytes, zeroed from the end of the name on.\<close>

fun lfn_scan :: "u8 list \<Rightarrow> nat list \<Rightarrow> u8 list" where
  "lfn_scan e [] = []"
| "lfn_scan e (p # ps) =
     (let c = rd16 e p in
      if c = 0 \<or> c = 0xFFFF then replicate (Suc (length ps)) 0
      else (if c < 0x80 then of_nat c else of_char CHR ''?'') # lfn_scan e ps)"

definition lfn_chars :: "u8 list \<Rightarrow> u8 list" where
  "lfn_chars e = lfn_scan e lfn_pos"

section \<open>Walking the root directory\<close>

text \<open>The long name under construction.\<close>

record lfn_state =
  lfn :: "u8 list"
  have_lfn :: bool

definition lfn_empty :: lfn_state where
  "lfn_empty = \<lparr>lfn = replicate 261 0, have_lfn = False\<rparr>"

datatype entry_kind = EndOfDir | Deleted | Fragment | Label | Named

definition entry_kind :: "u8 list \<Rightarrow> entry_kind" where
  "entry_kind e =
     (if e ! 0 = 0 then EndOfDir
      else if e ! 0 = 0xE5 then Deleted
      else if (e ! 11) AND 0x0F = 0x0F then Fragment
      else if (e ! 11) AND 0x08 \<noteq> 0 then Label
      else Named)"

definition add_fragment :: "u8 list \<Rightarrow> lfn_state \<Rightarrow> lfn_state" where
  "add_fragment e st =
     (let seq = unat ((e ! 0) AND 0x3F) in
      if seq \<ge> 1 \<and> seq \<le> 20 then
        \<lparr>lfn = take ((seq - 1) * 13) (lfn st) @ lfn_chars e @ drop ((seq - 1) * 13 + 13) (lfn st),
         have_lfn = True\<rparr>
      else st)"

definition entry_name :: "u8 list \<Rightarrow> lfn_state \<Rightarrow> cstring" where
  "entry_name e st =
     takeWhile (\<lambda>c. c \<noteq> 0)
       (if have_lfn st \<and> lfn st ! 0 \<noteq> 0 then take 260 (lfn st) else expand_83 e)"

type_synonym 'c dir_fn = "cstring \<Rightarrow> u8 list \<Rightarrow> 'c \<Rightarrow> bool \<times> 'c"

text \<open>The dir_entries of a sector; the flag says that the walk is over.\<close>

fun walk_entries :: "'c dir_fn \<Rightarrow> u8 list list \<Rightarrow> lfn_state \<Rightarrow> 'c \<Rightarrow> bool \<times> lfn_state \<times> 'c" where
  "walk_entries fn [] st ctx = (False, st, ctx)"
| "walk_entries fn (e # es) st ctx =
     (case entry_kind e of
        EndOfDir \<Rightarrow> (True, st, ctx)
      | Deleted \<Rightarrow> walk_entries fn es (st\<lparr>have_lfn := False\<rparr>) ctx
      | Fragment \<Rightarrow> walk_entries fn es (add_fragment e st) ctx
      | Label \<Rightarrow> walk_entries fn es (st\<lparr>have_lfn := False\<rparr>) ctx
      | Named \<Rightarrow>
          (case fn (entry_name e st) e ctx of
             (stop, ctx) \<Rightarrow> if stop then (True, st, ctx) else walk_entries fn es lfn_empty ctx))"

definition dir_entries :: "u8 list \<Rightarrow> u8 list list" where
  "dir_entries buf = map (\<lambda>i. take 32 (drop (32 * i) buf)) [0..<16]"

text \<open>The sectors of a cluster; \<open>None\<close> when one cannot be read.\<close>

fun walk_sectors :: "sdcard \<Rightarrow> 'c dir_fn \<Rightarrow> nat list \<Rightarrow> lfn_state \<Rightarrow> 'c \<Rightarrow> (bool \<times> lfn_state \<times> 'c) option \<times> 'c" where
  "walk_sectors sd fn [] st ctx = (Some (False, st, ctx), ctx)"
| "walk_sectors sd fn (lba # lbas) st ctx =
     (case sd lba of
        None \<Rightarrow> (None, ctx)
      | Some buf \<Rightarrow>
          (case walk_entries fn (dir_entries buf) st ctx of
             (over, st, ctx) \<Rightarrow>
               if over then (Some (True, st, ctx), ctx) else walk_sectors sd fn lbas st ctx))"

text \<open>
  The chain of the root directory, with a bound on its clusters: the source follows it for ever
  when it is cyclic.
\<close>

fun walk_clusters ::
  "nat \<Rightarrow> sdcard \<Rightarrow> fat_fs \<Rightarrow> 'c dir_fn \<Rightarrow> nat \<Rightarrow> lfn_state \<Rightarrow> 'c \<Rightarrow> fault + bool \<times> 'c" where
  "walk_clusters 0 sd fs fn cluster st ctx = Inl Hang"
| "walk_clusters (Suc fuel) sd fs fn cluster st ctx =
     (if cluster \<noteq> 0 then
        (case walk_sectors sd fn
            (map (\<lambda>s. part_lba fs + cluster_lba fs cluster + s) [0..<sectors_per_cluster fs]) st ctx of
           (None, ctx) \<Rightarrow> Inr (False, ctx)
         | (Some (over, st, ctx), _) \<Rightarrow>
             if over then Inr (True, ctx)
             else walk_clusters fuel sd fs fn (next_cluster sd fs cluster) st ctx)
      else Inr (True, ctx))"

definition walk_root :: "nat \<Rightarrow> sdcard \<Rightarrow> fat_fs \<Rightarrow> 'c dir_fn \<Rightarrow> 'c \<Rightarrow> fault + bool \<times> 'c" where
  "walk_root fuel sd fs fn ctx =
     (if \<not> ready fs then Inr (False, ctx)
      else walk_clusters fuel sd fs fn (root_cluster fs) lfn_empty ctx)"

section \<open>Finding\<close>

record fat_file =
  first_cluster :: nat
  file_size :: nat

text \<open>The context is what has been found.\<close>

definition find_cb :: "cstring \<Rightarrow> fat_file option dir_fn" where
  "find_cb want name e ctx =
     (if \<not> name_eq name want then (False, ctx)
      else if (e ! 11) AND 0x10 \<noteq> 0 then (False, ctx)
      else (True, Some \<lparr>first_cluster = rd16 e 20 * 65536 + rd16 e 26, file_size = rd32 e 28\<rparr>))"

definition fat32_find :: "nat \<Rightarrow> sdcard \<Rightarrow> fat_fs \<Rightarrow> cstring \<Rightarrow> fault + fat_file option" where
  "fat32_find fuel sd fs name =
     andthen (walk_root fuel sd fs (find_cb name) None) (\<lambda>(_, c). Inr c)"

section \<open>Reading\<close>

text \<open>A read of several blocks.\<close>

fun card_read :: "sdcard \<Rightarrow> nat \<Rightarrow> nat \<Rightarrow> u8 list option" where
  "card_read sd lba 0 = Some []"
| "card_read sd lba (Suc n) =
     (case sd lba of None \<Rightarrow> None
      | Some b \<Rightarrow> (case card_read sd (lba + 1) n of None \<Rightarrow> None | Some bs \<Rightarrow> Some (b @ bs)))"

text \<open>The last cluster, sector by sector; \<open>done\<close> bytes have been copied.\<close>

fun read_part :: "sdcard \<Rightarrow> nat list \<Rightarrow> nat \<Rightarrow> u8 list \<Rightarrow> u8 list option" where
  "read_part sd [] chunk acc = Some acc"
| "read_part sd (lba # lbas) chunk acc =
     (if length acc < chunk then
        (case sd lba of
           None \<Rightarrow> None
         | Some b \<Rightarrow>
             read_part sd lbas chunk (acc @ take (if chunk - length acc < 512 then chunk - length acc else 512) b))
      else Some acc)"

text \<open>What has been written to \<open>dst\<close> so far is \<open>out\<close>.\<close>

fun read_loop :: "nat \<Rightarrow> sdcard \<Rightarrow> fat_fs \<Rightarrow> nat \<Rightarrow> nat \<Rightarrow> u8 list \<Rightarrow> fault + bool \<times> u8 list" where
  "read_loop 0 sd fs cluster remaining out = Inl Hang"
| "read_loop (Suc fuel) sd fs cluster remaining out =
     (let bytes_per_cluster = (sectors_per_cluster fs * 512) mod W32 in
      if cluster \<noteq> 0 \<and> remaining \<noteq> 0 then
        (let chunk = (if remaining < bytes_per_cluster then remaining else bytes_per_cluster);
             lba = part_lba fs + cluster_lba fs cluster
         in case (if chunk = bytes_per_cluster then card_read sd lba (sectors_per_cluster fs)
                  else read_part sd (map (\<lambda>s. lba + s) [0..<sectors_per_cluster fs]) chunk []) of
              None \<Rightarrow> Inr (False, out)
            | Some bytes \<Rightarrow>
                read_loop fuel sd fs (next_cluster sd fs cluster) (remaining - chunk) (out @ bytes))
      else Inr (remaining = 0, out))"

text \<open>The result and the bytes written; every round reads at least one byte.\<close>

definition fat32_read_file :: "sdcard \<Rightarrow> fat_fs \<Rightarrow> fat_file \<Rightarrow> nat \<Rightarrow> fault + bool \<times> u8 list" where
  "fat32_read_file sd fs f room =
     (if \<not> ready fs \<or> first_cluster f < 2 then Inr (False, [])
      else if file_size f > room then Inr (False, [])
      else read_loop (file_size f + 1) sd fs (first_cluster f) (file_size f) [])"

end
