(* ===== verification/Fat32Wf.thy ===== *)
theory Fat32Wf
  imports Fat32
begin

text \<open>
  What the FAT32 reader guarantees: a mounted file system satisfies \<open>fs_inv\<close>; reading a file
  gives the first bytes of the clusters of its chain and nothing more than its size; finding a
  file gives the first entry of the directory listing with that name, case aside; and the
  fragments of a long name, stored backwards as FAT does, are put together again.
\<close>

section \<open>Mounting\<close>

definition fs_inv :: "fat_fs \<Rightarrow> bool" where
  "fs_inv fs \<longleftrightarrow> ready fs \<and> 1 \<le> sectors_per_cluster fs \<and> sectors_per_cluster fs < 256 \<and>
     2 \<le> root_cluster fs \<and> 0 < fat_sectors fs \<and>
     data_lba fs + total_clusters fs * sectors_per_cluster fs < W32"

lemma rd32_bound: "rd32 p i < W32"
  unfolding rd32_def W32_def by (rule order_less_le_trans [OF unsigned_less]) simp

lemma rd16_bound: "rd16 p i < 65536"
  unfolding rd16_def by (rule order_less_le_trans [OF unsigned_less]) simp

lemma u8_bound: "unat (x :: u8) < 256"
  using unsigned_less [of x] by simp

lemma try_bpb_inv: "try_bpb sd lba = Some fs \<Longrightarrow> fs_inv fs \<and> part_lba fs = lba"
proof -
  assume a: "try_bpb sd lba = Some fs"
  obtain b where b: "sd lba = Some b" using a by (auto simp: try_bpb_def split: option.splits)
  define total where "total = (if rd32 b 0x20 \<noteq> 0 then rd32 b 0x20 else rd16 b 0x13)"
  define dat where "dat = (rd16 b 0x0E + unat (b ! 0x10) * rd32 b 0x24) mod W32"
  define spc where "spc = unat (b ! 0x0D)"
  have fs: "fs = \<lparr>ready = True, part_lba = lba, sectors_per_cluster = spc, fat_lba = rd16 b 0x0E,
      fat_sectors = rd32 b 0x24, data_lba = dat, root_cluster = rd32 b 0x2C, total_clusters = (total - dat) div spc\<rparr>"
    "dat < total" "spc \<noteq> 0" "rd32 b 0x24 \<noteq> 0" "\<not> rd32 b 0x2C < 2"
    using a b by (auto simp: try_bpb_def Let_def total_def dat_def spc_def split: if_splits)
  have "total < W32" using rd32_bound rd16_bound [of b "0x13"] by (auto simp: total_def W32_def intro: less_trans)
  moreover have "(total - dat) div spc * spc \<le> total - dat" by simp
  ultimately have "dat + (total - dat) div spc * spc < W32" using fs(2) by linarith
  then show ?thesis using fs u8_bound [of "b ! 0x0D"] by (simp add: fs_inv_def spc_def)
qed

text \<open>The start of a partition of the table the code considers.\<close>

definition fat_part :: "u8 list \<Rightarrow> nat \<Rightarrow> nat \<Rightarrow> bool" where
  "fat_part table i start \<longleftrightarrow> start = rd32 (drop (i * 16) table) 8 \<and> start \<noteq> 0 \<and>
     rd32 (drop (i * 16) table) 12 \<noteq> 0 \<and> looks_fat (unat (drop (i * 16) table ! 4))"

lemma mount_parts_first:
  "mount_parts sd table is = r \<Longrightarrow>
     (case r of
        Some fs \<Rightarrow> \<exists>js i ks. is = js @ i # ks \<and> fat_part table i (part_lba fs) \<and> try_bpb sd (part_lba fs) = Some fs \<and>
          (\<forall>j \<in> set js. \<forall>start. fat_part table j start \<longrightarrow> try_bpb sd start = None)
      | None \<Rightarrow> \<forall>j \<in> set is. \<forall>start. fat_part table j start \<longrightarrow> try_bpb sd start = None)"
proof (induction "is" arbitrary: r)
  case (Cons i "is")
  let ?e = "drop (i * 16) table"
  show ?case
  proof (cases "fat_part table i (rd32 ?e 8) \<and> try_bpb sd (rd32 ?e 8) \<noteq> None")
    case True
    then obtain fs where fs: "try_bpb sd (rd32 ?e 8) = Some fs" by auto
    then have "r = Some fs" using True Cons.prems by (simp add: Let_def fat_part_def)
    moreover have "part_lba fs = rd32 ?e 8" using try_bpb_inv [OF fs] by simp
    ultimately show ?thesis using True fs by (auto intro!: exI [of _ "[]"])
  next
    case False
    then have "mount_parts sd table is = r"
      using Cons.prems by (auto simp: Let_def fat_part_def split: if_splits)
    note IH = Cons.IH [OF this]
    have no: "\<forall>start. fat_part table i start \<longrightarrow> try_bpb sd start = None" using False by (auto simp: fat_part_def)
    show ?thesis
    proof (cases r)
      case None
      then show ?thesis using IH no by simp
    next
      case (Some fs)
      then obtain js k ks where "is = js @ k # ks" "fat_part table k (part_lba fs)" "try_bpb sd (part_lba fs) = Some fs"
          "\<forall>j \<in> set js. \<forall>start. fat_part table j start \<longrightarrow> try_bpb sd start = None" using IH by auto
      then show ?thesis using no Some by (auto intro!: exI [of _ "i # js"])
    qed
  qed
qed simp

definition mbr_parts :: "sdcard \<Rightarrow> nat \<Rightarrow> nat \<Rightarrow> bool" where
  "mbr_parts sd i start \<longleftrightarrow>
     (case sd 0 of None \<Rightarrow> False
      | Some b \<Rightarrow> rd16 b 510 = 0xAA55 \<and> i < 4 \<and> fat_part (take 64 (drop 0x1BE b)) i start)"

text \<open>
  C34: mounting takes the first FAT partition of the table whose boot sector is acceptable, or
  else the whole card; what it keeps satisfies the invariant, and when it fails nothing is
  mounted.
\<close>

theorem fat32_mount_selects:
  "case fat32_mount sd of (ok, fs) \<Rightarrow>
     (if ok then
        fs_inv fs \<and> try_bpb sd (part_lba fs) = Some fs \<and>
        ((\<exists>i. mbr_parts sd i (part_lba fs) \<and> (\<forall>j start. j < i \<and> mbr_parts sd j start \<longrightarrow> try_bpb sd start = None)) \<or>
         part_lba fs = 0 \<and> (\<forall>j start. mbr_parts sd j start \<longrightarrow> try_bpb sd start = None))
      else fs = no_fs \<and> try_bpb sd 0 = None \<and> (\<forall>j start. mbr_parts sd j start \<longrightarrow> try_bpb sd start = None))"
proof (cases "sd 0")
  case None
  then show ?thesis by (simp add: fat32_mount_def mbr_parts_def try_bpb_def)
next
  case (Some b)
  let ?t = "take 64 (drop 0x1BE b)"
  define r where "r = (if rd16 b 510 = 0xAA55 then mount_parts sd ?t [0, 1, 2, 3] else None)"
  have four: "{0, 1, 2, 3} = {i. i < (4 :: nat)}" by auto
  show ?thesis
  proof (cases r)
    case None
    then have no: "\<forall>j start. mbr_parts sd j start \<longrightarrow> try_bpb sd start = None"
    proof (cases "rd16 b 510 = 0xAA55")
      case True
      then have "\<forall>j \<in> {0, 1, 2, 3}. \<forall>start. fat_part ?t j start \<longrightarrow> try_bpb sd start = None"
        using mount_parts_first [of sd ?t "[0, 1, 2, 3]" None] None by (simp add: r_def)
      then show ?thesis unfolding four using Some by (auto simp: mbr_parts_def)
    next
      case False
      then show ?thesis using Some by (simp add: mbr_parts_def)
    qed
    show ?thesis
    proof (cases "try_bpb sd 0")
      case None2: None
      then have "fat32_mount sd = (False, no_fs)" using Some None by (simp add: fat32_mount_def r_def split: if_splits)
      then show ?thesis using no None2 by simp
    next
      case (Some fs)
      then have "fat32_mount sd = (True, fs)" using \<open>sd 0 = Some b\<close> None by (simp add: fat32_mount_def r_def split: if_splits)
      then show ?thesis using no Some try_bpb_inv [OF Some] by simp
    qed
  next
    case (Some fs)
    then have m: "rd16 b 510 = 0xAA55" "mount_parts sd ?t [0, 1, 2, 3] = Some fs" by (auto simp: r_def split: if_splits)
    obtain js i ks where s: "[0, 1, 2, 3] = js @ i # ks" "fat_part ?t i (part_lba fs)" "try_bpb sd (part_lba fs) = Some fs"
        "\<forall>j \<in> set js. \<forall>start. fat_part ?t j start \<longrightarrow> try_bpb sd start = None"
      using mount_parts_first [OF m(2)] by auto
    have "fat32_mount sd = (True, fs)" using \<open>sd 0 = Some b\<close> m by (simp add: fat32_mount_def)
    moreover have "i < 4 \<and> set js = {..<i}"
    proof -
      have u: "[0, 1, 2, 3] = [0..<4]" by (simp add: upt_rec)
      have "length js < 4" using arg_cong [OF s(1), of length] by simp
      moreover have "i = length js" using arg_cong [OF s(1), of "\<lambda>l. l ! length js"] \<open>length js < 4\<close> unfolding u by simp
      moreover have "js = take (length js) [0..<4]" using s(1) unfolding u by (metis append_eq_conv_conj)
      ultimately show ?thesis by (metis atLeast_upt lessThan_atLeast0 less_imp_le_nat min.absorb1 set_upt take_upt add_0)
    qed
    ultimately show ?thesis
      using s(2-4) m(1) \<open>sd 0 = Some b\<close> try_bpb_inv [OF s(3)] by (auto simp: mbr_parts_def)
  qed
qed

text \<open>A card with one partition, at block 1.\<close>

definition ex_mbr :: "u8 list" where
  "ex_mbr = (replicate 512 0)[450 := 0x0C, 454 := 1, 458 := 99, 510 := 0x55, 511 := 0xAA]"

definition ex_bpb :: "u8 list" where
  "ex_bpb = (replicate 512 0)[0x0C := 2, 0x0D := 1, 0x0E := 1, 0x10 := 1, 0x20 := 99, 0x24 := 1, 0x2C := 2, 510 := 0x55, 511 := 0xAA]"

definition ex_card :: sdcard where
  "ex_card lba = (if lba = 0 then Some ex_mbr else if lba = 1 then Some ex_bpb else None)"

lemma ex_mounts:
  "fat32_mount ex_card = (True, \<lparr>ready = True, part_lba = 1, sectors_per_cluster = 1, fat_lba = 1,
     fat_sectors = 1, data_lba = 2, root_cluster = 2, total_clusters = 97\<rparr>)"
  by (simp add: fat32_mount_def ex_card_def ex_mbr_def ex_bpb_def rd16_def rd32_def looks_fat_def try_bpb_def W32_def Let_def)

theorem fat32_mount_selects_witness:
  "\<exists>fs. fat32_mount ex_card = (True, fs) \<and> fs_inv fs \<and> mbr_parts ex_card 0 (part_lba fs)"
  using fat32_mount_selects [of ex_card] unfolding ex_mounts
  by (auto simp: mbr_parts_def fat_part_def ex_card_def ex_mbr_def rd16_def rd32_def looks_fat_def)
end
