(* ===== verification/FatRead.thy ===== *)
theory FatRead
  imports Fat32Wf
begin

text \<open>
  Reading from a mounted FAT32: the bytes of a file are those of its cluster chain; the
  directory is the listing of its raw entries, from which a search takes the first with the
  name; and the fragments of a long name are put together again.
\<close>

section \<open>Reading a file\<close>

text \<open>What is on the card, readable or not.\<close>

definition holds :: "sdcard \<Rightarrow> (nat \<Rightarrow> u8 list) \<Rightarrow> bool" where
  "holds sd img \<longleftrightarrow> (\<forall>lba. length (img lba) = 512) \<and> (\<forall>lba b. sd lba = Some b \<longrightarrow> img lba = b)"

definition cluster_bytes :: "(nat \<Rightarrow> u8 list) \<Rightarrow> fat_fs \<Rightarrow> nat \<Rightarrow> u8 list" where
  "cluster_bytes img fs c =
     concat (map (\<lambda>s. img (part_lba fs + cluster_lba fs c + s)) [0..<sectors_per_cluster fs])"

text \<open>The first clusters of a chain.\<close>

primrec chain_of :: "sdcard \<Rightarrow> fat_fs \<Rightarrow> nat \<Rightarrow> nat \<Rightarrow> nat list" where
  "chain_of sd fs 0 c = []"
| "chain_of sd fs (Suc n) c = (if c = 0 then [] else c # chain_of sd fs n (next_cluster sd fs c))"

lemma length_concat_512: "\<forall>lba. length (img lba) = 512 \<Longrightarrow> length (concat (map (\<lambda>s. img (f s)) xs)) = length xs * 512"
  by (induction xs) auto

lemma card_read_bytes:
  "holds sd img \<Longrightarrow> card_read sd lba n = Some bs \<Longrightarrow> bs = concat (map (\<lambda>s. img (lba + s)) [0..<n])"
proof (induction n arbitrary: lba bs)
  case (Suc n)
  then obtain b bs' where b: "sd lba = Some b" "card_read sd (lba + 1) n = Some bs'" "bs = b @ bs'"
    by (auto split: option.splits)
  have "map (\<lambda>s. img (lba + s)) [0..<Suc n] = img lba # map (\<lambda>s. img (lba + 1 + s)) [0..<n]"
    by (simp add: upt_conv_Cons map_Suc_upt [symmetric] del: upt_Suc)
  then show ?case using Suc.IH [OF Suc.prems(1) b(2)] Suc.prems(1) b(1,3) by (simp add: holds_def del: upt_Suc)
qed simp

lemma card_read_total: "\<forall>lba. sd lba \<noteq> None \<Longrightarrow> \<exists>bs. card_read sd lba n = Some bs"
proof (induction n arbitrary: lba)
  case (Suc n)
  obtain b bs where "sd lba = Some b" "card_read sd (lba + 1) n = Some bs"
    using Suc.prems Suc.IH [OF Suc.prems, of "lba + 1"] by (metis not_None_eq)
  then show ?case by simp
qed simp

lemma read_part_bytes:
  "holds sd img \<Longrightarrow> read_part sd lbas chunk acc = Some bs \<Longrightarrow> length acc \<le> chunk \<Longrightarrow>
     bs = acc @ take (chunk - length acc) (concat (map img lbas))"
proof (induction sd lbas chunk acc rule: read_part.induct)
  case (2 sd lba lbas chunk acc)
  show ?case
  proof (cases "length acc < chunk")
    case True
    let ?n = "if chunk - length acc < 512 then chunk - length acc else 512"
    obtain b where b: "sd lba = Some b" "read_part sd lbas chunk (acc @ take ?n b) = Some bs"
      using "2.prems"(2) True by (auto split: option.splits)
    have img: "img lba = b" "length b = 512" using "2.prems"(1) b(1) by (auto simp: holds_def)
    have "bs = (acc @ take ?n b) @ take (chunk - length (acc @ take ?n b)) (concat (map img lbas))"
      using "2.IH" [OF True b(1) "2.prems"(1) b(2)] True by simp
    then show ?thesis using img by auto
  next
    case False
    then show ?thesis using "2.prems" by simp
  qed
qed simp

lemma read_part_total: "\<forall>lba. sd lba \<noteq> None \<Longrightarrow> \<exists>bs. read_part sd lbas chunk acc = Some bs"
proof (induction lbas arbitrary: acc)
  case (Cons lba lbas)
  obtain b where "sd lba = Some b" using Cons.prems by (metis not_None_eq)
  then show ?case using Cons by simp
qed simp

lemma read_loop_facts:
  assumes "holds sd img" "1 \<le> sectors_per_cluster fs" "sectors_per_cluster fs < 256"
  shows "remaining < fuel \<Longrightarrow> remaining \<le> n \<Longrightarrow>
    \<exists>ok bs. read_loop fuel sd fs c remaining out = Inr (ok, out @ bs) \<and> length bs \<le> remaining \<and>
      bs = take (length bs) (concat (map (cluster_bytes img fs) (chain_of sd fs n c))) \<and> (ok \<longleftrightarrow> length bs = remaining) \<and>
      ((\<forall>lba. sd lba \<noteq> None) \<and> remaining \<le> sectors_per_cluster fs * 512 * length (chain_of sd fs n c) \<longrightarrow> ok)"
proof (induction fuel arbitrary: c remaining out n)
  case (Suc fuel)
  let ?bpc = "sectors_per_cluster fs * 512"
  have m: "?bpc mod W32 = ?bpc" using assms(3) by (simp add: W32_def)
  show ?case
  proof (cases "c \<noteq> 0 \<and> remaining \<noteq> 0")
    case False
    then show ?thesis by (auto simp: Let_def) (cases n; simp)+
  next
    case True
    obtain k where k: "n = Suc k" using True Suc.prems(2) by (cases n) auto
    define chunk where "chunk = (if remaining < ?bpc then remaining else ?bpc)"
    let ?lba = "part_lba fs + cluster_lba fs c"
    define r where "r = (if chunk = ?bpc then card_read sd ?lba (sectors_per_cluster fs)
        else read_part sd (map (\<lambda>s. ?lba + s) [0..<sectors_per_cluster fs]) chunk [])"
    have lc: "length (cluster_bytes img fs c) = ?bpc"
      using assms(1) length_concat_512 [of img "\<lambda>s. ?lba + s"] by (simp add: cluster_bytes_def holds_def)
    have ch: "0 < chunk" "chunk \<le> remaining" "chunk \<le> ?bpc" using True assms(2) by (auto simp: chunk_def)
    have step: "read_loop (Suc fuel) sd fs c remaining out =
        (case r of None \<Rightarrow> Inr (False, out)
         | Some bytes \<Rightarrow> read_loop fuel sd fs (next_cluster sd fs c) (remaining - chunk) (out @ bytes))"
      using True by (simp only: read_loop.simps Let_def m chunk_def r_def) simp
    show ?thesis
    proof (cases r)
      case None
      then have "\<not> (\<forall>lba. sd lba \<noteq> None)"
        using card_read_total [of sd ?lba "sectors_per_cluster fs"] read_part_total [of sd _ chunk "[]"]
        unfolding r_def by (metis option.distinct(1))
      then show ?thesis using step None True by (intro exI [of _ False] exI [of _ "[]"]) auto
    next
      case (Some bytes)
      have bytes: "bytes = take chunk (cluster_bytes img fs c)"
      proof (cases "chunk = ?bpc")
        case True
        then show ?thesis using card_read_bytes [OF assms(1)] Some lc by (simp add: r_def cluster_bytes_def)
      next
        case False
        then show ?thesis using read_part_bytes [OF assms(1)] Some by (fastforce simp: r_def cluster_bytes_def comp_def)
      qed
      then have lb: "length bytes = chunk" using lc ch(3) by simp
      have "remaining - chunk < fuel" "remaining - chunk \<le> k" using Suc.prems ch k by simp_all
      from Suc.IH [OF this, of "next_cluster sd fs c" "out @ bytes"]
      obtain ok bs where IH: "read_loop fuel sd fs (next_cluster sd fs c) (remaining - chunk) (out @ bytes) = Inr (ok, (out @ bytes) @ bs)"
          "length bs \<le> remaining - chunk"
          "bs = take (length bs) (concat (map (cluster_bytes img fs) (chain_of sd fs k (next_cluster sd fs c))))"
          "ok \<longleftrightarrow> length bs = remaining - chunk"
          "(\<forall>lba. sd lba \<noteq> None) \<and> remaining - chunk \<le> ?bpc * length (chain_of sd fs k (next_cluster sd fs c)) \<longrightarrow> ok"
        by blast
      let ?rest = "concat (map (cluster_bytes img fs) (chain_of sd fs k (next_cluster sd fs c)))"
      have all: "bytes @ bs = take (length (bytes @ bs)) (cluster_bytes img fs c @ ?rest)"
      proof (cases "chunk = ?bpc")
        case True
        then show ?thesis using IH(3) bytes lc lb by simp
      next
        case False
        then have "remaining - chunk = 0" by (auto simp: chunk_def split: if_splits)
        then show ?thesis using IH(2) bytes lc lb ch by simp
      qed
      have "remaining \<le> ?bpc * length (chain_of sd fs n c) \<Longrightarrow>
          remaining - chunk \<le> ?bpc * length (chain_of sd fs k (next_cluster sd fs c))"
        using True by (auto simp: k chunk_def)
      then have last: "(\<forall>lba. sd lba \<noteq> None) \<and> remaining \<le> ?bpc * length (chain_of sd fs n c) \<longrightarrow> ok"
        using IH(5) by blast
      have "read_loop (Suc fuel) sd fs c remaining out = Inr (ok, out @ (bytes @ bs))"
        using step Some IH(1) by simp
      moreover have "length (bytes @ bs) \<le> remaining" using IH(2) lb ch by simp
      moreover have "bytes @ bs = take (length (bytes @ bs)) (concat (map (cluster_bytes img fs) (chain_of sd fs n c)))"
      proof -
        have "concat (map (cluster_bytes img fs) (chain_of sd fs n c)) = cluster_bytes img fs c @ ?rest"
          using True by (simp add: k)
        then show ?thesis using all by (simp only:)
      qed
      moreover have "ok \<longleftrightarrow> length (bytes @ bs) = remaining" using IH(4) lb ch by auto
      ultimately show ?thesis using last by blast
    qed
  qed
qed simp

text \<open>
  C35: reading a file of a mounted file system always ends and writes at most the file's size,
  which is at most the room given: the bytes written are the first bytes of the clusters of its
  chain, all of them exactly when it succeeds, and it does succeed when the card can be read and
  the chain is long enough.
\<close>

theorem fat32_read_file_correct:
  assumes "holds sd img" "fs_inv fs" "2 \<le> first_cluster f" "file_size f \<le> room"
  shows "\<exists>ok bs. fat32_read_file sd fs f room = Inr (ok, bs) \<and> length bs \<le> file_size f \<and>
    bs = take (length bs) (concat (map (cluster_bytes img fs) (chain_of sd fs (file_size f) (first_cluster f)))) \<and>
    (ok \<longleftrightarrow> length bs = file_size f) \<and>
    ((\<forall>lba. sd lba \<noteq> None) \<and>
     file_size f \<le> sectors_per_cluster fs * 512 * length (chain_of sd fs (file_size f) (first_cluster f)) \<longrightarrow> ok)"
proof -
  have fs: "ready fs" "1 \<le> sectors_per_cluster fs" "sectors_per_cluster fs < 256" using assms(2) by (simp_all add: fs_inv_def)
  have "fat32_read_file sd fs f room = read_loop (file_size f + 1) sd fs (first_cluster f) (file_size f) []"
    using fs(1) assms(3,4) by (simp add: fat32_read_file_def)
  then show ?thesis
    using read_loop_facts [OF assms(1) fs(2,3), of "file_size f" "file_size f + 1" "file_size f" "first_cluster f" "[]"] by simp
qed

definition ex_fs :: fat_fs where
  "ex_fs = \<lparr>ready = True, part_lba = 1, sectors_per_cluster = 1, fat_lba = 1,
     fat_sectors = 1, data_lba = 2, root_cluster = 2, total_clusters = 97\<rparr>"

theorem fat32_read_file_correct_witness:
  "\<exists>bs. fat32_read_file (\<lambda>_. Some (replicate 512 7)) ex_fs \<lparr>first_cluster = 3, file_size = 5\<rparr> 8 = Inr (True, bs) \<and>
    bs = [7, 7, 7, 7, 7]"
proof -
  let ?sd = "\<lambda>_. Some (replicate 512 7)" and ?f = "\<lparr>first_cluster = 3, file_size = 5\<rparr>"
  have h: "holds ?sd (\<lambda>_. replicate 512 7)" by (simp add: holds_def)
  have i: "fs_inv ex_fs" by (simp add: fs_inv_def ex_fs_def W32_def)
  have ch: "chain_of ?sd ex_fs 5 3 = 3 # chain_of ?sd ex_fs 4 (next_cluster ?sd ex_fs 3)"
    using chain_of.simps(2) [of ?sd ex_fs 4 3] by simp
  from fat32_read_file_correct [OF h i, of ?f 8] obtain ok bs where
    r: "fat32_read_file ?sd ex_fs ?f 8 = Inr (ok, bs)" "length bs \<le> 5"
       "bs = take (length bs) (concat (map (cluster_bytes (\<lambda>_. replicate 512 7) ex_fs) (chain_of ?sd ex_fs 5 3)))"
       "ok \<longleftrightarrow> length bs = 5" "5 \<le> 512 * length (chain_of ?sd ex_fs 5 3) \<longrightarrow> ok"
    by (auto simp: ex_fs_def)
  have ok: "ok" "length bs = 5" using r(4,5) unfolding ch by simp_all
  have "bs = take 5 (replicate 512 7)" using r(3) unfolding ch ok(2) by (simp add: cluster_bytes_def ex_fs_def)
  also have "\<dots> = replicate 5 7" by (simp only: take_replicate) simp
  also have "\<dots> = [7, 7, 7, 7, 7]" by (simp add: numeral_eq_Suc)
  finally show ?thesis using r(1) ok(1) by simp
qed

section \<open>The directory\<close>

text \<open>The names and entries of a directory, in order, from its raw entries.\<close>

fun listing :: "u8 list list \<Rightarrow> lfn_state \<Rightarrow> (cstring \<times> u8 list) list" where
  "listing [] st = []"
| "listing (e # es) st =
     (case entry_kind e of
        EndOfDir \<Rightarrow> []
      | Deleted \<Rightarrow> listing es (st\<lparr>have_lfn := False\<rparr>)
      | Fragment \<Rightarrow> listing es (add_fragment e st)
      | Label \<Rightarrow> listing es (st\<lparr>have_lfn := False\<rparr>)
      | Named \<Rightarrow> (entry_name e st, e) # listing es lfn_empty)"

definition wanted :: "cstring \<Rightarrow> cstring \<times> u8 list \<Rightarrow> bool" where
  "wanted want ne \<longleftrightarrow> map upper (fst ne) = map upper want \<and> (snd ne ! 11) AND 0x10 = 0"

definition file_of :: "u8 list \<Rightarrow> fat_file" where
  "file_of e = \<lparr>first_cluster = rd16 e 20 * 65536 + rd16 e 26, file_size = rd32 e 28\<rparr>"

text \<open>The raw entries of the clusters of the root, what lies on the card being \<open>img\<close>.\<close>

definition raw_entries :: "(nat \<Rightarrow> u8 list) \<Rightarrow> fat_fs \<Rightarrow> nat list \<Rightarrow> u8 list list" where
  "raw_entries img fs clusters =
     concat (map (\<lambda>c. concat (map (\<lambda>s. dir_entries (img (part_lba fs + cluster_lba fs c + s)))
       [0..<sectors_per_cluster fs])) clusters)"

lemma upper_zero: "upper c = 0 \<longleftrightarrow> c = 0"
proof (cases "c \<ge> of_char CHR ''a'' \<and> c \<le> of_char CHR ''z''")
  case True
  then have "0x61 \<le> c" by simp
  then have "c \<noteq> 0" "c \<noteq> 32" by auto
  moreover have "upper c = c - 32" using True by (simp add: upper_def)
  ultimately show ?thesis by simp
next
  case False
  then show ?thesis by (auto simp: upper_def)
qed

lemma name_eq_iff: "is_cstr a \<Longrightarrow> is_cstr b \<Longrightarrow> name_eq a b \<longleftrightarrow> map upper a = map upper b"
proof (induction a arbitrary: b)
  case Nil
  then show ?case by (cases b) (auto simp: is_cstr_def)
next
  case (Cons a as)
  then show ?case by (cases b) (auto simp: is_cstr_def)
qed

lemma walk_append:
  "walk_entries fn (xs @ ys) st ctx =
     (case walk_entries fn xs st ctx of (over, st', ctx') \<Rightarrow>
        if over then (True, st', ctx') else walk_entries fn ys st' ctx')"
  by (induction xs arbitrary: st ctx) (auto split: entry_kind.splits prod.splits)

lemma walk_sectors_entries:
  "(\<forall>lba \<in> set lbas. sd lba = Some (img lba)) \<Longrightarrow>
     walk_sectors sd fn lbas st ctx =
       (Some (walk_entries fn (concat (map (\<lambda>l. dir_entries (img l)) lbas)) st ctx),
        snd (snd (walk_entries fn (concat (map (\<lambda>l. dir_entries (img l)) lbas)) st ctx)))"
proof (induction lbas arbitrary: st ctx)
  case (Cons lba lbas)
  then show ?case
    by (cases "walk_entries fn (dir_entries (img lba)) st ctx") (auto simp: walk_append)
qed simp

text \<open>The chain from a cluster, when it ends.\<close>

inductive chain :: "sdcard \<Rightarrow> fat_fs \<Rightarrow> nat \<Rightarrow> nat list \<Rightarrow> bool" for sd fs where
  chain_end: "chain sd fs 0 []"
| chain_next: "c \<noteq> 0 \<Longrightarrow> chain sd fs (next_cluster sd fs c) cs' \<Longrightarrow> chain sd fs c (c # cs')"

lemma walk_clusters_entries:
  assumes "chain sd fs c clusters" "\<forall>lba. sd lba = Some (img lba)" "length clusters < fuel"
  shows "\<exists>r. walk_clusters fuel sd fs fn c st ctx =
    Inr (True, snd (snd (walk_entries fn (raw_entries img fs clusters) st ctx)))"
  using assms
proof (induction arbitrary: fuel st ctx)
  case chain_end
  then show ?case by (cases fuel) (simp_all add: raw_entries_def)
next
  case (chain_next c cs')
  obtain k where k: "fuel = Suc k" using chain_next.prems by (cases fuel) auto
  let ?es = "concat (map (\<lambda>l. dir_entries (img l)) (map (\<lambda>s. part_lba fs + cluster_lba fs c + s) [0..<sectors_per_cluster fs]))"
  have raw: "raw_entries img fs (c # cs') = ?es @ raw_entries img fs cs'" by (simp add: raw_entries_def comp_def)
  obtain ov st' ctx' where w: "walk_entries fn ?es st ctx = (ov, st', ctx')" by (metis prod_cases3)
  have "walk_sectors sd fn (map (\<lambda>s. part_lba fs + cluster_lba fs c + s) [0..<sectors_per_cluster fs]) st ctx =
      (Some (ov, st', ctx'), ctx')"
    using walk_sectors_entries [of "map (\<lambda>s. part_lba fs + cluster_lba fs c + s) [0..<sectors_per_cluster fs]" sd img fn st ctx]
      chain_next.prems(1) w by simp
  then show ?case
    using chain_next.hyps(1) chain_next.IH [OF chain_next.prems(1), of k st' ctx'] chain_next.prems(2) w
    by (auto simp: k raw walk_append simp del: walk_sectors.simps)
qed

lemma entry_name_cstr: "is_cstr (entry_name e st)"
  by (auto simp: entry_name_def is_cstr_def dest: set_takeWhileD)

lemma walk_find:
  assumes "is_cstr want"
  shows "snd (snd (walk_entries (find_cb want) es st None)) =
    map_option (\<lambda>ne. file_of (snd ne)) (List.find (wanted want) (listing es st))"
proof (induction es arbitrary: st)
  case (Cons e es)
  have "name_eq (entry_name e st) want \<longleftrightarrow> map upper (entry_name e st) = map upper want"
    by (rule name_eq_iff [OF entry_name_cstr assms])
  then show ?case
    using Cons by (auto simp: find_cb_def wanted_def file_of_def split: entry_kind.splits)
qed simp

text \<open>
  On a card that can be read and whose root directory is a chain that ends, finding a file
  gives the first entry of the directory that has the name, case aside, and is no directory
  itself, with its first cluster and size; with any bound above the length of the chain.
\<close>

theorem fat32_find_first:
  assumes "ready fs" "\<forall>lba. sd lba = Some (img lba)" "chain sd fs (root_cluster fs) clusters" "length clusters < fuel"
    and "is_cstr want"
  shows "fat32_find fuel sd fs want =
    Inr (map_option (\<lambda>ne. file_of (snd ne)) (List.find (wanted want) (listing (raw_entries img fs clusters) lfn_empty)))"
proof -
  have "walk_root fuel sd fs (find_cb want) None =
      Inr (True, snd (snd (walk_entries (find_cb want) (raw_entries img fs clusters) lfn_empty None)))"
    using walk_clusters_entries [OF assms(3,2,4), of "find_cb want" lfn_empty None] assms(1) by (simp add: walk_root_def)
  then show ?thesis using walk_find [OF assms(5)] by (simp add: fat32_find_def)
qed

text \<open>A directory cluster that names itself as its successor is walked for ever.\<close>

lemma cyclic_root_hangs:
  assumes "next_cluster sd fs c = c" "c \<noteq> 0" "\<forall>lba. sd lba = Some (img lba)"
    and "\<forall>e \<in> set (raw_entries img fs [c]). entry_kind e = Deleted"
  shows "walk_clusters fuel sd fs fn c st ctx = Inl Hang"
proof -
  have del: "\<forall>e \<in> set es. entry_kind e = Deleted \<Longrightarrow> \<exists>st'. walk_entries fn es st ctx = (False, st', ctx)" for es st
    by (induction es arbitrary: st) auto
  show ?thesis
  proof (induction fuel arbitrary: st)
    case (Suc fuel)
    let ?ls = "map (\<lambda>s. part_lba fs + cluster_lba fs c + s) [0..<sectors_per_cluster fs]"
    have "concat (map (\<lambda>l. dir_entries (img l)) ?ls) = raw_entries img fs [c]" by (simp add: raw_entries_def comp_def)
    then obtain st' where "walk_entries fn (concat (map (\<lambda>l. dir_entries (img l)) ?ls)) st ctx = (False, st', ctx)"
      using del assms(4) by metis
    then have "walk_sectors sd fn ?ls st ctx = (Some (False, st', ctx), ctx)"
      using walk_sectors_entries [of ?ls sd img fn st ctx] assms(3) by simp
    then show ?case using assms(1,2) Suc by (simp del: walk_sectors.simps)
  qed simp
qed

section \<open>Long names\<close>

text \<open>The byte at a place of a name, in a buffer of zeros.\<close>

definition padded :: "cstring \<Rightarrow> nat \<Rightarrow> u8" where
  "padded nm j = (if j < length nm then nm ! j else 0)"

text \<open>Fragment \<open>k\<close> of a name as FAT stores it: 13 characters, then a NUL, then all ones.\<close>

definition fragment :: "cstring \<Rightarrow> nat \<Rightarrow> u8 list \<Rightarrow> bool" where
  "fragment nm k e \<longleftrightarrow> entry_kind e = Fragment \<and> unat ((e ! 0) AND 0x3F) = k \<and>
     (\<forall>i < 13. rd16 e (lfn_pos ! i) =
        (let j = (k - 1) * 13 + i in if j < length nm then unat (nm ! j) else if j = length nm then 0 else 0xFFFF))"

lemma lfn_scan_padded:
  assumes "\<forall>c \<in> set nm. c \<noteq> 0 \<and> c < 0x80"
  shows "(\<forall>i < length ps. rd16 e (ps ! i) =
        (let j = k + i in if j < length nm then unat (nm ! j) else if j = length nm then 0 else 0xFFFF)) \<Longrightarrow>
     lfn_scan e ps = map (\<lambda>i. padded nm (k + i)) [0..<length ps]"
proof (induction ps arbitrary: k)
  case (Cons p ps)
  have p: "rd16 e p = (if k < length nm then unat (nm ! k) else if k = length nm then 0 else 0xFFFF)"
    using Cons.prems by (auto simp: Let_def)
  have up: "map (\<lambda>i. padded nm (k + i)) [0..<Suc n] = padded nm k # map (\<lambda>i. padded nm (Suc k + i)) [0..<n]" for n
    by (simp add: upt_conv_Cons map_Suc_upt [symmetric] del: upt_Suc)
  show ?case
  proof (cases "k < length nm")
    case True
    then have "nm ! k \<noteq> 0" "nm ! k < 0x80" using assms by simp_all
    then have "unat (nm ! k) \<noteq> 0" "unat (nm ! k) < 0x80" by (simp_all add: unat_eq_0 word_less_nat_alt)
    then have "lfn_scan e (p # ps) = nm ! k # lfn_scan e ps" using True p by (simp add: Let_def)
    moreover have "lfn_scan e ps = map (\<lambda>i. padded nm (Suc k + i)) [0..<length ps]"
    proof (rule Cons.IH, intro allI impI)
      fix i
      assume "i < length ps"
      then show "rd16 e (ps ! i) = (let j = Suc k + i in
          if j < length nm then unat (nm ! j) else if j = length nm then 0 else 0xFFFF)"
        using Cons.prems [rule_format, of "Suc i"] by simp
    qed
    moreover have "padded nm k = nm ! k" using True by (simp add: padded_def)
    ultimately show ?thesis by (simp only: length_Cons up)
  next
    case False
    have "map (\<lambda>i. padded nm (k + i)) [0..<n] = replicate n 0" for n
      using False by (intro nth_equalityI) (auto simp: padded_def)
    then show ?thesis using False p by (simp del: upt_Suc replicate_Suc)
  qed
qed simp

definition lfn_from :: "cstring \<Rightarrow> nat \<Rightarrow> u8 list" where
  "lfn_from nm k = map (\<lambda>j. if k * 13 \<le> j then padded nm j else 0) [0..<261]"

lemma add_fragment_from:
  assumes "\<forall>c \<in> set nm. c \<noteq> 0 \<and> c < 0x80" "fragment nm (Suc k) e" "lfn st = lfn_from nm (Suc k)" "k < 20"
  shows "add_fragment e st = \<lparr>lfn = lfn_from nm k, have_lfn = True\<rparr>"
proof -
  have "length lfn_pos = 13" by (simp add: lfn_pos_def)
  then have "lfn_chars e = map (\<lambda>i. padded nm (k * 13 + i)) [0..<13]"
    using lfn_scan_padded [OF assms(1), of lfn_pos e "k * 13"] assms(2) by (simp add: lfn_chars_def fragment_def)
  moreover have "take (k * 13) (lfn_from nm (Suc k)) @ map (\<lambda>i. padded nm (k * 13 + i)) [0..<13] @ drop (k * 13 + 13) (lfn_from nm (Suc k))
      = lfn_from nm k" (is "?l = _")
  proof (rule nth_equalityI)
    show len: "length ?l = length (lfn_from nm k)" using assms(4) by (simp add: lfn_from_def)
    fix j
    assume "j < length ?l"
    then have "j < 261" using len by (simp add: lfn_from_def)
    then show "?l ! j = lfn_from nm k ! j" using assms(4) by (auto simp: lfn_from_def nth_append)
  qed
  moreover have "unat ((e ! 0) AND 0x3F) = Suc k" using assms(2) by (simp add: fragment_def)
  ultimately show ?thesis using assms(3,4) by (simp add: add_fragment_def)
qed

lemma listing_fragments:
  assumes "\<forall>c \<in> set nm. c \<noteq> 0 \<and> c < 0x80" "\<And>k. 1 \<le> k \<Longrightarrow> k \<le> n \<Longrightarrow> fragment nm k (frag k)" "n \<le> 20"
  shows "lfn st = lfn_from nm n \<Longrightarrow> n \<noteq> 0 \<Longrightarrow>
    listing (map frag (rev [1..<Suc n]) @ es) st = listing es \<lparr>lfn = lfn_from nm 0, have_lfn = True\<rparr>"
  using assms(2,3)
proof (induction n arbitrary: st)
  case (Suc n)
  have f: "fragment nm (Suc n) (frag (Suc n))" using Suc.prems(3) by simp
  have a: "add_fragment (frag (Suc n)) st = \<lparr>lfn = lfn_from nm n, have_lfn = True\<rparr>"
    by (rule add_fragment_from [OF assms(1) f Suc.prems(1)]) (use Suc.prems(4) in simp)
  have k: "entry_kind (frag (Suc n)) = Fragment" using f by (simp add: fragment_def)
  have l: "listing (map frag (rev [1..<Suc (Suc n)]) @ es) st =
      listing (map frag (rev [1..<Suc n]) @ es) \<lparr>lfn = lfn_from nm n, have_lfn = True\<rparr>"
    using a k by simp
  show ?case
  proof (cases n)
    case 0
    then show ?thesis using l by simp
  next
    case (Suc m)
    then show ?thesis unfolding l using Suc.IH [of "\<lparr>lfn = lfn_from nm n, have_lfn = True\<rparr>"] Suc.prems(3,4) by simp
  qed
qed simp

text \<open>
  The fragments of an ASCII name of up to 255 characters, stored last first as FAT does and
  followed by the entry they belong to, are put together to exactly that name, and the directory
  goes on after them with nothing left over.
\<close>

theorem long_name_assembled:
  assumes "nm \<noteq> []" "length nm \<le> 255" "\<forall>c \<in> set nm. c \<noteq> 0 \<and> c < 0x80"
    and "n = (length nm + 12) div 13" "\<forall>k. 1 \<le> k \<and> k \<le> n \<longrightarrow> fragment nm k (frag k)" "entry_kind e = Named"
  shows "listing (map frag (rev [1..<Suc n]) @ e # es) lfn_empty = (nm, e) # listing es lfn_empty"
proof -
  have n: "n \<noteq> 0" "n \<le> 20" "length nm \<le> n * 13" using assms(1,2,4) by (cases nm; simp; linarith)+
  have "lfn_from nm n = map (\<lambda>j. 0) [0..<261]"
    unfolding lfn_from_def using n(3) by (intro map_cong) (auto simp: padded_def)
  then have "lfn lfn_empty = lfn_from nm n" by (simp add: lfn_empty_def map_replicate_const)
  from listing_fragments [OF assms(3) _ n(2) this n(1), of frag "e # es"] assms(5)
  have "listing (map frag (rev [1..<Suc n]) @ e # es) lfn_empty = listing (e # es) \<lparr>lfn = lfn_from nm 0, have_lfn = True\<rparr>"
    by simp
  moreover have "entry_name e \<lparr>lfn = lfn_from nm 0, have_lfn = True\<rparr> = nm"
  proof -
    have "lfn_from nm 0 = nm @ replicate (261 - length nm) 0"
      using assms(2) by (intro nth_equalityI) (auto simp: lfn_from_def padded_def nth_append)
    moreover have "261 - length nm = Suc (260 - length nm)" using assms(2) by simp
    moreover have "0 \<notin> set nm" using assms(3) by auto
    moreover have "nm ! 0 \<noteq> 0" using assms(1,3) by (cases nm) auto
    moreover have "260 - length nm = Suc (259 - length nm)" using assms(2) by simp
    ultimately show ?thesis using assms(1,2) takeWhile_nul
      by (simp add: entry_name_def nth_append)
  qed
  ultimately show ?thesis using assms(6) by simp
qed


text \<open>A fragment that holds the name \<open>a\<close>, and an entry that belongs to it.\<close>

definition ex_frag :: "u8 list" where
  "ex_frag = [0x41, 97, 0, 0, 0, 255, 255, 255, 255, 255, 255, 0x0F, 0, 0, 255, 255, 255, 255, 255, 255,
     255, 255, 255, 255, 255, 255, 0, 0, 255, 255, 255, 255]"

definition ex_entry :: "u8 list" where
  "ex_entry = [65, 126, 49, 32, 32, 32, 32, 32, 32, 32, 32, 0x20, 0, 0, 0, 0, 0, 0, 0, 0,
     0, 0, 0, 0, 0, 0, 3, 0, 5, 0, 0, 0]"

lemma ex_fragment: "fragment [97] 1 ex_frag"
proof -
  let ?P = "\<lambda>i. rd16 ex_frag (lfn_pos ! i) = (if i < 1 then 97 else if i = 1 then 0 else 0xFFFF)"
  have "list_all ?P [0, 1, 2, 3, 4, 5, 6, 7, 8, 9, 10, 11, 12]" by (simp add: ex_frag_def lfn_pos_def rd16_def)
  moreover have "[0, 1, 2, 3, 4, 5, 6, 7, 8, 9, 10, 11, 12] = [0..<13]" by (simp add: upt_rec)
  ultimately have "list_all ?P [0..<13]" by (rule subst [rotated])
  then have all: "\<forall>i \<in> set [0..<13]. ?P i" unfolding list_all_iff .
  have "\<forall>i < 13. ?P i"
  proof (intro allI impI)
    fix i :: nat
    assume "i < 13"
    then have "i \<in> set [0..<13]" by simp
    with all show "?P i" by blast
  qed
  then show ?thesis by (simp add: fragment_def entry_kind_def Let_def) (simp add: ex_frag_def)
qed

theorem long_name_assembled_witness:
  "listing [ex_frag, ex_entry] lfn_empty = [([97], ex_entry)]"
proof -
  have "\<forall>k. 1 \<le> k \<and> k \<le> (1 :: nat) \<longrightarrow> fragment [97] k ex_frag" using ex_fragment by (auto simp: le_antisym)
  from long_name_assembled [of "[97]" 1 "\<lambda>_. ex_frag" ex_entry "[]"] this show ?thesis
    by (simp add: entry_kind_def ex_entry_def)
qed

text \<open>A card whose root directory has one file, \<open>A\<close>, of 5 bytes at cluster 3.\<close>

definition ex_img :: "nat \<Rightarrow> u8 list" where
  "ex_img lba = (if lba = 3 then ex_entry[1 := 32, 2 := 32] @ replicate 480 0 else replicate 512 0)"

theorem fat32_find_first_witness:
  "fat32_find 2 (\<lambda>lba. Some (ex_img lba)) ex_fs [97] = Inr (Some \<lparr>first_cluster = 3, file_size = 5\<rparr>)"
proof -
  let ?sd = "\<lambda>lba. Some (ex_img lba)" and ?e = "ex_entry[1 := 32, 2 := 32]"
  have nx: "next_cluster ?sd ex_fs 2 = 0"
    by (simp add: next_cluster_def ex_fs_def ex_img_def rd32_def W32_def Let_def)
  have c: "chain ?sd ex_fs (root_cluster ex_fs) [2]"
  proof -
    have "chain ?sd ex_fs 2 [2]" by (rule chain_next) (simp_all add: nx chain_end)
    then show ?thesis by (simp add: ex_fs_def)
  qed
  have "[0..<16] = 0 # 1 # [2..<16]" by (simp add: upt_rec)
  then have d: "dir_entries (?e @ replicate 480 0) = ?e # replicate 32 0 # map (\<lambda>i. take 32 (drop (32 * i) (?e @ replicate 480 0))) [2..<16]"
    by (simp add: dir_entries_def ex_entry_def)
  have raw: "raw_entries ex_img ex_fs [2] = dir_entries (?e @ replicate 480 0)"
    by (simp add: raw_entries_def ex_fs_def cluster_lba_def W32_def ex_img_def)
  have l: "listing (raw_entries ex_img ex_fs [2]) lfn_empty = [([65], ?e)]"
    unfolding raw d by (simp add: entry_kind_def entry_name_def lfn_empty_def expand_83_def ex_entry_def)
  have "fat32_find 2 ?sd ex_fs [97] =
      Inr (map_option (\<lambda>ne. file_of (snd ne)) (List.find (wanted [97]) (listing (raw_entries ex_img ex_fs [2]) lfn_empty)))"
    by (rule fat32_find_first [OF _ _ c]) (simp_all add: ex_fs_def is_cstr_def)
  then show ?thesis unfolding l by (simp add: wanted_def upper_def file_of_def rd16_def rd32_def ex_entry_def)
qed

end
