(* ===== verification/LpRsa.thy ===== *)
theory LpRsa
  imports LpPrelude
begin

text \<open>
  RSA-2048 signature verification (\<open>userland/libc/src/rsa.c\<close>): numbers of 64 limbs of 32
  bits, least significant first, Montgomery multiplication on them, and the comparison of the
  result with the PKCS#1 v1.5 block.  The loops over the limbs are recursions over lists.
\<close>

section \<open>Limbs\<close>

definition LIMBS :: nat where "LIMBS = 64"

definition be_to_limbs :: "u8 list \<Rightarrow> u32 list" where
  "be_to_limbs be =
     map (\<lambda>i. let p = (LIMBS - 1 - i) * 4 in be32_word (be ! p) (be ! (p + 1)) (be ! (p + 2)) (be ! (p + 3)))
       [0..<LIMBS]"

definition limbs_to_be :: "u32 list \<Rightarrow> u8 list" where
  "limbs_to_be xs =
     concat (map (\<lambda>x. [ucast (drop_bit 24 x), ucast (drop_bit 16 x), ucast (drop_bit 8 x), ucast x]) (rev xs))"

fun geq_loop :: "bool \<Rightarrow> u32 list \<Rightarrow> u32 list \<Rightarrow> bool" where
  "geq_loop ge (a # as) (b # bs) = geq_loop (if a > b then True else if a < b then False else ge) as bs"
| "geq_loop ge _ _ = ge"

definition geq :: "u32 list \<Rightarrow> u32 list \<Rightarrow> bool" where
  "geq a b = geq_loop True a b"

fun sub_loop :: "u64 \<Rightarrow> u32 list \<Rightarrow> u32 list \<Rightarrow> u32 list" where
  "sub_loop borrow (a # as) (b # bs) =
     (let d = (ucast a :: u64) - ucast b - borrow in
      ucast d # sub_loop (drop_bit 32 d AND 1) as bs)"
| "sub_loop borrow _ _ = []"

definition sub_in_place :: "u32 list \<Rightarrow> u32 list \<Rightarrow> u32 list" where
  "sub_in_place a b = sub_loop 0 a b"

section \<open>Montgomery multiplication\<close>

definition mont_n0inv :: "u32 \<Rightarrow> u32" where
  "mont_n0inv n0 = 0 - ((\<lambda>x. x * (2 - n0 * x)) ^^ 5) n0"

text \<open>\<open>t += a * b\<close> with the carry that is left.\<close>

fun mac :: "u32 list \<Rightarrow> u32 \<Rightarrow> u32 list \<Rightarrow> u64 \<Rightarrow> u32 list \<times> u64" where
  "mac (t # ts) a (b # bs) carry =
     (let v = (ucast t :: u64) + ucast a * ucast b + carry;
          (ts', c') = mac ts a bs (drop_bit 32 v)
      in (ucast v # ts', c'))"
| "mac _ a _ carry = ([], carry)"

text \<open>One round: the low limbs of \<open>t\<close> and the highest one.\<close>

definition mont_row :: "u32 list \<Rightarrow> u32 list \<Rightarrow> u32 \<Rightarrow> u32 \<Rightarrow> u32 list \<times> u32 \<Rightarrow> u32 list \<times> u32" where
  "mont_row b n n0inv ai th =
     (let (t, hi) = th;
          (t, carry) = mac t ai b 0;
          top = (ucast hi :: u64) + carry;
          hi = (ucast top :: u32);
          overflow = (ucast (drop_bit 32 top) :: u32);
          m = hd t * n0inv;
          (t, carry) = mac t m n 0;
          top = (ucast hi :: u64) + carry;
          hi = ucast top;
          overflow = overflow + ucast (drop_bit 32 top)
      in (tl t @ [hi], overflow))"

definition mont_mul :: "u32 list \<Rightarrow> u32 list \<Rightarrow> u32 list \<Rightarrow> u32 \<Rightarrow> u32 list" where
  "mont_mul a b n n0inv =
     (let (t, hi) = fold (mont_row b n n0inv) a (replicate LIMBS 0, 0)
      in if hi \<noteq> 0 \<or> geq t n then sub_in_place t n else t)"

section \<open>The public operation\<close>

fun shift_left :: "u32 \<Rightarrow> u32 list \<Rightarrow> u32 list \<times> u32" where
  "shift_left carry [] = ([], carry)"
| "shift_left carry (x # xs) =
     (let hi = drop_bit 31 x; (ys, c) = shift_left hi xs in ((push_bit 1 x OR carry) # ys, c))"

definition double_mod :: "u32 list \<Rightarrow> u32 list \<Rightarrow> u32 list" where
  "double_mod n rr =
     (let (rr, carry) = shift_left 0 rr in
      if carry \<noteq> 0 \<or> geq rr n then sub_in_place rr n else rr)"

definition one_limbs :: "u32 list" where
  "one_limbs = 1 # replicate (LIMBS - 1) 0"

definition modexp_65537 :: "u8 list \<Rightarrow> u8 list \<Rightarrow> u8 list option" where
  "modexp_65537 sig_be mod_be =
     (let n = be_to_limbs mod_be; s = be_to_limbs sig_be in
      if hd n AND 1 = 0 then None
      else if geq s n then None
      else
        (let n0inv = mont_n0inv (hd n);
             rr = (double_mod n ^^ (2 * LIMBS * 32)) one_limbs;
             a = mont_mul s rr n n0inv;
             a = ((\<lambda>a. mont_mul a a n n0inv) ^^ 16) a;
             sm = mont_mul s rr n n0inv;
             b = mont_mul a sm n n0inv;
             a = mont_mul b one_limbs n n0inv
         in Some (limbs_to_be a)))"

text \<open>The bytes of the source in decimal: 48 is \<open>0x30\<close>, a sequence, 6 an object identifier.\<close>

definition SHA256_DER :: "u8 list" where
  "SHA256_DER = [48, 49, 48, 13, 6, 9, 96, 134, 72, 1, 101, 3, 4, 2, 1, 5, 0, 4, 32]"

definition RSA2048_BYTES :: nat where "RSA2048_BYTES = 256"

definition lp_rsa2048_verify :: "u8 list \<Rightarrow> u8 list \<Rightarrow> u8 list \<Rightarrow> bool" where
  "lp_rsa2048_verify modulus_be sig_be sha256 =
     (case modexp_65537 sig_be modulus_be of
        None \<Rightarrow> False
      | Some m \<Rightarrow>
          (let dlen = length SHA256_DER + 32;
               pad = RSA2048_BYTES - dlen - 3;
               bad = (m ! 0 \<noteq> 0x00 \<or> m ! 1 \<noteq> 0x01 \<or>
                 list_ex (\<lambda>i. m ! (2 + i) \<noteq> 0xFF) [0..<pad] \<or>
                 m ! (2 + pad) \<noteq> 0x00 \<or>
                 list_ex (\<lambda>i. m ! (3 + pad + i) \<noteq> SHA256_DER ! i) [0..<length SHA256_DER] \<or>
                 list_ex (\<lambda>i. m ! (3 + pad + length SHA256_DER + i) \<noteq> sha256 ! i) [0..<32])
           in \<not> bad))"

section \<open>The numbers the limbs stand for\<close>

abbreviation B32 :: nat where "B32 \<equiv> 2 ^ 32"

fun num :: "u32 list \<Rightarrow> nat" where
  "num [] = 0"
| "num (x # xs) = unat x + B32 * num xs"

lemma u32_lt: "unat (x :: u32) < B32"
  using unsigned_less [of x] by simp

lemma num_bound: "num xs < B32 ^ length xs"
proof (induction xs)
  case (Cons x xs)
  have "num (x # xs) < B32 + B32 * num xs" using u32_lt [of x] by simp
  also have "\<dots> = B32 * (num xs + 1)" by simp
  also have "\<dots> \<le> B32 * B32 ^ length xs" using Cons.IH by (intro mult_le_mono) simp_all
  finally show ?case by simp
qed simp

lemma num_append: "num (xs @ ys) = num xs + B32 ^ length xs * num ys"
  by (induction xs) (simp_all add: algebra_simps)

lemma num_replicate_0 [simp]: "num (replicate k 0) = 0"
  by (induction k) simp_all

lemma u64_parts: "unat (ucast (v :: u64) :: u32) = unat v mod B32" "unat (drop_bit 32 v) = unat v div B32"
  by (simp_all add: unsigned_ucast_eq take_bit_eq_mod unat_drop_bit_eq drop_bit_eq_div unat_div_distrib)

lemma unat_ucast_64 [simp]: "unat (ucast (x :: u32) :: u64) = unat x"
  by (simp add: unsigned_ucast_eq take_bit_nat_eq_self_iff order_less_le_trans [OF u32_lt])

lemma limb_less: "a < B32 \<Longrightarrow> m < k \<Longrightarrow> a + B32 * m < b + B32 * (k :: nat)"
proof -
  assume "a < B32" "m < k"
  then have "a + B32 * m < B32 * (m + 1)" by simp
  also have "\<dots> \<le> B32 * k" using \<open>m < k\<close> by (intro mult_le_mono) simp_all
  finally show ?thesis by simp
qed

lemma geq_loop_num: "length a = length b \<Longrightarrow> geq_loop ge a b \<longleftrightarrow> num a > num b \<or> num a = num b \<and> ge"
proof (induction ge a b rule: geq_loop.induct)
  case (1 ge a as b bs)
  note lt = u32_lt [of a] u32_lt [of b]
  consider "num as < num bs" | "num as = num bs" | "num as > num bs" by linarith
  then show ?case
  proof cases
    case 1
    then have "num (a # as) < num (b # bs)" using limb_less [OF lt(1)] by simp
    then show ?thesis using "1.IH" "1.prems" 1 by simp
  next
    case 2
    then show ?thesis using "1.IH" "1.prems" by (auto simp: word_less_nat_alt)
  next
    case 3
    then have "num (b # bs) < num (a # as)" using limb_less [OF lt(2)] by simp
    then show ?thesis using "1.IH" "1.prems" 3 by simp
  qed
qed simp_all

lemma geq_num: "length a = length b \<Longrightarrow> geq a b \<longleftrightarrow> num b \<le> num a"
  by (auto simp: geq_def geq_loop_num)

text \<open>Subtraction wraps around at the top limb, so that \<open>a + 2^(32 k) - b\<close> comes out when \<open>b\<close> is larger.\<close>

lemma sub_limb:
  fixes a b :: u32 and w :: u64
  assumes "unat w \<le> 1"
  defines "d \<equiv> (ucast a :: u64) - ucast b - w"
  shows "unat (ucast d :: u32) + unat b + unat w = unat a + B32 * unat (drop_bit 32 d AND 1)" "unat (drop_bit 32 d AND 1) \<le> 1"
proof -
  let ?D = "unat d"
  have "d + ucast b + w = ucast a" by (simp add: d_def)
  from arg_cong [OF this, of unat] have "(?D + unat b + unat w) mod 2 ^ 64 = unat a"
    by (simp add: unat_word_ariths mod_simps)
  moreover have "?D < 2 ^ 64" using unsigned_less [of d] by simp
  moreover note u32_lt [of b] u32_lt [of a] assms(1)
  ultimately consider (plain) "?D + unat b + unat w = unat a" | (wrap) "?D + unat b + unat w = unat a + 2 ^ 64"
    by (cases "?D + unat b + unat w < 2 ^ 64") (auto simp: mod_if split: if_splits)
  then have "?D mod B32 + unat b + unat w = unat a + B32 * (?D div B32 mod 2)"
  proof cases
    case plain
    then show ?thesis using u32_lt [of a] by simp
  next
    case wrap
    then have D: "?D = (2 ^ 64 + unat a) - (unat b + unat w)" by simp
    have "(B32 - 1) * B32 \<le> ?D" "?D < B32 * B32"
      using D u32_lt [of b] u32_lt [of a] assms(1) \<open>?D < 2 ^ 64\<close> by simp_all
    then have "?D div B32 = B32 - 1" by (intro div_nat_eqI) simp_all
    moreover from this have "?D mod B32 = ?D - (B32 - 1) * B32" by (simp add: minus_div_mult_eq_mod [symmetric])
    ultimately show ?thesis using D u32_lt [of b] assms(1) by simp
  qed
  moreover have "unat (drop_bit 32 d AND 1) = ?D div B32 mod 2"
    unfolding u64_parts(2) [symmetric] by (simp add: and_one_eq unat_mod_distrib)
  ultimately show "unat (ucast d :: u32) + unat b + unat w = unat a + B32 * unat (drop_bit 32 d AND 1)"
    "unat (drop_bit 32 d AND 1) \<le> 1"
    by (simp_all only: u64_parts)
qed

lemma sub_loop_num:
  "length a = length b \<Longrightarrow> unat w \<le> 1 \<Longrightarrow>
     \<exists>k. num (sub_loop w a b) + num b + unat w = num a + B32 ^ length a * k \<and> length (sub_loop w a b) = length a \<and> k \<le> 1"
proof (induction w a b rule: sub_loop.induct)
  case (1 w a as b bs)
  define d where "d = (ucast a :: u64) - ucast b - w"
  let ?w = "drop_bit 32 d AND 1"
  note l = sub_limb [OF "1.prems"(2), of a b, folded d_def]
  obtain k where k: "num (sub_loop ?w as bs) + num bs + unat ?w = num as + B32 ^ length as * k"
      "length (sub_loop ?w as bs) = length as" "k \<le> 1"
    using "1.IH" [OF d_def _ l(2)] "1.prems"(1) by auto
  have step: "sub_loop w (a # as) (b # bs) = ucast d # sub_loop ?w as bs" by (simp only: sub_loop.simps Let_def d_def)
  have "num (sub_loop w (a # as) (b # bs)) + num (b # bs) + unat w =
      (unat (ucast d :: u32) + unat b + unat w) + B32 * (num (sub_loop ?w as bs) + num bs)"
    by (simp add: step algebra_simps del: sub_loop.simps)
  also have "\<dots> = unat a + B32 * (num (sub_loop ?w as bs) + num bs + unat ?w)"
    unfolding l(1) by (simp add: algebra_simps)
  also have "\<dots> = num (a # as) + B32 ^ length (a # as) * k" unfolding k(1) by (simp add: algebra_simps)
  finally show ?case using k(2,3) by (auto simp: step simp del: sub_loop.simps)
qed auto

lemma sub_in_place_num:
  assumes "length a = length b"
  shows "length (sub_in_place a b) = length a"
    "num b \<le> num a \<Longrightarrow> num (sub_in_place a b) = num a - num b"
    "num a < num b \<Longrightarrow> num (sub_in_place a b) = num a + B32 ^ length a - num b"
proof -
  obtain k where k: "num (sub_loop 0 a b) + num b = num a + B32 ^ length a * k" "length (sub_loop 0 a b) = length a" "k \<le> 1"
    using sub_loop_num [OF assms, of 0] by auto
  have b: "num (sub_loop 0 a b) < B32 ^ length a" "num b < B32 ^ length a"
    using num_bound [of "sub_loop 0 a b"] num_bound [of b] k(2) assms by simp_all
  show "length (sub_in_place a b) = length a" using k(2) by (simp add: sub_in_place_def)
  consider "k = 0" | "k = 1" using k(3) by linarith
  note cases = this
  show "num b \<le> num a \<Longrightarrow> num (sub_in_place a b) = num a - num b"
    using k(1) b by (cases rule: cases) (simp_all add: sub_in_place_def)
  show "num a < num b \<Longrightarrow> num (sub_in_place a b) = num a + B32 ^ length a - num b"
    using k(1) b by (cases rule: cases) (simp_all add: sub_in_place_def)
qed

lemma mac_limb:
  fixes t a b :: u32 and w :: u64
  assumes "unat w < B32"
  defines "v \<equiv> (ucast t :: u64) + ucast a * ucast b + w"
  shows "unat (ucast v :: u32) + B32 * unat (drop_bit 32 v) = unat t + unat a * unat b + unat w" "unat (drop_bit 32 v) < B32"
proof -
  have "unat a * unat b \<le> (B32 - 1) * (B32 - 1)"
    using u32_lt [of a] u32_lt [of b] by (intro mult_le_mono) simp_all
  then have s: "unat t + unat a * unat b + unat w < 2 ^ 64" using u32_lt [of t] assms(1) by simp
  then have "unat v = unat t + unat a * unat b + unat w"
    by (simp add: v_def unat_word_ariths mod_simps)
  then show "unat (ucast v :: u32) + B32 * unat (drop_bit 32 v) = unat t + unat a * unat b + unat w"
    unfolding u64_parts by (simp add: mod_mult_div_eq)
  show "unat (drop_bit 32 v) < B32"
    using unsigned_less [of v] unfolding u64_parts by (simp add: div_less_iff_less_mult)
qed

lemma mac_num:
  "length t = length b \<Longrightarrow> unat w < B32 \<Longrightarrow> mac t a b w = (t', c) \<Longrightarrow>
     num t' + B32 ^ length t * unat c = num t + unat a * num b + unat w \<and> length t' = length t \<and> unat c < B32"
proof (induction t a b w arbitrary: t' rule: mac.induct)
  case (1 t ts a b bs w)
  define v where "v = (ucast t :: u64) + ucast a * ucast b + w"
  note l = mac_limb [OF "1.prems"(2), of t a b, folded v_def]
  obtain ts' where ts': "mac ts a bs (drop_bit 32 v) = (ts', c)" "t' = ucast v # ts'"
    using "1.prems"(3) by (auto simp: v_def Let_def split: prod.splits)
  have IH: "num ts' + B32 ^ length ts * unat c = num ts + unat a * num bs + unat (drop_bit 32 v)"
      "length ts' = length ts" "unat c < B32"
    using "1.IH" [OF v_def _ l(2) ts'(1)] "1.prems"(1) by auto
  have "num t' + B32 ^ length (t # ts) * unat c = unat (ucast v :: u32) + B32 * (num ts' + B32 ^ length ts * unat c)"
    by (simp add: ts'(2) algebra_simps)
  also have "\<dots> = (unat (ucast v :: u32) + B32 * unat (drop_bit 32 v)) + B32 * (num ts + unat a * num bs)"
    unfolding IH(1) by (simp add: algebra_simps)
  also have "\<dots> = num (t # ts) + unat a * num (b # bs) + unat w" unfolding l(1) by (simp add: algebra_simps)
  finally show ?case using IH(2,3) ts'(2) by simp
qed auto

section \<open>Montgomery multiplication is multiplication\<close>

lemma n0inv_step: "1 - n0 * (x * (2 - n0 * x)) = (1 - n0 * x) * (1 - n0 * (x :: u32))"
  by (simp add: algebra_simps)

lemma n0inv_loop: "1 - n0 * (((\<lambda>x. x * (2 - n0 * x)) ^^ k) x) = (1 - n0 * (x :: u32)) ^ (2 ^ k)"
proof (induction k)
  case (Suc k)
  show ?case by (simp only: funpow.simps comp_apply n0inv_step Suc.IH) (simp add: power_add [symmetric] mult_2)
qed simp

lemma odd_square:
  assumes "odd (unat (n :: u32))" shows "\<exists>w. 1 - n * n = 8 * w"
proof -
  obtain k where k: "unat n = 2 * k + 1" using assms oddE by blast
  have "n = of_nat (unat n)" by simp
  then have n: "n = of_nat (2 * k + 1)" by (simp only: k)
  obtain j where j: "k * (k + 1) = 2 * j" by (metis even_mult_iff even_plus_one_iff evenE)
  have "n * n - 1 = of_nat (4 * (k * (k + 1)))" unfolding n by (simp add: algebra_simps)
  also have "\<dots> = 8 * of_nat j" unfolding j by simp
  finally have "1 - n * n = 8 * (- of_nat j)" by (simp add: algebra_simps)
  then show ?thesis by blast
qed

lemma mont_n0inv_correct:
  assumes "odd (unat n0)" shows "n0 * mont_n0inv n0 = - 1"
proof -
  obtain w where w: "1 - n0 * n0 = 8 * w" using odd_square [OF assms] by blast
  have e: "(8 :: u32) ^ 2 ^ 5 = 0" by simp
  then have "1 - n0 * (((\<lambda>x. x * (2 - n0 * x)) ^^ 5) n0) = 0"
    by (simp only: n0inv_loop w power_mult_distrib e mult_zero_left)
  then show ?thesis by (simp add: mont_n0inv_def)
qed

text \<open>A round divides by \<open>2^32\<close>, having added multiples of \<open>b\<close> and of \<open>n\<close>.\<close>

definition val :: "u32 list \<times> u32 \<Rightarrow> nat" where
  "val th = num (fst th) + B32 ^ length (fst th) * unat (snd th)"

lemma add_top:
  fixes hi :: u32 and c :: u64
  assumes "unat c < B32"
  shows "unat (ucast ((ucast hi :: u64) + c) :: u32) + B32 * unat (ucast (drop_bit 32 ((ucast hi :: u64) + c)) :: u32) = unat hi + unat c"
    "unat (ucast (drop_bit 32 ((ucast hi :: u64) + c)) :: u32) \<le> 1"
proof -
  let ?s = "(ucast hi :: u64) + c"
  have s: "unat ?s = unat hi + unat c" using u32_lt [of hi] assms by (simp add: unat_word_ariths)
  have d: "unat hi + unat c < 2 * B32" using u32_lt [of hi] assms by simp
  then have "(unat hi + unat c) div B32 < 2" by (simp add: div_less_iff_less_mult)
  then have q: "unat (ucast (drop_bit 32 ?s) :: u32) = (unat hi + unat c) div B32"
    unfolding u64_parts s by simp
  then show "unat (ucast (drop_bit 32 ?s) :: u32) \<le> 1" using d by (simp add: div_less_iff_less_mult Suc_le_eq [symmetric])
  show "unat (ucast ?s :: u32) + B32 * unat (ucast (drop_bit 32 ?s) :: u32) = unat hi + unat c"
    unfolding q unfolding u64_parts s by (simp add: mod_mult_div_eq)
qed

lemma mont_row_val:
  assumes "length b = length n" "n \<noteq> []" "length t = length n" "odd (unat (hd n))"
    and "num b \<le> num n" "val (t, hi) < 2 * num n"
  shows "\<exists>m. B32 * val (mont_row b n (mont_n0inv (hd n)) ai (t, hi)) = val (t, hi) + unat ai * num b + m * num n \<and>
    val (mont_row b n (mont_n0inv (hd n)) ai (t, hi)) < 2 * num n \<and>
    length (fst (mont_row b n (mont_n0inv (hd n)) ai (t, hi))) = length n"
proof -
  let ?L = "length n"
  obtain t1 c1 where r1: "mac t ai b 0 = (t1, c1)" by (cases "mac t ai b 0")
  have m1: "num t1 + B32 ^ ?L * unat c1 = num t + unat ai * num b" "length t1 = ?L" "unat c1 < B32"
    using mac_num [OF _ _ r1] assms(1,3) by auto
  define hi1 :: u32 where "hi1 = ucast ((ucast hi :: u64) + c1)"
  define o1 :: u32 where "o1 = ucast (drop_bit 32 ((ucast hi :: u64) + c1))"
  define m where "m = hd t1 * mont_n0inv (hd n)"
  obtain t2 c2 where r2: "mac t1 m n 0 = (t2, c2)" by (cases "mac t1 m n 0")
  have m2: "num t2 + B32 ^ ?L * unat c2 = num t1 + unat m * num n" "length t2 = ?L" "unat c2 < B32"
    using mac_num [OF _ _ r2] m1(2) by auto
  define hi2 :: u32 where "hi2 = ucast ((ucast hi1 :: u64) + c2)"
  define o2 :: u32 where "o2 = ucast (drop_bit 32 ((ucast hi1 :: u64) + c2))"
  have top: "unat hi1 + B32 * unat o1 = unat hi + unat c1" "unat o1 \<le> 1"
      "unat hi2 + B32 * unat o2 = unat hi1 + unat c2" "unat o2 \<le> 1"
    using add_top [OF m1(3), of hi] add_top [OF m2(3), of hi1] unfolding hi1_def o1_def hi2_def o2_def by blast+
  have row: "mont_row b n (mont_n0inv (hd n)) ai (t, hi) = (tl t2 @ [hi2], o1 + o2)"
    by (simp add: mont_row_def Let_def r1 r2 hi1_def [symmetric] o1_def [symmetric] m_def [symmetric] hi2_def [symmetric] o2_def [symmetric])
  have o: "unat (o1 + o2) = unat o1 + unat o2" using top(2,4) by (simp add: unat_word_ariths)
  obtain x t2' where t2: "t2 = x # t2'" using m2(2) assms(2) by (cases t2) auto
  have low: "x = 0"
  proof -
    obtain y t1' where t1: "t1 = y # t1'" using m1(2) assms(2) by (cases t1) auto
    obtain z n' where n: "n = z # n'" using assms(2) by (cases n) auto
    have B0: "(4294967296 :: u32) = 0" by (simp add: word_eq_iff_unsigned)
    have "x = of_nat (num t2 + B32 ^ ?L * unat c2)" by (simp add: t2 n B0)
    also have "\<dots> = y + m * z" unfolding m2(1) by (simp add: t1 n B0)
    also have "\<dots> = y + y * (z * mont_n0inv z)" by (simp add: m_def t1 n algebra_simps)
    also have "\<dots> = 0" using mont_n0inv_correct [of z] assms(4) by (simp add: n)
    finally show ?thesis .
  qed
  have lt2: "length t2' + 1 = ?L" using m2(2) t2 by simp
  have "B32 * val (tl t2 @ [hi2], o1 + o2) = num t2 + B32 ^ ?L * (unat hi2 + B32 * unat (o1 + o2))"
    using lt2 by (simp add: val_def num_append t2 low algebra_simps power_add [symmetric] flip: lt2)
  also have "\<dots> = num t2 + B32 ^ ?L * (unat hi + unat c1 + unat c2)"
  proof -
    have "unat hi2 + B32 * (unat o1 + unat o2) = unat hi + unat c1 + unat c2"
      using top(1,3) by (simp add: distrib_left)
    then show ?thesis by (simp only: o)
  qed
  also have "\<dots> = (num t1 + unat m * num n) + B32 ^ ?L * (unat hi + unat c1)" using m2(1) by (simp add: algebra_simps)
  also have "\<dots> = val (t, hi) + unat ai * num b + unat m * num n" using m1(1) assms(3) by (simp add: val_def algebra_simps)
  finally have eq: "B32 * val (tl t2 @ [hi2], o1 + o2) = val (t, hi) + unat ai * num b + unat m * num n" .
  have "unat ai * num b \<le> 4294967295 * num n" "unat m * num n \<le> 4294967295 * num n"
    using u32_lt [of ai] u32_lt [of m] assms(5) by (auto intro!: mult_le_mono)
  then have "val (t, hi) + unat ai * num b + unat m * num n < 4294967296 * (2 * num n)"
    using assms(6) by linarith
  then have "B32 * val (tl t2 @ [hi2], o1 + o2) < B32 * (2 * num n)" unfolding eq by simp
  then have "val (tl t2 @ [hi2], o1 + o2) < 2 * num n" by simp
  then show ?thesis using eq lt2 unfolding row by (auto simp: t2)
qed

lemma fold_rows:
  assumes "length b = length n" "n \<noteq> []" "odd (unat (hd n))" "num b \<le> num n"
  shows "length (fst th) = length n \<Longrightarrow> val th < 2 * num n \<Longrightarrow>
    \<exists>m. B32 ^ length as * val (fold (mont_row b n (mont_n0inv (hd n))) as th) = val th + num as * num b + m * num n \<and>
      val (fold (mont_row b n (mont_n0inv (hd n))) as th) < 2 * num n \<and>
      length (fst (fold (mont_row b n (mont_n0inv (hd n))) as th)) = length n"
proof (induction as arbitrary: th)
  case (Cons a as)
  obtain t hi where th: "th = (t, hi)" by (cases th)
  let ?row = "mont_row b n (mont_n0inv (hd n))"
  obtain m where m: "B32 * val (?row a th) = val th + unat a * num b + m * num n" "val (?row a th) < 2 * num n"
      "length (fst (?row a th)) = length n"
    using mont_row_val [OF assms(1,2) _ assms(3,4), of t hi a] Cons.prems th by auto
  obtain m' where m': "B32 ^ length as * val (fold ?row as (?row a th)) = val (?row a th) + num as * num b + m' * num n"
      "val (fold ?row as (?row a th)) < 2 * num n" "length (fst (fold ?row as (?row a th))) = length n"
    using Cons.IH [OF m(3,2)] by blast
  have "B32 ^ length (a # as) * val (fold ?row as (?row a th)) = B32 * (val (?row a th) + num as * num b + m' * num n)"
    by (simp add: m'(1) [symmetric])
  also have "\<dots> = val th + num (a # as) * num b + (m + B32 * m') * num n"
    using m(1) by (simp add: algebra_simps)
  finally show ?case using m'(2,3) by auto
qed auto

text \<open>The product is right modulo \<open>n\<close> and reduced.\<close>

definition limbs_ok :: "u32 list \<Rightarrow> bool" where
  "limbs_ok a \<longleftrightarrow> length a = LIMBS"

definition R :: nat where "R = B32 ^ LIMBS"

lemma mont_mul_mod:
  assumes "limbs_ok a" "limbs_ok b" "limbs_ok n" "odd (unat (hd n))" "num b \<le> num n" "0 < num n"
  defines "c \<equiv> mont_mul a b n (mont_n0inv (hd n))"
  shows "limbs_ok c" "num c < num n" "(R * num c) mod num n = (num a * num b) mod num n"
proof -
  have ne: "n \<noteq> []" using assms(3) by (auto simp: limbs_ok_def LIMBS_def)
  let ?th = "fold (mont_row b n (mont_n0inv (hd n))) a (replicate LIMBS 0, 0)"
  obtain m where m: "R * val ?th = num a * num b + m * num n" "val ?th < 2 * num n" "length (fst ?th) = length n"
    using fold_rows [OF _ ne assms(4,5), of "(replicate LIMBS 0, 0)" a] assms(1-3,6)
    by (auto simp: val_def limbs_ok_def R_def)
  obtain t hi where th: "?th = (t, hi)" by (cases ?th)
  have l: "length t = LIMBS" "length n = LIMBS" using m(3) th assms(3) by (simp_all add: limbs_ok_def)
  have v: "val ?th = num t + R * unat hi" using th l by (simp add: val_def R_def)
  have nR: "num n < R" "num t < R" using num_bound [of n] num_bound [of t] l by (simp_all add: R_def)
  have c: "c = (if hi \<noteq> 0 \<or> geq t n then sub_in_place t n else t)" by (simp add: c_def mont_mul_def Let_def th)
  have "num c + (if val ?th < num n then 0 else num n) = val ?th \<and> length c = LIMBS"
  proof (cases "hi = 0")
    case True
    then show ?thesis using c v l sub_in_place_num [of t n] by (auto simp: geq_num)
  next
    case False
    then have "1 \<le> unat hi" by (simp add: Suc_le_eq unat_gt_0)
    moreover have "R * unat hi < 2 * R" using m(2) nR v by linarith
    ultimately have hi: "unat hi = 1" by simp
    then have "num t < num n" using m(2) nR v by simp
    then have "num (sub_in_place t n) = num t + R - num n" using sub_in_place_num(3) [of t n] l by (simp add: R_def)
    then show ?thesis using c v l hi False nR sub_in_place_num(1) [of t n] by auto
  qed
  then have r: "num c + (if val ?th < num n then 0 else num n) = val ?th" "length c = LIMBS" by auto
  show "limbs_ok c" using r(2) by (simp add: limbs_ok_def)
  show "num c < num n" using r(1) m(2) by (auto split: if_splits)
  have "(R * val ?th) mod num n = (num a * num b) mod num n" using m(1) by simp
  moreover have "(R * val ?th) mod num n = (R * num c) mod num n"
  proof (cases "val ?th < num n")
    case False
    then have "val ?th = num c + num n" using r(1) by simp
    then show ?thesis by (simp add: distrib_left)
  qed (use r(1) in simp)
  ultimately show "(R * num c) mod num n = (num a * num b) mod num n" by simp
qed

section \<open>Doubling\<close>

lemma shift_left_num:
  "unat c \<le> 1 \<Longrightarrow> shift_left c xs = (ys, c') \<Longrightarrow>
     num ys + B32 ^ length xs * unat c' = 2 * num xs + unat c \<and> length ys = length xs \<and> unat c' \<le> 1"
proof (induction xs arbitrary: c ys)
  case (Cons x xs)
  obtain zs where zs: "shift_left (drop_bit 31 x) xs = (zs, c')" "ys = (push_bit 1 x OR c) # zs"
    using Cons.prems(2) by (auto simp: Let_def split: prod.splits)
  have q: "unat (drop_bit 31 x) = unat x div 2 ^ 31" by (simp add: unat_drop_bit_eq drop_bit_eq_div unat_div_distrib)
  then have q1: "unat (drop_bit 31 x) \<le> 1"
    using u32_lt [of x] by (simp add: div_less_iff_less_mult Suc_le_eq [symmetric])
  have IH: "num zs + B32 ^ length xs * unat c' = 2 * num xs + unat (drop_bit 31 x)" "length zs = length xs" "unat c' \<le> 1"
    using Cons.IH [OF q1 zs(1)] by auto
  have "push_bit 1 x AND c = 0"
  proof (rule bit_word_eqI)
    fix i
    have "unat c = 0 \<or> unat c = 1" using Cons.prems(1) by linarith
    then have "c = 0 \<or> c = 1" by (simp add: word_unat_eq_iff)
    then show "bit (push_bit 1 x AND c) i = bit 0 i" by (auto simp only: bit_simps) (simp_all add: bit_simps)
  qed
  then have "push_bit 1 x OR c = push_bit 1 x + c" by (rule disjunctive_add_eq_or [symmetric])
  moreover have "push_bit 1 x = 2 * x" by (simp add: push_bit_eq_mult)
  ultimately have "push_bit 1 x OR c = 2 * x + c" by (simp only:)
  moreover have "unat (2 * x + c) = (2 * unat x + unat c) mod B32" by (simp add: unat_word_ariths mod_simps)
  ultimately have lo: "unat (push_bit 1 x OR c) = (2 * unat x + unat c) mod B32" by (simp only:)
  have "(2 * unat x + unat c) div B32 = unat x div 2 ^ 31"
  proof -
    have "(2 * unat x + unat c) div 2 = unat x" using Cons.prems(1) by simp
    moreover have "(2 * unat x + unat c) div B32 = (2 * unat x + unat c) div 2 div 2 ^ 31"
      by (simp add: div_mult2_eq [symmetric])
    ultimately show ?thesis by simp
  qed
  then have "unat (push_bit 1 x OR c) + B32 * unat (drop_bit 31 x) = 2 * unat x + unat c"
    unfolding lo q by (metis mod_mult_div_eq)
  then show ?case using IH by (simp add: zs(2) algebra_simps)
qed auto

lemma double_mod_num:
  assumes "limbs_ok n" "limbs_ok x" "num x \<le> num n"
  shows "limbs_ok (double_mod n x)" "num (double_mod n x) \<le> num n" "num (double_mod n x) mod num n = (2 * num x) mod num n"
proof -
  obtain y c where y: "shift_left 0 x = (y, c)" by (cases "shift_left 0 x")
  have s: "num y + R * unat c = 2 * num x" "length y = LIMBS" "unat c \<le> 1"
    using shift_left_num [OF _ y] assms(2) by (auto simp: limbs_ok_def R_def)
  have l: "length n = LIMBS" using assms(1) by (simp add: limbs_ok_def)
  have nR: "num n < R" using num_bound [of n] l by (simp add: R_def)
  have d: "double_mod n x = (if c \<noteq> 0 \<or> geq y n then sub_in_place y n else y)" by (simp add: double_mod_def y)
  have "num (double_mod n x) + (if 2 * num x < num n then 0 else num n) = 2 * num x \<and> length (double_mod n x) = LIMBS"
  proof (cases "c = 0")
    case True
    then show ?thesis using d s l sub_in_place_num [of y n] by (auto simp: geq_num)
  next
    case False
    then have c: "unat c = 1" using s(3) by (metis One_nat_def le_Suc_eq le_zero_eq unat_eq_0)
    then have "num y < num n" using s(1) assms(3) nR by simp
    then have "num (sub_in_place y n) = num y + R - num n" using sub_in_place_num(3) [of y n] s(2) l by (simp add: R_def)
    then show ?thesis using d s l c False nR sub_in_place_num(1) [of y n] by auto
  qed
  then have r: "num (double_mod n x) + (if 2 * num x < num n then 0 else num n) = 2 * num x" "length (double_mod n x) = LIMBS"
    by auto
  show "limbs_ok (double_mod n x)" using r(2) by (simp add: limbs_ok_def)
  show "num (double_mod n x) \<le> num n" using r(1) assms(3) by (auto split: if_splits)
  show "num (double_mod n x) mod num n = (2 * num x) mod num n"
  proof (cases "2 * num x < num n")
    case False
    then have "2 * num x = num (double_mod n x) + num n" using r(1) by simp
    then show ?thesis by simp
  qed (use r(1) in simp)
qed

lemma doubled:
  assumes "limbs_ok n" "limbs_ok x" "num x \<le> num n"
  shows "limbs_ok ((double_mod n ^^ k) x) \<and> num ((double_mod n ^^ k) x) \<le> num n \<and>
    num ((double_mod n ^^ k) x) mod num n = (2 ^ k * num x) mod num n"
proof (induction k)
  case (Suc k)
  let ?y = "(double_mod n ^^ k) x"
  have "num (double_mod n ?y) mod num n = (2 * num ?y) mod num n"
    using double_mod_num(3) [OF assms(1), of ?y] Suc.IH by blast
  also have "\<dots> = (2 * (num ?y mod num n)) mod num n" by (simp only: mod_mult_right_eq)
  also have "\<dots> = (2 * ((2 ^ k * num x) mod num n)) mod num n" using Suc.IH by simp
  also have "\<dots> = (2 * (2 ^ k * num x)) mod num n" by (simp only: mod_mult_right_eq)
  also have "\<dots> = (2 ^ Suc k * num x) mod num n" by (simp add: mult.assoc)
  finally show ?case using double_mod_num(1,2) [OF assms(1), of ?y] Suc.IH by simp
qed (use assms in simp)

section \<open>Big-endian bytes\<close>

definition be_num :: "u8 list \<Rightarrow> nat" where
  "be_num bs = foldl (\<lambda>v b. 256 * v + unat b) 0 bs"

lemma be_num_from: "foldl (\<lambda>v b. 256 * v + unat b) k bs = k * 256 ^ length bs + be_num (bs :: u8 list)"
proof (induction bs arbitrary: k)
  case (Cons b bs)
  have "be_num (b # bs) = unat b * 256 ^ length bs + be_num bs" using Cons.IH [of "unat b"] by (simp add: be_num_def)
  then show ?case using Cons.IH [of "256 * k + unat b"] by (simp add: algebra_simps)
qed (simp add: be_num_def)

lemma be_num_append: "be_num (xs @ ys) = be_num xs * 256 ^ length ys + be_num ys"
  using be_num_from [of "be_num xs" ys] by (simp add: be_num_def)

lemma be_num_Cons: "be_num (b # bs) = unat b * 256 ^ length bs + be_num bs"
  using be_num_append [of "[b]" bs] by (simp add: be_num_def)

lemma be_num_bound: "be_num bs < 256 ^ length bs"
proof (induction bs rule: rev_induct)
  case (snoc b bs)
  have "be_num (bs @ [b]) < 256 * be_num bs + 256" using unsigned_less [of b] by (simp add: be_num_append be_num_def)
  also have "\<dots> \<le> 256 * 256 ^ length bs" using snoc.IH by simp
  finally show ?case by simp
qed (simp add: be_num_def)

lemma be_num_inj: "length xs = length ys \<Longrightarrow> be_num xs = be_num ys \<Longrightarrow> xs = ys"
proof (induction xs ys rule: list_induct2)
  case (Cons x xs y ys)
  let ?k = "256 ^ length xs :: nat"
  have b: "be_num xs < ?k" "be_num ys < ?k" using be_num_bound [of xs] be_num_bound [of ys] Cons.hyps by simp_all
  have e: "unat x * ?k + be_num xs = unat y * ?k + be_num ys" using Cons.prems Cons.hyps by (simp add: be_num_Cons)
  have "unat x = unat y"
    using arg_cong [OF e, of "\<lambda>v. v div ?k"] b by simp
  moreover from this e have "be_num xs = be_num ys" by simp
  ultimately show ?case using Cons.IH by (simp add: word_unat_eq_iff)
qed simp

lemma be_num_4: "be_num [a, b, c, d] = unat a * 2 ^ 24 + unat b * 2 ^ 16 + unat c * 2 ^ 8 + unat d"
  by (simp add: be_num_def)

definition word_bytes :: "u32 \<Rightarrow> u8 list" where
  "word_bytes x = [ucast (drop_bit 24 x), ucast (drop_bit 16 x), ucast (drop_bit 8 x), ucast x]"

lemma unat_byte: "unat (ucast (drop_bit k (x :: u32)) :: u8) = unat x div 2 ^ k mod 256"
proof -
  have "unat (ucast (drop_bit k x) :: u8) = unat (drop_bit k x) mod 2 ^ 8"
    by (simp only: unsigned_ucast_eq take_bit_eq_mod) simp
  then show ?thesis by (simp only: unat_drop_bit_eq) (simp add: drop_bit_eq_div)
qed

lemma be_num_word: "be_num (word_bytes x) = unat x"
proof -
  let ?n = "unat x"
  have d: "?n div 2 ^ 8 div 256 = ?n div 2 ^ 16" "?n div 2 ^ 16 div 256 = ?n div 2 ^ 24"
    by (simp_all add: div_mult2_eq [symmetric])
  have "?n div 2 ^ 24 < 256" using u32_lt [of x] by (simp add: div_less_iff_less_mult)
  then have t: "?n div 2 ^ 24 mod 256 = ?n div 2 ^ 24" by simp
  have "?n = ?n div 2 ^ 8 * 256 + ?n mod 256" by simp
  also have "?n div 2 ^ 8 = ?n div 2 ^ 16 * 256 + ?n div 2 ^ 8 mod 256" unfolding d(1) [symmetric] by simp
  also have "?n div 2 ^ 16 = ?n div 2 ^ 24 * 256 + ?n div 2 ^ 16 mod 256" unfolding d(2) [symmetric] by simp
  finally show ?thesis
    unfolding word_bytes_def be_num_4 unat_byte using t unat_byte [of 0 x] by (simp add: algebra_simps)
qed

lemma be32_word_num: "unat (be32_word a b c d) = be_num [a, b, c, d]"
proof -
  let ?v = "of_nat (be_num [a, b, c, d]) :: u32"
  have "be_num [a, b, c, d] < B32" using be_num_bound [of "[a, b, c, d]"] by simp
  then have v: "unat ?v = be_num [a, b, c, d]" by (simp add: unat_of_nat_u32)
  have "word_bytes ?v = [a, b, c, d]" by (rule be_num_inj) (simp add: word_bytes_def, simp add: be_num_word v)
  then have "be32_word a b c d = ?v" using be32_word_put [of ?v] by (simp add: word_bytes_def)
  then show ?thesis using v by simp
qed

lemma limbs_to_be_words: "limbs_to_be xs = concat (map word_bytes (rev xs))"
  by (simp add: limbs_to_be_def word_bytes_def [abs_def])

lemma limbs_to_be_num:
  shows "be_num (limbs_to_be xs) = num xs" and "length (limbs_to_be xs) = 4 * length xs"
proof -
  have l: "length (word_bytes x) = 4" for x by (simp add: word_bytes_def)
  show len: "length (limbs_to_be xs) = 4 * length xs" for xs
    unfolding limbs_to_be_words by (induction xs) (simp_all add: l)
  show "be_num (limbs_to_be xs) = num xs"
  proof (induction xs)
    case (Cons x xs)
    then show ?case by (simp add: limbs_to_be_words be_num_append be_num_word l)
  qed (simp add: limbs_to_be_words be_num_def)
qed

lemma nums_be_to_limbs:
  assumes "length be = 4 * k"
  shows "num (map (\<lambda>i. let p = (k - 1 - i) * 4 in be32_word (be ! p) (be ! (p + 1)) (be ! (p + 2)) (be ! (p + 3))) [0..<k])
    = be_num be"
  using assms
proof (induction k arbitrary: be)
  case (Suc k)
  let ?f = "\<lambda>k be i. let p = (k - 1 - i) * 4 in be32_word (be ! p) (be ! (p + 1)) (be ! (p + 2)) (be ! (p + 3))"
  obtain a b c d rest where be: "be = a # b # c # d # rest" and rest: "length rest = 4 * k"
    using Suc.prems by (auto simp: length_Suc_conv numeral_eq_Suc)
  have "map (?f (Suc k) be) [0..<k] = map (?f k rest) [0..<k]"
  proof (rule map_cong)
    fix i assume "i \<in> set [0..<k]"
    then have "(Suc k - 1 - i) * 4 = Suc (Suc (Suc (Suc ((k - 1 - i) * 4))))" by simp
    moreover have p3: "p + 3 = Suc (Suc (Suc p))" for p :: nat by simp
    ultimately show "?f (Suc k) be i = ?f k rest i" by (simp add: be Let_def p3 del: mult_Suc)
  qed simp
  moreover have "map (?f (Suc k) be) [0..<Suc k] = map (?f (Suc k) be) [0..<k] @ [?f (Suc k) be k]" by simp
  moreover have "?f (Suc k) be k = be32_word a b c d" by (simp add: be Let_def numeral_3_eq_3)
  ultimately have "num (map (?f (Suc k) be) [0..<Suc k]) = num (map (?f k rest) [0..<k]) + B32 ^ k * unat (be32_word a b c d)"
    by (simp only: num_append length_map length_upt num.simps mult_0_right add_0_right diff_zero)
  also have "\<dots> = be_num rest + 256 ^ length rest * be_num [a, b, c, d]"
  proof -
    have "(256 :: nat) ^ length rest = (256 ^ 4) ^ k" by (simp only: rest power_mult)
    then have "(256 :: nat) ^ length rest = B32 ^ k" by simp
    then show ?thesis using Suc.IH [OF rest] by (simp only: be32_word_num)
  qed
  also have "\<dots> = be_num ([a, b, c, d] @ rest)" unfolding be_num_append by simp
  finally show ?case by (simp only: be append.simps)
qed (simp add: be_num_def)

lemma be_to_limbs_num:
  assumes "length be = 256"
  shows "num (be_to_limbs be) = be_num be" and "limbs_ok (be_to_limbs be)"
  using nums_be_to_limbs [of be LIMBS] assms by (simp_all add: be_to_limbs_def LIMBS_def limbs_ok_def)

lemma odd_hd: "limbs_ok n \<Longrightarrow> odd (unat (hd n)) = odd (num n)"
  by (cases n) (auto simp: limbs_ok_def LIMBS_def)

lemma and_1_even: "(x AND 1 = 0) = even (unat (x :: u32))"
proof -
  have "(x AND 1 = 0) = (unat (x AND 1) = 0)" by (simp add: word_unat_eq_iff)
  also have "unat (x AND 1) = unat x AND 1" by (simp only: unsigned_and_eq unsigned_1)
  also have "\<dots> = unat x mod 2" by (rule and_one_eq)
  finally show ?thesis by (simp add: even_iff_mod_2_eq_zero)
qed

lemma num_one_limbs: "num one_limbs = 1" "limbs_ok one_limbs"
  by (simp_all add: one_limbs_def limbs_ok_def LIMBS_def)

section \<open>Montgomery form\<close>

lemma cancel_mod_le:
  assumes "coprime (r :: nat) n" "(r * x) mod n = (r * y) mod n" "x \<le> y"
  shows "x mod n = y mod n"
proof -
  have "n dvd r * y - r * x" using assms(2,3) mod_eq_dvd_iff_nat [of "r * x" "r * y" n] by simp
  then have "n dvd r * (y - x)" by (simp add: right_diff_distrib')
  then have "n dvd y - x" using assms(1) by (simp add: coprime_commute coprime_dvd_mult_right_iff)
  then show ?thesis using assms(3) mod_eq_dvd_iff_nat [of x y n] by simp
qed

lemma cancel_mod:
  assumes "coprime (r :: nat) n" "(r * x) mod n = (r * y) mod n"
  shows "x mod n = y mod n"
proof (cases "x \<le> y")
  case True
  then show ?thesis by (rule cancel_mod_le [OF assms])
next
  case False
  then show ?thesis using cancel_mod_le [OF assms(1) assms(2) [symmetric]] by simp
qed

lemma coprime_R: "odd n \<Longrightarrow> coprime R n"
  unfolding R_def by (intro coprime_power_left_iff [THEN iffD2] disjI1) simp

text \<open>The modulus, and the limbs that stand for \<open>x\<close> in Montgomery form.\<close>

definition modulus_ok :: "u32 list \<Rightarrow> bool" where
  "modulus_ok n \<longleftrightarrow> limbs_ok n \<and> odd (num n)"

definition mont_form :: "u32 list \<Rightarrow> u32 list \<Rightarrow> nat \<Rightarrow> bool" where
  "mont_form n a x \<longleftrightarrow> limbs_ok a \<and> num a = (R * x) mod num n"

lemma mont_mul_any:
  assumes "modulus_ok n" "limbs_ok a" "limbs_ok b" "num b \<le> num n" "(num a * num b) mod num n = (R * z) mod num n"
  shows "limbs_ok (mont_mul a b n (mont_n0inv (hd n)))" "num (mont_mul a b n (mont_n0inv (hd n))) = z mod num n"
proof -
  let ?c = "mont_mul a b n (mont_n0inv (hd n))"
  have n: "limbs_ok n" "odd (num n)" "0 < num n" using assms(1) by (auto simp: modulus_ok_def odd_pos)
  have m: "limbs_ok ?c" "num ?c < num n" "(R * num ?c) mod num n = (num a * num b) mod num n"
    using mont_mul_mod [OF assms(2,3) n(1) _ assms(4) n(3)] n(2) odd_hd [OF n(1)] by auto
  show "limbs_ok ?c" by (rule m(1))
  have "num ?c mod num n = z mod num n" 
  proof (rule cancel_mod [OF coprime_R [OF n(2)]])
    show "(R * num ?c) mod num n = (R * z) mod num n" using m(3) assms(5) by (simp only:)
  qed
  then show "num ?c = z mod num n" using m(2) by simp
qed

lemma mod_mult_forms: "x = u mod n \<Longrightarrow> y = v mod n \<Longrightarrow> (x * y) mod n = (u * v) mod (n :: nat)"
  by (simp only: mod_mult_eq)

lemma mont_form_mul:
  assumes "modulus_ok n" "mont_form n a x" "mont_form n b y"
  shows "mont_form n (mont_mul a b n (mont_n0inv (hd n))) (x * y)"
proof -
  have "(num a * num b) mod num n = (R * x) * (R * y) mod num n"
    using assms(2,3) by (intro mod_mult_forms) (simp_all only: mont_form_def)
  moreover have "(R * x) * (R * y) = R * (R * (x * y))" by (simp only: ac_simps)
  ultimately have e: "(num a * num b) mod num n = (R * (R * (x * y))) mod num n" by (simp only:)
  have "num b \<le> num n" using assms(1,3) by (auto simp: modulus_ok_def mont_form_def odd_pos less_imp_le)
  then show ?thesis
    using mont_mul_any [OF assms(1) _ _ _ e] assms(2,3) by (simp add: mont_form_def)
qed

lemma mont_form_squares:
  assumes "modulus_ok n" "mont_form n a x"
  shows "mont_form n (((\<lambda>a. mont_mul a a n (mont_n0inv (hd n))) ^^ k) a) (x ^ 2 ^ k)"
proof (induction k)
  case (Suc k)
  then show ?case using mont_form_mul [OF assms(1) Suc Suc] by (simp add: power_add [symmetric] mult_2)
qed (use assms in simp)

lemma rr_num:
  assumes "modulus_ok n"
  defines "rr \<equiv> (double_mod n ^^ (2 * LIMBS * 32)) one_limbs"
  shows "limbs_ok rr" "num rr \<le> num n" "num rr mod num n = (R * R) mod num n"
proof -
  have n: "limbs_ok n" "num one_limbs \<le> num n" using assms(1) by (auto simp: modulus_ok_def num_one_limbs Suc_le_eq odd_pos)
  have "R * R = 2 ^ (2 * LIMBS * 32)" unfolding R_def by (simp add: LIMBS_def power_mult [symmetric] power_add [symmetric] del: power_numeral)
  then show "limbs_ok rr" "num rr \<le> num n" "num rr mod num n = (R * R) mod num n"
    using doubled [OF n(1) num_one_limbs(2) n(2), of "2 * LIMBS * 32"] by (auto simp: rr_def num_one_limbs)
qed

lemma modexp_65537_num:
  assumes "length m = 256" "length s = 256"
  shows "modexp_65537 s m = None \<longleftrightarrow> even (be_num m) \<or> be_num m \<le> be_num s"
    and "modexp_65537 s m = Some r \<Longrightarrow> length r = 256 \<and> be_num r = be_num s ^ 65537 mod be_num m"
proof -
  let ?n = "be_to_limbs m" and ?s = "be_to_limbs s"
  note nm = be_to_limbs_num [OF assms(1)] and sm = be_to_limbs_num [OF assms(2)]
  have e: "(hd ?n AND 1 = 0) = even (be_num m)"
    using and_1_even [of "hd ?n"] odd_hd [OF nm(2)] nm(1) by simp
  have g: "geq ?s ?n = (be_num m \<le> be_num s)"
    using geq_num [of ?s ?n] nm sm by (simp add: limbs_ok_def)
  show none: "modexp_65537 s m = None \<longleftrightarrow> even (be_num m) \<or> be_num m \<le> be_num s"
    by (simp add: modexp_65537_def Let_def e g)
  assume r: "modexp_65537 s m = Some r"
  then have ok: "odd (be_num m)" "be_num s < be_num m" using none by auto
  then have mo: "modulus_ok ?n" using nm by (simp add: modulus_ok_def)
  define rr where "rr = (double_mod ?n ^^ (2 * LIMBS * 32)) one_limbs"
  define mul where "mul a b = mont_mul a b ?n (mont_n0inv (hd ?n))" for a b
  define sm where "sm = mul ?s rr"
  define a where "a = ((\<lambda>a. mul a a) ^^ 16) sm"
  define b where "b = mul a sm"
  have r': "r = limbs_to_be (mul b one_limbs)"
    using r ok e g by (simp add: modexp_65537_def Let_def rr_def mul_def sm_def a_def b_def)
  note q = rr_num [OF mo, folded rr_def]
  have "(num ?s * num rr) mod num ?n = (num ?s * (R * R)) mod num ?n"
    using q(3) by (metis mod_mult_right_eq)
  also have "num ?s * (R * R) = R * (R * be_num s)" using sm_def nm(1) be_to_limbs_num(1) [OF assms(2)] by simp
  finally have "limbs_ok sm \<and> num sm = (R * be_num s) mod num ?n"
    using mont_mul_any [OF mo be_to_limbs_num(2) [OF assms(2)] q(1,2)] by (simp add: sm_def mul_def)
  then have f: "mont_form ?n sm (be_num s)" by (simp add: mont_form_def)
  have "mont_form ?n a (be_num s ^ 2 ^ 16)" using mont_form_squares [OF mo f, of 16] by (simp only: a_def mul_def)
  then have "mont_form ?n b (be_num s ^ 2 ^ 16 * be_num s)" using mont_form_mul [OF mo _ f] by (simp only: b_def mul_def)
  moreover have "be_num s ^ 2 ^ 16 * be_num s = be_num s ^ 65537" unfolding power_Suc2 [symmetric] by simp
  ultimately have b: "mont_form ?n b (be_num s ^ 65537)" by (simp only:)
  then have "limbs_ok (mul b one_limbs) \<and> num (mul b one_limbs) = be_num s ^ 65537 mod num ?n"
    using mont_mul_any [OF mo _ num_one_limbs(2), of b "be_num s ^ 65537"] ok nm(1)
    by (auto simp: mont_form_def mul_def num_one_limbs Suc_le_eq odd_pos)
  then show "length r = 256 \<and> be_num r = be_num s ^ 65537 mod be_num m"
    by (simp add: r' limbs_to_be_num limbs_ok_def LIMBS_def nm(1))
qed

section \<open>The block\<close>

definition pkcs1_block :: "u8 list \<Rightarrow> u8 list" where
  "pkcs1_block sha256 = [0x00, 0x01] @ replicate 202 0xFF @ [0x00] @ SHA256_DER @ sha256"

lemma segment_differs:
  assumes "k + length ys \<le> length m"
  shows "list_ex (\<lambda>i. m ! (k + i) \<noteq> ys ! i) [0..<length ys] \<longleftrightarrow> take (length ys) (drop k m) \<noteq> ys"
proof -
  have "take (length ys) (drop k m) = ys \<longleftrightarrow> (\<forall>i < length ys. m ! (k + i) = ys ! i)"
    using assms by (simp add: list_eq_iff_nth_eq)
  then show ?thesis by (auto simp: list_ex_iff)
qed

lemma block_segments:
  assumes "length m = 256" "length h = 32"
  shows "m = pkcs1_block h \<longleftrightarrow> m ! 0 = 0x00 \<and> m ! 1 = 0x01 \<and> take 202 (drop 2 m) = replicate 202 0xFF \<and>
    m ! 204 = 0x00 \<and> take 19 (drop 205 m) = SHA256_DER \<and> take 32 (drop 224 m) = h"
proof
  assume "m = pkcs1_block h"
  then show "m ! 0 = 0x00 \<and> m ! 1 = 0x01 \<and> take 202 (drop 2 m) = replicate 202 0xFF \<and>
    m ! 204 = 0x00 \<and> take 19 (drop 205 m) = SHA256_DER \<and> take 32 (drop 224 m) = h"
    using assms(2) by (simp add: pkcs1_block_def nth_append SHA256_DER_def)
next
  assume a: "m ! 0 = 0x00 \<and> m ! 1 = 0x01 \<and> take 202 (drop 2 m) = replicate 202 0xFF \<and>
    m ! 204 = 0x00 \<and> take 19 (drop 205 m) = SHA256_DER \<and> take 32 (drop 224 m) = h"
  have seg: "drop k m = take j (drop k m) @ drop (j + k) m" for j k
    by (simp flip: drop_drop)
  have one: "take 1 (drop k m) = [m ! k]" if "k < 256" for k
    using that assms(1) by (simp add: take_Suc_conv_app_nth)
  have "m = take 1 (drop 0 m) @ take 1 (drop 1 m) @ take 202 (drop 2 m) @ take 1 (drop 204 m) @
      take 19 (drop 205 m) @ take 32 (drop 224 m) @ drop 256 m"
    using seg [of 0 1] seg [of 1 1] seg [of 2 202] seg [of 204 1] seg [of 205 19] seg [of 224 32]
    by (simp add: numeral_2_eq_2)
  then show "m = pkcs1_block h" using a assms(1) one [of 0] one [of 1] one [of 204] by (simp add: pkcs1_block_def)
qed

text \<open>
  C5: on a modulus, a signature and a digest of the right lengths, the verifier accepts exactly when
  the modulus is odd, the signature is below it, and its 65537th power modulo the modulus is the
  PKCS#1 v1.5 block of the digest.
\<close>

theorem rsa_verify_correct:
  assumes "length modulus = 256" "length sig = 256" "length hash = 32"
  shows "lp_rsa2048_verify modulus sig hash \<longleftrightarrow>
    odd (be_num modulus) \<and> be_num sig < be_num modulus \<and>
    be_num sig ^ 65537 mod be_num modulus = be_num (pkcs1_block hash)"
proof (cases "modexp_65537 sig modulus")
  case None
  then show ?thesis using modexp_65537_num(1) [OF assms(1,2)] by (auto simp: lp_rsa2048_verify_def)
next
  case (Some m)
  have m: "length m = 256" "be_num m = be_num sig ^ 65537 mod be_num modulus"
    using modexp_65537_num(2) [OF assms(1,2) Some] by auto
  have ok: "odd (be_num modulus) \<and> be_num sig < be_num modulus"
    using modexp_65537_num(1) [OF assms(1,2)] Some by auto
  have der: "length SHA256_DER = 19" and blk: "length (pkcs1_block hash) = 256"
    using assms(3) by (simp_all add: SHA256_DER_def pkcs1_block_def)
  have ff: "list_ex (\<lambda>i. m ! (2 + i) \<noteq> 0xFF) [0..<202] \<longleftrightarrow> take 202 (drop 2 m) \<noteq> replicate 202 0xFF"
  proof -
    have "list_ex (\<lambda>i. m ! (2 + i) \<noteq> 0xFF) [0..<202] =
        list_ex (\<lambda>i. m ! (2 + i) \<noteq> replicate 202 0xFF ! i) [0..<202]"
      by (auto simp: list_ex_iff)
    then show ?thesis using segment_differs [of 2 "replicate 202 0xFF" m] m(1) by simp
  qed
  have "lp_rsa2048_verify modulus sig hash \<longleftrightarrow> m = pkcs1_block hash"
    unfolding block_segments [OF m(1) assms(3)] lp_rsa2048_verify_def
    using Some ff segment_differs [of 205 SHA256_DER m] segment_differs [of 224 hash m] m(1) assms(3)
    by (auto simp: der RSA2048_BYTES_def Let_def)
  also have "\<dots> \<longleftrightarrow> be_num m = be_num (pkcs1_block hash)" using be_num_inj m(1) blk by auto
  finally show ?thesis using ok m(2) by simp
qed

text \<open>
  The witness is a degenerate key that accepts its own block: with \<open>b\<close> the number of the block and
  \<open>n = 3 (b + 1)\<close>, \<open>b\<close> is 1 modulo 3 and -1 modulo \<open>b + 1\<close>, so that its square is 1 modulo \<open>n\<close>.
\<close>

definition ex_hash :: "u8 list" where "ex_hash = replicate 31 0 @ [2]"

definition ex_modulus :: "u8 list" where
  "ex_modulus = [0, 5] @ replicate 201 255 @
     [253, 0, 144, 147, 144, 39, 18, 28, 33, 146, 216, 4, 47, 9, 12, 6, 3, 15, 0, 12, 96] @ replicate 31 0 @ [9]"

lemma power_odd_self:
  assumes "3 dvd b - 1" "1 < (b :: nat)"
  shows "b ^ (2 * k + 1) mod (3 * (b + 1)) = b"
proof -
  have "3 * (b + 1) dvd (b - 1) * (b + 1)" using assms(1) by (intro mult_dvd_mono) simp_all
  moreover have "(b - 1) * (b + 1) = b ^ 2 - 1 ^ 2"
    using assms(2) by (cases b) (simp_all add: power2_eq_square)
  ultimately have "b ^ 2 mod (3 * (b + 1)) = 1 mod (3 * (b + 1))"
    using mod_eq_dvd_iff_nat [of 1 "b ^ 2" "3 * (b + 1)"] assms(2) by simp
  then have "(b ^ 2) ^ k mod (3 * (b + 1)) = 1 ^ k mod (3 * (b + 1))" by (metis power_mod)
  also have "\<dots> = 1" using assms(2) by simp
  finally have "(b ^ 2) ^ k mod (3 * (b + 1)) = 1" .
  then have "b * (b ^ 2) ^ k mod (3 * (b + 1)) = b"
    using mod_mult_right_eq [of b "(b ^ 2) ^ k" "3 * (b + 1)"] by simp
  moreover have "b ^ (2 * k + 1) = b * (b ^ 2) ^ k" by (simp add: power_mult)
  ultimately show ?thesis by (simp only:)
qed

lemma be_num_0s: "be_num (replicate k 0) = 0"
  by (induction k) (simp_all add: be_num_Cons, simp add: be_num_def)

lemma be_num_ffs: "be_num (replicate k 255) + 1 = 256 ^ k"
  by (induction k) (simp_all add: be_num_Cons, simp add: be_num_def)

lemma power_256: "\<exists>q. (256 :: nat) ^ k = 3 * q + 1"
proof (induction k)
  case (Suc k)
  then obtain q where "(256 :: nat) ^ k = 3 * q + 1" by blast
  then have "(256 :: nat) ^ Suc k = 3 * (256 * q + 85) + 1" by simp
  then show ?case by blast
qed simp

lemma rsa_verify_correct_witness: "lp_rsa2048_verify ex_modulus (pkcs1_block ex_hash) ex_hash"
proof -
  let ?b = "be_num (pkcs1_block ex_hash)"
  have l: "length ex_modulus = 256" "length (pkcs1_block ex_hash) = 256" "length ex_hash = 32"
    by (simp_all add: ex_modulus_def pkcs1_block_def ex_hash_def SHA256_DER_def)
  obtain q where q: "(256 :: nat) ^ 201 = 3 * q + 1" using power_256 by blast
  define f where "f = be_num (replicate 201 255)"
  have f: "f = 3 * q" using be_num_ffs [of 201] unfolding q f_def by simp
  have c: "replicate 202 (255 :: u8) = 255 # replicate 201 255" by (simp only: flip: replicate_Suc) simp
  have g: "be_num (replicate 202 255) = 768 * q + 255"
    unfolding c be_num_Cons length_replicate q f_def [symmetric] f by simp
  have p: "(256 :: nat) ^ 202 = 768 * q + 256" using power_Suc [of "256 :: nat" 201] unfolding q by simp
  have t: "be_num ([0] @ SHA256_DER @ ex_hash) = 124444146214709122552328739093726183179322124300344415656942991615076382102714901819433105856484595423069462331708216967170" (is "_ = ?t")
    unfolding be_num_append ex_hash_def length_append length_replicate be_num_0s
    by (simp add: SHA256_DER_def be_num_def)
  have b: "?b = (1536 * q + 511) * 256 ^ 52 + ?t"
  proof -
    have "?b = be_num [0, 1] * 256 ^ (202 + 52) + (be_num (replicate 202 255) * 256 ^ 52 + be_num ([0] @ SHA256_DER @ ex_hash))"
      using l(3) unfolding pkcs1_block_def be_num_append [of "[0, 1]"] be_num_append [of "replicate 202 255"]
      by (simp add: SHA256_DER_def)
    also have "be_num [0, 1] = 1" by (simp add: be_num_def)
    finally show ?thesis unfolding power_add p g t by simp
  qed
  have u: "be_num ([253, 0, 144, 147, 144, 39, 18, 28, 33, 146, 216, 4, 47, 9, 12, 6, 3, 15, 0, 12, 96] @ replicate 31 0 @ [9])
      = 42815646319045465384285307656883795886155652472603467043875104001307559515939721391111313081077049022795056828823707995300954121" (is "be_num ?m = ?u")
    unfolding be_num_append length_append length_replicate be_num_0s by (simp add: be_num_def)
  have m: "be_num ex_modulus = (18 * q + 5) * 256 ^ 53 + ?u"
  proof -
    have "be_num ex_modulus = be_num [0, 5] * 256 ^ (201 + 53) + (f * 256 ^ 53 + be_num ?m)"
      unfolding ex_modulus_def f_def be_num_append [of "[0, 5]"] be_num_append [of "replicate 201 255"] by simp
    also have "be_num [0, 5] = 5" by (simp add: be_num_def)
    finally show ?thesis unfolding power_add q f u by simp
  qed
  have n: "be_num ex_modulus = 3 * (?b + 1)" unfolding m b by simp
  have "?b - 1 = 3 * (512 * q * 256 ^ 52 + 28825607352470458476538768421451356690791922109593237442118757915202761020917135910123257061995883729072638353909262449382173355)" unfolding b by simp
  then have d: "3 dvd ?b - 1" by (rule dvdI)
  have o: "odd (3 * (?b + 1))" unfolding b by simp
  have one: "1 < ?b" unfolding b by simp
  have "?b ^ 65537 mod (3 * (?b + 1)) = ?b" using power_odd_self [OF d one, of 32768] by simp
  then show ?thesis using rsa_verify_correct [OF l] n o by simp
qed

end
