(* ===== verification/LpStdio.thy ===== *)
theory LpStdio
  imports LpString "HOL-Library.Monad_Syntax"
begin

text \<open>
  Formatted output and line input of the C library (\<open>userland/libc/src/stdio.c\<close>): the sink that
  serves a descriptor or a buffer, the conversions, \<open>snprintf\<close> and \<open>printf\<close>, \<open>readline\<close>, and
  the pager.  \<open>None\<close> is an access outside an object or an operation C does not define.  What is
  written is the list of the calls of \<open>lp_write\<close>, each with its descriptor and its bytes.
\<close>

section \<open>The sink\<close>

record sink =
  sink_fd :: int
  sink_buf :: "u8 list option"
  sink_cap :: u64
  sink_len :: nat
  chunk :: "u8 list"
  writes :: "(int \<times> u8 list) list"

definition CHUNK :: nat where "CHUNK = 256"

definition sink_flush :: "sink \<Rightarrow> sink" where
  "sink_flush s =
     (if sink_fd s \<ge> 0 \<and> chunk s \<noteq> [] then s\<lparr>writes := writes s @ [(sink_fd s, chunk s)], chunk := []\<rparr> else s)"

definition sink_put :: "u8 \<Rightarrow> sink \<Rightarrow> sink option" where
  "sink_put c s =
     (let s = s\<lparr>sink_len := sink_len s + 1\<rparr> in
      if sink_fd s \<ge> 0 then
        (let s = s\<lparr>chunk := chunk s @ [c]\<rparr> in
         Some (if length (chunk s) = CHUNK then sink_flush s else s))
      else
        (case sink_buf s of None \<Rightarrow> Some s
         | Some b \<Rightarrow>
             if sink_len s \<le> unat (sink_cap s - 1)
             then map_option (\<lambda>b'. s\<lparr>sink_buf := Some b'\<rparr>) (buf_set b (sink_len s - 1) c)
             else Some s))"

fun put_all :: "(u8 \<Rightarrow> 's \<Rightarrow> 's option) \<Rightarrow> u8 list \<Rightarrow> 's \<Rightarrow> 's option" where
  "put_all put [] s = Some s"
| "put_all put (c # xs) s = put c s \<bind> put_all put xs"

section \<open>Numbers\<close>

definition digit_char :: "bool \<Rightarrow> u64 \<Rightarrow> u8" where
  "digit_char upper d = (if upper then cs ''0123456789ABCDEF'' else cs ''0123456789abcdef'') ! unat d"

text \<open>The digits from the lowest, with \<open>k\<close> places left in \<open>tmp\<close>.\<close>

fun digits_loop :: "bool \<Rightarrow> u64 \<Rightarrow> nat \<Rightarrow> u64 \<Rightarrow> u8 list" where
  "digits_loop upper base 0 v = []"
| "digits_loop upper base (Suc k) v =
     (if v \<noteq> 0 then digit_char upper (v mod base) # digits_loop upper base k (v div base) else [])"

definition fmt_uint :: "nat \<Rightarrow> u64 \<Rightarrow> u64 \<Rightarrow> bool \<Rightarrow> u8 list" where
  "fmt_uint capacity v base upper =
     (let tmp = (if v = 0 then [48] else digits_loop upper base 24 v) in take capacity (rev tmp))"

text \<open>The first \<open>n\<close> of the bytes are written; a blank is 32 and a zero 48.\<close>

definition emit_padded :: "sink \<Rightarrow> u8 option \<Rightarrow> u8 list \<Rightarrow> u32 \<Rightarrow> u32 \<Rightarrow> bool \<Rightarrow> u8 \<Rightarrow> sink option" where
  "emit_padded s sign bytes n width left pad =
     (let slen = (if sign \<noteq> None then 1 else 0);
          total = n + slen;
          fill = (if width > total then width - total else 0);
          put_sign = (\<lambda>s. case sign of None \<Rightarrow> Some s | Some c \<Rightarrow> sink_put c s);
          put_str = put_all sink_put (take (unat n) bytes)
      in if left then put_sign s \<bind> put_str \<bind> put_all sink_put (replicate (unat fill) 32)
         else
           (if pad = 48 then put_sign s else Some s)
             \<bind> put_all sink_put (replicate (unat fill) pad)
             \<bind> (\<lambda>s. if pad \<noteq> 48 then put_sign s else Some s)
             \<bind> put_str)"

definition emit_uint :: "sink \<Rightarrow> u64 \<Rightarrow> u64 \<Rightarrow> bool \<Rightarrow> u32 \<Rightarrow> bool \<Rightarrow> bool \<Rightarrow> sink option" where
  "emit_uint s v base upper width left zero_pad =
     (let text = fmt_uint 24 v base upper
      in emit_padded s None text (of_nat (length text)) width left (if zero_pad then 48 else 32))"

definition emit_int :: "sink \<Rightarrow> u64 \<Rightarrow> u32 \<Rightarrow> bool \<Rightarrow> bool \<Rightarrow> sink option" where
  "emit_int s v width left zero_pad =
     (let (sign, mag) = (if sint v < 0 then (Some 45, - (v + 1) + 1) else (None, v));
          text = fmt_uint 24 mag 10 False
      in emit_padded s sign text (of_nat (length text)) width left (if zero_pad then 48 else 32))"

section \<open>Formats\<close>

text \<open>
  The variable arguments: a number in its 64-bit slot, of which \<open>int\<close> is the low half, or a
  pointer to the bytes of an object, \<open>None\<close> for NULL.
\<close>

datatype arg = Num u64 | Str "u8 list option"

fun va_num :: "arg list \<Rightarrow> (u64 \<times> arg list) option" where
  "va_num (Num v # as) = Some (v, as)"
| "va_num _ = None"

fun va_str :: "arg list \<Rightarrow> (u8 list option \<times> arg list) option" where
  "va_str (Str p # as) = Some (p, as)"
| "va_str _ = None"

definition va_int :: "arg list \<Rightarrow> (int \<times> arg list) option" where
  "va_int as = map_option (\<lambda>(v, as). (sint (ucast v :: u32), as)) (va_num as)"

fun format_flags :: "bool \<Rightarrow> bool \<Rightarrow> cstring \<Rightarrow> bool \<times> bool \<times> cstring" where
  "format_flags left zero [] = (left, zero, [])"
| "format_flags left zero (c # fmt) =
     (if c = 45 then format_flags True zero fmt
      else if c = 48 then format_flags left True fmt
      else (left, zero, c # fmt))"

fun width_digits :: "u32 \<Rightarrow> cstring \<Rightarrow> u32 \<times> cstring" where
  "width_digits w [] = (w, [])"
| "width_digits w (c # fmt) =
     (if 48 \<le> c \<and> c \<le> 57 then width_digits (w * 10 + (ucast c - 48)) fmt else (w, c # fmt))"

definition format_width :: "bool \<Rightarrow> cstring \<Rightarrow> arg list \<Rightarrow> (bool \<times> u32 \<times> cstring \<times> arg list) option" where
  "format_width left fmt as =
     (if deref fmt = 42 then do {
        (w, as) \<leftarrow> va_int as;
        if w < 0 then
          (if w = - (2 ^ 31) then None else Some (True, word_of_int (- w), tl fmt, as))
        else Some (left, word_of_int w, tl fmt, as)
      }
      else (let (w, fmt) = width_digits 0 fmt in Some (left, w, fmt, as)))"

text \<open>\<open>precision\<close> is an \<open>int\<close>: a number that does not fit has no defined value.\<close>

fun precision_digits :: "int \<Rightarrow> cstring \<Rightarrow> (int \<times> cstring) option" where
  "precision_digits p [] = Some (p, [])"
| "precision_digits p (c # fmt) =
     (if 48 \<le> c \<and> c \<le> 57 then
        (let p' = p * 10 + (int (unat c) - 48) in if p' < 2 ^ 31 then precision_digits p' fmt else None)
      else Some (p, c # fmt))"

definition format_precision :: "cstring \<Rightarrow> arg list \<Rightarrow> (int \<times> cstring \<times> arg list) option" where
  "format_precision fmt as =
     (if deref fmt = 46 then
        (let fmt = tl fmt in
         if deref fmt = 42 then do {
           (p, as) \<leftarrow> va_int as;
           Some (if p < 0 then -1 else p, tl fmt, as)
         }
         else do {
           (p, fmt) \<leftarrow> precision_digits 0 fmt;
           Some (p, fmt, as)
         })
      else Some (-1, fmt, as))"

fun format_length :: "nat \<Rightarrow> cstring \<Rightarrow> nat \<times> cstring" where
  "format_length n [] = (n, [])"
| "format_length n (c # fmt) = (if c = 108 \<or> c = 122 then format_length (n + 1) fmt else (n, c # fmt))"

record fspec =
  left_align :: bool
  zero_pad :: bool
  fwidth :: u32
  precision :: int
  longness :: nat

definition format_spec :: "cstring \<Rightarrow> arg list \<Rightarrow> (fspec \<times> cstring \<times> arg list) option" where
  "format_spec fmt as =
     (let (left, zero, fmt) = format_flags False False fmt in do {
        (left, w, fmt, as) \<leftarrow> format_width left fmt as;
        (p, fmt, as) \<leftarrow> format_precision fmt as;
        let (n, fmt) = format_length 0 fmt;
        Some (\<lparr>left_align = left, zero_pad = zero, fwidth = w, precision = p, longness = n\<rparr>, fmt, as)
      })"

definition va_unsigned :: "nat \<Rightarrow> arg list \<Rightarrow> (u64 \<times> arg list) option" where
  "va_unsigned longs as = map_option (\<lambda>(v, as). (if longs \<noteq> 0 then v else ucast (ucast v :: u32), as)) (va_num as)"

definition va_signed :: "nat \<Rightarrow> arg list \<Rightarrow> (u64 \<times> arg list) option" where
  "va_signed longs as = map_option (\<lambda>(v, as). (if longs \<noteq> 0 then v else scast (ucast v :: u32), as)) (va_num as)"

text \<open>\<open>strlen\<close> of an object runs outside it when it holds no NUL.\<close>

definition strlen_in :: "u8 list \<Rightarrow> nat option" where
  "strlen_in p = (if 0 \<in> set p then Some (length (cstr_of p)) else None)"

definition put_string :: "fspec \<Rightarrow> u8 list option \<Rightarrow> sink \<Rightarrow> sink option" where
  "put_string sp p s =
     (let p = (case p of None \<Rightarrow> cs ''(null)'' @ [0] | Some p \<Rightarrow> p) in do {
        n \<leftarrow> strlen_in p;
        let n = (if precision sp \<ge> 0 then min (nat (precision sp)) n else n);
        emit_padded s None p (of_nat n) (fwidth sp) (left_align sp) 32
      })"

definition convert :: "fspec \<Rightarrow> u8 \<Rightarrow> arg list \<Rightarrow> sink \<Rightarrow> (sink \<times> arg list) option" where
  "convert sp c as s =
     (let unsigned = (\<lambda>base upper. do {
            (v, as) \<leftarrow> va_unsigned (longness sp) as;
            s \<leftarrow> emit_uint s v base upper (fwidth sp) (left_align sp) (zero_pad sp);
            Some (s, as)
          })
      in
      if c = 99 then do { (v, as) \<leftarrow> va_num as; s \<leftarrow> sink_put (ucast v) s; Some (s, as) }
      else if c = 115 then do { (p, as) \<leftarrow> va_str as; s \<leftarrow> put_string sp p s; Some (s, as) }
      else if c = 100 \<or> c = 105 then do {
        (v, as) \<leftarrow> va_signed (longness sp) as;
        s \<leftarrow> emit_int s v (fwidth sp) (left_align sp) (zero_pad sp);
        Some (s, as)
      }
      else if c = 117 then unsigned 10 False
      else if c = 111 then unsigned 8 False
      else if c = 120 then unsigned 16 False
      else if c = 88 then unsigned 16 True
      else if c = 112 then do {
        s \<leftarrow> sink_put 48 s;
        s \<leftarrow> sink_put 120 s;
        (v, as) \<leftarrow> va_num as;
        s \<leftarrow> emit_uint s v 16 False 16 False True;
        Some (s, as)
      }
      else if c = 37 then do { s \<leftarrow> sink_put 37 s; Some (s, as) }
      else do { s \<leftarrow> sink_put 37 s; s \<leftarrow> sink_put c s; Some (s, as) })"

lemma format_flags_shorter: "format_flags l z fmt = (l', z', fmt') \<Longrightarrow> length fmt' \<le> length fmt"
  by (induction l z fmt rule: format_flags.induct) (auto split: if_splits dest: le_SucI)

lemma width_digits_shorter: "width_digits w fmt = (w', fmt') \<Longrightarrow> length fmt' \<le> length fmt"
  by (induction w fmt rule: width_digits.induct) (auto split: if_splits)

lemma precision_digits_shorter: "precision_digits p fmt = Some (p', fmt') \<Longrightarrow> length fmt' \<le> length fmt"
  by (induction p fmt rule: precision_digits.induct) (auto simp: Let_def split: if_splits)

lemma format_length_shorter: "format_length n fmt = (n', fmt') \<Longrightarrow> length fmt' \<le> length fmt"
  by (induction n fmt rule: format_length.induct) (auto split: if_splits)

lemma format_width_shorter: "format_width l fmt as = Some (l', w, fmt', as') \<Longrightarrow> length fmt' \<le> length fmt"
  by (auto simp: format_width_def dest: width_digits_shorter split: if_splits prod.splits bind_splits)

lemma format_precision_shorter: "format_precision fmt as = Some (p, fmt', as') \<Longrightarrow> length fmt' \<le> length fmt"
  by (fastforce simp: format_precision_def Let_def dest: precision_digits_shorter split: if_splits prod.splits bind_splits)

lemma format_spec_shorter: "format_spec fmt as = Some (sp, fmt', as') \<Longrightarrow> length fmt' \<le> length fmt"
  by (fastforce simp: format_spec_def Let_def
      dest: format_flags_shorter format_width_shorter format_precision_shorter format_length_shorter
      split: prod.splits bind_splits)

text \<open>A format that ends inside a conversion returns.\<close>

function format :: "cstring \<Rightarrow> arg list \<Rightarrow> sink \<Rightarrow> sink option" where
  "format [] as s = Some s"
| "format (c # fmt) as s =
     (if c \<noteq> 37 then sink_put c s \<bind> format fmt as
      else
        (case format_spec fmt as of
           None \<Rightarrow> None
         | Some (sp, [], as) \<Rightarrow> Some s
         | Some (sp, c # fmt, as) \<Rightarrow>
             (case convert sp c as s of None \<Rightarrow> None | Some (s, as) \<Rightarrow> format fmt as s)))"
  by pat_completeness auto
termination by (relation "measure (\<lambda>(fmt, as, s). length fmt)") (auto dest!: format_spec_shorter)

definition run_fd :: "int \<Rightarrow> cstring \<Rightarrow> arg list \<Rightarrow> ((int \<times> u8 list) list \<times> u32) option" where
  "run_fd d fmt as = do {
     s \<leftarrow> format fmt as \<lparr>sink_fd = d, sink_buf = None, sink_cap = 0, sink_len = 0, chunk = [], writes = []\<rparr>;
     let s = sink_flush s;
     Some (writes s, of_nat (sink_len s))
   }"

definition STDOUT_FILENO :: int where "STDOUT_FILENO = 1"

definition printf :: "cstring \<Rightarrow> arg list \<Rightarrow> ((int \<times> u8 list) list \<times> u32) option" where
  "printf fmt as = run_fd STDOUT_FILENO fmt as"

definition dprintf :: "int \<Rightarrow> cstring \<Rightarrow> arg list \<Rightarrow> ((int \<times> u8 list) list \<times> u32) option" where
  "dprintf d fmt as = run_fd d fmt as"

definition snprintf :: "u8 list option \<Rightarrow> u64 \<Rightarrow> cstring \<Rightarrow> arg list \<Rightarrow> (u8 list option \<times> u32) option" where
  "snprintf b n fmt as = do {
     s \<leftarrow> format fmt as \<lparr>sink_fd = -1, sink_buf = b, sink_cap = n, sink_len = 0, chunk = [], writes = []\<rparr>;
     b \<leftarrow> (case sink_buf s of
            Some b \<Rightarrow>
              if n \<noteq> 0 then
                map_option Some (buf_set b (if sink_len s < unat (n - 1) then sink_len s else unat (n - 1)) 0)
              else Some (Some b)
          | None \<Rightarrow> Some None);
     Some (b, of_nat (sink_len s))
   }"

section \<open>Plain output\<close>

definition fputs :: "cstring \<Rightarrow> int \<Rightarrow> (int \<times> u8 list) list" where
  "fputs s d = [(d, take (strlen s) s)]"

definition puts :: "cstring \<Rightarrow> (int \<times> u8 list) list" where
  "puts s = fputs s STDOUT_FILENO @ [(STDOUT_FILENO, [10])]"

definition putchar :: "u32 \<Rightarrow> (int \<times> u8 list) list \<times> u32" where
  "putchar c = ([(STDOUT_FILENO, [ucast c])], c)"

section \<open>Line input\<close>

text \<open>What \<open>lp_read\<close> gives one byte at a time: a byte or an error number; at the end of the list, end of file.\<close>

datatype rd = Byte u8 | Failed int

fun readline_loop :: "rd list \<Rightarrow> u8 list \<Rightarrow> u64 \<Rightarrow> nat \<Rightarrow> (int \<times> u8 list \<times> rd list) option" where
  "readline_loop [] b sz n = Some (if n = 0 then -1 else int n, b, [])"
| "readline_loop (Failed e # inp) b sz n = Some (e, b, inp)"
| "readline_loop (Byte c # inp) b sz n =
     (if c = 10 then
        (case buf_set b n 0 of None \<Rightarrow> None | Some b \<Rightarrow> Some (int n, b, inp))
      else if c = 0x7F \<or> c = 8 then readline_loop inp b sz (if n \<noteq> 0 then utf8_prev b n else n)
      else if n < unat (sz - 1) then
        (case buf_set b n c of None \<Rightarrow> None | Some b \<Rightarrow> readline_loop inp b sz (n + 1))
      else readline_loop inp b sz n)"

definition readline :: "rd list \<Rightarrow> u8 list \<Rightarrow> u64 \<Rightarrow> (int \<times> u8 list \<times> rd list) option" where
  "readline inp b sz = readline_loop inp b sz 0"

section \<open>Paged output\<close>

record pager =
  page_rows :: int
  page_shown :: int
  page_tty :: int
  page_own_tty :: bool

text \<open>
  What the terminal sees.  The size of the terminal, the descriptor of \<open>/dev/tty\<close>, whether the raw
  mode could be set and the key come from outside.
\<close>

datatype page_event = Line cstring | Prompt | Restore | Wipe | Close int

definition page_begin :: "(int \<times> int) option \<Rightarrow> int \<Rightarrow> pager" where
  "page_begin term_size tty =
     (let p = \<lparr>page_rows = 0, page_shown = 0, page_tty = -1, page_own_tty = False\<rparr> in
      case term_size of None \<Rightarrow> p
      | Some (rows, cols) \<Rightarrow>
          if rows < 4 then p
          else (let p = (if tty \<ge> 0 then p\<lparr>page_tty := tty, page_own_tty := True\<rparr> else p\<lparr>page_tty := 0\<rparr>)
                in p\<lparr>page_rows := rows\<rparr>))"

definition page_wait :: "bool \<Rightarrow> u8 option \<Rightarrow> pager \<Rightarrow> bool \<times> pager \<times> page_event list" where
  "page_wait raw key p =
     (let out = Prompt # (if raw then [Restore] else []) @ [Wipe] in
      case key of None \<Rightarrow> (False, p, out)
      | Some c \<Rightarrow>
          if c = 113 \<or> c = 81 \<or> c = 3 then (False, p, out)
          else if c = 13 \<or> c = 10 then (True, p\<lparr>page_shown := page_rows p - 2\<rparr>, out)
          else (True, p\<lparr>page_shown := 0\<rparr>, out))"

definition page_line :: "bool \<Rightarrow> u8 option \<Rightarrow> cstring \<Rightarrow> pager \<Rightarrow> bool \<times> pager \<times> page_event list" where
  "page_line raw key line p =
     (if page_rows p = 0 then (True, p, [Line line])
      else
        (let p = p\<lparr>page_shown := page_shown p + 1\<rparr> in
         if page_shown p \<ge> page_rows p - 1 then
           (let (more, p, out) = page_wait raw key p in (more, p, Line line # out))
         else (True, p, [Line line])))"

definition page_end :: "pager \<Rightarrow> pager \<times> page_event list" where
  "page_end p =
     (p\<lparr>page_rows := 0, page_tty := -1, page_own_tty := False\<rparr>,
      if page_own_tty p \<and> page_tty p \<ge> 0 then [Close (page_tty p)] else [])"

end
