(* ===== verification/StdioText.thy ===== *)
theory StdioText
  imports LpStdio
begin

text \<open>
  What formatted output comes to: every format stands for a text, the bytes it produces whatever
  the sink.  A locale states what a sink promises, and the three uses of the sink (a descriptor, a
  buffer, no buffer) are its interpretations; \<open>printf\<close> and \<open>snprintf\<close> follow.  Then the round
  trip of numbers through \<open>strtol\<close>, line editing in \<open>readline\<close>, and the pager.
\<close>

section \<open>The text of a format\<close>

definition padded_text :: "u8 option \<Rightarrow> u8 list \<Rightarrow> u32 \<Rightarrow> u32 \<Rightarrow> bool \<Rightarrow> u8 \<Rightarrow> u8 list" where
  "padded_text sign bytes n width left pad =
     (let body = take (unat n) bytes;
          sg = (case sign of None \<Rightarrow> [] | Some c \<Rightarrow> [c]);
          fill = unat (width - min width (n + of_nat (length sg)))
      in if left then sg @ body @ replicate fill 32
         else if pad = 48 then sg @ replicate fill 48 @ body
         else replicate fill pad @ sg @ body)"

definition uint_text :: "u64 \<Rightarrow> u64 \<Rightarrow> bool \<Rightarrow> u32 \<Rightarrow> bool \<Rightarrow> bool \<Rightarrow> u8 list" where
  "uint_text v base upper width left zero =
     padded_text None (fmt_uint 24 v base upper) (of_nat (length (fmt_uint 24 v base upper))) width left
       (if zero then 48 else 32)"

definition int_text :: "u64 \<Rightarrow> u32 \<Rightarrow> bool \<Rightarrow> bool \<Rightarrow> u8 list" where
  "int_text v width left zero =
     (let digits = fmt_uint 24 (if sint v < 0 then - v else v) 10 False
      in padded_text (if sint v < 0 then Some 45 else None) digits (of_nat (length digits)) width left
           (if zero then 48 else 32))"

definition string_text :: "fspec \<Rightarrow> u8 list option \<Rightarrow> u8 list option" where
  "string_text sp p =
     (let p = (case p of None \<Rightarrow> cs ''(null)'' @ [0] | Some p \<Rightarrow> p) in
      map_option (\<lambda>n. padded_text None p
        (of_nat (if precision sp \<ge> 0 then min (nat (precision sp)) n else n)) (fwidth sp) (left_align sp) 32)
        (strlen_in p))"

definition convert_text :: "fspec \<Rightarrow> u8 \<Rightarrow> arg list \<Rightarrow> (u8 list \<times> arg list) option" where
  "convert_text sp c as =
     (let unsigned = (\<lambda>base upper. map_option (\<lambda>(v, as).
            (uint_text v base upper (fwidth sp) (left_align sp) (zero_pad sp), as)) (va_unsigned (longness sp) as))
      in
      if c = 99 then map_option (\<lambda>(v, as). ([ucast v], as)) (va_num as)
      else if c = 115 then va_str as \<bind> (\<lambda>(p, as). map_option (\<lambda>t. (t, as)) (string_text sp p))
      else if c = 100 \<or> c = 105 then
        map_option (\<lambda>(v, as). (int_text v (fwidth sp) (left_align sp) (zero_pad sp), as)) (va_signed (longness sp) as)
      else if c = 117 then unsigned 10 False
      else if c = 111 then unsigned 8 False
      else if c = 120 then unsigned 16 False
      else if c = 88 then unsigned 16 True
      else if c = 112 then map_option (\<lambda>(v, as). (48 # 120 # uint_text v 16 False 16 False True, as)) (va_num as)
      else if c = 37 then Some ([37], as)
      else Some ([37, c], as))"

function format_text :: "cstring \<Rightarrow> arg list \<Rightarrow> u8 list option" where
  "format_text [] as = Some []"
| "format_text (c # fmt) as =
     (if c \<noteq> 37 then map_option (\<lambda>t. c # t) (format_text fmt as)
      else
        (case format_spec fmt as of
           None \<Rightarrow> None
         | Some (sp, [], as) \<Rightarrow> Some []
         | Some (sp, c # fmt, as) \<Rightarrow>
             (case convert_text sp c as of None \<Rightarrow> None
              | Some (t, as) \<Rightarrow> map_option (\<lambda>t'. t @ t') (format_text fmt as))))"
  by pat_completeness auto
termination by (relation "measure (\<lambda>(fmt, as). length fmt)") (auto dest!: format_spec_shorter)

declare format_text.simps(2) [simp del] format.simps(2) [simp del]

lemma put_all_append: "put_all put (xs @ ys) s = put_all put xs s \<bind> put_all put ys"
  by (induction xs arbitrary: s) (auto split: bind_splits)

lemma put_all_single: "put_all put [c] s = put c s"
  by (cases "put c s") auto

lemma emit_padded_text: "emit_padded s sign bytes n width left pad = put_all sink_put (padded_text sign bytes n width left pad) s"
proof -
  have fill: "(if width > n + k then width - (n + k) else 0) = width - min width (n + k)" for k
    by (cases "n + k < width") (auto simp: min_def not_less)
  show ?thesis
    by (cases sign) (auto simp: emit_padded_def padded_text_def fill put_all_append put_all_single Let_def split: bind_splits)
qed

lemma emit_uint_text: "emit_uint s v base upper w left zero = put_all sink_put (uint_text v base upper w left zero) s"
  by (simp add: emit_uint_def uint_text_def emit_padded_text Let_def)

lemma emit_int_text: "emit_int s v w left zero = put_all sink_put (int_text v w left zero) s"
  by (simp add: emit_int_def int_text_def emit_padded_text Let_def)

lemma put_string_text: "put_string sp p s = string_text sp p \<bind> (\<lambda>t. put_all sink_put t s)"
  by (cases "strlen_in (case p of None \<Rightarrow> cs ''(null)'' @ [0] | Some p \<Rightarrow> p)")
    (simp_all add: put_string_def string_text_def emit_padded_text Let_def)

lemma if_bind: "Option.bind (if P then x else y) f = (if P then Option.bind x f else Option.bind y f)"
  by simp

lemma bind_Some_map: "Option.bind x (\<lambda>s. Some (f s)) = map_option f x"
  by (cases x) auto

lemma map_bind: "Option.bind (map_option f x) g = Option.bind x (\<lambda>y. g (f y))"
  by (cases x) auto

lemma put_all_Nil: "put_all put [] = Some"
  by (rule ext) simp

lemma bind_None: "Option.bind x (\<lambda>_. None) = None"
  by (cases x) auto

lemmas bind_norm = bind_Some_map map_bind map_option_bind case_prod_beta' map_option.compositionality comp_def
  put_all_Nil Option.bind_runit Option.bind_assoc

lemma convert_convert_text:
  "convert sp c as s = convert_text sp c as \<bind> (\<lambda>(t, as). map_option (\<lambda>s. (s, as)) (put_all sink_put t s))"
  unfolding convert_def convert_text_def Let_def if_bind
  by (intro if_cong refl) (simp_all add: emit_uint_text emit_int_text put_string_text bind_norm,
    cases "va_num as", simp_all add: bind_None case_prod_beta')

lemma format_format_text: "format fmt as s = format_text fmt as \<bind> (\<lambda>t. put_all sink_put t s)"
proof (induction "length fmt" arbitrary: fmt as s rule: less_induct)
  case less
  show ?case
  proof (cases fmt)
    case (Cons c fmt')
    show ?thesis
    proof (cases "c = 37")
      case False
      then show ?thesis using less [of fmt'] by (cases "format_text fmt' as") (auto simp: Cons format.simps(2) format_text.simps(2) split: bind_splits)
    next
      case True
      show ?thesis
      proof (cases "format_spec fmt' as")
        case None
        then show ?thesis by (simp add: Cons True format.simps(2) format_text.simps(2))
      next
        case (Some r)
        obtain sp f as' where r: "r = (sp, f, as')" by (cases r)
        have l: "length f \<le> length fmt'" using Some r format_spec_shorter by simp
        show ?thesis
        proof (cases f)
          case Nil
          then show ?thesis by (simp add: Cons True format.simps(2) format_text.simps(2) Some r)
        next
          case (Cons d f')
          have IH: "format f' as s = format_text f' as \<bind> (\<lambda>t. put_all sink_put t s)" for as s
            using less [of f'] l Cons \<open>fmt = c # fmt'\<close> by simp
          have "format fmt as s = (case convert sp d as' s of None \<Rightarrow> None | Some (s, as) \<Rightarrow> format f' as s)"
            by (simp add: \<open>fmt = c # fmt'\<close> True format.simps(2) Some r Cons)
          moreover have "format_text fmt as = (case convert_text sp d as' of None \<Rightarrow> None
              | Some (t, as) \<Rightarrow> map_option (\<lambda>t'. t @ t') (format_text f' as))"
            by (simp add: \<open>fmt = c # fmt'\<close> True format_text.simps(2) Some r Cons)
          ultimately have e: "format fmt as s = (case convert sp d as' s of None \<Rightarrow> None | Some (s, as) \<Rightarrow> format f' as s)"
            "format_text fmt as = (case convert_text sp d as' of None \<Rightarrow> None
              | Some (t, as) \<Rightarrow> map_option (\<lambda>t'. t @ t') (format_text f' as))" .
          show ?thesis
          proof (cases "convert_text sp d as'")
            case (Some q)
            obtain t as'' where "q = (t, as'')" by (cases q)
            then show ?thesis using e Some
              by (cases "put_all sink_put t s"; cases "format_text f' as''") (simp_all add: convert_convert_text IH put_all_append)
          qed (use e in \<open>simp add: convert_convert_text\<close>)
        qed
      qed
    qed
  qed simp
qed

section \<open>Sinks\<close>

text \<open>
  What a sink promises: taking a byte when it stands for the bytes \<open>out\<close>, it goes on to stand for
  them and the new one.
\<close>

locale byte_sink =
  fixes put :: "u8 \<Rightarrow> 's \<Rightarrow> 's option"
    and stands :: "'s \<Rightarrow> u8 list \<Rightarrow> bool"
  assumes put_stands: "stands s out \<Longrightarrow> \<exists>s'. put c s = Some s' \<and> stands s' (out @ [c])"
begin

lemma put_all_stands: "stands s out \<Longrightarrow> \<exists>s'. put_all put t s = Some s' \<and> stands s' (out @ t)"
proof (induction t arbitrary: s out)
  case (Cons c t)
  obtain s1 where "put c s = Some s1" "stands s1 (out @ [c])" using put_stands [OF Cons.prems] by blast
  then show ?case using Cons.IH [of s1 "out @ [c]"] by auto
qed auto

end

text \<open>A descriptor: full chunks are written, the rest waits.\<close>

definition fd_stands :: "int \<Rightarrow> sink \<Rightarrow> u8 list \<Rightarrow> bool" where
  "fd_stands d s out \<longleftrightarrow> 0 \<le> d \<and> sink_fd s = d \<and> sink_len s = length out \<and> length (chunk s) < CHUNK \<and>
     list_all (\<lambda>w. fst w = d \<and> length (snd w) = CHUNK) (writes s) \<and> concat (map snd (writes s)) @ chunk s = out"

interpretation fd_sink: byte_sink sink_put "fd_stands d" for d
proof (unfold_locales)
  fix s out c
  assume "fd_stands d s out"
  then show "\<exists>s'. sink_put c s = Some s' \<and> fd_stands d s' (out @ [c])"
    by (auto simp: fd_stands_def sink_put_def sink_flush_def Let_def)
qed

text \<open>A buffer of \<open>n\<close> bytes, one of them kept for the NUL.\<close>

definition buf_stands :: "u8 list \<Rightarrow> u64 \<Rightarrow> sink \<Rightarrow> u8 list \<Rightarrow> bool" where
  "buf_stands b n s out \<longleftrightarrow> n \<noteq> 0 \<and> unat n \<le> length b \<and> sink_fd s < 0 \<and> sink_cap s = n \<and> sink_len s = length out \<and>
     sink_buf s = Some (take (unat n - 1) out @ drop (min (length out) (unat n - 1)) b)"

lemma unat_minus_1: "n \<noteq> 0 \<Longrightarrow> unat (n - 1 :: u64) = unat n - 1"
  by (simp add: unat_minus_one)

interpretation buf_sink: byte_sink sink_put "buf_stands b n" for b n
proof (unfold_locales)
  fix s out c
  assume a: "buf_stands b n s out"
  then have n: "0 < unat n" "unat (n - 1) = unat n - 1" by (auto simp: buf_stands_def unat_gt_0 unat_minus_1)
  show "\<exists>s'. sink_put c s = Some s' \<and> buf_stands b n s' (out @ [c])"
  proof (cases "length out < unat n - 1")
    case True
    then have "length out < length b" using a unfolding buf_stands_def by linarith
    then have "buf_set (out @ drop (length out) b) (length out) c = Some ((out @ [c]) @ drop (Suc (length out)) b)"
      using a by (simp add: buf_stands_def buf_set_def list_update_append drop_eq_Cons_nth)
    then show ?thesis using a n True by (auto simp: buf_stands_def sink_put_def Let_def)
  next
    case False
    then show ?thesis using a n by (auto simp: buf_stands_def sink_put_def Let_def)
  qed
qed

text \<open>No buffer: the bytes are only counted.\<close>

definition null_stands :: "sink \<Rightarrow> u8 list \<Rightarrow> bool" where
  "null_stands s out \<longleftrightarrow> sink_fd s < 0 \<and> sink_buf s = None \<and> sink_len s = length out"

interpretation null_sink: byte_sink sink_put null_stands
  by (unfold_locales) (auto simp: null_stands_def sink_put_def Let_def)

section \<open>printf and snprintf\<close>

lemma snprintf_text:
  assumes "format_text fmt as = Some t" "n \<noteq> 0" "unat n \<le> length b"
  shows "snprintf (Some b) n fmt as =
    Some (Some (take (unat n - 1) t @ [0] @ drop (min (length t) (unat n - 1) + 1) b), of_nat (length t))"
proof -
  let ?m = "min (length t) (unat n - 1)"
  define s0 where "s0 = \<lparr>sink_fd = -1, sink_buf = Some b, sink_cap = n, sink_len = 0, chunk = [], writes = []\<rparr>"
  have "buf_stands b n s0 []" using assms by (simp add: buf_stands_def s0_def)
  then obtain s where s: "put_all sink_put t s0 = Some s" "buf_stands b n s t"
    using buf_sink.put_all_stands [of b n s0 "[]" t] by auto
  have f: "format fmt as s0 = Some s" using assms(1) s(1) by (simp add: format_format_text)
  have n: "unat (n - 1) = unat n - 1" "0 < unat n" using assms(2) by (simp_all add: unat_minus_1 unat_gt_0)
  then have m: "(if sink_len s < unat (n - 1) then sink_len s else unat (n - 1)) = ?m" "?m < length b"
    using s(2) assms(3) by (auto simp: buf_stands_def)
  have "buf_set (take (unat n - 1) t @ drop ?m b) ?m 0 = Some (take (unat n - 1) t @ [0] @ drop (?m + 1) b)"
  proof -
    have "length (take (unat n - 1) t) = ?m" by simp
    moreover have "drop ?m b = b ! ?m # drop (?m + 1) b" using m(2) by (simp add: drop_eq_Cons_nth)
    ultimately show ?thesis using m(2) by (simp add: buf_set_def list_update_append del: length_take)
  qed
  then show ?thesis
    using f s(2) assms(2) m(1) unfolding snprintf_def s0_def [symmetric] by (simp add: buf_stands_def)
qed

lemma run_fd_text:
  assumes "format_text fmt as = Some t" "0 \<le> d"
  shows "\<exists>ws. run_fd d fmt as = Some (ws, of_nat (length t)) \<and> concat (map snd ws) = t \<and>
    list_all (\<lambda>w. fst w = d \<and> snd w \<noteq> [] \<and> length (snd w) \<le> CHUNK) ws"
proof -
  define s0 where "s0 = \<lparr>sink_fd = d, sink_buf = None, sink_cap = 0, sink_len = 0, chunk = [], writes = []\<rparr>"
  have "fd_stands d s0 []" using assms by (simp add: fd_stands_def s0_def CHUNK_def)
  then obtain s where s: "put_all sink_put t s0 = Some s" "fd_stands d s t"
    using fd_sink.put_all_stands [of d s0 "[]" t] by auto
  have "format fmt as s0 = Some s" using assms(1) s(1) by (simp add: format_format_text)
  then have r: "run_fd d fmt as = Some (writes (sink_flush s), of_nat (length t))"
    using s(2) unfolding run_fd_def s0_def [symmetric] by (simp add: fd_stands_def sink_flush_def Let_def)
  have "concat (map snd (writes (sink_flush s))) = t" using s(2) by (auto simp: fd_stands_def sink_flush_def)
  moreover have "list_all (\<lambda>w. fst w = d \<and> snd w \<noteq> [] \<and> length (snd w) \<le> CHUNK) (writes (sink_flush s))"
    using s(2) by (auto simp: fd_stands_def sink_flush_def CHUNK_def list_all_iff)
  ultimately show ?thesis using r by blast
qed

lemma format_undefined: "format_text fmt as = None \<Longrightarrow> run_fd d fmt as = None \<and> snprintf b n fmt as = None"
  by (simp add: run_fd_def snprintf_def format_format_text)

section \<open>Numbers\<close>

lemma digit_tables:
  "cs ''0123456789ABCDEF'' = [48, 49, 50, 51, 52, 53, 54, 55, 56, 57, 65, 66, 67, 68, 69, 70]"
  "cs ''0123456789abcdef'' = [48, 49, 50, 51, 52, 53, 54, 55, 56, 57, 97, 98, 99, 100, 101, 102]"
  by (simp_all add: cs_def)

lemma digit_chars: "list_all (\<lambda>n. strtol_digit (digit_char upper (of_nat n)) = Some n \<and>
    (n \<noteq> 0 \<longrightarrow> digit_char upper (of_nat n) \<notin> {0, 9, 10, 32, 43, 45, 48})) [0..<16]"
proof -
  have u: "[0..<16] = [0, 1, 2, 3, 4, 5, 6, 7, 8, 9, 10, 11, 12, 13, 14, 15]" by (simp add: upt_rec)
  show ?thesis unfolding u by (cases upper) (simp_all add: digit_char_def digit_tables strtol_digit_def)
qed

lemma digit_char_value:
  assumes "unat d < 16"
  shows "strtol_digit (digit_char upper d) = Some (unat d)"
    and "d \<noteq> 0 \<Longrightarrow> digit_char upper d \<notin> {0, 9, 10, 32, 43, 45, 48}"
proof -
  have "strtol_digit (digit_char upper (of_nat (unat d))) = Some (unat d) \<and>
    (unat d \<noteq> 0 \<longrightarrow> digit_char upper (of_nat (unat d)) \<notin> {0, 9, 10, 32, 43, 45, 48})"
    using digit_chars [of upper] assms unfolding list_all_iff by (metis atLeastLessThan_iff set_upt zero_le)
  then show "strtol_digit (digit_char upper d) = Some (unat d)"
    "d \<noteq> 0 \<Longrightarrow> digit_char upper d \<notin> {0, 9, 10, 32, 43, 45, 48}"
    by (simp_all add: word_unat_eq_iff)
qed

lemma unat_mod_base: "unat (v mod base) = unat v mod unat (base :: u64)" "unat (v div base) = unat v div unat base"
  by (simp_all add: unat_mod unat_div)

lemma strtol_digits:
  assumes "2 \<le> unat base" "unat base \<le> 16"
  shows "unat v < unat base ^ k \<Longrightarrow> unat v < 2 ^ 63 \<Longrightarrow>
    strtol_loop (unat base) 0 (rev (digits_loop upper base k v) @ s) = strtol_loop (unat base) (int (unat v)) s"
proof (induction k arbitrary: v s)
  case (Suc k)
  show ?case
  proof (cases "v = 0")
    case False
    let ?q = "v div base" and ?d = "v mod base"
    have b: "0 < unat base" using assms(1) by simp
    have d2: "unat ?d < unat base" using b by (simp add: unat_mod_base)
    then have d: "unat ?d < 16" "unat ?d < unat base" using assms(2) by simp_all
    have q: "unat ?q < unat base ^ k" "unat ?q < 2 ^ 63"
      using Suc.prems b by (simp_all add: unat_mod_base div_less_iff_less_mult mult.commute le_less_trans [OF div_le_dividend])
    have e: "uint ?q * uint base + uint ?d = uint v"
      by (simp only: uint_div uint_mod div_mult_mod_eq)
    have "int (unat v) < int (2 ^ 63)" using Suc.prems(2) by (simp only: of_nat_less_iff)
    then have lt: "uint v < 2 ^ 63" by simp
    have "strtol_loop (unat base) 0 (rev (digits_loop upper base (Suc k) v) @ s)
        = strtol_loop (unat base) (int (unat ?q)) (digit_char upper ?d # s)"
      using False Suc.IH [OF q] by simp
    also have "\<dots> = strtol_loop (unat base) (int (unat v)) s"
      using d lt by (simp add: digit_char_value e)
    finally show ?thesis .
  qed simp
qed simp

lemma strtol_loop_end: "strtol_loop base val [] = Some (val, [])"
  by simp

lemma fmt_uint_digits:
  assumes "base = 8 \<or> base = 10 \<or> base = 16"
  shows "v \<noteq> 0 \<Longrightarrow> fmt_uint 24 v base upper = rev (digits_loop upper base 24 v)"
    and "2 \<le> unat base \<and> unat base \<le> 16 \<and> unat v < unat base ^ 24"
proof -
  have l: "length (digits_loop upper base k v) \<le> k" for k v
    by (induction upper base k v rule: digits_loop.induct) auto
  show "v \<noteq> 0 \<Longrightarrow> fmt_uint 24 v base upper = rev (digits_loop upper base 24 v)"
    using l [of 24 v] by (simp add: fmt_uint_def)
  have "unat v < 2 ^ 64" using unsigned_less [of v] by simp
  then show "2 \<le> unat base \<and> unat base \<le> 16 \<and> unat v < unat base ^ 24" using assms by auto
qed

text \<open>The first digit is not a sign, a blank or a zero.\<close>

lemma digits_first:
  assumes "2 \<le> unat base" "unat base \<le> 16"
  shows "v \<noteq> 0 \<Longrightarrow> unat v < unat base ^ k \<Longrightarrow>
    \<exists>d rest. rev (digits_loop upper base k v) = digit_char upper d # rest \<and> d \<noteq> 0 \<and> unat d < 16"
proof (induction k arbitrary: v)
  case (Suc k)
  have b: "0 < unat base" using assms(1) by simp
  let ?q = "v div base"
  show ?case
  proof (cases "?q = 0")
    case True
    then have "v mod base = v" using mult_div_mod_eq [of base v] by simp
    moreover have "unat v < 16"
    proof -
      have "unat (v mod base) < unat base" using b by (simp add: unat_mod_base)
      then show ?thesis using \<open>v mod base = v\<close> assms(2) by simp
    qed
    ultimately show ?thesis using Suc.prems(1) True by (cases k) auto
  next
    case False
    have "unat ?q < unat base ^ k" using Suc.prems(2) b by (simp add: unat_mod_base div_less_iff_less_mult mult.commute)
    from Suc.IH [OF False this] show ?thesis using Suc.prems(1) by auto
  qed
qed (simp add: word_unat_eq_iff)

lemma strtol_fmt_uint:
  assumes "base = 8 \<or> base = 10 \<or> base = 16" "unat v < 2 ^ 63"
  shows "strtol (fmt_uint 24 v base upper) (unat base) = Some (uint v, [])"
    and "strtol (45 # fmt_uint 24 v base upper) (unat base) = Some (- uint v, [])"
proof -
  have ub: "unat base \<in> {8, 10, 16}" using assms(1) by auto
  have "strtol (fmt_uint 24 v base upper) (unat base) = Some (uint v, []) \<and>
    strtol (45 # fmt_uint 24 v base upper) (unat base) = Some (- uint v, [])"
  proof (cases "v = 0")
    case True
    then show ?thesis using ub by (auto simp: fmt_uint_def strtol_def strtol_digit_def)
  next
    case False
    note b = fmt_uint_digits(2) [OF assms(1), of v]
    obtain d rest where d: "rev (digits_loop upper base 24 v) = digit_char upper d # rest" "d \<noteq> 0" "unat d < 16"
      using digits_first [of base v 24 upper] False b by blast
    note c = digit_char_value(2) [OF d(3,2), of upper]
    have t: "fmt_uint 24 v base upper = digit_char upper d # rest" using fmt_uint_digits(1) [OF assms(1) False] d(1) by simp
    have l: "strtol_loop (unat base) 0 (digit_char upper d # rest) = Some (int (unat v), [])"
      using strtol_digits [of base v 24 upper "[]"] b assms(2) d(1) by (simp only: append_Nil2 strtol_loop_end)
    show ?thesis unfolding t using c ub l by (auto simp del: strtol_loop.simps simp: strtol_def Let_def)
  qed
  then show "strtol (fmt_uint 24 v base upper) (unat base) = Some (uint v, [])"
    "strtol (45 # fmt_uint 24 v base upper) (unat base) = Some (- uint v, [])" by auto
qed

lemma digits_loop_length: "unat v < unat base ^ k \<Longrightarrow> 0 < unat base \<Longrightarrow> length (digits_loop upper base j v) \<le> k"
proof (induction upper base j v arbitrary: k rule: digits_loop.induct)
  case (2 upper base j v)
  show ?case
  proof (cases "v = 0 \<or> k = 0")
    case True
    then show ?thesis using 2(2) by (auto simp: word_unat_eq_iff)
  next
    case False
    then obtain k' where k: "k = Suc k'" by (cases k) auto
    have "unat (v div base) < unat base ^ k'"
      using 2(2,3) k by (simp add: unat_mod_base div_less_iff_less_mult mult.commute)
    then show ?thesis using 2(1) [of k'] 2(3) False k by auto
  qed
qed simp

lemma digits_loop_chars:
  assumes "0 < unat base" "unat base \<le> 16"
  shows "0 \<notin> set (digits_loop upper base j v)"
proof (induction j arbitrary: v)
  case (Suc j)
  have "unat (v mod base) < 16"
    using assms(2) mod_less_divisor [OF assms(1), of "unat v"] unfolding unat_mod_base by linarith
  then have "digit_char upper (v mod base) \<noteq> 0"
    using digit_char_value [of "v mod base" upper] by (auto simp: strtol_digit_def)
  then show ?case using Suc by simp
qed simp

section \<open>Reading back what was printed\<close>

lemma neg_word: "sint (v :: u64) < 0 \<Longrightarrow> uint (- v) = - sint v"
proof -
  assume a: "sint v < 0"
  have r: "- (2 ^ 63) \<le> sint v" using sint_ge [of v] by simp
  have "- v = word_of_int (- sint v)" by simp
  then have "uint (- v) = (- sint v) mod 2 ^ 64" using uint_word_of_int [where 'a = 64, of "- sint v"] by simp
  then show ?thesis using a r by simp
qed

lemma nonneg_word: "0 \<le> sint (v :: u64) \<Longrightarrow> uint v = sint v"
proof -
  assume a: "0 \<le> sint v"
  have r: "sint v < 2 ^ 63" using sint_less [of v] by simp
  have "uint v = sint v mod 2 ^ 64" using uint_word_of_int [where 'a = 64, of "sint v"] by simp
  then show ?thesis using a r by simp
qed

lemma int_text_plain:
  "int_text v 0 False False = (if sint v < 0 then 45 # fmt_uint 24 (- v) 10 False else fmt_uint 24 v 10 False)"
proof -
  have "length (fmt_uint 24 w 10 False) < 2 ^ 32" for w by (simp add: fmt_uint_def Let_def)
  then have "unat (of_nat (length (fmt_uint 24 w 10 False)) :: u32) = length (fmt_uint 24 w 10 False)" for w
    by (simp add: unat_of_nat_u32)
  then show ?thesis by (simp add: int_text_def padded_text_def Let_def)
qed

lemma format_ld: "format_text (cs ''%ld'') [Num v] = Some (int_text v 0 False False)"
  by (simp add: cs_def format_text.simps(2) format_spec_def format_width_def format_precision_def convert_text_def va_signed_def Let_def)

lemma fmt_uint_10:
  assumes "unat v < 2 ^ 63"
  shows "length (fmt_uint 24 v 10 False) \<le> 19" and "0 \<notin> set (fmt_uint 24 v 10 False)"
proof -
  have "unat v < unat (10 :: u64) ^ 19" using assms by simp
  then show "length (fmt_uint 24 v 10 False) \<le> 19"
    using digits_loop_length [of v 10 19 False 24] by (simp add: fmt_uint_def)
  show "0 \<notin> set (fmt_uint 24 v 10 False)"
    using digits_loop_chars [of 10 False 24 v] by (auto simp: fmt_uint_def dest: in_set_takeD)
qed

text \<open>
  \<open>snprintf\<close> of a format that stands for a text never writes outside its buffer, however long
  the text: it stores as much of the text as fits, a NUL after it, leaves the rest of the buffer
  alone, and returns the length of the whole text; a format that stands for no text (a missing
  argument, a string without NUL, a precision that overflows) is undefined whatever the sink.
\<close>

theorem snprintf_bounded:
  assumes "n \<noteq> 0" "unat n \<le> length b"
  shows "snprintf (Some b) n fmt as =
    map_option (\<lambda>t. (Some (take (unat n - 1) t @ [0] @ drop (min (length t) (unat n - 1) + 1) b), of_nat (length t)))
      (format_text fmt as)"
proof (cases "format_text fmt as")
  case None
  then show ?thesis using format_undefined by simp
next
  case (Some t)
  then show ?thesis using snprintf_text [OF Some assms] by simp
qed

lemma plain_format: "37 \<notin> set fmt \<Longrightarrow> format_text fmt as = Some fmt"
  by (induction fmt) (auto simp: format_text.simps(2))

lemma snprintf_bounded_witness: "snprintf (Some [1, 2]) 2 [111, 107] [] = Some (Some [111, 0], 2)"
  using snprintf_bounded [of 2 "[1, 2]" "[111, 107]" "[]"] by (simp add: plain_format)

text \<open>
  C37: \<open>dprintf\<close> writes the text of its format to its descriptor, in order, in non-empty chunks of
  at most 256 bytes, and returns its length.
\<close>

theorem dprintf_writes_text:
  assumes "format_text fmt as = Some t" "0 \<le> d"
  shows "\<exists>ws. dprintf d fmt as = Some (ws, of_nat (length t)) \<and> concat (map snd ws) = t \<and>
    list_all (\<lambda>w. fst w = d \<and> snd w \<noteq> [] \<and> length (snd w) \<le> CHUNK) ws"
proof -
  have "dprintf d fmt as = run_fd d fmt as" by (simp add: dprintf_def)
  then show ?thesis using run_fd_text [OF assms] by simp
qed

lemma dprintf_writes_text_witness:
  "\<exists>ws. dprintf 1 (cs ''ok'') [] = Some (ws, 2) \<and> concat (map snd ws) = cs ''ok''"
proof -
  have "format_text (cs ''ok'') [] = Some (cs ''ok'')" by (simp add: cs_def plain_format)
  from dprintf_writes_text [OF this, of 1] show ?thesis by (auto simp: cs_def)
qed

text \<open>
  C38: a \<open>long\<close> printed with \<open>%ld\<close> into a buffer of 21 bytes or more is read back by \<open>strtol\<close>, except
  the least one, whose magnitude \<open>strtol\<close> cannot hold.
\<close>

theorem decimal_roundtrip:
  assumes "sint v \<noteq> - (2 ^ 63)" "21 \<le> unat n" "unat n \<le> length b"
  shows "\<exists>b' k. snprintf (Some b) n (cs ''%ld'') [Num v] = Some (Some b', k) \<and> strtol (cstr_of b') 10 = Some (sint v, [])"
proof -
  let ?t = "int_text v 0 False False" and ?w = "if sint v < 0 then - v else v"
  have n0: "n \<noteq> 0" using assms(2) by auto
  have u: "uint ?w = \<bar>sint v\<bar>" using neg_word [of v] nonneg_word [of v] by auto
  have "\<bar>sint v\<bar> < 2 ^ 63" using assms(1) sint_ge [of v] sint_less [of v] by auto
  then have "uint ?w < 2 ^ 63" using u by simp
  then have "int (unat ?w) < int (2 ^ 63)" by simp
  then have w: "unat ?w < 2 ^ 63" by (simp only: of_nat_less_iff)
  have t: "?t = (if sint v < 0 then 45 # fmt_uint 24 ?w 10 False else fmt_uint 24 ?w 10 False)" by (simp add: int_text_plain)
  have len: "length ?t \<le> 20" and nz: "0 \<notin> set ?t" using fmt_uint_10 [OF w] t by (auto split: if_splits)
  have r: "strtol ?t 10 = Some (sint v, [])"
    using strtol_fmt_uint [of 10 ?w False] w u t by (auto split: if_splits)
  have "take (unat n - 1) ?t = ?t" using len assms(2) by simp
  then have "snprintf (Some b) n (cs ''%ld'') [Num v] = Some (Some (?t @ 0 # drop (min (length ?t) (unat n - 1) + 1) b), of_nat (length ?t))"
    using snprintf_text [OF format_ld n0 assms(3)] by simp
  moreover have "cstr_of (?t @ 0 # r) = ?t" for r using nz by (simp add: cstr_of_append_0 is_cstr_def)
  ultimately show ?thesis using r by auto
qed

lemma decimal_roundtrip_witness:
  "\<exists>b' k. snprintf (Some (replicate 32 0)) 32 (cs ''%ld'') [Num (- 5)] = Some (Some b', k) \<and> strtol (cstr_of b') 10 = Some (-5, [])"
  using decimal_roundtrip [of "- 5" 32 "replicate 32 0"] by simp

section \<open>Where the code departs from its contract\<close>

text \<open>A size of 0 with a buffer: the limit \<open>cap - 1\<close> wraps around and the bytes are written.\<close>

lemma snprintf_size_0_writes: "snprintf (Some [1]) 0 (cs ''x'') [] = Some (Some [120], 1)"
proof -
  have "unat (- 1 :: u64) = 2 ^ 64 - 1" by (simp add: unsigned_minus_1_eq_mask mask_eq_exp_minus_1)
  then show ?thesis by (simp add: snprintf_def cs_def format.simps(2) sink_put_def buf_set_def Let_def)
qed

text \<open>A precision does not keep \<open>%s\<close> from reading on to a NUL.\<close>

lemma precision_reads_past: "snprintf (Some [0, 0]) 2 (cs ''%.1s'') [Str (Some [97])] = None"
  by (simp add: format_undefined cs_def format_text.simps(2) format_spec_def format_width_def format_precision_def
      convert_text_def string_text_def strlen_in_def Let_def)

text \<open>A line ended by end of file is not terminated by a NUL.\<close>

lemma readline_eof_unterminated: "readline [Byte 97] [1, 2, 3] 3 = Some (1, [97, 2, 3], [])"
  by (simp add: readline_def buf_set_def)

end
