(* ===== verification/StdioLine.thy ===== *)
theory StdioLine
  imports LpStdio
begin

text \<open>
  Line input and the pager: \<open>readline\<close> stays within its buffer and edits by characters; the pager
  stops before a screenful has scrolled away.
\<close>

section \<open>readline\<close>

lemma utf8_prev_le: "utf8_prev b n \<le> n"
proof -
  have "utf8_prev_loop b i left \<le> i" for i left
    by (induction b i left rule: utf8_prev_loop.induct) auto
  then show ?thesis by (auto simp: utf8_prev_def intro: le_trans [of _ "n - 1"])
qed

definition in_line :: "u64 \<Rightarrow> rd list \<Rightarrow> u8 list \<Rightarrow> int \<times> u8 list \<times> rd list \<Rightarrow> bool" where
  "in_line sz inp b q \<longleftrightarrow> (case q of (r, b', rest) \<Rightarrow>
     length b' = length b \<and> drop (unat sz) b' = drop (unat sz) b \<and> suffix rest inp \<and>
     (-1 \<le> r \<and> nat r < unat sz \<or> Failed r \<in> set inp))"

lemma in_line_later:
  "in_line sz inp b' q \<Longrightarrow> length b' = length b \<Longrightarrow> drop (unat sz) b' = drop (unat sz) b \<Longrightarrow> in_line sz (x # inp) b q"
  by (auto simp: in_line_def suffix_Cons)

lemma buf_set_in:
  "n < unat sz \<Longrightarrow> unat sz \<le> length b \<Longrightarrow>
    buf_set b n c = Some (b[n := c]) \<and> drop (unat sz) (b[n := c]) = drop (unat sz) b"
  by (simp add: buf_set_def drop_update_cancel)

lemma readline_loop_total:
  "sz \<noteq> 0 \<Longrightarrow> unat sz \<le> length b \<Longrightarrow> n < unat sz \<Longrightarrow> \<exists>q. readline_loop inp b sz n = Some q \<and> in_line sz inp b q"
proof (induction inp b sz n rule: readline_loop.induct)
  case (1 b sz n)
  then show ?case by (auto simp: in_line_def)
next
  case (2 e inp b sz n)
  then show ?case by (auto simp: in_line_def suffix_Cons)
next
  case (3 c inp b sz n)
  note set = buf_set_in [OF 3(6,5)]
  have prev: "(if n \<noteq> 0 then utf8_prev b n else n) < unat sz" using 3(6) utf8_prev_le [of b n] by auto
  consider "c = 10" | "c \<noteq> 10" "c = 0x7F \<or> c = 8" | "c \<noteq> 10" "\<not> (c = 0x7F \<or> c = 8)" "n < unat (sz - 1)"
    | "c \<noteq> 10" "\<not> (c = 0x7F \<or> c = 8)" "\<not> n < unat (sz - 1)" by blast
  then show ?case
  proof cases
    case 1
    then show ?thesis using set 3(5,6) by (auto simp: in_line_def suffix_ConsI)
  next
    case 2
    from 3(1) [OF 2 3(4,5) prev] 2 show ?thesis by (auto intro: in_line_later)
  next
    case *: 3
    then have n1: "n + 1 < unat sz" using unat_minus_one [OF 3(4)] by (simp only: less_diff_conv)
    have "unat sz \<le> length (b[n := c])" using 3(5) by simp
    from 3(2) [OF * conjunct1 [OF set] 3(4) this n1] obtain q where q: "readline_loop inp (b[n := c]) sz (n + 1) = Some q" "in_line sz inp (b[n := c]) q" by blast
    have "in_line sz (Byte c # inp) b q" by (rule in_line_later [OF q(2)]) (use set [of c] in simp_all)
    then show ?thesis using q(1) * set [of c] by simp
  next
    case 4
    from 3(3) [OF 4 3(4,5,6)] 4 show ?thesis by (auto intro: in_line_later)
  qed
qed

text \<open>What is typed: characters, and presses of the erase key.\<close>

datatype key = Typed u32 | Erase

fun edited :: "u32 list \<Rightarrow> key list \<Rightarrow> u32 list" where
  "edited t [] = t"
| "edited t (Typed cp # ks) = edited (t @ [cp]) ks"
| "edited t (Erase # ks) = edited (butlast t) ks"

fun key_bytes :: "key \<Rightarrow> u8 list" where
  "key_bytes (Typed cp) = utf8_encode cp"
| "key_bytes Erase = [0x7F]"

definition utf8 :: "u32 list \<Rightarrow> u8 list" where
  "utf8 cps = concat (map utf8_encode cps)"

definition typeable :: "key \<Rightarrow> bool" where
  "typeable k \<longleftrightarrow> (case k of Typed cp \<Rightarrow> cp < 0x200000 \<and> cp \<notin> {8, 10, 127} | Erase \<Rightarrow> True)"

text \<open>Bytes that are only stored.\<close>

lemma readline_store:
  assumes "sz \<noteq> 0"
  shows "list_all (\<lambda>c. c \<notin> {8, 10, 127}) bs \<Longrightarrow> unat sz \<le> length b \<Longrightarrow> n + length bs < unat sz \<Longrightarrow>
    readline_loop (map Byte bs @ inp) b sz n = readline_loop inp (take n b @ bs @ drop (n + length bs) b) sz (n + length bs)"
proof (induction bs arbitrary: b n)
  case (Cons c bs)
  have n: "n < unat (sz - 1)" "n < length b" using Cons.prems(2,3) unat_minus_one [of sz] assms by simp_all
  have "take (Suc n) (b[n := c]) = take n b @ [c]" using n(2) by (simp add: take_Suc_conv_app_nth)
  then show ?case
    using Cons.IH [of "b[n := c]" "n + 1"] Cons.prems n by (simp add: buf_set_def drop_update_cancel)
qed simp

lemma encode_bytes:
  assumes "cp < 0x200000" "cp \<notin> {8, 10, 127}"
  shows "list_all (\<lambda>c. c \<notin> {8, 10, 127}) (utf8_encode cp)"
proof (cases "cp < 0x80")
  case True
  then have u: "unat cp < 128" by (simp add: word_less_nat_alt)
  have "unat (ucast cp :: u8) = unat cp" using u by (simp add: unsigned_ucast_eq take_bit_nat_eq_self)
  then have "(ucast cp :: u8) \<notin> {8, 10, 127}" using assms(2) by (auto simp: word_unat_eq_iff)
  then show ?thesis using True by (simp add: utf8_encode_def)
next
  case False
  obtain lead conts where e: "utf8_encode cp = lead # conts" "\<not> utf8_is_cont lead"
    "utf8_seq_len lead = Suc (length conts)" "list_all utf8_is_cont conts" "length conts \<le> 3"
    using utf8_encode_shape [OF assms(1)] .
  have "conts \<noteq> []" using e(1) False by (auto simp: utf8_encode_def split: if_splits)
  then have "\<not> lead < 0x80" using e(3) by (auto simp: utf8_seq_len_def)
  moreover have "c \<notin> {8, 10, 127}" if "utf8_is_cont c" for c
    using that by (auto simp: utf8_is_cont_def)
  ultimately show ?thesis using e(1,4) by (auto simp: list_all_iff)
qed

lemma utf8_append: "utf8 (xs @ ys) = utf8 xs @ utf8 ys"
  by (simp add: utf8_def)

lemma readline_loop_edits:
  assumes "sz \<noteq> 0"
  shows "list_all typeable ks \<Longrightarrow> list_all (\<lambda>cp. cp < 0x200000) t \<Longrightarrow> unat sz \<le> length b \<Longrightarrow>
    take (length (utf8 t)) b = utf8 t \<Longrightarrow>
    length (utf8 t) + length (concat (map key_bytes ks)) < unat sz \<Longrightarrow>
    \<exists>b'. readline_loop (map Byte (concat (map key_bytes ks)) @ Byte 10 # inp) b sz (length (utf8 t)) =
      Some (int (length (utf8 (edited t ks))), b', inp) \<and> cstr_of b' = cstr_of (utf8 (edited t ks) @ [0])"
proof (induction ks arbitrary: t b)
  case Nil
  let ?L = "utf8 t"
  have "length ?L < length b" using Nil.prems by simp
  then have "b[length ?L := 0] = ?L @ 0 # drop (Suc (length ?L)) b"
    using Nil.prems(4) by (metis upd_conv_take_nth_drop)
  moreover have "cstr_of (?L @ 0 # r) = cstr_of (?L @ [0])" for r
    by (auto simp: cstr_of_def takeWhile_append)
  ultimately show ?case using \<open>length ?L < length b\<close> by (simp add: buf_set_def)
next
  case (Cons k ks)
  show ?case
  proof (cases k)
    case (Typed cp)
    have cp: "cp < 0x200000" "cp \<notin> {8, 10, 127}" using Cons.prems(1) Typed by (auto simp: typeable_def)
    let ?e = "utf8_encode cp" and ?n = "length (utf8 t)"
    let ?b = "take ?n b @ ?e @ drop (?n + length ?e) b"
    have u: "utf8 (t @ [cp]) = utf8 t @ ?e" by (simp add: utf8_def)
    have "readline_loop (map Byte (concat (map key_bytes (k # ks))) @ Byte 10 # inp) b sz ?n =
        readline_loop (map Byte (concat (map key_bytes ks)) @ Byte 10 # inp) ?b sz (length (utf8 (t @ [cp])))"
      using readline_store [OF assms encode_bytes [OF cp] Cons.prems(3), of ?n "map Byte (concat (map key_bytes ks)) @ Byte 10 # inp"]
        Cons.prems(5) Typed u by simp
    moreover have "take (length (utf8 (t @ [cp]))) ?b = utf8 (t @ [cp])" using Cons.prems(4) u by simp
    ultimately show ?thesis
      using Cons.IH [of "t @ [cp]" ?b] Cons.prems Typed cp u by simp
  next
    case Erase
    have erased: "(if length (utf8 t) \<noteq> 0 then utf8_prev b (length (utf8 t)) else length (utf8 t)) = length (utf8 (butlast t))"
    proof (cases t rule: rev_cases)
      case (snoc t' cp)
      have "cp < 0x200000" using Cons.prems(2) snoc by simp
      moreover have "b = utf8 t' @ utf8_encode cp @ drop (length (utf8 t)) b"
        using Cons.prems(4) snoc by (metis append_take_drop_id append.assoc utf8_append utf8_def concat.simps list.map append_Nil2)
      ultimately have "utf8_prev b (length (utf8 t') + length (utf8_encode cp)) = length (utf8 t')" by (rule utf8_step_back(2))
      moreover have "length (utf8_encode cp) \<noteq> 0" by (simp add: utf8_encode_def)
      ultimately show ?thesis using snoc by (simp add: utf8_append) (simp add: utf8_def)
    qed (simp add: utf8_def)
    have "take (length (utf8 (butlast t))) b = utf8 (butlast t)"
    proof (cases t rule: rev_cases)
      case (snoc t' cp)
      then show ?thesis using arg_cong [OF Cons.prems(4), of "take (length (utf8 t'))"] by (simp add: utf8_append min_def)
    qed (simp add: utf8_def)
    moreover have "length (utf8 (butlast t)) \<le> length (utf8 t)" by (cases t rule: rev_cases) (simp_all add: utf8_append)
    ultimately show ?thesis
      using Cons.IH [of "butlast t" b] Cons.prems erased Erase by (simp add: list_all_iff) (metis in_set_butlastD)
  qed
qed

text \<open>
  Whatever comes in, end of file and errors included, \<open>readline\<close> writes only within the first
  \<open>size\<close> bytes of its buffer, and returns a length below \<open>size\<close>, -1, or the error of a read.
\<close>

theorem readline_bounded:
  assumes "sz \<noteq> 0" "unat sz \<le> length b"
  shows "\<exists>r b' rest. readline inp b sz = Some (r, b', rest) \<and> length b' = length b \<and>
    drop (unat sz) b' = drop (unat sz) b \<and> suffix rest inp \<and>
    (-1 \<le> r \<and> nat r < unat sz \<or> Failed r \<in> set inp)"
proof -
  have "0 < unat sz" using assms(1) by (simp add: unat_gt_0)
  then obtain q where "readline inp b sz = Some q" "in_line sz inp b q"
    using readline_loop_total [OF assms, of 0 inp] by (auto simp: readline_def)
  then show ?thesis by (cases q) (auto simp: in_line_def)
qed

lemma readline_bounded_witness:
  "\<exists>r b' rest. readline [Byte 97, Failed (-5)] [1, 2] 2 = Some (r, b', rest) \<and> length b' = 2"
  using readline_bounded [of 2 "[1, 2]" "[Byte 97, Failed (-5)]"] by auto

text \<open>
  C39: characters typed and erased, ended by a newline, give the line the terminal shows: each press
  of the erase key takes the whole UTF-8 sequence of the last character, and nothing on an empty line.
\<close>

theorem readline_edits_characters:
  assumes "sz \<noteq> 0" "unat sz \<le> length b" "list_all typeable ks" "length (concat (map key_bytes ks)) < unat sz"
  shows "\<exists>b'. readline (map Byte (concat (map key_bytes ks)) @ Byte 10 # inp) b sz =
      Some (int (length (utf8 (edited [] ks))), b', inp) \<and> cstr_of b' = cstr_of (utf8 (edited [] ks) @ [0])"
proof -
  have "utf8 [] = []" by (simp add: utf8_def)
  then show ?thesis using readline_loop_edits [OF assms(1,3), of "[]" b inp] assms by (simp add: readline_def)
qed

text \<open>The Korean syllable U+D55C, three bytes, erased by one press.\<close>

lemma readline_edits_characters_witness:
  "\<exists>b'. readline (map Byte (utf8_encode 0xD55C @ [0x7F, 97]) @ [Byte 10]) (replicate 8 0) 8 = Some (1, b', []) \<and>
    cstr_of b' = [97]"
proof -
  have e: "utf8_encode 97 = [97]" "length (utf8_encode 0xD55C) = 3" by (simp_all add: utf8_encode_def)
  then show ?thesis
    using readline_edits_characters [of 8 "replicate 8 0" "[Typed 0xD55C, Erase, Typed 97]" "[]"]
    by (simp add: typeable_def utf8_def cstr_of_def)
qed

section \<open>The pager\<close>

text \<open>Lines go to the pager until it says stop; each may meet a key.\<close>

fun page_lines :: "(bool \<times> u8 option \<times> cstring) list \<Rightarrow> pager \<Rightarrow> page_event list" where
  "page_lines [] p = []"
| "page_lines ((raw, key, line) # ls) p =
     (let (more, p', out) = page_line raw key line p in out @ (if more then page_lines ls p' else []))"

definition is_line :: "page_event \<Rightarrow> bool" where
  "is_line e \<longleftrightarrow> (case e of Line _ \<Rightarrow> True | _ \<Rightarrow> False)"

text \<open>At most \<open>B\<close> lines between two prompts, \<open>k\<close> having been shown since the last.\<close>

fun within :: "nat \<Rightarrow> nat \<Rightarrow> page_event list \<Rightarrow> bool" where
  "within B k [] = (k \<le> B)"
| "within B k (e # es) =
     (k \<le> B \<and> (case e of Line _ \<Rightarrow> within B (k + 1) es | Prompt \<Rightarrow> within B 0 es | _ \<Rightarrow> within B k es))"

lemma within_le: "within B k es \<Longrightarrow> k \<le> B"
  by (cases es) auto

lemma within_prefix: "within B k (xs @ ys) \<Longrightarrow> Prompt \<notin> set xs \<Longrightarrow> k + length (filter is_line xs) \<le> B"
proof (induction xs arbitrary: k)
  case (Cons e xs)
  then show ?case using Cons.IH [of "k + 1"] Cons.IH [of k] by (cases e) (auto simp: is_line_def)
qed (auto dest: within_le)

lemma within_mono: "within B k es \<Longrightarrow> j \<le> k \<Longrightarrow> within B j es"
proof (induction es arbitrary: j k)
  case (Cons e es)
  then show ?case by (cases e) (auto intro: order_trans)
qed auto

lemma within_suffix: "within B k (xs @ ys) \<Longrightarrow> within B 0 ys"
proof (induction xs arbitrary: k)
  case Nil
  then show ?case by (auto intro: within_mono)
next
  case (Cons e xs)
  then show ?case by (cases e) auto
qed

lemma within_sublist:
  assumes "within B k es" "sublist xs es" "Prompt \<notin> set xs"
  shows "length (filter is_line xs) \<le> B"
proof -
  obtain ps ss where "es = ps @ xs @ ss" using assms(2) by (auto simp: sublist_def)
  then have "within B 0 (xs @ ss)" using assms(1) within_suffix by blast
  then show ?thesis using within_prefix [of B 0 xs ss] assms(3) by simp
qed

lemma page_lines_within:
  assumes "4 \<le> page_rows p" "0 \<le> page_shown p" "page_shown p \<le> page_rows p - 2" "int k \<le> page_shown p"
  shows "within (nat (page_rows p - 1)) k (page_lines ls p)"
  using assms
proof (induction ls p arbitrary: k rule: page_lines.induct)
  case (2 raw key line ls p)
  let ?B = "nat (page_rows p - 1)"
  have k: "k + 1 \<le> ?B" using 2(2,4,5) by simp
  obtain more p' out where r: "page_line raw key line p = (more, p', out)" by (cases "page_line raw key line p")
  show ?case
  proof (cases "page_shown p + 1 \<ge> page_rows p - 1")
    case False
    then have r': "more" "p' = p\<lparr>page_shown := page_shown p + 1\<rparr>" "out = [Line line]"
      using r 2(2) by (auto simp: page_line_def)
    have "within ?B (k + 1) (page_lines ls p')"
      using 2(1) [OF r [symmetric] refl refl r'(1), of "k + 1"] 2(2-5) r'(2) False by simp
    then show ?thesis using r r' k by simp
  next
    case True
    then have w: "page_wait raw key (p\<lparr>page_shown := page_shown p + 1\<rparr>) = (more, p', tl out)" "out = Line line # tl out"
      using r 2(2) by (auto simp: page_line_def split: prod.splits)
    have out: "tl out = Prompt # (if raw then [Restore] else []) @ [Wipe]"
      using w(1) by (auto simp: page_wait_def Let_def split: option.splits if_splits)
    have p': "more \<Longrightarrow> page_rows p' = page_rows p \<and> 0 \<le> page_shown p' \<and> page_shown p' \<le> page_rows p' - 2"
      using w(1) 2(2) by (auto simp: page_wait_def Let_def split: option.splits if_splits)
    have "more \<Longrightarrow> within ?B 0 (page_lines ls p')"
      using 2(1) [OF r [symmetric] refl refl, of 0] p' 2(2) by simp
    then show ?thesis using r w(2) out k by (cases more) (auto simp: Let_def)
  qed
qed simp

text \<open>
  C40: on a terminal of \<open>rows\<close> rows (four or more) never more than \<open>rows - 1\<close> lines go by between
  two prompts, whatever keys are pressed, so nothing scrolls off unseen; and what is shown is the
  lines in order, all of them up to where the reader stopped.
\<close>

theorem pager_never_scrolls:
  assumes "4 \<le> rows" "trace = page_lines ls (page_begin (Some (rows, cols)) tty)"
  shows "(\<forall>xs. sublist xs trace \<and> Prompt \<notin> set xs \<longrightarrow> length (filter is_line xs) \<le> nat (rows - 1)) \<and>
    prefix (filter is_line trace) (map (\<lambda>(raw, key, line). Line line) ls)"
proof -
  let ?p = "page_begin (Some (rows, cols)) tty"
  have "page_rows ?p = rows" "page_shown ?p = 0" using assms(1) by (simp_all add: page_begin_def Let_def)
  then have "within (nat (rows - 1)) 0 trace" using page_lines_within [of ?p 0 ls] assms by simp
  moreover have "prefix (filter is_line (page_lines ls p)) (map (\<lambda>(raw, key, line). Line line) ls)" for p
  proof (induction ls p rule: page_lines.induct)
    case (2 raw key line ls p)
    obtain more p' out where r: "page_line raw key line p = (more, p', out)" by (cases "page_line raw key line p")
    then have "filter is_line out = [Line line]"
      by (auto simp: page_line_def page_wait_def is_line_def Let_def split: if_splits option.splits prod.splits)
    then show ?case using 2 r by auto
  qed simp
  ultimately show ?thesis using within_sublist assms(2) by blast
qed

lemma pager_never_scrolls_witness:
  "length (filter is_line (page_lines [(True, None, [97]), (True, None, [98])] (page_begin (Some (24, 80)) 3))) \<le> 23"
proof -
  let ?t = "page_lines [(True, None, [97]), (True, None, [98])] (page_begin (Some (24, 80)) 3)"
  have "Prompt \<notin> set ?t" by (simp add: page_begin_def page_line_def Let_def)
  then have "length (filter is_line ?t) \<le> nat (24 - 1)"
    using conjunct1 [OF pager_never_scrolls [of 24 ?t "[(True, None, [97]), (True, None, [98])]" 80 3]] by simp
  then show ?thesis by simp
qed

end
