(* ===== verification/LpNet.thy ===== *)
theory LpNet
  imports LpStdio
begin

text \<open>
  The network part of the C library (\<open>userland/libc/src/net.c\<close>): addresses in text, the DNS query and
  the reading of its reply, URLs, and the HTTP transfer.  Sockets are outside: what is received is a
  parameter.  An address is the 32-bit word whose lowest byte is the first octet.
\<close>

section \<open>Addresses\<close>

definition is_digit_char :: "u8 \<Rightarrow> bool" where
  "is_digit_char c \<longleftrightarrow> 48 \<le> c \<and> c \<le> 57"

fun octet_loop :: "u32 \<Rightarrow> cstring \<Rightarrow> (u32 \<times> cstring) option" where
  "octet_loop v [] = Some (v, [])"
| "octet_loop v (c # s) =
     (if is_digit_char c then
        (let v = v * 10 + (ucast c - 48) in if v > 255 then None else octet_loop v s)
      else Some (v, c # s))"

text \<open>The loop over the four octets; \<open>k\<close> are left.\<close>

fun octets_loop :: "nat \<Rightarrow> cstring \<Rightarrow> (u32 list \<times> cstring) option" where
  "octets_loop 0 s = Some ([], s)"
| "octets_loop (Suc k) s =
     (if \<not> is_digit_char (deref s) then None
      else
        (case octet_loop 0 s of None \<Rightarrow> None
         | Some (v, s) \<Rightarrow>
             if k > 0 then
               (if deref s \<noteq> 46 then None
                else map_option (\<lambda>(vs, s). (v # vs, s)) (octets_loop k (tl s)))
             else Some ([v], s)))"

definition ipv4_parse :: "cstring \<Rightarrow> u32 option" where
  "ipv4_parse s =
     (case octets_loop 4 s of None \<Rightarrow> None
      | Some (v, s) \<Rightarrow>
          if deref s \<noteq> 0 then None
          else Some (v ! 0 OR push_bit 8 (v ! 1) OR push_bit 16 (v ! 2) OR push_bit 24 (v ! 3)))"

definition octet_text :: "u32 \<Rightarrow> cstring" where
  "octet_text v =
     (if v \<ge> 100 then [ucast (48 + v div 100)] else []) @
     (if v \<ge> 10 then [ucast (48 + (v div 10) mod 10)] else []) @
     [ucast (48 + v mod 10)]"

definition address_octet :: "u32 \<Rightarrow> nat \<Rightarrow> u32" where
  "address_octet a i = ucast (ucast (drop_bit (8 * i) a) :: u8)"

text \<open>The string that is in \<open>buf\<close> afterwards, without its NUL.\<close>

definition ipv4_format :: "u32 \<Rightarrow> cstring" where
  "ipv4_format a =
     concat (map (\<lambda>i. octet_text (address_octet a i) @ (if i < 3 then [46] else [])) [0..<4])"

section \<open>Resolving a name\<close>

text \<open>The lines of \<open>/etc/resolv.conf\<close>; a file that could not be read gives 0.\<close>

definition skip_blanks :: "cstring \<Rightarrow> cstring" where
  "skip_blanks s = dropWhile (\<lambda>c. c = 32 \<or> c = 9) s"

lemma tl_dropWhile_shorter: "p \<noteq> [] \<Longrightarrow> length (tl (dropWhile P p)) < length p"
  using length_dropWhile_le [of P p] by (cases p) (auto intro: le_less_trans)

function nameserver_loop :: "cstring \<Rightarrow> u32" where
  "nameserver_loop s =
     (if s = [] then 0
      else
        (let line = takeWhile (\<lambda>c. c \<noteq> 10) s;
             rest = tl (dropWhile (\<lambda>c. c \<noteq> 10) s)
         in if strncmp line (cs ''nameserver'') 10 \<noteq> 0 then nameserver_loop rest
            else
              (case ipv4_parse (skip_blanks (drop 10 line)) of
                 Some a \<Rightarrow> a
               | None \<Rightarrow> nameserver_loop rest)))"
  by pat_completeness auto
termination by (relation "measure length") (use tl_dropWhile_shorter in \<open>auto simp del: length_tl\<close>)

definition read_nameserver :: "u8 list option \<Rightarrow> u32" where
  "read_nameserver file =
     (case file of None \<Rightarrow> 0 | Some b \<Rightarrow> if b = [] then 0 else nameserver_loop (cstr_of (take 511 b)))"

text \<open>The bytes written so far are \<open>out\<close>; the empty list stands for the 0 of the source.\<close>

function encode_loop :: "nat \<Rightarrow> u8 list \<Rightarrow> cstring \<Rightarrow> u8 list" where
  "encode_loop c out p =
     (if p = [] then (if length out + 1 > c then [] else out @ [0])
      else
        (let label = takeWhile (\<lambda>x. x \<noteq> 46) p; n = length label in
         if n = 0 \<or> n > 63 \<or> length out + n + 1 \<ge> c then []
         else encode_loop c (out @ of_nat n # label) (tl (dropWhile (\<lambda>x. x \<noteq> 46) p))))"
  by pat_completeness auto
termination
  by (relation "measure (\<lambda>(c, out, p). length p)")
    (use tl_dropWhile_shorter in \<open>auto simp del: length_tl\<close>)

definition encode_name :: "nat \<Rightarrow> cstring \<Rightarrow> u8 list" where
  "encode_name c host = encode_loop c [] host"

definition dns_query :: "u16 \<Rightarrow> cstring \<Rightarrow> u8 list option" where
  "dns_query ident host =
     (let header = [ucast (drop_bit 8 ident), ucast ident, 1, 0, 0, 1, 0, 0, 0, 0, 0, 0];
          name = encode_name (512 - 12 - 4) host
      in if name = [] then None else Some (header @ name @ [0, 1, 0, 1]))"

definition be16 :: "u8 list \<Rightarrow> nat \<Rightarrow> nat" where
  "be16 b off = unat (b ! off) * 256 + unat (b ! (off + 1))"

function skip_labels :: "u8 list \<Rightarrow> nat \<Rightarrow> nat" where
  "skip_labels r off =
     (if off < length r \<and> r ! off \<noteq> 0 then skip_labels r (off + unat (r ! off) + 1) else off)"
  by pat_completeness auto
termination by (relation "measure (\<lambda>(r, off). length r - off)") auto

text \<open>The offset after the name of the question.\<close>

function skip_question :: "u8 list \<Rightarrow> nat \<Rightarrow> nat" where
  "skip_question r off =
     (if off < length r \<and> r ! off \<noteq> 0 then
        (if r ! off AND 0xC0 = 0xC0 then off + 2 else skip_question r (off + unat (r ! off) + 1))
      else off + 1)"
  by pat_completeness auto
termination by (relation "measure (\<lambda>(r, off). length r - off)") auto

declare skip_labels.simps [simp del] skip_question.simps [simp del] encode_loop.simps [simp del] nameserver_loop.simps [simp del]

definition le32 :: "u8 list \<Rightarrow> nat \<Rightarrow> u32" where
  "le32 b off = ucast (b ! off) OR push_bit 8 (ucast (b ! (off + 1))) OR
     push_bit 16 (ucast (b ! (off + 2))) OR push_bit 24 (ucast (b ! (off + 3)))"

fun answers_loop :: "nat \<Rightarrow> u8 list \<Rightarrow> nat \<Rightarrow> u32" where
  "answers_loop 0 r off = 0"
| "answers_loop (Suc k) r off =
     (if off + 12 > length r then 0
      else
        (let off = (if r ! off AND 0xC0 = 0xC0 then off + 2 else skip_labels r off + 1) in
         if off + 10 > length r then 0
         else
           (let ty = be16 r off; rdlen = be16 r (off + 8); off = off + 10 in
            if ty = 1 \<and> rdlen = 4 \<and> off + 4 \<le> length r then le32 r off
            else answers_loop k r (off + rdlen))))"

definition dns_answer :: "u16 \<Rightarrow> u8 list \<Rightarrow> u8 list \<Rightarrow> u32" where
  "dns_answer ident query r =
     (let qend = length query;
          same_question = (length r > qend \<and> take (qend - 12) (drop 12 r) = drop 12 query)
      in if length r > 12 \<and> r ! 0 = ucast (drop_bit 8 ident) \<and> r ! 1 = ucast ident \<and>
            r ! 2 AND 0x80 \<noteq> 0 \<and> same_question
         then answers_loop (be16 r 6) r (skip_question r 12 + 4)
         else 0)"

text \<open>
  The exchange with the name server: \<open>None\<close> when the socket fails or nothing comes.  Of the datagram
  at most 512 bytes are kept.
\<close>

definition net_resolve :: "u8 list option \<Rightarrow> u16 \<Rightarrow> (u32 \<Rightarrow> u8 list \<Rightarrow> u8 list option) \<Rightarrow> cstring \<Rightarrow> u32" where
  "net_resolve resolv ident exchange host =
     (case ipv4_parse host of
        Some direct \<Rightarrow> direct
      | None \<Rightarrow>
          (let ns = read_nameserver resolv in
           if ns = 0 then 0
           else
             (case dns_query ident host of None \<Rightarrow> 0
              | Some query \<Rightarrow>
                  (case exchange ns query of None \<Rightarrow> 0
                   | Some r \<Rightarrow> dns_answer ident query (take 512 r)))))"

section \<open>HTTP\<close>

fun take_host :: "nat \<Rightarrow> cstring \<Rightarrow> cstring \<times> cstring" where
  "take_host 0 p = ([], p)"
| "take_host (Suc k) [] = ([], [])"
| "take_host (Suc k) (c # p) =
     (if c = 47 \<or> c = 58 then ([], c # p) else (let (h, r) = take_host k p in (c # h, r)))"

text \<open>Host, port and path; the buffers hold \<open>hsize\<close> and \<open>psize\<close> bytes.  An outer \<open>None\<close> is a port
  \<open>atoi\<close> does not define.\<close>

definition url_split :: "cstring \<Rightarrow> nat \<Rightarrow> nat \<Rightarrow> (cstring \<times> u32 \<times> cstring) option option" where
  "url_split url hsize psize =
     (if strncmp url (cs ''http://'') 7 \<noteq> 0 then Some None
      else
        (let (host, p) = take_host (hsize - 1) (drop 7 url) in
         if host = [] then Some None
         else do {
           (port, p) \<leftarrow>
             (if deref p = 58 then
                map_option (\<lambda>v. (word_of_int v, dropWhile (\<lambda>c. c \<noteq> 47) (tl p))) (atoi (tl p))
              else Some (80, p));
           Some (Some (host, port, take (psize - 1) (if p \<noteq> [] then p else [47])))
         }))"

definition lower_ch :: "u8 \<Rightarrow> u8" where
  "lower_ch c = (if 65 \<le> c \<and> c \<le> 90 then c + 32 else c)"

fun header_match :: "cstring \<Rightarrow> cstring \<Rightarrow> bool" where
  "header_match p [] = True"
| "header_match [] (n # ns) = False"
| "header_match (c # p) (n # ns) = (lower_ch c = lower_ch n \<and> header_match p ns)"

text \<open>\<open>None\<close> when \<open>strtol\<close> overflows.\<close>

function header_value_long :: "cstring \<Rightarrow> cstring \<Rightarrow> int option" where
  "header_value_long p name =
     (if p = [] then Some (-1)
      else if header_match p name then
        (let v = skip_blanks (drop (length name) p) in
         if \<not> is_digit_char (deref v) then Some (-1) else map_option (\<lambda>r. fst r) (strtol v 10))
      else header_value_long (tl (dropWhile (\<lambda>c. c \<noteq> 10) p)) name)"
  by pat_completeness auto
termination
  by (relation "measure (\<lambda>(p, name). length p)")
    (use tl_dropWhile_shorter in \<open>auto simp del: length_tl\<close>)

declare header_value_long.simps [simp del]

record transfer =
  in_body :: bool
  matched :: nat
  body :: "u8 list"
  outs :: "u8 list list"
  head :: "u8 list"
  status :: int
  have_status :: bool
  content_length :: int
  bad_read :: bool

definition transfer_start :: transfer where
  "transfer_start = \<lparr>in_body = False, matched = 0, body = [], outs = [], head = [], status = 0, have_status = False,
     content_length = -1, bad_read = False\<rparr>"

definition HEAD_SIZE :: nat where "HEAD_SIZE = 512"

text \<open>How much of the blank line has been seen after another byte.\<close>

definition match_step :: "nat \<Rightarrow> u8 \<Rightarrow> nat" where
  "match_step m c =
     (if (m = 0 \<or> m = 2) \<and> c = 13 then m + 1
      else if (m = 1 \<or> m = 3) \<and> c = 10 then m + 1
      else if c = 13 then 1 else 0)"

text \<open>The bytes of a read up to the end of the blank line are passed over: what follows, if it ends there.\<close>

fun match_loop :: "nat \<Rightarrow> u8 list \<Rightarrow> nat \<times> u8 list option" where
  "match_loop m [] = (m, None)"
| "match_loop m (c # b) =
     (let m = match_step m c in if m = 4 then (m, Some b) else match_loop m b)"

definition parse_head :: "transfer \<Rightarrow> transfer option" where
  "parse_head t =
     (if have_status t then Some t
      else do {
        let h = cstr_of (head t);
        t \<leftarrow> (if length (head t) > 12 \<and> strncmp h (cs ''HTTP/'') 5 = 0
              then map_option (\<lambda>v. t\<lparr>status := v, have_status := True\<rparr>) (atoi (cstr_of (drop 9 (head t))))
              else Some t);
        n \<leftarrow> header_value_long h (cs ''Content-Length:'');
        Some (t\<lparr>content_length := n\<rparr>)
      })"

text \<open>
  One successful read.  The bytes of the body are handed to \<open>lp_write\<close>, whose result the code does not
  look at: \<open>body\<close> is what the code counts in \<open>written\<close>, \<open>outs\<close> the writes it makes.
\<close>

definition put_body :: "u8 list \<Rightarrow> transfer \<Rightarrow> transfer" where
  "put_body b t = t\<lparr>body := body t @ b, outs := outs t @ [b]\<rparr>"

definition transfer_read :: "transfer \<Rightarrow> u8 list \<Rightarrow> transfer option" where
  "transfer_read t b =
     (if in_body t then Some (put_body b t)
      else
        (let t = t\<lparr>head := head t @ take (HEAD_SIZE - 1 - length (head t)) b\<rparr>;
             (m, rest) = match_loop (matched t) b;
             t = t\<lparr>matched := m\<rparr>
         in case rest of
              None \<Rightarrow> Some t
            | Some r \<Rightarrow> map_option (\<lambda>t. if r = [] then t else put_body r t) (parse_head (t\<lparr>in_body := True\<rparr>))))"

text \<open>The reads of a connection: bytes, or \<open>None\<close> for an error; then end of file.\<close>

fun transfer_loop :: "u8 list option list \<Rightarrow> transfer \<Rightarrow> transfer option" where
  "transfer_loop [] t = Some t"
| "transfer_loop (None # rs) t = Some (t\<lparr>bad_read := True\<rparr>)"
| "transfer_loop (Some b # rs) t =
     (if b = [] then Some t else transfer_read t b \<bind> transfer_loop rs)"

datatype http_message =
    NotAUrl | CannotResolve cstring | CannotConnect cstring u32 | CannotWrite
  | NoStatusLine | ServerSaid int | ConnectionBroke | GotBytes int int | NoLength

text \<open>The value returned, the messages, and whether the file is removed.\<close>

definition http_verdict :: "bool \<Rightarrow> transfer \<Rightarrow> int \<times> http_message list \<times> bool" where
  "http_verdict dest t =
     (let written = int (length (body t)) in
      if \<not> have_status t then (-1, [NoStatusLine], dest)
      else if status t \<noteq> 200 then (-1, [ServerSaid (status t)], dest)
      else if bad_read t then (-1, [ConnectionBroke], dest)
      else if content_length t \<ge> 0 \<and> written \<noteq> content_length t
        then (-1, [GotBytes written (content_length t)], dest)
      else (written, if content_length t < 0 \<and> dest then [NoLength] else [], False))"

definition http_request :: "cstring \<Rightarrow> cstring option \<Rightarrow> cstring \<Rightarrow> cstring \<Rightarrow> (u8 list option \<times> u32) option" where
  "http_request method bdy host path =
     (let s = (\<lambda>x. Str (Some (x @ [0]))); req = Some (replicate 768 0); eol = [13, 10] in
      case bdy of
        Some b \<Rightarrow>
          snprintf req 768
            (cs ''%s %s HTTP/1.0'' @ eol @ cs ''Host: %s'' @ eol @ cs ''User-Agent: lpzero'' @ eol @
             cs ''Content-Type: application/json'' @ eol @ cs ''Content-Length: %lu'' @ eol @
             cs ''Connection: close'' @ eol @ eol)
            [s method, s path, s host, Num (of_nat (strlen b))]
      | None \<Rightarrow>
          snprintf req 768
            (cs ''%s %s HTTP/1.0'' @ eol @ cs ''Host: %s'' @ eol @ cs ''User-Agent: lpzero'' @ eol @
             cs ''Connection: close'' @ eol @ eol)
            [s method, s path, s host])"

text \<open>
  The world around a transfer: the resolver, whether the server and the file can be opened, and what
  the server sends when a request is handed to the kernel (how much of it gets through is not looked at
  either).  The file has some content, or there is none, \<open>before\<close>; \<open>keeps\<close> says how many bytes of a
  write reach it after the earlier ones, and \<open>unlinks\<close> whether it can be removed.  The result of \<open>https\<close>
  and the file it leaves are those of the program it is handed to.
\<close>

record http_world =
  resolve :: "cstring \<Rightarrow> u32"
  connects :: "u32 \<Rightarrow> u16 \<Rightarrow> int option"
  opens :: bool
  serves :: "u8 list \<Rightarrow> u8 list option list"
  before :: "u8 list option"
  keeps :: "u8 list list \<Rightarrow> u8 list \<Rightarrow> nat"
  unlinks :: bool
  https :: "int \<times> u8 list option"

text \<open>What a file that was truncated holds after some writes.\<close>

fun kept_of :: "(u8 list list \<Rightarrow> u8 list \<Rightarrow> nat) \<Rightarrow> u8 list list \<Rightarrow> u8 list list \<Rightarrow> u8 list" where
  "kept_of keep earlier [] = []"
| "kept_of keep earlier (b # bs) = take (keep earlier b) b @ kept_of keep (earlier @ [b]) bs"

text \<open>The return value, the messages, the content of the file in the end (\<open>None\<close>: there is none).
  A socket that cannot be made returns -1 without a message, as does \<open>Some e\<close> from \<open>connects\<close>
  with one; a write of more than the request buffer holds is an access outside it.\<close>

definition http_do :: "http_world \<Rightarrow> cstring \<Rightarrow> cstring \<Rightarrow> cstring option \<Rightarrow> bool \<Rightarrow> (int \<times> http_message list \<times> u8 list option) option" where
  "http_do w method url bdy dest =
     (if strncmp url (cs ''https://'') 8 = 0 then Some (fst (https w), [], if dest then snd (https w) else before w)
      else do {
        u \<leftarrow> url_split url 128 512;
        case u of
          None \<Rightarrow> Some (-1, [NotAUrl], before w)
        | Some (host, port, path) \<Rightarrow>
            (let addr = resolve w host in
             if addr = 0 then Some (-1, [CannotResolve host], before w)
             else
               (case connects w addr (ucast port) of
                  Some e \<Rightarrow> Some (-1, if e < 0 then [CannotConnect host port] else [], before w)
                | None \<Rightarrow> do {
                    (req, rn) \<leftarrow> http_request method bdy host path;
                    if unat rn > 768 then None
                    else if \<not> opens w then Some (-1, [CannotWrite], before w)
                    else do {
                      t \<leftarrow> transfer_loop (serves w (take (unat rn) (the req) @ (case bdy of None \<Rightarrow> [] | Some b \<Rightarrow> b))) transfer_start;
                      let (r, msgs, removed) = http_verdict dest t;
                      Some (r, msgs,
                        if \<not> dest then before w else if removed \<and> unlinks w then None
                        else Some (kept_of (keeps w) [] (outs t)))
                    }
                  }))
      })"

definition net_http_get :: "http_world \<Rightarrow> cstring \<Rightarrow> bool \<Rightarrow> (int \<times> http_message list \<times> u8 list option) option" where
  "net_http_get w url dest = http_do w (cs ''GET'') url None dest"

definition net_http_post :: "http_world \<Rightarrow> cstring \<Rightarrow> cstring option \<Rightarrow> bool \<Rightarrow> (int \<times> http_message list \<times> u8 list option) option" where
  "net_http_post w url bdy dest = http_do w (cs ''POST'') url (Some (case bdy of None \<Rightarrow> [] | Some b \<Rightarrow> b)) dest"

end
