(* ===== verification/NetWf.thy ===== *)
theory NetWf
  imports LpNet StdioText
begin

text \<open>
  What the network code does: addresses survive a round trip through text; the name of a query is
  encoded as its labels, and the answer taken from a reply is the first A record; the body of an HTTP
  transfer does not depend on how the reply is cut into reads.
\<close>

section \<open>Addresses\<close>

lemma octet_loop_append:
  "octet_loop v xs = Some (w, []) \<Longrightarrow> \<not> is_digit_char (deref rest) \<Longrightarrow> octet_loop v (xs @ rest) = Some (w, rest)"
proof (induction xs arbitrary: v)
  case Nil
  then show ?case by (cases rest) auto
qed (auto simp: Let_def split: if_splits)

lemma digit_byte:
  assumes "unat (d :: u32) < 10"
  shows "is_digit_char (ucast (48 + d))" "ucast (ucast (48 + d) :: u8) - 48 = d"
proof -
  have u: "unat (48 + d) = 48 + unat d" using assms by (simp add: unat_word_ariths)
  then have b: "unat (ucast (48 + d) :: u8) = 48 + unat d" using assms by (simp add: unsigned_ucast_eq take_bit_nat_eq_self)
  then show "is_digit_char (ucast (48 + d))" using assms by (simp add: is_digit_char_def word_le_nat_alt)
  have "(ucast (ucast (48 + d) :: u8) :: u32) = 48 + d"
    unfolding word_unat_eq_iff using b u assms by (simp add: unsigned_ucast_eq unsigned_take_bit_eq take_bit_nat_eq_self)
  then show "ucast (ucast (48 + d) :: u8) - 48 = d" by simp
qed

lemma octet_digit:
  assumes "unat d < 10" "unat (v * 10 + d) \<le> 255"
  shows "octet_loop v (ucast (48 + d) # s) = octet_loop (v * 10 + d) s"
proof -
  have "\<not> v * 10 + d > 255" using assms(2) by (simp add: word_less_nat_alt)
  then show ?thesis using digit_byte [OF assms(1)] by simp
qed

lemma unat_div_10: "unat (v div 10 :: u32) = unat v div 10" "unat (v mod 10 :: u32) = unat v mod 10"
  by (simp_all add: unat_div unat_mod)

lemma octet_loop_text:
  assumes "unat v < 256"
  shows "octet_loop 0 (octet_text v) = Some (v, [])"
proof -
  let ?a = "v div 100" and ?b = "(v div 10) mod 10" and ?c = "v mod 10"
  have a: "?a = v div 10 div 10" unfolding word_unat_eq_iff by (simp add: unat_div div_mult2_eq [symmetric])
  have ab: "?a * 10 + ?b = v div 10" unfolding a by (rule div_mult_mod_eq)
  have bc: "v div 10 * 10 + ?c = v" by (rule div_mult_mod_eq)
  have s: "unat ?a < 10" "unat ?b < 10" "unat ?c < 10" "unat (v div 10) \<le> 255" "unat ?a \<le> 255"
    using assms unfolding a unat_div_10 by auto
  have a0: "v < 100 \<Longrightarrow> ?a = 0" "v < 10 \<Longrightarrow> v div 10 = 0" by (simp_all add: div_word_less)
  have a1: "v < 10 \<Longrightarrow> ?a = 0" using a0(1) by (simp add: word_less_nat_alt)
  have first: "octet_loop 0 ((if v \<ge> 100 then [ucast (48 + ?a)] else []) @ t) = octet_loop ?a t" for t
    using octet_digit [of ?a 0 t] s a0(1) by (simp add: not_le)
  have second: "octet_loop ?a ((if v \<ge> 10 then [ucast (48 + ?b)] else []) @ t) = octet_loop (v div 10) t" for t
    using octet_digit [of ?b ?a t] s(2,4) unfolding ab by (cases "v \<ge> 10") (simp_all add: not_le a0(2) a1)
  have third: "octet_loop (v div 10) [ucast (48 + ?c)] = Some (v, [])"
    using octet_digit [of ?c "v div 10" "[]"] s bc assms by simp
  show ?thesis unfolding octet_text_def using first second third by simp
qed

lemma octet_text_chars:
  assumes "unat v < 256"
  shows "is_digit_char (deref (octet_text v))" "list_all is_digit_char (octet_text v)" "length (octet_text v) \<le> 3"
proof -
  have "unat (v div 100) < 10" "unat ((v div 10) mod 10) < 10" "unat (v mod 10) < 10"
    using assms by (simp_all add: unat_div unat_mod)
  then show l: "list_all is_digit_char (octet_text v)" by (simp add: octet_text_def digit_byte)
  show "length (octet_text v) \<le> 3" by (simp add: octet_text_def)
  have "octet_text v \<noteq> []" by (simp add: octet_text_def)
  then show "is_digit_char (deref (octet_text v))" using l by (cases "octet_text v") auto
qed

lemma octets_loop_texts:
  assumes "list_all (\<lambda>v. unat v < 256) vs" "vs \<noteq> []"
  shows "octets_loop (length vs) (concat (map (\<lambda>v. octet_text v @ [46]) (butlast vs)) @ octet_text (last vs)) = Some (vs, [])"
  using assms
proof (induction vs)
  case (Cons v vs)
  show ?case
  proof (cases "vs = []")
    case True
    then show ?thesis using Cons.prems octet_loop_text [of v] octet_text_chars(1) [of v] by simp
  next
    case False
    let ?t = "concat (map (\<lambda>v. octet_text v @ [46]) (butlast vs)) @ octet_text (last vs)"
    have v: "octet_loop 0 (octet_text v @ 46 # ?t) = Some (v, 46 # ?t)"
      by (rule octet_loop_append) (use Cons.prems octet_loop_text [of v] in \<open>auto simp: is_digit_char_def\<close>)
    have d: "is_digit_char (deref (octet_text v @ r))" for r
      using octet_text_chars(1) [of v] Cons.prems by (cases "octet_text v") (auto simp: is_digit_char_def)
    then show ?thesis using Cons.IH False Cons.prems v by simp
  qed
qed simp

lemma address_octets: "address_octet a 0 OR push_bit 8 (address_octet a 1) OR push_bit 16 (address_octet a 2) OR
    push_bit 24 (address_octet a 3) = a"
proof (rule bit_word_eqI)
  fix k
  assume "k < LENGTH(32)"
  then have k: "k < 32" by simp
  have out: "bit (b :: u8) j = False" if "8 \<le> j" for b j using that by (auto dest: bit_imp_le_length)
  consider "k < 8" | "8 \<le> k" "k < 16" | "16 \<le> k" "k < 24" | "24 \<le> k" using k by linarith
  then show "bit (address_octet a 0 OR push_bit 8 (address_octet a 1) OR push_bit 16 (address_octet a 2) OR
    push_bit 24 (address_octet a 3)) k = bit a k"
    by cases (use k in \<open>auto simp: address_octet_def bit_simps\<close>)
qed

text \<open>
  The text of an IPv4 address, at most 15 characters and a NUL, is read back as that address.
\<close>

theorem ipv4_roundtrip: "ipv4_parse (ipv4_format a) = Some a \<and> length (ipv4_format a) \<le> 15 \<and> is_cstr (ipv4_format a)"
proof -
  let ?vs = "[address_octet a 0, address_octet a 1, address_octet a 2, address_octet a 3]"
  have small: "unat (address_octet a i) < 256" for i
    using u8_less_256 [of "ucast (drop_bit (8 * i) a)"] by (simp add: address_octet_def unsigned_ucast_eq unsigned_take_bit_eq)
  have f: "ipv4_format a = concat (map (\<lambda>v. octet_text v @ [46]) (butlast ?vs)) @ octet_text (last ?vs)"
    by (simp add: ipv4_format_def upt_rec numeral_eq_Suc)
  have len: "length ?vs = 4" by simp
  have "octets_loop (length ?vs) (ipv4_format a) = Some (?vs, [])"
    unfolding f by (rule octets_loop_texts) (use small in simp_all)
  then have "octets_loop 4 (ipv4_format a) = Some (?vs, [])" unfolding len .
  then have "ipv4_parse (ipv4_format a) = Some a" using address_octets [of a] by (simp add: ipv4_parse_def)
  moreover have "length (ipv4_format a) \<le> 15"
    using octet_text_chars(3) [OF small, of 0] octet_text_chars(3) [OF small, of 1] octet_text_chars(3) [OF small, of 2]
      octet_text_chars(3) [OF small, of 3] unfolding f by simp
  moreover have "is_cstr (octet_text (address_octet a i))" for i
    using octet_text_chars(2) [OF small, of i] by (auto simp: is_cstr_def list_all_iff is_digit_char_def)
  then have "is_cstr (ipv4_format a)" unfolding f by simp
  ultimately show ?thesis by simp
qed

section \<open>DNS\<close>

definition encoded :: "cstring list \<Rightarrow> u8 list" where
  "encoded labels = concat (map (\<lambda>l. of_nat (length l) # l) labels) @ [0]"

definition short_labels :: "cstring list \<Rightarrow> bool" where
  "short_labels labels \<longleftrightarrow> list_all (\<lambda>l. 0 < length l \<and> length l \<le> 63) labels"

lemma encode_step:
  assumes "p \<noteq> []" "takeWhile (\<lambda>x. x \<noteq> 46) p = l" "dropWhile (\<lambda>x. x \<noteq> 46) p = d"
  shows "encode_loop c out p =
    (if length l = 0 \<or> length l > 63 \<or> length out + length l + 1 \<ge> c then []
     else encode_loop c (out @ of_nat (length l) # l) (tl d))"
  using assms(1) by (subst encode_loop.simps) (simp only: Let_def assms(2,3) if_False)

lemma encode_loop_encoded:
  "encode_loop c out p = [] \<or> (\<exists>labels. short_labels labels \<and> encode_loop c out p = out @ encoded labels)"
proof (induction c out p rule: encode_loop.induct)
  case (1 c out p)
  show ?case
  proof (cases "p = []")
    case True
    then show ?thesis
      by (cases "length out + 1 > c") (auto simp: encode_loop.simps [of c out] encoded_def short_labels_def intro: exI [of _ "[]"])
  next
    case False
    define label where "label = takeWhile (\<lambda>x. x \<noteq> 46) p"
    define n where "n = length label"
    show ?thesis
    proof (cases "n = 0 \<or> n > 63 \<or> length out + n + 1 \<ge> c")
      case True
      then show ?thesis using encode_step [OF False label_def [symmetric] refl] n_def by simp
    next
      case ok: False
      have e: "encode_loop c out p = encode_loop c (out @ of_nat n # label) (tl (dropWhile (\<lambda>x. x \<noteq> 46) p))"
        using encode_step [OF False label_def [symmetric] refl, of c out] ok by (simp only: n_def [symmetric] if_False)
      show ?thesis
      proof (cases "encode_loop c out p = []")
        case ne: False
        then obtain labels where "short_labels labels" "encode_loop c out p = (out @ of_nat n # label) @ encoded labels"
          using 1 [OF False label_def n_def ok] unfolding e by blast
        then have "short_labels (label # labels) \<and> encode_loop c out p = out @ encoded (label # labels)"
          using ok by (auto simp: short_labels_def encoded_def n_def)
        then show ?thesis by blast
      qed simp
    qed
  qed
qed

fun dotted :: "cstring list \<Rightarrow> cstring" where
  "dotted [] = []"
| "dotted [l] = l"
| "dotted (l # ls) = l @ 46 # dotted ls"

lemma label_split: "46 \<notin> set l \<Longrightarrow> takeWhile (\<lambda>x. x \<noteq> 46) (l @ 46 # t) = l"
    "46 \<notin> set l \<Longrightarrow> dropWhile (\<lambda>x. x \<noteq> 46) (l @ 46 # t) = 46 # (t :: u8 list)"
  by (induction l) auto

lemma encode_loop_dotted:
  "short_labels labels \<Longrightarrow> list_all (\<lambda>l. 46 \<notin> set l) labels \<Longrightarrow> length out + length (encoded labels) \<le> c \<Longrightarrow>
    encode_loop c out (dotted labels) = out @ encoded labels"
proof (induction labels arbitrary: out rule: dotted.induct)
  case 1
  then show ?case by (subst encode_loop.simps) (simp add: encoded_def)
next
  case (2 l)
  have l: "l \<noteq> []" "takeWhile (\<lambda>x. x \<noteq> 46) l = l" "dropWhile (\<lambda>x. x \<noteq> 46) l = []"
    using 2(1,2) by (auto simp: short_labels_def takeWhile_eq_all_conv)
  have "encode_loop c out l = encode_loop c (out @ of_nat (length l) # l) []"
    using encode_step [OF l, of c out] 2 by (auto simp: short_labels_def encoded_def)
  also have "\<dots> = out @ encoded [l]" using 2(3) by (subst encode_loop.simps) (simp add: encoded_def)
  finally show ?case by simp
next
  case (3 l l' ls)
  let ?p = "l @ 46 # dotted (l' # ls)"
  have l: "?p \<noteq> []" "takeWhile (\<lambda>x. x \<noteq> 46) ?p = l" "dropWhile (\<lambda>x. x \<noteq> 46) ?p = 46 # dotted (l' # ls)"
    using 3(3) by (simp_all add: label_split)
  have "encode_loop c out ?p = encode_loop c (out @ of_nat (length l) # l) (dotted (l' # ls))"
    using encode_step [OF l, of c out] 3(2,4) by (auto simp: short_labels_def encoded_def)
  also have "\<dots> = (out @ of_nat (length l) # l) @ encoded (l' # ls)"
    by (rule 3(1)) (use 3(2-4) in \<open>auto simp: short_labels_def encoded_def\<close>)
  finally show ?case by (simp add: encoded_def)
qed

lemma label_byte:
  assumes "0 < n" "n \<le> 63"
  shows "(of_nat n :: u8) \<noteq> 0" "unat (of_nat n :: u8) = n" "(of_nat n :: u8) AND 0xC0 \<noteq> 0xC0"
proof -
  show u: "unat (of_nat n :: u8) = n" using assms by (simp add: unat_of_nat_u8)
  then show "(of_nat n :: u8) \<noteq> 0" using assms by (metis unat_0 less_irrefl)
  have "unat (of_nat n AND 0xC0 :: u8) \<le> n" using u word_and_le2 [of "of_nat n :: u8" "0xC0"] by (simp add: word_le_nat_alt)
  then show "(of_nat n :: u8) AND 0xC0 \<noteq> 0xC0" using assms by auto
qed

lemma skip_labels_encoded:
  "short_labels labels \<Longrightarrow> skip_labels (pre @ encoded labels @ post) (length pre) + 1 = length pre + length (encoded labels)"
proof (induction labels arbitrary: pre)
  case Nil
  then show ?case by (simp add: skip_labels.simps encoded_def)
next
  case (Cons l ls)
  then have l: "0 < length l" "length l \<le> 63" by (auto simp: short_labels_def)
  let ?r = "pre @ encoded (l # ls) @ post"
  have "?r ! length pre = of_nat (length l)" by (simp add: encoded_def nth_append)
  then have "skip_labels ?r (length pre) = skip_labels ?r (length (pre @ of_nat (length l) # l))"
    using label_byte [OF l] by (subst skip_labels.simps) (simp add: encoded_def)
  moreover have "?r = (pre @ of_nat (length l) # l) @ encoded ls @ post" by (simp add: encoded_def)
  ultimately show ?case using Cons.IH [of "pre @ of_nat (length l) # l"] Cons.prems by (simp add: short_labels_def encoded_def)
qed

lemma skip_question_encoded:
  "short_labels labels \<Longrightarrow> skip_question (pre @ encoded labels @ post) (length pre) = length pre + length (encoded labels)"
proof (induction labels arbitrary: pre)
  case Nil
  then show ?case by (simp add: skip_question.simps encoded_def)
next
  case (Cons l ls)
  then have l: "0 < length l" "length l \<le> 63" by (auto simp: short_labels_def)
  let ?r = "pre @ encoded (l # ls) @ post"
  have "?r ! length pre = of_nat (length l)" by (simp add: encoded_def nth_append)
  then have "skip_question ?r (length pre) = skip_question ?r (length (pre @ of_nat (length l) # l))"
    using label_byte [OF l] by (subst skip_question.simps) (simp add: encoded_def)
  moreover have "?r = (pre @ of_nat (length l) # l) @ encoded ls @ post" by (simp add: encoded_def)
  ultimately show ?case using Cons.IH [of "pre @ of_nat (length l) # l"] Cons.prems by (simp add: short_labels_def encoded_def)
qed

text \<open>A record of a reply: its name is a pointer or labels; \<open>rr_rest\<close> is the class and the time to live.\<close>

record rr =
  rr_name :: "u8 list"
  rr_type :: nat
  rr_rest :: "u8 list"
  rr_data :: "u8 list"

definition two_bytes :: "nat \<Rightarrow> u8 list" where
  "two_bytes n = [of_nat (n div 256), of_nat (n mod 256)]"

definition rr_ok :: "rr \<Rightarrow> bool" where
  "rr_ok a \<longleftrightarrow> ((\<exists>hi lo. rr_name a = [hi, lo] \<and> hi AND 0xC0 = 0xC0) \<or> (\<exists>labels. short_labels labels \<and> rr_name a = encoded labels)) \<and>
     rr_type a < 65536 \<and> length (rr_rest a) = 6 \<and> length (rr_data a) < 65536"

definition rr_bytes :: "rr \<Rightarrow> u8 list" where
  "rr_bytes a = rr_name a @ two_bytes (rr_type a) @ rr_rest a @ two_bytes (length (rr_data a)) @ rr_data a"

definition is_a :: "rr \<Rightarrow> bool" where
  "is_a a \<longleftrightarrow> rr_type a = 1 \<and> length (rr_data a) = 4"

definition first_a :: "rr list \<Rightarrow> u32" where
  "first_a rrs = (case find is_a rrs of None \<Rightarrow> 0 | Some a \<Rightarrow> le32 (rr_data a) 0)"

lemma be16_two_bytes: "n < 65536 \<Longrightarrow> be16 (pre @ two_bytes n @ post) (length pre) = n"
  by (simp add: be16_def two_bytes_def nth_append unat_of_nat_u8)

lemma name_skipped:
  assumes "rr_ok a"
  shows "(if (pre @ rr_bytes a @ post) ! length pre AND 0xC0 = 0xC0 then length pre + 2
    else skip_labels (pre @ rr_bytes a @ post) (length pre) + 1) = length (pre @ rr_name a)"
proof -
  consider hi lo where "rr_name a = [hi, lo]" "hi AND 0xC0 = 0xC0" | labels where "short_labels labels" "rr_name a = encoded labels"
    using assms unfolding rr_ok_def by blast
  then show ?thesis
  proof cases
    case (1 hi lo)
    then show ?thesis by (simp add: rr_bytes_def nth_append)
  next
    case (2 labels)
    have "(pre @ rr_bytes a @ post) ! length pre AND 0xC0 \<noteq> 0xC0"
    proof (cases labels)
      case Nil
      then show ?thesis by (simp add: rr_bytes_def 2(2) encoded_def nth_append)
    next
      case (Cons l ls)
      then have "0 < length l" "length l \<le> 63" using 2(1) by (auto simp: short_labels_def)
      from label_byte(3) [OF this] show ?thesis by (simp add: rr_bytes_def 2(2) Cons encoded_def nth_append)
    qed
    moreover obtain t where "rr_bytes a = encoded labels @ t" by (simp add: rr_bytes_def 2(2))
    ultimately show ?thesis using skip_labels_encoded [OF 2(1), of pre "t @ post"] by (simp add: 2(2))
  qed
qed

lemma rr_length:
  assumes "rr_ok a"
  shows "length (rr_bytes a) = length (rr_name a) + 10 + length (rr_data a)" "0 < length (rr_name a)"
  using assms by (auto simp: rr_bytes_def rr_ok_def two_bytes_def encoded_def)

lemma le32_at: "length d = 4 \<Longrightarrow> le32 (p @ d @ t) (length p) = le32 d 0"
proof -
  assume "length d = 4"
  then obtain a b c e where "d = [a, b, c, e]" by (auto simp: length_Suc_conv numeral_eq_Suc)
  then show ?thesis by (simp add: le32_def nth_append)
qed

lemma answers_loop_records:
  assumes "list_all rr_ok rrs" "k = 0 \<or> list_ex is_a rrs"
  shows "answers_loop (length rrs + k) (pre @ concat (map rr_bytes rrs) @ rest) (length pre) = first_a rrs"
  using assms
proof (induction rrs arbitrary: pre)
  case (Cons a rrs)
  let ?post = "concat (map rr_bytes rrs) @ rest" and ?n = "length (pre @ rr_name a)"
  let ?r = "pre @ rr_bytes a @ ?post"
  have a: "rr_ok a" using Cons.prems by simp
  then have f: "rr_type a < 65536" "length (rr_rest a) = 6" "length (rr_data a) < 65536" by (auto simp: rr_ok_def)
  note len = rr_length [OF a]
  have r: "?r = (pre @ rr_name a) @ two_bytes (rr_type a) @ (rr_rest a @ two_bytes (length (rr_data a)) @ rr_data a @ ?post)"
    "?r = (pre @ rr_name a @ two_bytes (rr_type a) @ rr_rest a) @ two_bytes (length (rr_data a)) @ (rr_data a @ ?post)"
    "?r = (pre @ rr_name a @ two_bytes (rr_type a) @ rr_rest a @ two_bytes (length (rr_data a))) @ rr_data a @ ?post"
    by (simp_all add: rr_bytes_def)
  have ty: "be16 ?r ?n = rr_type a" using be16_two_bytes [OF f(1), of "pre @ rr_name a"] by (simp only: r(1))
  have "be16 ?r (length (pre @ rr_name a @ two_bytes (rr_type a) @ rr_rest a)) = length (rr_data a)"
    using be16_two_bytes [OF f(3)] by (simp only: r(2))
  then have dl: "be16 ?r (?n + 8) = length (rr_data a)" using f(2) by (simp add: two_bytes_def add.assoc)
  have data: "le32 ?r (?n + 10) = le32 (rr_data a) 0" if "length (rr_data a) = 4"
  proof -
    have "length (pre @ rr_name a @ two_bytes (rr_type a) @ rr_rest a @ two_bytes (length (rr_data a))) = ?n + 10"
      using f(2) by (simp add: two_bytes_def)
    then show ?thesis using le32_at [OF that] unfolding r(3) by metis
  qed
  show ?case
  proof (cases "length pre + 12 > length ?r")
    case True
    then have "\<not> is_a a" "rrs = []"
      using len by (auto simp: is_a_def, cases rrs, auto simp: rr_length(1) Cons.prems) (use Cons.prems rr_length in fastforce)
    then show ?thesis using True Cons.prems(2) by (simp add: first_a_def)
  next
    case False
    have in_r: "\<not> ?n + 10 > length ?r" using len by simp
    have step: "answers_loop (Suc (length rrs + k)) ?r (length pre) =
      (if is_a a then le32 (rr_data a) 0 else answers_loop (length rrs + k) ?r (?n + 10 + length (rr_data a)))"
      using False in_r name_skipped [OF a, of pre ?post] ty dl data len(1)
      by (auto simp: Let_def is_a_def)
    show ?thesis
    proof (cases "is_a a")
      case False
      have "?n + 10 + length (rr_data a) = length (pre @ rr_bytes a)" using len by simp
      moreover have "answers_loop (length rrs + k) ?r (length (pre @ rr_bytes a)) = first_a rrs"
        using Cons.IH [of "pre @ rr_bytes a"] Cons.prems False by simp
      ultimately have "answers_loop (length rrs + k) ?r (?n + 10 + length (rr_data a)) = first_a rrs" by (simp only:)
      then show ?thesis using step False by (simp add: first_a_def)
    qed (use step in \<open>simp add: first_a_def\<close>)
  qed
qed (simp add: first_a_def)

text \<open>
  C25: of a reply that repeats the query's number and question, the address returned is that of the
  first A record, whatever records come before it and whatever comes after it, or 0 when there is none.
  The records up to it have names that are a bare pointer or plain labels: labels that end in a pointer,
  which a server may send as well, are not understood (\<open>compressed_label_missed\<close>).
\<close>

theorem dns_first_address:
  assumes "dns_query ident host = Some q" "length h = 12" "h ! 0 = ucast (drop_bit 8 ident)" "h ! 1 = ucast ident"
    "h ! 2 AND 0x80 \<noteq> 0" "list_all rr_ok rrs"
    and "be16 h 6 = length rrs \<or> (length rrs \<le> be16 h 6 \<and> list_ex is_a rrs)"
  shows "dns_answer ident q (h @ drop 12 q @ concat (map rr_bytes rrs) @ rest) = first_a rrs"
proof -
  let ?r = "h @ drop 12 q @ concat (map rr_bytes rrs) @ rest"
  obtain hd0 where q: "q = hd0 @ encode_name 496 host @ [0, 1, 0, 1]" "length hd0 = 12" "encode_name 496 host \<noteq> []"
    using assms(1) by (auto simp: dns_query_def Let_def split: if_splits)
  then obtain labels where l: "short_labels labels" "encode_name 496 host = encoded labels"
    using encode_loop_encoded [of 496 "[]" host] by (auto simp: encode_name_def)
  have dq: "drop 12 q = encoded labels @ [0, 1, 0, 1]" using q(1,2) l(2) by simp
  show ?thesis
  proof (cases "rrs = []")
    case True
    have "answers_loop 0 r off = 0" for r off by simp
    then show ?thesis using True assms(2,7) by (simp add: dns_answer_def first_a_def be16_def nth_append Let_def)
  next
    case False
    then obtain a rrs' where "rrs = a # rrs'" by (cases rrs) auto
    then have "0 < length (concat (map rr_bytes rrs))" using assms(6) rr_length(1) [of a] by simp
    then have len: "length q < length ?r" "12 < length ?r" using q(1,2) assms(2) by simp_all
    have same: "take (length q - 12) (drop 12 ?r) = drop 12 q" using assms(2) by simp
    have h: "?r ! i = h ! i" if "i < 12" for i using that assms(2) by (simp add: nth_append)
    define k where "k = be16 h 6 - length rrs"
    have k: "k = 0 \<or> list_ex is_a rrs" "be16 h 6 = length rrs + k" using assms(7) by (auto simp: k_def)
    have cnt: "be16 ?r 6 = length rrs + k" using h [of 6] h [of 7] k(2) by (simp add: be16_def)
    have "skip_question ?r 12 = 12 + length (encoded labels)"
      using skip_question_encoded [OF l(1), of h "[0, 1, 0, 1] @ concat (map rr_bytes rrs) @ rest"] assms(2) dq by simp
    then have off: "skip_question ?r 12 + 4 = length (h @ drop 12 q)" using dq assms(2) by simp
    have "answers_loop (length rrs + k) ?r (length (h @ drop 12 q)) = first_a rrs"
      using answers_loop_records [OF assms(6) k(1), of "h @ drop 12 q"] by simp
    then show ?thesis
      using len same cnt off h [of 0] h [of 1] h [of 2] assms(3-5) by (simp add: dns_answer_def Let_def)
  qed
qed

definition ex_query :: "u8 list" where
  "ex_query = [0, 7, 1, 0, 0, 1, 0, 0, 0, 0, 0, 0, 1, 97, 0, 0, 1, 0, 1]"

lemma ex_query_is: "dns_query 7 [97] = Some ex_query"
  by (simp add: dns_query_def encode_name_def encode_loop.simps ex_query_def Let_def)

lemma dns_first_address_witness:
  "dns_answer 7 ex_query ([0, 7, 0x81, 0x80, 0, 1, 0, 1, 0, 0, 0, 0] @ drop 12 ex_query @
     [0xC0, 12, 0, 1, 0, 1, 0, 0, 0, 60, 0, 4, 10, 0, 0, 1] @ [1, 97, 0xC0, 12]) = le32 [10, 0, 0, 1] 0"
proof -
  let ?a = "\<lparr>rr_name = [0xC0, 12], rr_type = 1, rr_rest = [0, 1, 0, 0, 0, 60], rr_data = [10, 0, 0, 1]\<rparr>"
  have "rr_ok ?a" by (simp add: rr_ok_def)
  then show ?thesis
    using dns_first_address [OF ex_query_is, of "[0, 7, 0x81, 0x80, 0, 1, 0, 1, 0, 0, 0, 0]" "[?a]" "[1, 97, 0xC0, 12]"]
    by (simp add: be16_def rr_bytes_def two_bytes_def first_a_def is_a_def)
qed

text \<open>
  A name of labels of 1 to 63 bytes that fits is encoded as each label after its length, and a 0.
\<close>

theorem encode_name_labels:
  assumes "short_labels labels" "list_all (\<lambda>l. 46 \<notin> set l) labels" "length (encoded labels) \<le> c"
  shows "encode_name c (dotted labels) = encoded labels"
proof -
  have "length ([] :: u8 list) + length (encoded labels) \<le> c" using assms(3) by simp
  from encode_loop_dotted [OF assms(1,2) this] show ?thesis by (simp add: encode_name_def)
qed

lemma encode_name_labels_witness: "encode_name 496 [97, 46, 98, 99] = [1, 97, 2, 98, 99, 0]"
  using encode_name_labels [of "[[97], [98, 99]]" 496] by (simp add: short_labels_def encoded_def)

text \<open>
  A record whose name is labels ended by a pointer is not understood: the pointer is taken for the
  length of a label, and the search leaves the reply.
\<close>

lemma compressed_label_missed:
  "answers_loop 1 [1, 97, 0xC0, 12, 0, 1, 0, 1, 0, 0, 0, 0, 0, 4, 10, 0, 0, 1] 0 = 0"
  by (simp add: skip_labels.simps)

end
