(* ===== verification/NetHttp.thy ===== *)
theory NetHttp
  imports NetWf
begin

text \<open>
  The HTTP transfer: the request fits its buffer, the body is what follows the first blank line
  however the reply is cut into reads, and a file is left only by a complete transfer with status 200.
\<close>

section \<open>The blank line\<close>

definition blank :: "u8 list" where
  "blank = [13, 10, 13, 10]"

text \<open>The bytes after the first blank line.\<close>

fun after_blank :: "u8 list \<Rightarrow> u8 list option" where
  "after_blank [] = None"
| "after_blank (c # b) = (if take 4 (c # b) = blank then Some (drop 4 (c # b)) else after_blank b)"

lemma match_loop_append:
  "match_loop m (xs @ ys) = (case match_loop m xs of (m', None) \<Rightarrow> match_loop m' ys | (m', Some r) \<Rightarrow> (m', Some (r @ ys)))"
  by (induction xs arbitrary: m) (auto simp: Let_def)

text \<open>Having seen \<open>m\<close> bytes of the blank line is having to search from there.\<close>

lemma match_restart:
  assumes "m < 4" "c \<noteq> blank ! m"
  shows "match_step m c = match_step 0 c"
proof -
  have "m = 0 \<or> m = 1 \<or> m = 2 \<or> m = 3" using assms(1) by linarith
  then show ?thesis using assms(2) by (auto simp: match_step_def blank_def numeral_2_eq_2 numeral_3_eq_3)
qed

lemma match_loop_after_blank:
  "m < 4 \<Longrightarrow> snd (match_loop m xs) = after_blank (take m blank @ xs)"
proof (induction xs arbitrary: m)
  case Nil
  have "m = 0 \<or> m = 1 \<or> m = 2 \<or> m = 3" using Nil by linarith
  then show ?case by (auto simp: blank_def numeral_2_eq_2 numeral_3_eq_3)
next
  case (Cons c xs)
  have m: "m = 0 \<or> m = 1 \<or> m = 2 \<or> m = 3" using Cons.prems by linarith
  have zero: "snd (match_loop m' xs) = after_blank (take m' blank @ xs)" if "m' \<le> 1" for m' using Cons.IH that by simp
  show ?case
  proof (cases "c = blank ! m")
    case True
    then have s: "match_step m c = Suc m" using m by (auto simp: match_step_def blank_def numeral_2_eq_2 numeral_3_eq_3)
    show ?thesis
    proof (cases "m = 3")
      case True
      then show ?thesis using s \<open>c = blank ! m\<close> by (simp add: blank_def numeral_3_eq_3)
    next
      case False
      then have "take (Suc m) blank = take m blank @ [c]"
        using \<open>c = blank ! m\<close> Cons.prems take_Suc_conv_app_nth [of m blank] by (simp add: blank_def)
      then have e: "take (Suc m) blank @ xs = take m blank @ c # xs" by simp
      have "snd (match_loop (Suc m) xs) = after_blank (take (Suc m) blank @ xs)"
        using Cons.IH [of "Suc m"] False Cons.prems by simp
      moreover have "match_loop m (c # xs) = match_loop (Suc m) xs" using s False by simp
      ultimately show ?thesis by (simp only: e)
    qed
  next
    case False
    then have s: "match_step m c = match_step 0 c" using match_restart Cons.prems by simp
    have step: "match_step 0 c = (if c = 13 then 1 else 0)" by (simp add: match_step_def)
    have "after_blank (take m blank @ c # xs) = after_blank (c # xs)"
      using m False by (auto simp: blank_def numeral_2_eq_2 numeral_3_eq_3)
    also have "\<dots> = after_blank (take (match_step 0 c) blank @ xs)"
      unfolding step by (auto simp: blank_def numeral_eq_Suc)
    finally show ?thesis using s zero [of "match_step 0 c"] step by (simp add: Let_def)
  qed
qed

lemma after_blank_match: "after_blank d = snd (match_loop 0 d)"
  using match_loop_after_blank [of 0 d] by simp

lemma after_blank_append: "after_blank d = Some r \<Longrightarrow> after_blank (d @ b) = Some (r @ b)"
  unfolding after_blank_match match_loop_append by (auto split: prod.splits option.splits)

section \<open>The transfer\<close>

text \<open>What a sequence of reads brings, and whether it ends in an error.\<close>

fun received :: "u8 list option list \<Rightarrow> u8 list" where
  "received [] = []"
| "received (None # rs) = []"
| "received (Some b # rs) = (if b = [] then [] else b @ received rs)"

fun broke :: "u8 list option list \<Rightarrow> bool" where
  "broke [] = False"
| "broke (None # rs) = True"
| "broke (Some b # rs) = (b \<noteq> [] \<and> broke rs)"

definition transfer_inv :: "u8 list \<Rightarrow> transfer \<Rightarrow> bool" where
  "transfer_inv d t \<longleftrightarrow> concat (outs t) = body t \<and>
     (if in_body t then after_blank d = Some (body t)
      else match_loop 0 d = (matched t, None) \<and> body t = [] \<and> \<not> have_status t)"

lemma parse_head_keeps: "parse_head t = Some t' \<Longrightarrow> in_body t' = in_body t \<and> body t' = body t \<and> outs t' = outs t \<and> bad_read t' = bad_read t"
  by (auto simp: parse_head_def Let_def split: if_splits bind_splits)

lemma transfer_read_inv:
  assumes "transfer_inv d t" "transfer_read t b = Some t'"
  shows "transfer_inv (d @ b) t' \<and> bad_read t' = bad_read t"
proof (cases "in_body t")
  case True
  then show ?thesis using assms after_blank_append by (auto simp: transfer_inv_def transfer_read_def put_body_def)
next
  case False
  obtain m rest where m: "match_loop (matched t) b = (m, rest)" by (cases "match_loop (matched t) b")
  have d: "match_loop 0 d = (matched t, None)" "body t = []" "concat (outs t) = []" "\<not> have_status t"
    using assms(1) False by (auto simp: transfer_inv_def)
  then have db: "match_loop 0 (d @ b) = (m, rest)" using m by (simp add: match_loop_append)
  show ?thesis
  proof (cases rest)
    case None
    then show ?thesis using assms(2) False m d db by (auto simp: transfer_inv_def transfer_read_def Let_def)
  next
    case (Some r)
    then have "after_blank (d @ b) = Some r" using db by (simp add: after_blank_match)
    moreover obtain t2 where t2: "in_body t2" "body t2 = []" "concat (outs t2) = []" "bad_read t2 = bad_read t"
        "t' = (if r = [] then t2 else put_body r t2)"
      using assms(2) False m d Some by (auto simp: transfer_read_def Let_def dest!: parse_head_keeps)
    ultimately show ?thesis by (simp add: transfer_inv_def put_body_def)
  qed
qed

lemma transfer_loop_inv:
  "transfer_inv d t \<Longrightarrow> transfer_loop rs t = Some t' \<Longrightarrow>
    transfer_inv (d @ received rs) t' \<and> bad_read t' = (bad_read t \<or> broke rs)"
proof (induction rs t arbitrary: d rule: transfer_loop.induct)
  case (2 rs t)
  then show ?case by (auto simp: transfer_inv_def)
next
  case (3 b rs t)
  show ?case
  proof (cases "b = []")
    case False
    then obtain t1 where t1: "transfer_read t b = Some t1" "transfer_loop rs t1 = Some t'"
      using 3(3) by (auto split: bind_splits)
    then show ?thesis using 3(1) [OF False t1(1) _ t1(2), of "d @ b"] transfer_read_inv [OF 3(2) t1(1)] False by auto
  qed (use 3 in auto)
qed auto


lemma transfer_start_inv: "transfer_inv [] transfer_start"
  by (simp add: transfer_inv_def transfer_start_def)

lemma http_stream:
  assumes "transfer_loop rs transfer_start = Some t"
  shows "(case after_blank (received rs) of
      None \<Rightarrow> body t = [] \<and> \<not> have_status t | Some b \<Rightarrow> body t = b) \<and> bad_read t = broke rs"
proof -
  have t: "transfer_inv (received rs) t" "bad_read t = broke rs"
    using transfer_loop_inv [OF transfer_start_inv assms] by (simp_all add: transfer_start_def)
  show ?thesis
  proof (cases "in_body t")
    case False
    then show ?thesis using t by (simp add: transfer_inv_def after_blank_match)
  qed (use t in \<open>simp add: transfer_inv_def\<close>)
qed

text \<open>
  C26: the body of a transfer is what follows the first blank line of the bytes received, however they
  are cut into reads; and without a blank line there is no status and no body.
\<close>

theorem http_body_of_stream:
  assumes "transfer_loop rs transfer_start = Some t"
  shows "(case after_blank (received rs) of
      None \<Rightarrow> body t = [] \<and> \<not> have_status t | Some b \<Rightarrow> body t = b) \<and> bad_read t = broke rs"
  using assms by (rule http_stream)

definition ex_reply :: "u8 list option list" where
  "ex_reply = [Some [120, 13, 10, 13], Some [10, 1], Some [2]]"

lemma http_body_of_stream_witness: "\<exists>t. transfer_loop ex_reply transfer_start = Some t \<and> body t = [1, 2]"
proof -
  have "header_value_long [120, 13, 10, 13, 10, 1] (cs ''Content-Length:'') = Some (-1)"
    by (simp add: header_value_long.simps cs_def lower_ch_def)
  then have "transfer_loop ex_reply transfer_start \<noteq> None"
    by (simp add: ex_reply_def transfer_start_def transfer_read_def put_body_def match_step_def parse_head_def HEAD_SIZE_def cstr_of_def Let_def)
  then obtain t where t: "transfer_loop ex_reply transfer_start = Some t" by blast
  have "after_blank (received ex_reply) = Some [1, 2]" by (simp add: ex_reply_def blank_def)
  then show ?thesis using t http_body_of_stream [OF t] by simp
qed

section \<open>The request\<close>

lemma format_string:
  assumes "is_cstr x" "length x < 2 ^ 32"
  shows "format_text (37 # 115 # fmt) (Str (Some (x @ [0])) # as) = map_option (\<lambda>t. x @ t) (format_text fmt as)"
proof -
  have spec: "format_spec (115 # fmt) bs = Some (\<lparr>left_align = False, zero_pad = False, fwidth = 0, precision = -1, longness = 0\<rparr>, 115 # fmt, bs)" for bs
    by (simp add: format_spec_def format_width_def format_precision_def Let_def)
  have "strlen_in (x @ [0]) = Some (length x)"
    using assms(1) cstr_of_append_0 [of x "[]"] by (simp add: strlen_in_def)
  moreover have "unat (of_nat (length x) :: u32) = length x" using assms(2) by (simp add: unat_of_nat_u32)
  ultimately show ?thesis
    by (simp add: format_text.simps(2) spec convert_text_def string_text_def padded_text_def Let_def)
qed

lemma format_plain: "37 \<notin> set l \<Longrightarrow> format_text (l @ fmt) as = map_option (\<lambda>t. l @ t) (format_text fmt as)"
proof (induction l)
  case Nil
  show ?case by (cases "format_text fmt as") auto
next
  case (Cons c l)
  then show ?case by (cases "format_text fmt as") (auto simp: format_text.simps(2))
qed

definition get_request :: "cstring \<Rightarrow> cstring \<Rightarrow> u8 list" where
  "get_request host path = cs ''GET '' @ path @ cs '' HTTP/1.0'' @ [13, 10] @ cs ''Host: '' @ host @ [13, 10] @
     cs ''User-Agent: lpzero'' @ [13, 10] @ cs ''Connection: close'' @ [13, 10, 13, 10]"

text \<open>The longest request a host and a path from \<open>url_split\<close> make is within the 768 bytes of the buffer.\<close>

lemma http_get_request:
  assumes "is_cstr host" "is_cstr path" "length host \<le> 127" "length path \<le> 511"
  shows "\<exists>rest. http_request (cs ''GET'') None host path =
      Some (Some (get_request host path @ 0 # rest), of_nat (length (get_request host path)))"
    and "length (get_request host path) \<le> 767"
proof -
  let ?m = "cs ''GET''" and ?tail = "cs ''User-Agent: lpzero'' @ [13, 10] @ cs ''Connection: close'' @ [13, 10] @ [13, 10 :: u8]"
  have f: "cs ''%s %s HTTP/1.0'' @ [13, 10] @ cs ''Host: %s'' @ [13, 10] @ ?tail =
      37 # 115 # ([32] @ 37 # 115 # ((cs '' HTTP/1.0'' @ [13, 10] @ cs ''Host: '') @ 37 # 115 # (([13, 10] @ ?tail) @ [])))"
    by (simp add: cs_def)
  have n: "37 \<notin> set [32 :: u8]" "37 \<notin> set (cs '' HTTP/1.0'' @ [13, 10] @ cs ''Host: '')" "37 \<notin> set ([13, 10] @ ?tail)"
    by (simp_all add: cs_def)
  have "format_text (cs ''%s %s HTTP/1.0'' @ [13, 10] @ cs ''Host: %s'' @ [13, 10] @ ?tail)
      [Str (Some (?m @ [0])), Str (Some (path @ [0])), Str (Some (host @ [0]))] = Some (get_request host path)"
  proof -
    have g: "is_cstr ?m" "length ?m < 2 ^ 32" "length path < 2 ^ 32" "length host < 2 ^ 32"
      using assms(3,4) by (simp_all add: cs_def)
    show ?thesis unfolding f format_string [OF g(1,2)] format_plain [OF n(1)] format_string [OF assms(2) g(3)]
        format_plain [OF n(2)] format_string [OF assms(1) g(4)] format_plain [OF n(3)]
      by (simp add: get_request_def cs_def)
  qed
  note t = this
  show l: "length (get_request host path) \<le> 767" using assms(3,4) by (simp add: get_request_def cs_def)
  have "snprintf (Some (replicate 768 0)) 768 (cs ''%s %s HTTP/1.0'' @ [13, 10] @ cs ''Host: %s'' @ [13, 10] @ ?tail)
      [Str (Some (?m @ [0])), Str (Some (path @ [0])), Str (Some (host @ [0]))] =
    Some (Some (take (unat (768 :: u64) - 1) (get_request host path) @ [0] @
      drop (min (length (get_request host path)) (unat (768 :: u64) - 1) + 1) (replicate 768 0)), of_nat (length (get_request host path)))"
    by (rule snprintf_text [OF t]) simp_all
  then show "\<exists>rest. http_request (cs ''GET'') None host path =
      Some (Some (get_request host path @ 0 # rest), of_nat (length (get_request host path)))"
    using l unfolding http_request_def Let_def by simp
qed




definition ex_ok :: "u8 list" where
  "ex_ok = [72, 84, 84, 80, 47, 49, 46, 49, 32, 50, 48, 48, 32, 79, 75, 13, 10, 13, 10, 104, 105]"

definition ex_world :: http_world where
  "ex_world = \<lparr>resolve = (\<lambda>_. 1), connects = (\<lambda>_ _. None), opens = True, serves = (\<lambda>_. [Some ex_ok]),
     before = None, keeps = (\<lambda>_. length), unlinks = True, https = (-1, None)\<rparr>"

definition ex_url :: cstring where
  "ex_url = [104, 116, 116, 112, 58, 47, 47, 97, 47, 98]"

lemma counted:
  "take_host (numeral k) (c # p) =
    (if c = 47 \<or> c = 58 then ([], c # p) else (let (h, r) = take_host (pred_numeral k) p in (c # h, r)))"
  "take_host (numeral k) [] = ([], [])"
  "strncmp a b (numeral k) =
    (if deref a \<noteq> 0 \<and> deref a = deref b then strncmp (tl a) (tl b) (pred_numeral k) else uint (deref a) - uint (deref b))"
  by (simp_all only: numeral_eq_Suc take_host.simps strncmp.simps)

lemma ex_url_split: "strncmp ex_url (cs ''https://'') 8 \<noteq> 0" "url_split ex_url 128 512 = Some (Some ([97], 80, [47, 98]))"
  by (simp_all add: ex_url_def url_split_def cs_def counted)

lemma ex_transfer: "\<exists>t. transfer_loop [Some ex_ok] transfer_start = Some t \<and> have_status t \<and> status t = 200 \<and>
    \<not> bad_read t \<and> content_length t = -1 \<and> body t = [104, 105] \<and> outs t = [[104, 105]]"
proof -
  have h: "header_value_long ex_ok (cs ''Content-Length:'') = Some (-1)"
    by (simp add: header_value_long.simps cs_def lower_ch_def ex_ok_def)
  have a: "atoi (cstr_of (drop 9 ex_ok)) = Some 200"
    by (simp add: atoi_def strtol_def strtol_digit_def ex_ok_def cstr_of_def)
  have m: "match_loop 0 ex_ok = (4, Some [104, 105])" by (simp add: ex_ok_def match_step_def)
  have c: "cstr_of ex_ok = ex_ok" "length ex_ok = 21" by (simp_all add: ex_ok_def cstr_of_def)
  moreover have "strncmp ex_ok (cs ''HTTP/'') 5 = 0" by (simp add: ex_ok_def cs_def counted)
  moreover have "ex_ok \<noteq> []" by (simp add: ex_ok_def)
  ultimately show ?thesis using h a m
    by (simp add: transfer_start_def transfer_read_def put_body_def parse_head_def HEAD_SIZE_def Let_def)
qed

lemma ex_fetch:
  assumes "connects w = connects ex_world" "resolve w = resolve ex_world" "opens w" "serves w = serves ex_world"
  shows "net_http_get w ex_url True = Some (2, [NoLength], Some (kept_of (keeps w) [] [[104, 105]]))"
proof -
  obtain t where t: "transfer_loop [Some ex_ok] transfer_start = Some t" "have_status t" "status t = 200" "\<not> bad_read t"
      "content_length t = -1" "body t = [104, 105]" "outs t = [[104, 105]]"
    using ex_transfer by blast
  obtain rest where q: "http_request (cs ''GET'') None [97] [47, 98] =
      Some (Some (get_request [97] [47, 98] @ 0 # rest), of_nat (length (get_request [97] [47, 98])))"
    using http_get_request(1) [of "[97]" "[47, 98]"] by auto
  have "length (get_request [97] [47, 98]) \<le> 767" by (rule http_get_request(2)) simp_all
  then have rn: "unat (of_nat (length (get_request [97] [47, 98])) :: u32) \<le> 768" by (simp add: unat_of_nat_u32)
  show ?thesis
    using t q rn assms by (simp add: net_http_get_def http_do_def ex_url_split ex_world_def http_verdict_def Let_def)
qed


text \<open>A disk that takes nothing of the body is not noticed: the fetch returns the length and leaves an empty file.\<close>

lemma lost_write_unnoticed:
  "net_http_get (ex_world\<lparr>keeps := \<lambda>_ _. 0\<rparr>) ex_url True = Some (2, [NoLength], Some [])"
  using ex_fetch [of "ex_world\<lparr>keeps := \<lambda>_ _. 0\<rparr>"] by (simp add: ex_world_def)

text \<open>A host name that does not fit is cut, and the rest of it taken for the path.\<close>

lemma long_host_cut:
  "url_split (cs ''http://'' @ replicate 130 97) 128 512 = Some (Some (replicate 127 97, 80, replicate 3 97))"
proof -
  have "take_host k (replicate (k + j) 97) = (replicate k 97, replicate j 97)" for k j
    by (induction k) auto
  from this [of 127 3] have "take_host 127 (replicate 130 97) = (replicate 127 97, replicate 3 97)" by simp
  moreover have "replicate 127 (97 :: u8) \<noteq> []" "replicate 3 (97 :: u8) = [97, 97, 97]" by (simp_all add: numeral_3_eq_3)
  moreover have "strncmp (cs ''http://'' @ p) (cs ''http://'') 7 = 0 \<and> drop 7 (cs ''http://'' @ p) = p" for p
    by (simp add: cs_def counted)
  ultimately show ?thesis unfolding url_split_def by (simp del: drop_append)
qed

text \<open>A line of the body can pass for a header, when it comes in the same read as the end of the headers.\<close>

lemma body_line_taken_for_header:
  "header_value_long [72, 13, 10, 13, 10, 97, 10, 67, 111, 110, 116, 101, 110, 116, 45, 76, 101, 110, 103, 116, 104, 58, 32, 55]
     (cs ''content-length:'') = Some 7"
  by (simp add: header_value_long.simps cs_def lower_ch_def skip_blanks_def is_digit_char_def strtol_def strtol_digit_def)

end
