(* ===== verification/LpCalc.thy ===== *)
theory LpCalc
  imports LpStdio
begin

text \<open>
  The integer calculator (\<open>userland/calc/calc.c\<close>): a recursive descent parser that evaluates as it
  reads.  Values are 64-bit signed integers; arithmetic that leaves them has no defined value in C
  and ends the evaluation as \<open>Undefined\<close>.  The mutual recursion takes fuel.
\<close>

section \<open>The parser's state\<close>

datatype calc_msg = MissingParen | ExpectedNumber | NegativeExponent | TooLarge | DivisionByZero | Unexpected

record parser =
  pos :: cstring
  failed :: "calc_msg option"

datatype stop = Undefined | OutOfFuel

type_synonym 'a calc = "stop + ('a \<times> parser)"

text \<open>\<open>error\<close> and \<open>msg\<close> of the source are one field; the first message stays.\<close>

definition fail :: "calc_msg \<Rightarrow> parser \<Rightarrow> parser" where
  "fail m ps = (if failed ps = None then ps\<lparr>failed := Some m\<rparr> else ps)"

definition skip_space :: "parser \<Rightarrow> parser" where
  "skip_space ps = ps\<lparr>pos := dropWhile (\<lambda>c. c = 32 \<or> c = 9) (pos ps)\<rparr>"

definition eat :: "cstring \<Rightarrow> parser \<Rightarrow> bool \<times> parser" where
  "eat opr ps =
     (let ps = skip_space ps; n = strlen opr in
      if strncmp (pos ps) opr n \<noteq> 0 then (False, ps) else (True, ps\<lparr>pos := drop n (pos ps)\<rparr>))"

section \<open>Arithmetic\<close>

definition s64 :: "int \<Rightarrow> stop + int" where
  "s64 v = (if - (2 ^ 63) \<le> v \<and> v < 2 ^ 63 then Inr v else Inl Undefined)"

text \<open>Division towards zero; the remainder has the sign of the dividend.\<close>

definition c_div :: "int \<Rightarrow> int \<Rightarrow> int" where
  "c_div a b = (if (a < 0) = (b < 0) then \<bar>a\<bar> div \<bar>b\<bar> else - (\<bar>a\<bar> div \<bar>b\<bar>))"

definition c_mod :: "int \<Rightarrow> int \<Rightarrow> int" where
  "c_mod a b = (if a < 0 then - (\<bar>a\<bar> mod \<bar>b\<bar>) else \<bar>a\<bar> mod \<bar>b\<bar>)"

definition shift_amount :: "int \<Rightarrow> nat" where
  "shift_amount n = unat (word_of_int n AND 63 :: u64)"

definition c_shl :: "int \<Rightarrow> int \<Rightarrow> int" where
  "c_shl v n = sint (push_bit (shift_amount n) (word_of_int v :: u64))"

definition c_shr :: "int \<Rightarrow> int \<Rightarrow> int" where
  "c_shr v n = sint (drop_bit (shift_amount n) (word_of_int v :: u64))"

definition calc_digit :: "u8 \<Rightarrow> int option" where
  "calc_digit c =
     (if 48 \<le> c \<and> c \<le> 57 then Some (int (unat c) - 48)
      else if 97 \<le> c \<and> c \<le> 102 then Some (int (unat c) - 97 + 10)
      else if 65 \<le> c \<and> c \<le> 70 then Some (int (unat c) - 65 + 10)
      else None)"

fun atom_digits :: "int \<Rightarrow> int \<Rightarrow> cstring \<Rightarrow> stop + (int \<times> cstring)" where
  "atom_digits base v [] = Inr (v, [])"
| "atom_digits base v (c # p) =
     (case calc_digit c of
        None \<Rightarrow> if c = 95 then atom_digits base v p else Inr (v, c # p)
      | Some d \<Rightarrow>
          if d \<ge> base then Inr (v, c # p)
          else andthen (s64 (v * base + d)) (\<lambda>v. atom_digits base v p))"

text \<open>\<open>None\<close> is the failure \<open>too large\<close>.\<close>

fun power_loop :: "nat \<Rightarrow> int \<Rightarrow> int \<Rightarrow> stop + int option" where
  "power_loop 0 r base = Inr (Some r)"
| "power_loop (Suc e) r base =
     andthen (s64 (r * base)) (\<lambda>r. if e > 62 then Inr None else power_loop e r base)"

definition atom_number :: "parser \<Rightarrow> int calc" where
  "atom_number ps =
     (let p = pos ps;
          (base, start) =
            (if ch p 0 = 48 \<and> (ch p 1 = 120 \<or> ch p 1 = 88) then (16, drop 2 p)
             else if ch p 0 = 48 \<and> (ch p 1 = 98 \<or> ch p 1 = 66) then (2, drop 2 p)
             else (10, p))
      in andthen (atom_digits base 0 start) (\<lambda>(v, p).
           if length p = length start then Inr (0, fail ExpectedNumber (ps\<lparr>pos := p\<rparr>))
           else Inr (v, ps\<lparr>pos := p\<rparr>)))"

section \<open>The levels\<close>

text \<open>
  Each level takes the parser of the expression in parentheses, or that of the next level, as an
  argument; \<open>parse_or\<close> closes the circle.  The fuel \<open>k\<close> bounds the rounds of a loop and the depth of
  the recursion, each of which consumes an operator.
\<close>

definition parse_atom :: "(parser \<Rightarrow> int calc) \<Rightarrow> parser \<Rightarrow> int calc" where
  "parse_atom por ps =
     (let (y, ps) = eat [40] (skip_space ps) in
      if y then andthen (por ps) (\<lambda>(v, ps).
        (let (y, ps) = eat [41] ps in Inr (v, if \<not> y then fail MissingParen ps else ps)))
      else atom_number ps)"

primrec parse_power :: "nat \<Rightarrow> (parser \<Rightarrow> int calc) \<Rightarrow> parser \<Rightarrow> int calc" where
  "parse_power 0 por ps = Inl OutOfFuel"
| "parse_power (Suc k) por ps =
     andthen (parse_atom por ps) (\<lambda>(base, ps).
       (let (y, ps) = eat [42, 42] ps in
        if \<not> y then Inr (base, ps)
        else andthen (parse_power k por ps) (\<lambda>(e, ps).
          if e < 0 then Inr (0, fail NegativeExponent ps)
          else andthen (power_loop (nat e) 1 base) (\<lambda>r.
            case r of None \<Rightarrow> Inr (0, fail TooLarge ps) | Some r \<Rightarrow> Inr (r, ps)))))"

primrec parse_unary :: "nat \<Rightarrow> (parser \<Rightarrow> int calc) \<Rightarrow> parser \<Rightarrow> int calc" where
  "parse_unary 0 por ps = Inl OutOfFuel"
| "parse_unary (Suc k) por ps =
     (let (y, ps) = eat [45] (skip_space ps) in
      if y then andthen (parse_unary k por ps) (\<lambda>(v, ps). andthen (s64 (- v)) (\<lambda>v. Inr (v, ps)))
      else
        (let (y, ps) = eat [43] ps in
         if y then parse_unary k por ps
         else
           (let (y, ps) = eat [126] ps in
            if y then andthen (parse_unary k por ps) (\<lambda>(v, ps). Inr (NOT v, ps))
            else parse_power (Suc k) por ps)))"

primrec mul_loop :: "nat \<Rightarrow> (parser \<Rightarrow> int calc) \<Rightarrow> int \<Rightarrow> parser \<Rightarrow> int calc" where
  "mul_loop 0 unary v ps = Inl OutOfFuel"
| "mul_loop (Suc k) unary v ps =
     (let ps = skip_space ps in
      if ch (pos ps) 0 = 42 \<and> ch (pos ps) 1 = 42 then Inr (v, ps)
      else
        (let (y, ps) = eat [42] ps in
         if y then andthen (unary ps) (\<lambda>(w, ps). andthen (s64 (v * w)) (\<lambda>v. mul_loop k unary v ps))
         else
           (let (y, ps) = eat [47] ps in
            if y then andthen (unary ps) (\<lambda>(d, ps).
              if d = 0 then Inr (0, fail DivisionByZero ps)
              else andthen (s64 (c_div v d)) (\<lambda>v. mul_loop k unary v ps))
            else
              (let (y, ps) = eat [37] ps in
               if y then andthen (unary ps) (\<lambda>(d, ps).
                 if d = 0 then Inr (0, fail DivisionByZero ps)
                 else andthen (s64 (c_div v d)) (\<lambda>_. mul_loop k unary (c_mod v d) ps))
               else Inr (v, ps)))))"

definition parse_mul :: "nat \<Rightarrow> (parser \<Rightarrow> int calc) \<Rightarrow> parser \<Rightarrow> int calc" where
  "parse_mul k por ps = andthen (parse_unary k por ps) (\<lambda>(v, ps). mul_loop k (parse_unary k por) v ps)"

primrec add_loop :: "nat \<Rightarrow> (parser \<Rightarrow> int calc) \<Rightarrow> int \<Rightarrow> parser \<Rightarrow> int calc" where
  "add_loop 0 mul v ps = Inl OutOfFuel"
| "add_loop (Suc k) mul v ps =
     (let (y, ps) = eat [43] (skip_space ps) in
      if y then andthen (mul ps) (\<lambda>(w, ps). andthen (s64 (v + w)) (\<lambda>v. add_loop k mul v ps))
      else
        (let (y, ps) = eat [45] ps in
         if y then andthen (mul ps) (\<lambda>(w, ps). andthen (s64 (v - w)) (\<lambda>v. add_loop k mul v ps))
         else Inr (v, ps)))"

definition parse_add :: "nat \<Rightarrow> (parser \<Rightarrow> int calc) \<Rightarrow> parser \<Rightarrow> int calc" where
  "parse_add k por ps = andthen (parse_mul k por ps) (\<lambda>(v, ps). add_loop k (parse_mul k por) v ps)"

primrec shift_loop :: "nat \<Rightarrow> (parser \<Rightarrow> int calc) \<Rightarrow> int \<Rightarrow> parser \<Rightarrow> int calc" where
  "shift_loop 0 add v ps = Inl OutOfFuel"
| "shift_loop (Suc k) add v ps =
     (let (y, ps) = eat [60, 60] ps in
      if y then andthen (add ps) (\<lambda>(w, ps). shift_loop k add (c_shl v w) ps)
      else
        (let (y, ps) = eat [62, 62] ps in
         if y then andthen (add ps) (\<lambda>(w, ps). shift_loop k add (c_shr v w) ps) else Inr (v, ps)))"

definition parse_shift :: "nat \<Rightarrow> (parser \<Rightarrow> int calc) \<Rightarrow> parser \<Rightarrow> int calc" where
  "parse_shift k por ps = andthen (parse_add k por ps) (\<lambda>(v, ps). shift_loop k (parse_add k por) v ps)"

primrec and_loop :: "nat \<Rightarrow> (parser \<Rightarrow> int calc) \<Rightarrow> int \<Rightarrow> parser \<Rightarrow> int calc" where
  "and_loop 0 shift v ps = Inl OutOfFuel"
| "and_loop (Suc k) shift v ps =
     (let (y, ps) = eat [38] ps in
      if y then andthen (shift ps) (\<lambda>(w, ps). and_loop k shift (v AND w) ps) else Inr (v, ps))"

definition parse_and :: "nat \<Rightarrow> (parser \<Rightarrow> int calc) \<Rightarrow> parser \<Rightarrow> int calc" where
  "parse_and k por ps = andthen (parse_shift k por ps) (\<lambda>(v, ps). and_loop k (parse_shift k por) v ps)"

primrec xor_loop :: "nat \<Rightarrow> (parser \<Rightarrow> int calc) \<Rightarrow> int \<Rightarrow> parser \<Rightarrow> int calc" where
  "xor_loop 0 pand v ps = Inl OutOfFuel"
| "xor_loop (Suc k) pand v ps =
     (let ps = skip_space ps in
      if ch (pos ps) 0 = 94 \<and> ch (pos ps) 1 \<noteq> 94
      then andthen (pand (ps\<lparr>pos := drop 1 (pos ps)\<rparr>)) (\<lambda>(w, ps). xor_loop k pand (v XOR w) ps)
      else Inr (v, ps))"

definition parse_xor :: "nat \<Rightarrow> (parser \<Rightarrow> int calc) \<Rightarrow> parser \<Rightarrow> int calc" where
  "parse_xor k por ps = andthen (parse_and k por ps) (\<lambda>(v, ps). xor_loop k (parse_and k por) v ps)"

primrec or_loop :: "nat \<Rightarrow> (parser \<Rightarrow> int calc) \<Rightarrow> int \<Rightarrow> parser \<Rightarrow> int calc" where
  "or_loop 0 pxor v ps = Inl OutOfFuel"
| "or_loop (Suc k) pxor v ps =
     (let (y, ps) = eat [124] ps in
      if y then andthen (pxor ps) (\<lambda>(w, ps). or_loop k pxor (v OR w) ps) else Inr (v, ps))"

primrec parse_or :: "nat \<Rightarrow> parser \<Rightarrow> int calc" where
  "parse_or 0 = (\<lambda>ps. Inl OutOfFuel)"
| "parse_or (Suc k) =
     (\<lambda>ps. andthen (parse_xor (Suc k) (parse_or k) ps) (\<lambda>(v, ps). or_loop (Suc k) (parse_xor (Suc k) (parse_or k)) v ps))"

section \<open>The command\<close>

definition calc_print :: "cstring \<Rightarrow> arg list \<Rightarrow> u8 list option" where
  "calc_print fmt as = map_option (\<lambda>(ws, n). concat (map snd ws)) (printf fmt as)"

definition top_bit :: "u64 \<Rightarrow> nat" where
  "top_bit v = (case find (\<lambda>i. bit v i) (rev [1..<64]) of None \<Rightarrow> 0 | Some i \<Rightarrow> i)"

fun binary_loop :: "u64 \<Rightarrow> nat \<Rightarrow> u8 list option" where
  "binary_loop v i = do {
     d \<leftarrow> calc_print (cs ''%c'') [Num (if drop_bit i v AND 1 \<noteq> 0 then 49 else 48)];
     u \<leftarrow> (if i \<noteq> 0 \<and> i mod 4 = 0 then calc_print (cs ''_'') [] else Some []);
     (if i = 0 then Some (d @ u) else map_option (\<lambda>r. d @ u @ r) (binary_loop v (i - 1)))
   }"

definition print_binary :: "u64 \<Rightarrow> u8 list option" where
  "print_binary v = (if v = 0 then calc_print (cs ''0'') [] else binary_loop v (top_bit v))"

definition calc_show :: "int \<Rightarrow> u8 list option" where
  "calc_show v = do {
     a \<leftarrow> calc_print (cs ''  %ld'' @ [10]) [Num (word_of_int v)];
     b \<leftarrow> calc_print (cs ''  0x%lx'' @ [10]) [Num (word_of_int v)];
     c \<leftarrow> calc_print (cs ''  0b'') [];
     d \<leftarrow> print_binary (word_of_int v);
     e \<leftarrow> calc_print [10] [];
     Some (a @ b @ c @ d @ e)
   }"

text \<open>What \<open>evaluate\<close> does: print the value, or complain and point at the rest of the input.\<close>

datatype outcome = Value int | Complaint calc_msg cstring

definition calc_fuel :: "cstring \<Rightarrow> nat" where
  "calc_fuel expr = Suc (length expr)"

definition calc_run :: "cstring \<Rightarrow> stop + outcome" where
  "calc_run expr =
     andthen (parse_or (calc_fuel expr) \<lparr>pos = expr, failed = None\<rparr>) (\<lambda>(v, ps).
       (let ps = skip_space ps;
            ps = (if failed ps = None \<and> deref (pos ps) \<noteq> 0 then fail Unexpected ps else ps)
        in case failed ps of Some m \<Rightarrow> Inr (Complaint m (pos ps)) | None \<Rightarrow> Inr (Value v)))"

text \<open>The exit status and what goes to standard output.\<close>

definition evaluate :: "cstring \<Rightarrow> bool \<Rightarrow> (stop + (nat \<times> u8 list option))" where
  "evaluate expr verbose =
     andthen (calc_run expr) (\<lambda>r. case r of
       Complaint m rest \<Rightarrow> Inr (1, Some [])
     | Value v \<Rightarrow> Inr (0, if verbose then calc_show v else calc_print (cs ''%ld'' @ [10]) [Num (word_of_int v)]))"

text \<open>The arguments joined by blanks in a buffer of 512 bytes.\<close>

fun join_args :: "cstring \<Rightarrow> cstring list \<Rightarrow> cstring" where
  "join_args e [] = e"
| "join_args e (a # as) =
     (let e = e @ take (511 - length e) a;
          e = (if as \<noteq> [] then e @ take (511 - length e) [32] else e)
      in join_args e as)"

text \<open>The command with arguments; without them it reads lines, which is not modelled (\<open>None\<close>).\<close>

definition calc_main :: "cstring list \<Rightarrow> (stop + (nat \<times> u8 list option)) option" where
  "calc_main args = (if args = [] then None else Some (evaluate (join_args [] args) True))"

end
