(* ===== verification/CalcWf.thy ===== *)
theory CalcWf
  imports LpCalc StdioText
begin

text \<open>
  The calculator against a reference: expression trees with their value and their text.  A locale
  states what the loop of a left-associative level does with its operators, and is interpreted for
  the six levels; from it follows that the text of a tree is read as its value.
\<close>

section \<open>Expressions\<close>

datatype binop = OOr | OXor | OAnd | OShl | OShr | OAdd | OSub | OMul | ODiv | OMod
datatype unop = ONeg | OPlus | ONot
datatype expr = Dec nat | Hex nat | Unary unop expr | Binary binop expr expr | Power expr expr

definition in_s64 :: "int \<Rightarrow> int option" where
  "in_s64 v = (if - (2 ^ 63) \<le> v \<and> v < 2 ^ 63 then Some v else None)"

text \<open>The signed reading of the low 64 bits.\<close>

definition wrap64 :: "int \<Rightarrow> int" where
  "wrap64 v = (v + 2 ^ 63) mod 2 ^ 64 - 2 ^ 63"

fun bin_value :: "binop \<Rightarrow> int \<Rightarrow> int \<Rightarrow> int option" where
  "bin_value OOr a b = Some (a OR b)"
| "bin_value OXor a b = Some (a XOR b)"
| "bin_value OAnd a b = Some (a AND b)"
| "bin_value OShl a b = Some (wrap64 (a * 2 ^ nat (b mod 64)))"
| "bin_value OShr a b = Some (wrap64 ((a mod 2 ^ 64) div 2 ^ nat (b mod 64)))"
| "bin_value OAdd a b = in_s64 (a + b)"
| "bin_value OSub a b = in_s64 (a - b)"
| "bin_value OMul a b = in_s64 (a * b)"
| "bin_value ODiv a b = (if b = 0 then None else in_s64 (c_div a b))"
| "bin_value OMod a b = (if b = 0 then None else map_option (\<lambda>_. c_mod a b) (in_s64 (c_div a b)))"

fun un_value :: "unop \<Rightarrow> int \<Rightarrow> int option" where
  "un_value ONeg a = in_s64 (- a)"
| "un_value OPlus a = Some a"
| "un_value ONot a = Some (NOT a)"

definition pow_value :: "int \<Rightarrow> int \<Rightarrow> int option" where
  "pow_value a b = (if 0 \<le> b \<and> b \<le> 63 then in_s64 (a ^ nat b) else None)"

fun expr_value :: "expr \<Rightarrow> int option" where
  "expr_value (Dec n) = in_s64 (int n)"
| "expr_value (Hex n) = in_s64 (int n)"
| "expr_value (Unary u a) = expr_value a \<bind> un_value u"
| "expr_value (Binary f a b) = expr_value a \<bind> (\<lambda>x. expr_value b \<bind> bin_value f x)"
| "expr_value (Power a b) = expr_value a \<bind> (\<lambda>x. expr_value b \<bind> pow_value x)"

fun op_level :: "binop \<Rightarrow> nat" where
  "op_level OOr = 1" | "op_level OXor = 2" | "op_level OAnd = 3" | "op_level OShl = 4" | "op_level OShr = 4"
| "op_level OAdd = 5" | "op_level OSub = 5" | "op_level OMul = 6" | "op_level ODiv = 6" | "op_level OMod = 6"

fun op_text :: "binop \<Rightarrow> cstring" where
  "op_text OOr = [124]" | "op_text OXor = [94]" | "op_text OAnd = [38]" | "op_text OShl = [60, 60]" | "op_text OShr = [62, 62]"
| "op_text OAdd = [43]" | "op_text OSub = [45]" | "op_text OMul = [42]" | "op_text ODiv = [47]" | "op_text OMod = [37]"

fun un_text :: "unop \<Rightarrow> u8" where
  "un_text ONeg = 45" | "un_text OPlus = 43" | "un_text ONot = 126"

fun expr_level :: "expr \<Rightarrow> nat" where
  "expr_level (Dec n) = 9" | "expr_level (Hex n) = 9" | "expr_level (Unary u a) = 7"
| "expr_level (Binary f a b) = op_level f" | "expr_level (Power a b) = 8"

text \<open>The text of an expression, with parentheses exactly where its level asks for them.\<close>

fun expr_text :: "expr \<Rightarrow> cstring" where
  "expr_text (Dec n) = fmt_uint 24 (of_nat n) 10 False"
| "expr_text (Hex n) = [48, 120] @ fmt_uint 24 (of_nat n) 16 False"
| "expr_text (Unary u a) = un_text u # (if expr_level a \<ge> 7 then expr_text a else [40] @ expr_text a @ [41])"
| "expr_text (Binary f a b) =
     (if expr_level a \<ge> op_level f then expr_text a else [40] @ expr_text a @ [41]) @ op_text f @
     (if expr_level b \<ge> Suc (op_level f) then expr_text b else [40] @ expr_text b @ [41])"
| "expr_text (Power a b) =
     (if expr_level a \<ge> 9 then expr_text a else [40] @ expr_text a @ [41]) @ [42, 42] @
     (if expr_level b \<ge> 8 then expr_text b else [40] @ expr_text b @ [41])"

definition text_at :: "nat \<Rightarrow> expr \<Rightarrow> cstring" where
  "text_at n e = (if expr_level e \<ge> n then expr_text e else [40] @ expr_text e @ [41])"

lemma expr_text_at:
  "expr_text (Unary u a) = un_text u # text_at 7 a"
  "expr_text (Binary f a b) = text_at (op_level f) a @ op_text f @ text_at (Suc (op_level f)) b"
  "expr_text (Power a b) = text_at 9 a @ [42, 42] @ text_at 8 b"
  by (simp_all add: text_at_def)

declare expr_text.simps(3-5) [simp del]

section \<open>What may begin and follow an operand\<close>

definition begins :: "cstring \<Rightarrow> bool" where
  "begins t \<longleftrightarrow> t \<noteq> [] \<and> (48 \<le> hd t \<and> hd t \<le> 57 \<or> hd t \<in> {40, 43, 45, 126})"

definition follows :: "nat \<Rightarrow> cstring \<Rightarrow> bool" where
  "follows n t \<longleftrightarrow> t = [] \<or> hd t = 41 \<or> (\<exists>f r. t = op_text f @ r \<and> begins r \<and> op_level f < n) \<or>
     (n = 9 \<and> (\<exists>r. t = [42, 42] @ r))"

lemma calc_digit_chars: "list_all (\<lambda>n. calc_digit (digit_char False (of_nat n)) = Some (int n) \<and>
    (n < 10 \<longrightarrow> 48 \<le> digit_char False (of_nat n) \<and> digit_char False (of_nat n) \<le> 57)) [0..<16]"
proof -
  have u: "[0..<16] = [0, 1, 2, 3, 4, 5, 6, 7, 8, 9, 10, 11, 12, 13, 14, 15]" by (simp add: upt_rec)
  show ?thesis unfolding u by (simp add: digit_char_def digit_tables calc_digit_def)
qed

lemma calc_digit_char:
  assumes "unat d < 16"
  shows "calc_digit (digit_char False d) = Some (int (unat d))"
    and "unat d < 10 \<Longrightarrow> 48 \<le> digit_char False d \<and> digit_char False d \<le> 57"
proof -
  have "calc_digit (digit_char False (of_nat (unat d))) = Some (int (unat d)) \<and>
    (unat d < 10 \<longrightarrow> 48 \<le> digit_char False (of_nat (unat d)) \<and> digit_char False (of_nat (unat d)) \<le> 57)"
    using calc_digit_chars assms unfolding list_all_iff by (metis (mono_tags, lifting) atLeastLessThan_iff set_upt zero_le)
  then show "calc_digit (digit_char False d) = Some (int (unat d))"
    "unat d < 10 \<Longrightarrow> 48 \<le> digit_char False d \<and> digit_char False d \<le> 57" by simp_all
qed

text \<open>The digits that \<open>fmt_uint\<close> prints are read back, whatever follows them.\<close>

lemma atom_digits_loop:
  assumes "2 \<le> unat base" "unat base \<le> 16"
  shows "unat v < unat base ^ k \<Longrightarrow> unat v < 2 ^ 63 \<Longrightarrow>
    atom_digits (int (unat base)) 0 (rev (digits_loop False base k v) @ s) = atom_digits (int (unat base)) (int (unat v)) s"
proof (induction k arbitrary: v s)
  case (Suc k)
  show ?case
  proof (cases "v = 0")
    case False
    let ?q = "v div base" and ?d = "v mod base"
    have b: "0 < unat base" using assms(1) by simp
    have d2: "unat ?d < unat base" using b by (simp add: unat_mod_base)
    then have d: "unat ?d < 16" "unat ?d < unat base" using assms(2) by simp_all
    have q: "unat ?q < unat base ^ k" "unat ?q < 2 ^ 63"
      using Suc.prems b by (simp_all add: unat_mod_base div_less_iff_less_mult mult.commute le_less_trans [OF div_le_dividend])
    have e: "uint ?q * uint base + uint ?d = uint v"
      by (simp only: uint_div uint_mod div_mult_mod_eq)
    have "int (unat v) < int (2 ^ 63)" using Suc.prems(2) by (simp only: of_nat_less_iff)
    then have lt: "uint v < 2 ^ 63" by simp
    have ud: "uint ?d < uint base" using d(2) by (simp flip: of_nat_less_iff [where 'a = int])
    have "0 \<le> uint v" by simp
    then have lo: "- (2 ^ 63) \<le> uint v" by (rule order_trans [rotated]) simp
    have "atom_digits (int (unat base)) 0 (rev (digits_loop False base (Suc k) v) @ s)
        = atom_digits (int (unat base)) (int (unat ?q)) (digit_char False ?d # s)"
      using False Suc.IH [OF q] by simp
    also have "\<dots> = atom_digits (int (unat base)) (int (unat v)) s"
      using d lt ud lo by (simp add: calc_digit_char e s64_def)
    finally show ?thesis .
  qed simp
qed simp

lemma atom_digits_end: "calc_digit (ch s 0) = None \<Longrightarrow> ch s 0 \<noteq> 95 \<Longrightarrow> atom_digits base v s = Inr (v, s)"
  by (cases s) auto

lemma atom_digits_fmt_uint:
  assumes "base = 10 \<or> base = 16" "unat v < 2 ^ 63" "calc_digit (ch s 0) = None" "ch s 0 \<noteq> 95"
  shows "atom_digits (int (unat base)) 0 (fmt_uint 24 v base False @ s) = Inr (int (unat v), s)"
proof (cases "v = 0")
  case True
  then show ?thesis using assms atom_digits_end [of s _ 0] by (auto simp: fmt_uint_def calc_digit_def s64_def)
next
  case False
  have b: "base = 8 \<or> base = 10 \<or> base = 16" using assms(1) by simp
  show ?thesis
    using fmt_uint_digits(1) [OF b False, of False] fmt_uint_digits(2) [OF b, of v] atom_digits_loop [of base v 24 s] assms atom_digits_end by simp
qed

lemma fmt_uint_begins:
  assumes "base = 10 \<or> base = 16"
  shows "fmt_uint 24 v base False \<noteq> []"
    and "base = 10 \<Longrightarrow> 48 \<le> hd (fmt_uint 24 v base False) \<and> hd (fmt_uint 24 v base False) \<le> 57"
    and "v \<noteq> 0 \<Longrightarrow> hd (fmt_uint 24 v base False) \<noteq> 48"
proof -
  have b: "base = 8 \<or> base = 10 \<or> base = 16" using assms(1) by simp
  note f = fmt_uint_digits(1) [OF b, of v False] fmt_uint_digits(2) [OF b, of v]
  have "v \<noteq> 0 \<Longrightarrow> \<exists>d rest. rev (digits_loop False base 24 v) = digit_char False d # rest \<and> d \<noteq> 0 \<and> unat d < 16"
    using digits_first [of base v 24 False] f(2) by simp
  then have "fmt_uint 24 v base False \<noteq> [] \<and> (v \<noteq> 0 \<longrightarrow> hd (fmt_uint 24 v base False) \<noteq> 48)"
    using f(1) digit_char_value(2) [of _ False] by (cases "v = 0") (auto simp: fmt_uint_def)
  then show ne: "fmt_uint 24 v base False \<noteq> []" and "v \<noteq> 0 \<Longrightarrow> hd (fmt_uint 24 v base False) \<noteq> 48" by simp_all
  have l: "list_all (\<lambda>c. 48 \<le> c \<and> c \<le> 57) (digits_loop False 10 k v)" for k v
  proof (induction k arbitrary: v)
    case (Suc k)
    have "unat (v mod 10) < 10" using unat_mod_base(1) [of v 10] by simp
    then show ?case using Suc calc_digit_char(2) [of "v mod 10"] by auto
  qed simp
  show "48 \<le> hd (fmt_uint 24 v base False) \<and> hd (fmt_uint 24 v base False) \<le> 57" if "base = 10"
  proof (cases "v = 0")
    case True
    then show ?thesis by (simp add: fmt_uint_def)
  next
    case False
    then show ?thesis using f(1) ne l [of 24 v] that hd_in_set [of "rev (digits_loop False 10 24 v)"]
      by (auto simp: list_all_iff)
  qed
qed

lemma follows_mono: "follows n t \<Longrightarrow> n \<le> m \<Longrightarrow> m \<le> 9 \<Longrightarrow> follows m t"
  unfolding follows_def by (metis le_antisym less_le_trans)

abbreviation st :: "cstring \<Rightarrow> parser" where
  "st p \<equiv> \<lparr>pos = p, failed = None\<rparr>"

lemma follows_char:
  assumes "follows n t" "t \<noteq> []"
  shows "hd t \<in> {41, 124, 94, 38, 60, 62, 43, 45, 42, 47, 37}"
proof -
  have "hd (op_text f @ r) \<in> {124, 94, 38, 60, 62, 43, 45, 42, 47, 37}" for f r by (cases f) auto
  then show ?thesis using assms by (fastforce simp: follows_def)
qed

lemma skip_space_st: "begins t \<or> follows n t \<Longrightarrow> skip_space (st t) = st t"
proof (cases t)
  case (Cons c r)
  assume "begins t \<or> follows n t"
  then have "c \<noteq> 32 \<and> c \<noteq> 9" using follows_char [of n t] by (auto simp: begins_def Cons)
  then show ?thesis by (simp add: skip_space_def Cons)
qed (simp add: skip_space_def)

definition spaceless :: "cstring \<Rightarrow> bool" where
  "spaceless t \<longleftrightarrow> t = [] \<or> hd t \<noteq> 32 \<and> hd t \<noteq> 9"

lemma spaceless_simps [simp]: "spaceless []" "spaceless (c # t) \<longleftrightarrow> c \<noteq> 32 \<and> c \<noteq> 9"
  by (simp_all add: spaceless_def)

lemma skip_spaceless: "spaceless t \<Longrightarrow> skip_space (st t) = st t"
  by (cases t) (simp_all add: skip_space_def)

lemma begins_spaceless: "begins t \<Longrightarrow> spaceless t"
  by (cases t) (auto simp: begins_def)

lemma follows_spaceless: "follows n t \<Longrightarrow> spaceless t"
  using follows_char [of n t] by (cases t) auto

lemma eat_one:
  assumes "c \<noteq> 0" "spaceless t"
  shows "eat [c] (st t) = (if deref t = c then (True, st (tl t)) else (False, st t))"
  using assms by (cases t) (auto simp: eat_def skip_spaceless Let_def)

lemma eat_two:
  assumes "c \<noteq> 0" "d \<noteq> 0" "spaceless t"
  shows "eat [c, d] (st t) = (if ch t 0 = c \<and> ch t 1 = d then (True, st (drop 2 t)) else (False, st t))"
proof (cases t)
  case Nil
  then show ?thesis using assms by (auto simp: eat_def skip_spaceless Let_def numeral_2_eq_2)
next
  case (Cons x r)
  then show ?thesis using assms by (cases r) (auto simp: eat_def skip_spaceless Let_def numeral_2_eq_2)
qed

lemma s64_in: "in_s64 v = Some w \<Longrightarrow> s64 v = Inr w \<and> v = w"
  by (auto simp: in_s64_def s64_def split: if_splits)

lemma op_text_facts: "op_text f \<noteq> []" "spaceless (op_text f @ t)"
  by (cases f; simp)+

section \<open>Reading an operand\<close>

lemma text_at_begins:
  "expr_value e = Some v \<Longrightarrow> begins (text_at n e @ rest)"
  "expr_value e = Some v \<Longrightarrow> 8 \<le> n \<Longrightarrow> hd (text_at n e @ rest) \<notin> {43, 45, 126}"
proof -
  have "expr_value e = Some v \<Longrightarrow> begins (text_at n e @ rest) \<and> (8 \<le> n \<longrightarrow> hd (text_at n e @ rest) \<notin> {43, 45, 126})"
  proof (induction e arbitrary: n v rest)
    case (Dec d)
    show ?case
    proof (cases "n \<le> 9")
      case True
      have "begins (fmt_uint 24 (of_nat d) 10 False @ rest)" "hd (fmt_uint 24 (of_nat d) 10 False @ rest) \<notin> {43, 45, 126}"
        using fmt_uint_begins [of 10 "of_nat d"] by (auto simp: begins_def hd_append)
      then show ?thesis using True by (simp add: text_at_def)
    qed (simp add: text_at_def begins_def)
  next
    case (Unary u a)
    then show ?case by (cases u) (auto simp: text_at_def [of n] expr_text_at begins_def)
  next
    case (Binary f a b)
    have "op_level f < 8" by (cases f) auto
    obtain x where "expr_value a = Some x" using Binary.prems by (auto simp: bind_eq_Some_conv)
    from Binary.IH(1) [OF this, of "op_level f" "op_text f @ text_at (Suc (op_level f)) b @ rest"]
    have "begins (expr_text (Binary f a b) @ rest)" by (simp add: expr_text_at)
    then show ?case using \<open>op_level f < 8\<close> by (simp add: text_at_def [of n] begins_def)
  next
    case (Power a b)
    then obtain x where "expr_value a = Some x" by (auto simp: bind_eq_Some_conv)
    from Power.IH(1) [OF this, of 9 "[42, 42] @ text_at 8 b @ rest"]
    have "begins (expr_text (Power a b) @ rest)" "hd (expr_text (Power a b) @ rest) \<notin> {43, 45, 126}"
      by (simp_all add: expr_text_at)
    then show ?case by (simp add: text_at_def [of n] begins_def)
  qed (auto simp: text_at_def begins_def)
  then show "expr_value e = Some v \<Longrightarrow> begins (text_at n e @ rest)"
    "expr_value e = Some v \<Longrightarrow> 8 \<le> n \<Longrightarrow> hd (text_at n e @ rest) \<notin> {43, 45, 126}" by blast+
qed

text \<open>The parser \<open>P\<close> reads the text at level \<open>n\<close> of every expression of at most \<open>m\<close> bytes.\<close>

definition reads :: "nat \<Rightarrow> nat \<Rightarrow> (parser \<Rightarrow> int calc) \<Rightarrow> bool" where
  "reads n m P \<longleftrightarrow> (\<forall>e v rest. expr_value e = Some v \<longrightarrow> length (text_at n e) \<le> m \<longrightarrow> follows n rest \<longrightarrow>
     P (st (text_at n e @ rest)) = Inr (v, st rest))"

text \<open>
  What a loop does with the operators of its level: with one in front of an operand that \<open>nxt\<close> reads
  it computes and goes on, and in front of what follows the level it ends.
\<close>

locale level =
  fixes n :: nat
    and loop :: "nat \<Rightarrow> (parser \<Rightarrow> int calc) \<Rightarrow> int \<Rightarrow> parser \<Rightarrow> int calc"
  assumes low: "n < 7"
    and step: "op_level f = n \<Longrightarrow> begins t \<Longrightarrow> nxt (st t) = Inr (b, ps) \<Longrightarrow> bin_value f a b = Some v \<Longrightarrow>
      loop (Suc k) nxt a (st (op_text f @ t)) = loop k nxt v ps"
    and stop: "follows n t \<Longrightarrow> loop (Suc k) nxt v (st t) = Inr (v, st t)"
begin

lemma other:
  assumes "reads (Suc n) m nxt" "expr_level e \<noteq> n" "expr_value e = Some v" "length (text_at n e) \<le> m" "follows (Suc n) rest"
  shows "\<exists>k'. k < k' + length (text_at n e) \<and>
      andthen (nxt (st (text_at n e @ rest))) (\<lambda>(v, ps). loop k nxt v ps) = loop k' nxt v (st rest)"
proof -
  have t: "text_at n e = text_at (Suc n) e" using assms(2) by (auto simp: text_at_def)
  have "nxt (st (text_at n e @ rest)) = Inr (v, st rest)" using assms unfolding reads_def t by blast
  moreover have "text_at n e \<noteq> []" using text_at_begins(1) [OF assms(3), of n "[]"] by (simp add: begins_def)
  ultimately show ?thesis by (intro exI [of _ k]) simp
qed

lemma spine:
  assumes nxt: "reads (Suc n) m nxt"
  shows "expr_value e = Some v \<Longrightarrow> length (text_at n e) \<le> m \<Longrightarrow> length (text_at n e) \<le> k \<Longrightarrow> follows (Suc n) rest \<Longrightarrow>
    \<exists>k'. k < k' + length (text_at n e) \<and>
      andthen (nxt (st (text_at n e @ rest))) (\<lambda>(v, ps). loop k nxt v ps) = loop k' nxt v (st rest)"
proof (induction e arbitrary: v rest)
  case (Binary f a b)
  show ?case
  proof (cases "op_level f = n")
    case True
    let ?rest = "op_text f @ text_at (Suc n) b @ rest"
    have t: "text_at n (Binary f a b) = text_at n a @ op_text f @ text_at (Suc n) b"
      using True by (simp add: text_at_def [of n "Binary f a b"] expr_text_at)
    obtain x y where x: "expr_value a = Some x" "expr_value b = Some y" "bin_value f x y = Some v"
      using Binary.prems(1) by (auto simp: bind_eq_Some_conv)
    have len: "length (text_at n a) \<le> m" "length (text_at n a) < k" "length (text_at (Suc n) b) \<le> m"
      using Binary.prems(2,3) op_text_facts(1) [of f] by (auto simp: t simp flip: length_greater_0_conv)
    have bb: "begins (text_at (Suc n) b @ rest)" using text_at_begins [OF x(2)] by blast
    have "follows (Suc n) ?rest" using bb True unfolding follows_def by blast
    from Binary.IH(1) [OF x(1) len(1) less_imp_le [OF len(2)] this]
    obtain k1 where k1: "k < k1 + length (text_at n a)"
      "andthen (nxt (st (text_at n a @ ?rest))) (\<lambda>(v, ps). loop k nxt v ps) = loop k1 nxt x (st ?rest)" by blast
    obtain j where j: "k1 = Suc j" using k1(1) len(2) by (cases k1) auto
    have "nxt (st (text_at (Suc n) b @ rest)) = Inr (y, st rest)"
      using nxt x(2) len(3) Binary.prems(4) unfolding reads_def by blast
    from step [where nxt = nxt, OF True bb this x(3)] show ?thesis
      using k1 op_text_facts(1) [of f] by (intro exI [of _ j]) (auto simp: t j simp flip: length_greater_0_conv)
  next
    case False
    then show ?thesis using Binary.prems nxt by (intro other) simp_all
  qed
qed (rule other; use low nxt in simp)+

lemma reads_level:
  assumes "reads (Suc n) m nxt" "m \<le> k"
  shows "reads n m (\<lambda>ps. andthen (nxt ps) (\<lambda>(v, ps). loop k nxt v ps))"
  unfolding reads_def
proof (intro allI impI)
  fix e v rest
  assume e: "expr_value e = Some v" "length (text_at n e) \<le> m" "follows n rest"
  have "follows (Suc n) rest" using follows_mono [OF e(3), of "Suc n"] low by simp
  then obtain k' where k': "k < k' + length (text_at n e)"
    "andthen (nxt (st (text_at n e @ rest))) (\<lambda>(v, ps). loop k nxt v ps) = loop k' nxt v (st rest)"
    using spine [OF assms(1) e(1,2)] assms(2) e(2) by (meson order_trans)
  then obtain j where "k' = Suc j" using e(2) assms(2) by (cases k') auto
  then show "andthen (nxt (st (text_at n e @ rest))) (\<lambda>(v, ps). loop k nxt v ps) = Inr (v, st rest)"
    using k'(2) stop [OF e(3)] by simp
qed

end

lemma ex_binop: "(\<exists>f. P f) \<longleftrightarrow> P OOr \<or> P OXor \<or> P OAnd \<or> P OShl \<or> P OShr \<or> P OAdd \<or> P OSub \<or> P OMul \<or> P ODiv \<or> P OMod"
  by (metis binop.exhaust)

lemma follows_ch:
  assumes "follows n t" "n \<le> 9"
  shows "ch t 0 = 0 \<or> ch t 0 = 41 \<or> (\<exists>f. ch t 0 = hd (op_text f) \<and> op_level f < n)"
proof -
  consider "t = []" | "t \<noteq> []" "hd t = 41" | f r where "t = op_text f @ r" "op_level f < n" | r where "t = op_text OMul @ 42 # r" "n = 9"
    using assms by (auto simp: follows_def)
  then show ?thesis
  proof cases
    case (3 f r)
    have "ch (op_text f @ r) 0 = hd (op_text f)" using op_text_facts(1) [of f] by (cases "op_text f") auto
    then show ?thesis using 3 by blast
  next
    case (4 r)
    then show ?thesis by (intro disjI2 exI [of _ OMul]) simp
  qed (auto simp: ch_def hd_conv_nth)
qed

text \<open>The single characters that may follow, level by level.\<close>

lemma follows_not:
  assumes "follows n t" "n \<le> 9"
  shows "n \<le> 1 \<Longrightarrow> ch t 0 \<noteq> 124" "n \<le> 2 \<Longrightarrow> ch t 0 \<noteq> 94" "n \<le> 3 \<Longrightarrow> ch t 0 \<noteq> 38"
    "n \<le> 4 \<Longrightarrow> ch t 0 \<noteq> 60 \<and> ch t 0 \<noteq> 62" "n \<le> 5 \<Longrightarrow> ch t 0 \<noteq> 43 \<and> ch t 0 \<noteq> 45"
    "n \<le> 6 \<Longrightarrow> ch t 0 \<noteq> 42 \<and> ch t 0 \<noteq> 47 \<and> ch t 0 \<noteq> 37" "ch t 0 \<noteq> 126" "ch t 0 \<noteq> 40" "ch t 0 \<noteq> 95"
    "calc_digit (ch t 0) = None" "ch t 0 \<notin> {120, 88, 98, 66}"
  using follows_ch [OF assms] unfolding ex_binop by (auto simp: calc_digit_def)

lemma begins_not: "begins r \<Longrightarrow> deref r \<noteq> 94 \<and> deref r \<noteq> 42 \<and> ch r 0 \<noteq> 94 \<and> ch r 0 \<noteq> 42 \<and> r \<noteq> []"
  by (cases r) (auto simp: begins_def)

interpretation or_level: level 1 or_loop
proof (unfold_locales)
  fix f a b v k t ps and nxt :: "parser \<Rightarrow> int calc"
  assume "op_level f = 1" "begins t" "nxt (st t) = Inr (b, ps)" "bin_value f a b = Some v"
  then show "or_loop (Suc k) nxt a (st (op_text f @ t)) = or_loop k nxt v ps"
    by (cases f) (auto simp: eat_one Let_def)
next
  fix t k v and nxt :: "parser \<Rightarrow> int calc"
  assume a: "follows 1 t"
  then show "or_loop (Suc k) nxt v (st t) = Inr (v, st t)"
    using follows_spaceless [OF a] follows_not [OF a] by (simp add: eat_one Let_def ch_0_deref)
qed simp

interpretation xor_level: level 2 xor_loop
proof (unfold_locales)
  fix f a b v k t ps and nxt :: "parser \<Rightarrow> int calc"
  assume "op_level f = 2" "begins t" "nxt (st t) = Inr (b, ps)" "bin_value f a b = Some v"
  then show "xor_loop (Suc k) nxt a (st (op_text f @ t)) = xor_loop k nxt v ps"
    using begins_not [of t] by (cases f) (auto simp: skip_spaceless Let_def)
next
  fix t k v and nxt :: "parser \<Rightarrow> int calc"
  assume a: "follows 2 t"
  then show "xor_loop (Suc k) nxt v (st t) = Inr (v, st t)"
    using follows_spaceless [OF a] follows_not [OF a] by (simp add: skip_spaceless Let_def)
qed simp

interpretation and_level: level 3 and_loop
proof (unfold_locales)
  fix f a b v k t ps and nxt :: "parser \<Rightarrow> int calc"
  assume "op_level f = 3" "begins t" "nxt (st t) = Inr (b, ps)" "bin_value f a b = Some v"
  then show "and_loop (Suc k) nxt a (st (op_text f @ t)) = and_loop k nxt v ps"
    by (cases f) (auto simp: eat_one Let_def)
next
  fix t k v and nxt :: "parser \<Rightarrow> int calc"
  assume a: "follows 3 t"
  then show "and_loop (Suc k) nxt v (st t) = Inr (v, st t)"
    using follows_spaceless [OF a] follows_not [OF a] by (simp add: eat_one Let_def ch_0_deref)
qed simp

lemma shift_amount_eq: "shift_amount n = nat (n mod 64)"
proof -
  have "word_of_int n AND 63 = (take_bit 6 (word_of_int n) :: u64)"
    using take_bit_eq_mask [of 6 "word_of_int n :: u64"] by (simp add: mask_eq_exp_minus_1)
  then have "uint (word_of_int n AND 63 :: u64) = uint (take_bit 6 (word_of_int n :: u64))" by (simp only:)
  also have "\<dots> = take_bit 6 (take_bit 64 n)"
    by (simp only: unsigned_take_bit_eq) (simp add: uint_word_of_int take_bit_eq_mod)
  also have "\<dots> = n mod 64" by (simp add: take_bit_eq_mod mod_mod_cancel)
  finally show ?thesis unfolding shift_amount_def unat_eq_nat_uint by simp
qed

lemma sint_wrap: "sint (w :: u64) = wrap64 (uint w)"
  unfolding wrap64_def sint_uint by (simp add: signed_take_bit_eq_take_bit_shift take_bit_eq_mod)

lemma wrap64_mod: "wrap64 (v mod 2 ^ 64) = wrap64 v"
  by (simp add: wrap64_def mod_add_left_eq)

lemma c_shl_wrap:
  "c_shl v n = wrap64 (v * 2 ^ nat (n mod 64))" "c_shr v n = wrap64 ((v mod 2 ^ 64) div 2 ^ nat (n mod 64))"
proof -
  have "uint (push_bit j (word_of_int v :: u64)) = (v * 2 ^ j) mod 2 ^ 64" for j
    by (simp only: unsigned_push_bit_eq) (simp add: uint_word_of_int push_bit_eq_mult take_bit_eq_mod mod_mult_left_eq)
  then show "c_shl v n = wrap64 (v * 2 ^ nat (n mod 64))"
    unfolding c_shl_def sint_wrap by (simp only: wrap64_mod shift_amount_eq)
  have "uint (drop_bit j (word_of_int v :: u64)) = (v mod 2 ^ 64) div 2 ^ j" for j
    by (simp only: unsigned_drop_bit_eq) (simp add: uint_word_of_int drop_bit_eq_div take_bit_eq_mod)
  then show "c_shr v n = wrap64 ((v mod 2 ^ 64) div 2 ^ nat (n mod 64))"
    unfolding c_shr_def sint_wrap by (simp only: shift_amount_eq)
qed

interpretation shift_level: level 4 shift_loop
proof (unfold_locales)
  fix f a b v k t ps and nxt :: "parser \<Rightarrow> int calc"
  assume "op_level f = 4" "begins t" "nxt (st t) = Inr (b, ps)" "bin_value f a b = Some v"
  then show "shift_loop (Suc k) nxt a (st (op_text f @ t)) = shift_loop k nxt v ps"
    by (cases f) (auto simp: eat_two c_shl_wrap Let_def)
next
  fix t k v and nxt :: "parser \<Rightarrow> int calc"
  assume a: "follows 4 t"
  then show "shift_loop (Suc k) nxt v (st t) = Inr (v, st t)"
    using follows_spaceless [OF a] follows_not [OF a] by (simp add: eat_two Let_def)
qed simp

interpretation add_level: level 5 add_loop
proof (unfold_locales)
  fix f a b v k t ps and nxt :: "parser \<Rightarrow> int calc"
  assume "op_level f = 5" "begins t" "nxt (st t) = Inr (b, ps)" "bin_value f a b = Some v"
  then show "add_loop (Suc k) nxt a (st (op_text f @ t)) = add_loop k nxt v ps"
    by (cases f) (auto simp: eat_one skip_spaceless Let_def dest!: s64_in)
next
  fix t k v and nxt :: "parser \<Rightarrow> int calc"
  assume a: "follows 5 t"
  then show "add_loop (Suc k) nxt v (st t) = Inr (v, st t)"
    using follows_spaceless [OF a] follows_not [OF a] by (simp add: eat_one skip_spaceless Let_def ch_0_deref)
qed simp

interpretation mul_level: level 6 mul_loop
proof (unfold_locales)
  fix f a b v k t ps and nxt :: "parser \<Rightarrow> int calc"
  assume "op_level f = 6" "begins t" "nxt (st t) = Inr (b, ps)" "bin_value f a b = Some v"
  then show "mul_loop (Suc k) nxt a (st (op_text f @ t)) = mul_loop k nxt v ps"
    using begins_not [of t] by (cases f) (auto simp: eat_one skip_spaceless Let_def split: if_splits dest!: s64_in)
next
  fix t k v and nxt :: "parser \<Rightarrow> int calc"
  assume a: "follows 6 t"
  then show "mul_loop (Suc k) nxt v (st t) = Inr (v, st t)"
    using follows_spaceless [OF a] follows_not [OF a] by (simp add: eat_one skip_spaceless Let_def ch_0_deref)
qed simp

section \<open>Atoms, powers and signs\<close>

lemma reads_mono: "reads n m P \<Longrightarrow> m' \<le> m \<Longrightarrow> reads n m' P"
  unfolding reads_def by (meson order_trans)

lemma in_s64_nat: "in_s64 (int d) = Some v \<Longrightarrow> v = int d \<and> unat (of_nat d :: u64) = d \<and> d < 2 ^ 63"
  using s64_in [of "int d" v] by (auto simp: in_s64_def unat_of_nat take_bit_nat_eq_self split: if_splits)

lemma ch_append: "s \<noteq> [] \<Longrightarrow> ch (s @ t) 0 = hd s" "s \<noteq> [] \<Longrightarrow> ch (s @ t) (Suc j) = ch (tl s @ t) j"
  by (cases s; simp)+

lemma atom_number_dec:
  assumes "in_s64 (int d) = Some v" "follows 9 rest"
  shows "atom_number (st (expr_text (Dec d) @ rest)) = Inr (v, st rest)"
proof -
  let ?t = "fmt_uint 24 (of_nat d) 10 False"
  note d = in_s64_nat [OF assms(1)] and r = follows_not [OF assms(2), simplified]
  note b = fmt_uint_begins [of 10 "of_nat d", simplified]
  have x: "\<not> (ch (?t @ rest) 0 = 48 \<and> ch (?t @ rest) 1 \<in> {120, 88, 98, 66})"
  proof (cases "(of_nat d :: u64) = 0")
    case True
    then show ?thesis using r by (simp add: fmt_uint_def)
  next
    case False
    then show ?thesis using b by (simp add: ch_append)
  qed
  have "atom_digits 10 0 (?t @ rest) = Inr (int d, rest)"
    using atom_digits_fmt_uint [of 10 "of_nat d" rest] d r by simp
  then show ?thesis using x d b unfolding atom_number_def by (auto simp: Let_def)
qed

lemma atom_number_hex:
  assumes "in_s64 (int d) = Some v" "follows 9 rest"
  shows "atom_number (st (expr_text (Hex d) @ rest)) = Inr (v, st rest)"
proof -
  note d = in_s64_nat [OF assms(1)] and r = follows_not [OF assms(2), simplified]
  have "atom_digits 16 0 (fmt_uint 24 (of_nat d) 16 False @ rest) = Inr (int d, rest)"
    using atom_digits_fmt_uint [of 16 "of_nat d" rest] d r by simp
  then show ?thesis using d fmt_uint_begins(1) [of 16 "of_nat d"] unfolding atom_number_def by (simp add: Let_def)
qed

lemma follows_paren: "follows n (41 # rest)"
  by (simp add: follows_def)

lemma expr_level_bounds: "1 \<le> expr_level e \<and> expr_level e \<le> 9"
proof (cases e)
  case (Binary f a b)
  then show ?thesis by (cases f) simp_all
qed simp_all

lemma reads_atom:
  assumes "reads 1 j por" "m \<le> j + 2"
  shows "reads 9 m (parse_atom por)"
  unfolding reads_def
proof (intro allI impI)
  fix e v rest
  assume e: "expr_value e = Some v" "length (text_at 9 e) \<le> m" "follows 9 rest"
  show "parse_atom por (st (text_at 9 e @ rest)) = Inr (v, st rest)"
  proof (cases "expr_level e = 9")
    case True
    have sp: "spaceless (text_at 9 e @ rest)" by (rule begins_spaceless [OF text_at_begins(1) [OF e(1)]])
    have t: "text_at 9 e = expr_text e" using True by (simp add: text_at_def)
    have "deref (text_at 9 e @ rest) \<noteq> 40 \<and> atom_number (st (text_at 9 e @ rest)) = Inr (v, st rest)"
    proof (cases e)
      case (Dec d)
      have "deref (fmt_uint 24 (of_nat d) 10 False @ rest) \<noteq> 40"
        using fmt_uint_begins(1,2) [of 10 "of_nat d"] by (cases "fmt_uint 24 (of_nat d) 10 False") auto
      then show ?thesis using atom_number_dec e Dec t by simp
    next
      case (Hex d)
      then show ?thesis using atom_number_hex e t by simp
    next
      case (Binary f a b)
      then show ?thesis using True by (cases f) simp_all
    qed (use True in simp_all)
    then show ?thesis using sp by (simp add: parse_atom_def skip_spaceless eat_one Let_def)
  next
    case False
    have l: "expr_level e < 9" "1 \<le> expr_level e" using expr_level_bounds [of e] False by simp_all
    then have t: "text_at 9 e = 40 # text_at 1 e @ [41]" by (simp add: text_at_def)
    have "por (st (text_at 1 e @ 41 # rest)) = Inr (v, st (41 # rest))"
      using assms e(1,2) follows_paren [of 1 rest] unfolding reads_def t by simp
    then show ?thesis unfolding t by (simp add: parse_atom_def skip_spaceless eat_one Let_def)
  qed
qed

lemma power_bound:
  fixes a :: int
  assumes "i < n" "in_s64 (a ^ n) = Some r"
  shows "- (2 ^ 63) \<le> a ^ i \<and> a ^ i < 2 ^ 63"
proof (cases "\<bar>a\<bar> \<le> 1")
  case True
  then have "\<bar>a ^ i\<bar> \<le> 1" by (simp add: power_abs power_le_one)
  then show ?thesis by (simp add: abs_le_iff)
next
  case False
  have "\<bar>a\<bar> ^ i < \<bar>a\<bar> ^ n" using False assms(1) by (intro power_strict_increasing) auto
  moreover have "\<bar>a\<bar> ^ n \<le> 2 ^ 63" using assms(2) by (auto simp: in_s64_def power_abs [symmetric] split: if_splits)
  ultimately have "\<bar>a ^ i\<bar> < 2 ^ 63" by (simp add: power_abs)
  then show ?thesis by linarith
qed

lemma power_loop_value:
  assumes "in_s64 (a ^ n) = Some r" "n \<le> 63"
  shows "i + j = n \<Longrightarrow> power_loop j (a ^ i) a = Inr (Some (a ^ n))"
proof (induction j arbitrary: i)
  case (Suc j)
  have "a ^ Suc i = a ^ i * a" by simp
  moreover have "s64 (a ^ Suc i) = Inr (a ^ Suc i)"
  proof (cases "Suc i = n")
    case True
    then show ?thesis using s64_in [OF assms(1)] by metis
  next
    case False
    then have "- (2 ^ 63) \<le> a ^ Suc i \<and> a ^ Suc i < 2 ^ 63" using assms(1) Suc.prems by (intro power_bound) simp_all
    then show ?thesis by (simp only: s64_def if_True simp_thms)
  qed
  ultimately show ?case using Suc.IH [of "Suc i"] Suc.prems assms(2) by (simp add: mult.commute)
qed simp

lemma eat_star_star:
  assumes "follows 8 rest"
  shows "eat [42, 42] (st rest) = (False, st rest)"
proof -
  have "\<not> (ch rest 0 = 42 \<and> ch rest 1 = 42)"
  proof -
    consider "rest = []" | "hd rest = 41" "rest \<noteq> []" | f r where "rest = op_text f @ r" "begins r" using assms by (auto simp: follows_def)
    then show ?thesis
    proof cases
      case (3 f r)
      then show ?thesis using begins_not [of r] by (cases f) auto
    qed (auto simp: neq_Nil_conv)
  qed
  then show ?thesis using follows_spaceless [OF assms] by (auto simp: eat_two)
qed

lemma reads_power:
  assumes atom: "reads 9 m (parse_atom por)"
  shows "m \<le> k \<Longrightarrow> reads 8 m (parse_power k por)"
proof -
  have "expr_value e = Some v \<Longrightarrow> length (text_at 8 e) \<le> m \<Longrightarrow> length (text_at 8 e) \<le> k \<Longrightarrow> follows 8 rest \<Longrightarrow>
    parse_power k por (st (text_at 8 e @ rest)) = Inr (v, st rest)" for e v rest
  proof (induction k arbitrary: e v rest)
    case 0
    then show ?case using text_at_begins(1) [OF 0(1), of 8 "[]"] by (simp add: begins_def)
  next
    case (Suc k)
    show ?case
    proof (cases "expr_level e = 8")
      case True
      then obtain a b where e: "e = Power a b"
      proof (cases e)
        case (Binary f a b)
        then show ?thesis using True by (cases f) simp_all
      qed auto
      obtain x y where x: "expr_value a = Some x" "expr_value b = Some y" "pow_value x y = Some v"
        using Suc.prems(1) e by (auto simp: bind_eq_Some_conv)
      have t: "text_at 8 e = text_at 9 a @ [42, 42] @ text_at 8 b" unfolding e by (simp add: text_at_def [of 8 "Power a b"] expr_text_at)
      have len: "length (text_at 9 a) \<le> m" "length (text_at 8 b) \<le> m" "length (text_at 8 b) \<le> k"
        using Suc.prems(2,3) by (auto simp: t)
      have "parse_atom por (st (text_at 8 e @ rest)) = Inr (x, st ([42, 42] @ text_at 8 b @ rest))"
        using atom x(1) len(1) unfolding reads_def t by (simp add: follows_def)
      moreover have "parse_power k por (st (text_at 8 b @ rest)) = Inr (y, st rest)"
        using Suc.IH [OF x(2) len(2,3) Suc.prems(4)] .
      moreover have "0 \<le> y" "power_loop (nat y) 1 x = Inr (Some v)"
        using x(3) power_loop_value [of x "nat y" v 0 "nat y"] s64_in [of "x ^ nat y" v] by (auto simp: pow_value_def split: if_splits)
      ultimately show ?thesis by (simp add: eat_two Let_def)
    next
      case False
      then have t: "text_at 8 e = text_at 9 e" by (auto simp: text_at_def)
      have "parse_atom por (st (text_at 8 e @ rest)) = Inr (v, st rest)"
        using atom Suc.prems follows_mono [OF Suc.prems(4), of 9] unfolding reads_def t by simp
      then show ?thesis using eat_star_star [OF Suc.prems(4)] by (simp add: Let_def)
    qed
  qed
  then show "m \<le> k \<Longrightarrow> reads 8 m (parse_power k por)" unfolding reads_def by (meson order_trans)
qed

lemma reads_unary:
  assumes power: "\<And>j k. j \<le> m \<Longrightarrow> j \<le> k \<Longrightarrow> reads 8 j (parse_power k por)"
  shows "m \<le> k \<Longrightarrow> reads 7 m (parse_unary k por)"
proof -
  have "expr_value e = Some v \<Longrightarrow> length (text_at 7 e) \<le> m \<Longrightarrow> length (text_at 7 e) \<le> k \<Longrightarrow> follows 7 rest \<Longrightarrow>
    parse_unary k por (st (text_at 7 e @ rest)) = Inr (v, st rest)" for e v rest
  proof (induction k arbitrary: e v rest)
    case 0
    then show ?case using text_at_begins(1) [OF 0(1), of 7 "[]"] by (simp add: begins_def)
  next
    case (Suc k)
    show ?case
    proof (cases "expr_level e = 7")
      case True
      then obtain u a where e: "e = Unary u a"
      proof (cases e)
        case (Binary f a b)
        then show ?thesis using True by (cases f) simp_all
      qed auto
      obtain x where x: "expr_value a = Some x" "un_value u x = Some v"
        using Suc.prems(1) e by (auto simp: bind_eq_Some_conv)
      have t: "text_at 7 e = un_text u # text_at 7 a" unfolding e by (simp add: text_at_def [of 7 "Unary u a"] expr_text_at)
      have sp: "spaceless (text_at 7 a @ rest)" by (rule begins_spaceless [OF text_at_begins(1) [OF x(1)]])
      have "parse_unary k por (st (text_at 7 a @ rest)) = Inr (x, st rest)"
        using Suc.IH [OF x(1) _ _ Suc.prems(4)] Suc.prems(2,3) t by simp
      then show ?thesis using x(2) unfolding t
        by (cases u) (auto simp: skip_spaceless eat_one Let_def dest!: s64_in)
    next
      case False
      then have t: "text_at 7 e = text_at 8 e" by (auto simp: text_at_def)
      have sp: "spaceless (text_at 8 e @ rest)" by (rule begins_spaceless [OF text_at_begins(1) [OF Suc.prems(1)]])
      have "text_at 8 e @ rest \<noteq> []" using text_at_begins(1) [OF Suc.prems(1), of 8 rest] by (simp add: begins_def)
      then have c: "deref (text_at 8 e @ rest) \<notin> {43, 45, 126}"
        using text_at_begins(2) [OF Suc.prems(1), of 8 rest] by (cases "text_at 8 e @ rest") simp_all
      have "reads 8 (length (text_at 8 e)) (parse_power (Suc k) por)" using power Suc.prems(2,3) t by simp
      then have "parse_power (Suc k) por (st (text_at 8 e @ rest)) = Inr (v, st rest)"
        using Suc.prems follows_mono [OF Suc.prems(4), of 8] unfolding reads_def by simp
      then show ?thesis using c unfolding t
        by (simp del: parse_power.simps add: skip_spaceless [OF sp] eat_one sp Let_def)
    qed
  qed
  then show "m \<le> k \<Longrightarrow> reads 7 m (parse_unary k por)" unfolding reads_def by (meson order_trans)
qed

section \<open>Expressions are evaluated\<close>

lemma reads_or: "reads 1 k (parse_or k)"
proof (induction k)
  case 0
  show ?case unfolding reads_def
  proof (intro allI impI)
    fix e v rest
    assume "expr_value e = Some v" "length (text_at 1 e) \<le> 0"
    then show "parse_or 0 (st (text_at 1 e @ rest)) = Inr (v, st rest)"
      using text_at_begins(1) [of e v 1 "[]"] by (simp add: begins_def)
  qed
next
  case (Suc k)
  let ?m = "Suc k" and ?por = "parse_or k"
  have "reads 9 ?m (parse_atom ?por)" by (rule reads_atom [OF Suc.IH]) simp
  then have "\<And>j i. j \<le> ?m \<Longrightarrow> j \<le> i \<Longrightarrow> reads 8 j (parse_power i ?por)" using reads_power reads_mono by blast
  from reads_unary [OF this] have "reads (Suc 6) ?m (parse_unary ?m ?por)" by simp
  from mul_level.reads_level [OF this order_refl] have "reads (Suc 5) ?m (parse_mul ?m ?por)" by (simp only: parse_mul_def [abs_def] Suc_numeral Suc_1 semiring_norm)
  from add_level.reads_level [OF this order_refl] have "reads (Suc 4) ?m (parse_add ?m ?por)" by (simp only: parse_add_def [abs_def] Suc_numeral Suc_1 semiring_norm)
  from shift_level.reads_level [OF this order_refl] have "reads (Suc 3) ?m (parse_shift ?m ?por)" by (simp only: parse_shift_def [abs_def] Suc_numeral Suc_1 semiring_norm)
  from and_level.reads_level [OF this order_refl] have "reads (Suc 2) ?m (parse_and ?m ?por)" by (simp only: parse_and_def [abs_def] Suc_numeral Suc_1 semiring_norm)
  from xor_level.reads_level [OF this order_refl] have "reads (Suc 1) ?m (parse_xor ?m ?por)" by (simp only: parse_xor_def [abs_def] Suc_numeral Suc_1 semiring_norm)
  from or_level.reads_level [OF this order_refl] show "reads 1 ?m (parse_or ?m)" by (simp only: parse_or.simps)
qed

text \<open>
  C27: an expression with a value - every operation in 64 bits, no division by zero, exponents from 0
  to 63 - written with parentheses only where precedence and associativity ask for them, is
  evaluated to that value: precedence, left association of the binary operators, right association
  of the power, signs that bind less than the power, and decimal and hexadecimal numbers.
\<close>

theorem calc_evaluates:
  assumes "expr_value e = Some v"
  shows "calc_run (expr_text e) = Inr (Value v)"
proof -
  have t: "text_at 1 e = expr_text e" using expr_level_bounds [of e] by (simp add: text_at_def)
  have "reads 1 (calc_fuel (expr_text e)) (parse_or (calc_fuel (expr_text e)))" by (rule reads_or)
  then have "parse_or (calc_fuel (expr_text e)) (st (expr_text e)) = Inr (v, st [])"
    using assms unfolding reads_def t [symmetric] by (simp add: calc_fuel_def follows_def t)
  then show ?thesis by (simp add: calc_run_def skip_space_def Let_def)
qed

lemma calc_evaluates_witness:
  "calc_run (expr_text (Binary OSub (Binary OSub (Dec 7) (Dec 2)) (Unary ONeg (Power (Dec 2) (Dec 3))))) = Inr (Value 13)"
  by (rule calc_evaluates) (simp add: in_s64_def pow_value_def)

section \<open>The fuel suffices\<close>

text \<open>A result that is no want of fuel and leaves at most \<open>n\<close> bytes; a parser all of whose results on fewer than \<open>k\<close> bytes are such.\<close>

definition ends :: "nat \<Rightarrow> 'a calc \<Rightarrow> bool" where
  "ends n r \<longleftrightarrow> (case r of Inl s \<Rightarrow> s \<noteq> OutOfFuel | Inr (v, ps) \<Rightarrow> length (pos ps) \<le> n)"

definition enough :: "nat \<Rightarrow> (parser \<Rightarrow> 'a calc) \<Rightarrow> bool" where
  "enough k P \<longleftrightarrow> (\<forall>ps. length (pos ps) < k \<longrightarrow> ends (length (pos ps)) (P ps))"

lemma ends_Inr [simp]: "ends n (Inr (v, ps)) \<longleftrightarrow> length (pos ps) \<le> n" and ends_Undefined [simp]: "ends n (Inl Undefined)"
  by (simp_all add: ends_def)

lemma ends_andthen:
  assumes "ends n r" "\<And>v ps. length (pos ps) \<le> n \<Longrightarrow> ends n (f v ps)"
  shows "ends n (andthen r (\<lambda>(v, ps). f v ps))"
  using assms by (cases r) (auto simp: ends_def)

lemma ends_s64: "(\<And>v. ends n (f v)) \<Longrightarrow> ends n (andthen (s64 x) f)"
  by (simp add: s64_def)

lemma ends_mono: "ends n r \<Longrightarrow> n \<le> m \<Longrightarrow> ends m r"
  by (auto simp: ends_def split: sum.splits)

lemma ends_enough: "enough k P \<Longrightarrow> length (pos ps) < k \<Longrightarrow> length (pos ps) \<le> n \<Longrightarrow> ends n (P ps)"
  unfolding enough_def using ends_mono by blast

lemma fail_pos [simp]: "pos (fail m ps) = pos ps"
  by (simp add: fail_def)

lemma skip_space_shorter: "length (pos (skip_space ps)) \<le> length (pos ps)"
  by (simp add: skip_space_def length_dropWhile_le)

lemma eat_length:
  assumes "eat opr ps = (y, ps')" "opr = [c] \<or> opr = [c, d]" "c \<noteq> 0" "d \<noteq> 0"
  shows "length (pos ps') \<le> length (pos ps)" "y \<Longrightarrow> length (pos ps') < length (pos ps)"
proof -
  define t where "t = pos (skip_space ps)"
  have t: "length t \<le> length (pos ps)" unfolding t_def by (rule skip_space_shorter)
  have "length (pos ps') \<le> length t \<and> (y \<longrightarrow> length (pos ps') < length t)"
    using assms by (cases t) (auto simp: eat_def Let_def t_def [symmetric] split: if_splits)
  then show "length (pos ps') \<le> length (pos ps)" "y \<Longrightarrow> length (pos ps') < length (pos ps)" using t by auto
qed

text \<open>After an operator is eaten the rest is shorter, so the fuel left is still enough.\<close>

named_theorems ends_intros \<open>how the pieces of a level end\<close>

lemma ends_if [ends_intros]: "(P \<Longrightarrow> ends n x) \<Longrightarrow> (\<not> P \<Longrightarrow> ends n y) \<Longrightarrow> ends n (if P then x else y)"
  by simp

lemma skip_space_le [ends_intros]: "length (pos ps) \<le> n \<Longrightarrow> length (pos (skip_space ps)) \<le> n"
  using skip_space_shorter order_trans by blast

lemma ends_skip [ends_intros]:
  "length (pos ps) \<le> n \<Longrightarrow> (\<And>q. length (pos q) \<le> n \<Longrightarrow> ends n (f q)) \<Longrightarrow> ends n (let q = skip_space ps in f q)"
  using skip_space_le by (simp add: Let_def)

lemma ends_eat [ends_intros]:
  assumes "c \<noteq> 0" "length (pos ps) \<le> n" "\<And>q. length (pos q) < n \<Longrightarrow> ends n (f q)" "\<And>q. length (pos q) \<le> n \<Longrightarrow> ends n (g q)"
  shows "ends n (let (y, q) = eat [c] ps in if y then f q else g q)"
proof -
  obtain y q where e: "eat [c] ps = (y, q)" by fastforce
  show ?thesis using assms eat_length [OF e, of c 1] by (cases y) (auto simp: e)
qed

lemma ends_eat_two [ends_intros]:
  assumes "c \<noteq> 0" "d \<noteq> 0" "length (pos ps) \<le> n" "\<And>q. length (pos q) < n \<Longrightarrow> ends n (f q)" "\<And>q. length (pos q) \<le> n \<Longrightarrow> ends n (g q)"
  shows "ends n (let (y, q) = eat [c, d] ps in if y then f q else g q)"
proof -
  obtain y q where e: "eat [c, d] ps = (y, q)" by fastforce
  show ?thesis using assms eat_length [OF e, of c d] by (cases y) (auto simp: e)
qed

text \<open>Reading the next operand.\<close>

lemma ends_next:
  assumes "enough m P" "length (pos q) < n" "n \<le> m" "\<And>w r. length (pos r) < n \<Longrightarrow> ends n (f w r)"
  shows "ends n (andthen (P q) (\<lambda>(w, r). f w r))"
  using assms ends_enough [OF assms(1), of q "length (pos q)"] by (cases "P q") (auto simp: ends_def)

lemma ends_ends: "enough m P \<Longrightarrow> length (pos q) \<le> n \<Longrightarrow> n < m \<Longrightarrow> ends n (P q)"
  by (rule ends_enough) auto

lemma enough_first:
  assumes "enough k P" "\<And>v ps n. length (pos ps) \<le> n \<Longrightarrow> n < k \<Longrightarrow> ends n (l v ps)"
  shows "enough k (\<lambda>ps. andthen (P ps) (\<lambda>(v, ps). l v ps))"
  unfolding enough_def using assms by (auto intro!: ends_andthen intro: ends_ends)

lemma atom_digits_ends: "case atom_digits base v p of Inl s \<Rightarrow> s \<noteq> OutOfFuel | Inr (w, q) \<Rightarrow> length q \<le> length p"
proof (induction p arbitrary: v)
  case (Cons c p)
  show ?case
  proof (cases "calc_digit c")
    case None
    then show ?thesis using Cons [of v] by (auto split: sum.splits)
  next
    case (Some d)
    then show ?thesis using Cons [of "v * base + d"] by (auto simp: s64_def split: sum.splits)
  qed
qed simp

lemma atom_number_ends: "ends (length (pos ps)) (atom_number ps)"
proof -
  have w: "ends (length (pos ps)) (andthen (atom_digits b 0 t) (\<lambda>(v, p).
      if length p = length t then Inr (0, fail ExpectedNumber (ps\<lparr>pos := p\<rparr>)) else Inr (v, ps\<lparr>pos := p\<rparr>)))"
    if "length t \<le> length (pos ps)" for b t
    using atom_digits_ends [where base = b and v = 0 and p = t] that by (auto simp: ends_def split: sum.splits if_splits)
  have "length (drop 2 (pos ps)) \<le> length (pos ps)" by simp
  from w [of "pos ps" 10] w [OF this] show ?thesis unfolding atom_number_def Let_def
    by (auto split del: if_split split: prod.split if_split_asm simp del: length_drop)
qed

lemma enough_atom:
  assumes "enough k por"
  shows "enough (Suc k) (parse_atom por)"
  unfolding enough_def
proof (intro allI impI)
  fix ps :: parser
  assume l: "length (pos ps) < Suc k"
  have close: "ends n (let (y, r) = eat [41] q in Inr (v, if \<not> y then fail MissingParen r else r))"
    if "length (pos q) \<le> n" for n q and v :: int
  proof -
    obtain y r where e: "eat [41] q = (y, r)" by fastforce
    show ?thesis using eat_length(1) [OF e, of 41 1] that by (simp add: e)
  qed
  show "ends (length (pos ps)) (parse_atom por ps)" unfolding parse_atom_def using l assms
    by (intro ends_intros ends_next [OF assms] close) (auto intro: ends_mono [OF atom_number_ends])
qed

text \<open>The loops of the levels, all in one way.\<close>

lemma loops_end:
  assumes "enough m nxt" "k \<le> m"
  shows "length (pos ps) \<le> n \<Longrightarrow> n < k \<Longrightarrow> ends n (or_loop k nxt v ps)"
    and "length (pos ps) \<le> n \<Longrightarrow> n < k \<Longrightarrow> ends n (and_loop k nxt v ps)"
    and "length (pos ps) \<le> n \<Longrightarrow> n < k \<Longrightarrow> ends n (shift_loop k nxt v ps)"
    and "length (pos ps) \<le> n \<Longrightarrow> n < k \<Longrightarrow> ends n (add_loop k nxt v ps)"
    and "length (pos ps) \<le> n \<Longrightarrow> n < k \<Longrightarrow> ends n (mul_loop k nxt v ps)"
    and "length (pos ps) \<le> n \<Longrightarrow> n < k \<Longrightarrow> ends n (xor_loop k nxt v ps)"
proof -
  show "length (pos ps) \<le> n \<Longrightarrow> n < k \<Longrightarrow> ends n (or_loop k nxt v ps)" using assms(2)
  proof (induction k arbitrary: n v ps)
    case (Suc k)
    have ih: "ends n (or_loop k nxt v q)" if "length (pos q) < n" for v q
      using ends_mono [OF Suc.IH [of q "n - 1" v], of n] that Suc.prems by (cases n) auto
    show ?case using Suc.prems unfolding or_loop.simps by (intro ends_intros ends_next [OF assms(1)] ih; simp)
  qed simp
  show "length (pos ps) \<le> n \<Longrightarrow> n < k \<Longrightarrow> ends n (and_loop k nxt v ps)" using assms(2)
  proof (induction k arbitrary: n v ps)
    case (Suc k)
    have ih: "ends n (and_loop k nxt v q)" if "length (pos q) < n" for v q
      using ends_mono [OF Suc.IH [of q "n - 1" v], of n] that Suc.prems by (cases n) auto
    show ?case using Suc.prems unfolding and_loop.simps by (intro ends_intros ends_next [OF assms(1)] ih; simp)
  qed simp
  show "length (pos ps) \<le> n \<Longrightarrow> n < k \<Longrightarrow> ends n (shift_loop k nxt v ps)" using assms(2)
  proof (induction k arbitrary: n v ps)
    case (Suc k)
    have ih: "ends n (shift_loop k nxt v q)" if "length (pos q) < n" for v q
      using ends_mono [OF Suc.IH [of q "n - 1" v], of n] that Suc.prems by (cases n) auto
    show ?case using Suc.prems unfolding shift_loop.simps by (intro ends_intros ends_next [OF assms(1)] ih; simp)
  qed simp
  show "length (pos ps) \<le> n \<Longrightarrow> n < k \<Longrightarrow> ends n (add_loop k nxt v ps)" using assms(2)
  proof (induction k arbitrary: n v ps)
    case (Suc k)
    have ih: "ends n (add_loop k nxt v q)" if "length (pos q) < n" for v q
      using ends_mono [OF Suc.IH [of q "n - 1" v], of n] that Suc.prems by (cases n) auto
    show ?case using Suc.prems unfolding add_loop.simps by (intro ends_intros ends_next [OF assms(1)] ends_s64 ih; simp)
  qed simp
  show "length (pos ps) \<le> n \<Longrightarrow> n < k \<Longrightarrow> ends n (mul_loop k nxt v ps)" using assms(2)
  proof (induction k arbitrary: n v ps)
    case (Suc k)
    have ih: "ends n (mul_loop k nxt v q)" if "length (pos q) < n" for v q
      using ends_mono [OF Suc.IH [of q "n - 1" v], of n] that Suc.prems by (cases n) auto
    show ?case using Suc.prems unfolding mul_loop.simps by (intro ends_intros ends_next [OF assms(1)] ends_s64 ih; simp)
  qed simp
  show "length (pos ps) \<le> n \<Longrightarrow> n < k \<Longrightarrow> ends n (xor_loop k nxt v ps)" using assms(2)
  proof (induction k arbitrary: n v ps)
    case (Suc k)
    have ih: "ends n (xor_loop k nxt v q)" if "length (pos q) < n" for v q
      using ends_mono [OF Suc.IH [of q "n - 1" v], of n] that Suc.prems by (cases n) auto
    have d: "length (drop 1 p) < n" if "length p \<le> n" "ch p 0 = 94 \<and> ch p 1 \<noteq> 94" for p using that by (cases p) auto
    show ?case using Suc.prems unfolding xor_loop.simps by (intro ends_intros ends_next [OF assms(1)] ih; simp add: d [simplified])
  qed simp
qed

lemma enough_mono: "enough m P \<Longrightarrow> k \<le> m \<Longrightarrow> enough k P"
  unfolding enough_def by auto

lemma power_loop_ends: "power_loop j r b \<noteq> Inl OutOfFuel"
  by (induction j arbitrary: r) (auto simp: s64_def)

lemma enough_power:
  assumes "enough m (parse_atom por)"
  shows "k \<le> m \<Longrightarrow> enough k (parse_power k por)"
proof -
  have "length (pos ps) \<le> n \<Longrightarrow> n < k \<Longrightarrow> k \<le> m \<Longrightarrow> ends n (parse_power k por ps)" for n ps
  proof (induction k arbitrary: n ps)
    case (Suc k)
    have p: "ends n (andthen (parse_power k por q) (\<lambda>(e, ps).
          if e < 0 then Inr (0, fail NegativeExponent ps)
          else andthen (power_loop (nat e) 1 base) (\<lambda>r. case r of None \<Rightarrow> Inr (0, fail TooLarge ps) | Some r \<Rightarrow> Inr (r, ps))))"
      if q: "length (pos q) < n" for q base
    proof -
      have "ends n (parse_power k por q)" using ends_mono [OF Suc.IH [of q "n - 1"], of n] q Suc.prems(2,3) by (cases n) auto
      then show ?thesis
      proof (rule ends_andthen)
        fix e and r :: parser
        assume r: "length (pos r) \<le> n"
        show "ends n (if e < 0 then Inr (0, fail NegativeExponent r)
          else andthen (power_loop (nat e) 1 base) (\<lambda>x. case x of None \<Rightarrow> Inr (0, fail TooLarge r) | Some x \<Rightarrow> Inr (x, r)))"
          using r power_loop_ends [of "nat e" 1 base] by (cases "power_loop (nat e) 1 base") (auto simp: ends_def split: option.split)
      qed
    qed
    have "ends n (parse_atom por ps)" by (rule ends_ends [OF assms]) (use Suc.prems in auto)
    then show ?case unfolding parse_power.simps
    proof (rule ends_andthen)
      fix base and q :: parser
      assume q: "length (pos q) \<le> n"
      obtain y r where e: "eat [42, 42] q = (y, r)" by fastforce
      show "ends n (let (y, ps) = eat [42, 42] q in if \<not> y then Inr (base, ps)
          else andthen (parse_power k por ps) (\<lambda>(e, ps).
            if e < 0 then Inr (0, fail NegativeExponent ps)
            else andthen (power_loop (nat e) 1 base) (\<lambda>r. case r of None \<Rightarrow> Inr (0, fail TooLarge ps) | Some r \<Rightarrow> Inr (r, ps))))"
        using eat_length [OF e, of 42 42] q p [of r base] by (cases y) (auto simp: e)
    qed
  qed simp
  then show "k \<le> m \<Longrightarrow> enough k (parse_power k por)" unfolding enough_def by blast
qed

lemma enough_unary:
  assumes "\<And>k. k \<le> m \<Longrightarrow> enough k (parse_power k por)"
  shows "k \<le> m \<Longrightarrow> enough k (parse_unary k por)"
proof -
  have "length (pos ps) \<le> n \<Longrightarrow> n < k \<Longrightarrow> k \<le> m \<Longrightarrow> ends n (parse_unary k por ps)" for n ps
  proof (induction k arbitrary: n ps)
    case (Suc k)
    have u: "ends n (parse_unary k por q)" if "length (pos q) < n" for q
      using ends_mono [OF Suc.IH [of q "n - 1"], of n] that Suc.prems(2,3) by (cases n) auto
    have p: "ends n (parse_power (Suc k) por q)" if "length (pos q) \<le> n" for q
      using ends_ends [OF assms [OF Suc.prems(3)] that Suc.prems(2)] .
    show ?case using Suc.prems(1) unfolding parse_unary.simps
      by (intro ends_intros p u ends_andthen [OF u] ends_s64; simp)
  qed simp
  then show "k \<le> m \<Longrightarrow> enough k (parse_unary k por)" unfolding enough_def by blast
qed

lemma enough_or: "enough k (parse_or k)"
proof (induction k)
  case (Suc k)
  let ?m = "Suc k" and ?por = "parse_or k"
  have p: "enough ?m (parse_unary ?m ?por)"
    using enough_unary [OF enough_power [OF enough_atom [OF Suc]], of ?m] by simp
  have p: "enough ?m (parse_mul ?m ?por)"
    unfolding parse_mul_def [abs_def] by (rule enough_first [OF p loops_end(5) [OF p order_refl]]) simp_all
  have p: "enough ?m (parse_add ?m ?por)"
    unfolding parse_add_def [abs_def] by (rule enough_first [OF p loops_end(4) [OF p order_refl]]) simp_all
  have p: "enough ?m (parse_shift ?m ?por)"
    unfolding parse_shift_def [abs_def] by (rule enough_first [OF p loops_end(3) [OF p order_refl]]) simp_all
  have p: "enough ?m (parse_and ?m ?por)"
    unfolding parse_and_def [abs_def] by (rule enough_first [OF p loops_end(2) [OF p order_refl]]) simp_all
  have p: "enough ?m (parse_xor ?m ?por)"
    unfolding parse_xor_def [abs_def] by (rule enough_first [OF p loops_end(6) [OF p order_refl]]) simp_all
  show ?case unfolding parse_or.simps by (rule enough_first [OF p loops_end(1) [OF p order_refl]]) simp_all
qed (simp add: enough_def)

text \<open>
  C32: evaluation ends on every input: the fuel of \<open>calc_run\<close>, one more than the length of the
  text, is never used up, so the result is a value, a complaint, or the arithmetic has left 64 bits.
\<close>

theorem calc_terminates: "calc_run expr \<noteq> Inl OutOfFuel"
proof -
  have "ends (length expr) (parse_or (calc_fuel expr) \<lparr>pos = expr, failed = None\<rparr>)"
    by (rule ends_ends [OF enough_or]) (simp_all add: calc_fuel_def)
  then show ?thesis unfolding calc_run_def
    by (cases "parse_or (calc_fuel expr) \<lparr>pos = expr, failed = None\<rparr>") (auto simp: ends_def Let_def split: option.splits)
qed

section \<open>Exponents\<close>

text \<open>An exponent above 63 is refused before anything is multiplied, also where the power fits, as that of 0 or 1.\<close>

lemma power_refuses:
  assumes "s64 a = Inr a" "64 \<le> e"
  shows "power_loop e 1 a = Inr None"
  using assms by (cases e) auto

end
