(* ===== verification/LpFiles.thy ===== *)
theory LpFiles
  imports LpPrelude
begin

text \<open>
  What the programs see of the file system: the attributes that \<open>lp_stat\<close> gives
  (\<open>userland/libc/include/unistd.h\<close>) and the names in a buffer filled by \<open>getdents\<close>.
\<close>

record lp_stat =
  st_mode :: u32
  st_size :: u64
  st_mtime :: int

definition LP_S_IFMT :: u32 where "LP_S_IFMT = 61440"
definition LP_S_IFDIR :: u32 where "LP_S_IFDIR = 16384"
definition LP_S_IFREG :: u32 where "LP_S_IFREG = 32768"
definition LP_S_IFLNK :: u32 where "LP_S_IFLNK = 40960"

definition is_kind :: "lp_stat \<Rightarrow> u32 \<Rightarrow> bool" where
  "is_kind st k \<longleftrightarrow> st_mode st AND LP_S_IFMT = k"

text \<open>The answer of \<open>lp_stat\<close>: a negative error number or the attributes.\<close>

type_synonym stat_call = "cstring \<Rightarrow> int + lp_stat"

text \<open>
  The names of one buffer of \<open>getdents\<close>: the length of a record is at offset 16, its name from
  offset 19 on; a record of length 0 ends the buffer.
\<close>

definition DIRENT_RECLEN :: nat where "DIRENT_RECLEN = 16"
definition DIRENT_NAME :: nat where "DIRENT_NAME = 19"

function dent_names :: "u8 list \<Rightarrow> cstring list" where
  "dent_names d =
     (if d = [] then []
      else
        (let reclen = unat (ch d DIRENT_RECLEN) + 256 * unat (ch d (DIRENT_RECLEN + 1));
             name = takeWhile (\<lambda>c. c \<noteq> 0) (drop DIRENT_NAME d)
         in if reclen = 0 then [] else name # dent_names (drop reclen d)))"
  by auto
termination by (relation "measure length") auto

declare dent_names.simps [simp del]

end
