(* ===== verification/HttpPath.thy ===== *)
theory HttpPath
  imports LpString LpFiles "HOL-Library.Sublist"
begin

text \<open>
  The paths of the web server (\<open>userland/httpd/httpd.c\<close>): \<open>clean_path\<close> turns the target of a
  request into a path, \<open>walk_path\<close> looks at every component of it under the document root.  The
  file system is a parameter, the answer of \<open>lp_stat\<close> without following a link to each path.
\<close>

section \<open>Cleaning a target\<close>

definition PATH_MAX :: nat where "PATH_MAX = 1024"

definition hexval :: "u8 \<Rightarrow> int" where
  "hexval c =
     (if 48 \<le> c \<and> c \<le> 57 then int (unat c) - 48
      else if 97 \<le> c \<and> c \<le> 102 then int (unat c) - 97 + 10
      else if 65 \<le> c \<and> c \<le> 70 then int (unat c) - 65 + 10
      else -1)"

definition strip_host :: "cstring \<Rightarrow> cstring" where
  "strip_host target =
     (if strncmp target (cs ''http://'') 7 = 0
      then (case strchr (drop 7 target) 47 of Some slash \<Rightarrow> slash | None \<Rightarrow> [47])
      else target)"

text \<open>The copy up to the query, \<open>n\<close> bytes done; \<open>None\<close> is the answer no.\<close>

fun raw_loop :: "cstring \<Rightarrow> nat \<Rightarrow> cstring option" where
  "raw_loop [] n = Some []"
| "raw_loop (c # p) n =
     (if c = 0 \<or> c = 63 \<or> c = 35 then Some []
      else if n \<ge> PATH_MAX - 1 then None
      else map_option ((#) c) (raw_loop p (n + 1)))"

fun decode_loop :: "cstring \<Rightarrow> nat \<Rightarrow> cstring option" where
  "decode_loop [] d = Some []"
| "decode_loop (c # r) d =
     (if c = 37 then
        (let hi = hexval (ch r 0);
             lo = (if hi < 0 then -1 else hexval (ch r 1))
         in if lo < 0 then None
            else
              (let v = hi * 16 + lo in
               if v = 0 then None
               else if v = 47 then None
               else if d \<ge> PATH_MAX - 1 then None
               else map_option ((#) (word_of_int v)) (decode_loop (drop 2 r) (d + 1))))
      else if d \<ge> PATH_MAX - 1 then None
      else map_option ((#) c) (decode_loop r (d + 1)))"

fun collapse_loop :: "cstring \<Rightarrow> cstring \<Rightarrow> nat \<Rightarrow> cstring option" where
  "collapse_loop [] out outsz = Some out"
| "collapse_loop (c # r) out outsz =
     (if c = 47 \<and> out \<noteq> [] \<and> last out = 47 then collapse_loop r out outsz
      else if c = 46 \<and> out \<noteq> [] \<and> last out = 47 \<and> (ch r 0 = 47 \<or> ch r 0 = 0)
      then collapse_loop (if ch r 0 = 47 then tl r else r) out outsz
      else if length out \<ge> outsz - 1 then None
      else collapse_loop r (out @ [c]) outsz)"

definition clean_path :: "cstring \<Rightarrow> nat \<Rightarrow> cstring option" where
  "clean_path target outsz =
     (case raw_loop (strip_host target) 0 of
        None \<Rightarrow> None
      | Some raw \<Rightarrow>
          if ch raw 0 \<noteq> 47 then None
          else if strstr raw (cs ''..'') \<noteq> None then None
          else
            (case decode_loop raw 0 of
               None \<Rightarrow> None
             | Some dec \<Rightarrow>
                 if strstr dec (cs ''..'') \<noteq> None then None
                 else
                   (case collapse_loop dec [] outsz of
                      None \<Rightarrow> None
                    | Some out \<Rightarrow> if ch out 0 \<noteq> 47 then None else Some out)))"

section \<open>Walking a path\<close>

fun strip_slashes :: "cstring \<Rightarrow> cstring" where
  "strip_slashes [] = []"
| "strip_slashes (c # s) = c # rev (dropWhile (\<lambda>x. x = 47) (rev s))"

definition walk_root :: "cstring \<Rightarrow> nat \<Rightarrow> cstring" where
  "walk_root root fullsz = strip_slashes (take (fullsz - 1) root)"

lemma split_length: "length (takeWhile P p) + length (dropWhile P p) = length p"
  by (metis length_append takeWhile_dropWhile_id)

function walk_loop :: "stat_call \<Rightarrow> nat \<Rightarrow> cstring \<Rightarrow> cstring \<Rightarrow> lp_stat \<Rightarrow> nat \<times> cstring \<times> lp_stat" where
  "walk_loop stat fullsz p full st =
     (if p = [] then (200, full, st)
      else
        (let seg = takeWhile (\<lambda>c. c \<noteq> 47) p; p' = dropWhile (\<lambda>c. c \<noteq> 47) p in
         if seg = [] then (200, full, st)
         else if length full + 1 + length seg \<ge> fullsz then (414, full, st)
         else
           (let full = full @ 47 # seg in
            case stat full of
              Inl rc \<Rightarrow> (if - rc = 13 then 403 else 404, full, st)
            | Inr st \<Rightarrow>
                if is_kind st LP_S_IFLNK then (403, full, st)
                else
                  (let p' = dropWhile (\<lambda>c. c = 47) p' in
                   if p' \<noteq> [] \<and> \<not> is_kind st LP_S_IFDIR then (404, full, st)
                   else walk_loop stat fullsz p' full st))))"
  by auto
termination
proof (relation "measure (\<lambda>(stat, fullsz, p, full, st). length p)", simp, goal_cases)
  case (1 stat fullsz p full st seg p' full' st' q)
  have "length q \<le> length p'" "length seg + length p' = length p" "seg \<noteq> []"
    using 1 split_length [of _ p] by (simp_all add: length_dropWhile_le)
  then show ?case by (cases seg) auto
qed

declare walk_loop.simps [simp del]

definition walk_path :: "stat_call \<Rightarrow> cstring \<Rightarrow> cstring \<Rightarrow> nat \<Rightarrow> nat \<times> cstring \<times> lp_stat option" where
  "walk_path stat root rel fullsz =
     (let full = walk_root root fullsz in
      case stat full of
        Inl rc \<Rightarrow> (404, full, None)
      | Inr st \<Rightarrow>
          (let (code, full, st) = walk_loop stat fullsz (dropWhile (\<lambda>c. c = 47) rel) full st
           in (code, full, Some st)))"

end
