(* ===== verification/LpTime.thy ===== *)
theory LpTime
  imports LpPrelude "HOL-Library.Signed_Division" "HOL-Library.Monad_Syntax"
begin

text \<open>
  The calendar of the C library (\<open>lp_gmtime\<close> and \<open>lp_timegm\<close> of \<open>userland/libc/src/unistd.c\<close>),
  against the closed formula of the proleptic Gregorian calendar.  Times and fields are integers.  The
  code counts the years in a C \<open>int\<close>: \<open>None\<close> is a count that leaves its 32 bits, which no time within
  2^55 seconds of 1970 makes it do.  \<open>lp_timegm\<close> is the code for fields in their ranges and a year in
  32 bits, whose sums stay far within 64 bits.
\<close>

section \<open>The code\<close>

record lp_tm =
  tm_year :: int
  tm_mon :: int
  tm_day :: int
  tm_hour :: int
  tm_min :: int
  tm_sec :: int
  tm_wday :: int

definition is_leap :: "int \<Rightarrow> bool" where
  "is_leap y \<longleftrightarrow> y smod 4 = 0 \<and> y smod 100 \<noteq> 0 \<or> y smod 400 = 0"

definition MDAYS :: "int list" where
  "MDAYS = [31, 28, 31, 30, 31, 30, 31, 31, 30, 31, 30, 31]"

definition days_in_month :: "int \<Rightarrow> nat \<Rightarrow> int" where
  "days_in_month y m = (if m = 1 \<and> is_leap y then 29 else MDAYS ! m)"

definition year_length :: "int \<Rightarrow> int" where
  "year_length y = (if is_leap y then 366 else 365)"

lemma year_length_pos: "0 < year_length y"
  by (simp add: year_length_def)

definition in_int :: "int \<Rightarrow> bool" where
  "in_int v \<longleftrightarrow> - (2 ^ 31) \<le> v \<and> v < 2 ^ 31"

function years_back :: "int \<Rightarrow> int \<Rightarrow> (int \<times> int) option" where
  "years_back y days =
     (if days < 0 then if in_int (y - 1) then years_back (y - 1) (days + year_length (y - 1)) else None
      else Some (y, days))"
  by auto
termination
proof (relation "measure (\<lambda>(y, days). nat (- days))")
  fix y days :: int
  assume "days < 0"
  then show "((y - 1, days + year_length (y - 1)), y, days) \<in> measure (\<lambda>(y, days). nat (- days))"
    using year_length_pos [of "y - 1"] by simp
qed simp

function years_forth :: "int \<Rightarrow> int \<Rightarrow> (int \<times> int) option" where
  "years_forth y days =
     (if days < year_length y then Some (y, days)
      else if in_int (y + 1) then years_forth (y + 1) (days - year_length y) else None)"
  by auto
termination
proof (relation "measure (\<lambda>(y, days). nat days)")
  fix y days :: int
  assume "\<not> days < year_length y"
  then show "((y + 1, days - year_length y), y, days) \<in> measure (\<lambda>(y, days). nat days)"
    using year_length_pos [of y] by simp
qed simp

function months :: "int \<Rightarrow> nat \<Rightarrow> int \<Rightarrow> nat \<times> int" where
  "months y m days =
     (if m < 11 \<and> days \<ge> days_in_month y m then months y (m + 1) (days - days_in_month y m) else (m, days))"
  by auto
termination by (relation "measure (\<lambda>(y, m, days). 11 - m)") auto

declare years_back.simps [simp del] years_forth.simps [simp del] months.simps [simp del]

definition lp_gmtime :: "int \<Rightarrow> lp_tm option" where
  "lp_gmtime t =
     (let days = t sdiv 86400;
          rem = t smod 86400;
          (days, rem) = (if rem < 0 then (days - 1, rem + 86400) else (days, rem))
      in do {
        (y, d) \<leftarrow> years_back 1970 days;
        (y, d) \<leftarrow> years_forth y d;
        let (m, d) = months y 0 d;
        Some \<lparr>tm_year = y, tm_mon = int m + 1, tm_day = d + 1,
          tm_hour = rem sdiv 3600, tm_min = (rem smod 3600) sdiv 60, tm_sec = rem smod 60,
          tm_wday = (days smod 7 + 11) smod 7\<rparr>
      })"

definition lp_timegm :: "lp_tm \<Rightarrow> int" where
  "lp_timegm tm =
     (let days = (if tm_year tm \<ge> 1970
                  then fold (\<lambda>y days. days + year_length y) [1970..tm_year tm - 1] 0
                  else fold (\<lambda>y days. days - year_length y) [tm_year tm..1969] 0);
          days = fold (\<lambda>m days. days + days_in_month (tm_year tm) m) [0..<nat (tm_mon tm - 1)] days;
          days = days + (tm_day tm - 1)
      in days * 86400 + tm_hour tm * 3600 + tm_min tm * 60 + tm_sec tm)"

section \<open>The calendar\<close>

text \<open>The days from the first of January of year 1 to that of year \<open>y\<close>.\<close>

definition year_start :: "int \<Rightarrow> int" where
  "year_start y = 365 * (y - 1) + (y - 1) div 4 - (y - 1) div 100 + (y - 1) div 400"

definition leap_year :: "int \<Rightarrow> bool" where
  "leap_year y \<longleftrightarrow> 4 dvd y \<and> (100 dvd y \<longrightarrow> 400 dvd y)"

lemma sdiv_pos: "k > 0 \<Longrightarrow> a sdiv k = (if a < 0 then - ((- a) div k) else a div k)" for a k :: int
  by (simp add: signed_divide_int_def sgn_if abs_if)

lemma smod_pos: "k > 0 \<Longrightarrow> a smod k = (if a < 0 then - ((- a) mod k) else a mod k)" for a k :: int
  by (simp add: signed_modulo_int_def sgn_if abs_if)

lemma smod_0_iff: "k > 0 \<Longrightarrow> y smod k = 0 \<longleftrightarrow> k dvd y" for y k :: int
  by (simp add: smod_pos dvd_eq_mod_eq_0 [symmetric])

lemma is_leap_eq: "is_leap y \<longleftrightarrow> leap_year y"
  unfolding is_leap_def leap_year_def smod_0_iff [of 4, simplified] smod_0_iff [of 100, simplified] smod_0_iff [of 400, simplified]
  using dvd_trans [of 4 400 y] by auto

lemma div_step:
  assumes "k > 1"
  shows "(y :: int) div k - (y - 1) div k = (if k dvd y then 1 else 0)"
proof -
  have y: "y = k * (y div k) + y mod k" "0 \<le> y mod k" "y mod k < k" using assms by simp_all
  show ?thesis
  proof (cases "y mod k = 0")
    case True
    then have "(y - 1) div k = y div k - 1"
      using y assms by (intro int_div_pos_eq [where r = "k - 1"]) (simp_all add: algebra_simps)
    then show ?thesis using True by (simp add: dvd_eq_mod_eq_0)
  next
    case False
    then have "1 \<le> y mod k" using y(2) by linarith
    then have "(y - 1) div k = y div k"
      using y(3) by (intro int_div_pos_eq [where r = "y mod k - 1"]) (simp_all add: algebra_simps)
    then show ?thesis using False by (simp add: dvd_eq_mod_eq_0)
  qed
qed

lemma year_start_Suc: "year_start (y + 1) = year_start y + year_length y"
proof -
  have d: "400 dvd y \<longrightarrow> 100 dvd y" "100 dvd y \<longrightarrow> 4 dvd y"
    using dvd_trans [of 100 400 y] dvd_trans [of 4 100 y] by simp_all
  have e: "365 * y + a - b + c - (365 * (y - 1) + a' - b' + c') = 365 + (a - a') - (b - b') + (c - c')" for a b c a' b' c' :: int
    by simp
  have "year_start (y + 1) - year_start y
    = 365 + (y div 4 - (y - 1) div 4) - (y div 100 - (y - 1) div 100) + (y div 400 - (y - 1) div 400)"
    unfolding year_start_def add_diff_cancel_right' by (rule e)
  also have "\<dots> = 365 + (if 4 dvd y then 1 else 0) - (if 100 dvd y then 1 else 0) + (if 400 dvd y then 1 else 0)"
    using div_step [of 4 y] div_step [of 100 y] div_step [of 400 y] by simp
  also have "\<dots> = year_length y"
    using d unfolding year_length_def is_leap_eq leap_year_def by (auto simp only: if_True if_False simp_thms split: if_splits)
  finally show ?thesis by simp
qed

text \<open>The years before and after a day, as the loops find them.\<close>

lemma years_back_start: "years_back y d = Some (y', d') \<Longrightarrow> year_start y' + d' = year_start y + d \<and> 0 \<le> d' \<and> (in_int y \<longrightarrow> in_int y')"
proof (induction y d rule: years_back.induct)
  case (1 y d)
  show ?case
  proof (cases "d < 0")
    case True
    then show ?thesis using 1 year_start_Suc [of "y - 1"] by (simp add: years_back.simps [of y d] split: if_splits)
  next
    case False
    then show ?thesis using 1(2) by (simp add: years_back.simps [of y d])
  qed
qed

lemma years_forth_start:
  "years_forth y d = Some (y', d') \<Longrightarrow> 0 \<le> d \<Longrightarrow>
    year_start y' + d' = year_start y + d \<and> 0 \<le> d' \<and> d' < year_length y' \<and> (in_int y \<longrightarrow> in_int y')"
proof (induction y d rule: years_forth.induct)
  case (1 y d)
  show ?case
  proof (cases "d < year_length y")
    case True
    then show ?thesis using 1(2,3) by (simp add: years_forth.simps [of y d])
  next
    case False
    then show ?thesis using 1(1) [OF False] 1(2,3) year_start_Suc [of y] by (simp add: years_forth.simps [of y d] split: if_splits)
  qed
qed

lemma year_start_mono: "x < y \<Longrightarrow> year_start x + year_length x \<le> year_start y"
proof (induction "nat (y - x)" arbitrary: y)
  case (Suc n)
  show ?case
  proof (cases "x = y - 1")
    case False
    then have "n = nat (y - 1 - x)" "x < y - 1" using Suc(2,3) by linarith+
    from Suc(1) [OF this] show ?thesis using year_start_Suc [of "y - 1"] year_length_pos [of "y - 1"] by simp
  qed (use year_start_Suc [of x] in simp)
qed simp

lemma year_start_less: "year_start x < year_start y \<Longrightarrow> x < y"
  using year_start_mono [of y x] year_length_pos [of y] by (cases x y rule: linorder_cases) auto

text \<open>The days whose year fits.\<close>

definition in_years :: "int \<Rightarrow> bool" where
  "in_years n \<longleftrightarrow> year_start (- (2 ^ 31)) \<le> n \<and> n < year_start (2 ^ 31)"

lemma years_back_defined: "in_int y \<Longrightarrow> in_years (year_start y + d) \<Longrightarrow> years_back y d \<noteq> None"
proof (induction y d rule: years_back.induct)
  case (1 y d)
  show ?case
  proof (cases "d < 0")
    case True
    then have "- (2 ^ 31) < y" using 1(3) year_start_less [of "- (2 ^ 31)" y] by (simp add: in_years_def)
    then have i: "in_int (y - 1)" using 1(2) by (simp add: in_int_def)
    have e: "year_start (y - 1) + (d + year_length (y - 1)) = year_start y + d" using year_start_Suc [of "y - 1"] by simp
    show ?thesis using 1(1) [OF True i i, unfolded e, OF 1(3)] True i by (simp add: years_back.simps [of y d])
  qed (simp add: years_back.simps [of y d])
qed

lemma years_forth_defined: "in_int y \<Longrightarrow> in_years (year_start y + d) \<Longrightarrow> years_forth y d \<noteq> None"
proof (induction y d rule: years_forth.induct)
  case (1 y d)
  show ?case
  proof (cases "d < year_length y")
    case False
    then have "year_start (y + 1) < year_start (2 ^ 31)" using 1(3) year_start_Suc [of y] by (simp add: in_years_def)
    from year_start_less [OF this] have i: "in_int (y + 1)" using 1(2) by (simp add: in_int_def)
    have e: "year_start (y + 1) + (d - year_length y) = year_start y + d" using year_start_Suc [of y] by simp
    show ?thesis using 1(1) [OF False i i, unfolded e, OF 1(3)] False i by (simp add: years_forth.simps [of y d])
  qed (simp add: years_forth.simps [of y d])
qed

lemma sum_forth: "a \<le> b \<Longrightarrow> fold (\<lambda>y days. days + year_length y) [a..b - 1] s = s + year_start b - year_start a"
proof (induction "nat (b - a)" arbitrary: a s)
  case (Suc n)
  have "a \<le> b - 1" "n = nat (b - (a + 1))" "a + 1 \<le> b" using Suc by auto
  then show ?case using Suc(1) [of "a + 1"] year_start_Suc [of a] by (simp add: upto_rec1 [of a])
qed simp

lemma sum_back: "a \<le> b \<Longrightarrow> fold (\<lambda>y days. days - year_length y) [a..b - 1] s = s - year_start b + year_start a"
proof (induction "nat (b - a)" arbitrary: a s)
  case (Suc n)
  have "a \<le> b - 1" "n = nat (b - (a + 1))" "a + 1 \<le> b" using Suc by auto
  then show ?case using Suc(1) [of "a + 1"] year_start_Suc [of a] by (simp add: upto_rec1 [of a])
qed simp

section \<open>Times and dates\<close>

definition days_before :: "int \<Rightarrow> nat \<Rightarrow> int" where
  "days_before y m = sum_list (map (days_in_month y) [0..<m])"

lemma days_before_Suc: "days_before y (Suc m) = days_before y m + days_in_month y m"
  by (simp add: days_before_def)

lemma month_12: "m < 12 \<Longrightarrow> m \<in> {0, 1, 2, 3, 4, 5, 6, 7, 8, 9, 10, 11}" for m :: nat
  by (simp, presburger)

lemma days_in_month_pos: "m < 12 \<Longrightarrow> 28 \<le> days_in_month y m \<and> days_in_month y m \<le> 31"
  by (drule month_12) (auto simp: days_in_month_def MDAYS_def)

lemma days_before_12: "days_before y 12 = year_length y"
proof -
  have u: "[0..<12] = [0, 1, 2, 3, 4, 5, 6, 7, 8, 9, 10, 11]" by (simp add: upt_rec)
  show ?thesis unfolding days_before_def u by (simp add: days_in_month_def MDAYS_def year_length_def)
qed

lemma months_before:
  "months y m d = (m', d') \<Longrightarrow> 0 \<le> d \<Longrightarrow> m \<le> 11 \<Longrightarrow> days_before y m + d < year_length y \<Longrightarrow>
    days_before y m' + d' = days_before y m + d \<and> m' \<le> 11 \<and> 0 \<le> d' \<and> d' < days_in_month y m'"
proof (induction y m d rule: months.induct)
  case (1 y m d)
  show ?case
  proof (cases "m < 11 \<and> d \<ge> days_in_month y m")
    case True
    then show ?thesis using 1(1) [OF True] 1(2-5) by (simp add: months.simps [of y m d] days_before_Suc)
  next
    case False
    have "m = 11 \<Longrightarrow> days_before y m + days_in_month y m = year_length y"
      using days_before_Suc [of y 11] days_before_12 [of y] by simp
    then show ?thesis using False 1(2-5) by (cases "m = 11") (auto simp: months.simps [of y m d] months.simps [of y 11 d])
  qed
qed

definition valid_tm :: "lp_tm \<Rightarrow> bool" where
  "valid_tm tm \<longleftrightarrow> 1 \<le> tm_mon tm \<and> tm_mon tm \<le> 12 \<and>
     1 \<le> tm_day tm \<and> tm_day tm \<le> days_in_month (tm_year tm) (nat (tm_mon tm - 1)) \<and>
     0 \<le> tm_hour tm \<and> tm_hour tm < 24 \<and> 0 \<le> tm_min tm \<and> tm_min tm < 60 \<and> 0 \<le> tm_sec tm \<and> tm_sec tm < 60"

text \<open>The number of the day, from 1970.\<close>

definition day_number :: "lp_tm \<Rightarrow> int" where
  "day_number tm = year_start (tm_year tm) - year_start 1970 + days_before (tm_year tm) (nat (tm_mon tm - 1)) + (tm_day tm - 1)"

lemma fold_days_before: "fold (\<lambda>m days. days + days_in_month y m) [0..<m] s = s + days_before y m"
  by (induction m arbitrary: s) (simp_all add: days_before_def)

lemma timegm_day_number: "lp_timegm tm = day_number tm * 86400 + tm_hour tm * 3600 + tm_min tm * 60 + tm_sec tm"
  using sum_forth [of 1970 "tm_year tm" 0] sum_back [of "tm_year tm" 1970 0]
  by (simp add: lp_timegm_def day_number_def fold_days_before)

lemma hms_split:
  assumes "0 \<le> r" "r < 86400"
  shows "r = (r div 3600) * 3600 + ((r mod 3600) div 60) * 60 + r mod (60 :: int)"
proof -
  have "r mod 60 = (r mod 3600) mod 60" by (simp add: mod_mod_cancel)
  then show ?thesis using mult_div_mod_eq [of 3600 r] mult_div_mod_eq [of 60 "r mod 3600"] by linarith
qed

text \<open>Truncated division mended by the sign of the remainder is floored division.\<close>

lemma floor_trunc:
  fixes k t :: int
  assumes "k > 0"
  shows "(if t smod k < 0 then t sdiv k - 1 else t sdiv k) = t div k \<and> (if t smod k < 0 then t smod k + k else t smod k) = t mod k"
proof -
  have e: "t = k * (t sdiv k) + t smod k"
  proof (cases "t < 0")
    case True
    have "- t = k * ((- t) div k) + (- t) mod k" by simp
    then have "t = - (k * ((- t) div k)) - (- t) mod k" by linarith
    then show ?thesis using assms True by (simp add: sdiv_pos smod_pos)
  next
    case False
    then show ?thesis using assms by (simp add: sdiv_pos smod_pos)
  qed
  have "0 \<le> (- t) mod k" "(- t) mod k < k" "0 \<le> t mod k" "t mod k < k" using assms by simp_all
  then have b: "- k < t smod k" "t smod k < k" unfolding smod_pos [OF assms] using assms
    by (cases "t < 0"; simp only: if_True if_False; linarith)+
  show ?thesis
  proof (cases "t smod k < 0")
    case True
    have e': "t = k * (t sdiv k - 1) + (t smod k + k)" using e by (simp add: algebra_simps)
    have "t div k = t sdiv k - 1" by (rule int_div_pos_eq [OF e']) (use True b in auto)
    moreover have "t mod k = t smod k + k" by (rule int_mod_pos_eq [OF e']) (use True b in auto)
    ultimately show ?thesis using True by simp
  next
    case False
    have "t div k = t sdiv k" by (rule int_div_pos_eq [OF e]) (use False b in auto)
    moreover have "t mod k = t smod k" by (rule int_mod_pos_eq [OF e]) (use False b in auto)
    ultimately show ?thesis using False by simp
  qed
qed

text \<open>The day of a time and the seconds in it, by floored division.\<close>

lemma gmtime_floor:
  "lp_gmtime t = do {
     (y, d) \<leftarrow> years_back 1970 (t div 86400);
     (y, d) \<leftarrow> years_forth y d;
     let (m, d) = months y 0 d;
     Some \<lparr>tm_year = y, tm_mon = int m + 1, tm_day = d + 1,
       tm_hour = (t mod 86400) div 3600, tm_min = (t mod 86400 mod 3600) div 60, tm_sec = t mod 86400 mod 60,
       tm_wday = (t div 86400 + 4) mod 7\<rparr>
   }"
proof -
  define days rem where "days = (if t smod 86400 < 0 then t sdiv 86400 - 1 else t sdiv 86400)"
    and "rem = (if t smod 86400 < 0 then t smod 86400 + 86400 else t smod 86400)"
  have dr: "days = t div 86400" "rem = t mod 86400" unfolding days_def rem_def using floor_trunc [of 86400 t] by simp_all
  have r: "0 \<le> rem" using dr by simp
  have g: "lp_gmtime t = do {
      (y, d) \<leftarrow> years_back 1970 days;
      (y, d) \<leftarrow> years_forth y d;
      let (m, d) = months y 0 d;
      Some \<lparr>tm_year = y, tm_mon = int m + 1, tm_day = d + 1, tm_hour = rem sdiv 3600, tm_min = (rem smod 3600) sdiv 60,
        tm_sec = rem smod 60, tm_wday = (days smod 7 + 11) smod 7\<rparr> }"
    by (simp add: lp_gmtime_def days_def rem_def Let_def)
  have "(days smod 7 + 11) smod 7 = (days + 4) mod 7"
  proof -
    have "(- days) mod 7 \<le> 11" using pos_mod_bound [of 7 "- days"] by linarith
    then have "0 \<le> days smod 7 + 11" by (simp add: smod_pos)
    then have "(days smod 7 + 11) smod 7 = (days smod 7 + 11) mod 7" by (simp add: smod_pos)
    also have "\<dots> = (days + 11) mod 7"
      using mod_diff_right_eq [of 11 "- days" 7] mod_add_left_eq [of days 7 11] by (simp add: smod_pos add.commute)
    also have "\<dots> = (days + 4) mod 7" using mod_add_self2 [of "days + 4" 7] by (simp add: add.assoc)
    finally show ?thesis .
  qed
  moreover have "rem sdiv 3600 = rem div 3600" "rem smod 3600 = rem mod 3600" "rem smod 60 = rem mod 60"
    "(rem mod 3600) sdiv 60 = rem mod 3600 div 60"
    using r by (simp_all add: sdiv_pos smod_pos)
  ultimately show ?thesis unfolding g by (simp only: dr)
qed

lemma gmtime_parts:
  assumes "lp_gmtime t = Some tm"
  obtains y1 d1 y d2 m d3 where "years_back 1970 (t div 86400) = Some (y1, d1)" "years_forth y1 d1 = Some (y, d2)" "months y 0 d2 = (m, d3)"
    "tm = \<lparr>tm_year = y, tm_mon = int m + 1, tm_day = d3 + 1,
       tm_hour = (t mod 86400) div 3600, tm_min = (t mod 86400 mod 3600) div 60, tm_sec = t mod 86400 mod 60,
       tm_wday = (t div 86400 + 4) mod 7\<rparr>"
proof -
  obtain y1 d1 where 1: "years_back 1970 (t div 86400) = Some (y1, d1)"
    using assms unfolding gmtime_floor by (cases "years_back 1970 (t div 86400)") auto
  obtain y d2 where 2: "years_forth y1 d1 = Some (y, d2)"
    using assms unfolding gmtime_floor 1 by (cases "years_forth y1 d1") auto
  obtain m d3 where 3: "months y 0 d2 = (m, d3)" by fastforce
  show thesis using assms unfolding gmtime_floor by (intro that [OF 1 2 3]) (simp add: 1 2 3)
qed

lemma gmtime_date:
  assumes "lp_gmtime t = Some tm"
  shows "valid_tm tm \<and> in_int (tm_year tm) \<and> day_number tm = t div 86400 \<and> tm_wday tm = (t div 86400 + 4) mod 7 \<and> lp_timegm tm = t"
proof -
  obtain y1 d1 y d2 m d3 where 1: "years_back 1970 (t div 86400) = Some (y1, d1)" and 2: "years_forth y1 d1 = Some (y, d2)"
      and 3: "months y 0 d2 = (m, d3)" and
      g: "tm = \<lparr>tm_year = y, tm_mon = int m + 1, tm_day = d3 + 1,
       tm_hour = (t mod 86400) div 3600, tm_min = (t mod 86400 mod 3600) div 60, tm_sec = t mod 86400 mod 60,
       tm_wday = (t div 86400 + 4) mod 7\<rparr>"
    using assms by (rule gmtime_parts)
  have a: "year_start y1 + d1 = year_start 1970 + t div 86400" "0 \<le> d1" "in_int y1"
    using years_back_start [OF 1] by (simp_all add: in_int_def)
  have b: "year_start y + d2 = year_start y1 + d1" "0 \<le> d2" "d2 < year_length y" "in_int y" using years_forth_start [OF 2 a(2)] a(3) by simp_all
  have c: "days_before y m + d3 = d2" "m \<le> 11" "0 \<le> d3" "d3 < days_in_month y m"
    using months_before [OF 3 b(2)] b(3) by (simp_all add: days_before_def)
  have r: "0 \<le> t mod 86400" "t mod 86400 < 86400" by simp_all
  have h: "t mod 86400 div 3600 < 24" "0 \<le> t mod 86400 div 3600" "t mod 86400 mod 3600 div 60 < 60" "0 \<le> t mod 86400 mod 3600 div 60"
    using r by (simp_all add: div_less_iff_less_mult pos_imp_zdiv_nonneg_iff)
  have d: "day_number tm = t div 86400" using a b c by (simp add: g day_number_def)
  have v: "valid_tm tm" "in_int (tm_year tm)" using c h b(4) by (simp_all add: g valid_tm_def)
  have "lp_timegm tm = (t div 86400) * 86400 +
      (t mod 86400 div 3600 * 3600 + t mod 86400 mod 3600 div 60 * 60 + t mod 86400 mod 60)"
    unfolding timegm_day_number d by (simp add: g)
  also have "\<dots> = (t div 86400) * 86400 + t mod 86400"
    by (rule arg_cong [where f = "\<lambda>x. (t div 86400) * 86400 + x"]) (rule hms_split [OF r, symmetric])
  also have "\<dots> = t" by (rule div_mult_mod_eq)
  finally have "lp_timegm tm = t" .
  moreover have "tm_wday tm = (t div 86400 + 4) mod 7" unfolding g by (rule lp_tm.simps)
  ultimately show ?thesis using d v by blast
qed

lemma gmtime_defined:
  assumes "in_years (year_start 1970 + t div 86400)"
  shows "\<exists>tm. lp_gmtime t = Some tm"
proof -
  have i: "in_int 1970" by (simp add: in_int_def)
  obtain y d where 1: "years_back 1970 (t div 86400) = Some (y, d)" using years_back_defined [OF i assms] by fastforce
  note b = years_back_start [OF 1]
  then obtain y' d' where "years_forth y d = Some (y', d')" using years_forth_defined [of y d] i assms by fastforce
  then show ?thesis unfolding gmtime_floor 1 by (simp add: Let_def split: prod.splits)
qed

text \<open>Conversely, a date in its ranges is what its time is converted to, the day of the week apart.\<close>

lemma days_before_mono: "m < n \<Longrightarrow> n \<le> 12 \<Longrightarrow> days_before y m + days_in_month y m \<le> days_before y n"
proof (induction n)
  case (Suc n)
  then show ?case using days_in_month_pos [of n y] by (cases "m = n") (auto simp: days_before_Suc)
qed simp

lemma gmtime_timegm:
  assumes "valid_tm tm" "in_int (tm_year tm)"
  shows "lp_gmtime (lp_timegm tm) = Some (tm\<lparr>tm_wday := (day_number tm + 4) mod 7\<rparr>) \<and> in_years (year_start 1970 + lp_timegm tm div 86400)"
proof -
  let ?t = "lp_timegm tm"
  define m where "m = nat (tm_mon tm - 1)"
  define s where "s = tm_hour tm * 3600 + tm_min tm * 60 + tm_sec tm"
  have v: "m \<le> 11" "tm_mon tm = int m + 1" "1 \<le> tm_day tm" "tm_day tm \<le> days_in_month (tm_year tm) m"
    "0 \<le> tm_hour tm" "tm_hour tm < 24" "0 \<le> tm_min tm" "tm_min tm < 60" "0 \<le> tm_sec tm" "tm_sec tm < 60"
    using assms(1) by (auto simp: valid_tm_def m_def)
  have s: "0 \<le> s" "s < 86400" using v unfolding s_def by linarith+
  have t: "?t = day_number tm * 86400 + s" by (simp add: timegm_day_number s_def)
  have d: "?t div 86400 = day_number tm" "?t mod 86400 = s" unfolding t using s by simp_all
  have ms: "s div 3600 = tm_hour tm" "s mod 3600 = tm_min tm * 60 + tm_sec tm"
    using v unfolding s_def by (auto intro!: int_div_pos_eq [where r = "tm_min tm * 60 + tm_sec tm"] int_mod_pos_eq [where q = "tm_hour tm"])
  have ms2: "s mod 3600 div 60 = tm_min tm" "s mod 60 = tm_sec tm"
    using v unfolding ms(2) unfolding s_def by (auto intro!: int_div_pos_eq [where r = "tm_sec tm"] int_mod_pos_eq [where q = "tm_hour tm * 60 + tm_min tm"])
  have e: "0 \<le> days_before (tm_year tm) m" "days_before (tm_year tm) m + (tm_day tm - 1) < year_length (tm_year tm)"
  proof -
    show "0 \<le> days_before (tm_year tm) m" unfolding days_before_def
    proof (rule sum_list_nonneg)
      fix x
      assume "x \<in> set (map (days_in_month (tm_year tm)) [0..<m])"
      then obtain j where "j < m" "x = days_in_month (tm_year tm) j" by auto
      then have "j < 12" "x = days_in_month (tm_year tm) j" using v(1) by simp_all
      then show "0 \<le> x" using days_in_month_pos [of j "tm_year tm"] by simp
    qed
    show "days_before (tm_year tm) m + (tm_day tm - 1) < year_length (tm_year tm)"
      using days_before_mono [of m 12 "tm_year tm"] v(1,4) days_before_12 [of "tm_year tm"] by simp
  qed
  have u: "year_start 1970 + ?t div 86400 = year_start (tm_year tm) + (days_before (tm_year tm) m + (tm_day tm - 1))"
    by (simp add: d day_number_def m_def)
  have iy: "in_years (year_start 1970 + ?t div 86400)"
  proof -
    have "year_start (- (2 ^ 31)) \<le> year_start (tm_year tm)"
      using year_start_mono [of "- (2 ^ 31)" "tm_year tm"] year_length_pos [of "- (2 ^ 31)"] assms(2)
      by (cases "tm_year tm = - (2 ^ 31)") (auto simp: in_int_def)
    moreover have "year_start (tm_year tm) + year_length (tm_year tm) \<le> year_start (2 ^ 31)"
      using year_start_mono [of "tm_year tm" "2 ^ 31"] assms(2) by (simp add: in_int_def)
    ultimately show ?thesis unfolding u in_years_def using e v(3) by linarith
  qed
  obtain g where gt: "lp_gmtime ?t = Some g" using gmtime_defined [OF iy] by blast
  then obtain y1 d1 y d2 k d3 where 1: "years_back 1970 (?t div 86400) = Some (y1, d1)" and 2: "years_forth y1 d1 = Some (y, d2)"
      and 3: "months y 0 d2 = (k, d3)"
      and g: "g = \<lparr>tm_year = y, tm_mon = int k + 1, tm_day = d3 + 1,
       tm_hour = (?t mod 86400) div 3600, tm_min = (?t mod 86400 mod 3600) div 60, tm_sec = ?t mod 86400 mod 60,
       tm_wday = (?t div 86400 + 4) mod 7\<rparr>" by (rule gmtime_parts)
  have a: "year_start y1 + d1 = year_start 1970 + day_number tm" "0 \<le> d1" using years_back_start [OF 1] d by simp_all
  have b: "year_start y + d2 = year_start y1 + d1" "0 \<le> d2" "d2 < year_length y" using years_forth_start [OF 2 a(2)] by simp_all
  have c: "days_before y k + d3 = d2" "k \<le> 11" "0 \<le> d3" "d3 < days_in_month y k"
    using months_before [OF 3 b(2)] b(3) by (simp_all add: days_before_def)
  have n: "year_start (tm_year tm) + (days_before (tm_year tm) m + (tm_day tm - 1)) = year_start y + d2"
    using a(1) b(1) by (simp add: day_number_def m_def)
  have y: "y = tm_year tm"
    using year_start_mono [of y "tm_year tm"] year_start_mono [of "tm_year tm" y] n e v(3) b(2,3) by linarith
  have k: "k = m"
    using days_before_mono [of k m y] days_before_mono [of m k y] c n v(1,3,4) unfolding y by (cases k m rule: linorder_cases) auto
  have "d3 + 1 = tm_day tm" using c n unfolding y k by simp
  then have "g = tm\<lparr>tm_wday := (day_number tm + 4) mod 7\<rparr>" unfolding g d ms2 ms(1) unfolding y k
    by (intro lp_tm.equality) (simp_all add: v(2))
  then show ?thesis using iy gt by simp
qed

lemma in_years_near:
  assumes "\<bar>t\<bar> \<le> 2 ^ 55" shows "in_years (year_start 1970 + t div 86400)"
proof -
  have "- (2 ^ 55) \<le> t" "t \<le> 2 ^ 55" using assms by auto
  then have "- (2 ^ 55) div 86400 \<le> t div 86400" "t div 86400 \<le> 2 ^ 55 div 86400" by (simp_all add: zdiv_mono1)
  then show ?thesis by (simp add: in_years_def year_start_def)
qed

text \<open>
  C29: \<open>lp_gmtime\<close> of a time within 2^55 seconds of 1970 - more than a thousand million years - does not
  overflow its year.  Whenever it does not, it gives the one date of the Gregorian calendar - month, day
  of the month and time of the day in their ranges, leap years included, before 1970 as after it - that
  lies as many days after 1970 as the time says, with its day of the week, and \<open>lp_timegm\<close> takes it back.
  And every date with its fields in their ranges and a year in 32 bits is the one that its time, which
  is far within 64 bits, is converted to.
\<close>

theorem gmtime_correct:
  "(\<bar>t\<bar> \<le> 2 ^ 55 \<longrightarrow> lp_gmtime t \<noteq> None) \<and>
   (lp_gmtime t = Some d \<longrightarrow> valid_tm d \<and> in_int (tm_year d) \<and> day_number d = t div 86400 \<and>
      tm_wday d = (t div 86400 + 4) mod 7 \<and> lp_timegm d = t) \<and>
   (valid_tm tm \<and> in_int (tm_year tm) \<longrightarrow> \<bar>lp_timegm tm\<bar> < 2 ^ 57 \<and>
      lp_gmtime (lp_timegm tm) = Some (tm\<lparr>tm_wday := (day_number tm + 4) mod 7\<rparr>))"
proof -
  have "\<bar>lp_timegm tm\<bar> < 2 ^ 57" if "valid_tm tm" "in_int (tm_year tm)"
    using gmtime_timegm [OF that] by (auto simp: in_years_def year_start_def)
  then show ?thesis using gmtime_date [of t d] gmtime_timegm [of tm] gmtime_defined [OF in_years_near, of t] by blast
qed

definition leap_day :: lp_tm where
  "leap_day = \<lparr>tm_year = 2024, tm_mon = 2, tm_day = 29, tm_hour = 23, tm_min = 59, tm_sec = 59, tm_wday = 0\<rparr>"

lemma gmtime_correct_witness: "lp_gmtime (lp_timegm leap_day) = Some (leap_day\<lparr>tm_wday := 4\<rparr>)"
proof -
  have "valid_tm leap_day" "in_int (tm_year leap_day)"
    by (simp_all add: valid_tm_def leap_day_def days_in_month_def is_leap_def smod_pos in_int_def)
  moreover have "(day_number leap_day + 4) mod 7 = 4"
    by (simp add: day_number_def leap_day_def days_before_def year_start_def days_in_month_def MDAYS_def)
  ultimately show ?thesis using gmtime_correct [of 0 leap_day leap_day] by simp
qed

text \<open>A time whose year does not fit in 32 bits.\<close>

lemma far_year: "\<not> in_years (year_start 1970 + 2 ^ 56 div 86400)"
  by (simp add: in_years_def year_start_def)

end
