(* ===== verification/StdioCall.thy ===== *)
theory StdioCall
  imports LpStdio
begin

text \<open>
  Calls of the printing functions as the programs make them: \<open>snprintf\<close> into a local buffer, and a
  call of \<open>printf\<close> or \<open>dprintf\<close> kept as its descriptor, format and arguments.
\<close>

section \<open>Buffers\<close>

text \<open>\<open>snprintf\<close> into a local buffer of the given size: its bytes afterwards, and the length it wanted.\<close>

definition sbuf :: "nat \<Rightarrow> cstring \<Rightarrow> arg list \<Rightarrow> (u8 list \<times> nat) option" where
  "sbuf cap fmt as =
     (case snprintf (Some (replicate cap 0)) (of_nat cap) fmt as of
        Some (Some b, n) \<Rightarrow> Some (b, unat n)
      | _ \<Rightarrow> None)"

definition stext :: "nat \<Rightarrow> cstring \<Rightarrow> arg list \<Rightarrow> cstring option" where
  "stext cap fmt as = map_option (\<lambda>(b, n). cstr_of b) (sbuf cap fmt as)"

definition astr :: "cstring \<Rightarrow> arg" where "astr s = Str (Some (s @ [0]))"
definition anum :: "int \<Rightarrow> arg" where "anum v = Num (word_of_int v)"

section \<open>Printing\<close>

text \<open>
  A program that prints leaves a list of calls; what a call writes is what \<open>dprintf\<close> writes, and
  \<open>None\<close> if a format does not fit its arguments.
\<close>

type_synonym print_call = "int \<times> cstring \<times> arg list"

definition stdout_call :: "cstring \<Rightarrow> arg list \<Rightarrow> print_call" where
  "stdout_call fmt as = (STDOUT_FILENO, fmt, as)"

definition stderr_call :: "cstring \<Rightarrow> arg list \<Rightarrow> print_call" where
  "stderr_call fmt as = (2, fmt, as)"

fun printed :: "int \<Rightarrow> print_call list \<Rightarrow> u8 list option" where
  "printed d [] = Some []"
| "printed d ((e, fmt, as) # calls) =
     (case (dprintf e fmt as, printed d calls) of
        (Some (ws, n), Some rest) \<Rightarrow> Some ((if e = d then concat (map snd ws) else []) @ rest)
      | _ \<Rightarrow> None)"

end
