(* ===== verification/HttpText.thy ===== *)
theory HttpText
  imports HttpPath LpTime StdioCall
begin

text \<open>
  The texts of the web server (\<open>userland/httpd/httpd.c\<close>): content types, dates, ranges, escapes.
  \<open>None\<close> is an operation C does not define.
\<close>

section \<open>Content types\<close>

definition types :: "(string \<times> string) list" where
  "types = [
     (''html'', ''text/html; charset=utf-8''), (''htm'', ''text/html; charset=utf-8''),
     (''css'', ''text/css; charset=utf-8''), (''js'', ''text/javascript; charset=utf-8''),
     (''json'', ''application/json''), (''png'', ''image/png''), (''jpg'', ''image/jpeg''), (''jpeg'', ''image/jpeg''),
     (''gif'', ''image/gif''), (''svg'', ''image/svg+xml''), (''webp'', ''image/webp''),
     (''ico'', ''image/vnd.microsoft.icon''), (''txt'', ''text/plain; charset=utf-8''),
     (''md'', ''text/markdown; charset=utf-8''), (''xml'', ''application/xml''), (''pdf'', ''application/pdf''),
     (''zip'', ''application/zip''), (''tar'', ''application/x-tar''), (''gz'', ''application/gzip''),
     (''wasm'', ''application/wasm''), (''woff'', ''font/woff''), (''woff2'', ''font/woff2''),
     (''mp4'', ''video/mp4''), (''webm'', ''video/webm''), (''mp3'', ''audio/mpeg''), (''wav'', ''audio/wav''),
     (''csv'', ''text/csv; charset=utf-8'')]"

text \<open>A suffix of the path is shorter the later it starts.\<close>

definition content_type :: "cstring \<Rightarrow> cstring" where
  "content_type path =
     (case (strrchr path 46, strrchr path 47) of
        (None, _) \<Rightarrow> cs ''application/octet-stream''
      | (Some dot, slash) \<Rightarrow>
          if (case slash of None \<Rightarrow> False | Some slash \<Rightarrow> length slash < length dot)
          then cs ''application/octet-stream''
          else
            (case find (\<lambda>(ext, type). strcmp (tl dot) (cs ext) = 0) types of
               Some (ext, type) \<Rightarrow> cs type
             | None \<Rightarrow> cs ''application/octet-stream''))"

section \<open>Dates\<close>

definition WDAY :: "string list" where
  "WDAY = [''Sun'', ''Mon'', ''Tue'', ''Wed'', ''Thu'', ''Fri'', ''Sat'']"

definition MON :: "string list" where
  "MON = [''Jan'', ''Feb'', ''Mar'', ''Apr'', ''May'', ''Jun'', ''Jul'', ''Aug'', ''Sep'', ''Oct'', ''Nov'', ''Dec'']"

definition http_date :: "int \<Rightarrow> nat \<Rightarrow> cstring option" where
  "http_date t n =
     do {
      tm \<leftarrow> lp_gmtime t;
      let mon = (if tm_mon tm < 1 \<or> tm_mon tm > 12 then 1 else tm_mon tm);
      let wday = (if tm_wday tm < 0 \<or> tm_wday tm > 6 then 0 else tm_wday tm);
      stext n (cs ''%s, %02d %s %d %02d:%02d:%02d GMT'')
           [astr (cs (WDAY ! nat wday)), anum (tm_day tm), astr (cs (MON ! nat (mon - 1))), anum (tm_year tm),
            anum (tm_hour tm), anum (tm_min tm), anum (tm_sec tm)]
     }"

definition digits :: "cstring \<Rightarrow> nat \<Rightarrow> bool" where
  "digits s n \<longleftrightarrow> list_all (\<lambda>i. 48 \<le> ch s i \<and> ch s i \<le> 57) [0..<n]"

definition num :: "cstring \<Rightarrow> nat \<Rightarrow> int" where
  "num s n = fold (\<lambda>i v. v * 10 + (int (unat (ch s i)) - 48)) [0..<n] 0"

definition http_date_parse :: "cstring \<Rightarrow> int option" where
  "http_date_parse s =
     (let s = dropWhile (\<lambda>c. c = 32) s in
      if strlen s < 25 then None
      else if ch s 3 \<noteq> 44 \<or> ch s 4 \<noteq> 32 \<or> ch s 7 \<noteq> 32 \<or> ch s 11 \<noteq> 32 \<or>
              ch s 16 \<noteq> 32 \<or> ch s 19 \<noteq> 58 \<or> ch s 22 \<noteq> 58 then None
      else if \<not> digits (drop 5 s) 2 \<or> \<not> digits (drop 12 s) 4 \<or> \<not> digits (drop 17 s) 2 \<or>
              \<not> digits (drop 20 s) 2 \<or> \<not> digits (drop 23 s) 2 then None
      else
        (case find (\<lambda>i. strncmp (drop 8 s) (cs (MON ! i)) 3 = 0) [0..<12] of
           None \<Rightarrow> None
         | Some i \<Rightarrow>
             Some (lp_timegm \<lparr>tm_year = num (drop 12 s) 4, tm_mon = int i + 1, tm_day = num (drop 5 s) 2,
               tm_hour = num (drop 17 s) 2, tm_min = num (drop 20 s) 2, tm_sec = num (drop 23 s) 2, tm_wday = 0\<rparr>)))"

section \<open>Header names\<close>

fun hdr_is :: "cstring \<Rightarrow> cstring \<Rightarrow> bool" where
  "hdr_is (a # name) (w # want) =
     (let a = (if 65 \<le> a \<and> a \<le> 90 then a + 32 else a) in if a \<noteq> w then False else hdr_is name want)"
| "hdr_is name want \<longleftrightarrow> name = [] \<and> want = []"

section \<open>Ranges\<close>

text \<open>The end of \<open>parse_range\<close>, when both ends are known.\<close>

definition range_check :: "u64 \<Rightarrow> u64 \<Rightarrow> u64 \<Rightarrow> (int \<times> u64 \<times> u64) option" where
  "range_check sz first final =
     (if sz = 0 \<or> first \<ge> sz then Some (-1, first, final)
      else
        (let final = (if final \<ge> sz then sz - 1 else final) in
         Some (if final < first then -1 else 1, first, final)))"

text \<open>
  The verdict 1, 0 or -1 with \<open>*start\<close> and \<open>*end\<close> as the call leaves them; \<open>strtol\<close> has no defined
  value for a number that does not fit.
\<close>

definition parse_range :: "cstring \<Rightarrow> u64 \<Rightarrow> u64 \<Rightarrow> u64 \<Rightarrow> (int \<times> u64 \<times> u64) option" where
  "parse_range v sz start fin =
     (let v = dropWhile (\<lambda>c. c = 32) v in
      if strncmp v (cs ''bytes='') 6 \<noteq> 0 then Some (0, start, fin)
      else
        (let v = drop 6 v in
         if strchr v 44 \<noteq> None then Some (0, start, fin)
         else
           (case strchr v 45 of
              None \<Rightarrow> Some (0, start, fin)
            | Some dash \<Rightarrow>
                if length dash = length v then
                  (if \<not> digits (drop 1 dash) 1 then Some (0, start, fin)
                   else
                     (case strtol (drop 1 dash) 10 of
                        None \<Rightarrow> None
                      | Some (want, _) \<Rightarrow>
                          if want < 0 then Some (0, start, fin)
                          else if want = 0 \<or> sz = 0 then Some (-1, start, fin)
                          else Some (1, if word_of_int want \<ge> sz then 0 else sz - word_of_int want, sz - 1)))
                else if \<not> digits v 1 then Some (0, start, fin)
                else
                  (case strtol v 10 of
                     None \<Rightarrow> None
                   | Some (from, _) \<Rightarrow>
                       if from < 0 then Some (0, start, fin)
                       else
                         (let start = word_of_int from;
                              check = range_check sz start
                          in
                          if ch dash 1 = 0 then check (if sz \<noteq> 0 then sz - 1 else 0)
                          else if digits (drop 1 dash) 1 then
                            (case strtol (drop 1 dash) 10 of
                               None \<Rightarrow> None
                             | Some (to, _) \<Rightarrow> if to < 0 then Some (0, start, fin) else check (word_of_int to))
                          else Some (0, start, fin))))))"

section \<open>Escapes\<close>

definition html_rep :: "u8 \<Rightarrow> cstring option" where
  "html_rep c =
     (if c = 38 then Some (cs ''&amp;'')
      else if c = 60 then Some (cs ''&lt;'')
      else if c = 62 then Some (cs ''&gt;'')
      else if c = 34 then Some (cs ''&quot;'')
      else None)"

fun html_loop :: "cstring \<Rightarrow> cstring \<Rightarrow> nat \<Rightarrow> cstring" where
  "html_loop [] out outsz = out"
| "html_loop (c # s) out outsz =
     (if c = 0 \<or> \<not> length out + 8 < outsz then out
      else html_loop s (out @ (case html_rep c of Some rep \<Rightarrow> rep | None \<Rightarrow> [c])) outsz)"

definition html_escape :: "cstring \<Rightarrow> nat \<Rightarrow> cstring" where
  "html_escape s outsz = html_loop s [] outsz"

definition url_safe :: "u8 \<Rightarrow> bool" where
  "url_safe c \<longleftrightarrow> 97 \<le> c \<and> c \<le> 122 \<or> 65 \<le> c \<and> c \<le> 90 \<or> 48 \<le> c \<and> c \<le> 57 \<or>
     c = 45 \<or> c = 95 \<or> c = 46 \<or> c = 126 \<or> 128 \<le> c"

definition url_hex :: "u8 \<Rightarrow> u8" where
  "url_hex d = cs ''0123456789ABCDEF'' ! unat d"

fun url_loop :: "cstring \<Rightarrow> cstring \<Rightarrow> nat \<Rightarrow> cstring" where
  "url_loop [] out outsz = out"
| "url_loop (c # p) out outsz =
     (if c = 0 \<or> \<not> length out + 4 < outsz then out
      else url_loop p (out @ (if url_safe c then [c] else [37, url_hex (drop_bit 4 c), url_hex (c AND 15)])) outsz)"

definition url_escape :: "cstring \<Rightarrow> nat \<Rightarrow> cstring" where
  "url_escape s outsz = url_loop s [] outsz"

section \<open>Reasons\<close>

definition reasons :: "(nat \<times> string) list" where
  "reasons = [(200, ''OK''), (206, ''Partial Content''), (301, ''Moved Permanently''), (304, ''Not Modified''),
     (400, ''Bad Request''), (403, ''Forbidden''), (404, ''Not Found''), (405, ''Method Not Allowed''),
     (408, ''Request Timeout''), (413, ''Payload Too Large''), (414, ''URI Too Long''),
     (416, ''Range Not Satisfiable''), (431, ''Request Header Fields Too Large''),
     (500, ''Internal Server Error''), (501, ''Not Implemented''), (503, ''Service Unavailable'')]"

definition reason_for :: "nat \<Rightarrow> cstring" where
  "reason_for code = (case map_of reasons code of Some r \<Rightarrow> cs r | None \<Rightarrow> cs ''Error'')"

end
