(* ===== verification/LpHttpd.thy ===== *)
theory LpHttpd
  imports HttpText
begin

text \<open>
  One connection of the web server (\<open>serve\<close> of \<open>userland/httpd/httpd.c\<close>).  The client is the list
  of the results of reading from its socket and that of writing to it; the files are parameters; the
  clock is the list of the answers of \<open>lp_time\<close>.  What the connection does is recorded: the files it
  opens, the directories it lists, the lines it logs, and the bytes the client gets.  \<open>None\<close> is an
  operation C does not define.
\<close>

section \<open>The connection\<close>

datatype read_result = Got "u8 list" | Error nat

datatype event = Opened cstring | Listed cstring | Logged "u8 list"

text \<open>\<open>pending\<close> is \<open>buf\<close> from \<open>pos\<close> to \<open>len\<close>; the parts of \<open>inputs\<close> are at most 1024 bytes.\<close>

record conn =
  pending :: "u8 list"
  inputs :: "read_result list"
  room :: "int list"
  clock :: "int list"
  sent :: "u8 list"
  events :: "event list"

record files =
  f_root :: cstring
  f_stat :: stat_call
  f_open :: "cstring \<Rightarrow> (nat \<Rightarrow> nat \<Rightarrow> u8 list) option"
  f_dents :: "cstring \<Rightarrow> u8 list list option"
  f_addr :: cstring
  f_log :: bool

definition LP_EAGAIN :: nat where "LP_EAGAIN = 11"

definition lp_time :: "conn \<Rightarrow> int \<times> conn" where
  "lp_time c = (case clock c of [] \<Rightarrow> (0, c) | t # ts \<Rightarrow> (t, c\<lparr>clock := ts\<rparr>))"

definition note_event :: "event \<Rightarrow> conn \<Rightarrow> conn" where
  "note_event e c = c\<lparr>events := events c @ [e]\<rparr>"

datatype line_result = Line cstring | RD_EOF | RD_ERR | RD_TMOUT | RD_LONG | RD_NUL

definition getline_end :: "cstring \<Rightarrow> cstring" where
  "getline_end out = (if out \<noteq> [] \<and> last out = 13 then butlast out else out)"

function getline_loop :: "nat \<Rightarrow> u8 list \<Rightarrow> read_result list \<Rightarrow> cstring \<Rightarrow> line_result \<times> u8 list \<times> read_result list" where
  "getline_loop mx [] [] out = (RD_EOF, [], [])"
| "getline_loop mx [] (Error e # inp) out = (if e = LP_EAGAIN then RD_TMOUT else RD_ERR, [], inp)"
| "getline_loop mx [] (Got b # inp) out = (if b = [] then (RD_EOF, [], inp) else getline_loop mx b inp out)"
| "getline_loop mx (x # pend) inp out =
     (if x = 10 then (Line (getline_end out), pend, inp)
      else if x = 0 then (RD_NUL, pend, inp)
      else if length out \<ge> mx - 1 then (RD_LONG, pend, inp)
      else getline_loop mx pend inp (out @ [x]))"
  by pat_completeness auto
termination
proof (relation "measure (\<lambda>(mx, pend, inp, out). length pend + sum_list (map (\<lambda>r. case r of Got b \<Rightarrow> Suc (length b) | Error e \<Rightarrow> 1) inp))")
qed auto

definition conn_getline :: "conn \<Rightarrow> nat \<Rightarrow> line_result \<times> conn" where
  "conn_getline c mx =
     (let (r, pend, inp) = getline_loop mx (pending c) (inputs c) [] in (r, c\<lparr>pending := pend, inputs := inp\<rparr>))"

text \<open>Every call of \<open>lp_write\<close> takes some of the bytes or fails; a client that is gone takes none.\<close>

function write_loop :: "u8 list \<Rightarrow> int list \<Rightarrow> u8 list \<Rightarrow> bool \<times> int list \<times> u8 list" where
  "write_loop p rm snt =
     (if p = [] then (True, rm, snt)
      else
        (case rm of
           [] \<Rightarrow> (False, [], snt)
         | w # rm \<Rightarrow>
             if w \<le> 0 then (False, rm, snt)
             else write_loop (drop (nat w) p) rm (snt @ take (nat w) p)))"
  by auto
termination by (relation "measure (\<lambda>(p, rm, snt). length rm)") auto

declare write_loop.simps [simp del]

definition conn_write :: "conn \<Rightarrow> u8 list \<Rightarrow> bool \<times> conn" where
  "conn_write c p = (let (ok, rm, snt) = write_loop p (room c) (sent c) in (ok, c\<lparr>room := rm, sent := snt\<rparr>))"

section \<open>Responses\<close>

definition crlf :: cstring where "crlf = [13, 10]"

definition keep_text :: "bool \<Rightarrow> cstring" where
  "keep_text keepalive = (if keepalive then cs ''keep-alive'' else cs ''close'')"

text \<open>
  A write of the \<open>n\<close> bytes that \<open>snprintf\<close> said it wanted is only defined if they are in the buffer.
\<close>

definition write_buf :: "conn \<Rightarrow> (u8 list \<times> nat) \<Rightarrow> (bool \<times> conn) option" where
  "write_buf c bn = (case bn of (b, n) \<Rightarrow> if n \<le> length b then Some (conn_write c (take n b)) else None)"

definition send_error :: "conn \<Rightarrow> nat \<Rightarrow> cstring \<Rightarrow> bool \<Rightarrow> cstring \<Rightarrow> (bool \<times> conn) option" where
  "send_error c code extra keepalive meth = do {
     let reason = reason_for code;
     body \<leftarrow> sbuf 256 (cs ''<!doctype html><meta charset=\"utf-8\"><title>%d %s</title>'' @ [10] @ cs ''<h1>%d %s</h1>'' @ [10])
       [anum (int code), astr reason, anum (int code), astr reason];
     let (now, c) = lp_time c;
     date \<leftarrow> http_date now 40;
     head \<leftarrow> sbuf 640
       (cs ''HTTP/1.1 %d %s'' @ crlf @ cs ''Date: %s'' @ crlf @ cs ''Content-Type: text/html; charset=utf-8'' @ crlf @
        cs ''Content-Length: %d'' @ crlf @ cs ''Connection: %s'' @ crlf @ cs ''%s'' @ crlf)
       [anum (int code), astr reason, astr date, anum (int (snd body)), astr (keep_text keepalive), astr extra];
     (ok, c) \<leftarrow> write_buf c head;
     if \<not> ok then Some (False, c)
     else if strcmp meth (cs ''HEAD'') = 0 then Some (True, c)
     else write_buf c body
   }"

definition log_request :: "files \<Rightarrow> conn \<Rightarrow> cstring \<Rightarrow> cstring \<Rightarrow> nat \<Rightarrow> u64 \<Rightarrow> conn option" where
  "log_request F c meth path status bytes = (if \<not> f_log F then Some c else do {
     let (now, c) = lp_time c;
     tm \<leftarrow> lp_gmtime now;
     let shortpath = take 300 (if ch path 0 \<noteq> 0 then path else cs ''-'');
     let shortmethod = take 23 (if ch meth 0 \<noteq> 0 then meth else cs ''-'');
     (line, n) \<leftarrow> sbuf 420 (cs ''%04d-%02d-%02dT%02d:%02d:%02dZ %s %s %s %d %lu'' @ [10])
       [anum (tm_year tm), anum (tm_mon tm), anum (tm_day tm), anum (tm_hour tm), anum (tm_min tm), anum (tm_sec tm),
        astr (f_addr F), astr shortmethod, astr shortpath, anum (int status), Num bytes];
     Some (if n > 0 then note_event (Logged (take (if n > 419 then 419 else n) line)) c else c)
   })"

section \<open>One file\<close>

text \<open>The copy, \<open>left\<close> bytes to go from offset \<open>off\<close>: whether all went well and how much was sent.\<close>

function file_loop :: "(nat \<Rightarrow> nat \<Rightarrow> u8 list) \<Rightarrow> nat \<Rightarrow> nat \<Rightarrow> nat \<Rightarrow> conn \<Rightarrow> bool \<times> nat \<times> conn" where
  "file_loop rd off left done c =
     (if left = 0 then (True, done, c)
      else
        (let got = take (min left 4096) (rd off (min left 4096)) in
         if got = [] then (False, done, c)
         else
           (let (ok, c) = conn_write c got in
            if \<not> ok then (False, done, c)
            else file_loop rd (off + length got) (left - length got) (done + length got) c)))"
  by auto
termination by (relation "measure (\<lambda>(rd, off, left, done, c). left)") auto

declare file_loop.simps [simp del]

record sending =
  s_ok :: bool
  s_status :: nat
  s_sent :: nat

definition send_not_modified :: "conn \<Rightarrow> cstring \<Rightarrow> cstring \<Rightarrow> bool \<Rightarrow> (sending \<times> conn) option" where
  "send_not_modified c date lastmod keepalive = do {
     hdr \<leftarrow> sbuf 768
       (cs ''HTTP/1.1 304 Not Modified'' @ crlf @ cs ''Date: %s'' @ crlf @ cs ''Last-Modified: %s'' @ crlf @
        cs ''Connection: %s'' @ crlf @ crlf)
       [astr date, astr lastmod, astr (keep_text keepalive)];
     (k, c) \<leftarrow> write_buf c hdr;
     Some (\<lparr>s_ok = k, s_status = 304, s_sent = 0\<rparr>, c)
   }"

definition refuse_sending :: "conn \<Rightarrow> nat \<Rightarrow> cstring \<Rightarrow> bool \<Rightarrow> cstring \<Rightarrow> (sending \<times> conn) option" where
  "refuse_sending c code extra keepalive meth = do {
     (k, c) \<leftarrow> send_error c code extra keepalive meth;
     Some (\<lparr>s_ok = k, s_status = code, s_sent = 0\<rparr>, c)
   }"

definition file_header :: "cstring \<Rightarrow> cstring \<Rightarrow> cstring \<Rightarrow> bool \<Rightarrow> u64 \<Rightarrow> u64 \<Rightarrow> u64 \<Rightarrow> u64 \<Rightarrow> bool \<Rightarrow> (u8 list \<times> nat) option" where
  "file_header date lastmod full part first fin sz len keepalive =
     (if part then sbuf 768
        (cs ''HTTP/1.1 206 Partial Content'' @ crlf @ cs ''Date: %s'' @ crlf @ cs ''Last-Modified: %s'' @ crlf @
         cs ''Content-Type: %s'' @ crlf @ cs ''Content-Range: bytes %lu-%lu/%lu'' @ crlf @
         cs ''Content-Length: %lu'' @ crlf @ cs ''Accept-Ranges: bytes'' @ crlf @ cs ''Connection: %s'' @ crlf @ crlf)
        [astr date, astr lastmod, astr (content_type full), Num first, Num fin, Num sz, Num len, astr (keep_text keepalive)]
      else sbuf 768
        (cs ''HTTP/1.1 200 OK'' @ crlf @ cs ''Date: %s'' @ crlf @ cs ''Last-Modified: %s'' @ crlf @
         cs ''Content-Type: %s'' @ crlf @ cs ''Content-Length: %lu'' @ crlf @
         cs ''Accept-Ranges: bytes'' @ crlf @ cs ''Connection: %s'' @ crlf @ crlf)
        [astr date, astr lastmod, astr (content_type full), Num len, astr (keep_text keepalive)])"

text \<open>The file is open: the header, and the bytes from \<open>first\<close> on unless only the header is wanted.\<close>

definition send_open :: "conn \<Rightarrow> (nat \<Rightarrow> nat \<Rightarrow> u8 list) \<Rightarrow> u8 list \<times> nat \<Rightarrow> bool \<Rightarrow> bool \<Rightarrow> u64 \<Rightarrow> u64 \<Rightarrow> (sending \<times> conn) option" where
  "send_open c rd hdr part head_only first len = do {
     let code = (if part then 206 else 200);
     (k, c) \<leftarrow> write_buf c hdr;
     if \<not> k then Some (\<lparr>s_ok = False, s_status = code, s_sent = 0\<rparr>, c)
     else if head_only then Some (\<lparr>s_ok = True, s_status = code, s_sent = 0\<rparr>, c)
     else
       (let (k, n, c) = file_loop rd (unat first) (unat len) 0 c
        in Some (\<lparr>s_ok = k, s_status = code, s_sent = n\<rparr>, c))
   }"

definition send_file :: "files \<Rightarrow> conn \<Rightarrow> cstring \<Rightarrow> lp_stat \<Rightarrow> bool \<Rightarrow> cstring option \<Rightarrow> int \<Rightarrow> bool \<Rightarrow> (sending \<times> conn) option" where
  "send_file F c full st head_only range_hdr ims keepalive = do {
     let meth = (if head_only then cs ''HEAD'' else cs ''GET'');
     let (now, c) = lp_time c;
     date \<leftarrow> http_date now 40;
     lastmod \<leftarrow> http_date (st_mtime st) 40;
     if ims > 0 \<and> st_mtime st \<le> ims then send_not_modified c date lastmod keepalive
     else do {
       let sz = st_size st;
       (rc, first, last) \<leftarrow> (case range_hdr of
           Some r \<Rightarrow> parse_range r sz 0 (if sz \<noteq> 0 then sz - 1 else 0)
         | None \<Rightarrow> Some (0, 0, if sz \<noteq> 0 then sz - 1 else 0));
       if rc < 0 then do {
         extra \<leftarrow> stext 80 (cs ''Content-Range: bytes */%lu'' @ crlf) [Num sz];
         refuse_sending c 416 extra keepalive meth
       } else
         (case f_open F full of
            None \<Rightarrow> refuse_sending c 403 [] keepalive meth
          | Some rd \<Rightarrow> do {
              let len = (if rc = 1 then last - first + 1 else sz);
              hdr \<leftarrow> file_header date lastmod full (rc = 1) first last sz len keepalive;
              send_open (note_event (Opened full) c) rd hdr (rc = 1) head_only first len
            })
     }
   }"

section \<open>Directories\<close>

definition MAX_LIST :: nat where "MAX_LIST = 128"
definition NAME_MAX :: nat where "NAME_MAX = 64"
definition LIST_BUF :: nat where "LIST_BUF = 16384"

text \<open>
  The records of one answer of \<open>getdents\<close>: their length at offset 16, the name from offset 19; the
  names so far and whether some had no room.
\<close>

function dents_loop :: "u8 list \<Rightarrow> cstring list \<Rightarrow> bool \<Rightarrow> cstring list \<times> bool" where
  "dents_loop d names short =
     (if d = [] then (names, short)
      else
        (let reclen = unat (ch d 16) + 256 * unat (ch d 17); name = cstr_of (drop 19 d) in
         if reclen = 0 then (names, short)
         else
           (let d = drop reclen d in
            if ch name 0 = 46 then dents_loop d names short
            else if length name \<ge> NAME_MAX then dents_loop d names short
            else if length names \<ge> MAX_LIST then dents_loop d names True
            else dents_loop d (names @ [name]) short)))"
  by auto
termination by (relation "measure (\<lambda>(d, names, short). length d)") auto

declare dents_loop.simps [simp del]

fun dents_all :: "u8 list list \<Rightarrow> cstring list \<Rightarrow> bool \<Rightarrow> cstring list \<times> bool" where
  "dents_all [] names short = (names, short)"
| "dents_all (d # ds) names short =
     (if d = [] then (names, short) else (let (names, short) = dents_loop d names short in dents_all ds names short))"

text \<open>The insertion of \<open>g_names[i]\<close> into the sorted names before it, from the end.\<close>

definition insert_name :: "cstring list \<Rightarrow> cstring \<Rightarrow> cstring list" where
  "insert_name done tmp =
     (let above = takeWhile (\<lambda>n. strcmp n tmp > 0) (rev done)
      in rev (drop (length above) (rev done)) @ [tmp] @ rev above)"

definition sort_names :: "cstring list \<Rightarrow> cstring list" where
  "sort_names names = foldl insert_name [] names"

text \<open>What the next \<open>snprintf\<close> at the end of \<open>g_list\<close> leaves there.\<close>

definition append_list :: "cstring \<Rightarrow> cstring \<Rightarrow> arg list \<Rightarrow> cstring option" where
  "append_list acc fmt as = map_option (\<lambda>t. acc @ t) (stext (LIST_BUF - length acc) fmt as)"

fun list_entries :: "files \<Rightarrow> cstring \<Rightarrow> cstring list \<Rightarrow> cstring \<Rightarrow> bool \<Rightarrow> (cstring \<times> bool) option" where
  "list_entries F dir [] acc short = Some (acc, short)"
| "list_entries F dir (name # names) acc short =
     (if length acc + NAME_MAX * 13 > LIST_BUF - 1 - 256 then Some (acc, True)
      else do {
        full \<leftarrow> stext PATH_MAX (cs ''%s/%s'') [astr dir, astr name];
        let slash = (case f_stat F full of Inl e \<Rightarrow> [] | Inr st \<Rightarrow> if is_kind st LP_S_IFDIR then [47] else []);
        acc \<leftarrow> append_list acc (cs ''<li><a href=\"%s%s\">%s%s</a></li>'' @ [10])
          [astr (url_escape name (NAME_MAX * 4)), astr slash, astr (html_escape name (NAME_MAX * 8)), astr slash];
        list_entries F dir names acc short
      })"

definition build_listing :: "files \<Rightarrow> conn \<Rightarrow> cstring \<Rightarrow> cstring \<Rightarrow> (cstring option \<times> conn) option" where
  "build_listing F c dir rel =
     (case f_dents F dir of
        None \<Rightarrow> Some (None, c)
      | Some ds \<Rightarrow> do {
          let c = note_event (Listed dir) c;
          let (names, short) = dents_all ds [] False;
          let names = sort_names names;
          let reldisp = html_escape rel 768;
          acc \<leftarrow> append_list []
            (cs ''<!doctype html><meta charset=\"utf-8\"><title>%s</title>'' @ [10] @ cs ''<h1>%s</h1>'' @ [10] @ cs ''<ul>'' @ [10])
            [astr reldisp, astr reldisp];
          acc \<leftarrow> (if strcmp rel (cs ''/'') \<noteq> 0 then append_list acc (cs ''<li><a href=\"../\">../</a></li>'' @ [10]) [] else Some acc);
          (acc, short) \<leftarrow> list_entries F dir names acc short;
          acc \<leftarrow> append_list acc (cs ''</ul>'' @ [10] @ cs ''%s'')
            [astr (if short then cs ''<p>this listing was cut short - there are more files here than it will show.</p>'' @ [10] else [])];
          Some (Some acc, c)
        })"

section \<open>Requests\<close>

definition REQ_LINE_MAX :: nat where "REQ_LINE_MAX = 2048"
definition HDR_LINE_MAX :: nat where "HDR_LINE_MAX = 1024"
definition MAX_HEADERS :: nat where "MAX_HEADERS = 48"
definition HDR_TOTAL_MAX :: nat where "HDR_TOTAL_MAX = 8192"
definition MAX_REQUESTS :: nat where "MAX_REQUESTS = 64"

record headers =
  keepalive :: bool
  range_hdr :: "cstring option"
  ims_raw :: cstring

definition lower_case :: "cstring \<Rightarrow> cstring" where
  "lower_case s = map (\<lambda>c. if 65 \<le> c \<and> c \<le> 90 then c + 32 else c) s"

definition take_header :: "cstring \<Rightarrow> headers \<Rightarrow> headers" where
  "take_header h hs =
     (case strchr h 58 of
        None \<Rightarrow> hs
      | Some colon \<Rightarrow>
          (let name = takeWhile (\<lambda>c. c \<noteq> 58) h;
               val = dropWhile (\<lambda>c. c = 32 \<or> c = 9) (tl colon)
           in if hdr_is name (cs ''connection'') then
                (if strstr (lower_case (take 63 val)) (cs ''close'') \<noteq> None then hs\<lparr>keepalive := False\<rparr> else hs)
              else if hdr_is name (cs ''range'') then hs\<lparr>range_hdr := Some (take 127 val)\<rparr>
              else if hdr_is name (cs ''if-modified-since'') then hs\<lparr>ims_raw := take 63 val\<rparr>
              else if hdr_is name (cs ''content-length'') \<or> hdr_is name (cs ''transfer-encoding'') then
                (if \<not> (ch val 0 = 48 \<and> ch val 1 = 0) then hs\<lparr>keepalive := False\<rparr> else hs)
              else hs))"

text \<open>The header lines up to the empty one: all well, a status to send, or the client is gone.\<close>

datatype header_result = All_well | Refuse nat | Vanished

function header_loop :: "nat \<Rightarrow> nat \<Rightarrow> headers \<Rightarrow> conn \<Rightarrow> header_result \<times> headers \<times> conn" where
  "header_loop count bytes hs c =
     (case conn_getline c HDR_LINE_MAX of
        (Line h, c) \<Rightarrow>
          if h = [] then (All_well, hs, c)
          else if count + 1 > MAX_HEADERS \<or> bytes + length h > HDR_TOTAL_MAX then (Refuse 431, hs, c)
          else header_loop (count + 1) (bytes + length h) (take_header h hs) c
      | (RD_LONG, c) \<Rightarrow> (Refuse 431, hs, c)
      | (RD_TMOUT, c) \<Rightarrow> (Refuse 408, hs, c)
      | (RD_NUL, c) \<Rightarrow> (Refuse 400, hs, c)
      | (_, c) \<Rightarrow> (Vanished, hs, c))"
  by auto
termination by (relation "measure (\<lambda>(count, bytes, hs, c). Suc MAX_HEADERS - count)") auto

declare header_loop.simps [simp del]

text \<open>
  A request whose headers have come: refused, redirected or answered.  The result says whether the
  connection goes on.
\<close>

fun put_slashes_back :: "cstring \<Rightarrow> cstring" where
  "put_slashes_back (c # d # e # q) =
     (if c = 37 \<and> d = 50 \<and> (e = 70 \<or> e = 102) then 47 # put_slashes_back q else c # put_slashes_back (d # e # q))"
| "put_slashes_back q = q"

definition refuse :: "files \<Rightarrow> conn \<Rightarrow> nat \<Rightarrow> cstring \<Rightarrow> bool \<Rightarrow> cstring \<Rightarrow> cstring \<Rightarrow> conn option" where
  "refuse F c code extra keep meth path = do {
     (k, c) \<leftarrow> send_error c code extra keep meth;
     log_request F c meth path code 0
   }"

definition send_listing :: "conn \<Rightarrow> cstring \<Rightarrow> bool \<Rightarrow> bool \<Rightarrow> (sending \<times> conn) option" where
  "send_listing c g_list is_head keep = do {
     let (now, c) = lp_time c;
     date \<leftarrow> http_date now 40;
     hdr \<leftarrow> sbuf 512
       (cs ''HTTP/1.1 200 OK'' @ crlf @ cs ''Date: %s'' @ crlf @ cs ''Content-Type: text/html; charset=utf-8'' @ crlf @
        cs ''Content-Length: %d'' @ crlf @ cs ''Connection: %s'' @ crlf @ crlf)
       [astr date, anum (int (length g_list)), astr (keep_text keep)];
     (k, c) \<leftarrow> write_buf c hdr;
     if k \<and> \<not> is_head then
       (let (k, c) = conn_write c g_list in Some (\<lparr>s_ok = k, s_status = 200, s_sent = length g_list\<rparr>, c))
     else Some (\<lparr>s_ok = k, s_status = 200, s_sent = 0\<rparr>, c)
   }"

definition serve_directory :: "files \<Rightarrow> conn \<Rightarrow> cstring \<Rightarrow> cstring \<Rightarrow> bool \<Rightarrow> headers \<Rightarrow> int \<Rightarrow> cstring \<Rightarrow> (sending \<times> conn) option" where
  "serve_directory F c full rel is_head hs ims meth =
     (if rel = [] \<or> last rel \<noteq> 47 then do {
        loc \<leftarrow> stext (PATH_MAX + 64) (cs ''Location: %s/'' @ crlf) [astr (put_slashes_back (url_escape rel (PATH_MAX * 3)))];
        refuse_sending c 301 loc (keepalive hs) meth
      } else do {
        index \<leftarrow> stext PATH_MAX (cs ''%s/index.html'') [astr full];
        case (case f_stat F index of Inr ist \<Rightarrow> if is_kind ist LP_S_IFREG then Some ist else None | Inl e \<Rightarrow> None) of
          Some ist \<Rightarrow> send_file F c index ist is_head (range_hdr hs) ims (keepalive hs)
        | None \<Rightarrow> do {
            (page, c) \<leftarrow> build_listing F c full rel;
            case page of
              None \<Rightarrow> refuse_sending c 403 [] (keepalive hs) meth
            | Some g_list \<Rightarrow> send_listing c g_list is_head (keepalive hs)
          }
      })"

definition respond :: "files \<Rightarrow> conn \<Rightarrow> cstring \<Rightarrow> cstring \<Rightarrow> headers \<Rightarrow> (bool \<times> conn) option" where
  "respond F c meth target hs =
     (let ims = (if ims_raw hs \<noteq> [] then (case http_date_parse (ims_raw hs) of Some t \<Rightarrow> t | None \<Rightarrow> 0) else 0);
          is_head = (strcmp meth (cs ''HEAD'') = 0)
      in if \<not> is_head \<and> strcmp meth (cs ''GET'') \<noteq> 0 then
           map_option (Pair False) (refuse F c 405 (cs ''Allow: GET, HEAD'' @ crlf) False meth target)
         else
           (case clean_path target PATH_MAX of
              None \<Rightarrow> map_option (Pair (keepalive hs)) (refuse F c 403 [] (keepalive hs) meth target)
            | Some rel \<Rightarrow>
                (case walk_path (f_stat F) (f_root F) rel PATH_MAX of
                   (code, full, st) \<Rightarrow>
                     (case (if code = 200 then st else None) of
                        None \<Rightarrow> map_option (Pair (keepalive hs)) (refuse F c code [] (keepalive hs) meth rel)
                      | Some st \<Rightarrow> do {
                          (r, c) \<leftarrow>
                            (if is_kind st LP_S_IFDIR then serve_directory F c full rel is_head hs ims meth
                             else if is_kind st LP_S_IFREG then send_file F c full st is_head (range_hdr hs) ims (keepalive hs)
                             else refuse_sending c 403 [] (keepalive hs) meth);
                          c \<leftarrow> log_request F c meth rel (s_status r) (of_nat (s_sent r));
                          Some (s_ok r \<and> keepalive hs, c)
                        }))))"

text \<open>The request line: method, target and version, when there are three.\<close>

definition request_parts :: "cstring \<Rightarrow> cstring + (cstring \<times> cstring \<times> cstring)" where
  "request_parts line =
     (case strchr line 32 of
        None \<Rightarrow> Inl (cs ''-'')
      | Some sp1 \<Rightarrow>
          (let meth = takeWhile (\<lambda>c. c \<noteq> 32) line;
               target = dropWhile (\<lambda>c. c = 32) (tl sp1)
           in case strchr target 32 of
                None \<Rightarrow> Inl meth
              | Some sp2 \<Rightarrow> Inr (meth, takeWhile (\<lambda>c. c \<noteq> 32) target, dropWhile (\<lambda>c. c = 32) (tl sp2))))"

text \<open>One round of the loop of \<open>serve\<close>, the first when \<open>first\<close>.\<close>

definition serve_one :: "files \<Rightarrow> bool \<Rightarrow> conn \<Rightarrow> (bool \<times> conn) option" where
  "serve_one F first c =
     (let dash = cs ''-''; bad = (\<lambda>c code meth path. map_option (Pair False)
            (do { (k, c) \<leftarrow> send_error c code [] False (cs ''GET''); log_request F c meth path code 0 }))
      in case conn_getline c REQ_LINE_MAX of
           (Line line, c) \<Rightarrow>
             if line = [] then Some (True, c)
             else
               (case request_parts line of
                  Inl meth \<Rightarrow> bad c 400 meth dash
                | Inr (meth, target, version) \<Rightarrow>
                    if strcmp version (cs ''HTTP/1.1'') \<noteq> 0 \<and> strcmp version (cs ''HTTP/1.0'') \<noteq> 0
                    then bad c 400 meth target
                    else
                      (case header_loop 0 0 \<lparr>keepalive = (strcmp version (cs ''HTTP/1.1'') = 0), range_hdr = None, ims_raw = []\<rparr> c of
                         (Vanished, hs, c) \<Rightarrow> Some (False, c)
                       | (Refuse code, hs, c) \<Rightarrow> map_option (Pair False) (refuse F c code [] False meth target)
                       | (All_well, hs, c) \<Rightarrow> respond F c meth target hs))
         | (RD_TMOUT, c) \<Rightarrow> if first then bad c 408 dash dash else Some (False, c)
         | (RD_LONG, c) \<Rightarrow> bad c 414 dash dash
         | (RD_NUL, c) \<Rightarrow> bad c 400 dash dash
         | (_, c) \<Rightarrow> Some (False, c))"

fun serve_loop :: "files \<Rightarrow> nat \<Rightarrow> conn \<Rightarrow> conn option" where
  "serve_loop F 0 c = Some c"
| "serve_loop F (Suc k) c =
     (case serve_one F (Suc k = MAX_REQUESTS) c of
        None \<Rightarrow> None
      | Some (go_on, c) \<Rightarrow> if go_on then serve_loop F k c else Some c)"

definition serve :: "files \<Rightarrow> read_result list \<Rightarrow> int list \<Rightarrow> int list \<Rightarrow> conn option" where
  "serve F inp rm clk =
     serve_loop F MAX_REQUESTS \<lparr>pending = [], inputs = inp, room = rm, clock = clk, sent = [], events = []\<rparr>"

end
