(* ===== verification/HttpFormat.thy ===== *)
theory HttpFormat
  imports LpHttpd StdioText
begin

text \<open>
  The texts of the formats that the web server uses: numbers of two and four digits, strings, and
  what a local buffer holds after \<open>snprintf\<close>.
\<close>

section \<open>Decimal digits\<close>

lemma digit_decimal: "list_all (\<lambda>d. digit_char False (of_nat d) = of_nat (48 + d)) [0..<10]"
proof -
  have u: "[0..<10] = [0, 1, 2, 3, 4, 5, 6, 7, 8, 9]" by (simp add: upt_rec)
  show ?thesis unfolding u by (simp add: digit_char_def digit_tables)
qed

lemma digits_step:
  assumes "y < 2 ^ 64"
  shows "digits_loop False 10 (Suc k) (of_nat y) =
    (if y = 0 then [] else of_nat (48 + y mod 10) # digits_loop False 10 k (of_nat (y div 10)))"
proof -
  have u: "unat (of_nat y :: u64) = y" using unat_of_nat_u64 [OF assms] .
  have z: "(of_nat y :: u64) = 0 \<longleftrightarrow> y = 0"
  proof
    assume "(of_nat y :: u64) = 0"
    then have "unat (of_nat y :: u64) = unat (0 :: u64)" by (rule arg_cong)
    then show "y = 0" unfolding u unat_0 .
  qed simp
  have b: "y mod 10 < 2 ^ 64" "y div 10 < 2 ^ 64"
    by (rule le_less_trans [OF mod_less_eq_dividend assms], rule le_less_trans [OF div_le_dividend assms])
  have t: "unat (10 :: u64) = 10" by simp
  have "(of_nat y :: u64) mod 10 = of_nat (y mod 10)"
    unfolding word_unat_eq_iff unat_mod u t unat_of_nat_u64 [OF b(1)] by (rule refl)
  moreover have "(of_nat y :: u64) div 10 = of_nat (y div 10)"
    unfolding word_unat_eq_iff unat_div u t unat_of_nat_u64 [OF b(2)] by (rule refl)
  ultimately have m: "(of_nat y :: u64) mod 10 = of_nat (y mod 10)" "(of_nat y :: u64) div 10 = of_nat (y div 10)" .
  have "y mod 10 \<in> set [0..<10]" by simp
  then have "digit_char False (of_nat (y mod 10)) = of_nat (48 + y mod 10)"
    using digit_decimal unfolding list_all_iff by blast
  then show ?thesis by (simp only: digits_loop.simps z m simp_thms split: if_split) simp
qed

definition two :: "nat \<Rightarrow> u8 list" where
  "two v = [of_nat (48 + v div 10), of_nat (48 + v mod 10)]"

definition four :: "nat \<Rightarrow> u8 list" where
  "four v = [of_nat (48 + v div 1000), of_nat (48 + v div 100 mod 10), of_nat (48 + v div 10 mod 10), of_nat (48 + v mod 10)]"

lemma digits_zero: "digits_loop False 10 k 0 = []"
  by (cases k) simp_all

lemma digits_below:
  "d < 10 \<Longrightarrow> d \<noteq> 0 \<Longrightarrow> digits_loop False 10 (Suc k) (of_nat d) = [of_nat (48 + d)]"
  using digits_step [of d k] digits_zero [of k] by simp

lemma digits_more:
  assumes "10 \<le> y" "y < 2 ^ 64"
  shows "digits_loop False 10 (Suc k) (of_nat y) = of_nat (48 + y mod 10) # digits_loop False 10 k (of_nat (y div 10))"
  using digits_step [OF assms(2), of k] assms(1) by simp

lemma of_nat_pos: "0 < y \<Longrightarrow> y < 2 ^ 64 \<Longrightarrow> (of_nat y :: u64) \<noteq> 0"
  using unat_of_nat_u64 [of y] by (metis less_irrefl unat_0)

lemma fmt_four:
  assumes "1000 \<le> y" "y < 10000"
  shows "fmt_uint 24 (of_nat y) 10 False = four y"
proof -
  have b: "y < 2 ^ 64" "y div 10 < 2 ^ 64" "y div 100 < 2 ^ 64" "10 \<le> y" "10 \<le> y div 10" "10 \<le> y div 100" "y div 1000 < 10" "y div 1000 \<noteq> 0"
    using assms by (simp_all add: le_less_trans [OF div_le_dividend])
  have d: "y div 10 div 10 = y div 100" "y div 100 div 10 = y div 1000" by (simp_all add: div_mult2_eq [symmetric])
  have "digits_loop False 10 (Suc (Suc (Suc (Suc 20)))) (of_nat y) = rev (four y)"
    unfolding digits_more [OF b(4,1)] digits_more [OF b(5,2)] d digits_more [OF b(6,3)] digits_below [OF b(7,8)] by (simp add: four_def)
  then show ?thesis using of_nat_pos [of y] assms by (simp add: fmt_uint_def four_def del: of_nat_add)
qed

lemma fmt_two:
  assumes "10 \<le> v" "v < 100"
  shows "fmt_uint 24 (of_nat v) 10 False = two v"
proof -
  have b: "v < 2 ^ 64" "v div 10 < 10" "v div 10 \<noteq> 0" using assms by simp_all
  have "digits_loop False 10 (Suc (Suc 22)) (of_nat v) = rev (two v)"
    unfolding digits_more [OF assms(1) b(1)] digits_below [OF b(2,3)] by (simp add: two_def)
  then show ?thesis using of_nat_pos [of v] assms by (simp add: fmt_uint_def two_def del: of_nat_add)
qed

lemma fmt_one:
  assumes "v < 10"
  shows "fmt_uint 24 (of_nat v) 10 False = [of_nat (48 + v)]"
proof (cases "v = 0")
  case False
  have "digits_loop False 10 (Suc 23) (of_nat v) = [of_nat (48 + v)]" by (rule digits_below [OF assms False])
  then show ?thesis using of_nat_pos [of v] False assms by (simp add: fmt_uint_def del: of_nat_add)
qed (simp add: fmt_uint_def)

lemma sint_small:
  assumes "v < 2 ^ 63"
  shows "sint (of_nat v :: u64) = int v"
proof -
  have "(of_nat v :: u64) = word_of_int (int v)" by simp
  then have e: "sint (of_nat v :: u64) = signed_take_bit 63 (int v)" by (simp only: sint_sbintrunc') simp
  have "int v < int (2 ^ 63)" unfolding of_nat_less_iff by (rule assms)
  then have "int v < 2 ^ 63" by simp
  moreover have "- (2 ^ 63) \<le> int v" by (rule order_trans [of _ 0]) simp_all
  ultimately show ?thesis unfolding e by (rule signed_take_bit_int_eq_self [rotated])
qed

lemma padded_zero: "padded_text None t (of_nat (length t)) 2 False 48 = replicate (2 - length t) 48 @ t" if "length t \<le> 2"
proof -
  have "length t \<in> {0, 1, 2}" using that le_Suc_eq [of "length t" 1] le_Suc_eq [of "length t" 0] by (auto simp: numeral_2_eq_2)
  then show ?thesis by (elim insertE) (simp_all add: padded_text_def Let_def)
qed

lemma int_text_two:
  assumes "v < 100"
  shows "int_text (of_nat v) 2 False True = two v"
proof -
  let ?t = "fmt_uint 24 (of_nat v) 10 False"
  have s: "\<not> sint (of_nat v :: u64) < 0" using sint_small [of v] assms by simp
  have l: "length ?t \<le> 2 \<and> replicate (2 - length ?t) 48 @ ?t = two v"
  proof (cases "v < 10")
    case True
    then show ?thesis by (simp add: fmt_one two_def del: of_nat_add)
  next
    case False
    then show ?thesis using fmt_two [of v] assms by (simp add: two_def del: of_nat_add)
  qed
  then show ?thesis using padded_zero [of ?t] s by (simp add: int_text_def Let_def)
qed

lemma int_text_four:
  assumes "1000 \<le> y" "y < 10000"
  shows "int_text (of_nat y) 0 False False = four y"
proof -
  have "\<not> sint (of_nat y :: u64) < 0" using sint_small [of y] assms by simp
  then show ?thesis using fmt_four [OF assms] by (simp add: int_text_plain)
qed

section \<open>Formats\<close>

lemma snprintf_format: "snprintf (Some b) n fmt as = Some r \<Longrightarrow> \<exists>t. format_text fmt as = Some t"
  using format_undefined [of fmt as] by (cases "format_text fmt as") auto

lemma sbuf_text:
  assumes "0 < cap" "cap < 2 ^ 32" "format_text fmt as = Some t"
  shows "sbuf cap fmt as = Some (take (cap - 1) t @ [0] @ replicate (cap - Suc (min (length t) (cap - 1))) 0, unat (of_nat (length t) :: u32))"
proof -
  have c: "unat (of_nat cap :: u64) = cap" using assms(2) by (intro unat_of_nat_u64) simp
  then have "(of_nat cap :: u64) \<noteq> 0" using assms(1) by (metis not_less_zero unat_0)
  from snprintf_text [OF assms(3) this, of "replicate cap 0"] show ?thesis
    unfolding sbuf_def c by simp
qed

lemma stext_text:
  assumes "0 < cap" "cap < 2 ^ 32" "format_text fmt as = Some t" "is_cstr t"
  shows "stext cap fmt as = Some (take (cap - 1) t)"
  using sbuf_text [OF assms(1-3)] cstr_of_append_0 [OF is_cstr_take [OF assms(4)], of "cap - 1"] by (simp add: stext_def)

text \<open>The conversion \<open>%s\<close> gives the string.\<close>

lemma strlen_in_cstr: "is_cstr s \<Longrightarrow> strlen_in (s @ [0]) = Some (length s)"
  using cstr_of_append_0 [of s "[]"] by (simp add: strlen_in_def)

lemma format_s:
  assumes "is_cstr s" "length s < 2 ^ 32"
  shows "format_text (37 # 115 # fmt) (astr s # as) = map_option ((@) s) (format_text fmt as)"
proof -
  have "format_spec (115 # fmt) (astr s # as) =
      Some (\<lparr>left_align = False, zero_pad = False, fwidth = 0, precision = -1, longness = 0\<rparr>, 115 # fmt, astr s # as)"
    by (simp add: format_spec_def format_width_def format_precision_def Let_def)
  moreover have "convert_text \<lparr>left_align = False, zero_pad = False, fwidth = 0, precision = -1, longness = 0\<rparr> 115 (astr s # as) = Some (s, as)"
    using strlen_in_cstr [OF assms(1)] unat_of_nat_u32 [OF assms(2)]
    by (simp add: convert_text_def astr_def string_text_def padded_text_def Let_def)
  ultimately show ?thesis by (simp add: format_text.simps(2) comp_def)
qed

lemma sint_small_32:
  assumes "v < 2 ^ 31"
  shows "sint (of_nat v :: u32) = int v"
proof -
  have "(of_nat v :: u32) = word_of_int (int v)" by simp
  then have e: "sint (of_nat v :: u32) = signed_take_bit 31 (int v)" by (simp only: sint_sbintrunc') simp
  have "int v < int (2 ^ 31)" unfolding of_nat_less_iff by (rule assms)
  then have "int v < 2 ^ 31" by simp
  moreover have "- (2 ^ 31) \<le> int v" by (rule order_trans [of _ 0]) simp_all
  ultimately show ?thesis unfolding e by (rule signed_take_bit_int_eq_self [rotated])
qed

text \<open>An \<open>int\<close> argument that is not negative is what was passed.\<close>

lemma va_signed_small:
  assumes "v < 2 ^ 31"
  shows "va_signed 0 (anum (int v) # as) = Some (of_nat v, as)"
proof -
  have l: "v < 2 ^ 64" "v < 2 ^ 32" using assms by simp_all
  have "unat (ucast (of_nat v :: u64) :: u32) = v"
    unfolding unsigned_ucast_eq unat_of_nat_u64 [OF l(1)] using l(2) by (simp add: take_bit_nat_eq_self)
  then have u: "(ucast (of_nat v :: u64) :: u32) = of_nat v" using l(2) unat_of_nat_u32 [of v] by (simp add: word_unat_eq_iff)
  have "(scast (of_nat v :: u32) :: u64) = word_of_int (sint (of_nat v :: u32))" by (rule scast_eq)
  then show ?thesis using u sint_small_32 [OF assms] by (simp add: va_signed_def anum_def)
qed

text \<open>A conversion with its width and flag, and the rest of the format.\<close>

lemma format_02d:
  assumes "v < 100"
  shows "format_text (37 # 48 # 50 # 100 # fmt) (anum (int v) # as) = map_option ((@) (two v)) (format_text fmt as)"
proof -
  have "format_spec (48 # 50 # 100 # fmt) (anum (int v) # as) =
      Some (\<lparr>left_align = False, zero_pad = True, fwidth = 2, precision = -1, longness = 0\<rparr>, 100 # fmt, anum (int v) # as)"
    by (simp add: format_spec_def format_width_def format_precision_def Let_def)
  moreover have "convert_text \<lparr>left_align = False, zero_pad = True, fwidth = 2, precision = -1, longness = 0\<rparr> 100 (anum (int v) # as) = Some (two v, as)"
    using va_signed_small [of v as] int_text_two [OF assms] assms by (simp add: convert_text_def)
  ultimately show ?thesis by (simp add: format_text.simps(2) comp_def)
qed

lemma format_d4:
  assumes "1000 \<le> y" "y < 10000"
  shows "format_text (37 # 100 # fmt) (anum (int y) # as) = map_option ((@) (four y)) (format_text fmt as)"
proof -
  have "format_spec (100 # fmt) (anum (int y) # as) =
      Some (\<lparr>left_align = False, zero_pad = False, fwidth = 0, precision = -1, longness = 0\<rparr>, 100 # fmt, anum (int y) # as)"
    by (simp add: format_spec_def format_width_def format_precision_def Let_def)
  moreover have "convert_text \<lparr>left_align = False, zero_pad = False, fwidth = 0, precision = -1, longness = 0\<rparr> 100 (anum (int y) # as) = Some (four y, as)"
    using va_signed_small [of y as] int_text_four [OF assms] assms by (simp add: convert_text_def)
  ultimately show ?thesis by (simp add: format_text.simps(2) comp_def)
qed

lemma format_char: "c \<noteq> 37 \<Longrightarrow> format_text (c # fmt) as = map_option ((#) c) (format_text fmt as)"
  by (simp add: format_text.simps(2))

end
