(* ===== verification/PathSafe.thy ===== *)
theory PathSafe
  imports HttpPath
begin

text \<open>
  What a cleaned path is: the parts of the target decoded once, without empty ones, without \<open>.\<close>,
  and never \<open>..\<close>; and what walking it promises about every component.
\<close>

section \<open>Parts of a path\<close>

fun split_at :: "u8 \<Rightarrow> cstring \<Rightarrow> cstring list" where
  "split_at x [] = [[]]"
| "split_at x (c # s) = (if c = x then [] # split_at x s else (c # hd (split_at x s)) # tl (split_at x s))"

definition parts :: "cstring \<Rightarrow> cstring list" where
  "parts p = filter (\<lambda>s. s \<noteq> [] \<and> s \<noteq> [46]) (split_at 47 p)"

lemma split_not_Nil [simp]: "split_at x s \<noteq> []"
  by (cases s) auto

lemma split_append: "split_at x (s @ x # t) = split_at x s @ split_at x t"
  by (induction s) (simp_all add: hd_append)

lemma split_snoc: "c \<noteq> x \<Longrightarrow> split_at x (s @ [c]) = butlast (split_at x s) @ [last (split_at x s) @ [c]]"
proof (induction s)
  case (Cons d s)
  then show ?case by (cases "split_at x s") (auto simp: hd_append)
qed simp

lemma split_none: "x \<notin> set s \<Longrightarrow> split_at x s = [s]"
  by (induction s) auto

lemma split_no_sep: "s \<in> set (split_at x t) \<Longrightarrow> x \<notin> set s"
proof (induction t arbitrary: s)
  case (Cons c t)
  then show ?case using hd_in_set [OF split_not_Nil, of x t] list.set_sel(2) [OF split_not_Nil, of _ x t] by (auto split: if_splits)
qed simp

lemma split_sublist: "s \<in> set (split_at x t) \<Longrightarrow> sublist s t"
proof -
  have "prefix (hd (split_at x t)) t \<and> (\<forall>s \<in> set (tl (split_at x t)). sublist s t)" for t
  proof (induction t)
    case (Cons c t)
    have "set (split_at x t) = insert (hd (split_at x t)) (set (tl (split_at x t)))" by (cases "split_at x t") simp_all
    then show ?case using Cons by (auto simp: sublist_Cons_right dest: prefix_imp_sublist)
  qed simp
  from this [of t] show "s \<in> set (split_at x t) \<Longrightarrow> sublist s t"
    by (cases "split_at x t") (auto dest: prefix_imp_sublist)
qed

lemma split_last: "t \<noteq> [] \<Longrightarrow> last t = x \<Longrightarrow> last (split_at x t) = []"
  using split_append [of x "butlast t" "[]"] by (metis append_butlast_last_id last_snoc split_at.simps(1))

lemma parts_sep: "parts (s @ 47 # t) = parts s @ parts t"
  by (simp add: parts_def split_append)

lemma ended_append: "s \<noteq> [] \<Longrightarrow> last s = x \<Longrightarrow> split_at x (s @ t) = split_at x (butlast s) @ split_at x t"
  using split_append [of x "butlast s" t] append_butlast_last_id [of s] by (metis append.assoc append_Cons append_Nil)

lemma parts_ended: "s \<noteq> [] \<Longrightarrow> last s = 47 \<Longrightarrow> parts (s @ t) = parts s @ parts t"
  using ended_append [of s 47 t] ended_append [of s 47 "[]"] by (simp add: parts_def)

lemma concat_split: "concat (map ((#) x) (split_at x s)) = x # s"
proof (induction s)
  case (Cons c s)
  then show ?case by (cases "split_at x s") auto
qed simp

lemma parts_simps [simp]: "parts [] = []" "parts (47 # t) = parts t" "parts [46] = []" "parts (46 # 47 # t) = parts t"
  by (simp_all add: parts_def)

lemma strstr_dots: "is_cstr s \<Longrightarrow> strstr s (cs ''..'') = None \<longleftrightarrow> \<not> sublist [46, 46] s"
proof -
  assume s: "is_cstr s"
  have n: "is_cstr [46, 46 :: u8]" "[46, 46 :: u8] \<noteq> []" by simp_all
  have "strstr s [46, 46] = find (prefix [46, 46]) (map (\<lambda>i. drop i s) [0..<length s])"
    using strstr_loop_spec [OF s n] by (simp add: strstr_def)
  then show ?thesis unfolding sublist_iff_prefix_drop [OF n(2)] by (auto simp: cs_def find_None_iff)
qed

section \<open>Collapsing\<close>

text \<open>
  What holds of the output: it starts with the separator, no part is empty or a dot, the last one
  apart, which may be empty and is a dot only as long as more of it is to come.
\<close>

definition collapsed :: "cstring \<Rightarrow> cstring \<Rightarrow> bool" where
  "collapsed out r \<longleftrightarrow> (\<exists>ss s. split_at 47 out = [] # ss @ [s] \<and> (\<forall>x \<in> set ss. x \<noteq> [] \<and> x \<noteq> [46]) \<and>
     (s = [46] \<longrightarrow> deref r \<noteq> 47 \<and> r \<noteq> []))"

lemma last_sep: "split_at 47 out = ss @ [s] \<Longrightarrow> out \<noteq> [] \<Longrightarrow> last out = 47 \<longleftrightarrow> s = []"
proof -
  assume a: "split_at 47 out = ss @ [s]" "out \<noteq> []"
  show ?thesis
  proof
    assume "last out = 47"
    then show "s = []" using split_last [OF a(2)] a(1) by (metis last_snoc)
  next
    assume s: "s = []"
    show "last out = 47"
    proof (rule ccontr)
      assume "last out \<noteq> 47"
      then have "last (split_at 47 out) \<noteq> []"
        using split_snoc [of "last out" 47 "butlast out"] append_butlast_last_id [OF a(2)] by (metis last_snoc snoc_eq_iff_butlast)
      then show False using a(1) s by simp
    qed
  qed
qed

lemma collapse_loop_correct:
  assumes "collapse_loop r out n = Some o'" "collapsed out r" "is_cstr r" "is_cstr out" "length out < n" "out \<noteq> []" "deref out = 47"
  shows "collapsed o' [] \<and> parts o' = parts (out @ r) \<and>
    (last (split_at 47 o') = [] \<longleftrightarrow> last (split_at 47 (out @ r)) \<in> {[], [46]}) \<and> is_cstr o' \<and> length o' < n \<and> deref o' = 47"
  using assms
proof (induction r out n rule: collapse_loop.induct)
  case (2 c r out n)
  obtain ss s where ss: "split_at 47 out = ([] # ss) @ [s]" "\<forall>x \<in> set ss. x \<noteq> [] \<and> x \<noteq> [46]" "s = [46] \<longrightarrow> c \<noteq> 47"
    using 2(5) by (auto simp: collapsed_def)
  note l = last_sep [OF ss(1) 2(9)]
  have col: "collapsed out r'" if "s \<noteq> [46]" for r' using ss that by (auto simp: collapsed_def)
  consider (slash) "c = 47 \<and> out \<noteq> [] \<and> last out = 47"
    | (dot) "\<not> (c = 47 \<and> out \<noteq> [] \<and> last out = 47)" "c = 46 \<and> out \<noteq> [] \<and> last out = 47 \<and> (ch r 0 = 47 \<or> ch r 0 = 0)"
    | (push) "\<not> (c = 47 \<and> out \<noteq> [] \<and> last out = 47)" "\<not> (c = 46 \<and> out \<noteq> [] \<and> last out = 47 \<and> (ch r 0 = 47 \<or> ch r 0 = 0))" by blast
  then show ?case
  proof cases
    case slash
    then have "collapse_loop r out n = Some o'" using 2(4) by simp
    moreover have "parts (out @ c # r) = parts (out @ r)" "last (split_at 47 (out @ c # r)) = last (split_at 47 (out @ r))"
      using slash by (simp_all add: parts_ended ended_append)
    ultimately show ?thesis using 2(1) [OF slash] col l slash 2(6-10) by simp
  next
    case dot
    let ?r = "if ch r 0 = 47 then tl r else r"
    have "collapse_loop ?r out n = Some o'" using 2(4) dot by simp
    moreover have "is_cstr ?r" using 2(6) by (cases r) auto
    moreover have "parts (out @ c # r) = parts (out @ ?r)"
      using dot 2(6) by (cases r) (auto simp: parts_ended)
    moreover have "last (split_at 47 (out @ c # r)) \<in> {[], [46]} \<longleftrightarrow> last (split_at 47 (out @ ?r)) \<in> {[], [46]}"
      using dot 2(6) split_last [of out 47] by (cases r) (auto simp: ended_append)
    ultimately show ?thesis using 2(2) [OF dot] col l dot 2(7-10) by simp
  next
    case push
    then have len: "length out < n - 1" and e: "collapse_loop r (out @ [c]) n = Some o'" using 2(4) by (auto split: if_splits)
    have "collapsed (out @ [c]) r"
    proof (cases "c = 47")
      case True
      then have "s \<noteq> []" "s \<noteq> [46]" using push(1) l 2(9) ss(3) by auto
      then have "split_at 47 (out @ [c]) = [] # (ss @ [s]) @ [[]]" using True ss(1) split_append [of 47 out "[]"] by simp
      then show ?thesis using ss(2) \<open>s \<noteq> []\<close> \<open>s \<noteq> [46]\<close> unfolding collapsed_def by (intro exI [of _ "ss @ [s]"] exI [of _ "[]"]) auto
    next
      case False
      then have "split_at 47 (out @ [c]) = [] # ss @ [s @ [c]]" using split_snoc [OF False, of out] ss(1) by (simp add: butlast_append)
      moreover have "s @ [c] = [46] \<longrightarrow> deref r \<noteq> 47 \<and> r \<noteq> []" using push(2) l 2(9) by (cases r) auto
      ultimately show ?thesis using ss(2) unfolding collapsed_def by blast
    qed
    then show ?thesis using 2(3) [OF push _ e] len 2(6-10) by (cases out) auto
  qed
qed (auto simp: collapsed_def)

lemma collapse_loop_fits: "length out + length r < n \<Longrightarrow> collapse_loop r out n \<noteq> None"
proof (induction r out n rule: collapse_loop.induct)
  case (2 c r out n)
  have "length (if ch r 0 = 47 then tl r else r) \<le> length r" by simp
  then show ?case using 2 by (auto simp del: not_None_eq)
qed simp

text \<open>The canonical form of a decoded path that starts with the separator.\<close>

definition canonical :: "cstring \<Rightarrow> cstring" where
  "canonical dec = concat (map ((#) 47) (parts dec)) @ (if last (split_at 47 dec) \<in> {[], [46]} then [47] else [])"

lemma collapse_canonical:
  assumes "is_cstr dec" "deref dec = 47" "length dec < n"
  shows "collapse_loop dec [] n = Some (canonical dec)"
proof -
  obtain r where dec: "dec = 47 # r" using assms(2) by (cases dec) auto
  obtain o' where o': "collapse_loop dec [] n = Some o'" using collapse_loop_fits [of "[]" dec n] assms(3) by auto
  then have e: "collapse_loop r [47] n = Some o'" using assms(3) by (simp add: dec split: if_splits)
  have "collapsed [47] r" by (simp add: collapsed_def)
  note c = collapse_loop_correct [OF e this]
  have c: "collapsed o' []" "parts o' = parts dec" "last (split_at 47 o') = [] \<longleftrightarrow> last (split_at 47 dec) \<in> {[], [46]}"
    using c assms by (simp_all add: dec)
  obtain ss s where ss: "split_at 47 o' = [] # ss @ [s]" "\<forall>x \<in> set ss. x \<noteq> [] \<and> x \<noteq> [46]" "s \<noteq> [46]"
    using c(1) by (auto simp: collapsed_def)
  have "o' = concat (map ((#) 47) (ss @ [s]))" using concat_split [of 47 o'] unfolding ss(1) by simp
  moreover have "parts o' = ss @ (if s = [] then [] else [s])" using ss unfolding parts_def by (simp add: filter_id_conv)
  moreover have "s = [] \<longleftrightarrow> last (split_at 47 dec) \<in> {[], [46]}" using c(3) ss(1) by simp
  ultimately have "o' = canonical dec" unfolding canonical_def c(2) [symmetric] by (cases "s = []") auto
  then show ?thesis using o' by simp
qed

section \<open>Decoding\<close>

text \<open>One pass over the escapes; an escaped NUL or separator decodes to nothing.\<close>

inductive decodes :: "cstring \<Rightarrow> cstring \<Rightarrow> bool" where
  nothing: "decodes [] []"
| plain: "c \<noteq> 37 \<Longrightarrow> decodes r d \<Longrightarrow> decodes (c # r) (c # d)"
| escape: "hexval h = int a \<Longrightarrow> hexval l = int b \<Longrightarrow> v = 16 * a + b \<Longrightarrow> v \<noteq> 0 \<Longrightarrow> v \<noteq> 47 \<Longrightarrow> decodes r d \<Longrightarrow>
    decodes (37 # h # l # r) (of_nat v # d)"

inductive_simps decodes_simps: "decodes [] d" "decodes (c # r) d"

lemma hexval_range: "- 1 \<le> hexval c \<and> hexval c < 16"
  by (auto simp: hexval_def word_le_def)

lemma hexval_0: "hexval 0 = -1"
  by (simp add: hexval_def)

lemma decodes_length: "decodes raw dec \<Longrightarrow> length dec \<le> length raw"
  by (induction rule: decodes.induct) auto

lemma decodes_cstr: "decodes raw dec \<Longrightarrow> is_cstr raw \<Longrightarrow> is_cstr dec"
proof (induction rule: decodes.induct)
  case (escape h a l b v r d)
  have "v < 256" using escape(1-3) hexval_range [of h] hexval_range [of l] by simp
  then have "(of_nat v :: u8) \<noteq> 0" using escape(4) unat_of_nat_u8 [of v] by (metis unat_0)
  then show ?case using escape by simp
qed auto

lemma decodes_escape:
  "decodes (37 # r) dec \<longleftrightarrow> (\<exists>h l r' d a b. r = h # l # r' \<and> hexval h = int a \<and> hexval l = int b \<and> 16 * a + b \<noteq> 0 \<and>
     16 * a + b \<noteq> 47 \<and> decodes r' d \<and> dec = of_nat (16 * a + b) # d)"
  by (auto simp: decodes_simps(2))

lemma decode_loop_decodes:
  "length raw + k < PATH_MAX \<Longrightarrow> decode_loop raw k = Some dec \<longleftrightarrow> decodes raw dec"
proof (induction raw k arbitrary: dec rule: decode_loop.induct)
  case (2 c r k)
  show ?case
  proof (cases "c = 37")
    case True
    show ?thesis
    proof (cases "hexval (ch r 0) < 0 \<or> hexval (ch r 1) < 0")
      case bad: True
      then have "\<not> decodes (37 # r) dec" unfolding decodes_escape by auto
      then show ?thesis using True bad by (auto simp: Let_def)
    next
      case False
      then have "r \<noteq> []" "tl r \<noteq> []" using hexval_0 by (cases r; force)+
      then obtain h l r' where r: "r = h # l # r'" by (cases r; cases "tl r"; simp)
      define a b where "a = nat (hexval h)" and "b = nat (hexval l)"
      have ab: "hexval h = int a" "hexval l = int b" using False r by (simp_all add: a_def b_def)
      have ih: "decode_loop r' (k + 1) = Some d \<longleftrightarrow> decodes r' d"
        if "16 * a + b \<noteq> 0" "16 * a + b \<noteq> 47" for d
        using 2(1) [OF True refl refl _ refl] 2(3) that ab unfolding r by simp
      have w: "(word_of_int (int a * 16 + int b) :: u8) = of_nat (16 * a + b)" by (simp add: mult.commute)
      have k: "\<not> k \<ge> PATH_MAX - 1" using 2(3) by (simp add: r)
      have "decode_loop (37 # h # l # r') k = (if 16 * a + b = 0 \<or> 16 * a + b = 47 then None
          else map_option ((#) (of_nat (16 * a + b))) (decode_loop r' (k + 1)))"
        using ab k w by (auto simp: Let_def simp del: of_nat_add of_nat_mult of_nat_0)
      then show ?thesis using True ab ih unfolding r by (auto simp: decodes_escape simp del: of_nat_add of_nat_mult)
    qed
  next
    case False
    then show ?thesis using 2(2) [OF False] 2(3) by (auto simp: decodes_simps(2))
  qed
qed (auto simp: decodes_simps)

section \<open>Targets\<close>

definition until_query :: "cstring \<Rightarrow> cstring" where
  "until_query p = takeWhile (\<lambda>c. c \<noteq> 63 \<and> c \<noteq> 35) p"

lemma raw_loop_until:
  "is_cstr p \<Longrightarrow> n < PATH_MAX \<Longrightarrow>
    raw_loop p n = (if n + length (until_query p) < PATH_MAX then Some (until_query p) else None)"
proof (induction p n rule: raw_loop.induct)
  case (2 c p n)
  show ?case
  proof (cases "c = 63 \<or> c = 35")
    case False
    then show ?thesis using 2 by (cases "n \<ge> PATH_MAX - 1") (auto simp: until_query_def)
  qed (use 2 in \<open>auto simp: until_query_def\<close>)
qed (simp add: until_query_def)

lemma strchr_suffix: "strchr s c = Some t \<Longrightarrow> \<exists>u. s = u @ t"
  by (induction s c rule: strchr.induct) (auto split: if_splits intro: exI [of _ "_ # _"])

lemma strip_host_cstr: "is_cstr t \<Longrightarrow> is_cstr (strip_host t)"
proof -
  assume t: "is_cstr t"
  have "is_cstr u" if "strchr (drop 7 t) 47 = Some u" for u
    using strchr_suffix [OF that] is_cstr_drop [OF t, of 7] by auto
  then show ?thesis using t by (simp add: strip_host_def split: option.split)
qed

lemma strip_host_path: "strip_host (47 # t) = 47 # t"
proof -
  have "strncmp (47 # t) (cs ''http://'') (Suc 6) \<noteq> 0" unfolding strncmp.simps by (simp add: cs_def)
  then show ?thesis by (simp add: strip_host_def)
qed

text \<open>The components of a canonical path are those of the decoded text.\<close>

lemma split_concat: "\<forall>p \<in> set ps. x \<notin> set p \<Longrightarrow> split_at x (concat (map ((#) x) ps)) = [] # ps"
proof (induction ps)
  case (Cons p ps)
  show ?case
  proof (cases "concat (map ((#) x) ps)")
    case Nil
    then show ?thesis using Cons split_none [of x p] by auto
  next
    case (Cons c t)
    then have "c = x" by (cases ps) auto
    then have "split_at x t = ps" using Cons.IH Cons.prems Cons by simp
    then show ?thesis using Cons \<open>c = x\<close> Cons.prems split_none [of x p] split_append [of x p t] by simp
  qed
qed simp

definition names :: "cstring \<Rightarrow> cstring list" where
  "names p = filter (\<lambda>s. s \<noteq> []) (split_at 47 p)"

lemma names_canonical: "names (canonical dec) = parts dec"
proof -
  have n: "\<forall>p \<in> set (parts dec). 47 \<notin> set p \<and> p \<noteq> []" using split_no_sep by (auto simp: parts_def)
  then have "split_at 47 (concat (map ((#) 47) (parts dec))) = [] # parts dec" by (intro split_concat) blast
  then show ?thesis using n split_append [of 47 "concat (map ((#) 47) (parts dec))" "[]"]
    by (simp add: canonical_def names_def filter_id_conv)
qed

lemma clean_path_iff:
  assumes "is_cstr target"
  shows "clean_path target PATH_MAX = Some out \<longleftrightarrow>
    (\<exists>dec. let raw = until_query (strip_host target) in
       deref raw = 47 \<and> length raw < PATH_MAX \<and> \<not> sublist [46, 46] raw \<and>
       decodes raw dec \<and> \<not> sublist [46, 46] dec \<and> out = canonical dec)"
proof -
  let ?raw = "until_query (strip_host target)"
  have h: "is_cstr (strip_host target)" by (rule strip_host_cstr [OF assms])
  then have raw: "is_cstr ?raw" unfolding until_query_def is_cstr_def using set_takeWhileD by fastforce
  have r: "raw_loop (strip_host target) 0 = (if length ?raw < PATH_MAX then Some ?raw else None)"
    using raw_loop_until [OF h, of 0] by (simp add: PATH_MAX_def)
  have d: "decode_loop ?raw 0 = Some dec \<longleftrightarrow> decodes ?raw dec" if "length ?raw < PATH_MAX" for dec
    using decode_loop_decodes [of ?raw 0 dec] that by simp
  have dd: "strstr dec (cs ''..'') = None \<longleftrightarrow> \<not> sublist [46, 46] dec" "collapse_loop dec [] PATH_MAX = Some (canonical dec)"
    "ch (canonical dec) 0 = 47"
    if "decodes ?raw dec" "length ?raw < PATH_MAX" "deref ?raw = 47" for dec
  proof -
    have c: "is_cstr dec" "length dec < PATH_MAX" using decodes_cstr [OF that(1) raw] decodes_length [OF that(1)] that(2) by simp_all
    show "strstr dec (cs ''..'') = None \<longleftrightarrow> \<not> sublist [46, 46] dec" by (rule strstr_dots [OF c(1)])
    have d0: "deref dec = 47" using that(1,3) by (cases ?raw) (auto simp: decodes_simps)
    show "collapse_loop dec [] PATH_MAX = Some (canonical dec)" by (rule collapse_canonical [OF c(1) d0 c(2)])
    obtain t where dt: "dec = 47 # t" using d0 by (cases dec) auto
    have "canonical dec \<noteq> [] \<and> hd (canonical dec) = 47"
    proof (cases "parts dec")
      case Nil
      have "last (split_at 47 dec) \<in> set (split_at 47 dec)" by (rule last_in_set) simp
      then have "last (split_at 47 dec) \<in> {[], [46]}" using Nil by (auto simp: parts_def filter_empty_conv)
      then show ?thesis by (simp add: canonical_def Nil)
    qed (simp add: canonical_def)
    then show "ch (canonical dec) 0 = 47" by (cases "canonical dec") simp_all
  qed
  show ?thesis
  proof (cases "deref ?raw = 47 \<and> length ?raw < PATH_MAX \<and> \<not> sublist [46, 46] ?raw")
    case True
    then have c: "clean_path target PATH_MAX = (case decode_loop ?raw 0 of None \<Rightarrow> None
             | Some dec \<Rightarrow> if strstr dec (cs ''..'') \<noteq> None then None
                 else (case collapse_loop dec [] PATH_MAX of None \<Rightarrow> None
                    | Some out \<Rightarrow> if ch out 0 \<noteq> 47 then None else Some out))"
      using strstr_dots [OF raw] by (simp add: clean_path_def r ch_0_deref)
    show ?thesis
    proof (cases "decode_loop ?raw 0")
      case None
      then show ?thesis using d True by (simp add: c)
    next
      case (Some dec)
      have u: "decodes ?raw dec' \<longleftrightarrow> dec' = dec" for dec' using d [of dec'] True unfolding Some by auto
      then have "decodes ?raw dec" by simp
      from dd [OF this] show ?thesis using Some True by (auto simp: c Let_def u)
    qed
  next
    case False
    then show ?thesis using strstr_dots [OF raw] by (auto simp: clean_path_def r ch_0_deref Let_def)
  qed
qed

lemma canonical_component:
  assumes "decodes raw dec" "is_cstr raw" "\<not> sublist [46, 46] dec" "s \<in> set (parts dec)"
  shows "s \<noteq> [] \<and> s \<noteq> [46] \<and> 47 \<notin> set s \<and> is_cstr s \<and> \<not> sublist [46, 46] s"
proof -
  have s: "s \<in> set (split_at 47 dec)" "s \<noteq> []" "s \<noteq> [46]" using assms(4) by (auto simp: parts_def)
  then have "sublist s dec" "47 \<notin> set s" using split_sublist split_no_sep by blast+
  then show ?thesis using s assms(3) decodes_cstr [OF assms(1,2)] sublist_order.order_trans [of "[46, 46]" s dec] set_mono_sublist [of s dec]
    by (auto simp: is_cstr_def)
qed

lemma clean_path_names:
  assumes "is_cstr target" "clean_path target PATH_MAX = Some out" "s \<in> set (names out)"
  shows "s \<noteq> [] \<and> s \<noteq> [46] \<and> 47 \<notin> set s \<and> is_cstr s \<and> \<not> sublist [46, 46] s"
proof -
  have r: "is_cstr (until_query (strip_host target))"
    using strip_host_cstr [OF assms(1)] unfolding until_query_def is_cstr_def by (auto dest: set_takeWhileD)
  obtain dec where d: "decodes (until_query (strip_host target)) dec" "\<not> sublist [46, 46] dec" "out = canonical dec"
    using assms(2) unfolding clean_path_iff [OF assms(1)] Let_def by blast
  show ?thesis using canonical_component [OF d(1) r d(2)] assms(3) by (simp add: d(3) names_canonical)
qed

text \<open>
  C8: \<open>clean_path\<close> accepts a target exactly when its path - without a host in front and without the
  query - starts with a separator, is shorter than the buffer, has no \<open>..\<close> in it, and decodes in one
  pass to a text without \<open>..\<close>; what it gives is that text with empty and \<open>.\<close> components left out,
  whose components are free of separators, NULs and \<open>..\<close>.
\<close>

theorem clean_path_correct:
  assumes "is_cstr target"
  shows "(clean_path target PATH_MAX = Some out \<longleftrightarrow>
    (\<exists>dec. let raw = until_query (strip_host target) in
       deref raw = 47 \<and> length raw < PATH_MAX \<and> \<not> sublist [46, 46] raw \<and>
       decodes raw dec \<and> \<not> sublist [46, 46] dec \<and> out = canonical dec)) \<and>
    (clean_path target PATH_MAX = Some out \<longrightarrow>
      list_all (\<lambda>s. s \<noteq> [] \<and> s \<noteq> [46] \<and> 47 \<notin> set s \<and> is_cstr s \<and> \<not> sublist [46, 46] s) (names out))"
proof -
  have "list_all (\<lambda>s. s \<noteq> [] \<and> s \<noteq> [46] \<and> 47 \<notin> set s \<and> is_cstr s \<and> \<not> sublist [46, 46] s) (names out)"
    if "clean_path target PATH_MAX = Some out"
    using that clean_path_names [OF assms] by (auto simp: list_all_iff)
  then show ?thesis using clean_path_iff [OF assms] by blast
qed

lemma clean_path_correct_witness: "clean_path (cs ''/a/%41'') PATH_MAX = Some (cs ''/a/A'')"
proof -
  have c: "is_cstr (cs ''/a/%41'')" by (simp add: cs_def)
  have u: "until_query (strip_host (cs ''/a/%41'')) = [47, 97, 47, 37, 52, 49]"
    by (simp add: cs_def until_query_def strip_host_path)
  have d: "decodes [47, 97, 47, 37, 52, 49] [47, 97, 47, 65]"
    using decodes.escape [of 52 4 49 1 65, OF _ _ _ _ _ decodes.nothing] by (intro decodes.plain) (simp_all add: hexval_def)
  have n: "canonical [47, 97, 47, 65] = cs ''/a/A''" by (simp add: canonical_def parts_def cs_def)
  show ?thesis unfolding clean_path_correct [OF c, THEN conjunct1] Let_def u
    by (rule exI [OF _, of _ "[47, 97, 47, 65]"]) (simp add: d n PATH_MAX_def sublist_Cons_right prefix_Cons)
qed

section \<open>Walking\<close>

text \<open>The path of the first \<open>k\<close> components under the root.\<close>

definition under :: "cstring \<Rightarrow> cstring list \<Rightarrow> nat \<Rightarrow> cstring" where
  "under root segs k = root @ concat (map ((#) 47) (take k segs))"

text \<open>Every component is there and no link, and all but the last are directories.\<close>

definition plain_path :: "stat_call \<Rightarrow> cstring \<Rightarrow> cstring list \<Rightarrow> bool" where
  "plain_path stat root segs \<longleftrightarrow> (\<forall>k < length segs. \<exists>st. stat (under root segs (Suc k)) = Inr st \<and>
     \<not> is_kind st LP_S_IFLNK \<and> (Suc k < length segs \<longrightarrow> is_kind st LP_S_IFDIR))"

lemma names_slash [simp]: "names (47 # p) = names p" "names [] = []"
  by (simp_all add: names_def)

lemma names_drop: "names (dropWhile (\<lambda>c. c = 47) p) = names p"
  by (induction p) auto

lemma names_sep: "names (s @ 47 # t) = names s @ names t"
  by (simp add: names_def split_append)

lemma names_Cons:
  assumes "p \<noteq> []" "hd p \<noteq> 47"
  shows "names p = takeWhile (\<lambda>c. c \<noteq> 47) p # names (dropWhile (\<lambda>c. c \<noteq> 47) p)"
proof -
  define s r where "s = takeWhile (\<lambda>c. c \<noteq> 47) p" and "r = dropWhile (\<lambda>c. c \<noteq> 47) p"
  have p: "p = s @ r" by (simp add: s_def r_def)
  have n: "47 \<notin> set s" "s \<noteq> []" using assms by (auto simp: s_def takeWhile_eq_Nil_iff dest: set_takeWhileD)
  then have s: "names s = [s]" by (simp add: names_def split_none)
  have "names p = s # names r"
  proof (cases r)
    case (Cons c t)
    then have "c = 47" using hd_dropWhile [of "\<lambda>c. c \<noteq> 47" p] by (auto simp: r_def)
    then show ?thesis using Cons s by (simp add: p names_sep)
  qed (use p s in simp)
  then show ?thesis by (simp add: s_def r_def)
qed

lemma under_simps: "under root segs 0 = root" "under root (s # segs) (Suc k) = under (root @ 47 # s) segs k"
  by (simp_all add: under_def)

lemma plain_path_simps:
  "plain_path stat root []"
  "plain_path stat root (s # segs) \<longleftrightarrow> (\<exists>st. stat (root @ 47 # s) = Inr st \<and> \<not> is_kind st LP_S_IFLNK \<and>
     (segs \<noteq> [] \<longrightarrow> is_kind st LP_S_IFDIR)) \<and> plain_path stat (root @ 47 # s) segs"
  unfolding plain_path_def by (auto simp: less_Suc_eq_0_disj all_conj_distrib under_simps)

lemma names_empty: "hd p \<noteq> 47 \<Longrightarrow> names p = [] \<longleftrightarrow> p = []"
  using names_Cons [of p] by (cases "p = []") auto

lemma walk_loop_200:
  "(p \<noteq> [] \<longrightarrow> hd p \<noteq> 47) \<Longrightarrow>
   walk_loop stat n p full st = (200, full', st') \<longleftrightarrow>
     full' = under full (names p) (length (names p)) \<and> plain_path stat full (names p) \<and>
     (names p \<noteq> [] \<longrightarrow> length full' < n \<and> stat full' = Inr st') \<and> (names p = [] \<longrightarrow> st' = st)"
proof (induction stat n p full st rule: walk_loop.induct)
  case (1 stat n p full st)
  show ?case
  proof (cases "p = []")
    case True
    then show ?thesis by (auto simp: walk_loop.simps [of stat n "[]"] under_def plain_path_simps)
  next
    case False
    define seg r where "seg = takeWhile (\<lambda>c. c \<noteq> 47) p" and "r = dropWhile (\<lambda>c. c = 47) (dropWhile (\<lambda>c. c \<noteq> 47) p)"
    have seg: "seg \<noteq> []" using False 1(2) by (cases p) (auto simp: seg_def)
    have nm: "names p = seg # names r" using names_Cons [OF False] 1(2) False by (simp add: seg_def r_def names_drop)
    have hr: "r \<noteq> [] \<longrightarrow> hd r \<noteq> 47" unfolding r_def using hd_dropWhile by blast
    have nr: "names r = [] \<longleftrightarrow> r = []" using hr names_empty [of r] by (cases "r = []") auto
    have w: "walk_loop stat n p full st =
       (if length full + 1 + length seg \<ge> n then (414, full, st)
        else (case stat (full @ 47 # seg) of Inl rc \<Rightarrow> (if - rc = 13 then 403 else 404, full @ 47 # seg, st)
            | Inr st \<Rightarrow> if is_kind st LP_S_IFLNK then (403, full @ 47 # seg, st)
                else if r \<noteq> [] \<and> \<not> is_kind st LP_S_IFDIR then (404, full @ 47 # seg, st)
                else walk_loop stat n r (full @ 47 # seg) st))"
      using False seg unfolding walk_loop.simps [of stat n p] Let_def seg_def r_def by simp
    have len: "length (under full (names p) (length (names p))) \<ge> length full + 1 + length seg"
      by (simp add: nm under_simps) (simp add: under_def)
    show ?thesis
    proof (cases "length full + 1 + length seg \<ge> n")
      case True
      then show ?thesis using len by (auto simp: w nm)
    next
      case fits: False
      show ?thesis
      proof (cases "stat (full @ 47 # seg)")
        case (Inl rc)
        then show ?thesis using fits by (auto simp: w nm plain_path_simps)
      next
        case (Inr s)
        show ?thesis
        proof (cases "is_kind s LP_S_IFLNK \<or> r \<noteq> [] \<and> \<not> is_kind s LP_S_IFDIR")
          case True
          then show ?thesis using fits Inr nr by (auto simp: w nm plain_path_simps)
        next
          case False
          have "walk_loop stat n p full st = walk_loop stat n r (full @ 47 # seg) s" using fits Inr False by (auto simp: w)
          moreover have "walk_loop stat n r (full @ 47 # seg) s = (200, full', st') \<longleftrightarrow>
              full' = under (full @ 47 # seg) (names r) (length (names r)) \<and> plain_path stat (full @ 47 # seg) (names r) \<and>
              (names r \<noteq> [] \<longrightarrow> length full' < n \<and> stat full' = Inr st') \<and> (names r = [] \<longrightarrow> st' = s)"
            using 1(1) [of seg "dropWhile (\<lambda>c. c \<noteq> 47) p" "full @ 47 # seg" s r] \<open>p \<noteq> []\<close> seg fits Inr False hr
            by (simp add: seg_def r_def)
          ultimately show ?thesis using fits Inr False nr
            by (cases "names r = []") (auto simp: nm plain_path_simps under_simps under_def)
        qed
      qed
    qed
  qed
qed

text \<open>The answer 200 of \<open>walk_path\<close>.\<close>

lemma walk_path_200:
  "walk_path stat root rel n = (200, full, Some st) \<longleftrightarrow>
     (let base = walk_root root n in
      full = under base (names rel) (length (names rel)) \<and> stat full = Inr st \<and> plain_path stat base (names rel) \<and>
      (\<exists>st0. stat base = Inr st0) \<and> (names rel \<noteq> [] \<longrightarrow> length full < n))"
proof -
  have h: "dropWhile (\<lambda>c. c = 47) rel \<noteq> [] \<longrightarrow> hd (dropWhile (\<lambda>c. c = 47) rel) \<noteq> 47" using hd_dropWhile by blast
  show ?thesis
  proof (cases "stat (walk_root root n)")
    case (Inr st0)
    have "walk_path stat root rel n = (200, full, Some st) \<longleftrightarrow>
        walk_loop stat n (dropWhile (\<lambda>c. c = 47) rel) (walk_root root n) st0 = (200, full, st)"
      by (simp add: walk_path_def Inr split: prod.split)
    then show ?thesis unfolding walk_loop_200 [OF h] names_drop Let_def using Inr
      by (cases "names rel = []") (auto simp: under_def plain_path_simps)
  qed (simp add: walk_path_def)
qed

end
