(* ===== verification/HttpSafe.thy ===== *)
theory HttpSafe
  imports HttpFormat PathSafe
begin

text \<open>
  A connection opens and lists nothing but what a path without links and without \<open>..\<close> leads to from
  the document root, whatever the client sends.
\<close>

section \<open>What is recorded\<close>

lemma lp_time_events: "lp_time c = (t, c') \<Longrightarrow> events c' = events c"
  by (auto simp: lp_time_def split: list.splits)

lemma conn_write_events: "conn_write c p = (k, c') \<Longrightarrow> events c' = events c"
  by (auto simp: conn_write_def split: prod.splits)

lemma conn_getline_events: "conn_getline c n = (r, c') \<Longrightarrow> events c' = events c"
  by (auto simp: conn_getline_def split: prod.splits)

lemma write_buf_events: "write_buf c bn = Some (k, c') \<Longrightarrow> events c' = events c"
  by (auto simp: write_buf_def conn_write_events split: prod.splits if_splits)

lemma send_error_events: "send_error c code extra keep meth = Some (k, c') \<Longrightarrow> events c' = events c"
  by (auto simp: send_error_def Let_def dest!: write_buf_events lp_time_events split: bind_splits prod.splits if_splits)

definition logged :: "event set" where "logged = range Logged"

lemma log_request_events: "log_request F c meth path status bytes = Some c' \<Longrightarrow> set (events c') \<subseteq> set (events c) \<union> logged"
  by (auto simp: log_request_def Let_def note_event_def logged_def dest!: lp_time_events split: bind_splits prod.splits if_splits)

lemma file_loop_events: "file_loop rd off left n c = (k, m, c') \<Longrightarrow> events c' = events c"
proof (induction rd off left n c rule: file_loop.induct)
  case (1 rd off left n c)
  then show ?case
    by (auto simp: file_loop.simps [of rd off left] Let_def dest!: conn_write_events split: if_splits prod.splits)
qed

lemma refuse_sending_events: "refuse_sending c code extra keep meth = Some (r, c') \<Longrightarrow> events c' = events c"
  by (auto simp: refuse_sending_def dest!: send_error_events split: bind_splits prod.splits)

lemma send_not_modified_events: "send_not_modified c d l keep = Some (r, c') \<Longrightarrow> events c' = events c"
  by (auto simp: send_not_modified_def dest!: write_buf_events split: bind_splits prod.splits)

lemma send_listing_events: "send_listing c g h keep = Some (r, c') \<Longrightarrow> events c' = events c"
  by (auto simp: send_listing_def Let_def dest!: write_buf_events lp_time_events conn_write_events split: bind_splits prod.splits if_splits)

lemma send_open_events: "send_open c rd hdr part h first len = Some (r, c') \<Longrightarrow> events c' = events c"
  by (auto simp: send_open_def Let_def dest!: write_buf_events file_loop_events split: bind_splits prod.splits if_splits)

lemma send_file_events:
  assumes "send_file F c full st head rng ims keep = Some (r, c')"
  shows "set (events c') \<subseteq> set (events c) \<union> {Opened full}"
proof -
  obtain now c1 where t: "lp_time c = (now, c1)" by fastforce
  have n: "events (note_event (Opened full) c1) = events c1 @ [Opened full]" by (simp add: note_event_def)
  show ?thesis using assms lp_time_events [OF t] unfolding send_file_def t Let_def prod.case
    by (auto dest!: send_not_modified_events refuse_sending_events send_open_events simp: n
        split: bind_splits prod.splits if_splits option.splits)
qed

lemma build_listing_events:
  "build_listing F c dir rel = Some (r, c') \<Longrightarrow> set (events c') \<subseteq> set (events c) \<union> {Listed dir}"
  by (auto simp: build_listing_def Let_def note_event_def split: bind_splits prod.splits option.splits)

lemma refuse_events: "refuse F c code extra keep meth path = Some c' \<Longrightarrow> set (events c') \<subseteq> set (events c) \<union> logged"
  unfolding refuse_def by (auto dest!: send_error_events log_request_events split: bind_splits prod.splits)

section \<open>What may be served\<close>

definition clean_name :: "cstring \<Rightarrow> bool" where
  "clean_name s \<longleftrightarrow> s \<noteq> [] \<and> s \<noteq> [46] \<and> 47 \<notin> set s \<and> is_cstr s \<and> \<not> sublist [46, 46] s"

text \<open>The paths that components lead to from the document root, every one of them there and no link.\<close>

definition inside :: "files \<Rightarrow> cstring \<Rightarrow> bool" where
  "inside F p \<longleftrightarrow> (\<exists>segs. p = under (walk_root (f_root F) PATH_MAX) segs (length segs) \<and>
     list_all clean_name segs \<and> plain_path (f_stat F) (walk_root (f_root F) PATH_MAX) segs)"

text \<open>What was found there: a file to be opened is a regular one, what is listed a directory.\<close>

definition found :: "files \<Rightarrow> u32 \<Rightarrow> cstring \<Rightarrow> bool" where
  "found F kind p \<longleftrightarrow> (\<exists>st. f_stat F p = Inr st \<and> is_kind st kind)"

definition listable :: "files \<Rightarrow> cstring \<Rightarrow> bool" where
  "listable F p \<longleftrightarrow> inside F p \<and> found F LP_S_IFDIR p"

text \<open>A regular file at such a path, or one whose name completes that of a directory by (the beginning of) \<open>/index.html\<close>.\<close>

definition servable :: "files \<Rightarrow> cstring \<Rightarrow> bool" where
  "servable F p \<longleftrightarrow> found F LP_S_IFREG p \<and> (inside F p \<or> (\<exists>d. listable F d \<and> prefix p (d @ cs ''/index.html'')))"

fun allowed :: "files \<Rightarrow> event \<Rightarrow> bool" where
  "allowed F (Opened p) \<longleftrightarrow> servable F p"
| "allowed F (Listed p) \<longleftrightarrow> listable F p"
| "allowed F (Logged l) \<longleftrightarrow> True"

definition keeps :: "files \<Rightarrow> conn \<Rightarrow> conn \<Rightarrow> bool" where
  "keeps F c c' \<longleftrightarrow> (\<forall>e \<in> set (events c'). e \<in> set (events c) \<or> allowed F e)"

lemma keeps_refl: "events c' = events c \<Longrightarrow> keeps F c c'"
  by (simp add: keeps_def)

lemma keeps_trans [trans]: "keeps F c c' \<Longrightarrow> keeps F c' c'' \<Longrightarrow> keeps F c c''"
  by (auto simp: keeps_def)

lemma keeps_logged: "set (events c') \<subseteq> set (events c) \<union> logged \<Longrightarrow> keeps F c c'"
  by (auto simp: keeps_def logged_def)

lemma walk_root_cstr: "is_cstr root \<Longrightarrow> is_cstr (walk_root root n)"
proof -
  assume "is_cstr root"
  then have "is_cstr (take (n - 1) root)" by (rule is_cstr_take)
  then show ?thesis unfolding walk_root_def
    by (cases "take (n - 1) root") (auto simp: is_cstr_def dest: set_dropWhileD)
qed

lemma walk_root_length: "length (walk_root root n) \<le> n"
proof (cases "take (n - 1) root")
  case (Cons c s)
  have "length (dropWhile (\<lambda>x. x = 47) (rev s)) \<le> length s" using length_dropWhile_le [of _ "rev s"] by simp
  moreover have "Suc (length s) \<le> n" using arg_cong [OF Cons, of length] by simp
  ultimately show ?thesis unfolding walk_root_def Cons by simp
next
  case Nil
  show ?thesis unfolding walk_root_def Nil by simp
qed

lemma inside_cstr: "is_cstr (f_root F) \<Longrightarrow> inside F p \<Longrightarrow> is_cstr p"
  using walk_root_cstr [of "f_root F"] by (auto simp: inside_def under_def clean_name_def list_all_iff is_cstr_def split: if_splits)

lemma index_path:
  assumes "is_cstr full" "length full < 2 ^ 32" "stext PATH_MAX (cs ''%s/index.html'') [astr full] = Some index"
  shows "prefix index (full @ cs ''/index.html'')"
proof -
  have f: "format_text (cs ''%s/index.html'') [astr full] = Some (full @ cs ''/index.html'')"
    using format_s [OF assms(1,2), of "cs ''/index.html''" "[]"] plain_format [of "cs ''/index.html''" "[]"] by (simp add: cs_def)
  have "is_cstr (full @ cs ''/index.html'')" using assms(1) by (simp add: cs_def)
  then have "index = take (PATH_MAX - 1) (full @ cs ''/index.html'')"
    using stext_text [OF _ _ f, of PATH_MAX] assms(3) by (simp add: PATH_MAX_def del: take_append is_cstr_simps)
  then show ?thesis by (simp only: take_is_prefix)
qed

lemma serve_directory_keeps:
  assumes "serve_directory F c full rel h hs ims meth = Some (r, c')" "listable F full" "is_cstr (f_root F)" "length full < 2 ^ 32"
  shows "keeps F c c'"
proof (cases "rel = [] \<or> last rel \<noteq> 47")
  case True
  then show ?thesis using assms(1) by (auto simp: serve_directory_def dest!: refuse_sending_events intro: keeps_refl split: bind_splits)
next
  case False
  obtain index where index: "stext PATH_MAX (cs ''%s/index.html'') [astr full] = Some index"
    using assms(1) False by (auto simp: serve_directory_def split: bind_splits)
  have "inside F full" using assms(2) by (simp add: listable_def)
  note pre = index_path [OF inside_cstr [OF assms(3) this] assms(4) index]
  show ?thesis
  proof (cases "\<exists>ist. f_stat F index = Inr ist \<and> is_kind ist LP_S_IFREG")
    case True
    then obtain ist where ist: "f_stat F index = Inr ist" "is_kind ist LP_S_IFREG" by blast
    then have "servable F index" using pre assms(2) by (auto simp: servable_def found_def)
    moreover have "send_file F c index ist h (range_hdr hs) ims (keepalive hs) = Some (r, c')"
      using assms(1) False index ist by (simp add: serve_directory_def)
    ultimately show ?thesis using send_file_events by (fastforce simp: keeps_def)
  next
    case none: False
    then have e: "(case f_stat F index of Inr ist \<Rightarrow> if is_kind ist LP_S_IFREG then Some ist else None | Inl e \<Rightarrow> None) = None"
      by (auto split: sum.split)
    obtain page c1 where b: "build_listing F c full rel = Some (page, c1)"
      and r: "(case page of None \<Rightarrow> refuse_sending c1 403 [] (keepalive hs) meth
          | Some g \<Rightarrow> send_listing c1 g h (keepalive hs)) = Some (r, c')"
      using assms(1) False index e by (auto simp: serve_directory_def split: bind_splits)
    have "keeps F c c1" using build_listing_events [OF b] assms(2) by (fastforce simp: keeps_def)
    also have "keeps F c1 c'" using r by (auto dest!: refuse_sending_events send_listing_events intro: keeps_refl split: option.splits)
    finally show ?thesis .
  qed
qed

section \<open>Requests\<close>

lemma getline_cstr: "is_cstr out \<Longrightarrow> getline_loop mx pend inp out = (Line l, r) \<Longrightarrow> is_cstr l"
proof (induction mx pend inp out rule: getline_loop.induct)
  case (4 mx x pend inp out)
  then show ?case by (auto simp: getline_end_def is_cstr_def dest: in_set_butlastD split: if_splits)
qed (auto split: if_splits)

lemma conn_getline_cstr: "conn_getline c n = (Line l, c') \<Longrightarrow> is_cstr l"
  using getline_cstr [of "[]"] by (auto simp: conn_getline_def split: prod.splits)

lemma header_loop_events: "header_loop n b hs c = (r, hs', c') \<Longrightarrow> events c' = events c"
proof (induction n b hs c rule: header_loop.induct)
  case (1 n b hs c)
  obtain l c1 where l: "conn_getline c HDR_LINE_MAX = (l, c1)" by fastforce
  show ?case
  proof (cases l)
    case (Line h)
    then show ?thesis using 1(1) [OF l [symmetric, unfolded Line] refl] 1(2) conn_getline_events [OF l] l
      by (auto simp: header_loop.simps [of n b hs c] split: if_splits)
  qed (use 1(2) conn_getline_events [OF l] l in \<open>auto simp: header_loop.simps [of n b hs c]\<close>)
qed

lemma request_parts_cstr:
  assumes "is_cstr line" "request_parts line = Inr (meth, target, version)"
  shows "is_cstr target"
proof -
  obtain sp1 where s: "strchr line 32 = Some sp1" "target = takeWhile (\<lambda>c. c \<noteq> 32) (dropWhile (\<lambda>c. c = 32) (tl sp1))"
    using assms(2) by (auto simp: request_parts_def Let_def split: option.splits)
  obtain u where "line = u @ sp1" using strchr_suffix [OF s(1)] by blast
  then have "0 \<notin> set sp1" using assms(1) by (auto simp: is_cstr_def)
  then have "0 \<notin> set (tl sp1)" by (cases sp1) auto
  then show ?thesis unfolding s(2) is_cstr_def by (auto dest!: set_takeWhileD set_dropWhileD)
qed

lemma walk_inside:
  assumes "is_cstr target" "clean_path target PATH_MAX = Some rel" "walk_path (f_stat F) (f_root F) rel PATH_MAX = (200, full, Some st)"
  shows "inside F full \<and> f_stat F full = Inr st \<and> length full < 2 ^ 32"
proof -
  let ?b = "walk_root (f_root F) PATH_MAX"
  have w: "full = under ?b (names rel) (length (names rel))" "f_stat F full = Inr st" "plain_path (f_stat F) ?b (names rel)"
    "names rel \<noteq> [] \<longrightarrow> length full < PATH_MAX"
    using assms(3) unfolding walk_path_200 Let_def by blast+
  have "list_all clean_name (names rel)" using clean_path_names [OF assms(1,2)] by (auto simp: list_all_iff clean_name_def)
  moreover have "length full \<le> PATH_MAX" using w(1,4) walk_root_length [of "f_root F" PATH_MAX] by (cases "names rel = []") (auto simp: under_def)
  then have "length full < 2 ^ 32" by (simp add: PATH_MAX_def)
  ultimately show ?thesis using w by (auto simp: inside_def)
qed

lemma respond_keeps:
  assumes "respond F c meth target hs = Some (k, c')" "is_cstr target" "is_cstr (f_root F)"
  shows "keeps F c c'"
proof (cases "strcmp meth (cs ''HEAD'') \<noteq> 0 \<and> strcmp meth (cs ''GET'') \<noteq> 0")
  case True
  then show ?thesis using assms(1) by (auto simp: respond_def Let_def dest!: refuse_events intro: keeps_logged)
next
  case False
  let ?ims = "if ims_raw hs \<noteq> [] then (case http_date_parse (ims_raw hs) of Some t \<Rightarrow> t | None \<Rightarrow> 0) else 0"
  let ?h = "strcmp meth (cs ''HEAD'') = 0"
  show ?thesis
  proof (cases "clean_path target PATH_MAX")
    case None
    then show ?thesis using assms(1) False by (auto simp: respond_def Let_def dest!: refuse_events intro: keeps_logged)
  next
    case (Some rel)
    obtain code full so where w: "walk_path (f_stat F) (f_root F) rel PATH_MAX = (code, full, so)" by (cases "walk_path (f_stat F) (f_root F) rel PATH_MAX") auto
    show ?thesis
    proof (cases "if code = 200 then so else None")
      case None
      then show ?thesis using assms(1) False Some w by (auto simp: respond_def Let_def dest!: refuse_events intro: keeps_logged)
    next
      case st: (Some st)
      then have "code = 200" "so = Some st" by (auto split: if_splits)
      then have i: "inside F full" "f_stat F full = Inr st" "length full < 2 ^ 32"
        using walk_inside [OF assms(2) Some] w by auto
      obtain r c1 where r: "(if is_kind st LP_S_IFDIR then serve_directory F c full rel ?h hs ?ims meth
             else if is_kind st LP_S_IFREG then send_file F c full st ?h (range_hdr hs) ?ims (keepalive hs)
             else refuse_sending c 403 [] (keepalive hs) meth) = Some (r, c1)"
        and l: "log_request F c1 meth rel (s_status r) (of_nat (s_sent r)) = Some c'"
        using assms(1) False Some w st by (auto simp: respond_def Let_def split: bind_splits)
      have "keeps F c c1"
      proof (cases "is_kind st LP_S_IFDIR")
        case True
        then have "listable F full" using i by (simp add: listable_def found_def)
        then show ?thesis using r True serve_directory_keeps [OF _ _ assms(3) i(3)] by simp
      next
        case False
        show ?thesis
        proof (cases "is_kind st LP_S_IFREG")
          case True
          then have "servable F full" using i(1,2) by (auto simp: servable_def found_def)
          then show ?thesis using r False True send_file_events by (fastforce simp: keeps_def)
        qed (use r False refuse_sending_events in \<open>fastforce simp: keeps_def\<close>)
      qed
      also have "keeps F c1 c'" by (rule keeps_logged [OF log_request_events [OF l]])
      finally show ?thesis .
    qed
  qed
qed

lemma serve_one_keeps:
  assumes "serve_one F first c = Some (k, c')" "is_cstr (f_root F)"
  shows "keeps F c c'"
proof -
  obtain l c1 where l: "conn_getline c REQ_LINE_MAX = (l, c1)" by fastforce
  note e = conn_getline_events [OF l]
  have bad: "keeps F c c'" if
      "do { (k, c) \<leftarrow> send_error c1 code [] False (cs ''GET''); log_request F c m p code 0 } = Some c'" for code m p
    using that e by (auto dest!: send_error_events log_request_events intro!: keeps_logged split: bind_splits)
  show ?thesis
  proof (cases l)
    case (Line line)
    have line: "is_cstr line" using conn_getline_cstr l Line by blast
    show ?thesis
    proof (cases "line = []")
      case True
      then show ?thesis using assms(1) l Line e by (auto simp: serve_one_def intro: keeps_refl)
    next
      case False
      show ?thesis
      proof (cases "request_parts line")
        case (Inl m)
        then show ?thesis using assms(1) l Line False by (auto simp: serve_one_def Let_def intro: bad)
      next
        case (Inr q)
        obtain m t v where q: "q = (m, t, v)" by (cases q)
        have t: "is_cstr t" using request_parts_cstr [OF line] Inr q by blast
        show ?thesis
        proof (cases "strcmp v (cs ''HTTP/1.1'') \<noteq> 0 \<and> strcmp v (cs ''HTTP/1.0'') \<noteq> 0")
          case True
          then show ?thesis using assms(1) l Line False Inr q by (auto simp: serve_one_def Let_def intro: bad)
        next
          case version: False
          obtain hr hs c2 where h: "header_loop 0 0 \<lparr>keepalive = (strcmp v (cs ''HTTP/1.1'') = 0), range_hdr = None, ims_raw = []\<rparr> c1 = (hr, hs, c2)"
            by (cases "header_loop 0 0 \<lparr>keepalive = (strcmp v (cs ''HTTP/1.1'') = 0), range_hdr = None, ims_raw = []\<rparr> c1")
          have e2: "keeps F c c2" using e header_loop_events [OF h] by (intro keeps_refl) simp
          have s: "(case hr of Vanished \<Rightarrow> Some (False, c2)
              | Refuse code \<Rightarrow> map_option (Pair False) (refuse F c2 code [] False m t)
              | All_well \<Rightarrow> respond F c2 m t hs) = Some (k, c')"
            using assms(1) l Line False Inr q version h by (cases hr) (auto simp: serve_one_def Let_def)
          have "keeps F c2 c'"
          proof (cases hr)
            case All_well
            then show ?thesis using s respond_keeps [OF _ t assms(2)] by simp
          qed (use s in \<open>auto dest!: refuse_events intro: keeps_logged keeps_refl\<close>)
          with e2 show ?thesis by (rule keeps_trans)
        qed
      qed
    qed
  qed (use assms(1) l e in \<open>auto simp: serve_one_def Let_def intro: keeps_refl bad split: if_splits\<close>)
qed

lemma serve_loop_keeps: "is_cstr (f_root F) \<Longrightarrow> serve_loop F k c = Some c' \<Longrightarrow> keeps F c c'"
proof (induction k arbitrary: c)
  case (Suc k)
  obtain g c1 where o: "serve_one F (Suc k = MAX_REQUESTS) c = Some (g, c1)" using Suc.prems(2) by (auto split: option.splits)
  have "keeps F c c1" by (rule serve_one_keeps [OF o Suc.prems(1)])
  then show ?case using Suc o keeps_trans by (cases g) auto
qed (simp add: keeps_refl)

text \<open>
  C7: whatever a client sends, however the bytes arrive, and whatever its requests fail on, as long as
  what the server does is defined: every file that the connection opens was found to be a regular file,
  everything that it lists a directory, and its path is the document root followed by components
  without separators or \<open>..\<close>, each of which is there and is no symbolic link, and all but the last of
  which are directories - or it is a regular file to which the path of such a directory leads with the
  (possibly cut) name of the index page behind it.
\<close>

theorem serve_stays_inside:
  assumes "is_cstr (f_root F)" "serve F inp rm clk = Some c"
  shows "list_all (allowed F) (events c)"
  using serve_loop_keeps [OF assms(1), of MAX_REQUESTS] assms(2) unfolding serve_def keeps_def list_all_iff by fastforce

text \<open>A site with one file, \<open>/w/a\<close>.\<close>

definition site :: files where
  "site = \<lparr>f_root = cs ''/w'',
     f_stat = (\<lambda>p. if p = cs ''/w'' then Inr \<lparr>st_mode = 16384, st_size = 0, st_mtime = 0\<rparr>
       else if p = cs ''/w/a'' then Inr \<lparr>st_mode = 32768, st_size = 2, st_mtime = 0\<rparr> else Inl (-2)),
     f_open = (\<lambda>p. if p = cs ''/w/a'' then Some (\<lambda>off want. take want (drop off [120, 121])) else None),
     f_dents = (\<lambda>p. None), f_addr = cs ''1'', f_log = True\<rparr>"

lemma serve_stays_inside_witness:
  "\<exists>c. serve site [Got (cs ''HEAD /./a HTTP/1.0'' @ [10, 10])] [] [0] = Some c \<and>
     list_all (allowed site) (events c) \<and> Opened (cs ''/w/a'') \<in> set (events c)"
proof -
  have "case serve site [Got (cs ''HEAD /./a HTTP/1.0'' @ [10, 10])] [] [0] of
      Some c \<Rightarrow> Opened (cs ''/w/a'') \<in> set (events c) | None \<Rightarrow> False"
    by code_simp
  then obtain c where c: "serve site [Got (cs ''HEAD /./a HTTP/1.0'' @ [10, 10])] [] [0] = Some c" "Opened (cs ''/w/a'') \<in> set (events c)"
    by (auto split: option.splits)
  have "is_cstr (f_root site)" by (simp add: site_def cs_def)
  from serve_stays_inside [OF this c(1)] show ?thesis using c by blast
qed

end
