(* ===== verification/HttpDate.thy ===== *)
theory HttpDate
  imports HttpFormat
begin

text \<open>
  The dates of the web server are read back as the times they were printed from, and its ranges are
  those of the request, within the file.
\<close>

section \<open>Dates\<close>

definition date_text :: "nat \<Rightarrow> nat \<Rightarrow> nat \<Rightarrow> nat \<Rightarrow> nat \<Rightarrow> nat \<Rightarrow> nat \<Rightarrow> cstring" where
  "date_text wday day mon year hour mn sec =
     cs (WDAY ! wday) @ [44, 32] @ two day @ [32] @ cs (MON ! mon) @ [32] @ four year @ [32] @
     two hour @ [58] @ two mn @ [58] @ two sec @ [32, 71, 77, 84]"

lemma format_date:
  assumes "is_cstr wd" "length wd < 2 ^ 32" "is_cstr mon" "length mon < 2 ^ 32"
    and "day < 100" "1000 \<le> year" "year < 10000" "hour < 100" "mn < 100" "sec < 100"
  shows "format_text (cs ''%s, %02d %s %d %02d:%02d:%02d GMT'')
      [astr wd, anum (int day), astr mon, anum (int year), anum (int hour), anum (int mn), anum (int sec)] =
    Some (wd @ [44, 32] @ two day @ [32] @ mon @ [32] @ four year @ [32] @ two hour @ [58] @ two mn @ [58] @ two sec @ [32, 71, 77, 84])"
proof -
  have f: "cs ''%s, %02d %s %d %02d:%02d:%02d GMT'' = [37, 115, 44, 32, 37, 48, 50, 100, 32, 37, 115, 32, 37, 100, 32,
      37, 48, 50, 100, 58, 37, 48, 50, 100, 58, 37, 48, 50, 100, 32, 71, 77, 84]"
    by (simp add: cs_def)
  show ?thesis unfolding f
    using assms by (simp add: format_s format_02d format_d4 format_char option.map_comp comp_def)
qed

lemma decimal_byte:
  assumes "d < 10"
  shows "48 \<le> (of_nat (48 + d) :: u8) \<and> (of_nat (48 + d) :: u8) \<le> 57 \<and> unat (of_nat (48 + d) :: u8) = 48 + d \<and>
    uint (of_nat (48 + d) :: u8) = 48 + int d"
proof -
  have u: "unat (of_nat (48 + d) :: u8) = 48 + d" using assms by (intro unat_of_nat_u8) simp
  then have "int (unat (of_nat (48 + d) :: u8)) = 48 + int d" by simp
  then have "uint (of_nat (48 + d) :: u8) = 48 + int d" by (simp only: uint_nat)
  then show ?thesis using u assms by (simp add: word_le_nat_alt del: of_nat_add)
qed

lemma two_digits:
  assumes "v < 100"
  shows "digits (two v @ s) 2" "num (two v @ s) 2 = int v"
proof -
  have d: "v div 10 < 10" "v mod 10 < 10" using assms by simp_all
  have u: "[0..<2] = [0, 1 :: nat]" by (simp add: upt_rec)
  show "digits (two v @ s) 2" using decimal_byte [OF d(1)] decimal_byte [OF d(2)] by (simp add: digits_def two_def u del: of_nat_add)
  have "num (two v @ s) 2 = int (v div 10) * 10 + int (v mod 10)"
    using decimal_byte [OF d(1)] decimal_byte [OF d(2)] by (simp add: num_def two_def u del: of_nat_add unat_of_nat)
  then show "num (two v @ s) 2 = int v" using div_mult_mod_eq [of v 10] by linarith
qed

lemma four_digits:
  assumes "y < 10000"
  shows "digits (four y @ s) 4" "num (four y @ s) 4 = int y"
proof -
  have d: "y div 1000 < 10" "y div 100 mod 10 < 10" "y div 10 mod 10 < 10" "y mod 10 < 10" using assms by simp_all
  note b = decimal_byte [OF d(1)] decimal_byte [OF d(2)] decimal_byte [OF d(3)] decimal_byte [OF d(4)]
  have u: "[0..<4] = [0, 1, 2, 3 :: nat]" by (simp add: upt_rec)
  show "digits (four y @ s) 4" using b by (simp add: digits_def four_def u del: of_nat_add)
  have "num (four y @ s) 4 = ((int (y div 1000) * 10 + int (y div 100 mod 10)) * 10 + int (y div 10 mod 10)) * 10 + int (y mod 10)"
    using b by (simp add: num_def four_def u del: of_nat_add unat_of_nat)
  moreover have "y = ((y div 1000 * 10 + y div 100 mod 10) * 10 + y div 10 mod 10) * 10 + y mod 10"
    using div_mult_mod_eq [of y 10] div_mult_mod_eq [of "y div 10" 10] div_mult_mod_eq [of "y div 100" 10]
    by (simp add: div_mult2_eq [symmetric])
  ultimately show "num (four y @ s) 4 = int y" by (metis of_nat_add of_nat_mult of_nat_numeral)
qed

lemma byte_cstr: "d < 10 \<Longrightarrow> (of_nat (48 + d) :: u8) \<noteq> 0"
  using decimal_byte [of d] by (metis add_is_0 unat_0 zero_neq_numeral)

lemma numbers_cstr: "v < 100 \<Longrightarrow> is_cstr (two v)" "y < 10000 \<Longrightarrow> is_cstr (four y)"
  using byte_cstr [of "v div 10"] byte_cstr [of "v mod 10"] byte_cstr [of "y div 1000"] byte_cstr [of "y div 100 mod 10"]
    byte_cstr [of "y div 10 mod 10"] byte_cstr [of "y mod 10"] by (simp_all add: two_def four_def del: of_nat_add)

lemma month_names:
  assumes "m < 12"
  shows "length (cs (MON ! m)) = 3" "is_cstr (cs (MON ! m))" "is_cstr s \<Longrightarrow> find (\<lambda>i. strncmp (cs (MON ! m) @ s) (cs (MON ! i)) 3 = 0) [0..<12] = Some m"
proof -
  have l: "list_all (\<lambda>m. length (cs (MON ! m)) = 3 \<and> is_cstr (cs (MON ! m))) [0..<12]" by code_simp
  show n: "length (cs (MON ! m)) = 3" "is_cstr (cs (MON ! m))" using l assms by (auto simp: list_all_iff)
  assume s: "is_cstr s"
  have p: "strncmp (cs (MON ! m) @ s) (cs (MON ! i)) 3 = 0 \<longleftrightarrow> prefix (cs (MON ! i)) (cs (MON ! m) @ s)" if "i < 12" for i
  proof -
    have "length (cs (MON ! i)) = 3" "is_cstr (cs (MON ! i))" using l that by (auto simp: list_all_iff)
    then show ?thesis using strncmp_prefix [of "cs (MON ! m) @ s" "cs (MON ! i)"] n s by simp
  qed
  have d: "list_all (\<lambda>m. list_all (\<lambda>i. i < m \<longrightarrow> cs (MON ! i) \<noteq> cs (MON ! m)) [0..<12]) [0..<12]" by code_simp
  show "find (\<lambda>i. strncmp (cs (MON ! m) @ s) (cs (MON ! i)) 3 = 0) [0..<12] = Some m"
    unfolding find_Some_iff
  proof (intro exI [of _ m] conjI allI impI)
    show "strncmp (cs (MON ! m) @ s) (cs (MON ! ([0..<12] ! m))) 3 = 0" using p [OF assms] assms by simp
    fix j
    assume j: "j < m"
    have "cs (MON ! j) \<noteq> cs (MON ! m)" using d j assms by (auto simp: list_all_iff)
    moreover have "length (cs (MON ! j)) = length (cs (MON ! m))" using l j assms by (auto simp: list_all_iff)
    ultimately have "\<not> prefix (cs (MON ! j)) (cs (MON ! m) @ s)" by (auto simp: prefix_def)
    then show "strncmp (cs (MON ! m) @ s) (cs (MON ! ([0..<12] ! j))) 3 \<noteq> 0" using p [of j] j assms by simp
  qed (use assms in simp_all)
qed

lemma day_names:
  assumes "w < 7"
  shows "length (cs (WDAY ! w)) = 3" "is_cstr (cs (WDAY ! w))" "hd (cs (WDAY ! w)) \<noteq> 32"
proof -
  have l: "list_all (\<lambda>m. length (cs (WDAY ! m)) = 3 \<and> is_cstr (cs (WDAY ! m)) \<and> hd (cs (WDAY ! m)) \<noteq> 32) [0..<7]" by code_simp
  then show "length (cs (WDAY ! w)) = 3" "is_cstr (cs (WDAY ! w))" "hd (cs (WDAY ! w)) \<noteq> 32" using assms by (auto simp: list_all_iff)
qed

lemma http_date_parse_skip:
  assumes "dropWhile (\<lambda>c. c = 32) s = dropWhile (\<lambda>c. c = 32) s'"
  shows "http_date_parse s = http_date_parse s'"
  by (simp only: http_date_parse_def assms)

lemma date_parsed:
  assumes "w < 7" "day < 100" "m < 12" "year < 10000" "hour < 100" "mn < 100" "sec < 100"
  shows "http_date_parse (date_text w day m year hour mn sec) =
    Some (lp_timegm \<lparr>tm_year = int year, tm_mon = int m + 1, tm_day = int day, tm_hour = int hour, tm_min = int mn, tm_sec = int sec, tm_wday = 0\<rparr>)"
proof -
  obtain a b c where wd: "cs (WDAY ! w) = [a, b, c]" "a \<noteq> 32" "a \<noteq> 0" "b \<noteq> 0" "c \<noteq> 0"
    using day_names [OF assms(1)] by (auto simp: length_Suc_conv numeral_3_eq_3)
  obtain x y z where mon: "cs (MON ! m) = [x, y, z]" "x \<noteq> 0" "y \<noteq> 0" "z \<noteq> 0"
    using month_names(1,2) [OF assms(3)] by (auto simp: length_Suc_conv numeral_3_eq_3)
  let ?tail = "two sec @ [32, 71, 77, 84]"
  let ?t5 = "two mn @ [58] @ ?tail" let ?t4 = "two hour @ [58] @ ?t5" let ?t3 = "four year @ [32] @ ?t4"
  let ?t2 = "cs (MON ! m) @ [32] @ ?t3" let ?t1 = "two day @ [32] @ ?t2"
  let ?s = "date_text w day m year hour mn sec"
  have s: "?s = cs (WDAY ! w) @ [44, 32] @ ?t1" by (simp add: date_text_def)
  have cstr: "is_cstr ?s" using numbers_cstr assms wd mon unfolding s by simp
  have l: "length (two v) = 2" "length (four v) = 4" for v by (simp_all add: two_def four_def)
  have len: "strlen ?s = 29" using cstr unfolding s by (simp add: strlen_length wd mon l)
  have sk: "dropWhile (\<lambda>c. c = 32) ?s = ?s" unfolding s wd by (simp add: wd)
  have dr: "drop 5 ?s = ?t1" "drop 8 ?s = ?t2" "drop 12 ?s = ?t3" "drop 17 ?s = ?t4" "drop 20 ?s = ?t5" "drop 23 ?s = ?tail"
    unfolding s by (simp_all add: wd mon two_def four_def)
  have c: "ch ?s 3 = 44" "ch ?s 4 = 32" "ch ?s 7 = 32" "ch ?s 11 = 32" "ch ?s 16 = 32" "ch ?s 19 = 58" "ch ?s 22 = 58"
    unfolding s by (simp_all add: wd mon two_def four_def)
  have "is_cstr ([32] @ ?t3)" using numbers_cstr assms by simp
  note f = month_names(3) [OF assms(3) this]
  show ?thesis unfolding http_date_parse_def Let_def sk len c dr
    using f two_digits [OF assms(2)] two_digits [OF assms(5)] two_digits [OF assms(6)] two_digits [OF assms(7)] four_digits [OF assms(4)] by simp
qed

text \<open>
  C31: the date that the server prints for a time between the years 1000 and 9999 has 29 characters,
  and the server reads it back as that time, also after leading blanks: the date a client got as
  \<open>Last-Modified\<close> and sends back as \<open>If-Modified-Since\<close> is the time of the file.
\<close>

theorem http_date_roundtrip:
  assumes "lp_gmtime t = Some tm" "1000 \<le> tm_year tm" "tm_year tm < 10000"
  shows "\<exists>s. http_date t 40 = Some s \<and> length s = 29 \<and> http_date_parse (replicate k 32 @ s) = Some t"
proof -
  let ?tm = tm
  note g = gmtime_date [OF assms(1)]
  define w day m year hour mn sec where "w = nat (tm_wday ?tm)" and "day = nat (tm_day ?tm)" and "m = nat (tm_mon ?tm - 1)"
    and "year = nat (tm_year ?tm)" and "hour = nat (tm_hour ?tm)" and "mn = nat (tm_min ?tm)" and "sec = nat (tm_sec ?tm)"
  have v: "valid_tm ?tm" "0 \<le> tm_wday ?tm" "tm_wday ?tm < 7" using g by simp_all
  have "m < 12" using v(1) by (auto simp: valid_tm_def m_def)
  then have r: "w < 7" "day < 100" "m < 12" "1000 \<le> year" "year < 10000" "hour < 100" "mn < 100" "sec < 100"
    using v assms days_in_month_pos [of m "tm_year ?tm"]
    by (auto simp: valid_tm_def w_def day_def m_def year_def hour_def mn_def sec_def)
  have e: "tm_day ?tm = int day" "tm_mon ?tm = int m + 1" "tm_year ?tm = int year" "tm_hour ?tm = int hour" "tm_min ?tm = int mn" "tm_sec ?tm = int sec"
    using v assms by (auto simp: valid_tm_def w_def day_def m_def year_def hour_def mn_def sec_def)
  have n: "\<not> (tm_mon ?tm < 1 \<or> tm_mon ?tm > 12)" "\<not> (tm_wday ?tm < 0 \<or> tm_wday ?tm > 6)" using v by (auto simp: valid_tm_def)
  let ?s = "date_text w day m year hour mn sec"
  have l3: "length (cs (WDAY ! w)) < 2 ^ 32" "length (cs (MON ! m)) < 2 ^ 32" using day_names(1) [OF r(1)] month_names(1) [OF r(3)] by simp_all
  have f: "format_text (cs ''%s, %02d %s %d %02d:%02d:%02d GMT'')
      [astr (cs (WDAY ! w)), anum (int day), astr (cs (MON ! m)), anum (int year), anum (int hour), anum (int mn), anum (int sec)] = Some ?s"
    unfolding date_text_def by (rule format_date [OF day_names(2) [OF r(1)] l3(1) month_names(2) [OF r(3)] l3(2) r(2,4-8)])
  have c: "is_cstr ?s" using numbers_cstr r day_names(2) [OF r(1)] month_names(2) [OF r(3)] by (simp add: date_text_def)
  have len: "length ?s = 29" using day_names(1) [OF r(1)] month_names(1) [OF r(3)] by (simp add: date_text_def two_def four_def)
  have "http_date t 40 = stext 40 (cs ''%s, %02d %s %d %02d:%02d:%02d GMT'')
      [astr (cs (WDAY ! w)), anum (int day), astr (cs (MON ! m)), anum (int year), anum (int hour), anum (int mn), anum (int sec)]"
    by (simp only: http_date_def assms(1) bind.bind_lunit Let_def if_not_P [OF n(1)] if_not_P [OF n(2)] w_def [symmetric] m_def [symmetric])
      (simp only: e)
  also have "\<dots> = Some ?s" using stext_text [OF _ _ f c, of 40] len by simp
  finally have h: "http_date t 40 = Some ?s" .
  have "lp_timegm \<lparr>tm_year = int year, tm_mon = int m + 1, tm_day = int day, tm_hour = int hour, tm_min = int mn, tm_sec = int sec, tm_wday = 0\<rparr> = lp_timegm ?tm"
    by (simp only: lp_timegm_def e lp_tm.simps)
  moreover have "lp_timegm ?tm = t" using g by blast
  ultimately have p: "http_date_parse ?s = Some t" using date_parsed [OF r(1-3,5-8)] by (simp only:)
  have "dropWhile (\<lambda>c. c = 32) (replicate k 32 @ ?s) = dropWhile (\<lambda>c. c = 32) ?s" by (induction k) simp_all
  then have "http_date_parse (replicate k 32 @ ?s) = http_date_parse ?s" by (rule http_date_parse_skip)
  then have "http_date_parse (replicate k 32 @ ?s) = Some t" using p by (rule trans)
  then show ?thesis by (intro exI [of _ ?s] conjI h len)
qed

lemma http_date_roundtrip_witness: "\<exists>s. http_date 0 40 = Some s \<and> length s = 29 \<and> http_date_parse (replicate 2 32 @ s) = Some 0"
proof -
  have "map_option tm_year (lp_gmtime 0) = Some 1970" by code_simp
  then obtain tm where "lp_gmtime 0 = Some tm" "tm_year tm = 1970" by auto
  then show ?thesis using http_date_roundtrip [of 0 tm 2] by simp
qed

end
