(* ===== verification/HttpRange.thy ===== *)
theory HttpRange
  imports HttpDate
begin

text \<open>
  The ranges of the web server: a single range of bytes is answered with the bytes it names that the
  file has, and a range that is used lies within the file.  A malformed one, which should be ignored,
  leaves its start behind.
\<close>

section \<open>Numbers in a range\<close>

definition dec :: "nat \<Rightarrow> cstring" where
  "dec a = fmt_uint 24 (of_nat a) 10 False"

lemma digits_decimal: "list_all (\<lambda>c. 48 \<le> c \<and> c \<le> 57) (digits_loop False 10 k v)"
proof (induction k arbitrary: v)
  case (Suc k)
  have "unat v < 2 ^ 64" using unsigned_less [of v] by simp
  note s = digits_step [OF this, of k]
  have "48 \<le> (of_nat (48 + unat v mod 10) :: u8) \<and> (of_nat (48 + unat v mod 10) :: u8) \<le> 57"
    using decimal_byte [of "unat v mod 10"] by simp
  then show ?case using s Suc [of "of_nat (unat v div 10)"] by (simp del: digits_loop.simps of_nat_add)
qed simp

lemma dec_chars:
  assumes "c \<in> set (dec a)"
  shows "48 \<le> c \<and> c \<le> 57"
  using assms digits_decimal [of 24 "of_nat a"] by (auto simp: dec_def fmt_uint_def list_all_iff dest: in_set_takeD split: if_splits)

lemma digits_some: "v \<noteq> 0 \<Longrightarrow> 0 < k \<Longrightarrow> digits_loop False 10 k v \<noteq> []"
  by (cases k) auto

lemma dec_not_Nil: "dec a \<noteq> []"
proof (cases "(of_nat a :: u64) = 0")
  case False
  have "fmt_uint 24 (of_nat a) 10 False = rev (digits_loop False 10 24 (of_nat a))" using fmt_uint_digits(1) [of 10 "of_nat a" False] False by simp
  then show ?thesis using digits_some [OF False, of 24] by (simp add: dec_def)
qed (simp add: dec_def fmt_uint_def)

lemma dec_cstr: "is_cstr (dec a)"
  using dec_chars [of 0 a] by (auto simp: is_cstr_def)

lemma strtol_dec:
  assumes "a < 2 ^ 63" "s = [] \<or> hd s = 45"
  shows "strtol (dec a @ s) 10 = Some (int a, s)"
proof -
  have u: "unat (of_nat a :: u64) = a" using assms(1) by (intro unat_of_nat_u64) simp
  have stop: "strtol_loop 10 v s = Some (v, s)" for v using assms(2) by (cases s) (auto simp: strtol_digit_def)
  have l: "strtol_loop 10 0 (dec a @ s) = Some (int a, s)"
  proof (cases "(of_nat a :: u64) = 0")
    case True
    then have "a = 0" using u by simp
    then show ?thesis using stop by (simp add: dec_def fmt_uint_def strtol_digit_def)
  next
    case False
    have "dec a = rev (digits_loop False 10 24 (of_nat a))" unfolding dec_def using fmt_uint_digits(1) [of 10 "of_nat a" False] False by simp
    then show ?thesis using strtol_digits [of 10 "of_nat a" 24 False s] fmt_uint_digits(2) [of 10 "of_nat a"] stop assms(1) u by simp
  qed
  obtain c r where c: "dec a = c # r" using dec_not_Nil by (cases "dec a") auto
  have "48 \<le> c \<and> c \<le> 57" using dec_chars [of c a] c by simp
  then have "c \<noteq> 32 \<and> c \<noteq> 45 \<and> c \<noteq> 43 \<and> \<not> (9 \<le> c \<and> c \<le> 13)" by (auto simp: word_le_nat_alt word_less_nat_alt)
  then show ?thesis using l by (auto simp: strtol_def c Let_def simp del: strtol_loop.simps)
qed

section \<open>Ranges\<close>

lemma strchr_absent: "c \<notin> set s \<Longrightarrow> c \<noteq> 0 \<Longrightarrow> strchr s c = None"
  by (induction s c rule: strchr.induct) auto

lemma strchr_first: "c \<notin> set s \<Longrightarrow> is_cstr s \<Longrightarrow> strchr (s @ c # t) c = Some (c # t)"
  by (induction s) auto

lemma digits_dec: "digits (dec a @ s) 1"
proof -
  obtain c r where "dec a = c # r" using dec_not_Nil by (cases "dec a") auto
  then show ?thesis using dec_chars [of c a] by (simp add: digits_def)
qed

lemma bytes_prefix: "strncmp (cs ''bytes='' @ r) (cs ''bytes='') 6 = 0" if "is_cstr r"
proof -
  have "length (cs ''bytes='') = 6" by (simp add: cs_def)
  moreover have "is_cstr (cs ''bytes='' @ r)" "is_cstr (cs ''bytes='')" using that by (simp_all add: cs_def)
  ultimately show ?thesis using strncmp_prefix [of "cs ''bytes='' @ r" "cs ''bytes=''"] by simp
qed

text \<open>The request \<open>bytes=a-t\<close>, where \<open>t\<close> is empty or a number.\<close>

lemma parse_range_from:
  assumes "a < 2 ^ 63" "is_cstr t" "44 \<notin> set t"
  shows "parse_range (cs ''bytes='' @ dec a @ 45 # t) sz s e =
    (if ch t 0 = 0 then range_check sz (of_nat a) (if sz \<noteq> 0 then sz - 1 else 0)
     else if digits t 1 then
       (case strtol t 10 of
          None \<Rightarrow> None
        | Some (to, _) \<Rightarrow> if to < 0 then Some (0, of_nat a, e) else range_check sz (of_nat a) (word_of_int to))
     else Some (0, of_nat a, e))"
proof -
  let ?r = "dec a @ 45 # t"
  have r: "is_cstr ?r" using dec_cstr assms(2) by simp
  have n: "44 \<notin> set (dec a)" "45 \<notin> set (dec a)" using dec_chars [of 44 a] dec_chars [of 45 a] by auto
  have c: "strchr ?r 44 = None" using n assms(3) by (intro strchr_absent) simp_all
  have d: "strchr ?r 45 = Some (45 # t)" by (rule strchr_first [OF n(2) dec_cstr])
  have l: "length (45 # t) \<noteq> length ?r" using dec_not_Nil by simp
  have sk: "dropWhile (\<lambda>c. c = 32) (cs ''bytes='' @ ?r) = cs ''bytes='' @ ?r" by (simp add: cs_def)
  have d6: "drop 6 (cs ''bytes='' @ ?r) = ?r" by (simp add: cs_def)
  have w: "(word_of_int (int a) :: u64) = of_nat a" by simp
  show ?thesis unfolding parse_range_def sk Let_def bytes_prefix [OF r] d6 c d
    using l digits_dec [of a "45 # t"] strtol_dec [OF assms(1), of "45 # t"] w
    by (simp add: range_check_def Let_def split: option.split)
qed

text \<open>The value of \<open>strtol\<close> fits a \<open>long\<close>.\<close>

lemma strtol_loop_range: "strtol_loop base val s = Some (v, r) \<Longrightarrow> 0 \<le> val \<Longrightarrow> val < 2 ^ 63 \<Longrightarrow> 0 \<le> v \<and> v < 2 ^ 63"
proof (induction base val s rule: strtol_loop.induct)
  case (2 base val c s)
  then show ?case by (auto split: option.splits if_splits)
qed simp

lemma strtol_range: "strtol s 10 = Some (v, r) \<Longrightarrow> v < 2 ^ 63"
  by (auto simp: strtol_def Let_def split: option.splits if_splits dest!: strtol_loop_range)

lemma range_check_inside: "range_check sz first final = Some (1, x, y) \<Longrightarrow> x \<le> y \<and> y < sz"
proof -
  assume a: "range_check sz first final = Some (1, x, y)"
  have "sz \<noteq> 0 \<Longrightarrow> sz - 1 < sz" using word_less_nat_alt unat_minus_1 [of sz] unat_gt_0 [of sz] by (simp add: word_less_nat_alt)
  then show ?thesis using a by (auto simp: range_check_def Let_def split: if_splits)
qed

lemma last_bytes:
  assumes "0 < want" "want < 2 ^ 63" "sz \<noteq> 0"
  shows "(if (word_of_int want :: u64) \<ge> sz then 0 else sz - word_of_int want) \<le> sz - 1 \<and> sz - 1 < sz"
proof -
  define w where "w = (word_of_int want :: u64)"
  have "uint w = want" unfolding w_def uint_word_of_int using assms by simp
  then have w: "0 < unat w" using assms(1) by (simp add: unat_gt_0) (metis less_irrefl uint_0_iff)
  have m: "unat (sz - 1) = unat sz - 1" "0 < unat sz" using assms(3) by (simp_all add: unat_minus_1 unat_gt_0)
  have "sz - w \<le> sz - 1" if "\<not> w \<ge> sz"
  proof -
    have "unat (sz - w) = unat sz - unat w" using that by (intro unat_sub) simp
    then show ?thesis using w m by (simp add: word_le_nat_alt)
  qed
  then show ?thesis using m by (simp add: w_def [symmetric] word_less_nat_alt)
qed

lemma suffix_inside:
  assumes "strtol t 10 = Some (want, r)" "\<not> want < 0" "want \<noteq> 0" "sz \<noteq> 0"
  shows "(if (word_of_int want :: u64) \<ge> sz then 0 else sz - word_of_int want) \<le> sz - 1" "sz - 1 < sz"
  using last_bytes [of want sz] strtol_range [OF assms(1)] assms(2,3,4) by simp_all

definition within_file :: "u64 \<Rightarrow> (int \<times> u64 \<times> u64) option \<Rightarrow> bool" where
  "within_file sz r \<longleftrightarrow> (\<forall>x y. r = Some (1, x, y) \<longrightarrow> x \<le> y \<and> y < sz)"

lemma within_file_simps [simp]:
  "within_file sz None"
  "within_file sz (Some (0, x, y))"
  "within_file sz (Some (-1, x, y))"
  "within_file sz (Some (1, x, y)) \<longleftrightarrow> x \<le> y \<and> y < sz"
  "within_file sz (range_check sz first final)"
  by (auto simp: within_file_def dest: range_check_inside)

lemma within_file_if: "within_file sz (if b then p else q) \<longleftrightarrow> (b \<longrightarrow> within_file sz p) \<and> (\<not> b \<longrightarrow> within_file sz q)"
  by simp

lemma parse_range_within: "within_file sz (parse_range v sz s e)"
  unfolding parse_range_def Let_def
proof (intro within_file_if [THEN iffD2] conjI impI, goal_cases)
qed (auto simp only: within_file_simps within_file_if suffix_inside split: option.split prod.split)

lemma parse_range_inside: "parse_range v sz s e = Some (1, x, y) \<Longrightarrow> x \<le> y \<and> y < sz"
  using parse_range_within [of sz v s e] by (simp add: within_file_def)

text \<open>
  C30: a request for the bytes from \<open>a\<close> to \<open>b\<close> is answered with those of them that the file has, and
  with "not satisfiable" when there is none; and whatever a range header says, a range that is used
  lies within the file.
\<close>

theorem parse_range_correct:
  assumes "a < 2 ^ 63" "b < 2 ^ 63"
  shows "(a \<le> b \<and> a < unat sz \<longrightarrow>
      parse_range (cs ''bytes='' @ dec a @ 45 # dec b) sz s e = Some (1, of_nat a, of_nat (min b (unat sz - 1)))) \<and>
    (\<not> (a \<le> b \<and> a < unat sz) \<longrightarrow> (\<exists>f. parse_range (cs ''bytes='' @ dec a @ 45 # dec b) sz s e = Some (-1, of_nat a, f))) \<and>
    (parse_range v sz s e = Some (1, x, y) \<longrightarrow> x \<le> y \<and> y < sz)"
proof (intro conjI impI)
  have u: "unat (of_nat a :: u64) = a" "unat (of_nat b :: u64) = b" using assms by (auto intro!: unat_of_nat_u64)
  obtain c r where c: "dec b = c # r" using dec_not_Nil by (cases "dec b") auto
  then have "ch (dec b) 0 \<noteq> 0" using dec_chars [of c b] by auto
  moreover have "44 \<notin> set (dec b)" using dec_chars [of 44 b] by auto
  moreover have "strtol (dec b) 10 = Some (int b, [])" "digits (dec b) 1"
    using strtol_dec [OF assms(2), of "[]"] digits_dec [of b "[]"] by simp_all
  ultimately have p: "parse_range (cs ''bytes='' @ dec a @ 45 # dec b) sz s e = range_check sz (of_nat a) (of_nat b)"
    using parse_range_from [OF assms(1) dec_cstr, of b sz s e] by simp
  have z: "sz = 0 \<longleftrightarrow> unat sz = 0" by (simp add: unat_eq_0)
  have le: "sz \<le> of_nat a \<longleftrightarrow> unat sz \<le> a" "sz \<le> of_nat b \<longleftrightarrow> unat sz \<le> b" "(of_nat b :: u64) < of_nat a \<longleftrightarrow> b < a"
    using u by (simp_all add: word_le_nat_alt word_less_nat_alt del: unat_of_nat)
  have s1: "sz - 1 < of_nat a \<longleftrightarrow> unat sz - 1 < a" "sz - 1 = of_nat (unat sz - 1)" if "sz \<noteq> 0"
  proof -
    have m: "unat (sz - 1) = unat sz - 1" by (rule unat_minus_1 [OF that])
    then show "sz - 1 < of_nat a \<longleftrightarrow> unat sz - 1 < a" using u by (simp add: word_less_nat_alt del: unat_of_nat)
    have "unat sz < 2 ^ 64" using unsigned_less [of sz] by simp
    then have "unat sz - 1 < 2 ^ 64" by (rule le_less_trans [rotated]) simp
    then show "sz - 1 = of_nat (unat sz - 1)" unfolding word_unat_eq_iff m by (rule unat_of_nat_u64 [symmetric])
  qed
  show "parse_range (cs ''bytes='' @ dec a @ 45 # dec b) sz s e = Some (1, of_nat a, of_nat (min b (unat sz - 1)))"
    if ab: "a \<le> b \<and> a < unat sz"
  proof -
    have nz: "sz \<noteq> 0" using ab z by auto
    show ?thesis
    proof (cases "unat sz \<le> b")
      case True
      then have "min b (unat sz - 1) = unat sz - 1" by simp
      moreover have "\<not> unat sz - Suc 0 < a" using ab by linarith
      ultimately show ?thesis using ab True nz s1 [OF nz]
        by (simp add: p range_check_def le Let_def s1(2) [OF nz, symmetric] del: of_nat_diff)
    next
      case False
      then have "min b (unat sz - 1) = b" by simp
      then show ?thesis using ab False nz by (simp add: p range_check_def le Let_def)
    qed
  qed
  show "\<exists>f. parse_range (cs ''bytes='' @ dec a @ 45 # dec b) sz s e = Some (-1, of_nat a, f)" if ab: "\<not> (a \<le> b \<and> a < unat sz)"
  proof (cases "unat sz \<le> a")
    case False
    then have nz: "sz \<noteq> 0" and "b < a" "\<not> unat sz \<le> b" using ab z by auto
    then show ?thesis using False by (auto simp: p range_check_def le Let_def)
  qed (auto simp: p range_check_def le)
next
  assume "parse_range v sz s e = Some (1, x, y)"
  then show "x \<le> y" "y < sz" using parse_range_inside by blast+
qed

lemma parse_range_correct_witness:
  "parse_range (cs ''bytes='' @ dec 2 @ 45 # dec 100) 10 0 9 = Some (1, 2, 9)"
proof -
  have m: "min 100 (unat (10 :: u64) - 1) = 9" by simp
  have "2 \<le> (100 :: nat) \<and> 2 < unat (10 :: u64)" by simp
  then have "parse_range (cs ''bytes='' @ dec 2 @ 45 # dec 100) 10 0 9 = Some (1, of_nat 2, of_nat (min 100 (unat (10 :: u64) - 1)))"
    by (rule parse_range_correct [of 2 100 10 0 9 "[]" 0 0, THEN conjunct1, THEN mp, rotated 2]) simp_all
  then show ?thesis unfolding m by simp
qed

text \<open>A range that is to be ignored leaves its start behind, from which the body is then sent.\<close>

lemma malformed_range_start: "parse_range (cs ''bytes='' @ dec 5 @ 45 # [120]) 10 0 9 = Some (0, 5, 9)"
  using parse_range_from [of 5 "[120]" 10 0 9] by (simp add: digits_def)

end
