(* ===== verification/LpDiff.thy ===== *)
theory LpDiff
  imports LpFiles StdioCall LpString
begin

text \<open>
  \<open>diff\<close> (\<open>userland/diff/diff.c\<close>): two files read in and cut into lines, Myers' walk of the edit
  graph, the unified output, directories.  The file system and the allocator are parameters; what is
  printed is the list of the calls of \<open>printf\<close> and \<open>dprintf\<close>.
\<close>

section \<open>Lines\<close>

definition MAX_BYTES :: nat where "MAX_BYTES = 2 * 1024 * 1024"
definition MAX_LINES :: int where "MAX_LINES = 100000"
definition MAX_D :: nat where "MAX_D = 400"
definition MAX_DEPTH :: nat where "MAX_DEPTH = 20"

record options =
  icase :: bool
  iwhite :: bool

record file_t =
  f_path :: cstring
  f_data :: "u8 list"
  f_line :: "cstring list"
  f_hash :: "u32 list"
  f_no_final_nl :: bool
  f_binary :: bool

definition white :: "u8 \<Rightarrow> bool" where
  "white c \<longleftrightarrow> c = 32 \<or> c = 9 \<or> c = 13"

definition fold_case :: "options \<Rightarrow> u8 \<Rightarrow> u8" where
  "fold_case opt c = (if icase opt \<and> c \<ge> 65 \<and> c \<le> 90 then c + 32 else c)"

fun hash_loop :: "options \<Rightarrow> cstring \<Rightarrow> u32 \<Rightarrow> u32" where
  "hash_loop opt [] h = h"
| "hash_loop opt (c # s) h =
     (if iwhite opt \<and> white c then hash_loop opt s h
      else hash_loop opt s ((h XOR ucast (fold_case opt c)) * 16777619))"

definition hash_line :: "options \<Rightarrow> cstring \<Rightarrow> u32" where
  "hash_line opt s = hash_loop opt s 2166136261"

definition skip_white :: "options \<Rightarrow> cstring \<Rightarrow> cstring" where
  "skip_white opt s = (if iwhite opt then dropWhile white s else s)"

lemma skip_white_length: "length (skip_white opt s) \<le> length s"
  by (simp add: skip_white_def length_dropWhile_le)

function same_text :: "options \<Rightarrow> cstring \<Rightarrow> cstring \<Rightarrow> bool" where
  "same_text opt x y =
     (let x = skip_white opt x; y = skip_white opt y;
          cx = fold_case opt (deref x); cy = fold_case opt (deref y)
      in if cx \<noteq> cy then False
         else if cx = 0 then True
         else same_text opt (tl x) (tl y))"
  by auto
termination
proof (relation "measure (\<lambda>(opt, x, y). length x)", simp, goal_cases)
  case (1 opt x y x' y' cx cy)
  then have "x' \<noteq> []" by (auto simp: fold_case_def)
  moreover have "length x' \<le> length x" using 1(1) skip_white_length by simp
  ultimately show ?case by (cases x') auto
qed

declare same_text.simps [simp del]

text \<open>
  Line \<open>i\<close> of one file against line \<open>j\<close> of the other.
\<close>

definition f_nlines :: "file_t \<Rightarrow> int" where
  "f_nlines f = int (length (f_line f))"

definition eq :: "options \<Rightarrow> file_t \<Rightarrow> file_t \<Rightarrow> int \<Rightarrow> int \<Rightarrow> bool" where
  "eq opt FA FB i j =
     (if f_hash FA ! nat i \<noteq> f_hash FB ! nat j then False
      else if i = f_nlines FA - 1 \<and> j = f_nlines FB - 1 \<and> f_no_final_nl FA \<noteq> f_no_final_nl FB then False
      else same_text opt (f_line FA ! nat i) (f_line FB ! nat j))"

section \<open>Reading a file\<close>

text \<open>
  The file system: an open file is the list of what reading it gives, a piece at a time, where
  \<open>None\<close> is an error and a piece longer than asked for is taken in parts; the attributes of a path,
  following a link or not; the buffers of \<open>getdents\<close>; the target of a link; the allocator.
\<close>

type_synonym pieces = "u8 list option list"

record tree =
  t_open :: "cstring \<Rightarrow> pieces option"
  t_stat :: "bool \<Rightarrow> cstring \<Rightarrow> lp_stat option"
  t_list :: "cstring \<Rightarrow> u8 list list option"
  t_link :: "cstring \<Rightarrow> u8 list option"
  t_alloc :: "nat \<Rightarrow> bool"

fun lp_read :: "nat \<Rightarrow> pieces \<Rightarrow> u8 list option \<times> pieces" where
  "lp_read want [] = (Some [], [])"
| "lp_read want (None # ps) = (None, ps)"
| "lp_read want (Some b # ps) =
     (if length b \<le> want then (Some b, ps) else (Some (take want b), Some (drop want b) # ps))"

definition pieces_left :: "pieces \<Rightarrow> nat" where
  "pieces_left ps = sum_list (map (\<lambda>p. case p of None \<Rightarrow> 1 | Some b \<Rightarrow> Suc (length b)) ps)"

lemma lp_read_less: "lp_read want ps = (Some b, ps') \<Longrightarrow> b \<noteq> [] \<Longrightarrow> pieces_left ps' < pieces_left ps"
  by (induction want ps rule: lp_read.induct) (auto simp: pieces_left_def split: if_splits)

datatype reading = Whole "u8 list" | Grown_too_big | Unreadable | No_room | Endless

definition grow :: "nat \<Rightarrow> nat" where
  "grow cap = (if cap * 2 > MAX_BYTES then MAX_BYTES else cap * 2)"

text \<open>The read loop; a capacity of 0 would be doubled for ever.\<close>

function read_loop :: "tree \<Rightarrow> pieces \<Rightarrow> nat \<Rightarrow> u8 list \<Rightarrow> reading" where
  "read_loop T ps cap buf =
     (if length buf = cap then
        (if cap \<ge> MAX_BYTES then Grown_too_big
         else if cap = 0 then Endless
         else if \<not> t_alloc T (grow cap + 1) then No_room
         else read_loop T ps (grow cap) buf)
      else
        (case lp_read (cap - length buf) ps of
           (None, ps) \<Rightarrow> Unreadable
         | (Some b, ps) \<Rightarrow> if b = [] then Whole buf else read_loop T ps cap (buf @ b)))"
  by auto
termination
proof (relation "measures [\<lambda>(T, ps, cap, buf). pieces_left ps, \<lambda>(T, ps, cap, buf). MAX_BYTES - cap]", goal_cases)
  case (3 T ps cap buf r ps' b)
  then show ?case using lp_read_less [of "cap - length buf" ps b ps'] by auto
qed (auto simp: grow_def simp flip: length_greater_0_conv)

declare read_loop.simps [simp del]

text \<open>The lines of a file without NUL: what a newline ends, and what is left after the last one.\<close>

fun cut_lines :: "u8 list \<Rightarrow> cstring \<Rightarrow> cstring list \<times> cstring" where
  "cut_lines [] cur = ([], cur)"
| "cut_lines (c # r) cur =
     (if c = 10 then (let (ls, rest) = cut_lines r [] in (cur # ls, rest)) else cut_lines r (cur @ [c]))"

text \<open>
  What \<open>load\<close> returns: the file, or the calls that say why not.  Cutting a text into lines leaves NUL in
  place of its newlines in \<open>f_data\<close>.
\<close>

definition load :: "tree \<Rightarrow> options \<Rightarrow> cstring \<Rightarrow> file_t + print_call list" where
  "load T opt path =
     (case t_open T path of
        None \<Rightarrow> Inr [stderr_call (cs ''diff: %s: cannot open'' @ [10]) [astr path]]
      | Some ps \<Rightarrow>
          (let cap = (case t_stat T True path of
                        Some st \<Rightarrow> if st_size st > 0 then unat (st_size st) + 1 else 65536
                      | None \<Rightarrow> 65536)
           in if cap > MAX_BYTES then
                Inr [stderr_call
                  (cs ''diff: %s is bigger than the %ldMB diff can hold'' @ [10] @
                   cs ''diff:   cmp finds the first difference in a file of any size'' @ [10]) [astr path, anum 2]]
              else
                (case (if t_alloc T (cap + 1) then read_loop T ps cap [] else No_room) of
                   Grown_too_big \<Rightarrow>
                     Inr [stderr_call
                       (cs ''diff: %s is bigger than the %ldMB diff can hold'' @ [10] @
                        cs ''diff:   try cmp, which reads a file of any size'' @ [10]) [astr path, anum 2]]
                 | Unreadable \<Rightarrow> Inr [stderr_call (cs ''diff: %s: cannot read'' @ [10]) [astr path]]
                 | No_room \<Rightarrow> Inr [stderr_call (cs ''diff: out of memory reading %s'' @ [10]) [astr path]]
                 | Endless \<Rightarrow> Inr []
                 | Whole buf \<Rightarrow>
                     (let f = \<lparr>f_path = path, f_data = buf, f_line = [], f_hash = [], f_no_final_nl = False, f_binary = False\<rparr>
                      in if 0 \<in> set buf then Inl (f\<lparr>f_binary := True\<rparr>)
                         else
                           (let no_nl = (buf \<noteq> [] \<and> last buf \<noteq> 10);
                                (ls, rest) = cut_lines buf [];
                                ls = (if no_nl then ls @ [rest] else ls);
                                f = f\<lparr>f_no_final_nl := no_nl\<rparr>
                            in if int (length ls) > MAX_LINES then
                                 Inr [stderr_call
                                   (cs ''diff: %s has more than %ld lines, more than diff lays out'' @ [10] @
                                    cs ''diff:   diff -q says whether it changed; cmp says where'' @ [10]) [astr path, anum MAX_LINES]]
                               else if ls = [] then Inl f
                               else if \<not> t_alloc T (length ls * 8) \<or> \<not> t_alloc T (length ls * 4) then
                                 Inr [stderr_call (cs ''diff: out of memory reading %s'' @ [10]) [astr path]]
                               else Inl (f\<lparr>f_data := map (\<lambda>c. if c = 10 then 0 else c) buf, f_line := ls,
                                           f_hash := map (hash_line opt) ls\<rparr>))))))"

section \<open>Whether two files differ\<close>

lemma lp_read_sum: "lp_read want ps = (Some b, ps') \<Longrightarrow> b \<noteq> [] \<Longrightarrow> length b + pieces_left ps' \<le> pieces_left ps"
  by (induction want ps rule: lp_read.induct) (auto simp: pieces_left_def split: if_splits)

text \<open>
  The next byte that counts, or none at the end or on an error; and the rest of the buffer and of the
  file.
\<close>

function rd_next :: "options \<Rightarrow> u8 list \<Rightarrow> pieces \<Rightarrow> u8 option \<times> u8 list \<times> pieces" where
  "rd_next opt [] ps =
     (case lp_read 4096 ps of
        (Some b, ps) \<Rightarrow> if b = [] then (None, [], ps) else rd_next opt b ps
      | (None, ps) \<Rightarrow> (None, [], ps))"
| "rd_next opt (c # buf) ps =
     (if iwhite opt \<and> white c then rd_next opt buf ps else (Some (fold_case opt c), buf, ps))"
  by pat_completeness auto

termination
  by (relation "measures [\<lambda>(opt, buf, ps). length buf + pieces_left ps, \<lambda>(opt, buf, ps). if buf = [] then 1 else 0]")
    (auto dest!: lp_read_sum [OF sym])

declare rd_next.simps [simp del]

lemma rd_next_less: "rd_next opt buf ps = (Some c, buf', ps') \<Longrightarrow> length buf' + pieces_left ps' < length buf + pieces_left ps"
proof (induction opt buf ps rule: rd_next.induct)
  case (1 opt ps)
  then show ?case by (auto simp: rd_next.simps split: prod.splits option.splits if_splits dest!: lp_read_sum)
next
  case (2 opt c buf ps)
  then show ?case by (auto simp: rd_next.simps split: if_splits)
qed

text \<open>The two files side by side: 0 the same, 1 different.\<close>

function quick_loop :: "options \<Rightarrow> u8 list \<Rightarrow> pieces \<Rightarrow> u8 list \<Rightarrow> pieces \<Rightarrow> int" where
  "quick_loop opt ba pa bb pb =
     (case (rd_next opt ba pa, rd_next opt bb pb) of
        ((x, ba, pa), (y, bb, pb)) \<Rightarrow>
          if x \<noteq> y then 1 else if x = None then 0 else quick_loop opt ba pa bb pb)"
  by auto
termination
  by (relation "measure (\<lambda>(opt, ba, pa, bb, pb). length ba + pieces_left pa)")
    (auto dest!: rd_next_less [OF sym])

declare quick_loop.simps [simp del]

definition quick :: "tree \<Rightarrow> options \<Rightarrow> cstring \<Rightarrow> cstring \<Rightarrow> int \<times> print_call list" where
  "quick T opt pa pb =
     (case t_open T pa of
        None \<Rightarrow> (2, [stderr_call (cs ''diff: %s: cannot open'' @ [10]) [astr pa]])
      | Some fa \<Rightarrow>
          (case t_open T pb of
             None \<Rightarrow> (2, [stderr_call (cs ''diff: %s: cannot open'' @ [10]) [astr pb]])
           | Some fb \<Rightarrow> (quick_loop opt [] fa [] fb, [])))"

section \<open>Myers' walk\<close>

record block_t =
  a0 :: int
  alen :: int
  b0 :: int
  blen :: int

text \<open>
  \<open>E x y\<close> compares line \<open>x\<close> of the middle of one file with line \<open>y\<close> of that of the other; \<open>n\<close> and \<open>m\<close>
  are their lengths.  \<open>v\<close> is \<open>vwork\<close> from its middle: for each diagonal \<open>k\<close>, how far down it the walk
  has come.
\<close>

function snake :: "(int \<Rightarrow> int \<Rightarrow> bool) \<Rightarrow> int \<Rightarrow> int \<Rightarrow> int \<Rightarrow> int \<Rightarrow> int \<times> int" where
  "snake E n m x y = (if x < n \<and> y < m \<and> E x y then snake E n m (x + 1) (y + 1) else (x, y))"
  by auto
termination by (relation "measure (\<lambda>(E, n, m, x, y). nat (n - x))") auto

declare snake.simps [simp del]

definition step_x :: "(int \<Rightarrow> int) \<Rightarrow> int \<Rightarrow> int \<Rightarrow> int" where
  "step_x v d k = (if k = - d \<or> (k \<noteq> d \<and> v (k - 1) < v (k + 1)) then v (k + 1) else v (k - 1) + 1)"

function diagonals :: "(int \<Rightarrow> int \<Rightarrow> bool) \<Rightarrow> int \<Rightarrow> int \<Rightarrow> int \<Rightarrow> int \<Rightarrow> (int \<Rightarrow> int) \<Rightarrow> bool \<times> (int \<Rightarrow> int)" where
  "diagonals E n m d k v =
     (if k > d then (False, v)
      else
        (let x = step_x v d k;
             (x, y) = snake E n m x (x - k);
             v = v(k := x)
         in if x \<ge> n \<and> y \<ge> m then (True, v) else diagonals E n m d (k + 2) v))"
  by auto
termination by (relation "measure (\<lambda>(E, n, m, d, k, v). nat (d + 1 - k))") auto

declare diagonals.simps [simp del]

text \<open>A row of \<open>trace\<close>; only every second entry of it is set.\<close>

definition keep_row :: "int \<Rightarrow> (int \<Rightarrow> int) \<Rightarrow> int \<Rightarrow> int" where
  "keep_row d v i = (if 0 \<le> i \<and> i \<le> 2 * d \<and> even i then v (i - d) else 0)"

datatype walk = Corner int "(int \<Rightarrow> int) list" | Beyond | Starved

function d_loop :: "(int \<Rightarrow> int \<Rightarrow> bool) \<Rightarrow> int \<Rightarrow> int \<Rightarrow> (nat \<Rightarrow> bool) \<Rightarrow> int \<Rightarrow> int \<Rightarrow> (int \<Rightarrow> int) \<Rightarrow> (int \<Rightarrow> int) list \<Rightarrow> walk" where
  "d_loop E n m alloc maxd d v rows =
     (if d > maxd then Beyond
      else
        (let (reached, v) = diagonals E n m d (- d) v
         in if reached then Corner d rows
            else if \<not> alloc (nat (2 * d + 1) * 4) then Starved
            else d_loop E n m alloc maxd (d + 1) v (rows @ [keep_row d v])))"
  by auto
termination by (relation "measure (\<lambda>(E, n, m, alloc, maxd, d, v, rows). nat (maxd + 1 - d))") auto

declare d_loop.simps [simp del]

text \<open>
  Back from the corner: \<open>cur\<close> is the block being gathered, if one is open, and \<open>acc\<close> is \<open>blocks\<close> from
  \<open>slot\<close> on.
\<close>

definition prev_diagonal :: "(int \<Rightarrow> int) \<Rightarrow> int \<Rightarrow> int \<Rightarrow> int" where
  "prev_diagonal row d k =
     (if k = - d \<or> (k \<noteq> d \<and> row ((k - 1) + (d - 1)) < row ((k + 1) + (d - 1))) then k + 1 else k - 1)"

fun walk_back :: "int \<Rightarrow> int \<Rightarrow> (int \<Rightarrow> int) list \<Rightarrow> nat \<Rightarrow> int \<Rightarrow> int \<Rightarrow> block_t option \<Rightarrow> block_t list \<Rightarrow> block_t list" where
  "walk_back alo blo rows 0 x y cur acc = (case cur of None \<Rightarrow> acc | Some b \<Rightarrow> b # acc)"
| "walk_back alo blo rows (Suc d) x y cur acc =
     (let row = rows ! d;
          k = x - y;
          prev_k = prev_diagonal row (int (Suc d)) k;
          px = row (prev_k + int d);
          py = px - prev_k;
          removed = (prev_k = k - 1);
          (cur, acc) = (case cur of
              None \<Rightarrow> (None, acc)
            | Some b \<Rightarrow> if x > px + (if removed then 1 else 0) then (None, b # acc) else (Some b, acc));
          b = (case cur of None \<Rightarrow> \<lparr>a0 = 0, alen = 0, b0 = 0, blen = 0\<rparr> | Some b \<Rightarrow> b);
          b = (if removed then b\<lparr>alen := alen b + 1\<rparr> else b\<lparr>blen := blen b + 1\<rparr>);
          b = b\<lparr>a0 := alo + px, b0 := blo + py\<rparr>
      in walk_back alo blo rows d px py (Some b) acc)"

text \<open>
  0 and the blocks, 1 for more than \<open>MAX_D\<close> steps, 2 without memory.  \<open>v0\<close> is what an earlier call
  left in \<open>vwork\<close>.
\<close>

definition myers :: "(int \<Rightarrow> int \<Rightarrow> bool) \<Rightarrow> (nat \<Rightarrow> bool) \<Rightarrow> (int \<Rightarrow> int) \<Rightarrow> int \<Rightarrow> int \<Rightarrow> int \<Rightarrow> int \<Rightarrow> int \<times> block_t list" where
  "myers E alloc v0 alo ahi blo bhi =
     (let n = ahi - alo; m = bhi - blo;
          maxd = (if n + m > int MAX_D then int MAX_D else n + m)
      in case d_loop (\<lambda>x y. E (alo + x) (blo + y)) n m alloc maxd 0 (v0(1 := 0)) [] of
           Corner d rows \<Rightarrow> (0, walk_back alo blo rows (nat d) n m None [])
         | Beyond \<Rightarrow> (1, [])
         | Starved \<Rightarrow> (2, []))"

section \<open>Printing\<close>

definition put_line :: "u8 \<Rightarrow> file_t \<Rightarrow> int \<Rightarrow> print_call list" where
  "put_line tag f i =
     stdout_call (cs ''%c%s'' @ [10]) [Num (ucast tag), astr (f_line f ! nat i)] #
     (if i = f_nlines f - 1 \<and> f_no_final_nl f then [stdout_call (92 # cs '' no newline at end of file'' @ [10]) []] else [])"

definition put_range :: "int \<Rightarrow> int \<Rightarrow> print_call list" where
  "put_range start count =
     (if count = 1 then [stdout_call (cs ''%ld'') [anum (start + 1)]]
      else [stdout_call (cs ''%ld,%ld'') [anum (if count \<noteq> 0 then start + 1 else start), anum count]])"

text \<open>The blocks of one hunk, and the rest.\<close>

fun take_hunk :: "int \<Rightarrow> block_t \<Rightarrow> block_t list \<Rightarrow> block_t list \<times> block_t list" where
  "take_hunk ctx b [] = ([b], [])"
| "take_hunk ctx b (b' # bs) =
     (if a0 b' - (a0 b + alen b) \<le> 2 * ctx then (let (h, rest) = take_hunk ctx b' bs in (b # h, rest))
      else ([b], b' # bs))"

text \<open>The lines of a hunk: kept and removed ones are lines of the first file, added ones of the second.\<close>

datatype hunk_line = Same int | Minus int | Plus int

fun hunk_lines :: "int \<Rightarrow> int \<Rightarrow> block_t list \<Rightarrow> int \<Rightarrow> hunk_line list" where
  "hunk_lines ax bx [] ae = map Same [ax..ae - 1]"
| "hunk_lines ax bx (b # bs) ae =
     (let ctx = [ax..a0 b - 1]; ax = ax + int (length ctx); bx = bx + int (length ctx)
      in map Same ctx @ map Minus [ax..ax + alen b - 1] @ map Plus [bx..bx + blen b - 1] @
         hunk_lines (ax + (if alen b > 0 then alen b else 0)) (bx + (if blen b > 0 then blen b else 0)) bs ae)"

record hunk =
  h_as :: int
  h_ae :: int
  h_bs :: int
  h_be :: int
  h_lines :: "hunk_line list"

definition smaller :: "int \<Rightarrow> int \<Rightarrow> int" where
  "smaller p q = (if p > q then q else p)"

definition make_hunk :: "int \<Rightarrow> int \<Rightarrow> int \<Rightarrow> block_t list \<Rightarrow> hunk" where
  "make_hunk na nb ctx h =
     (let i = hd h; j = last h;
          pre = smaller (smaller ctx (a0 i)) (b0 i);
          post = smaller (smaller ctx (na - (a0 j + alen j))) (nb - (b0 j + blen j));
          as = a0 i - pre; ae = a0 j + alen j + post;
          bs = b0 i - pre; be = b0 j + blen j + post
      in \<lparr>h_as = as, h_ae = ae, h_bs = bs, h_be = be, h_lines = hunk_lines as bs h ae\<rparr>)"

lemma take_hunk_less: "take_hunk ctx b bs = (h, rest) \<Longrightarrow> length rest \<le> length bs"
  by (induction ctx b bs arbitrary: h rule: take_hunk.induct) (auto split: if_splits prod.splits)

function hunks :: "int \<Rightarrow> int \<Rightarrow> int \<Rightarrow> block_t list \<Rightarrow> hunk list" where
  "hunks na nb ctx [] = []"
| "hunks na nb ctx (b # bs) = (let (h, rest) = take_hunk ctx b bs in make_hunk na nb ctx h # hunks na nb ctx rest)"
  by pat_completeness auto
termination by (relation "measure (\<lambda>(na, nb, ctx, bs). length bs)") (auto simp: less_Suc_eq_le intro: take_hunk_less [OF sym])

fun print_line :: "file_t \<Rightarrow> file_t \<Rightarrow> hunk_line \<Rightarrow> print_call list" where
  "print_line FA FB (Same i) = put_line 32 FA i"
| "print_line FA FB (Minus i) = put_line 45 FA i"
| "print_line FA FB (Plus i) = put_line 43 FB i"

definition print_hunk :: "file_t \<Rightarrow> file_t \<Rightarrow> hunk \<Rightarrow> print_call list" where
  "print_hunk FA FB h =
     [stdout_call (cs ''@@ -'') []] @ put_range (h_as h) (h_ae h - h_as h) @ [stdout_call (cs '' +'') []] @
     put_range (h_bs h) (h_be h - h_bs h) @ [stdout_call (cs '' @@'' @ [10]) []] @ concat (map (print_line FA FB) (h_lines h))"

definition emit :: "file_t \<Rightarrow> file_t \<Rightarrow> int \<Rightarrow> block_t list \<Rightarrow> print_call list" where
  "emit FA FB ctx blocks =
     [stdout_call (cs ''--- %s'' @ [10]) [astr (f_path FA)], stdout_call (cs ''+++ %s'' @ [10]) [astr (f_path FB)]] @
     concat (map (print_hunk FA FB) (hunks (f_nlines FA) (f_nlines FB) ctx blocks))"

section \<open>One pair of files\<close>

function trim_front :: "(int \<Rightarrow> int \<Rightarrow> bool) \<Rightarrow> int \<Rightarrow> int \<Rightarrow> int \<Rightarrow> int \<Rightarrow> int \<times> int" where
  "trim_front E alo ahi blo bhi =
     (if alo < ahi \<and> blo < bhi \<and> E alo blo then trim_front E (alo + 1) ahi (blo + 1) bhi else (alo, blo))"
  by auto
termination by (relation "measure (\<lambda>(E, alo, ahi, blo, bhi). nat (ahi - alo))") auto

function trim_back :: "(int \<Rightarrow> int \<Rightarrow> bool) \<Rightarrow> int \<Rightarrow> int \<Rightarrow> int \<Rightarrow> int \<Rightarrow> int \<times> int" where
  "trim_back E alo ahi blo bhi =
     (if ahi > alo \<and> bhi > blo \<and> E (ahi - 1) (bhi - 1) then trim_back E alo (ahi - 1) blo (bhi - 1) else (ahi, bhi))"
  by auto
termination by (relation "measure (\<lambda>(E, alo, ahi, blo, bhi). nat (ahi - alo))") auto

declare trim_front.simps [simp del] trim_back.simps [simp del]

text \<open>
  The comparison of two loaded files: 0 the same, 1 different, 2 trouble, and what is printed.  No
  entry of \<open>vwork\<close> is read before the same call of \<open>myers\<close> has written it, so that it starts at 0 here.
\<close>

definition compare_lines :: "tree \<Rightarrow> options \<Rightarrow> file_t \<Rightarrow> file_t \<Rightarrow> int \<Rightarrow> int \<times> print_call list" where
  "compare_lines T opt FA FB ctx =
     (let E = eq opt FA FB;
          (alo, blo) = trim_front E 0 (f_nlines FA) 0 (f_nlines FB);
          (ahi, bhi) = trim_back E alo (f_nlines FA) blo (f_nlines FB)
      in if alo = ahi \<and> blo = bhi then (0, [])
         else
           (let (rc, blocks) = myers E (t_alloc T) (\<lambda>_. 0) alo ahi blo bhi
            in if rc = 0 then (1, emit FA FB ctx blocks)
               else if rc = 1 then
                 (1, [stderr_call
                    (cs ''diff: %s and %s differ by more than %ld lines, too far'' @ [10] @
                     cs ''diff:   apart to lay out as one edit. cmp -l lists every'' @ [10] @
                     cs ''diff:   differing byte, and diff -q just confirms it.'' @ [10])
                    [astr (f_path FA), astr (f_path FB), anum (int MAX_D)]])
               else (2, [stderr_call (cs ''diff: out of memory comparing %s and %s'' @ [10]) [astr (f_path FA), astr (f_path FB)]])))"

definition compare_files :: "tree \<Rightarrow> options \<Rightarrow> file_t \<Rightarrow> file_t \<Rightarrow> int \<Rightarrow> int \<times> print_call list" where
  "compare_files T opt FA FB ctx =
     (if f_binary FA \<or> f_binary FB then
        (if f_data FA = f_data FB then (0, [])
         else (1, [stdout_call (cs ''binary files %s and %s differ'' @ [10]) [astr (f_path FA), astr (f_path FB)]]))
      else compare_lines T opt FA FB ctx)"

definition diff_files :: "tree \<Rightarrow> options \<Rightarrow> cstring \<Rightarrow> cstring \<Rightarrow> int \<Rightarrow> bool \<Rightarrow> int \<times> print_call list" where
  "diff_files T opt pa pb ctx quiet =
     (if quiet then
        (let (rc, calls) = quick T opt pa pb
         in (rc, calls @ (if rc = 1 then [stdout_call (cs ''files %s and %s differ'' @ [10]) [astr pa, astr pb]] else [])))
      else
        (case load T opt pa of
           Inr calls \<Rightarrow> (2, calls)
         | Inl FA \<Rightarrow>
             (case load T opt pb of
                Inr calls \<Rightarrow> (2, calls)
              | Inl FB \<Rightarrow> compare_files T opt FA FB ctx)))"

section \<open>Directories\<close>

definition worse :: "int \<Rightarrow> int \<Rightarrow> int" where
  "worse a b = (if a > b then a else b)"

text \<open>\<open>snprintf(out, cap, "%s/%s", a, b)\<close>, whose format fits its arguments.\<close>

definition joined :: "nat \<Rightarrow> cstring \<Rightarrow> cstring \<Rightarrow> cstring" where
  "joined cap a b = (case stext cap (cs ''%s/%s'') [astr a, astr b] of Some p \<Rightarrow> p | None \<Rightarrow> [])"

definition link_text :: "tree \<Rightarrow> bool \<Rightarrow> cstring \<Rightarrow> cstring" where
  "link_text T link path =
     (if link then (case t_link T path of Some b \<Rightarrow> cstr_of (take 255 b) | None \<Rightarrow> []) else [])"

text \<open>One name of the first directory; \<open>pair\<close> compares two directories or two files.\<close>

definition first_pass :: "tree \<Rightarrow> bool \<Rightarrow> (bool \<Rightarrow> cstring \<Rightarrow> cstring \<Rightarrow> int \<times> print_call list) \<Rightarrow> cstring \<Rightarrow> cstring \<Rightarrow> cstring \<Rightarrow> int \<times> print_call list" where
  "first_pass T recurse pair pa pb name =
     (let ca = joined 768 pa name; cb = joined 768 pb name
      in case (t_stat T False ca, t_stat T False cb) of
           (None, _) \<Rightarrow> (0, [])
         | (Some sa, None) \<Rightarrow> (1, [stdout_call (cs ''only in %s: %s'' @ [10]) [astr pa, astr name]])
         | (Some sa, Some sb) \<Rightarrow>
             (let a_link = is_kind sa LP_S_IFLNK; b_link = is_kind sb LP_S_IFLNK;
                  a_dir = is_kind sa LP_S_IFDIR; b_dir = is_kind sb LP_S_IFDIR
              in if a_link \<or> b_link then
                   (let ta = link_text T a_link ca; tb = link_text T b_link cb
                    in if a_link \<noteq> b_link then
                         (1, [stdout_call (cs ''%s is a symlink and %s is not'' @ [10])
                           [astr (if a_link then ca else cb), astr (if a_link then cb else ca)]])
                       else if strcmp ta tb \<noteq> 0 then
                         (1, [stdout_call (cs ''%s points at %s, %s at %s'' @ [10]) [astr ca, astr ta, astr cb, astr tb]])
                       else (0, []))
                 else if a_dir \<noteq> b_dir then
                   (1, [stdout_call (cs ''%s is a directory and %s is a file'' @ [10])
                     [astr (if a_dir then ca else cb), astr (if a_dir then cb else ca)]])
                 else if a_dir then (if recurse then pair True ca cb else (0, []))
                 else pair False ca cb))"

definition second_pass :: "tree \<Rightarrow> cstring \<Rightarrow> cstring \<Rightarrow> cstring \<Rightarrow> int \<times> print_call list" where
  "second_pass T pa pb name =
     (if t_stat T False (joined 768 pa name) = None
      then (1, [stdout_call (cs ''only in %s: %s'' @ [10]) [astr pb, astr name]]) else (0, []))"

fun each_name :: "(cstring \<Rightarrow> int \<times> print_call list) \<Rightarrow> cstring list \<Rightarrow> int \<Rightarrow> int \<times> print_call list" where
  "each_name f [] rc = (rc, [])"
| "each_name f (name # names) rc =
     (if strcmp name (cs ''.'') = 0 \<or> strcmp name (cs ''..'') = 0 then each_name f names rc
      else (let (r, calls) = f name; (rc, rest) = each_name f names (worse rc r) in (rc, calls @ rest)))"

definition unlisted :: "cstring \<Rightarrow> int \<times> print_call list" where
  "unlisted dir = (2, [stderr_call (cs ''diff: %s: cannot read the directory'' @ [10]) [astr dir]])"

function diff_dirs :: "tree \<Rightarrow> options \<Rightarrow> int \<Rightarrow> bool \<Rightarrow> bool \<Rightarrow> cstring \<Rightarrow> cstring \<Rightarrow> nat \<Rightarrow> int \<times> print_call list" where
  "diff_dirs T opt ctx quiet recurse pa pb depth =
     (if depth \<ge> MAX_DEPTH then
        (2, [stderr_call
           (cs ''diff: %s is more than %d directories deep - stopping.'' @ [10] @
            cs ''diff:   a mount that contains its own parent looks like this'' @ [10]) [astr pa, anum (int MAX_DEPTH)]])
      else
        (case t_list T pa of
           None \<Rightarrow> unlisted pa
         | Some da \<Rightarrow>
             (let (rc, calls) =
                    each_name
                      (first_pass T recurse
                        (\<lambda>dirs ca cb. if dirs then diff_dirs T opt ctx quiet recurse ca cb (depth + 1)
                                      else diff_files T opt ca cb ctx quiet) pa pb)
                      (concat (map dent_names da)) 0
              in case t_list T pb of
                   None \<Rightarrow> (2, calls @ snd (unlisted pb))
                 | Some db \<Rightarrow>
                     (let (rc, more) = each_name (second_pass T pa pb) (concat (map dent_names db)) rc
                      in (rc, calls @ more)))))"
  by auto
termination by (relation "measure (\<lambda>(T, opt, ctx, quiet, recurse, pa, pb, depth). MAX_DEPTH - depth)") auto

declare diff_dirs.simps [simp del]

section \<open>The command\<close>

record command =
  c_opt :: options
  c_ctx :: int
  c_quiet :: bool
  c_recurse :: bool
  c_rest :: bool
  c_pa :: "cstring option"
  c_pb :: "cstring option"

text \<open>The letters of one option and the arguments after it: what is left of those, or the exit.\<close>

datatype choice = Go command "cstring list" | Help | Refused "print_call list"

fun letters :: "cstring \<Rightarrow> cstring list \<Rightarrow> command \<Rightarrow> choice option" where
  "letters [] as cmd = Some (Go cmd as)"
| "letters (c # s) as cmd =
     (if c = 117 then letters s as cmd
      else if c = 113 then letters s as (cmd\<lparr>c_quiet := True\<rparr>)
      else if c = 114 then letters s as (cmd\<lparr>c_recurse := True\<rparr>)
      else if c = 105 then letters s as (cmd\<lparr>c_opt := (c_opt cmd)\<lparr>icase := True\<rparr>\<rparr>)
      else if c = 119 then letters s as (cmd\<lparr>c_opt := (c_opt cmd)\<lparr>iwhite := True\<rparr>\<rparr>)
      else if c = 104 then Some Help
      else if c = 85 then
        (let (num, as) = (if s \<noteq> [] then (Some s, as) else (case as of [] \<Rightarrow> (None, []) | a # as \<Rightarrow> (Some a, as)))
         in case num of
              Some n \<Rightarrow>
                if deref n < 48 \<or> deref n > 57
                then Some (Refused [stderr_call (cs ''diff: -U wants a line count, as in diff -U 5 a b'' @ [10]) []])
                else do {
                  ctx \<leftarrow> atoi n;
                  Some (Go (cmd\<lparr>c_ctx := (if ctx > MAX_LINES then MAX_LINES else ctx)\<rparr>) as)
                }
            | None \<Rightarrow> Some (Refused [stderr_call (cs ''diff: -U wants a line count, as in diff -U 5 a b'' @ [10]) []]))
      else Some (Refused [stderr_call (cs ''diff: unknown option -%c; diff -h lists them'' @ [10]) [Num (ucast c)]]))"

lemma letters_less: "letters s as cmd = Some (Go cmd' as') \<Longrightarrow> length as' \<le> length as"
proof (induction s as cmd rule: letters.induct)
  case (2 c s as cmd)
  then show ?case by (auto split: if_splits option.splits list.splits Option.bind_splits)
qed simp

function arguments :: "cstring list \<Rightarrow> command \<Rightarrow> choice option" where
  "arguments [] cmd = Some (Go cmd [])"
| "arguments (s # as) cmd =
     (if \<not> c_rest cmd \<and> ch s 0 = 45 \<and> ch s 1 \<noteq> 0 then
        (if strcmp s (cs ''--'') = 0 then arguments as (cmd\<lparr>c_rest := True\<rparr>)
         else
           (case letters (tl s) as cmd of
              Some (Go cmd as') \<Rightarrow> arguments as' cmd
            | r \<Rightarrow> r))
      else if c_pa cmd = None then arguments as (cmd\<lparr>c_pa := Some s\<rparr>)
      else if c_pb cmd = None then arguments as (cmd\<lparr>c_pb := Some s\<rparr>)
      else Some (Refused [stderr_call (cs ''diff: %s: diff compares exactly two things'' @ [10]) [astr s]]))"
  by pat_completeness auto
termination by (relation "measure (\<lambda>(as, cmd). length as)") (auto dest!: letters_less)

declare arguments.simps [simp del]

definition is_dir :: "tree \<Rightarrow> cstring \<Rightarrow> bool" where
  "is_dir T p = (case t_stat T True p of Some st \<Rightarrow> is_kind st LP_S_IFDIR | None \<Rightarrow> False)"

definition base_name :: "cstring \<Rightarrow> cstring" where
  "base_name f = (case strrchr f 47 of Some s \<Rightarrow> tl s | None \<Rightarrow> f)"

definition compare_paths :: "tree \<Rightarrow> command \<Rightarrow> cstring \<Rightarrow> cstring \<Rightarrow> int \<times> print_call list" where
  "compare_paths T cmd pa pb =
     (let da = is_dir T pa; db = is_dir T pb
      in if da \<and> db then diff_dirs T (c_opt cmd) (c_ctx cmd) (c_quiet cmd) (c_recurse cmd) pa pb 0
         else if da \<noteq> db then
           (let f = (if da then pb else pa); dir = (if da then pa else pb)
            in if t_stat T True f = None then (2, [stderr_call (cs ''diff: %s: cannot open'' @ [10]) [astr f]])
               else
                 (let path = joined 768 dir (base_name f)
                  in diff_files T (c_opt cmd) (if da then path else pa) (if da then pb else path) (c_ctx cmd) (c_quiet cmd)))
         else diff_files T (c_opt cmd) pa pb (c_ctx cmd) (c_quiet cmd))"

definition usage :: "int \<Rightarrow> print_call list" where
  "usage d = map (\<lambda>s. (d, cs s @ [10], []))
     [''usage: diff [-u] [-q] [-i] [-w] [-U n] a b'',
      ''       diff -r [...] dir1 dir2'',
      ''  -u  unified, three lines of context (the default)'',
      ''  -q  only say whether they differ'',
      ''  -r  walk two directory trees'',
      ''  -i  ignore case      -w  ignore whitespace'',
      ''  -U  n lines of context instead of three'',
      ''  status: 0 the same, 1 different, 2 trouble'']"

definition diff_main :: "tree \<Rightarrow> cstring list \<Rightarrow> (int \<times> print_call list) option" where
  "diff_main T argv = do {
     r \<leftarrow> arguments argv \<lparr>c_opt = \<lparr>icase = False, iwhite = False\<rparr>, c_ctx = 3, c_quiet = False, c_recurse = False,
                          c_rest = False, c_pa = None, c_pb = None\<rparr>;
     Some (case r of
         Help \<Rightarrow> (0, usage STDOUT_FILENO)
       | Refused calls \<Rightarrow> (2, calls)
       | Go cmd _ \<Rightarrow>
           (case (c_pa cmd, c_pb cmd) of
              (Some pa, Some pb) \<Rightarrow> compare_paths T cmd pa pb
            | _ \<Rightarrow> (2, usage 2)))
   }"

end
