(* ===== verification/DiffMyers.thy ===== *)
theory DiffMyers
  imports LpDiff
begin

text \<open>
  Myers' walk of \<open>diff.c\<close>: the corner is reached after the least number of lines removed or added, and
  the blocks gathered on the way back are an edit of that many lines.
\<close>

section \<open>The edit graph\<close>

text \<open>
  \<open>reach E n m d x y\<close>: \<open>x\<close> lines of one side and \<open>y\<close> of the other are accounted for by \<open>d\<close> lines removed
  or added, and pairs of equal lines.
\<close>

inductive reach :: "(int \<Rightarrow> int \<Rightarrow> bool) \<Rightarrow> int \<Rightarrow> int \<Rightarrow> nat \<Rightarrow> int \<Rightarrow> int \<Rightarrow> bool" for E n m where
  start: "reach E n m 0 0 0"
| pair: "reach E n m d x y \<Longrightarrow> x < n \<Longrightarrow> y < m \<Longrightarrow> E x y \<Longrightarrow> reach E n m d (x + 1) (y + 1)"
| removed: "reach E n m d x y \<Longrightarrow> reach E n m (Suc d) (x + 1) y"
| added: "reach E n m d x y \<Longrightarrow> reach E n m (Suc d) x (y + 1)"

lemma reach_bounds: "reach E n m d x y \<Longrightarrow> 0 \<le> x \<and> 0 \<le> y \<and> \<bar>x - y\<bar> \<le> int d \<and> even (x - y - int d)"
  by (induction rule: reach.induct) (auto simp: even_diff)

text \<open>A path that leaves the files comes from a shorter one inside.\<close>

lemma reach_inside:
  assumes "reach E n m d x y" "0 \<le> n" "0 \<le> m"
  shows "\<exists>e. reach E n m e (min x n) (min y m) \<and> int e + max 0 (x - n) + max 0 (y - m) \<le> int d"
  using assms(1)
proof (induction rule: reach.induct)
  case start
  then show ?case using assms(2,3) reach.start by (intro exI [of _ 0]) auto
next
  case (pair d x y)
  then obtain e where "reach E n m e (min x n) (min y m)" "int e \<le> int d" by auto
  then show ?case using pair reach.pair [of E n m e x y] by (intro exI [of _ e]) (simp add: min_def)
next
  case (removed d x y)
  then obtain e where e: "reach E n m e (min x n) (min y m)" "int e + max 0 (x - n) + max 0 (y - m) \<le> int d" by auto
  show ?case
  proof (cases "x < n")
    case True
    then show ?thesis using e reach.removed [OF e(1)] by (intro exI [of _ "Suc e"]) (auto simp: min_def max_def)
  next
    case False
    then have "min (x + 1) n = min x n" "max 0 (x + 1 - n) = max 0 (x - n) + 1" by simp_all
    then show ?thesis using e by (intro exI [of _ e]) simp
  qed
next
  case (added d x y)
  then obtain e where e: "reach E n m e (min x n) (min y m)" "int e + max 0 (x - n) + max 0 (y - m) \<le> int d" by auto
  show ?case
  proof (cases "y < m")
    case True
    then show ?thesis using e reach.added [OF e(1)] by (intro exI [of _ "Suc e"]) (auto simp: min_def max_def)
  next
    case False
    then have "min (y + 1) m = min y m" "max 0 (y + 1 - m) = max 0 (y - m) + 1" by simp_all
    then show ?thesis using e by (intro exI [of _ e]) simp
  qed
qed

text \<open>Removing everything and adding everything is an edit.\<close>

lemma reach_all: "reach E n m (a + b) (int a) (int b)"
proof (induction b)
  case 0
  show ?case
  proof (induction a)
    case (Suc a)
    then show ?case using reach.removed [of E n m a "int a" 0] by (simp add: add.commute)
  qed (simp add: reach.start)
next
  case (Suc b)
  then show ?case using reach.added [of E n m "a + b" "int a" "int b"] by (simp add: add.commute)
qed

section \<open>Runs of equal lines\<close>

definition slide :: "(int \<Rightarrow> int \<Rightarrow> bool) \<Rightarrow> int \<Rightarrow> int \<Rightarrow> int \<Rightarrow> int \<Rightarrow> int \<Rightarrow> int \<Rightarrow> bool" where
  "slide E n m x y x' y' \<longleftrightarrow> x \<le> x' \<and> x' - x = y' - y \<and> (\<forall>t. 0 \<le> t \<and> t < x' - x \<longrightarrow> x + t < n \<and> y + t < m \<and> E (x + t) (y + t))"

lemma slide_refl: "slide E n m x y x y"
  by (auto simp: slide_def)

lemma slide_step:
  assumes "slide E n m (x + 1) (y + 1) x' y'" "x < n" "y < m" "E x y"
  shows "slide E n m x y x' y'"
proof -
  have "x + t < n \<and> y + t < m \<and> E (x + t) (y + t)" if "0 \<le> t" "t < x' - x" for t
  proof (cases "t = 0")
    case False
    then have "0 \<le> t - 1 \<and> t - 1 < x' - (x + 1)" using that by simp
    then have "x + 1 + (t - 1) < n \<and> y + 1 + (t - 1) < m \<and> E (x + 1 + (t - 1)) (y + 1 + (t - 1))"
      using assms(1) unfolding slide_def by blast
    then show ?thesis by simp
  qed (use assms in simp)
  then show ?thesis using assms(1) by (auto simp: slide_def)
qed

lemma slide_snoc:
  assumes "slide E n m x y x' y'" "x' < n" "y' < m" "E x' y'"
  shows "slide E n m x y (x' + 1) (y' + 1)"
proof -
  have "x + t < n \<and> y + t < m \<and> E (x + t) (y + t)" if "0 \<le> t" "t < x' + 1 - x" for t
  proof (cases "t = x' - x")
    case True
    moreover have "x' - x = y' - y" using assms(1) by (simp add: slide_def)
    ultimately have "x + t = x'" "y + t = y'" by simp_all
    then show ?thesis using assms(2-4) by (simp only:)
  next
    case False
    then have "0 \<le> t \<and> t < x' - x" using that by simp
    then show ?thesis using assms(1) unfolding slide_def by blast
  qed
  then show ?thesis using assms(1) by (auto simp: slide_def)
qed

lemma snake_slide: "snake E n m x y = (x', y') \<Longrightarrow> slide E n m x y x' y' \<and> \<not> (x' < n \<and> y' < m \<and> E x' y')"
proof (induction E n m x y rule: snake.induct)
  case (1 E n m x y)
  show ?case
  proof (cases "x < n \<and> y < m \<and> E x y")
    case True
    then have "snake E n m (x + 1) (y + 1) = (x', y')" using 1(2) by (simp add: snake.simps [of E n m x y])
    then show ?thesis using 1(1) [OF True] slide_step True by blast
  next
    case False
    then have "(x, y) = (x', y')" using 1(2) by (simp only: snake.simps [of E n m x y] if_False)
    then show ?thesis using False slide_refl by auto
  qed
qed

lemma reach_slide: "slide E n m x y x' y' \<Longrightarrow> reach E n m d x y \<Longrightarrow> reach E n m d x' y'"
proof (induction "nat (x' - x)" arbitrary: x y)
  case 0
  then show ?case by (auto simp: slide_def)
next
  case (Suc k)
  have "(0::int) \<le> 0 \<and> 0 < x' - x" using Suc.hyps(2) by simp
  then have "x + 0 < n \<and> y + 0 < m \<and> E (x + 0) (y + 0)" using Suc.prems(1) unfolding slide_def by blast
  then have z: "x < n \<and> y < m \<and> E x y" by simp
  have "slide E n m (x + 1) (y + 1) x' y'"
  proof -
    have "x + 1 + t < n \<and> y + 1 + t < m \<and> E (x + 1 + t) (y + 1 + t)" if "0 \<le> t" "t < x' - (x + 1)" for t
    proof -
      have "0 \<le> 1 + t \<and> 1 + t < x' - x" using that by simp
      then have "x + (1 + t) < n \<and> y + (1 + t) < m \<and> E (x + (1 + t)) (y + (1 + t))" using Suc.prems(1) unfolding slide_def by blast
      then show ?thesis by (simp add: add.assoc)
    qed
    then show ?thesis using Suc by (auto simp: slide_def)
  qed
  moreover have "k = nat (x' - (x + 1))" using Suc.hyps(2) by simp
  ultimately show ?case using Suc.hyps(1) reach.pair [OF Suc.prems(2)] z by blast
qed

text \<open>The last line removed or added on the way to a point.\<close>

lemma reach_last:
  assumes "reach E n m d x y"
  shows "(d = 0 \<longrightarrow> slide E n m 0 0 x y) \<and>
    (\<forall>e. d = Suc e \<longrightarrow> (\<exists>x0 y0. slide E n m x0 y0 x y \<and> (reach E n m e (x0 - 1) y0 \<or> reach E n m e x0 (y0 - 1))))"
  using assms
proof (induction rule: reach.induct)
  case (pair d x y)
  then show ?case using slide_snoc by blast
next
  case (removed d x y)
  then have "slide E n m (x + 1) y (x + 1) y \<and> reach E n m d (x + 1 - 1) y" using slide_refl by simp
  then show ?case by blast
next
  case (added d x y)
  then have "slide E n m x (y + 1) x (y + 1) \<and> reach E n m d x (y + 1 - 1)" using slide_refl by simp
  then show ?case by blast
qed (simp add: slide_refl)

text \<open>A run of equal lines on the same diagonal that starts further ends no earlier.\<close>

lemma snake_furthest:
  assumes "slide E n m x0 y0 x y" "x0 \<le> s" "s - t = x0 - y0" "snake E n m s t = (x', y')"
  shows "x \<le> x'"
proof (rule ccontr)
  assume "\<not> x \<le> x'"
  moreover note s = snake_slide [OF assms(4)]
  ultimately have "0 \<le> x' - x0 \<and> x' - x0 < x - x0" using assms(2) by (auto simp: slide_def)
  then have "x0 + (x' - x0) < n \<and> y0 + (x' - x0) < m \<and> E (x0 + (x' - x0)) (y0 + (x' - x0))"
    using assms(1) unfolding slide_def by blast
  moreover have "y0 + (x' - x0) = y'" using s assms(3) by (simp add: slide_def)
  ultimately show False using s by simp
qed

section \<open>The furthest points\<close>

definition on_diagonal :: "int \<Rightarrow> int \<Rightarrow> bool" where
  "on_diagonal d k \<longleftrightarrow> \<bar>k\<bar> \<le> d \<and> even (k - d)"

definition furthest :: "(int \<Rightarrow> int \<Rightarrow> bool) \<Rightarrow> int \<Rightarrow> int \<Rightarrow> nat \<Rightarrow> (int \<Rightarrow> int) \<Rightarrow> bool" where
  "furthest E n m d v \<longleftrightarrow>
     (\<forall>k. on_diagonal (int d) k \<longrightarrow> reach E n m d (v k) (v k - k) \<and> (\<forall>x. reach E n m d x (x - k) \<longrightarrow> x \<le> v k))"

definition next_x :: "(int \<Rightarrow> int \<Rightarrow> bool) \<Rightarrow> int \<Rightarrow> int \<Rightarrow> int \<Rightarrow> (int \<Rightarrow> int) \<Rightarrow> int \<Rightarrow> int" where
  "next_x E n m d v k = fst (snake E n m (step_x v d k) (step_x v d k - k))"

lemma next_x_snake: "snake E n m (step_x v d k) (step_x v d k - k) = (next_x E n m d v k, next_x E n m d v k - k)"
proof -
  obtain x' y' where s: "snake E n m (step_x v d k) (step_x v d k - k) = (x', y')" by fastforce
  then have "y' = x' - k" using snake_slide [OF s] by (simp add: slide_def)
  then show ?thesis using s by (simp add: next_x_def)
qed

lemma next_x_slide: "slide E n m (step_x v d k) (step_x v d k - k) (next_x E n m d v k) (next_x E n m d v k - k)"
  using snake_slide [OF next_x_snake] by blast

text \<open>The neighbours of a diagonal.\<close>

lemma step_x_neighbour:
  assumes "on_diagonal (int (Suc d)) k"
  shows "on_diagonal (int d) (k + 1) \<and> step_x v (int (Suc d)) k = v (k + 1) \<or>
    on_diagonal (int d) (k - 1) \<and> step_x v (int (Suc d)) k = v (k - 1) + 1"
proof -
  consider "k = - int (Suc d)" | "k = int (Suc d)" | "\<bar>k\<bar> < int (Suc d)" using assms unfolding on_diagonal_def by linarith
  then show ?thesis
  proof cases
    case 3
    moreover have "\<bar>k\<bar> \<noteq> int d"
    proof
      assume "\<bar>k\<bar> = int d"
      then have "even \<bar>k\<bar> = even (int d)" by simp
      then show False using assms by (simp add: on_diagonal_def)
    qed
    ultimately show ?thesis using assms by (auto simp: on_diagonal_def step_x_def)
  qed (use assms in \<open>auto simp: on_diagonal_def step_x_def\<close>)
qed

lemma step_x_most:
  assumes "on_diagonal (int (Suc d)) k"
  shows "(on_diagonal (int d) (k + 1) \<longrightarrow> v (k + 1) \<le> step_x v (int (Suc d)) k) \<and>
    (on_diagonal (int d) (k - 1) \<longrightarrow> v (k - 1) + 1 \<le> step_x v (int (Suc d)) k)"
  using assms by (auto simp: on_diagonal_def step_x_def)

lemma furthest_Suc:
  assumes "furthest E n m d v" "\<And>k. on_diagonal (int (Suc d)) k \<Longrightarrow> w k = next_x E n m (int (Suc d)) v k"
  shows "furthest E n m (Suc d) w"
  unfolding furthest_def
proof (intro allI impI conjI)
  fix k
  assume k: "on_diagonal (int (Suc d)) k"
  let ?s = "step_x v (int (Suc d)) k"
  have "reach E n m (Suc d) ?s (?s - k)"
    using step_x_neighbour [OF k, of v]
  proof (elim disjE conjE)
    assume a: "on_diagonal (int d) (k + 1)" "?s = v (k + 1)"
    then have "reach E n m d ?s (?s - (k + 1))" using assms(1) by (simp add: furthest_def)
    then show ?thesis using reach.added [of E n m d ?s "?s - (k + 1)"] by simp
  next
    assume a: "on_diagonal (int d) (k - 1)" "?s = v (k - 1) + 1"
    then have "reach E n m d (?s - 1) (?s - 1 - (k - 1))" using assms(1) by (simp add: furthest_def)
    then show ?thesis using reach.removed [of E n m d "?s - 1" "?s - 1 - (k - 1)"] by simp
  qed
  then show "reach E n m (Suc d) (w k) (w k - k)" unfolding assms(2) [OF k] by (rule reach_slide [OF next_x_slide])
  fix x
  assume x: "reach E n m (Suc d) x (x - k)"
  then obtain x0 y0 where p: "slide E n m x0 y0 x (x - k)" "reach E n m d (x0 - 1) y0 \<or> reach E n m d x0 (y0 - 1)"
    using reach_last by blast
  have d: "x0 - y0 = k" using p(1) by (simp add: slide_def)
  have "x0 \<le> ?s"
    using p(2)
  proof
    assume a: "reach E n m d (x0 - 1) y0"
    have "x0 - 1 - y0 = k - 1" using d by simp
    then have "on_diagonal (int d) (k - 1)" using reach_bounds [OF a] unfolding on_diagonal_def by metis
    moreover have "reach E n m d (x0 - 1) (x0 - 1 - (k - 1))" using a d by (simp add: algebra_simps)
    ultimately have "x0 - 1 \<le> v (k - 1)" using assms(1) unfolding furthest_def by blast
    then show ?thesis using step_x_most [OF k, of v] \<open>on_diagonal (int d) (k - 1)\<close> by simp
  next
    assume a: "reach E n m d x0 (y0 - 1)"
    have "x0 - (y0 - 1) = k + 1" using d by simp
    then have "on_diagonal (int d) (k + 1)" using reach_bounds [OF a] unfolding on_diagonal_def by metis
    moreover have "reach E n m d x0 (x0 - (k + 1))" using a d by (simp add: algebra_simps)
    ultimately have "x0 \<le> v (k + 1)" using assms(1) unfolding furthest_def by blast
    then show ?thesis using step_x_most [OF k, of v] \<open>on_diagonal (int d) (k + 1)\<close> by simp
  qed
  then show "x \<le> w k" unfolding assms(2) [OF k] using snake_furthest [OF p(1) _ _ next_x_snake] d by simp
qed

lemma furthest_0:
  assumes "v 1 = 0" "w 0 = next_x E n m 0 v 0"
  shows "furthest E n m 0 w"
  unfolding furthest_def
proof (intro allI impI conjI)
  fix k
  assume "on_diagonal (int 0) k"
  then have k: "k = 0" by (simp add: on_diagonal_def)
  have s: "step_x v 0 0 = 0" using assms(1) by (simp add: step_x_def)
  show "reach E n m 0 (w k) (w k - k)"
    using reach_slide [OF next_x_slide [of E n m v 0 0]] s k assms(2) reach.start by simp
  fix x
  assume "reach E n m 0 x (x - k)"
  then have "slide E n m 0 0 x (x - k)" using reach_last by blast
  then show "x \<le> w k" using snake_furthest [OF _ _ _ next_x_snake [of E n m v 0 0]] s k assms(2) by simp
qed

text \<open>One round of the loop over the diagonals.\<close>

lemma diagonals_correct:
  assumes "diagonals E n m d k v = (r, w)" "\<And>j. odd (j - k) \<Longrightarrow> v j = v0 j"
  shows "if r then \<exists>j. k \<le> j \<and> j \<le> d \<and> even (j - k) \<and> next_x E n m d v0 j \<ge> n \<and> next_x E n m d v0 j - j \<ge> m
    else (\<forall>j. w j = (if k \<le> j \<and> j \<le> d \<and> even (j - k) then next_x E n m d v0 j else v j)) \<and>
      (\<forall>j. k \<le> j \<and> j \<le> d \<and> even (j - k) \<longrightarrow> \<not> (next_x E n m d v0 j \<ge> n \<and> next_x E n m d v0 j - j \<ge> m))"
  using assms
proof (induction E n m d k v rule: diagonals.induct)
  case (1 E n m d k v)
  show ?case
  proof (cases "k > d")
    case True
    then have "(False, v) = (r, w)" using 1(2) by (simp add: diagonals.simps [of E n m d k v])
    then show ?thesis using True by auto
  next
    case False
    have sx: "step_x v d k = step_x v0 d k" using 1(3) by (simp add: step_x_def)
    let ?x = "next_x E n m d v0 k"
    have sn: "snake E n m (step_x v d k) (step_x v d k - k) = (?x, ?x - k)" unfolding sx by (rule next_x_snake)
    have e: "diagonals E n m d k v = (if ?x \<ge> n \<and> ?x - k \<ge> m then (True, v(k := ?x)) else diagonals E n m d (k + 2) (v(k := ?x)))"
      using False by (simp add: diagonals.simps [of E n m d k v] sn Let_def)
    show ?thesis
    proof (cases "?x \<ge> n \<and> ?x - k \<ge> m")
      case True
      then show ?thesis using e 1(2) False by auto
    next
      case hit: False
      have r: "diagonals E n m d (k + 2) (v(k := ?x)) = (r, w)" using e hit 1(2) by simp
      have o: "odd (j - (k + 2)) \<Longrightarrow> (v(k := ?x)) j = v0 j" for j using 1(3) [of j] by auto
      have s: "k \<le> j \<and> j \<le> d \<and> even (j - k) \<longleftrightarrow> j = k \<or> k + 2 \<le> j \<and> j \<le> d \<and> even (j - (k + 2))" for j
        using False by auto presburger+
      note ih = 1(1) [OF False refl sn [symmetric] refl refl hit r o]
      show ?thesis
      proof (cases r)
        case True
        then show ?thesis using ih s by (auto simp only: if_True)
      next
        case rf: False
        then show ?thesis using ih hit unfolding s by auto
      qed
    qed
  qed
qed

section \<open>The walk\<close>

definition arrived :: "(int \<Rightarrow> int \<Rightarrow> bool) \<Rightarrow> int \<Rightarrow> int \<Rightarrow> (int \<Rightarrow> int) list \<Rightarrow> nat \<Rightarrow> int \<Rightarrow> int \<Rightarrow> bool" where
  "arrived E n m rows d x y = (case d of
       0 \<Rightarrow> slide E n m 0 0 x y
     | Suc e \<Rightarrow>
         (let k = x - y; pk = prev_diagonal (rows ! e) (int (Suc e)) k; px = (rows ! e) (pk + int e);
              s = (if pk = k - 1 then px + 1 else px)
          in on_diagonal (int (Suc e)) k \<and> slide E n m s (s - k) x y))"

lemma neighbours:
  assumes "on_diagonal (int (Suc e)) k"
  shows "k \<noteq> int (Suc e) \<Longrightarrow> on_diagonal (int e) (k + 1)" "k \<noteq> - int (Suc e) \<Longrightarrow> on_diagonal (int e) (k - 1)"
proof -
  have ne: "k \<noteq> int e" "k \<noteq> - int e" using assms by (auto simp: on_diagonal_def)
  have pa: "even (k + 1 - int e)" "even (k - 1 - int e)" using assms by (auto simp: on_diagonal_def)
  show "k \<noteq> int (Suc e) \<Longrightarrow> on_diagonal (int e) (k + 1)" "k \<noteq> - int (Suc e) \<Longrightarrow> on_diagonal (int e) (k - 1)"
    using assms ne pa unfolding on_diagonal_def by linarith+
qed

lemma prev_diagonal_range:
  assumes "on_diagonal (int (Suc e)) k"
  shows "on_diagonal (int e) (prev_diagonal row (int (Suc e)) k)"
    "prev_diagonal row (int (Suc e)) k = k - 1 \<or> prev_diagonal row (int (Suc e)) k = k + 1"
  using neighbours [OF assms] by (auto simp: prev_diagonal_def)

lemma prev_diagonal_step:
  assumes "on_diagonal (int (Suc e)) k" "pk = prev_diagonal (keep_row (int e) v) (int (Suc e)) k"
  shows "on_diagonal (int e) pk" "pk = k - 1 \<or> pk = k + 1" "keep_row (int e) v (pk + int e) = v pk"
    "step_x v (int (Suc e)) k = (if pk = k - 1 then v pk + 1 else v pk)"
proof -
  have kept: "keep_row (int e) v (j + int e) = v j" if "on_diagonal (int e) j" for j
    using that by (auto simp: keep_row_def on_diagonal_def)
  note nb = neighbours(1) [OF assms(1)] and nb' = neighbours(2) [OF assms(1)]
  have p: "pk = (if k = - int (Suc e) \<or> (k \<noteq> int (Suc e) \<and> v (k - 1) < v (k + 1)) then k + 1 else k - 1)"
  proof (cases "k = - int (Suc e) \<or> k = int (Suc e)")
    case False
    then have "keep_row (int e) v (k - 1 + (int (Suc e) - 1)) = v (k - 1)" "keep_row (int e) v (k + 1 + (int (Suc e) - 1)) = v (k + 1)"
      using kept [OF nb] kept [OF nb'] by simp_all
    then show ?thesis using False unfolding assms(2) prev_diagonal_def by metis
  next
    case True
    then show ?thesis unfolding assms(2) prev_diagonal_def by auto
  qed
  show d: "on_diagonal (int e) pk" unfolding p using nb nb' by auto
  show "pk = k - 1 \<or> pk = k + 1" using p by auto
  show "keep_row (int e) v (pk + int e) = v pk" by (rule kept [OF d])
  show "step_x v (int (Suc e)) k = (if pk = k - 1 then v pk + 1 else v pk)" using p by (auto simp: step_x_def)
qed

lemma arrived_next_x:
  assumes "on_diagonal (int (Suc e)) k" "rows ! e = keep_row (int e) v"
  shows "arrived E n m rows (Suc e) (next_x E n m (int (Suc e)) v k) (next_x E n m (int (Suc e)) v k - k)"
proof -
  define pk where "pk = prev_diagonal (keep_row (int e) v) (int (Suc e)) k"
  note p = prev_diagonal_step [OF assms(1) pk_def]
  have k: "x - (x - k) = k" for x by simp
  show ?thesis using next_x_slide [of E n m v "int (Suc e)" k] assms(1)
    unfolding arrived_def nat.case Let_def k assms(2) pk_def [symmetric] p(3,4) by blast
qed

definition rows_good :: "(int \<Rightarrow> int \<Rightarrow> bool) \<Rightarrow> int \<Rightarrow> int \<Rightarrow> (int \<Rightarrow> int) list \<Rightarrow> bool" where
  "rows_good E n m rows \<longleftrightarrow>
     (\<forall>i < length rows. \<forall>k. on_diagonal (int i) k \<longrightarrow> arrived E n m rows i ((rows ! i) (k + int i)) ((rows ! i) (k + int i) - k))"

definition so_far :: "(int \<Rightarrow> int \<Rightarrow> bool) \<Rightarrow> int \<Rightarrow> int \<Rightarrow> nat \<Rightarrow> (int \<Rightarrow> int) \<Rightarrow> (int \<Rightarrow> int) list \<Rightarrow> bool" where
  "so_far E n m e v rows \<longleftrightarrow> length rows = e \<and> rows_good E n m rows \<and> (\<forall>i < e. \<not> reach E n m i n m) \<and>
     (case e of 0 \<Rightarrow> v 1 = 0 | Suc e' \<Rightarrow> furthest E n m e' v \<and> rows ! e' = keep_row (int e') v)"

lemma arrived_append: "i \<le> length rows \<Longrightarrow> arrived E n m (rows @ rs) i x y = arrived E n m rows i x y"
  by (auto simp: arrived_def nth_append split: nat.split)

lemma so_far_round:
  assumes "so_far E n m e v rows" "diagonals E n m (int e) (- int e) v = (r, w)" "0 \<le> n" "0 \<le> m"
  shows "if r then reach E n m e n m \<and> arrived E n m rows e n m
    else so_far E n m (Suc e) w (rows @ [keep_row (int e) w])"
proof -
  let ?f = "\<lambda>k. next_x E n m (int e) v k"
  have od: "on_diagonal (int e) k \<longleftrightarrow> - int e \<le> k \<and> k \<le> int e \<and> even (k - - int e)" for k by (auto simp: on_diagonal_def)
  have far: "furthest E n m e u" if "\<And>k. on_diagonal (int e) k \<Longrightarrow> u k = ?f k" for u
  proof (cases e)
    case 0
    then show ?thesis using furthest_0 [of v u] that [of 0] assms(1) by (simp add: so_far_def on_diagonal_def)
  next
    case (Suc e')
    then show ?thesis using furthest_Suc [of E n m e' v u] that assms(1) by (simp add: so_far_def)
  qed
  have arr: "arrived E n m rows e (?f k) (?f k - k)" if k: "on_diagonal (int e) k" for k
  proof (cases e)
    case 0
    then have "k = 0" "step_x v 0 0 = 0" using k assms(1) by (auto simp: on_diagonal_def step_x_def so_far_def)
    then show ?thesis using 0 next_x_slide [of E n m v 0 0] by (simp add: arrived_def)
  next
    case (Suc e')
    then show ?thesis using arrived_next_x k assms(1) by (simp add: so_far_def del: of_nat_Suc)
  qed
  have no: "\<not> reach E n m i n m" if "i < e" for i using that assms(1) by (simp add: so_far_def)
  note dc = diagonals_correct [OF assms(2) refl]
  show ?thesis
  proof (cases r)
    case True
    then obtain j where j: "on_diagonal (int e) j" "?f j \<ge> n" "?f j - j \<ge> m" using dc od by (auto simp only: if_True)
    have "reach E n m e (?f j) (?f j - j)" using far [of ?f] j(1) by (simp add: furthest_def)
    then obtain e' where e': "reach E n m e' (min (?f j) n) (min (?f j - j) m)"
        "int e' + max 0 (?f j - n) + max 0 (?f j - j - m) \<le> int e"
      using reach_inside [OF _ assms(3,4)] by blast
    have mn: "min (?f j) n = n" "min (?f j - j) m = m" using j by simp_all
    then have "\<not> e' < e" using e'(1) no by auto
    then have eq: "e' = e \<and> ?f j = n \<and> ?f j - j = m" using e'(2) j(2,3) by linarith
    then have "reach E n m e n m" using e'(1) [unfolded mn] by blast
    moreover have "arrived E n m rows e n m" using arr [OF j(1)] eq by metis
    ultimately show ?thesis using True by simp
  next
    case False
    then have w: "w k = ?f k" "\<not> (?f k \<ge> n \<and> ?f k - k \<ge> m)" if "on_diagonal (int e) k" for k
      using dc that od by (auto simp only: if_False if_True simp_thms)
    have "\<not> reach E n m e n m"
    proof
      assume rn: "reach E n m e n m"
      then have d: "on_diagonal (int e) (n - m)" using reach_bounds [OF rn] by (simp add: on_diagonal_def)
      moreover have "reach E n m e n (n - (n - m))" using rn by simp
      ultimately have "n \<le> ?f (n - m)" using far [of ?f] unfolding furthest_def by blast
      then show False using w(2) [OF d] by simp
    qed
    then have nn: "\<forall>i < Suc e. \<not> reach E n m i n m" using no by (auto simp: less_Suc_eq)
    have len: "length rows = e" using assms(1) by (simp add: so_far_def)
    have "rows_good E n m (rows @ [keep_row (int e) w])"
      unfolding rows_good_def
    proof (intro allI impI)
      fix i k
      assume i: "i < length (rows @ [keep_row (int e) w])" and k: "on_diagonal (int i) k"
      have g: "rows_good E n m rows" using assms(1) by (simp add: so_far_def)
      show "arrived E n m (rows @ [keep_row (int e) w]) i (((rows @ [keep_row (int e) w]) ! i) (k + int i))
          (((rows @ [keep_row (int e) w]) ! i) (k + int i) - k)"
      proof (cases "i < e")
        case True
        then show ?thesis using g k len arrived_append [of i rows] by (simp add: rows_good_def nth_append)
      next
        case False
        then have ie: "i = e" using i len by simp
        have "keep_row (int e) w (k + int e) = ?f k" using w(1) [of k] k ie by (auto simp: keep_row_def on_diagonal_def)
        then show ?thesis using ie arr [of k] k len arrived_append [of e rows] by (simp add: nth_append)
      qed
    qed
    then show ?thesis using False nn far [of w] w(1) len by (simp add: so_far_def nth_append)
  qed
qed

lemma d_loop_correct:
  assumes "d_loop E n m alloc maxd d v rows = res" "d = int e" "so_far E n m e v rows" "0 \<le> n" "0 \<le> m"
  shows "case res of
      Corner d rs \<Rightarrow> d \<le> maxd \<and> (\<exists>e. d = int e \<and> length rs = e \<and> rows_good E n m rs \<and> arrived E n m rs e n m \<and>
        reach E n m e n m \<and> (\<forall>i < e. \<not> reach E n m i n m))
    | Beyond \<Rightarrow> \<forall>i. int i \<le> maxd \<longrightarrow> \<not> reach E n m i n m
    | Starved \<Rightarrow> \<exists>i. int i \<le> maxd \<and> \<not> alloc (nat (2 * int i + 1) * 4)"
  using assms
proof (induction E n m alloc maxd d v rows arbitrary: e rule: d_loop.induct)
  case (1 E n m alloc maxd d v rows)
  obtain r w where rw: "diagonals E n m d (- d) v = (r, w)" by fastforce
  note round = so_far_round [OF 1(4) rw [unfolded 1(3)] 1(5,6)]
  show ?case
  proof (cases "d > maxd")
    case True
    then have "res = Beyond" using 1(2) by (simp add: d_loop.simps [of E n m alloc maxd d v rows])
    moreover have "\<not> reach E n m i n m" if "int i \<le> maxd" for i using that True 1(3,4) by (simp add: so_far_def)
    ultimately show ?thesis by simp
  next
    case False
    note u = 1(2) [unfolded d_loop.simps [of E n m alloc maxd d v rows] rw Let_def prod.case]
    consider (corner) r | (starved) "\<not> r" "\<not> alloc (nat (2 * d + 1) * 4)" | (go) "\<not> r" "alloc (nat (2 * d + 1) * 4)" by blast
    then show ?thesis
    proof cases
      case corner
      then have "res = Corner d rows" using u False by simp
      then show ?thesis using corner round False 1(3,4) by (auto simp: so_far_def)
    next
      case starved
      then have "res = Starved" using u False by simp
      then show ?thesis using starved False 1(3) by (auto intro!: exI [of _ e])
    next
      case go
      then have "d_loop E n m alloc maxd (d + 1) w (rows @ [keep_row d w]) = res" using u False by simp
      moreover have "so_far E n m (Suc e) w (rows @ [keep_row d w])" using round go 1(3) by simp
      ultimately show ?thesis using 1(1) [OF False rw [symmetric] refl go(1), of "Suc e"] go(2) 1(3,5,6) by simp
    qed
  qed
qed

section \<open>The way back\<close>

text \<open>
  An edit from line \<open>x\<close> of one file and \<open>y\<close> of the other to \<open>x'\<close> and \<open>y'\<close>: before, between and after
  its blocks the lines are equal.
\<close>

definition run :: "(int \<Rightarrow> int \<Rightarrow> bool) \<Rightarrow> int \<Rightarrow> int \<Rightarrow> int \<Rightarrow> int \<Rightarrow> bool" where
  "run E x y x' y' \<longleftrightarrow> x \<le> x' \<and> x' - x = y' - y \<and> (\<forall>t. 0 \<le> t \<and> t < x' - x \<longrightarrow> E (x + t) (y + t))"

fun script :: "(int \<Rightarrow> int \<Rightarrow> bool) \<Rightarrow> int \<Rightarrow> int \<Rightarrow> block_t list \<Rightarrow> int \<Rightarrow> int \<Rightarrow> bool" where
  "script E x y [] x' y' = run E x y x' y'"
| "script E x y (b # bs) x' y' \<longleftrightarrow> run E x y (a0 b) (b0 b) \<and> 0 \<le> alen b \<and> 0 \<le> blen b \<and> 0 < alen b + blen b \<and>
     script E (a0 b + alen b) (b0 b + blen b) bs x' y'"

definition cost :: "block_t list \<Rightarrow> int" where
  "cost bs = sum_list (map (\<lambda>b. alen b + blen b) bs)"

lemma run_refl: "run E x y x y"
  by (auto simp: run_def)

lemma run_trans:
  assumes "run E x y x' y'" "run E x' y' x'' y''"
  shows "run E x y x'' y''"
proof -
  have "E (x + t) (y + t)" if "0 \<le> t" "t < x'' - x" for t
  proof (cases "t < x' - x")
    case True
    then show ?thesis using assms(1) that by (simp add: run_def)
  next
    case False
    then have "0 \<le> t - (x' - x) \<and> t - (x' - x) < x'' - x'" using that by simp
    then have "E (x' + (t - (x' - x))) (y' + (t - (x' - x)))" using assms(2) unfolding run_def by blast
    moreover have "x' + (t - (x' - x)) = x + t" "y' + (t - (x' - x)) = y + t" using assms(1) by (simp_all add: run_def)
    ultimately show ?thesis by simp
  qed
  then show ?thesis using assms by (simp add: run_def)
qed

lemma script_run: "run E x y x' y' \<Longrightarrow> script E x' y' bs u w \<Longrightarrow> script E x y bs u w"
  by (cases bs) (auto intro: run_trans)

lemma script_append_run: "script E x y bs u w \<Longrightarrow> run E u w u' w' \<Longrightarrow> script E x y bs u' w'"
  by (induction E x y bs u w rule: script.induct) (auto intro: run_trans)

lemma slide_run: "slide (\<lambda>x y. E (alo + x) (blo + y)) n m x y x' y' \<Longrightarrow> run E (alo + x) (blo + y) (alo + x') (blo + y')"
  by (auto simp: slide_def run_def add.assoc)

lemma walk_back_script:
  assumes "rows_good F n m rows" "F = (\<lambda>x y. E (alo + x) (blo + y))" "d \<le> length rows" "arrived F n m rows d x y"
    "case cur of None \<Rightarrow> script E (alo + x) (blo + y) acc u w
       | Some b \<Rightarrow> a0 b = alo + x \<and> b0 b = blo + y \<and> script E (alo + x) (blo + y) (b # acc) u w"
  shows "script E alo blo (walk_back alo blo rows d x y cur acc) u w \<and>
    cost (walk_back alo blo rows d x y cur acc) = int d + cost (case cur of None \<Rightarrow> acc | Some b \<Rightarrow> b # acc)"
  using assms(3-5)
proof (induction d arbitrary: x y cur acc)
  case 0
  have "run E alo blo (alo + x) (blo + y)" using 0(2) slide_run [of E alo blo n m 0 0 x y] assms(2) by (simp add: arrived_def)
  then show ?case using 0(3) script_run [of E alo blo "alo + x" "blo + y"] by (auto split: option.splits simp del: script.simps)
next
  case (Suc d)
  define k pk px rem where "k = x - y" and "pk = prev_diagonal (rows ! d) (int (Suc d)) k" and "px = (rows ! d) (pk + int d)"
    and "rem \<longleftrightarrow> pk = k - 1"
  define sx sy py where "sx = px + (if rem then 1 else 0)" and "sy = sx - k" and "py = px - pk"
  have a: "on_diagonal (int (Suc d)) k" "slide F n m sx sy x y"
    using Suc(3) unfolding arrived_def nat.case Let_def k_def [symmetric] pk_def [symmetric] px_def [symmetric] rem_def [symmetric] sx_def sy_def
    by (cases rem; simp)+
  note pd = prev_diagonal_range [OF a(1), of "rows ! d", folded pk_def]
  have sy: "sy = py + (if rem then 0 else 1)" using pd(2) by (auto simp: sy_def py_def sx_def rem_def)
  have arr: "arrived F n m rows d px py" using assms(1) Suc(2) pd(1) by (simp add: rows_good_def px_def py_def)
  have rn: "run E (alo + sx) (blo + sy) (alo + x) (blo + y)" using slide_run [of E alo blo n m sx sy x y] a(2) assms(2) by simp
  define cur' acc' where "cur' = (case cur of None \<Rightarrow> None | Some b \<Rightarrow> if x > sx then None else Some b)"
    and "acc' = (case cur of None \<Rightarrow> acc | Some b \<Rightarrow> if x > sx then b # acc else acc)"
  define b where "b = (let b = (case cur' of None \<Rightarrow> \<lparr>a0 = 0, alen = 0, b0 = 0, blen = 0\<rparr> | Some b \<Rightarrow> b);
      b = (if rem then b\<lparr>alen := alen b + 1\<rparr> else b\<lparr>blen := blen b + 1\<rparr>)
    in b\<lparr>a0 := alo + px, b0 := blo + py\<rparr>)"
  have step: "walk_back alo blo rows (Suc d) x y cur acc = walk_back alo blo rows d px py (Some b) acc'"
    by (simp only: walk_back.simps Let_def k_def [symmetric] pk_def [symmetric] px_def [symmetric] rem_def [symmetric]
        py_def [symmetric] sx_def [symmetric])
      (simp add: b_def cur'_def acc'_def Let_def split: option.split)
  have b: "a0 b = alo + px \<and> b0 b = blo + py \<and> script E (alo + px) (blo + py) (b # acc') u w \<and>
    cost (b # acc') = 1 + cost (case cur of None \<Rightarrow> acc | Some b \<Rightarrow> b # acc)"
  proof (cases cur')
    case None
    have "script E (alo + x) (blo + y) acc' u w \<and> cost acc' = cost (case cur of None \<Rightarrow> acc | Some b \<Rightarrow> b # acc)"
      using Suc(4) None by (auto simp: acc'_def cur'_def split: option.splits if_splits)
    then have "script E (alo + sx) (blo + sy) acc' u w \<and> cost acc' = cost (case cur of None \<Rightarrow> acc | Some b \<Rightarrow> b # acc)"
      using script_run [OF rn] by blast
    then show ?thesis using None sy by (cases rem) (auto simp: b_def Let_def sx_def cost_def run_refl add.assoc)
  next
    case (Some c)
    then have c: "cur = Some c" "acc' = acc" "x = sx" using a(2) by (auto simp: cur'_def acc'_def slide_def split: option.splits if_splits)
    moreover have "y = sy" using a(2) c(3) by (simp add: slide_def)
    ultimately show ?thesis using Suc(4) Some sy by (cases rem) (auto simp: b_def Let_def sx_def cost_def run_refl algebra_simps)
  qed
  show ?case using Suc(1) [where x = px and y = py and cur = "Some b" and acc = acc'] Suc(2) arr b unfolding step by (simp add: ac_simps del: script.simps)
qed

lemma myers_correct:
  assumes "alo \<le> ahi" "blo \<le> bhi"
  shows "case myers E alloc v0 alo ahi blo bhi of (rc, bs) \<Rightarrow>
    (let F = (\<lambda>x y. E (alo + x) (blo + y)); n = ahi - alo; m = bhi - blo in
     (rc = 0 \<and> script E alo blo bs ahi bhi \<and> cost bs \<le> int MAX_D \<and> reach F n m (nat (cost bs)) n m \<and>
        (\<forall>d. reach F n m d n m \<longrightarrow> cost bs \<le> int d)) \<or>
     (rc = 1 \<and> (\<forall>d. reach F n m d n m \<longrightarrow> int MAX_D < int d)) \<or>
     (rc = 2 \<and> (\<exists>i \<le> MAX_D. \<not> alloc (nat (2 * int i + 1) * 4))))"
proof -
  define F n m where "F = (\<lambda>x y. E (alo + x) (blo + y))" and "n = ahi - alo" and "m = bhi - blo"
  define maxd where "maxd = (if n + m > int MAX_D then int MAX_D else n + m)"
  define res where "res = d_loop F n m alloc maxd 0 (v0(1 := 0)) []"
  have nm: "0 \<le> n" "0 \<le> m" using assms by (simp_all add: n_def m_def)
  have "so_far F n m 0 (v0(1 := 0)) []" by (simp add: so_far_def rows_good_def)
  note r = d_loop_correct [OF res_def [symmetric] _ this nm]
  have my: "myers E alloc v0 alo ahi blo bhi =
      (case res of Corner d rows \<Rightarrow> (0, walk_back alo blo rows (nat d) n m None []) | Beyond \<Rightarrow> (1, []) | Starved \<Rightarrow> (2, []))"
    by (simp only: myers_def res_def F_def n_def m_def maxd_def Let_def)
  show ?thesis
  proof (cases res)
    case (Corner d rows)
    then obtain e where e: "d = int e" "d \<le> maxd" "length rows = e" "rows_good F n m rows" "arrived F n m rows e n m"
        "reach F n m e n m" "\<forall>i < e. \<not> reach F n m i n m"
      using r by auto
    have "script E alo blo (walk_back alo blo rows e n m None []) ahi bhi \<and> cost (walk_back alo blo rows e n m None []) = int e"
      using walk_back_script [OF e(4) F_def _ e(5), where cur = None and acc = "[]" and u = ahi and w = bhi] e(3) by (simp add: n_def m_def run_refl cost_def)
    moreover have "e \<le> d'" if "reach F n m d' n m" for d' using e(7) that by (meson not_le)
    ultimately show ?thesis using e Corner my by (auto simp: F_def [symmetric] n_def [symmetric] m_def [symmetric] maxd_def split: if_splits)
  next
    case Beyond
    then have no: "\<not> reach F n m i n m" if "int i \<le> maxd" for i using r that by simp
    have "n + m > int MAX_D"
    proof (rule ccontr)
      assume "\<not> n + m > int MAX_D"
      then have "\<not> reach F n m (nat n + nat m) n m" using no [of "nat n + nat m"] nm by (simp add: maxd_def)
      then show False using reach_all [of F n m "nat n" "nat m"] nm by simp
    qed
    then have "int MAX_D < int d" if "reach F n m d n m" for d using no [of d] that by (cases "d \<le> MAX_D") (auto simp: maxd_def)
    then show ?thesis using Beyond my by (simp add: F_def n_def m_def)
  next
    case Starved
    then obtain i where "int i \<le> maxd" "\<not> alloc (nat (2 * int i + 1) * 4)" using r by auto
    then have "\<exists>i \<le> MAX_D. \<not> alloc (nat (2 * int i + 1) * 4)" by (intro exI [of _ i]) (auto simp: maxd_def split: if_splits)
    then show ?thesis using Starved my by simp
  qed
qed

end
