(* ===== verification/DiffText.thy ===== *)
theory DiffText
  imports LpDiff
begin

text \<open>
  The texts \<open>diff\<close> compares: lines up to letter case and white space, files as the lines they are cut
  into, and the quick comparison of the bytes.
\<close>

section \<open>Lines\<close>

definition plain :: "options \<Rightarrow> u8 list \<Rightarrow> u8 list" where
  "plain opt s = map (fold_case opt) (filter (\<lambda>c. \<not> (iwhite opt \<and> white c)) s)"

lemma plain_simps [simp]:
  "plain opt [] = []"
  "plain opt (c # s) = (if iwhite opt \<and> white c then plain opt s else fold_case opt c # plain opt s)"
  "plain opt (s @ t) = plain opt s @ plain opt t"
  by (simp_all add: plain_def)

lemma fold_case_0 [simp]: "fold_case opt c = 0 \<longleftrightarrow> c = 0"
proof
  assume "fold_case opt c = 0"
  moreover have "c + 32 \<noteq> 0" if "65 \<le> c" "c \<le> 90"
  proof
    assume "c + 32 = 0"
    then have "unat (c + 32) = 0" by simp
    moreover have "unat (c + 32) = unat c + 32"
      using that by (subst unat_add_lem [THEN iffD1]) (simp_all add: word_le_nat_alt)
    ultimately show False by simp
  qed
  ultimately show "c = 0" by (auto simp: fold_case_def split: if_splits)
qed (simp add: fold_case_def)

lemma fold_case_NUL [simp]: "fold_case opt 0 = 0"
  by simp

lemma plain_skip: "plain opt (skip_white opt s) = plain opt s"
proof (cases "iwhite opt")
  case True
  then show ?thesis by (induction s) (auto simp: skip_white_def)
qed (simp add: skip_white_def)

lemma skip_head: "skip_white opt s = c # r \<Longrightarrow> \<not> (iwhite opt \<and> white c)"
  by (auto simp: skip_white_def dropWhile_eq_Cons_conv split: if_splits)

lemma skip_cstr: "is_cstr s \<Longrightarrow> is_cstr (skip_white opt s)"
  by (auto simp: skip_white_def is_cstr_def dest: set_dropWhileD)

lemma same_text_plain: "is_cstr x \<Longrightarrow> is_cstr y \<Longrightarrow> same_text opt x y \<longleftrightarrow> plain opt x = plain opt y"
proof (induction opt x y rule: same_text.induct)
  case (1 opt x y)
  let ?x = "skip_white opt x" and ?y = "skip_white opt y"
  have px: "plain opt x = plain opt ?x" "plain opt y = plain opt ?y" by (simp_all add: plain_skip)
  note u = same_text.simps [of opt x y, unfolded Let_def]
  show ?case
  proof (cases "?x = [] \<or> ?y = []")
    case True
    then show ?thesis using skip_cstr [OF 1(2), of opt] skip_cstr [OF 1(3), of opt] skip_head [of opt x] skip_head [of opt y]
      unfolding px u by (cases ?x; cases ?y) auto
  next
    case False
    then obtain c r d t where xy: "?x = c # r" "?y = d # t" by (meson neq_Nil_conv)
    then have c: "\<not> (iwhite opt \<and> white c)" "\<not> (iwhite opt \<and> white d)" using skip_head by blast+
    have cs: "is_cstr r" "is_cstr t" "c \<noteq> 0" "d \<noteq> 0" using skip_cstr [OF 1(2), of opt] skip_cstr [OF 1(3), of opt] xy by auto
    have pl: "plain opt (c # r) = fold_case opt c # plain opt r" "plain opt (d # t) = fold_case opt d # plain opt t"
      using c by auto
    show ?thesis
    proof (cases "fold_case opt c = fold_case opt d")
      case True
      then have "same_text opt r t \<longleftrightarrow> plain opt r = plain opt t"
        using 1(1) [OF refl refl refl refl] xy cs by auto
      then show ?thesis using True cs pl unfolding px u xy by simp
    qed (use pl in \<open>simp add: px u xy\<close>)
  qed
qed

text \<open>The hash of a line is that of its plain text, so that equal lines have equal hashes.\<close>

lemma hash_loop_plain: "hash_loop opt s h = foldl (\<lambda>h c. (h XOR ucast c) * 16777619) h (plain opt s)"
  by (induction opt s h rule: hash_loop.induct) auto

lemma hash_line_plain: "plain opt x = plain opt y \<Longrightarrow> hash_line opt x = hash_line opt y"
  by (simp add: hash_line_def hash_loop_plain)

text \<open>A file as \<open>load\<close> leaves it.\<close>

definition loaded :: "options \<Rightarrow> file_t \<Rightarrow> bool" where
  "loaded opt f \<longleftrightarrow> f_hash f = map (hash_line opt) (f_line f) \<and> list_all is_cstr (f_line f)"

lemma eq_plain:
  assumes "loaded opt FA" "loaded opt FB" "0 \<le> i" "i < f_nlines FA" "0 \<le> j" "j < f_nlines FB"
  shows "eq opt FA FB i j \<longleftrightarrow> plain opt (f_line FA ! nat i) = plain opt (f_line FB ! nat j) \<and>
    \<not> (i = f_nlines FA - 1 \<and> j = f_nlines FB - 1 \<and> f_no_final_nl FA \<noteq> f_no_final_nl FB)"
proof -
  have n: "nat i < length (f_line FA)" "nat j < length (f_line FB)" using assms(3-6) by (auto simp: f_nlines_def)
  then have "is_cstr (f_line FA ! nat i)" "is_cstr (f_line FB ! nat j)" using assms(1,2) by (auto simp: loaded_def list_all_length)
  note st = same_text_plain [OF this, of opt]
  have h: "f_hash FA ! nat i = hash_line opt (f_line FA ! nat i)" "f_hash FB ! nat j = hash_line opt (f_line FB ! nat j)"
    using n assms(1,2) by (simp_all add: loaded_def)
  show ?thesis
  proof (cases "plain opt (f_line FA ! nat i) = plain opt (f_line FB ! nat j)")
    case True
    then show ?thesis using hash_line_plain [OF True] unfolding eq_def h st by auto
  qed (simp add: eq_def st)
qed

section \<open>Files\<close>

fun content :: "pieces \<Rightarrow> u8 list" where
  "content [] = []"
| "content (None # ps) = []"
| "content (Some b # ps) = (if b = [] then [] else b @ content ps)"

lemma lp_read_content: "lp_read want ps = (Some b, ps') \<Longrightarrow> 0 < want \<Longrightarrow> content ps = (if b = [] then [] else b @ content ps')"
  by (induction want ps rule: lp_read.induct) (auto split: if_splits)

lemma read_loop_content: "read_loop T ps cap buf = Whole r \<Longrightarrow> length buf \<le> cap \<Longrightarrow> r = buf @ content ps"
proof (induction T ps cap buf rule: read_loop.induct)
  case (1 T ps cap buf)
  show ?case
  proof (cases "length buf = cap")
    case True
    then show ?thesis using 1(1) 1(3) by (auto simp: read_loop.simps [of T ps cap buf] grow_def split: if_splits)
  next
    case False
    obtain o' ps' where rd: "lp_read (cap - length buf) ps = (o', ps')" by fastforce
    then obtain b where b: "o' = Some b" using False 1(3) by (cases o') (auto simp: read_loop.simps [of T ps cap buf])
    have l: "length b \<le> want" if "lp_read want ps = (Some b, ps')" for want
      using that by (induction want ps rule: lp_read.induct) (auto split: if_splits)
    have c: "content ps = (if b = [] then [] else b @ content ps')" using lp_read_content [of "cap - length buf" ps b ps'] rd b False 1(4) by simp
    show ?thesis
    proof (cases "b = []")
      case True
      then show ?thesis using False 1(3) rd b c by (simp add: read_loop.simps [of T ps cap buf])
    next
      case nb: False
      have "read_loop T ps' cap (buf @ b) = Whole r" using False 1(3) rd b nb by (simp add: read_loop.simps [of T ps cap buf])
      moreover have "length (buf @ b) \<le> cap" using l [of "cap - length buf"] rd b 1(4) by simp
      ultimately show ?thesis using 1(2) [OF False rd [symmetric] b nb] c nb by simp
    qed
  qed
qed

definition join :: "cstring list \<Rightarrow> u8 list" where
  "join ls = concat (map (\<lambda>l. l @ [10]) ls)"

lemma join_set: "l \<in> set ls \<Longrightarrow> set l \<subseteq> set (join ls)"
  by (induction ls) (auto simp: join_def)

lemma cut_lines_join: "cut_lines buf cur = (ls, rest) \<Longrightarrow> 10 \<notin> set cur \<Longrightarrow>
  cur @ buf = join ls @ rest \<and> 10 \<notin> set rest \<and> (\<forall>l \<in> set ls. 10 \<notin> set l)"
  by (induction buf cur arbitrary: ls rest rule: cut_lines.induct) (auto simp: join_def split: if_splits prod.splits)

lemma newline_unique: "l @ 10 # r = l' @ 10 # r' \<Longrightarrow> 10 \<notin> set l \<Longrightarrow> 10 \<notin> set l' \<Longrightarrow> l = l' \<and> r = r'" for l l' r r' :: "u8 list"
proof (induction l arbitrary: l')
  case Nil
  then show ?case by (cases l') auto
next
  case (Cons c l)
  then show ?case by (cases l') auto
qed

lemma join_unique:
  assumes "join ls @ rest = join ls' @ rest'" "10 \<notin> set rest" "10 \<notin> set rest'"
    "\<forall>l \<in> set ls. 10 \<notin> set l" "\<forall>l \<in> set ls'. 10 \<notin> set l"
  shows "ls = ls' \<and> rest = rest'"
  using assms
proof (induction ls arbitrary: ls')
  case Nil
  then show ?case by (cases ls') (auto simp: join_def)
next
  case (Cons l ls)
  then obtain l' ms where ls': "ls' = l' # ms" by (cases ls') (auto simp: join_def)
  have "l @ 10 # (join ls @ rest) = l' @ 10 # (join ms @ rest')" using Cons(2) ls' by (simp add: join_def)
  moreover have "10 \<notin> set l" "10 \<notin> set l'" using Cons(5,6) ls' by auto
  ultimately have "l = l' \<and> join ls @ rest = join ms @ rest'" by (rule newline_unique)
  then show ?case using Cons ls' by auto
qed

text \<open>What a file without NUL is loaded as.\<close>

definition joins :: "file_t \<Rightarrow> u8 list" where
  "joins f = (if f_no_final_nl f then join (butlast (f_line f)) @ last (f_line f) else join (f_line f))"

lemma cut_lines_rest: "cut_lines buf cur = (ls, rest) \<Longrightarrow> rest \<noteq> [] \<longleftrightarrow> (if buf = [] then cur \<noteq> [] else last buf \<noteq> 10)"
  by (induction buf cur arbitrary: ls rest rule: cut_lines.induct) (auto split: if_splits prod.splits)

lemma load_text:
  assumes "load T opt path = Inl f" "t_open T path = Some ps" "0 \<notin> set (content ps)"
  shows "loaded opt f \<and> \<not> f_binary f \<and> f_path f = path \<and> joins f = content ps \<and> (\<forall>l \<in> set (f_line f). 10 \<notin> set l) \<and>
    (f_no_final_nl f \<longrightarrow> f_line f \<noteq> [] \<and> last (f_line f) \<noteq> [])"
proof -
  define cap where "cap = (case t_stat T True path of Some st \<Rightarrow> if st_size st > 0 then unat (st_size st) + 1 else 65536 | None \<Rightarrow> 65536)"
  note u = assms(1) [unfolded load_def assms(2) option.case Let_def cap_def [symmetric]]
  have cap: "cap \<le> MAX_BYTES" using u by (auto split: if_splits)
  then obtain buf where buf: "read_loop T ps cap [] = Whole buf" using u by (auto split: if_splits reading.splits)
  have c: "buf = content ps" using read_loop_content [OF buf] by simp
  obtain ls rest where cl: "cut_lines buf [] = (ls, rest)" by fastforce
  note j = cut_lines_join [OF cl, simplified] and r = cut_lines_rest [OF cl, simplified]
  define no_nl where "no_nl = (buf \<noteq> [] \<and> last buf \<noteq> 10)"
  define all where "all = (if no_nl then ls @ [rest] else ls)"
  have nr: "no_nl \<longleftrightarrow> rest \<noteq> []" using r by (auto simp: no_nl_def)
  have z: "0 \<notin> set buf" using assms(3) c by simp
  have be: "ls = [] \<Longrightarrow> last buf = 10 \<Longrightarrow> buf = []" using j r by (auto simp: join_def)
  have f: "f = \<lparr>f_path = path, f_data = map (\<lambda>c. if c = 10 then 0 else c) buf, f_line = all, f_hash = map (hash_line opt) all, f_no_final_nl = no_nl, f_binary = False\<rparr>"
    using u cap buf z cl be unfolding no_nl_def [symmetric] all_def [symmetric] by (auto simp: all_def no_nl_def Let_def split: if_splits)
  have "set all \<subseteq> insert rest (set ls)" by (auto simp: all_def)
  moreover have "is_cstr l" if "l \<in> insert rest (set ls)" for l
    using that j z join_set [of l ls] by (auto simp: is_cstr_def)
  ultimately have "list_all is_cstr all" by (auto simp: list_all_iff)
  then show ?thesis using f j nr c by (auto simp: loaded_def joins_def all_def split: if_splits)
qed

section \<open>The quick comparison\<close>

lemma rd_next_plain: "rd_next opt buf ps = (r, buf', ps') \<Longrightarrow>
  (case r of None \<Rightarrow> plain opt (buf @ content ps) = [] | Some c \<Rightarrow> plain opt (buf @ content ps) = c # plain opt (buf' @ content ps'))"
proof (induction opt buf ps rule: rd_next.induct)
  case (1 opt ps)
  obtain o' qs where rd: "lp_read 4096 ps = (o', qs)" by fastforce
  show ?case
  proof (cases o')
    case None
    then have "content ps = []" using rd by (cases "(4096 :: nat, ps)" rule: lp_read.cases) (auto split: if_splits)
    then show ?thesis using 1(2) rd None unfolding append_Nil by (auto simp: rd_next.simps)
  next
    case (Some b)
    then show ?thesis using 1 rd lp_read_content [of 4096 ps b qs] unfolding append_Nil by (cases "b = []") (auto simp: rd_next.simps split: option.splits)
  qed
next
  case (2 opt c buf ps)
  then show ?case by (auto simp: rd_next.simps split: if_splits option.splits)
qed

lemma quick_loop_plain: "quick_loop opt ba pa bb pb = (if plain opt (ba @ content pa) = plain opt (bb @ content pb) then 0 else 1)"
proof (induction opt ba pa bb pb rule: quick_loop.induct)
  case (1 opt ba pa bb pb)
  obtain x ba' pa' where x: "rd_next opt ba pa = (x, ba', pa')" by (metis prod_cases3)
  obtain y bb' pb' where y: "rd_next opt bb pb = (y, bb', pb')" by (metis prod_cases3)
  note px = rd_next_plain [OF x] and py = rd_next_plain [OF y]
  show ?case
  proof (cases "x = y \<and> x \<noteq> None")
    case True
    then have "quick_loop opt ba pa bb pb = quick_loop opt ba' pa' bb' pb'" by (auto simp: quick_loop.simps [of opt ba pa bb pb] x y)
    then show ?thesis using 1 [of "(x, ba', pa')" "(y, bb', pb')" x "(ba', pa')" ba' pa' y "(bb', pb')" bb' pb'] x y True px py by auto
  next
    case False
    then show ?thesis using px py by (cases x; cases y) (auto simp: quick_loop.simps [of opt ba pa bb pb] x y)
  qed
qed

end
