(* ===== verification/DiffPatch.thy ===== *)
theory DiffPatch
  imports DiffMyers DiffText
begin

text \<open>
  The whole of \<open>diff\<close> on two files: the blocks are a least edit of the whole files although the equal
  lines at both ends are cut off first, applying the hunks that are printed to the first file gives the
  second, and \<open>-q\<close> says the same.
\<close>

section \<open>Least edits\<close>

text \<open>An edit of \<open>d\<close> lines of the lines from \<open>alo\<close> to \<open>ahi\<close> and from \<open>blo\<close> to \<open>bhi\<close>.\<close>

definition edits :: "(int \<Rightarrow> int \<Rightarrow> bool) \<Rightarrow> int \<Rightarrow> int \<Rightarrow> int \<Rightarrow> int \<Rightarrow> nat \<Rightarrow> bool" where
  "edits E alo ahi blo bhi d \<longleftrightarrow> reach (\<lambda>x y. E (alo + x) (blo + y)) (ahi - alo) (bhi - blo) d (ahi - alo) (bhi - blo)"

lemma reach_right: "reach E n m d x y \<Longrightarrow> reach E n m (d + k) (x + int k) y"
proof (induction k)
  case (Suc k)
  then show ?case using reach.removed [of E n m "d + k" "x + int k" y] by (simp add: ac_simps)
qed simp

lemma reach_down: "reach E n m d x y \<Longrightarrow> reach E n m (d + k) x (y + int k)"
proof (induction k)
  case (Suc k)
  then show ?case using reach.added [of E n m "d + k" x "y + int k"] by (simp add: ac_simps)
qed simp

lemma reach_box: "reach E n m d x y \<Longrightarrow> x \<le> n' \<Longrightarrow> y \<le> m' \<Longrightarrow> reach E n' m' d x y"
  by (induction rule: reach.induct) (auto intro: reach.intros)

text \<open>Without the equal lines at the start.\<close>

lemma reach_without_first:
  assumes "reach F n m d x y" "1 \<le> x" "1 \<le> y"
  shows "\<exists>e \<le> d. reach (\<lambda>x y. F (1 + x) (1 + y)) (n - 1) (m - 1) e (x - 1) (y - 1)"
  using assms
proof (induction rule: reach.induct)
  case (pair d x y)
  let ?F = "\<lambda>x y. F (1 + x) (1 + y)"
  note b = reach_bounds [OF pair(1)]
  consider "1 \<le> x \<and> 1 \<le> y" | "x = 0" | "y = 0" using b by linarith
  then show ?case
  proof cases
    case 1
    then obtain e where e: "e \<le> d" "reach ?F (n - 1) (m - 1) e (x - 1) (y - 1)" using pair(5) by blast
    have "reach ?F (n - 1) (m - 1) e (x - 1 + 1) (y - 1 + 1)" using pair(2-4) by (intro reach.pair [OF e(2)]) simp_all
    then show ?thesis using e(1) by auto
  next
    case 2
    then show ?thesis using b reach_all [of ?F "n - 1" "m - 1" 0 "nat y"] by (intro exI [of _ "nat y"]) auto
  next
    case 3
    then show ?thesis using b reach_all [of ?F "n - 1" "m - 1" "nat x" 0] by (intro exI [of _ "nat x"]) auto
  qed
next
  case (removed d x y)
  let ?F = "\<lambda>x y. F (1 + x) (1 + y)"
  note b = reach_bounds [OF removed(1)]
  show ?case
  proof (cases "x = 0")
    case True
    then show ?thesis using b removed(4) reach_all [of ?F "n - 1" "m - 1" 0 "nat (y - 1)"] by (intro exI [of _ "nat (y - 1)"]) auto
  next
    case False
    then obtain e where e: "e \<le> d" "reach ?F (n - 1) (m - 1) e (x - 1) (y - 1)" using removed b by auto
    then show ?thesis using reach.removed [OF e(2)] by (intro exI [of _ "Suc e"]) simp
  qed
next
  case (added d x y)
  let ?F = "\<lambda>x y. F (1 + x) (1 + y)"
  note b = reach_bounds [OF added(1)]
  show ?case
  proof (cases "y = 0")
    case True
    then show ?thesis using b added(3) reach_all [of ?F "n - 1" "m - 1" "nat (x - 1)" 0] by (intro exI [of _ "nat (x - 1)"]) auto
  next
    case False
    then obtain e where e: "e \<le> d" "reach ?F (n - 1) (m - 1) e (x - 1) (y - 1)" using added b by auto
    then show ?thesis using reach.added [OF e(2)] by (intro exI [of _ "Suc e"]) simp
  qed
qed simp

lemma edits_first:
  assumes "edits E alo ahi blo bhi d" "alo < ahi" "blo < bhi"
  shows "\<exists>e \<le> d. edits E (alo + 1) ahi (blo + 1) bhi e"
  using reach_without_first [OF assms(1) [unfolded edits_def]] assms(2,3) by (simp add: edits_def algebra_simps)

text \<open>Without those at the end.\<close>

lemma reach_back_right: "reach F n m d x y \<Longrightarrow> 1 \<le> x \<Longrightarrow> \<exists>e \<le> Suc d. reach F n m e (x - 1) y"
proof (induction rule: reach.induct)
  case (pair d x y)
  then show ?case using reach.added [OF pair(1)] by auto
next
  case (removed d x y)
  then show ?case by (intro exI [of _ d]) simp
next
  case (added d x y)
  then obtain e where e: "e \<le> Suc d" "reach F n m e (x - 1) y" by blast
  then show ?case using reach.added [OF e(2)] by (intro exI [of _ "Suc e"]) simp
qed simp

lemma reach_back_down: "reach F n m d x y \<Longrightarrow> 1 \<le> y \<Longrightarrow> \<exists>e \<le> Suc d. reach F n m e x (y - 1)"
proof (induction rule: reach.induct)
  case (pair d x y)
  then show ?case using reach.removed [OF pair(1)] by auto
next
  case (added d x y)
  then show ?case by (intro exI [of _ d]) simp
next
  case (removed d x y)
  then obtain e where e: "e \<le> Suc d" "reach F n m e x (y - 1)" by blast
  then show ?case using reach.removed [OF e(2)] by (intro exI [of _ "Suc e"]) simp
qed simp

lemma edits_last:
  assumes "edits E alo ahi blo bhi d" "alo < ahi" "blo < bhi"
  shows "\<exists>e \<le> d. edits E alo (ahi - 1) blo (bhi - 1) e"
proof -
  let ?F = "\<lambda>x y. E (alo + x) (blo + y)"
  define n m where "n = ahi - alo" and "m = bhi - blo"
  have nm: "1 \<le> n" "1 \<le> m" using assms by (simp_all add: n_def m_def)
  have "\<exists>e \<le> d. reach ?F n m e (n - 1) (m - 1)"
    using assms(1) [unfolded edits_def n_def [symmetric] m_def [symmetric]]
  proof (cases rule: reach.cases)
    case (pair x y)
    then show ?thesis by (intro exI [of _ d]) auto
  next
    case (removed e x)
    then show ?thesis using reach_back_down [of ?F n m e x m] nm by fastforce
  next
    case (added e y)
    then show ?thesis using reach_back_right [of ?F n m e n y] nm by fastforce
  qed (use nm in auto)
  then obtain e where "e \<le> d" "reach ?F n m e (n - 1) (m - 1)" by blast
  then have "reach ?F (n - 1) (m - 1) e (n - 1) (m - 1)" using reach_box by blast
  moreover have d: "ahi - 1 - alo = n - 1" "bhi - 1 - blo = m - 1" by (simp_all add: n_def m_def)
  ultimately show ?thesis using \<open>e \<le> d\<close> unfolding edits_def d by blast
qed

lemma run_step: "E x y \<Longrightarrow> run E (x + 1) (y + 1) x' y' \<Longrightarrow> run E x y x' y'"
proof -
  assume a: "E x y" "run E (x + 1) (y + 1) x' y'"
  have "run E x y (x + 1) (y + 1)" unfolding run_def using a(1) by (auto simp: zless_add1_eq dest: order.antisym)
  then show ?thesis using a(2) run_trans by blast
qed

lemma trim_front_correct:
  assumes "trim_front E alo ahi blo bhi = (a, b)" "alo \<le> ahi" "blo \<le> bhi"
  shows "run E alo blo a b \<and> a \<le> ahi \<and> b \<le> bhi \<and> (\<forall>d. edits E alo ahi blo bhi d \<longrightarrow> (\<exists>e \<le> d. edits E a ahi b bhi e))"
  using assms
proof (induction E alo ahi blo bhi rule: trim_front.induct)
  case (1 E alo ahi blo bhi)
  show ?case
  proof (cases "alo < ahi \<and> blo < bhi \<and> E alo blo")
    case True
    then have "trim_front E (alo + 1) ahi (blo + 1) bhi = (a, b)" using 1(2) by (simp add: trim_front.simps [of E alo ahi blo bhi])
    then have ih: "run E (alo + 1) (blo + 1) a b \<and> a \<le> ahi \<and> b \<le> bhi \<and>
        (\<forall>d. edits E (alo + 1) ahi (blo + 1) bhi d \<longrightarrow> (\<exists>e \<le> d. edits E a ahi b bhi e))"
      using 1(1) True by simp
    moreover have "\<exists>e \<le> d. edits E a ahi b bhi e" if "edits E alo ahi blo bhi d" for d
      using edits_first [OF that] ih True by (meson order.trans)
    ultimately show ?thesis using run_step True by blast
  next
    case False
    then have "(alo, blo) = (a, b)" using 1(2) by (simp only: trim_front.simps [of E alo ahi blo bhi] if_False)
    then show ?thesis using 1(3,4) run_refl by auto
  qed
qed

lemma trim_back_correct:
  assumes "trim_back E alo ahi blo bhi = (a, b)" "alo \<le> ahi" "blo \<le> bhi"
  shows "run E a b ahi bhi \<and> alo \<le> a \<and> blo \<le> b \<and> (\<forall>d. edits E alo ahi blo bhi d \<longrightarrow> (\<exists>e \<le> d. edits E alo a blo b e))"
  using assms
proof (induction E alo ahi blo bhi rule: trim_back.induct)
  case (1 E alo ahi blo bhi)
  show ?case
  proof (cases "ahi > alo \<and> bhi > blo \<and> E (ahi - 1) (bhi - 1)")
    case True
    then have "trim_back E alo (ahi - 1) blo (bhi - 1) = (a, b)" using 1(2) by (simp add: trim_back.simps [of E alo ahi blo bhi])
    then have ih: "run E a b (ahi - 1) (bhi - 1) \<and> alo \<le> a \<and> blo \<le> b \<and>
        (\<forall>d. edits E alo (ahi - 1) blo (bhi - 1) d \<longrightarrow> (\<exists>e \<le> d. edits E alo a blo b e))"
      using 1(1) True by simp
    moreover have "run E (ahi - 1) (bhi - 1) ahi bhi" using run_step [of E "ahi - 1" "bhi - 1"] True run_refl by simp
    moreover have "\<exists>e \<le> d. edits E alo a blo b e" if "edits E alo ahi blo bhi d" for d
      using edits_last [OF that] ih True by (meson order.trans)
    ultimately show ?thesis using run_trans by blast
  next
    case False
    then have "(ahi, bhi) = (a, b)" using 1(2) by (simp only: trim_back.simps [of E alo ahi blo bhi] if_False)
    then show ?thesis using 1(3,4) run_refl by auto
  qed
qed

text \<open>What a script costs, another path in the edit graph costs too.\<close>

lemma script_le: "script E x y bs u w \<Longrightarrow> x \<le> u \<and> y \<le> w"
  by (induction E x y bs u w rule: script.induct) (auto simp: run_def)

lemma cost_nonneg: "script E x y bs u w \<Longrightarrow> 0 \<le> cost bs"
  by (induction E x y bs u w rule: script.induct) (auto simp: cost_def)

lemma script_reach:
  assumes "script E x y bs ahi bhi" "reach F n m d (x - alo) (y - blo)"
    "F = (\<lambda>x y. E (alo + x) (blo + y))" "n = ahi - alo" "m = bhi - blo"
  shows "reach F n m (d + nat (cost bs)) n m"
proof -
  have rn: "reach F n m d (x' - alo) (y' - blo)"
    if "run E x y x' y'" "x' \<le> ahi" "y' \<le> bhi" "reach F n m d (x - alo) (y - blo)" for x y x' y' d
  proof -
    have "slide F n m (x - alo) (y - blo) (x' - alo) (y' - blo)"
      using that(1-3) assms(3-5) by (auto simp: slide_def run_def)
    then show ?thesis using that(4) reach_slide by blast
  qed
  show ?thesis
    using assms(1,2)
proof (induction bs arbitrary: x y d)
  case Nil
  then show ?case using rn [of x y ahi bhi d] assms(4,5) by (simp add: cost_def)
next
  case (Cons b bs)
  then have b: "run E x y (a0 b) (b0 b)" "0 \<le> alen b" "0 \<le> blen b" "script E (a0 b + alen b) (b0 b + blen b) bs ahi bhi" by simp_all
  have "a0 b \<le> ahi" "b0 b \<le> bhi" using script_le [OF b(4)] b(2,3) by simp_all
  then have "reach F n m d (a0 b - alo) (b0 b - blo)" using rn [OF b(1) _ _ Cons(3)] by simp
  then have "reach F n m (d + nat (alen b) + nat (blen b)) (a0 b - alo + int (nat (alen b))) (b0 b - blo + int (nat (blen b)))"
    by (intro reach_down reach_right)
  then have "reach F n m (d + nat (alen b) + nat (blen b)) (a0 b + alen b - alo) (b0 b + blen b - blo)"
    using b(2,3) by (simp add: algebra_simps)
  note ih = Cons(1) [OF b(4) this]
  have "nat (cost (b # bs)) = nat (alen b) + nat (blen b) + nat (cost bs)"
    using b(2,3) cost_nonneg [OF b(4)] by (simp add: cost_def nat_add_distrib)
  then show ?case using ih by (simp add: ac_simps)
qed
qed

lemma script_edits: "script E alo blo bs ahi bhi \<Longrightarrow> edits E alo ahi blo bhi (nat (cost bs))"
  using script_reach [of E alo blo bs ahi bhi _ _ _ 0 alo blo] reach.start by (simp add: edits_def)

text \<open>The blocks of the middle are a least edit of the whole.\<close>

definition least_script :: "(int \<Rightarrow> int \<Rightarrow> bool) \<Rightarrow> int \<Rightarrow> int \<Rightarrow> block_t list \<Rightarrow> bool" where
  "least_script E na nb bs \<longleftrightarrow> script E 0 0 bs na nb \<and> (\<forall>bs'. script E 0 0 bs' na nb \<longrightarrow> cost bs \<le> cost bs')"

lemma trimmed:
  assumes "trim_front E 0 na 0 nb = (alo, blo)" "trim_back E alo na blo nb = (ahi, bhi)" "0 \<le> na" "0 \<le> nb"
  shows "alo \<le> ahi" "blo \<le> bhi" "script E alo blo bs ahi bhi \<Longrightarrow> script E 0 0 bs na nb"
    "script E 0 0 bs' na nb \<Longrightarrow> \<exists>e. int e \<le> cost bs' \<and> edits E alo ahi blo bhi e"
proof -
  note f = trim_front_correct [OF assms(1) assms(3,4)]
  then have le: "alo \<le> na" "blo \<le> nb" by blast+
  note b = trim_back_correct [OF assms(2) le]
  show "alo \<le> ahi" "blo \<le> bhi" using b by blast+
  show "script E 0 0 bs na nb" if "script E alo blo bs ahi bhi"
    using script_append_run [OF that] script_run f b by blast
  assume s: "script E 0 0 bs' na nb"
  then have "edits E 0 na 0 nb (nat (cost bs'))" by (rule script_edits)
  then obtain d where "d \<le> nat (cost bs')" "edits E alo na blo nb d" using f by blast
  then obtain e where "e \<le> d" "edits E alo ahi blo bhi e" using b by blast
  then show "\<exists>e. int e \<le> cost bs' \<and> edits E alo ahi blo bhi e"
    using \<open>d \<le> nat (cost bs')\<close> cost_nonneg [OF s] by (intro exI [of _ e]) auto
qed

section \<open>Applying the hunks\<close>

text \<open>
  What a reader of the output does: a line of a hunk is kept, removed or added, with its text; kept and
  removed lines must be those of the file.  A hunk says where it starts on both sides and how many
  lines it has there.
\<close>

datatype tag = Kept | Removed | Added

fun tagged :: "'t list \<Rightarrow> 't list \<Rightarrow> hunk_line \<Rightarrow> tag \<times> 't" where
  "tagged A B (Same i) = (Kept, A ! nat i)"
| "tagged A B (Minus i) = (Removed, A ! nat i)"
| "tagged A B (Plus i) = (Added, B ! nat i)"

fun patch_lines :: "(tag \<times> 't) list \<Rightarrow> 't list \<Rightarrow> ('t list \<times> 't list) option" where
  "patch_lines [] r = Some ([], r)"
| "patch_lines ((Added, s) # ls) r = map_option (\<lambda>(out, r). (s # out, r)) (patch_lines ls r)"
| "patch_lines (l # ls) [] = None"
| "patch_lines ((Kept, s) # ls) (a # r) =
     (if a = s then map_option (\<lambda>(out, r). (s # out, r)) (patch_lines ls r) else None)"
| "patch_lines ((Removed, s) # ls) (a # r) = (if a = s then patch_lines ls r else None)"

fun patch :: "'t list \<Rightarrow> 't list \<Rightarrow> hunk list \<Rightarrow> int \<Rightarrow> 't list \<Rightarrow> int \<Rightarrow> 't list option" where
  "patch A B [] pos r opos = Some r"
| "patch A B (h # hs) pos r opos =
     (if \<not> (pos \<le> h_as h \<and> h_as h - pos \<le> int (length r)) \<or> opos + (h_as h - pos) \<noteq> h_bs h then None
      else
        (case patch_lines (map (tagged A B) (h_lines h)) (drop (nat (h_as h - pos)) r) of
           None \<Rightarrow> None
         | Some (out, r') \<Rightarrow>
             if int (length (drop (nat (h_as h - pos)) r)) - int (length r') \<noteq> h_ae h - h_as h \<or>
                int (length out) \<noteq> h_be h - h_bs h then None
             else map_option (\<lambda>rest. take (nat (h_as h - pos)) r @ out @ rest) (patch A B hs (h_ae h) r' (h_be h))))"

text \<open>The lines of a file from one number to another.\<close>

definition part :: "'t list \<Rightarrow> int \<Rightarrow> int \<Rightarrow> 't list" where
  "part A x y = take (nat (y - x)) (drop (nat x) A)"

lemma part_upto: "0 \<le> x \<Longrightarrow> y \<le> int (length A) \<Longrightarrow> map (\<lambda>i. A ! nat i) [x..y - 1] = part A x y"
  by (rule nth_equalityI) (auto simp: part_def nat_add_distrib add.commute)

lemma drop_part: "0 \<le> x \<Longrightarrow> x \<le> y \<Longrightarrow> drop (nat x) A = part A x y @ drop (nat y) A"
proof -
  assume "0 \<le> x" "x \<le> y"
  then have "nat (y - x) + nat x = nat y" by simp
  then show ?thesis by (metis append_take_drop_id drop_drop part_def)
qed

lemma part_append: "0 \<le> x \<Longrightarrow> x \<le> y \<Longrightarrow> y \<le> z \<Longrightarrow> part A x z = part A x y @ part A y z"
proof -
  assume a: "0 \<le> x" "x \<le> y" "y \<le> z"
  then have e: "nat (z - x) = nat (y - x) + nat (z - y)" "nat (y - x) + nat x = nat y" by simp_all
  show ?thesis unfolding part_def e(1) take_add drop_drop e(2) by simp
qed

lemma length_part: "0 \<le> x \<Longrightarrow> x \<le> y \<Longrightarrow> y \<le> int (length A) \<Longrightarrow> int (length (part A x y)) = y - x"
  by (simp add: part_def)

lemma part_all: "part A 0 (int (length A)) = A" "drop (nat (int (length A))) A = []"
  by (simp_all add: part_def)

lemma patch_kept: "patch_lines (map (Pair Kept) xs @ ls) (xs @ r) = map_option (\<lambda>(out, r). (xs @ out, r)) (patch_lines ls r)"
  by (induction xs) (auto simp: option.map_comp comp_def case_prod_beta option.map_ident)

lemma patch_removed: "patch_lines (map (Pair Removed) xs @ ls) (xs @ r) = patch_lines ls r"
  by (induction xs) auto

lemma patch_added: "patch_lines (map (Pair Added) xs @ ls) r = map_option (\<lambda>(out, r). (xs @ out, r)) (patch_lines ls r)"
  by (induction xs) (auto simp: option.map_comp comp_def case_prod_beta option.map_ident)

lemma tagged_upto:
  assumes "0 \<le> x"
  shows "y \<le> int (length A) \<Longrightarrow> map (tagged A B) (map Same [x..y - 1]) = map (Pair Kept) (part A x y)"
    "y \<le> int (length A) \<Longrightarrow> map (tagged A B) (map Minus [x..y - 1]) = map (Pair Removed) (part A x y)"
    "y \<le> int (length B) \<Longrightarrow> map (tagged A B) (map Plus [x..y - 1]) = map (Pair Added) (part B x y)"
  by (simp_all add: part_upto [OF assms, symmetric] comp_def)

definition agree :: "(int \<Rightarrow> int \<Rightarrow> bool) \<Rightarrow> ('t \<Rightarrow> 't \<Rightarrow> bool) \<Rightarrow> 't list \<Rightarrow> 't list \<Rightarrow> bool" where
  "agree E P A B \<longleftrightarrow>
     (\<forall>i j. E i j \<and> 0 \<le> i \<and> i < int (length A) \<and> 0 \<le> j \<and> j < int (length B) \<longrightarrow> P (A ! nat i) (B ! nat j))"

lemma run_part:
  assumes "run E x y x' y'" "0 \<le> x" "0 \<le> y" "x' \<le> int (length A)" "y' \<le> int (length B)"
    "agree E P A B"
  shows "list_all2 P (part A x x') (part B y y')"
proof (rule list_all2_all_nthI)
  show "length (part A x x') = length (part B y y')"
    using length_part [of x x' A] length_part [of y y' B] assms(1-5) by (simp add: run_def)
  fix t
  assume "t < length (part A x x')"
  then have t: "int t < x' - x" "x' - x = y' - y" using assms by (auto simp: part_def run_def)
  then have "E (x + int t) (y + int t)" using assms(1) by (simp add: run_def)
  then have "P (A ! nat (x + int t)) (B ! nat (y + int t))" using assms(2-6) t by (simp add: agree_def)
  then show "P (part A x x' ! t) (part B y y' ! t)" using t assms(2-5) by (simp add: part_def nat_add_distrib)
qed

lemma run_sub:
  assumes "run E x y x' y'" "x \<le> u" "u \<le> u'" "u' \<le> x'"
  shows "run E u (y + (u - x)) u' (y + (u' - x))"
proof -
  have "E (u + t) (y + (u - x) + t)" if "0 \<le> t" "t < u' - u" for t
  proof -
    have "0 \<le> u - x + t \<and> u - x + t < x' - x" using that assms(2-4) by linarith
    then have "E (x + (u - x + t)) (y + (u - x + t))" using assms(1) unfolding run_def by blast
    then show ?thesis by (simp add: algebra_simps)
  qed
  then show ?thesis using assms(3) by (simp add: run_def)
qed

lemma hunk_lines_patch:
  assumes "script E ax bx h ae be" "0 \<le> ax" "0 \<le> bx" "ae \<le> int (length A)" "be \<le> int (length B)" "\<And>s. P s s"
    "agree E P A B"
  shows "\<exists>out. patch_lines (map (tagged A B) (hunk_lines ax bx h ae)) (drop (nat ax) A) = Some (out, drop (nat ae) A) \<and>
    list_all2 P out (part B bx be)"
  using assms(1-3)
proof (induction h arbitrary: ax bx)
  case Nil
  then have r: "run E ax bx ae be" by simp
  then have "ax \<le> ae" by (simp add: run_def)
  then have "drop (nat ax) A = part A ax ae @ drop (nat ae) A" by (rule drop_part [OF Nil(2)])
  moreover have "map (tagged A B) (hunk_lines ax bx [] ae) = map (Pair Kept) (part A ax ae) @ []"
    unfolding hunk_lines.simps tagged_upto(1) [OF Nil(2) assms(4)] by simp
  ultimately show ?case using patch_kept [of "part A ax ae" "[]" "drop (nat ae) A"] run_part [OF r Nil(2,3) assms(4,5,7)] by simp
next
  case (Cons b h)
  let ?a = "a0 b + alen b" and ?b = "b0 b + blen b"
  have s: "run E ax bx (a0 b) (b0 b)" "0 \<le> alen b" "0 \<le> blen b" "script E ?a ?b h ae be" using Cons(2) by simp_all
  have le: "?a \<le> ae" "?b \<le> be" using script_le [OF s(4)] by blast+
  have x: "ax \<le> a0 b" "bx \<le> b0 b" "bx + (a0 b - ax) = b0 b" using s(1) by (simp_all add: run_def)
  have l: "ax + int (length [ax..a0 b - 1]) = a0 b" "bx + int (length [ax..a0 b - 1]) = b0 b" using x by simp_all
  have if0: "(if alen b > 0 then alen b else 0) = alen b" "(if blen b > 0 then blen b else 0) = blen b" using s(2,3) by auto
  have n: "0 \<le> a0 b" "0 \<le> b0 b" "a0 b \<le> int (length A)" "?a \<le> int (length A)" "?b \<le> int (length B)"
    using x Cons(3,4) s(2,3) le assms(4,5) by linarith+
  have "0 \<le> ?a" "0 \<le> ?b" using n s(2,3) by simp_all
  then obtain out where out: "patch_lines (map (tagged A B) (hunk_lines ?a ?b h ae)) (drop (nat ?a) A) = Some (out, drop (nat ae) A)"
      "list_all2 P out (part B ?b be)"
    using Cons(1) [OF s(4)] by blast
  have m: "map (tagged A B) (hunk_lines ax bx (b # h) ae) = map (Pair Kept) (part A ax (a0 b)) @ map (Pair Removed) (part A (a0 b) ?a) @
      map (Pair Added) (part B (b0 b) ?b) @ map (tagged A B) (hunk_lines ?a ?b h ae)"
    unfolding hunk_lines.simps Let_def l if0 map_append tagged_upto(1) [OF Cons(3) n(3)] tagged_upto(2) [OF n(1,4)] tagged_upto(3) [OF n(2,5)] ..
  have d: "drop (nat ax) A = part A ax (a0 b) @ part A (a0 b) ?a @ drop (nat ?a) A"
    using drop_part [OF Cons(3) x(1), of A] drop_part [OF n(1), of ?a A] s(2) by simp
  have "patch_lines (map (tagged A B) (hunk_lines ax bx (b # h) ae)) (drop (nat ax) A) =
      Some (part A ax (a0 b) @ part B (b0 b) ?b @ out, drop (nat ae) A)"
    unfolding m d patch_kept patch_removed patch_added out(1) by simp
  moreover have "part B bx be = part B bx (b0 b) @ part B (b0 b) ?b @ part B ?b be"
    using part_append [of bx "b0 b" be B] part_append [of "b0 b" ?b be B] Cons(4) x(2) s(3) le n by simp
  moreover have "list_all2 P (part A ax (a0 b)) (part B bx (b0 b))"
    using run_part [OF s(1) Cons(3,4) n(3) _ assms(7)] n s(3) by simp
  moreover have "list_all2 P (part B (b0 b) ?b) (part B (b0 b) ?b)" using assms(6) by (simp add: list_all2_refl)
  ultimately show ?case using out(2) by (simp add: list_all2_appendI)
qed

lemma take_hunk_parts:
  "take_hunk ctx b bs = (h, rest) \<Longrightarrow> b # bs = h @ rest \<and> h \<noteq> [] \<and> hd h = b \<and>
    (rest \<noteq> [] \<longrightarrow> 2 * ctx < a0 (hd rest) - (a0 (last h) + alen (last h)))"
proof (induction ctx b bs arbitrary: h rule: take_hunk.induct)
  case (2 ctx b b' bs)
  then show ?case by (auto split: if_splits prod.splits)
qed auto

lemma script_parts:
  "script E x y (h @ rest) u w \<Longrightarrow> h \<noteq> [] \<Longrightarrow>
    script E x y h (a0 (last h) + alen (last h)) (b0 (last h) + blen (last h)) \<and>
    script E (a0 (last h) + alen (last h)) (b0 (last h) + blen (last h)) rest u w"
  by (induction E x y h u w rule: script.induct) (auto simp: run_refl)

lemma hunks_patch:
  assumes "script E px py bs na nb" "0 \<le> px" "0 \<le> py" "0 \<le> ctx" "na = int (length A)" "nb = int (length B)" "\<And>s. P s s"
    "agree E P A B"
    "bs \<noteq> [] \<longrightarrow> px = 0 \<and> py = 0 \<or> px + ctx \<le> a0 (hd bs)"
  shows "\<exists>out. patch A B (hunks na nb ctx bs) px (drop (nat px) A) py = Some out \<and> list_all2 P out (part B py nb)"
  using assms
proof (induction na nb ctx bs arbitrary: px py rule: hunks.induct)
  case (1 na nb ctx)
  then have r: "run E px py na nb" by simp
  then have "px \<le> na" by (simp add: run_def)
  then have "drop (nat px) A = part A px na" using drop_part [OF 1(2), of na A] 1(5) by simp
  then show ?case using run_part [OF r 1(2,3) _ _ 1(8)] 1(5,6) by simp
next
  case (2 na nb ctx b bs)
  obtain h rest where h: "take_hunk ctx b bs = (h, rest)" by fastforce
  note th = take_hunk_parts [OF h]
  define aj bj where "aj = a0 (last h) + alen (last h)" and "bj = b0 (last h) + blen (last h)"
  have e: "b # bs = h @ rest" "h \<noteq> []" using th by blast+
  have sc: "script E px py h aj bj" "script E aj bj rest na nb"
    using script_parts [OF 2(2) [unfolded e(1)] e(2)] unfolding aj_def bj_def by blast+
  have hb: "hd h = b" using th by blast
  obtain t where t: "h = b # t" using e(2) hb by (cases h) simp_all
  have r: "run E px py (a0 b) (b0 b)" using sc(1) t by simp
  have x: "px \<le> a0 b" "a0 b - px = b0 b - py" using r by (simp_all add: run_def)
  define pre post where "pre = smaller (smaller ctx (a0 b)) (b0 b)" and "post = smaller (smaller ctx (na - aj)) (nb - bj)"
  have pre: "0 \<le> pre" "pre \<le> ctx" "pre \<le> a0 b" "pre \<le> b0 b" using x 2(3,4,5) by (auto simp: pre_def smaller_def)
  have px: "px \<le> a0 b - pre"
    using 2(10) pre x by auto
  have le: "aj \<le> na" "bj \<le> nb" using script_le [OF sc(2)] by blast+
  have post: "0 \<le> post" "post \<le> ctx" "post \<le> na - aj" "post \<le> nb - bj" using le 2(5) by (auto simp: post_def smaller_def)
  have ab: "0 \<le> aj" "0 \<le> bj" using script_le [OF sc(1)] 2(3,4) by linarith+
  have mk: "make_hunk na nb ctx h = \<lparr>h_as = a0 b - pre, h_ae = aj + post, h_bs = b0 b - pre, h_be = bj + post,
      h_lines = hunk_lines (a0 b - pre) (b0 b - pre) h (aj + post)\<rparr>"
    using th by (simp add: make_hunk_def Let_def pre_def post_def aj_def bj_def)
  have run_pre: "run E (a0 b - pre) (b0 b - pre) (a0 b) (b0 b)" "run E px py (a0 b - pre) (b0 b - pre)"
    using run_sub [OF r px, of "a0 b"] run_sub [OF r, of px "a0 b - pre"] pre px x by (simp_all add: algebra_simps)
  have run_post: "run E aj bj (aj + post) (bj + post) \<and> script E (aj + post) (bj + post) rest na nb \<and>
      (rest \<noteq> [] \<longrightarrow> aj + post + ctx \<le> a0 (hd rest))"
  proof (cases rest)
    case Nil
    then have "run E aj bj na nb" using sc(2) by simp
    then show ?thesis using run_sub [of E aj bj na nb aj "aj + post"] run_sub [of E aj bj na nb "aj + post" na] post Nil
      by (auto simp: run_def algebra_simps)
  next
    case (Cons c rs)
    then have rc: "run E aj bj (a0 c) (b0 c)" using sc(2) by simp
    have g: "2 * ctx < a0 c - aj" using th Cons by (simp add: aj_def)
    have d: "a0 c - aj = b0 c - bj" using rc by (simp add: run_def)
    have "run E aj bj (aj + post) (bj + post)" using run_sub [OF rc, of aj "aj + post"] post g 2(5) by simp
    moreover have "run E (aj + post) (bj + post) (a0 c) (b0 c)"
      using run_sub [OF rc, of "aj + post" "a0 c"] post g 2(5) d by (simp add: algebra_simps)
    ultimately show ?thesis using Cons sc(2) g post by simp
  qed
  have "script E (a0 b - pre) (b0 b - pre) h aj bj" using sc(1) t run_pre(1) by simp
  then have sh: "script E (a0 b - pre) (b0 b - pre) h (aj + post) (bj + post)" using script_append_run run_post by blast
  have n: "0 \<le> a0 b - pre" "0 \<le> b0 b - pre" "aj + post \<le> int (length A)" "bj + post \<le> int (length B)"
    using pre post 2(6,7) by simp_all
  obtain out where out: "patch_lines (map (tagged A B) (hunk_lines (a0 b - pre) (b0 b - pre) h (aj + post))) (drop (nat (a0 b - pre)) A) =
      Some (out, drop (nat (aj + post)) A)" "list_all2 P out (part B (b0 b - pre) (bj + post))"
    using hunk_lines_patch [OF sh n 2(8,9)] by blast
  have n2: "0 \<le> aj + post" "0 \<le> bj + post" using ab post by simp_all
  obtain more where more: "patch A B (hunks na nb ctx rest) (aj + post) (drop (nat (aj + post)) A) (bj + post) = Some more"
      "list_all2 P more (part B (bj + post) nb)"
    using 2(1) [OF h [symmetric] refl _ n2 2(5-9)] run_post by blast
  have al: "a0 b - pre \<le> aj + post" "b0 b - pre \<le> bj + post" using script_le [OF sh] by blast+
  have d: "drop (nat (a0 b - pre - px)) (drop (nat px) A) = drop (nat (a0 b - pre)) A" using px 2(3) by (simp flip: nat_add_distrib)
  have tk: "take (nat (a0 b - pre - px)) (drop (nat px) A) = part A px (a0 b - pre)" by (simp add: part_def)
  have len: "int (length (drop (nat (a0 b - pre)) A)) - int (length (drop (nat (aj + post)) A)) = aj + post - (a0 b - pre)"
    using n n2 al by simp
  have lo: "int (length out) = bj + post - (b0 b - pre)" using list_all2_lengthD [OF out(2)] length_part [OF n(2) al(2) n(4)] by simp
  have hs: "hunks na nb ctx (b # bs) = make_hunk na nb ctx h # hunks na nb ctx rest" using h by simp
  have c1: "px \<le> a0 b - pre \<and> a0 b - pre - px \<le> int (length (drop (nat px) A))" "py + (a0 b - pre - px) = b0 b - pre"
    using px x n al 2(3) by simp_all
  have pt: "patch A B (hunks na nb ctx (b # bs)) px (drop (nat px) A) py = Some (part A px (a0 b - pre) @ out @ more)"
    unfolding hs patch.simps mk hunk.simps d tk out(1) option.case prod.case len lo more(1) using c1 by simp
  have "list_all2 P (part A px (a0 b - pre)) (part B py (b0 b - pre))"
    using run_part [OF run_pre(2) 2(3,4) _ _ 2(9)] n al by simp
  moreover have "part B py nb = part B py (b0 b - pre) @ part B (b0 b - pre) (bj + post) @ part B (bj + post) nb"
    using part_append [of py "b0 b - pre" nb B] part_append [of "b0 b - pre" "bj + post" nb B] 2(4) n al 2(7) x px by simp
  ultimately show ?case using pt out(2) more(2) by (simp add: list_all2_appendI)
qed

section \<open>Two files\<close>

lemma trim_front_stops:
  assumes "trim_front E alo ahi blo bhi = (a, b)"
  shows "\<not> (a < ahi \<and> b < bhi \<and> E a b)"
  using assms
proof (induction E alo ahi blo bhi rule: trim_front.induct)
  case (1 E alo ahi blo bhi)
  then show ?case by (cases "alo < ahi \<and> blo < bhi \<and> E alo blo") (auto simp: trim_front.simps [of E alo ahi blo bhi] split: if_splits)
qed

lemma trimmed_all:
  assumes "trim_front E 0 na 0 nb = (alo, blo)" "trim_back E alo na blo nb = (ahi, bhi)" "0 \<le> na" "0 \<le> nb"
  shows "alo = ahi \<and> blo = bhi \<longleftrightarrow> run E 0 0 na nb"
proof
  assume e: "alo = ahi \<and> blo = bhi"
  show "run E 0 0 na nb" using trimmed(3) [OF assms, of "[]"] e run_refl by simp
next
  assume r: "run E 0 0 na nb"
  have f: "run E 0 0 alo blo" "alo \<le> na" "blo \<le> nb" using trim_front_correct [OF assms(1) assms(3,4)] by blast+
  have b: "run E ahi bhi na nb" "alo \<le> ahi" "blo \<le> bhi" using trim_back_correct [OF assms(2) f(2,3)] by blast+
  have n: "na = nb" "alo = blo" "0 \<le> alo" using r f(1) by (simp_all add: run_def)
  have "E (0 + alo) (0 + alo)" if "alo < na" using r n(3) that unfolding run_def by fastforce
  then have "alo = na" using trim_front_stops [OF assms(1)] f(2) n by fastforce
  then show "alo = ahi \<and> blo = bhi" using b n by (auto simp: run_def)
qed

lemma agree_eq:
  assumes "loaded opt FA" "loaded opt FB"
  shows "agree (eq opt FA FB) (\<lambda>s t. plain opt s = plain opt t) (f_line FA) (f_line FB)"
  using eq_plain [OF assms] by (auto simp: agree_def f_nlines_def)

lemma compare_lines_cases:
  assumes "compare_lines T opt FA FB ctx = (rc, calls)" "loaded opt FA" "loaded opt FB" "0 \<le> ctx"
    "E = eq opt FA FB" "na = f_nlines FA" "nb = f_nlines FB" "A = f_line FA" "B = f_line FB"
  shows "(rc = 0 \<and> calls = [] \<and> run E 0 0 na nb) \<or>
    (\<not> run E 0 0 na nb \<and>
      ((rc = 1 \<and> (\<exists>bs out. calls = emit FA FB ctx bs \<and> least_script E na nb bs \<and> cost bs \<le> int MAX_D \<and>
          patch A B (hunks na nb ctx bs) 0 A 0 = Some out \<and> list_all2 (\<lambda>s t. plain opt s = plain opt t) out B)) \<or>
       (rc = 1 \<and> (\<forall>bs. script E 0 0 bs na nb \<longrightarrow> int MAX_D < cost bs)) \<or>
       (rc = 2 \<and> (\<exists>n. \<not> t_alloc T n))))"
proof -
  obtain alo blo where f: "trim_front E 0 na 0 nb = (alo, blo)" by fastforce
  obtain ahi bhi where b: "trim_back E alo na blo nb = (ahi, bhi)" by fastforce
  have n: "0 \<le> na" "0 \<le> nb" "na = int (length A)" "nb = int (length B)" using assms(6-9) by (simp_all add: f_nlines_def)
  note t = trimmed [OF f b n(1,2)] and all = trimmed_all [OF f b n(1,2)]
  note u = assms(1) [unfolded compare_lines_def Let_def assms(5-7) [symmetric] f prod.case b]
  show ?thesis
  proof (cases "alo = ahi \<and> blo = bhi")
    case True
    then show ?thesis using u all by simp
  next
    case False
    obtain r bs where m: "myers E (t_alloc T) (\<lambda>_. 0) alo ahi blo bhi = (r, bs)" by fastforce
    note mc = myers_correct [OF t(1,2), of E "t_alloc T" "\<lambda>_. 0", unfolded m prod.case Let_def edits_def [symmetric]]
    have nr: "\<not> run E 0 0 na nb" using all False by blast
    from mc consider (found) "r = 0" "script E alo blo bs ahi bhi" "cost bs \<le> int MAX_D" "\<forall>d. edits E alo ahi blo bhi d \<longrightarrow> cost bs \<le> int d"
      | (far) "r = 1" "\<forall>d. edits E alo ahi blo bhi d \<longrightarrow> int MAX_D < int d"
      | (starved) "r = 2" "\<exists>n. \<not> t_alloc T n" by blast
    then show ?thesis
    proof cases
      case found
      have s: "script E 0 0 bs na nb" using t(3) found(2) by blast
      have "cost bs \<le> cost bs'" if "script E 0 0 bs' na nb" for bs'
        using t(4) [OF that] found(4) by force
      then have "least_script E na nb bs" using s by (simp add: least_script_def)
      moreover have "\<exists>out. patch A B (hunks na nb ctx bs) 0 A 0 = Some out \<and> list_all2 (\<lambda>s t. plain opt s = plain opt t) out B"
        using hunks_patch [OF s _ _ assms(4) n(3,4) _ agree_eq [OF assms(2,3), folded assms(5,8,9)]] n(4) part_all(1) [of B] by simp
      moreover have "rc = 1" "calls = emit FA FB ctx bs" using u False found(1) m by simp_all
      ultimately show ?thesis using nr found(3) by blast
    next
      case far
      have "int MAX_D < cost bs'" if "script E 0 0 bs' na nb" for bs' using t(4) [OF that] far(2) by force
      moreover have "rc = 1" using u False far(1) m by simp
      ultimately show ?thesis using nr by blast
    next
      case starved
      then have "rc = 2" using u False m by simp
      then show ?thesis using nr starved(2) by blast
    qed
  qed
qed

lemma plain_no_options: "plain \<lparr>icase = False, iwhite = False\<rparr> s = s"
  by (induction s) (simp_all add: fold_case_def)

text \<open>
  C6: for two text files that were read in, \<open>diff\<close> says 0 and prints nothing exactly when their lines
  are pairwise equal; it says 1 with hunks that, applied to the first file, give the second, and that
  remove and add no more lines than any other edit does, at most \<open>MAX_D\<close>; or it says 1 without
  hunks because every edit takes more than that; or 2, and then an allocation failed.
\<close>

theorem diff_files_correct:
  assumes "t_open T pa = Some fa" "t_open T pb = Some fb" "0 \<notin> set (content fa)" "0 \<notin> set (content fb)"
    "load T opt pa = Inl FA" "load T opt pb = Inl FB" "0 \<le> ctx" "diff_files T opt pa pb ctx False = (rc, calls)"
    "E = eq opt FA FB" "na = f_nlines FA" "nb = f_nlines FB" "A = f_line FA" "B = f_line FB"
  shows "joins FA = content fa \<and> joins FB = content fb \<and>
    ((rc = 0 \<and> calls = [] \<and> run E 0 0 na nb) \<or>
     (\<not> run E 0 0 na nb \<and>
       ((rc = 1 \<and> (\<exists>bs out. calls = emit FA FB ctx bs \<and> least_script E na nb bs \<and> cost bs \<le> int MAX_D \<and>
           patch A B (hunks na nb ctx bs) 0 A 0 = Some out \<and> list_all2 (\<lambda>s t. plain opt s = plain opt t) out B)) \<or>
        (rc = 1 \<and> (\<forall>bs. script E 0 0 bs na nb \<longrightarrow> int MAX_D < cost bs)) \<or>
        (rc = 2 \<and> (\<exists>n. \<not> t_alloc T n)))))"
proof -
  note la = load_text [OF assms(5,1,3)] and lb = load_text [OF assms(6,2,4)]
  have "compare_lines T opt FA FB ctx = (rc, calls)"
    using assms(8) la lb by (simp add: diff_files_def assms(5,6) compare_files_def)
  then show ?thesis using compare_lines_cases [OF _ _ _ assms(7,9-13)] la lb by blast
qed

text \<open>Two files that differ in one line, and in the newline after it.\<close>

definition two_files :: "u8 list \<Rightarrow> u8 list \<Rightarrow> tree" where
  "two_files a b = \<lparr>t_open = (\<lambda>p. if p = [97] then Some [Some a] else if p = [98] then Some [Some b] else None),
     t_stat = (\<lambda>f p. None), t_list = (\<lambda>p. None), t_link = (\<lambda>p. None), t_alloc = (\<lambda>n. True)\<rparr>"

definition no_options :: options where
  "no_options = \<lparr>icase = False, iwhite = False\<rparr>"

lemma load_two_files:
  "load (two_files [120, 10, 121, 10] [120, 10, 122]) no_options [97] = Inl \<lparr>f_path = [97], f_data = [120, 0, 121, 0],
     f_line = [[120], [121]], f_hash = map (hash_line no_options) [[120], [121]], f_no_final_nl = False, f_binary = False\<rparr>"
  "load (two_files [120, 10, 121, 10] [120, 10, 122]) no_options [98] = Inl \<lparr>f_path = [98], f_data = [120, 0, 122],
     f_line = [[120], [122]], f_hash = map (hash_line no_options) [[120], [122]], f_no_final_nl = True, f_binary = False\<rparr>"
  by (simp_all add: load_def two_files_def MAX_BYTES_def MAX_LINES_def read_loop.simps)

lemma diff_files_correct_witness:
  "\<exists>FA FB bs. load (two_files [120, 10, 121, 10] [120, 10, 122]) no_options [97] = Inl FA \<and>
    load (two_files [120, 10, 121, 10] [120, 10, 122]) no_options [98] = Inl FB \<and>
    least_script (eq no_options FA FB) 2 2 bs \<and> patch [[120 :: u8], [121]] [[120], [122]] (hunks 2 2 3 bs) 0 [[120], [121]] 0 = Some [[120], [122]]"
proof -
  let ?T = "two_files [120, 10, 121, 10] [120, 10, 122]"
  note la = load_two_files(1) and lb = load_two_files(2)
  obtain rc calls where d: "diff_files ?T no_options [97] [98] 3 False = (rc, calls)" by fastforce
  have f: "t_open ?T [97] = Some [Some [120, 10, 121, 10]]" "t_open ?T [98] = Some [Some [120, 10, 122]]" by (simp_all add: two_files_def)
  let ?FA = "\<lparr>f_path = [97], f_data = [120, 0, 121, 0], f_line = [[120], [121]],
      f_hash = map (hash_line no_options) [[120], [121]], f_no_final_nl = False, f_binary = False\<rparr>"
  let ?FB = "\<lparr>f_path = [98], f_data = [120, 0, 122], f_line = [[120], [122]],
      f_hash = map (hash_line no_options) [[120], [122]], f_no_final_nl = True, f_binary = False\<rparr>"
  have n: "f_nlines ?FA = 2" "f_nlines ?FB = 2" by (simp_all add: f_nlines_def)
  have ne: "\<not> eq no_options ?FA ?FB 1 1" by code_simp
  have "eq no_options ?FA ?FB 0 0" by code_simp
  then have "eq no_options ?FA ?FB (0 + t) (0 + t)" if "0 \<le> t \<and> t < 1" for t :: int
    using that by (metis add_0 int_one_le_iff_zero_less not_le order.antisym)
  then have s: "script (eq no_options ?FA ?FB) 0 0 [\<lparr>a0 = 1, alen = 1, b0 = 1, blen = 1\<rparr>] 2 2"
    by (auto simp: run_def)
  have c: "cost [\<lparr>a0 = 1, alen = 1, b0 = 1, blen = 1\<rparr>] \<le> int MAX_D" by (simp add: cost_def MAX_D_def)
  have "0 \<notin> set (content [Some [120, 10, 121, 10]])" "0 \<notin> set (content [Some [120, 10, 122]])" by simp_all
  note r = diff_files_correct [OF f this la lb zero_le_numeral d refl refl refl refl refl, unfolded n file_t.simps]
  have "\<not> (\<forall>bs. script (eq no_options ?FA ?FB) 0 0 bs 2 2 \<longrightarrow> int MAX_D < cost bs)" using s c by (meson not_less)
  moreover have "\<not> run (eq no_options ?FA ?FB) 0 0 2 2" using ne unfolding run_def by fastforce
  moreover have "t_alloc ?T n" for n by (simp add: two_files_def)
  ultimately have "\<exists>bs out. least_script (eq no_options ?FA ?FB) 2 2 bs \<and>
      patch [[120], [121]] [[120], [122]] (hunks 2 2 3 bs) 0 [[120], [121]] 0 = Some out \<and>
      list_all2 (\<lambda>s t. plain no_options s = plain no_options t) out [[120], [122]]"
    using r by blast
  then obtain bs out where o: "least_script (eq no_options ?FA ?FB) 2 2 bs" "patch [[120], [121]] [[120], [122]] (hunks 2 2 3 bs) 0 [[120], [121]] 0 = Some out"
      "list_all2 (\<lambda>s t. plain no_options s = plain no_options t) out [[120], [122]]"
    by blast
  have "out = [[120], [122]]" using o(3) by (simp add: no_options_def plain_no_options list_all2_eq [symmetric])
  then show ?thesis using la lb o by blast
qed

section \<open>The quick comparison\<close>

text \<open>The lines that end in a newline, and what is after the last one.\<close>

definition ended :: "file_t \<Rightarrow> cstring list" where
  "ended f = (if f_no_final_nl f then butlast (f_line f) else f_line f)"

definition unended :: "file_t \<Rightarrow> cstring" where
  "unended f = (if f_no_final_nl f then last (f_line f) else [])"

lemma joins_ended: "joins f = join (ended f) @ unended f"
  by (simp add: joins_def ended_def unended_def)

lemma fold_case_newline [simp]: "fold_case opt c = 10 \<longleftrightarrow> c = 10"
proof
  assume "fold_case opt c = 10"
  moreover have "c + 32 \<noteq> 10" if "65 \<le> c" "c \<le> 90"
  proof
    assume "c + 32 = 10"
    then have "unat (c + 32) = unat (10 :: u8)" by (rule arg_cong)
    moreover have "unat (c + 32) = unat c + 32"
      using that by (subst unat_add_lem [THEN iffD1]) (simp_all add: word_le_nat_alt)
    ultimately show False using that by (simp add: word_le_nat_alt)
  qed
  ultimately show "c = 10" by (auto simp: fold_case_def split: if_splits)
qed (simp add: fold_case_def)

lemma plain_newline: "10 \<in> set (plain opt s) \<longleftrightarrow> 10 \<in> set s"
  by (induction s) (auto simp: white_def dest: sym)

lemma plain_join: "plain opt (join ls) = join (map (plain opt) ls)"
  by (induction ls) (auto simp: join_def white_def)

lemma plain_Nil: "\<not> iwhite opt \<Longrightarrow> plain opt s = [] \<longleftrightarrow> s = []"
  by (cases s) auto

definition sound :: "file_t \<Rightarrow> bool" where
  "sound f \<longleftrightarrow> (\<forall>l \<in> set (f_line f). 10 \<notin> set l) \<and> (f_no_final_nl f \<longrightarrow> f_line f \<noteq> [] \<and> last (f_line f) \<noteq> [])"

lemma sound_parts: "sound f \<Longrightarrow> (\<forall>l \<in> set (ended f). 10 \<notin> set l) \<and> 10 \<notin> set (unended f) \<and> (unended f \<noteq> [] \<longleftrightarrow> f_no_final_nl f) \<and>
    f_line f = ended f @ (if f_no_final_nl f then [unended f] else [])"
  by (auto simp: sound_def ended_def unended_def dest: in_set_butlastD)

lemma plain_joins:
  assumes "sound FA" "sound FB" "\<not> iwhite opt"
  shows "plain opt (joins FA) = plain opt (joins FB) \<longleftrightarrow>
    map (plain opt) (f_line FA) = map (plain opt) (f_line FB) \<and> f_no_final_nl FA = f_no_final_nl FB"
proof -
  note a = sound_parts [OF assms(1)] and b = sound_parts [OF assms(2)]
  have "plain opt (joins FA) = plain opt (joins FB) \<longleftrightarrow>
      map (plain opt) (ended FA) = map (plain opt) (ended FB) \<and> plain opt (unended FA) = plain opt (unended FB)"
    unfolding joins_ended plain_simps plain_join
    using join_unique [of "map (plain opt) (ended FA)" "plain opt (unended FA)" "map (plain opt) (ended FB)" "plain opt (unended FB)"] a b
    by (auto simp: plain_newline)
  moreover have "f_no_final_nl FA \<longleftrightarrow> plain opt (unended FA) \<noteq> []" "f_no_final_nl FB \<longleftrightarrow> plain opt (unended FB) \<noteq> []"
    using a b plain_Nil [OF assms(3)] by auto
  moreover have "map (plain opt) (f_line f) = map (plain opt) (ended f) @ (if f_no_final_nl f then [plain opt (unended f)] else [])"
    if "f \<in> {FA, FB}" for f using that a b by auto
  ultimately show ?thesis by auto
qed

lemma run_all:
  assumes "loaded opt FA" "loaded opt FB" "sound FA" "sound FB"
  shows "run (eq opt FA FB) 0 0 (f_nlines FA) (f_nlines FB) \<longleftrightarrow>
    map (plain opt) (f_line FA) = map (plain opt) (f_line FB) \<and> f_no_final_nl FA = f_no_final_nl FB"
    (is "?r \<longleftrightarrow> ?m")
proof
  assume r: ?r
  then have n: "f_nlines FA = f_nlines FB" by (simp add: run_def)
  have e: "eq opt FA FB (int i) (int i)" if "i < length (f_line FA)" for i
    using r that unfolding run_def by (auto simp: f_nlines_def)
  have "map (plain opt) (f_line FA) = map (plain opt) (f_line FB)"
  proof (rule nth_equalityI)
    show l: "length (map (plain opt) (f_line FA)) = length (map (plain opt) (f_line FB))" using n by (simp add: f_nlines_def)
    fix i
    assume "i < length (map (plain opt) (f_line FA))"
    then show "map (plain opt) (f_line FA) ! i = map (plain opt) (f_line FB) ! i"
      using e [of i] l eq_plain [OF assms(1,2), of "int i" "int i"] by (simp add: f_nlines_def)
  qed
  moreover have "f_no_final_nl FA = f_no_final_nl FB"
  proof (cases "f_line FA = []")
    case True
    then show ?thesis using assms(3,4) n by (auto simp: sound_def f_nlines_def)
  next
    case False
    define i where "i = length (f_line FA) - 1"
    have i: "i < length (f_line FA)" "int i = f_nlines FA - 1" using False by (cases "f_line FA"; simp add: i_def f_nlines_def)+
    then show ?thesis using e [OF i(1)] eq_plain [OF assms(1,2), of "int i" "int i"] n by simp
  qed
  ultimately show ?m by simp
next
  assume m: ?m
  then have l: "length (f_line FA) = length (f_line FB)" by (metis length_map)
  have "plain opt (f_line FA ! i) = plain opt (f_line FB ! i)" if "i < length (f_line FA)" for i
    using m l that by (metis nth_map)
  then have "eq opt FA FB t t" if "0 \<le> t \<and> t < f_nlines FA" for t
    using that l m eq_plain [OF assms(1,2), of t t] by (auto simp: f_nlines_def)
  then show ?r using l by (simp add: run_def f_nlines_def)
qed

text \<open>
  C28: without \<open>-w\<close>, \<open>diff -q\<close> says that two text files are the same exactly when \<open>diff\<close> does, however
  they are cut into reads.
\<close>

theorem quick_agrees:
  assumes "t_open T pa = Some fa" "t_open T pb = Some fb" "0 \<notin> set (content fa)" "0 \<notin> set (content fb)"
    "load T opt pa = Inl FA" "load T opt pb = Inl FB" "0 \<le> ctx" "\<not> iwhite opt"
  shows "fst (diff_files T opt pa pb ctx True) = 0 \<longleftrightarrow> fst (diff_files T opt pa pb ctx False) = 0"
proof -
  note la = load_text [OF assms(5,1,3)] and lb = load_text [OF assms(6,2,4)]
  have s: "sound FA" "sound FB" using la lb by (simp_all add: sound_def)
  obtain rc calls where c: "compare_lines T opt FA FB ctx = (rc, calls)" by fastforce
  have "diff_files T opt pa pb ctx False = (rc, calls)"
    using c la lb by (simp add: diff_files_def assms(5,6) compare_files_def)
  moreover have "rc = 0 \<longleftrightarrow> run (eq opt FA FB) 0 0 (f_nlines FA) (f_nlines FB)"
    using compare_lines_cases [OF c _ _ assms(7) refl refl refl refl refl] la lb by auto
  moreover have "fst (diff_files T opt pa pb ctx True) = 0 \<longleftrightarrow> plain opt (joins FA) = plain opt (joins FB)"
    using la lb by (auto simp: diff_files_def quick_def assms(1,2) quick_loop_plain)
  ultimately show ?thesis using plain_joins [OF s assms(8)] run_all [OF _ _ s, of opt] la lb by simp
qed

lemma quick_agrees_witness:
  "fst (diff_files (two_files [120, 10, 121, 10] [120, 10, 122]) no_options [97] [98] 3 True) = 1 \<and>
   fst (diff_files (two_files [120, 10, 121, 10] [120, 10, 122]) no_options [97] [98] 3 False) \<noteq> 0"
proof -
  let ?T = "two_files [120, 10, 121, 10] [120, 10, 122]"
  have f: "t_open ?T [97] = Some [Some [120, 10, 121, 10]]" "t_open ?T [98] = Some [Some [120, 10, 122]]" by (simp_all add: two_files_def)
  have z: "0 \<notin> set (content [Some [120, 10, 121, 10]])" "0 \<notin> set (content [Some [120, 10, 122]])" by simp_all
  have q: "fst (diff_files ?T no_options [97] [98] 3 True) = 1"
    by (simp add: diff_files_def quick_def f quick_loop_plain no_options_def plain_no_options)
  show ?thesis using quick_agrees [OF f z load_two_files zero_le_numeral [of "num.Bit1 num.One"]] q by (simp add: no_options_def)
qed

text \<open>
  With \<open>-w\<close> they do not: white space after the last newline is a line for \<open>diff\<close> and nothing for
  \<open>diff -q\<close>.
\<close>

lemma quick_white_differs:
  "let T = two_files [120, 10, 32] [120, 10]; opt = \<lparr>icase = False, iwhite = True\<rparr>
   in fst (diff_files T opt [97] [98] 3 True) = 0 \<and> fst (diff_files T opt [97] [98] 3 False) \<noteq> 0"
proof -
  let ?T = "two_files [120, 10, 32] [120, 10]" and ?o = "\<lparr>icase = False, iwhite = True\<rparr>"
  have f: "t_open ?T [97] = Some [Some [120, 10, 32]]" "t_open ?T [98] = Some [Some [120, 10]]" by (simp_all add: two_files_def)
  have q: "fst (diff_files ?T ?o [97] [98] 3 True) = 0"
    by (simp add: diff_files_def quick_def f quick_loop_plain plain_def white_def fold_case_def)
  obtain FA FB where l: "load ?T ?o [97] = Inl FA" "f_nlines FA = 2" "load ?T ?o [98] = Inl FB" "f_nlines FB = 1"
    by (simp add: load_def two_files_def MAX_BYTES_def MAX_LINES_def read_loop.simps f_nlines_def)
  obtain rc calls where c: "compare_lines ?T ?o FA FB 3 = (rc, calls)" by fastforce
  have z: "0 \<notin> set (content [Some [120, 10, 32]])" "0 \<notin> set (content [Some [120, 10]])" by simp_all
  note la = load_text [OF l(1) f(1) z(1)] and lb = load_text [OF l(3) f(2) z(2)]
  have "rc \<noteq> 0" using compare_lines_cases [OF c _ _ zero_le_numeral refl refl refl refl refl] la lb l by (auto simp: run_def)
  then have "fst (diff_files ?T ?o [97] [98] 3 False) \<noteq> 0"
    using c la lb by (simp add: diff_files_def l compare_files_def)
  then show ?thesis using q by (simp add: Let_def)
qed

text \<open>A number of context lines that does not fit an \<open>int\<close> becomes a negative one.\<close>

lemma context_wraps: "letters (cs ''U4294967295'') [] cmd = Some (Go (cmd\<lparr>c_ctx := -1\<rparr>) [])"
  by (simp add: cs_def atoi_def strtol_def Let_def strtol_digit_def MAX_LINES_def)

text \<open>
  A text is taken for the same as a file with NUL where the text has newlines, because its newlines are
  NUL by the time the bytes are compared; \<open>diff -q\<close> tells them apart.
\<close>

lemma newline_taken_for_NUL:
  "let T = two_files [120, 10] [120, 0]
   in diff_files T no_options [97] [98] 3 False = (0, []) \<and> fst (diff_files T no_options [97] [98] 3 True) = 1"
proof -
  have f: "t_open (two_files [120, 10] [120, 0]) [97] = Some [Some [120, 10]]" "t_open (two_files [120, 10] [120, 0]) [98] = Some [Some [120, 0]]"
    by (simp_all add: two_files_def)
  have "fst (diff_files (two_files [120, 10] [120, 0]) no_options [97] [98] 3 True) = 1"
    by (simp add: diff_files_def quick_def f quick_loop_plain no_options_def plain_no_options)
  moreover have "diff_files (two_files [120, 10] [120, 0]) no_options [97] [98] 3 False = (0, [])"
    by (simp add: diff_files_def compare_files_def load_def two_files_def MAX_BYTES_def MAX_LINES_def read_loop.simps)
  ultimately show ?thesis by (simp add: Let_def)
qed

end
