(* ===== verification/LpKernel.thy ===== *)
theory LpKernel
  imports LpString LpFiles StdioCall
begin

text \<open>
  What the shell and the editor share: characters, the system calls they make and the kernel's answers.
  The kernel is a parameter, a function of the calls made so far and the next one.
\<close>

section \<open>Characters\<close>

abbreviation SP :: u8 where "SP \<equiv> 32"
abbreviation TAB :: u8 where "TAB \<equiv> 9"
abbreviation LF :: u8 where "LF \<equiv> 10"
abbreviation CR :: u8 where "CR \<equiv> 13"
abbreviation DQUOTE :: u8 where "DQUOTE \<equiv> 34"
abbreviation HASH :: u8 where "HASH \<equiv> 35"
abbreviation DOLLAR :: u8 where "DOLLAR \<equiv> 36"
abbreviation AMPER :: u8 where "AMPER \<equiv> 38"
abbreviation SQUOTE :: u8 where "SQUOTE \<equiv> 39"
abbreviation LPAREN :: u8 where "LPAREN \<equiv> 40"
abbreviation RPAREN :: u8 where "RPAREN \<equiv> 41"
abbreviation STAR :: u8 where "STAR \<equiv> 42"
abbreviation DOT :: u8 where "DOT \<equiv> 46"
abbreviation SLASH :: u8 where "SLASH \<equiv> 47"
abbreviation SEMI :: u8 where "SEMI \<equiv> 59"
abbreviation LESS :: u8 where "LESS \<equiv> 60"
abbreviation EQUALS :: u8 where "EQUALS \<equiv> 61"
abbreviation GREATER :: u8 where "GREATER \<equiv> 62"
abbreviation QUERY :: u8 where "QUERY \<equiv> 63"
abbreviation BSLASH :: u8 where "BSLASH \<equiv> 92"
abbreviation BTICK :: u8 where "BTICK \<equiv> 96"
abbreviation LBRACE :: u8 where "LBRACE \<equiv> 123"
abbreviation BAR :: u8 where "BAR \<equiv> 124"
abbreviation RBRACE :: u8 where "RBRACE \<equiv> 125"
abbreviation TILDE :: u8 where "TILDE \<equiv> 126"

text \<open>The string in a buffer of the given size after \<open>strlcpy\<close>.\<close>

definition clip :: "nat \<Rightarrow> cstring \<Rightarrow> cstring" where
  "clip cap s = take (cap - 1) s"

section \<open>System calls\<close>

datatype call =
    Open cstring nat | Close int | Dup int | Dup2 int int | Pipe | Fork | Waitpid int bool
  | Read int nat | Readline int nat | Getdents int | Exists cstring | Is_dir cstring
  | Stat cstring bool | Access cstring nat | Chdir cstring | Getcwd nat | Kill int int
  | Sleep_ms nat | Signal_ignore int | Signal_default int | Execve cstring "cstring list"
  | Put print_call | Fputs cstring | Write int "u8 list"
  | Term_raw int | Term_restore int | Term_size int | Term_sane int | Proc_read cstring nat
  | Open_mode cstring nat u32 | Unlink cstring | Rename cstring cstring | Sync | Waiting int

text \<open>
  \<open>r_val\<close> is the value returned, the other fields what the call fills in: bytes, the two ends of a
  pipe, attributes, a status, or the buffers \<open>getdents\<close> gives one after the other.
\<close>

record reply =
  r_val :: int
  r_bytes :: "u8 list"
  r_ends :: "int \<times> int"
  r_stat :: lp_stat
  r_status :: u32
  r_dents :: "u8 list list"

record world =
  kernel :: "call list \<Rightarrow> call \<Rightarrow> reply"
  alloc :: "nat \<Rightarrow> bool"

definition O_RDONLY :: nat where "O_RDONLY = 0"
definition O_WRONLY :: nat where "O_WRONLY = 1"
definition O_CREAT :: nat where "O_CREAT = 64"
definition O_TRUNC :: nat where "O_TRUNC = 512"
definition O_APPEND :: nat where "O_APPEND = 1024"
definition O_DIRECTORY :: nat where "O_DIRECTORY = 16384"

end
