(* ===== verification/ShWord.thy ===== *)
theory ShWord
  imports LpKernel
begin

text \<open>
  The parts of the shell (\<open>userland/sh/sh.c\<close>) that only look at text: brackets, wildcards, the
  first word of a line, the start of a function, and the splitting of a line at its semicolons.  A
  pointer into a string is the string from there on; a pointer that a caller subtracts from another
  is an index.
\<close>

section \<open>Sizes and characters\<close>

definition MAX_LINE :: nat where "MAX_LINE = 1024"
definition MAX_ARGS :: nat where "MAX_ARGS = 64"
definition MAX_CMDS :: nat where "MAX_CMDS = 8"
definition MAX_PIPES :: nat where "MAX_PIPES = 8"

definition sh_is_space :: "u8 \<Rightarrow> bool" where
  "sh_is_space c \<longleftrightarrow> c = SP \<or> c = TAB \<or> c = CR"

definition is_name_char :: "u8 \<Rightarrow> bool" where
  "is_name_char c \<longleftrightarrow> (97 \<le> c \<and> c \<le> 122) \<or> (65 \<le> c \<and> c \<le> 90) \<or> (48 \<le> c \<and> c \<le> 57) \<or> c = 95"

text \<open>What a loop \<open>n < size\<close> appends.\<close>

definition bput :: "nat \<Rightarrow> u8 list \<Rightarrow> u8 \<Rightarrow> u8 list" where
  "bput cap b c = (if length b < cap then b @ [c] else b)"

definition bputs :: "nat \<Rightarrow> u8 list \<Rightarrow> u8 list \<Rightarrow> u8 list" where
  "bputs cap b t = b @ take (cap - length b) t"

definition blank :: "u8 \<Rightarrow> bool" where
  "blank c \<longleftrightarrow> c = SP \<or> c = TAB"

definition skip_blank :: "cstring \<Rightarrow> cstring" where
  "skip_blank s = dropWhile blank s"

section \<open>Brackets\<close>

fun paren_loop :: "nat \<Rightarrow> nat \<Rightarrow> bool \<Rightarrow> bool \<Rightarrow> cstring \<Rightarrow> nat option" where
  "paren_loop i depth in_single in_double [] = None"
| "paren_loop i depth in_single in_double (c # s) =
     (if in_single then paren_loop (i + 1) depth (c \<noteq> SQUOTE) in_double s
      else if in_double then paren_loop (i + 1) depth in_single (c \<noteq> DQUOTE) s
      else if c = SQUOTE then paren_loop (i + 1) depth True in_double s
      else if c = DQUOTE then paren_loop (i + 1) depth in_single True s
      else if c = LPAREN then paren_loop (i + 1) (depth + 1) in_single in_double s
      else if c = RPAREN then
        (if depth - 1 = 0 then Some i else paren_loop (i + 1) (depth - 1) in_single in_double s)
      else paren_loop (i + 1) depth in_single in_double s)"

definition matching_paren :: "cstring \<Rightarrow> nat option" where
  "matching_paren s = paren_loop 0 1 False False s"

fun backtick_close :: "nat \<Rightarrow> cstring \<Rightarrow> nat option" where
  "backtick_close i [] = None"
| "backtick_close i (c # s) =
     (if c = BSLASH \<and> s \<noteq> [] then backtick_close (i + 2) (tl s)
      else if c = BTICK then Some i
      else backtick_close (i + 1) s)"

section \<open>Wildcards\<close>

text \<open>After a \<open>*\<close> the rest of the pattern is tried at every place of the name, its end included.\<close>

function glob_match :: "cstring \<Rightarrow> cstring \<Rightarrow> bool" and glob_try :: "cstring \<Rightarrow> cstring \<Rightarrow> bool" where
  "glob_match [] nm = (nm = [])"
| "glob_match (c # pat) nm =
     (if c = STAR then (if pat = [] then True else glob_try pat nm)
      else if nm = [] then False
      else if c \<noteq> QUERY \<and> c \<noteq> hd nm then False
      else glob_match pat (tl nm))"
| "glob_try pat [] = glob_match pat []"
| "glob_try pat (x # nm) = (if glob_match pat (x # nm) then True else glob_try pat nm)"
  by pat_completeness auto
termination
  by (relation "measures [\<lambda>p. case p of Inl (pat, nm) \<Rightarrow> length pat | Inr (pat, nm) \<Rightarrow> length pat,
        \<lambda>p. case p of Inl (pat, nm) \<Rightarrow> 0 | Inr (pat, nm) \<Rightarrow> 1 + length nm]") auto

section \<open>Words of a line\<close>

definition first_word :: "cstring \<Rightarrow> nat \<Rightarrow> cstring" where
  "first_word line cap = take (cap - 1) (takeWhile (\<lambda>c. \<not> blank c) (skip_blank line))"

text \<open>The name that \<open>is_func_def\<close> writes is wanted only when it answers yes.\<close>

definition is_func_def :: "cstring \<Rightarrow> nat \<Rightarrow> cstring option" where
  "is_func_def line cap =
     (let line = skip_blank line;
          nm = take (cap - 1) (takeWhile is_name_char line);
          line = skip_blank (drop (length nm) line)
      in if nm = [] then None
         else if deref line \<noteq> LPAREN then None
         else
           (let line = skip_blank (tl line) in
            if deref line \<noteq> RPAREN then None
            else if deref (skip_blank (tl line)) = LBRACE then Some nm else None))"

definition opens_block :: "cstring \<Rightarrow> bool" where
  "opens_block w \<longleftrightarrow> w = cs ''if'' \<or> w = cs ''while'' \<or> w = cs ''for''"

definition closes_block :: "cstring \<Rightarrow> bool" where
  "closes_block w \<longleftrightarrow> w = cs ''fi'' \<or> w = cs ''done''"

text \<open>
  The scanner that \<open>unquoted_semicolon\<close> and \<open>pipe_into_block\<close> share: the quote it is inside of, the
  depth of \<open>$( )\<close>, and whether it is inside backticks.  \<open>Stop\<close> is a character outside all of them.
\<close>

record scan =
  quote :: u8
  sc_depth :: nat
  backtick :: bool

datatype scanned = Skip nat scan | Stop

definition scan_char :: "scan \<Rightarrow> u8 \<Rightarrow> cstring \<Rightarrow> scanned" where
  "scan_char st c s =
     (if c = BSLASH \<and> s \<noteq> [] then Skip 2 st
      else if quote st \<noteq> 0 then Skip 1 (if c = quote st then st\<lparr>quote := 0\<rparr> else st)
      else if backtick st then Skip 1 (if c = BTICK then st\<lparr>backtick := False\<rparr> else st)
      else if c = SQUOTE \<or> c = DQUOTE then Skip 1 (st\<lparr>quote := c\<rparr>)
      else if c = BTICK then Skip 1 (st\<lparr>backtick := True\<rparr>)
      else if c = DOLLAR \<and> deref s = LPAREN then Skip 2 (st\<lparr>sc_depth := sc_depth st + 1\<rparr>)
      else if c = LPAREN \<and> sc_depth st > 0 then Skip 1 (st\<lparr>sc_depth := sc_depth st + 1\<rparr>)
      else if c = RPAREN \<and> sc_depth st > 0 then Skip 1 (st\<lparr>sc_depth := sc_depth st - 1\<rparr>)
      else if sc_depth st > 0 then Skip 1 st
      else Stop)"

definition scan_start :: scan where
  "scan_start = \<lparr>quote = 0, sc_depth = 0, backtick = False\<rparr>"

fun semicolon_loop :: "nat \<Rightarrow> scan \<Rightarrow> nat \<Rightarrow> cstring \<Rightarrow> nat option" where
  "semicolon_loop 0 st i s = None"
| "semicolon_loop (Suc k) st i [] = None"
| "semicolon_loop (Suc k) st i (c # s) =
     (case scan_char st c s of
        Skip d st \<Rightarrow> semicolon_loop k st (i + d) (drop d (c # s))
      | Stop \<Rightarrow> if c = SEMI then Some i else semicolon_loop k st (i + 1) s)"

definition unquoted_semicolon :: "cstring \<Rightarrow> nat option" where
  "unquoted_semicolon p = semicolon_loop (length p) scan_start 0 p"

text \<open>The line cut short at the bar, and the rest from the keyword on.\<close>

definition rtrim :: "cstring \<Rightarrow> cstring" where
  "rtrim s = rev (dropWhile blank (rev s))"

fun pipe_loop :: "nat \<Rightarrow> cstring \<Rightarrow> scan \<Rightarrow> nat \<Rightarrow> cstring \<Rightarrow> (cstring \<times> cstring) option" where
  "pipe_loop 0 line st i s = None"
| "pipe_loop (Suc k) line st i [] = None"
| "pipe_loop (Suc k) line st i (c # s) =
     (case scan_char st c s of
        Skip d st \<Rightarrow> pipe_loop k line st (i + d) (drop d (c # s))
      | Stop \<Rightarrow>
          if c \<noteq> BAR then pipe_loop k line st (i + 1) s
          else if deref s = BAR then pipe_loop k line st (i + 2) (tl s)
          else
            (let q = skip_blank s; w = take 15 (takeWhile (\<lambda>c. \<not> blank c) q) in
             if opens_block w then Some (rtrim (take i line), q) else None))"

definition pipe_into_block :: "cstring \<Rightarrow> (cstring \<times> cstring) option" where
  "pipe_into_block line = pipe_loop (length line) line scan_start 0 line"

section \<open>Splitting a line into statements\<close>

text \<open>
  \<open>out\<close> is an array of the caller, from \<open>off\<close> on; its slots that are not written keep what they held.
  The result is the number of statements the function answers and the array.
\<close>

definition splittable :: "cstring \<Rightarrow> bool" where
  "splittable kw \<longleftrightarrow> kw = cs ''then'' \<or> kw = cs ''do'' \<or> kw = cs ''else''"

definition after_keyword :: "cstring \<Rightarrow> cstring \<Rightarrow> cstring" where
  "after_keyword line kw = (case strstr line kw of Some t \<Rightarrow> drop (strlen kw) t | None \<Rightarrow> [])"

definition put_statement :: "nat \<Rightarrow> nat \<Rightarrow> nat \<Rightarrow> cstring list \<Rightarrow> cstring \<Rightarrow> nat \<times> cstring list" where
  "put_statement mx off n out stmt =
     (let out = out[off + n := stmt] in
      if stmt = [] then (n, out)
      else
        (let kw = first_word stmt 32 in
         if splittable kw \<and> n + 1 < mx then
           (let rest = skip_blank (after_keyword stmt kw) in
            if rest \<noteq> [] then (n + 2, out[off + (n + 1) := clip MAX_LINE rest, off + n := clip MAX_LINE kw])
            else (n + 1, out))
         else (n + 1, out)))"

function split_loop :: "nat \<Rightarrow> nat \<Rightarrow> nat \<Rightarrow> cstring list \<Rightarrow> cstring \<Rightarrow> nat \<times> cstring list" where
  "split_loop mx off n out p =
     (if p = [] \<or> n \<ge> mx then (n, out)
      else
        (let p = skip_blank p in
         if p = [] then (n, out)
         else
           (case unquoted_semicolon p of
              None \<Rightarrow> put_statement mx off n out (rtrim (take (MAX_LINE - 1) p))
            | Some i \<Rightarrow>
                (let (n, out) = put_statement mx off n out (rtrim (take (min i (MAX_LINE - 1)) p)) in
                 split_loop mx off n out (drop (i + 1) p)))))"
  by auto
termination
proof (relation "measure (\<lambda>(mx, off, n, out, p). length p)")
  fix mx off n :: nat and out :: "cstring list" and p q :: cstring and i
    and x :: "nat \<times> cstring list" and y :: nat and z :: "cstring list"
  assume p: "\<not> (p = [] \<or> mx \<le> n)" and q: "q = skip_blank p" "q \<noteq> []"
  have "length q \<le> length p" using q by (simp add: skip_blank_def length_dropWhile_le)
  moreover have "length (drop (i + 1) q) < length q" using q(2) by (cases q) auto
  ultimately show "((mx, off, y, z, drop (i + 1) q), mx, off, n, out, p)
      \<in> measure (\<lambda>(mx, off, n, out, p). length p)" by simp
qed auto

declare split_loop.simps [simp del]

definition split_statements :: "cstring \<Rightarrow> nat \<Rightarrow> nat \<Rightarrow> cstring list \<Rightarrow> nat \<times> cstring list" where
  "split_statements line mx off out =
     (let (n, out) = split_loop mx off 0 out line in (if n \<noteq> 0 then n else 1, out))"

section \<open>Matching keywords\<close>

text \<open>\<open>depth\<close> may fall below 0 at a stray \<open>fi\<close>.\<close>

function find_at_depth_from :: "cstring list \<Rightarrow> nat \<Rightarrow> cstring list \<Rightarrow> int \<Rightarrow> nat option" where
  "find_at_depth_from ls i kws depth =
     (if i \<ge> length ls then None
      else
        (let w = first_word (ls ! i) 32 in
         if depth = 0 \<and> w \<in> set kws then Some i
         else find_at_depth_from ls (i + 1) kws
                (depth + (if opens_block w then 1 else 0) - (if closes_block w then 1 else 0))))"
  by auto
termination by (relation "measure (\<lambda>(ls, i, kws, depth). length ls - i)") auto

declare find_at_depth_from.simps [simp del]

definition find_at_depth :: "cstring list \<Rightarrow> nat \<Rightarrow> cstring list \<Rightarrow> nat option" where
  "find_at_depth ls frm kws = find_at_depth_from ls frm kws 0"

section \<open>Numbers\<close>

definition num_blank :: "u8 \<Rightarrow> bool" where
  "num_blank c \<longleftrightarrow> c = SP \<or> c = TAB \<or> c = LF"

definition is_digit_byte :: "u8 \<Rightarrow> bool" where
  "is_digit_byte c \<longleftrightarrow> 48 \<le> c \<and> c \<le> 57"

definition str_is_num :: "cstring \<Rightarrow> bool" where
  "str_is_num s =
     (let s = dropWhile num_blank s;
          s = (if deref s = 45 \<or> deref s = 43 then tl s else s)
      in if \<not> is_digit_byte (deref s) then False
         else dropWhile num_blank (dropWhile is_digit_byte s) = [])"

definition str_to_num :: "cstring \<Rightarrow> int option" where
  "str_to_num s = map_option fst (strtol s 10)"

end
