(* ===== verification/LpShell.thy ===== *)
theory LpShell
  imports ShWord LpMalloc
begin

text \<open>
  The state of the shell (\<open>userland/sh/sh.c\<close>), the system calls it makes, and its parser: variable
  and command substitution, tokens, wildcards, assignments, and a line as a table of pipelines.

  The kernel is a parameter.  It answers a system call from the calls the process has made so far, and
  the state keeps these calls.  \<open>fork\<close> answers 0 in the child, so the model follows one process, which
  a fork may turn into a child: there \<open>Child\<close> gives up the callers, none of which runs again, and says
  what the new process goes on with.
\<close>

section \<open>The state\<close>

definition SIGINT :: int where "SIGINT = 2"
definition SIGQUIT :: int where "SIGQUIT = 3"

text \<open>A word of a command is an offset into the arena; \<open>Amp_buf\<close> is the static buffer \<open>amp\<close>.\<close>

datatype target = In_arena nat | Amp_buf

record cmd_t =
  argv :: "nat list"
  redir_in :: "target option"
  redir_out :: "target option"
  out_append :: bool
  redir_err :: "target option"
  err_append :: bool

datatype link_t = LINK_NONE | LINK_AND | LINK_OR | LINK_SEQ

record pipeline_t =
  cmds :: "cmd_t list"
  link :: link_t
  background :: bool

datatype tok_type =
    TOK_END | TOK_WORD | TOK_PIPE | TOK_AND | TOK_OR | TOK_SEMI | TOK_AMP
  | TOK_REDIR_IN | TOK_REDIR_OUT | TOK_REDIR_APPEND | TOK_REDIR_ERR | TOK_REDIR_ERR_APPEND

record func_t =
  fn_name :: cstring
  fn_lines :: "cstring list"

record job_t =
  job_pid :: int
  job_id :: int
  job_cmd :: cstring

text \<open>The static arrays of pipelines, and the static arrays of lines that blocks are run from.\<close>

datatype table = Pipes | For_header
datatype place = Script | Profile | Command | Body

record shell =
  sh_env :: env
  running :: bool
  loop_break :: int
  loop_continue :: int
  last_status :: int
  arena :: "nat \<Rightarrow> u8"
  arena_used :: nat
  tok_quoted :: bool
  tok_has_glob :: bool
  tok_from_cmd :: bool
  pos_args :: "cstring list"
  script_name :: cstring
  funcs :: "func_t list"
  call_depth :: nat
  last_bg_pid :: int
  jobs :: "job_t list"
  next_job_id :: int
  amp :: u8
  tables :: "table \<Rightarrow> pipeline_t list"
  for_words :: "cstring list"
  blocks :: "place \<Rightarrow> cstring list"
  calls :: "call list"

datatype task = Run_line cstring | Run_stage cmd_t

datatype stop = Exited int shell | Execed cstring "cstring list" shell | Child task shell | Undefined | No_fuel

definition MAX_FUNC_LINES :: nat where "MAX_FUNC_LINES = 40"
definition MAX_BLOCK :: nat where "MAX_BLOCK = 256"


text \<open>The static variables of a shell that starts.\<close>

definition start_shell :: "env \<Rightarrow> shell" where
  "start_shell e =
     \<lparr>sh_env = e, running = True, loop_break = 0, loop_continue = 0, last_status = 0, arena = (\<lambda>i. 0),
      arena_used = 0, tok_quoted = False, tok_has_glob = False, tok_from_cmd = False, pos_args = [],
      script_name = cs ''sh'', funcs = [], call_depth = 0, last_bg_pid = 0, jobs = [], next_job_id = 1,
      amp = 49, tables = (\<lambda>t. replicate MAX_PIPES \<lparr>cmds = [], link = LINK_NONE, background = False\<rparr>),
      for_words = replicate 64 [],
      blocks = (\<lambda>p. replicate (if p = Body then MAX_FUNC_LINES else MAX_BLOCK) []), calls = []\<rparr>"

definition syscall :: "world \<Rightarrow> call \<Rightarrow> shell \<Rightarrow> reply \<times> shell" where
  "syscall w c sh = (kernel w (calls sh) c, sh\<lparr>calls := calls sh @ [c]\<rparr>)"

definition did :: "call \<Rightarrow> shell \<Rightarrow> shell" where
  "did c sh = sh\<lparr>calls := calls sh @ [c]\<rparr>"

definition say :: "cstring \<Rightarrow> arg list \<Rightarrow> shell \<Rightarrow> shell" where
  "say fmt as sh = did (Put (stderr_call fmt as)) sh"

definition sh_setenv :: "world \<Rightarrow> cstring \<Rightarrow> cstring \<Rightarrow> shell \<Rightarrow> shell" where
  "sh_setenv w nm v sh = sh\<lparr>sh_env := snd (setenv (alloc w) (sh_env sh) nm v True)\<rparr>"

section \<open>The arena\<close>

definition ARENA :: nat where "ARENA = 8192"

fun str_from :: "(nat \<Rightarrow> u8) \<Rightarrow> nat \<Rightarrow> nat \<Rightarrow> cstring" where
  "str_from a i k = (if k = 0 \<or> a i = 0 then [] else a i # str_from a (i + 1) (k - 1))"

declare str_from.simps [simp del]

definition str_at :: "shell \<Rightarrow> nat \<Rightarrow> cstring" where
  "str_at sh off = str_from (arena sh) off (ARENA - off)"

definition arena_push :: "u8 list \<Rightarrow> shell \<Rightarrow> nat option \<times> shell" where
  "arena_push src sh =
     (let u = arena_used sh; len = length src in
      if u + len + 1 > ARENA then (None, sh)
      else
        (Some u, sh\<lparr>arena := (\<lambda>i. if u \<le> i \<and> i < u + len then src ! (i - u)
                              else if i = u + len then 0 else arena sh i),
                   arena_used := u + len + 1\<rparr>))"

definition target_str :: "shell \<Rightarrow> target \<Rightarrow> cstring" where
  "target_str sh t = (case t of In_arena off \<Rightarrow> str_at sh off | Amp_buf \<Rightarrow> [AMPER, amp sh])"

definition func_find :: "cstring \<Rightarrow> shell \<Rightarrow> func_t option" where
  "func_find nm sh = find (\<lambda>f. strcmp (fn_name f) nm = 0) (funcs sh)"

section \<open>Substitution\<close>

function read_out :: "world \<Rightarrow> int \<Rightarrow> u8 list \<Rightarrow> shell \<Rightarrow> u8 list \<times> shell" where
  "read_out w fd out sh =
     (let (r, sh) = syscall w (Read fd (8192 - length out)) sh;
          part = (if r_val r \<le> 0 then [] else take (8192 - length out) (r_bytes r))
      in if part = [] then (out, sh)
         else if length (out @ part) \<ge> 8192 then (out @ part, sh)
         else read_out w fd (out @ part) sh)"
  by auto
termination
proof (relation "measure (\<lambda>(w, fd, out, sh). 8192 - length out)", goal_cases)
  case (2 w fd out sh x a b part)
  then have "0 < length part" "length out + length part < 8192" by auto
  then show ?case by (simp del: length_greater_0_conv)
qed simp

declare read_out.simps [simp del]

definition one_line :: "u8 list \<Rightarrow> u8 list" where
  "one_line out =
     map (\<lambda>c. if c = LF \<or> c = CR \<or> c = TAB then SP else c) (rev (dropWhile (\<lambda>c. c = LF \<or> c = CR) (rev out)))"

definition expand_command :: "world \<Rightarrow> cstring \<Rightarrow> u8 list \<Rightarrow> shell \<Rightarrow> stop + (u8 list \<times> shell)" where
  "expand_command w cmd buf sh =
     (let (r, sh) = syscall w Pipe sh; (rd, wr) = r_ends r in
      if r_val r < 0 then Inr (buf, sh)
      else
        (let (f, sh) = syscall w Fork sh; pid = r_val f in
         if pid < 0 then Inr (buf, did (Close wr) (did (Close rd) sh))
         else if pid = 0 then
           Inl (Child (Run_line (clip MAX_LINE cmd))
             (did (Signal_default SIGQUIT) (did (Signal_default SIGINT)
               (did (Close wr) (did (Dup2 wr STDOUT_FILENO) (did (Close rd) sh))))))
         else
           (let (out, sh) = read_out w rd [] (did (Close wr) sh);
                sh = did (Waitpid pid False) (did (Close rd) sh)
            in Inr (bputs MAX_LINE buf (one_line out), sh))))"

text \<open>What the two forms of command substitution share: the command, and the mark that it gave a blank.\<close>

definition substitute :: "world \<Rightarrow> cstring \<Rightarrow> u8 list \<Rightarrow> shell \<Rightarrow> stop + (u8 list \<times> shell)" where
  "substitute w cmd buf sh =
     andthen (expand_command w (clip MAX_LINE cmd) buf sh) (\<lambda>(buf', sh).
       Inr (buf', if SP \<in> set (drop (length buf) buf') then sh\<lparr>tok_from_cmd := True\<rparr> else sh))"

definition expand_backtick :: "world \<Rightarrow> cstring \<Rightarrow> u8 list \<Rightarrow> shell \<Rightarrow> stop + (cstring \<times> u8 list \<times> shell)" where
  "expand_backtick w s buf sh =
     (case backtick_close 0 s of
        None \<Rightarrow> Inr (s, buf, say (cs ''sh: ` with no closing `'' @ [LF]) [] sh)
      | Some i \<Rightarrow>
          andthen (substitute w (take i s) buf sh) (\<lambda>(buf, sh). Inr (drop (i + 1) s, buf, sh)))"

definition decimal :: "int \<Rightarrow> cstring option" where
  "decimal v = stext 16 (cs ''%d'') [anum v]"

definition put_decimal :: "int \<Rightarrow> cstring \<Rightarrow> u8 list \<Rightarrow> shell \<Rightarrow> stop + (cstring \<times> u8 list \<times> shell)" where
  "put_decimal v s buf sh =
     (case decimal v of None \<Rightarrow> Inl Undefined | Some t \<Rightarrow> Inr (s, bputs MAX_LINE buf t, sh))"

fun join_args :: "cstring list \<Rightarrow> cstring" where
  "join_args [] = []"
| "join_args [a] = a"
| "join_args (a # as) = a @ SP # join_args as"

text \<open>\<open>s\<close> is what follows the dollar sign.\<close>

definition expand_name :: "cstring \<Rightarrow> u8 list \<Rightarrow> shell \<Rightarrow> cstring \<times> u8 list" where
  "expand_name s buf sh =
     (let braced = (deref s = LBRACE);
          s = (if braced then tl s else s);
          nm = take 63 (takeWhile is_name_char s);
          s = drop (length nm) s;
          s = (if braced \<and> deref s = RBRACE then tl s else s)
      in if nm = [] then (s, bput MAX_LINE buf DOLLAR)
         else (s, case getenv (sh_env sh) nm of None \<Rightarrow> buf | Some v \<Rightarrow> bputs MAX_LINE buf v))"

definition expand_dollar :: "world \<Rightarrow> cstring \<Rightarrow> u8 list \<Rightarrow> shell \<Rightarrow> stop + (cstring \<times> u8 list \<times> shell)" where
  "expand_dollar w s buf sh =
     (let c = deref s in
      if c = LPAREN then
        (case matching_paren (tl s) of
           Some i \<Rightarrow> andthen (substitute w (take i (tl s)) buf sh) (\<lambda>(buf, sh). Inr (drop (i + 1) (tl s), buf, sh))
         | None \<Rightarrow> Inr (tl s, buf, say (cs ''sh: $( without )'' @ [LF]) [] sh))
      else if is_digit_byte c then
        (let idx = unat c - 48;
             v = (if idx = 0 then script_name sh else if idx \<le> length (pos_args sh) then pos_args sh ! (idx - 1) else [])
         in Inr (tl s, bputs MAX_LINE buf v, sh))
      else if c = 33 then put_decimal (last_bg_pid sh) (tl s) buf sh
      else if c = HASH then put_decimal (int (length (pos_args sh))) (tl s) buf sh
      else if c = 64 \<or> c = STAR then
        Inr (tl s, bputs MAX_LINE buf (join_args (pos_args sh)),
             if length (pos_args sh) > 1 then sh\<lparr>tok_from_cmd := True\<rparr> else sh)
      else if c = QUERY then put_decimal (last_status sh) (tl s) buf sh
      else (let (s, buf) = expand_name s buf sh in Inr (s, buf, sh)))"

lemma paren_loop_bound: "paren_loop i d a b s = Some j \<Longrightarrow> i \<le> j \<and> j < i + length s"
  by (induction i d a b s rule: paren_loop.induct) (auto split: if_splits)

lemma expand_name_length: "length (fst (expand_name s buf sh)) \<le> length s"
  by (cases s) (auto simp: expand_name_def Let_def)

lemma expand_dollar_length:
  "expand_dollar w s buf sh = Inr (s', buf', sh') \<Longrightarrow> length s' \<le> length s"
  using expand_name_length [of s buf sh]
  by (auto simp: expand_dollar_def put_decimal_def Let_def andthen_Inr_iff split: if_splits option.splits prod.splits)

lemma expand_backtick_length:
  "expand_backtick w s buf sh = Inr (s', buf', sh') \<Longrightarrow> length s' \<le> length s"
  by (auto simp: expand_backtick_def andthen_Inr_iff split: option.splits)

section \<open>Tokens\<close>

function dq_loop :: "world \<Rightarrow> cstring \<Rightarrow> u8 list \<Rightarrow> shell \<Rightarrow> stop + (cstring \<times> u8 list \<times> shell)" where
  "dq_loop w s buf sh =
     (if s = [] then Inr (s, buf, sh)
      else if hd s = DQUOTE then Inr (tl s, buf, sh)
      else if hd s = DOLLAR then
        andthen (expand_dollar w (tl s) buf sh) (\<lambda>(s, buf, sh). dq_loop w s buf (sh\<lparr>tok_from_cmd := False\<rparr>))
      else if hd s = BTICK then
        andthen (expand_backtick w (tl s) buf sh) (\<lambda>(s, buf, sh). dq_loop w s buf (sh\<lparr>tok_from_cmd := False\<rparr>))
      else dq_loop w (tl s) (bput MAX_LINE buf (hd s)) sh)"
  by auto
termination
proof (relation "measure (\<lambda>(w, s, buf, sh). length s)", goal_cases)
  case 1 show ?case by simp
next
  case (2 w s buf sh x y z u v)
  have "length (tl s) < length s" using 2(1) by (simp add: length_induct_tl)
  then show ?case using 2 expand_dollar_length [of w "tl s" buf sh] by (cases s) auto
next
  case (3 w s buf sh x y z u v)
  have "length (tl s) < length s" using 3(1) by (simp add: length_induct_tl)
  then show ?case using 3 expand_backtick_length [of w "tl s" buf sh] by (cases s) auto
qed auto

declare dq_loop.simps [simp del]

lemma dq_loop_length: "dq_loop w s buf sh = Inr (s', buf', sh') \<Longrightarrow> length s' \<le> length s"
proof (induction w s buf sh rule: dq_loop.induct)
  case (1 w s buf sh)
  have t: "s \<noteq> [] \<Longrightarrow> length (tl s) < length s" by (simp add: length_induct_tl)
  show ?case
  proof (cases "s = [] \<or> hd s = DQUOTE")
    case True
    with 1(4) show ?thesis by (auto simp: dq_loop.simps [of w s] split: if_splits)
  next
    case F: False
    consider (d) "hd s = DOLLAR" | (b) "hd s \<noteq> DOLLAR" "hd s = BTICK" | (o) "hd s \<noteq> DOLLAR" "hd s \<noteq> BTICK" by blast
    then show ?thesis
    proof cases
      case d
      then obtain s1 b1 h1 where e: "expand_dollar w (tl s) buf sh = Inr (s1, b1, h1)"
        and r: "dq_loop w s1 b1 (h1\<lparr>tok_from_cmd := False\<rparr>) = Inr (s', buf', sh')"
        using 1(4) F by (auto simp: dq_loop.simps [of w s] andthen_Inr_iff)
      from 1(1) [OF _ _ d e refl refl r] F have "length s' \<le> length s1" by auto
      with expand_dollar_length [OF e] t F show ?thesis by linarith
    next
      case b
      then obtain s1 b1 h1 where e: "expand_backtick w (tl s) buf sh = Inr (s1, b1, h1)"
        and r: "dq_loop w s1 b1 (h1\<lparr>tok_from_cmd := False\<rparr>) = Inr (s', buf', sh')"
        using 1(4) F by (auto simp: dq_loop.simps [of w s] andthen_Inr_iff)
      from 1(2) [OF _ _ _ b(2) e refl refl r] F b have "length s' \<le> length s1" by auto
      with expand_backtick_length [OF e] t F show ?thesis by linarith
    next
      case o
      then have r: "dq_loop w (tl s) (bput MAX_LINE buf (hd s)) sh = Inr (s', buf', sh')"
        using 1(4) F by (auto simp: dq_loop.simps [of w s])
      from 1(3) [OF _ _ o r] F have "length s' \<le> length (tl s)" by auto
      with t F show ?thesis by linarith
    qed
  qed
qed

definition ends_word :: "u8 \<Rightarrow> bool" where
  "ends_word c \<longleftrightarrow> sh_is_space c \<or> c = BAR \<or> c = LESS \<or> c = GREATER \<or> c = SEMI \<or> c = AMPER"

function word_loop :: "world \<Rightarrow> cstring \<Rightarrow> u8 list \<Rightarrow> shell \<Rightarrow> stop + (cstring \<times> u8 list \<times> shell)" where
  "word_loop w s buf sh =
     (if s = [] then Inr (s, buf, sh)
      else if ends_word (hd s) then Inr (s, buf, sh)
      else if hd s = SQUOTE then
        (let sh = sh\<lparr>tok_quoted := True\<rparr>; q = takeWhile (\<lambda>c. c \<noteq> SQUOTE) (tl s) in
         word_loop w (drop (length q + 1) (tl s)) (bputs MAX_LINE buf q) sh)
      else if hd s = DQUOTE then
        andthen (dq_loop w (tl s) buf (sh\<lparr>tok_quoted := True\<rparr>)) (\<lambda>(s, buf, sh). word_loop w s buf sh)
      else if hd s = DOLLAR then
        andthen (expand_dollar w (tl s) buf sh) (\<lambda>(s, buf, sh). word_loop w s buf sh)
      else if hd s = BTICK then
        andthen (expand_backtick w (tl s) buf sh) (\<lambda>(s, buf, sh). word_loop w s buf sh)
      else
        word_loop w (tl s) (bput MAX_LINE buf (hd s))
          (if hd s = STAR \<or> hd s = QUERY then sh\<lparr>tok_has_glob := True\<rparr> else sh))"
  by auto
termination
proof (relation "measure (\<lambda>(w, s, buf, sh). length s)", goal_cases)
  case 1 show ?case by simp
next
  case (2 w s buf sh x y)
  then show ?case by (cases s) (simp_all add: le_imp_less_Suc)
next
  case (3 w s buf sh x y z u v)
  then show ?case using dq_loop_length [of w "tl s" buf "sh\<lparr>tok_quoted := True\<rparr>"] by (cases s) auto
next
  case (4 w s buf sh x y z u v)
  then show ?case using expand_dollar_length [of w "tl s" buf sh] by (cases s) auto
next
  case (5 w s buf sh x y z u v)
  then show ?case using expand_backtick_length [of w "tl s" buf sh] by (cases s) auto
qed auto

declare word_loop.simps [simp del]

text \<open>\<open>~\<close> alone, or before a slash or a blank.\<close>

definition HOME_DIR :: cstring where "HOME_DIR = cs ''/root''"

definition tilde :: "cstring \<Rightarrow> cstring \<times> u8 list" where
  "tilde s =
     (if deref s = TILDE \<and> (tl s = [] \<or> hd (tl s) = SLASH \<or> sh_is_space (hd (tl s)))
      then (tl s, HOME_DIR) else (s, []))"

definition token_at :: "world \<Rightarrow> cstring \<Rightarrow> shell \<Rightarrow> stop + (tok_type \<times> nat \<times> cstring \<times> shell)" where
  "token_at w s sh =
     (let c = deref s; c1 = deref (tl s); c2 = deref (tl (tl s)) in
      if s = [] then Inr (TOK_END, 0, s, sh)
      else if c = AMPER \<and> c1 = AMPER then Inr (TOK_AND, 0, drop 2 s, sh)
      else if c = AMPER then Inr (TOK_AMP, 0, tl s, sh)
      else if c = BAR \<and> c1 = BAR then Inr (TOK_OR, 0, drop 2 s, sh)
      else if c = BAR then Inr (TOK_PIPE, 0, tl s, sh)
      else if c = SEMI then Inr (TOK_SEMI, 0, tl s, sh)
      else if c = 50 \<and> c1 = GREATER then
        (if c2 = GREATER then Inr (TOK_REDIR_ERR_APPEND, 0, drop 3 s, sh)
         else Inr (TOK_REDIR_ERR, 0, drop 2 s, sh))
      else if c = LESS then Inr (TOK_REDIR_IN, 0, tl s, sh)
      else if c = GREATER then
        (if c1 = GREATER then Inr (TOK_REDIR_APPEND, 0, drop 2 s, sh)
         else Inr (TOK_REDIR_OUT, 0, tl s, sh))
      else
        (let sh = sh\<lparr>tok_quoted := False, tok_has_glob := False, tok_from_cmd := False\<rparr>;
             (s, buf) = tilde s
         in andthen (word_loop w s buf sh) (\<lambda>(s, buf, sh).
              case arena_push buf sh of
                (None, sh) \<Rightarrow> Inr (TOK_END, 0, s, say (cs ''sh: line too long'' @ [LF]) [] sh)
              | (Some off, sh) \<Rightarrow> Inr (TOK_WORD, off, s, sh))))"

definition next_token :: "world \<Rightarrow> cstring \<Rightarrow> shell \<Rightarrow> stop + (tok_type \<times> nat \<times> cstring \<times> shell)" where
  "next_token w p sh = token_at w (dropWhile sh_is_space p) sh"

lemma word_loop_length: "word_loop w s buf sh = Inr (s', buf', sh') \<Longrightarrow> length s' \<le> length s"
proof (induction w s buf sh rule: word_loop.induct)
  case (1 w s buf sh)
  show ?case
  proof (cases "s = [] \<or> ends_word (hd s)")
    case True
    with 1(6) show ?thesis by (auto simp: word_loop.simps [of w s] split: if_splits)
  next
    case F: False
    have t: "length (tl s) < length s" using F by (simp add: length_induct_tl)
    consider (q) "hd s = SQUOTE" | (dq) "hd s = DQUOTE" | (d) "hd s = DOLLAR" | (b) "hd s = BTICK"
      | (o) "hd s \<noteq> SQUOTE" "hd s \<noteq> DQUOTE" "hd s \<noteq> DOLLAR" "hd s \<noteq> BTICK" by blast
    then show ?thesis
    proof cases
      case q
      let ?q = "takeWhile (\<lambda>c. c \<noteq> SQUOTE) (tl s)"
      from q 1(6) F have "word_loop w (drop (length ?q + 1) (tl s)) (bputs MAX_LINE buf ?q) (sh\<lparr>tok_quoted := True\<rparr>) = Inr (s', buf', sh')"
        by (simp add: word_loop.simps [of w s] Let_def)
      from 1(1) [OF _ _ q refl refl this] F have "length s' \<le> length (drop (length ?q + 1) (tl s))" by auto
      with t show ?thesis by simp
    next
      case dq
      then obtain s1 b1 h1 where e: "dq_loop w (tl s) buf (sh\<lparr>tok_quoted := True\<rparr>) = Inr (s1, b1, h1)"
        and r: "word_loop w s1 b1 h1 = Inr (s', buf', sh')"
        using 1(6) F by (auto simp: word_loop.simps [of w s] andthen_Inr_iff)
      from 1(2) [OF _ _ _ dq e refl refl r] F dq have "length s' \<le> length s1" by auto
      with dq_loop_length [OF e] t show ?thesis by linarith
    next
      case d
      then obtain s1 b1 h1 where e: "expand_dollar w (tl s) buf sh = Inr (s1, b1, h1)"
        and r: "word_loop w s1 b1 h1 = Inr (s', buf', sh')"
        using 1(6) F by (auto simp: word_loop.simps [of w s] andthen_Inr_iff)
      from 1(3) [OF _ _ _ _ d e refl refl r] F d have "length s' \<le> length s1" by auto
      with expand_dollar_length [OF e] t show ?thesis by linarith
    next
      case b
      then obtain s1 b1 h1 where e: "expand_backtick w (tl s) buf sh = Inr (s1, b1, h1)"
        and r: "word_loop w s1 b1 h1 = Inr (s', buf', sh')"
        using 1(6) F by (auto simp: word_loop.simps [of w s] andthen_Inr_iff)
      from 1(4) [OF _ _ _ _ _ b e refl refl r] F b have "length s' \<le> length s1" by auto
      with expand_backtick_length [OF e] t show ?thesis by linarith
    next
      case o
      from o 1(6) F have "word_loop w (tl s) (bput MAX_LINE buf (hd s))
          (if hd s = STAR \<or> hd s = QUERY then sh\<lparr>tok_has_glob := True\<rparr> else sh) = Inr (s', buf', sh')"
        by (simp add: word_loop.simps [of w s])
      from 1(5) [OF _ _ o this] F have "length s' \<le> length (tl s)" by auto
      with t show ?thesis by linarith
    qed
  qed
qed

lemma word_loop_consumes:
  assumes "word_loop w s buf sh = Inr (s', buf', sh')" "s \<noteq> []" "\<not> ends_word (hd s)"
  shows "length s' < length s"
proof -
  obtain c r where s: "s = c # r" using assms(2) by (cases s) auto
  have "length s' \<le> length r"
    using assms(1,3) unfolding s
    by (auto simp: word_loop.simps [of w "c # r"] Let_def andthen_Inr_iff split: if_splits
        dest!: word_loop_length dq_loop_length expand_dollar_length expand_backtick_length)
  with s show ?thesis by simp
qed

lemma tilde_cases: "tilde s = (s, []) \<or> (s \<noteq> [] \<and> tilde s = (tl s, HOME_DIR))"
  by (cases s) (auto simp: tilde_def)

lemma token_at_shorter:
  assumes "token_at w s sh = Inr (t, off, s', sh')" "t \<noteq> TOK_END" "s = [] \<or> \<not> sh_is_space (hd s)"
  shows "length s' < length s"
proof -
  let ?h = "sh\<lparr>tok_quoted := False, tok_has_glob := False, tok_from_cmd := False\<rparr>"
  have ne: "s \<noteq> []" using assms by (auto simp: token_at_def Let_def)
  with assms(3) have sp: "\<not> sh_is_space (hd s)" by simp
  have hd: "deref s = hd s" using ne by (cases s) auto
  obtain s1 b1 where ti: "tilde s = (s1, b1)" by fastforce
  show ?thesis
  proof (cases "ends_word (hd s) \<or> (hd s = 50 \<and> deref (tl s) = GREATER)")
    case True
    then show ?thesis
      using assms ne sp by (cases s) (auto simp: token_at_def Let_def ends_word_def split: if_splits)
  next
    case False
    then have ew: "\<not> ends_word (hd s)" by simp
    have "andthen (word_loop w s1 b1 ?h) (\<lambda>(s, buf, sh). case arena_push buf sh of
          (None, sh) \<Rightarrow> Inr (TOK_END, 0, s, say (cs ''sh: line too long'' @ [LF]) [] sh)
        | (Some off, sh) \<Rightarrow> Inr (TOK_WORD, off, s, sh)) = Inr (t, off, s', sh')"
      using assms(1) ne False ti by (auto simp: token_at_def ends_word_def hd Let_def)
    then obtain b2 h2 where r: "word_loop w s1 b1 ?h = Inr (s', b2, h2)"
      by (elim andthen_InrE) (auto split: prod.splits option.splits)
    show ?thesis
    proof (cases "s1 = s")
      case True
      with r ne ew word_loop_consumes show ?thesis by blast
    next
      case False
      then have "s1 = tl s" using ti tilde_cases [of s] by auto
      with word_loop_length [OF r] ne show ?thesis by (cases s) auto
    qed
  qed
qed

lemma next_token_shorter:
  assumes "next_token w p sh = Inr (t, off, s', sh')" "t \<noteq> TOK_END"
  shows "length s' < length p"
proof -
  have "dropWhile sh_is_space p = [] \<or> \<not> sh_is_space (hd (dropWhile sh_is_space p))"
    using hd_dropWhile by blast
  from token_at_shorter [OF assms(1) [unfolded next_token_def] assms(2) this] length_dropWhile_le [of sh_is_space p]
  show ?thesis by linarith
qed

end
