(* ===== verification/ShParse.thy ===== *)
theory ShParse
  imports LpShell
begin

text \<open>
  The shell's parser (\<open>parse_line\<close> of \<open>userland/sh/sh.c\<close>): wildcards, assignments, and a line of
  tokens as a table of pipelines.  The table is one of the static arrays, and is filled in place.
\<close>

section \<open>The command being filled\<close>

text \<open>\<open>np\<close> pipelines are in use; \<open>pl\<close> is the last of them and \<open>c\<close> its last command.\<close>

definition no_cmd :: cmd_t where
  "no_cmd = \<lparr>argv = [], redir_in = None, redir_out = None, out_append = False, redir_err = None, err_append = False\<rparr>"

definition new_pipeline :: "link_t \<Rightarrow> pipeline_t" where
  "new_pipeline l = \<lparr>cmds = [no_cmd], link = l, background = False\<rparr>"

definition set_slot :: "table \<Rightarrow> nat \<Rightarrow> pipeline_t \<Rightarrow> shell \<Rightarrow> shell" where
  "set_slot tb i pl sh = sh\<lparr>tables := (tables sh)(tb := (tables sh tb)[i := pl])\<rparr>"

definition slot :: "table \<Rightarrow> nat \<Rightarrow> shell \<Rightarrow> pipeline_t" where
  "slot tb i sh = tables sh tb ! i"

definition cur :: "table \<Rightarrow> nat \<Rightarrow> shell \<Rightarrow> cmd_t" where
  "cur tb np sh = last (cmds (slot tb (np - 1) sh))"

definition set_cur :: "table \<Rightarrow> nat \<Rightarrow> cmd_t \<Rightarrow> shell \<Rightarrow> shell" where
  "set_cur tb np c sh =
     (let pl = slot tb (np - 1) sh in set_slot tb (np - 1) (pl\<lparr>cmds := butlast (cmds pl) @ [c]\<rparr>) sh)"

definition add_arg :: "table \<Rightarrow> nat \<Rightarrow> nat \<Rightarrow> shell \<Rightarrow> shell" where
  "add_arg tb np off sh =
     (let c = cur tb np sh in set_cur tb np (c\<lparr>argv := argv c @ [off]\<rparr>) sh)"

definition argc :: "table \<Rightarrow> nat \<Rightarrow> shell \<Rightarrow> nat" where
  "argc tb np sh = length (argv (cur tb np sh))"

section \<open>Wildcards\<close>

definition GLOB_MAX :: nat where "GLOB_MAX = 128"
definition GLOB_NAME_MAX :: nat where "GLOB_NAME_MAX = 128"

text \<open>The directory to read, and the pattern: the last component.\<close>

definition glob_split :: "cstring \<Rightarrow> (cstring \<times> cstring) option" where
  "glob_split word =
     (case strrchr word SLASH of
        None \<Rightarrow> Some (cs ''.'', word)
      | Some t \<Rightarrow>
          (let dlen = length word - length t in
           if dlen = 0 then Some (cs ''/'', tl t)
           else if dlen \<ge> 256 then None
           else Some (take dlen word, tl t)))"

definition glob_wanted :: "cstring \<Rightarrow> cstring \<Rightarrow> bool" where
  "glob_wanted pat nm \<longleftrightarrow>
     nm \<noteq> cs ''.'' \<and> nm \<noteq> cs ''..'' \<and> \<not> (deref nm = DOT \<and> deref pat \<noteq> DOT) \<and> glob_match pat nm"

definition glob_full :: "cstring \<Rightarrow> cstring \<Rightarrow> cstring \<Rightarrow> cstring" where
  "glob_full word dir nm =
     (if strrchr word SLASH = None then clip GLOB_NAME_MAX nm
      else clip GLOB_NAME_MAX (dir @ (if dir = cs ''/'' then [] else [SLASH]) @ nm))"

text \<open>Insertion sort; the names already sorted are kept last first.\<close>

fun glob_insert :: "cstring \<Rightarrow> cstring list \<Rightarrow> cstring list" where
  "glob_insert tmp [] = [tmp]"
| "glob_insert tmp (x # xs) = (if strcmp x tmp > 0 then x # glob_insert tmp xs else tmp # x # xs)"

definition glob_sort :: "cstring list \<Rightarrow> cstring list" where
  "glob_sort nms = rev (foldl (\<lambda>acc x. glob_insert x acc) [] nms)"

fun push_names :: "table \<Rightarrow> nat \<Rightarrow> cstring list \<Rightarrow> nat \<Rightarrow> shell \<Rightarrow> nat \<times> shell" where
  "push_names tb np [] added sh = (added, sh)"
| "push_names tb np (x # xs) added sh =
     (if argc tb np sh \<ge> MAX_ARGS then (added, sh)
      else
        (case arena_push x sh of
           (None, sh) \<Rightarrow> (added, sh)
         | (Some off, sh) \<Rightarrow> push_names tb np xs (added + 1) (add_arg tb np off sh)))"

definition glob_expand :: "world \<Rightarrow> table \<Rightarrow> nat \<Rightarrow> cstring \<Rightarrow> shell \<Rightarrow> nat \<times> shell" where
  "glob_expand w tb np word sh =
     (case glob_split word of
        None \<Rightarrow> (0, sh)
      | Some (dir, pat) \<Rightarrow>
          (let (r, sh) = syscall w (Open dir (O_RDONLY OR O_DIRECTORY)) sh; fd = r_val r in
           if fd < 0 then (0, sh)
           else
             (let (d, sh) = syscall w (Getdents fd) sh;
                  nms = take GLOB_MAX (filter (glob_wanted pat) (concat (map dent_names (r_dents d))));
                  sh = did (Close fd) sh
              in if nms = [] then (0, sh)
                 else push_names tb np (glob_sort (map (glob_full word dir) nms)) 0 sh)))"

section \<open>Assignments\<close>

definition try_assignment :: "world \<Rightarrow> cstring \<Rightarrow> shell \<Rightarrow> shell option" where
  "try_assignment w word sh =
     (case strchr word EQUALS of
        None \<Rightarrow> None
      | Some eq \<Rightarrow>
          (let n = length word - length eq; nm = take n word in
           if n = 0 then None
           else if is_digit_byte (deref word) then None
           else if \<not> list_all is_name_char nm then None
           else if n \<ge> 64 then None
           else Some (sh_setenv w nm (tl eq) sh)))"

section \<open>A line\<close>

text \<open>The words of an unquoted substitution: its blanks are overwritten in the arena.\<close>

function split_words :: "table \<Rightarrow> nat \<Rightarrow> nat \<Rightarrow> cstring \<Rightarrow> shell \<Rightarrow> shell" where
  "split_words tb np off wd sh =
     (if wd = [] \<or> argc tb np sh \<ge> MAX_ARGS then sh
      else
        (let k = length (takeWhile (\<lambda>c. c = SP) wd); wd = drop k wd; off = off + k;
             n = length (takeWhile (\<lambda>c. c \<noteq> SP) wd)
         in if wd = [] then sh
            else
              (let sh = add_arg tb np off (sh\<lparr>arena := (arena sh)(off + n := 0)\<rparr>) in
               if n = length wd then sh else split_words tb np (off + n + 1) (drop (n + 1) wd) sh)))"
  by auto
termination by (relation "measure (\<lambda>(tb, np, off, wd, sh). length wd)") auto

declare split_words.simps [simp del]

text \<open>An ordinary word.  The result is the new \<open>assigned\<close>, or \<open>None\<close> for the return of -1.\<close>

definition parse_word :: "world \<Rightarrow> table \<Rightarrow> nat \<Rightarrow> bool \<Rightarrow> nat \<Rightarrow> shell \<Rightarrow> bool option \<times> shell" where
  "parse_word w tb np assigned off sh =
     (let word = str_at sh off in
      if argc tb np sh \<ge> MAX_ARGS then (None, say (cs ''sh: too many arguments'' @ [LF]) [] sh)
      else
        (case (if argc tb np sh = 0 \<and> \<not> tok_quoted sh then try_assignment w word sh else None) of
           Some sh \<Rightarrow> (Some True, sh)
         | None \<Rightarrow>
             if tok_from_cmd sh \<and> \<not> tok_quoted sh \<and> SP \<in> set word
             then (Some assigned, split_words tb np off word sh)
             else if tok_has_glob sh \<and> \<not> tok_quoted sh
             then (let (added, sh) = glob_expand w tb np word sh in
                   (Some assigned, if added > 0 then sh else add_arg tb np off sh))
             else (Some assigned, add_arg tb np off sh)))"

definition parse_bar :: "table \<Rightarrow> nat \<Rightarrow> shell \<Rightarrow> bool \<times> shell" where
  "parse_bar tb np sh =
     (let pl = slot tb (np - 1) sh in
      if argc tb np sh = 0 then (False, say (cs ''sh: no command before |'' @ [LF]) [] sh)
      else if length (cmds pl) \<ge> MAX_CMDS then
        (False, say (cs ''sh: pipeline too long (max %d)'' @ [LF]) [anum (int MAX_CMDS)] sh)
      else (True, set_slot tb (np - 1) (pl\<lparr>cmds := cmds pl @ [no_cmd]\<rparr>) sh))"

definition set_background :: "table \<Rightarrow> nat \<Rightarrow> bool \<Rightarrow> shell \<Rightarrow> shell" where
  "set_background tb np b sh = set_slot tb (np - 1) ((slot tb (np - 1) sh)\<lparr>background := b\<rparr>) sh"

text \<open>One of \<open>&&\<close>, \<open>||\<close>, \<open>;\<close> and \<open>&\<close>: the new count and \<open>assigned\<close>.\<close>

definition parse_join :: "table \<Rightarrow> nat \<Rightarrow> tok_type \<Rightarrow> nat \<Rightarrow> bool \<Rightarrow> shell \<Rightarrow> (nat \<times> bool) option \<times> shell" where
  "parse_join tb mx t np assigned sh =
     (let sh = (if t = TOK_AMP then set_background tb np True sh else sh) in
      if argc tb np sh = 0 \<and> \<not> assigned then
        (None, say (cs ''sh: no command before the operator'' @ [LF]) [] sh)
      else if argc tb np sh = 0 then
        (let sh = sh\<lparr>last_status := 0\<rparr> in
         (Some (np, False), if t = TOK_AMP then set_background tb np False sh else sh))
      else if np \<ge> mx then
        (None, say (cs ''sh: too many commands joined together (max %d)'' @ [LF]) [anum (int mx)] sh)
      else
        (Some (np + 1, assigned),
         set_slot tb np (new_pipeline (if t = TOK_AND then LINK_AND else if t = TOK_OR then LINK_OR else LINK_SEQ)) sh))"

definition is_err_redir :: "tok_type \<Rightarrow> bool" where
  "is_err_redir t \<longleftrightarrow> t = TOK_REDIR_ERR \<or> t = TOK_REDIR_ERR_APPEND"

text \<open>\<open>&\<close> and a digit right after a redirection: the static buffer becomes the file name.\<close>

definition amp_follows :: "cstring \<Rightarrow> bool" where
  "amp_follows q \<longleftrightarrow> deref q = AMPER \<and> is_digit_byte (deref (tl q))"

definition redirect_amp :: "table \<Rightarrow> nat \<Rightarrow> tok_type \<Rightarrow> u8 \<Rightarrow> shell \<Rightarrow> shell" where
  "redirect_amp tb np t d sh =
     (let sh = sh\<lparr>amp := d\<rparr>; c = cur tb np sh in
      set_cur tb np (if is_err_redir t then c\<lparr>redir_err := Some Amp_buf, err_append := False\<rparr>
                     else c\<lparr>redir_out := Some Amp_buf, out_append := False\<rparr>) sh)"

definition redirect_to :: "table \<Rightarrow> nat \<Rightarrow> tok_type \<Rightarrow> nat \<Rightarrow> shell \<Rightarrow> shell" where
  "redirect_to tb np t off sh =
     (let c = cur tb np sh; f = Some (In_arena off) in
      set_cur tb np
        (if t = TOK_REDIR_IN then c\<lparr>redir_in := f\<rparr>
         else if is_err_redir t then c\<lparr>redir_err := f, err_append := (t = TOK_REDIR_ERR_APPEND)\<rparr>
         else c\<lparr>redir_out := f, out_append := (t = TOK_REDIR_APPEND)\<rparr>) sh)"

definition redir_sign :: "tok_type \<Rightarrow> cstring" where
  "redir_sign t =
     (if t = TOK_REDIR_IN then cs ''<'' else if t = TOK_REDIR_ERR then cs ''2>''
      else if t = TOK_REDIR_ERR_APPEND then cs ''2>>'' else if t = TOK_REDIR_APPEND then cs ''>>'' else cs ''>'')"

fun drop_empty :: "table \<Rightarrow> nat \<Rightarrow> shell \<Rightarrow> nat" where
  "drop_empty tb 0 sh = 0"
| "drop_empty tb (Suc n) sh = (if argv (hd (cmds (slot tb n sh))) = [] then drop_empty tb n sh else Suc n)"

definition parse_end :: "table \<Rightarrow> nat \<Rightarrow> bool \<Rightarrow> shell \<Rightarrow> int \<times> shell" where
  "parse_end tb np assigned sh =
     (let np = drop_empty tb np sh in
      (int np, if np = 0 \<and> assigned then sh\<lparr>last_status := 0\<rparr> else sh))"

function parse_loop :: "world \<Rightarrow> table \<Rightarrow> nat \<Rightarrow> cstring \<Rightarrow> nat \<Rightarrow> bool \<Rightarrow> shell \<Rightarrow> stop + (int \<times> shell)" where
  "parse_loop w tb mx p np assigned sh =
     andthen (next_token w p sh) (\<lambda>(t, off, p', sh).
       if t = TOK_END then Inr (parse_end tb np assigned sh)
       else if t = TOK_WORD then
         (case parse_word w tb np assigned off sh of
            (None, sh) \<Rightarrow> Inr (-1, sh)
          | (Some assigned, sh) \<Rightarrow> parse_loop w tb mx p' np assigned sh)
       else if t = TOK_PIPE then
         (case parse_bar tb np sh of
            (False, sh) \<Rightarrow> Inr (-1, sh)
          | (True, sh) \<Rightarrow> parse_loop w tb mx p' np assigned sh)
       else if t = TOK_AND \<or> t = TOK_OR \<or> t = TOK_SEMI \<or> t = TOK_AMP then
         (case parse_join tb mx t np assigned sh of
            (None, sh) \<Rightarrow> Inr (-1, sh)
          | (Some (np, assigned), sh) \<Rightarrow> parse_loop w tb mx p' np assigned sh)
       else if amp_follows (skip_blank p') then
         parse_loop w tb mx (drop 2 (skip_blank p')) np assigned (redirect_amp tb np t (deref (tl (skip_blank p'))) sh)
       else
         andthen (next_token w p' sh) (\<lambda>(t', off, p'', sh).
           if t' \<noteq> TOK_WORD
           then Inr (-1, say (cs ''sh: %s needs a file after it'' @ [LF]) [astr (redir_sign t)] sh)
           else parse_loop w tb mx p'' np assigned (redirect_to tb np t off sh)))"
  by auto
termination
proof (relation "measure (\<lambda>(w, tb, mx, p, np, assigned, sh). length p)", goal_cases)
  case 1 show ?case by simp
next
  case (2 w tb mx p np assigned sh x t y off z p' sh' u v a)
  then show ?case using next_token_shorter [of w p sh t off p' sh'] by auto
next
  case (3 w tb mx p np assigned sh x t y off z p' sh' u v)
  then show ?case using next_token_shorter [of w p sh t off p' sh'] by auto
next
  case (4 w tb mx p np assigned sh x t y off z p' sh' u v a b c)
  then show ?case using next_token_shorter [of w p sh t off p' sh'] by auto
next
  case (5 w tb mx p np assigned sh x t y off z p' sh')
  then have "length p' < length p" using next_token_shorter [of w p sh t off p' sh'] by auto
  moreover have "length (skip_blank p') \<le> length p'" by (simp add: skip_blank_def length_dropWhile_le)
  ultimately show ?case by simp
next
  case (6 w tb mx p np assigned sh x t y off z p' sh' x2 t' y2 off2 z2 p'' sh'')
  then have "length p' < length p" "length p'' < length p'"
    using next_token_shorter [of w p sh t off p' sh'] next_token_shorter [of w p' sh' t' off2 p'' sh''] by auto
  then show ?case by simp
qed

declare parse_loop.simps [simp del]

definition parse_line :: "world \<Rightarrow> table \<Rightarrow> nat \<Rightarrow> cstring \<Rightarrow> shell \<Rightarrow> stop + (int \<times> shell)" where
  "parse_line w tb mx line sh =
     parse_loop w tb mx line 1 False (set_slot tb 0 (new_pipeline LINK_NONE) (sh\<lparr>arena_used := 0\<rparr>))"

end
