(* ===== verification/ShTable.thy ===== *)
theory ShTable
  imports ShParse
begin

text \<open>
  What the shell's parser leaves alone, and the table it fills: every pipeline has between one and
  \<open>MAX_CMDS\<close> commands, every command at most \<open>MAX_ARGS\<close> words, and every word is a string that ends
  inside the part of the arena in use.
\<close>

section \<open>What reading a word leaves alone\<close>

definition quiet :: "shell \<Rightarrow> shell" where
  "quiet sh = sh\<lparr>tok_quoted := False, tok_has_glob := False, tok_from_cmd := False, calls := []\<rparr>"

lemma quiet_update [simp]:
  "quiet (sh\<lparr>tok_quoted := b\<rparr>) = quiet sh" "quiet (sh\<lparr>tok_has_glob := b\<rparr>) = quiet sh"
  "quiet (sh\<lparr>tok_from_cmd := b\<rparr>) = quiet sh" "quiet (sh\<lparr>calls := l\<rparr>) = quiet sh"
  "quiet (did c sh) = quiet sh" "quiet (say f a sh) = quiet sh" "quiet (snd (syscall w c sh)) = quiet sh"
  by (simp_all add: quiet_def did_def say_def syscall_def)

lemma syscall_quiet: "syscall w c sh = (r, sh') \<Longrightarrow> quiet sh' = quiet sh"
  by (auto simp: syscall_def)

lemma quietD:
  assumes "quiet sh' = quiet sh"
  shows "arena sh' = arena sh" "arena_used sh' = arena_used sh" "tables sh' = tables sh" "sh_env sh' = sh_env sh"
    "last_status sh' = last_status sh" "amp sh' = amp sh" "blocks sh' = blocks sh"
proof -
  have q: "arena (quiet s) = arena s" "arena_used (quiet s) = arena_used s" "tables (quiet s) = tables s"
    "sh_env (quiet s) = sh_env s" "last_status (quiet s) = last_status s" "amp (quiet s) = amp s"
    "blocks (quiet s) = blocks s" for s
    by (simp_all add: quiet_def)
  show "arena sh' = arena sh" "arena_used sh' = arena_used sh" "tables sh' = tables sh" "sh_env sh' = sh_env sh"
    "last_status sh' = last_status sh" "amp sh' = amp sh" "blocks sh' = blocks sh"
    using q [of sh] q [of sh'] assms by simp_all
qed

lemma read_out_quiet: "read_out w fd out sh = (out', sh') \<Longrightarrow> quiet sh' = quiet sh"
proof (induction w fd out sh rule: read_out.induct)
  case (1 w fd out sh)
  obtain r sh1 where sc: "syscall w (Read fd (8192 - length out)) sh = (r, sh1)" by fastforce
  have q: "quiet sh1 = quiet sh" using sc by (rule syscall_quiet)
  let ?p = "if r_val r \<le> 0 then [] else take (8192 - length out) (r_bytes r)"
  show ?case
  proof (cases "?p = [] \<or> length (out @ ?p) \<ge> 8192")
    case True
    then show ?thesis using 1(2) sc q by (auto simp: read_out.simps [of w fd out sh] Let_def split: if_splits)
  next
    case False
    then have "read_out w fd (out @ ?p) sh1 = (out', sh')"
      using 1(2) sc by (simp add: read_out.simps [of w fd out sh] Let_def split: if_splits)
    with 1(1) [OF sc [symmetric] refl, of ?p] False q show ?thesis by auto
  qed
qed

lemma expand_command_quiet:
  assumes "expand_command w cmd buf sh = Inr (buf', sh')" shows "quiet sh' = quiet sh"
proof -
  obtain r sh1 where p: "syscall w Pipe sh = (r, sh1)" by fastforce
  obtain f sh2 where f: "syscall w Fork sh1 = (f, sh2)" by fastforce
  obtain out sh3 where o: "read_out w (fst (r_ends r)) [] (did (Close (snd (r_ends r))) sh2) = (out, sh3)" by fastforce
  have "quiet sh2 = quiet sh" "quiet sh1 = quiet sh" using syscall_quiet [OF p] syscall_quiet [OF f] by auto
  moreover have "quiet sh3 = quiet sh2" using read_out_quiet [OF o] by simp
  ultimately show ?thesis
    using assms p f o by (auto simp: expand_command_def Let_def split: prod.splits if_splits)
qed

lemma substitute_quiet: "substitute w cmd buf sh = Inr (buf', sh') \<Longrightarrow> quiet sh' = quiet sh"
  by (auto simp: substitute_def andthen_Inr_iff dest: expand_command_quiet split: if_splits)

lemma expand_backtick_quiet: "expand_backtick w s buf sh = Inr (s', buf', sh') \<Longrightarrow> quiet sh' = quiet sh"
  by (auto simp: expand_backtick_def andthen_Inr_iff dest: substitute_quiet split: option.splits)

lemma expand_dollar_quiet: "expand_dollar w s buf sh = Inr (s', buf', sh') \<Longrightarrow> quiet sh' = quiet sh"
  by (auto simp: expand_dollar_def put_decimal_def Let_def andthen_Inr_iff dest: substitute_quiet
      split: if_splits option.splits prod.splits)

lemma dq_loop_quiet: "dq_loop w s buf sh = Inr (s', buf', sh') \<Longrightarrow> quiet sh' = quiet sh"
proof (induction w s buf sh rule: dq_loop.induct)
  case (1 w s buf sh)
  show ?case
  proof (cases "s = [] \<or> hd s = DQUOTE")
    case True
    with 1(4) show ?thesis by (auto simp: dq_loop.simps [of w s] split: if_splits)
  next
    case F: False
    consider (d) "hd s = DOLLAR" | (b) "hd s \<noteq> DOLLAR" "hd s = BTICK" | (o) "hd s \<noteq> DOLLAR" "hd s \<noteq> BTICK" by blast
    then show ?thesis
    proof cases
      case d
      then obtain s1 b1 h1 where e: "expand_dollar w (tl s) buf sh = Inr (s1, b1, h1)"
        and r: "dq_loop w s1 b1 (h1\<lparr>tok_from_cmd := False\<rparr>) = Inr (s', buf', sh')"
        using 1(4) F by (auto simp: dq_loop.simps [of w s] andthen_Inr_iff)
      from 1(1) [OF _ _ d e refl refl r] F expand_dollar_quiet [OF e] show ?thesis by auto
    next
      case b
      then obtain s1 b1 h1 where e: "expand_backtick w (tl s) buf sh = Inr (s1, b1, h1)"
        and r: "dq_loop w s1 b1 (h1\<lparr>tok_from_cmd := False\<rparr>) = Inr (s', buf', sh')"
        using 1(4) F by (auto simp: dq_loop.simps [of w s] andthen_Inr_iff)
      from 1(2) [OF _ _ _ b(2) e refl refl r] F b expand_backtick_quiet [OF e] show ?thesis by auto
    next
      case o
      then have r: "dq_loop w (tl s) (bput MAX_LINE buf (hd s)) sh = Inr (s', buf', sh')"
        using 1(4) F by (auto simp: dq_loop.simps [of w s])
      from 1(3) [OF _ _ o r] F show ?thesis by auto
    qed
  qed
qed

lemma word_loop_quiet: "word_loop w s buf sh = Inr (s', buf', sh') \<Longrightarrow> quiet sh' = quiet sh"
proof (induction w s buf sh rule: word_loop.induct)
  case (1 w s buf sh)
  show ?case
  proof (cases "s = [] \<or> ends_word (hd s)")
    case True
    with 1(6) show ?thesis by (auto simp: word_loop.simps [of w s] split: if_splits)
  next
    case F: False
    consider (q) "hd s = SQUOTE" | (dq) "hd s = DQUOTE" | (d) "hd s = DOLLAR" | (b) "hd s = BTICK"
      | (o) "hd s \<noteq> SQUOTE" "hd s \<noteq> DQUOTE" "hd s \<noteq> DOLLAR" "hd s \<noteq> BTICK" by blast
    then show ?thesis
    proof cases
      case q
      let ?q = "takeWhile (\<lambda>c. c \<noteq> SQUOTE) (tl s)"
      from q 1(6) F have "word_loop w (drop (length ?q + 1) (tl s)) (bputs MAX_LINE buf ?q) (sh\<lparr>tok_quoted := True\<rparr>) = Inr (s', buf', sh')"
        by (simp add: word_loop.simps [of w s] Let_def)
      from 1(1) [OF _ _ q refl refl this] F show ?thesis by auto
    next
      case dq
      then obtain s1 b1 h1 where e: "dq_loop w (tl s) buf (sh\<lparr>tok_quoted := True\<rparr>) = Inr (s1, b1, h1)"
        and r: "word_loop w s1 b1 h1 = Inr (s', buf', sh')"
        using 1(6) F by (auto simp: word_loop.simps [of w s] andthen_Inr_iff)
      from 1(2) [OF _ _ _ dq e refl refl r] F dq dq_loop_quiet [OF e] show ?thesis by auto
    next
      case d
      then obtain s1 b1 h1 where e: "expand_dollar w (tl s) buf sh = Inr (s1, b1, h1)"
        and r: "word_loop w s1 b1 h1 = Inr (s', buf', sh')"
        using 1(6) F by (auto simp: word_loop.simps [of w s] andthen_Inr_iff)
      from 1(3) [OF _ _ _ _ d e refl refl r] F d expand_dollar_quiet [OF e] show ?thesis by auto
    next
      case b
      then obtain s1 b1 h1 where e: "expand_backtick w (tl s) buf sh = Inr (s1, b1, h1)"
        and r: "word_loop w s1 b1 h1 = Inr (s', buf', sh')"
        using 1(6) F by (auto simp: word_loop.simps [of w s] andthen_Inr_iff)
      from 1(4) [OF _ _ _ _ _ b e refl refl r] F b expand_backtick_quiet [OF e] show ?thesis by auto
    next
      case o
      from o 1(6) F have "word_loop w (tl s) (bput MAX_LINE buf (hd s))
          (if hd s = STAR \<or> hd s = QUERY then sh\<lparr>tok_has_glob := True\<rparr> else sh) = Inr (s', buf', sh')"
        by (simp add: word_loop.simps [of w s])
      from 1(5) [OF _ _ o this] F show ?thesis by (auto split: if_splits)
    qed
  qed
qed

section \<open>Words in the arena\<close>

definition arg_ok :: "shell \<Rightarrow> nat \<Rightarrow> bool" where
  "arg_ok sh off \<longleftrightarrow> (\<exists>j. off \<le> j \<and> j < arena_used sh \<and> arena sh j = 0)"

definition arena_ok :: "shell \<Rightarrow> bool" where
  "arena_ok sh \<longleftrightarrow> arena_used sh \<le> ARENA"

text \<open>The arena grows, and where a string ended it still ends.\<close>

definition grows :: "shell \<Rightarrow> shell \<Rightarrow> bool" where
  "grows sh sh' \<longleftrightarrow> arena_used sh \<le> arena_used sh' \<and> (arena_ok sh \<longrightarrow> arena_ok sh') \<and>
     (\<forall>i<arena_used sh. arena sh i = 0 \<longrightarrow> arena sh' i = 0)"

lemma grows_refl [simp]: "grows sh sh"
  by (simp add: grows_def)

lemma grows_trans [trans]: "grows a b \<Longrightarrow> grows b c \<Longrightarrow> grows a c"
  by (fastforce simp: grows_def)

lemma grows_same: "arena sh' = arena sh \<Longrightarrow> arena_used sh' = arena_used sh \<Longrightarrow> grows sh sh'"
  by (simp add: grows_def arena_ok_def)

lemma grows_quiet: "quiet sh' = quiet sh \<Longrightarrow> grows sh sh'"
  using quietD [of sh' sh] by (simp add: grows_same)

lemma grows_arg: "grows sh sh' \<Longrightarrow> arg_ok sh off \<Longrightarrow> arg_ok sh' off"
  unfolding grows_def arg_ok_def by (meson less_le_trans)

lemma grows_ok: "grows sh sh' \<Longrightarrow> arena_ok sh \<Longrightarrow> arena_ok sh'"
  by (simp add: grows_def)

lemma arena_push_grows:
  assumes "arena_push src sh = (r, sh')"
  shows "grows sh sh' \<and> (\<forall>off. r = Some off \<longrightarrow> arg_ok sh' off \<and> off = arena_used sh) \<and> tables sh' = tables sh"
proof (cases "arena_used sh + length src + 1 > ARENA")
  case True
  then show ?thesis using assms by (auto simp: arena_push_def Let_def)
next
  case False
  then have "arena sh' (arena_used sh + length src) = 0" "arena_used sh' = arena_used sh + length src + 1"
    "r = Some (arena_used sh)" "tables sh' = tables sh" "\<forall>i<arena_used sh. arena sh' i = arena sh i"
    using assms by (auto simp: arena_push_def Let_def)
  then show ?thesis using False by (auto simp: grows_def arena_ok_def arg_ok_def intro: exI [of _ "arena_used sh + length src"])
qed

text \<open>A string that was pushed reads back.\<close>

lemma str_from_eq:
  assumes "\<forall>i<length s. a (off + i) = s ! i" "a (off + length s) = 0" "is_cstr s" "length s < k"
  shows "str_from a off k = s"
  using assms
proof (induction s arbitrary: off k)
  case Nil
  then show ?case by (simp add: str_from.simps [of a off])
next
  case (Cons c s)
  have c: "a off = c" "c \<noteq> 0" using Cons.prems by (auto dest: spec [of _ 0])
  have "str_from a (off + 1) (k - 1) = s"
  proof (rule Cons.IH)
    show "\<forall>i<length s. a (off + 1 + i) = s ! i" using Cons.prems(1) by (auto dest: spec [of _ "Suc _"])
  qed (use Cons.prems in auto)
  then show ?case using c Cons.prems(4) by (simp add: str_from.simps [of a off])
qed

definition holds_str :: "shell \<Rightarrow> nat \<Rightarrow> cstring \<Rightarrow> bool" where
  "holds_str sh off s \<longleftrightarrow> is_cstr s \<and> (\<forall>i<length s. arena sh (off + i) = s ! i) \<and>
     arena sh (off + length s) = 0 \<and> off + length s < arena_used sh \<and> arena_used sh \<le> ARENA"

lemma str_at_holds: "holds_str sh off s \<Longrightarrow> str_at sh off = s"
  unfolding str_at_def holds_str_def by (rule str_from_eq) auto

lemma holds_arg_ok: "holds_str sh off s \<Longrightarrow> arg_ok sh off"
  by (auto simp: holds_str_def arg_ok_def intro: exI [of _ "off + length s"])

definition keeps :: "shell \<Rightarrow> shell \<Rightarrow> bool" where
  "keeps sh sh' \<longleftrightarrow> arena_used sh \<le> arena_used sh' \<and> arena_used sh' \<le> ARENA \<and>
     (\<forall>i<arena_used sh. arena sh' i = arena sh i)"

lemma keeps_holds: "keeps sh sh' \<Longrightarrow> holds_str sh off s \<Longrightarrow> holds_str sh' off s"
  by (auto simp: keeps_def holds_str_def)

lemma keeps_parts_trans: "keeps a b \<Longrightarrow> keeps b c \<Longrightarrow> keeps a c"
  by (fastforce simp: keeps_def)

lemma keeps_quiet: "quiet sh' = quiet sh \<Longrightarrow> arena_used sh \<le> ARENA \<Longrightarrow> keeps sh sh'"
  using quietD [of sh' sh] by (simp add: keeps_def)

lemma arena_push_holds:
  assumes "arena_push src sh = (Some off, sh')" "is_cstr src"
  shows "keeps sh sh' \<and> holds_str sh' off src"
  using assms by (auto simp: arena_push_def Let_def keeps_def holds_str_def split: if_splits)

lemma arena_push_fits:
  "arena_used sh + length src + 1 \<le> ARENA \<Longrightarrow> \<exists>sh'. arena_push src sh = (Some (arena_used sh), sh')"
  by (simp add: arena_push_def Let_def)

lemma token_at_ok:
  assumes "token_at w s sh = Inr (t, off, s', sh')"
  shows "grows sh sh' \<and> tables sh' = tables sh \<and> (t = TOK_WORD \<longrightarrow> arg_ok sh' off)"
proof (cases "t = TOK_WORD \<or> quiet sh' \<noteq> quiet sh")
  case False
  then show ?thesis using quietD [of sh' sh] grows_quiet by metis
next
  case True
  let ?h = "sh\<lparr>tok_quoted := False, tok_has_glob := False, tok_from_cmd := False\<rparr>"
  obtain s1 b1 where ti: "tilde s = (s1, b1)" by fastforce
  have "andthen (word_loop w s1 b1 ?h) (\<lambda>(s, buf, sh). case arena_push buf sh of
        (None, sh) \<Rightarrow> Inr (TOK_END, 0, s, say (cs ''sh: line too long'' @ [LF]) [] sh)
      | (Some off, sh) \<Rightarrow> Inr (TOK_WORD, off, s, sh)) = Inr (t, off, s', sh')"
    using assms True ti by (auto simp: token_at_def Let_def split: if_splits)
  then obtain s2 b2 h2 r h3 where wl: "word_loop w s1 b1 ?h = Inr (s2, b2, h2)" and p: "arena_push b2 h2 = (r, h3)"
    and e: "(case r of None \<Rightarrow> Inr (TOK_END, 0, s2, say (cs ''sh: line too long'' @ [LF]) [] h3)
      | Some off \<Rightarrow> Inr (TOK_WORD, off, s2, h3)) = (Inr (t, off, s', sh') :: stop + _)"
    by (elim andthen_InrE) (auto split: prod.splits)
  have q: "quiet h2 = quiet sh" using word_loop_quiet [OF wl] by simp
  note pg = arena_push_grows [OF p] quietD [OF q] grows_quiet [OF q]
  have "grows sh h3" using pg grows_trans by blast
  moreover have "grows h3 (say f a h3)" "tables (say f a h3) = tables h3" for f a
    by (simp_all add: grows_quiet quietD [of "say f a h3" h3])
  ultimately show ?thesis using e pg by (cases r) (auto intro: grows_trans)
qed

lemma next_token_ok:
  "next_token w p sh = Inr (t, off, s', sh') \<Longrightarrow>
     grows sh sh' \<and> tables sh' = tables sh \<and> (t = TOK_WORD \<longrightarrow> arg_ok sh' off)"
  unfolding next_token_def by (rule token_at_ok)

section \<open>Well-formed tables\<close>

definition target_ok :: "shell \<Rightarrow> target option \<Rightarrow> bool" where
  "target_ok sh t = (case t of Some (In_arena off) \<Rightarrow> arg_ok sh off | _ \<Rightarrow> True)"

definition cmd_ok :: "shell \<Rightarrow> cmd_t \<Rightarrow> bool" where
  "cmd_ok sh c \<longleftrightarrow> length (argv c) \<le> MAX_ARGS \<and> (\<forall>off\<in>set (argv c). arg_ok sh off) \<and>
     target_ok sh (redir_in c) \<and> target_ok sh (redir_out c) \<and> target_ok sh (redir_err c)"

definition pipeline_ok :: "shell \<Rightarrow> pipeline_t \<Rightarrow> bool" where
  "pipeline_ok sh pl \<longleftrightarrow> cmds pl \<noteq> [] \<and> length (cmds pl) \<le> MAX_CMDS \<and> (\<forall>c\<in>set (cmds pl). cmd_ok sh c)"

definition table_ok :: "table \<Rightarrow> nat \<Rightarrow> nat \<Rightarrow> shell \<Rightarrow> bool" where
  "table_ok tb mx np sh \<longleftrightarrow> 1 \<le> np \<and> np \<le> mx \<and> mx \<le> length (tables sh tb) \<and> arena_ok sh \<and>
     (\<forall>i<np. pipeline_ok sh (slot tb i sh))"

lemma target_ok_grows: "grows sh sh' \<Longrightarrow> target_ok sh t \<Longrightarrow> target_ok sh' t"
  by (auto simp: target_ok_def grows_arg split: option.splits target.splits)

lemma cmd_ok_grows: "grows sh sh' \<Longrightarrow> cmd_ok sh c \<Longrightarrow> cmd_ok sh' c"
  by (auto simp: cmd_ok_def grows_arg target_ok_grows)

lemma pipeline_ok_grows: "grows sh sh' \<Longrightarrow> pipeline_ok sh pl \<Longrightarrow> pipeline_ok sh' pl"
  by (auto simp: pipeline_ok_def cmd_ok_grows)

lemma table_ok_grows: "grows sh sh' \<Longrightarrow> tables sh' = tables sh \<Longrightarrow> table_ok tb mx np sh \<Longrightarrow> table_ok tb mx np sh'"
  using grows_ok [of sh sh'] pipeline_ok_grows [of sh sh'] by (simp add: table_ok_def slot_def)

lemma table_ok_quiet: "quiet sh' = quiet sh \<Longrightarrow> table_ok tb mx np sh \<Longrightarrow> table_ok tb mx np sh'"
  by (rule table_ok_grows [OF grows_quiet quietD(3)])

lemma set_slot_simps [simp]:
  "arena (set_slot tb i pl sh) = arena sh" "arena_used (set_slot tb i pl sh) = arena_used sh"
  "i < length (tables sh tb) \<Longrightarrow> slot tb i (set_slot tb i pl sh) = pl"
  "j \<noteq> i \<Longrightarrow> slot tb j (set_slot tb i pl sh) = slot tb j sh"
  "length (tables (set_slot tb i pl sh) tb) = length (tables sh tb)"
  by (simp_all add: set_slot_def slot_def)

lemma grows_set_slot [simp]: "grows sh (set_slot tb i pl sh)"
  by (rule grows_same) simp_all

lemma table_ok_set_slot:
  assumes "table_ok tb mx np sh" "pipeline_ok sh pl" "i < mx" "np' = np \<and> i < np \<or> np' = Suc np \<and> i = np"
  shows "table_ok tb mx np' (set_slot tb i pl sh)"
proof -
  have "pipeline_ok (set_slot tb i pl sh) (slot tb j (set_slot tb i pl sh))" if "j < np'" for j
  proof (cases "j = i")
    case True
    then show ?thesis using assms pipeline_ok_grows [OF grows_set_slot] by (auto simp: table_ok_def)
  next
    case False
    then show ?thesis using assms that pipeline_ok_grows [OF grows_set_slot] by (auto simp: table_ok_def)
  qed
  then show ?thesis using assms by (auto simp: table_ok_def arena_ok_def)
qed

lemma table_okD: "table_ok tb mx np sh \<Longrightarrow> pipeline_ok sh (slot tb (np - 1) sh)"
  by (simp add: table_ok_def)

lemma cur_ok: "table_ok tb mx np sh \<Longrightarrow> cmd_ok sh (cur tb np sh)"
  by (drule table_okD) (auto simp: pipeline_ok_def cur_def)

lemma table_ok_set_cur:
  assumes "table_ok tb mx np sh" "cmd_ok sh c" shows "table_ok tb mx np (set_cur tb np c sh)"
proof -
  have pl: "pipeline_ok sh (slot tb (np - 1) sh)" using assms(1) by (simp add: table_ok_def)
  then have "pipeline_ok sh ((slot tb (np - 1) sh)\<lparr>cmds := butlast (cmds (slot tb (np - 1) sh)) @ [c]\<rparr>)"
    using assms(2) by (auto simp: pipeline_ok_def dest: in_set_butlastD)
  then show ?thesis
    unfolding set_cur_def Let_def by (rule table_ok_set_slot [OF assms(1)]) (use assms(1) in \<open>auto simp: table_ok_def\<close>)
qed

lemma table_ok_add_arg:
  assumes "table_ok tb mx np sh" "arg_ok sh off" "argc tb np sh < MAX_ARGS"
  shows "table_ok tb mx np (add_arg tb np off sh)"
  unfolding add_arg_def Let_def
  by (rule table_ok_set_cur [OF assms(1)]) (use cur_ok [OF assms(1)] assms(2,3) in \<open>auto simp: cmd_ok_def argc_def\<close>)

lemma pipeline_ok_new [simp]: "pipeline_ok sh (new_pipeline l)"
  by (simp add: pipeline_ok_def new_pipeline_def no_cmd_def cmd_ok_def target_ok_def MAX_CMDS_def)

lemma table_ok_new:
  assumes "arena_ok sh" "0 < mx" "mx \<le> length (tables sh tb)"
  shows "table_ok tb mx 1 (set_slot tb 0 (new_pipeline l) sh)"
proof -
  have "slot tb 0 (set_slot tb 0 (new_pipeline l) sh) = new_pipeline l"
    using assms(2,3) by (intro set_slot_simps(3)) linarith
  then show ?thesis using assms by (simp add: table_ok_def arena_ok_def)
qed

lemma push_names_ok:
  assumes "push_names tb np nms added sh = (a, sh')" "table_ok tb mx np sh"
  shows "table_ok tb mx np sh' \<and> grows sh sh'"
  using assms
proof (induction tb np nms added sh rule: push_names.induct)
  case (2 tb np x xs added sh)
  show ?case
  proof (cases "argc tb np sh \<ge> MAX_ARGS")
    case True
    then show ?thesis using 2 by simp
  next
    case less: False
    obtain r sh1 where p: "arena_push x sh = (r, sh1)" by fastforce
    note pg = arena_push_grows [OF p]
    have ok1: "table_ok tb mx np sh1" using pg 2(3) table_ok_grows by blast
    show ?thesis
    proof (cases r)
      case None
      then show ?thesis using 2 p less ok1 pg by simp
    next
      case (Some off)
      have "argc tb np sh1 < MAX_ARGS" using less pg by (simp add: argc_def cur_def slot_def)
      moreover have "arg_ok sh1 off" using pg Some by blast
      ultimately have "table_ok tb mx np (add_arg tb np off sh1)" using ok1 by (simp add: table_ok_add_arg)
      with 2 p less Some have "table_ok tb mx np sh'" "grows (add_arg tb np off sh1) sh'" by auto
      moreover have "grows sh1 (add_arg tb np off sh1)" by (simp add: add_arg_def set_cur_def Let_def)
      ultimately show ?thesis using pg grows_trans by blast
    qed
  qed
qed auto

lemma glob_expand_ok:
  assumes "glob_expand w tb np word sh = (a, sh')" "table_ok tb mx np sh"
  shows "table_ok tb mx np sh' \<and> grows sh sh'"
proof -
  have same: "table_ok tb mx np h \<and> grows sh h" if "quiet h = quiet sh" for h
    using that assms(2) table_ok_quiet grows_quiet by blast
  show ?thesis
  proof (cases "glob_split word")
    case None
    then show ?thesis using assms by (simp add: glob_expand_def)
  next
    case (Some dp)
    obtain dir pat where dp: "dp = (dir, pat)" by fastforce
    obtain r sh1 where o: "syscall w (Open dir (O_RDONLY OR O_DIRECTORY)) sh = (r, sh1)" by fastforce
    obtain d sh2 where g: "syscall w (Getdents (r_val r)) sh1 = (d, sh2)" by fastforce
    have q: "quiet sh1 = quiet sh" "quiet (did (Close (r_val r)) sh2) = quiet sh"
      using syscall_quiet [OF o] syscall_quiet [OF g] by simp_all
    have push: "table_ok tb mx np sh' \<and> grows sh sh'"
      if "push_names tb np nms 0 (did (Close (r_val r)) sh2) = (a, sh')" for nms
      using push_names_ok [OF that] same [OF q(2)] grows_trans by blast
    show ?thesis
      using assms(1) same [OF q(1)] same [OF q(2)] push
      by (simp add: glob_expand_def Some dp o g Let_def split: if_splits)
  qed
qed

lemma split_words_ok:
  assumes "table_ok tb mx np sh" "\<forall>i<length wd. off + i < arena_used sh" "arg_ok sh (off + length wd)"
  shows "table_ok tb mx np (split_words tb np off wd sh)"
  using assms
proof (induction tb np off wd sh rule: split_words.induct)
  case (1 tb np off wd sh)
  define k where "k = length (takeWhile (\<lambda>c. c = SP) wd)"
  define wd' where "wd' = drop k wd"
  define n where "n = length (takeWhile (\<lambda>c. c \<noteq> SP) wd')"
  define h where "h = sh\<lparr>arena := (arena sh)(off + k + n := 0)\<rparr>"
  define h' where "h' = add_arg tb np (off + k) h"
  show ?case
  proof (cases "wd = [] \<or> argc tb np sh \<ge> MAX_ARGS \<or> wd' = []")
    case True
    then show ?thesis using 1(2) by (auto simp: split_words.simps [of tb np off wd sh] Let_def wd'_def k_def)
  next
    case F: False
    have kl: "k \<le> length wd" "length wd' = length wd - k" by (simp_all add: k_def wd'_def length_takeWhile_le)
    have nl: "n \<le> length wd'" by (simp add: n_def length_takeWhile_le)
    have gh: "grows sh h" "tables h = tables sh" by (auto simp: grows_def arena_ok_def h_def)
    have used: "off + k + n < arena_used h"
    proof (cases "n = length wd'")
      case True
      then have "off + k + n = off + length wd" using kl by simp
      then show ?thesis using 1(4) by (auto simp: arg_ok_def h_def)
    next
      case False
      then have "k + n < length wd" using kl nl by linarith
      then show ?thesis using 1(3) by (simp add: h_def add.assoc)
    qed
    have a: "arg_ok h (off + k)" unfolding arg_ok_def by (rule exI [of _ "off + k + n"]) (use used in \<open>simp add: h_def\<close>)
    have "table_ok tb mx np h" using 1(2) gh table_ok_grows by blast
    moreover have "argc tb np h < MAX_ARGS" using F gh(2) by (simp add: argc_def cur_def slot_def)
    ultimately have ok': "table_ok tb mx np h'" using a by (simp add: h'_def table_ok_add_arg)
    have gh': "arena h' = arena h" "arena_used h' = arena_used sh"
      by (simp_all add: h'_def add_arg_def set_cur_def Let_def h_def)
    have eq: "split_words tb np off wd sh =
        (if n = length wd' then h' else split_words tb np (off + k + n + 1) (drop (n + 1) wd') h')"
      using F by (simp add: split_words.simps [of tb np off wd sh] Let_def wd'_def k_def n_def h_def h'_def)
    show ?thesis
    proof (cases "n = length wd'")
      case True
      then show ?thesis using eq ok' by simp
    next
      case False
      have len: "off + k + n + 1 + length (drop (n + 1) wd') = off + length wd" using False kl nl by simp
      have "table_ok tb mx np (split_words tb np (off + k + n + 1) (drop (n + 1) wd') h')"
      proof (rule 1(1) [OF _ k_def wd'_def refl n_def _ _ _ ok'])
        show "\<not> (wd = [] \<or> MAX_ARGS \<le> argc tb np sh)" "wd' \<noteq> []" "n \<noteq> length wd'" using F False by auto
        show "h' = add_arg tb np (off + k) (sh\<lparr>arena := (arena sh)(off + k + n := 0)\<rparr>)" by (simp add: h'_def h_def)
        show "\<forall>i<length (drop (n + 1) wd'). off + k + n + 1 + i < arena_used h'"
        proof (intro allI impI)
          fix i assume "i < length (drop (n + 1) wd')"
          then have "k + n + 1 + i < length wd" using kl by simp
          then show "off + k + n + 1 + i < arena_used h'" using 1(3) gh' by (auto simp: add.assoc)
        qed
        have "arg_ok h (off + length wd)" using grows_arg [OF gh(1) 1(4)] .
        then show "arg_ok h' (off + k + n + 1 + length (drop (n + 1) wd'))"
          unfolding len using gh' gh by (simp add: arg_ok_def h_def)
      qed
      then show ?thesis using eq False by simp
    qed
  qed
qed

lemma push_names_none:
  "push_names tb np nms added sh = (added, sh') \<Longrightarrow> tables sh' = tables sh"
proof (induction tb np nms added sh rule: push_names.induct)
  case (2 tb np x xs added sh)
  have mono: "push_names tb np l k h = (m, h') \<Longrightarrow> k \<le> m" for l k h m h'
    by (induction tb np l k h rule: push_names.induct) (auto split: if_splits option.splits prod.splits)
  obtain r sh1 where p: "arena_push x sh = (r, sh1)" by fastforce
  show ?case
    using 2(2) p arena_push_grows [OF p] by (auto split: if_splits option.splits dest: mono)
qed auto

lemma glob_none:
  assumes "glob_expand w tb np word sh = (0, sh')" shows "tables sh' = tables sh"
proof (cases "glob_split word")
  case None
  then show ?thesis using assms by (simp add: glob_expand_def)
next
  case (Some dp)
  obtain dir pat where dp: "dp = (dir, pat)" by fastforce
  obtain r sh1 where o: "syscall w (Open dir (O_RDONLY OR O_DIRECTORY)) sh = (r, sh1)" by fastforce
  obtain d sh2 where g: "syscall w (Getdents (r_val r)) sh1 = (d, sh2)" by fastforce
  have t: "tables sh1 = tables sh" "tables (did c sh2) = tables sh" for c
    using o g by (auto simp: syscall_def did_def)
  show ?thesis
    using assms t push_names_none
    by (simp add: glob_expand_def Some dp o g Let_def split: if_splits) fastforce
qed

lemma str_from_length:
  "a j = 0 \<Longrightarrow> off \<le> j \<Longrightarrow> j < off + k \<Longrightarrow>
     off + length (str_from a off k) \<le> j \<and> a (off + length (str_from a off k)) = 0"
proof (induction a off k rule: str_from.induct)
  case (1 a i k)
  show ?case
  proof (cases "k = 0 \<or> a i = 0")
    case True
    then show ?thesis using 1 by (auto simp: str_from.simps [of a i k])
  next
    case False
    then have "i \<noteq> j" using 1(2) by auto
    then show ?thesis using 1 False by (auto simp: str_from.simps [of a i k])
  qed
qed

lemma str_at_inside:
  assumes "arg_ok sh off" "arena_ok sh"
  shows "off + length (str_at sh off) < arena_used sh" "arg_ok sh (off + length (str_at sh off))"
proof -
  obtain j where j: "off \<le> j" "j < arena_used sh" "arena sh j = 0" using assms(1) by (auto simp: arg_ok_def)
  then have "j < off + (ARENA - off)" using assms(2) by (auto simp: arena_ok_def)
  from str_from_length [of "arena sh" j off "ARENA - off", OF j(3) j(1) this]
  have l: "off + length (str_at sh off) \<le> j" "arena sh (off + length (str_at sh off)) = 0" by (simp_all add: str_at_def)
  then show "off + length (str_at sh off) < arena_used sh" using j by linarith
  then show "arg_ok sh (off + length (str_at sh off))" using l by (auto simp: arg_ok_def)
qed

lemma sh_setenv_same [simp]:
  "arena (sh_setenv w nm v sh) = arena sh" "arena_used (sh_setenv w nm v sh) = arena_used sh"
  "tables (sh_setenv w nm v sh) = tables sh"
  by (simp_all add: sh_setenv_def)

lemma try_assignment_same:
  "try_assignment w word sh = Some sh' \<Longrightarrow> arena sh' = arena sh \<and> arena_used sh' = arena_used sh \<and> tables sh' = tables sh"
  by (auto simp: try_assignment_def Let_def split: option.splits if_splits)

lemma parse_word_ok:
  assumes "parse_word w tb np assigned off sh = (r, sh')" "table_ok tb mx np sh" "arg_ok sh off"
  shows "table_ok tb mx np sh'"
proof -
  let ?word = "str_at sh off"
  have ar: "arena_ok sh" using assms(2) by (simp add: table_ok_def)
  have same: "table_ok tb mx np h" if "arena h = arena sh" "arena_used h = arena_used sh" "tables h = tables sh" for h
    using table_ok_grows [OF grows_same [OF that(1,2)] that(3) assms(2)] .
  have quiet': "table_ok tb mx np h" if "quiet h = quiet sh" for h
    using table_ok_quiet [OF that assms(2)] .
  show ?thesis
  proof (cases "argc tb np sh \<ge> MAX_ARGS")
    case True
    then have "sh' = say (cs ''sh: too many arguments'' @ [LF]) [] sh"
      using assms(1) by (simp add: parse_word_def)
    then show ?thesis by (simp add: quiet')
  next
    case less: False
    show ?thesis
    proof (cases "if argc tb np sh = 0 \<and> \<not> tok_quoted sh then try_assignment w ?word sh else None")
      case (Some h)
      then have "sh' = h" "try_assignment w ?word sh = Some h"
        using assms(1) less by (auto simp: parse_word_def Let_def split: if_splits)
      then show ?thesis using try_assignment_same same by blast
    next
      case None
      have "table_ok tb mx np (split_words tb np off ?word sh)"
        by (rule split_words_ok [OF assms(2)]) (use str_at_inside [OF assms(3) ar] in auto)
      moreover have "table_ok tb mx np (add_arg tb np off sh)"
        using table_ok_add_arg [OF assms(2,3)] less by simp
      moreover obtain a h where g: "glob_expand w tb np ?word sh = (a, h)" by fastforce
      note go = glob_expand_ok [OF g assms(2)]
      moreover have "table_ok tb mx np (add_arg tb np off h)" if "a = 0"
      proof (rule table_ok_add_arg)
        show "table_ok tb mx np h" "arg_ok h off" using go grows_arg assms(3) by blast+
        have "argc tb np h = argc tb np sh" using glob_none [OF g [unfolded that]] by (simp add: argc_def cur_def slot_def)
        then show "argc tb np h < MAX_ARGS" using less by simp
      qed
      ultimately show ?thesis
        using assms(1) less None g by (auto simp: parse_word_def Let_def split: if_splits)
    qed
  qed
qed

lemma parse_bar_ok:
  assumes "parse_bar tb np sh = (r, sh')" "table_ok tb mx np sh"
  shows "table_ok tb mx np sh'"
proof (cases r)
  case False
  then have "quiet sh' = quiet sh" using assms(1) by (auto simp: parse_bar_def Let_def split: if_splits)
  then show ?thesis using table_ok_quiet assms(2) by blast
next
  case True
  let ?pl = "slot tb (np - 1) sh"
  have n: "length (cmds ?pl) < MAX_CMDS" and e: "sh' = set_slot tb (np - 1) (?pl\<lparr>cmds := cmds ?pl @ [no_cmd]\<rparr>) sh"
    using assms(1) True by (auto simp: parse_bar_def Let_def split: if_splits)
  have "pipeline_ok sh (?pl\<lparr>cmds := cmds ?pl @ [no_cmd]\<rparr>)"
    using table_okD [OF assms(2)] n by (auto simp: pipeline_ok_def no_cmd_def cmd_ok_def target_ok_def)
  then show ?thesis
    unfolding e by (rule table_ok_set_slot [OF assms(2)]) (use assms(2) in \<open>auto simp: table_ok_def\<close>)
qed

lemma set_background_ok:
  assumes "table_ok tb mx np sh" shows "table_ok tb mx np (set_background tb np b sh)"
  unfolding set_background_def
proof (rule table_ok_set_slot [OF assms])
  show "pipeline_ok sh ((slot tb (np - 1) sh)\<lparr>background := b\<rparr>)"
    using table_okD [OF assms] by (simp add: pipeline_ok_def)
qed (use assms in \<open>auto simp: table_ok_def\<close>)

lemma parse_join_ok:
  assumes "parse_join tb mx t np assigned sh = (r, sh')" "table_ok tb mx np sh"
  shows "table_ok tb mx np sh' \<or> (\<exists>a. r = Some (np + 1, a)) \<and> table_ok tb mx (np + 1) sh'"
    and "r = Some (np', a) \<Longrightarrow> table_ok tb mx np' sh'"
proof -
  define h where "h = (if t = TOK_AMP then set_background tb np True sh else sh)"
  have h: "table_ok tb mx np h" using assms(2) set_background_ok by (simp add: h_def)
  have q: "table_ok tb mx np h'" if "quiet h' = quiet h" for h' using table_ok_quiet [OF that h] .
  have z: "table_ok tb mx np (h\<lparr>last_status := 0\<rparr>)"
    by (rule table_ok_grows [OF grows_same _ h]) simp_all
  have n: "table_ok tb mx (np + 1) (set_slot tb np (new_pipeline l) h)" if "\<not> np \<ge> mx" for l
    by (rule table_ok_set_slot [OF h]) (use that in auto)
  show "table_ok tb mx np sh' \<or> (\<exists>a. r = Some (np + 1, a)) \<and> table_ok tb mx (np + 1) sh'"
    using assms(1) q z n set_background_ok [OF z]
    unfolding parse_join_def Let_def h_def [symmetric] by (auto split: if_splits)
  show "r = Some (np', a) \<Longrightarrow> table_ok tb mx np' sh'"
    using assms(1) q z n set_background_ok [OF z]
    unfolding parse_join_def Let_def h_def [symmetric] by (auto split: if_splits)
qed

lemma redirect_amp_ok:
  assumes "table_ok tb mx np sh" shows "table_ok tb mx np (redirect_amp tb np t d sh)"
proof -
  let ?h = "sh\<lparr>amp := d\<rparr>"
  have h: "table_ok tb mx np ?h" by (rule table_ok_grows [OF grows_same _ assms]) simp_all
  show ?thesis unfolding redirect_amp_def Let_def
    by (rule table_ok_set_cur [OF h]) (use cur_ok [OF h] in \<open>auto simp: cmd_ok_def target_ok_def\<close>)
qed

lemma redirect_to_ok:
  assumes "table_ok tb mx np sh" "arg_ok sh off" shows "table_ok tb mx np (redirect_to tb np t off sh)"
  unfolding redirect_to_def Let_def
  by (rule table_ok_set_cur [OF assms(1)]) (use cur_ok [OF assms(1)] assms(2) in \<open>auto simp: cmd_ok_def target_ok_def\<close>)

text \<open>What a parse leaves: \<open>n\<close> pipelines, the last of them with a command.\<close>

definition parsed :: "table \<Rightarrow> nat \<Rightarrow> nat \<Rightarrow> shell \<Rightarrow> bool" where
  "parsed tb mx n sh \<longleftrightarrow> n \<le> mx \<and> arena_ok sh \<and> (\<forall>i<n. pipeline_ok sh (slot tb i sh)) \<and>
     (0 < n \<longrightarrow> argv (hd (cmds (slot tb (n - 1) sh))) \<noteq> [])"

lemma drop_empty_le: "drop_empty tb n sh \<le> n"
  by (induction tb n sh rule: drop_empty.induct) auto

lemma drop_empty_last: "0 < drop_empty tb n sh \<Longrightarrow> argv (hd (cmds (slot tb (drop_empty tb n sh - 1) sh))) \<noteq> []"
  by (induction tb n sh rule: drop_empty.induct) auto

lemma parse_end_ok:
  assumes "parse_end tb np assigned sh = (n, sh')" "table_ok tb mx np sh"
  shows "0 \<le> n \<and> parsed tb mx (nat n) sh'"
proof -
  let ?n = "drop_empty tb np sh"
  have n: "n = int ?n" and s: "arena sh' = arena sh" "arena_used sh' = arena_used sh" "tables sh' = tables sh"
    using assms(1) by (auto simp: parse_end_def Let_def)
  have "table_ok tb mx np sh'" by (rule table_ok_grows [OF grows_same [OF s(1,2)] s(3) assms(2)])
  then show ?thesis
    using drop_empty_le [of tb np sh] drop_empty_last [of tb np sh] s(3)
    by (auto simp: n parsed_def table_ok_def slot_def)
qed

lemma parse_loop_ok:
  "parse_loop w tb mx p np assigned sh = Inr (n, sh') \<Longrightarrow> table_ok tb mx np sh \<Longrightarrow>
     n = -1 \<or> 0 \<le> n \<and> parsed tb mx (nat n) sh'"
proof (induction w tb mx p np assigned sh rule: parse_loop.induct)
  case (1 w tb mx p np assigned sh)
  obtain t off p' h where nt: "next_token w p sh = Inr (t, off, p', h)"
    using 1(6) by (auto simp: parse_loop.simps [of w tb mx p] andthen_Inr_iff)
  have h: "table_ok tb mx np h" using next_token_ok [OF nt] table_ok_grows 1(7) by blast
  note unf = parse_loop.simps [of w tb mx p np assigned sh] nt andthen_simps prod.case
  consider (e) "t = TOK_END" | (wd) "t = TOK_WORD" | (bar) "t = TOK_PIPE"
    | (j) "t = TOK_AND \<or> t = TOK_OR \<or> t = TOK_SEMI \<or> t = TOK_AMP" "t \<noteq> TOK_END" "t \<noteq> TOK_WORD" "t \<noteq> TOK_PIPE"
    | (r) "t \<noteq> TOK_END" "t \<noteq> TOK_WORD" "t \<noteq> TOK_PIPE" "\<not> (t = TOK_AND \<or> t = TOK_OR \<or> t = TOK_SEMI \<or> t = TOK_AMP)"
    by blast
  then show ?case
  proof cases
    case e
    then have "parse_end tb np assigned h = (n, sh')" using 1(6) by (simp add: unf)
    then show ?thesis using parse_end_ok h by blast
  next
    case wd
    obtain a h1 where pw: "parse_word w tb np assigned off h = (a, h1)" by fastforce
    have h1: "table_ok tb mx np h1" using parse_word_ok [OF pw h] next_token_ok [OF nt] wd by blast
    show ?thesis
      using 1(1) [OF nt refl refl refl _ wd pw [symmetric]] 1(6) wd pw h1 by (cases a) (auto simp: unf)
  next
    case bar
    obtain b h1 where pb: "parse_bar tb np h = (b, h1)" by fastforce
    show ?thesis
      using 1(2) [OF nt refl refl refl _ _ bar pb [symmetric]] 1(6) bar pb parse_bar_ok [OF pb h]
      by (cases b) (auto simp: unf)
  next
    case j
    obtain r h1 where pj: "parse_join tb mx t np assigned h = (r, h1)" by fastforce
    show ?thesis
    proof (cases r)
      case None
      then show ?thesis using 1(6) j pj by (auto simp: unf)
    next
      case (Some x)
      obtain np' a where x: "x = (np', a)" by fastforce
      have "parse_loop w tb mx p' np' a h1 = Inr (n, sh')" using 1(6) j pj Some x by (auto simp: unf)
      from 1(3) [OF nt refl refl refl j(2-4) j(1) pj [symmetric] Some x [symmetric] this] parse_join_ok(2) [OF pj h] Some x
      show ?thesis by blast
    qed
  next
    case r
    show ?thesis
    proof (cases "amp_follows (skip_blank p')")
      case True
      then have "parse_loop w tb mx (drop 2 (skip_blank p')) np assigned (redirect_amp tb np t (deref (tl (skip_blank p'))) h) = Inr (n, sh')"
        using 1(6) r by (auto simp: unf)
      from 1(4) [OF nt refl refl refl r True this] redirect_amp_ok [OF h] show ?thesis by blast
    next
      case False
      obtain t' off2 p'' h2 where nt2: "next_token w p' h = Inr (t', off2, p'', h2)"
        using 1(6) r False by (auto simp: unf andthen_Inr_iff)
      have h2: "table_ok tb mx np h2" using next_token_ok [OF nt2] table_ok_grows h by blast
      show ?thesis
      proof (cases "t' = TOK_WORD")
        case F: False
        then show ?thesis using 1(6) r False nt2 by (auto simp: unf)
      next
        case True
        then have "parse_loop w tb mx p'' np assigned (redirect_to tb np t off2 h2) = Inr (n, sh')"
          using 1(6) r False nt2 by (auto simp: unf)
        moreover have "table_ok tb mx np (redirect_to tb np t off2 h2)"
          using redirect_to_ok [OF h2] next_token_ok [OF nt2] True by blast
        ultimately show ?thesis
          using 1(5) [OF nt refl refl refl r False nt2 refl refl refl] True by blast
      qed
    qed
  qed
qed

text \<open>
  C12: the table that the parser of the shell fills is well-formed.  Whatever the line, the
  environment, the answers of the kernel and the words found by wildcards, a parse that returns \<open>n\<close>
  pipelines leaves each of the first \<open>n\<close> with between one and 8 commands, at most 64 words in a
  command, and every word and file name a string that ends inside the arena, which is not
  overrun; the last pipeline has a command.  It returns -1, or a number from 0 to \<open>mx\<close>.
\<close>

theorem parse_line_well_formed:
  assumes "parse_line w tb mx line sh = Inr (n, sh')" "0 < mx" "mx \<le> length (tables sh tb)"
  shows "n = -1 \<or> 0 \<le> n \<and> parsed tb mx (nat n) sh'"
proof (rule parse_loop_ok [OF assms(1) [unfolded parse_line_def]])
  show "table_ok tb mx 1 (set_slot tb 0 (new_pipeline LINK_NONE) (sh\<lparr>arena_used := 0\<rparr>))"
    using assms(2,3) by (intro table_ok_new) (auto simp: arena_ok_def)
qed

text \<open>A kernel that refuses everything, and a shell without an environment, for the examples.\<close>

definition refusing :: world where
  "refusing = \<lparr>kernel = (\<lambda>past c. \<lparr>r_val = -1, r_bytes = [], r_ends = (0, 0),
     r_stat = \<lparr>st_mode = 0, st_size = 0, st_mtime = 0\<rparr>, r_status = 0, r_dents = []\<rparr>), alloc = (\<lambda>n. True)\<rparr>"

definition bare_shell :: shell where
  "bare_shell = start_shell \<lparr>environ = None, owned = False, env_count = 0, env_capacity = 0\<rparr>"

lemma bare_shell_tables [simp]: "length (tables bare_shell tb) = 8"
  by (simp add: bare_shell_def start_shell_def MAX_PIPES_def)

end
