(* ===== verification/ShGlob.thy ===== *)
theory ShGlob
  imports ShTable "HOL-Library.Multiset"
begin

text \<open>
  What the wildcards of the shell match, and the order of the names they give.
\<close>

section \<open>Matching\<close>

text \<open>A pattern against a name: \<open>?\<close> is any character, \<open>*\<close> any run of them.\<close>

inductive matches :: "cstring \<Rightarrow> cstring \<Rightarrow> bool" where
  nil: "matches [] []"
| char: "c \<noteq> STAR \<Longrightarrow> c = QUERY \<or> c = x \<Longrightarrow> matches p s \<Longrightarrow> matches (c # p) (x # s)"
| star: "matches p t \<Longrightarrow> matches (STAR # p) (u @ t)"

inductive_cases matches_NilE: "matches [] s"
inductive_cases matches_ConsE: "matches (c # p) s"

inductive_simps matches_Nil [simp]: "matches [] s"

lemma matches_char [simp]:
  "c \<noteq> STAR \<Longrightarrow> matches (c # p) s \<longleftrightarrow> (\<exists>x t. s = x # t \<and> (c = QUERY \<or> c = x) \<and> matches p t)"
  by (auto elim: matches_ConsE intro: matches.char)

lemma matches_star: "matches (STAR # p) s \<longleftrightarrow> (\<exists>u t. s = u @ t \<and> matches p t)"
  by (rule iffI, erule matches.cases) (auto intro: matches.star)

lemma matches_star_Cons: "matches (STAR # p) (x # s) \<longleftrightarrow> matches p (x # s) \<or> matches (STAR # p) s"
  by (auto simp: matches_star Cons_eq_append_conv)

lemma glob_matches: "glob_match pat nm = matches pat nm" and "glob_try pat nm = matches (STAR # pat) nm"
proof (induction pat nm and pat nm rule: glob_match_glob_try.induct)
  case (2 c pat nm)
  then show ?case
  proof (cases "c = STAR")
    case True
    then show ?thesis using 2 by (cases "pat = []") (auto simp: matches_star intro: matches.nil)
  next
    case False
    then show ?thesis using 2 by (cases nm) auto
  qed
next
  case (3 pat)
  then show ?case by (simp add: matches_star)
next
  case (4 pat x nm)
  then show ?case by (simp add: matches_star_Cons)
qed simp_all

section \<open>Sorting\<close>

text \<open>Unsigned bytes decide, and a prefix comes first.\<close>

abbreviation name_le :: "cstring \<Rightarrow> cstring \<Rightarrow> bool" where
  "name_le \<equiv> ord_class.lexordp_eq"

lemma strcmp_le: "is_cstr x \<Longrightarrow> is_cstr y \<Longrightarrow> \<not> strcmp x y > 0 \<longleftrightarrow> name_le x y"
  using strcmp_neg_iff [of x y] strcmp_zero_iff [of x y]
  by (metis lexordp_conv_lexordp_eq lexordp_eq_refl lexordp_eq_antisym linorder_not_less order.order_iff_strict)

lemma glob_insert_mset: "mset (glob_insert x xs) = add_mset x (mset xs)"
  by (induction x xs rule: glob_insert.induct) auto

lemma glob_insert_set: "set (glob_insert x xs) = insert x (set xs)"
  using arg_cong [OF glob_insert_mset [of x xs], of set_mset] by simp

lemma glob_insert_sorted:
  "list_all is_cstr xs \<Longrightarrow> is_cstr x \<Longrightarrow> sorted_wrt (\<lambda>a b. name_le b a) xs \<Longrightarrow>
     sorted_wrt (\<lambda>a b. name_le b a) (glob_insert x xs)"
proof (induction x xs rule: glob_insert.induct)
  case (2 tmp x xs)
  show ?case
  proof (cases "strcmp x tmp > 0")
    case True
    then have "name_le tmp x" using 2 strcmp_le [of x tmp] by (auto intro: lexordp_eq_linear [THEN disjE])
    then show ?thesis using 2 True by (auto simp: glob_insert_set)
  next
    case False
    then have "name_le x tmp" using 2 strcmp_le [of x tmp] by simp
    then show ?thesis using 2 False by (auto intro: lexordp_eq_trans)
  qed
qed simp

lemma glob_fold:
  "list_all is_cstr nms \<Longrightarrow> list_all is_cstr acc \<Longrightarrow> sorted_wrt (\<lambda>a b. name_le b a) acc \<Longrightarrow>
     sorted_wrt (\<lambda>a b. name_le b a) (foldl (\<lambda>acc x. glob_insert x acc) acc nms) \<and>
     mset (foldl (\<lambda>acc x. glob_insert x acc) acc nms) = mset acc + mset nms"
proof (induction nms arbitrary: acc)
  case (Cons x nms)
  have "list_all is_cstr (glob_insert x acc)" using Cons.prems by (auto simp: list_all_iff glob_insert_set)
  then show ?case using Cons.IH [of "glob_insert x acc"] Cons.prems glob_insert_sorted [of acc x]
    by (simp add: glob_insert_mset)
qed simp

lemma glob_sort_sorted:
  assumes "list_all is_cstr nms"
  shows "sorted_wrt name_le (glob_sort nms)" "mset (glob_sort nms) = mset nms"
  using glob_fold [of nms "[]"] assms by (simp_all add: glob_sort_def sorted_wrt_rev)

section \<open>The words a pattern becomes\<close>

text \<open>The current command holds these words.\<close>

definition holding :: "table \<Rightarrow> nat \<Rightarrow> cstring list \<Rightarrow> shell \<Rightarrow> bool" where
  "holding tb np ws sh \<longleftrightarrow> np - 1 < length (tables sh tb) \<and> arena_used sh \<le> ARENA \<and>
     list_all2 (holds_str sh) (argv (cur tb np sh)) ws"

lemma holding_words: "holding tb np ws sh \<Longrightarrow> map (str_at sh) (argv (cur tb np sh)) = ws"
  unfolding holding_def by (auto simp: list_eq_iff_nth_eq list_all2_conv_all_nth str_at_holds)

lemma holding_argc: "holding tb np ws sh \<Longrightarrow> argc tb np sh = length ws"
  by (auto simp: holding_def argc_def dest: list_all2_lengthD)

lemma holding_keeps:
  assumes "holding tb np ws sh" "keeps sh sh'" "tables sh' = tables sh"
  shows "holding tb np ws sh'"
proof -
  have "cur tb np sh' = cur tb np sh" using assms(3) by (simp add: cur_def slot_def)
  then show ?thesis using assms keeps_holds [OF assms(2)]
    by (auto simp: holding_def keeps_def intro: list_all2_mono)
qed

lemma holding_add:
  assumes "holding tb np ws sh" "holds_str sh off s"
  shows "holding tb np (ws @ [s]) (add_arg tb np off sh)" "arena_used (add_arg tb np off sh) = arena_used sh"
proof -
  let ?n = "add_arg tb np off sh"
  have i: "np - 1 < length (tables sh tb)" using assms(1) by (simp add: holding_def)
  have c: "cur tb np ?n = (cur tb np sh)\<lparr>argv := argv (cur tb np sh) @ [off]\<rparr>"
    using i by (simp add: cur_def add_arg_def set_cur_def Let_def)
  have ar: "arena ?n = arena sh" "arena_used ?n = arena_used sh" "length (tables ?n tb) = length (tables sh tb)"
    by (simp_all add: add_arg_def set_cur_def Let_def)
  have "holds_str ?n = holds_str sh" using ar by (intro ext) (simp add: holds_str_def)
  then show "holding tb np (ws @ [s]) ?n" using assms ar c by (auto simp: holding_def intro: list_all2_appendI)
  show "arena_used ?n = arena_used sh" by (rule ar)
qed

lemma push_names_all:
  "holding tb np ws sh \<Longrightarrow> list_all is_cstr nms \<Longrightarrow> length ws + length nms \<le> MAX_ARGS \<Longrightarrow>
     arena_used sh + (\<Sum>s\<leftarrow>nms. length s + 1) \<le> ARENA \<Longrightarrow>
     \<exists>sh'. push_names tb np nms added sh = (added + length nms, sh') \<and> holding tb np (ws @ nms) sh'"
proof (induction nms arbitrary: ws added sh)
  case (Cons x nms)
  obtain h where p: "arena_push x sh = (Some (arena_used sh), h)"
    using arena_push_fits [of sh x] Cons.prems by auto
  have x: "is_cstr x" using Cons.prems by simp
  have h: "keeps sh h" "holds_str h (arena_used sh) x" using arena_push_holds [OF p x] by auto
  have "tables h = tables sh" "arena_used h = arena_used sh + length x + 1"
    using p by (auto simp: arena_push_def Let_def split: if_splits)
  then have "holding tb np ws h" "arena_used h = arena_used sh + length x + 1"
    using holding_keeps [OF Cons.prems(1) h(1)] by auto
  note a = holding_add [OF this(1) h(2)] this(2)
  have "\<exists>sh'. push_names tb np nms (added + 1) (add_arg tb np (arena_used sh) h) = (added + 1 + length nms, sh') \<and>
      holding tb np ((ws @ [x]) @ nms) sh'"
    by (rule Cons.IH) (use a Cons.prems in auto)
  then show ?case using p Cons.prems(3) holding_argc [OF Cons.prems(1)] by auto
qed simp

lemma dent_names_cstr: "x \<in> set (dent_names d) \<Longrightarrow> is_cstr x"
proof (induction d rule: dent_names.induct)
  case (1 d)
  then show ?case
    by (auto simp: dent_names.simps [of d] Let_def is_cstr_def split: if_splits dest: set_takeWhileD)
qed

lemma glob_full_cstr: "is_cstr dir \<Longrightarrow> is_cstr nm \<Longrightarrow> is_cstr (glob_full word dir nm)"
  by (auto simp: glob_full_def clip_def intro!: is_cstr_take)

lemma glob_split_cstr:
  assumes "is_cstr word" "glob_split word = Some (dir, pat)" shows "is_cstr dir"
  using assms by (auto simp: glob_split_def Let_def cs_def is_cstr_take split: option.splits if_splits)

text \<open>
  C14: a word with wildcards becomes the names that match it, in order.  In the directory the word
  names, take the entries that match its last component as wildcards (\<open>?\<close> any character, \<open>*\<close> any
  run), without \<open>.\<close> and \<open>..\<close> and without hidden names unless the pattern starts with a dot: these
  (the first 128), with the directory put back in front, are appended to the command as words,
  every one exactly as often as it occurs and sorted by unsigned bytes, if they fit.
\<close>

theorem glob_expand_names:
  assumes "glob_split word = Some (dir, pat)" "is_cstr word"
    and "syscall w (Open dir (O_RDONLY OR O_DIRECTORY)) sh = (r, sh1)" "0 \<le> r_val r"
    and "syscall w (Getdents (r_val r)) sh1 = (d, sh2)"
    and "found = take GLOB_MAX (filter (\<lambda>nm. nm \<noteq> cs ''.'' \<and> nm \<noteq> cs ''..'' \<and>
           (deref nm = DOT \<longrightarrow> deref pat = DOT) \<and> matches pat nm) (concat (map dent_names (r_dents d))))"
    and "holding tb np ws sh" "length ws + length found \<le> MAX_ARGS"
    and "arena_used sh + (\<Sum>s\<leftarrow>map (glob_full word dir) found. length s + 1) \<le> ARENA"
  shows "\<exists>sh' added. glob_expand w tb np word sh = (length found, sh') \<and> holding tb np (ws @ added) sh' \<and>
    sorted_wrt name_le added \<and> mset added = mset (map (glob_full word dir) found)"
proof -
  let ?h = "did (Close (r_val r)) sh2"
  let ?full = "map (glob_full word dir) found"
  have wanted: "filter (glob_wanted pat) l = filter (\<lambda>nm. nm \<noteq> cs ''.'' \<and> nm \<noteq> cs ''..'' \<and>
      (deref nm = DOT \<longrightarrow> deref pat = DOT) \<and> matches pat nm) l" for l
    by (rule filter_cong) (auto simp: glob_wanted_def glob_matches)
  have f: "found = take GLOB_MAX (filter (glob_wanted pat) (concat (map dent_names (r_dents d))))"
    by (simp only: assms(6) wanted)
  have c: "list_all is_cstr ?full"
    using glob_split_cstr [OF assms(2,1)] dent_names_cstr glob_full_cstr
    by (auto simp: list_all_iff assms(6) dest!: in_set_takeD)
  have q: "quiet ?h = quiet sh" using syscall_quiet [OF assms(3)] syscall_quiet [OF assms(5)] by simp
  note qd = quietD [OF q]
  have u: "arena_used sh \<le> ARENA" using assms(7) by (simp add: holding_def)
  have hold: "holding tb np ws ?h" using holding_keeps [OF assms(7) keeps_quiet [OF q u] qd(3)] .
  note srt = glob_sort_sorted [OF c]
  have perm: "length (glob_sort ?full) = length found" using mset_eq_length [OF srt(2)] by simp
  have sum: "(\<Sum>s\<leftarrow>glob_sort ?full. length s + 1) = (\<Sum>s\<leftarrow>?full. length s + 1)"
    by (simp only: sum_mset_sum_list [symmetric] mset_map srt(2))
  have "list_all is_cstr (glob_sort ?full)" using c mset_eq_setD [OF srt(2)] by (simp only: list_all_iff)
  then have "\<exists>sh'. push_names tb np (glob_sort ?full) 0 ?h = (0 + length (glob_sort ?full), sh') \<and>
      holding tb np (ws @ glob_sort ?full) sh'"
    by (rule push_names_all [OF hold]) (use perm assms(8,9) sum qd(2) in auto)
  then obtain sh' where p: "push_names tb np (glob_sort ?full) 0 ?h = (length found, sh')"
    "holding tb np (ws @ glob_sort ?full) sh'" using perm by auto
  show ?thesis
  proof (cases "found = []")
    case True
    then have "glob_expand w tb np word sh = (0, ?h)"
      using assms(1,3,4,5) by (simp add: glob_expand_def Let_def f [symmetric] True glob_sort_def)
    then show ?thesis using hold True by auto
  next
    case False
    have "glob_expand w tb np word sh = (length found, sh')"
      using assms(1,3,4,5) False p(1) by (simp add: glob_expand_def Let_def f [symmetric] del: take_eq_Nil take_eq_Nil2)
    then show ?thesis using p(2) srt by blast
  qed
qed

text \<open>A directory with the entries \<open>.x\<close>, \<open>b\<close> and \<open>a\<close>, for the example.\<close>

definition dir_reply :: reply where
  "dir_reply = \<lparr>r_val = 3, r_bytes = [], r_ends = (0, 0), r_stat = \<lparr>st_mode = 0, st_size = 0, st_mtime = 0\<rparr>,
     r_status = 0, r_dents = [replicate 16 0 @ [22, 0, 8, 46, 120, 0] @ replicate 16 0 @ [21, 0, 8, 98, 0] @
       replicate 16 0 @ [21, 0, 8, 97, 0]]\<rparr>"

definition dir_world :: world where
  "dir_world = \<lparr>kernel = (\<lambda>past c. dir_reply), alloc = (\<lambda>n. True)\<rparr>"

definition dir_shell :: shell where
  "dir_shell = set_slot Pipes 0 (new_pipeline LINK_NONE) bare_shell"

lemma dir_names: "concat (map dent_names (r_dents dir_reply)) = [[46, 120], [98], [97]]"
  by code_simp

theorem glob_expand_names_witness:
  "\<exists>sh' added. glob_expand dir_world Pipes 1 [STAR] dir_shell = (2, sh') \<and> holding Pipes 1 added sh' \<and>
     sorted_wrt name_le added \<and> mset added = {#[97], [98]#}"
proof -
  let ?found = "[[98], [97]] :: cstring list"
  let ?s1 = "snd (syscall dir_world (Open (cs ''.'') (O_RDONLY OR O_DIRECTORY)) dir_shell)"
  have sp: "glob_split [STAR] = Some (cs ''.'', [STAR])" by (simp add: glob_split_def strrchr_def)
  have f: "?found = take GLOB_MAX (filter (\<lambda>nm. nm \<noteq> cs ''.'' \<and> nm \<noteq> cs ''..'' \<and>
      (deref nm = DOT \<longrightarrow> deref [STAR] = DOT) \<and> matches [STAR] nm) (concat (map dent_names (r_dents dir_reply))))"
    by (simp add: dir_names matches_star GLOB_MAX_def cs_def)
  have "slot Pipes 0 dir_shell = new_pipeline LINK_NONE" unfolding dir_shell_def by (intro set_slot_simps(3)) simp
  then have h: "holding Pipes 1 [] dir_shell"
    by (simp add: holding_def cur_def new_pipeline_def no_cmd_def dir_shell_def bare_shell_def start_shell_def set_slot_def
        MAX_PIPES_def)
  have full: "glob_full [STAR] (cs ''.'') [98] = [98]" "glob_full [STAR] (cs ''.'') [97] = [97]"
    by (simp_all add: glob_full_def strrchr_def clip_def GLOB_NAME_MAX_def)
  have "\<exists>sh' added. glob_expand dir_world Pipes 1 [STAR] dir_shell = (length ?found, sh') \<and> holding Pipes 1 ([] @ added) sh' \<and>
      sorted_wrt name_le added \<and> mset added = mset (map (glob_full [STAR] (cs ''.'')) ?found)"
    by (rule glob_expand_names [OF sp _ _ _ _ f h, of dir_world dir_reply ?s1 "snd (syscall dir_world (Getdents 3) ?s1)"])
      (simp_all add: full MAX_ARGS_def ARENA_def dir_shell_def bare_shell_def start_shell_def set_slot_def,
       simp_all add: syscall_def dir_world_def dir_reply_def)
  then show ?thesis by (simp add: full add_mset_commute numeral_2_eq_2)
qed

end
