(* ===== verification/ShQuote.thy ===== *)
theory ShQuote
  imports ShTable
begin

text \<open>
  Quoting for the shell: words between single quotes come back from the parser as they were.
\<close>

section \<open>Quoted words\<close>

text \<open>A single quote inside a word is written as a quote that closes, one in double quotes, and one that opens.\<close>

definition quote_byte :: "u8 \<Rightarrow> cstring" where
  "quote_byte c = (if c = SQUOTE then [SQUOTE, DQUOTE, SQUOTE, DQUOTE, SQUOTE] else [c])"

fun quote_rest :: "cstring \<Rightarrow> cstring" where
  "quote_rest [] = [SQUOTE]"
| "quote_rest (c # s) = quote_byte c @ quote_rest s"

definition sh_quote :: "cstring \<Rightarrow> cstring" where
  "sh_quote s = SQUOTE # quote_rest s"

fun quoted_line :: "cstring list \<Rightarrow> cstring" where
  "quoted_line [] = []"
| "quoted_line [a] = sh_quote a"
| "quoted_line (a # b # r) = sh_quote a @ SP # quoted_line (b # r)"

lemma sh_quote_not_Nil [simp]: "sh_quote s \<noteq> []" "hd (sh_quote s) = SQUOTE" "deref (sh_quote s @ r) = SQUOTE"
  by (simp_all add: sh_quote_def)

lemma length_quote_rest: "length s < length (quote_rest s)"
  by (induction s) (auto simp: quote_byte_def)

lemma length_sh_quote: "length s + 2 \<le> length (sh_quote s)"
  using length_quote_rest [of s] by (simp add: sh_quote_def)

lemma quoted_line_Cons: "ws \<noteq> [] \<Longrightarrow> quoted_line (a # ws) = sh_quote a @ SP # quoted_line ws"
  by (cases ws) auto

lemma length_quoted_line: "(\<Sum>a\<leftarrow>ws. length a + 1) \<le> length (quoted_line ws)"
proof (induction ws rule: quoted_line.induct)
  case (2 a)
  then show ?case using length_sh_quote [of a] by simp
next
  case (3 a b r)
  then show ?case using length_sh_quote [of a] by simp
qed simp

section \<open>Reading a quoted word\<close>

lemma bput_bputs:
  assumes "length b < cap" shows "bputs cap (bput cap b c) t = bputs cap b (c # t)"
proof -
  obtain n where "cap - length b = Suc n" "cap - Suc (length b) = n"
    using assms by (metis Suc_diff_Suc)
  then show ?thesis using assms by (simp add: bput_def bputs_def)
qed

lemma bputs_full: "cap \<le> length b \<Longrightarrow> bputs cap b t = b" "cap \<le> length b \<Longrightarrow> bput cap b c = b"
  by (auto simp: bput_def bputs_def)

lemma bputs_bput: "bputs cap (bput cap b c) t = bputs cap b (c # t)"
  by (cases "length b < cap") (simp_all add: bput_bputs bputs_full)

lemma word_loop_in_quote:
  "c \<noteq> SQUOTE \<Longrightarrow> word_loop w (SQUOTE # c # x) b sh = word_loop w (SQUOTE # x) (bput MAX_LINE b c) sh"
  by (subst (1 2) word_loop.simps) (simp add: Let_def ends_word_def sh_is_space_def bputs_bput)

lemma word_loop_close_quote:
  "word_loop w (SQUOTE # SQUOTE # x) b sh = word_loop w x b (sh\<lparr>tok_quoted := True\<rparr>)"
  by (subst word_loop.simps) (simp add: Let_def ends_word_def sh_is_space_def bputs_def)

lemma word_loop_quoted_quote:
  "word_loop w (SQUOTE # quote_byte SQUOTE @ x) b sh = word_loop w (SQUOTE # x) (bput MAX_LINE b SQUOTE) (sh\<lparr>tok_quoted := True\<rparr>)"
proof -
  have dq: "dq_loop w (SQUOTE # DQUOTE # y) b h = Inr (y, bput MAX_LINE b SQUOTE, h)" for y h
    by (subst dq_loop.simps, simp, subst dq_loop.simps, simp)
  have "word_loop w (DQUOTE # SQUOTE # DQUOTE # y) b h = word_loop w y (bput MAX_LINE b SQUOTE) (h\<lparr>tok_quoted := True\<rparr>)" for y h
    by (subst word_loop.simps) (simp add: ends_word_def sh_is_space_def dq)
  then show ?thesis by (simp add: quote_byte_def word_loop_close_quote)
qed

lemma word_loop_rest:
  assumes "rest = [] \<or> hd rest = SP"
  shows "word_loop w (SQUOTE # quote_rest s @ rest) b sh = Inr (rest, bputs MAX_LINE b s, sh\<lparr>tok_quoted := True\<rparr>)"
proof (induction s arbitrary: b sh)
  case Nil
  have "word_loop w rest b' h = Inr (rest, b', h)" for b' h
    using assms by (subst word_loop.simps) (auto simp: ends_word_def sh_is_space_def)
  then show ?case by (simp add: word_loop_close_quote bputs_def)
next
  case (Cons c s)
  show ?case
  proof (cases "c = SQUOTE")
    case True
    then show ?thesis using Cons by (simp add: word_loop_quoted_quote bputs_bput)
  next
    case False
    then have "quote_byte c = [c]" by (simp add: quote_byte_def)
    then show ?thesis using Cons False by (simp add: word_loop_in_quote bputs_bput)
  qed
qed

lemma next_token_quoted:
  assumes "rest = [] \<or> hd rest = SP" "length s \<le> MAX_LINE" "lead = [] \<or> lead = [SP]"
    "arena_used sh + length s + 1 \<le> ARENA" "is_cstr s"
  shows "\<exists>off sh'. next_token w (lead @ sh_quote s @ rest) sh = Inr (TOK_WORD, off, rest, sh') \<and>
    arena_push s (sh\<lparr>tok_has_glob := False, tok_from_cmd := False, tok_quoted := True\<rparr>) = (Some off, sh')"
proof -
  let ?h = "sh\<lparr>tok_has_glob := False, tok_from_cmd := False, tok_quoted := True\<rparr>"
  obtain sh' where p: "arena_push s ?h = (Some (arena_used sh), sh')"
    using arena_push_fits [of ?h s] assms(4) by auto
  have "dropWhile sh_is_space (lead @ sh_quote s @ rest) = sh_quote s @ rest"
    using assms(3) by (auto simp: sh_is_space_def sh_quote_def)
  moreover have "token_at w (sh_quote s @ rest) sh = Inr (TOK_WORD, arena_used sh, rest, sh')"
    using p word_loop_rest [OF assms(1), of w s "[]"] assms(2)
    by (simp add: token_at_def tilde_def sh_quote_def bputs_def)
  ultimately show ?thesis using p by (auto simp: next_token_def)
qed

section \<open>A quoted line\<close>

text \<open>Everything but the flags of the tokens, the arena and the tables: nothing else is touched, nor is any call made.\<close>

definition outside :: "shell \<Rightarrow> shell" where
  "outside sh = sh\<lparr>tok_quoted := False, tok_has_glob := False, tok_from_cmd := False, arena := (\<lambda>i. 0),
     arena_used := 0, tables := (\<lambda>t. [])\<rparr>"

definition collected :: "table \<Rightarrow> cstring list \<Rightarrow> shell \<Rightarrow> bool" where
  "collected tb ws sh \<longleftrightarrow> 0 < length (tables sh tb) \<and> arena_used sh \<le> ARENA \<and>
     (\<exists>offs. slot tb 0 sh = (new_pipeline LINK_NONE)\<lparr>cmds := [no_cmd\<lparr>argv := offs\<rparr>]\<rparr> \<and>
       list_all2 (holds_str sh) offs ws)"

lemma collected_argc: "collected tb ws sh \<Longrightarrow> argc tb 1 sh = length ws"
  by (auto simp: collected_def argc_def cur_def dest: list_all2_lengthD)

lemma collected_add:
  assumes "collected tb ws sh" "arena_push s (sh\<lparr>tok_has_glob := False, tok_from_cmd := False, tok_quoted := True\<rparr>) = (Some off, sh')"
    "is_cstr s"
  shows "collected tb (ws @ [s]) (add_arg tb 1 off sh') \<and> outside (add_arg tb 1 off sh') = outside sh \<and>
    arena_used (add_arg tb 1 off sh') = arena_used sh + length s + 1 \<and> argc tb 1 sh' = length ws"
proof -
  let ?h = "sh\<lparr>tok_has_glob := False, tok_from_cmd := False, tok_quoted := True\<rparr>"
  obtain offs where o: "slot tb 0 sh = (new_pipeline LINK_NONE)\<lparr>cmds := [no_cmd\<lparr>argv := offs\<rparr>]\<rparr>"
    "list_all2 (holds_str sh) offs ws" and t: "0 < length (tables sh tb)"
    using assms(1) by (auto simp: collected_def)
  have e: "tables sh' = tables sh" "arena_used sh' = arena_used sh + length s + 1" "outside sh' = outside sh"
    using assms(2) by (auto simp: arena_push_def Let_def outside_def split: if_splits)
  have k: "keeps ?h sh'" "holds_str sh' off s" using arena_push_holds [OF assms(2,3)] by auto
  have st: "keeps sh sh'" using k(1) by (simp add: keeps_def)
  have "holds_str sh' o' a" if "holds_str sh o' a" for o' a using keeps_holds [OF st that] .
  with o(2) k(2) have l: "list_all2 (holds_str sh') (offs @ [off]) (ws @ [s])"
    by (auto intro: list_all2_appendI list_all2_mono)
  have s0: "slot tb 0 sh' = slot tb 0 sh" using e(1) by (simp add: slot_def)
  have cur: "cur tb 1 sh' = no_cmd\<lparr>argv := offs\<rparr>" by (simp add: cur_def s0 o(1))
  let ?n = "add_arg tb 1 off sh'"
  have sl: "slot tb 0 ?n = (new_pipeline LINK_NONE)\<lparr>cmds := [no_cmd\<lparr>argv := offs @ [off]\<rparr>]\<rparr>"
    using t e(1) cur by (simp add: add_arg_def set_cur_def Let_def s0 o(1) no_cmd_def)
  have ar: "arena ?n = arena sh'" "arena_used ?n = arena_used sh'" "length (tables ?n tb) = length (tables sh' tb)"
    by (simp_all add: add_arg_def set_cur_def Let_def)
  have h: "holds_str ?n = holds_str sh'" using ar by (intro ext) (simp add: holds_str_def)
  have "outside ?n = outside sh'" by (simp add: outside_def add_arg_def set_cur_def set_slot_def Let_def)
  moreover have "arena_used sh' \<le> ARENA" using st by (simp add: keeps_def)
  ultimately show ?thesis
    using sl l e ar h t cur list_all2_lengthD [OF o(2)] by (auto simp: collected_def argc_def no_cmd_def)
qed

lemma parse_loop_quoted:
  assumes "collected tb pre sh" "length pre + length ws \<le> MAX_ARGS" "list_all is_cstr ws"
    "list_all (\<lambda>a. length a \<le> MAX_LINE) ws" "arena_used sh + (\<Sum>a\<leftarrow>ws. length a + 1) \<le> ARENA"
    "lead = [] \<or> lead = [SP] \<and> ws \<noteq> []"
  shows "\<exists>sh'. parse_loop w tb mx (lead @ quoted_line ws) 1 False sh = Inr (parse_end tb 1 False sh') \<and>
    collected tb (pre @ ws) sh' \<and> outside sh' = outside sh"
  using assms
proof (induction ws arbitrary: pre sh lead)
  case Nil
  then show ?case
    by (auto simp: parse_loop.simps [of w tb mx "[]"] next_token_def token_at_def)
next
  case (Cons a ws)
  define rest where "rest = (if ws = [] then [] else SP # quoted_line ws)"
  have hd: "rest = [] \<or> hd rest = SP" by (simp add: rest_def)
  have line: "lead @ quoted_line (a # ws) = lead @ sh_quote a @ rest"
    by (cases "ws = []") (simp_all add: rest_def quoted_line_Cons)
  obtain off sh1 where nt: "next_token w (lead @ sh_quote a @ rest) sh = Inr (TOK_WORD, off, rest, sh1)"
    and p: "arena_push a (sh\<lparr>tok_has_glob := False, tok_from_cmd := False, tok_quoted := True\<rparr>) = (Some off, sh1)"
    using next_token_quoted [of rest a lead sh w] Cons.prems hd by auto
  have a: "is_cstr a" using Cons.prems by simp
  note add = collected_add [OF Cons.prems(1) p a]
  have "tok_quoted sh1" using p by (auto simp: arena_push_def Let_def split: if_splits)
  then have pw: "parse_word w tb 1 False off sh1 = (Some False, add_arg tb 1 off sh1)"
    using add Cons.prems(2) by (simp add: parse_word_def Let_def)
  have step: "parse_loop w tb mx (lead @ quoted_line (a # ws)) 1 False sh =
      parse_loop w tb mx rest 1 False (add_arg tb 1 off sh1)"
    unfolding line by (simp add: parse_loop.simps [of w tb mx "lead @ sh_quote a @ rest"] nt pw [unfolded One_nat_def])
  have rest: "rest = (if ws = [] then [] else [SP]) @ quoted_line ws" by (simp add: rest_def)
  have "\<exists>sh'. parse_loop w tb mx rest 1 False (add_arg tb 1 off sh1) = Inr (parse_end tb 1 False sh') \<and>
      collected tb ((pre @ [a]) @ ws) sh' \<and> outside sh' = outside (add_arg tb 1 off sh1)"
    unfolding rest by (rule Cons.IH) (use add Cons.prems in auto)
  then show ?case using step add by auto
qed

section \<open>Not split\<close>

definition in_single :: scan where
  "in_single = scan_start\<lparr>quote := SQUOTE\<rparr>"

text \<open>
  The splitter passes over a backslash and the byte after it even between single quotes: every backslash
  of the word, taken from the left, has to be followed by a byte of the word that is no single quote.
\<close>

fun paired :: "cstring \<Rightarrow> bool" where
  "paired [] = True"
| "paired [c] \<longleftrightarrow> c \<noteq> BSLASH"
| "paired (c # d # s) = (if c = BSLASH then d \<noteq> SQUOTE \<and> paired s else paired (d # s))"

lemma no_backslash_paired: "BSLASH \<notin> set s \<Longrightarrow> paired s"
  by (induction s rule: paired.induct) auto

lemma scan_char_skips: "scan_char st c s = Skip d st' \<Longrightarrow> 1 \<le> d"
  by (auto simp: scan_char_def split: if_splits)

lemma semicolon_fuel: "length s \<le> k \<Longrightarrow> semicolon_loop k st i s = semicolon_loop (length s) st i s"
proof (induction "length s" arbitrary: s k st i rule: less_induct)
  case less
  show ?case
  proof (cases s)
    case Nil
    then show ?thesis by (cases k) simp_all
  next
    case (Cons c t)
    then obtain k' where k: "k = Suc k'" "length t \<le> k'" using less.prems by (cases k) auto
    have "semicolon_loop k' st' i' u = semicolon_loop (length t) st' i' u" if "length u \<le> length t" for u st' i'
      using less.hyps [of u k' st' i'] less.hyps [of u "length t" st' i'] that k(2) Cons by simp
    moreover have "length (drop d (c # t)) \<le> length t" if "scan_char st c t = Skip d st'" for d st'
      using scan_char_skips [OF that] by (cases d) auto
    ultimately show ?thesis using k(1) Cons by (auto split: scanned.split)
  qed
qed

lemma semicolon_quote_rest:
  assumes "paired s"
  shows "semicolon_loop (length (quote_rest s @ r)) in_single i (quote_rest s @ r) =
    semicolon_loop (length r) scan_start (i + length (quote_rest s)) r"
  using assms
proof (induction s arbitrary: i rule: paired.induct)
  case 1
  then show ?case by (simp add: scan_char_def in_single_def scan_start_def)
next
  case (2 c)
  show ?case
  proof (cases "c = SQUOTE")
    case True
    then show ?thesis by (simp add: quote_byte_def scan_char_def in_single_def scan_start_def)
  next
    case False
    then show ?thesis using 2 by (simp add: quote_byte_def scan_char_def in_single_def scan_start_def)
  qed
next
  case (3 c d s)
  consider "c = SQUOTE" | "c = BSLASH" | "c \<noteq> SQUOTE" "c \<noteq> BSLASH" by blast
  then show ?case
  proof cases
    case 1
    have "semicolon_loop (Suc (Suc (Suc (Suc (Suc n))))) in_single i (quote_byte SQUOTE @ t) =
        semicolon_loop n in_single (Suc (Suc (Suc (Suc (Suc i))))) t" for n t
      by (simp add: quote_byte_def scan_char_def in_single_def scan_start_def)
    then show ?thesis using 1 3 by (simp add: quote_byte_def)
  next
    case 2
    then have d: "quote_rest (c # d # s) = BSLASH # d # quote_rest s" "paired s" using 3(3) by (simp_all add: quote_byte_def)
    have "semicolon_loop (Suc (Suc (length (quote_rest s @ r)))) in_single i (BSLASH # d # quote_rest s @ r) =
        semicolon_loop (Suc (length (quote_rest s @ r))) in_single (i + 2) (quote_rest s @ r)"
      by (simp add: scan_char_def)
    also have "\<dots> = semicolon_loop (length (quote_rest s @ r)) in_single (i + 2) (quote_rest s @ r)"
      by (rule semicolon_fuel) simp
    finally have "semicolon_loop (Suc (Suc (length (quote_rest s @ r)))) in_single i (BSLASH # d # quote_rest s @ r) =
        semicolon_loop (length r) scan_start (i + 2 + length (quote_rest s)) r"
      using 3(1) [OF 2 d(2), of "i + 2"] by (simp only:)
    moreover have "quote_rest (c # d # s) @ r = BSLASH # d # quote_rest s @ r" "length (quote_rest (c # d # s)) = Suc (Suc (length (quote_rest s)))"
      unfolding d(1) by simp_all
    moreover have "length (BSLASH # d # quote_rest s @ r) = Suc (Suc (length (quote_rest s @ r)))" by simp
    moreover have "i + Suc (Suc (length (quote_rest s))) = i + 2 + length (quote_rest s)" by simp
    ultimately show ?thesis by (simp only:)
  next
    case c: 3
    then show ?thesis using 3 by (simp add: quote_byte_def scan_char_def in_single_def scan_start_def)
  qed
qed

lemma semicolon_sh_quote:
  assumes "paired s"
  shows "semicolon_loop (length (sh_quote s @ r)) scan_start i (sh_quote s @ r) =
    semicolon_loop (length r) scan_start (i + length (sh_quote s)) r"
  using semicolon_quote_rest [OF assms, of r "i + 1"]
  by (simp add: sh_quote_def scan_char_def in_single_def scan_start_def)

lemma semicolon_quoted_line:
  "list_all paired ws \<Longrightarrow> semicolon_loop (length (quoted_line ws)) scan_start i (quoted_line ws) = None"
proof (induction ws arbitrary: i rule: quoted_line.induct)
  case (2 a)
  then show ?case using semicolon_sh_quote [of a "[]" i] by simp
next
  case (3 a b r)
  then show ?case using semicolon_sh_quote [of a "SP # quoted_line (b # r)" i]
    by (simp add: scan_char_def scan_start_def)
qed simp

lemma quoted_line_ends: "ws \<noteq> [] \<Longrightarrow> \<exists>t. quoted_line ws = SQUOTE # t \<and> t \<noteq> [] \<and> last t = SQUOTE"
proof (induction ws rule: quoted_line.induct)
  case (2 a)
  have "quote_rest a \<noteq> [] \<and> last (quote_rest a) = SQUOTE" by (induction a) auto
  then show ?case by (simp add: sh_quote_def)
next
  case (3 a b r)
  then show ?case by (auto simp: sh_quote_def)
qed simp

lemma rtrim_last: "s \<noteq> [] \<Longrightarrow> \<not> blank (last s) \<Longrightarrow> rtrim s = s"
  by (cases s rule: rev_cases) (auto simp: rtrim_def)

lemma split_quoted:
  assumes "ws \<noteq> []" "list_all paired ws" "length (quoted_line ws) < MAX_LINE" "0 < mx"
  shows "split_statements (quoted_line ws) mx off out = (1, out[off := quoted_line ws])"
proof -
  obtain t where t: "quoted_line ws = SQUOTE # t" "t \<noteq> []" "last t = SQUOTE" using quoted_line_ends [OF assms(1)] by blast
  have u: "unquoted_semicolon (quoted_line ws) = None"
    using semicolon_quoted_line [OF assms(2)] by (simp add: unquoted_semicolon_def)
  have sk: "skip_blank (quoted_line ws) = quoted_line ws" by (simp add: t(1) skip_blank_def blank_def)
  have rt: "rtrim (take (MAX_LINE - 1) (quoted_line ws)) = quoted_line ws"
    using assms(3) t by (simp add: rtrim_last blank_def)
  have "skip_blank (SQUOTE # t) = SQUOTE # t" by (simp add: skip_blank_def blank_def)
  then have fw: "\<not> splittable (first_word (quoted_line ws) 32)"
    by (simp add: splittable_def first_word_def t(1) blank_def cs_def)
  have "put_statement mx off 0 out (quoted_line ws) = (1, out[off := quoted_line ws])"
    using fw t(1) by (simp add: put_statement_def Let_def)
  then show ?thesis
    using assms(4) t(1) u sk rt by (simp add: split_statements_def split_loop.simps [of mx off 0 out])
qed

lemma parse_quoted:
  assumes "ws \<noteq> []" "length ws \<le> MAX_ARGS" "list_all is_cstr ws"
    "length (quoted_line ws) < MAX_LINE" "0 < length (tables sh tb)"
  shows "\<exists>sh' c. parse_line w tb n (quoted_line ws) sh = Inr (1, sh') \<and>
      slot tb 0 sh' = \<lparr>cmds = [c], link = LINK_NONE, background = False\<rparr> \<and>
      map (str_at sh') (argv c) = ws \<and> redir_in c = None \<and> redir_out c = None \<and> redir_err c = None \<and>
      outside sh' = outside sh \<and> 0 < length (tables sh' tb)"
proof -
  let ?s = "set_slot tb 0 (new_pipeline LINK_NONE) (sh\<lparr>arena_used := 0\<rparr>)"
  have c: "collected tb [] ?s" using assms(5) by (simp add: collected_def new_pipeline_def no_cmd_def)
  have le: "a \<in> set ws \<Longrightarrow> length a + 1 \<le> (\<Sum>a\<leftarrow>ws. length a + 1)" for a
    by (rule member_le_sum_list) auto
  have len: "list_all (\<lambda>a. length a \<le> MAX_LINE) ws"
    using le length_quoted_line [of ws] assms(4) by (fastforce simp: list_all_iff)
  have "arena_used ?s + (\<Sum>a\<leftarrow>ws. length a + 1) \<le> ARENA"
    using length_quoted_line [of ws] assms(4) by (simp add: MAX_LINE_def ARENA_def)
  from parse_loop_quoted [OF c _ assms(3) len this, of "[]" w n] assms(2)
  obtain sh' where p: "parse_loop w tb n (quoted_line ws) 1 False ?s = Inr (parse_end tb 1 False sh')"
    and c': "collected tb ws sh'" and o: "outside sh' = outside ?s" by auto
  obtain offs where s: "slot tb 0 sh' = (new_pipeline LINK_NONE)\<lparr>cmds := [no_cmd\<lparr>argv := offs\<rparr>]\<rparr>"
    and l: "list_all2 (holds_str sh') offs ws" using c' by (auto simp: collected_def)
  have "offs \<noteq> []" using l assms(1) by auto
  then have "parse_end tb 1 False sh' = (1, sh')" by (simp add: parse_end_def s no_cmd_def)
  moreover have "map (str_at sh') offs = ws" using l by (induction rule: list_all2_induct) (auto simp: str_at_holds)
  moreover have "0 < length (tables sh' tb)" using c' by (simp add: collected_def)
  moreover have "outside ?s = outside sh" by (simp add: outside_def set_slot_def)
  ultimately show ?thesis
    using p s o by (auto simp: parse_line_def new_pipeline_def no_cmd_def)
qed

text \<open>
  C13: quoting protects words.  Take words without a NUL and write each between single quotes (a single
  quote inside as a quoted one), where every backslash of a word, taken from the left, is followed by a
  byte of the word other than a single quote.  If the line fits its buffer and there are at most 64
  words, the shell takes the line as one statement, and parses it as one command whose words are exactly
  these, with no redirection and not in the background, whatever blanks, semicolons, dollar signs,
  wildcards or operators they hold; nothing is run, expanded or assigned.  For other backslashes this
  does not hold (\<open>quoted_backslash_splits\<close>).
\<close>

theorem quoted_words_parse_back:
  assumes "ws \<noteq> []" "length ws \<le> MAX_ARGS" "list_all is_cstr ws" "list_all paired ws"
    "length (quoted_line ws) < MAX_LINE" "0 < mx" "0 < length (tables sh tb)"
  shows "split_statements (quoted_line ws) mx off out = (1, out[off := quoted_line ws]) \<and>
    (\<exists>sh' c. parse_line w tb n (quoted_line ws) sh = Inr (1, sh') \<and>
      slot tb 0 sh' = \<lparr>cmds = [c], link = LINK_NONE, background = False\<rparr> \<and>
      map (str_at sh') (argv c) = ws \<and> redir_in c = None \<and> redir_out c = None \<and> redir_err c = None \<and>
      outside sh' = outside sh)"
  using split_quoted [OF assms(1,4-6)] parse_quoted [OF assms(1-3,5,7)] by blast

text \<open>The words \<open>rm\<close>, \<open>-f\<close> and \<open>a;b $HOME\n 'x'\<close>, for the examples.\<close>

definition some_words :: "cstring list" where
  "some_words = [cs ''rm'', cs ''-f'', cs ''a;b $HOME'' @ [BSLASH, 110, SP, SQUOTE] @ cs ''x'' @ [SQUOTE]]"

lemma some_words_ok:
  "some_words \<noteq> []" "length some_words \<le> MAX_ARGS" "list_all is_cstr some_words"
  "list_all paired some_words" "length (quoted_line some_words) < MAX_LINE"
  by (simp_all add: some_words_def MAX_ARGS_def MAX_LINE_def cs_def sh_quote_def quote_byte_def)

theorem quoted_words_parse_back_witness:
  "\<exists>sh' c. parse_line refusing Pipes 8 (quoted_line some_words) bare_shell = Inr (1, sh') \<and>
     slot Pipes 0 sh' = \<lparr>cmds = [c], link = LINK_NONE, background = False\<rparr> \<and> map (str_at sh') (argv c) = some_words"
proof -
  have "0 < length (tables bare_shell Pipes)" by simp
  from quoted_words_parse_back [OF some_words_ok, of 8 bare_shell Pipes 0 "[]" refusing 8, OF _ this]
  show ?thesis by auto
qed

theorem parse_line_well_formed_witness:
  "\<exists>sh'. parse_line refusing Pipes 8 (quoted_line some_words) bare_shell = Inr (1, sh') \<and> parsed Pipes 8 1 sh'"
proof -
  obtain sh' where p: "parse_line refusing Pipes 8 (quoted_line some_words) bare_shell = Inr (1, sh')"
    using parse_quoted [OF some_words_ok(1-3,5), of bare_shell Pipes refusing 8] by auto
  from parse_line_well_formed [OF p] p show ?thesis by auto
qed

text \<open>
  A backslash before the closing quote is not taken for one character by the parser, but it is by the
  splitter, which then misses the quote: the words \<open>\\<close> and \<open>;reboot;\<close> come out as three statements.
\<close>

lemma quoted_backslash_splits:
  "split_statements (quoted_line [[BSLASH], cs '';reboot;'']) 8 0 (replicate 8 []) =
     (3, [[SQUOTE, BSLASH, SQUOTE, SP, SQUOTE], cs ''reboot'', [SQUOTE], [], [], [], [], []])"
  by code_simp

end
