(* ===== verification/ShBuiltin.thy ===== *)
theory ShBuiltin
  imports ShParse
begin

text \<open>
  The shell's own commands (\<open>run_test\<close>, \<open>run_builtin\<close>), the search for a program, redirections, jobs,
  and the processes of a pipeline (\<open>userland/sh/sh.c\<close>).
\<close>

definition asks :: "world \<Rightarrow> call \<Rightarrow> shell \<Rightarrow> bool \<times> shell" where
  "asks w c sh = (let (r, sh) = syscall w c sh in (r_val r \<noteq> 0, sh))"

definition out_line :: "cstring \<Rightarrow> arg list \<Rightarrow> shell \<Rightarrow> shell" where
  "out_line fmt as sh = did (Put (stdout_call fmt as)) sh"

definition status :: "int \<Rightarrow> shell \<Rightarrow> shell" where
  "status v sh = sh\<lparr>last_status := v\<rparr>"

definition exit_code :: "bool \<Rightarrow> int" where
  "exit_code b = (if b then 0 else 1)"

section \<open>test\<close>

definition stat_test :: "world \<Rightarrow> cstring \<Rightarrow> bool \<Rightarrow> (lp_stat \<Rightarrow> bool) \<Rightarrow> shell \<Rightarrow> int \<times> shell" where
  "stat_test w path follow ok sh =
     (let (r, sh) = syscall w (Stat path follow) sh in
      (if r_val r < 0 then 1 else exit_code (ok (r_stat r)), sh))"

definition LP_S_IFBLK :: u32 where "LP_S_IFBLK = 24576"
definition LP_S_IFCHR :: u32 where "LP_S_IFCHR = 8192"

definition access_test :: "world \<Rightarrow> cstring \<Rightarrow> nat \<Rightarrow> shell \<Rightarrow> int \<times> shell" where
  "access_test w path mode sh =
     (let (r, sh) = syscall w (Access path mode) sh in (exit_code (r_val r = 0), sh))"

definition test_unary :: "world \<Rightarrow> cstring \<Rightarrow> cstring \<Rightarrow> shell \<Rightarrow> int \<times> shell" where
  "test_unary w op a sh =
     (if op = cs ''-e'' then (let (b, sh) = asks w (Exists a) sh in (exit_code b, sh))
      else if op = cs ''-d'' then (let (b, sh) = asks w (Is_dir a) sh in (exit_code b, sh))
      else if op = cs ''-f'' then stat_test w a True (\<lambda>st. is_kind st LP_S_IFREG) sh
      else if op = cs ''-s'' then stat_test w a True (\<lambda>st. st_size st > 0) sh
      else if op = cs ''-z'' then (exit_code (a = []), sh)
      else if op = cs ''-n'' then (exit_code (a \<noteq> []), sh)
      else if op = cs ''-b'' \<or> op = cs ''-c'' then
        stat_test w a True (\<lambda>st. is_kind st (if op = cs ''-b'' then LP_S_IFBLK else LP_S_IFCHR)) sh
      else if op = cs ''-L'' \<or> op = cs ''-h'' then stat_test w a False (\<lambda>st. is_kind st LP_S_IFLNK) sh
      else if op = cs ''-r'' then access_test w a 4 sh
      else if op = cs ''-w'' then access_test w a 2 sh
      else if op = cs ''-x'' then access_test w a 1 sh
      else (2, say (cs ''test: %s: unknown test'' @ [LF]) [astr op] sh))"

definition compare :: "cstring \<Rightarrow> int \<Rightarrow> int \<Rightarrow> bool option" where
  "compare op x y =
     (if op = cs ''-eq'' then Some (x = y) else if op = cs ''-ne'' then Some (x \<noteq> y)
      else if op = cs ''-lt'' then Some (x < y) else if op = cs ''-le'' then Some (x \<le> y)
      else if op = cs ''-gt'' then Some (x > y) else if op = cs ''-ge'' then Some (x \<ge> y) else None)"

text \<open>\<open>None\<close> is a number that overflows in \<open>strtol\<close>.\<close>

definition test_binary :: "cstring \<Rightarrow> cstring \<Rightarrow> cstring \<Rightarrow> shell \<Rightarrow> (int \<times> shell) option" where
  "test_binary a op b sh =
     (if op = cs ''='' then Some (exit_code (a = b), sh)
      else if op = cs ''!='' then Some (exit_code (a \<noteq> b), sh)
      else if compare op 0 0 \<noteq> None then
        (if \<not> str_is_num a \<or> \<not> str_is_num b
         then Some (2, say (cs ''test: %s: not a number'' @ [LF]) [astr (if str_is_num a then b else a)] sh)
         else
           (case (str_to_num a, str_to_num b) of
              (Some x, Some y) \<Rightarrow> map_option (\<lambda>r. (exit_code r, sh)) (compare op x y)
            | _ \<Rightarrow> None))
      else Some (2, say (cs ''test: %s: unknown comparison'' @ [LF]) [astr op] sh))"

function test_args :: "world \<Rightarrow> cstring list \<Rightarrow> shell \<Rightarrow> (int \<times> shell) option" where
  "test_args w args sh =
     (if length args \<le> 1 then Some (1, sh)
      else if length args = 2 then Some (exit_code (args ! 1 \<noteq> []), sh)
      else if args ! 1 = cs ''!'' then
        map_option (\<lambda>(r, sh). (if r = 0 then 1 else 0, sh)) (test_args w (tl args) sh)
      else if length args = 3 then Some (test_unary w (args ! 1) (args ! 2) sh)
      else if length args = 4 then test_binary (args ! 1) (args ! 2) (args ! 3) sh
      else Some (2, say (cs ''test: too many arguments'' @ [LF]) [] sh))"
  by auto
termination by (relation "measure (\<lambda>(w, args, sh). length args)") auto

declare test_args.simps [simp del]

definition run_test :: "world \<Rightarrow> cstring list \<Rightarrow> shell \<Rightarrow> (int \<times> shell) option" where
  "run_test w args sh =
     (if hd args = cs ''['' then
        (if length args < 2 \<or> last args \<noteq> cs '']'' then Some (2, say (cs ''[: missing ]'' @ [LF]) [] sh)
         else test_args w (butlast args) sh)
      else test_args w args sh)"

section \<open>The other builtins\<close>

definition BUILTINS :: "cstring list" where
  "BUILTINS = map cs
     [''break'', ''continue'', ''exit'', ''cd'', ''pwd'', ''echo'', ''env'', ''reboot'', ''poweroff'', ''halt'',
      ''test'', ''['', ''true'', ''false'', '':'', ''read'', ''shift'', ''export'']"

definition is_builtin :: "cstring \<Rightarrow> bool" where
  "is_builtin nm \<longleftrightarrow> nm \<in> set BUILTINS"

fun read_options :: "cstring list \<Rightarrow> cstring option \<Rightarrow> cstring list \<times> cstring option" where
  "read_options [] prompt = ([], prompt)"
| "read_options [a] prompt = (if a = cs ''-r'' then ([], prompt) else ([a], prompt))"
| "read_options (a # b # r) prompt =
     (if a = cs ''-r'' then read_options (b # r) prompt
      else if a = cs ''-p'' then read_options r (Some b)
      else (a # b # r, prompt))"

fun read_fields :: "world \<Rightarrow> cstring list \<Rightarrow> cstring \<Rightarrow> shell \<Rightarrow> shell" where
  "read_fields w [] p sh = sh"
| "read_fields w [v] p sh = sh_setenv w v (rtrim (skip_blank p)) sh"
| "read_fields w (v # u # vs) p sh =
     (let p = skip_blank p; word = takeWhile (\<lambda>c. \<not> blank c) p in
      read_fields w (u # vs) (drop (length word + 1) p) (sh_setenv w v word sh))"

definition run_read :: "world \<Rightarrow> cstring list \<Rightarrow> shell \<Rightarrow> shell" where
  "run_read w args sh =
     (let (vars, prompt) = read_options args None;
          sh = (case prompt of None \<Rightarrow> sh | Some t \<Rightarrow> did (Fputs t) sh);
          (r, sh) = syscall w (Readline 0 MAX_LINE) sh;
          buf = cstr_of (take (MAX_LINE - 1) (r_bytes r))
      in if r_val r < 0 then status 1 sh
         else if vars = [] then status 0 (sh_setenv w (cs ''REPLY'') buf sh)
         else status 0 (read_fields w vars buf sh))"

definition run_shift :: "cstring list \<Rightarrow> shell \<Rightarrow> shell option" where
  "run_shift args sh =
     (case (if args = [] then Some 1 else atoi (hd args)) of
        None \<Rightarrow> None
      | Some by \<Rightarrow>
          if by < 0 then Some (status 2 (say (cs ''shift: %s is not a count'' @ [LF]) [astr (hd args)] sh))
          else if by > int (length (pos_args sh)) then Some (status 1 sh)
          else Some (status 0 (sh\<lparr>pos_args := drop (nat by) (pos_args sh)\<rparr>)))"

fun run_export :: "world \<Rightarrow> cstring list \<Rightarrow> shell \<Rightarrow> shell" where
  "run_export w [] sh = sh"
| "run_export w (a # r) sh =
     (case strchr a EQUALS of
        None \<Rightarrow> run_export w r sh
      | Some eq \<Rightarrow> run_export w r (sh_setenv w (take 127 (take (length a - length eq) a)) (tl eq) sh))"

fun run_echo :: "cstring list \<Rightarrow> shell \<Rightarrow> shell" where
  "run_echo [] sh = out_line [LF] [] sh"
| "run_echo (a # r) sh = run_echo r (out_line (cs ''%s%s'') [astr a, astr (if r \<noteq> [] then [SP] else [])] sh)"

definition run_cd :: "world \<Rightarrow> cstring list \<Rightarrow> shell \<Rightarrow> shell" where
  "run_cd w args sh =
     (let dir = (if args \<noteq> [] then hd args else HOME_DIR); (r, sh) = syscall w (Chdir dir) sh in
      if r_val r < 0
      then status 1 (say (cs ''cd: %s: cannot change to it (%ld)'' @ [LF]) [astr dir, anum (- r_val r)] sh)
      else status 0 sh)"

definition run_pwd :: "world \<Rightarrow> shell \<Rightarrow> shell" where
  "run_pwd w sh =
     (let (r, sh) = syscall w (Getcwd 512) sh in
      if r_val r < 0 then status 1 (say (cs ''pwd: failed (%ld)'' @ [LF]) [anum (- r_val r)] sh)
      else status 0 (out_line (cs ''%s'' @ [LF]) [astr (cstr_of (r_bytes r))] sh))"

definition SIGUSR1 :: int where "SIGUSR1 = 10"
definition SIGUSR2 :: int where "SIGUSR2 = 12"

definition run_reboot :: "world \<Rightarrow> cstring \<Rightarrow> shell \<Rightarrow> shell" where
  "run_reboot w cmd sh =
     (let (r, sh) = syscall w (Kill 1 (if cmd = cs ''reboot'' then SIGUSR2 else SIGUSR1)) sh in
      if r_val r \<noteq> 0
      then status 1 (say (cs ''%s: init did not take the signal - nothing has been stopped.'' @ [LF]) [astr cmd] sh)
      else
        status 1 (say (cs ''%s: init took the signal but the machine is still running.'' @ [LF]) [astr cmd]
          (fold did (replicate 100 (Sleep_ms 100)) sh)))"

definition run_loop_exit :: "cstring \<Rightarrow> cstring list \<Rightarrow> shell \<Rightarrow> shell option" where
  "run_loop_exit cmd args sh =
     (case (if args = [] then Some 1 else atoi (hd args)) of
        None \<Rightarrow> None
      | Some n \<Rightarrow>
          (let n = (if n < 1 then 1 else n) in
           Some (status 0 (if cmd = cs ''break'' then sh\<lparr>loop_break := n\<rparr> else sh\<lparr>loop_continue := n\<rparr>))))"

definition run_exit :: "cstring list \<Rightarrow> shell \<Rightarrow> shell option" where
  "run_exit args sh =
     map_option (\<lambda>v. status v (sh\<lparr>running := False\<rparr>)) (if args = [] then Some 0 else atoi (hd args))"

text \<open>The words of a command.  \<open>run_builtin\<close> says whether it was one of its own.\<close>

definition words :: "cmd_t \<Rightarrow> shell \<Rightarrow> cstring list" where
  "words c sh = map (str_at sh) (argv c)"

definition or_undefined :: "'a option \<Rightarrow> stop + 'a" where
  "or_undefined r = (case r of None \<Rightarrow> Inl Undefined | Some x \<Rightarrow> Inr x)"

definition run_builtin :: "world \<Rightarrow> cmd_t \<Rightarrow> shell \<Rightarrow> stop + (bool \<times> shell)" where
  "run_builtin w c sh =
     (case words c sh of
        [] \<Rightarrow> Inl Undefined
      | cmd # args \<Rightarrow>
          if cmd = cs ''test'' \<or> cmd = cs ''['' then
            or_undefined (map_option (\<lambda>(r, sh). (True, status r sh)) (run_test w (cmd # args) sh))
          else if cmd = cs ''read'' then Inr (True, run_read w args sh)
          else if cmd = cs ''shift'' then or_undefined (map_option (Pair True) (run_shift args sh))
          else if cmd = cs ''export'' then Inr (True, status 0 (run_export w args sh))
          else if cmd = cs ''true'' \<or> cmd = cs '':'' then Inr (True, status 0 sh)
          else if cmd = cs ''false'' then Inr (True, status 1 sh)
          else if cmd = cs ''break'' \<or> cmd = cs ''continue'' then
            or_undefined (map_option (Pair True) (run_loop_exit cmd args sh))
          else if cmd = cs ''exit'' then or_undefined (map_option (Pair True) (run_exit args sh))
          else if cmd = cs ''cd'' then Inr (True, run_cd w args sh)
          else if cmd = cs ''pwd'' then Inr (True, run_pwd w sh)
          else if cmd = cs ''echo'' then Inr (True, status 0 (run_echo args sh))
          else if cmd = cs ''env'' then
            Inr (True, status 0 (fold (\<lambda>e sh. out_line (cs ''%s'' @ [LF]) [astr e] sh) (entries (sh_env sh)) sh))
          else if cmd = cs ''reboot'' \<or> cmd = cs ''poweroff'' \<or> cmd = cs ''halt'' then
            Inr (True, run_reboot w cmd sh)
          else Inr (False, sh))"

section \<open>Finding a program\<close>

definition DEFAULT_PATH :: cstring where
  "DEFAULT_PATH = cs ''/bin:/data/bin:/sbin:/usr/bin:/usr/sbin''"

function path_loop :: "world \<Rightarrow> cstring \<Rightarrow> cstring \<Rightarrow> shell \<Rightarrow> cstring option \<times> shell" where
  "path_loop w cmd path sh =
     (if path = [] then (None, sh)
      else
        (let d = takeWhile (\<lambda>c. c \<noteq> 58) path; rest = drop (length d) path; full = d @ SLASH # cmd;
             (found, sh) = (if d \<noteq> [] \<and> length full + 1 \<le> 512 then asks w (Exists full) sh else (False, sh))
         in if found then (Some full, sh)
            else if rest = [] then (None, sh)
            else path_loop w cmd (tl rest) sh))"
  by auto
termination
proof (relation "measure (\<lambda>(w, cmd, path, sh). length path)", goal_cases)
  case (2 w cmd path sh d rest full x found y)
  then show ?case by (cases path) auto
qed simp

declare path_loop.simps [simp del]

definition resolve_path :: "world \<Rightarrow> cstring \<Rightarrow> shell \<Rightarrow> cstring option \<times> shell" where
  "resolve_path w cmd sh =
     (if SLASH \<in> set cmd then
        (let (found, sh) = asks w (Exists (clip 512 cmd)) sh in (if found then Some (clip 512 cmd) else None, sh))
      else
        path_loop w cmd
          (case getenv (sh_env sh) (cs ''PATH'') of
             Some p \<Rightarrow> if p = [] then DEFAULT_PATH else p
           | None \<Rightarrow> DEFAULT_PATH) sh)"

section \<open>Redirections\<close>

definition dup_over :: "int \<Rightarrow> int \<Rightarrow> shell \<Rightarrow> shell" where
  "dup_over fd target sh = did (Close fd) (did (Dup2 fd target) sh)"

definition out_flags :: "bool \<Rightarrow> nat" where
  "out_flags app = O_WRONLY OR O_CREAT OR (if app then O_APPEND else O_TRUNC)"

text \<open>In a child: a file that does not open ends it.\<close>

definition redirect_fd :: "world \<Rightarrow> cstring \<Rightarrow> nat \<Rightarrow> int \<Rightarrow> cstring \<Rightarrow> shell \<Rightarrow> stop + shell" where
  "redirect_fd w path flags target msg sh =
     (let (r, sh) = syscall w (Open path flags) sh in
      if r_val r < 0 then Inl (Exited 1 (say msg [astr path] sh)) else Inr (dup_over (r_val r) target sh))"

definition apply_redirects :: "world \<Rightarrow> cmd_t \<Rightarrow> shell \<Rightarrow> stop + shell" where
  "apply_redirects w c sh =
     andthen
       (case redir_in c of
          None \<Rightarrow> Inr sh
        | Some t \<Rightarrow> redirect_fd w (target_str sh t) O_RDONLY 0 (cs ''sh: %s: cannot open'' @ [LF]) sh) (\<lambda>sh.
     andthen
       (case redir_out c of
          None \<Rightarrow> Inr sh
        | Some t \<Rightarrow> redirect_fd w (target_str sh t) (out_flags (out_append c)) 1 (cs ''sh: %s: cannot create'' @ [LF]) sh) (\<lambda>sh.
     case redir_err c of
       None \<Rightarrow> Inr sh
     | Some t \<Rightarrow>
         if target_str sh t = cs ''&1'' then Inr (did (Dup2 1 2) sh)
         else redirect_fd w (target_str sh t) (out_flags (err_append c)) 2 (cs ''sh: %s: cannot create'' @ [LF]) sh))"

text \<open>In the shell itself: the descriptors are saved, and put back after the builtin.\<close>

definition put_back :: "int \<Rightarrow> int \<Rightarrow> shell \<Rightarrow> shell" where
  "put_back saved target sh = (if saved \<ge> 0 then dup_over saved target sh else sh)"

definition swap_fd :: "world \<Rightarrow> int \<Rightarrow> int \<Rightarrow> shell \<Rightarrow> int \<times> shell" where
  "swap_fd w fd target sh =
     (let (r, sh) = syscall w (Dup target) sh in (r_val r, dup_over fd target sh))"

definition swap_in :: "world \<Rightarrow> cmd_t \<Rightarrow> shell \<Rightarrow> int option \<times> shell" where
  "swap_in w c sh =
     (case redir_in c of
        None \<Rightarrow> (Some (-1), sh)
      | Some t \<Rightarrow>
          (let path = target_str sh t; (r, sh) = syscall w (Open path O_RDONLY) sh in
           if r_val r < 0
           then (None, status 1 (say (cs ''sh: %s: cannot open (%ld)'' @ [LF]) [astr path, anum (- r_val r)] sh))
           else (let (s, sh) = swap_fd w (r_val r) 0 sh in (Some s, sh))))"

definition swap_out :: "world \<Rightarrow> cmd_t \<Rightarrow> int \<Rightarrow> shell \<Rightarrow> int option \<times> shell" where
  "swap_out w c saved_in sh =
     (case redir_out c of
        None \<Rightarrow> (Some (-1), sh)
      | Some t \<Rightarrow>
          (let path = target_str sh t; (r, sh) = syscall w (Open path (out_flags (out_append c))) sh in
           if r_val r < 0
           then (None, status 1 (put_back saved_in 0
                   (say (cs ''sh: %s: cannot create (%ld)'' @ [LF]) [astr path, anum (- r_val r)] sh)))
           else (let (s, sh) = swap_fd w (r_val r) 1 sh in (Some s, sh))))"

definition swap_err :: "world \<Rightarrow> cmd_t \<Rightarrow> shell \<Rightarrow> int \<times> shell" where
  "swap_err w c sh =
     (case redir_err c of
        None \<Rightarrow> (-1, sh)
      | Some t \<Rightarrow>
          if target_str sh t = cs ''&1''
          then (let (r, sh) = syscall w (Dup 2) sh in (r_val r, did (Dup2 1 2) sh))
          else
            (let (r, sh) = syscall w (Open (target_str sh t) (out_flags (err_append c))) sh in
             if r_val r \<ge> 0 then swap_fd w (r_val r) 2 sh else (-1, sh)))"

definition run_builtin_redirected :: "world \<Rightarrow> cmd_t \<Rightarrow> shell \<Rightarrow> stop + shell" where
  "run_builtin_redirected w c sh =
     (case swap_in w c sh of
        (None, sh) \<Rightarrow> Inr sh
      | (Some saved_in, sh) \<Rightarrow>
          (case swap_out w c saved_in sh of
             (None, sh) \<Rightarrow> Inr sh
           | (Some saved_out, sh) \<Rightarrow>
               (let (saved_err, sh) = swap_err w c sh in
                andthen (run_builtin w c sh) (\<lambda>(handled, sh).
                  Inr (put_back saved_out 1 (put_back saved_in 0 (put_back saved_err 2 sh)))))))"

section \<open>Jobs\<close>

definition MAX_JOBS :: nat where "MAX_JOBS = 16"

definition job_add :: "int \<Rightarrow> cstring \<Rightarrow> shell \<Rightarrow> shell" where
  "job_add pid cmd sh =
     (let sh = sh\<lparr>last_bg_pid := pid\<rparr> in
      if length (jobs sh) \<ge> MAX_JOBS then out_line (cs ''[&] %d %s'' @ [LF]) [anum pid, astr cmd] sh
      else
        (let j = \<lparr>job_pid = pid, job_id = next_job_id sh, job_cmd = clip 48 cmd\<rparr> in
         (out_line (cs ''[%d] %d'' @ [LF]) [anum (job_id j), anum pid]
            (sh\<lparr>jobs := jobs sh @ [j], next_job_id := next_job_id sh + 1\<rparr>))))"

function reap_from :: "world \<Rightarrow> nat \<Rightarrow> shell \<Rightarrow> shell" where
  "reap_from w i sh =
     (if i \<ge> length (jobs sh) then sh
      else
        (let js = jobs sh; (r, sh) = syscall w (Waitpid (job_pid (js ! i)) True) sh in
         if r_val r = job_pid (js ! i) then
           reap_from w i
             ((out_line (cs ''[%d] done   %s'' @ [LF]) [anum (job_id (js ! i)), astr (job_cmd (js ! i))] sh)
                \<lparr>jobs := butlast (js[i := last js])\<rparr>)
         else reap_from w (i + 1) sh))"
  by auto
termination
  by (relation "measure (\<lambda>(w, i, sh). length (jobs sh) - i)") (auto simp: syscall_def)

declare reap_from.simps [simp del]

definition reap_jobs :: "world \<Rightarrow> shell \<Rightarrow> shell" where
  "reap_jobs w sh = reap_from w 0 sh"

section \<open>The processes of a pipeline\<close>

definition wait_status :: "u32 \<Rightarrow> int" where
  "wait_status st = (if st AND 127 = 0 then uint (drop_bit 8 st AND 255) else 128 + uint (st AND 127))"

definition SIGTSTP :: int where "SIGTSTP = 20"
definition SIGTTIN :: int where "SIGTTIN = 21"
definition SIGTTOU :: int where "SIGTTOU = 22"

definition stage_signals :: "bool \<Rightarrow> shell \<Rightarrow> shell" where
  "stage_signals bg sh =
     fold did ((if bg then [Signal_ignore SIGINT, Signal_ignore SIGQUIT]
                else [Signal_default SIGINT, Signal_default SIGQUIT]) @
               [Signal_ignore SIGTSTP, Signal_ignore SIGTTIN, Signal_ignore SIGTTOU]) sh"

text \<open>
  The descriptors of a stage: the end of the pipe before it, or -1, and of the one after it unless it
  is the last.  What the child goes on with is its command.
\<close>

definition stage_fds :: "int \<Rightarrow> (int \<times> int) option \<Rightarrow> shell \<Rightarrow> shell" where
  "stage_fds prev ends sh =
     (let sh = (if prev \<ge> 0 then dup_over prev 0 sh else sh) in
      case ends of None \<Rightarrow> sh | Some (rd, wr) \<Rightarrow> dup_over wr 1 (did (Close rd) sh))"

fun stages :: "world \<Rightarrow> bool \<Rightarrow> cmd_t list \<Rightarrow> int \<Rightarrow> int list \<Rightarrow> shell \<Rightarrow> stop + (int list \<times> int \<times> shell)" where
  "stages w bg [] prev pids sh = Inr (pids, prev, sh)"
| "stages w bg (c # cs') prev pids sh =
     (let (p, ends, sh1) =
            (if cs' = [] then (0, None, sh)
             else (let (r, sh) = syscall w Pipe sh in (r_val r, Some (r_ends r), sh)))
      in if p < 0 then Inr (pids, prev, say (cs ''sh: cannot create a pipe'' @ [LF]) [] sh1)
         else
           (let (f, sh2) = syscall w Fork sh1; pid = r_val f in
            if pid < 0 then
              (let sh3 = say (cs ''sh: fork failed'' @ [LF]) [] sh2 in
               Inr (pids, prev,
                 case ends of None \<Rightarrow> sh3 | Some (rd, wr) \<Rightarrow> if rd \<ge> 0 then did (Close wr) (did (Close rd) sh3) else sh3))
            else if pid = 0 then Inl (Child (Run_stage c) (stage_fds prev ends (stage_signals bg sh2)))
            else
              (let sh3 = (if prev \<ge> 0 then did (Close prev) sh2 else sh2) in
               case ends of
                 None \<Rightarrow> stages w bg cs' prev (pids @ [pid]) sh3
               | Some (rd, wr) \<Rightarrow> stages w bg cs' rd (pids @ [pid]) (did (Close wr) sh3))))"

fun wait_all :: "world \<Rightarrow> int list \<Rightarrow> shell \<Rightarrow> shell" where
  "wait_all w [] sh = sh"
| "wait_all w (p # ps) sh =
     (let (r, sh) = syscall w (Waitpid p False) sh in
      wait_all w ps (if ps = [] then status (wait_status (r_status r)) sh else sh))"

definition run_pipeline :: "world \<Rightarrow> cmd_t list \<Rightarrow> bool \<Rightarrow> shell \<Rightarrow> stop + shell" where
  "run_pipeline w cs' bg sh =
     andthen (stages w bg cs' (-1) [] sh) (\<lambda>(pids, prev, sh).
       let sh = (if prev \<ge> 0 then did (Close prev) sh else sh) in
       if bg then
         (if pids = [] then Inr (status 0 sh)
          else
            (case words (hd cs') sh of
               [] \<Rightarrow> Inl Undefined
             | nm # args \<Rightarrow> Inr (status 0 (job_add (last pids) nm sh))))
       else Inr (wait_all w pids sh))"

end
