(* ===== verification/ShExec.thy ===== *)
theory ShExec
  imports ShBuiltin
begin

text \<open>
  Running commands (\<open>userland/sh/sh.c\<close>): pipelines joined by \<open>&&\<close>, \<open>||\<close> and \<open>;\<close>, the control
  structures, functions, and the shell's main program.  A block of lines is part of one of the static
  arrays, which the code writes to while it runs them: the place, the offset and the number of lines.

  \<open>run\<close> is what runs an ordinary line, so that the control structures can be read without it; it is
  \<open>run_logical_line\<close> itself.  Loops and calls have fuel.
\<close>

section \<open>Blocks\<close>

definition line_at :: "place \<Rightarrow> nat \<Rightarrow> shell \<Rightarrow> cstring" where
  "line_at pl i sh = blocks sh pl ! i"

definition set_line :: "place \<Rightarrow> nat \<Rightarrow> cstring \<Rightarrow> shell \<Rightarrow> shell" where
  "set_line pl i l sh = sh\<lparr>blocks := (blocks sh)(pl := (blocks sh pl)[i := l])\<rparr>"

definition block_lines :: "place \<Rightarrow> nat \<Rightarrow> nat \<Rightarrow> shell \<Rightarrow> cstring list" where
  "block_lines pl off n sh = take n (drop off (blocks sh pl))"

definition find_kw :: "place \<Rightarrow> nat \<Rightarrow> nat \<Rightarrow> nat \<Rightarrow> string list \<Rightarrow> shell \<Rightarrow> nat option" where
  "find_kw pl off n frm kws sh = find_at_depth (block_lines pl off n sh) frm (map cs kws)"

fun run_range :: "(cstring \<Rightarrow> shell \<Rightarrow> stop + shell) \<Rightarrow> place \<Rightarrow> nat \<Rightarrow> nat \<Rightarrow> shell \<Rightarrow> stop + shell" where
  "run_range run pl i 0 sh = Inr sh"
| "run_range run pl i (Suc m) sh = andthen (run (line_at pl i sh) sh) (\<lambda>sh. run_range run pl (i + 1) m sh)"

text \<open>A condition: what follows the keyword on its line, and the lines up to \<open>then\<close> or \<open>do\<close>.\<close>

definition condition_of :: "cstring \<Rightarrow> cstring" where
  "condition_of l = clip MAX_LINE (after_keyword l (first_word l 32))"

definition run_condition :: "(cstring \<Rightarrow> shell \<Rightarrow> stop + shell) \<Rightarrow> place \<Rightarrow> nat \<Rightarrow> nat \<Rightarrow> shell \<Rightarrow> stop + shell" where
  "run_condition run pl i j sh =
     (let cond = condition_of (line_at pl i sh) in
      andthen (if cond \<noteq> [] then run cond sh else Inr sh) (\<lambda>sh. run_range run pl (i + 1) (j - (i + 1)) sh))"

section \<open>Functions\<close>

definition MAX_FUNCS :: nat where "MAX_FUNCS = 16"
definition MAX_POSITIONAL :: nat where "MAX_POSITIONAL = 32"

function func_end :: "cstring list \<Rightarrow> nat \<Rightarrow> nat \<Rightarrow> nat option" where
  "func_end ls i depth =
     (if i \<ge> length ls then None
      else if is_func_def (ls ! i) 64 \<noteq> None then func_end ls (i + 1) (depth + 1)
      else if first_word (ls ! i) 32 = [RBRACE] then
        (if depth - 1 = 0 then Some i else func_end ls (i + 1) (depth - 1))
      else func_end ls (i + 1) depth)"
  by auto
termination by (relation "measure (\<lambda>(ls, i, depth). length ls - i)") auto

declare func_end.simps [simp del]

definition store_func :: "func_t \<Rightarrow> shell \<Rightarrow> shell option" where
  "store_func f sh =
     (if \<exists>g\<in>set (funcs sh). fn_name g = fn_name f
      then Some (sh\<lparr>funcs := map (\<lambda>g. if fn_name g = fn_name f then f else g) (funcs sh)\<rparr>)
      else if length (funcs sh) \<ge> MAX_FUNCS then None
      else Some (sh\<lparr>funcs := funcs sh @ [f]\<rparr>))"

definition define_func :: "place \<Rightarrow> nat \<Rightarrow> nat \<Rightarrow> nat \<Rightarrow> cstring \<Rightarrow> shell \<Rightarrow> nat \<times> shell" where
  "define_func pl off n start nm sh =
     (let ls = block_lines pl off n sh in
      case func_end ls (start + 1) 1 of
        None \<Rightarrow> (n, say (cs ''sh: %s() without a closing }'' @ [LF]) [astr nm] sh)
      | Some e \<Rightarrow>
          (let body = take (e - (start + 1)) (drop (start + 1) ls) in
           case store_func \<lparr>fn_name = clip 64 nm, fn_lines = map (clip MAX_LINE) (take MAX_FUNC_LINES body)\<rparr> sh of
             None \<Rightarrow> (e + 1, say (cs ''sh: no room for more than %d functions'' @ [LF]) [anum (int MAX_FUNCS)] sh)
           | Some sh \<Rightarrow>
               (e + 1, status 0
                 (if length body > MAX_FUNC_LINES
                  then say (cs ''sh: %s() is longer than %d lines - the rest was dropped'' @ [LF])
                         [astr nm, anum (int MAX_FUNC_LINES)] sh
                  else sh))))"

definition enter_func :: "func_t \<Rightarrow> cstring list \<Rightarrow> shell \<Rightarrow> shell" where
  "enter_func f args sh =
     sh\<lparr>pos_args := map (clip 256) (take MAX_POSITIONAL args),
        blocks := (blocks sh)(Body := fn_lines f @ drop (length (fn_lines f)) (blocks sh Body)),
        call_depth := call_depth sh + 1\<rparr>"

text \<open>\<open>args\<close> are the arguments after the name; \<open>ex\<close> runs that many lines of the static body.\<close>

definition call_func :: "(nat \<Rightarrow> shell \<Rightarrow> stop + shell) \<Rightarrow> func_t \<Rightarrow> cstring list \<Rightarrow> shell \<Rightarrow> stop + shell" where
  "call_func ex f args sh =
     (if call_depth sh \<ge> 16
      then Inr (status 1 (say (cs ''sh: %s() is %d calls deep. Stopping - this is what a'' @ [LF] @
                  cs ''sh:   function that calls itself forever looks like.'' @ [LF])
                [astr (fn_name f), anum (int (call_depth sh))] sh))
      else
        andthen (ex (length (fn_lines f)) (enter_func f args sh)) (\<lambda>sh'.
          Inr (sh'\<lparr>call_depth := call_depth sh' - 1, pos_args := map (clip 256) (pos_args sh)\<rparr>)))"

section \<open>A pipeline into a block, and a redirected block\<close>

definition child_signals :: "shell \<Rightarrow> shell" where
  "child_signals sh = did (Signal_default SIGQUIT) (did (Signal_default SIGINT) sh)"

definition feed :: "world \<Rightarrow> place \<Rightarrow> nat \<Rightarrow> shell \<Rightarrow> stop + (int \<times> int \<times> shell)" where
  "feed w pl i sh =
     (case pipe_into_block (clip MAX_LINE (line_at pl i sh)) of
        None \<Rightarrow> Inr (-1, -1, sh)
      | Some (left, kw) \<Rightarrow>
          if left = [] then Inr (-1, -1, sh)
          else
            (let (r, sh) = syscall w Pipe sh; (rd, wr) = r_ends r in
             if r_val r \<noteq> 0 then Inr (-1, -1, sh)
             else
               (let (f, sh) = syscall w Fork sh; feeder = r_val f in
                if feeder = 0 then
                  Inl (Child (Run_line left) (child_signals (dup_over wr 1 (did (Close rd) sh))))
                else if feeder > 0 then
                  (let (s, sh) = syscall w (Dup 0) (did (Close wr) sh) in
                   Inr (feeder, r_val s, set_line pl i (clip MAX_LINE kw) (dup_over rd 0 sh)))
                else Inr (feeder, -1, did (Close rd) (did (Close wr) sh)))))"

definition drain_pipe :: "world \<Rightarrow> place \<Rightarrow> nat \<Rightarrow> cstring \<Rightarrow> cstring \<Rightarrow> shell \<Rightarrow> stop + (int \<times> int \<times> shell)" where
  "drain_pipe w pl e term right sh =
     (if right = [] then Inr (-1, -1, sh)
      else
        (let (r, sh) = syscall w Pipe sh; (rd, wr) = r_ends r in
         if r_val r \<noteq> 0 then Inr (-1, -1, sh)
         else
           (let (f, sh) = syscall w Fork sh; pid = r_val f in
            if pid = 0 then
              Inl (Child (Run_line right) (child_signals (dup_over rd 0 (did (Close wr) sh))))
            else if pid > 0 then
              (let (s, sh) = syscall w (Dup 1) (did (Close rd) sh) in
               Inr (pid, r_val s, set_line pl e term (dup_over wr 1 sh)))
            else Inr (pid, -1, did (Close wr) (did (Close rd) sh)))))"

definition drain_file :: "world \<Rightarrow> place \<Rightarrow> nat \<Rightarrow> cstring \<Rightarrow> cstring \<Rightarrow> shell \<Rightarrow> int \<times> shell" where
  "drain_file w pl e term rest sh =
     (let app = (ch rest 1 = GREATER); fn = skip_blank (drop (if app then 2 else 1) rest) in
      if fn = [] then (-1, sh)
      else
        (let (r, sh) = syscall w (Open fn (out_flags app)) sh in
         if r_val r < 0 then (-1, say (cs ''sh: %s: cannot write to it'' @ [LF]) [astr fn] sh)
         else (let (s, sh) = syscall w (Dup 1) sh in (r_val s, set_line pl e term (dup_over (r_val r) 1 sh)))))"

definition drain :: "world \<Rightarrow> place \<Rightarrow> nat \<Rightarrow> nat \<Rightarrow> nat \<Rightarrow> cstring \<Rightarrow> shell \<Rightarrow> stop + (int \<times> int \<times> shell)" where
  "drain w pl off n i wd sh =
     (if \<not> opens_block wd then Inr (-1, -1, sh)
      else
        (let term = (if wd = cs ''if'' then ''fi'' else ''done'') in
         case find_kw pl off n (i + 1) [term] sh of
           None \<Rightarrow> Inr (-1, -1, sh)
         | Some e \<Rightarrow>
             (let rest = skip_blank (drop (length term) (line_at pl (off + e) sh)) in
              if deref rest = BAR \<and> ch rest 1 \<noteq> BAR
              then drain_pipe w pl (off + e) (cs term) (clip MAX_LINE (tl rest)) sh
              else if deref rest = GREATER
              then (let (s, sh) = drain_file w pl (off + e) (cs term) rest sh in Inr (-1, s, sh))
              else Inr (-1, -1, sh))))"

definition wait_for :: "int \<Rightarrow> shell \<Rightarrow> shell" where
  "wait_for pid sh = (if pid > 0 then did (Waitpid pid False) sh else sh)"

definition restore_fds :: "int \<Rightarrow> int \<Rightarrow> int \<Rightarrow> int \<Rightarrow> shell \<Rightarrow> shell" where
  "restore_fds feeder saved_in dr saved_out sh =
     wait_for feeder (put_back (if feeder > 0 then saved_in else -1) 0 (wait_for dr (put_back saved_out 1 sh)))"

section \<open>Control structures\<close>

text \<open>What a loop does after its body: \<open>None\<close> goes round again.\<close>

definition after_body :: "shell \<Rightarrow> bool \<times> shell" where
  "after_body sh =
     (if loop_break sh \<noteq> 0 then (True, sh\<lparr>loop_break := loop_break sh - 1\<rparr>)
      else if loop_continue sh \<noteq> 0 then
        (loop_continue sh - 1 \<noteq> 0, sh\<lparr>loop_continue := loop_continue sh - 1\<rparr>)
      else (last_status sh \<ge> 128, sh))"

definition count_round :: "nat \<Rightarrow> shell \<Rightarrow> nat \<times> shell" where
  "count_round rounds sh =
     (if rounds = 1000000
      then (rounds, say (cs ''sh: while: a million rounds - still going.'' @ [LF] @
              cs ''sh:   If that is not what you meant, Ctrl-C stops it.'' @ [LF]) [] sh)
      else (if rounds > 1000000 then 1000001 else rounds, sh))"

definition for_header :: "world \<Rightarrow> cstring \<Rightarrow> shell \<Rightarrow> stop + ((cstring \<times> nat) option \<times> shell)" where
  "for_header w l sh =
     andthen (parse_line w For_header MAX_PIPES (clip MAX_LINE l) sh) (\<lambda>(hn, sh).
       let args = (if hn \<le> 0 then [] else words (hd (cmds (slot For_header 0 sh))) sh) in
       if length args < 3 \<or> args ! 2 \<noteq> cs ''in''
       then Inr (None, say (cs ''sh: for NAME in words... ; do ... ; done'' @ [LF]) [] sh)
       else
         (let ws = map (clip 256) (take 64 (drop 3 args)) in
          Inr (Some (clip 64 (args ! 1), length ws),
               sh\<lparr>for_words := ws @ drop (length ws) (for_words sh)\<rparr>)))"

type_synonym runner = "cstring \<Rightarrow> shell \<Rightarrow> stop + shell"
type_synonym block_runner = "place \<Rightarrow> nat \<Rightarrow> nat \<Rightarrow> nat \<Rightarrow> shell \<Rightarrow> stop + shell"

text \<open>\<open>ex\<close> runs the lines from \<open>i\<close> on of a block; \<open>e\<close> is the line of \<open>fi\<close> or \<open>done\<close>.\<close>

fun exec_if :: "runner \<Rightarrow> block_runner \<Rightarrow> nat \<Rightarrow> place \<Rightarrow> nat \<Rightarrow> nat \<Rightarrow> nat \<Rightarrow> nat \<Rightarrow> shell \<Rightarrow> stop + (nat \<times> shell)" where
  "exec_if run ex 0 pl off n e cursor sh = Inl No_fuel"
| "exec_if run ex (Suc k) pl off n e cursor sh =
     (case find_kw pl off n (cursor + 1) [''then''] sh of
        None \<Rightarrow> Inr (e + 1, say (cs ''sh: if without then'' @ [LF]) [] sh)
      | Some t \<Rightarrow>
          if t > e then Inr (e + 1, say (cs ''sh: if without then'' @ [LF]) [] sh)
          else
            andthen (run_condition run pl (off + cursor) (off + t) sh) (\<lambda>sh.
              let b = (case find_kw pl off n (t + 1) [''elif'', ''else'', ''fi''] sh of Some b \<Rightarrow> b | None \<Rightarrow> e) in
              if last_status sh = 0 then
                andthen (ex pl (off + t + 1) (b - t - 1) 0 sh) (\<lambda>sh. Inr (e + 1, sh))
              else if first_word (line_at pl (off + b) sh) 32 = cs ''elif'' then exec_if run ex k pl off n e b sh
              else if first_word (line_at pl (off + b) sh) 32 = cs ''else'' then
                andthen (ex pl (off + b + 1) (e - b - 1) 0 sh) (\<lambda>sh. Inr (e + 1, sh))
              else Inr (e + 1, status 0 sh)))"

fun exec_while :: "runner \<Rightarrow> block_runner \<Rightarrow> nat \<Rightarrow> place \<Rightarrow> nat \<Rightarrow> nat \<Rightarrow> nat \<Rightarrow> nat \<Rightarrow> nat \<Rightarrow> shell \<Rightarrow> stop + (nat \<times> shell)" where
  "exec_while run ex 0 pl off start d e rounds sh = Inl No_fuel"
| "exec_while run ex (Suc k) pl off start d e rounds sh =
     (if \<not> running sh then Inr (e + 1, status 0 sh)
      else
        andthen (run_condition run pl (off + start) (off + d) sh) (\<lambda>sh.
          if last_status sh \<noteq> 0 then Inr (e + 1, status 0 sh)
          else
            andthen (ex pl (off + d + 1) (e - d - 1) 0 sh) (\<lambda>sh.
              let continued = (loop_break sh = 0 \<and> loop_continue sh \<noteq> 0); (leave, sh) = after_body sh;
                  (rounds, sh) = (if leave \<or> continued then (rounds, sh) else count_round rounds sh)
              in if leave then Inr (e + 1, status 0 sh)
                 else exec_while run ex k pl off start d e (rounds + 1) sh)))"

text \<open>\<open>m\<close> words are left; the next is word \<open>i\<close> of the static array.\<close>

fun exec_for :: "world \<Rightarrow> block_runner \<Rightarrow> nat \<Rightarrow> place \<Rightarrow> nat \<Rightarrow> nat \<Rightarrow> nat \<Rightarrow> cstring \<Rightarrow> nat \<Rightarrow> shell \<Rightarrow> stop + (nat \<times> shell)" where
  "exec_for w ex 0 pl off d e nm i sh = Inr (e + 1, sh)"
| "exec_for w ex (Suc m) pl off d e nm i sh =
     (if \<not> running sh then Inr (e + 1, sh)
      else
        andthen (ex pl (off + d + 1) (e - d - 1) 0 (sh_setenv w nm (for_words sh ! i) sh)) (\<lambda>sh.
          let (leave, sh) = after_body sh in
          if leave then Inr (e + 1, sh) else exec_for w ex m pl off d e nm (i + 1) sh))"

text \<open>The line of a loop's \<open>do\<close> and of its \<open>done\<close>, in this order.\<close>

definition loop_lines :: "place \<Rightarrow> nat \<Rightarrow> nat \<Rightarrow> nat \<Rightarrow> shell \<Rightarrow> (nat \<times> nat) option" where
  "loop_lines pl off n i sh =
     (case (find_kw pl off n (i + 1) [''do''] sh, find_kw pl off n (i + 1) [''done''] sh) of
        (Some d, Some e) \<Rightarrow> if d > e then None else Some (d, e)
      | _ \<Rightarrow> None)"

definition exec_stmt :: "world \<Rightarrow> runner \<Rightarrow> block_runner \<Rightarrow> nat \<Rightarrow> place \<Rightarrow> nat \<Rightarrow> nat \<Rightarrow> nat \<Rightarrow> cstring \<Rightarrow> shell \<Rightarrow> stop + (nat \<times> shell)" where
  "exec_stmt w run ex k pl off n i wd sh =
     (case is_func_def (line_at pl (off + i) sh) 64 of
        Some nm \<Rightarrow> Inr (define_func pl off n i nm sh)
      | None \<Rightarrow>
          if wd = cs ''if'' then
            (case find_kw pl off n (i + 1) [''fi''] sh of
               None \<Rightarrow> Inr (n, say (cs ''sh: if without fi'' @ [LF]) [] sh)
             | Some e \<Rightarrow> exec_if run ex k pl off n e i sh)
          else if wd = cs ''while'' then
            (case loop_lines pl off n i sh of
               Some (d, e) \<Rightarrow> exec_while run ex k pl off i d e 0 sh
             | None \<Rightarrow> Inr (n, say (cs ''sh: while without do or done'' @ [LF]) [] sh))
          else if wd = cs ''for'' then
            (case loop_lines pl off n i sh of
               Some (d, e) \<Rightarrow>
                 andthen (for_header w (line_at pl (off + i) sh) sh) (\<lambda>(h, sh).
                   case h of
                     None \<Rightarrow> Inr (e + 1, sh)
                   | Some (nm, nw) \<Rightarrow> exec_for w ex nw pl off d e nm 0 sh)
             | None \<Rightarrow> Inr (n, say (cs ''sh: for without do or done'' @ [LF]) [] sh))
          else andthen (run (line_at pl (off + i) sh) sh) (\<lambda>sh. Inr (i + 1, sh)))"

primrec exec_block :: "world \<Rightarrow> runner \<Rightarrow> nat \<Rightarrow> block_runner" where
  "exec_block w run 0 = (\<lambda>pl off n i sh. Inl No_fuel)"
| "exec_block w run (Suc k) = (\<lambda>pl off n i sh.
     if i < n \<and> running sh then
       andthen (feed w pl (off + i) sh) (\<lambda>(feeder, saved_in, sh).
       let wd = first_word (line_at pl (off + i) sh) 32 in
       andthen (drain w pl off n i wd sh) (\<lambda>(dr, saved_out, sh).
       andthen (exec_stmt w run (exec_block w run k) k pl off n i wd sh) (\<lambda>(i, sh).
         let sh = restore_fds feeder saved_in dr saved_out sh in
         if loop_break sh \<noteq> 0 \<or> loop_continue sh \<noteq> 0 then Inr sh
         else exec_block w run k pl off n i sh)))
     else Inr sh)"

section \<open>An ordinary line\<close>

definition func_of :: "cmd_t list \<Rightarrow> shell \<Rightarrow> (func_t \<times> cstring list) option" where
  "func_of cs' sh =
     (if length cs' = 1 then
        (case words (hd cs') sh of
           [] \<Rightarrow> None
         | nm # args \<Rightarrow> map_option (\<lambda>f. (f, args)) (func_find nm sh))
      else None)"

definition run_one :: "world \<Rightarrow> (nat \<Rightarrow> shell \<Rightarrow> stop + shell) \<Rightarrow> pipeline_t \<Rightarrow> shell \<Rightarrow> stop + shell" where
  "run_one w ex pl sh =
     (case func_of (cmds pl) sh of
        Some (f, args) \<Rightarrow> call_func ex f args sh
      | None \<Rightarrow>
          if length (cmds pl) = 1 \<and> argv (hd (cmds pl)) \<noteq> [] \<and> is_builtin (hd (words (hd (cmds pl)) sh))
          then run_builtin_redirected w (hd (cmds pl)) sh
          else run_pipeline w (cmds pl) (background pl) sh)"

text \<open>The table is read anew for every pipeline: a function that was called has filled it again.\<close>

fun run_pipes :: "world \<Rightarrow> (nat \<Rightarrow> shell \<Rightarrow> stop + shell) \<Rightarrow> nat \<Rightarrow> nat \<Rightarrow> shell \<Rightarrow> stop + shell" where
  "run_pipes w ex 0 i sh = Inr sh"
| "run_pipes w ex (Suc m) i sh =
     (let pl = slot Pipes i sh in
      if \<not> running sh then Inr sh
      else if (link pl = LINK_AND \<and> last_status sh \<noteq> 0) \<or> (link pl = LINK_OR \<and> last_status sh = 0)
      then run_pipes w ex m (i + 1) sh
      else andthen (run_one w ex pl sh) (\<lambda>sh. run_pipes w ex m (i + 1) sh))"

primrec run_logical_line :: "world \<Rightarrow> nat \<Rightarrow> cstring \<Rightarrow> shell \<Rightarrow> stop + shell" where
  "run_logical_line w 0 = (\<lambda>line sh. Inl No_fuel)"
| "run_logical_line w (Suc k) = (\<lambda>line sh.
     if deref line = HASH then Inr sh
     else
       andthen (parse_line w Pipes MAX_PIPES line sh) (\<lambda>(np, sh).
         if np \<le> 0 then Inr sh
         else run_pipes w (\<lambda>n sh. exec_block w (run_logical_line w k) k Body 0 n 0 sh) (nat np) 0 sh))"

definition run_body :: "world \<Rightarrow> nat \<Rightarrow> nat \<Rightarrow> shell \<Rightarrow> stop + shell" where
  "run_body w k n sh = exec_block w (run_logical_line w k) k Body 0 n 0 sh"

section \<open>Children\<close>

definition exits :: "stop + shell \<Rightarrow> stop + shell" where
  "exits r = andthen r (\<lambda>sh. Inl (Exited (last_status sh) sh))"

definition stage_child :: "world \<Rightarrow> nat \<Rightarrow> cmd_t \<Rightarrow> shell \<Rightarrow> stop + shell" where
  "stage_child w k c sh =
     andthen (apply_redirects w c sh) (\<lambda>sh.
       case words c sh of
         [] \<Rightarrow> Inl Undefined
       | nm # args \<Rightarrow>
           (case func_find nm sh of
              Some f \<Rightarrow> exits (call_func (run_body w k) f args sh)
            | None \<Rightarrow>
                if is_builtin nm then exits (andthen (run_builtin w c sh) (\<lambda>(handled, sh). Inr sh))
                else
                  (case resolve_path w nm sh of
                     (None, sh) \<Rightarrow> Inl (Exited 127 (say (cs ''sh: %s: command not found'' @ [LF]) [astr nm] sh))
                   | (Some path, sh) \<Rightarrow>
                       (let (r, sh) = syscall w (Execve path (nm # args)) sh in
                        if r_val r < 0
                        then Inl (Exited 126 (say (cs ''sh: %s: cannot run it (%ld)'' @ [LF]) [astr path, anum (- r_val r)] sh))
                        else Inl (Execed path (nm # args) sh)))))"

definition go_on :: "world \<Rightarrow> nat \<Rightarrow> task \<Rightarrow> shell \<Rightarrow> stop + shell" where
  "go_on w k t sh =
     (case t of Run_line l \<Rightarrow> exits (run_logical_line w k l sh) | Run_stage c \<Rightarrow> stage_child w k c sh)"

fun follow :: "world \<Rightarrow> nat \<Rightarrow> nat \<Rightarrow> stop + shell \<Rightarrow> stop + shell" where
  "follow w k m (Inl (Child t sh)) = (case m of 0 \<Rightarrow> Inl No_fuel | Suc m \<Rightarrow> follow w k m (go_on w k t sh))"
| "follow w k m r = r"

section \<open>The main program\<close>

text \<open>\<open>sh -c\<close>: every line of the string is split; too long a string or too many statements are refused.\<close>

function command_lines :: "nat \<Rightarrow> cstring list \<Rightarrow> cstring \<Rightarrow> (nat \<times> cstring list) option" where
  "command_lines n arr p =
     (if p = [] then Some (n, arr)
      else if n \<ge> MAX_BLOCK then None
      else
        (let l = takeWhile (\<lambda>c. c \<noteq> LF) p; rest = drop (length l + 1) p;
             (m, arr) = (if l \<noteq> [] \<and> hd l \<noteq> HASH then split_statements l (MAX_BLOCK - n) n arr else (0, arr))
         in command_lines (n + m) arr rest))"
  by auto
termination
proof (relation "measure (\<lambda>(n, arr, p). length p)", goal_cases)
  case (2 n arr p l rest x m arr')
  then show ?case by (cases p) auto
qed simp

declare command_lines.simps [simp del]

definition set_args :: "cstring list \<Rightarrow> shell \<Rightarrow> shell" where
  "set_args args sh = sh\<lparr>pos_args := map (clip 256) (take MAX_POSITIONAL args)\<rparr>"

definition run_command :: "world \<Rightarrow> nat \<Rightarrow> cstring \<Rightarrow> cstring list \<Rightarrow> shell \<Rightarrow> stop + (int \<times> shell)" where
  "run_command w k text args sh =
     (let sh = set_args args (sh\<lparr>script_name := cs ''sh''\<rparr>) in
      if length text \<ge> MAX_LINE then
        Inr (2, say (cs ''sh: -c: command is longer than %d bytes - refusing to run part of it'' @ [LF])
               [anum (int MAX_LINE - 1)] sh)
      else
        (case command_lines 0 (blocks sh Command) text of
           None \<Rightarrow> Inr (2, say (cs ''sh: -c: more than %d statements - refusing to run part of it'' @ [LF])
                         [anum (int MAX_BLOCK)] sh)
         | Some (n, arr) \<Rightarrow>
             andthen (exec_block w (run_logical_line w k) k Command 0 n 0 (sh\<lparr>blocks := (blocks sh)(Command := arr)\<rparr>))
               (\<lambda>sh. Inr (last_status sh, sh))))"

text \<open>How many blocks a run of statements opens and leaves open.\<close>

definition block_depth :: "cstring list \<Rightarrow> int" where
  "block_depth ls =
     sum_list (map (\<lambda>l. let wd = first_word l 32 in
        (if opens_block wd then 1 else 0) - (if closes_block wd then 1 else 0) +
        (if is_func_def l 64 \<noteq> None then 1 else 0) - (if wd = [RBRACE] then 1 else 0)) ls)"

definition split_into :: "place \<Rightarrow> nat \<Rightarrow> cstring \<Rightarrow> shell \<Rightarrow> nat \<times> int \<times> shell" where
  "split_into pl n line sh =
     (let (m, arr) = split_statements line (MAX_BLOCK - n) n (blocks sh pl);
          sh = sh\<lparr>blocks := (blocks sh)(pl := arr)\<rparr>
      in (m, block_depth (take m (drop n arr)), sh))"

definition read_a_line :: "world \<Rightarrow> int \<Rightarrow> shell \<Rightarrow> int \<times> cstring \<times> shell" where
  "read_a_line w fd sh =
     (let (r, sh) = syscall w (Readline fd MAX_LINE) sh in
      (r_val r, cstr_of (take (MAX_LINE - 1) (r_bytes r)), sh))"

text \<open>An unfinished block keeps reading; at the end of the file it is given up.\<close>

fun more_lines :: "world \<Rightarrow> int \<Rightarrow> nat \<Rightarrow> int \<Rightarrow> nat \<Rightarrow> shell \<Rightarrow> stop + (nat \<times> shell)" where
  "more_lines w fd 0 depth n sh = Inl No_fuel"
| "more_lines w fd (Suc k) depth n sh =
     (if \<not> (depth > 0 \<and> n < MAX_BLOCK - 8 \<and> running sh) then Inr (n, sh)
      else
        (let (len, line, sh) = read_a_line w fd sh in
         if len < 0 then
           Inr (0, say (cs ''sh: unexpected end - %d block%s left open'' @ [LF])
                     [anum depth, astr (if depth = 1 then [] else cs ''s'')] sh)
         else if len = 0 \<or> deref line = HASH then more_lines w fd k depth n sh
         else
           (let (m, d, sh) = split_into Script n line sh in more_lines w fd k (depth + d) (n + m) sh)))"

fun script_loop :: "world \<Rightarrow> int \<Rightarrow> nat \<Rightarrow> shell \<Rightarrow> stop + shell" where
  "script_loop w fd 0 sh = Inl No_fuel"
| "script_loop w fd (Suc k) sh =
     (if \<not> running sh then Inr sh
      else
        (let (len, line, sh) = read_a_line w fd sh in
         if len < 0 then Inr sh
         else if len = 0 \<or> deref line = HASH then script_loop w fd k sh
         else
           (let (m, d, sh) = split_into Script 0 line sh in
            andthen (more_lines w fd k d m sh) (\<lambda>(n, sh).
            andthen (if n > 0 then exec_block w (run_logical_line w k) k Script 0 n 0 sh else Inr sh) (\<lambda>sh.
              script_loop w fd k sh)))))"

definition run_script :: "world \<Rightarrow> nat \<Rightarrow> bool \<Rightarrow> cstring \<Rightarrow> cstring list \<Rightarrow> shell \<Rightarrow> stop + (int \<times> shell)" where
  "run_script w k quiet path args sh =
     (let (r, sh) = syscall w (Open path O_RDONLY) sh in
      if r_val r < 0 then
        Inr (if quiet then (0, sh)
             else (127, say (cs ''sh: %s: cannot open (%ld)'' @ [LF]) [astr path, anum (- r_val r)] sh))
      else
        andthen (script_loop w (r_val r) k (set_args args (sh\<lparr>script_name := clip 128 path\<rparr>))) (\<lambda>sh.
          Inr (last_status sh, if r_val r \<noteq> 0 then did (Close (r_val r)) sh else sh)))"

fun source_loop :: "world \<Rightarrow> cstring \<Rightarrow> int \<Rightarrow> nat \<Rightarrow> nat \<Rightarrow> int \<Rightarrow> shell \<Rightarrow> stop + (int \<times> shell)" where
  "source_loop w path fd 0 n depth sh = Inl No_fuel"
| "source_loop w path fd (Suc k) n depth sh =
     (let (len, line, sh) = read_a_line w fd sh in
      if len < 0 then Inr (depth, sh)
      else if len = 0 \<or> deref line = HASH then source_loop w path fd k n depth sh
      else
        (let (m, d, sh) = split_into Profile n line sh; n = n + m; depth = depth + d in
         andthen
           (if depth \<le> 0 then
              andthen (if n > 0 then exec_block w (run_logical_line w k) k Profile 0 n 0 sh else Inr sh) (\<lambda>sh. Inr (0, 0, sh))
            else Inr (n, depth, sh)) (\<lambda>(n, depth, sh).
           if n \<ge> MAX_BLOCK - 8 then
             Inr (depth, say (cs ''sh: %s is too long to read in one piece - the rest was ignored'' @ [LF]) [astr path] sh)
           else source_loop w path fd k n depth sh)))"

definition source_file :: "world \<Rightarrow> nat \<Rightarrow> cstring \<Rightarrow> shell \<Rightarrow> stop + shell" where
  "source_file w k path sh =
     (let (r, sh) = syscall w (Open path O_RDONLY) sh in
      if r_val r < 0 then Inr sh
      else
        andthen (source_loop w path (r_val r) k 0 0 sh) (\<lambda>(depth, sh).
          Inr (did (Close (r_val r))
            (if depth > 0
             then say (cs ''sh: %s ends with %d block%s still open - it was not run'' @ [LF])
                    [astr path, anum depth, astr (if depth = 1 then [] else cs ''s'')] sh
             else sh))))"

end
