(* ===== verification/ShFrame.thy ===== *)
theory ShFrame
  imports ShExec ShTable
begin

text \<open>
  Running an ordinary line touches no static array of lines but the one that function bodies are run
  from: the lines of a script stay as they are while its commands run.
\<close>

section \<open>Calls, output and the environment\<close>

lemma blocks_simps [simp]:
  "blocks (did c sh) = blocks sh" "blocks (say f a sh) = blocks sh" "blocks (status v sh) = blocks sh"
  "blocks (out_line f a sh) = blocks sh" "blocks (sh_setenv w nm u sh) = blocks sh" "blocks (set_slot tb i pl sh) = blocks sh"
  "blocks (dup_over fd t sh) = blocks sh" "blocks (put_back fd t sh) = blocks sh" "blocks (wait_for fd sh) = blocks sh"
  "blocks (set_cur tb np d sh) = blocks sh" "blocks (add_arg tb np i sh) = blocks sh"
  by (simp_all add: did_def say_def status_def out_line_def sh_setenv_def set_slot_def dup_over_def put_back_def wait_for_def
      add_arg_def set_cur_def Let_def)

lemma syscall_blocks: "syscall w c sh = (r, sh') \<Longrightarrow> blocks sh' = blocks sh"
  by (auto simp: syscall_def)

lemma asks_blocks: "asks w c sh = (r, sh') \<Longrightarrow> blocks sh' = blocks sh"
  by (auto simp: asks_def dest: syscall_blocks split: prod.splits)

lemma did_times_blocks [simp]: "blocks ((did c ^^ n) sh) = blocks sh"
  by (induction n) simp_all

lemma fold_blocks: "(\<And>x sh. blocks (f x sh) = blocks sh) \<Longrightarrow> blocks (fold f xs sh) = blocks sh"
  by (induction xs arbitrary: sh) auto

section \<open>Parsing\<close>

lemma arena_push_blocks: "arena_push src sh = (r, sh') \<Longrightarrow> blocks sh' = blocks sh"
  by (auto simp: arena_push_def Let_def split: if_splits)

lemma token_at_blocks:
  assumes "token_at w s sh = Inr (t, off, s', sh')" shows "blocks sh' = blocks sh"
proof (cases "quiet sh' = quiet sh")
  case True
  then show ?thesis using quietD(7) by blast
next
  case False
  let ?h = "sh\<lparr>tok_quoted := False, tok_has_glob := False, tok_from_cmd := False\<rparr>"
  obtain s1 b1 where ti: "tilde s = (s1, b1)" by fastforce
  have "andthen (word_loop w s1 b1 ?h) (\<lambda>(s, buf, sh). case arena_push buf sh of
        (None, sh) \<Rightarrow> Inr (TOK_END, 0, s, say (cs ''sh: line too long'' @ [LF]) [] sh)
      | (Some off, sh) \<Rightarrow> Inr (TOK_WORD, off, s, sh)) = Inr (t, off, s', sh')"
    using assms False ti by (auto simp: token_at_def Let_def split: if_splits)
  then obtain s2 b2 h2 r h3 where wl: "word_loop w s1 b1 ?h = Inr (s2, b2, h2)" and p: "arena_push b2 h2 = (r, h3)"
    and "blocks sh' = blocks h3"
    by (elim andthen_InrE) (auto split: prod.splits option.splits)
  then show ?thesis using quietD(7) [OF word_loop_quiet [OF wl]] arena_push_blocks [OF p] by simp
qed

lemma next_token_blocks: "next_token w p sh = Inr (t, off, s', sh') \<Longrightarrow> blocks sh' = blocks sh"
  unfolding next_token_def by (rule token_at_blocks)

lemma push_names_blocks: "push_names tb np nms added sh = (a, sh') \<Longrightarrow> blocks sh' = blocks sh"
  by (induction tb np nms added sh rule: push_names.induct)
    (auto split: if_splits prod.splits option.splits dest: arena_push_blocks)

lemma glob_expand_blocks: "glob_expand w tb np word sh = (a, sh') \<Longrightarrow> blocks sh' = blocks sh"
  by (auto simp: glob_expand_def Let_def split: option.splits prod.splits if_splits dest!: push_names_blocks syscall_blocks)

lemma split_words_blocks [simp]: "blocks (split_words tb np off wd sh) = blocks sh"
  by (induction tb np off wd sh rule: split_words.induct) (subst split_words.simps, auto simp: Let_def)

lemma parse_word_blocks: "parse_word w tb np a off sh = (r, sh') \<Longrightarrow> blocks sh' = blocks sh"
  by (auto simp: parse_word_def try_assignment_def Let_def split: option.splits prod.splits if_splits dest!: glob_expand_blocks)

lemma parse_bar_blocks: "parse_bar tb np sh = (r, sh') \<Longrightarrow> blocks sh' = blocks sh"
  by (auto simp: parse_bar_def Let_def split: if_splits)

lemma parse_join_blocks: "parse_join tb mx t np a sh = (r, sh') \<Longrightarrow> blocks sh' = blocks sh"
  by (auto simp: parse_join_def set_background_def Let_def split: if_splits)

lemma redirect_blocks [simp]:
  "blocks (redirect_amp tb np t d sh) = blocks sh" "blocks (redirect_to tb np t off sh) = blocks sh"
  by (simp_all add: redirect_amp_def redirect_to_def Let_def)

lemma parse_end_blocks: "parse_end tb np a sh = (n, sh') \<Longrightarrow> blocks sh' = blocks sh"
  by (auto simp: parse_end_def Let_def split: if_splits)

lemma parse_loop_blocks: "parse_loop w tb mx p np assigned sh = Inr (n, sh') \<Longrightarrow> blocks sh' = blocks sh"
proof (induction w tb mx p np assigned sh rule: parse_loop.induct)
  case (1 w tb mx p np assigned sh)
  obtain t off p' h where nt: "next_token w p sh = Inr (t, off, p', h)"
    using 1(6) by (auto simp: parse_loop.simps [of w tb mx p] andthen_Inr_iff)
  note h = next_token_blocks [OF nt]
  note unf = parse_loop.simps [of w tb mx p np assigned sh] nt andthen_simps prod.case
  note IH = 1(1-5) [OF nt refl refl refl]
  obtain a h1 where pw: "parse_word w tb np assigned off h = (a, h1)" by fastforce
  obtain b h2 where pb: "parse_bar tb np h = (b, h2)" by fastforce
  obtain r h3 where pj: "parse_join tb mx t np assigned h = (r, h3)" by fastforce
  note bl = parse_word_blocks [OF pw] parse_bar_blocks [OF pb] parse_join_blocks [OF pj] h
  consider (e) "t = TOK_END" | (wd) "t = TOK_WORD" | (bar) "t = TOK_PIPE"
    | (j) "t = TOK_AND \<or> t = TOK_OR \<or> t = TOK_SEMI \<or> t = TOK_AMP" "t \<noteq> TOK_END" "t \<noteq> TOK_WORD" "t \<noteq> TOK_PIPE"
    | (r) "t \<noteq> TOK_END" "t \<noteq> TOK_WORD" "t \<noteq> TOK_PIPE" "\<not> (t = TOK_AND \<or> t = TOK_OR \<or> t = TOK_SEMI \<or> t = TOK_AMP)"
    by blast
  then show ?case
  proof cases
    case e
    then have "parse_end tb np assigned h = (n, sh')" using 1(6) by (simp add: unf)
    then show ?thesis using parse_end_blocks h by simp
  next
    case wd
    then show ?thesis using IH(1) [OF _ wd pw [symmetric]] 1(6) pw bl by (cases a) (auto simp: unf)
  next
    case bar
    then show ?thesis using IH(2) [OF _ _ bar pb [symmetric]] 1(6) pb bl by (cases b) (auto simp: unf)
  next
    case j
    show ?thesis
    proof (cases r)
      case None
      then show ?thesis using 1(6) j pj bl by (auto simp: unf)
    next
      case (Some x)
      obtain np' a where x: "x = (np', a)" by fastforce
      have "parse_loop w tb mx p' np' a h3 = Inr (n, sh')" using 1(6) j pj Some x by (auto simp: unf)
      from IH(3) [OF j(2-4) j(1) pj [symmetric] Some x [symmetric] this] bl show ?thesis by simp
    qed
  next
    case r
    show ?thesis
    proof (cases "amp_follows (skip_blank p')")
      case True
      then have "parse_loop w tb mx (drop 2 (skip_blank p')) np assigned (redirect_amp tb np t (deref (tl (skip_blank p'))) h) = Inr (n, sh')"
        using 1(6) r by (auto simp: unf)
      from IH(4) [OF r True this] h show ?thesis by simp
    next
      case False
      obtain t' off2 p'' h4 where nt2: "next_token w p' h = Inr (t', off2, p'', h4)"
        using 1(6) r False by (auto simp: unf andthen_Inr_iff)
      show ?thesis
      proof (cases "t' = TOK_WORD")
        case F: False
        then show ?thesis using 1(6) r False nt2 h next_token_blocks [OF nt2] by (auto simp: unf)
      next
        case True
        then have "parse_loop w tb mx p'' np assigned (redirect_to tb np t off2 h4) = Inr (n, sh')"
          using 1(6) r False nt2 by (auto simp: unf)
        then show ?thesis
          using IH(5) [OF r False nt2 refl refl refl] True h next_token_blocks [OF nt2] by simp
      qed
    qed
  qed
qed

lemma parse_line_blocks: "parse_line w tb mx line sh = Inr (n, sh') \<Longrightarrow> blocks sh' = blocks sh"
  unfolding parse_line_def by (drule parse_loop_blocks) simp

section \<open>Builtins and processes\<close>

lemma test_unary_blocks: "test_unary w op a sh = (r, sh') \<Longrightarrow> blocks sh' = blocks sh"
  by (auto simp: test_unary_def stat_test_def access_test_def split: if_splits prod.splits dest: asks_blocks syscall_blocks)

lemma test_binary_blocks: "test_binary a op b sh = Some (r, sh') \<Longrightarrow> blocks sh' = blocks sh"
  by (auto simp: test_binary_def split: if_splits option.splits)

lemma test_args_blocks: "test_args w args sh = Some (r, sh') \<Longrightarrow> blocks sh' = blocks sh"
proof (induction w args sh arbitrary: r rule: test_args.induct)
  case (1 w args sh)
  then show ?case
    by (subst (asm) (2) test_args.simps)
      (auto split: if_splits dest: test_binary_blocks test_unary_blocks)
qed

lemma run_test_blocks: "run_test w args sh = Some (r, sh') \<Longrightarrow> blocks sh' = blocks sh"
  by (auto simp: run_test_def split: if_splits dest: test_args_blocks)

lemma read_fields_blocks [simp]: "blocks (read_fields w vs p sh) = blocks sh"
  by (induction w vs p sh rule: read_fields.induct) (auto simp: Let_def)

lemma run_simple_blocks [simp]:
  "blocks (run_read w args sh) = blocks sh" "blocks (run_export w args sh) = blocks sh" "blocks (run_echo args sh) = blocks sh"
  "blocks (run_cd w args sh) = blocks sh" "blocks (run_pwd w sh) = blocks sh" "blocks (run_reboot w cmd sh) = blocks sh"
proof -
  show "blocks (run_read w args sh) = blocks sh"
    by (auto simp: run_read_def Let_def split: prod.splits option.splits dest!: syscall_blocks)
  show "blocks (run_export w args sh) = blocks sh"
    by (induction w args sh rule: run_export.induct) (auto split: option.splits)
  show "blocks (run_echo args sh) = blocks sh"
    by (induction args sh rule: run_echo.induct) auto
  show "blocks (run_cd w args sh) = blocks sh" "blocks (run_pwd w sh) = blocks sh"
    by (auto simp: run_cd_def run_pwd_def Let_def split: prod.splits dest!: syscall_blocks)
  show "blocks (run_reboot w cmd sh) = blocks sh"
    by (auto simp: run_reboot_def Let_def fold_blocks split: prod.splits dest!: syscall_blocks)
qed

lemma or_undefined_Inr: "or_undefined r = Inr x \<longleftrightarrow> r = Some x"
  by (auto simp: or_undefined_def split: option.splits)

lemma run_builtin_blocks: "run_builtin w c sh = Inr (b, sh') \<Longrightarrow> blocks sh' = blocks sh"
  by (auto simp: run_builtin_def or_undefined_Inr run_shift_def run_loop_exit_def run_exit_def Let_def fold_blocks
      split: list.splits if_splits option.splits dest: run_test_blocks)

lemma swap_blocks:
  "swap_in w c sh = (r, sh') \<Longrightarrow> blocks sh' = blocks sh"
  "swap_out w c i sh = (r, sh') \<Longrightarrow> blocks sh' = blocks sh"
  "swap_err w c sh = (e, sh') \<Longrightarrow> blocks sh' = blocks sh"
  by (auto simp: swap_in_def swap_out_def swap_err_def swap_fd_def Let_def split: option.splits prod.splits if_splits dest!: syscall_blocks)

lemma run_builtin_redirected_blocks: "run_builtin_redirected w c sh = Inr sh' \<Longrightarrow> blocks sh' = blocks sh"
  by (auto simp: run_builtin_redirected_def andthen_Inr_iff split: prod.splits option.splits
      dest!: swap_blocks run_builtin_blocks)

lemma stages_blocks: "stages w bg cs' prev pids sh = Inr (ps, pr, sh') \<Longrightarrow> blocks sh' = blocks sh"
  by (induction w bg cs' prev pids sh rule: stages.induct)
    (auto simp: Let_def split: prod.splits if_splits option.splits dest!: syscall_blocks)

lemma wait_all_blocks [simp]: "blocks (wait_all w ps sh) = blocks sh"
  by (induction w ps sh rule: wait_all.induct) (auto simp: Let_def split: prod.splits dest!: syscall_blocks)

lemma job_add_blocks [simp]: "blocks (job_add p cmd sh) = blocks sh"
  by (simp add: job_add_def Let_def)

lemma run_pipeline_blocks: "run_pipeline w cs' bg sh = Inr sh' \<Longrightarrow> blocks sh' = blocks sh"
  by (auto simp: run_pipeline_def andthen_Inr_iff Let_def split: if_splits list.splits dest!: stages_blocks)

section \<open>Lines and blocks\<close>

definition keeps_block :: "runner \<Rightarrow> place \<Rightarrow> bool" where
  "keeps_block run pl \<longleftrightarrow> (\<forall>l s s'. run l s = Inr s' \<longrightarrow> blocks s' pl = blocks s pl)"

definition keeps_others :: "block_runner \<Rightarrow> place \<Rightarrow> bool" where
  "keeps_others ex q \<longleftrightarrow> (\<forall>pl off n i s s'. pl \<noteq> q \<longrightarrow> ex pl off n i s = Inr s' \<longrightarrow> blocks s' q = blocks s q)"

lemma keeps_blockD: "keeps_block run q \<Longrightarrow> run l s = Inr s' \<Longrightarrow> blocks s' q = blocks s q"
  by (simp add: keeps_block_def)

lemma keeps_othersD: "keeps_others ex q \<Longrightarrow> pl \<noteq> q \<Longrightarrow> ex pl off n i s = Inr s' \<Longrightarrow> blocks s' q = blocks s q"
  unfolding keeps_others_def by blast

lemma after_body_blocks: "after_body s = (b, s') \<Longrightarrow> blocks s' = blocks s"
  by (auto simp: after_body_def split: if_splits)

lemma count_round_blocks: "count_round i s = (j, s') \<Longrightarrow> blocks s' = blocks s"
  by (auto simp: count_round_def split: if_splits)

lemma set_line_others [simp]: "pl \<noteq> q \<Longrightarrow> blocks (set_line pl i l s) q = blocks s q"
  by (simp add: set_line_def)

lemma run_range_keeps: "keeps_block run q \<Longrightarrow> run_range run pl i m s = Inr s' \<Longrightarrow> blocks s' q = blocks s q"
  by (induction run pl i m s rule: run_range.induct) (auto simp: andthen_Inr_iff dest: keeps_blockD)

lemma run_condition_keeps: "keeps_block run q \<Longrightarrow> run_condition run pl i j s = Inr s' \<Longrightarrow> blocks s' q = blocks s q"
  using run_range_keeps [of run q] keeps_blockD [of run q]
  by (fastforce simp: run_condition_def Let_def andthen_Inr_iff split: if_splits)

lemma feed_keeps:
  assumes "pl \<noteq> q" "feed w pl i s = Inr (f, sv, s')" shows "blocks s' q = blocks s q"
proof (cases "pipe_into_block (clip MAX_LINE (line_at pl i s))")
  case (Some x)
  then show ?thesis using assms
    by (cases x) (auto simp: feed_def Let_def split: if_splits prod.splits dest!: syscall_blocks)
qed (use assms in \<open>simp add: feed_def\<close>)

lemma drain_pipe_keeps: "pl \<noteq> q \<Longrightarrow> drain_pipe w pl e t r s = Inr (f, sv, s') \<Longrightarrow> blocks s' q = blocks s q"
  by (auto simp: drain_pipe_def Let_def split: if_splits prod.splits dest!: syscall_blocks)

lemma drain_file_keeps: "pl \<noteq> q \<Longrightarrow> drain_file w pl e t r s = (sv, s') \<Longrightarrow> blocks s' q = blocks s q"
  by (auto simp: drain_file_def Let_def split: if_splits prod.splits dest!: syscall_blocks)

lemma drain_keeps: "pl \<noteq> q \<Longrightarrow> drain w pl off n i wd s = Inr (f, sv, s') \<Longrightarrow> blocks s' q = blocks s q"
  unfolding drain_def Let_def
  by (auto split: if_splits option.splits prod.splits dest: drain_pipe_keeps drain_file_keeps)

lemma restore_fds_blocks [simp]: "blocks (restore_fds a b c d s) = blocks s"
  by (simp add: restore_fds_def)

lemma store_func_blocks: "store_func f s = Some s' \<Longrightarrow> blocks s' = blocks s"
  by (auto simp: store_func_def split: if_splits)

lemma define_func_blocks: "define_func pl off n i nm s = (j, s') \<Longrightarrow> blocks s' = blocks s"
  by (auto simp: define_func_def Let_def split: option.splits dest: store_func_blocks)

lemma for_header_blocks: "for_header w l s = Inr (h, s') \<Longrightarrow> blocks s' = blocks s"
  by (auto simp: for_header_def Let_def andthen_Inr_iff split: if_splits dest!: parse_line_blocks)

lemma exec_if_keeps:
  assumes "keeps_block run q" "keeps_others ex q" "pl \<noteq> q"
  shows "exec_if run ex k pl off n e c s = Inr (j, s') \<Longrightarrow> blocks s' q = blocks s q"
proof (induction k arbitrary: c s)
  case (Suc k)
  show ?case
  proof (cases "find_kw pl off n (c + 1) [''then''] s")
    case (Some t)
    show ?thesis
    proof (cases "t > e")
      case False
      obtain s1 where r: "run_condition run pl (off + c) (off + t) s = Inr s1"
        using Suc.prems Some False by (auto simp: andthen_Inr_iff)
      show ?thesis
        using Suc.prems Some False run_condition_keeps [OF assms(1) r] Suc.IH keeps_othersD [OF assms(2,3)]
        by (fastforce simp: r Let_def andthen_Inr_iff split: if_splits option.splits)
    qed (use Suc.prems Some in auto)
  qed (use Suc.prems in auto)
qed simp

lemma exec_while_keeps:
  assumes "keeps_block run q" "keeps_others ex q" "pl \<noteq> q"
  shows "exec_while run ex k pl off st d e i s = Inr (j, s') \<Longrightarrow> blocks s' q = blocks s q"
proof (induction k arbitrary: i s)
  case (Suc k)
  show ?case
  proof (cases "running s")
    case True
    obtain s1 where r: "run_condition run pl (off + st) (off + d) s = Inr s1"
      using Suc.prems True by (auto simp: andthen_Inr_iff)
    show ?thesis
    proof (cases "last_status s1 = 0")
      case z: True
      obtain s2 where e: "ex pl (off + d + 1) (e - d - 1) 0 s1 = Inr s2"
        using Suc.prems True r z by (auto simp: andthen_Inr_iff)
      obtain leave s3 where a: "after_body s2 = (leave, s3)" by fastforce
      obtain i4 s4 where c: "(if leave \<or> loop_break s2 = 0 \<and> loop_continue s2 \<noteq> 0 then (i, s3) else count_round i s3) = (i4, s4)"
        by fastforce
      have "blocks s4 q = blocks s q"
        using run_condition_keeps [OF assms(1) r] keeps_othersD [OF assms(2,3) e] after_body_blocks [OF a] count_round_blocks c
        by (auto split: if_splits)
      moreover have "(if leave then Inr (e + 1, status 0 s4) else exec_while run ex k pl off st d e (i4 + 1) s4) = Inr (j, s')"
        using Suc.prems True by (simp only: exec_while.simps r z e a c andthen_simps Let_def prod.case not_True_eq_False if_False simp_thms)
      ultimately show ?thesis using Suc.IH [of "i4 + 1" s4] by (auto split: if_splits)
    qed (use Suc.prems True r run_condition_keeps [OF assms(1) r] in auto)
  qed (use Suc.prems in auto)
qed simp

lemma exec_for_keeps:
  assumes "keeps_others ex q" "pl \<noteq> q"
  shows "exec_for w ex m pl off d e nm i s = Inr (j, s') \<Longrightarrow> blocks s' q = blocks s q"
proof (induction m arbitrary: i s)
  case (Suc m)
  show ?case
  proof (cases "running s")
    case True
    then obtain s2 where e: "ex pl (off + d + 1) (e - d - 1) 0 (sh_setenv w nm (for_words s ! i) s) = Inr s2"
      using Suc.prems by (auto simp: andthen_Inr_iff)
    obtain leave s3 where a: "after_body s2 = (leave, s3)" by fastforce
    have "blocks s3 q = blocks s q" using keeps_othersD [OF assms e] after_body_blocks [OF a] by simp
    then show ?thesis using Suc True e a by (auto split: if_splits)
  qed (use Suc.prems in auto)
qed simp

lemma exec_stmt_keeps:
  assumes "keeps_block run q" "keeps_others ex q" "pl \<noteq> q" "exec_stmt w run ex k pl off n i wd s = Inr (j, s')"
  shows "blocks s' q = blocks s q"
  using assms(4) unfolding exec_stmt_def
  by (auto simp: andthen_Inr_iff split: option.splits if_splits prod.splits
      dest!: define_func_blocks for_header_blocks exec_for_keeps [OF assms(2,3)] keeps_blockD [OF assms(1)] 
        exec_if_keeps [OF assms(1-3)] exec_while_keeps [OF assms(1-3)])

lemma exec_block_keeps: "keeps_block run q \<Longrightarrow> keeps_others (exec_block w run k) q"
proof (induction k)
  case (Suc k)
  note IH = Suc.IH [OF Suc.prems]
  show ?case unfolding keeps_others_def
  proof (intro allI impI)
    fix pl off n i s s'
    assume pl: "pl \<noteq> q" and ex: "exec_block w run (Suc k) pl off n i s = Inr s'"
    show "blocks s' q = blocks s q"
    proof (cases "i < n \<and> running s")
      case True
      then obtain f sv s1 d so s2 j s3 where f: "feed w pl (off + i) s = Inr (f, sv, s1)"
        and d: "drain w pl off n i (first_word (line_at pl (off + i) s1) 32) s1 = Inr (d, so, s2)"
        and st: "exec_stmt w run (exec_block w run k) k pl off n i (first_word (line_at pl (off + i) s1) 32) s2 = Inr (j, s3)"
        and r: "(let sh = restore_fds f sv d so s3 in if loop_break sh \<noteq> 0 \<or> loop_continue sh \<noteq> 0 then Inr sh
          else exec_block w run k pl off n j sh) = Inr s'"
        using ex by (simp add: True Let_def) (elim andthen_InrE, clarsimp simp: Let_def, elim andthen_InrE, clarsimp, elim andthen_InrE, clarsimp)
      have "blocks (restore_fds f sv d so s3) q = blocks s q"
        using feed_keeps [OF pl f] drain_keeps [OF pl d] exec_stmt_keeps [OF Suc.prems IH pl st] by simp
      then show ?thesis using r keeps_othersD [OF IH pl] by (auto simp: Let_def split: if_splits)
    qed (use ex in auto)
  qed
qed (simp add: keeps_others_def)

definition body_keeps :: "(nat \<Rightarrow> shell \<Rightarrow> stop + shell) \<Rightarrow> place \<Rightarrow> bool" where
  "body_keeps ex q \<longleftrightarrow> (\<forall>n s s'. ex n s = Inr s' \<longrightarrow> blocks s' q = blocks s q)"

lemma call_func_keeps:
  assumes "body_keeps ex q" "q \<noteq> Body" "call_func ex f args s = Inr s'"
  shows "blocks s' q = blocks s q"
proof (cases "call_depth s \<ge> 16")
  case False
  then obtain s1 where e: "ex (length (fn_lines f)) (enter_func f args s) = Inr s1" and "blocks s' = blocks s1"
    using assms(3) by (auto simp: call_func_def andthen_Inr_iff)
  moreover have "blocks (enter_func f args s) q = blocks s q" using assms(2) by (simp add: enter_func_def)
  ultimately show ?thesis using assms(1) unfolding body_keeps_def by metis
qed (use assms(3) in \<open>auto simp: call_func_def\<close>)

lemma run_one_keeps:
  assumes "body_keeps ex q" "q \<noteq> Body" "run_one w ex pl s = Inr s'"
  shows "blocks s' q = blocks s q"
  using assms(3) by (auto simp: run_one_def split: option.splits if_splits
      dest: call_func_keeps [OF assms(1,2)] run_builtin_redirected_blocks run_pipeline_blocks)

lemma run_pipes_keeps:
  assumes "body_keeps ex q" "q \<noteq> Body"
  shows "run_pipes w ex m i s = Inr s' \<Longrightarrow> blocks s' q = blocks s q"
proof (induction m arbitrary: i s)
  case (Suc m)
  then show ?case
    using run_one_keeps [OF assms] by (fastforce simp: Let_def andthen_Inr_iff split: if_splits)
qed simp

lemma run_logical_line_keeps:
  assumes "q \<noteq> Body" shows "keeps_block (run_logical_line w k) q"
proof (induction k)
  case (Suc k)
  have ex: "body_keeps (\<lambda>n s. exec_block w (run_logical_line w k) k Body 0 n 0 s) q"
    unfolding body_keeps_def
    by (intro allI impI keeps_othersD [OF exec_block_keeps [OF Suc]]) (use assms in auto)
  show ?case unfolding keeps_block_def
  proof (intro allI impI)
    fix l s s'
    assume r: "run_logical_line w (Suc k) l s = Inr s'"
    show "blocks s' q = blocks s q"
    proof (cases "deref l = HASH")
      case False
      then obtain np s1 where p: "parse_line w Pipes MAX_PIPES l s = Inr (np, s1)"
        and "(if np \<le> 0 then Inr s1
          else run_pipes w (\<lambda>n sh. exec_block w (run_logical_line w k) k Body 0 n 0 sh) (nat np) 0 s1) = Inr s'"
        using r by (auto simp: andthen_Inr_iff)
      then show ?thesis using parse_line_blocks [OF p] run_pipes_keeps [OF ex assms] by (auto split: if_splits)
    qed (use r in simp)
  qed
qed (simp add: keeps_block_def)

end
