(* ===== verification/ShFuel.thy ===== *)
theory ShFuel
  imports ShFrame
begin

text \<open>
  More fuel gives the same result: a run of the shell that came to an end ends in the same way, and
  in the same state, with any larger bound on its loops and calls.
\<close>

section \<open>One runner that does what another does\<close>

definition le_run :: "runner \<Rightarrow> runner \<Rightarrow> bool" where
  "le_run r r' \<longleftrightarrow> (\<forall>l s s'. r l s = Inr s' \<longrightarrow> r' l s = Inr s')"

definition le_ex :: "block_runner \<Rightarrow> block_runner \<Rightarrow> bool" where
  "le_ex x x' \<longleftrightarrow> (\<forall>pl off n i s s'. x pl off n i s = Inr s' \<longrightarrow> x' pl off n i s = Inr s')"

lemma le_runD: "le_run r r' \<Longrightarrow> r l s = Inr s' \<Longrightarrow> r' l s = Inr s'"
  by (simp add: le_run_def)

lemma le_exD: "le_ex x x' \<Longrightarrow> x pl off n i s = Inr s' \<Longrightarrow> x' pl off n i s = Inr s'"
  by (simp add: le_ex_def)

lemma andthen_mono: "andthen r f = Inr y \<Longrightarrow> (\<And>x. f x = Inr y \<Longrightarrow> g x = Inr y) \<Longrightarrow> andthen r g = Inr y"
  by (auto simp: andthen_Inr_iff)

lemma run_range_mono: "le_run r r' \<Longrightarrow> run_range r pl i m s = Inr s' \<Longrightarrow> run_range r' pl i m s = Inr s'"
  by (induction r pl i m s rule: run_range.induct) (auto simp: andthen_Inr_iff dest: le_runD)

lemma run_condition_mono:
  assumes "le_run r r'" shows "run_condition r pl i j s = Inr s' \<Longrightarrow> run_condition r' pl i j s = Inr s'"
  using le_runD [OF assms] run_range_mono [OF assms]
  by (fastforce simp: run_condition_def Let_def andthen_Inr_iff)

lemma exec_if_mono:
  assumes "le_run r r'" "le_ex x x'"
  shows "exec_if r x k pl off n e c s = Inr y \<Longrightarrow> k \<le> k' \<Longrightarrow> exec_if r' x' k' pl off n e c s = Inr y"
proof (induction k arbitrary: k' c s)
  case (Suc k)
  then obtain m where m: "k' = Suc m" "k \<le> m" by (cases k') auto
  show ?case
  proof (cases "find_kw pl off n (c + 1) [''then''] s")
    case (Some t)
    show ?thesis
    proof (cases "t > e")
      case False
      obtain s1 where a: "run_condition r pl (off + c) (off + t) s = Inr s1"
        using Suc.prems(1) Some False by (auto simp: andthen_Inr_iff)
      note a' = run_condition_mono [OF assms(1) a]
      obtain b where b: "(case find_kw pl off n (t + 1) [''elif'', ''else'', ''fi''] s1 of Some b \<Rightarrow> b | None \<Rightarrow> e) = b"
        by blast
      have te: "(t > e) = False" using False by simp
      have "(if last_status s1 = 0 then andthen (x pl (off + t + 1) (b - t - 1) 0 s1) (\<lambda>sh. Inr (e + 1, sh))
          else if first_word (line_at pl (off + b) s1) 32 = cs ''elif'' then exec_if r x k pl off n e b s1
          else if first_word (line_at pl (off + b) s1) 32 = cs ''else''
          then andthen (x pl (off + b + 1) (e - b - 1) 0 s1) (\<lambda>sh. Inr (e + 1, sh)) else Inr (e + 1, status 0 s1)) = Inr y"
        using Suc.prems(1) by (simp only: exec_if.simps Some a b te option.case andthen_simps Let_def if_False)
      then have "(if last_status s1 = 0 then andthen (x' pl (off + t + 1) (b - t - 1) 0 s1) (\<lambda>sh. Inr (e + 1, sh))
          else if first_word (line_at pl (off + b) s1) 32 = cs ''elif'' then exec_if r' x' m pl off n e b s1
          else if first_word (line_at pl (off + b) s1) 32 = cs ''else''
          then andthen (x' pl (off + b + 1) (e - b - 1) 0 s1) (\<lambda>sh. Inr (e + 1, sh)) else Inr (e + 1, status 0 s1)) = Inr y"
        using Suc.IH [OF _ m(2), of b s1] le_exD [OF assms(2)]
        by (auto simp: andthen_Inr_iff split: if_split_asm)
      then show ?thesis by (simp only: exec_if.simps m(1) Some a' b te option.case andthen_simps Let_def if_False)
    qed (use Suc.prems(1) Some m in auto)
  qed (use Suc.prems(1) m in auto)
qed simp

lemma exec_while_mono:
  assumes "le_run r r'" "le_ex x x'"
  shows "exec_while r x k pl off st d e i s = Inr y \<Longrightarrow> k \<le> k' \<Longrightarrow> exec_while r' x' k' pl off st d e i s = Inr y"
proof (induction k arbitrary: k' i s)
  case (Suc k)
  then obtain m where m: "k' = Suc m" "k \<le> m" by (cases k') auto
  show ?case
  proof (cases "running s")
    case True
    obtain s1 where a: "run_condition r pl (off + st) (off + d) s = Inr s1"
      using Suc.prems(1) True by (auto simp: andthen_Inr_iff)
    note a' = run_condition_mono [OF assms(1) a]
    show ?thesis
    proof (cases "last_status s1 = 0")
      case z: True
      obtain s2 where b: "x pl (off + d + 1) (e - d - 1) 0 s1 = Inr s2"
        using Suc.prems(1) True a z by (auto simp: andthen_Inr_iff)
      note b' = le_exD [OF assms(2) b]
      obtain leave s3 where c: "after_body s2 = (leave, s3)" by fastforce
      obtain i4 s4 where o: "(if leave \<or> loop_break s2 = 0 \<and> loop_continue s2 \<noteq> 0 then (i, s3) else count_round i s3) = (i4, s4)"
        by fastforce
      have "(if leave then Inr (e + 1, status 0 s4) else exec_while r x k pl off st d e (i4 + 1) s4) = Inr y"
        using Suc.prems(1) True by (simp only: exec_while.simps a z b c o andthen_simps Let_def prod.case not_True_eq_False if_False simp_thms)
      then have "(if leave then Inr (e + 1, status 0 s4) else exec_while r' x' m pl off st d e (i4 + 1) s4) = Inr y"
        using Suc.IH [OF _ m(2), of "i4 + 1" s4] by (simp split: if_splits)
      then show ?thesis using True
        by (simp only: m(1) exec_while.simps a' z b' c o andthen_simps Let_def prod.case not_True_eq_False if_False simp_thms)
    qed (use Suc.prems(1) True a a' m in auto)
  qed (use Suc.prems(1) m in auto)
qed simp

lemma exec_for_mono:
  assumes "le_ex x x'"
  shows "exec_for w x m pl off d e nm i s = Inr y \<Longrightarrow> exec_for w x' m pl off d e nm i s = Inr y"
proof (induction m arbitrary: i s)
  case (Suc m)
  show ?case
  proof (cases "running s")
    case True
    then obtain s2 where b: "x pl (off + d + 1) (e - d - 1) 0 (sh_setenv w nm (for_words s ! i) s) = Inr s2"
      using Suc.prems by (auto simp: andthen_Inr_iff)
    show ?thesis using Suc True b le_exD [OF assms b] by (auto split: prod.splits if_splits)
  qed (use Suc.prems in auto)
qed simp

lemma exec_stmt_mono:
  assumes "le_run r r'" "le_ex x x'" "k \<le> k'" "exec_stmt w r x k pl off n i wd s = Inr y"
  shows "exec_stmt w r' x' k' pl off n i wd s = Inr y"
proof (cases "is_func_def (line_at pl (off + i) s) 64")
  case None
  show ?thesis
  proof (cases "wd = cs ''for''")
    case True
    have e: "exec_stmt w r x k pl off n i wd s =
        (case loop_lines pl off n i s of
           Some (d, e) \<Rightarrow> andthen (for_header w (line_at pl (off + i) s) s) (\<lambda>(h, sh).
             case h of None \<Rightarrow> Inr (e + 1, sh) | Some (nm, nw) \<Rightarrow> exec_for w x nw pl off d e nm 0 sh)
         | None \<Rightarrow> Inr (n, say (cs ''sh: for without do or done'' @ [LF]) [] s))" for r x k
      using None True by (simp add: exec_stmt_def cs_def)
    from assms(4) show ?thesis unfolding e
      by (auto elim!: andthen_mono intro: exec_for_mono [OF assms(2)] split: option.splits prod.splits)
  next
    case False
    then show ?thesis using assms(3,4) None
      by (auto simp: exec_stmt_def andthen_Inr_iff split: option.splits if_splits prod.splits
          intro: exec_if_mono [OF assms(1,2)] exec_while_mono [OF assms(1,2)] dest: le_runD [OF assms(1)])
  qed
qed (use assms(4) in \<open>simp add: exec_stmt_def\<close>)

lemma exec_block_mono: "le_run r r' \<Longrightarrow> k \<le> k' \<Longrightarrow> le_ex (exec_block w r k) (exec_block w r' k')"
proof (induction k arbitrary: k')
  case (Suc k)
  then obtain m where m: "k' = Suc m" "k \<le> m" by (cases k') auto
  note IH = Suc.IH [OF Suc.prems(1) m(2)]
  show ?case unfolding le_ex_def
  proof (intro allI impI)
    fix pl off n i s s'
    assume ex: "exec_block w r (Suc k) pl off n i s = Inr s'"
    show "exec_block w r' k' pl off n i s = Inr s'"
    proof (cases "i < n \<and> running s")
      case True
      then obtain f sv s1 d so s2 j s3 where f: "feed w pl (off + i) s = Inr (f, sv, s1)"
        and d: "drain w pl off n i (first_word (line_at pl (off + i) s1) 32) s1 = Inr (d, so, s2)"
        and st: "exec_stmt w r (exec_block w r k) k pl off n i (first_word (line_at pl (off + i) s1) 32) s2 = Inr (j, s3)"
        and e: "(let sh = restore_fds f sv d so s3 in if loop_break sh \<noteq> 0 \<or> loop_continue sh \<noteq> 0 then Inr sh
          else exec_block w r k pl off n j sh) = Inr s'"
        using ex by (simp add: True Let_def)
          (elim andthen_InrE, clarsimp simp: Let_def, elim andthen_InrE, clarsimp, elim andthen_InrE, clarsimp)
      note st' = exec_stmt_mono [OF Suc.prems(1) IH m(2) st]
      have "(let sh = restore_fds f sv d so s3 in if loop_break sh \<noteq> 0 \<or> loop_continue sh \<noteq> 0 then Inr sh
          else exec_block w r' m pl off n j sh) = Inr s'"
        using e le_exD [OF IH] by (auto simp: Let_def split: if_splits)
      then show ?thesis using True f d st' by (simp add: m(1) Let_def)
    qed (use ex m in auto)
  qed
qed (simp add: le_ex_def)

section \<open>Ordinary lines\<close>

definition le_body :: "(nat \<Rightarrow> shell \<Rightarrow> stop + shell) \<Rightarrow> (nat \<Rightarrow> shell \<Rightarrow> stop + shell) \<Rightarrow> bool" where
  "le_body x x' \<longleftrightarrow> (\<forall>n s s'. x n s = Inr s' \<longrightarrow> x' n s = Inr s')"

lemma call_func_mono: "le_body x x' \<Longrightarrow> call_func x f args s = Inr s' \<Longrightarrow> call_func x' f args s = Inr s'"
  by (auto simp: call_func_def le_body_def andthen_Inr_iff split: if_splits)

lemma run_one_mono: "le_body x x' \<Longrightarrow> run_one w x pl s = Inr s' \<Longrightarrow> run_one w x' pl s = Inr s'"
  by (auto simp: run_one_def dest: call_func_mono split: option.splits)

lemma run_pipes_mono: "le_body x x' \<Longrightarrow> run_pipes w x m i s = Inr s' \<Longrightarrow> run_pipes w x' m i s = Inr s'"
proof (induction m arbitrary: i s)
  case (Suc m)
  then show ?case using run_one_mono [OF Suc.prems(1)]
    by (fastforce simp: Let_def andthen_Inr_iff split: if_splits)
qed simp

theorem run_logical_line_mono: "k \<le> k' \<Longrightarrow> le_run (run_logical_line w k) (run_logical_line w k')"
proof (induction k arbitrary: k')
  case (Suc k)
  then obtain m where m: "k' = Suc m" "k \<le> m" by (cases k') auto
  have b: "le_body (\<lambda>n s. exec_block w (run_logical_line w k) k Body 0 n 0 s)
      (\<lambda>n s. exec_block w (run_logical_line w m) m Body 0 n 0 s)"
    unfolding le_body_def using le_exD [OF exec_block_mono [OF Suc.IH [OF m(2)] m(2)]] by blast
  show ?case unfolding le_run_def m(1) run_logical_line.simps
    by (auto elim!: andthen_mono intro: run_pipes_mono [OF b] split: if_splits prod.splits)
qed (simp add: le_run_def)

end
