(* ===== verification/ShRun.thy ===== *)
theory ShRun
  imports ShExec ShQuote
begin

text \<open>
  What a line of quoted words runs: the builtin or the function of that name, or one process, which
  executes one program with those words as its arguments.
\<close>

section \<open>The line as a command\<close>

lemma outsideD:
  assumes "outside sh' = outside sh"
  shows "funcs sh' = funcs sh" "running sh' = running sh" "calls sh' = calls sh" "sh_env sh' = sh_env sh"
    "loop_break sh' = loop_break sh" "loop_continue sh' = loop_continue sh" "last_status sh' = last_status sh" "blocks sh' = blocks sh"
proof -
  have q: "funcs (outside s) = funcs s" "running (outside s) = running s" "calls (outside s) = calls s" "sh_env (outside s) = sh_env s"
    "loop_break (outside s) = loop_break s" "loop_continue (outside s) = loop_continue s" "last_status (outside s) = last_status s"
    "blocks (outside s) = blocks s" for s
    by (simp_all add: outside_def)
  show "funcs sh' = funcs sh" "running sh' = running sh" "calls sh' = calls sh" "sh_env sh' = sh_env sh"
    "loop_break sh' = loop_break sh" "loop_continue sh' = loop_continue sh" "last_status sh' = last_status sh" "blocks sh' = blocks sh"
    using q [of sh] q [of sh'] assms by simp_all
qed

text \<open>A line with words that fit, for a shell that has a table.\<close>

definition quotable :: "cstring list \<Rightarrow> shell \<Rightarrow> bool" where
  "quotable ws sh \<longleftrightarrow> ws \<noteq> [] \<and> length ws \<le> MAX_ARGS \<and> list_all is_cstr ws \<and> length (quoted_line ws) < MAX_LINE \<and>
     0 < length (tables sh Pipes) \<and> running sh"

definition plain_cmd :: "cmd_t \<Rightarrow> cstring list \<Rightarrow> shell \<Rightarrow> bool" where
  "plain_cmd c ws sh \<longleftrightarrow> words c sh = ws \<and> redir_in c = None \<and> redir_out c = None \<and> redir_err c = None"

lemma quoted_line_first: "ws \<noteq> [] \<Longrightarrow> deref (quoted_line ws) = SQUOTE"
  by (cases ws rule: quoted_line.cases) (simp_all add: sh_quote_def)

lemma run_quoted_line:
  assumes "quotable ws sh"
  shows "\<exists>c sh1. plain_cmd c ws sh1 \<and> outside sh1 = outside sh \<and> 0 < length (tables sh1 Pipes) \<and>
    run_logical_line w (Suc k) (quoted_line ws) sh =
      run_one w (\<lambda>n sh. exec_block w (run_logical_line w k) k Body 0 n 0 sh)
        \<lparr>cmds = [c], link = LINK_NONE, background = False\<rparr> sh1"
proof -
  note q = assms [unfolded quotable_def]
  obtain sh1 c where p: "parse_line w Pipes MAX_PIPES (quoted_line ws) sh = Inr (1, sh1)"
    and s: "slot Pipes 0 sh1 = \<lparr>cmds = [c], link = LINK_NONE, background = False\<rparr>"
    and c: "map (str_at sh1) (argv c) = ws" "redir_in c = None" "redir_out c = None" "redir_err c = None"
    and o: "outside sh1 = outside sh" and l: "0 < length (tables sh1 Pipes)"
    using parse_quoted [of ws sh Pipes w MAX_PIPES] q by blast
  have "deref (quoted_line ws) \<noteq> HASH" using quoted_line_first q by simp
  moreover have "andthen r Inr = r" for r :: "stop + shell" by (cases r) simp_all
  moreover have "run_pipes w x 0 i = Inr" for x i by (rule ext) simp
  ultimately have "run_logical_line w (Suc k) (quoted_line ws) sh =
      run_one w (\<lambda>n sh. exec_block w (run_logical_line w k) k Body 0 n 0 sh) \<lparr>cmds = [c], link = LINK_NONE, background = False\<rparr> sh1"
    using q outsideD(2) [OF o] by (simp add: p s Let_def)
  moreover have "plain_cmd c ws sh1" using c by (simp add: plain_cmd_def words_def)
  ultimately show ?thesis using o l by blast
qed

lemma plain_words: "plain_cmd c ws sh \<Longrightarrow> ws \<noteq> [] \<Longrightarrow> words c sh = hd ws # tl ws \<and> argv c \<noteq> []"
  by (auto simp: plain_cmd_def words_def)

lemma words_cong: "arena s = arena s' \<Longrightarrow> words c s = words c s'"
  by (simp add: words_def str_at_def)

lemma func_of_none:
  assumes "plain_cmd c ws sh1" "ws \<noteq> []" "func_find (hd ws) sh1 = None"
  shows "func_of [c] sh1 = None"
  using plain_words [OF assms(1,2)] assms(3) by (simp add: func_of_def)

lemma func_find_outside: "outside sh1 = outside sh \<Longrightarrow> func_find nm sh1 = func_find nm sh"
  by (simp add: func_find_def outsideD(1) [of sh1 sh])

section \<open>A builtin\<close>

lemma put_back_none [simp]: "put_back (-1) t sh = sh"
  by (simp add: put_back_def)

lemma run_builtin_plain:
  assumes "plain_cmd c ws sh"
  shows "run_builtin_redirected w c sh = andthen (run_builtin w c sh) (\<lambda>(h, sh). Inr sh)"
  using assms by (simp add: run_builtin_redirected_def swap_in_def swap_out_def swap_err_def plain_cmd_def)

lemma run_quoted_builtin:
  assumes "quotable ws sh" "func_find (hd ws) sh = None" "is_builtin (hd ws)"
  shows "\<exists>c sh1. plain_cmd c ws sh1 \<and> outside sh1 = outside sh \<and> 0 < length (tables sh1 Pipes) \<and>
    run_logical_line w (Suc k) (quoted_line ws) sh = andthen (run_builtin w c sh1) (\<lambda>(h, sh). Inr sh)"
proof -
  from run_quoted_line [OF assms(1), of w k] obtain c sh1 where c: "plain_cmd c ws sh1" and o: "outside sh1 = outside sh"
    and l: "0 < length (tables sh1 Pipes)" and r: "run_logical_line w (Suc k) (quoted_line ws) sh =
      run_one w (\<lambda>n sh. exec_block w (run_logical_line w k) k Body 0 n 0 sh)
        \<lparr>cmds = [c], link = LINK_NONE, background = False\<rparr> sh1" by blast
  have ws: "ws \<noteq> []" using assms(1) by (simp add: quotable_def)
  have "func_of [c] sh1 = None" using func_of_none [OF c ws] func_find_outside [OF o] assms(2) by simp
  then show ?thesis using c o l r plain_words [OF c ws] assms(3) run_builtin_plain [OF c] by (auto simp: run_one_def)
qed

section \<open>A program\<close>

lemma run_quoted_program:
  assumes "quotable ws sh" "func_find (hd ws) sh = None" "\<not> is_builtin (hd ws)"
  shows "\<exists>c sh1. plain_cmd c ws sh1 \<and> outside sh1 = outside sh \<and> 0 < length (tables sh1 Pipes) \<and>
    run_logical_line w (Suc k) (quoted_line ws) sh = run_pipeline w [c] False sh1"
proof -
  from run_quoted_line [OF assms(1), of w k] obtain c sh1 where c: "plain_cmd c ws sh1" and o: "outside sh1 = outside sh"
    and l: "0 < length (tables sh1 Pipes)" and r: "run_logical_line w (Suc k) (quoted_line ws) sh =
      run_one w (\<lambda>n sh. exec_block w (run_logical_line w k) k Body 0 n 0 sh)
        \<lparr>cmds = [c], link = LINK_NONE, background = False\<rparr> sh1" by blast
  have ws: "ws \<noteq> []" using assms(1) by (simp add: quotable_def)
  have "func_of [c] sh1 = None" using func_of_none [OF c ws] func_find_outside [OF o] assms(2) by simp
  then show ?thesis using c o l r plain_words [OF c ws] assms(3) by (auto simp: run_one_def)
qed

text \<open>What the child does with the words: it looks for the program and executes it, or says why not.\<close>

definition execs :: "world \<Rightarrow> cstring list \<Rightarrow> shell \<Rightarrow> stop + shell" where
  "execs w ws sh =
     (case resolve_path w (hd ws) sh of
        (None, sh) \<Rightarrow> Inl (Exited 127 (say (cs ''sh: %s: command not found'' @ [LF]) [astr (hd ws)] sh))
      | (Some path, sh) \<Rightarrow>
          (let r = r_val (kernel w (calls sh) (Execve path ws)); sh = did (Execve path ws) sh in
           if r < 0
           then Inl (Exited 126 (say (cs ''sh: %s: cannot run it (%ld)'' @ [LF]) [astr path, anum (- r)] sh))
           else Inl (Execed path ws sh)))"

lemma stage_child_plain:
  assumes "plain_cmd c ws sh" "ws \<noteq> []" "func_find (hd ws) sh = None" "\<not> is_builtin (hd ws)"
  shows "stage_child w k c sh = execs w ws sh"
proof -
  have "apply_redirects w c sh = Inr sh" using assms(1) by (simp add: apply_redirects_def plain_cmd_def)
  moreover obtain nm args where "ws = nm # args" using assms(2) by (cases ws) auto
  moreover have "words c sh = ws" using assms(1) by (simp add: plain_cmd_def)
  ultimately show ?thesis using assms(3,4)
    by (simp add: stage_child_def execs_def syscall_def did_def Let_def split: prod.split option.split)
qed

definition CHILD_SIGNALS :: "call list" where
  "CHILD_SIGNALS = [Signal_default SIGINT, Signal_default SIGQUIT, Signal_ignore SIGTSTP, Signal_ignore SIGTTIN, Signal_ignore SIGTTOU]"

lemma stage_fg: "stage_fds (-1) None (stage_signals False sh) = sh\<lparr>calls := calls sh @ CHILD_SIGNALS\<rparr>"
  by (simp add: stage_fds_def stage_signals_def did_def CHILD_SIGNALS_def)

lemma run_pipeline_one:
  assumes "f = r_val (kernel w (calls sh) Fork)"
  shows "run_pipeline w [c] False sh =
    (if f < 0 then Inr (say (cs ''sh: fork failed'' @ [LF]) [] (did Fork sh))
     else if f = 0 then Inl (Child (Run_stage c) ((did Fork sh)\<lparr>calls := calls sh @ Fork # CHILD_SIGNALS\<rparr>))
     else Inr (status (wait_status (r_status (kernel w (calls sh @ [Fork]) (Waitpid f False)))) (did (Waitpid f False) (did Fork sh))))"
  using assms stage_fg [of "did Fork sh"] by (simp add: run_pipeline_def syscall_def Let_def did_def)

text \<open>
  C11: A line of quoted words whose first word names neither a function nor a builtin starts at most one
  process and, whatever bytes the words hold, executes nothing but the program of that name with exactly
  these words as its arguments: the child goes on as \<open>execs\<close> says, with the signals restored and the
  environment of the shell; the parent makes two calls, \<open>fork\<close> and \<open>waitpid\<close>, and takes over the exit
  status; where \<open>fork\<close> fails a message is all that happens.
\<close>

theorem quoted_line_runs_program:
  assumes "quotable ws sh" "func_find (hd ws) sh = None" "\<not> is_builtin (hd ws)"
    and "f = r_val (kernel w (calls sh) Fork)" "r = run_logical_line w (Suc k) (quoted_line ws) sh"
  shows "if f = 0 then \<exists>sh1. follow w j (Suc m) r = execs w ws sh1 \<and> calls sh1 = calls sh @ Fork # CHILD_SIGNALS \<and> sh_env sh1 = sh_env sh
    else \<exists>sh1. r = Inr sh1 \<and> sh_env sh1 = sh_env sh \<and>
      (if f < 0 then calls sh1 = calls sh @ [Fork, Put (stderr_call (cs ''sh: fork failed'' @ [LF]) [])]
       else calls sh1 = calls sh @ [Fork, Waitpid f False] \<and>
         last_status sh1 = wait_status (r_status (kernel w (calls sh @ [Fork]) (Waitpid f False))))"
proof -
  from run_quoted_program [OF assms(1-3), of w k] obtain c sh1 where c: "plain_cmd c ws sh1" and o: "outside sh1 = outside sh"
    and r: "r = run_pipeline w [c] False sh1" using assms(5) by blast
  note od = outsideD [OF o]
  have ws: "ws \<noteq> []" using assms(1) by (simp add: quotable_def)
  let ?s = "(did Fork sh1)\<lparr>calls := calls sh1 @ Fork # CHILD_SIGNALS\<rparr>"
  have "plain_cmd c ws ?s" using c words_cong [of ?s sh1 c] by (simp add: plain_cmd_def did_def)
  moreover have "func_find (hd ws) ?s = None" using func_find_outside [OF o] assms(2) by (simp add: func_find_def did_def)
  ultimately have st: "stage_child w j c ?s = execs w ws ?s" using stage_child_plain ws assms(3) by blast
  have f: "f = r_val (kernel w (calls sh1) Fork)" using assms(4) od(3) by simp
  consider (child) "f = 0" | (failed) "f < 0" | (parent) "0 < f" by linarith
  then show ?thesis
  proof cases
    case child
    have "follow w j (Suc m) r = follow w j m (execs w ws ?s)" using child r st by (simp add: run_pipeline_one [OF f] go_on_def)
    also have "\<dots> = execs w ws ?s" by (simp add: execs_def Let_def split: option.splits prod.splits)
    finally show ?thesis using child od by (auto simp: did_def intro!: exI [of _ ?s])
  next
    case failed
    then show ?thesis using r od by (simp add: run_pipeline_one [OF f] did_def say_def)
  next
    case parent
    then show ?thesis using r od by (simp add: run_pipeline_one [OF f] did_def status_def)
  qed
qed

text \<open>A child of a shell whose kernel says yes to everything.\<close>

definition obliging :: world where
  "obliging = \<lparr>kernel = (\<lambda>past c. (kernel refusing past c)\<lparr>r_val := 1 - of_bool (c = Fork)\<rparr>), alloc = (\<lambda>n. True)\<rparr>"

lemma some_words_quotable: "quotable some_words bare_shell"
  using some_words_ok by (simp add: quotable_def bare_shell_def start_shell_def MAX_PIPES_def)

lemma find_rm:
  assumes "sh_env sh = sh_env bare_shell"
  shows "resolve_path obliging (cs ''rm'') sh = (Some (cs ''/bin/rm''), did (Exists (cs ''/bin/rm'')) sh)"
proof -
  have e: "getenv (sh_env sh) (cs ''PATH'') = None" using assms by (simp add: bare_shell_def start_shell_def getenv_def)
  have "takeWhile (\<lambda>c. c \<noteq> 58) DEFAULT_PATH = cs ''/bin''" "DEFAULT_PATH \<noteq> []" by (simp_all add: DEFAULT_PATH_def cs_def)
  moreover have "SLASH \<notin> set (cs ''rm'')" by (simp add: cs_def)
  moreover have "asks obliging (Exists p) sh = (True, did (Exists p) sh)" for p
    by (simp add: asks_def syscall_def did_def obliging_def)
  ultimately have "path_loop obliging (cs ''rm'') DEFAULT_PATH sh = (Some (cs ''/bin/rm''), did (Exists (cs ''/bin/rm'')) sh)"
    by (subst path_loop.simps) (simp add: cs_def Let_def)
  then show ?thesis using \<open>SLASH \<notin> _\<close> by (simp add: resolve_path_def e)
qed

theorem quoted_line_runs_program_witness:
  "\<exists>sh1. follow obliging 1 1 (run_logical_line obliging 1 (quoted_line some_words) bare_shell) =
     Inl (Execed (cs ''/bin/rm'') some_words sh1)"
proof -
  have hd: "hd some_words = cs ''rm''" by (simp add: some_words_def)
  have p: "func_find (hd some_words) bare_shell = None" "\<not> is_builtin (hd some_words)"
    by (simp_all add: hd func_find_def bare_shell_def start_shell_def is_builtin_def BUILTINS_def cs_def)
  have f: "0 = r_val (kernel obliging (calls bare_shell) Fork)" by (simp add: obliging_def)
  obtain s where s: "follow obliging 1 1 (run_logical_line obliging 1 (quoted_line some_words) bare_shell) = execs obliging some_words s"
    and e: "sh_env s = sh_env bare_shell"
    using quoted_line_runs_program [OF some_words_quotable p f refl, of 1 0 0] unfolding One_nat_def [symmetric] by auto
  show ?thesis unfolding s execs_def hd find_rm [OF e] by (auto simp: obliging_def)
qed

end
