(* ===== verification/ShScript.thy ===== *)
theory ShScript
  imports ShFuel ShRun
begin

text \<open>
  Structured scripts: the meaning of \<open>if\<close> and \<open>while\<close> as a big-step relation on programs, and the
  proof that the shell, which finds its way between the lines by counting keywords, runs them so.
  What an ordinary line does is a parameter of both.
\<close>

section \<open>Programs\<close>

datatype com = Simple cstring | Cond cstring "com list" alt | Loop cstring "com list"
  and alt = NoElse | Else "com list" | Elif cstring "com list" alt

text \<open>A program as the lines that \<open>split_statements\<close> makes of it.\<close>

fun flat :: "com \<Rightarrow> cstring list" and flats :: "com list \<Rightarrow> cstring list" and alts :: "alt \<Rightarrow> cstring list" where
  "flat (Simple l) = [l]"
| "flat (Cond c b a) = (cs ''if '' @ c) # cs ''then'' # flats b @ alts a @ [cs ''fi'']"
| "flat (Loop c b) = (cs ''while '' @ c) # cs ''do'' # flats b @ [cs ''done'']"
| "flats [] = []"
| "flats (x # xs) = flat x @ flats xs"
| "alts NoElse = []"
| "alts (Else b) = cs ''else'' # flats b"
| "alts (Elif c b a) = (cs ''elif '' @ c) # cs ''then'' # flats b @ alts a"

text \<open>No line is a keyword's, a function's, or feeds a block through a pipe; a condition fits its buffer.\<close>

definition reserved :: "cstring list" where
  "reserved = map cs [''if'', ''while'', ''for'', ''then'', ''elif'', ''else'', ''fi'', ''do'', ''done'']"

definition ordinary :: "cstring \<Rightarrow> bool" where
  "ordinary l \<longleftrightarrow> is_func_def l 64 = None \<and> pipe_into_block (clip MAX_LINE l) = None"

fun wf_com :: "com \<Rightarrow> bool" and wf_coms :: "com list \<Rightarrow> bool" and wf_alt :: "alt \<Rightarrow> bool" where
  "wf_com (Simple l) = (ordinary l \<and> first_word l 32 \<notin> set reserved)"
| "wf_com (Cond c b a) = (ordinary (cs ''if '' @ c) \<and> length c + 1 < MAX_LINE \<and> wf_coms b \<and> wf_alt a)"
| "wf_com (Loop c b) = (ordinary (cs ''while '' @ c) \<and> length c + 1 < MAX_LINE \<and> wf_coms b)"
| "wf_coms [] = True"
| "wf_coms (x # xs) = (wf_com x \<and> wf_coms xs)"
| "wf_alt NoElse = True"
| "wf_alt (Else b) = wf_coms b"
| "wf_alt (Elif c b a) = (length c + 1 < MAX_LINE \<and> wf_coms b \<and> wf_alt a)"

section \<open>Meaning\<close>

text \<open>
  \<open>exit\<close> ends every sequence, and a pending \<open>break\<close> or \<open>continue\<close> the rest of it.  A loop is left
  when its condition fails, by \<open>break\<close>, or by a command that a signal killed; it counts its rounds
  for the warning after a million.
\<close>

inductive seq :: "runner \<Rightarrow> com list \<Rightarrow> shell \<Rightarrow> shell \<Rightarrow> bool"
  and step :: "runner \<Rightarrow> com \<Rightarrow> shell \<Rightarrow> shell \<Rightarrow> bool"
  and branch :: "runner \<Rightarrow> alt \<Rightarrow> shell \<Rightarrow> shell \<Rightarrow> bool"
  and rounds :: "runner \<Rightarrow> cstring \<Rightarrow> com list \<Rightarrow> nat \<Rightarrow> shell \<Rightarrow> shell \<Rightarrow> bool"
  for run :: runner where
  seq_Nil: "seq run [] s s"
| seq_exit: "\<not> running s \<Longrightarrow> seq run p s s"
| seq_leave: "running s \<Longrightarrow> step run x s s1 \<Longrightarrow> loop_break s1 \<noteq> 0 \<or> loop_continue s1 \<noteq> 0 \<Longrightarrow> seq run (x # p) s s1"
| seq_next: "running s \<Longrightarrow> step run x s s1 \<Longrightarrow> loop_break s1 = 0 \<Longrightarrow> loop_continue s1 = 0 \<Longrightarrow> seq run p s1 s2 \<Longrightarrow>
    seq run (x # p) s s2"
| Line: "run l s = Inr s1 \<Longrightarrow> step run (Simple l) s s1"
| If: "branch run (Elif c b a) s s1 \<Longrightarrow> step run (Cond c b a) s s1"
| While: "rounds run c b 0 s s1 \<Longrightarrow> step run (Loop c b) s (status 0 s1)"
| NoElse: "branch run NoElse s (status 0 s)"
| Else: "seq run b s s1 \<Longrightarrow> branch run (Else b) s s1"
| Elif_true: "run (SP # c) s = Inr s1 \<Longrightarrow> last_status s1 = 0 \<Longrightarrow> seq run b s1 s2 \<Longrightarrow> branch run (Elif c b a) s s2"
| Elif_false: "run (SP # c) s = Inr s1 \<Longrightarrow> last_status s1 \<noteq> 0 \<Longrightarrow> branch run a s1 s2 \<Longrightarrow> branch run (Elif c b a) s s2"
| over: "\<not> running s \<Longrightarrow> rounds run c b i s s"
| fails: "running s \<Longrightarrow> run (SP # c) s = Inr s1 \<Longrightarrow> last_status s1 \<noteq> 0 \<Longrightarrow> rounds run c b i s s1"
| leaves: "running s \<Longrightarrow> run (SP # c) s = Inr s1 \<Longrightarrow> last_status s1 = 0 \<Longrightarrow> seq run b s1 s2 \<Longrightarrow>
    after_body s2 = (True, s3) \<Longrightarrow> rounds run c b i s s3"
| again: "running s \<Longrightarrow> run (SP # c) s = Inr s1 \<Longrightarrow> last_status s1 = 0 \<Longrightarrow> seq run b s1 s2 \<Longrightarrow>
    after_body s2 = (False, s3) \<Longrightarrow>
    (if loop_break s2 = 0 \<and> loop_continue s2 \<noteq> 0 then (i, s3) else count_round i s3) = (j, s4) \<Longrightarrow>
    rounds run c b (j + 1) s4 s5 \<Longrightarrow> rounds run c b i s s5"

section \<open>Finding keywords\<close>

text \<open>The search from a line on, as a recursion on the lines that follow.\<close>

definition level :: "cstring \<Rightarrow> int" where
  "level l = (if opens_block (first_word l 32) then 1 else 0) - (if closes_block (first_word l 32) then 1 else 0)"

fun search :: "cstring list \<Rightarrow> int \<Rightarrow> cstring list \<Rightarrow> nat option" where
  "search kws d [] = None"
| "search kws d (l # ls) =
     (if d = 0 \<and> first_word l 32 \<in> set kws then Some 0 else map_option Suc (search kws (d + level l) ls))"

lemma find_search: "find_at_depth_from ls i kws d = map_option ((+) i) (search kws d (drop i ls))"
proof (induction ls i kws d rule: find_at_depth_from.induct)
  case (1 ls i kws d)
  show ?case
  proof (cases "i \<ge> length ls")
    case True
    then show ?thesis by (simp add: find_at_depth_from.simps [of ls i])
  next
    case False
    then have "drop i ls = ls ! i # drop (Suc i) ls" by (simp add: drop_eq_Cons_nth)
    then show ?thesis using 1 False
      by (auto simp: find_at_depth_from.simps [of ls i] Let_def level_def option.map_comp comp_def diff_add_eq add_diff_eq)
  qed
qed

lemma first_word_kw: "first_word (cs kw) 32 = cs kw" if "kw \<in> {''if'', ''while'', ''then'', ''elif'', ''else'', ''fi'', ''do'', ''done''}"
  using that by (auto simp: first_word_def skip_blank_def blank_def cs_def)

lemma first_word_arg: "first_word (cs (kw @ '' '') @ c) 32 = cs kw" if "kw \<in> {''if'', ''while'', ''elif''}"
  using that by (auto simp: first_word_def skip_blank_def blank_def cs_def)

lemmas first_words [simp] =
  first_word_kw [of "''then''", simplified] first_word_kw [of "''else''", simplified] first_word_kw [of "''fi''", simplified]
  first_word_kw [of "''do''", simplified] first_word_kw [of "''done''", simplified]
  first_word_arg [of "''if''", simplified] first_word_arg [of "''while''", simplified] first_word_arg [of "''elif''", simplified]

lemma unat_of_char: "unat (of_char c :: u8) = (of_char c :: nat)"
proof -
  have "(of_char c :: nat) < 256" by simp
  then have "unat (of_nat (of_char c) :: u8) = (of_char c :: nat)" by (rule unat_of_nat_u8)
  then show ?thesis by (simp only: of_nat_of_char)
qed

lemma cs_eq [simp]: "cs a = cs b \<longleftrightarrow> a = b"
proof -
  have "x = y" if "(of_char x :: u8) = of_char y" for x y
  proof -
    have "(of_char x :: nat) = of_char y" using that by (metis unat_of_char)
    then show ?thesis by simp
  qed
  then have "inj (of_char :: char \<Rightarrow> u8)" by (intro injI)
  then show ?thesis by (simp add: cs_def inj_map_eq_map)
qed

lemma reserved_levels [simp]:
  "level (cs ''then'') = 0" "level (cs ''else'') = 0" "level (cs ''do'') = 0" "level (cs ''fi'') = -1" "level (cs ''done'') = -1"
  "level (cs ''if '' @ c) = 1" "level (cs ''while '' @ c) = 1" "level (cs ''elif '' @ c) = 0"
  by (simp_all add: level_def opens_block_def closes_block_def)

text \<open>The keywords that are searched for.\<close>

definition sought :: "cstring list \<Rightarrow> bool" where
  "sought kws \<longleftrightarrow> set kws \<subseteq> set (map cs [''then'', ''elif'', ''else'', ''fi'', ''do'', ''done''])"

lemma sought_not: "sought kws \<Longrightarrow> cs ''if'' \<notin> set kws \<and> cs ''while'' \<notin> set kws"
  by (auto simp: sought_def)

lemma search_simple:
  assumes "first_word l 32 \<notin> set reserved" "sought kws"
  shows "search kws d (l # ls) = map_option Suc (search kws d ls)"
  using assms by (auto simp: level_def opens_block_def closes_block_def reserved_def sought_def)

lemma map_plus_0: "map_option ((+) (0 :: nat)) r = r"
  by (cases r) auto

lemma search_skip:
  shows "wf_com x \<Longrightarrow> sought kws \<Longrightarrow> 0 \<le> d \<Longrightarrow>
      search kws d (flat x @ post) = map_option ((+) (length (flat x))) (search kws d post)"
    and "wf_coms p \<Longrightarrow> sought kws \<Longrightarrow> 0 \<le> d \<Longrightarrow>
      search kws d (flats p @ post) = map_option ((+) (length (flats p))) (search kws d post)"
    and "wf_alt a \<Longrightarrow> sought kws \<Longrightarrow> 0 < d \<or> d = 0 \<and> kws = [cs ''fi''] \<Longrightarrow>
      search kws d (alts a @ post) = map_option ((+) (length (alts a))) (search kws d post)"
proof (induction x and p and a arbitrary: d post and d post and d post rule: flat_flats_alts.induct)
  case (1 l)
  then show ?case by (simp add: search_simple del: search.simps)
next
  case (2 c b a)
  then show ?case using sought_not [OF 2(4)]
    by (auto simp: option.map_comp comp_def algebra_simps)
next
  case (3 c b)
  then show ?case using sought_not [OF 3(3)]
    by (auto simp: option.map_comp comp_def algebra_simps)
next
  case (5 x xs)
  then show ?case by (simp add: option.map_comp comp_def add.assoc)
next
  case (7 b)
  then show ?case by (auto simp: option.map_comp comp_def)
next
  case (8 c b a)
  then show ?case by (auto simp: option.map_comp comp_def algebra_simps)
qed (simp_all add: map_plus_0)

section \<open>The lines of a program in a block\<close>

text \<open>A block whose lines are \<open>ls\<close>, and the parts of it.\<close>

definition block_is :: "place \<Rightarrow> nat \<Rightarrow> cstring list \<Rightarrow> shell \<Rightarrow> bool" where
  "block_is pl off ls sh \<longleftrightarrow> block_lines pl off (length ls) sh = ls"

lemma block_is_lines: "block_is pl off ls sh \<Longrightarrow> block_lines pl off (length ls) sh = ls"
  by (simp add: block_is_def)

lemma block_is_long:
  assumes "block_is pl off ls sh" "ls \<noteq> []" shows "off + length ls \<le> length (blocks sh pl)"
proof -
  have "length (block_lines pl off (length ls) sh) = length ls" using assms(1) by (simp add: block_is_def)
  moreover have "0 < length ls" using assms(2) by simp
  ultimately show ?thesis by (simp add: block_lines_def del: length_greater_0_conv)
qed

lemma block_is_line:
  assumes "block_is pl off (pre @ l # post) sh" shows "line_at pl (off + length pre) sh = l"
proof -
  have "block_lines pl off (length (pre @ l # post)) sh ! length pre = l"
    using assms by (simp add: block_is_def)
  then show ?thesis using block_is_long [OF assms] by (simp add: block_lines_def line_at_def)
qed

lemma block_is_part:
  assumes "block_is pl off (pre @ ls @ post) sh" shows "block_is pl (off + length pre) ls sh"
proof -
  have "take (length ls) (drop (length pre) (block_lines pl off (length (pre @ ls @ post)) sh)) = ls"
    using assms by (simp add: block_is_def)
  then show ?thesis by (simp add: block_is_def block_lines_def drop_take add.commute [of "length pre"])
qed

lemma block_is_cong: "blocks sh' pl = blocks sh pl \<Longrightarrow> block_is pl off ls sh' = block_is pl off ls sh"
  by (simp add: block_is_def block_lines_def)

lemma find_kw_search:
  assumes "block_is pl off (pre @ ls) sh"
  shows "find_kw pl off (length (pre @ ls)) (length pre) kws sh = map_option ((+) (length pre)) (search (map cs kws) 0 ls)"
  using block_is_lines [OF assms] by (simp add: find_kw_def find_at_depth_def find_search)

section \<open>Statements that only run\<close>

lemma feed_ordinary: "ordinary (line_at pl i sh) \<Longrightarrow> feed w pl i sh = Inr (-1, -1, sh)"
  by (simp add: feed_def ordinary_def)

lemma restore_nothing [simp]: "restore_fds (-1) s (-1) (-1) sh = sh"
  by (simp add: restore_fds_def put_back_def wait_for_def)

lemma condition_kw:
  assumes "kw \<in> {''if'', ''while'', ''elif''}" "length c + 1 < MAX_LINE"
  shows "condition_of (cs (kw @ '' '') @ c) = SP # c"
proof -
  have "after_keyword (cs (kw @ '' '') @ c) (cs kw) = SP # c"
    using assms(1) by (auto simp: after_keyword_def strstr_def cs_def)
  then show ?thesis
    using assms first_word_arg [OF assms(1), of c] by (simp add: condition_of_def clip_def)
qed

lemmas conditions = condition_kw [of "''if''", simplified] condition_kw [of "''while''", simplified] condition_kw [of "''elif''", simplified]

lemma run_condition_one:
  assumes "condition_of (line_at pl i sh) = SP # c"
  shows "run_condition run pl i (i + 1) sh = run (SP # c) sh"
  using assms by (cases "run (SP # c) sh") (simp_all add: run_condition_def)

section \<open>One statement in its place\<close>

text \<open>\<open>choice l b a\<close> are the lines of a branch from its keyword on, without the \<open>fi\<close>.\<close>

abbreviation choice :: "cstring \<Rightarrow> com list \<Rightarrow> alt \<Rightarrow> cstring list" where
  "choice l b a \<equiv> l # cs ''then'' # flats b @ alts a"

lemma flat_first: "wf_com x \<Longrightarrow> \<exists>l t. flat x = l # t \<and> ordinary l"
  by (cases x) auto

lemma sought_simps [simp]:
  "sought [cs ''fi'']" "sought [cs ''then'']" "sought [cs ''do'']" "sought [cs ''done'']" "sought [cs ''elif'', cs ''else'', cs ''fi'']"
  by (auto simp: sought_def)

lemma find_fi:
  assumes "block_is pl off (pre @ choice l b a @ [cs ''fi''] @ post) sh" "wf_coms b" "wf_alt a"
  shows "find_kw pl off (length (pre @ choice l b a @ [cs ''fi''] @ post)) (length pre + 1) [''fi''] sh =
    Some (length pre + length (choice l b a))"
proof -
  have e: "pre @ choice l b a @ [cs ''fi''] @ post = (pre @ [l]) @ cs ''then'' # flats b @ alts a @ [cs ''fi''] @ post" by simp
  show ?thesis
    using find_kw_search [OF assms(1) [unfolded e], of "[''fi'']"] assms(2,3)
    by (simp add: search_skip)
qed

lemma find_then:
  assumes "block_is pl off (pre @ l # cs ''then'' # post) sh"
  shows "find_kw pl off (length (pre @ l # cs ''then'' # post)) (length pre + 1) [''then''] sh = Some (length pre + 1)"
  using find_kw_search [of pl off "pre @ [l]" "cs ''then'' # post" sh "[''then'']"] assms by simp

lemma find_alt:
  assumes "block_is pl off (pre @ choice l b a @ [cs ''fi''] @ post) sh" "wf_coms b"
  shows "find_kw pl off (length (pre @ choice l b a @ [cs ''fi''] @ post)) (length pre + 1 + 1) [''elif'', ''else'', ''fi''] sh =
    Some (length pre + 2 + length (flats b))"
proof -
  have e: "pre @ choice l b a @ [cs ''fi''] @ post = (pre @ [l, cs ''then'']) @ flats b @ alts a @ [cs ''fi''] @ post" by simp
  have "search (map cs [''elif'', ''else'', ''fi'']) 0 (alts a @ [cs ''fi''] @ post) = Some 0"
    by (cases a) simp_all
  then show ?thesis
    using find_kw_search [OF assms(1) [unfolded e], of "[''elif'', ''else'', ''fi'']"] assms(2)
    by (simp add: search_skip)
qed

lemma find_do:
  assumes "block_is pl off (pre @ l # cs ''do'' # post) sh"
  shows "find_kw pl off (length (pre @ l # cs ''do'' # post)) (length pre + 1) [''do''] sh = Some (length pre + 1)"
  using find_kw_search [of pl off "pre @ [l]" "cs ''do'' # post" sh "[''do'']"] assms by simp

lemma find_done:
  assumes "block_is pl off (pre @ (l # cs ''do'' # flats b) @ [cs ''done''] @ post) sh" "wf_coms b"
  shows "find_kw pl off (length (pre @ (l # cs ''do'' # flats b) @ [cs ''done''] @ post)) (length pre + 1) [''done''] sh =
    Some (length pre + 2 + length (flats b))"
proof -
  have e: "pre @ (l # cs ''do'' # flats b) @ [cs ''done''] @ post = (pre @ [l]) @ cs ''do'' # flats b @ [cs ''done''] @ post" by simp
  show ?thesis
    using find_kw_search [OF assms(1) [unfolded e], of "[''done'']"] assms(2)
    by (simp add: search_skip)
qed

lemma drain_nothing:
  assumes "wf_com x" "block_is pl off (pre @ flat x @ post) sh" "n = length (pre @ flat x @ post)"
    "wd = first_word (line_at pl (off + length pre) sh) 32"
  shows "drain w pl off n (length pre) wd sh = Inr (-1, -1, sh)"
proof (cases x)
  case (Simple l)
  then have "wd = first_word l 32" using assms block_is_line [of pl off pre l post sh] by simp
  then show ?thesis using assms(1) Simple by (auto simp: drain_def opens_block_def reserved_def)
next
  case (Cond c b a)
  let ?l = "cs ''if '' @ c"
  have bl: "block_is pl off (pre @ choice ?l b a @ [cs ''fi''] @ post) sh" using assms(2) Cond by simp
  have wd: "wd = cs ''if''" using block_is_line [of pl off pre ?l] assms(4) bl by simp
  have "line_at pl (off + length (pre @ choice ?l b a)) sh = cs ''fi''" using block_is_line [of pl off "pre @ choice ?l b a" "cs ''fi''" post sh] bl by simp
  then have "line_at pl (off + (length pre + length (choice ?l b a))) sh = cs ''fi''" by (simp add: add.assoc)
  moreover have "find_kw pl off n (length pre + 1) [''fi''] sh = Some (length pre + length (choice ?l b a))"
    using find_fi [OF bl] assms(1,3) Cond by simp
  ultimately show ?thesis
    by (simp add: drain_def wd opens_block_def skip_blank_def cs_def)
next
  case (Loop c b)
  let ?l = "cs ''while '' @ c"
  have bl: "block_is pl off (pre @ (?l # cs ''do'' # flats b) @ [cs ''done''] @ post) sh" using assms(2) Loop by simp
  have wd: "wd = cs ''while''" using block_is_line [of pl off pre ?l] assms(4) bl by simp
  have "line_at pl (off + length (pre @ ?l # cs ''do'' # flats b)) sh = cs ''done''"
    using block_is_line [of pl off "pre @ ?l # cs ''do'' # flats b" "cs ''done''" post sh] bl by simp
  then have "line_at pl (off + (length pre + 2 + length (flats b))) sh = cs ''done''" by (simp add: add.assoc)
  moreover have "find_kw pl off n (length pre + 1) [''done''] sh = Some (length pre + 2 + length (flats b))"
    using find_done [OF bl] assms(1,3) Loop by simp
  ultimately show ?thesis
    by (simp add: drain_def wd opens_block_def skip_blank_def cs_def)
qed

text \<open>The statement a line starts, and the line after it.\<close>

lemma exec_stmt_simple:
  assumes "wf_com (Simple l)" "block_is pl off (pre @ [l] @ post) sh"
  shows "exec_stmt w run ex k pl off n (length pre) (first_word (line_at pl (off + length pre) sh) 32) sh =
    andthen (run l sh) (\<lambda>sh. Inr (length pre + 1, sh))"
proof -
  have l: "line_at pl (off + length pre) sh = l" using block_is_line [of pl off pre l post sh] assms(2) by simp
  then show ?thesis using assms(1) by (simp add: exec_stmt_def ordinary_def reserved_def)
qed

lemma exec_stmt_cond:
  assumes "wf_com (Cond c b a)" "block_is pl off (pre @ flat (Cond c b a) @ post) sh"
    "n = length (pre @ flat (Cond c b a) @ post)"
  shows "exec_stmt w run ex k pl off n (length pre) (first_word (line_at pl (off + length pre) sh) 32) sh =
    exec_if run ex k pl off n (length pre + length (choice (cs ''if '' @ c) b a)) (length pre) sh"
proof -
  let ?l = "cs ''if '' @ c"
  have bl: "block_is pl off (pre @ choice ?l b a @ [cs ''fi''] @ post) sh" using assms(2) by simp
  have l: "line_at pl (off + length pre) sh = ?l" using block_is_line [of pl off pre ?l] bl by simp
  have "find_kw pl off n (length pre + 1) [''fi''] sh = Some (length pre + length (choice ?l b a))"
    using find_fi [OF bl] assms(1,3) by simp
  then show ?thesis using assms(1) l by (simp add: exec_stmt_def ordinary_def)
qed

lemma exec_stmt_loop:
  assumes "wf_com (Loop c b)" "block_is pl off (pre @ flat (Loop c b) @ post) sh" "n = length (pre @ flat (Loop c b) @ post)"
  shows "exec_stmt w run ex k pl off n (length pre) (first_word (line_at pl (off + length pre) sh) 32) sh =
    exec_while run ex k pl off (length pre) (length pre + 1) (length pre + 2 + length (flats b)) 0 sh"
proof -
  let ?l = "cs ''while '' @ c"
  have bl: "block_is pl off (pre @ (?l # cs ''do'' # flats b) @ [cs ''done''] @ post) sh" using assms(2) by simp
  have bl2: "block_is pl off (pre @ ?l # cs ''do'' # flats b @ [cs ''done''] @ post) sh" using bl by simp
  have l: "line_at pl (off + length pre) sh = ?l" using block_is_line [of pl off pre ?l] bl by simp
  have "find_kw pl off n (length pre + 1) [''done''] sh = Some (length pre + 2 + length (flats b))"
    "find_kw pl off n (length pre + 1) [''do''] sh = Some (length pre + 1)"
    using find_done [OF bl] find_do [OF bl2] assms(1,3) by simp_all
  then show ?thesis using assms(1) l by (simp add: exec_stmt_def ordinary_def loop_lines_def)
qed

section \<open>Branches and loops\<close>

lemma block_run: "keeps_block run pl \<Longrightarrow> run l s = Inr s' \<Longrightarrow> block_is pl off ls s \<Longrightarrow> block_is pl off ls s'"
  unfolding keeps_block_def using block_is_cong by blast

text \<open>What \<open>exec_if\<close> does from a branch on, after its condition.\<close>

fun go_branch :: "runner \<Rightarrow> block_runner \<Rightarrow> nat \<Rightarrow> place \<Rightarrow> nat \<Rightarrow> nat \<Rightarrow> nat \<Rightarrow> nat \<Rightarrow> alt \<Rightarrow> shell \<Rightarrow> stop + (nat \<times> shell)" where
  "go_branch run ex m pl off n e j NoElse s = Inr (e + 1, status 0 s)"
| "go_branch run ex m pl off n e j (Else b) s = andthen (ex pl (off + j + 1) (length (flats b)) 0 s) (\<lambda>s. Inr (e + 1, s))"
| "go_branch run ex m pl off n e j (Elif c b a) s = exec_if run ex m pl off n e j s"

lemma exec_if_step:
  assumes "block_is pl off (pre @ choice l b a @ [cs ''fi''] @ post) s" "keeps_block run pl" "wf_coms b" "wf_alt a"
    and "condition_of l = SP # c" "n = length (pre @ choice l b a @ [cs ''fi''] @ post)" "e = length pre + length (choice l b a)"
  shows "exec_if run ex (Suc m) pl off n e (length pre) s =
    andthen (run (SP # c) s) (\<lambda>s.
      if last_status s = 0 then andthen (ex pl (off + length pre + 2) (length (flats b)) 0 s) (\<lambda>s. Inr (e + 1, s))
      else go_branch run ex m pl off n e (length pre + 2 + length (flats b)) a s)"
proof -
  let ?j = "length pre + 2 + length (flats b)"
  have l: "line_at pl (off + length pre) s = l" using block_is_line [of pl off pre l] assms(1) by simp
  have t: "find_kw pl off n (length pre + 1) [''then''] s = Some (length pre + 1)"
    using find_then [of pl off pre l "flats b @ alts a @ [cs ''fi''] @ post" s] assms(1,6) by simp
  have rc: "run_condition run pl (off + length pre) (off + (length pre + 1)) s = run (SP # c) s"
    using run_condition_one [of pl "off + length pre" s c run] l assms(5) by (simp add: add.assoc)
  show ?thesis
  proof (cases "run (SP # c) s")
    case (Inl x)
    then show ?thesis using t rc assms(7) by (simp del: One_nat_def)
  next
    case (Inr s1)
    have b1: "block_is pl off (pre @ choice l b a @ [cs ''fi''] @ post) s1" using block_run [OF assms(2) Inr assms(1)] .
    have fa: "find_kw pl off n (length pre + 1 + 1) [''elif'', ''else'', ''fi''] s1 = Some ?j"
      using find_alt [OF b1 assms(3)] assms(6) by simp
    have at: "line_at pl (off + length (pre @ l # cs ''then'' # flats b)) s1 = hd (alts a @ [cs ''fi''])"
      using block_is_line [of pl off "pre @ l # cs ''then'' # flats b" "hd (alts a @ [cs ''fi''])" "tl (alts a @ [cs ''fi'']) @ post" s1] b1
      by (cases a) simp_all
    then have aj: "line_at pl (off + ?j) s1 = hd (alts a @ [cs ''fi''])" by (simp add: add.assoc)
    have le: "(length pre + 1 > e) = False" using assms(7) by simp
    have u: "exec_if run ex (Suc m) pl off n e (length pre) s =
        (if last_status s1 = 0
         then andthen (ex pl (off + (length pre + 1) + 1) (?j - (length pre + 1) - 1) 0 s1) (\<lambda>s. Inr (e + 1, s))
         else if first_word (hd (alts a @ [cs ''fi''])) 32 = cs ''elif'' then exec_if run ex m pl off n e ?j s1
         else if first_word (hd (alts a @ [cs ''fi''])) 32 = cs ''else''
         then andthen (ex pl (off + ?j + 1) (e - ?j - 1) 0 s1) (\<lambda>s. Inr (e + 1, s))
         else Inr (e + 1, status 0 s1))"
      by (simp only: exec_if.simps t rc Inr fa aj option.case andthen_simps Let_def if_False le)
    have o: "off + (length pre + 1) + 1 = off + length pre + 2" "?j - (length pre + 1) - 1 = length (flats b)" by simp_all
    have r: "andthen (run (SP # c) s) f = f s1" for f :: "shell \<Rightarrow> stop + (nat \<times> shell)" using Inr by simp
    have el: "a = Else b2 \<Longrightarrow> e - ?j - 1 = length (flats b2)" for b2 using assms(7) by simp
    show ?thesis unfolding u o r using el by (cases a) simp_all
  qed
qed

lemma exec_while_step:
  assumes "block_is pl off (pre @ (l # cs ''do'' # flats b) @ [cs ''done''] @ post) s" "condition_of l = SP # c"
    and "e = length pre + 2 + length (flats b)"
  shows "exec_while run ex (Suc m) pl off (length pre) (length pre + 1) e i s =
    (if \<not> running s then Inr (e + 1, status 0 s)
     else
       andthen (run (SP # c) s) (\<lambda>s1.
         if last_status s1 \<noteq> 0 then Inr (e + 1, status 0 s1)
         else
           andthen (ex pl (off + length pre + 2) (length (flats b)) 0 s1) (\<lambda>s2.
             let (leave, s3) = after_body s2;
                 (j, s4) = (if leave \<or> loop_break s2 = 0 \<and> loop_continue s2 \<noteq> 0 then (i, s3) else count_round i s3)
             in if leave then Inr (e + 1, status 0 s4)
                else exec_while run ex m pl off (length pre) (length pre + 1) e (j + 1) s4)))"
proof -
  have l: "line_at pl (off + length pre) s = l" using block_is_line [of pl off pre l] assms(1) by simp
  have rc: "run_condition run pl (off + length pre) (off + (length pre + 1)) s = run (SP # c) s"
    using run_condition_one [of pl "off + length pre" s c run] l assms(2) by (simp add: add.assoc)
  have o: "off + (length pre + 1) + 1 = off + length pre + 2" "e - (length pre + 1) - 1 = length (flats b)"
    using assms(3) by simp_all
  show ?thesis by (simp only: exec_while.simps rc o Let_def split_beta)
qed

section \<open>Soundness\<close>

text \<open>A block runner that does what the meaning of a program says, on every program in its place.\<close>

definition sound_runner :: "runner \<Rightarrow> place \<Rightarrow> block_runner \<Rightarrow> bool" where
  "sound_runner run pl ex \<longleftrightarrow> (\<forall>off p s s'. wf_coms p \<longrightarrow> block_is pl off (flats p) s \<longrightarrow>
     ex pl off (length (flats p)) 0 s = Inr s' \<longrightarrow> seq run p s s' \<and> blocks s' pl = blocks s pl)"

lemma sound_runnerD:
  "sound_runner run pl ex \<Longrightarrow> wf_coms p \<Longrightarrow> block_is pl off (flats p) s \<Longrightarrow> ex pl off (length (flats p)) 0 s = Inr s' \<Longrightarrow>
     seq run p s s' \<and> blocks s' pl = blocks s pl"
  by (simp add: sound_runner_def)

lemma exec_if_sound:
  assumes "sound_runner run pl ex" "keeps_block run pl"
  shows "exec_if run ex m pl off n e (length pre) s = Inr (j, s') \<Longrightarrow>
    block_is pl off (pre @ choice l b a @ [cs ''fi''] @ post) s \<Longrightarrow> wf_coms b \<Longrightarrow> wf_alt a \<Longrightarrow> condition_of l = SP # c \<Longrightarrow>
    n = length (pre @ choice l b a @ [cs ''fi''] @ post) \<Longrightarrow> e = length pre + length (choice l b a) \<Longrightarrow>
    j = e + 1 \<and> branch run (Elif c b a) s s' \<and> blocks s' pl = blocks s pl"
proof (induction m arbitrary: pre s l b a c)
  case (Suc m)
  note step = exec_if_step [OF Suc.prems(2) assms(2) Suc.prems(3-7)]
  obtain s1 where r: "run (SP # c) s = Inr s1" using Suc.prems(1) unfolding step by (auto simp: andthen_Inr_iff)
  have k1: "blocks s1 pl = blocks s pl" using assms(2) r by (simp add: keeps_block_def)
  have b1: "block_is pl off (pre @ choice l b a @ [cs ''fi''] @ post) s1" using block_run [OF assms(2) r Suc.prems(2)] .
  show ?case
  proof (cases "last_status s1 = 0")
    case True
    then have ex: "ex pl (off + length pre + 2) (length (flats b)) 0 s1 = Inr s'" and j: "j = e + 1"
      using Suc.prems(1) r unfolding step by (auto simp: andthen_Inr_iff)
    have "block_is pl (off + length (pre @ [l, cs ''then''])) (flats b) s1"
      by (rule block_is_part [of pl off _ _ "alts a @ [cs ''fi''] @ post"]) (use b1 in simp)
    then have "block_is pl (off + length pre + 2) (flats b) s1" by (simp add: add.assoc)
    from sound_runnerD [OF assms(1) Suc.prems(3) this ex] show ?thesis
      using r True j k1 by (auto intro: Elif_true)
  next
    case False
    then have g: "go_branch run ex m pl off n e (length pre + 2 + length (flats b)) a s1 = Inr (j, s')"
      using Suc.prems(1) r unfolding step by simp
    have "j = e + 1 \<and> branch run a s1 s' \<and> blocks s' pl = blocks s1 pl"
    proof (cases a)
      case NoElse
      then show ?thesis using g by (auto intro: seq_step_branch_rounds.NoElse)
    next
      case (Else b2)
      then have ex: "ex pl (off + (length pre + 2 + length (flats b)) + 1) (length (flats b2)) 0 s1 = Inr s'" and j: "j = e + 1"
        using g by (auto simp: andthen_Inr_iff)
      have "block_is pl (off + length (pre @ [l, cs ''then''] @ flats b @ [cs ''else''])) (flats b2) s1"
        by (rule block_is_part [of pl off _ _ "[cs ''fi''] @ post"]) (use b1 Else in simp)
      then have "block_is pl (off + (length pre + 2 + length (flats b)) + 1) (flats b2) s1" by (simp add: add.assoc)
      from sound_runnerD [OF assms(1) _ this ex] Suc.prems(4) Else j show ?thesis
        by (auto intro: seq_step_branch_rounds.Else)
    next
      case (Elif c2 b2 a2)
      let ?pre = "pre @ [l, cs ''then''] @ flats b"
      let ?l = "cs ''elif '' @ c2"
      have len: "length ?pre = length pre + 2 + length (flats b)" by simp
      have "exec_if run ex m pl off n e (length ?pre) s1 = Inr (j, s')" using g Elif unfolding len by simp
      moreover have "block_is pl off (?pre @ choice ?l b2 a2 @ [cs ''fi''] @ post) s1" using b1 Elif by simp
      moreover have "condition_of ?l = SP # c2" using Suc.prems(4) Elif conditions(3) by simp
      ultimately show ?thesis
        using Suc.IH [of ?pre s1 ?l b2 a2 c2] Suc.prems(4,6,7) Elif by auto
    qed
    then show ?thesis using r False k1 by (auto intro: Elif_false)
  qed
qed simp

lemma exec_while_sound:
  assumes "sound_runner run pl ex" "keeps_block run pl" "wf_coms b" "condition_of l = SP # c"
    and "e = length pre + 2 + length (flats b)"
  shows "exec_while run ex m pl off (length pre) (length pre + 1) e i s = Inr (j, s') \<Longrightarrow>
    block_is pl off (pre @ (l # cs ''do'' # flats b) @ [cs ''done''] @ post) s \<Longrightarrow>
    j = e + 1 \<and> (\<exists>s1. rounds run c b i s s1 \<and> s' = status 0 s1) \<and> blocks s' pl = blocks s pl"
proof (induction m arbitrary: i s)
  case (Suc m)
  note step = exec_while_step [OF Suc.prems(2) assms(4,5)]
  show ?case
  proof (cases "running s")
    case False
    then show ?thesis using Suc.prems(1) unfolding step by (auto intro: over)
  next
    case run: True
    then obtain s1 where r: "run (SP # c) s = Inr s1" using Suc.prems(1) unfolding step by (auto simp: andthen_Inr_iff)
    have k1: "blocks s1 pl = blocks s pl" using assms(2) r by (simp add: keeps_block_def)
    have b1: "block_is pl off (pre @ (l # cs ''do'' # flats b) @ [cs ''done''] @ post) s1" using block_run [OF assms(2) r Suc.prems(2)] .
    show ?thesis
    proof (cases "last_status s1 = 0")
      case False
      then show ?thesis using Suc.prems(1) run r k1 unfolding step by (auto intro: fails)
    next
      case True
      then obtain s2 where ex: "ex pl (off + length pre + 2) (length (flats b)) 0 s1 = Inr s2"
        using Suc.prems(1) run r unfolding step by (auto simp: andthen_Inr_iff)
      have "block_is pl (off + length (pre @ [l, cs ''do''])) (flats b) s1"
        by (rule block_is_part [of pl off _ _ "[cs ''done''] @ post"]) (use b1 in simp)
      then have "block_is pl (off + length pre + 2) (flats b) s1" by (simp add: add.assoc)
      note body = sound_runnerD [OF assms(1,3) this ex]
      obtain leave s3 where ab: "after_body s2 = (leave, s3)" by fastforce
      obtain i' s4 where cr: "(if leave \<or> loop_break s2 = 0 \<and> loop_continue s2 \<noteq> 0 then (i, s3) else count_round i s3) = (i', s4)" by fastforce
      have k4: "blocks s4 pl = blocks s pl"
        using body k1 after_body_blocks [OF ab] count_round_blocks cr by (auto split: if_splits)
      show ?thesis
      proof (cases leave)
        case l: True
        then have "j = e + 1" "s' = status 0 s3" "blocks s3 pl = blocks s pl"
          using Suc.prems(1) run r True ex ab cr k4 unfolding step by auto
        moreover have "rounds run c b i s s3"
          using leaves [where run = run and s = s and c = c and ?s1.0 = s1, OF run r True] body ab l by auto
        ultimately show ?thesis by auto
      next
        case l: False
        have go: "exec_while run ex m pl off (length pre) (length pre + 1) e (i' + 1) s4 = Inr (j, s')"
          using Suc.prems(1) run r True ex ab cr l unfolding step by auto
        have "block_is pl off (pre @ (l # cs ''do'' # flats b) @ [cs ''done''] @ post) s4"
          using Suc.prems(2) block_is_cong [OF k4] by blast
        from Suc.IH [OF go this] obtain s5 where
          "j = e + 1" "rounds run c b (i' + 1) s4 s5" "s' = status 0 s5" "blocks s' pl = blocks s4 pl" by blast
        moreover have "rounds run c b i s s5"
        proof (rule again [where run = run and s = s and c = c and ?s1.0 = s1, OF run r True])
          show "seq run b s1 s2" using body by blast
          show "after_body s2 = (False, s3)" using ab l by simp
          show "(if loop_break s2 = 0 \<and> loop_continue s2 \<noteq> 0 then (i, s3) else count_round i s3) = (i', s4)" using cr l by simp
        qed (rule calculation(2))
        ultimately show ?thesis using k4 by auto
      qed
    qed
  qed
qed simp

lemma flats_append: "flats (p @ q) = flats p @ flats q"
  by (induction p) auto

lemma wf_coms_append: "wf_coms (p @ q) \<longleftrightarrow> wf_coms p \<and> wf_coms q"
  by (induction p) auto

text \<open>What a block does at the first line of a statement of the program.\<close>

lemma exec_block_step:
  assumes "wf_com x" "block_is pl off (flats p @ flat x @ flats q) s" "n = length (flats p @ flat x @ flats q)" "running s"
  shows "exec_block w run (Suc k) pl off n (length (flats p)) s =
    andthen (exec_stmt w run (exec_block w run k) k pl off n (length (flats p))
        (first_word (line_at pl (off + length (flats p)) s) 32) s) (\<lambda>(i, s).
      if loop_break s \<noteq> 0 \<or> loop_continue s \<noteq> 0 then Inr s else exec_block w run k pl off n i s)"
proof -
  obtain l t where f: "flat x = l # t" "ordinary l" using flat_first [OF assms(1)] by blast
  then have "line_at pl (off + length (flats p)) s = l"
    using block_is_line [of pl off "flats p" l "t @ flats q" s] assms(2) by simp
  with f have fe: "feed w pl (off + length (flats p)) s = Inr (-1, -1, s)" by (simp add: feed_ordinary)
  have dr: "drain w pl off n (length (flats p)) (first_word (line_at pl (off + length (flats p)) s) 32) s = Inr (-1, -1, s)"
    by (rule drain_nothing [OF assms(1-3) refl])
  have "length (flats p) < n" using assms(3) f by simp
  then show ?thesis using assms(4) by (simp add: fe dr Let_def cong: if_cong)
qed

lemma exec_stmt_sound:
  assumes "exec_stmt w run ex k pl off n (length (flats p)) (first_word (line_at pl (off + length (flats p)) s) 32) s = Inr (i, s')"
    and "wf_com x" "block_is pl off (flats p @ flat x @ flats q) s" "n = length (flats p @ flat x @ flats q)"
    and "sound_runner run pl ex" "keeps_block run pl"
  shows "i = length (flats p @ flat x) \<and> step run x s s' \<and> blocks s' pl = blocks s pl"
proof (cases x)
  case (Simple l)
  then have "andthen (run l s) (\<lambda>s. Inr (length (flats p) + 1, s)) = Inr (i, s')"
    using exec_stmt_simple [of l pl off "flats p" "flats q" s w run ex k n] assms(1-3) by simp
  then show ?thesis using Simple assms(6) by (auto simp: andthen_Inr_iff keeps_block_def intro: Line)
next
  case (Cond c b a)
  let ?l = "cs ''if '' @ c"
  have ex: "exec_if run ex k pl off n (length (flats p) + length (choice ?l b a)) (length (flats p)) s = Inr (i, s')"
    using exec_stmt_cond [of c b a pl off "flats p" "flats q" s n w run ex k] assms(1-4) Cond by simp
  have "i = (length (flats p) + length (choice ?l b a)) + 1 \<and> branch run (Elif c b a) s s' \<and> blocks s' pl = blocks s pl"
    by (rule exec_if_sound [OF assms(5,6) ex, of ?l b a "flats q"]) (use assms(2-4) Cond conditions(1) in auto)
  then show ?thesis using Cond by (auto intro: seq_step_branch_rounds.If)
next
  case (Loop c b)
  let ?l = "cs ''while '' @ c"
  let ?e = "length (flats p) + 2 + length (flats b)"
  have wb: "wf_coms b" and co: "condition_of ?l = SP # c" using assms(2) Loop conditions(2) by auto
  have ex: "exec_while run ex k pl off (length (flats p)) (length (flats p) + 1) ?e 0 s = Inr (i, s')"
    using exec_stmt_loop [of c b pl off "flats p" "flats q" s n w run ex k] assms(1-4) Loop by simp
  have bl: "block_is pl off (flats p @ (?l # cs ''do'' # flats b) @ [cs ''done''] @ flats q) s" using assms(3) Loop by simp
  have "i = ?e + 1 \<and> (\<exists>s1. rounds run c b 0 s s1 \<and> s' = status 0 s1) \<and> blocks s' pl = blocks s pl"
    by (rule exec_while_sound [OF assms(5,6) wb co refl ex bl])
  then show ?thesis using Loop by (auto intro: seq_step_branch_rounds.While)
qed

lemma exec_block_sound_from:
  assumes "keeps_block run pl"
  shows "exec_block w run k pl off n (length (flats p)) s = Inr s' \<Longrightarrow> wf_coms q \<Longrightarrow>
    block_is pl off (flats p @ flats q) s \<Longrightarrow> n = length (flats p @ flats q) \<Longrightarrow>
    seq run q s s' \<and> blocks s' pl = blocks s pl"
proof (induction k arbitrary: off n p q s s')
  case (Suc k)
  have ex: "sound_runner run pl (exec_block w run k)"
    unfolding sound_runner_def using Suc.IH [of _ _ "[]"] by auto
  show ?case
  proof (cases "running s")
    case False
    then show ?thesis using Suc.prems(1) by (auto intro: seq_exit)
  next
    case r: True
    show ?thesis
    proof (cases q)
      case Nil
      then show ?thesis using Suc.prems(1,4) by (auto intro: seq_Nil)
    next
      case (Cons x q')
      have wx: "wf_com x" "wf_coms q'" using Suc.prems(2) Cons by auto
      have bl: "block_is pl off (flats p @ flat x @ flats q') s" and n: "n = length (flats p @ flat x @ flats q')"
        using Suc.prems(3,4) Cons by auto
      obtain i s1 where st: "exec_stmt w run (exec_block w run k) k pl off n (length (flats p))
            (first_word (line_at pl (off + length (flats p)) s) 32) s = Inr (i, s1)"
          and rest: "(if loop_break s1 \<noteq> 0 \<or> loop_continue s1 \<noteq> 0 then Inr s1 else exec_block w run k pl off n i s1) = Inr s'"
        using Suc.prems(1) unfolding exec_block_step [OF wx(1) bl n r] by (auto simp: andthen_Inr_iff)
      note one = exec_stmt_sound [OF st wx(1) bl n ex assms]
      show ?thesis
      proof (cases "loop_break s1 \<noteq> 0 \<or> loop_continue s1 \<noteq> 0")
        case True
        then show ?thesis using rest one r Cons by (auto intro: seq_leave)
      next
        case False
        then have "exec_block w run k pl off n (length (flats (p @ [x]))) s1 = Inr s'"
          using rest one by (simp add: flats_append)
        moreover have "block_is pl off (flats (p @ [x]) @ flats q') s1"
          using bl one block_is_cong [of s1 pl s] by (simp add: flats_append)
        moreover have "n = length (flats (p @ [x]) @ flats q')" using n by (simp add: flats_append)
        ultimately have "seq run q' s1 s' \<and> blocks s' pl = blocks s1 pl" using Suc.IH wx(2) by blast
        then show ?thesis using one r Cons False by (auto intro: seq_next)
      qed
    qed
  qed
qed simp

section \<open>Completeness\<close>

declare exec_while.simps(2) [simp del] exec_if.simps(2) [simp del]

text \<open>
  With enough fuel, in any place: a block from a statement on, a statement, a branch (its keyword may
  be \<open>if\<close> or \<open>elif\<close>), and the rounds of a loop.
\<close>

definition block_runs :: "world \<Rightarrow> runner \<Rightarrow> com list \<Rightarrow> shell \<Rightarrow> shell \<Rightarrow> bool" where
  "block_runs w run q s s' \<longleftrightarrow> (\<forall>pl off p. keeps_block run pl \<longrightarrow> wf_coms q \<longrightarrow> block_is pl off (flats p @ flats q) s \<longrightarrow>
     (\<exists>k0. \<forall>k\<ge>k0. exec_block w run k pl off (length (flats p @ flats q)) (length (flats p)) s = Inr s'))"

definition stmt_runs :: "world \<Rightarrow> runner \<Rightarrow> com \<Rightarrow> shell \<Rightarrow> shell \<Rightarrow> bool" where
  "stmt_runs w run x s s' \<longleftrightarrow> (\<forall>pl off p q. keeps_block run pl \<longrightarrow> wf_com x \<longrightarrow> block_is pl off (flats p @ flat x @ flats q) s \<longrightarrow>
     (\<exists>k0. \<forall>k\<ge>k0. exec_stmt w run (exec_block w run k) k pl off (length (flats p @ flat x @ flats q)) (length (flats p))
        (first_word (line_at pl (off + length (flats p)) s) 32) s = Inr (length (flats p @ flat x), s')))"

fun branch_runs :: "world \<Rightarrow> runner \<Rightarrow> alt \<Rightarrow> shell \<Rightarrow> shell \<Rightarrow> bool" where
  "branch_runs w run NoElse s s' = (s' = status 0 s)"
| "branch_runs w run (Else b) s s' = block_runs w run b s s'"
| "branch_runs w run (Elif c b a) s s' = (\<forall>pl off pre l post. keeps_block run pl \<longrightarrow> wf_coms b \<longrightarrow> wf_alt a \<longrightarrow>
     condition_of l = SP # c \<longrightarrow> block_is pl off (pre @ choice l b a @ [cs ''fi''] @ post) s \<longrightarrow>
     (\<exists>k0. \<forall>k\<ge>k0. \<forall>m\<ge>k0. exec_if run (exec_block w run k) m pl off (length (pre @ choice l b a @ [cs ''fi''] @ post))
        (length pre + length (choice l b a)) (length pre) s = Inr (length pre + length (choice l b a) + 1, s')))"

definition rounds_run :: "world \<Rightarrow> runner \<Rightarrow> cstring \<Rightarrow> com list \<Rightarrow> nat \<Rightarrow> shell \<Rightarrow> shell \<Rightarrow> bool" where
  "rounds_run w run c b i s s' \<longleftrightarrow> (\<forall>pl off pre l post. keeps_block run pl \<longrightarrow> wf_coms b \<longrightarrow> condition_of l = SP # c \<longrightarrow>
     block_is pl off (pre @ (l # cs ''do'' # flats b) @ [cs ''done''] @ post) s \<longrightarrow>
     (\<exists>k0. \<forall>k\<ge>k0. \<forall>m\<ge>k0. exec_while run (exec_block w run k) m pl off (length pre) (length pre + 1)
        (length pre + 2 + length (flats b)) i s = Inr (length pre + 2 + length (flats b) + 1, status 0 s')))"

lemma block_runsE:
  assumes "block_runs w run b s s'" "keeps_block run pl" "wf_coms b" "block_is pl off (flats b) s"
  obtains k0 where "\<And>k. k0 \<le> k \<Longrightarrow> exec_block w run k pl off (length (flats b)) 0 s = Inr s'"
  using assms unfolding block_runs_def by (metis append_Nil flats.simps(1) list.size(3))

lemma keeps_blocks:
  shows "seq run q s s' \<Longrightarrow> keeps_block run pl \<Longrightarrow> blocks s' pl = blocks s pl"
    and "step run x s s' \<Longrightarrow> keeps_block run pl \<Longrightarrow> blocks s' pl = blocks s pl"
    and "branch run a s s' \<Longrightarrow> keeps_block run pl \<Longrightarrow> blocks s' pl = blocks s pl"
    and "rounds run c b i s s' \<Longrightarrow> keeps_block run pl \<Longrightarrow> blocks s' pl = blocks s pl"
proof (induction rule: seq_step_branch_rounds.inducts)
  case (leaves s c s1 b s2 s3 i)
  then show ?case using after_body_blocks [of s2] by (auto simp: keeps_block_def)
next
  case (again s c s1 b s2 s3 i j s4 s5)
  then have "blocks s4 = blocks s2" using after_body_blocks [of s2] count_round_blocks by (auto split: if_splits)
  with again show ?case by (auto simp: keeps_block_def)
qed (auto simp: keeps_block_def)

lemma go_branch_runs:
  assumes "branch_runs w run a s s'" "keeps_block run pl" "wf_alt a"
    and "block_is pl off (pre @ alts a @ [cs ''fi''] @ post) s" "e = length pre + length (alts a)"
    and "n = length (pre @ alts a @ [cs ''fi''] @ post)"
  shows "\<exists>k0. \<forall>k\<ge>k0. \<forall>m\<ge>k0. go_branch run (exec_block w run k) m pl off n e (length pre) a s = Inr (e + 1, s')"
proof (cases a)
  case NoElse
  then show ?thesis using assms(1) by simp
next
  case (Else b)
  have "block_is pl (off + length (pre @ [cs ''else''])) (flats b) s"
    by (rule block_is_part [of pl off _ _ "[cs ''fi''] @ post"]) (use assms(4) Else in simp)
  then have bl: "block_is pl (off + length pre + 1) (flats b) s" by simp
  have "block_runs w run b s s'" "wf_coms b" using assms(1,3) Else by simp_all
  from block_runsE [OF this(1) assms(2) this(2) bl] obtain k0 where
    "\<And>k. k0 \<le> k \<Longrightarrow> exec_block w run k pl (off + length pre + 1) (length (flats b)) 0 s = Inr s'" by blast
  then show ?thesis using Else by (intro exI [of _ k0]) (auto simp: add.assoc)
next
  case (Elif c b a')
  let ?l = "cs ''elif '' @ c"
  have "condition_of ?l = SP # c" using assms(3) Elif conditions(3) by simp
  moreover have "block_is pl off (pre @ choice ?l b a' @ [cs ''fi''] @ post) s" using assms(4) Elif by simp
  ultimately have "\<exists>k0. \<forall>k\<ge>k0. \<forall>m\<ge>k0. exec_if run (exec_block w run k) m pl off (length (pre @ choice ?l b a' @ [cs ''fi''] @ post))
        (length pre + length (choice ?l b a')) (length pre) s = Inr (length pre + length (choice ?l b a') + 1, s')"
    using assms(1-3) unfolding Elif branch_runs.simps by (simp only: wf_alt.simps)
  then show ?thesis using assms(5,6) Elif by simp
qed

lemma exec_if_runs:
  assumes "run (SP # c) s = Inr s1"
    and "if last_status s1 = 0 then block_runs w run b s1 s' else branch_runs w run a s1 s'"
  shows "branch_runs w run (Elif c b a) s s'"
  unfolding branch_runs.simps
proof (intro allI impI)
  fix pl off pre l post
  assume k: "keeps_block run pl" and wb: "wf_coms b" and wa: "wf_alt a" and co: "condition_of l = SP # c"
    and bl: "block_is pl off (pre @ choice l b a @ [cs ''fi''] @ post) s"
  let ?n = "length (pre @ choice l b a @ [cs ''fi''] @ post)"
  let ?e = "length pre + length (choice l b a)"
  let ?pre = "pre @ [l, cs ''then''] @ flats b"
  have len: "length pre + 2 + length (flats b) = length ?pre" by simp
  have b1: "block_is pl off (pre @ choice l b a @ [cs ''fi''] @ post) s1" using block_run [OF k assms(1) bl] .
  note step = exec_if_step [OF bl k wb wa co refl refl, unfolded assms(1) andthen_simps len]
  show "\<exists>k0. \<forall>k\<ge>k0. \<forall>m\<ge>k0. exec_if run (exec_block w run k) m pl off ?n ?e (length pre) s = Inr (?e + 1, s')"
  proof (cases "last_status s1 = 0")
    case True
    have "block_is pl (off + length (pre @ [l, cs ''then''])) (flats b) s1"
      by (rule block_is_part [of pl off _ _ "alts a @ [cs ''fi''] @ post"]) (use b1 in simp)
    then have bb: "block_is pl (off + length pre + 2) (flats b) s1" by (simp add: add.assoc)
    have "block_runs w run b s1 s'" using assms(2) True by simp
    from block_runsE [OF this k wb bb] obtain k0 where
      e: "\<And>k. k0 \<le> k \<Longrightarrow> exec_block w run k pl (off + length pre + 2) (length (flats b)) 0 s1 = Inr s'" by blast
    have "exec_if run (exec_block w run k) m pl off ?n ?e (length pre) s = Inr (?e + 1, s')" if m: "Suc k0 \<le> k" "Suc k0 \<le> m" for k m
    proof -
      obtain m' where m': "m = Suc m'" using m by (cases m) auto
      show ?thesis unfolding m' step using True e [of k] m by simp
    qed
    then show ?thesis by blast
  next
    case False
    then have br: "branch_runs w run a s1 s'" using assms(2) by simp
    have bb: "block_is pl off (?pre @ alts a @ [cs ''fi''] @ post) s1" using b1 by simp
    have "?e = length ?pre + length (alts a)" "?n = length (?pre @ alts a @ [cs ''fi''] @ post)" by simp_all
    from go_branch_runs [OF br k wa bb this] obtain k0 where
      g: "\<And>k m. k0 \<le> k \<Longrightarrow> k0 \<le> m \<Longrightarrow> go_branch run (exec_block w run k) m pl off ?n ?e (length ?pre) a s1 = Inr (?e + 1, s')" by blast
    have "exec_if run (exec_block w run k) m pl off ?n ?e (length pre) s = Inr (?e + 1, s')" if m: "Suc k0 \<le> k" "Suc k0 \<le> m" for k m
    proof -
      obtain m' where m': "m = Suc m'" using m by (cases m) auto
      show ?thesis unfolding m' step using False g [of k m'] m m' by simp
    qed
    then show ?thesis by blast
  qed
qed

text \<open>The rounds of a loop: one that ends it, and one more before those that follow.\<close>

lemma rounds_run_step:
  assumes "\<And>pl off pre l post. keeps_block run pl \<Longrightarrow> wf_coms b \<Longrightarrow> condition_of l = SP # c \<Longrightarrow>
      block_is pl off (pre @ (l # cs ''do'' # flats b) @ [cs ''done''] @ post) s \<Longrightarrow>
      \<exists>k0. \<forall>k\<ge>k0. \<forall>m\<ge>k0. exec_while run (exec_block w run k) (Suc m) pl off (length pre) (length pre + 1)
        (length pre + 2 + length (flats b)) i s = Inr (length pre + 2 + length (flats b) + 1, status 0 s')"
  shows "rounds_run w run c b i s s'"
  unfolding rounds_run_def
proof (intro allI impI)
  fix pl off pre l post
  assume "keeps_block run pl" "wf_coms b" "condition_of l = SP # c"
    "block_is pl off (pre @ (l # cs ''do'' # flats b) @ [cs ''done''] @ post) s"
  from assms [OF this] obtain k0 where r: "\<And>k m. k0 \<le> k \<Longrightarrow> k0 \<le> m \<Longrightarrow> exec_while run (exec_block w run k) (Suc m) pl off (length pre) (length pre + 1)
        (length pre + 2 + length (flats b)) i s = Inr (length pre + 2 + length (flats b) + 1, status 0 s')" by blast
  have "exec_while run (exec_block w run k) m pl off (length pre) (length pre + 1) (length pre + 2 + length (flats b)) i s =
      Inr (length pre + 2 + length (flats b) + 1, status 0 s')" if "Suc k0 \<le> k" "Suc k0 \<le> m" for k m
    using r [of k "m - 1"] that by simp
  then show "\<exists>k0. \<forall>k\<ge>k0. \<forall>m\<ge>k0. exec_while run (exec_block w run k) m pl off (length pre) (length pre + 1)
        (length pre + 2 + length (flats b)) i s = Inr (length pre + 2 + length (flats b) + 1, status 0 s')" by blast
qed

lemma rounds_run_body:
  assumes "running s" "run (SP # c) s = Inr s1" "last_status s1 = 0" "block_runs w run b s1 s2" "after_body s2 = (leave, s3)"
    and "(if leave \<or> loop_break s2 = 0 \<and> loop_continue s2 \<noteq> 0 then (i, s3) else count_round i s3) = (j, s4)"
    and "if leave then s' = s4 else rounds_run w run c b (j + 1) s4 s' \<and> (\<forall>pl. keeps_block run pl \<longrightarrow> blocks s4 pl = blocks s pl)"
  shows "rounds_run w run c b i s s'"
proof (rule rounds_run_step)
  fix pl off pre l post
  assume k: "keeps_block run pl" and wb: "wf_coms b" and co: "condition_of l = SP # c"
    and bl: "block_is pl off (pre @ (l # cs ''do'' # flats b) @ [cs ''done''] @ post) s"
  let ?e = "length pre + 2 + length (flats b)"
  note step = exec_while_step [OF bl co refl]
  have b1: "block_is pl off (pre @ (l # cs ''do'' # flats b) @ [cs ''done''] @ post) s1" using block_run [OF k assms(2) bl] .
  have "block_is pl (off + length (pre @ [l, cs ''do''])) (flats b) s1"
    by (rule block_is_part [of pl off _ _ "[cs ''done''] @ post"]) (use b1 in simp)
  then have bb: "block_is pl (off + length pre + 2) (flats b) s1" by (simp add: add.assoc)
  from block_runsE [OF assms(4) k wb bb] obtain k1 where
    e1: "\<And>k. k1 \<le> k \<Longrightarrow> exec_block w run k pl (off + length pre + 2) (length (flats b)) 0 s1 = Inr s2" by blast
  have st: "exec_while run (exec_block w run k') (Suc m) pl off (length pre) (length pre + 1) ?e i s =
      (if leave then Inr (?e + 1, status 0 s4)
       else exec_while run (exec_block w run k') m pl off (length pre) (length pre + 1) ?e (j + 1) s4)" if "k1 \<le> k'" for k' m
    by (simp only: step assms(1,2,3,5,6) e1 [OF that] andthen_simps Let_def prod.case not_True_eq_False if_False refl simp_thms)
  show "\<exists>k0. \<forall>k\<ge>k0. \<forall>m\<ge>k0. exec_while run (exec_block w run k) (Suc m) pl off (length pre) (length pre + 1) ?e i s =
      Inr (?e + 1, status 0 s')"
  proof (cases leave)
    case True
    then show ?thesis using st assms(7) by (intro exI [of _ k1]) simp
  next
    case False
    then have r: "rounds_run w run c b (j + 1) s4 s'" and "blocks s4 pl = blocks s pl" using assms(7) k by auto
    then have "block_is pl off (pre @ (l # cs ''do'' # flats b) @ [cs ''done''] @ post) s4" using bl block_is_cong by blast
    with r k wb co obtain k2 where
      "\<And>k m. k2 \<le> k \<Longrightarrow> k2 \<le> m \<Longrightarrow> exec_while run (exec_block w run k) m pl off (length pre) (length pre + 1) ?e (j + 1) s4 =
        Inr (?e + 1, status 0 s')" unfolding rounds_run_def by blast
    then show ?thesis using st False by (intro exI [of _ "max k1 k2"]) simp
  qed
qed

lemma rounds_run_stop:
  assumes "\<not> running s \<and> s' = s \<or> running s \<and> run (SP # c) s = Inr s' \<and> last_status s' \<noteq> 0"
  shows "rounds_run w run c b i s s'"
proof (rule rounds_run_step)
  fix pl off pre l post
  assume co: "condition_of l = SP # c" and bl: "block_is pl off (pre @ (l # cs ''do'' # flats b) @ [cs ''done''] @ post) s"
  have "exec_while run (exec_block w run k) (Suc m) pl off (length pre) (length pre + 1)
      (length pre + 2 + length (flats b)) i s = Inr (length pre + 2 + length (flats b) + 1, status 0 s')" for k m
    unfolding exec_while_step [OF bl co refl] using assms by auto
  then show "\<exists>k0. \<forall>k\<ge>k0. \<forall>m\<ge>k0. exec_while run (exec_block w run k) (Suc m) pl off (length pre) (length pre + 1)
      (length pre + 2 + length (flats b)) i s = Inr (length pre + 2 + length (flats b) + 1, status 0 s')" by blast
qed

text \<open>Statements from their parts.\<close>

lemma stmt_runs_simple: "run l s = Inr s' \<Longrightarrow> stmt_runs w run (Simple l) s s'"
  unfolding stmt_runs_def using exec_stmt_simple by fastforce

lemma stmt_runs_cond:
  assumes "branch_runs w run (Elif c b a) s s'" shows "stmt_runs w run (Cond c b a) s s'"
  unfolding stmt_runs_def
proof (intro allI impI)
  fix pl off p q
  assume k: "keeps_block run pl" and wf: "wf_com (Cond c b a)" and bl: "block_is pl off (flats p @ flat (Cond c b a) @ flats q) s"
  let ?l = "cs ''if '' @ c"
  let ?n = "length (flats p @ flat (Cond c b a) @ flats q)"
  have "block_is pl off (flats p @ choice ?l b a @ [cs ''fi''] @ flats q) s" "condition_of ?l = SP # c" "wf_coms b" "wf_alt a"
    using bl wf conditions(1) by simp_all
  with assms k obtain k0 where "\<And>k m. k0 \<le> k \<Longrightarrow> k0 \<le> m \<Longrightarrow> exec_if run (exec_block w run k) m pl off
      (length (flats p @ choice ?l b a @ [cs ''fi''] @ flats q)) (length (flats p) + length (choice ?l b a)) (length (flats p)) s =
      Inr (length (flats p) + length (choice ?l b a) + 1, s')"
    unfolding branch_runs.simps by blast
  then show "\<exists>k0. \<forall>k\<ge>k0. exec_stmt w run (exec_block w run k) k pl off ?n (length (flats p))
        (first_word (line_at pl (off + length (flats p)) s) 32) s = Inr (length (flats p @ flat (Cond c b a)), s')"
    unfolding exec_stmt_cond [OF wf bl refl] by (intro exI [of _ k0]) simp
qed

lemma stmt_runs_loop:
  assumes "rounds_run w run c b 0 s s'" shows "stmt_runs w run (Loop c b) s (status 0 s')"
  unfolding stmt_runs_def
proof (intro allI impI)
  fix pl off p q
  assume k: "keeps_block run pl" and wf: "wf_com (Loop c b)" and bl: "block_is pl off (flats p @ flat (Loop c b) @ flats q) s"
  let ?l = "cs ''while '' @ c"
  have "block_is pl off (flats p @ (?l # cs ''do'' # flats b) @ [cs ''done''] @ flats q) s" "condition_of ?l = SP # c" "wf_coms b"
    using bl wf conditions(2) by simp_all
  with assms k obtain k0 where "\<And>k m. k0 \<le> k \<Longrightarrow> k0 \<le> m \<Longrightarrow> exec_while run (exec_block w run k) m pl off (length (flats p))
      (length (flats p) + 1) (length (flats p) + 2 + length (flats b)) 0 s =
      Inr (length (flats p) + 2 + length (flats b) + 1, status 0 s')"
    unfolding rounds_run_def by blast
  then show "\<exists>k0. \<forall>k\<ge>k0. exec_stmt w run (exec_block w run k) k pl off (length (flats p @ flat (Loop c b) @ flats q)) (length (flats p))
        (first_word (line_at pl (off + length (flats p)) s) 32) s = Inr (length (flats p @ flat (Loop c b)), status 0 s')"
    unfolding exec_stmt_loop [OF wf bl refl] by (intro exI [of _ k0]) simp
qed

lemma block_runs_stop: "q = [] \<or> \<not> running s \<Longrightarrow> block_runs w run q s s"
  unfolding block_runs_def
proof (intro allI impI exI [of _ 1])
  fix pl off p and k :: nat
  assume "q = [] \<or> \<not> running s" "1 \<le> k"
  then show "exec_block w run k pl off (length (flats p @ flats q)) (length (flats p)) s = Inr s"
    by (cases k) auto
qed

lemma block_runs_Cons:
  assumes "running s" "stmt_runs w run x s s1" "\<And>pl. keeps_block run pl \<Longrightarrow> blocks s1 pl = blocks s pl"
    and "if loop_break s1 \<noteq> 0 \<or> loop_continue s1 \<noteq> 0 then s' = s1 else block_runs w run q s1 s'"
  shows "block_runs w run (x # q) s s'"
  unfolding block_runs_def
proof (intro allI impI)
  fix pl off p
  assume k: "keeps_block run pl" and wf: "wf_coms (x # q)" and bl: "block_is pl off (flats p @ flats (x # q)) s"
  let ?n = "length (flats p @ flats (x # q))"
  have bl': "block_is pl off (flats p @ flat x @ flats q) s" and n: "?n = length (flats p @ flat x @ flats q)"
    and wx: "wf_com x" "wf_coms q" using bl wf by simp_all
  from assms(2) k wx(1) bl' obtain k1 where
    st: "\<And>k. k1 \<le> k \<Longrightarrow> exec_stmt w run (exec_block w run k) k pl off ?n (length (flats p))
        (first_word (line_at pl (off + length (flats p)) s) 32) s = Inr (length (flats p @ flat x), s1)"
    unfolding stmt_runs_def n by blast
  note step = exec_block_step [OF wx(1) bl' n assms(1)]
  show "\<exists>k0. \<forall>k\<ge>k0. exec_block w run k pl off ?n (length (flats p)) s = Inr s'"
  proof (cases "loop_break s1 \<noteq> 0 \<or> loop_continue s1 \<noteq> 0")
    case True
    have "exec_block w run k pl off ?n (length (flats p)) s = Inr s'" if "Suc k1 \<le> k" for k
      using that step [of w run "k - 1"] st [of "k - 1"] True assms(4) by simp
    then show ?thesis by blast
  next
    case False
    then have "block_runs w run q s1 s'" using assms(4) by simp
    moreover have "block_is pl off (flats (p @ [x]) @ flats q) s1"
      using bl' block_is_cong [OF assms(3) [OF k]] by (simp add: flats_append)
    ultimately obtain k2 where
      e: "\<And>k. k2 \<le> k \<Longrightarrow> exec_block w run k pl off (length (flats (p @ [x]) @ flats q)) (length (flats (p @ [x]))) s1 = Inr s'"
      using k wx(2) unfolding block_runs_def by blast
    have "exec_block w run k pl off ?n (length (flats p)) s = Inr s'" if "Suc (max k1 k2) \<le> k" for k
      using that step [of w run "k - 1"] st [of "k - 1"] e [of "k - 1"] False by (simp add: flats_append)
    then show ?thesis by blast
  qed
qed

lemma runs_to_end:
  shows "seq run q s s' \<Longrightarrow> block_runs w run q s s'"
    and "step run x s s' \<Longrightarrow> stmt_runs w run x s s'"
    and "branch run a s s' \<Longrightarrow> branch_runs w run a s s'"
    and "rounds run c b i s s' \<Longrightarrow> rounds_run w run c b i s s'"
proof (induction rule: seq_step_branch_rounds.inducts)
  case (seq_leave s x s1 p)
  then show ?case using keeps_blocks(2) by (intro block_runs_Cons [of s w run x s1]) auto
next
  case (seq_next s x s1 p s2)
  then show ?case using keeps_blocks(2) by (intro block_runs_Cons [of s w run x s1]) auto
next
  case (Elif_true c s s1 b s2 a)
  then show ?case by (intro exec_if_runs) auto
next
  case (Elif_false c s s1 a s2 b)
  then show ?case by (intro exec_if_runs) auto
next
  case (leaves s c s1 b s2 s3 i)
  then show ?case by (intro rounds_run_body [of s run c s1 w b s2 True s3 i i s3]) auto
next
  case (again s c s1 b s2 s3 i j s4 s5)
  have "blocks s4 pl = blocks s pl" if k: "keeps_block run pl" for pl
  proof -
    have sq: "seq run b s1 s2" and ab: "after_body s2 = (False, s3)" and r: "run (SP # c) s = Inr s1"
      and cr: "(if loop_break s2 = 0 \<and> loop_continue s2 \<noteq> 0 then (i, s3) else count_round i s3) = (j, s4)"
      using again by blast+
    have "blocks s2 pl = blocks s1 pl" using keeps_blocks(1) [OF sq k] .
    moreover have "blocks s1 pl = blocks s pl" using k r by (simp add: keeps_block_def)
    moreover have "blocks s4 = blocks s2" using after_body_blocks [OF ab] count_round_blocks cr by (auto split: if_splits)
    ultimately show ?thesis by simp
  qed
  then show ?case using again by (intro rounds_run_body [of s run c s1 w b s2 False s3 i j s4]) auto
qed (auto simp: block_runs_stop stmt_runs_simple stmt_runs_cond stmt_runs_loop rounds_run_stop simp del: branch_runs.simps(3))

section \<open>The shell runs structured scripts\<close>

text \<open>
  C9: Where the lines of a structured program stand in a script (or another static array than the one of
  function bodies), and running them ends, the shell has gone through the program as the big-step
  relation says: the branch of an \<open>if\<close> that its conditions choose, the rounds of a \<open>while\<close> that its
  condition allows, with \<open>break\<close>, \<open>continue\<close> and \<open>exit\<close> leaving what they leave.  Keywords inside nested
  statements are never taken for the keywords of the statement around them.
\<close>

theorem script_runs_structured:
  assumes "pl \<noteq> Body" "wf_coms p" "block_is pl 0 (flats p) sh"
    and "exec_block w (run_logical_line w k) k pl 0 (length (flats p)) 0 sh = Inr sh'"
  shows "seq (run_logical_line w k) p sh sh'"
  using exec_block_sound_from [where p = "[]" and q = p and off = 0, OF run_logical_line_keeps [OF assms(1)]] assms by simp

text \<open>
  C10: Conversely, whatever the big-step relation allows, the shell does: where the program ends, running
  its lines ends in the same state, with every bound on loops and calls that is large enough.
\<close>

theorem script_run_ends:
  assumes "pl \<noteq> Body" "wf_coms p" "block_is pl 0 (flats p) sh" "seq (run_logical_line w j) p sh sh'"
  shows "\<exists>k0. \<forall>k\<ge>k0. exec_block w (run_logical_line w k) k pl 0 (length (flats p)) 0 sh = Inr sh'"
proof -
  have "block_runs w (run_logical_line w j) p sh sh'" by (rule runs_to_end(1) [OF assms(4)])
  from block_runsE [OF this run_logical_line_keeps [OF assms(1)] assms(2,3)] obtain k1 where
    e: "\<And>k. k1 \<le> k \<Longrightarrow> exec_block w (run_logical_line w j) k pl 0 (length (flats p)) 0 sh = Inr sh'" by blast
  have "exec_block w (run_logical_line w k) k pl 0 (length (flats p)) 0 sh = Inr sh'" if "max k1 j \<le> k" for k
    by (rule le_exD [OF exec_block_mono [OF run_logical_line_mono le_refl], of j k]) (use that e in simp_all)
  then show ?thesis by blast
qed

section \<open>A script that runs\<close>

text \<open>The lines \<open>'true'\<close> and \<open>'false'\<close>, and a program of them.\<close>

definition yes_line :: cstring where "yes_line = quoted_line [cs ''true'']"
definition no_line :: cstring where "no_line = quoted_line [cs ''false'']"

definition some_program :: "com list" where
  "some_program = [Cond no_line [Loop yes_line []] (Elif yes_line [Loop no_line [Simple yes_line]] (Else [])), Simple no_line]"

definition some_shell :: shell where
  "some_shell = bare_shell\<lparr>blocks := (blocks bare_shell)(Script := flats some_program)\<rparr>"

definition ready :: "shell \<Rightarrow> bool" where
  "ready sh \<longleftrightarrow> running sh \<and> funcs sh = [] \<and> 0 < length (tables sh Pipes) \<and> loop_break sh = 0 \<and> loop_continue sh = 0"

lemma some_program_wf: "wf_coms some_program"
  by code_simp

lemma some_shell_block: "block_is Script 0 (flats some_program) some_shell"
  by (simp add: block_is_def block_lines_def some_shell_def)

lemma some_shell_ready: "ready some_shell"
  by (simp add: ready_def some_shell_def bare_shell_def start_shell_def MAX_PIPES_def)

lemma run_after_blank: "deref l \<noteq> HASH \<Longrightarrow> run_logical_line w k (SP # l) sh = run_logical_line w k l sh"
proof (cases k)
  case (Suc m)
  assume l: "deref l \<noteq> HASH"
  have "next_token w (SP # l) = next_token w l" by (rule ext) (simp add: next_token_def sh_is_space_def)
  then have "parse_loop w tb mx (SP # l) np b s = parse_loop w tb mx l np b s" for tb mx np b s
    by (simp only: parse_loop.simps [of w tb mx "SP # l"] parse_loop.simps [of w tb mx l])
  then have "parse_line w Pipes MAX_PIPES (SP # l) sh = parse_line w Pipes MAX_PIPES l sh" by (simp add: parse_line_def)
  then show ?thesis using l Suc by simp
qed simp

lemma run_quoted_status:
  assumes "ready sh" "nm = cs ''true'' \<and> v = 0 \<or> nm = cs ''false'' \<and> v = 1"
  shows "\<exists>s. run_logical_line w (Suc k) (quoted_line [nm]) sh = Inr s \<and> ready s \<and> last_status s = v"
proof -
  have q: "quotable [nm] sh" using assms
    by (auto simp: quotable_def ready_def MAX_ARGS_def MAX_LINE_def cs_def sh_quote_def quote_byte_def)
  have f: "func_find (hd [nm]) sh = None" using assms(1) by (simp add: func_find_def ready_def)
  have b: "is_builtin (hd [nm])" using assms(2) by (auto simp: is_builtin_def BUILTINS_def)
  from run_quoted_builtin [OF q f b, of w k] obtain c s1 where c: "plain_cmd c [nm] s1" and o: "outside s1 = outside sh"
    and l: "0 < length (tables s1 Pipes)"
    and r: "run_logical_line w (Suc k) (quoted_line [nm]) sh = andthen (run_builtin w c s1) (\<lambda>(h, sh). Inr sh)" by blast
  have "words c s1 = [nm]" using c by (simp add: plain_cmd_def)
  then have "run_builtin w c s1 = Inr (True, status v s1)" using assms(2) by (auto simp: run_builtin_def)
  moreover have "ready s1" using assms(1) l outsideD [OF o] by (simp add: ready_def)
  ultimately show ?thesis unfolding r by (simp add: ready_def status_def)
qed

lemma lines_not_HASH: "deref yes_line \<noteq> HASH" "deref no_line \<noteq> HASH"
  by (simp_all add: yes_line_def no_line_def sh_quote_def)

lemma run_yes_no:
  assumes "ready sh"
  shows "\<exists>s. run_logical_line w (Suc k) yes_line sh = Inr s \<and> ready s \<and> last_status s = 0"
    "\<exists>s. run_logical_line w (Suc k) (SP # yes_line) sh = Inr s \<and> ready s \<and> last_status s = 0"
    "\<exists>s. run_logical_line w (Suc k) no_line sh = Inr s \<and> ready s \<and> last_status s = 1"
    "\<exists>s. run_logical_line w (Suc k) (SP # no_line) sh = Inr s \<and> ready s \<and> last_status s = 1"
  using run_quoted_status [OF assms, of "cs ''true''" 0] run_quoted_status [OF assms, of "cs ''false''" 1]
  by (simp_all only: run_after_blank lines_not_HASH not_False_eq_True) (simp_all only: yes_line_def no_line_def simp_thms)

lemma some_program_seq: "\<exists>s. seq (run_logical_line refusing 1) some_program some_shell s"
proof -
  define run where "run = run_logical_line refusing 1"
  note runs = run_yes_no [of _ refusing 0, unfolded One_nat_def [symmetric], folded run_def]
  have ready: "ready s \<Longrightarrow> running s \<and> loop_break s = 0 \<and> loop_continue s = 0" for s by (simp add: ready_def)
  obtain s1 where s1: "run (SP # no_line) some_shell = Inr s1" "ready s1" "last_status s1 = 1"
    using runs(4) [OF some_shell_ready] by blast
  obtain s2 where s2: "run (SP # yes_line) s1 = Inr s2" "ready s2" "last_status s2 = 0" using runs(2) [OF s1(2)] by blast
  obtain s3 where s3: "run (SP # no_line) s2 = Inr s3" "ready s3" "last_status s3 = 1" using runs(4) [OF s2(2)] by blast
  have r4: "ready (status 0 s3)" using s3(2) by (simp add: ready_def status_def)
  obtain s5 where s5: "run no_line (status 0 s3) = Inr s5" "ready s5" using runs(3) [OF r4] by blast
  have "rounds run no_line [Simple yes_line] 0 s2 s3" using ready [OF s2(2)] s3 by (intro fails) auto
  then have loop: "seq run [Loop no_line [Simple yes_line]] s2 (status 0 s3)"
    using ready [OF s2(2)] ready [OF r4] by (intro seq_next [of s2 run _ "status 0 s3"] While seq_Nil) auto
  have "step run (Cond no_line [Loop yes_line []] (Elif yes_line [Loop no_line [Simple yes_line]] (Else []))) some_shell (status 0 s3)"
    by (rule If, rule Elif_false [where ?s1.0 = s1], rule s1(1), simp add: s1(3),
        rule Elif_true [where ?s1.0 = s2], rule s2(1), rule s2(3), rule loop)
  moreover have "seq run [Simple no_line] (status 0 s3) s5"
    using ready [OF r4] s5(1) ready [OF s5(2)] by (intro seq_next [of "status 0 s3"] Line) (auto intro: seq_Nil)
  ultimately have "seq run some_program some_shell s5"
    unfolding some_program_def using ready [OF some_shell_ready] ready [OF r4] by (intro seq_next [of some_shell]) auto
  then show ?thesis unfolding run_def by blast
qed

theorem script_run_ends_witness:
  "\<exists>s k0. seq (run_logical_line refusing 1) some_program some_shell s \<and>
     exec_block refusing (run_logical_line refusing k0) k0 Script 0 (length (flats some_program)) 0 some_shell = Inr s"
proof -
  obtain s where s: "seq (run_logical_line refusing 1) some_program some_shell s" using some_program_seq by blast
  from script_run_ends [OF _ some_program_wf some_shell_block s] show ?thesis using s by blast
qed

theorem script_runs_structured_witness:
  "\<exists>s k. exec_block refusing (run_logical_line refusing k) k Script 0 (length (flats some_program)) 0 some_shell = Inr s \<and>
     seq (run_logical_line refusing k) some_program some_shell s"
proof -
  obtain s where s: "seq (run_logical_line refusing 1) some_program some_shell s" using some_program_seq by blast
  have pl: "Script \<noteq> Body" by simp
  from block_runsE [OF runs_to_end(1) [OF s] run_logical_line_keeps [OF pl] some_program_wf some_shell_block]
  obtain k0 where "\<forall>k\<ge>k0. exec_block refusing (run_logical_line refusing 1) k Script 0 (length (flats some_program)) 0 some_shell = Inr s" by blast
  then have "exec_block refusing (run_logical_line refusing (max k0 1)) (max k0 1) Script 0 (length (flats some_program)) 0 some_shell = Inr s"
    by (intro le_exD [OF exec_block_mono [OF run_logical_line_mono le_refl], of 1 "max k0 1"]) auto
  then show ?thesis using script_runs_structured [OF pl some_program_wf some_shell_block] by blast
qed

end
