(* ===== verification/ShLine.thy ===== *)
theory ShLine
  imports ShExec
begin

text \<open>
  The interactive side of the shell (\<open>userland/sh/sh.c\<close>): history, the line editor with its
  completion, the prompt, and the main program.

  The editor's line is the bytes in use; the code keeps a NUL after them.  A slice whose end lies before
  its start has a length that wraps around: \<open>slice_width\<close> then reads far outside the line, which is
  undefined.
\<close>

section \<open>History\<close>

definition HIST_MAX :: nat where "HIST_MAX = 64"
definition HIST_FILE :: cstring where "HIST_FILE = cs ''/root/.sh_history''"

record session =
  history :: "cstring list"
  term_cols :: int
  hostname :: cstring

definition start_session :: session where
  "start_session = \<lparr>history = [], term_cols = 80, hostname = cs ''lpzero''\<rparr>"

definition hist_add :: "world \<Rightarrow> cstring \<Rightarrow> session \<Rightarrow> session" where
  "hist_add w l se =
     (if l = [] \<or> (history se \<noteq> [] \<and> last (history se) = l) \<or> \<not> alloc w (length l + 1) then se
      else se\<lparr>history := (if length (history se) = HIST_MAX then tl (history se) else history se) @ [l]\<rparr>)"

fun hist_loop :: "world \<Rightarrow> int \<Rightarrow> nat \<Rightarrow> session \<Rightarrow> shell \<Rightarrow> stop + (session \<times> shell)" where
  "hist_loop w fd 0 se sh = Inl No_fuel"
| "hist_loop w fd (Suc k) se sh =
     (let (len, l, sh) = read_a_line w fd sh in
      if len < 0 then Inr (se, sh) else hist_loop w fd k (hist_add w l se) sh)"

definition hist_load :: "world \<Rightarrow> nat \<Rightarrow> session \<Rightarrow> shell \<Rightarrow> stop + (session \<times> shell)" where
  "hist_load w k se sh =
     (let (r, sh) = syscall w (Open HIST_FILE O_RDONLY) sh in
      if r_val r < 0 then Inr (se, sh)
      else andthen (hist_loop w (r_val r) k se sh) (\<lambda>(se, sh). Inr (se, did (Close (r_val r)) sh)))"

definition hist_save_one :: "world \<Rightarrow> cstring \<Rightarrow> shell \<Rightarrow> shell" where
  "hist_save_one w l sh =
     (if l = [] then sh
      else
        (let (r, sh) = syscall w (Open HIST_FILE (O_WRONLY OR O_CREAT OR O_APPEND)) sh; fd = r_val r in
         if fd < 0 then sh else did (Close fd) (did (Write fd [LF]) (did (Write fd l) sh))))"

section \<open>The line\<close>

record line_t =
  lbuf :: "u8 list"
  lcur :: nat

definition slice_width :: "u8 list \<Rightarrow> nat \<Rightarrow> nat \<Rightarrow> nat option" where
  "slice_width s frm til = (if frm \<le> til then Some (utf8_str_width (drop frm s) (til - frm) 0 0) else None)"

text \<open>Where the window that shows the cursor begins, and where it ends.\<close>

function window_start :: "u8 list \<Rightarrow> nat \<Rightarrow> nat \<Rightarrow> nat \<Rightarrow> nat option" where
  "window_start s cu avail start =
     (case slice_width s start cu of
        None \<Rightarrow> None
      | Some v \<Rightarrow>
          if v > avail \<and> start < cu \<and> start < utf8_next s (length s) start
          then window_start s cu avail (utf8_next s (length s) start)
          else if v > avail then None else Some start)"
  by pat_completeness auto
termination by (relation "measure (\<lambda>(s, cu, avail, start). cu - start)") auto

function window_end :: "u8 list \<Rightarrow> nat \<Rightarrow> nat \<Rightarrow> nat \<Rightarrow> nat option" where
  "window_end s avail start e =
     (if e \<ge> length s then Some e
      else
        (let nx = utf8_next s (length s) e in
         case slice_width s start nx of
           None \<Rightarrow> None
         | Some v \<Rightarrow> if v > avail \<or> nx \<le> e then Some e else window_end s avail start nx))"
  by pat_completeness auto
termination by (relation "measure (\<lambda>(s, avail, start, e). length s - e)") auto

declare window_start.simps [simp del] window_end.simps [simp del]

definition ERASE_RIGHT :: cstring where "ERASE_RIGHT = [27, 91, 75]"

definition redraw :: "cstring \<Rightarrow> nat \<Rightarrow> line_t \<Rightarrow> int \<Rightarrow> shell \<Rightarrow> shell option" where
  "redraw prompt pw l cols sh =
     (let avail = nat (max 8 (cols - int pw - 1)) in
      case window_start (lbuf l) (lcur l) avail 0 of
        None \<Rightarrow> None
      | Some start \<Rightarrow>
          (case window_end (lbuf l) avail start start of
             None \<Rightarrow> None
           | Some e \<Rightarrow>
               (case slice_width (lbuf l) (lcur l) e of
                  None \<Rightarrow> None
                | Some back \<Rightarrow>
                    (let sh = did (Fputs ERASE_RIGHT) (did (Write 1 (take (e - start) (drop start (lbuf l))))
                                (did (Fputs prompt) (did (Fputs [CR]) sh)))
                     in if back = 0 then Some sh
                        else map_option (\<lambda>d. did (Fputs ([27, 91] @ d @ [68])) sh) (decimal (int back))))))"

definition line_insert :: "u8 list \<Rightarrow> line_t \<Rightarrow> line_t" where
  "line_insert t l =
     (if length (lbuf l) + length t \<ge> MAX_LINE then l
      else \<lparr>lbuf = take (lcur l) (lbuf l) @ t @ drop (lcur l) (lbuf l), lcur = lcur l + length t\<rparr>)"

definition line_delete :: "nat \<Rightarrow> nat \<Rightarrow> line_t \<Rightarrow> line_t" where
  "line_delete frm til l = (if frm \<ge> til then l else \<lparr>lbuf = take frm (lbuf l) @ drop til (lbuf l), lcur = frm\<rparr>)"

definition line_set :: "cstring \<Rightarrow> line_t" where
  "line_set t = \<lparr>lbuf = clip MAX_LINE t, lcur = length (clip MAX_LINE t)\<rparr>"

text \<open>Going back over the bytes before the cursor while they are as wanted.\<close>

fun back_over :: "(u8 \<Rightarrow> bool) \<Rightarrow> u8 list \<Rightarrow> nat \<Rightarrow> nat" where
  "back_over f s 0 = 0"
| "back_over f s (Suc i) = (if f (ch s i) then back_over f s i else Suc i)"

definition word_start :: "line_t \<Rightarrow> nat" where
  "word_start l = back_over (\<lambda>c. \<not> blank c) (lbuf l) (lcur l)"

definition is_command_position :: "line_t \<Rightarrow> nat \<Rightarrow> bool" where
  "is_command_position l start = list_all (\<lambda>c. blank c \<or> c = BAR \<or> c = SEMI \<or> c = AMPER) (take start (lbuf l))"

section \<open>Completion\<close>

definition COMP_MAX :: nat where "COMP_MAX = 128"
definition COMP_NAME_MAX :: nat where "COMP_NAME_MAX = 64"
definition DIRENT_TYPE :: nat where "DIRENT_TYPE = 18"
definition DT_DIR :: u8 where "DT_DIR = 4"

definition comp_add :: "cstring \<Rightarrow> bool \<Rightarrow> cstring list \<Rightarrow> cstring list" where
  "comp_add nm is_dir cands =
     (if length cands \<ge> COMP_MAX \<or> nm \<in> set cands then cands
      else cands @ [clip COMP_NAME_MAX (clip COMP_NAME_MAX nm @ (if is_dir then [SLASH] else []))])"

text \<open>The records of \<open>getdents\<close> with the type of each entry.\<close>

function dent_types :: "u8 list \<Rightarrow> (u8 \<times> cstring) list" where
  "dent_types d =
     (if d = [] then []
      else
        (let reclen = unat (ch d DIRENT_RECLEN) + 256 * unat (ch d (DIRENT_RECLEN + 1));
             nm = takeWhile (\<lambda>c. c \<noteq> 0) (drop DIRENT_NAME d)
         in if reclen = 0 then [] else (ch d DIRENT_TYPE, nm) # dent_types (drop reclen d)))"
  by auto
termination by (relation "measure (\<lambda>d. length d)") auto

declare dent_types.simps [simp del]

definition comp_wanted :: "cstring \<Rightarrow> cstring \<Rightarrow> bool" where
  "comp_wanted pre nm \<longleftrightarrow>
     nm \<noteq> cs ''.'' \<and> nm \<noteq> cs ''..'' \<and> \<not> (deref nm = DOT \<and> deref pre \<noteq> DOT) \<and>
     take (length pre) nm = pre"

definition comp_scan_dir :: "world \<Rightarrow> cstring \<Rightarrow> cstring \<Rightarrow> bool \<Rightarrow> cstring list \<Rightarrow> shell \<Rightarrow> cstring list \<times> shell" where
  "comp_scan_dir w dir pre mark cands sh =
     (let (r, sh) = syscall w (Open dir (O_RDONLY OR O_DIRECTORY)) sh; fd = r_val r in
      if fd < 0 then (cands, sh)
      else
        (let (d, sh) = syscall w (Getdents fd) sh;
             es = filter (\<lambda>(t, nm). comp_wanted pre nm) (concat (map dent_types (r_dents d)))
         in (fold (\<lambda>(t, nm). comp_add nm (mark \<and> t = DT_DIR)) es cands, did (Close fd) sh)))"

function comp_path :: "world \<Rightarrow> cstring \<Rightarrow> cstring \<Rightarrow> cstring list \<Rightarrow> shell \<Rightarrow> cstring list \<times> shell" where
  "comp_path w pre path cands sh =
     (if path = [] then (cands, sh)
      else
        (let dir = take 255 (takeWhile (\<lambda>c. c \<noteq> 58) path); rest = drop (length dir) path;
             (cands, sh) = (if dir \<noteq> [] then comp_scan_dir w dir pre False cands sh else (cands, sh))
         in comp_path w pre (if deref rest = 58 then tl rest else rest) cands sh))"
  by pat_completeness auto
termination
proof (relation "measure (\<lambda>(w, pre, path, cands, sh). length path)", goal_cases)
  case (2 w pre path cands sh dir rest x cands' sh')
  then show ?case by (cases path) (auto simp: deref_def)
qed simp

declare comp_path.simps [simp del]

definition comp_commands :: "world \<Rightarrow> cstring \<Rightarrow> cstring list \<Rightarrow> shell \<Rightarrow> cstring list \<times> shell" where
  "comp_commands w pre cands sh =
     comp_path w pre
       (case getenv (sh_env sh) (cs ''PATH'') of Some p \<Rightarrow> if p = [] then DEFAULT_PATH else p | None \<Rightarrow> DEFAULT_PATH)
       (fold (\<lambda>b. comp_add b False) (filter (\<lambda>b. take (length pre) b = pre) BUILTINS) cands) sh"

text \<open>The directory and the prefix of a word.\<close>

definition comp_split :: "cstring \<Rightarrow> cstring \<times> cstring" where
  "comp_split word =
     (case strrchr word SLASH of
        None \<Rightarrow> (cs ''.'', word)
      | Some s \<Rightarrow>
          (let dlen = length word - length s in
           (if dlen = 0 then [SLASH] else take (min dlen 255) word, tl s)))"

fun common_len :: "cstring \<Rightarrow> cstring \<Rightarrow> nat" where
  "common_len (a # s) (b # t) = (if a = b then Suc (common_len s t) else 0)"
| "common_len _ _ = 0"

definition common_prefix_len :: "cstring list \<Rightarrow> nat" where
  "common_prefix_len cands =
     (case cands of [] \<Rightarrow> 0 | c # cs' \<Rightarrow> fold (\<lambda>d n. common_len (take n c) d) cs' (length c))"

definition CRLF :: cstring where "CRLF = [CR, LF]"

fun list_cells :: "cstring list \<Rightarrow> int \<Rightarrow> int \<Rightarrow> shell \<Rightarrow> shell" where
  "list_cells [] col per sh = (if col \<noteq> 0 then did (Fputs CRLF) sh else sh)"
| "list_cells (c # cands) col per sh =
     (let sh = did (Fputs (c @ replicate (18 - length c) SP)) sh in
      if col + 1 \<ge> per then list_cells cands 0 per (did (Fputs CRLF) sh) else list_cells cands (col + 1) per sh)"

definition complete :: "world \<Rightarrow> cstring \<Rightarrow> nat \<Rightarrow> line_t \<Rightarrow> bool \<Rightarrow> int \<Rightarrow> shell \<Rightarrow> (line_t \<times> shell) option" where
  "complete w prompt pw l second_tab cols sh =
     (let ws = word_start l; word = cstr_of (take (lcur l - ws) (drop ws (lbuf l)));
          in_dir = \<not> (is_command_position l ws \<and> SLASH \<notin> set word);
          pre = (if in_dir then snd (comp_split word) else word);
          (cands, sh) = (if in_dir then comp_scan_dir w (fst (comp_split word)) pre True [] sh
                        else comp_commands w word [] sh);
          common = common_prefix_len cands
      in if cands = [] then Some (l, sh)
         else if common > length pre then
           (let c = hd cands; l = line_insert (drop (length pre) (take common c)) l;
                l = (if length cands = 1 \<and> ch c (common - 1) \<noteq> SLASH then line_insert [SP] l else l)
            in map_option (Pair l) (redraw prompt pw l cols sh))
         else if \<not> second_tab then Some (l, sh)
         else map_option (Pair l) (redraw prompt pw l cols
                (list_cells cands 0 (if cols div 18 > 0 then cols div 18 else 1) (did (Fputs CRLF) sh))))"

section \<open>Keys\<close>

record editor =
  ln :: line_t
  hist_pos :: nat
  pending :: cstring
  last_was_tab :: bool

definition read_key :: "world \<Rightarrow> shell \<Rightarrow> u8 option \<times> shell" where
  "read_key w sh =
     (let (r, sh) = syscall w (Read 0 1) sh in (if r_val r \<le> 0 then None else Some (ch (r_bytes r) 0), sh))"

fun read_more :: "world \<Rightarrow> nat \<Rightarrow> u8 list \<Rightarrow> shell \<Rightarrow> u8 list \<times> shell" where
  "read_more w 0 s sh = (s, sh)"
| "read_more w (Suc n) s sh =
     (case read_key w sh of (None, sh) \<Rightarrow> (s, sh) | (Some c, sh) \<Rightarrow> read_more w n (s @ [c]) sh)"

text \<open>What a key leads to: the next key, or the end of the line with its result; \<open>None\<close> is undefined.\<close>

datatype after_key = More editor | Result int line_t

type_synonym pressed = "(after_key \<times> shell) option"

definition shown :: "cstring \<Rightarrow> nat \<Rightarrow> int \<Rightarrow> editor \<Rightarrow> line_t \<Rightarrow> shell \<Rightarrow> pressed" where
  "shown prompt pw cols ed l sh = map_option (\<lambda>sh. (More (ed\<lparr>ln := l\<rparr>), sh)) (redraw prompt pw l cols sh)"

definition go_next :: "line_t \<Rightarrow> line_t" where
  "go_next l = (if lcur l < length (lbuf l) then l\<lparr>lcur := utf8_next (lbuf l) (length (lbuf l)) (lcur l)\<rparr> else l)"

definition go_prev :: "line_t \<Rightarrow> line_t" where
  "go_prev l = (if lcur l > 0 then l\<lparr>lcur := utf8_prev (lbuf l) (lcur l)\<rparr> else l)"

definition delete_next :: "line_t \<Rightarrow> line_t" where
  "delete_next l =
     (if lcur l < length (lbuf l) then line_delete (lcur l) (utf8_next (lbuf l) (length (lbuf l)) (lcur l)) l else l)"

definition delete_prev :: "line_t \<Rightarrow> line_t" where
  "delete_prev l = (if lcur l > 0 then line_delete (utf8_prev (lbuf l) (lcur l)) (lcur l) l else l)"

definition delete_word :: "line_t \<Rightarrow> line_t" where
  "delete_word l =
     line_delete (back_over (\<lambda>c. c \<noteq> SP) (lbuf l) (back_over (\<lambda>c. c = SP) (lbuf l) (lcur l))) (lcur l) l"

definition hist_up :: "session \<Rightarrow> editor \<Rightarrow> editor" where
  "hist_up se ed =
     (if hist_pos ed > 0
      then ed\<lparr>pending := (if hist_pos ed = length (history se) then clip MAX_LINE (cstr_of (lbuf (ln ed))) else pending ed),
              hist_pos := hist_pos ed - 1, ln := line_set (history se ! (hist_pos ed - 1))\<rparr>
      else ed)"

definition hist_down :: "session \<Rightarrow> editor \<Rightarrow> editor" where
  "hist_down se ed =
     (if hist_pos ed < length (history se)
      then ed\<lparr>hist_pos := hist_pos ed + 1,
              ln := line_set (if hist_pos ed + 1 = length (history se) then pending ed else history se ! (hist_pos ed + 1))\<rparr>
      else ed)"

text \<open>An escape sequence, from its second byte on.\<close>

definition escape_key :: "world \<Rightarrow> cstring \<Rightarrow> nat \<Rightarrow> session \<Rightarrow> editor \<Rightarrow> shell \<Rightarrow> pressed" where
  "escape_key w prompt pw se ed sh =
     (let l = ln ed; home = l\<lparr>lcur := 0\<rparr>; end_of = l\<lparr>lcur := length (lbuf l)\<rparr>; show_it = shown prompt pw (term_cols se) in
      case read_key w sh of
        (None, sh) \<Rightarrow> Some (More ed, sh)
      | (Some a, sh) \<Rightarrow>
          if a \<noteq> 91 \<and> a \<noteq> 79 then Some (More ed, sh)
          else
            (case read_key w sh of
               (None, sh) \<Rightarrow> Some (More ed, sh)
             | (Some b, sh) \<Rightarrow>
                 if b = 65 \<or> b = 66 then
                   (if history se = [] then Some (More ed, sh)
                    else (let ed = (if b = 65 then hist_up se ed else hist_down se ed) in show_it ed (ln ed) sh))
                 else if b = 67 then show_it ed (go_next l) sh
                 else if b = 68 then show_it ed (go_prev l) sh
                 else if b = 72 then show_it ed home sh
                 else if b = 70 then show_it ed end_of sh
                 else if 49 \<le> b \<and> b \<le> 56 then
                   (case read_key w sh of
                      (None, sh) \<Rightarrow> Some (More ed, sh)
                    | (Some t, sh) \<Rightarrow>
                        show_it ed (if b = 49 then home else if b = 52 then end_of else if b = 51 then delete_next l else l) sh)
                 else Some (More ed, sh)))"

definition edit_key :: "world \<Rightarrow> cstring \<Rightarrow> nat \<Rightarrow> session \<Rightarrow> u8 \<Rightarrow> editor \<Rightarrow> shell \<Rightarrow> pressed" where
  "edit_key w prompt pw se c ed0 sh =
     (let ed = ed0\<lparr>last_was_tab := (c = TAB)\<rparr>; l = ln ed; show_it = shown prompt pw (term_cols se) ed in
      if c = CR \<or> c = LF then Some (Result (int (length (lbuf l))) l, did (Fputs CRLF) sh)
      else if c = 3 then Some (Result 0 \<lparr>lbuf = [], lcur = 0\<rparr>, did (Fputs ([94, 67] @ CRLF)) sh)
      else if c = 4 then (if lbuf l = [] then Some (Result (-1) l, sh) else show_it (delete_next l) sh)
      else if c = 127 \<or> c = 8 then show_it (delete_prev l) sh
      else if c = 1 then show_it (l\<lparr>lcur := 0\<rparr>) sh
      else if c = 5 then show_it (l\<lparr>lcur := length (lbuf l)\<rparr>) sh
      else if c = 21 then show_it (line_delete 0 (lcur l) l) sh
      else if c = 11 then show_it (l\<lparr>lbuf := take (lcur l) (lbuf l)\<rparr>) sh
      else if c = 23 then show_it (delete_word l) sh
      else if c = 12 then show_it l (did (Fputs [27, 91, 72, 27, 91, 50, 74]) sh)
      else if c = TAB then
        map_option (\<lambda>(l, sh). (More (ed\<lparr>ln := l\<rparr>), sh)) (complete w prompt pw l (last_was_tab ed0) (term_cols se) sh)
      else if c = 27 then escape_key w prompt pw se ed sh
      else if c < 32 then Some (More ed, sh)
      else (let (t, sh) = read_more w (utf8_seq_len c - 1) [c] sh in show_it (line_insert t l) sh))"

fun edit_loop :: "world \<Rightarrow> cstring \<Rightarrow> nat \<Rightarrow> session \<Rightarrow> nat \<Rightarrow> editor \<Rightarrow> shell \<Rightarrow> stop + (int \<times> line_t \<times> shell)" where
  "edit_loop w prompt pw se 0 ed sh = Inl No_fuel"
| "edit_loop w prompt pw se (Suc k) ed sh =
     (case read_key w sh of
        (None, sh) \<Rightarrow> Inr (-1, ln ed, sh)
      | (Some c, sh) \<Rightarrow>
          (case edit_key w prompt pw se c ed sh of
             None \<Rightarrow> Inl Undefined
           | Some (More ed, sh) \<Rightarrow> edit_loop w prompt pw se k ed sh
           | Some (Result r l, sh) \<Rightarrow> Inr (r, l, sh)))"

definition edit_line :: "world \<Rightarrow> nat \<Rightarrow> cstring \<Rightarrow> nat \<Rightarrow> session \<Rightarrow> shell \<Rightarrow> stop + (int \<times> cstring \<times> session \<times> shell)" where
  "edit_line w k prompt pw se sh =
     (let (r, sh) = syscall w (Term_raw 0) sh in
      if r_val r < 0 then
        (let (len, l, sh) = read_a_line w 0 (did (Fputs prompt) sh) in Inr (len, l, se, sh))
      else
        (let (z, sh) = syscall w (Term_size 1) sh; se = se\<lparr>term_cols := snd (r_ends z)\<rparr>;
             l = \<lparr>lbuf = [], lcur = 0\<rparr>
         in case redraw prompt pw l (term_cols se) sh of
              None \<Rightarrow> Inl Undefined
            | Some sh \<Rightarrow>
                andthen (edit_loop w prompt pw se k
                    \<lparr>ln = l, hist_pos = length (history se), pending = [], last_was_tab = False\<rparr> sh) (\<lambda>(r, l, sh).
                  Inr (r, clip MAX_LINE (cstr_of (lbuf l)), se, did (Term_restore 0) sh))))"

section \<open>The prompt\<close>

definition read_hostname :: "world \<Rightarrow> session \<Rightarrow> shell \<Rightarrow> session \<times> shell" where
  "read_hostname w se sh =
     (let (r, sh) = syscall w (Proc_read (cs ''/proc/sys/kernel/hostname'') 80) sh;
          nm = takeWhile (\<lambda>c. c \<noteq> LF) (cstr_of (r_bytes r))
      in (if r_val r > 0 \<and> nm \<noteq> [] \<and> nm \<noteq> cs ''(none)'' then se\<lparr>hostname := clip 64 nm\<rparr> else se, sh))"

definition build_prompt :: "world \<Rightarrow> session \<Rightarrow> shell \<Rightarrow> stop + (cstring \<times> nat \<times> shell)" where
  "build_prompt w se sh =
     (let (r, sh) = syscall w (Getcwd 256) sh;
          cwd = (if r_val r < 0 then cs ''?'' else cstr_of (r_bytes r));
          at_home = (take (length HOME_DIR) cwd = HOME_DIR \<and> ch cwd (length HOME_DIR) \<in> {0, SLASH});
          where_at = (if at_home then clip 300 (TILDE # drop (length HOME_DIR) cwd) else cwd)
      in case (if last_status sh \<noteq> 0
               then stext 384 (cs ''[%d] root@%s:%s# '') [anum (last_status sh), astr (hostname se), astr where_at]
               else stext 384 (cs ''root@%s:%s# '') [astr (hostname se), astr where_at]) of
           None \<Rightarrow> Inl Undefined
         | Some t \<Rightarrow> Inr (t, utf8_str_width t (length t) 0 0, sh))"

section \<open>The main program\<close>

definition remember :: "world \<Rightarrow> cstring \<Rightarrow> session \<Rightarrow> shell \<Rightarrow> session \<times> shell" where
  "remember w l se sh = (hist_add w l se, hist_save_one w l sh)"

text \<open>More lines of an unfinished block, each with a prompt of its own.\<close>

fun more_typed :: "world \<Rightarrow> nat \<Rightarrow> int \<Rightarrow> nat \<Rightarrow> session \<Rightarrow> shell \<Rightarrow> stop + (nat \<times> session \<times> shell)" where
  "more_typed w 0 depth n se sh = Inl No_fuel"
| "more_typed w (Suc k) depth n se sh =
     (if \<not> (depth > 0 \<and> n < MAX_BLOCK - 8 \<and> running sh) then Inr (n, se, sh)
      else
        andthen (edit_line w k (cs ''> '') 2 se sh) (\<lambda>(len, line, se, sh).
          if len < 0 then
            Inr (0, se, say (cs ''sh: unexpected end - %d block%s left open'' @ [LF])
                          [anum depth, astr (if depth = 1 then [] else cs ''s'')] sh)
          else if len = 0 then more_typed w k depth n se sh
          else
            (let (se, sh) = remember w line se sh in
             if deref line = HASH then more_typed w k depth n se sh
             else (let (m, d, sh) = split_into Script n line sh in more_typed w k (depth + d) (n + m) se sh))))"

fun prompt_loop :: "world \<Rightarrow> nat \<Rightarrow> session \<Rightarrow> shell \<Rightarrow> stop + (session \<times> shell)" where
  "prompt_loop w 0 se sh = Inl No_fuel"
| "prompt_loop w (Suc k) se sh =
     (if \<not> running sh then Inr (se, sh)
      else
        andthen (build_prompt w se (reap_jobs w (did (Term_sane 0) sh))) (\<lambda>(prompt, pw, sh).
        andthen (edit_line w k prompt pw se sh) (\<lambda>(len, line, se, sh).
          if len < 0 then Inr (se, out_line [LF] [] sh)
          else if len = 0 then prompt_loop w k se sh
          else
            (let (se, sh) = remember w line se sh in
             if deref line = HASH then prompt_loop w k se sh
             else
               (let (m, d, sh) = split_into Script 0 line sh in
                andthen (more_typed w k d m se sh) (\<lambda>(n, se, sh).
                andthen (if n > 0 then exec_block w (run_logical_line w k) k Script 0 n 0 sh else Inr sh) (\<lambda>sh.
                  prompt_loop w k se sh)))))))"

definition interactive :: "world \<Rightarrow> nat \<Rightarrow> shell \<Rightarrow> stop + (int \<times> shell)" where
  "interactive w k sh =
     (let sh = fold did (map Signal_ignore [SIGINT, SIGQUIT, SIGTSTP, SIGTTIN, SIGTTOU]) sh;
          (se, sh) = read_hostname w start_session sh
      in andthen (hist_load w k se sh) (\<lambda>(se, sh).
         let (there, sh) = asks w (Is_dir HOME_DIR) sh; sh = (if there then did (Chdir HOME_DIR) sh else sh) in
         andthen (source_file w k (cs ''/etc/profile'') sh) (\<lambda>sh.
           let home = (case getenv (sh_env sh) (cs ''HOME'') of Some h \<Rightarrow> if h = [] then HOME_DIR else h | None \<Rightarrow> HOME_DIR) in
           andthen (source_file w k (clip 512 (home @ cs ''/.profile'')) sh) (\<lambda>sh.
           andthen (prompt_loop w k se sh) (\<lambda>(se, sh). Inr (last_status sh, sh))))))"

text \<open>\<open>args\<close> are the arguments after the name of the program.\<close>

definition sh_main :: "world \<Rightarrow> nat \<Rightarrow> cstring list \<Rightarrow> shell \<Rightarrow> stop + (int \<times> shell)" where
  "sh_main w k args sh =
     (let quiet = (args \<noteq> [] \<and> hd args = cs ''-q''); args = (if quiet then tl args else args) in
      case args of
        [] \<Rightarrow> interactive w k sh
      | a # rest \<Rightarrow>
          if a = cs ''-c'' then
            (case rest of
               [] \<Rightarrow> Inr (2, say (cs ''sh: -c needs something to run'' @ [LF]) [] sh)
             | t # ps \<Rightarrow> run_command w k t ps sh)
          else run_script w k quiet a rest sh)"

end
