(* ===== verification/ShEdit.thy ===== *)
theory ShEdit
  imports ShLine ShTable StdioLine HttpFormat
begin

text \<open>
  The line editor on text that is UTF-8: the bytes and the cursor are those of the characters before
  and after it, every key does to the line what it does to these, and no redraw is undefined.
\<close>

section \<open>Slices of characters\<close>

definition chars :: "u32 list \<Rightarrow> bool" where
  "chars cps \<longleftrightarrow> list_all (\<lambda>cp. 32 \<le> cp \<and> cp < 0x200000) cps"

lemma chars_simps [simp]:
  "chars []" "chars (cp # cps) \<longleftrightarrow> 32 \<le> cp \<and> cp < 0x200000 \<and> chars cps" "chars (xs @ ys) \<longleftrightarrow> chars xs \<and> chars ys"
  by (auto simp: chars_def)

lemma utf8_simps [simp]: "utf8 [] = []" "utf8 (cp # cps) = utf8_encode cp @ utf8 cps" "utf8 (xs @ ys) = utf8 xs @ utf8 ys"
  by (simp_all add: utf8_def)

lemma utf8_encode_pos [simp]: "utf8_encode cp \<noteq> []"
  by (simp add: utf8_encode_def)

lemma utf8_Nil_iff [simp]: "utf8 t = [] \<longleftrightarrow> t = []"
  by (cases t) simp_all

definition columns :: "u32 list \<Rightarrow> nat" where
  "columns cps = sum_list (map utf8_width cps)"

lemma columns_simps [simp]: "columns [] = 0" "columns (cp # cps) = utf8_width cp + columns cps" "columns (xs @ ys) = columns xs + columns ys"
  by (simp_all add: columns_def)

lemma width_chars:
  "chars cps \<Longrightarrow> utf8_str_width (pre @ utf8 cps @ post) (length pre + length (utf8 cps)) (length pre) v = v + columns cps"
proof (induction cps arbitrary: pre v)
  case Nil
  then show ?case by (simp add: utf8_str_width.simps)
next
  case (Cons cp cps)
  have cp: "cp < 0x200000" using Cons.prems by simp
  have "utf8_decode (utf8_encode cp @ utf8 cps @ post) (length (utf8_encode cp) + length (utf8 cps)) = (cp, length (utf8_encode cp))"
    by (rule utf8_decode_encode [OF cp])
  with Cons.IH [of "pre @ utf8_encode cp" "v + utf8_width cp"] Cons.prems show ?case
    by (subst utf8_str_width.simps) (simp add: add.assoc)
qed

lemma slice_chars:
  assumes "chars y" shows "slice_width (utf8 (x @ y @ z)) (length (utf8 x)) (length (utf8 (x @ y))) = Some (columns y)"
  using width_chars [OF assms, of "[]" "utf8 z" 0] by (simp add: slice_width_def)

lemma next_chars:
  assumes "cp < 0x200000"
  shows "utf8_next (utf8 (x @ cp # z)) (length (utf8 (x @ cp # z))) (length (utf8 x)) = length (utf8 (x @ [cp]))"
  using utf8_step_back(1) [OF assms, of _ "utf8 x" "utf8 z"] by simp

lemma prev_chars:
  assumes "cp < 0x200000"
  shows "utf8_prev (utf8 (x @ cp # z)) (length (utf8 (x @ [cp]))) = length (utf8 x)"
  using utf8_step_back(2) [OF assms, of _ "utf8 x" "utf8 z"] by simp

lemma encode_length: "length (utf8_encode cp) > 0"
  by (simp add: utf8_encode_def)

section \<open>Drawing the line\<close>

text \<open>The window begins before some character that is not after the cursor, and shows the cursor.\<close>

lemma window_start_chars:
  "chars (y @ z) \<Longrightarrow> \<exists>x' y'. x @ y = x' @ y' \<and> columns y' \<le> avail \<and>
     window_start (utf8 (x @ y @ z)) (length (utf8 (x @ y))) avail (length (utf8 x)) = Some (length (utf8 x'))"
proof (induction y arbitrary: x)
  case Nil
  then show ?case using slice_chars [of "[]" x z]
    by (intro exI [of _ x] exI [of _ "[]"]) (simp add: window_start.simps)
next
  case (Cons cp y)
  have w: "slice_width (utf8 (x @ (cp # y) @ z)) (length (utf8 x)) (length (utf8 (x @ cp # y))) = Some (columns (cp # y))"
    using slice_chars [of "cp # y" x z] Cons.prems by simp
  show ?case
  proof (cases "columns (cp # y) \<le> avail")
    case True
    then show ?thesis using w
      by (intro exI [of _ x] exI [of _ "cp # y"]) (simp add: window_start.simps)
  next
    case False
    have n: "utf8_next (utf8 (x @ (cp # y) @ z)) (length (utf8 (x @ (cp # y) @ z))) (length (utf8 x)) = length (utf8 (x @ [cp]))"
      using next_chars [of cp x "y @ z"] Cons.prems by simp
    have "window_start (utf8 (x @ (cp # y) @ z)) (length (utf8 (x @ cp # y))) avail (length (utf8 x)) =
        window_start (utf8 ((x @ [cp]) @ y @ z)) (length (utf8 ((x @ [cp]) @ y))) avail (length (utf8 (x @ [cp])))"
      using w n False encode_length [of cp] by (subst window_start.simps) simp
    with Cons.IH [of "x @ [cp]"] Cons.prems show ?thesis by simp
  qed
qed

text \<open>It ends where the next character would be too much.\<close>

lemma window_end_chars:
  "chars (m @ rest) \<Longrightarrow> \<exists>m' rest'. m @ rest = m' @ rest' \<and>
     window_end (utf8 (s @ m @ rest)) avail (length (utf8 s)) (length (utf8 (s @ m))) = Some (length (utf8 (s @ m'))) \<and>
     (\<forall>u v. m @ rest = u @ v \<longrightarrow> columns u \<le> avail \<longrightarrow> length u \<le> length m')"
proof (induction rest arbitrary: m)
  case Nil
  have "window_end (utf8 (s @ m @ [])) avail (length (utf8 s)) (length (utf8 (s @ m))) = Some (length (utf8 (s @ m)))"
    by (simp add: window_end.simps)
  then show ?case by (intro exI [of _ m] exI [of _ "[]"]) auto
next
  case (Cons cp rest)
  let ?t = "utf8 (s @ m @ cp # rest)"
  have n: "utf8_next ?t (length ?t) (length (utf8 (s @ m))) = length (utf8 (s @ (m @ [cp])))"
    using next_chars [of cp "s @ m" rest] Cons.prems by simp
  have w: "slice_width ?t (length (utf8 s)) (length (utf8 (s @ (m @ [cp])))) = Some (columns (m @ [cp]))"
    using slice_chars [of "m @ [cp]" s rest] Cons.prems by simp
  show ?case
  proof (cases "columns (m @ [cp]) \<le> avail")
    case True
    have "window_end ?t avail (length (utf8 s)) (length (utf8 (s @ m))) =
        window_end (utf8 (s @ (m @ [cp]) @ rest)) avail (length (utf8 s)) (length (utf8 (s @ (m @ [cp]))))"
      by (subst window_end.simps, simp only: n w Let_def option.case)
        (use True encode_length [of cp] in simp)
    then show ?thesis using Cons.IH [of "m @ [cp]"] Cons.prems by simp
  next
    case False
    have e: "window_end ?t avail (length (utf8 s)) (length (utf8 (s @ m))) = Some (length (utf8 (s @ m)))"
      by (subst window_end.simps, simp only: n w Let_def option.case)
        (use False encode_length [of cp] in simp)
    have "length u \<le> length m" if u: "m @ cp # rest = u @ v" "columns u \<le> avail" for u v
    proof (rule ccontr)
      assume "\<not> length u \<le> length m"
      then have "take (Suc (length m)) u = m @ [cp]" using arg_cong [OF u(1), of "take (Suc (length m))"] by simp
      then have "u = (m @ [cp]) @ drop (Suc (length m)) u" by (metis append_take_drop_id)
      then have "columns u \<ge> columns (m @ [cp])" by (metis columns_simps(3) le_add1)
      with u(2) False show False by simp
    qed
    then show ?thesis using e by (intro exI [of _ m] exI [of _ "cp # rest"]) auto
  qed
qed

text \<open>What a key writes is no key.\<close>

definition reads :: "call list \<Rightarrow> nat" where
  "reads past = length (filter ((=) (Read 0 1)) past)"

definition will_type :: "world \<Rightarrow> u8 list \<Rightarrow> shell \<Rightarrow> bool" where
  "will_type w bs sh \<longleftrightarrow> (\<forall>i < length bs. \<forall>past. reads past = reads (calls sh) + i \<longrightarrow>
     0 < r_val (kernel w past (Read 0 1)) \<and> r_bytes (kernel w past (Read 0 1)) = [bs ! i])"

definition draws :: "shell \<Rightarrow> shell \<Rightarrow> bool" where
  "draws sh sh' \<longleftrightarrow> reads (calls sh') = reads (calls sh)"

lemma draws_simps [simp]: "draws sh sh" "c \<noteq> Read 0 1 \<Longrightarrow> draws sh (did c sh') = draws sh sh'"
  by (auto simp: draws_def did_def reads_def)

lemma types_draws: "draws sh sh' \<Longrightarrow> will_type w bs sh' = will_type w bs sh"
  by (simp add: will_type_def draws_def)

lemma read_key_types:
  assumes "will_type w (c # bs) sh" shows "\<exists>sh'. read_key w sh = (Some c, sh') \<and> will_type w bs sh'"
proof -
  have "0 < r_val (kernel w (calls sh) (Read 0 1)) \<and> r_bytes (kernel w (calls sh) (Read 0 1)) = [c]"
    using assms by (auto simp: will_type_def dest!: spec [of _ 0])
  moreover have "will_type w bs (sh\<lparr>calls := calls sh @ [Read 0 1]\<rparr>)"
    unfolding will_type_def
  proof (intro allI impI)
    fix i past
    assume "i < length bs" "reads past = reads (calls (sh\<lparr>calls := calls sh @ [Read 0 1]\<rparr>)) + i"
    then have "Suc i < length (c # bs)" "reads past = reads (calls sh) + Suc i" by (simp_all add: reads_def)
    then show "0 < r_val (kernel w past (Read 0 1)) \<and> r_bytes (kernel w past (Read 0 1)) = [bs ! i]"
      using assms unfolding will_type_def by fastforce
  qed
  ultimately show ?thesis by (simp add: read_key_def syscall_def)
qed

lemma format_d: "format_text (cs ''%d'') [Num v] \<noteq> None"
  by (simp add: cs_def format_text.simps(2) format_spec_def format_width_def format_precision_def convert_text_def va_signed_def Let_def)

lemma decimal_defined: "\<exists>d. decimal v = Some d"
proof -
  obtain t where "format_text (cs ''%d'') [anum v] = Some t" using format_d by (auto simp: anum_def)
  from sbuf_text [OF _ _ this, of 16] show ?thesis by (simp add: decimal_def stext_def)
qed

section \<open>The characters before and after the cursor\<close>

type_synonym zipper = "u32 list \<times> u32 list"

definition holds :: "line_t \<Rightarrow> zipper \<Rightarrow> bool" where
  "holds l z \<longleftrightarrow> chars (fst z @ snd z) \<and> lbuf l = utf8 (fst z @ snd z) \<and> lcur l = length (utf8 (fst z)) \<and>
     length (utf8 (fst z @ snd z)) < MAX_LINE"

lemma redraw_holds:
  assumes "holds l z" shows "\<exists>sh'. redraw prompt pw l cols sh = Some sh' \<and> draws sh sh'"
proof -
  obtain b a where z: "z = (b, a)" by fastforce
  let ?avail = "nat (max 8 (cols - int pw - 1))"
  have ch: "chars (b @ a)" and l: "lbuf l = utf8 (b @ a)" "lcur l = length (utf8 b)" using assms z by (simp_all add: holds_def)
  obtain x y where xy: "b = x @ y" "columns y \<le> ?avail" and ws: "window_start (lbuf l) (lcur l) ?avail 0 = Some (length (utf8 x))"
    using window_start_chars [of b a "[]" ?avail] ch l by auto
  have chya: "chars (y @ a)" and le: "lbuf l = utf8 (x @ y @ a)" using ch l xy(1) by simp_all
  obtain m r where m: "y @ a = m @ r" and we: "window_end (lbuf l) ?avail (length (utf8 x)) (length (utf8 x)) = Some (length (utf8 (x @ m)))"
    and up: "\<forall>u v. y @ a = u @ v \<longrightarrow> columns u \<le> ?avail \<longrightarrow> length u \<le> length m"
    using window_end_chars [of "[]" "y @ a" x ?avail] chya unfolding append_Nil append_Nil2 le [symmetric] by blast
  have "length y \<le> length m" using up xy(2) by blast
  then obtain q where q: "m = y @ q" using m by (metis append_eq_append_conv_if append_take_drop_id)
  have "lbuf l = utf8 ((x @ y) @ q @ r)" using l xy(1) m q by simp
  moreover have "chars q" using ch xy(1) m q by (metis append.assoc chars_simps(3))
  ultimately have "slice_width (lbuf l) (lcur l) (length (utf8 (x @ m))) = Some (columns q)"
    using slice_chars [of q "x @ y" r] l(2) xy(1) q by simp
  moreover obtain d where "decimal (int (columns q)) = Some d" using decimal_defined by blast
  ultimately show ?thesis by (simp add: redraw_def ws we Let_def del: utf8_simps)
qed

section \<open>Keys\<close>

datatype ekey =
    Type_char u32 | Erase_back | Erase_next | Go_left | Go_right | Go_home | Go_end
  | Cut_start | Cut_end | Cut_word | Clear

fun ekey_bytes :: "ekey \<Rightarrow> u8 list" where
  "ekey_bytes (Type_char cp) = utf8_encode cp"
| "ekey_bytes Erase_back = [127]"
| "ekey_bytes Erase_next = [27, 91, 51, 126]"
| "ekey_bytes Go_left = [27, 91, 68]"
| "ekey_bytes Go_right = [27, 91, 67]"
| "ekey_bytes Go_home = [1]"
| "ekey_bytes Go_end = [5]"
| "ekey_bytes Cut_start = [21]"
| "ekey_bytes Cut_end = [11]"
| "ekey_bytes Cut_word = [23]"
| "ekey_bytes Clear = [12]"

definition typed_char :: "ekey \<Rightarrow> bool" where
  "typed_char k \<longleftrightarrow> (case k of Type_char cp \<Rightarrow> 32 \<le> cp \<and> cp \<noteq> 127 \<and> cp < 0x200000 | _ \<Rightarrow> True)"

text \<open>What a key does to the characters before and after the cursor; a full line takes no more.\<close>

fun press :: "ekey \<Rightarrow> zipper \<Rightarrow> zipper" where
  "press (Type_char cp) (b, a) =
     (if length (utf8 (b @ a)) + length (utf8_encode cp) < MAX_LINE then (b @ [cp], a) else (b, a))"
| "press Erase_back (b, a) = (butlast b, a)"
| "press Erase_next (b, a) = (b, tl a)"
| "press Go_left (b, a) = (if b = [] then (b, a) else (butlast b, last b # a))"
| "press Go_right (b, a) = (if a = [] then (b, a) else (b @ [hd a], tl a))"
| "press Go_home (b, a) = ([], b @ a)"
| "press Go_end (b, a) = (b @ a, [])"
| "press Cut_start (b, a) = ([], a)"
| "press Cut_end (b, a) = (b, [])"
| "press Cut_word (b, a) = (rev (dropWhile (\<lambda>c. c \<noteq> 32) (dropWhile (\<lambda>c. c = 32) (rev b))), a)"
| "press Clear (b, a) = (b, a)"

lemma encode_byte:
  assumes "cp < 0x200000" "c \<in> set (utf8_encode cp)" "c < 128"
  shows "utf8_encode cp = [c] \<and> cp < 128 \<and> c = ucast cp"
proof (cases "cp < 0x80")
  case True
  then show ?thesis using assms(2) by (simp add: utf8_encode_def)
next
  case False
  obtain lead conts where e: "utf8_encode cp = lead # conts" "utf8_seq_len lead = Suc (length conts)" "list_all utf8_is_cont conts"
    using utf8_encode_shape [OF assms(1)] .
  have "conts \<noteq> []" using e(1) False by (auto simp: utf8_encode_def split: if_splits)
  then have "\<not> lead < 128" using e(2) by (auto simp: utf8_seq_len_def)
  moreover have "\<not> c < 128" if "utf8_is_cont c" for c
  proof
    assume "c < 128"
    then have "\<not> bit c 7" using bit_high_False [of c 7 7] by simp
    then have "bit (c AND 0xC0) 7 \<noteq> bit (0x80 :: u8) 7" by (simp add: bit_simps)
    with that show False by (simp add: utf8_is_cont_def)
  qed
  ultimately show ?thesis using assms(2,3) e(1,3) by (auto simp: list_all_iff)
qed

lemma unat_ucast_byte: "cp < 128 \<Longrightarrow> unat (ucast (cp :: u32) :: u8) = unat cp"
  by (simp add: unsigned_ucast_eq take_bit_nat_eq_self word_less_nat_alt)

text \<open>A control byte is no byte of a character that is typed.\<close>

lemma encode_not_control:
  assumes "32 \<le> cp" "cp \<noteq> 127" "cp < 0x200000" "c \<in> set (utf8_encode cp)"
  shows "\<not> c < 32 \<and> c \<noteq> 127"
proof (cases "c < 128")
  case True
  from encode_byte [OF assms(3,4) True] have "cp < 128" "c = ucast cp" by simp_all
  then have "unat c = unat cp" by (simp add: unsigned_ucast_eq take_bit_nat_eq_self word_less_nat_alt)
  then show ?thesis using assms(1,2) by (auto simp: word_less_nat_alt word_le_nat_alt word_unat_eq_iff)
next
  case False
  then show ?thesis by (auto simp: word_less_nat_alt)
qed

lemma encode_space:
  assumes "cp < 0x200000" shows "SP \<in> set (utf8_encode cp) \<longleftrightarrow> cp = 32"
proof
  assume "SP \<in> set (utf8_encode cp)"
  from encode_byte [OF assms this] have "cp < 128" "SP = ucast cp" by simp_all
  then have "unat cp = 32" using unat_ucast_byte [of cp] by simp
  then show "cp = 32" by (simp add: word_unat_eq_iff)
qed (simp add: utf8_encode_def)

lemma back_over_chars:
  assumes "\<And>cp. cp < 0x200000 \<Longrightarrow> (if P cp then list_all f (utf8_encode cp) else \<not> f (last (utf8_encode cp)))"
  shows "chars b \<Longrightarrow> back_over f (utf8 b @ r) (length (utf8 b)) = length (utf8 (rev (dropWhile P (rev b))))"
proof (induction b arbitrary: r rule: rev_induct)
  case (snoc cp b)
  have cp: "cp < 0x200000" using snoc.prems by simp
  have go: "list_all f e \<Longrightarrow> back_over f (x @ e @ r) (length x + length e) = back_over f (x @ e @ r) (length x)" for e x :: "u8 list" and r
  proof (induction e arbitrary: r rule: rev_induct)
    case (snoc c e)
    have "ch (x @ (e @ [c]) @ r) (length x + length e) = c" by (simp add: ch_def nth_append)
    then show ?case using snoc.IH [of "[c] @ r"] snoc.prems by simp
  qed simp
  show ?case
  proof (cases "P cp")
    case True
    then have "list_all f (utf8_encode cp)" using assms [OF cp] by simp
    then show ?thesis using go [of "utf8_encode cp" "utf8 b" r] snoc.IH [of "utf8_encode cp @ r"] snoc.prems True by simp
  next
    case False
    obtain e c where e: "utf8_encode cp = e @ [c]" by (metis utf8_encode_pos rev_exhaust)
    then have "\<not> f c" using assms [OF cp] False by simp
    moreover have "ch (utf8 b @ (e @ [c]) @ r) (length (utf8 b) + length e) = c" by (simp add: ch_def nth_append)
    ultimately show ?thesis using e False by simp
  qed
qed simp

section \<open>Keys on the line\<close>

lemma holds_chars: "holds l (b, a) \<Longrightarrow> chars b \<and> chars a"
  by (simp add: holds_def)

lemma holds_next: "holds l z \<Longrightarrow> holds (go_next l) (press Go_right z)"
proof (cases z)
  case (Pair b a)
  assume h: "holds l z"
  show ?thesis
  proof (cases a)
    case Nil
    then show ?thesis using h Pair by (simp add: holds_def go_next_def)
  next
    case (Cons cp a')
    then have "utf8_next (lbuf l) (length (lbuf l)) (lcur l) = length (utf8 (b @ [cp]))"
      using next_chars [of cp b a'] h Pair by (simp add: holds_def)
    then show ?thesis using h Pair Cons encode_length [of cp] by (simp add: holds_def go_next_def)
  qed
qed

lemma holds_prev: "holds l z \<Longrightarrow> holds (go_prev l) (press Go_left z)"
proof (cases z)
  case (Pair b a)
  assume h: "holds l z"
  show ?thesis
  proof (cases b rule: rev_cases)
    case Nil
    then show ?thesis using h Pair by (simp add: holds_def go_prev_def)
  next
    case (snoc b' cp)
    then have "utf8_prev (lbuf l) (lcur l) = length (utf8 b')"
      using prev_chars [of cp b' a] h Pair by (simp add: holds_def)
    then show ?thesis using h Pair snoc encode_length [of cp] by (simp add: holds_def go_prev_def)
  qed
qed

text \<open>Deleting the characters from one place to another, where the cursor is at one of the two.\<close>

lemma holds_delete:
  assumes "chars (x @ y @ z)" "lbuf l = utf8 (x @ y @ z)" "length (utf8 (x @ y @ z)) < MAX_LINE" "lcur l = length (utf8 x)"
  shows "holds (line_delete (length (utf8 x)) (length (utf8 (x @ y))) l) (x, z)"
  using assms by (auto simp: holds_def line_delete_def)

lemma holds_delete_back:
  assumes "chars (x @ y @ z)" "lbuf l = utf8 (x @ y @ z)" "length (utf8 (x @ y @ z)) < MAX_LINE" "lcur l = length (utf8 (x @ y))"
  shows "holds (line_delete (length (utf8 x)) (lcur l) l) (x, z)"
  using assms by (auto simp: holds_def line_delete_def)

lemma holds_delete_next: "holds l z \<Longrightarrow> holds (delete_next l) (press Erase_next z)"
proof (cases z)
  case (Pair b a)
  assume h: "holds l z"
  show ?thesis
  proof (cases a)
    case Nil
    then show ?thesis using h Pair by (simp add: holds_def delete_next_def)
  next
    case (Cons cp a')
    then have "utf8_next (lbuf l) (length (lbuf l)) (lcur l) = length (utf8 (b @ [cp]))"
      using next_chars [of cp b a'] h Pair by (simp add: holds_def)
    then show ?thesis using holds_delete [of b "[cp]" a' l] h Pair Cons encode_length [of cp] by (simp add: holds_def delete_next_def)
  qed
qed

lemma holds_delete_prev: "holds l z \<Longrightarrow> holds (delete_prev l) (press Erase_back z)"
proof (cases z)
  case (Pair b a)
  assume h: "holds l z"
  show ?thesis
  proof (cases b rule: rev_cases)
    case Nil
    then show ?thesis using h Pair by (simp add: holds_def delete_prev_def)
  next
    case (snoc b' cp)
    then have "utf8_prev (lbuf l) (lcur l) = length (utf8 b')"
      using prev_chars [of cp b' a] h Pair by (simp add: holds_def)
    then show ?thesis using holds_delete_back [of b' "[cp]" a l] h Pair snoc encode_length [of cp] by (simp add: holds_def delete_prev_def)
  qed
qed

lemma rev_split: "b = rev (dropWhile P (rev b)) @ rev (takeWhile P (rev b))"
  by (simp add: rev_append [symmetric] del: rev_append)

lemma holds_delete_word:
  assumes "holds l (b, a)" shows "holds (delete_word l) (press Cut_word (b, a))"
proof -
  let ?c = "rev (dropWhile (\<lambda>c. c = 32) (rev b))"
  let ?d = "rev (dropWhile (\<lambda>c. c \<noteq> 32) (dropWhile (\<lambda>c. c = 32) (rev b)))"
  have ch: "chars b" "chars a" and l: "lbuf l = utf8 b @ utf8 a" "lcur l = length (utf8 b)" "length (utf8 b @ utf8 a) < MAX_LINE"
    using assms by (simp_all add: holds_def)
  have sp: "utf8_encode 32 = [SP]" by (simp add: utf8_encode_def)
  have e: "if cp = 32 then list_all (\<lambda>c. c = SP) (utf8_encode cp) else \<not> (last (utf8_encode cp) = SP)" if "cp < 0x200000" for cp
  proof (cases "cp = 32")
    case False
    then have "SP \<notin> set (utf8_encode cp)" using encode_space [OF that] by simp
    then have "last (utf8_encode cp) \<noteq> SP" using last_in_set [OF utf8_encode_pos [of cp]] by metis
    then show ?thesis using False by simp
  qed (simp add: sp)
  have e': "if cp \<noteq> 32 then list_all (\<lambda>c. c \<noteq> SP) (utf8_encode cp) else \<not> (last (utf8_encode cp) \<noteq> SP)" if "cp < 0x200000" for cp
    using encode_space [OF that] sp by (cases "cp = 32") (auto simp: list_all_iff)
  obtain s where s: "b = ?c @ s" using rev_split [of b] by blast
  obtain t where t: "?c = ?d @ t" using rev_split [of ?c] by simp blast
  have "chars (?c @ s)" using ch(1) s by simp
  then have "chars ?c" by simp
  have "back_over (\<lambda>c. c = SP) (lbuf l) (lcur l) = length (utf8 ?c)"
    unfolding l(1,2) by (rule back_over_chars [where P = "\<lambda>c. c = 32", OF e ch(1)])
  moreover have "lbuf l = utf8 ?c @ utf8 s @ utf8 a" using l(1) arg_cong [OF s, of utf8] by simp
  then have "back_over (\<lambda>c. c \<noteq> SP) (lbuf l) (length (utf8 ?c)) = length (utf8 (rev (dropWhile (\<lambda>c. c \<noteq> 32) (rev ?c))))"
    by (simp only:) (rule back_over_chars [where P = "\<lambda>c. c \<noteq> 32", OF e' \<open>chars ?c\<close>])
  ultimately have "delete_word l = line_delete (length (utf8 ?d)) (lcur l) l" by (simp add: delete_word_def)
  moreover have b: "b = ?d @ t @ s" using s t by (metis append.assoc)
  have "utf8 ?d @ utf8 (t @ s) = utf8 b" using arg_cong [OF b, of utf8] by simp
  moreover have "chars (?d @ t @ s)" using ch(1) b by simp
  ultimately show ?thesis using holds_delete_back [of ?d "t @ s" a l] ch(2) l by (simp del: append_assoc add: append_assoc [symmetric])
qed

lemma holds_insert:
  assumes "holds l (b, a)" "32 \<le> cp" "cp < 0x200000"
  shows "holds (line_insert (utf8_encode cp) l) (press (Type_char cp) (b, a))"
  using assms by (auto simp: holds_def line_insert_def)

section \<open>Keys in the loop\<close>

lemma shown_holds:
  assumes "holds l z"
  shows "\<exists>sh'. shown prompt pw cols ed l sh = Some (More (ed\<lparr>ln := l\<rparr>), sh') \<and> draws sh sh'"
  using redraw_holds [OF assms, of prompt pw cols sh] by (auto simp: shown_def)

text \<open>The bytes after the first one of a character.\<close>

lemma read_more_types: "will_type w (t @ bs) sh \<Longrightarrow> \<exists>sh'. read_more w (length t) s sh = (s @ t, sh') \<and> will_type w bs sh'"
proof (induction t arbitrary: s sh)
  case (Cons c t)
  obtain sh1 where k: "read_key w sh = (Some c, sh1)" and t: "will_type w (t @ bs) sh1"
    using read_key_types [of w c "t @ bs" sh] Cons.prems by auto
  from Cons.IH [OF t, of "s @ [c]"] k show ?case by simp
qed simp

definition follows :: "world \<Rightarrow> cstring \<Rightarrow> nat \<Rightarrow> session \<Rightarrow> editor \<Rightarrow> shell \<Rightarrow> zipper \<Rightarrow> u8 list \<Rightarrow> bool" where
  "follows w prompt pw se ed sh z bs \<longleftrightarrow>
     (\<exists>ed' sh'. (\<forall>m. edit_loop w prompt pw se (Suc m) ed sh = edit_loop w prompt pw se m ed' sh') \<and>
        holds (ln ed') z \<and> will_type w bs sh')"

lemma follows_shown:
  assumes "read_key w sh = (Some c, sh1)" "edit_key w prompt pw se c ed sh1 = shown prompt pw (term_cols se) ed1 l sh2"
    "holds l z" "will_type w bs sh2"
  shows "follows w prompt pw se ed sh z bs"
proof -
  obtain sh' where s: "shown prompt pw (term_cols se) ed1 l sh2 = Some (More (ed1\<lparr>ln := l\<rparr>), sh')" "draws sh2 sh'"
    using shown_holds [OF assms(3), of prompt pw "term_cols se" ed1 sh2] by blast
  then show ?thesis unfolding follows_def using assms types_draws [OF s(2)]
    by (intro exI [of _ "ed1\<lparr>ln := l\<rparr>"] exI [of _ sh']) simp
qed

lemma holds_ends:
  assumes "holds l (b, a)"
  shows "holds (l\<lparr>lcur := 0\<rparr>) (press Go_home (b, a))" "holds (l\<lparr>lcur := length (lbuf l)\<rparr>) (press Go_end (b, a))"
    "holds (line_delete 0 (lcur l) l) (press Cut_start (b, a))" "holds (l\<lparr>lbuf := take (lcur l) (lbuf l)\<rparr>) (press Cut_end (b, a))"
  using assms holds_delete_back [of "[]" b a l] by (auto simp: holds_def)

lemma follows_escape:
  assumes "will_type w (27 # 91 # c # bs) sh" "holds (ln ed) z"
    and "c = 67 \<and> k = Go_right \<or> c = 68 \<and> k = Go_left \<or> c = 51 \<and> k = Erase_next \<and> bs = 126 # bs'" "k \<noteq> Erase_next \<longrightarrow> bs = bs'"
  shows "follows w prompt pw se ed sh (press k z) bs'"
proof -
  obtain s1 where r1: "read_key w sh = (Some 27, s1)" and t1: "will_type w (91 # c # bs) s1" using read_key_types [OF assms(1)] by blast
  obtain s2 where r2: "read_key w s1 = (Some 91, s2)" and t2: "will_type w (c # bs) s2" using read_key_types [OF t1] by blast
  obtain s3 where r3: "read_key w s2 = (Some c, s3)" and t3: "will_type w bs s3" using read_key_types [OF t2] by blast
  let ?ed = "ed\<lparr>last_was_tab := False\<rparr>"
  have e: "edit_key w prompt pw se 27 ed s1 = escape_key w prompt pw se ?ed s1" by (simp add: edit_key_def)
  from assms(3) consider (r) "c = 67" "k = Go_right" | (l) "c = 68" "k = Go_left" | (d) "c = 51" "k = Erase_next" "bs = 126 # bs'" by blast
  then show ?thesis
  proof cases
    case r
    have "escape_key w prompt pw se ?ed s1 = shown prompt pw (term_cols se) ?ed (go_next (ln ed)) s3"
      using r2 r3 r(1) by (simp add: escape_key_def)
    then show ?thesis using follows_shown [OF r1 e [THEN trans] holds_next [OF assms(2)]] t3 r assms(4) by simp
  next
    case l
    have "escape_key w prompt pw se ?ed s1 = shown prompt pw (term_cols se) ?ed (go_prev (ln ed)) s3"
      using r2 r3 l(1) by (simp add: escape_key_def)
    then show ?thesis using follows_shown [OF r1 e [THEN trans] holds_prev [OF assms(2)]] t3 l assms(4) by simp
  next
    case d
    obtain s4 where r4: "read_key w s3 = (Some 126, s4)" and t4: "will_type w bs' s4" using read_key_types [of w 126 bs' s3] t3 d(3) by blast
    have "escape_key w prompt pw se ?ed s1 = shown prompt pw (term_cols se) ?ed (delete_next (ln ed)) s4"
      using r2 r3 r4 d(1) by (simp add: escape_key_def)
    then show ?thesis using follows_shown [OF r1 e [THEN trans] holds_delete_next [OF assms(2)]] t4 d by simp
  qed
qed

lemma follows_control:
  assumes "will_type w (c # bs) sh" "holds (ln ed) (b, a)"
    and "c = 127 \<and> k = Erase_back \<or> c = 1 \<and> k = Go_home \<or> c = 5 \<and> k = Go_end \<or> c = 21 \<and> k = Cut_start \<or> c = 11 \<and> k = Cut_end \<or>
      c = 23 \<and> k = Cut_word \<or> c = 12 \<and> k = Clear"
  shows "follows w prompt pw se ed sh (press k (b, a)) bs"
proof -
  obtain s1 where r: "read_key w sh = (Some c, s1)" and t: "will_type w bs s1" using read_key_types [OF assms(1)] by blast
  let ?ed = "ed\<lparr>last_was_tab := False\<rparr>" and ?cls = "did (Fputs [27, 91, 72, 27, 91, 50, 74]) s1"
  have "will_type w bs ?cls" using t types_draws [of s1 ?cls] by simp
  have go: "holds l z \<Longrightarrow> edit_key w prompt pw se c ed s1 = shown prompt pw (term_cols se) ?ed l s1 \<Longrightarrow>
      follows w prompt pw se ed sh z bs" for l z
    by (rule follows_shown [OF r _ _ t])
  note ends = holds_ends [OF assms(2)]
  from assms(3) consider (b) "c = 127" "k = Erase_back" | (h) "c = 1" "k = Go_home" | (e) "c = 5" "k = Go_end"
    | (s) "c = 21" "k = Cut_start" | (x) "c = 11" "k = Cut_end" | (w) "c = 23" "k = Cut_word" | (l) "c = 12" "k = Clear" by blast
  then show ?thesis
  proof cases
    case b show ?thesis unfolding b(2) by (rule go [OF holds_delete_prev [OF assms(2)]]) (simp add: edit_key_def Let_def b(1))
  next
    case h show ?thesis unfolding h(2) by (rule go [OF ends(1)]) (simp add: edit_key_def Let_def h(1))
  next
    case e show ?thesis unfolding e(2) by (rule go [OF ends(2)]) (simp add: edit_key_def Let_def e(1))
  next
    case s show ?thesis unfolding s(2) by (rule go [OF ends(3)]) (simp add: edit_key_def Let_def s(1))
  next
    case x show ?thesis unfolding x(2) by (rule go [OF ends(4)]) (simp add: edit_key_def Let_def x(1))
  next
    case w show ?thesis unfolding w(2) by (rule go [OF holds_delete_word [OF assms(2)]]) (simp add: edit_key_def Let_def w(1))
  next
    case l
    have "edit_key w prompt pw se c ed s1 = shown prompt pw (term_cols se) ?ed (ln ed) ?cls" by (simp add: edit_key_def Let_def l(1))
    from follows_shown [OF r this assms(2) \<open>will_type w bs ?cls\<close>] show ?thesis by (simp add: l(2))
  qed
qed

lemma follows_typed:
  assumes "will_type w (utf8_encode cp @ bs) sh" "holds (ln ed) (b, a)" "typed_char (Type_char cp)"
  shows "follows w prompt pw se ed sh (press (Type_char cp) (b, a)) bs"
proof -
  have cp: "32 \<le> cp" "cp \<noteq> 127" "cp < 0x200000" using assms(3) by (simp_all add: typed_char_def)
  obtain c t where e: "utf8_encode cp = c # t" "utf8_seq_len c = Suc (length t)" using utf8_encode_shape [OF cp(3)] by metis
  have n: "\<not> c < 32" "c \<noteq> 127" using encode_not_control [OF cp, of c] e(1) by simp_all
  then have "c \<notin> {13, 10, 3, 4, 8, 1, 5, 21, 11, 23, 12, 9, 27}" by (auto simp: word_less_nat_alt)
  obtain s1 where r: "read_key w sh = (Some c, s1)" and t: "will_type w (t @ bs) s1"
    using read_key_types [of w c "t @ bs" sh] assms(1) e(1) by auto
  obtain s2 where m: "read_more w (length t) [c] s1 = (utf8_encode cp, s2)" and t2: "will_type w bs s2"
    using read_more_types [OF t, of "[c]"] e(1) by auto
  have "edit_key w prompt pw se c ed s1 =
      shown prompt pw (term_cols se) (ed\<lparr>last_was_tab := False\<rparr>) (line_insert (utf8_encode cp) (ln ed)) s2"
    using n \<open>c \<notin> _\<close> e(2) m by (simp add: edit_key_def Let_def)
  from follows_shown [OF r this holds_insert [OF assms(2) cp(1,3)] t2] show ?thesis .
qed

lemma follows_key:
  assumes "will_type w (ekey_bytes k @ bs) sh" "holds (ln ed) z" "typed_char k"
  shows "follows w prompt pw se ed sh (press k z) bs"
proof -
  obtain b a where z: "z = (b, a)" by fastforce
  show ?thesis
  proof (cases k)
    case (Type_char cp)
    then show ?thesis using follows_typed [of w cp bs sh ed b a] assms z by simp
  next
    case Erase_next
    then show ?thesis using follows_escape [of w 51 "126 # bs" sh ed z Erase_next bs] assms by simp
  next
    case Go_left
    then show ?thesis using follows_escape [of w 68 bs sh ed z Go_left bs] assms by simp
  next
    case Go_right
    then show ?thesis using follows_escape [of w 67 bs sh ed z Go_right bs] assms by simp
  qed (use follows_control [of w _ bs sh ed b a k] assms z in simp_all)
qed

lemma edit_loop_keys:
  "list_all typed_char ks \<Longrightarrow> holds (ln ed) z \<Longrightarrow> will_type w (concat (map ekey_bytes ks) @ [CR]) sh \<Longrightarrow> length ks < m \<Longrightarrow>
   \<exists>l sh'. edit_loop w prompt pw se m ed sh = Inr (int (length (lbuf l)), l, sh') \<and> holds l (fold press ks z)"
proof (induction ks arbitrary: z ed sh m)
  case Nil
  then obtain m' where m: "m = Suc m'" by (cases m) auto
  obtain s1 where "read_key w sh = (Some CR, s1)" using read_key_types [of w CR "[]" sh] Nil.prems(3) by auto
  then show ?case using Nil.prems(2) by (simp add: m edit_key_def Let_def)
next
  case (Cons k ks)
  then obtain m' where m: "m = Suc m'" "length ks < m'" by (cases m) auto
  have "follows w prompt pw se ed sh (press k z) (concat (map ekey_bytes ks) @ [CR])"
    using follows_key [of w k "concat (map ekey_bytes ks) @ [CR]" sh ed z] Cons.prems by simp
  then obtain ed' sh' where e: "\<And>m. edit_loop w prompt pw se (Suc m) ed sh = edit_loop w prompt pw se m ed' sh'"
    and h: "holds (ln ed') (press k z)" and t: "will_type w (concat (map ekey_bytes ks) @ [CR]) sh'"
    unfolding follows_def by blast
  from Cons.IH [OF _ h t m(2)] Cons.prems(1) e [of m'] m(1) show ?case by simp
qed

lemma chars_cstr: "chars cps \<Longrightarrow> is_cstr (utf8 cps)"
proof (induction cps)
  case (Cons cp cps)
  have "0 \<notin> set (utf8_encode cp)"
  proof
    assume "0 \<in> set (utf8_encode cp)"
    from encode_byte [OF _ this] Cons.prems have "cp < 128" "0 = (ucast cp :: u8)" by simp_all
    then have "unat cp = 0" using unat_ucast_byte [of cp] by simp
    with Cons.prems show False by (simp add: word_le_nat_alt)
  qed
  then show ?case using Cons by (simp add: is_cstr_def)
qed simp

lemma whole: "is_cstr t \<Longrightarrow> cstr_of t = t"
  by (auto simp: cstr_of_def is_cstr_def takeWhile_eq_all_conv)

text \<open>
  C15: the line editor gives the line that the keys spell.  On a terminal, whatever its width and the
  prompt, characters of up to four bytes, the cursor keys, and the keys that delete a character, a word
  or a part of the line act on the text before and after the cursor as lists of characters, each key on
  whole characters; at Enter the editor returns the bytes of that text and their number, and no redraw
  on the way is undefined.  A character that does not fit the line is dropped as a whole.
\<close>

theorem edit_line_keys:
  assumes "list_all typed_char ks" "0 \<le> r_val (kernel w (calls sh) (Term_raw 0))"
    and "will_type w (concat (map ekey_bytes ks) @ [CR]) sh" "length ks < k" "(b, a) = fold press ks ([], [])"
  shows "\<exists>se' sh'. edit_line w k prompt pw se sh = Inr (int (length (utf8 (b @ a))), utf8 (b @ a), se', sh')"
proof -
  obtain r s1 where c1: "syscall w (Term_raw 0) sh = (r, s1)" and r: "0 \<le> r_val r" and d1: "draws sh s1"
    using assms(2) by (simp add: syscall_def draws_def reads_def)
  obtain z s2 where c2: "syscall w (Term_size 1) s1 = (z, s2)" and d2: "draws s1 s2"
    by (simp add: syscall_def draws_def reads_def)
  let ?se = "se\<lparr>term_cols := snd (r_ends z)\<rparr>" and ?l = "\<lparr>lbuf = [], lcur = 0\<rparr>"
  have h0: "holds ?l ([], [])" by (simp add: holds_def MAX_LINE_def)
  obtain s3 where rd: "redraw prompt pw ?l (term_cols ?se) s2 = Some s3" and d3: "draws s2 s3"
    using redraw_holds [OF h0] by blast
  have "draws sh s3" using d1 d2 d3 by (simp add: draws_def)
  then have t: "will_type w (concat (map ekey_bytes ks) @ [CR]) s3" using types_draws assms(3) by blast
  let ?ed = "\<lparr>ln = ?l, hist_pos = length (history ?se), pending = [], last_was_tab = False\<rparr>"
  have "holds (ln ?ed) ([], [])" using h0 by simp
  from edit_loop_keys [OF assms(1) this t assms(4), of prompt pw ?se] obtain l s4
    where e: "edit_loop w prompt pw ?se k ?ed s3 = Inr (int (length (lbuf l)), l, s4)" and h: "holds l (b, a)"
    using assms(5) by auto
  have l: "lbuf l = utf8 (b @ a)" "length (utf8 (b @ a)) < MAX_LINE" "is_cstr (utf8 (b @ a))"
    using h chars_cstr [of "b @ a"] by (simp_all add: holds_def)
  have "clip MAX_LINE (cstr_of (lbuf l)) = utf8 (b @ a)"
    using l(2) whole [OF l(3)] by (simp only: l(1) clip_def) simp
  then show ?thesis using c1 r c2 rd e l(1) by (simp add: edit_line_def Let_def)
qed

text \<open>A terminal at which \<open>ab\<close> and a Hangul syllable are typed, and then the letter before it erased.\<close>

definition typing :: "u8 list \<Rightarrow> world" where
  "typing bs = \<lparr>kernel = (\<lambda>past c. (kernel refusing past c)\<lparr>r_val := 1, r_ends := (24, 80), r_bytes := [bs ! reads past]\<rparr>),
     alloc = (\<lambda>n. True)\<rparr>"

definition some_keys :: "ekey list" where
  "some_keys = [Type_char 97, Type_char 98, Type_char 0xD55C, Go_left, Erase_back]"

lemma typing_types: "will_type (typing bs) bs bare_shell"
  by (simp add: will_type_def typing_def reads_def bare_shell_def start_shell_def)

theorem edit_line_keys_witness:
  "\<exists>se' sh'. edit_line (typing (concat (map ekey_bytes some_keys) @ [CR])) 6 (cs ''$ '') 2 start_session bare_shell =
     Inr (4, utf8 [97, 0xD55C], se', sh')"
proof -
  let ?w = "typing (concat (map ekey_bytes some_keys) @ [CR])"
  have k: "list_all typed_char some_keys" "length some_keys < 6" by (simp_all add: some_keys_def typed_char_def)
  have r: "0 \<le> r_val (kernel ?w (calls bare_shell) (Term_raw 0))" by (simp add: typing_def)
  have z: "([97], [0xD55C]) = fold press some_keys ([], [])"
    by (simp add: some_keys_def MAX_LINE_def utf8_encode_def)
  have "length (utf8 ([97] @ [0xD55C])) = 4" by (simp add: utf8_encode_def)
  with edit_line_keys [OF k(1) r typing_types k(2) z, of "cs ''$ ''" 2 start_session] show ?thesis by auto
qed

text \<open>
  Bytes that are not UTF-8 end the shell: after seven letters, a first byte of three and two more
  letters, on a screen that leaves eight columns, moving left puts the cursor inside what the
  window takes for one character, and the width of a slice that ends before its start is asked for.
\<close>

lemma half_character_undefined:
  "redraw [] 11 (go_prev \<lparr>lbuf = replicate 7 120 @ [0xE0, 97, 98], lcur = 10\<rparr>) 20 sh = None"
proof -
  let ?s = "replicate 7 120 @ [0xE0, 97, 98] :: u8 list"
  have g: "go_prev \<lparr>lbuf = ?s, lcur = 10\<rparr> = \<lparr>lbuf = ?s, lcur = 9\<rparr>" by code_simp
  have "window_start ?s 9 8 0 = Some 1" "window_end ?s 8 1 1 = Some 7" "slice_width ?s 9 7 = None" by code_simp+
  then show ?thesis by (simp only: g redraw_def) simp
qed

end
