(* ===== verification/EdBuffer.thy ===== *)
theory EdBuffer
  imports LpKernel "HOL-Library.Monad_Syntax"
begin

text \<open>
  The text of the editor (\<open>userland/edit/edit.c\<close>): its lines, the records of undo and redo, and the
  operations that change the text.

  The static variables are one record.  Line numbers and columns are natural numbers: every use of a
  negative number in the code is a guard that sets it to 0.  A line is its bytes in use and the size of
  its allocation; the code keeps a NUL after the bytes.  \<open>None\<close> stands for what C does not define: the
  code reads a line that is not there, or bytes outside a line.  Whether an allocation of a size succeeds
  is a parameter (\<open>alloc\<close> of the world).
\<close>

section \<open>State\<close>

definition MAX_LINES :: nat where "MAX_LINES = 20000"
definition UNDO_MAX :: nat where "UNDO_MAX = 64"
definition UNDO_BYTES :: nat where "UNDO_BYTES = 192 * 1024"
definition CLIP_MAX :: nat where "CLIP_MAX = 256 * 1024"

record line_t =
  ltext :: "u8 list"
  lcap :: nat

text \<open>A record of undo: the lines \<open>[at, at + nremove)\<close> become the \<open>nadd\<close> lines of the blob.\<close>

record change_t =
  ch_at :: nat
  ch_nadd :: nat
  ch_nremove :: nat
  ch_blob :: "u8 list"
  ch_cy :: nat
  ch_cx :: nat

text \<open>A stack is a ring of \<open>UNDO_MAX\<close> slots; the two of them have names, since pushing on one empties the other.\<close>

record stack_t =
  slots :: "change_t list"
  start :: nat
  count :: nat

datatype which = Undo | Redo

datatype dirty_t = DIRTY_NONE | DIRTY_LINE | DIRTY_ALL

record edit =
  lines :: "line_t list"
  cy :: nat
  cx :: nat
  top_line :: nat
  left_col :: nat
  rows :: nat
  cols :: nat
  modified :: bool
  running :: bool
  readonly :: bool
  show_numbers :: bool
  fname :: cstring
  status :: cstring
  dirty :: dirty_t
  outbuf :: "u8 list"
  stacks :: "which \<Rightarrow> stack_t"
  hist_bytes :: nat
  typing_line :: "nat option"
  mark_on :: bool
  my :: nat
  mx :: nat
  clipboard :: "u8 list option"
  last_pat :: cstring
  last_rep :: cstring
  last_fwd :: bool
  calls :: "call list"

definition no_change :: change_t where
  "no_change = \<lparr>ch_at = 0, ch_nadd = 0, ch_nremove = 0, ch_blob = [], ch_cy = 0, ch_cx = 0\<rparr>"

definition empty_stack :: stack_t where
  "empty_stack = \<lparr>slots = replicate UNDO_MAX no_change, start = 0, count = 0\<rparr>"

definition start_edit :: edit where
  "start_edit =
     \<lparr>lines = [], cy = 0, cx = 0, top_line = 0, left_col = 0, rows = 24, cols = 80, modified = False, running = True,
      readonly = False, show_numbers = False, fname = [], status = [], dirty = DIRTY_ALL, outbuf = [],
      stacks = (\<lambda>s. empty_stack), hist_bytes = 0, typing_line = None, mark_on = False, my = 0, mx = 0,
      clipboard = None, last_pat = [], last_rep = [], last_fwd = True, calls = []\<rparr>"

definition nlines :: "edit \<Rightarrow> nat" where
  "nlines st = length (lines st)"

definition set_status :: "cstring \<Rightarrow> edit \<Rightarrow> edit" where
  "set_status s st = st\<lparr>status := clip 256 s\<rparr>"

text \<open>What every change of the text ends with.\<close>

definition changed :: "dirty_t \<Rightarrow> edit \<Rightarrow> edit" where
  "changed d st = st\<lparr>modified := True, dirty := d\<rparr>"

section \<open>Lines\<close>

function grow_cap :: "nat \<Rightarrow> nat \<Rightarrow> nat" where
  "grow_cap c need = (if c = 0 \<or> need + 1 \<le> c then c else grow_cap (c * 2) need)"
  by pat_completeness auto
termination by (relation "measure (\<lambda>(c, need). need + 1 - c)") auto

declare grow_cap.simps [simp del]

definition line_reserve :: "world \<Rightarrow> nat \<Rightarrow> line_t \<Rightarrow> line_t option" where
  "line_reserve w need l =
     (if lcap l \<ge> need + 1 then Some l
      else
        (let c = grow_cap (if lcap l = 0 then 64 else lcap l) need in
         if alloc w c then Some (l\<lparr>lcap := c\<rparr>) else None))"

definition no_line :: line_t where
  "no_line = \<lparr>ltext = [], lcap = 0\<rparr>"

text \<open>The lines after \<open>idx\<close> move up; if the new one gets no memory, \<open>nlines\<close> is not counted up.\<close>

definition insert_line :: "world \<Rightarrow> nat \<Rightarrow> edit \<Rightarrow> bool \<times> edit" where
  "insert_line w idx st =
     (if nlines st \<ge> MAX_LINES then (False, st)
      else
        (let moved = (\<lambda>l. take idx (lines st) @ [l] @ drop idx (lines st)) in
         case line_reserve w 0 no_line of
           None \<Rightarrow> (False, st\<lparr>lines := take (nlines st) (moved no_line)\<rparr>)
         | Some l \<Rightarrow> (True, st\<lparr>lines := moved l\<rparr>)))"

fun join_text :: "u8 list list \<Rightarrow> u8 list" where
  "join_text [] = []"
| "join_text [t] = t"
| "join_text (t # ts) = t @ LF # join_text ts"

text \<open>\<open>lines_capture\<close>: the outer \<open>None\<close> is undefined, the inner one no memory.\<close>

definition lines_capture :: "world \<Rightarrow> nat \<Rightarrow> nat \<Rightarrow> edit \<Rightarrow> u8 list option option" where
  "lines_capture w at n st =
     (if at + n > nlines st then None
      else
        (let ts = map ltext (take n (drop at (lines st))) in
         Some (if alloc w (1 + sum_list (map (\<lambda>t. length t + 1) ts)) then Some (join_text ts) else None)))"

text \<open>The first \<open>n\<close> lines of a blob.\<close>

fun blob_lines :: "nat \<Rightarrow> u8 list \<Rightarrow> u8 list list" where
  "blob_lines 0 b = []"
| "blob_lines (Suc n) b = takeWhile (\<lambda>c. c \<noteq> LF) b # blob_lines n (tl (dropWhile (\<lambda>c. c \<noteq> LF) b))"

text \<open>
  The new lines, each with its memory.  If the last one gets none it is empty, and \<open>lines_splice\<close>
  fails; if another gets none, the slots after it hold what they held before (\<open>None\<close>).
\<close>

fun fill_lines :: "world \<Rightarrow> u8 list list \<Rightarrow> (bool \<times> line_t list) option" where
  "fill_lines w [] = Some (True, [])"
| "fill_lines w (t # ts) =
     (case line_reserve w (length t) no_line of
        None \<Rightarrow> (if ts = [] then Some (False, [no_line]) else None)
      | Some l \<Rightarrow> map_option (\<lambda>(ok, ls). (ok, l\<lparr>ltext := t\<rparr> # ls)) (fill_lines w ts))"

definition lines_splice :: "world \<Rightarrow> nat \<Rightarrow> nat \<Rightarrow> u8 list \<Rightarrow> nat \<Rightarrow> edit \<Rightarrow> (bool \<times> edit) option" where
  "lines_splice w at nremove blob nadd st =
     (if at > nlines st then Some (False, st)
      else
        (let nremove = min nremove (nlines st - at) in
         if nlines st - nremove + nadd > MAX_LINES then Some (False, st)
         else do {
           (ok, new) \<leftarrow> fill_lines w (blob_lines nadd blob);
           let st = st\<lparr>lines := take at (lines st) @ new @ drop (at + nremove) (lines st)\<rparr>;
           Some (if \<not> ok then (False, st)
                 else if nlines st = 0 then (True, snd (insert_line w 0 st)) else (True, st))
         }))"

definition cur_line :: "edit \<Rightarrow> line_t" where
  "cur_line st = (if cy st < nlines st then lines st ! cy st else no_line)"

definition cur_text :: "edit \<Rightarrow> u8 list" where
  "cur_text st = ltext (cur_line st)"

definition clamp_cx :: "edit \<Rightarrow> edit" where
  "clamp_cx st =
     (let st = (if cy st \<ge> nlines st then st\<lparr>cy := nlines st - 1\<rparr> else st);
          t = cur_text st; x = min (cx st) (length t)
      in st\<lparr>cx := (if 0 < x \<and> x < length t \<and> utf8_is_cont (ch t x) then utf8_prev t x else x)\<rparr>)"

section \<open>Undo and redo\<close>

definition other :: "which \<Rightarrow> which" where
  "other s = (case s of Undo \<Rightarrow> Redo | Redo \<Rightarrow> Undo)"

definition stack_drop_oldest :: "which \<Rightarrow> edit \<Rightarrow> edit" where
  "stack_drop_oldest s st =
     (let k = stacks st s in
      if count k = 0 then st
      else st\<lparr>hist_bytes := hist_bytes st - length (ch_blob (slots k ! start k)),
              stacks := (stacks st)(s := k\<lparr>start := (start k + 1) mod UNDO_MAX, count := count k - 1\<rparr>)\<rparr>)"

definition stack_clear :: "which \<Rightarrow> edit \<Rightarrow> edit" where
  "stack_clear s st = (stack_drop_oldest s ^^ count (stacks st s)) st"

lemma stack_drop_count [simp]:
  "count (stacks (stack_drop_oldest s st) s') = (if s = s' then count (stacks st s') - 1 else count (stacks st s'))"
  by (simp add: stack_drop_oldest_def Let_def)

lemma other_simps [simp]: "other Undo = Redo" "other Redo = Undo" "other s \<noteq> s" "s \<noteq> other s"
  by (simp_all add: other_def split: which.splits)

function make_room :: "which \<Rightarrow> nat \<Rightarrow> edit \<Rightarrow> bool \<times> edit" where
  "make_room s need st =
     (if hist_bytes st + need > UNDO_BYTES then
        (if count (stacks st (other s)) > 0 then make_room s need (stack_drop_oldest (other s) st)
         else if count (stacks st s) > 0 then make_room s need (stack_drop_oldest s st)
         else (False, st))
      else (True, st))"
  by pat_completeness auto
termination by (relation "measure (\<lambda>(s, need, st). count (stacks st (other s)) + count (stacks st s))") auto

declare make_room.simps [simp del]

definition stack_push :: "which \<Rightarrow> change_t \<Rightarrow> edit \<Rightarrow> bool \<times> edit" where
  "stack_push s c st =
     (let st = (if count (stacks st s) = UNDO_MAX then stack_drop_oldest s st else st);
          (ok, st) = make_room s (length (ch_blob c)) st; k = stacks st s
      in if \<not> ok then (False, st)
         else (True, st\<lparr>stacks := (stacks st)(s := k\<lparr>slots := (slots k)[(start k + count k) mod UNDO_MAX := c],
                                                    count := count k + 1\<rparr>),
                        hist_bytes := hist_bytes st + length (ch_blob c)\<rparr>))"

definition record_change :: "world \<Rightarrow> nat \<Rightarrow> nat \<Rightarrow> nat \<Rightarrow> edit \<Rightarrow> edit option" where
  "record_change w at nold mnew st = do {
     let st = stack_clear Redo (st\<lparr>typing_line := None\<rparr>);
     blob \<leftarrow> lines_capture w at nold st;
     let (ok, st) =
       (case blob of
          None \<Rightarrow> (False, st)
        | Some b \<Rightarrow>
            stack_push Undo
              \<lparr>ch_at = at, ch_nadd = nold, ch_nremove = mnew, ch_blob = b, ch_cy = cy st, ch_cx = cx st\<rparr> st);
     Some (if ok then st
           else set_status (cs ''that change is too big to undo - the history was cleared'') (stack_clear Undo st))
   }"

definition record_typing :: "world \<Rightarrow> edit \<Rightarrow> edit option" where
  "record_typing w st =
     (if typing_line st = Some (cy st) then Some st
      else map_option (\<lambda>st. st\<lparr>typing_line := Some (cy st)\<rparr>) (record_change w (cy st) 1 1 st))"

definition apply_change :: "world \<Rightarrow> change_t \<Rightarrow> which \<Rightarrow> edit \<Rightarrow> edit option" where
  "apply_change w c dest st = do {
     blob \<leftarrow> lines_capture w (ch_at c) (ch_nremove c) st;
     (_, st') \<leftarrow> lines_splice w (ch_at c) (ch_nremove c) (ch_blob c) (ch_nadd c) st;
     let (ok, st') =
       (case blob of
          None \<Rightarrow> (False, st')
        | Some b \<Rightarrow>
            stack_push dest
              \<lparr>ch_at = ch_at c, ch_nadd = ch_nremove c, ch_nremove = ch_nadd c, ch_blob = b, ch_cy = cy st, ch_cx = cx st\<rparr> st');
     let st' = (if ok then st' else stack_clear dest st');
     Some (changed DIRTY_ALL (clamp_cx (st'\<lparr>cy := ch_cy c, cx := ch_cx c\<rparr>)))
   }"

text \<open>Taking back the newest record of one stack, to be put on the other.\<close>

definition take_back :: "world \<Rightarrow> which \<Rightarrow> edit \<Rightarrow> edit option" where
  "take_back w s st =
     (let k = stacks st s; c = slots k ! ((start k + count k - 1) mod UNDO_MAX) in
      map_option (\<lambda>st. st\<lparr>typing_line := None\<rparr>)
        (apply_change w c (other s)
          (st\<lparr>hist_bytes := hist_bytes st - length (ch_blob c), stacks := (stacks st)(s := k\<lparr>count := count k - 1\<rparr>)\<rparr>)))"

definition do_undo :: "world \<Rightarrow> edit \<Rightarrow> edit option" where
  "do_undo w st = (if count (stacks st Undo) = 0 then Some (set_status (cs ''nothing to undo'') st) else take_back w Undo st)"

definition do_redo :: "world \<Rightarrow> edit \<Rightarrow> edit option" where
  "do_redo w st = (if count (stacks st Redo) = 0 then Some (set_status (cs ''nothing to redo'') st) else take_back w Redo st)"

end
