(* ===== verification/EdText.thy ===== *)
theory EdText
  imports EdBuffer
begin

text \<open>
  What the keys of the editor (\<open>userland/edit/edit.c\<close>) do to the text: typing, splitting and joining
  lines, the selection and the clipboard, words, search and replacement.
\<close>

section \<open>Editing\<close>

definition text_at :: "edit \<Rightarrow> nat \<Rightarrow> u8 list" where
  "text_at st i = (if i < nlines st then ltext (lines st ! i) else [])"

definition here :: "edit \<Rightarrow> line_t option" where
  "here st = (if cy st < nlines st \<and> cx st \<le> length (ltext (lines st ! cy st)) then Some (lines st ! cy st) else None)"

definition put_line :: "line_t \<Rightarrow> edit \<Rightarrow> edit" where
  "put_line l st = st\<lparr>lines := (lines st)[cy st := l]\<rparr>"

definition no_memory :: "edit \<Rightarrow> edit" where
  "no_memory st = set_status (cs ''out of memory'') st"

definition may_edit :: "edit \<Rightarrow> bool \<times> edit" where
  "may_edit st =
     (if \<not> readonly st then (True, st)
      else (False, set_status (cs ''read-only - Ctrl-O saves it under another name'') st))"

definition insert_char :: "world \<Rightarrow> u8 \<Rightarrow> edit \<Rightarrow> edit option" where
  "insert_char w c st = do {
     l \<leftarrow> here st;
     Some (case line_reserve w (length (ltext l) + 1) l of
             None \<Rightarrow> no_memory st
           | Some l \<Rightarrow>
               changed DIRTY_LINE
                 ((put_line (l\<lparr>ltext := take (cx st) (ltext l) @ c # drop (cx st) (ltext l)\<rparr>) st)\<lparr>cx := cx st + 1\<rparr>))
   }"

text \<open>A change of the lines \<open>[at, at + nremove)\<close>, recorded first; \<open>free(blob)\<close> has no effect here.\<close>

definition recorded_splice :: "world \<Rightarrow> nat \<Rightarrow> nat \<Rightarrow> u8 list \<Rightarrow> nat \<Rightarrow> edit \<Rightarrow> edit option" where
  "recorded_splice w at nremove blob nadd st = do {
     st \<leftarrow> record_change w at nremove nadd st;
     (_, st) \<leftarrow> lines_splice w at nremove blob nadd st;
     Some st
   }"

definition indent_of :: "u8 list \<Rightarrow> nat \<Rightarrow> u8 list" where
  "indent_of t x = takeWhile (\<lambda>c. c = SP \<or> c = TAB) (take x t)"

definition split_line :: "world \<Rightarrow> edit \<Rightarrow> edit option" where
  "split_line w st =
     (if nlines st + 1 > MAX_LINES then Some (set_status (cs ''too many lines'') st)
      else do {
        l \<leftarrow> here st;
        let ind = indent_of (ltext l) (cx st);
        let blob = take (cx st) (ltext l) @ LF # ind @ drop (cx st) (ltext l);
        if \<not> alloc w (length blob + 1) then Some (no_memory st)
        else do {
          st \<leftarrow> recorded_splice w (cy st) 1 blob 2 st;
          Some (changed DIRTY_ALL (st\<lparr>cy := cy st + 1, cx := length ind\<rparr>))
        }
      })"

definition join_lines :: "world \<Rightarrow> nat \<Rightarrow> edit \<Rightarrow> edit option" where
  "join_lines w at st =
     (if at + 1 \<ge> nlines st then Some st
      else
        (let blob = text_at st at @ text_at st (at + 1); col = length (text_at st at) in
         if \<not> alloc w (length blob + 1) then Some (no_memory st)
         else do {
           st \<leftarrow> recorded_splice w at 2 blob 1 st;
           Some (changed DIRTY_ALL (st\<lparr>cy := at, cx := col\<rparr>))
         }))"

text \<open>Erasing the bytes \<open>[frm, til)\<close> of the current line.\<close>

definition erase_bytes :: "world \<Rightarrow> nat \<Rightarrow> nat \<Rightarrow> edit \<Rightarrow> edit option" where
  "erase_bytes w frm til st = do {
     l \<leftarrow> here st;
     st \<leftarrow> record_typing w st;
     if frm \<le> til \<and> til \<le> length (ltext l)
     then Some (changed DIRTY_LINE ((put_line (l\<lparr>ltext := take frm (ltext l) @ drop til (ltext l)\<rparr>) st)\<lparr>cx := frm\<rparr>))
     else None
   }"

definition backspace :: "world \<Rightarrow> edit \<Rightarrow> edit option" where
  "backspace w st =
     (if cx st > 0 then erase_bytes w (utf8_prev (cur_text st) (cx st)) (cx st) st
      else if cy st > 0 then join_lines w (cy st - 1) st
      else Some st)"

definition delete_forward :: "world \<Rightarrow> edit \<Rightarrow> edit option" where
  "delete_forward w st =
     (if cx st < length (cur_text st)
      then erase_bytes w (cx st) (utf8_next (cur_text st) (length (cur_text st)) (cx st)) st
      else join_lines w (cy st) st)"

section \<open>The selection and the clipboard\<close>

definition sel_bounds :: "edit \<Rightarrow> (nat \<times> nat \<times> nat \<times> nat) option" where
  "sel_bounds st =
     (if \<not> mark_on st \<or> (my st = cy st \<and> mx st = cx st) then None
      else if my st < cy st \<or> (my st = cy st \<and> mx st \<le> cx st) then Some (my st, mx st, cy st, cx st)
      else Some (cy st, cx st, my st, mx st))"

definition clip_set :: "world \<Rightarrow> u8 list \<Rightarrow> edit \<Rightarrow> bool \<times> edit" where
  "clip_set w t st =
     (if length t > CLIP_MAX then (False, set_status (cs ''that is more than the clipboard holds (256k)'') st)
      else if \<not> alloc w (length t + 1) then (False, no_memory st)
      else (True, st\<lparr>clipboard := Some t\<rparr>))"

text \<open>The range of line \<open>i\<close> between two places, and the bytes of a range, if they are in the line.\<close>

definition range_on :: "nat \<times> nat \<times> nat \<times> nat \<Rightarrow> edit \<Rightarrow> nat \<Rightarrow> nat \<times> nat" where
  "range_on sel st i =
     (let (y0, x0, y1, x1) = sel in (if i = y0 then x0 else 0, if i = y1 then x1 else length (text_at st i)))"

definition slice :: "u8 list \<Rightarrow> nat \<times> nat \<Rightarrow> u8 list option" where
  "slice t r = (if fst r \<le> snd r \<and> snd r \<le> length t then Some (drop (fst r) (take (snd r) t)) else None)"

text \<open>The sizes are added up in a \<open>size_t\<close>, where a range that ends before it starts is a huge number.\<close>

definition size_of :: "int \<Rightarrow> nat" where
  "size_of n = nat (n mod 2 ^ 64)"

definition copy_selection :: "world \<Rightarrow> edit \<Rightarrow> (bool \<times> edit) option" where
  "copy_selection w st =
     (case sel_bounds st of
        None \<Rightarrow> Some (False, set_status (cs ''nothing selected - Ctrl-A starts a selection'') st)
      | Some (y0, x0, y1, x1) \<Rightarrow>
          (let ranges = map (range_on (y0, x0, y1, x1) st) [y0..<y1 + 1];
               total = size_of (sum_list (map (\<lambda>(a, b). int b - int a + 1) ranges))
           in if y1 \<ge> nlines st then None
              else if total > CLIP_MAX
              then Some (False, set_status (cs ''that is more than the clipboard holds (256k)'') st)
              else if \<not> alloc w total then Some (False, no_memory st)
              else do {
                parts \<leftarrow> those (map (\<lambda>i. slice (text_at st i) (range_on (y0, x0, y1, x1) st i)) [y0..<y1 + 1]);
                Some (clip_set w (join_text parts) st)
              }))"

definition delete_selection :: "world \<Rightarrow> edit \<Rightarrow> edit option" where
  "delete_selection w st =
     (case sel_bounds st of
        None \<Rightarrow> Some st
      | Some (y0, x0, y1, x1) \<Rightarrow>
          (if y1 \<ge> nlines st then None
           else
             (let a = text_at st y0; b = text_at st y1 in
              if \<not> alloc w (size_of (int x0 + (int (length b) - int x1) + 1)) then Some (no_memory st)
              else if x0 > length a \<or> x1 > length b then None
              else do {
                st \<leftarrow> recorded_splice w y0 (y1 - y0 + 1) (take x0 a @ drop x1 b) 1 (st\<lparr>cy := y0, cx := x0\<rparr>);
                Some (changed DIRTY_ALL (st\<lparr>mark_on := False\<rparr>))
              })))"

definition cut_line :: "world \<Rightarrow> edit \<Rightarrow> edit option" where
  "cut_line w st = do {
     l \<leftarrow> (if cy st < nlines st then Some (cur_line st) else None);
     let st = (if alloc w (length (ltext l) + 2) then snd (clip_set w (ltext l @ [LF]) st) else st);
     st \<leftarrow> (if nlines st = 1 then recorded_splice w 0 1 [] 1 st else recorded_splice w (cy st) 1 [] 0 st);
     Some (changed DIRTY_ALL (clamp_cx (st\<lparr>cy := (if cy st \<ge> nlines st then nlines st - 1 else cy st), cx := 0\<rparr>)))
   }"

definition paste :: "world \<Rightarrow> edit \<Rightarrow> edit option" where
  "paste w st =
     (case clipboard st of
        None \<Rightarrow> Some (set_status (cs ''the clipboard is empty - Ctrl-X or Ctrl-B fills it'') st)
      | Some p \<Rightarrow>
          (let breaks = length (filter ((=) LF) p); final = length (takeWhile (\<lambda>c. c \<noteq> LF) (rev p)) in
           if p = [] then Some (set_status (cs ''the clipboard is empty - Ctrl-X or Ctrl-B fills it'') st)
           else if nlines st + breaks > MAX_LINES then Some (set_status (cs ''too many lines'') st)
           else do {
             l \<leftarrow> here st;
             let blob = take (cx st) (ltext l) @ p @ drop (cx st) (ltext l);
             if \<not> alloc w (length blob + 1) then Some (no_memory st)
             else do {
               st \<leftarrow> recorded_splice w (cy st) 1 blob (1 + breaks) st;
               Some (changed DIRTY_ALL
                 (if breaks > 0 then st\<lparr>cy := cy st + breaks, cx := final\<rparr> else st\<lparr>cx := cx st + length p\<rparr>))
             }
           }))"

section \<open>Words\<close>

definition is_word :: "u8 \<Rightarrow> bool" where
  "is_word c \<longleftrightarrow> c = 95 \<or> (48 \<le> c \<and> c \<le> 57) \<or> (97 \<le> c \<and> c \<le> 122) \<or> (65 \<le> c \<and> c \<le> 90) \<or> c \<ge> 128"

definition word_left :: "edit \<Rightarrow> edit" where
  "word_left st =
     (if cx st = 0 then
        (if cy st > 0 then st\<lparr>cy := cy st - 1, cx := length (text_at st (cy st - 1))\<rparr> else st)
      else st\<lparr>cx := length (dropWhile is_word (dropWhile (\<lambda>c. \<not> is_word c) (rev (take (cx st) (cur_text st)))))\<rparr>)"

definition word_right :: "edit \<Rightarrow> edit" where
  "word_right st =
     (let t = cur_text st in
      if cx st \<ge> length t then (if cy st < nlines st - 1 then st\<lparr>cy := cy st + 1, cx := 0\<rparr> else st)
      else st\<lparr>cx := length t - length (dropWhile (\<lambda>c. \<not> is_word c) (dropWhile is_word (drop (cx st) t)))\<rparr>)"

section \<open>Search and replacement\<close>

definition occurs_at :: "u8 list \<Rightarrow> u8 list \<Rightarrow> nat \<Rightarrow> bool" where
  "occurs_at pat hay i \<longleftrightarrow> take (length pat) (drop i hay) = pat"

definition find_fwd :: "u8 list \<Rightarrow> u8 list \<Rightarrow> nat \<Rightarrow> nat option" where
  "find_fwd hay pat frm =
     (if pat = [] \<or> length pat > length hay then None
      else find (occurs_at pat hay) [frm..<length hay + 1 - length pat])"

definition find_back :: "u8 list \<Rightarrow> u8 list \<Rightarrow> int \<Rightarrow> nat option" where
  "find_back hay pat before =
     (if pat = [] \<or> length pat > length hay then None
      else find (occurs_at pat hay) (rev [0..<nat (min before (int (length hay - length pat)) + 1)]))"

text \<open>The line and the place that one step of the search looks at, if the pattern is there.\<close>

definition search_step :: "cstring \<Rightarrow> bool \<Rightarrow> edit \<Rightarrow> nat \<Rightarrow> (nat \<times> nat) option" where
  "search_step pat fwd st step =
     (let y = nat ((if fwd then int (cy st) + int step else int (cy st) - int step) mod int (nlines st)); t = text_at st y in
      map_option (Pair y)
        (if fwd then find_fwd t pat (if step = 0 then cx st + 1 else 0)
         else find_back t pat (if step = 0 then int (cx st) - 1 else int (length t))))"

fun first_some :: "('a \<Rightarrow> 'b option) \<Rightarrow> 'a list \<Rightarrow> 'b option" where
  "first_some f [] = None"
| "first_some f (a # as) = (case f a of None \<Rightarrow> first_some f as | Some b \<Rightarrow> Some b)"

definition search :: "cstring \<Rightarrow> bool \<Rightarrow> edit \<Rightarrow> bool \<times> edit" where
  "search pat fwd st =
     (if pat = [] then (False, st)
      else
        (case first_some (search_step pat fwd st) [0..<nlines st + 1] of
           None \<Rightarrow> (False, st)
         | Some (y, at) \<Rightarrow> (True, st\<lparr>cy := y, cx := at, dirty := DIRTY_ALL\<rparr>)))"

definition replaced_at :: "u8 list \<Rightarrow> nat \<Rightarrow> u8 list \<Rightarrow> u8 list \<Rightarrow> u8 list" where
  "replaced_at t at pat rep = take at t @ rep @ drop (at + length pat) t"

lemma find_fwd_Some:
  assumes "find_fwd hay pat frm = Some i"
  shows "pat \<noteq> []" "frm \<le> i" "i + length pat \<le> length hay" "occurs_at pat hay i"
  using assms by (auto simp: find_fwd_def find_Some_iff split: if_splits)

function line_replace :: "world \<Rightarrow> cstring \<Rightarrow> cstring \<Rightarrow> nat \<Rightarrow> line_t \<Rightarrow> nat \<times> line_t" where
  "line_replace w pat rep frm l =
     (case find_fwd (ltext l) pat frm of
        None \<Rightarrow> (0, l)
      | Some at \<Rightarrow>
          (case line_reserve w (length (ltext l) - length pat + length rep) l of
             None \<Rightarrow> (0, l)
           | Some m \<Rightarrow>
               (let (n, l) = line_replace w pat rep (at + length rep)
                               (\<lparr>ltext = replaced_at (ltext l) at pat rep, lcap = lcap m\<rparr>)
                in (n + 1, l))))"
  by pat_completeness auto
termination
proof (relation "measure (\<lambda>(w, pat, rep, frm, l). length (ltext l) - frm)", goal_cases)
  case (2 w pat rep frm l at m)
  from find_fwd_Some [OF 2(1)] show ?case by (auto simp: replaced_at_def neq_Nil_conv)
qed simp

declare line_replace.simps [simp del]

text \<open>The lines \<open>is\<close> are replaced in turn; in the line of the cursor from the cursor on.\<close>

fun replace_lines :: "world \<Rightarrow> cstring \<Rightarrow> cstring \<Rightarrow> nat list \<Rightarrow> edit \<Rightarrow> nat \<times> edit" where
  "replace_lines w pat rep [] st = (0, st)"
| "replace_lines w pat rep (i # is) st =
     (let (n, l) = line_replace w pat rep (if i = cy st then cx st else 0) (lines st ! i);
          (m, st) = replace_lines w pat rep is (st\<lparr>lines := (lines st)[i := l]\<rparr>)
      in (n + m, st))"

definition replace_rest :: "world \<Rightarrow> cstring \<Rightarrow> cstring \<Rightarrow> edit \<Rightarrow> (nat \<times> edit) option" where
  "replace_rest w pat rep st =
     (let hits = filter (\<lambda>i. find_fwd (text_at st i) pat (if i = cy st then cx st else 0) \<noteq> None) [cy st..<nlines st] in
      if hits = [] then Some (0, st)
      else
        (let n = last hits - hd hits + 1 in do {
           st \<leftarrow> record_change w (hd hits) n n st;
           let (done_n, st) = replace_lines w pat rep [hd hits..<last hits + 1] st;
           Some (done_n, changed DIRTY_ALL st)
         }))"

end
