(* ===== verification/EdScreen.thy ===== *)
theory EdScreen
  imports EdText
begin

text \<open>
  The screen of the editor (\<open>userland/edit/edit.c\<close>): the output buffer, the width of text, one line of
  the window, the status bar and the redraw.  \<open>None\<close> is a write past a buffer, a read outside one, or a
  format that does not fit its arguments.
\<close>

section \<open>Output\<close>

definition OUT_CAP :: nat where "OUT_CAP = 65536"
definition RENDER_CAP :: nat where "RENDER_CAP = 4096"
definition TAB_WIDTH :: nat where "TAB_WIDTH = 4"

definition ed_call :: "world \<Rightarrow> call \<Rightarrow> edit \<Rightarrow> reply \<times> edit" where
  "ed_call w c st = (kernel w (calls st) c, st\<lparr>calls := calls st @ [c]\<rparr>)"

definition out_bytes :: "u8 list \<Rightarrow> edit \<Rightarrow> edit" where
  "out_bytes t st = st\<lparr>outbuf := outbuf st @ take (OUT_CAP - length (outbuf st)) t\<rparr>"

text \<open>The bytes \<open>[0, n)\<close> of a local buffer, \<open>n\<close> being what \<open>snprintf\<close> wanted but at most \<open>most\<close>.\<close>

definition out_fmt :: "nat \<Rightarrow> nat \<Rightarrow> cstring \<Rightarrow> arg list \<Rightarrow> edit \<Rightarrow> (nat \<times> edit) option" where
  "out_fmt cap most fmt as st = do {
     (b, n) \<leftarrow> sbuf cap fmt as;
     let n = min n most;
     if n \<le> cap then Some (n, out_bytes (take n b) st) else None
   }"

definition move_to :: "int \<Rightarrow> int \<Rightarrow> edit \<Rightarrow> edit option" where
  "move_to row col st = map_option snd (out_fmt 64 64 (27 # 91 # cs ''%d;%dH'') [anum row, anum col] st)"

text \<open>A write of no bytes, or an error, ends the loop.\<close>

function flush_loop :: "world \<Rightarrow> u8 list \<Rightarrow> edit \<Rightarrow> edit" where
  "flush_loop w rest st =
     (if rest = [] then st
      else
        (let (r, st) = ed_call w (Write STDOUT_FILENO rest) st in
         if r_val r \<le> 0 then st else flush_loop w (drop (nat (r_val r)) rest) st))"
  by auto
termination
proof (relation "measure (\<lambda>(w, rest, st). length rest)", goal_cases)
  case (2 w rest st x r st')
  then show ?case by (cases rest) auto
qed simp

declare flush_loop.simps [simp del]

definition flush_out :: "world \<Rightarrow> edit \<Rightarrow> edit" where
  "flush_out w st = (flush_loop w (outbuf st) st)\<lparr>outbuf := []\<rparr>"

definition ERASE_LINE :: cstring where "ERASE_LINE = [27, 91, 75]"
definition CLEAR_SCREEN :: cstring where "CLEAR_SCREEN = [27, 91, 50, 74]"
definition REVERSE :: cstring where "REVERSE = [27, 91, 55, 109]"
definition PLAIN :: cstring where "PLAIN = [27, 91, 48, 109]"
definition HIDE_CURSOR :: cstring where "HIDE_CURSOR = [27, 91, 63, 50, 53, 108]"
definition SHOW_CURSOR :: cstring where "SHOW_CURSOR = [27, 91, 63, 50, 53, 104]"

section \<open>Widths\<close>

fun digits :: "nat \<Rightarrow> nat" where
  "digits n = (if n \<ge> 10 then digits (n div 10) + 1 else 1)"

declare digits.simps [simp del]

definition gutter_w :: "edit \<Rightarrow> nat" where
  "gutter_w st =
     (if \<not> show_numbers st then 0
      else
        (let d = digits (nlines st); d = (if d < 3 then 3 else d); d = (if d > cols st div 2 then cols st div 2 else d)
         in d + 1))"

definition text_cols :: "edit \<Rightarrow> nat" where
  "text_cols st = (let c = int (cols st) - int (gutter_w st) in if c < 8 then 8 else nat c)"

definition tab_stop :: "nat \<Rightarrow> nat" where
  "tab_stop col = (col div TAB_WIDTH + 1) * TAB_WIDTH"

function screen_loop :: "u8 list \<Rightarrow> nat \<Rightarrow> nat \<Rightarrow> nat \<Rightarrow> nat" where
  "screen_loop t x i col =
     (if i < x \<and> i < length t then
        (if ch t i = TAB then screen_loop t x (i + 1) (tab_stop col)
         else
           (let (cp, used) = utf8_decode (drop i t) (length t - i) in
            if used = 0 then col else screen_loop t x (i + used) (col + utf8_width cp)))
      else col)"
  by pat_completeness auto
termination by (relation "measure (\<lambda>(t, x, i, col). length t - i)") auto

declare screen_loop.simps [simp del]

definition screen_col :: "edit \<Rightarrow> nat" where
  "screen_col st = screen_loop (cur_text st) (cx st) 0 0"

section \<open>One line\<close>

text \<open>The range of a line that is selected, and whether its line break is.\<close>

definition sel_on_line :: "edit \<Rightarrow> nat \<Rightarrow> (nat \<times> nat \<times> bool) option" where
  "sel_on_line st idx =
     (case sel_bounds st of
        None \<Rightarrow> None
      | Some (y0, x0, y1, x1) \<Rightarrow>
          if idx < y0 \<or> idx > y1 then None
          else Some (if idx = y0 then x0 else 0, if idx = y1 then x1 else length (text_at st idx), idx < y1))"

text \<open>The buffer \<open>render\<close> and the flag \<open>rev\<close>.\<close>

type_synonym render = "u8 list \<times> bool"

definition render_put :: "u8 list \<Rightarrow> render \<Rightarrow> render option" where
  "render_put t r = (if length (fst r) + length t \<le> RENDER_CAP then Some (fst r @ t, snd r) else None)"

definition render_mode :: "bool \<Rightarrow> render \<Rightarrow> render option" where
  "render_mode want r =
     (if want = snd r then Some r
      else map_option (\<lambda>r. (fst r, want)) (render_put (if want then REVERSE else PLAIN) r))"

function tab_loop :: "nat \<Rightarrow> nat \<Rightarrow> nat \<Rightarrow> bool \<Rightarrow> nat \<Rightarrow> render \<Rightarrow> render option" where
  "tab_loop lft width stop want col r =
     (if col < stop then
        (if col \<ge> lft \<and> col < lft + width
         then Option.bind (render_mode want r) (\<lambda>r. Option.bind (render_put [SP] r) (tab_loop lft width stop want (col + 1)))
         else tab_loop lft width stop want (col + 1) r)
      else Some r)"
  by pat_completeness auto
termination by (relation "measure (\<lambda>(lft, width, stop, want, col, r). stop - col)") auto

declare tab_loop.simps [simp del]

definition in_range :: "(nat \<times> nat \<times> bool) option \<Rightarrow> nat \<Rightarrow> bool" where
  "in_range sel i = (case sel of None \<Rightarrow> False | Some (b0, b1, eol) \<Rightarrow> i \<ge> b0 \<and> i < b1)"

text \<open>What is drawn of one character: a question mark, the character, or a space for half of one.\<close>

definition glyph :: "u8 list \<Rightarrow> nat \<Rightarrow> nat \<Rightarrow> nat \<Rightarrow> nat \<Rightarrow> u8 list" where
  "glyph t i used col lft = (if ch t i < 32 then [63] else if col \<ge> lft then take used (drop i t) else [SP])"

function draw_loop :: "nat \<Rightarrow> nat \<Rightarrow> (nat \<times> nat \<times> bool) option \<Rightarrow> u8 list \<Rightarrow> nat \<Rightarrow> nat \<Rightarrow> render \<Rightarrow> (nat \<times> render) option" where
  "draw_loop lft width sel t i col r =
     (if i < length t \<and> length (fst r) < RENDER_CAP - 32 then
        (if ch t i = TAB
         then Option.bind (tab_loop lft width (tab_stop col) (in_range sel i) col r)
                (draw_loop lft width sel t (i + 1) (tab_stop col))
         else
           (let (cp, used) = utf8_decode (drop i t) (length t - i); v = utf8_width cp in
            if used = 0 \<or> col + v > lft + width then Some (col, r)
            else if col + v > lft
            then Option.bind (Option.bind (render_mode (in_range sel i) r) (render_put (glyph t i used col lft)))
                   (draw_loop lft width sel t (i + used) (col + v))
            else draw_loop lft width sel t (i + used) (col + v) r))
      else Some (col, r))"
  by pat_completeness auto
termination by (relation "measure (\<lambda>(lft, width, sel, t, i, col, r). length t - i)") auto

declare draw_loop.simps [simp del]

text \<open>The line break of a selected line, and the end of reverse video.\<close>

definition draw_end :: "nat \<Rightarrow> nat \<Rightarrow> (nat \<times> nat \<times> bool) option \<Rightarrow> nat \<times> render \<Rightarrow> u8 list option" where
  "draw_end lft width sel cr = do {
     let (col, r) = cr;
     r \<leftarrow> (case sel of
             Some (b0, b1, True) \<Rightarrow>
               if col \<ge> lft \<and> col < lft + width \<and> length (fst r) < RENDER_CAP - 8
               then Option.bind (if snd r then Some r else render_mode True r) (render_put [SP])
               else Some r
           | _ \<Rightarrow> Some r);
     r \<leftarrow> (if snd r then render_put PLAIN r else Some r);
     Some (fst r)
   }"

definition draw_line :: "nat \<Rightarrow> nat \<Rightarrow> edit \<Rightarrow> edit option" where
  "draw_line idx screen_row st = do {
     st \<leftarrow> move_to (int screen_row + 1) 1 st;
     let st = out_bytes ERASE_LINE st;
     if idx \<ge> nlines st then Some st
     else do {
       let gw = gutter_w st;
       st \<leftarrow> (if gw > 0 then map_option snd (out_fmt 24 24 (cs ''%*d '') [anum (int gw - 1), anum (int idx + 1)] st) else Some st);
       let sel = sel_on_line st idx;
       cr \<leftarrow> draw_loop (left_col st) (text_cols st) sel (text_at st idx) 0 0 ([], False);
       r \<leftarrow> draw_end (left_col st) (text_cols st) sel cr;
       Some (out_bytes r st)
     }
   }"

section \<open>The window\<close>

definition draw_status :: "edit \<Rightarrow> edit option" where
  "draw_status st = do {
     st \<leftarrow> move_to (int (rows st) - 1) 1 st;
     let st = out_bytes (ERASE_LINE @ REVERSE) st;
     (n, st) \<leftarrow> out_fmt 320 (cols st) (cs '' %s%s%s  line %d/%d  col %d%s'')
       [astr (fname st), astr (if modified st then cs '' *'' else []), astr (if readonly st then cs ''  [read-only]'' else []),
        anum (int (cy st) + 1), anum (int (nlines st)), anum (int (screen_col st) + 1),
        astr (if mark_on st then cs ''  [selecting]'' else [])] st;
     let st = out_bytes PLAIN ((out_bytes [SP] ^^ (cols st - n)) st);
     st \<leftarrow> move_to (int (rows st)) 1 st;
     let st = out_bytes ERASE_LINE st;
     Some (out_bytes (if status st \<noteq> [] then status st else cs ''Ctrl-G help   Ctrl-S save   Ctrl-Q quit'') st)
   }"

definition place_cursor :: "edit \<Rightarrow> edit option" where
  "place_cursor st =
     move_to (int (cy st) - int (top_line st) + 1) (int (gutter_w st) + int (screen_col st) - int (left_col st) + 1) st"

definition scroll_to_cursor :: "edit \<Rightarrow> bool \<times> edit" where
  "scroll_to_cursor st =
     (let body = rows st - 2; top = top_line st; lft = left_col st; width = text_cols st; sc = screen_col st;
          top = (if cy st < top then cy st else top);
          top = (if cy st \<ge> top + body then cy st - body + 1 else top);
          top = (if top > nlines st - 1 then nlines st - 1 else top);
          lft = (if sc < lft then sc else lft);
          lft = (if sc \<ge> lft + width then sc - width + 1 else lft)
      in (top \<noteq> top_line st \<or> lft \<noteq> left_col st, st\<lparr>top_line := top, left_col := lft\<rparr>))"

text \<open>\<open>lp_term_size\<close> fills in 24 rows and 80 columns where it cannot ask.\<close>

definition term_size :: "world \<Rightarrow> edit \<Rightarrow> (nat \<times> nat) \<times> edit" where
  "term_size w st =
     (let (r, st) = ed_call w (Term_size STDOUT_FILENO) st in
      ((if r_val r < 0 then (24, 80) else (nat (fst (r_ends r)), nat (snd (r_ends r)))), st))"

definition check_size :: "world \<Rightarrow> edit \<Rightarrow> edit" where
  "check_size w st =
     (let ((r, c), st) = term_size w st; r = (if r < 4 then 4 else r); c = (if c < 20 then 20 else c) in
      if r \<noteq> rows st \<or> c \<noteq> cols st then (out_bytes CLEAR_SCREEN (st\<lparr>rows := r, cols := c\<rparr>))\<lparr>dirty := DIRTY_ALL\<rparr>
      else st)"

fun draw_lines :: "nat list \<Rightarrow> edit \<Rightarrow> edit option" where
  "draw_lines [] st = Some st"
| "draw_lines (i # is) st = Option.bind (draw_line (top_line st + i) i st) (draw_lines is)"

definition draw_dirty :: "edit \<Rightarrow> edit option" where
  "draw_dirty st =
     (case dirty st of
        DIRTY_ALL \<Rightarrow> Option.bind (draw_lines [0..<rows st - 2] st) draw_status
      | DIRTY_LINE \<Rightarrow> Option.bind (draw_line (cy st) (cy st - top_line st) st) draw_status
      | DIRTY_NONE \<Rightarrow> draw_status st)"

definition refresh :: "world \<Rightarrow> edit \<Rightarrow> edit option" where
  "refresh w st = do {
     let (moved, st) = scroll_to_cursor (check_size w st);
     let st = (if moved \<or> mark_on st then st\<lparr>dirty := DIRTY_ALL\<rparr> else st);
     st \<leftarrow> draw_dirty (out_bytes HIDE_CURSOR st);
     st \<leftarrow> place_cursor st;
     Some ((flush_out w (out_bytes SHOW_CURSOR st))\<lparr>dirty := DIRTY_NONE\<rparr>)
   }"

end
