(* ===== verification/EdFiles.thy ===== *)
theory EdFiles
  imports EdScreen
begin

text \<open>
  Files in the editor (\<open>userland/edit/edit.c\<close>): whether a path can be written, reading a file into
  lines, and writing the lines to a temporary file that is renamed over the path.
\<close>

definition W_OK :: nat where "W_OK = 2"

definition ed_did :: "call \<Rightarrow> edit \<Rightarrow> edit" where
  "ed_did c st = st\<lparr>calls := calls st @ [c]\<rparr>"

definition status_fmt :: "nat \<Rightarrow> cstring \<Rightarrow> arg list \<Rightarrow> edit \<Rightarrow> edit option" where
  "status_fmt cap fmt as st = map_option (\<lambda>t. set_status t st) (stext cap fmt as)"

definition path_writable :: "world \<Rightarrow> cstring \<Rightarrow> edit \<Rightarrow> bool \<times> edit" where
  "path_writable w path st =
     (let (r, st) = ed_call w (Exists path) st in
      if r_val r \<noteq> 0 then (let (a, st) = ed_call w (Access path W_OK) st in (r_val a = 0, st))
      else
        (let full = clip 512 path;
             dir = (case strrchr full SLASH of
                      None \<Rightarrow> cs ''.''
                    | Some s \<Rightarrow> if length s = length full then [SLASH] else take (length full - length s) full);
             (a, st) = ed_call w (Access dir W_OK) st
         in (r_val a = 0, st)))"

section \<open>Reading\<close>

text \<open>One byte of the file; \<open>False\<close> is no memory, or too many lines.\<close>

definition load_byte :: "world \<Rightarrow> u8 \<Rightarrow> edit \<Rightarrow> bool \<times> edit" where
  "load_byte w c st =
     (if c = LF then insert_line w (nlines st) st
      else if c = CR then (True, st)
      else
        (let l = last (lines st) in
         case line_reserve w (length (ltext l) + 1) l of
           None \<Rightarrow> (False, st)
         | Some l \<Rightarrow> (True, st\<lparr>lines := butlast (lines st) @ [l\<lparr>ltext := ltext l @ [c]\<rparr>]\<rparr>)))"

fun load_bytes :: "world \<Rightarrow> u8 list \<Rightarrow> edit \<Rightarrow> bool \<times> edit" where
  "load_bytes w [] st = (True, st)"
| "load_bytes w (c # t) st = (let (ok, st) = load_byte w c st in if ok then load_bytes w t st else (False, st))"

fun load_loop :: "world \<Rightarrow> int \<Rightarrow> nat \<Rightarrow> edit \<Rightarrow> (bool \<times> edit) option" where
  "load_loop w fd 0 st = None"
| "load_loop w fd (Suc k) st =
     (let (r, st) = ed_call w (Read fd 8192) st in
      if r_val r \<le> 0 then Some (True, st)
      else
        (let (ok, st) = load_bytes w (take (nat (r_val r)) (r_bytes r)) st in
         if ok then load_loop w fd k st else Some (False, st)))"

definition load_file :: "world \<Rightarrow> nat \<Rightarrow> cstring \<Rightarrow> edit \<Rightarrow> (bool \<times> edit) option" where
  "load_file w k path st =
     (let (r, st) = ed_call w (Open path O_RDONLY) st; fd = r_val r; (ok, st) = insert_line w 0 st in
      if fd < 0 then Some (True, set_status (cs ''new file'') st)
      else if \<not> ok then Some (False, ed_did (Close fd) st)
      else do {
        (ok, st) \<leftarrow> load_loop w fd k st;
        let st = ed_did (Close fd) st;
        if \<not> ok then Some (False, st)
        else map_option (Pair True) (status_fmt 128 (cs ''%d lines'') [anum (int (nlines st))] st)
      })"

section \<open>Writing\<close>

function write_all :: "world \<Rightarrow> int \<Rightarrow> u8 list \<Rightarrow> edit \<Rightarrow> bool \<times> edit" where
  "write_all w fd rest st =
     (if rest = [] then (True, st)
      else
        (let (r, st) = ed_call w (Write fd rest) st in
         if r_val r \<le> 0 then (False, st) else write_all w fd (drop (nat (r_val r)) rest) st))"
  by auto
termination
proof (relation "measure (\<lambda>(w, fd, rest, st). length rest)", goal_cases)
  case (2 w fd rest st x r st')
  then show ?case by (cases rest) auto
qed simp

declare write_all.simps [simp del]

text \<open>The newline after a line has to be written at once; the last line has none.\<close>

fun write_lines :: "world \<Rightarrow> int \<Rightarrow> u8 list list \<Rightarrow> edit \<Rightarrow> bool \<times> edit" where
  "write_lines w fd [] st = (True, st)"
| "write_lines w fd (t # ts) st =
     (let (ok, st) = write_all w fd t st in
      if \<not> ok then (False, st)
      else if ts = [] then (True, st)
      else (let (r, st) = ed_call w (Write fd [LF]) st in if r_val r \<noteq> 1 then (False, st) else write_lines w fd ts st))"

definition save_to :: "world \<Rightarrow> cstring \<Rightarrow> edit \<Rightarrow> (bool \<times> edit) option" where
  "save_to w path st = do {
     let (s, st) = ed_call w (Stat path True) st;
     let mode = (if r_val s = 0 then st_mode (r_stat s) AND 4095 else 420);
     (b, n) \<leftarrow> sbuf 512 (cs ''%s.tmp'') [astr path];
     let tmp = cstr_of b;
     if n \<ge> 512 then Some (False, set_status (cs ''path too long'') st)
     else
       (let (r, st) = ed_call w (Open_mode tmp (O_WRONLY OR O_CREAT OR O_TRUNC) mode) st; fd = r_val r in
        if fd < 0
        then map_option (Pair False)
               (status_fmt 200 (cs ''cannot write %s (%d) - Ctrl-O saves it somewhere else'') [astr tmp, anum (- fd)] st)
        else
          (let (ok, st) = write_lines w fd (map ltext (lines st)) st; st = ed_did (Close fd) st in
           if \<not> ok
           then Some (False, set_status (cs ''write error - the original is untouched (disk full?)'') (ed_did (Unlink tmp) st))
           else
             (let (r, st) = ed_call w (Rename tmp path) st in
              if r_val r < 0
              then map_option (Pair False)
                     (status_fmt 160 (cs ''rename failed (%d) - nothing was changed'') [anum (- r_val r)] (ed_did (Unlink tmp) st))
              else
                map_option (Pair True)
                  (status_fmt 200 (cs ''saved %s (%d lines)'') [astr path, anum (int (nlines st))]
                    ((ed_did Sync st)\<lparr>modified := False\<rparr>)))))
   }"

end
