(* ===== verification/EdKeys.thy ===== *)
theory EdKeys
  imports EdFiles
begin

text \<open>
  The keys of the editor (\<open>userland/edit/edit.c\<close>): reading a key, the prompt, search and replacement
  with their questions, the switch of the main loop, and \<open>main\<close>.  The number \<open>k\<close> bounds the reads of a
  byte that give none, the keys of a prompt, and the keys of the editor.
\<close>

section \<open>Reading a key\<close>

datatype key =
    Byte u8 | KEY_UP | KEY_DOWN | KEY_LEFT | KEY_RIGHT | KEY_HOME | KEY_END | KEY_PGUP | KEY_PGDN | KEY_DEL
  | KEY_FILE_TOP | KEY_FILE_END | KEY_WORD_LEFT | KEY_WORD_RIGHT

abbreviation KEY_ESC :: key where "KEY_ESC \<equiv> Byte 27"

definition esc_more :: "world \<Rightarrow> edit \<Rightarrow> bool \<times> edit" where
  "esc_more w st =
     (let (r, st) = ed_call w (Waiting 0) st in
      if r_val r < 0 \<or> fst (r_ends r) > 0 then (True, st)
      else
        (let (r, st) = ed_call w (Waiting 0) (ed_did (Sleep_ms 20) st) in
         (r_val r < 0 \<or> fst (r_ends r) > 0, st)))"

text \<open>\<open>lp_read(STDIN_FILENO, c, 1) == 1\<close>\<close>

definition read_one :: "world \<Rightarrow> edit \<Rightarrow> u8 option \<times> edit" where
  "read_one w st =
     (let (r, st) = ed_call w (Read 0 1) st in (if r_val r = 1 then Some (ch (r_bytes r) 0) else None, st))"

definition esc_byte :: "world \<Rightarrow> edit \<Rightarrow> u8 option \<times> edit" where
  "esc_byte w st = (let (more, st) = esc_more w st in if more then read_one w st else (None, st))"

text \<open>The final letter of \<open>ESC [\<close> and \<open>ESC O\<close>, of \<open>ESC [ n ~\<close>, and of \<open>ESC [ 1 ; 5\<close>.\<close>

definition arrow_key :: "u8 \<Rightarrow> key" where
  "arrow_key c =
     (if c = 65 then KEY_UP else if c = 66 then KEY_DOWN else if c = 67 then KEY_RIGHT else if c = 68 then KEY_LEFT
      else if c = 72 then KEY_HOME else if c = 70 then KEY_END else KEY_ESC)"

definition tilde_key :: "u8 \<Rightarrow> key" where
  "tilde_key c =
     (if c = 49 \<or> c = 55 then KEY_HOME else if c = 51 then KEY_DEL else if c = 52 \<or> c = 56 then KEY_END
      else if c = 53 then KEY_PGUP else if c = 54 then KEY_PGDN else KEY_ESC)"

definition ctrl_key :: "u8 \<Rightarrow> key" where
  "ctrl_key c =
     (if c = 72 then KEY_FILE_TOP else if c = 70 then KEY_FILE_END else if c = 68 then KEY_WORD_LEFT
      else if c = 67 then KEY_WORD_RIGHT else KEY_ESC)"

text \<open>A byte of an escape sequence; without it the key is ESC.\<close>

definition then_byte :: "u8 option \<times> edit \<Rightarrow> (u8 \<Rightarrow> edit \<Rightarrow> key \<times> edit) \<Rightarrow> key \<times> edit" where
  "then_byte r f = (case r of (None, st) \<Rightarrow> (KEY_ESC, st) | (Some c, st) \<Rightarrow> f c st)"

definition escape_key :: "world \<Rightarrow> edit \<Rightarrow> key \<times> edit" where
  "escape_key w st =
     then_byte (esc_byte w st) (\<lambda>a st. then_byte (esc_byte w st) (\<lambda>b st.
       if a = 91 then
         (if 48 \<le> b \<and> b \<le> 57 then
            then_byte (esc_byte w st) (\<lambda>c st.
              if c = 126 then (tilde_key b, st)
              else if c = 59 then
                then_byte (esc_byte w st) (\<lambda>md st. then_byte (esc_byte w st) (\<lambda>fin st.
                  (if md = 53 then ctrl_key fin else KEY_ESC, st)))
              else (KEY_ESC, st))
          else (arrow_key b, st))
       else (if a = 79 then arrow_key b else KEY_ESC, st)))"

text \<open>A read of 0 bytes is tried again; the key is \<open>None\<close> for an error.\<close>

fun read_key :: "world \<Rightarrow> nat \<Rightarrow> edit \<Rightarrow> (key option \<times> edit) option" where
  "read_key w 0 st = None"
| "read_key w (Suc k) st =
     (let (r, st) = ed_call w (Read 0 1) st; c = ch (r_bytes r) 0 in
      if r_val r = 0 then read_key w k st
      else if r_val r < 0 then Some (None, st)
      else if c \<noteq> 27 then Some (Some (Byte c), st)
      else (let (key, st) = escape_key w st in Some (Some key, st)))"

section \<open>The prompt\<close>

text \<open>The bytes of a character after its first, as far as they come.\<close>

fun read_rest :: "world \<Rightarrow> nat \<Rightarrow> edit \<Rightarrow> u8 list \<times> edit" where
  "read_rest w 0 st = ([], st)"
| "read_rest w (Suc n) st =
     (case read_one w st of
        (None, st) \<Rightarrow> ([], st)
      | (Some c, st) \<Rightarrow> (let (t, st) = read_rest w n st in (c # t, st)))"

definition show_prompt :: "world \<Rightarrow> cstring \<Rightarrow> u8 list \<Rightarrow> edit \<Rightarrow> edit option" where
  "show_prompt w label buf st =
     map_option (\<lambda>st. flush_out w (out_bytes SHOW_CURSOR (out_bytes buf (out_bytes label (out_bytes ERASE_LINE st)))))
       (move_to (int (rows st)) 1 st)"

definition gives_up :: "key option \<Rightarrow> bool" where
  "gives_up key \<longleftrightarrow> key \<in> {None, Some KEY_ESC, Some (Byte 3), Some (Byte 17)}"

definition prompt_byte :: "world \<Rightarrow> nat \<Rightarrow> u8 \<Rightarrow> u8 list \<Rightarrow> edit \<Rightarrow> u8 list \<times> edit" where
  "prompt_byte w sz c buf st =
     (if c = 127 \<or> c = 8 then (take (utf8_prev buf (length buf)) buf, st)
      else if c = TAB \<or> (32 \<le> c \<and> c < 127) then (if length buf + 1 < sz then buf @ [c] else buf, st)
      else if c \<ge> 192 then
        (let need = utf8_seq_len c - 1 in
         if length buf + need + 1 < sz then (let (t, st) = read_rest w need st in (buf @ c # t, st)) else (buf, st))
      else (buf, st))"

text \<open>What is typed, or the inner \<open>None\<close> if the user gives up.\<close>

fun prompt_loop :: "world \<Rightarrow> nat \<Rightarrow> cstring \<Rightarrow> nat \<Rightarrow> u8 list \<Rightarrow> edit \<Rightarrow> (cstring option \<times> edit) option" where
  "prompt_loop w 0 label sz buf st = None"
| "prompt_loop w (Suc k) label sz buf st = do {
     st \<leftarrow> show_prompt w label buf st;
     (key, st) \<leftarrow> read_key w k st;
     if gives_up key then Some (None, st)
     else if key = Some (Byte CR) \<or> key = Some (Byte LF) then Some (Some (cstr_of buf), st)
     else
       (let (buf, st) = (case key of Some (Byte c) \<Rightarrow> prompt_byte w sz c buf st | _ \<Rightarrow> (buf, st)) in
        prompt_loop w k label sz buf st)
   }"

definition prompt :: "world \<Rightarrow> nat \<Rightarrow> cstring \<Rightarrow> nat \<Rightarrow> edit \<Rightarrow> (cstring option \<times> edit) option" where
  "prompt w k label sz st = prompt_loop w k label sz [] st"

definition ask :: "world \<Rightarrow> nat \<Rightarrow> cstring \<Rightarrow> edit \<Rightarrow> (key \<times> edit) option" where
  "ask w k msg st = do {
     st \<leftarrow> move_to (int (rows st)) 1 st;
     st \<leftarrow> place_cursor (out_bytes msg (out_bytes ERASE_LINE st));
     (key, st) \<leftarrow> read_key w k (flush_out w st);
     Some (case key of None \<Rightarrow> Byte 113 | Some key \<Rightarrow> key, st)
   }"

section \<open>Search and replacement\<close>

definition PAT_MAX :: nat where "PAT_MAX = 128"

definition search_for :: "cstring \<Rightarrow> bool \<Rightarrow> edit \<Rightarrow> edit option" where
  "search_for pat fwd st =
     (let (found, st) = search pat fwd st in
      if found then Some st else status_fmt 200 (cs ''not found: %s'') [astr pat] st)"

definition search_prompt :: "world \<Rightarrow> nat \<Rightarrow> bool \<Rightarrow> edit \<Rightarrow> edit option" where
  "search_prompt w k fwd st = do {
     (r, st) \<leftarrow> prompt w k (if fwd then cs ''search: '' else cs ''search back: '') PAT_MAX st;
     case r of
       None \<Rightarrow> Some st
     | Some pat \<Rightarrow>
         (if pat = [] \<and> last_pat st = [] then Some st
          else
            (let pat = (if pat = [] then last_pat st else pat) in
             search_for pat fwd (st\<lparr>last_pat := clip PAT_MAX pat, last_fwd := fwd\<rparr>)))
   }"

definition search_again :: "edit \<Rightarrow> edit option" where
  "search_again st =
     (if last_pat st = [] then Some (set_status (cs ''no search to repeat - Ctrl-W starts one'') st)
      else search_for (last_pat st) (last_fwd st) st)"

text \<open>One replacement at the cursor, where the pattern is.\<close>

definition replace_one :: "world \<Rightarrow> cstring \<Rightarrow> cstring \<Rightarrow> edit \<Rightarrow> (bool \<times> edit) option" where
  "replace_one w pat rep st =
     (let l = cur_line st in
      case line_reserve w (length (ltext l) - length pat + length rep) l of
        None \<Rightarrow> Some (False, set_status (cs ''out of memory - nothing more was replaced'') st)
      | Some m \<Rightarrow>
          do {
            let st = put_line m st;
            st \<leftarrow> record_change w (cy st) 1 1 st;
            Some (True, (put_line (m\<lparr>ltext := replaced_at (ltext l) (cx st) pat rep\<rparr>) st)
                          \<lparr>cx := cx st + length rep, modified := True\<rparr>)
          })"

fun replace_loop :: "world \<Rightarrow> nat \<Rightarrow> cstring \<Rightarrow> cstring \<Rightarrow> nat \<Rightarrow> edit \<Rightarrow> (nat \<times> edit) option" where
  "replace_loop w 0 pat rep done_n st = None"
| "replace_loop w (Suc k) pat rep done_n st =
     (case find_fwd (cur_text st) pat (cx st) of
        None \<Rightarrow>
          (case find (\<lambda>i. find_fwd (text_at st i) pat 0 \<noteq> None) [cy st + 1..<nlines st] of
             None \<Rightarrow> Some (done_n, st)
           | Some i \<Rightarrow> replace_loop w k pat rep done_n (st\<lparr>cy := i, cx := 0\<rparr>))
      | Some at \<Rightarrow> do {
          st \<leftarrow> refresh w (st\<lparr>cx := at, dirty := DIRTY_ALL\<rparr>);
          (key, st) \<leftarrow> ask w k (cs ''replace this one?  y  n  a=all the rest  q=stop '') st;
          if key = Byte 113 \<or> gives_up (Some key) then Some (done_n, st)
          else if key = Byte 97 then map_option (\<lambda>(n, st). (done_n + n, st)) (replace_rest w pat rep st)
          else if key = Byte 121 then do {
            (ok, st) \<leftarrow> replace_one w pat rep st;
            if ok then replace_loop w k pat rep (done_n + 1) st else Some (done_n, st)
          }
          else replace_loop w k pat rep done_n (st\<lparr>cx := at + 1\<rparr>)
        })"

definition replace_prompt :: "world \<Rightarrow> nat \<Rightarrow> edit \<Rightarrow> edit option" where
  "replace_prompt w k st =
     (let (ok, st) = may_edit st in
      if \<not> ok then Some st
      else do {
        (r, st) \<leftarrow> prompt w k (cs ''replace: '') PAT_MAX st;
        case r of
          None \<Rightarrow> Some st
        | Some pat \<Rightarrow>
            (if pat = [] then Some st
             else do {
               (r, st) \<leftarrow> prompt w k (cs ''with: '') PAT_MAX st;
               case r of
                 None \<Rightarrow> Some st
               | Some rep \<Rightarrow> do {
                   (n, st) \<leftarrow> replace_loop w k pat rep 0
                     (st\<lparr>last_pat := clip PAT_MAX pat, last_rep := clip PAT_MAX rep, cy := 0, cx := 0\<rparr>);
                   st \<leftarrow> status_fmt 160 (cs ''%d replaced%s'')
                     [anum (int n), astr (if n > 0 \<and> count (stacks st Undo) = 0 then cs '' - too big to undo'' else [])] st;
                   Some ((clamp_cx st)\<lparr>dirty := DIRTY_ALL\<rparr>)
                 }
             })
      })"

definition goto_line :: "world \<Rightarrow> nat \<Rightarrow> edit \<Rightarrow> edit option" where
  "goto_line w k st = do {
     (r, st) \<leftarrow> prompt w k (cs ''go to line: '') 32 st;
     case r of
       None \<Rightarrow> Some st
     | Some buf \<Rightarrow>
         (if buf = [] then Some st
          else do {
            v \<leftarrow> atoi buf;
            let n = (if v < 1 then 1 else v);
            let n = (if n > int (nlines st) then int (nlines st) else n);
            Some (st\<lparr>cy := nat (n - 1), cx := 0, dirty := DIRTY_ALL\<rparr>)
          })
   }"

definition save_as :: "world \<Rightarrow> nat \<Rightarrow> edit \<Rightarrow> edit option" where
  "save_as w k st = do {
     (r, st) \<leftarrow> prompt w k (cs ''save as: '') 512 st;
     case r of
       None \<Rightarrow> Some st
     | Some buf \<Rightarrow>
         (if buf = [] then Some st
          else
            (let (d, st) = ed_call w (Is_dir buf) st in
             if r_val d \<noteq> 0 then Some (set_status (cs ''that is a directory'') st)
             else do {
               (ok, st) \<leftarrow> save_to w buf st;
               Some (if ok then (let (a, st) = path_writable w (clip 512 buf) st in st\<lparr>fname := clip 512 buf, readonly := \<not> a\<rparr>)
                     else st)
             }))
   }"

definition help_text :: "string list" where
  "help_text =
     [''edit - keys'', '''',
      ''  arrows  move             Ctrl-Left/Right  word left / right'',
      ''  Home/End  line ends      PgUp/PgDn        one screen'',
      ''  Ctrl-Home/End  file ends Enter            split, keeping the indent'',
      ''  Backspace/Del  erase     Ctrl-K           cut this line'',
      ''  Ctrl-A  start selecting  Ctrl-B copy  Ctrl-X cut  Ctrl-V paste'',
      ''  Ctrl-W  search           Ctrl-P  search backward'',
      ''  Ctrl-N  search again     Ctrl-R  search and replace'',
      ''  Ctrl-T  go to line       Ctrl-D  line numbers on and off'',
      ''  Ctrl-Z  undo             Ctrl-Y  redo'',
      ''  Ctrl-S  save             Ctrl-O  save as'',
      ''  Ctrl-L  redraw           Ctrl-Q, Ctrl-C  quit'', '''',
      ''  Select: Ctrl-A, move to the other end, then Ctrl-X or Ctrl-B.'',
      ''  Ctrl-A again drops the selection.'', '''',
      ''  Saving writes a temporary file in the same directory and'',
      ''  renames it over. If the write fails the original is untouched.'',
      ''  Undo remembers the last 64 changes, or 192k of text.'', '''']"

definition show_help :: "world \<Rightarrow> nat \<Rightarrow> edit \<Rightarrow> edit option" where
  "show_help w k st = do {
     let st = out_bytes (CLEAR_SCREEN @ [27, 91, 72]) st;
     let st = fold (\<lambda>s. out_bytes (cs s @ [CR, LF])) help_text st;
     (key, st) \<leftarrow> read_key w k (flush_out w (out_bytes (cs ''Press any key...'') st));
     Some ((out_bytes CLEAR_SCREEN st)\<lparr>dirty := DIRTY_ALL\<rparr>)
   }"

section \<open>The switch\<close>

definition move_key :: "key \<Rightarrow> edit \<Rightarrow> edit" where
  "move_key key st =
     (let t = cur_text st in
      case key of
        KEY_UP \<Rightarrow> if cy st > 0 then clamp_cx (st\<lparr>cy := cy st - 1\<rparr>) else st
      | KEY_DOWN \<Rightarrow> if cy st < nlines st - 1 then clamp_cx (st\<lparr>cy := cy st + 1\<rparr>) else st
      | KEY_LEFT \<Rightarrow>
          if cx st > 0 then st\<lparr>cx := utf8_prev t (cx st)\<rparr>
          else if cy st > 0 then st\<lparr>cy := cy st - 1, cx := length (text_at st (cy st - 1))\<rparr> else st
      | KEY_RIGHT \<Rightarrow>
          if cx st < length t then st\<lparr>cx := utf8_next t (length t) (cx st)\<rparr>
          else if cy st < nlines st - 1 then st\<lparr>cy := cy st + 1, cx := 0\<rparr> else st
      | KEY_WORD_LEFT \<Rightarrow> word_left st
      | KEY_WORD_RIGHT \<Rightarrow> word_right st
      | KEY_HOME \<Rightarrow> st\<lparr>cx := 0\<rparr>
      | KEY_END \<Rightarrow> st\<lparr>cx := length t\<rparr>
      | KEY_PGUP \<Rightarrow> clamp_cx (st\<lparr>cy := cy st - (rows st - 2)\<rparr>)
      | KEY_PGDN \<Rightarrow> clamp_cx (st\<lparr>cy := min (cy st + (rows st - 2)) (nlines st - 1)\<rparr>)
      | KEY_FILE_TOP \<Rightarrow> st\<lparr>cy := 0, cx := 0\<rparr>
      | KEY_FILE_END \<Rightarrow> st\<lparr>cy := nlines st - 1, cx := length (text_at st (nlines st - 1))\<rparr>
      | _ \<Rightarrow> st)"

text \<open>A key that changes the text: whether it counts as typing, and the state.\<close>

type_synonym pressed = "(bool \<times> edit) option"

definition untyped :: "edit option \<Rightarrow> pressed" where
  "untyped r = map_option (Pair False) r"

definition with_edit :: "(edit \<Rightarrow> pressed) \<Rightarrow> edit \<Rightarrow> pressed" where
  "with_edit f st = (let (ok, st) = may_edit st in if ok then f st else Some (False, st))"

definition drop_selection :: "world \<Rightarrow> edit \<Rightarrow> edit option" where
  "drop_selection w st = (if mark_on st then delete_selection w st else Some st)"

text \<open>The selection if there is one, else the character.\<close>

definition erase_key :: "world \<Rightarrow> (world \<Rightarrow> edit \<Rightarrow> edit option) \<Rightarrow> edit \<Rightarrow> pressed" where
  "erase_key w erase st =
     with_edit (\<lambda>st. if mark_on st then untyped (delete_selection w st) else map_option (Pair True) (erase w st)) st"

definition type_key :: "world \<Rightarrow> u8 \<Rightarrow> edit \<Rightarrow> edit option" where
  "type_key w c st = do {
     st \<leftarrow> drop_selection w st;
     st \<leftarrow> record_typing w st;
     insert_char w c st
   }"

text \<open>The bytes of a character: \<open>need\<close> more after the first, each inserted as it is read.\<close>

fun insert_rest :: "world \<Rightarrow> nat \<Rightarrow> edit \<Rightarrow> edit option" where
  "insert_rest w 0 st = Some st"
| "insert_rest w (Suc n) st =
     (case read_one w st of
        (None, st) \<Rightarrow> Some st
      | (Some c, st) \<Rightarrow> Option.bind (insert_char w c st) (insert_rest w n))"

definition type_char :: "world \<Rightarrow> u8 \<Rightarrow> edit \<Rightarrow> edit option" where
  "type_char w c st = Option.bind (type_key w c st) (insert_rest w (utf8_seq_len c - 1))"

definition toggle_mark :: "edit \<Rightarrow> edit" where
  "toggle_mark st =
     (if mark_on st then set_status (cs ''selection dropped'') (st\<lparr>mark_on := False\<rparr>)
      else set_status (cs ''selecting - move, then Ctrl-X cut, Ctrl-B copy'') (st\<lparr>mark_on := True, my := cy st, mx := cx st\<rparr>))
     \<lparr>dirty := DIRTY_ALL\<rparr>"

definition copy_key :: "world \<Rightarrow> edit \<Rightarrow> edit option" where
  "copy_key w st =
     map_option (\<lambda>(ok, st). if ok then (set_status (cs ''copied'') (st\<lparr>mark_on := False\<rparr>))\<lparr>dirty := DIRTY_ALL\<rparr> else st)
       (copy_selection w st)"

definition cut_key :: "world \<Rightarrow> edit \<Rightarrow> edit option" where
  "cut_key w st =
     (if mark_on st then Option.bind (copy_selection w st) (\<lambda>(ok, st). if ok then delete_selection w st else Some st)
      else cut_line w st)"

definition save_key :: "world \<Rightarrow> edit \<Rightarrow> edit option" where
  "save_key w st =
     (if readonly st then Some (set_status (cs ''read-only - Ctrl-O saves it under another name'') st)
      else map_option snd (save_to w (fname st) st))"

definition redraw_key :: "world \<Rightarrow> edit \<Rightarrow> edit" where
  "redraw_key w st =
     (let ((r, c), st) = term_size w st in (out_bytes CLEAR_SCREEN (st\<lparr>rows := r, cols := c\<rparr>))\<lparr>dirty := DIRTY_ALL\<rparr>)"

definition byte_key :: "world \<Rightarrow> nat \<Rightarrow> u8 \<Rightarrow> edit \<Rightarrow> pressed" where
  "byte_key w k c st =
     (if c = 127 \<or> c = 8 then erase_key w backspace st
      else if c = CR \<or> c = LF then with_edit (\<lambda>st. untyped (Option.bind (drop_selection w st) (split_line w))) st
      else if c = 1 then Some (False, toggle_mark st)
      else if c = 2 then untyped (copy_key w st)
      else if c = 24 then with_edit (\<lambda>st. untyped (cut_key w st)) st
      else if c = 22 then with_edit (\<lambda>st. untyped (Option.bind (drop_selection w st) (paste w))) st
      else if c = 11 then with_edit (\<lambda>st. untyped (cut_line w st)) st
      else if c = 26 then with_edit (\<lambda>st. untyped (do_undo w st)) st
      else if c = 25 then with_edit (\<lambda>st. untyped (do_redo w st)) st
      else if c = 23 then untyped (search_prompt w k True st)
      else if c = 16 then untyped (search_prompt w k False st)
      else if c = 14 then untyped (search_again st)
      else if c = 18 then untyped (replace_prompt w k st)
      else if c = 20 then untyped (goto_line w k st)
      else if c = 4 then
        Some (False, (out_bytes CLEAR_SCREEN (st\<lparr>show_numbers := \<not> show_numbers st, left_col := 0\<rparr>))\<lparr>dirty := DIRTY_ALL\<rparr>)
      else if c = 19 then untyped (save_key w st)
      else if c = 15 then untyped (save_as w k st)
      else if c = 7 then untyped (show_help w k st)
      else if c = 12 then Some (False, redraw_key w st)
      else if c = TAB \<or> (32 \<le> c \<and> c < 127) then with_edit (\<lambda>st. map_option (Pair True) (type_key w c st)) st
      else if c \<ge> 192 then with_edit (\<lambda>st. map_option (Pair True) (type_char w c st)) st
      else Some (False, st))"

text \<open>
  One turn of the main loop after a key was read, up to the redraw: the key's case, and what the flags
  \<open>typed\<close> and \<open>quit_confirm\<close> become.
\<close>

definition press :: "world \<Rightarrow> nat \<Rightarrow> key \<Rightarrow> bool \<Rightarrow> edit \<Rightarrow> (bool \<times> edit) option" where
  "press w k key quit_confirm st =
     (let st = st\<lparr>status := []\<rparr> in
      if key = Byte 17 \<or> key = Byte 3 then
        (if modified st \<and> \<not> quit_confirm
         then Some (True, (set_status (cs ''unsaved changes. Ctrl-Q again to quit anyway, Ctrl-S to save.'') st)\<lparr>typing_line := None\<rparr>)
         else Some (quit_confirm, st\<lparr>running := False, typing_line := None\<rparr>))
      else
        map_option (\<lambda>(typed, st). (False, if typed then st else st\<lparr>typing_line := None\<rparr>))
          (case key of
             Byte c \<Rightarrow> byte_key w k c st
           | KEY_DEL \<Rightarrow> erase_key w delete_forward st
           | _ \<Rightarrow> Some (False, move_key key st)))"

section \<open>The main program\<close>

fun main_loop :: "world \<Rightarrow> nat \<Rightarrow> bool \<Rightarrow> edit \<Rightarrow> edit option" where
  "main_loop w 0 quit_confirm st = None"
| "main_loop w (Suc k) quit_confirm st =
     (if \<not> running st then Some st
      else do {
        (key, st) \<leftarrow> read_key w k st;
        case key of
          None \<Rightarrow> Some st
        | Some key \<Rightarrow> do {
            (quit_confirm, st) \<leftarrow> press w k key quit_confirm st;
            st \<leftarrow> (if running st then refresh w st else Some st);
            main_loop w k quit_confirm st
          }
      })"

definition ed_say :: "int \<Rightarrow> cstring \<Rightarrow> arg list \<Rightarrow> edit \<Rightarrow> edit" where
  "ed_say fd fmt as st = ed_did (Put (fd, fmt, as)) st"

definition usage :: "int \<Rightarrow> edit \<Rightarrow> edit" where
  "usage fd st =
     ed_say fd
       (cs ''usage: edit [-n] [-R] <file>'' @ [LF] @ cs ''  -n  show the line numbers from the start'' @ [LF] @
        cs ''  -R  open read-only'' @ [LF] @ cs ''Ctrl-G inside the editor lists every key.'' @ [LF]) [] st"

text \<open>The options: what is left of the arguments, or the status to leave with.\<close>

fun options :: "cstring list \<Rightarrow> bool \<Rightarrow> edit \<Rightarrow> (int + cstring list \<times> bool) \<times> edit" where
  "options [] ro st = (Inr ([], ro), st)"
| "options (a # as) ro st =
     (if deref a \<noteq> 45 \<or> ch a 1 = 0 then (Inr (a # as, ro), st)
      else if strcmp a (cs ''--'') = 0 then (Inr (as, ro), st)
      else if strcmp a (cs ''-h'') = 0 then (Inl 0, usage STDOUT_FILENO st)
      else if strcmp a (cs ''-n'') = 0 then options as ro (st\<lparr>show_numbers := True\<rparr>)
      else if strcmp a (cs ''-R'') = 0 then options as True st
      else (Inl 2, usage 2 (ed_say 2 (cs ''edit: unknown option %s'' @ [LF]) [astr a] st)))"

text \<open>The screen of a file that is loaded, until the editor is left.\<close>

definition edit_screen :: "world \<Rightarrow> nat \<Rightarrow> edit \<Rightarrow> (int \<times> edit) option" where
  "edit_screen w k st =
     (let (r, st) = ed_call w (Term_raw 0) st in
      if r_val r < 0
      then Some (1, ed_say 2 (cs ''edit: cannot take control of the terminal.'' @ [LF] @
                   cs ''      a full-screen editor only works on a terminal.'' @ [LF]) [] st)
      else
        (let ((r, c), st) = term_size w st in do {
           st \<leftarrow> refresh w (out_bytes CLEAR_SCREEN (st\<lparr>rows := (if r < 4 then 4 else r), cols := (if c < 20 then 20 else c)\<rparr>));
           st \<leftarrow> main_loop w k False st;
           Some (0, flush_out w (out_bytes (CLEAR_SCREEN @ [27, 91, 72]) (ed_did (Term_restore 0) st)))
         }))"

definition edit_file :: "world \<Rightarrow> nat \<Rightarrow> cstring \<Rightarrow> bool \<Rightarrow> edit \<Rightarrow> (int \<times> edit) option" where
  "edit_file w k path force_ro st =
     (let st = st\<lparr>fname := clip 512 path\<rparr>; (d, st) = ed_call w (Is_dir (fname st)) st in
      if r_val d \<noteq> 0 then Some (1, ed_say 2 (cs ''edit: %s is a directory'' @ [LF]) [astr (fname st)] st)
      else do {
        (ok, st) \<leftarrow> load_file w k (fname st) st;
        if \<not> ok then Some (1, ed_say 2 (cs ''edit: cannot read %s - out of memory?'' @ [LF]) [astr (fname st)] st)
        else do {
          let (a, st) = (if force_ro then (False, st) else path_writable w (fname st) st);
          let st = st\<lparr>readonly := \<not> a\<rparr>;
          st \<leftarrow> (if readonly st
                then status_fmt 220 (cs ''%s  read-only%s'')
                       [astr (status st), astr (if force_ro then cs '' (-R)'' else cs '' - it cannot be written here'')] st
                else Some st);
          edit_screen w k st
        }
      })"

definition ed_main :: "world \<Rightarrow> nat \<Rightarrow> cstring list \<Rightarrow> (int \<times> edit) option" where
  "ed_main w k args =
     (case options args False start_edit of
        (Inl r, st) \<Rightarrow> Some (r, st)
      | (Inr ([], ro), st) \<Rightarrow> Some (2, usage 2 st)
      | (Inr (path # ps, ro), st) \<Rightarrow> edit_file w k path ro st)"

end
