(* ===== verification/EdUndo.thy ===== *)
theory EdUndo
  imports EdKeys
begin

text \<open>
  Undo and redo of the editor.  A record of a stack is read as the text it leads to, a stack as the texts
  that taking back its records one after the other gives, and the editor as a timeline: the past, the
  present text and the future.  Every key is a step of the timeline, where an edit pushes the present on
  the past and forgets the future.
\<close>

section \<open>Blobs\<close>

definition plain :: "u8 list list \<Rightarrow> bool" where
  "plain ts \<longleftrightarrow> (\<forall>t \<in> set ts. LF \<notin> set t)"

lemma unbroken_simps [simp]:
  "plain []" "plain (t # ts) \<longleftrightarrow> LF \<notin> set t \<and> plain ts" "plain (ts @ us) \<longleftrightarrow> plain ts \<and> plain us"
  by (auto simp: plain_def)

lemma plain_take: "plain ts \<Longrightarrow> plain (take n ts)"
  and plain_drop: "plain ts \<Longrightarrow> plain (drop n ts)"
  by (auto simp: plain_def dest: in_set_takeD in_set_dropD)

lemma takeWhile_no_LF: "LF \<notin> set t \<Longrightarrow> takeWhile (\<lambda>c. c \<noteq> LF) (t @ LF # u) = t"
  and dropWhile_no_LF: "LF \<notin> set t \<Longrightarrow> dropWhile (\<lambda>c. c \<noteq> LF) (t @ LF # u) = LF # u"
  by (induction t) auto

lemma takeWhile_all_no_LF: "LF \<notin> set t \<Longrightarrow> takeWhile (\<lambda>c. c \<noteq> LF) t = t"
  by (simp add: takeWhile_eq_all_conv) blast

lemma blob_lines_join: "plain ts \<Longrightarrow> blob_lines (length ts) (join_text ts) = ts"
  by (induction ts rule: join_text.induct) (simp_all add: takeWhile_no_LF dropWhile_no_LF takeWhile_all_no_LF)

lemma length_blob_lines [simp]: "length (blob_lines n b) = n"
  by (induction n b rule: blob_lines.induct) simp_all

lemma plain_blob_lines [simp]: "plain (blob_lines n b)"
  by (induction n b rule: blob_lines.induct) (auto dest: set_takeWhileD)

lemma blob_lines_1: "LF \<notin> set b \<Longrightarrow> blob_lines 1 b = [b]"
  by (simp add: takeWhile_all_no_LF)

lemma blob_lines_2: "LF \<notin> set a \<Longrightarrow> LF \<notin> set b \<Longrightarrow> blob_lines 2 (a @ LF # b) = [a, b]"
  by (simp add: numeral_2_eq_2 takeWhile_no_LF dropWhile_no_LF takeWhile_all_no_LF)

section \<open>The ring\<close>

text \<open>A stack as the list of its records, the oldest first.\<close>

definition records :: "stack_t \<Rightarrow> change_t list" where
  "records k = map (\<lambda>i. slots k ! ((start k + i) mod UNDO_MAX)) [0..<count k]"

definition stack_ok :: "stack_t \<Rightarrow> bool" where
  "stack_ok k \<longleftrightarrow> length (slots k) = UNDO_MAX \<and> start k < UNDO_MAX \<and> count k \<le> UNDO_MAX"

lemma length_records [simp]: "length (records k) = count k"
  by (simp add: records_def)

lemma records_Nil_iff [simp]: "records k = [] \<longleftrightarrow> count k = 0"
  by (simp add: records_def)

lemma UNDO_MAX_pos [simp]: "0 < UNDO_MAX"
  by (simp add: UNDO_MAX_def)

lemma ring_drop:
  assumes "0 < count k"
  shows "records (k\<lparr>start := (start k + 1) mod UNDO_MAX, count := count k - 1\<rparr>) = tl (records k)"
proof -
  have "[0..<count k] = 0 # map Suc [0..<count k - 1]" using assms by (metis Suc_diff_1 map_Suc_upt upt_conv_Cons)
  then show ?thesis by (simp add: records_def mod_simps)
qed

lemma ring_hd: "0 < count k \<Longrightarrow> start k < UNDO_MAX \<Longrightarrow> hd (records k) = slots k ! start k"
  by (simp add: records_def hd_map)

lemma ring_last: "0 < count k \<Longrightarrow> last (records k) = slots k ! ((start k + count k - 1) mod UNDO_MAX)"
  by (simp add: records_def last_map)

lemma ring_pop: "records (k\<lparr>count := count k - 1\<rparr>) = butlast (records k)"
  by (cases "count k") (simp_all add: records_def)

lemma ring_slot:
  assumes "i < n" "n < UNDO_MAX" shows "(s + i) mod UNDO_MAX \<noteq> (s + n) mod UNDO_MAX"
proof
  assume "(s + i) mod UNDO_MAX = (s + n) mod UNDO_MAX"
  then have "UNDO_MAX dvd s + n - (s + i)" using assms by (metis add_le_cancel_left less_imp_le_nat mod_eq_dvd_iff_nat)
  with assms show False by (auto dest: dvd_imp_le)
qed

lemma ring_push:
  assumes "stack_ok k" "count k < UNDO_MAX"
  shows "records (k\<lparr>slots := (slots k)[(start k + count k) mod UNDO_MAX := c], count := count k + 1\<rparr>) = records k @ [c]"
proof -
  have "(start k + count k) mod UNDO_MAX < length (slots k)" using assms by (simp add: stack_ok_def)
  then show ?thesis using ring_slot [OF _ assms(2), of _ "start k"]
    by (auto simp: records_def nth_list_update eq_commute [of "(start k + count k) mod UNDO_MAX"])
qed

section \<open>The two stacks\<close>

definition hist :: "which \<Rightarrow> edit \<Rightarrow> change_t list" where
  "hist s st = records (stacks st s)"

definition blob_bytes :: "change_t list \<Rightarrow> nat" where
  "blob_bytes hs = sum_list (map (\<lambda>c. length (ch_blob c)) hs)"

definition hist_ok :: "edit \<Rightarrow> bool" where
  "hist_ok st \<longleftrightarrow> (\<forall>s. stack_ok (stacks st s)) \<and> hist_bytes st = blob_bytes (hist Undo st) + blob_bytes (hist Redo st) \<and>
     hist_bytes st \<le> UNDO_BYTES"

text \<open>Only the stacks are different.\<close>

definition same_but_hist :: "edit \<Rightarrow> edit \<Rightarrow> bool" where
  "same_but_hist st st' \<longleftrightarrow> st\<lparr>stacks := \<lambda>s. empty_stack, hist_bytes := 0\<rparr> = st'\<lparr>stacks := \<lambda>s. empty_stack, hist_bytes := 0\<rparr>"

lemma same_but_hist_refl [simp]: "same_but_hist st st"
  by (simp add: same_but_hist_def)

lemma same_but_hist_trans: "same_but_hist st st' \<Longrightarrow> same_but_hist st' st'' \<Longrightarrow> same_but_hist st st''"
  by (simp add: same_but_hist_def)

lemma same_but_hist_fields:
  assumes "same_but_hist st st'"
  shows "lines st' = lines st" "cy st' = cy st" "cx st' = cx st" "typing_line st' = typing_line st" "mark_on st' = mark_on st"
    "my st' = my st" "mx st' = mx st" "clipboard st' = clipboard st" "last_pat st' = last_pat st" "calls st' = calls st"
    "readonly st' = readonly st"
  using assms by (cases st; cases st'; simp add: same_but_hist_def)+

lemma blob_bytes_simps [simp]:
  "blob_bytes [] = 0" "blob_bytes (c # hs) = length (ch_blob c) + blob_bytes hs"
  "blob_bytes (hs @ ds) = blob_bytes hs + blob_bytes ds"
  by (simp_all add: blob_bytes_def)

lemma hist_bytes_split: "hist_ok st \<Longrightarrow> hist_bytes st = blob_bytes (hist s st) + blob_bytes (hist (other s) st)"
  by (cases s) (simp_all add: hist_ok_def)

lemma which_cases: "s' = s \<or> s' = other s"
  by (cases s; cases s') simp_all

lemma drop_oldest:
  assumes "hist_ok st" "0 < count (stacks st s)"
  shows "hist_ok (stack_drop_oldest s st)" "hist s (stack_drop_oldest s st) = tl (hist s st)"
    "hist (other s) (stack_drop_oldest s st) = hist (other s) st" "same_but_hist st (stack_drop_oldest s st)"
proof -
  let ?k = "stacks st s"
  have k: "stack_ok ?k" using assms by (simp add: hist_ok_def)
  show h: "hist s (stack_drop_oldest s st) = tl (hist s st)"
    using ring_drop [OF assms(2)] assms(2) by (simp add: hist_def stack_drop_oldest_def Let_def)
  show o': "hist (other s) (stack_drop_oldest s st) = hist (other s) st"
    by (simp add: hist_def stack_drop_oldest_def Let_def)
  show "same_but_hist st (stack_drop_oldest s st)" by (simp add: same_but_hist_def stack_drop_oldest_def Let_def)
  have "hist s st \<noteq> []" using assms(2) by (simp add: hist_def)
  then have "blob_bytes (hist s st) = length (ch_blob (slots ?k ! start ?k)) + blob_bytes (tl (hist s st))"
    using ring_hd [OF assms(2)] k by (cases "hist s st") (auto simp: hist_def stack_ok_def)
  moreover have "hist_bytes (stack_drop_oldest s st) = hist_bytes st - length (ch_blob (slots ?k ! start ?k))"
    using assms(2) by (simp add: stack_drop_oldest_def Let_def)
  ultimately have "hist_bytes (stack_drop_oldest s st) = blob_bytes (tl (hist s st)) + blob_bytes (hist (other s) st)"
    "hist_bytes (stack_drop_oldest s st) \<le> UNDO_BYTES"
    using hist_bytes_split [OF assms(1), of s] assms(1) by (simp_all add: hist_ok_def)
  moreover have "stack_ok (stacks (stack_drop_oldest s st) s')" for s'
    using assms k by (auto simp: hist_ok_def stack_drop_oldest_def stack_ok_def Let_def intro: le_trans [OF diff_le_self])
  ultimately show "hist_ok (stack_drop_oldest s st)" using h o' by (cases s) (simp_all add: hist_ok_def)
qed

lemma drop_oldest_times:
  assumes "hist_ok st" "n \<le> count (stacks st s)"
  shows "hist_ok ((stack_drop_oldest s ^^ n) st) \<and> hist s ((stack_drop_oldest s ^^ n) st) = drop n (hist s st) \<and>
    hist (other s) ((stack_drop_oldest s ^^ n) st) = hist (other s) st \<and> same_but_hist st ((stack_drop_oldest s ^^ n) st)"
  using assms(2)
proof (induction n)
  case 0
  show ?case using assms(1) by simp
next
  case (Suc n)
  let ?t = "(stack_drop_oldest s ^^ n) st"
  have t: "hist_ok ?t" "hist s ?t = drop n (hist s st)" "hist (other s) ?t = hist (other s) st" "same_but_hist st ?t"
    using Suc by simp_all
  have "length (hist s ?t) > 0" using t(2) Suc.prems by (simp add: hist_def)
  then have "0 < count (stacks ?t s)" by (simp add: hist_def)
  from drop_oldest [OF t(1) this] t show ?case
    by (auto simp: tl_drop drop_Suc elim: same_but_hist_trans)
qed

lemma stack_clear:
  assumes "hist_ok st"
  shows "hist_ok (stack_clear s st)" "hist s (stack_clear s st) = []" "hist (other s) (stack_clear s st) = hist (other s) st"
    "same_but_hist st (stack_clear s st)"
  using drop_oldest_times [OF assms, of "count (stacks st s)" s] by (simp_all add: stack_clear_def hist_def)

text \<open>What is left of a stack is its newest records.\<close>

definition kept :: "'a list \<Rightarrow> 'a list \<Rightarrow> bool" where
  "kept xs ys \<longleftrightarrow> (\<exists>n. ys = drop n xs)"

lemma kept_refl [simp]: "kept xs xs" "kept xs []"
  unfolding kept_def by (metis drop0) (metis drop_all order_refl)

lemma kept_tl: "kept (tl xs) ys \<Longrightarrow> kept xs ys"
  unfolding kept_def by (metis drop_Suc)

lemma make_room:
  "hist_ok st \<Longrightarrow> make_room s need st = (ok, st') \<Longrightarrow>
     hist_ok st' \<and> same_but_hist st st' \<and> kept (hist s st) (hist s st') \<and> kept (hist (other s) st) (hist (other s) st') \<and>
     (ok \<longleftrightarrow> need \<le> UNDO_BYTES) \<and> (if ok then hist_bytes st' + need \<le> UNDO_BYTES else hist s st' = [] \<and> hist (other s) st' = [])"
proof (induction s need st rule: make_room.induct)
  case (1 s need st)
  let ?big = "hist_bytes st + need > UNDO_BYTES"
  consider (a) "\<not> ?big" | (b) ?big "count (stacks st (other s)) > 0"
    | (c) ?big "count (stacks st (other s)) = 0" "count (stacks st s) > 0"
    | (d) ?big "count (stacks st (other s)) = 0" "count (stacks st s) = 0" by blast
  then show ?case
  proof cases
    case a
    then show ?thesis using 1(3,4) by (auto simp: make_room.simps [of s need st])
  next
    case b
    have "make_room s need (stack_drop_oldest (other s) st) = (ok, st')"
      using 1(4) b by (simp add: make_room.simps [of s need st])
    from 1(1) [OF b drop_oldest(1) [OF 1(3) b(2)] this] drop_oldest [OF 1(3) b(2)]
    show ?thesis by (cases s) (auto elim: same_but_hist_trans kept_tl)
  next
    case c
    then have "\<not> count (stacks st (other s)) > 0" by simp
    have "make_room s need (stack_drop_oldest s st) = (ok, st')"
      using 1(4) c by (simp add: make_room.simps [of s need st])
    from 1(2) [OF c(1) _ c(3) drop_oldest(1) [OF 1(3) c(3)] this] drop_oldest [OF 1(3) c(3)] c(2)
    show ?thesis by (auto elim: same_but_hist_trans kept_tl)
  next
    case d
    then have "ok = False" "st' = st" using 1(4) by (simp_all add: make_room.simps [of s need st])
    moreover have h: "hist s st = []" "hist (other s) st = []" using d by (simp_all add: hist_def)
    moreover have "hist_bytes st = 0" using hist_bytes_split [OF 1(3), of s] h by simp
    ultimately show ?thesis using d 1(3) by simp
  qed
qed

lemma stack_push:
  assumes "hist_ok st" "stack_push s c st = (ok, st')"
  shows "hist_ok st' \<and> same_but_hist st st' \<and> (ok \<longleftrightarrow> length (ch_blob c) \<le> UNDO_BYTES) \<and>
    kept (hist (other s) st) (hist (other s) st') \<and>
    (if ok then \<exists>hs. kept (hist s st) hs \<and> hist s st' = hs @ [c] else hist s st' = [] \<and> hist (other s) st' = [])"
proof -
  let ?t = "if count (stacks st s) = UNDO_MAX then stack_drop_oldest s st else st"
  obtain b u where m: "make_room s (length (ch_blob c)) ?t = (b, u)" by fastforce
  have t: "hist_ok ?t \<and> same_but_hist st ?t \<and> kept (hist s st) (hist s ?t) \<and> hist (other s) ?t = hist (other s) st \<and>
      count (stacks ?t s) < UNDO_MAX"
  proof (cases "count (stacks st s) = UNDO_MAX")
    case True
    then have "0 < count (stacks st s)" by simp
    from drop_oldest [OF assms(1) this] show ?thesis using True by (auto intro: kept_tl)
  next
    case False
    then have "count (stacks st s) < UNDO_MAX" using assms(1) by (auto simp: hist_ok_def stack_ok_def order_le_less)
    then show ?thesis using False assms(1) by simp
  qed
  from make_room [OF _ m] t have u: "hist_ok u" "same_but_hist ?t u" "kept (hist s ?t) (hist s u)"
    "kept (hist (other s) ?t) (hist (other s) u)" "b \<longleftrightarrow> length (ch_blob c) \<le> UNDO_BYTES"
    "b \<Longrightarrow> hist_bytes u + length (ch_blob c) \<le> UNDO_BYTES" "\<not> b \<Longrightarrow> hist s u = []" "\<not> b \<Longrightarrow> hist (other s) u = []"
    by (auto split: if_splits)
  have kk: "kept (hist s st) (hist s u)" using t u(3) by (auto simp: kept_def)
  have ko: "kept (hist (other s) st) (hist (other s) u)" using t u(4) by auto
  have sb: "same_but_hist st u" using t u(2) by (auto elim: same_but_hist_trans)
  show ?thesis
  proof (cases b)
    case False
    then have "ok = False" "st' = u" using assms(2) m by (simp_all add: stack_push_def Let_def)
    then show ?thesis using False u sb ko by simp
  next
    case True
    let ?k = "stacks u s"
    have st': "ok = True" "st' = u\<lparr>stacks := (stacks u)(s := ?k\<lparr>slots := (slots ?k)[(start ?k + count ?k) mod UNDO_MAX := c], count := count ?k + 1\<rparr>),
        hist_bytes := hist_bytes u + length (ch_blob c)\<rparr>"
      using assms(2) m True by (simp_all add: stack_push_def Let_def)
    have "length (hist s u) \<le> length (hist s ?t)" using u(3) by (auto simp: kept_def)
    then have ck: "count ?k < UNDO_MAX" using t by (simp add: hist_def)
    have sk: "stack_ok ?k" using u(1) by (simp add: hist_ok_def)
    have h: "hist s st' = hist s u @ [c]" using ring_push [OF sk ck, of c] st' by (simp add: hist_def)
    have o': "hist (other s) st' = hist (other s) u" using st' by (simp add: hist_def)
    have "stack_ok (stacks st' s')" for s' using u(1) ck sk st' by (auto simp: hist_ok_def stack_ok_def)
    moreover have "hist_bytes st' = blob_bytes (hist s st') + blob_bytes (hist (other s) st')" "hist_bytes st' \<le> UNDO_BYTES"
      using hist_bytes_split [OF u(1), of s] u(6) [OF True] h o' st' by simp_all
    ultimately have "hist_ok st'" by (cases s) (simp_all add: hist_ok_def)
    moreover have "same_but_hist u st'" using st' by (simp add: same_but_hist_def)
    ultimately show ?thesis using st' h o' kk ko sb u(5) True same_but_hist_trans by auto
  qed
qed

end
