(* ===== verification/EdTimeline.thy ===== *)
theory EdTimeline
  imports EdUndo
begin

text \<open>
  The editor as a timeline.  A record is read as the text it leads to, a stack as the texts that taking
  back its records one after the other gives.  A change of the text is then a step of the timeline.
\<close>

section \<open>Texts\<close>

type_synonym page = "u8 list list"

definition texts :: "edit \<Rightarrow> page" where
  "texts st = map ltext (lines st)"

lemma length_texts [simp]: "length (texts st) = nlines st"
  by (simp add: texts_def nlines_def)

lemma texts_nth: "i < nlines st \<Longrightarrow> texts st ! i = text_at st i"
  by (simp add: texts_def text_at_def nlines_def)

definition applied :: "change_t \<Rightarrow> page \<Rightarrow> page" where
  "applied c ts = take (ch_at c) ts @ blob_lines (ch_nadd c) (ch_blob c) @ drop (ch_at c + ch_nremove c) ts"

definition text_ok :: "page \<Rightarrow> bool" where
  "text_ok ts \<longleftrightarrow> 0 < length ts \<and> length ts \<le> MAX_LINES \<and> plain ts"

definition fits :: "change_t \<Rightarrow> page \<Rightarrow> bool" where
  "fits c ts \<longleftrightarrow> ch_at c + ch_nremove c \<le> length ts \<and> text_ok (applied c ts)"

fun replay :: "page \<Rightarrow> change_t list \<Rightarrow> page list" where
  "replay ts [] = []"
| "replay ts (c # hs) = applied c ts # replay (applied c ts) hs"

fun fits_all :: "page \<Rightarrow> change_t list \<Rightarrow> bool" where
  "fits_all ts [] = True"
| "fits_all ts (c # hs) \<longleftrightarrow> fits c ts \<and> fits_all (applied c ts) hs"

lemma replay_take: "replay ts (take n hs) = take n (replay ts hs)"
  by (induction hs arbitrary: n ts) (auto simp: take_Cons split: nat.splits)

lemma fits_all_take: "fits_all ts hs \<Longrightarrow> fits_all ts (take n hs)"
  by (induction hs arbitrary: n ts) (auto simp: take_Cons split: nat.splits)

lemma kept_rev: "kept hs hs' \<Longrightarrow> \<exists>n. rev hs' = take n (rev hs)"
  by (auto simp: kept_def rev_drop)

lemma replay_kept: "kept hs hs' \<Longrightarrow> fits_all ts (rev hs) \<Longrightarrow> fits_all ts (rev hs') \<and> (\<exists>n. replay ts (rev hs') = take n (replay ts (rev hs)))"
  using kept_rev [of hs hs'] fits_all_take [of ts "rev hs"] by (auto simp: replay_take)

text \<open>The record that takes back the replacement of \<open>n\<close> lines by \<open>m\<close>.\<close>

definition undoing :: "nat \<Rightarrow> nat \<Rightarrow> nat \<Rightarrow> page \<Rightarrow> nat \<Rightarrow> nat \<Rightarrow> change_t" where
  "undoing at n m ts y x =
     \<lparr>ch_at = at, ch_nadd = n, ch_nremove = m, ch_blob = join_text (take n (drop at ts)), ch_cy = y, ch_cx = x\<rparr>"

lemma undoing_simps [simp]:
  "ch_at (undoing at n m ts y x) = at" "ch_nadd (undoing at n m ts y x) = n" "ch_nremove (undoing at n m ts y x) = m"
  "ch_blob (undoing at n m ts y x) = join_text (take n (drop at ts))" "ch_cy (undoing at n m ts y x) = y" "ch_cx (undoing at n m ts y x) = x"
  by (simp_all add: undoing_def)

lemma applied_undoing:
  assumes "plain ts" "at + n \<le> length ts" "length new = m"
  shows "applied (undoing at n m ts y x) (take at ts @ new @ drop (at + n) ts) = ts"
proof -
  have "blob_lines (length (take n (drop at ts))) (join_text (take n (drop at ts))) = take n (drop at ts)"
    using assms(1) by (intro blob_lines_join) (simp add: plain_take plain_drop)
  moreover have "take at ts @ take n (drop at ts) @ drop (at + n) ts = ts"
    by (metis append.assoc append_take_drop_id take_add)
  ultimately show ?thesis using assms(2,3) by (simp add: applied_def undoing_def)
qed

lemma fits_undoing:
  assumes "text_ok ts" "at + n \<le> length ts" "length new = m"
  shows "fits (undoing at n m ts y x) (take at ts @ new @ drop (at + n) ts)"
  using applied_undoing [of ts at n new m y x] assms by (simp add: fits_def text_ok_def)

text \<open>The bytes of some of the lines are no more than those of all.\<close>

lemma length_join: "length (join_text ts) = sum_list (map length ts) + (length ts - 1)"
  by (induction ts rule: join_text.induct) auto

lemma length_join_slice: "length (join_text (take n (drop at ts))) \<le> length (join_text ts)"
proof -
  have "sum_list (map length ts) = sum_list (map length (take at ts)) + (sum_list (map length (take n (drop at ts))) +
      sum_list (map length (drop n (drop at ts))))"
    by (metis append_take_drop_id map_append sum_list_append)
  then show ?thesis by (simp add: length_join)
qed

section \<open>The timeline\<close>

type_synonym timeline = "page list \<times> page \<times> page list"

definition past :: "which \<Rightarrow> edit \<Rightarrow> page list" where
  "past s st = replay (texts st) (rev (hist s st))"

definition timeline :: "edit \<Rightarrow> timeline" where
  "timeline st = (past Undo st, texts st, past Redo st)"

text \<open>
  The steps.  A record may be forgotten, from the oldest on; the record of an edit is forgotten at once
  only if the whole text has more bytes than the history may have.  A run of typing changes one line
  since the text before it; such a step is only there while a line is being typed in (\<open>b\<close>).
\<close>

definition small :: "page \<Rightarrow> bool" where
  "small ts \<longleftrightarrow> length (join_text ts) \<le> UNDO_BYTES"

inductive estep :: "bool \<Rightarrow> timeline \<Rightarrow> timeline \<Rightarrow> bool" where
  keep: "estep b (p, t, f) (take i p, t, take j f)"
| edit: "(small t \<Longrightarrow> i > 0) \<Longrightarrow> estep b (p, t, f) (take i (t # p), t', [])"
| typing: "y < length t \<Longrightarrow> p = [] \<or> (\<exists>u. hd p = t[y := u]) \<Longrightarrow> estep True (p, t, []) (p, t[y := v], [])"

lemma estep_weaken: "estep False T T' \<Longrightarrow> estep b T T'"
  by (auto elim!: estep.cases intro: estep.intros)

text \<open>Undo and redo beside them.\<close>

inductive tstep :: "timeline \<Rightarrow> timeline \<Rightarrow> bool" where
  work: "estep b T T' \<Longrightarrow> tstep T T'"
| undo: "(small t \<Longrightarrow> j > 0) \<Longrightarrow> tstep (u # p, t, f) (take i p, u, take j (t # f))"
| redo: "(small t \<Longrightarrow> i > 0) \<Longrightarrow> tstep (p, t, u # f) (take i (t # p), u, take j f)"

text \<open>A run of typing has a record of its line, or the history was cleared.\<close>

definition typing_ok :: "edit \<Rightarrow> bool" where
  "typing_ok st \<longleftrightarrow> (\<forall>y. typing_line st = Some y \<longrightarrow> hist Redo st = [] \<and>
     (hist Undo st = [] \<or>
      (ch_at (last (hist Undo st)) = y \<and> ch_nadd (last (hist Undo st)) = 1 \<and> ch_nremove (last (hist Undo st)) = 1)))"

definition hist_fits :: "edit \<Rightarrow> bool" where
  "hist_fits st \<longleftrightarrow> (\<forall>s. fits_all (texts st) (rev (hist s st)))"

definition ed_ok :: "edit \<Rightarrow> bool" where
  "ed_ok st \<longleftrightarrow> text_ok (texts st) \<and> cy st < nlines st \<and> cx st \<le> length (cur_text st) \<and> hist_ok st \<and> hist_fits st \<and> typing_ok st"

text \<open>What these predicates look at, and what the selection is.\<close>

definition view :: "edit \<Rightarrow> line_t list \<times> nat \<times> nat \<times> (which \<Rightarrow> stack_t) \<times> nat \<times> nat option" where
  "view st = (lines st, cy st, cx st, stacks st, hist_bytes st, typing_line st)"

definition mark :: "edit \<Rightarrow> bool \<times> nat \<times> nat" where
  "mark st = (mark_on st, my st, mx st)"

lemma view_eqD:
  assumes "view st = view st'"
  shows "ed_ok st \<longleftrightarrow> ed_ok st'" "timeline st = timeline st'" "texts st = texts st'" "lines st = lines st'" "cy st = cy st'" "cx st = cx st'"
  using assms by (simp_all add: view_def ed_ok_def timeline_def texts_def nlines_def cur_text_def cur_line_def hist_ok_def hist_fits_def
      typing_ok_def hist_def past_def)

lemma estep_same: "estep b T T"
proof -
  obtain p t f where "T = (p, t, f)" by (metis prod_cases3)
  then show ?thesis using keep [of b p t f "length p" "length f"] by simp
qed

section \<open>Recording\<close>

lemma texts_same: "same_but_hist st st' \<Longrightarrow> texts st' = texts st"
  by (simp add: texts_def same_but_hist_fields)

lemma hist_upd [simp]:
  "hist s (st\<lparr>typing_line := a\<rparr>) = hist s st" "hist s (st\<lparr>status := b\<rparr>) = hist s st" "hist s (st\<lparr>cy := y\<rparr>) = hist s st"
  "hist s (st\<lparr>cx := x\<rparr>) = hist s st" "hist s (st\<lparr>lines := ls\<rparr>) = hist s st" "hist s (st\<lparr>modified := m\<rparr>) = hist s st"
  "hist s (st\<lparr>dirty := d\<rparr>) = hist s st" "hist s (st\<lparr>mark_on := v\<rparr>) = hist s st" "hist s (st\<lparr>clipboard := q\<rparr>) = hist s st"
  by (simp_all add: hist_def)

lemma texts_upd [simp]:
  "texts (st\<lparr>typing_line := a\<rparr>) = texts st" "texts (st\<lparr>status := b\<rparr>) = texts st" "texts (st\<lparr>cy := y\<rparr>) = texts st"
  "texts (st\<lparr>cx := x\<rparr>) = texts st" "texts (st\<lparr>lines := ls\<rparr>) = map ltext ls" "texts (st\<lparr>modified := m\<rparr>) = texts st"
  "texts (st\<lparr>dirty := d\<rparr>) = texts st" "texts (st\<lparr>mark_on := v\<rparr>) = texts st" "texts (st\<lparr>clipboard := q\<rparr>) = texts st"
  "texts (st\<lparr>stacks := S\<rparr>) = texts st" "texts (st\<lparr>hist_bytes := h\<rparr>) = texts st"
  by (simp_all add: texts_def)

lemma hist_ok_upd [simp]:
  "hist_ok (st\<lparr>typing_line := a\<rparr>) = hist_ok st" "hist_ok (st\<lparr>status := b\<rparr>) = hist_ok st" "hist_ok (st\<lparr>cy := y\<rparr>) = hist_ok st"
  "hist_ok (st\<lparr>cx := x\<rparr>) = hist_ok st" "hist_ok (st\<lparr>lines := ls\<rparr>) = hist_ok st" "hist_ok (st\<lparr>modified := m\<rparr>) = hist_ok st"
  "hist_ok (st\<lparr>dirty := d\<rparr>) = hist_ok st" "hist_ok (st\<lparr>mark_on := v\<rparr>) = hist_ok st" "hist_ok (st\<lparr>clipboard := q\<rparr>) = hist_ok st"
  by (simp_all add: hist_ok_def hist_def)

definition roomy :: "world \<Rightarrow> bool" where
  "roomy w \<longleftrightarrow> (\<forall>n. alloc w n)"

lemma capture_roomy: "roomy w \<Longrightarrow> at + n \<le> nlines st \<Longrightarrow> lines_capture w at n st = Some (Some (join_text (take n (drop at (texts st)))))"
  by (simp add: roomy_def lines_capture_def texts_def take_map drop_map)

lemma which_all: "(\<forall>s. P s) \<longleftrightarrow> P Undo \<and> P Redo"
  by (metis which.exhaust)

text \<open>The state after \<open>record_change\<close>: the text is the same, the record is the newest unless it was too big.\<close>

lemma record_change_step:
  assumes "roomy w" "hist_ok st" "hist_fits st" "text_ok (texts st)" "record_change w at n m st = Some st'"
  shows "at + n \<le> nlines st \<and> hist_ok st' \<and> lines st' = lines st \<and> cy st' = cy st \<and> cx st' = cx st \<and> typing_line st' = None \<and>
    mark st' = mark st \<and> clipboard st' = clipboard st \<and> readonly st' = readonly st \<and> hist Redo st' = [] \<and>
    (if length (join_text (take n (drop at (texts st)))) \<le> UNDO_BYTES
     then \<exists>hs. kept (hist Undo st) hs \<and> hist Undo st' = hs @ [undoing at n m (texts st) (cy st) (cx st)]
     else hist Undo st' = [])"
proof -
  let ?s = "stack_clear Redo (st\<lparr>typing_line := None\<rparr>)"
  have s: "hist_ok ?s" "hist Redo ?s = []" "hist Undo ?s = hist Undo st" "same_but_hist (st\<lparr>typing_line := None\<rparr>) ?s"
    using stack_clear [of "st\<lparr>typing_line := None\<rparr>" Redo] assms(2) by simp_all
  note f = same_but_hist_fields [OF s(4)]
  have tx: "texts ?s = texts st" "nlines ?s = nlines st" using f by (simp_all add: texts_def nlines_def)
  have le: "at + n \<le> nlines st" using assms(5) tx(2) by (auto simp: record_change_def lines_capture_def Let_def split: if_splits)
  let ?c = "undoing at n m (texts st) (cy st) (cx st)"
  obtain ok u where pu: "stack_push Undo ?c ?s = (ok, u)" by fastforce
  have st': "st' = (if ok then u else set_status (cs ''that change is too big to undo - the history was cleared'') (stack_clear Undo u))"
    using assms(5) pu capture_roomy [OF assms(1), of at n ?s] le tx f
    by (simp add: record_change_def Let_def undoing_def)
  from stack_push [OF s(1) pu] have u: "hist_ok u" "same_but_hist ?s u" "ok \<longleftrightarrow> length (ch_blob ?c) \<le> UNDO_BYTES"
    "hist Redo u = []" "ok \<Longrightarrow> \<exists>hs. kept (hist Undo st) hs \<and> hist Undo u = hs @ [?c]" "\<not> ok \<Longrightarrow> hist Undo u = []"
    using s(2,3) by (auto simp: kept_def split: if_splits)
  note g = same_but_hist_fields [OF u(2)]
  note cl = stack_clear [OF u(1), of Undo]
  note h = same_but_hist_fields [OF cl(4)]
  have "hist s (set_status t v) = hist s v" "hist_ok (set_status t v) = hist_ok v" "mark (set_status t v) = mark v" "lines (set_status t v) = lines v"
    "cy (set_status t v) = cy v" "cx (set_status t v) = cx v" "typing_line (set_status t v) = typing_line v" "clipboard (set_status t v) = clipboard v"
    "readonly (set_status t v) = readonly v" for s t v
    by (simp_all add: set_status_def mark_def)
  then show ?thesis using st' le u f g h cl by (auto simp: undoing_def mark_def)
qed

lemma record_change_roomy:
  assumes "roomy w" "at + n \<le> nlines st" shows "\<exists>st'. record_change w at n m st = Some st'"
proof -
  have "nlines (stack_clear Redo (st\<lparr>typing_line := None\<rparr>)) = nlines st"
  proof -
    have "same_but_hist v ((stack_drop_oldest Redo ^^ k) v)" for v k
      by (induction k) (auto simp: same_but_hist_def stack_drop_oldest_def Let_def)
    from same_but_hist_fields(1) [OF this] show ?thesis by (simp add: stack_clear_def nlines_def)
  qed
  then show ?thesis using capture_roomy [OF assms(1), of at n "stack_clear Redo (st\<lparr>typing_line := None\<rparr>)"] assms(2)
    by (simp add: record_change_def Let_def split: prod.splits)
qed

section \<open>Replacing lines\<close>

lemma reserve_roomy: "roomy w \<Longrightarrow> \<exists>c. line_reserve w n l = Some (l\<lparr>lcap := c\<rparr>)"
  by (cases l) (auto simp: roomy_def line_reserve_def Let_def)

lemma fill_roomy: "roomy w \<Longrightarrow> \<exists>ls. fill_lines w ts = Some (True, ls) \<and> map ltext ls = ts"
proof (induction ts)
  case (Cons t ts)
  with reserve_roomy [OF Cons.prems, of "length t" no_line] show ?case by auto
qed simp

lemma splice_roomy:
  assumes "roomy w" "at + n \<le> nlines st" "0 < nlines st - n + m" "nlines st - n + m \<le> MAX_LINES"
  shows "\<exists>ls. lines_splice w at n blob m st = Some (True, st\<lparr>lines := ls\<rparr>) \<and>
    map ltext ls = take at (texts st) @ blob_lines m blob @ drop (at + n) (texts st)"
proof -
  obtain ls where f: "fill_lines w (blob_lines m blob) = Some (True, ls)" "map ltext ls = blob_lines m blob"
    using fill_roomy [OF assms(1)] by blast
  have "length ls = m" using arg_cong [OF f(2), of length] by simp
  let ?ls = "take at (lines st) @ ls @ drop (at + n) (lines st)"
  have ne: "nlines (st\<lparr>lines := ?ls\<rparr>) \<noteq> 0" using assms(2,3) \<open>length ls = m\<close> by (auto simp: nlines_def)
  have mn: "min n (nlines st - at) = n" using assms(2) by simp
  have "lines_splice w at n blob m st = Some (True, st\<lparr>lines := ?ls\<rparr>)"
    unfolding lines_splice_def Let_def mn using assms(2,4) f(1) ne by simp
  moreover have "map ltext ?ls = take at (texts st) @ blob_lines m blob @ drop (at + n) (texts st)"
    using f(2) by (simp add: texts_def take_map drop_map)
  ultimately show ?thesis by blast
qed

text \<open>What the history is after an edit whose record was kept, or was too big.\<close>

definition pushed :: "change_t \<Rightarrow> edit \<Rightarrow> edit \<Rightarrow> bool" where
  "pushed c st st' \<longleftrightarrow> hist Redo st' = [] \<and>
     (if length (ch_blob c) \<le> UNDO_BYTES then \<exists>hs. kept (hist Undo st) hs \<and> hist Undo st' = hs @ [c] else hist Undo st' = [])"

lemma pushed_step:
  assumes "pushed (undoing at n m (texts st) y x) st st'" "hist_fits st" "text_ok (texts st)" "at + n \<le> nlines st" "length new = m"
    and t: "texts st' = take at (texts st) @ new @ drop (at + n) (texts st)"
  shows "hist_fits st' \<and> estep False (timeline st) (timeline st')"
proof -
  let ?c = "undoing at n m (texts st) y x"
  have r: "hist Redo st' = []" using assms(1) by (simp add: pushed_def)
  have a: "applied ?c (texts st') = texts st" "fits ?c (texts st')"
    unfolding t using assms(3,4,5) applied_undoing [of "texts st" at n new m y x] fits_undoing [of "texts st" at n new m y x]
    by (simp_all add: text_ok_def)
  have sm: "small (texts st) \<Longrightarrow> length (ch_blob ?c) \<le> UNDO_BYTES"
    using length_join_slice [of n at "texts st"] by (simp add: small_def undoing_def)
  show ?thesis
  proof (cases "length (ch_blob ?c) \<le> UNDO_BYTES")
    case True
    then obtain hs where hs: "kept (hist Undo st) hs" "hist Undo st' = hs @ [?c]" using assms(1) by (auto simp: pushed_def)
    from replay_kept [OF hs(1), of "texts st"] assms(2) obtain i where
      i: "fits_all (texts st) (rev hs)" "replay (texts st) (rev hs) = take i (past Undo st)" by (auto simp: hist_fits_def past_def)
    have "past Undo st' = take (Suc i) (texts st # past Undo st)" using hs(2) a i(2) by (simp add: past_def)
    moreover have "past Redo st' = []" using r by (simp add: past_def)
    moreover have "hist_fits st'" using hs(2) a i(1) r by (simp add: hist_fits_def which_all)
    ultimately show ?thesis using estep.edit [of "texts st" "Suc i"] by (simp add: timeline_def)
  next
    case False
    then have "hist Undo st' = []" using assms(1) by (simp add: pushed_def)
    with r have "past Undo st' = take 0 (texts st # past Undo st)" "past Redo st' = []" "hist_fits st'"
      by (simp_all add: past_def hist_fits_def which_all)
    then show ?thesis using estep.edit [of "texts st" 0] False sm by (auto simp: timeline_def)
  qed
qed

lemma record_change_pushed:
  assumes "roomy w" "hist_ok st" "hist_fits st" "text_ok (texts st)" "record_change w at n m st = Some st'"
  shows "pushed (undoing at n m (texts st) (cy st) (cx st)) st st'"
  using record_change_step [OF assms] by (simp add: pushed_def)

text \<open>\<open>hist_ok\<close>, \<open>hist_fits\<close> and \<open>text_ok\<close> are what an edit needs of the state.\<close>

definition base_ok :: "edit \<Rightarrow> bool" where
  "base_ok st \<longleftrightarrow> text_ok (texts st) \<and> hist_ok st \<and> hist_fits st"

lemma ed_ok_base: "ed_ok st \<Longrightarrow> base_ok st"
  by (simp add: ed_ok_def base_ok_def)

lemma recorded_splice_step:
  assumes "roomy w" "base_ok st" "at + n \<le> nlines st" "0 < nlines st - n + m" "nlines st - n + m \<le> MAX_LINES"
  shows "\<exists>st'. recorded_splice w at n blob m st = Some st' \<and> base_ok st' \<and> estep False (timeline st) (timeline st') \<and>
    texts st' = take at (texts st) @ blob_lines m blob @ drop (at + n) (texts st) \<and> pushed (undoing at n m (texts st) (cy st) (cx st)) st st' \<and>
    cy st' = cy st \<and> cx st' = cx st \<and> typing_line st' = None \<and> mark st' = mark st \<and> clipboard st' = clipboard st"
proof -
  have b: "hist_ok st" "hist_fits st" "text_ok (texts st)" using assms(2) by (simp_all add: base_ok_def)
  obtain u where u: "record_change w at n m st = Some u" using record_change_roomy [OF assms(1,3)] by blast
  note r = record_change_step [OF assms(1) b u]
  have tu: "texts u = texts st" "nlines u = nlines st" using r by (simp_all add: texts_def nlines_def)
  obtain ls where ls: "lines_splice w at n blob m u = Some (True, u\<lparr>lines := ls\<rparr>)"
      "map ltext ls = take at (texts st) @ blob_lines m blob @ drop (at + n) (texts st)"
    using splice_roomy [OF assms(1), of at n u m blob] assms(3-5) tu by auto
  let ?v = "u\<lparr>lines := ls\<rparr>"
  have p: "pushed (undoing at n m (texts st) (cy st) (cx st)) st ?v"
    using record_change_pushed [OF assms(1) b u] by (simp add: pushed_def)
  have tv: "texts ?v = take at (texts st) @ blob_lines m blob @ drop (at + n) (texts st)" using ls(2) by simp
  have "text_ok (texts ?v)" unfolding tv using b(3) assms(3-5) by (auto simp: text_ok_def plain_take plain_drop)
  moreover have "hist_ok ?v" using r by simp
  moreover note pushed_step [OF p b(2,3) assms(3) length_blob_lines tv]
  ultimately show ?thesis using u ls(1) p tv r
    by (auto simp: recorded_splice_def base_ok_def mark_def simp del: texts_upd(5))
qed

section \<open>Typing\<close>

lemma list_update_slice: "y < length t \<Longrightarrow> t[y := v] = take y t @ [v] @ drop (y + 1) t"
  by (simp add: upd_conv_take_nth_drop)

lemma record_typing_step:
  assumes "roomy w" "ed_ok st"
  shows "\<exists>st'. record_typing w st = Some st' \<and> lines st' = lines st \<and> cy st' = cy st \<and> cx st' = cx st \<and> mark st' = mark st \<and>
    clipboard st' = clipboard st \<and> readonly st' = readonly st \<and> typing_line st' = Some (cy st) \<and>
    (\<forall>v u. stacks u = stacks st' \<longrightarrow> hist_bytes u = hist_bytes st' \<longrightarrow> typing_line u = Some (cy st) \<longrightarrow> cy u = cy st \<longrightarrow>
       texts u = (texts st)[cy st := v] \<longrightarrow> LF \<notin> set v \<longrightarrow> cx u \<le> length v \<longrightarrow>
       ed_ok u \<and> estep (typing_line st \<noteq> None) (timeline st) (timeline u))"
proof -
  let ?y = "cy st" let ?t = "texts st"
  have b: "hist_ok st" "hist_fits st" "text_ok ?t" and y: "?y < nlines st" using assms(2) by (simp_all add: ed_ok_def)
  have ok: "text_ok (texts u) \<and> nlines u = nlines st \<and> cur_text u = v" if "texts u = ?t[?y := v]" "LF \<notin> set v" "cy u = ?y" for u v
  proof -
    have n: "nlines u = nlines st" using that(1) by (metis length_texts length_list_update)
    have "set (?t[?y := v]) \<subseteq> insert v (set ?t)" by (rule set_update_subset_insert)
    then have "plain (?t[?y := v])" using b(3) that(2) by (auto simp: plain_def text_ok_def)
    moreover have "cur_text u = texts u ! ?y" using that(3) n y by (simp add: cur_text_def cur_line_def texts_def nlines_def)
    ultimately show ?thesis using n that(1) b(3) y by (simp add: text_ok_def)
  qed
  show ?thesis
  proof (cases "typing_line st = Some ?y")
    case True
    then have ty: "hist Redo st = []" "hist Undo st = [] \<or> (ch_at (last (hist Undo st)) = ?y \<and> ch_nadd (last (hist Undo st)) = 1 \<and>
        ch_nremove (last (hist Undo st)) = 1)" using assms(2) by (auto simp: ed_ok_def typing_ok_def)
    have "ed_ok u \<and> estep (typing_line st \<noteq> None) (timeline st) (timeline u)"
      if u: "stacks u = stacks st" "hist_bytes u = hist_bytes st" "typing_line u = Some ?y" "cy u = ?y" "texts u = ?t[?y := v]"
        "LF \<notin> set v" "cx u \<le> length v" for u v
    proof -
      have h: "hist s u = hist s st" for s using u(1) by (simp add: hist_def)
      have fp: "fits_all (texts u) (rev (hist Undo u)) \<and> past Undo u = past Undo st \<and> (past Undo st = [] \<or> (\<exists>z. hd (past Undo st) = ?t[?y := z]))"
      proof (cases "hist Undo st = []")
        case True
        then show ?thesis using h by (simp add: past_def)
      next
        case False
        let ?c = "last (hist Undo st)"
        have c: "rev (hist Undo st) = ?c # rev (butlast (hist Undo st))" "ch_at ?c = ?y" "ch_nadd ?c = 1" "ch_nremove ?c = 1"
          using False ty(2) by (metis append_butlast_last_id rev_eq_Cons_iff rev_rev_ident) (use False ty(2) in auto)
        have a: "applied ?c (texts u) = applied ?c ?t"
          unfolding u(5) applied_def c(2-4) using y by (simp add: take_update_cancel drop_update_cancel)
        have "applied ?c ?t = ?t[?y := hd (blob_lines 1 (ch_blob ?c))]"
          unfolding applied_def c(2-4) using y by (simp add: list_update_slice)
        moreover have "fits_all ?t (rev (hist Undo st))" using b(2) by (simp add: hist_fits_def)
        moreover have "length (texts u) = length ?t" using u(5) by (metis length_list_update)
        ultimately show ?thesis unfolding past_def h c(1) using a by (auto simp: fits_def)
      qed
      have "past Redo u = []" "past Redo st = []" using ty(1) h by (simp_all add: past_def)
      then have "estep (typing_line st \<noteq> None) (timeline st) (timeline u)" using True fp estep.typing [of ?y ?t "past Undo st" v] y u(5) by (simp add: timeline_def)
      moreover have "hist_ok u" using b(1) u(1,2) h by (simp add: hist_ok_def)
      moreover have "hist_fits u" using fp h ty(1) by (simp add: hist_fits_def which_all)
      moreover have "typing_ok u" using ty h u(3) by (simp add: typing_ok_def)
      ultimately show ?thesis using ok [OF u(5,6,4)] u(4,7) y by (simp add: ed_ok_def)
    qed
    then show ?thesis using True by (simp add: record_typing_def)
  next
    case False
    obtain r where r: "record_change w ?y 1 1 st = Some r" using record_change_roomy [OF assms(1)] y by fastforce
    note rs = record_change_step [OF assms(1) b r]
    have "ed_ok u \<and> estep (typing_line st \<noteq> None) (timeline st) (timeline u)"
      if u: "stacks u = stacks r" "hist_bytes u = hist_bytes r" "typing_line u = Some ?y" "cy u = ?y" "texts u = ?t[?y := v]"
        "LF \<notin> set v" "cx u \<le> length v" for u v
    proof -
      have h: "hist s u = hist s r" for s using u(1) by (simp add: hist_def)
      have p: "pushed (undoing ?y 1 1 ?t (cy st) (cx st)) st u"
        using record_change_pushed [OF assms(1) b r] h by (simp add: pushed_def)
      have "texts u = take ?y ?t @ [v] @ drop (?y + 1) ?t" using u(5) y by (simp add: list_update_slice)
      from pushed_step [OF p b(2,3) _ _ this] y
      have "hist_fits u \<and> estep (typing_line st \<noteq> None) (timeline st) (timeline u)" using estep_weaken by simp
      moreover have "hist_ok u" using rs u(1,2) h by (simp add: hist_ok_def)
      moreover have "typing_ok u" using p u(3) by (auto simp: typing_ok_def pushed_def undoing_def split: if_splits)
      ultimately show ?thesis using ok [OF u(5,6,4)] u(4,7) y by (simp add: ed_ok_def)
    qed
    then show ?thesis using False r rs by (simp add: record_typing_def mark_def)
  qed
qed

end
