(* ===== verification/EdHistory.thy ===== *)
theory EdHistory
  imports EdTimeline StdioLine
begin

text \<open>
  Every key of the editor is a step of the timeline, and the cursor stays in the text.
\<close>

section \<open>The cursor\<close>

lemma nlines_upd [simp]:
  "nlines (st\<lparr>typing_line := a\<rparr>) = nlines st" "nlines (st\<lparr>status := b\<rparr>) = nlines st" "nlines (st\<lparr>cy := y\<rparr>) = nlines st"
  "nlines (st\<lparr>cx := x\<rparr>) = nlines st" "nlines (st\<lparr>modified := m\<rparr>) = nlines st" "nlines (st\<lparr>dirty := d\<rparr>) = nlines st"
  "nlines (st\<lparr>mark_on := v\<rparr>) = nlines st" "nlines (st\<lparr>clipboard := q\<rparr>) = nlines st"
  by (simp_all add: nlines_def)

lemma cur_text_texts: "cy st < nlines st \<Longrightarrow> cur_text st = texts st ! cy st"
  by (simp add: cur_text_def cur_line_def texts_def nlines_def)

lemma nlines_texts: "nlines st = length (texts st)"
  by simp

lemma mark_upd [simp]:
  "mark (st\<lparr>typing_line := a\<rparr>) = mark st" "mark (st\<lparr>status := b\<rparr>) = mark st" "mark (st\<lparr>cy := y\<rparr>) = mark st"
  "mark (st\<lparr>cx := x\<rparr>) = mark st" "mark (st\<lparr>modified := m\<rparr>) = mark st" "mark (st\<lparr>dirty := d\<rparr>) = mark st"
  "mark (st\<lparr>lines := ls\<rparr>) = mark st" "mark (st\<lparr>clipboard := q\<rparr>) = mark st"
  by (simp_all add: mark_def)

lemma clamp_keeps [simp]:
  "lines (clamp_cx st) = lines st" "stacks (clamp_cx st) = stacks st" "hist_bytes (clamp_cx st) = hist_bytes st"
  "typing_line (clamp_cx st) = typing_line st" "mark (clamp_cx st) = mark st" "clipboard (clamp_cx st) = clipboard st"
  "texts (clamp_cx st) = texts st" "nlines (clamp_cx st) = nlines st" "hist s (clamp_cx st) = hist s st" "hist_ok (clamp_cx st) = hist_ok st"
  by (simp_all add: clamp_cx_def Let_def mark_def texts_def nlines_def hist_def hist_ok_def)

lemma clamp_in_text:
  assumes "0 < nlines st" shows "cy (clamp_cx st) < nlines st \<and> cx (clamp_cx st) \<le> length (cur_text (clamp_cx st))"
proof -
  let ?u = "if cy st \<ge> nlines st then st\<lparr>cy := nlines st - 1\<rparr> else st"
  have "cur_text (clamp_cx st) = cur_text ?u" "cy (clamp_cx st) = cy ?u" "cy ?u < nlines st"
    using assms by (simp_all add: clamp_cx_def Let_def cur_text_def cur_line_def nlines_def)
  moreover have "cx (clamp_cx st) \<le> length (cur_text ?u)"
    by (simp add: clamp_cx_def Let_def utf8_prev_le [THEN le_trans])
  ultimately show ?thesis by simp
qed

lemma changed_keeps [simp]: "view (changed d st) = view st" "mark (changed d st) = mark st" "clipboard (changed d st) = clipboard st"
  by (simp_all add: changed_def view_def mark_def)

lemma changed_fields [simp]:
  "lines (changed d st) = lines st" "cy (changed d st) = cy st" "cx (changed d st) = cx st" "nlines (changed d st) = nlines st"
  "cur_text (changed d st) = cur_text st" "hist_ok (changed d st) = hist_ok st" "hist s (changed d st) = hist s st"
  by (simp_all add: changed_def nlines_def cur_text_def cur_line_def)

lemma set_status_keeps [simp]: "view (set_status t st) = view st" "mark (set_status t st) = mark st" "clipboard (set_status t st) = clipboard st"
  by (simp_all add: set_status_def view_def mark_def)

lemma no_memory_keeps [simp]: "view (no_memory st) = view st" "mark (no_memory st) = mark st" "clipboard (no_memory st) = clipboard st"
  by (simp_all add: no_memory_def)

lemma ed_ok_view: "view st = view st' \<Longrightarrow> ed_ok st = ed_ok st'" and timeline_view: "view st = view st' \<Longrightarrow> timeline st = timeline st'"
  and texts_view: "view st = view st' \<Longrightarrow> texts st = texts st'"
  using view_eqD by blast+

lemma changed_ok [simp]: "ed_ok (changed d st) = ed_ok st" "timeline (changed d st) = timeline st" "texts (changed d st) = texts st"
  using ed_ok_view [of "changed d st" st] timeline_view [of "changed d st" st] texts_view [of "changed d st" st] by simp_all

lemma set_status_ok [simp]: "ed_ok (set_status t st) = ed_ok st" "timeline (set_status t st) = timeline st" "texts (set_status t st) = texts st"
  using ed_ok_view [of "set_status t st" st] timeline_view [of "set_status t st" st] texts_view [of "set_status t st" st] by simp_all

section \<open>Undo and redo\<close>

lemma length_applied: "fits c ts \<Longrightarrow> length (applied c ts) = length ts - ch_nremove c + ch_nadd c"
  by (auto simp: fits_def applied_def)

lemma pop_ok:
  assumes "hist_ok st" "0 < count (stacks st s)"
  defines "u \<equiv> st\<lparr>hist_bytes := hist_bytes st - length (ch_blob (last (hist s st))), stacks := (stacks st)(s := stacks st s\<lparr>count := count (stacks st s) - 1\<rparr>)\<rparr>"
  shows "hist_ok u" "hist s u = butlast (hist s st)" "hist (other s) u = hist (other s) st"
proof -
  show h: "hist s u = butlast (hist s st)" "hist (other s) u = hist (other s) st"
    by (simp_all add: u_def hist_def ring_pop [unfolded One_nat_def])
  have "hist s st \<noteq> []" using assms(2) by (simp add: hist_def)
  then have "blob_bytes (hist s st) = blob_bytes (butlast (hist s st)) + length (ch_blob (last (hist s st)))"
    by (metis append_butlast_last_id add.right_neutral blob_bytes_simps)
  moreover have "hist_bytes u = hist_bytes st - length (ch_blob (last (hist s st)))" by (simp add: u_def)
  moreover have "hist_bytes st \<le> UNDO_BYTES" using assms(1) by (simp add: hist_ok_def)
  ultimately have "hist_bytes u = blob_bytes (hist s u) + blob_bytes (hist (other s) u)" "hist_bytes u \<le> UNDO_BYTES"
    using hist_bytes_split [OF assms(1), of s] unfolding h by linarith+
  moreover have "stack_ok (stacks u s')" for s'
    using assms(1) by (auto simp: hist_ok_def stack_ok_def u_def intro: le_trans [OF diff_le_self])
  ultimately show "hist_ok u" by (cases s) (simp_all add: hist_ok_def)
qed

text \<open>The text a record leads to, and the record that leads back on the other stack.\<close>

lemma apply_change_step:
  assumes "roomy w" "text_ok (texts st)" "hist_ok st" "fits c (texts st)"
  shows "\<exists>st'. apply_change w c s st = Some st' \<and> texts st' = applied c (texts st) \<and> hist_ok st' \<and>
    cy st' < nlines st' \<and> cx st' \<le> length (cur_text st') \<and> mark st' = mark st \<and> clipboard st' = clipboard st \<and> readonly st' = readonly st \<and>
    (let inv = undoing (ch_at c) (ch_nremove c) (ch_nadd c) (texts st) (cy st) (cx st) in
     if length (ch_blob inv) \<le> UNDO_BYTES
     then kept (hist (other s) st) (hist (other s) st') \<and> (\<exists>hs. kept (hist s st) hs \<and> hist s st' = hs @ [inv])
     else hist s st' = [] \<and> hist (other s) st' = [])"
proof -
  let ?inv = "undoing (ch_at c) (ch_nremove c) (ch_nadd c) (texts st) (cy st) (cx st)"
  have le: "ch_at c + ch_nremove c \<le> nlines st" using assms(4) by (simp add: fits_def)
  have len: "0 < nlines st - ch_nremove c + ch_nadd c" "nlines st - ch_nremove c + ch_nadd c \<le> MAX_LINES"
    using length_applied [OF assms(4)] assms(4) by (auto simp: fits_def text_ok_def)
  obtain ls where ls: "lines_splice w (ch_at c) (ch_nremove c) (ch_blob c) (ch_nadd c) st = Some (True, st\<lparr>lines := ls\<rparr>)"
      "map ltext ls = applied c (texts st)"
    using splice_roomy [OF assms(1) le len] by (auto simp: applied_def)
  let ?v = "st\<lparr>lines := ls\<rparr>"
  obtain ok u where pu: "stack_push s ?inv ?v = (ok, u)" by fastforce
  have hv: "hist_ok ?v" using assms(3) by simp
  note sp = stack_push [OF hv pu]
  let ?u = "if ok then u else stack_clear s u"
  have ap: "apply_change w c s st = Some (changed DIRTY_ALL (clamp_cx (?u\<lparr>cy := ch_cy c, cx := ch_cx c\<rparr>)))"
    using capture_roomy [OF assms(1) le] ls(1) pu by (simp add: apply_change_def Let_def undoing_def)
  have uo: "hist_ok ?u" "hist s ?u = hist s u \<and> hist (other s) ?u = hist (other s) u" "lines ?u = ls \<and> mark ?u = mark st \<and> clipboard ?u = clipboard st \<and> readonly ?u = readonly st"
    using sp same_but_hist_fields [of ?v u] stack_clear [of u s] same_but_hist_fields [of u "stack_clear s u"]
    by (auto simp: mark_def split: if_splits)
  have "texts ?u = applied c (texts st)" using uo(3) ls(2) by (simp add: texts_def)
  then have tx: "texts ?u = applied c (texts st)" "0 < nlines ?u" using assms(4) by (simp_all add: fits_def text_ok_def nlines_texts del: length_texts)
  let ?st' = "changed DIRTY_ALL (clamp_cx (?u\<lparr>cy := ch_cy c, cx := ch_cx c\<rparr>))"
  have "cy ?st' < nlines ?st' \<and> cx ?st' \<le> length (cur_text ?st')"
    using clamp_in_text [of "?u\<lparr>cy := ch_cy c, cx := ch_cx c\<rparr>"] tx(2) by simp
  moreover have "hist_ok ?st'" "\<And>z. hist z ?st' = hist z ?u" using uo(1) by simp_all
  moreover have "mark ?st' = mark st" "clipboard ?st' = clipboard st" using uo(3) by simp_all
  moreover have "readonly ?st' = readonly st" using uo(3) by (simp add: changed_def clamp_cx_def Let_def)
  ultimately show ?thesis using ap tx(1) uo sp
    by (intro exI [of _ ?st']) (auto simp: Let_def split: if_splits)
qed

lemma take_back_step:
  assumes "roomy w" "ed_ok st" "0 < count (stacks st s)"
  shows "\<exists>st'. take_back w s st = Some st' \<and> ed_ok st' \<and> tstep (timeline st) (timeline st') \<and> texts st' = hd (past s st) \<and>
    (small (texts st) \<longrightarrow> past (other s) st' \<noteq> [] \<and> hd (past (other s) st') = texts st) \<and>
    mark st' = mark st \<and> clipboard st' = clipboard st \<and> readonly st' = readonly st \<and> typing_line st' = None"
proof -
  let ?c = "last (hist s st)" let ?t = "texts st"
  have ok: "text_ok ?t" "hist_ok st" "hist_fits st" using assms(2) by (simp_all add: ed_ok_def)
  have ne: "hist s st \<noteq> []" using assms(3) by (simp add: hist_def)
  have rv: "rev (hist s st) = ?c # rev (butlast (hist s st))" by (metis ne append_butlast_last_id rev_eq_Cons_iff rev_rev_ident)
  have fc: "fits ?c ?t" "fits_all (applied ?c ?t) (rev (butlast (hist s st)))"
    using ok(3) rv unfolding hist_fits_def by (metis fits_all.simps(2))+
  have ps: "past s st = applied ?c ?t # replay (applied ?c ?t) (rev (butlast (hist s st)))" by (simp add: past_def rv)
  define u where "u = st\<lparr>hist_bytes := hist_bytes st - length (ch_blob ?c), stacks := (stacks st)(s := stacks st s\<lparr>count := count (stacks st s) - 1\<rparr>)\<rparr>"
  have uf: "texts u = ?t" "mark u = mark st" "clipboard u = clipboard st" "readonly u = readonly st" by (simp_all add: u_def mark_def)
  note pop = pop_ok [OF ok(2) assms(3), folded u_def]
  have tb: "take_back w s st = map_option (\<lambda>st. st\<lparr>typing_line := None\<rparr>) (apply_change w ?c (other s) u)"
    using ring_last [OF assms(3)] by (simp add: take_back_def Let_def u_def hist_def)
  let ?inv = "undoing (ch_at ?c) (ch_nremove ?c) (ch_nadd ?c) ?t (cy u) (cx u)"
  have oo: "other (other s) = s" by (cases s) simp_all
  obtain v where v: "apply_change w ?c (other s) u = Some v" "texts v = applied ?c ?t" "hist_ok v" "cy v < nlines v" "cx v \<le> length (cur_text v)"
      "mark v = mark st" "clipboard v = clipboard st" "readonly v = readonly st"
      "if length (ch_blob ?inv) \<le> UNDO_BYTES
       then kept (hist s u) (hist s v) \<and> (\<exists>hs. kept (hist (other s) u) hs \<and> hist (other s) v = hs @ [?inv])
       else hist (other s) v = [] \<and> hist s v = []"
    using apply_change_step [OF assms(1), of u ?c "other s", unfolded Let_def uf(1) oo] ok fc(1) uf pop(1) by auto
  let ?v = "v\<lparr>typing_line := None\<rparr>"
  have at: "ch_at ?c + ch_nremove ?c \<le> length ?t" using fc(1) by (simp add: fits_def)
  have a: "applied ?inv (applied ?c ?t) = ?t" "fits ?inv (applied ?c ?t)"
    using ok(1) applied_undoing [of ?t "ch_at ?c" "ch_nremove ?c" "blob_lines (ch_nadd ?c) (ch_blob ?c)"]
      fits_undoing [of ?t "ch_at ?c" "ch_nremove ?c" "blob_lines (ch_nadd ?c) (ch_blob ?c)"] at
    by (simp_all add: text_ok_def applied_def [of ?c])
  have sm: "small ?t \<Longrightarrow> length (ch_blob ?inv) \<le> UNDO_BYTES"
    using length_join_slice [of "ch_nremove ?c" "ch_at ?c" ?t] by (simp add: small_def)
  have res: "hist_fits ?v \<and> (\<exists>i j. (small ?t \<longrightarrow> j > 0) \<and> past s ?v = take i (tl (past s st)) \<and> past (other s) ?v = take j (?t # past (other s) st))"
  proof (cases "length (ch_blob ?inv) \<le> UNDO_BYTES")
    case True
    with v(9) obtain hs where hs: "kept (hist s u) (hist s v)" "kept (hist (other s) u) hs" "hist (other s) v = hs @ [?inv]" by auto
    obtain i where i: "fits_all (applied ?c ?t) (rev (hist s v))"
        "replay (applied ?c ?t) (rev (hist s v)) = take i (replay (applied ?c ?t) (rev (butlast (hist s st))))"
      using replay_kept [OF hs(1), of "applied ?c ?t"] fc(2) pop(2) by auto
    have "fits_all ?t (rev (hist (other s) st))" using ok(3) by (simp add: hist_fits_def)
    then obtain j where j: "fits_all ?t (rev hs)" "replay ?t (rev hs) = take j (past (other s) st)"
      using replay_kept [OF hs(2), of ?t] pop(3) by (auto simp: past_def)
    have "past s ?v = take i (tl (past s st))" using i(2) v(2) ps by (simp add: past_def)
    moreover have "past (other s) ?v = take (Suc j) (?t # past (other s) st)" using j(2) v(2) hs(3) a(1) by (simp add: past_def)
    moreover have "fits_all (texts ?v) (rev (hist s ?v))" "fits_all (texts ?v) (rev (hist (other s) ?v))"
      using i(1) j(1) v(2) hs(3) a by simp_all
    then have "hist_fits ?v" using which_cases [of _ s] by (metis hist_fits_def)
    ultimately show ?thesis by (metis zero_less_Suc)
  next
    case False
    with v(9) have "hist (other s) v = []" "hist s v = []" by auto
    then have "\<And>z. hist z v = []" using which_cases [of _ s] by metis
    then have "hist_fits ?v" "past s ?v = take 0 (tl (past s st))" "past (other s) ?v = take 0 (?t # past (other s) st)"
      by (simp_all add: hist_fits_def past_def)
    then show ?thesis using sm False by blast
  qed
  then obtain i j where ij: "small ?t \<longrightarrow> j > 0" "past s ?v = take i (tl (past s st))" "past (other s) ?v = take j (?t # past (other s) st)" by blast
  have "tstep (timeline st) (timeline ?v)"
  proof (cases s)
    case Undo
    show ?thesis using tstep.undo [of ?t j "applied ?c ?t" "tl (past s st)" "past Redo st" i] ij ps v(2) Undo by (simp add: timeline_def)
  next
    case Redo
    show ?thesis using tstep.redo [of ?t j "past Undo st" "applied ?c ?t" "tl (past s st)" i] ij ps v(2) Redo by (simp add: timeline_def)
  qed
  moreover have "text_ok (texts ?v)" using fc(1) v(2) by (simp add: fits_def)
  then have "ed_ok ?v" using v res by (simp add: ed_ok_def typing_ok_def cur_text_def cur_line_def nlines_def)
  moreover have "small ?t \<longrightarrow> past (other s) ?v \<noteq> [] \<and> hd (past (other s) ?v) = ?t" using ij by (cases j) auto
  ultimately show ?thesis using tb v ps by (intro exI [of _ ?v]) (simp add: mark_def)
qed

end
