(* ===== verification/EdSteps.thy ===== *)
theory EdSteps
  imports EdHistory
begin

text \<open>
  The operations of the editor on a state that is in order: each is defined, is a step of the timeline,
  and leaves a state in order.
\<close>

section \<open>Steps\<close>

definition goes :: "edit \<Rightarrow> edit \<Rightarrow> bool" where
  "goes st st' \<longleftrightarrow> ed_ok st' \<and> estep (typing_line st \<noteq> None) (timeline st) (timeline st')"

lemma timeline_upd [simp]:
  "timeline (st\<lparr>typing_line := a\<rparr>) = timeline st" "timeline (st\<lparr>status := b\<rparr>) = timeline st" "timeline (st\<lparr>cy := y\<rparr>) = timeline st"
  "timeline (st\<lparr>cx := x\<rparr>) = timeline st" "timeline (st\<lparr>modified := m\<rparr>) = timeline st" "timeline (st\<lparr>dirty := d\<rparr>) = timeline st"
  "timeline (st\<lparr>mark_on := v\<rparr>) = timeline st" "timeline (st\<lparr>clipboard := q\<rparr>) = timeline st"
  by (simp_all add: timeline_def past_def)

lemma base_ok_upd [simp]:
  "base_ok (st\<lparr>cy := y\<rparr>) = base_ok st" "base_ok (st\<lparr>cx := x\<rparr>) = base_ok st" "base_ok (st\<lparr>mark_on := v\<rparr>) = base_ok st"
  "base_ok (st\<lparr>clipboard := q\<rparr>) = base_ok st" "base_ok (st\<lparr>status := b\<rparr>) = base_ok st"
  by (simp_all add: base_ok_def hist_fits_def)

lemma edit_done:
  assumes "base_ok st" "typing_line st = None" "y < nlines st" "x \<le> length (texts st ! y)"
  shows "ed_ok (st\<lparr>cy := y, cx := x\<rparr>)"
  using assms cur_text_texts [of "st\<lparr>cy := y, cx := x\<rparr>"] by (simp add: ed_ok_def base_ok_def hist_fits_def typing_ok_def)

text \<open>A key that only moves the cursor.\<close>

lemma moved:
  assumes "ed_ok st" "y < nlines st" "x \<le> length (text_at st y)"
  shows "ed_ok (st\<lparr>cy := y, cx := x\<rparr>)"
  using assms cur_text_texts [of "st\<lparr>cy := y, cx := x\<rparr>"] texts_nth [of y st] by (simp add: ed_ok_def hist_fits_def typing_ok_def)

lemma ed_okD:
  assumes "ed_ok st"
  shows "cy st < nlines st" "cx st \<le> length (cur_text st)" "text_ok (texts st)" "0 < nlines st" "nlines st \<le> MAX_LINES"
    "cur_text st = texts st ! cy st" "LF \<notin> set (cur_text st)" "here st = Some (lines st ! cy st)" "ltext (lines st ! cy st) = cur_text st"
proof -
  show a: "cy st < nlines st" "cx st \<le> length (cur_text st)" "text_ok (texts st)" using assms by (simp_all add: ed_ok_def)
  then show "0 < nlines st" "nlines st \<le> MAX_LINES" by (simp_all add: text_ok_def)
  show c: "cur_text st = texts st ! cy st" using a(1) by (rule cur_text_texts)
  have "texts st ! cy st \<in> set (texts st)" using a(1) by (intro nth_mem) simp
  then show "LF \<notin> set (cur_text st)" using a(3) c by (auto simp: text_ok_def plain_def)
  show l: "ltext (lines st ! cy st) = cur_text st" using a(1) by (simp add: cur_text_def cur_line_def)
  show "here st = Some (lines st ! cy st)" using a(1,2) l by (simp add: here_def)
qed

lemma plain_nth: "plain ts \<Longrightarrow> i < length ts \<Longrightarrow> LF \<notin> set (ts ! i)"
  by (simp add: plain_def)

section \<open>Typing\<close>

text \<open>After a record of the line, bytes are typed into it or erased: \<open>r\<close> is the state just after the record.\<close>

definition typed :: "edit \<Rightarrow> edit \<Rightarrow> edit \<Rightarrow> bool" where
  "typed st r u \<longleftrightarrow> stacks u = stacks r \<and> hist_bytes u = hist_bytes r \<and> typing_line u = Some (cy st) \<and> cy u = cy st \<and>
     mark u = mark st \<and> clipboard u = clipboard st \<and>
     (\<exists>v. texts u = (texts st)[cy st := v] \<and> LF \<notin> set v \<and> cx u \<le> length v)"

lemma typed_start:
  assumes "roomy w" "ed_ok st"
  shows "\<exists>r. record_typing w st = Some r \<and> lines r = lines st \<and> cx r = cx st \<and> typed st r r \<and> (\<forall>u. typed st r u \<longrightarrow> goes st u)"
proof -
  note d = ed_okD [OF assms(2)]
  obtain r where r: "record_typing w st = Some r" "lines r = lines st" "cy r = cy st" "cx r = cx st" "mark r = mark st"
      "clipboard r = clipboard st" "typing_line r = Some (cy st)"
      "\<forall>v u. stacks u = stacks r \<longrightarrow> hist_bytes u = hist_bytes r \<longrightarrow> typing_line u = Some (cy st) \<longrightarrow> cy u = cy st \<longrightarrow>
       texts u = (texts st)[cy st := v] \<longrightarrow> LF \<notin> set v \<longrightarrow> cx u \<le> length v \<longrightarrow> ed_ok u \<and> estep (typing_line st \<noteq> None) (timeline st) (timeline u)"
    using record_typing_step [OF assms] by blast
  have "texts r = (texts st)[cy st := cur_text st]" using r(2) d(6) by (simp add: texts_def)
  then have "typed st r r" unfolding typed_def using r(3-7) d(2,7) by (intro conjI exI [of _ "cur_text st"]) simp_all
  moreover have "\<forall>u. typed st r u \<longrightarrow> goes st u" using r(8) unfolding typed_def goes_def by blast
  ultimately show ?thesis using r by blast
qed

lemma typed_line:
  assumes "typed st r u" "ed_ok st"
  shows "cur_text u = texts u ! cy st" "here u = Some (lines u ! cy st)" "cx u \<le> length (cur_text u)" "LF \<notin> set (cur_text u)"
    "ltext (lines u ! cy st) = cur_text u" "nlines u = nlines st"
proof -
  obtain v where v: "texts u = (texts st)[cy st := v]" "LF \<notin> set v" "cx u \<le> length v" and c: "cy u = cy st"
    using assms(1) by (auto simp: typed_def)
  show n: "nlines u = nlines st" using v(1) by (metis length_texts length_list_update)
  show t: "cur_text u = texts u ! cy st" using cur_text_texts [of u] c n ed_okD(1) [OF assms(2)] by simp
  then have "cur_text u = v" using v(1) ed_okD(1) [OF assms(2)] by simp
  then show "cx u \<le> length (cur_text u)" "LF \<notin> set (cur_text u)" using v by simp_all
  then show "ltext (lines u ! cy st) = cur_text u" "here u = Some (lines u ! cy st)"
    using c n ed_okD(1) [OF assms(2)] by (simp_all add: here_def cur_text_def cur_line_def)
qed

lemma typed_put:
  assumes "typed st r u" "ed_ok st" "LF \<notin> set v" "x \<le> length v"
  shows "typed st r (changed d ((put_line (l\<lparr>ltext := v\<rparr>) u)\<lparr>cx := x\<rparr>))"
proof -
  obtain z where z: "texts u = (texts st)[cy st := z]" and c: "cy u = cy st" using assms(1) by (auto simp: typed_def)
  have "map ltext ((lines u)[cy st := l\<lparr>ltext := v\<rparr>]) = (texts st)[cy st := v]" using z by (simp add: texts_def map_update)
  then show ?thesis using assms c by (auto simp: typed_def changed_def put_line_def mark_def texts_def)
qed

lemma insert_char_typed:
  assumes "roomy w" "ed_ok st" "typed st r u" "c \<noteq> LF"
  shows "\<exists>u'. insert_char w c u = Some u' \<and> typed st r u'"
proof -
  note l = typed_line [OF assms(3,2)]
  obtain k where "line_reserve w (length (cur_text u) + 1) (lines u ! cy st) = Some ((lines u ! cy st)\<lparr>lcap := k\<rparr>)"
    using reserve_roomy [OF assms(1)] by blast
  moreover have "typed st r (changed DIRTY_LINE ((put_line ((lines u ! cy st)\<lparr>lcap := k\<rparr>\<lparr>ltext := take (cx u) (cur_text u) @ c # drop (cx u) (cur_text u)\<rparr>) u)\<lparr>cx := cx u + 1\<rparr>))"
    using l assms(4) by (intro typed_put [OF assms(3,2)]) (auto dest: in_set_takeD in_set_dropD)
  ultimately show ?thesis using l by (auto simp: insert_char_def)
qed

lemma erase_bytes_step:
  assumes "roomy w" "ed_ok st" "frm \<le> til" "til \<le> length (cur_text st)"
  shows "\<exists>st'. erase_bytes w frm til st = Some st' \<and> goes st st' \<and> mark st' = mark st"
proof -
  obtain r where r: "record_typing w st = Some r" "typed st r r" "\<forall>u. typed st r u \<longrightarrow> goes st u"
    using typed_start [OF assms(1,2)] by blast
  note d = ed_okD [OF assms(2)]
  let ?v = "take frm (cur_text st) @ drop til (cur_text st)"
  have "typed st r (changed DIRTY_LINE ((put_line ((lines st ! cy st)\<lparr>ltext := ?v\<rparr>) r)\<lparr>cx := frm\<rparr>))"
    using assms(3,4) d(7) by (intro typed_put [OF r(2) assms(2)]) (auto dest: in_set_takeD in_set_dropD)
  then have "goes st (changed DIRTY_LINE ((put_line ((lines st ! cy st)\<lparr>ltext := ?v\<rparr>) r)\<lparr>cx := frm\<rparr>))"
    "mark (changed DIRTY_LINE ((put_line ((lines st ! cy st)\<lparr>ltext := ?v\<rparr>) r)\<lparr>cx := frm\<rparr>)) = mark st"
    using r(3) by (auto simp: typed_def)
  then show ?thesis using r(1) d assms(3,4) by (simp add: erase_bytes_def)
qed

section \<open>Lines\<close>

text \<open>An edit of \<open>n\<close> lines at \<open>at\<close>, after which the cursor is put somewhere in the text.\<close>

lemma splice_step:
  assumes "roomy w" "base_ok st" "at + n \<le> nlines st" "0 < nlines st - n + m" "nlines st - n + m \<le> MAX_LINES"
    "y < nlines st - n + m" "x \<le> length ((take at (texts st) @ blob_lines m blob @ drop (at + n) (texts st)) ! y)"
  shows "\<exists>st'. recorded_splice w at n blob m st = Some st' \<and> goes st (st'\<lparr>cy := y, cx := x\<rparr>) \<and> mark st' = mark st \<and> clipboard st' = clipboard st \<and>
    cy st' = cy st \<and> cx st' = cx st \<and> typing_line st' = None \<and> texts st' = take at (texts st) @ blob_lines m blob @ drop (at + n) (texts st)"
proof -
  obtain st' where s: "recorded_splice w at n blob m st = Some st'" "base_ok st'" "estep False (timeline st) (timeline st')"
      "texts st' = take at (texts st) @ blob_lines m blob @ drop (at + n) (texts st)" "cy st' = cy st" "cx st' = cx st"
      "typing_line st' = None" "mark st' = mark st" "clipboard st' = clipboard st"
    using recorded_splice_step [OF assms(1-5)] by blast
  have "nlines st' = nlines st - n + m" using arg_cong [OF s(4), of length] assms(3) by simp
  then have "ed_ok (st'\<lparr>cy := y, cx := x\<rparr>)" using assms(6,7) s by (intro edit_done) simp_all
  then show ?thesis using s estep_weaken by (auto simp: goes_def)
qed

lemma goes_changed [simp]: "goes st (changed d st') = goes st st'"
  by (simp add: goes_def)

lemma goes_status [simp]: "goes st (set_status t st') = goes st st'"
  by (simp add: goes_def)

lemma goes_refl: "ed_ok st \<Longrightarrow> goes st st"
  by (simp add: goes_def estep_same)

lemma goes_no_memory [simp]: "goes st (no_memory st') = goes st st'"
  by (simp add: no_memory_def)

lemma goes_view: "view st' = view st'' \<Longrightarrow> goes st st' = goes st st''"
  using ed_ok_view timeline_view by (metis goes_def)

lemma goes_from_view: "view st = view st' \<Longrightarrow> goes st st'' = goes st' st''"
  using timeline_view [of st st'] by (simp add: goes_def view_def)

lemma nth_mid: "length xs = k \<Longrightarrow> i < length ys \<Longrightarrow> (xs @ ys @ zs) ! (k + i) = ys ! i"
  by (simp add: nth_append)

lemma split_line_step:
  assumes "roomy w" "ed_ok st"
  shows "\<exists>st'. split_line w st = Some st' \<and> goes st st' \<and> mark st' = mark st"
proof (cases "nlines st + 1 > MAX_LINES")
  case True
  then show ?thesis using assms(2) by (simp add: split_line_def goes_refl)
next
  case False
  note d = ed_okD [OF assms(2)]
  let ?t = "cur_text st" let ?x = "cx st" let ?i = "indent_of ?t ?x"
  let ?blob = "take ?x ?t @ LF # ?i @ drop ?x ?t"
  have i: "LF \<notin> set ?i" using d(7) by (auto simp: indent_of_def dest!: set_takeWhileD in_set_takeD)
  then have b: "blob_lines 2 ?blob = [take ?x ?t, ?i @ drop ?x ?t]"
    using d(7) by (intro blob_lines_2) (auto dest: in_set_takeD in_set_dropD)
  have len: "length (take (cy st) (texts st)) = cy st" using d(1) by simp
  have "(take (cy st) (texts st) @ blob_lines 2 ?blob @ drop (cy st + 1) (texts st)) ! (cy st + 1) = ?i @ drop ?x ?t"
    unfolding b using nth_mid [OF len, of 1 "[take ?x ?t, ?i @ drop ?x ?t]"] by simp
  then obtain st' where "recorded_splice w (cy st) 1 ?blob 2 st = Some st'"
      "goes st (st'\<lparr>cy := cy st + 1, cx := length ?i\<rparr>)" "mark st' = mark st" "cy st' = cy st"
    using splice_step [OF assms(1) ed_ok_base [OF assms(2)], of "cy st" 1 2 "cy st + 1" "length ?i" ?blob] d False by auto
  then show ?thesis using False assms(1) d by (simp add: split_line_def Let_def roomy_def)
qed

lemma join_lines_step:
  assumes "roomy w" "ed_ok st"
  shows "\<exists>st'. join_lines w at st = Some st' \<and> goes st st' \<and> mark st' = mark st"
proof (cases "at + 1 \<ge> nlines st")
  case True
  then show ?thesis using assms(2) by (simp add: join_lines_def goes_refl)
next
  case False
  note d = ed_okD [OF assms(2)]
  let ?blob = "text_at st at @ text_at st (at + 1)"
  have "LF \<notin> set ?blob" using False d(3) plain_nth [of "texts st" at] plain_nth [of "texts st" "at + 1"]
    by (simp add: texts_nth text_ok_def)
  then have b: "blob_lines 1 ?blob = [?blob]" by (rule blob_lines_1)
  have len: "length (take at (texts st)) = at" using False by simp
  have "(take at (texts st) @ blob_lines 1 ?blob @ drop (at + 2) (texts st)) ! at = ?blob"
    unfolding b using nth_mid [OF len, of 0 "[?blob]"] by simp
  then have x: "length (text_at st at) \<le> length ((take at (texts st) @ blob_lines 1 ?blob @ drop (at + 2) (texts st)) ! at)"
    by (simp only: length_append le_add1)
  have n: "at + 2 \<le> nlines st" "0 < nlines st - 2 + 1" "nlines st - 2 + 1 \<le> MAX_LINES" "at < nlines st - 2 + 1" using d(5) False by auto
  obtain st' where "recorded_splice w at 2 ?blob 1 st = Some st'"
      "goes st (st'\<lparr>cy := at, cx := length (text_at st at)\<rparr>)" "mark st' = mark st"
    using splice_step [OF assms(1) ed_ok_base [OF assms(2)] n x] by blast
  then show ?thesis using False assms(1) by (simp add: join_lines_def Let_def roomy_def)
qed

lemma utf8_next_bounds: "i < n \<Longrightarrow> i < utf8_next s n i \<and> utf8_next s n i \<le> n"
  using utf8_seq_len_cases [of "ch s i"] by (auto simp: utf8_next_def Let_def)

lemma backspace_step:
  assumes "roomy w" "ed_ok st" shows "\<exists>st'. backspace w st = Some st' \<and> goes st st' \<and> mark st' = mark st"
  using erase_bytes_step [OF assms utf8_prev_le, of "cx st"] ed_okD(2) [OF assms(2)] join_lines_step [OF assms, of "cy st - 1"]
    goes_refl [OF assms(2)] by (auto simp: backspace_def)

lemma delete_forward_step:
  assumes "roomy w" "ed_ok st" shows "\<exists>st'. delete_forward w st = Some st' \<and> goes st st' \<and> mark st' = mark st"
  using erase_bytes_step [OF assms, of "cx st" "utf8_next (cur_text st) (length (cur_text st)) (cx st)"]
    utf8_next_bounds [of "cx st" "length (cur_text st)" "cur_text st"] join_lines_step [OF assms, of "cy st"]
  by (auto simp: delete_forward_def)

end
