(* ===== verification/EdSelect.thy ===== *)
theory EdSelect
  imports EdSteps
begin

text \<open>
  The selection and the clipboard of the editor as steps of the timeline.  The selection is valid while
  its mark is a place of the text.
\<close>

section \<open>The selection\<close>

definition mark_ok :: "edit \<Rightarrow> bool" where
  "mark_ok st \<longleftrightarrow> mark_on st \<longrightarrow> my st < nlines st \<and> mx st \<le> length (text_at st (my st))"

text \<open>Of the two ends of a selection the one is the cursor and the other the mark.\<close>

lemma sel_bounds_ends:
  assumes "sel_bounds st = Some (y0, x0, y1, x1)"
  shows "mark_on st" "y0 \<le> y1" "y0 = y1 \<longrightarrow> x0 < x1"
    "((y0, x0) = (my st, mx st) \<and> (y1, x1) = (cy st, cx st)) \<or> ((y0, x0) = (cy st, cx st) \<and> (y1, x1) = (my st, mx st))"
  using assms by (auto simp: sel_bounds_def split: if_splits)

lemma sel_bounds_in_text:
  assumes "sel_bounds st = Some (y0, x0, y1, x1)" "ed_ok st" "mark_ok st"
  shows "y1 < nlines st" "x0 \<le> length (text_at st y0)" "x1 \<le> length (text_at st y1)"
  using sel_bounds_ends [OF assms(1)] ed_okD [OF assms(2)] assms(3) texts_nth [of "cy st" st] by (auto simp: mark_ok_def)

lemma delete_selection_in_text:
  assumes "roomy w" "ed_ok st" "sel_bounds st = Some (y0, x0, y1, x1)"
    and r: "y1 < nlines st" "x0 \<le> length (text_at st y0)" "x1 \<le> length (text_at st y1)"
  shows "\<exists>st'. delete_selection w st = Some st' \<and> goes st st' \<and> \<not> mark_on st' \<and> typing_line st' = None"
proof -
  let ?a = "text_at st y0" let ?b = "text_at st y1" let ?n = "y1 - y0 + 1" let ?u = "st\<lparr>cy := y0, cx := x0\<rparr>"
  let ?blob = "take x0 ?a @ drop x1 ?b"
  have y: "y0 \<le> y1" using sel_bounds_ends [OF assms(3)] by simp
  note d = ed_okD [OF assms(2)]
  have "LF \<notin> set ?a" "LF \<notin> set ?b" using y r(1) d(3) plain_nth [of "texts st" y0] plain_nth [of "texts st" y1]
    by (simp_all add: texts_nth text_ok_def)
  then have "LF \<notin> set ?blob" by (auto dest: in_set_takeD in_set_dropD)
  then have b: "blob_lines 1 ?blob = [?blob]" by (rule blob_lines_1)
  have len: "length (take y0 (texts ?u)) = y0" using y r(1) by simp
  have "(take y0 (texts ?u) @ blob_lines 1 ?blob @ drop (y0 + ?n) (texts ?u)) ! y0 = ?blob"
    unfolding b using nth_mid [OF len, of 0 "[?blob]"] by simp
  then have x: "x0 \<le> length ((take y0 (texts ?u) @ blob_lines 1 ?blob @ drop (y0 + ?n) (texts ?u)) ! y0)"
    using r(2) by (simp only: length_append length_take)
  have n: "y0 + ?n \<le> nlines ?u" "0 < nlines ?u - ?n + 1" "nlines ?u - ?n + 1 \<le> MAX_LINES" "y0 < nlines ?u - ?n + 1"
    using d(5) y r(1) by auto
  have "base_ok ?u" using ed_ok_base [OF assms(2)] by simp
  from splice_step [OF assms(1) this n x] obtain v where v: "recorded_splice w y0 ?n ?blob 1 ?u = Some v"
      "goes ?u (v\<lparr>cy := y0, cx := x0\<rparr>)" "cy v = y0" "cx v = x0" "typing_line v = None" by auto
  have "v\<lparr>cy := y0, cx := x0\<rparr> = v" using v(3,4) by simp
  then have "goes st v" using v(2) by (simp add: goes_def)
  then have "goes st (changed DIRTY_ALL (v\<lparr>mark_on := False\<rparr>))"
    using goes_view [of "changed DIRTY_ALL (v\<lparr>mark_on := False\<rparr>)" v] by (simp add: view_def changed_def)
  then show ?thesis using v(1,5) r assms(1,3) by (auto simp: delete_selection_def Let_def roomy_def changed_def)
qed

lemma delete_selection_step:
  assumes "roomy w" "ed_ok st" "delete_selection w st = Some st'"
  shows "goes st st' \<and> (st' = st \<and> (\<not> mark_on st \<or> my st = cy st \<and> mx st = cx st) \<or> \<not> mark_on st')"
proof (cases "sel_bounds st")
  case None
  then show ?thesis using assms(2,3) goes_refl by (auto simp: delete_selection_def sel_bounds_def split: if_splits)
next
  case (Some s)
  obtain y0 x0 y1 x1 where s: "s = (y0, x0, y1, x1)" by (metis prod_cases4)
  have r: "y1 < nlines st" "x0 \<le> length (text_at st y0)" "x1 \<le> length (text_at st y1)"
    using assms(1,3) Some s by (auto simp: delete_selection_def Let_def roomy_def split: if_splits)
  from delete_selection_in_text [OF assms(1,2) Some [unfolded s] r] show ?thesis using assms(3) by auto
qed

lemma delete_selection_defined:
  assumes "roomy w" "ed_ok st" "mark_ok st" shows "\<exists>st'. delete_selection w st = Some st'"
proof (cases "sel_bounds st")
  case None
  then show ?thesis by (auto simp: delete_selection_def)
next
  case (Some s)
  obtain y0 x0 y1 x1 where s: "s = (y0, x0, y1, x1)" by (metis prod_cases4)
  from delete_selection_in_text [OF assms(1,2) Some [unfolded s] sel_bounds_in_text [OF Some [unfolded s] assms(2,3)]]
  show ?thesis by blast
qed

lemma drop_selection_step:
  assumes "roomy w" "ed_ok st" "drop_selection w st = Some st'"
  shows "goes st st' \<and> (\<not> mark_on st \<longrightarrow> st' = st) \<and> (mark_ok st \<longrightarrow> mark_ok st')"
  using delete_selection_step [OF assms(1,2)] assms(2,3) goes_refl
  by (auto simp: drop_selection_def mark_ok_def split: if_splits)

lemma drop_selection_defined:
  "roomy w \<Longrightarrow> ed_ok st \<Longrightarrow> mark_ok st \<Longrightarrow> \<exists>st'. drop_selection w st = Some st'"
  using delete_selection_defined by (auto simp: drop_selection_def)

section \<open>The clipboard\<close>

lemma clip_set_keeps: "view (snd (clip_set w t st)) = view st" "mark (snd (clip_set w t st)) = mark st"
  by (simp_all add: clip_set_def view_def mark_def no_memory_def set_status_def)

lemma those_all: "(\<And>x. x \<in> set xs \<Longrightarrow> f x \<noteq> None) \<Longrightarrow> those (map f xs) \<noteq> None"
  by (induction xs) (auto split: option.splits)

lemma copy_selection_keeps:
  assumes "copy_selection w st = Some (ok, st')" shows "view st' = view st \<and> mark st' = mark st"
proof -
  have "view (snd r) = view st \<and> mark (snd r) = mark st" if "r = (False, set_status t st) \<or> r = (False, no_memory st) \<or> r = clip_set w p st" for r t p
    using that clip_set_keeps by auto
  then show ?thesis using assms
    by (auto simp: copy_selection_def Let_def bind_eq_Some_conv split: option.splits if_splits) (metis snd_conv)+
qed

lemma copy_selection_defined:
  assumes "ed_ok st" "mark_ok st" shows "\<exists>r. copy_selection w st = Some r"
proof (cases "sel_bounds st")
  case None
  show ?thesis by (rule exI) (simp add: copy_selection_def None)
next
  case (Some s)
  obtain y0 x0 y1 x1 where s: "s = (y0, x0, y1, x1)" by (metis prod_cases4)
  note e = sel_bounds_ends [OF Some [unfolded s]] and t = sel_bounds_in_text [OF Some [unfolded s] assms]
  have "slice (text_at st i) (range_on (y0, x0, y1, x1) st i) \<noteq> None" if "i \<in> set [y0..<y1 + 1]" for i
    using that e t by (auto simp: slice_def range_on_def)
  then have "those (map (\<lambda>i. slice (text_at st i) (range_on (y0, x0, y1, x1) st i)) [y0..<y1 + 1]) \<noteq> None"
    by (rule those_all)
  then obtain parts where
    "those (map (\<lambda>i. slice (text_at st i) (range_on (y0, x0, y1, x1) st i)) [y0..<y1 + 1]) = Some parts" by blast
  moreover have "\<exists>a. \<not> a" by (rule exI [of _ False]) simp
  ultimately show ?thesis using Some s by (simp add: copy_selection_def Let_def t(1) not_le del: upt_Suc)
qed

lemma cut_line_step:
  assumes "roomy w" "ed_ok st"
  shows "\<exists>st'. cut_line w st = Some st' \<and> goes st st' \<and> mark st' = mark st"
proof -
  note d = ed_okD [OF assms(2)]
  define u where "u = snd (clip_set w (cur_text st @ [LF]) st)"
  have uv: "view u = view st" "mark u = mark st" using clip_set_keeps by (simp_all add: u_def)
  have ul: "lines u = lines st" "cy u = cy st" using uv(1) by (simp_all add: view_def)
  have ut: "texts u = texts st" "nlines u = nlines st" using ul by (simp_all add: texts_def nlines_def)
  have bu: "base_ok u" using ed_ok_base [of u] assms(2) ed_ok_view [OF uv(1)] by simp
  define at n m where "at = (if nlines st = 1 then 0 else cy st)" and "n = (1::nat)" and "m = (if nlines st = 1 then 1 else 0 :: nat)"
  have b: "at + n \<le> nlines u" "0 < nlines u - n + m" "nlines u - n + m \<le> MAX_LINES" "0 < nlines u - n + m"
    using d(1,4,5) ut(2) by (auto simp: at_def n_def m_def)
  obtain v where v: "recorded_splice w at n [] m u = Some v" "goes u (v\<lparr>cy := 0, cx := 0\<rparr>)" "mark v = mark u" "cy v = cy u" "typing_line v = None"
      "texts v = take at (texts u) @ blob_lines m [] @ drop (at + n) (texts u)"
    using splice_step [OF assms(1) bu b, of 0 "[]"] by auto
  have nv: "0 < nlines v" using arg_cong [OF v(6), of length] b by auto
  have bv: "base_ok v" using ed_ok_base [of "v\<lparr>cy := 0, cx := 0\<rparr>"] v(2) by (simp add: goes_def)
  let ?z = "v\<lparr>cy := (if cy v \<ge> nlines v then nlines v - 1 else cy v), cx := 0\<rparr>"
  have "ed_ok (clamp_cx ?z)"
    using clamp_in_text [of ?z] nv bv v(5) by (simp add: ed_ok_def base_ok_def hist_fits_def typing_ok_def)
  moreover have "estep (typing_line st \<noteq> None) (timeline st) (timeline v)"
    using v(2) uv(1) timeline_view [OF uv(1)] by (simp add: goes_def view_def)
  then have "estep (typing_line st \<noteq> None) (timeline st) (timeline (clamp_cx ?z))" by (simp add: timeline_def past_def)
  ultimately have "goes st (changed DIRTY_ALL (clamp_cx ?z))" by (simp add: goes_def)
  moreover have "mark (changed DIRTY_ALL (clamp_cx ?z)) = mark st" using v(3) uv(2) by simp
  moreover have "cut_line w st = Some (changed DIRTY_ALL (clamp_cx ?z))"
    using d(1) v(1) ul(2) ut(2) assms(1)
    by (simp add: cut_line_def cur_text_def [symmetric] u_def [symmetric] roomy_def at_def n_def m_def Let_def split: if_splits)
  ultimately show ?thesis by blast
qed

text \<open>The last of the lines of a text.\<close>

definition final_line :: "u8 list \<Rightarrow> u8 list" where
  "final_line p = rev (takeWhile (\<lambda>c. c \<noteq> LF) (rev p))"

lemma final_line_simps:
  "final_line [] = []" "LF \<notin> set p \<Longrightarrow> final_line p = p" "final_line (p @ LF # q) = final_line q"
  "LF \<in> set p \<Longrightarrow> final_line (q @ p) = final_line p"
proof -
  show "final_line [] = []" by (simp add: final_line_def)
  show a: "final_line p = p" if "LF \<notin> set p" for p
  proof -
    have "LF \<notin> set (rev p)" using that by simp
    from takeWhile_all_no_LF [OF this] show ?thesis by (simp only: final_line_def rev_rev_ident)
  qed
  show b: "final_line (q @ p) = final_line p" if "LF \<in> set p" for p q
    using that by (simp add: final_line_def takeWhile_append1 [of LF])
  show "final_line (p @ LF # q) = final_line q"
  proof (cases "LF \<in> set q")
    case True
    then show ?thesis using b [of q "p @ [LF]"] by simp
  next
    case False
    then show ?thesis using a [of q] takeWhile_no_LF [of "rev q" "rev p"] by (simp add: final_line_def)
  qed
qed

lemma blob_lines_Cons: "c \<noteq> LF \<Longrightarrow> blob_lines (Suc n) (c # p) = (c # hd (blob_lines (Suc n) p)) # tl (blob_lines (Suc n) p)"
  by simp

lemma blob_lines_final:
  assumes "LF \<notin> set b"
  shows "blob_lines (Suc (length (filter ((=) LF) p))) (p @ b) ! length (filter ((=) LF) p) = final_line p @ b"
proof (induction "length (filter ((=) LF) p)" arbitrary: p)
  case 0
  then have "LF \<notin> set p" by (auto simp: filter_empty_conv)
  then show ?case using assms blob_lines_1 [of "p @ b"] by (simp add: 0 [symmetric] final_line_simps)
next
  case (Suc n)
  then have "LF \<in> set p" by (metis filter_False length_0_conv nat.distinct(1))
  then obtain a q where p: "p = a @ LF # q" "LF \<notin> set a" by (meson split_list_first)
  have "length (filter ((=) LF) a) = 0" using p(2) by (auto simp: filter_empty_conv)
  then have n: "n = length (filter ((=) LF) q)" using Suc(2) p(1) by simp
  show ?case using Suc(1) [OF n] p(2) unfolding Suc(2) [symmetric]
    by (simp add: p(1) takeWhile_no_LF dropWhile_no_LF final_line_simps n [symmetric])
qed

lemma paste_step:
  assumes "roomy w" "ed_ok st"
  shows "\<exists>st'. paste w st = Some st' \<and> goes st st' \<and> mark st' = mark st"
proof (cases "clipboard st")
  case None
  then show ?thesis using assms(2) by (simp add: paste_def goes_refl)
next
  case (Some p)
  let ?n = "length (filter ((=) LF) p)" let ?a = "take (cx st) (cur_text st)" let ?b = "drop (cx st) (cur_text st)"
  let ?blob = "?a @ p @ ?b"
  note d = ed_okD [OF assms(2)]
  show ?thesis
  proof (cases "p = [] \<or> nlines st + ?n > MAX_LINES")
    case True
    then show ?thesis using assms(2) Some by (auto simp: paste_def Let_def goes_refl)
  next
    case False
    let ?y = "if ?n > 0 then cy st + ?n else cy st"
    let ?x = "if ?n > 0 then length (takeWhile (\<lambda>c. c \<noteq> LF) (rev p)) else cx st + length p"
    have la: "length (take (cy st) (texts st)) = cy st" using d(1) by simp
    have ab: "LF \<notin> set ?a" "LF \<notin> set ?b" using d(7) by (auto dest: in_set_takeD in_set_dropD)
    have fa: "length (filter ((=) LF) (?a @ p)) = ?n" using ab(1) by (auto simp: filter_empty_conv)
    have "blob_lines (1 + ?n) ?blob ! ?n = final_line (?a @ p) @ ?b"
      using blob_lines_final [OF ab(2), of "?a @ p"] unfolding fa by (simp del: blob_lines.simps)
    moreover have "?x \<le> length (final_line (?a @ p))"
    proof (cases "?n > 0")
      case True
      then have "LF \<in> set p" by (auto simp: filter_empty_conv)
      then show ?thesis using True by (simp add: final_line_simps(4)) (simp add: final_line_def)
    next
      case F: False
      then have "LF \<notin> set (?a @ p)" using ab(1) by (auto simp: filter_empty_conv)
      then have "final_line (?a @ p) = ?a @ p" by (rule final_line_simps(2))
      then show ?thesis using F d(2) by simp
    qed
    moreover have "(take (cy st) (texts st) @ blob_lines (1 + ?n) ?blob @ drop (cy st + 1) (texts st)) ! ?y = blob_lines (1 + ?n) ?blob ! ?n"
    proof -
      have "?y = cy st + ?n" by simp
      moreover have "?n < length (blob_lines (1 + ?n) ?blob)" unfolding length_blob_lines by simp
      ultimately show ?thesis by (simp only: nth_mid [OF la])
    qed
    ultimately have x: "?x \<le> length ((take (cy st) (texts st) @ blob_lines (1 + ?n) ?blob @ drop (cy st + 1) (texts st)) ! ?y)"
      by (simp only: length_append le_add1 trans_le_add1)
    have n: "cy st + 1 \<le> nlines st" "0 < nlines st - 1 + (1 + ?n)" "nlines st - 1 + (1 + ?n) \<le> MAX_LINES" "?y < nlines st - 1 + (1 + ?n)"
      using d(1) False by auto
    obtain v where v: "recorded_splice w (cy st) 1 ?blob (1 + ?n) st = Some v" "goes st (v\<lparr>cy := ?y, cx := ?x\<rparr>)"
        "mark v = mark st" "cy v = cy st" "cx v = cx st"
      using splice_step [OF assms(1) ed_ok_base [OF assms(2)] n x] by blast
    have e: "(if ?n > 0 then v\<lparr>cy := cy v + ?n, cx := length (takeWhile (\<lambda>c. c \<noteq> LF) (rev p))\<rparr> else v\<lparr>cx := cx v + length p\<rparr>) =
        v\<lparr>cy := ?y, cx := ?x\<rparr>"
      using v(4,5) by (cases v) auto
    have "paste w st = Some (changed DIRTY_ALL (v\<lparr>cy := ?y, cx := ?x\<rparr>))"
      unfolding e [symmetric] using False Some d(8,9) v(1) assms(1) by (simp add: paste_def Let_def roomy_def)
    then show ?thesis using v(2,3) by auto
  qed
qed

end
