(* ===== verification/EdQuiet.thy ===== *)
theory EdQuiet
  imports EdSelect
begin

text \<open>
  Output, input and prompts of the editor leave its text, its history and its selection alone.
\<close>

section \<open>Output and input leave the text alone\<close>

definition core :: "edit \<Rightarrow> (line_t list \<times> nat \<times> nat \<times> (which \<Rightarrow> stack_t) \<times> nat \<times> nat option) \<times> (bool \<times> nat \<times> nat)" where
  "core st = (view st, mark st)"

named_theorems quiet
named_theorems quietD

lemma core_upd [quiet]:
  "core (st\<lparr>calls := a\<rparr>) = core st" "core (st\<lparr>outbuf := b\<rparr>) = core st" "core (st\<lparr>status := d\<rparr>) = core st"
  "core (st\<lparr>dirty := e\<rparr>) = core st" "core (st\<lparr>rows := r\<rparr>) = core st" "core (st\<lparr>cols := c\<rparr>) = core st"
  "core (st\<lparr>top_line := t\<rparr>) = core st" "core (st\<lparr>left_col := l\<rparr>) = core st" "core (st\<lparr>modified := m\<rparr>) = core st"
  "core (st\<lparr>last_pat := p\<rparr>) = core st" "core (st\<lparr>last_rep := q\<rparr>) = core st" "core (st\<lparr>last_fwd := f\<rparr>) = core st"
  "core (st\<lparr>show_numbers := s\<rparr>) = core st" "core (st\<lparr>running := u\<rparr>) = core st" "core (st\<lparr>fname := n\<rparr>) = core st"
  "core (st\<lparr>readonly := z\<rparr>) = core st" "core (st\<lparr>clipboard := x\<rparr>) = core st"
  by (simp_all add: core_def view_def mark_def)

lemma core_basic [quiet]:
  "core (set_status t st) = core st" "core (out_bytes t st) = core st" "core (ed_did c st) = core st"
  "core (snd (ed_call w c st)) = core st" "core (changed d st) = core st" "core (no_memory st) = core st"
  by (simp_all add: set_status_def out_bytes_def ed_did_def ed_call_def changed_def no_memory_def quiet)

lemma core_call [quietD]: "ed_call w c st = (r, st') \<Longrightarrow> core st' = core st"
  by (auto simp: ed_call_def quiet dest!: quietD)

lemma core_out_fmt [quietD]: "out_fmt cap most fmt as st = Some (n, st') \<Longrightarrow> core st' = core st"
  by (auto simp: out_fmt_def bind_eq_Some_conv Let_def quiet split: if_splits)

lemma core_move_to [quietD]: "move_to r c st = Some st' \<Longrightarrow> core st' = core st"
  by (auto simp: move_to_def quiet dest!: quietD)

lemma core_flush [quiet]: "core (flush_out w st) = core st"
proof -
  have "core (flush_loop w rest v) = core v" for rest v
    by (induction w rest v rule: flush_loop.induct) (subst flush_loop.simps, auto dest: core_call split: prod.splits)
  then show ?thesis by (simp add: flush_out_def quiet)
qed

lemma core_status_fmt [quietD]: "status_fmt cap fmt as st = Some st' \<Longrightarrow> core st' = core st"
  by (auto simp: status_fmt_def quiet dest!: quietD)

lemma core_gutter:
  "(if gw > 0 then map_option snd (out_fmt cap most fmt as st) else Some st) = Some st' \<Longrightarrow> core st' = core st"
  by (auto dest: core_out_fmt split: if_splits)

lemma core_draw_line [quietD]:
  assumes "draw_line idx r st = Some st'" shows "core st' = core st"
proof -
  obtain u where u: "move_to (int r + 1) 1 st = Some u" using assms by (auto simp: draw_line_def bind_eq_Some_conv)
  let ?v = "out_bytes ERASE_LINE u"
  show ?thesis
  proof (cases "idx \<ge> nlines ?v")
    case True
    then show ?thesis using assms u core_move_to [OF u] by (auto simp: draw_line_def quiet)
  next
    case False
    then obtain z q where "(if gutter_w ?v > 0 then map_option snd (out_fmt 24 24 (cs ''%*d '') [anum (int (gutter_w ?v) - 1), anum (int idx + 1)] ?v)
        else Some ?v) = Some z" "st' = out_bytes q z"
      using assms u unfolding draw_line_def Let_def by (auto simp: bind_eq_Some_conv simp del: option.map)
    then show ?thesis using core_gutter core_move_to [OF u] by (metis core_basic(2))
  qed
qed

lemma core_draw_lines [quietD]: "draw_lines is st = Some st' \<Longrightarrow> core st' = core st"
  by (induction "is" st rule: draw_lines.induct) (auto simp: bind_eq_Some_conv dest: core_draw_line)

lemma core_spaces [quiet]: "core ((out_bytes t ^^ n) st) = core st"
  by (induction n) (simp_all add: quiet)

lemma core_draw_status [quietD]: "draw_status st = Some st' \<Longrightarrow> core st' = core st"
  by (auto simp: draw_status_def bind_eq_Some_conv Let_def quiet split: if_splits prod.splits dest!: quietD)

lemma core_place_cursor [quietD]: "place_cursor st = Some st' \<Longrightarrow> core st' = core st"
  by (auto simp: place_cursor_def quiet dest!: quietD)

lemma core_draw_dirty [quietD]: "draw_dirty st = Some st' \<Longrightarrow> core st' = core st"
  by (auto simp: draw_dirty_def bind_eq_Some_conv quiet split: dirty_t.splits dest!: quietD)

lemma core_term_size [quietD]: "term_size w st = (z, st') \<Longrightarrow> core st' = core st"
  by (auto simp: term_size_def quiet split: prod.splits dest!: quietD)

lemma core_check_size [quiet]: "core (check_size w st) = core st"
  by (auto simp: check_size_def Let_def quiet split: prod.splits dest!: quietD)

lemma core_scroll [quietD]: "scroll_to_cursor st = (b, st') \<Longrightarrow> core st' = core st"
  by (auto simp: scroll_to_cursor_def Let_def quiet dest!: quietD)

lemma core_refresh [quietD]:
  assumes "refresh w st = Some st'" shows "core st' = core st"
proof -
  obtain b u where u: "scroll_to_cursor (check_size w st) = (b, u)" by fastforce
  then have "core u = core st" using core_scroll core_check_size by metis
  then show ?thesis using assms u by (auto simp: refresh_def bind_eq_Some_conv Let_def quiet split: if_splits dest!: quietD)
qed

lemma core_read_one [quietD]: "read_one w st = (r, st') \<Longrightarrow> core st' = core st"
  by (auto simp: read_one_def quiet split: prod.splits dest!: quietD)

lemma core_esc_more [quietD]: "esc_more w st = (r, st') \<Longrightarrow> core st' = core st"
  by (auto simp: esc_more_def Let_def quiet split: prod.splits if_splits dest!: quietD)

lemma core_esc_byte [quietD]: "esc_byte w st = (r, st') \<Longrightarrow> core st' = core st"
  by (auto simp: esc_byte_def quiet split: prod.splits if_splits dest!: core_esc_more core_read_one dest!: quietD)

lemma core_then_byte:
  assumes "core (snd r) = core st" "\<And>c v. core v = core st \<Longrightarrow> core (snd (f c v)) = core st"
  shows "core (snd (then_byte r f)) = core st"
  using assms by (cases r) (auto simp: then_byte_def split: option.splits)

lemma core_escape [quiet]: "core (snd (escape_key w st)) = core st"
proof -
  have e: "core (snd (esc_byte w v)) = core st" if "core v = core st" for v
    using that core_esc_byte [of w v] by (metis prod.collapse)
  show ?thesis unfolding escape_key_def
    by (intro core_then_byte e refl) (auto intro!: core_then_byte e)
qed

lemma core_read_key [quietD]: "read_key w k st = Some (key, st') \<Longrightarrow> core st' = core st"
proof (induction w k st rule: read_key.induct)
  case (2 w k st)
  obtain r u where u: "ed_call w (Read 0 1) st = (r, u)" by fastforce
  then have c: "core u = core st" by (rule core_call)
  show ?case
  proof (cases "r_val r = 0")
    case True
    then show ?thesis using 2 u c by auto
  next
    case False
    obtain q z where z: "escape_key w u = (q, z)" by fastforce
    then have "core z = core u" using core_escape [of w u] by simp
    then show ?thesis using 2(2) False u z c by (auto simp: Let_def split: if_splits)
  qed
qed simp

lemma core_show_prompt [quietD]: "show_prompt w label buf st = Some st' \<Longrightarrow> core st' = core st"
  by (auto simp: show_prompt_def quiet dest!: quietD)

text \<open>Without line feeds from the terminal, which sends CR for Enter, nothing typed has one.\<close>

definition no_line_feeds :: "world \<Rightarrow> bool" where
  "no_line_feeds w \<longleftrightarrow> (\<forall>earlier. ch (r_bytes (kernel w earlier (Read 0 1))) 0 \<noteq> LF)"

lemma read_one_no_LF: "no_line_feeds w \<Longrightarrow> read_one w st = (Some c, st') \<Longrightarrow> c \<noteq> LF"
  by (auto simp: no_line_feeds_def read_one_def ed_call_def split: if_splits)

lemma read_rest_no_LF: "read_rest w n st = (t, st') \<Longrightarrow> core st' = core st \<and> (no_line_feeds w \<longrightarrow> LF \<notin> set t)"
proof (induction w n st arbitrary: t rule: read_rest.induct)
  case (2 w n st)
  obtain r u where u: "read_one w st = (r, u)" by fastforce
  note c = core_read_one [OF u]
  show ?case
  proof (cases r)
    case None
    then show ?thesis using 2(2) u c by simp
  next
    case (Some b)
    obtain s v where v: "read_rest w n u = (s, v)" by fastforce
    from 2(1) [OF u [symmetric] Some] 2(2) u v Some c read_one_no_LF [of w st b u]
    show ?thesis by auto
  qed
qed simp

lemma prompt_byte_no_LF:
  assumes "prompt_byte w sz c buf st = (buf', st')"
  shows "core st' = core st \<and> (no_line_feeds w \<longrightarrow> LF \<notin> set buf \<longrightarrow> LF \<notin> set buf')"
  using assms read_rest_no_LF [of w "utf8_seq_len c - 1" st]
  by (auto simp: prompt_byte_def Let_def dest: in_set_takeD split: if_splits prod.splits)

lemma prompt_loop_no_LF:
  "prompt_loop w k label sz buf st = Some (r, st') \<Longrightarrow>
     core st' = core st \<and> (no_line_feeds w \<longrightarrow> LF \<notin> set buf \<longrightarrow> (\<forall>t. r = Some t \<longrightarrow> LF \<notin> set t))"
proof (induction w k label sz buf st rule: prompt_loop.induct)
  case (2 w k label sz buf st)
  obtain u key v where u: "show_prompt w label buf st = Some u" "read_key w k u = Some (key, v)"
    using 2(2) by (auto simp: bind_eq_Some_conv)
  have c: "core v = core st" using core_show_prompt [OF u(1)] core_read_key [OF u(2)] by simp
  show ?case
  proof (cases "gives_up key \<or> key = Some (Byte CR) \<or> key = Some (Byte LF)")
    case True
    then show ?thesis using 2(2) u c by (auto simp: cstr_of_def dest: set_takeWhileD split: if_splits)
  next
    case False
    obtain b z where z: "(case key of Some (Byte c) \<Rightarrow> prompt_byte w sz c buf v | _ \<Rightarrow> (buf, v)) = (b, z)" by fastforce
    then have zz: "core z = core v \<and> (no_line_feeds w \<longrightarrow> LF \<notin> set buf \<longrightarrow> LF \<notin> set b)"
    proof (cases key)
      case (Some q)
      then show ?thesis using z prompt_byte_no_LF [of w sz _ buf v b z] by (cases q) auto
    qed (use z in auto)
    have g: "\<not> gives_up key" "\<not> (key = Some (Byte CR) \<or> key = Some (Byte LF))" using False by simp_all
    have p: "prompt_loop w k label sz b z = Some (r, st')" using 2(2) g u z by (auto simp: Let_def)
    have "core st' = core z \<and> (no_line_feeds w \<longrightarrow> LF \<notin> set b \<longrightarrow> (\<forall>t. r = Some t \<longrightarrow> LF \<notin> set t))"
      by (rule 2(1) [OF u(1) u(2) refl g refl z [symmetric] p])
    then have "core st' = core st" "no_line_feeds w \<longrightarrow> LF \<notin> set buf \<longrightarrow> (\<forall>t. r = Some t \<longrightarrow> LF \<notin> set t)"
      using zz c by (metis, blast)
    then show ?thesis by (rule conjI)
  qed
qed simp

lemma prompt_no_LF:
  "prompt w k label sz st = Some (r, st') \<Longrightarrow> core st' = core st \<and> (no_line_feeds w \<longrightarrow> (\<forall>t. r = Some t \<longrightarrow> LF \<notin> set t))"
  using prompt_loop_no_LF [of w k label sz "[]" st r st'] by (simp add: prompt_def)

lemma core_ask [quietD]: "ask w k msg st = Some (key, st') \<Longrightarrow> core st' = core st"
  by (auto simp: ask_def bind_eq_Some_conv quiet split: prod.splits dest!: quietD)

lemma core_path_writable [quietD]: "path_writable w p st = (r, st') \<Longrightarrow> core st' = core st"
  by (auto simp: path_writable_def Let_def quiet split: prod.splits if_splits dest!: quietD)

lemma core_write_all [quiet]: "core (snd (write_all w fd rest st)) = core st"
  by (induction w fd rest st rule: write_all.induct) (subst write_all.simps, auto dest: core_call split: prod.splits)

lemma core_write_lines [quietD]: "write_lines w fd ts st = (ok, st') \<Longrightarrow> core st' = core st"
proof (induction w fd ts st rule: write_lines.induct)
  case (2 w fd t ts st)
  obtain b u where u: "write_all w fd t st = (b, u)" by fastforce
  then have c: "core u = core st" using core_write_all [of w fd t st] by simp
  obtain r v where v: "ed_call w (Write fd [LF]) u = (r, v)" by fastforce
  show ?case using 2 u v c core_call [OF v] by (auto split: if_splits)
qed simp

lemma core_save_to [quietD]: "save_to w path st = Some (ok, st') \<Longrightarrow> core st' = core st"
  by (auto simp: save_to_def bind_eq_Some_conv Let_def quiet split: prod.splits if_splits dest!: quietD)

end
