(* ===== verification/EdMoves.thy ===== *)
theory EdMoves
  imports EdQuiet
begin

text \<open>
  Moves, searches, typing and what a replacement does to lines, as steps of the timeline.
\<close>

section \<open>Moves\<close>

lemma core_view: "core st = core st' \<Longrightarrow> view st = view st'" and core_mark: "core st = core st' \<Longrightarrow> mark st = mark st'"
  by (simp_all add: core_def)

lemma goes_core: "core st' = core st \<Longrightarrow> ed_ok st \<Longrightarrow> goes st st'"
  using goes_view core_view goes_refl by metis

lemma goes_moved:
  assumes "ed_ok st" "y < nlines st" "x \<le> length (text_at st y)" shows "goes st (st\<lparr>cy := y, cx := x\<rparr>)"
  using moved [OF assms] estep_same by (simp add: goes_def)

lemma cur_text_at: "cy st < nlines st \<Longrightarrow> text_at st (cy st) = cur_text st"
  by (simp add: text_at_def cur_text_def cur_line_def)

lemma goes_cx: "ed_ok st \<Longrightarrow> x \<le> length (cur_text st) \<Longrightarrow> goes st (st\<lparr>cx := x\<rparr>)"
  using goes_moved [of st "cy st" x] ed_okD(1) [of st] by (simp add: cur_text_at)

lemma goes_clamp:
  assumes "ed_ok st" shows "goes st (clamp_cx (st\<lparr>cy := y\<rparr>))"
proof -
  have "ed_ok (clamp_cx (st\<lparr>cy := y\<rparr>))"
    using clamp_in_text [of "st\<lparr>cy := y\<rparr>"] ed_okD(4) [OF assms] assms by (simp add: ed_ok_def hist_fits_def typing_ok_def)
  moreover have "timeline (clamp_cx (st\<lparr>cy := y\<rparr>)) = timeline st" by (simp add: timeline_def past_def)
  ultimately show ?thesis by (simp add: goes_def estep_same)
qed

lemma length_dropWhile2: "length (dropWhile P (dropWhile Q xs)) \<le> length xs"
  by (meson le_trans length_dropWhile_le)

lemma word_keys_step:
  assumes "ed_ok st" shows "goes st (word_left st)" "goes st (word_right st)"
proof -
  note d = ed_okD [OF assms]
  show "goes st (word_left st)"
    using goes_refl [OF assms] goes_moved [OF assms, of "cy st - 1"] d(1)
      goes_cx [OF assms, of "length (dropWhile is_word (dropWhile (\<lambda>c. \<not> is_word c) (rev (take (cx st) (cur_text st)))))"]
      le_trans [OF length_dropWhile2, of "rev (take (cx st) (cur_text st))" "length (cur_text st)"]
    by (auto simp: word_left_def)
  show "goes st (word_right st)"
    using goes_refl [OF assms] goes_moved [OF assms, of "cy st + 1" 0] goes_cx [OF assms, of "length (cur_text st) - n" for n]
    by (auto simp: word_right_def Let_def)
qed

lemma move_key_step:
  assumes "ed_ok st" shows "goes st (move_key key st)"
proof -
  note d = ed_okD [OF assms]
  have r: "utf8_prev (cur_text st) (cx st) \<le> length (cur_text st)" using utf8_prev_le d(2) le_trans by blast
  have n: "cx st < length (cur_text st) \<Longrightarrow> utf8_next (cur_text st) (length (cur_text st)) (cx st) \<le> length (cur_text st)"
    using utf8_next_bounds by blast
  show ?thesis
    using goes_refl [OF assms] goes_clamp [OF assms] word_keys_step [OF assms] goes_moved [OF assms] goes_cx [OF assms] r n d(1,4)
    by (cases key) (auto simp: move_key_def Let_def)
qed

lemma mark_word [simp]: "mark (word_left st) = mark st" "mark (word_right st) = mark st"
  by (simp_all add: word_left_def word_right_def Let_def)

lemma move_key_keeps: "mark (move_key key st) = mark st" "lines (move_key key st) = lines st"
  by (cases key; simp add: move_key_def Let_def word_left_def word_right_def)+

section \<open>Search\<close>

lemma find_back_Some:
  assumes "find_back hay pat before = Some i"
  shows "pat \<noteq> []" "int i \<le> before" "i + length pat \<le> length hay" "occurs_at pat hay i"
  using assms by (auto simp: find_back_def find_Some_iff rev_nth split: if_splits)

lemma first_some_Some: "first_some f xs = Some b \<Longrightarrow> \<exists>a \<in> set xs. f a = Some b"
  by (induction f xs rule: first_some.induct) (auto split: option.splits)

lemma search_step_in_text:
  assumes "search_step pat fwd st s = Some (y, at)" "0 < nlines st"
  shows "y < nlines st \<and> at + length pat \<le> length (text_at st y) \<and> occurs_at pat (text_at st y) at"
proof -
  have "nat (x mod int (nlines st)) < nlines st" for x using assms(2) by (simp add: nat_less_iff)
  then show ?thesis using assms(1) find_fwd_Some(3,4) find_back_Some(3,4)
    by (auto simp: search_step_def Let_def split: if_splits)
qed

lemma search_goes:
  assumes "ed_ok st" "search pat fwd st = (found, st')" shows "goes st st' \<and> mark st' = mark st \<and> lines st' = lines st"
proof (cases "first_some (search_step pat fwd st) [0..<nlines st + 1]")
  case None
  then show ?thesis using assms goes_refl by (auto simp: search_def split: if_splits)
next
  case (Some r)
  obtain y at where r: "r = (y, at)" by fastforce
  obtain s where "search_step pat fwd st s = Some (y, at)" using first_some_Some [OF Some] r by auto
  from search_step_in_text [OF this ed_okD(4) [OF assms(1)]] have "y < nlines st" "at \<le> length (text_at st y)" by linarith+
  from goes_moved [OF assms(1) this] have "goes st (st\<lparr>cy := y, cx := at, dirty := DIRTY_ALL\<rparr>)"
    using goes_view [of "st\<lparr>cy := y, cx := at, dirty := DIRTY_ALL\<rparr>" "st\<lparr>cy := y, cx := at\<rparr>"] by (simp add: view_def)
  then show ?thesis using assms Some r goes_refl by (auto simp: search_def split: if_splits)
qed

lemma goes_trans_core: "core st = core st1 \<Longrightarrow> goes st st2 = goes st1 st2" "core st = core st1 \<Longrightarrow> goes st0 st = goes st0 st1"
  using goes_from_view [OF core_view] goes_view [OF core_view] by blast+

text \<open>What a key may do to the state, apart from the text: the lines and the mark are as before.\<close>

definition still :: "edit \<Rightarrow> edit \<Rightarrow> bool" where
  "still st st' \<longleftrightarrow> goes st st' \<and> mark st' = mark st \<and> lines st' = lines st"

lemma still_core: "core st' = core st \<Longrightarrow> ed_ok st \<Longrightarrow> still st st'"
  using goes_core [of st' st] by (simp add: still_def core_def view_def)

lemma core_fields: "core st = core st1 \<Longrightarrow> mark st = mark st1 \<and> lines st = lines st1"
  by (simp add: core_def view_def)

lemma still_trans_core: "core st = core st1 \<Longrightarrow> still st st2 \<Longrightarrow> still st1 st2" "core st2 = core st1 \<Longrightarrow> still st0 st1 \<Longrightarrow> still st0 st2"
  using goes_trans_core(1) [of st st1 st2] goes_trans_core(2) [of st2 st1 st0] core_fields [of st st1] core_fields [of st2 st1]
  unfolding still_def by metis+

lemma search_for_still:
  assumes "ed_ok st" "search_for pat fwd st = Some st'" shows "still st st'"
proof -
  obtain b u where u: "search pat fwd st = (b, u)" by fastforce
  have "still st u" using search_goes [OF assms(1) u] by (simp add: still_def)
  moreover have "core st' = core u" using assms(2) u by (auto simp: search_for_def split: if_splits dest: core_status_fmt)
  ultimately show ?thesis using still_trans_core(2) by blast
qed

lemma ed_ok_core: "core st = core st' \<Longrightarrow> ed_ok st = ed_ok st'"
  using ed_ok_view core_view by blast

lemma search_prompt_still:
  assumes "ed_ok st" "search_prompt w k fwd st = Some st'" shows "still st st'"
proof -
  obtain r u where u: "prompt w k (if fwd then cs ''search: '' else cs ''search back: '') PAT_MAX st = Some (r, u)"
    using assms(2) by (auto simp: search_prompt_def bind_eq_Some_conv)
  have c: "core u = core st" using prompt_no_LF [OF u] by simp
  have "still u v" if "search_for q fwd (u\<lparr>last_pat := p, last_fwd := fwd\<rparr>) = Some v" for p q v
  proof -
    have e: "core (u\<lparr>last_pat := p, last_fwd := fwd\<rparr>) = core u" by (simp add: quiet)
    have "ed_ok (u\<lparr>last_pat := p, last_fwd := fwd\<rparr>)" using ed_ok_core [OF e] ed_ok_core [OF c] assms(1) by simp
    from still_trans_core(1) [OF e search_for_still [OF this that]] show ?thesis .
  qed
  moreover have "still u u" using still_core [of u u] ed_ok_core [OF c] assms(1) by simp
  ultimately have "still u st'" using assms(2) u
    by (auto simp: search_prompt_def Let_def split: option.splits if_splits)
  then show ?thesis using still_trans_core(1) [OF c] by simp
qed

lemma search_again_still:
  assumes "ed_ok st" "search_again st = Some st'" shows "still st st'"
  using assms search_for_still still_core [of "set_status t st" st for t]
  by (auto simp: search_again_def quiet split: if_splits)

lemma goto_line_still:
  assumes "ed_ok st" "goto_line w k st = Some st'" shows "still st st'"
proof -
  obtain r u where u: "prompt w k (cs ''go to line: '') 32 st = Some (r, u)"
    using assms(2) by (auto simp: goto_line_def bind_eq_Some_conv)
  have c: "core u = core st" using prompt_no_LF [OF u] by simp
  have ok: "ed_ok u" using ed_ok_core [OF c] assms(1) by simp
  have "still u (u\<lparr>cy := y, cx := 0, dirty := DIRTY_ALL\<rparr>)" if "y < nlines u" for y
    using goes_moved [OF ok that, of 0] still_trans_core(2) [of "u\<lparr>cy := y, cx := 0, dirty := DIRTY_ALL\<rparr>" "u\<lparr>cy := y, cx := 0\<rparr>" u]
    by (simp add: still_def core_def view_def mark_def)
  note go = this
  have here: "still u u" using still_core [of u u] ok by simp
  have "still u st'"
  proof (cases "r = None \<or> r = Some []")
    case True
    then show ?thesis using assms(2) u here by (auto simp: goto_line_def)
  next
    case False
    then obtain buf v where v: "r = Some buf" "buf \<noteq> []" "atoi buf = Some v"
      using assms(2) u by (cases r) (auto simp: goto_line_def bind_eq_Some_conv split: if_splits)
    let ?n = "if v < 1 then 1 else v" let ?m = "if ?n > int (nlines u) then int (nlines u) else ?n"
    have "st' = u\<lparr>cy := nat (?m - 1), cx := 0, dirty := DIRTY_ALL\<rparr>" using assms(2) u v by (simp add: goto_line_def Let_def)
    moreover have "nat (?m - 1) < nlines u" using ed_okD(4) [OF ok] by auto
    ultimately show ?thesis using go by simp
  qed
  then show ?thesis using still_trans_core(1) [OF c] by simp
qed

section \<open>Typing\<close>

lemma typed_goes: "typed st r u \<Longrightarrow> \<forall>u. typed st r u \<longrightarrow> goes st u \<Longrightarrow> goes st u \<and> mark u = mark st"
  by (simp add: typed_def)

lemma typed_core: "core u' = core u \<Longrightarrow> clipboard u' = clipboard u \<Longrightarrow> typed st r u \<Longrightarrow> typed st r u'"
  by (simp add: core_def view_def typed_def texts_def)

lemma clipboard_read_one: "read_one w u = (c, u') \<Longrightarrow> clipboard u' = clipboard u"
  by (auto simp: read_one_def ed_call_def)

lemma insert_rest_typed:
  assumes "roomy w" "no_line_feeds w" "ed_ok st"
  shows "typed st r u \<Longrightarrow> \<exists>u'. insert_rest w n u = Some u' \<and> typed st r u'"
proof (induction n arbitrary: u)
  case (Suc n)
  obtain c v where v: "read_one w u = (c, v)" by fastforce
  have t: "typed st r v" using typed_core [OF core_read_one [OF v] clipboard_read_one [OF v]] Suc.prems .
  show ?case
  proof (cases c)
    case None
    then show ?thesis using v t by simp
  next
    case (Some b)
    obtain z where "insert_char w b v = Some z" "typed st r z"
      using insert_char_typed [OF assms(1,3) t] read_one_no_LF [OF assms(2)] v Some by blast
    with Suc.IH show ?thesis using v Some by auto
  qed
qed simp

text \<open>A character, after the selection was dropped.\<close>

definition type_here :: "world \<Rightarrow> u8 \<Rightarrow> nat \<Rightarrow> edit \<Rightarrow> edit option" where
  "type_here w c n st = do { st \<leftarrow> record_typing w st; st \<leftarrow> insert_char w c st; insert_rest w n st }"

lemma type_here_step:
  assumes "roomy w" "no_line_feeds w" "ed_ok st" "c \<noteq> LF"
  shows "\<exists>st'. type_here w c n st = Some st' \<and> goes st st' \<and> mark st' = mark st"
proof -
  obtain r where r: "record_typing w st = Some r" "typed st r r" "\<forall>u. typed st r u \<longrightarrow> goes st u"
    using typed_start [OF assms(1,3)] by blast
  obtain u where u: "insert_char w c r = Some u" "typed st r u" using insert_char_typed [OF assms(1,3) r(2) assms(4)] by blast
  obtain v where "insert_rest w n u = Some v" "typed st r v" using insert_rest_typed [OF assms(1-3) u(2)] by blast
  then show ?thesis using r u typed_goes by (auto simp: type_here_def)
qed

lemma type_key_here: "type_key w c st = Option.bind (drop_selection w st) (type_here w c 0)"
  by (cases "drop_selection w st") (auto simp: type_key_def type_here_def bind_eq_None_conv intro!: option.expand)

lemma type_char_here: "type_char w c st = Option.bind (drop_selection w st) (type_here w c (utf8_seq_len c - 1))"
  by (cases "drop_selection w st") (auto simp: type_char_def type_key_def type_here_def)

section \<open>Replacement\<close>

text \<open>The state in the middle of a replacement: the cursor may be anywhere in its line.\<close>

definition mid_ok :: "edit \<Rightarrow> bool" where
  "mid_ok st \<longleftrightarrow> base_ok st \<and> typing_ok st \<and> cy st < nlines st"

definition runs :: "edit \<Rightarrow> edit \<Rightarrow> bool" where
  "runs st st' \<longleftrightarrow> tstep\<^sup>*\<^sup>* (timeline st) (timeline st')"

lemma runs_refl: "timeline st = timeline st' \<Longrightarrow> runs st st'" by (simp add: runs_def)
lemma runs_trans: "runs st st' \<Longrightarrow> runs st' st'' \<Longrightarrow> runs st st''" unfolding runs_def by (rule rtranclp_trans)
lemma runs_step: "tstep (timeline st) (timeline st') \<Longrightarrow> runs st st'" unfolding runs_def by blast
lemma goes_runs: "goes st st' \<Longrightarrow> runs st st'" unfolding goes_def by (blast intro: runs_step tstep.work)
lemma runs_estep: "estep b (timeline st) (timeline st') \<Longrightarrow> runs st st'" by (blast intro: runs_step tstep.work)

lemma ed_ok_mid: "ed_ok st \<Longrightarrow> mid_ok st"
  by (simp add: mid_ok_def ed_ok_def base_ok_def)

lemma mid_ok_clamp: "mid_ok st \<Longrightarrow> ed_ok (clamp_cx st)"
  using clamp_in_text [of st] by (auto simp: mid_ok_def base_ok_def ed_ok_def hist_fits_def typing_ok_def)

lemma mid_ok_core: "core st = core st' \<Longrightarrow> mid_ok st = mid_ok st'"
  by (simp add: core_def view_def mid_ok_def base_ok_def texts_def nlines_def hist_ok_def hist_fits_def typing_ok_def hist_def)

lemma timeline_core: "core st = core st' \<Longrightarrow> timeline st = timeline st'"
  using timeline_view core_view by blast

lemma mid_ok_moved: "mid_ok st \<Longrightarrow> y < nlines st \<Longrightarrow> mid_ok (st\<lparr>cy := y, cx := x\<rparr>)"
  by (simp add: mid_ok_def typing_ok_def)

lemma text_split:
  assumes "length u = length t" "at + n \<le> length t" "\<And>j. j < length t \<Longrightarrow> j < at \<or> at + n \<le> j \<Longrightarrow> u ! j = t ! j"
  shows "u = take at t @ take n (drop at u) @ drop (at + n) t"
  using assms by (intro nth_equalityI) (auto simp: nth_append)

text \<open>A record of \<open>n\<close> lines, which are then changed where they stand.\<close>

lemma changed_in_place:
  assumes "roomy w" "base_ok st" "record_change w at n n st = Some r"
    and u: "stacks u = stacks r" "hist_bytes u = hist_bytes r" "typing_line u = None" "nlines u = nlines st" "plain (texts u)"
      "\<And>j. j < nlines st \<Longrightarrow> j < at \<or> at + n \<le> j \<Longrightarrow> texts u ! j = texts st ! j"
  shows "base_ok u \<and> typing_ok u \<and> estep False (timeline st) (timeline u)"
proof -
  have b: "hist_ok st" "hist_fits st" "text_ok (texts st)" using assms(2) by (simp_all add: base_ok_def)
  note rs = record_change_step [OF assms(1) b assms(3)]
  have h: "hist s u = hist s r" for s using u(1) by (simp add: hist_def)
  have at: "at + n \<le> nlines st" using rs by simp
  have t: "texts u = take at (texts st) @ take n (drop at (texts u)) @ drop (at + n) (texts st)"
    using u(4,6) at by (intro text_split) simp_all
  have l: "length (take n (drop at (texts u))) = n" using u(4) at by simp
  have p: "pushed (undoing at n n (texts st) (cy st) (cx st)) st u"
    using record_change_pushed [OF assms(1) b assms(3)] h by (simp add: pushed_def)
  from pushed_step [OF p b(2,3) at l t] have "hist_fits u \<and> estep False (timeline st) (timeline u)" .
  moreover have "hist_ok u" using rs u(1,2) h by (simp add: hist_ok_def)
  moreover have "text_ok (texts u)" using b(3) u(4,5) by (simp add: text_ok_def)
  ultimately show ?thesis using u(3) by (simp add: base_ok_def typing_ok_def)
qed

lemma replaced_at_no_LF: "LF \<notin> set t \<Longrightarrow> LF \<notin> set rep \<Longrightarrow> LF \<notin> set (replaced_at t at pat rep)"
  by (auto simp: replaced_at_def dest: in_set_takeD in_set_dropD)

lemma line_replace_no_LF:
  "line_replace w pat rep frm l = (n, l') \<Longrightarrow> LF \<notin> set (ltext l) \<Longrightarrow> LF \<notin> set rep \<Longrightarrow> LF \<notin> set (ltext l')"
proof (induction w pat rep frm l arbitrary: n l' rule: line_replace.induct)
  case (1 w pat rep frm l)
  show ?case
  proof (cases "find_fwd (ltext l) pat frm")
    case None
    then show ?thesis using 1(2,3) by (simp add: line_replace.simps [of w pat rep frm l])
  next
    case (Some at)
    show ?thesis
    proof (cases "line_reserve w (length (ltext l) - length pat + length rep) l")
      case None
      then show ?thesis using Some 1(2,3) by (simp add: line_replace.simps [of w pat rep frm l])
    next
      case (Some m)
      let ?l = "\<lparr>ltext = replaced_at (ltext l) at pat rep, lcap = lcap m\<rparr>"
      obtain k z where z: "line_replace w pat rep (at + length rep) ?l = (k, z)" by fastforce
      then have "l' = z" using 1(2) \<open>find_fwd (ltext l) pat frm = Some at\<close> Some by (simp add: line_replace.simps [of w pat rep frm l])
      moreover have "LF \<notin> set (ltext ?l)" using replaced_at_no_LF [OF 1(3,4)] by simp
      ultimately show ?thesis using 1(1) [OF \<open>find_fwd (ltext l) pat frm = Some at\<close> Some z] 1(4) by simp
    qed
  qed
qed

lemma replace_lines_keeps:
  "replace_lines w pat rep is st = (n, st') \<Longrightarrow> set is \<subseteq> {..<nlines st} \<Longrightarrow> LF \<notin> set rep \<Longrightarrow> plain (texts st) \<Longrightarrow>
     (\<exists>ls. st' = st\<lparr>lines := ls\<rparr>) \<and> nlines st' = nlines st \<and> plain (texts st') \<and> (\<forall>j. j \<notin> set is \<longrightarrow> lines st' ! j = lines st ! j)"
proof (induction w pat rep "is" st arbitrary: n rule: replace_lines.induct)
  case (1 w pat rep st)
  then show ?case by (simp add: exI [of _ "lines st"])
next
  case (2 w pat rep i "is" st)
  obtain m l where l: "line_replace w pat rep (if i = cy st then cx st else 0) (lines st ! i) = (m, l)" by fastforce
  let ?u = "st\<lparr>lines := (lines st)[i := l]\<rparr>"
  obtain q v where v: "replace_lines w pat rep is ?u = (q, v)" by fastforce
  have st': "st' = v" using 2(2) l v by simp
  have i: "i < nlines st" using 2(3) by simp
  have "texts st ! i \<in> set (texts st)" using i by (intro nth_mem) simp
  then have "LF \<notin> set (ltext (lines st ! i))" using 2(5) i by (auto simp: plain_def texts_def nlines_def)
  then have "LF \<notin> set (ltext l)" using line_replace_no_LF [OF l] 2(4) by simp
  then have "plain (texts ?u)" using 2(5) set_update_subset_insert [of "texts st" i "ltext l"]
    by (auto simp: plain_def texts_def map_update)
  moreover have "nlines ?u = nlines st" by (simp add: nlines_def)
  moreover have "replace_lines w pat rep is ?u = (q, st')" using v st' by simp
  ultimately have "(\<exists>ls. st' = ?u\<lparr>lines := ls\<rparr>) \<and> nlines st' = nlines ?u \<and> plain (texts st') \<and> (\<forall>j. j \<notin> set is \<longrightarrow> lines st' ! j = lines ?u ! j)"
    using 2(1) [OF l [symmetric] refl] 2(3,4) by auto
  then show ?case using \<open>nlines ?u = nlines st\<close> by auto
qed

end
