(* ===== verification/EdPress.thy ===== *)
theory EdPress
  imports EdMoves
begin

text \<open>
  Every key of the editor as a step, or steps, of the timeline.
\<close>

section \<open>Replacement\<close>

lemma texts_put_line: "cy st < nlines st \<Longrightarrow> ltext m = ltext (lines st ! cy st) \<Longrightarrow> texts (put_line m st) = texts st"
  by (simp add: texts_def put_line_def map_update) (metis length_map list_update_id nlines_def nth_map)

lemma reserve_text: "line_reserve w n l = Some m \<Longrightarrow> ltext m = ltext l"
  by (auto simp: line_reserve_def Let_def split: if_splits)

lemma replace_one_step:
  assumes "roomy w" "mid_ok st" "LF \<notin> set rep" "replace_one w pat rep st = Some (ok, st')"
  shows "mid_ok st' \<and> runs st st' \<and> mark st' = mark st"
proof -
  let ?l = "cur_line st" let ?y = "cy st"
  have y: "?y < nlines st" and b: "base_ok st" using assms(2) by (simp_all add: mid_ok_def)
  have l: "?l = lines st ! ?y" using y by (simp add: cur_line_def)
  obtain c where c: "line_reserve w (length (ltext ?l) - length pat + length rep) ?l = Some (?l\<lparr>lcap := c\<rparr>)"
    using reserve_roomy [OF assms(1)] by blast
  let ?m = "?l\<lparr>lcap := c\<rparr>" let ?s = "put_line ?m st"
  have tx: "texts ?s = texts st" using texts_put_line [OF y, of ?m] l by simp
  have hs: "hist z ?s = hist z st" "hist_ok ?s = hist_ok st" for z by (simp_all add: put_line_def hist_def hist_ok_def)
  have bs: "base_ok ?s" using b tx hs by (simp add: base_ok_def hist_fits_def)
  have tl: "timeline ?s = timeline st" using tx hs by (simp add: timeline_def past_def)
  have cs: "cy ?s = ?y" "cx ?s = cx st" by (simp_all add: put_line_def)
  have "?y + 1 \<le> nlines ?s" using y by (simp add: put_line_def nlines_def)
  then obtain r where r: "record_change w ?y 1 1 ?s = Some r" using record_change_roomy [OF assms(1)] by blast
  have bb: "hist_ok ?s" "hist_fits ?s" "text_ok (texts ?s)" using bs by (simp_all add: base_ok_def)
  note rs = record_change_step [OF assms(1) bb r]
  let ?v = "replaced_at (ltext ?l) (cx st) pat rep"
  have st': "st' = (put_line (?m\<lparr>ltext := ?v\<rparr>) r)\<lparr>cx := cx r + length rep, modified := True\<rparr>"
    using assms(4) rs cs by (simp only: replace_one_def Let_def c option.case r bind.bind_lunit option.inject prod.inject)
  have cr: "cy r = ?y" using rs by (simp add: put_line_def)
  have "texts st' = (texts st)[?y := ?v]" using st' cr rs tx
    by (simp add: texts_def put_line_def map_update)
  moreover have "LF \<notin> set (ltext ?l)" using b y plain_nth [of "texts st" ?y] l by (simp add: base_ok_def text_ok_def texts_def nlines_def)
  then have "LF \<notin> set ?v" using replaced_at_no_LF assms(3) by blast
  ultimately have p: "plain (texts st')" "nlines st' = nlines ?s" "\<And>j. j < nlines ?s \<Longrightarrow> j < ?y \<or> ?y + 1 \<le> j \<Longrightarrow> texts st' ! j = texts ?s ! j"
    using b tx set_update_subset_insert [of "texts st" ?y ?v] arg_cong [of _ _ length]
    by (auto simp: plain_def base_ok_def text_ok_def nlines_texts simp del: length_texts)
  have "base_ok st' \<and> typing_ok st' \<and> estep False (timeline ?s) (timeline st')"
    using st' rs p by (intro changed_in_place [OF assms(1) bs r]) (auto simp: put_line_def)
  moreover have "cy st' < nlines st'" using st' cr p(2) y tx by (simp add: put_line_def nlines_def)
  moreover have "mark st' = mark st" using st' rs by (simp add: put_line_def mark_def)
  ultimately show ?thesis using tl runs_estep [of False st st'] by (simp add: mid_ok_def)
qed

lemma replace_rest_step:
  assumes "roomy w" "mid_ok st" "LF \<notin> set rep" "replace_rest w pat rep st = Some (n, st')"
  shows "mid_ok st' \<and> runs st st' \<and> mark st' = mark st"
proof -
  define hits where "hits = filter (\<lambda>i. find_fwd (text_at st i) pat (if i = cy st then cx st else 0) \<noteq> None) [cy st..<nlines st]"
  have y: "cy st < nlines st" and b: "base_ok st" using assms(2) by (simp_all add: mid_ok_def)
  have def_hits: "replace_rest w pat rep st = (if hits = [] then Some (0, st)
      else Option.bind (record_change w (hd hits) (last hits - hd hits + 1) (last hits - hd hits + 1) st) (\<lambda>st.
        case replace_lines w pat rep [hd hits..<last hits + 1] st of (done_n, st) \<Rightarrow> Some (done_n, changed DIRTY_ALL st)))"
    unfolding replace_rest_def Let_def hits_def by (rule refl)
  show ?thesis
  proof (cases "hits = []")
    case True
    then show ?thesis using assms(2,4) by (simp add: def_hits runs_refl)
  next
    case False
    let ?n = "last hits - hd hits + 1"
    have in_text: "hd hits < nlines st" "last hits < nlines st"
      using hd_in_set [OF False] last_in_set [OF False] by (auto simp: hits_def)
    have "hd hits + ?n \<le> nlines st" using in_text by linarith
    then obtain r where r: "record_change w (hd hits) ?n ?n st = Some r" using record_change_roomy [OF assms(1)] by blast
    obtain q v where v: "replace_lines w pat rep [hd hits..<last hits + 1] r = (q, v)" by (metis prod.exhaust)
    have st': "st' = changed DIRTY_ALL v"
      using assms(4) False unfolding def_hits r bind.bind_lunit v by simp
    have bb: "hist_ok st" "hist_fits st" "text_ok (texts st)" using b by (simp_all add: base_ok_def)
    note rs = record_change_step [OF assms(1) bb r]
    have nr: "nlines r = nlines st" "texts r = texts st" using rs by (simp_all add: nlines_def texts_def)
    have k: "(\<exists>ls. v = r\<lparr>lines := ls\<rparr>) \<and> nlines v = nlines r \<and> plain (texts v) \<and> (\<forall>j. j \<notin> set [hd hits..<last hits + 1] \<longrightarrow> lines v ! j = lines r ! j)"
    proof (rule replace_lines_keeps [OF v _ assms(3)])
      show "set [hd hits..<last hits + 1] \<subseteq> {..<nlines r}" using in_text nr by auto
      show "plain (texts r)" using bb(3) nr by (simp add: text_ok_def)
    qed
    then obtain ls where ls: "v = r\<lparr>lines := ls\<rparr>" by blast
    have "base_ok v \<and> typing_ok v \<and> estep False (timeline st) (timeline v)"
    proof (rule changed_in_place [OF assms(1) b r])
      fix j assume "j < nlines st" "j < hd hits \<or> hd hits + ?n \<le> j"
      then have "j \<notin> set [hd hits..<last hits + 1]" "j < nlines v" using k nr(1) by auto
      then have "lines v ! j = lines r ! j" "j < length (lines v)" "j < length (lines st)"
        using k \<open>j < nlines st\<close> by (simp_all add: nlines_def)
      then show "texts v ! j = texts st ! j" using rs by (simp add: texts_def)
    qed (use ls rs k nr in auto)
    moreover have "cy v < nlines v" "mark v = mark st" using ls rs k nr y by simp_all
    moreover have "core st' = core v" using st' by (simp add: quiet)
    ultimately show ?thesis using mid_ok_core timeline_core core_mark runs_estep [of False st st'] by (metis mid_ok_def)
  qed
qed

lemma replace_loop_step:
  assumes "roomy w" "LF \<notin> set rep"
  shows "mid_ok st \<Longrightarrow> replace_loop w k pat rep d st = Some (n, st') \<Longrightarrow> mid_ok st' \<and> runs st st' \<and> mark st' = mark st"
proof (induction k arbitrary: d st n st')
  case (Suc k)
  have moved: "mid_ok (st\<lparr>cy := y, cx := x\<rparr>)" "timeline (st\<lparr>cy := y, cx := x\<rparr>) = timeline st" "mark (st\<lparr>cy := y, cx := x\<rparr>) = mark st"
    if "y < nlines st" "mid_ok st" for y x st
    using mid_ok_moved [OF that(2,1)] by (simp_all add: mark_def)
  show ?case
  proof (cases "find_fwd (cur_text st) pat (cx st)")
    case None
    show ?thesis
    proof (cases "find (\<lambda>i. find_fwd (text_at st i) pat 0 \<noteq> None) [cy st + 1..<nlines st]")
      case F: None
      then show ?thesis using Suc.prems None by (simp add: runs_refl)
    next
      case (Some i)
      then have "i < nlines st" by (auto simp: find_Some_iff)
      note m = moved [OF this Suc.prems(1), of 0]
      have "replace_loop w k pat rep d (st\<lparr>cy := i, cx := 0\<rparr>) = Some (n, st')" using Suc.prems(2) None Some by simp
      from Suc.IH [OF m(1) this] m show ?thesis using runs_trans [OF runs_refl] by metis
    qed
  next
    case (Some at)
    obtain u key v where u: "refresh w (st\<lparr>cx := at, dirty := DIRTY_ALL\<rparr>) = Some u"
        and v: "ask w k (cs ''replace this one?  y  n  a=all the rest  q=stop '') u = Some (key, v)"
        and rest: "(if key = Byte 113 \<or> gives_up (Some key) then Some (d, v)
          else if key = Byte 97 then map_option (\<lambda>(n, st). (d + n, st)) (replace_rest w pat rep v)
          else if key = Byte 121 then do {
            (ok, st) \<leftarrow> replace_one w pat rep v;
            if ok then replace_loop w k pat rep (d + 1) st else Some (d, st)
          }
          else replace_loop w k pat rep d (v\<lparr>cx := at + 1\<rparr>)) = Some (n, st')"
      using Suc.prems(2) Some by (auto simp: bind_eq_Some_conv)
    have cv: "core v = core (st\<lparr>cx := at\<rparr>)" using core_refresh [OF u] core_ask [OF v] by (simp add: quiet)
    have y: "cy st < nlines st" using Suc.prems(1) by (simp add: mid_ok_def)
    have v_ok: "mid_ok v" "timeline v = timeline st" "mark v = mark st"
      using moved [OF y Suc.prems(1), of at] mid_ok_core [OF cv] timeline_core [OF cv] core_mark [OF cv] by simp_all
    then have sv: "runs st v" by (simp add: runs_refl)
    have "mid_ok st' \<and> runs v st' \<and> mark st' = mark v"
    proof (cases "key = Byte 113 \<or> gives_up (Some key)")
      case True
      then show ?thesis using rest v_ok by (simp add: runs_refl)
    next
      case go: False
      show ?thesis
      proof (cases "key = Byte 97")
        case True
        then obtain m where "replace_rest w pat rep v = Some (m, st')" using rest go by auto
        then show ?thesis by (rule replace_rest_step [OF assms(1) v_ok(1) assms(2)])
      next
        case na: False
        show ?thesis
        proof (cases "key = Byte 121")
          case True
          then obtain ok z where z: "replace_one w pat rep v = Some (ok, z)"
              "(if ok then replace_loop w k pat rep (d + 1) z else Some (d, z)) = Some (n, st')"
            using rest go na by (auto simp: bind_eq_Some_conv)
          note s = replace_one_step [OF assms(1) v_ok(1) assms(2) z(1)]
          show ?thesis
          proof (cases ok)
            case True
            then have "mid_ok st' \<and> runs z st' \<and> mark st' = mark z" using Suc.IH z(2) s by auto
            then show ?thesis using s runs_trans by metis
          qed (use z(2) s in auto)
        next
          case False
          have yv: "cy v < nlines v" using v_ok(1) by (simp add: mid_ok_def)
          note m = moved [OF yv v_ok(1), of "at + 1"]
          have "replace_loop w k pat rep d (v\<lparr>cy := cy v, cx := at + 1\<rparr>) = Some (n, st')" using rest go na False by simp
          from Suc.IH [OF m(1) this] m show ?thesis using runs_trans [OF runs_refl] by metis
        qed
      qed
    qed
    then show ?thesis using sv v_ok(3) runs_trans by metis
  qed
qed simp

lemma timeline_clamp [simp]: "timeline (clamp_cx st) = timeline st"
  by (simp add: timeline_def past_def)

lemma replace_prompt_step:
  assumes "roomy w" "no_line_feeds w" "ed_ok st" "replace_prompt w k st = Some st'"
  shows "ed_ok st' \<and> runs st st'"
proof -
  have core_ok: "ed_ok u \<and> runs st u" if "core u = core st" for u
    using ed_ok_core [OF that] timeline_core [OF that] assms(3) by (simp add: runs_refl)
  obtain ok u where u: "may_edit st = (ok, u)" by fastforce
  then have cu: "core u = core st" by (auto simp: may_edit_def quiet split: if_splits)
  show ?thesis
  proof (cases ok)
    case False
    then show ?thesis using assms(4) u core_ok [OF cu] by (simp add: replace_prompt_def)
  next
    case True
    then obtain r v where v: "prompt w k (cs ''replace: '') PAT_MAX u = Some (r, v)"
      using assms(4) u by (auto simp: replace_prompt_def bind_eq_Some_conv)
    have cv: "core v = core st" using prompt_no_LF [OF v] cu by simp
    show ?thesis
    proof (cases "r = None \<or> r = Some []")
      case F: True
      then show ?thesis using assms(4) u v True core_ok [OF cv] by (auto simp: replace_prompt_def)
    next
      case False
      then obtain pat where pat: "r = Some pat" "pat \<noteq> []" by auto
      obtain q z where z: "prompt w k (cs ''with: '') PAT_MAX v = Some (q, z)"
        using assms(4) u v True pat by (auto simp: replace_prompt_def bind_eq_Some_conv)
      have cz: "core z = core st" using prompt_no_LF [OF z] cv by simp
      show ?thesis
      proof (cases q)
        case None
        then show ?thesis using assms(4) u v z True pat core_ok [OF cz] by (simp add: replace_prompt_def)
      next
        case (Some rep)
        have rep: "LF \<notin> set rep" using prompt_no_LF [OF z] assms(2) Some by simp
        let ?s = "z\<lparr>last_pat := clip PAT_MAX pat, last_rep := clip PAT_MAX rep\<rparr>"
        obtain n a b where a: "replace_loop w k pat rep 0 (?s\<lparr>cy := 0, cx := 0\<rparr>) = Some (n, a)"
            and b: "status_fmt 160 (cs ''%d replaced%s'')
              [anum (int n), astr (if n > 0 \<and> count (stacks a Undo) = 0 then cs '' - too big to undo'' else [])] a = Some b"
            and st': "st' = (clamp_cx b)\<lparr>dirty := DIRTY_ALL\<rparr>"
          using assms(4) u v z True pat Some by (auto simp: replace_prompt_def bind_eq_Some_conv)
        have cs: "core ?s = core st" using cz by (simp add: quiet)
        have so: "ed_ok ?s" "timeline ?s = timeline st" using ed_ok_core [OF cs] timeline_core [OF cs] assms(3) by simp_all
        have "mid_ok (?s\<lparr>cy := 0, cx := 0\<rparr>)" using mid_ok_moved [OF ed_ok_mid [OF so(1)] ed_okD(4) [OF so(1)]] .
        from replace_loop_step [OF assms(1) rep this a] have ra: "mid_ok a" "runs (?s\<lparr>cy := 0, cx := 0\<rparr>) a" by simp_all
        have rs: "runs st a" using ra(2) so(2) by (simp add: runs_def)
        have cb: "core b = core a" using core_status_fmt [OF b] .
        have "ed_ok (clamp_cx b)" using mid_ok_core [OF cb] ra(1) by (intro mid_ok_clamp) simp
        moreover have "timeline (clamp_cx b) = timeline a" using timeline_core [OF cb] by simp
        moreover have "core st' = core (clamp_cx b)" using st' by (simp add: quiet)
        ultimately show ?thesis using rs ed_ok_core timeline_core by (metis runs_def)
      qed
    qed
  qed
qed

section \<open>The switch\<close>

definition fine :: "bool \<Rightarrow> edit \<Rightarrow> edit \<Rightarrow> bool" where
  "fine single st st' \<longleftrightarrow> ed_ok st' \<and> runs st st' \<and> (single \<longrightarrow> goes st st')"

lemma fine_goes: "goes st st' \<Longrightarrow> fine s st st'"
  using goes_runs by (simp add: fine_def goes_def)

lemma fine_still: "still st st' \<Longrightarrow> fine s st st'"
  using fine_goes by (simp add: still_def)

lemma fine_core: "core st' = core st \<Longrightarrow> ed_ok st \<Longrightarrow> fine s st st'"
  using fine_goes goes_core by blast

lemma fine_after_core: "core st1 = core st \<Longrightarrow> fine s st1 st' \<Longrightarrow> fine s st st'"
  using goes_trans_core(1) [of st1 st] timeline_core [of st1 st] unfolding fine_def runs_def by metis

lemma fine_before_core: "core st' = core st1 \<Longrightarrow> fine s st st1 \<Longrightarrow> fine s st st'"
  using goes_trans_core(2) [of st' st1] timeline_core [of st' st1] ed_ok_core [of st' st1] unfolding fine_def runs_def by metis

lemma fine_two: "goes st st1 \<Longrightarrow> (s \<Longrightarrow> st1 = st) \<Longrightarrow> goes st1 st' \<Longrightarrow> fine s st st'"
  using goes_runs runs_trans unfolding fine_def by (metis goes_def)

lemma may_edit_core: "may_edit st = (ok, st') \<Longrightarrow> core st' = core st \<and> (ok \<longrightarrow> st' = st) \<and> ok = (\<not> readonly st)"
  by (auto simp: may_edit_def quiet split: if_splits)

lemma with_edit_fine:
  assumes "with_edit f st = Some (b, st')" "ed_ok st" "\<And>b st'. f st = Some (b, st') \<Longrightarrow> fine s st st'"
  shows "fine s st st'"
proof -
  obtain ok u where u: "may_edit st = (ok, u)" by fastforce
  show ?thesis using may_edit_core [OF u] assms u fine_core [of u st s] by (cases ok) (auto simp: with_edit_def)
qed

lemma erase_key_fine:
  assumes "roomy w" "ed_ok st" "\<And>st'. erase w st = Some st' \<Longrightarrow> goes st st'" "erase_key w erase st = Some (b, st')"
  shows "fine s st st'"
  using assms(4) unfolding erase_key_def
proof (rule with_edit_fine [OF _ assms(2)])
  fix b st'
  assume "(if mark_on st then untyped (delete_selection w st) else map_option (Pair True) (erase w st)) = Some (b, st')"
  then show "fine s st st'" using delete_selection_step [OF assms(1,2)] assms(3) fine_goes by (auto simp: untyped_def split: if_splits)
qed

lemma dropped_fine:
  assumes "roomy w" "ed_ok st" "Option.bind (drop_selection w st) f = Some st'" "\<And>u st'. ed_ok u \<Longrightarrow> f u = Some st' \<Longrightarrow> goes u st'"
  shows "fine (\<not> mark_on st) st st'"
proof -
  obtain u where u: "drop_selection w st = Some u" "f u = Some st'" using assms(3) by (auto simp: bind_eq_Some_conv)
  note d = drop_selection_step [OF assms(1,2) u(1)]
  show ?thesis by (rule fine_two [of _ u]) (use d assms(4) [OF _ u(2)] in \<open>auto simp: goes_def\<close>)
qed

lemma undo_redo_fine:
  assumes "roomy w" "ed_ok st"
  shows "do_undo w st = Some st' \<Longrightarrow> fine False st st'" "do_redo w st = Some st' \<Longrightarrow> fine False st st'"
proof -
  have tb: "fine False st v" if "take_back w s st = Some v" "0 < count (stacks st s)" for s v
    using take_back_step [OF assms that(2)] that(1) runs_step by (auto simp: fine_def)
  have no: "fine False st (set_status t st)" for t by (rule fine_core [OF _ assms(2)]) (simp add: quiet)
  show "do_undo w st = Some st' \<Longrightarrow> fine False st st'" "do_redo w st = Some st' \<Longrightarrow> fine False st st'"
    using tb no by (auto simp: do_undo_def do_redo_def split: if_splits)
qed

lemma toggle_mark_goes: "ed_ok st \<Longrightarrow> goes st (toggle_mark st)"
  using goes_view [of "toggle_mark st" st] goes_refl by (auto simp: toggle_mark_def view_def set_status_def)

lemma copy_key_fine:
  assumes "ed_ok st" "copy_key w st = Some st'" shows "goes st st'"
proof -
  obtain ok u where u: "copy_selection w st = Some (ok, u)" using assms(2) by (auto simp: copy_key_def)
  have "view st' = view u" using assms(2) u by (auto simp: copy_key_def set_status_def view_def)
  then have "view st' = view st" using copy_selection_keeps [OF u] by simp
  then show ?thesis using goes_view goes_refl assms(1) by metis
qed

lemma cut_key_fine:
  assumes "roomy w" "ed_ok st" "cut_key w st = Some st'" shows "goes st st'"
proof (cases "mark_on st")
  case True
  then obtain ok u where u: "copy_selection w st = Some (ok, u)" "(if ok then delete_selection w u else Some u) = Some st'"
    using assms(3) by (auto simp: cut_key_def bind_eq_Some_conv)
  have v: "view u = view st" using copy_selection_keeps [OF u(1)] by simp
  have o': "ed_ok u" using ed_ok_view [OF v] assms(2) by simp
  have "goes u st'" using u(2) delete_selection_step [OF assms(1) o'] goes_refl [OF o'] by (auto split: if_splits)
  then show ?thesis using goes_from_view [OF v] by simp
next
  case False
  then show ?thesis using assms cut_line_step [OF assms(1,2)] by (auto simp: cut_key_def)
qed

lemma core_save_as: "save_as w k st = Some st' \<Longrightarrow> core st' = core st"
proof -
  assume a: "save_as w k st = Some st'"
  obtain r u where u: "prompt w k (cs ''save as: '') 512 st = Some (r, u)" using a by (auto simp: save_as_def bind_eq_Some_conv)
  have c: "core u = core st" using prompt_no_LF [OF u] by simp
  show ?thesis
  proof (cases "r = None \<or> r = Some []")
    case True
    then show ?thesis using a u c by (auto simp: save_as_def)
  next
    case False
    then obtain buf where buf: "r = Some buf" "buf \<noteq> []" by auto
    obtain d v where v: "ed_call w (Is_dir buf) u = (d, v)" by fastforce
    have cv: "core v = core st" using core_call [OF v] c by simp
    show ?thesis
    proof (cases "r_val d \<noteq> 0")
      case True
      then show ?thesis using a u v buf cv by (auto simp: save_as_def quiet)
    next
      case F: False
      then obtain ok z where z: "save_to w buf v = Some (ok, z)"
          "st' = (if ok then (let (a, st) = path_writable w (clip 512 buf) z in st\<lparr>fname := clip 512 buf, readonly := \<not> a\<rparr>) else z)"
        using a u v buf by (auto simp: save_as_def bind_eq_Some_conv)
      obtain b q where q: "path_writable w (clip 512 buf) z = (b, q)" by fastforce
      show ?thesis using z q core_save_to [OF z(1)] core_path_writable [OF q] cv by (auto simp: quiet)
    qed
  qed
qed

lemma core_show_help: "show_help w k st = Some st' \<Longrightarrow> core st' = core st"
proof -
  have f: "core (fold (\<lambda>s. out_bytes (cs s @ [CR, LF])) ss v) = core v" for ss v
    by (induction ss arbitrary: v) (simp_all add: quiet)
  assume "show_help w k st = Some st'"
  then show ?thesis by (auto simp: show_help_def Let_def bind_eq_Some_conv quiet f dest!: core_read_key)
qed

lemma core_save_key: "save_key w st = Some st' \<Longrightarrow> core st' = core st"
  by (auto simp: save_key_def quiet dest: core_save_to split: if_splits)

lemma core_redraw_key: "core (redraw_key w st) = core st"
  by (auto simp: redraw_key_def quiet dest: core_term_size split: prod.split)

lemma byte_key_fine:
  assumes "roomy w" "no_line_feeds w" "ed_ok st" "byte_key w k c st = Some (b, st')"
  shows "fine (\<not> mark_on st \<and> c \<notin> {18, 25, 26}) st st'"
proof -
  let ?f = "fine (\<not> mark_on st \<and> c \<notin> {18, 25, 26}) st st'"
  have weaken: "fine (\<not> mark_on st) st st' \<Longrightarrow> ?f" by (auto simp: fine_def)
  have untyped: "(\<And>v. r = Some v \<Longrightarrow> fine (\<not> mark_on st \<and> c \<notin> {18, 25, 26}) st v) \<Longrightarrow> untyped r = Some (b, v) \<Longrightarrow> fine (\<not> mark_on st \<and> c \<notin> {18, 25, 26}) st v"
    for r :: "edit option" and b v by (auto simp: untyped_def)
  note we = with_edit_fine [OF _ assms(3), of _ b st' "\<not> mark_on st \<and> c \<notin> {18, 25, 26}"]
  have wu: "(\<And>v. g st = Some v \<Longrightarrow> fine (\<not> mark_on st \<and> c \<notin> {18, 25, 26}) st v) \<Longrightarrow> with_edit (\<lambda>st. untyped (g st)) st = Some (b, st') \<Longrightarrow> ?f" for g
    by (erule we) (rule untyped)
  have still: "\<And>v. still st v \<Longrightarrow> fine (\<not> mark_on st \<and> c \<notin> {18, 25, 26}) st v" by (rule fine_still)
  have co: "\<And>v. core v = core st \<Longrightarrow> fine (\<not> mark_on st \<and> c \<notin> {18, 25, 26}) st v" by (rule fine_core [OF _ assms(3)])
  have step: "\<And>v. goes st v \<Longrightarrow> fine (\<not> mark_on st \<and> c \<notin> {18, 25, 26}) st v" by (rule fine_goes)
  have b1: "erase_key w backspace st = Some (b, st') \<Longrightarrow> ?f"
    by (rule erase_key_fine [OF assms(1,3)]) (use backspace_step [OF assms(1,3)] in auto)
  have dropped: "fine (\<not> mark_on st \<and> c \<notin> {18, 25, 26}) st v"
    if "Option.bind (drop_selection w st) f = Some v" "\<And>u v. ed_ok u \<Longrightarrow> f u = Some v \<Longrightarrow> goes u v" for f v
    using dropped_fine [OF assms(1,3) that] by (auto simp: fine_def)
  have b2: "with_edit (\<lambda>st. untyped (Option.bind (drop_selection w st) (split_line w))) st = Some (b, st') \<Longrightarrow> ?f"
    by (erule wu [rotated]) (erule dropped, use split_line_step [OF assms(1)] in force)
  have b3: "Some (False, toggle_mark st) = Some (b, st') \<Longrightarrow> ?f" using step [OF toggle_mark_goes [OF assms(3)]] by simp
  have b4: "untyped (copy_key w st) = Some (b, st') \<Longrightarrow> ?f" by (erule untyped [rotated]) (rule step, erule copy_key_fine [OF assms(3)])
  have b5: "with_edit (\<lambda>st. untyped (cut_key w st)) st = Some (b, st') \<Longrightarrow> ?f"
    by (erule wu [rotated]) (rule step, erule cut_key_fine [OF assms(1,3)])
  have b6: "with_edit (\<lambda>st. untyped (Option.bind (drop_selection w st) (paste w))) st = Some (b, st') \<Longrightarrow> ?f"
    by (erule wu [rotated]) (erule dropped, use paste_step [OF assms(1)] in force)
  have b7: "with_edit (\<lambda>st. untyped (cut_line w st)) st = Some (b, st') \<Longrightarrow> ?f"
    by (erule wu [rotated]) (rule step, use cut_line_step [OF assms(1,3)] in force)
  have b8: "c = 26 \<Longrightarrow> with_edit (\<lambda>st. untyped (do_undo w st)) st = Some (b, st') \<Longrightarrow> ?f"
    by (erule wu [rotated]) (use undo_redo_fine(1) [OF assms(1,3)] in \<open>auto simp: fine_def\<close>)
  have b9: "c = 25 \<Longrightarrow> with_edit (\<lambda>st. untyped (do_redo w st)) st = Some (b, st') \<Longrightarrow> ?f"
    by (erule wu [rotated]) (use undo_redo_fine(2) [OF assms(1,3)] in \<open>auto simp: fine_def\<close>)
  have b10: "untyped (search_prompt w k fwd st) = Some (b, st') \<Longrightarrow> ?f" for fwd
    by (erule untyped [rotated]) (rule still, erule search_prompt_still [OF assms(3)])
  have b11: "untyped (search_again st) = Some (b, st') \<Longrightarrow> ?f"
    by (erule untyped [rotated]) (rule still, erule search_again_still [OF assms(3)])
  have b12: "c = 18 \<Longrightarrow> untyped (replace_prompt w k st) = Some (b, st') \<Longrightarrow> ?f"
    by (erule untyped [rotated]) (use replace_prompt_step [OF assms(1-3)] in \<open>auto simp: fine_def\<close>)
  have b13: "untyped (goto_line w k st) = Some (b, st') \<Longrightarrow> ?f"
    by (erule untyped [rotated]) (rule still, erule goto_line_still [OF assms(3)])
  have b14: "Some (False, (out_bytes CLEAR_SCREEN (st\<lparr>show_numbers := \<not> show_numbers st, left_col := 0\<rparr>))\<lparr>dirty := DIRTY_ALL\<rparr>) = Some (b, st') \<Longrightarrow> ?f"
    using co [of st'] by (auto simp: quiet)
  have b15: "untyped (save_key w st) = Some (b, st') \<Longrightarrow> ?f" by (erule untyped [rotated]) (rule co, erule core_save_key)
  have b16: "untyped (save_as w k st) = Some (b, st') \<Longrightarrow> ?f" by (erule untyped [rotated]) (rule co, erule core_save_as)
  have b17: "untyped (show_help w k st) = Some (b, st') \<Longrightarrow> ?f" by (erule untyped [rotated]) (rule co, erule core_show_help)
  have b18: "Some (False, redraw_key w st) = Some (b, st') \<Longrightarrow> ?f" using co [OF core_redraw_key, of w] by auto
  have ty: "fine (\<not> mark_on st \<and> c \<notin> {18, 25, 26}) st v" if "Option.bind (drop_selection w st) (type_here w c n) = Some v" "c \<noteq> LF" for v n
    using that(1) by (rule dropped) (use type_here_step [OF assms(1,2) _ that(2), of _ n] in force)
  have b19: "with_edit (\<lambda>st. map_option (Pair True) (type_key w c st)) st = Some (b, st') \<Longrightarrow> ?f" if c: "c = TAB \<or> (32 \<le> c \<and> c < 127)"
  proof -
    have nl: "c \<noteq> LF" using c by auto
    have "fine (\<not> mark_on st \<and> c \<notin> {18, 25, 26}) st v" if "map_option (Pair True) (type_key w c st) = Some (d, v)" for d v
      using that ty [OF _ nl] by (auto simp: type_key_here)
    then show "with_edit (\<lambda>st. map_option (Pair True) (type_key w c st)) st = Some (b, st') \<Longrightarrow> ?f" using we by blast
  qed
  have b20: "with_edit (\<lambda>st. map_option (Pair True) (type_char w c st)) st = Some (b, st') \<Longrightarrow> ?f" if c: "c \<ge> 192"
  proof -
    have nl: "c \<noteq> LF" using c by auto
    have "fine (\<not> mark_on st \<and> c \<notin> {18, 25, 26}) st v" if "map_option (Pair True) (type_char w c st) = Some (d, v)" for d v
      using that ty [OF _ nl] by (auto simp: type_char_here)
    then show "with_edit (\<lambda>st. map_option (Pair True) (type_char w c st)) st = Some (b, st') \<Longrightarrow> ?f" using we by blast
  qed
  have b21: "Some (False, st) = Some (b, st') \<Longrightarrow> ?f" using co by simp
  have if_Some: "(if P then A else B) = r \<Longrightarrow> (P \<Longrightarrow> A = r \<Longrightarrow> Q) \<Longrightarrow> (\<not> P \<Longrightarrow> B = r \<Longrightarrow> Q) \<Longrightarrow> Q" for P Q :: bool and A B r :: "(bool \<times> edit) option"
    by (cases P) auto
  show ?thesis
    using assms(4) unfolding byte_key_def
    by (elim if_Some) (erule b1 | erule b2 | erule b3 | erule b4 | erule b5 | erule b6 | erule b7 | erule (1) b8 | erule (1) b9 | erule b10 |
        erule b11 | erule (1) b12 | erule b13 | erule b14 | erule b15 | erule b16 | erule b17 | erule b18 | erule (1) b19 | erule (1) b20 | erule b21)+
qed

lemma press_core: "core (st\<lparr>status := []\<rparr>) = core st"
  by (simp add: quiet)

lemma fine_typing_off: "fine s st st' \<Longrightarrow> fine s st (st'\<lparr>typing_line := None\<rparr>)"
proof -
  have "ed_ok v \<Longrightarrow> ed_ok (v\<lparr>typing_line := None\<rparr>)" for v
  proof -
    have "cur_text (v\<lparr>typing_line := None\<rparr>) = cur_text v" by (simp add: cur_text_def cur_line_def)
    then show "ed_ok v \<Longrightarrow> ed_ok (v\<lparr>typing_line := None\<rparr>)" by (simp add: ed_ok_def hist_fits_def typing_ok_def)
  qed
  then show "fine s st st' \<Longrightarrow> fine s st (st'\<lparr>typing_line := None\<rparr>)" by (auto simp: fine_def runs_def goes_def)
qed

lemma press_fine:
  assumes "roomy w" "no_line_feeds w" "ed_ok st" "press w k key q st = Some (q', st')"
  shows "fine (\<not> mark_on st \<and> key \<notin> {Byte 18, Byte 25, Byte 26}) st st'"
proof -
  let ?s = "st\<lparr>status := []\<rparr>"
  have cs: "core ?s = core st" by (rule press_core)
  have so: "ed_ok ?s" using ed_ok_core [OF cs] assms(3) by simp
  have ms: "mark_on ?s = mark_on st" by simp
  show ?thesis
  proof (cases "key = Byte 17 \<or> key = Byte 3")
    case True
    then obtain v where v: "st' = v\<lparr>typing_line := None\<rparr>" "core v = core ?s"
      using assms(4) by (auto simp: press_def Let_def quiet split: if_splits)
    show ?thesis unfolding v(1) by (rule fine_typing_off, rule fine_core [OF _ assms(3)]) (use v(2) cs in simp)
  next
    case False
    obtain typed v where v: "(case key of Byte c \<Rightarrow> byte_key w k c ?s | KEY_DEL \<Rightarrow> erase_key w delete_forward ?s
        | _ \<Rightarrow> Some (False, move_key key ?s)) = Some (typed, v)" "st' = (if typed then v else v\<lparr>typing_line := None\<rparr>)"
      using assms(4) False by (auto simp: press_def Let_def)
    have "fine (\<not> mark_on st \<and> key \<notin> {Byte 18, Byte 25, Byte 26}) ?s v"
    proof (cases key)
      case (Byte c)
      then show ?thesis using byte_key_fine [OF assms(1,2) so, of k c typed v] v(1) by simp
    next
      case KEY_DEL
      then show ?thesis using v(1) erase_key_fine [OF assms(1) so, of delete_forward typed v] delete_forward_step [OF assms(1) so] by force
    qed (use v(1) fine_goes [OF move_key_step [OF so]] in auto)
    then have "fine (\<not> mark_on st \<and> key \<notin> {Byte 18, Byte 25, Byte 26}) st v" by (rule fine_after_core [OF cs])
    then show ?thesis using v(2) fine_typing_off by auto
  qed
qed

end
