(* ===== verification/EdSave.thy ===== *)
theory EdSave
  imports EdPress HttpFormat
begin

text \<open>
  The files of the editor: the text that a file is read into, what the kernel has taken of a text when
  it is saved, and that a text that was saved is read back.
\<close>

section \<open>The lines of a file\<close>

fun split_lines :: "u8 list \<Rightarrow> page" where
  "split_lines [] = [[]]"
| "split_lines (c # t) = (if c = LF then [] # split_lines t else (c # hd (split_lines t)) # tl (split_lines t))"

lemma split_lines_ne [simp]: "split_lines t \<noteq> []"
  by (cases t) simp_all

lemma split_lines_snoc:
  "split_lines (t @ [c]) = (if c = LF then split_lines t @ [[]] else butlast (split_lines t) @ [last (split_lines t) @ [c]])"
proof (induction t)
  case (Cons a t)
  obtain l ls where l: "split_lines t = l # ls" by (metis list.exhaust split_lines_ne)
  show ?case using Cons.IH by (auto simp: l)
qed simp

lemma join_split [simp]: "join_text (split_lines t) = t"
proof (induction t)
  case (Cons a t)
  obtain l ls where l: "split_lines t = l # ls" by (metis list.exhaust split_lines_ne)
  show ?case using Cons.IH by (cases ls) (auto simp: l)
qed simp

lemma split_lines_line: "LF \<notin> set u \<Longrightarrow> split_lines u = [u] \<and> split_lines (u @ LF # t) = u # split_lines t"
  by (induction u) auto

lemma split_join: "plain ts \<Longrightarrow> ts \<noteq> [] \<Longrightarrow> split_lines (join_text ts) = ts"
  by (induction ts rule: join_text.induct) (auto simp: plain_def split_lines_line)

lemma plain_split [simp]: "plain (split_lines t)"
proof (induction t)
  case (Cons a t)
  obtain l ls where "split_lines t = l # ls" by (metis list.exhaust split_lines_ne)
  then show ?case using Cons.IH by (auto simp: plain_def)
qed (simp add: plain_def)

section \<open>Reading\<close>

text \<open>What the reads of a descriptor give, until one gives nothing: \<open>h\<close> is the calls made before.\<close>

fun received :: "world \<Rightarrow> int \<Rightarrow> nat \<Rightarrow> call list \<Rightarrow> u8 list" where
  "received w fd 0 h = []"
| "received w fd (Suc k) h =
     (let r = kernel w h (Read fd 8192) in
      if r_val r \<le> 0 then [] else take (nat (r_val r)) (r_bytes r) @ received w fd k (h @ [Read fd 8192]))"

definition file_lines :: "u8 list \<Rightarrow> page" where
  "file_lines t = split_lines (filter (\<lambda>c. c \<noteq> CR) t)"

text \<open>Only the lines and the calls are different.\<close>

definition same_but_lines :: "edit \<Rightarrow> edit \<Rightarrow> bool" where
  "same_but_lines st st' \<longleftrightarrow> (\<exists>ls h. st' = st\<lparr>lines := ls, calls := h\<rparr>)"

lemma same_but_lines_refl [simp]: "same_but_lines st st"
proof -
  have "st = st\<lparr>lines := lines st, calls := calls st\<rparr>" by simp
  then show ?thesis unfolding same_but_lines_def by blast
qed

lemma only_lines: "same_but_lines st (st\<lparr>lines := ls\<rparr>)" "same_but_lines st (st\<lparr>calls := h\<rparr>)"
proof -
  have "st\<lparr>lines := ls\<rparr> = st\<lparr>lines := ls, calls := calls st\<rparr>" "st\<lparr>calls := h\<rparr> = st\<lparr>lines := lines st, calls := h\<rparr>" by simp_all
  then show "same_but_lines st (st\<lparr>lines := ls\<rparr>)" "same_but_lines st (st\<lparr>calls := h\<rparr>)" unfolding same_but_lines_def by blast+
qed

lemma same_but_lines_trans: "same_but_lines st u \<Longrightarrow> same_but_lines u v \<Longrightarrow> same_but_lines st v"
  by (auto simp: same_but_lines_def) (metis edit.surjective edit.update_convs)

lemma load_byte_text:
  assumes "load_byte w c st = (True, st')" "texts st = file_lines P" "nlines st \<le> MAX_LINES"
  shows "texts st' = file_lines (P @ [c]) \<and> nlines st' \<le> MAX_LINES \<and> same_but_lines st st' \<and> calls st' = calls st"
proof -
  have ne: "lines st \<noteq> []" using assms(2) split_lines_ne [of "filter (\<lambda>c. c \<noteq> CR) P"] by (auto simp: texts_def file_lines_def simp del: split_lines_ne)
  consider (lf) "c = LF" | (cr) "c \<noteq> LF" "c = CR" | (other) "c \<noteq> LF" "c \<noteq> CR" by blast
  then show ?thesis
  proof cases
    case lf
    then obtain l where "line_reserve w 0 no_line = Some l" "nlines st < MAX_LINES" "st' = st\<lparr>lines := lines st @ [l]\<rparr>"
      using assms(1) by (auto simp: load_byte_def insert_line_def nlines_def Let_def split: if_splits option.splits)
    moreover have "ltext l = []" using reserve_text [OF calculation(1)] by (simp add: no_line_def)
    ultimately show ?thesis using assms(2) lf
      by (auto simp: texts_def file_lines_def split_lines_snoc nlines_def only_lines)
  next
    case cr
    then show ?thesis using assms by (simp add: load_byte_def file_lines_def)
  next
    case other
    then obtain l where l: "line_reserve w (length (ltext (last (lines st))) + 1) (last (lines st)) = Some l"
        "st' = st\<lparr>lines := butlast (lines st) @ [l\<lparr>ltext := ltext (last (lines st)) @ [c]\<rparr>]\<rparr>"
      using assms(1) reserve_text by (auto simp: load_byte_def Let_def split: option.splits)
    have "ltext (last (lines st)) = last (texts st)" "map ltext (butlast (lines st)) = butlast (texts st)"
      using ne by (simp_all add: texts_def last_map map_butlast)
    then show ?thesis using l(2) assms(2,3) other ne
      by (auto simp: texts_def file_lines_def split_lines_snoc nlines_def only_lines)
  qed
qed

lemma load_bytes_text:
  "load_bytes w t st = (True, st') \<Longrightarrow> texts st = file_lines P \<Longrightarrow> nlines st \<le> MAX_LINES \<Longrightarrow>
   texts st' = file_lines (P @ t) \<and> nlines st' \<le> MAX_LINES \<and> same_but_lines st st' \<and> calls st' = calls st"
proof (induction t arbitrary: st P)
  case (Cons c t)
  obtain u where u: "load_byte w c st = (True, u)" "load_bytes w t u = (True, st')"
    using Cons.prems(1) by (auto split: prod.splits if_splits)
  note b = load_byte_text [OF u(1) Cons.prems(2,3)]
  with Cons.IH [OF u(2), of "P @ [c]"] show ?case using same_but_lines_trans by auto
qed simp

lemma load_loop_text:
  "load_loop w fd k st = Some (True, st') \<Longrightarrow> texts st = file_lines P \<Longrightarrow> nlines st \<le> MAX_LINES \<Longrightarrow>
   texts st' = file_lines (P @ received w fd k (calls st)) \<and> nlines st' \<le> MAX_LINES \<and> same_but_lines st st'"
proof (induction w fd k st arbitrary: P rule: load_loop.induct)
  case (2 w fd k st)
  let ?r = "kernel w (calls st) (Read fd 8192)" let ?u = "st\<lparr>calls := calls st @ [Read fd 8192]\<rparr>"
  have su: "same_but_lines st ?u" by (rule only_lines)
  have tu: "texts ?u = texts st" "nlines ?u = nlines st" by (simp_all add: texts_def nlines_def)
  show ?case
  proof (cases "r_val ?r \<le> 0")
    case True
    then show ?thesis using "2.prems" su tu by (auto simp: ed_call_def)
  next
    case False
    let ?t = "take (nat (r_val ?r)) (r_bytes ?r)"
    obtain v where v: "load_bytes w ?t ?u = (True, v)" "load_loop w fd k v = Some (True, st')"
      using "2.prems"(1) False by (auto simp: ed_call_def split: prod.splits if_splits)
    note b = load_bytes_text [OF v(1), unfolded tu, OF "2.prems"(2,3)]
    have c: "ed_call w (Read fd 8192) st = (?r, ?u)" by (simp add: ed_call_def)
    have "texts st' = file_lines ((P @ ?t) @ received w fd k (calls v)) \<and> nlines st' \<le> MAX_LINES \<and> same_but_lines v st'"
      by (rule "2.IH" [OF c [symmetric] refl False v(1) [symmetric] refl TrueI v(2)]) (use b in simp_all)
    then show ?thesis using b su False same_but_lines_trans by (auto simp: Let_def)
  qed
qed simp

text \<open>A state before a file is read, as the program starts with.\<close>

definition fresh :: "edit \<Rightarrow> bool" where
  "fresh st \<longleftrightarrow> lines st = [] \<and> cy st = 0 \<and> cx st = 0 \<and> stacks st = stacks start_edit \<and> hist_bytes st = 0 \<and> typing_line st = None \<and>
     \<not> modified st \<and> running st \<and> \<not> mark_on st \<and> \<not> readonly st"

lemma fresh_start [simp]: "fresh start_edit"
  by (simp add: fresh_def start_edit_def)

text \<open>The state after a file was read is in order, and has no history.\<close>

definition settled :: "page \<Rightarrow> edit \<Rightarrow> bool" where
  "settled ts st \<longleftrightarrow> texts st = ts \<and> ed_ok st \<and> timeline st = ([], ts, []) \<and> \<not> modified st \<and> running st \<and>
     \<not> mark_on st \<and> typing_line st = None"

lemma start_hist: "stacks st = stacks start_edit \<Longrightarrow> hist s st = [] \<and> past s st = []"
  by (auto simp: start_edit_def hist_def past_def empty_stack_def records_def)

lemma settled_fresh:
  assumes "fresh st0" "same_but_lines st0 st" "text_ok (texts st)"
  shows "settled (texts st) st"
proof -
  obtain ls h where s: "st = st0\<lparr>lines := ls, calls := h\<rparr>" using assms(2) by (auto simp: same_but_lines_def)
  have k: "stacks st = stacks start_edit" "hist_bytes st = 0" "typing_line st = None" "cy st = 0" "cx st = 0"
    "\<not> modified st" "running st" "\<not> mark_on st" using assms(1) s by (simp_all add: fresh_def)
  have "stack_ok (stacks st z)" for z by (simp add: k start_edit_def empty_stack_def stack_ok_def)
  then have "hist_ok st" using start_hist [OF k(1)] k(2) by (simp add: hist_ok_def)
  then show ?thesis using assms(3) start_hist [OF k(1)] k
    by (auto simp: settled_def ed_ok_def timeline_def hist_fits_def typing_ok_def text_ok_def)
qed

text \<open>What of a state a status line and a call do not change.\<close>

lemma settled_core: "core st' = core st \<Longrightarrow> modified st' = modified st \<Longrightarrow> running st' = running st \<Longrightarrow> settled ts st' = settled ts st"
  using ed_ok_core [of st' st] timeline_core [of st' st] core_fields [of st' st] core_view [of st' st]
  by (auto simp: settled_def texts_def mark_def view_def)

lemma settled_status [simp]: "settled ts (set_status t st) = settled ts st"
  by (rule settled_core) (simp_all add: quiet, simp_all add: set_status_def)

lemma settled_did [simp]: "settled ts (ed_did c st) = settled ts st"
  by (rule settled_core) (simp_all add: ed_did_def quiet)

lemma file_lines_ok: "length (file_lines t) \<le> MAX_LINES \<Longrightarrow> text_ok (file_lines t)"
  by (simp add: text_ok_def file_lines_def)

text \<open>The state in which the loop of \<open>load_file\<close> starts.\<close>

lemma load_start:
  assumes "roomy w" "fresh st0"
  obtains u where "insert_line w 0 (st0\<lparr>calls := calls st0 @ [c]\<rparr>) = (True, u)" "texts u = file_lines []" "nlines u \<le> MAX_LINES"
    "same_but_lines st0 u" "calls u = calls st0 @ [c]"
proof -
  obtain k where k: "line_reserve w 0 no_line = Some (no_line\<lparr>lcap := k\<rparr>)" using reserve_roomy [OF assms(1)] by blast
  let ?u = "st0\<lparr>calls := calls st0 @ [c], lines := [no_line\<lparr>lcap := k\<rparr>]\<rparr>"
  have "insert_line w 0 (st0\<lparr>calls := calls st0 @ [c]\<rparr>) = (True, ?u)"
    using k assms(2) by (simp add: fresh_def insert_line_def nlines_def MAX_LINES_def Let_def)
  moreover have "same_but_lines st0 ?u" using only_lines same_but_lines_trans by blast
  ultimately show thesis
    by (intro that [of ?u]) (simp_all add: texts_def no_line_def file_lines_def nlines_def MAX_LINES_def)
qed

lemma load_file_text:
  assumes "load_file w k path st0 = Some (True, st)" "roomy w" "fresh st0"
  defines "fd \<equiv> r_val (kernel w (calls st0) (Open path O_RDONLY))"
  shows "settled (if fd < 0 then [[]] else file_lines (received w fd k (calls st0 @ [Open path O_RDONLY]))) st"
proof -
  obtain u where u: "insert_line w 0 (st0\<lparr>calls := calls st0 @ [Open path O_RDONLY]\<rparr>) = (True, u)" "texts u = file_lines []"
    "nlines u \<le> MAX_LINES" "same_but_lines st0 u" "calls u = calls st0 @ [Open path O_RDONLY]"
    using load_start [OF assms(2,3)] by blast
  note run = load_file_def ed_call_def u(1) fd_def [symmetric] Let_def
  show ?thesis
  proof (cases "fd < 0")
    case True
    then have "st = set_status (cs ''new file'') u" using assms(1) by (simp add: run)
    moreover have "settled (texts u) u"
      by (rule settled_fresh [OF assms(3) u(4)]) (use file_lines_ok [of "[]"] u(2) in \<open>simp add: file_lines_def MAX_LINES_def\<close>)
    ultimately show ?thesis using True u(2) by (simp add: file_lines_def)
  next
    case False
    then obtain v t where v: "load_loop w fd k u = Some (True, v)" "st = set_status t (ed_did (Close fd) v)"
      using assms(1) by (auto simp: run status_fmt_def bind_eq_Some_conv split: if_splits)
    note l = load_loop_text [OF v(1) u(2,3), unfolded u(5)]
    have "settled (texts v) v"
      by (rule settled_fresh [OF assms(3)]) (use l u(4) same_but_lines_trans file_lines_ok in \<open>auto simp flip: length_texts\<close>)
    then show ?thesis using l v(2) False by simp
  qed
qed

section \<open>Writing\<close>

text \<open>What the kernel took of the writes to a descriptor among the calls \<open>h'\<close> made after \<open>h\<close>.\<close>

fun sent :: "world \<Rightarrow> int \<Rightarrow> call list \<Rightarrow> call list \<Rightarrow> u8 list" where
  "sent w fd h [] = []"
| "sent w fd h (c # rest) =
     (case c of Write d t \<Rightarrow> if d = fd then take (nat (r_val (kernel w h c))) t else [] | _ \<Rightarrow> []) @ sent w fd (h @ [c]) rest"

lemma sent_append: "sent w fd h (a @ b) = sent w fd h a @ sent w fd (h @ a) b"
  by (induction a arbitrary: h) simp_all

definition writes_only :: "int \<Rightarrow> call list \<Rightarrow> bool" where
  "writes_only fd h = list_all (\<lambda>c. case c of Write d t \<Rightarrow> d = fd | _ \<Rightarrow> False) h"

lemma writes_only_simps [simp]:
  "writes_only fd []" "writes_only fd (a @ b) = (writes_only fd a \<and> writes_only fd b)" "writes_only fd (Write d t # h) = (d = fd \<and> writes_only fd h)"
  by (simp_all add: writes_only_def)

definition wrote :: "world \<Rightarrow> int \<Rightarrow> u8 list \<Rightarrow> bool \<Rightarrow> edit \<Rightarrow> edit \<Rightarrow> bool" where
  "wrote w fd t ok st st' \<longleftrightarrow> (\<exists>ws. st' = st\<lparr>calls := calls st @ ws\<rparr> \<and> writes_only fd ws \<and> (ok \<longrightarrow> sent w fd (calls st) ws = t))"

lemma wrote_none: "wrote w fd [] True st st"
  by (auto simp: wrote_def intro!: exI [of _ "[]"])

lemma wrote_then:
  assumes "wrote w fd t True st u" "wrote w fd t' ok u v" shows "wrote w fd (t @ t') ok st v"
proof -
  obtain a where a: "u = st\<lparr>calls := calls st @ a\<rparr>" "writes_only fd a" "sent w fd (calls st) a = t" using assms(1) by (auto simp: wrote_def)
  obtain b where b: "v = u\<lparr>calls := calls u @ b\<rparr>" "writes_only fd b" "ok \<longrightarrow> sent w fd (calls u) b = t'" using assms(2) by (auto simp: wrote_def)
  have "calls u = calls st @ a" using a(1) by simp
  then have "v = st\<lparr>calls := calls st @ (a @ b)\<rparr>" "writes_only fd (a @ b)" "ok \<longrightarrow> sent w fd (calls st) (a @ b) = t @ t'"
    unfolding b(1) using a b(2,3) by (simp_all add: sent_append)
  then show ?thesis unfolding wrote_def by blast
qed

lemma wrote_call:
  assumes "ed_call w (Write fd t) st = (r, st')" "ok \<Longrightarrow> 0 \<le> r_val r"
  shows "wrote w fd (take (nat (r_val r)) t) ok st st'"
  using assms by (auto simp: wrote_def ed_call_def intro!: exI [of _ "[Write fd t]"])

lemma wrote_failed: "wrote w fd t ok st st' \<Longrightarrow> wrote w fd t' False st st'"
  by (auto simp: wrote_def)

lemma write_all_wrote: "write_all w fd t st = (ok, st') \<Longrightarrow> wrote w fd t ok st st'"
proof (induction w fd t st rule: write_all.induct)
  case (1 w fd t st)
  obtain r u where u: "ed_call w (Write fd t) st = (r, u)" by fastforce
  consider "t = []" | "t \<noteq> []" "r_val r \<le> 0" | "t \<noteq> []" "0 < r_val r" by linarith
  then show ?case
  proof cases
    case 1
    then show ?thesis using "1.prems" wrote_none by (simp add: write_all.simps)
  next
    case 2
    then have "ok = False" "st' = u" using "1.prems" u by (auto simp: write_all.simps)
    then show ?thesis using wrote_call [OF u, of False] wrote_failed by blast
  next
    case 3
    then have a: "write_all w fd (drop (nat (r_val r)) t) u = (ok, st')" using "1.prems" u by (simp add: write_all.simps [of w fd t])
    have "wrote w fd (drop (nat (r_val r)) t) ok u st'"
      by (rule "1.IH" [OF _ u [symmetric] refl _ a]) (use 3 in simp_all)
    from wrote_then [OF wrote_call [OF u, of True] this] 3 show ?thesis by simp
  qed
qed

lemma write_lines_wrote: "write_lines w fd ts st = (ok, st') \<Longrightarrow> wrote w fd (join_text ts) ok st st'"
proof (induction w fd ts st rule: write_lines.induct)
  case (2 w fd t ts st)
  obtain a u where a: "write_all w fd t st = (a, u)" by fastforce
  obtain r v where v: "ed_call w (Write fd [LF]) u = (r, v)" by fastforce
  note wa = write_all_wrote [OF a]
  show ?case
  proof (cases "a \<and> ts \<noteq> []")
    case False
    then show ?thesis using "2.prems" a wa wrote_failed by (auto split: if_splits)
  next
    case True
    note wt = wrote_then [OF wa [simplified conjunct1 [OF True]] wrote_call [OF v, of ok]]
    show ?thesis
    proof (cases "r_val r = 1")
      case False
      then have "ok = False" "st' = v" using "2.prems" a v True by auto
      then show ?thesis using wt wrote_failed by blast
    next
      case r1: True
      then have l: "write_lines w fd ts v = (ok, st')" using "2.prems" a v True by simp
      have "wrote w fd (join_text ts) ok v st'" 
        by (rule "2.IH" [OF a [symmetric] refl _ _ v [symmetric] refl _ l]) (use True r1 in simp_all)
      with wrote_then [OF wa [simplified conjunct1 [OF True]]] wrote_then [OF wrote_call [OF v, of True]] r1
      have "wrote w fd (t @ [LF] @ join_text ts) ok st st'" by fastforce
      then show ?thesis using True by (cases ts) simp_all
    qed
  qed
qed (simp add: wrote_none)

section \<open>Saving\<close>

lemma format_number: "\<exists>t. format_text (37 # 100 # fmt) (anum v # as) = map_option ((@) t) (format_text fmt as)"
proof -
  have "format_spec (100 # fmt) (anum v # as) =
      Some (\<lparr>left_align = False, zero_pad = False, fwidth = 0, precision = -1, longness = 0\<rparr>, 100 # fmt, anum v # as)"
    by (simp add: format_spec_def format_width_def format_precision_def Let_def)
  then show ?thesis
    by (auto simp: format_text.simps(2) convert_text_def va_signed_def anum_def Let_def)
qed

definition said :: "cstring \<Rightarrow> arg list \<Rightarrow> bool" where
  "said fmt as \<longleftrightarrow> format_text fmt as \<noteq> None"

lemma said_simps:
  "said [] as" "c \<noteq> 37 \<Longrightarrow> said (c # fmt) as = said fmt as" "said (37 # 100 # fmt) (anum v # as) = said fmt as"
  "is_cstr s \<Longrightarrow> length s < 2 ^ 32 \<Longrightarrow> said (37 # 115 # fmt) (astr s # as) = said fmt as"
proof -
  obtain t where "format_text (37 # 100 # fmt) (anum v # as) = map_option ((@) t) (format_text fmt as)" using format_number by blast
  then show "said (37 # 100 # fmt) (anum v # as) = said fmt as" by (simp only: said_def option.map_disc_iff)
qed (simp_all add: said_def format_char format_s option.map_disc_iff)

lemma status_said:
  assumes "said fmt as" "0 < cap" "cap < 2 ^ 32" shows "\<exists>t. status_fmt cap fmt as st = Some (set_status t st)"
  using assms sbuf_text [OF assms(2,3)] by (auto simp: said_def status_fmt_def stext_def)

text \<open>
  The calls of a save that is given up do nothing but to the temporary file: nothing is opened for
  writing or removed but that, and the kernel did not rename it.
\<close>

definition tmp_name :: "cstring \<Rightarrow> cstring" where
  "tmp_name path = path @ cs ''.tmp''"

fun spares :: "world \<Rightarrow> cstring \<Rightarrow> call list \<Rightarrow> call list \<Rightarrow> bool" where
  "spares w path h [] = True"
| "spares w path h (c # rest) =
     ((case c of Stat p b \<Rightarrow> True | Open_mode p f m \<Rightarrow> p = tmp_name path | Write d t \<Rightarrow> True | Close d \<Rightarrow> True
       | Unlink p \<Rightarrow> p = tmp_name path | Rename p q \<Rightarrow> p = tmp_name path \<and> r_val (kernel w h c) < 0 | _ \<Rightarrow> False) \<and>
      spares w path (h @ [c]) rest)"

lemma spares_append: "spares w path h (a @ b) \<longleftrightarrow> spares w path h a \<and> spares w path (h @ a) b"
  by (induction a arbitrary: h) auto

lemma spares_writes: "writes_only fd ws \<Longrightarrow> spares w path h ws"
  by (induction ws arbitrary: h) (auto simp: writes_only_def split: call.splits)

text \<open>The calls of a save that is done.\<close>

definition saved :: "world \<Rightarrow> cstring \<Rightarrow> page \<Rightarrow> call list \<Rightarrow> call list \<Rightarrow> bool" where
  "saved w path ts h new \<longleftrightarrow> (\<exists>mode fd ws.
     let opened = [Stat path True, Open_mode (tmp_name path) (O_WRONLY OR O_CREAT OR O_TRUNC) mode] in
     new = opened @ ws @ [Close fd, Rename (tmp_name path) path, Sync] \<and>
     fd = r_val (kernel w (h @ [Stat path True]) (Open_mode (tmp_name path) (O_WRONLY OR O_CREAT OR O_TRUNC) mode)) \<and> 0 \<le> fd \<and>
     writes_only fd ws \<and> sent w fd (h @ opened) ws = join_text ts \<and>
     0 \<le> r_val (kernel w (h @ opened @ ws @ [Close fd]) (Rename (tmp_name path) path)))"

lemma sbuf_tmp:
  assumes "is_cstr path" "length path < 2 ^ 32 - 4"
  shows "\<exists>b. sbuf 512 (cs ''%s.tmp'') [astr path] = Some (b, length path + 4) \<and> (length path + 4 < 512 \<longrightarrow> cstr_of b = tmp_name path)"
proof -
  have f: "format_text (cs ''%s.tmp'') [astr path] = Some (tmp_name path)"
    using format_s [OF assms(1), of "cs ''.tmp''" "[]"] assms(2) plain_format [of "cs ''.tmp''" "[]"] by (simp add: cs_def tmp_name_def)
  have l: "length (tmp_name path) = length path + 4" by (simp add: tmp_name_def cs_def)
  have c: "is_cstr (tmp_name path)" using assms(1) by (simp add: tmp_name_def cs_def)
  have n: "unat (of_nat (length (tmp_name path)) :: u32) = length path + 4" using l assms(2) by (simp add: unat_of_nat take_bit_eq_mod del: of_nat_add)
  show ?thesis
    using sbuf_text [OF _ _ f, of 512] n l cstr_of_append_0 [OF c] by (auto simp: append_assoc [symmetric] simp del: append_assoc)
qed

lemma tmp_cstr: "is_cstr path \<Longrightarrow> length path + 4 < 512 \<Longrightarrow> is_cstr (tmp_name path) \<and> length (tmp_name path) < 2 ^ 32"
  by (simp add: tmp_name_def cs_def)

lemma save_outcome:
  assumes "is_cstr path" "length path < 2 ^ 32 - 4"
  shows "\<exists>ok st' new. save_to w path st = Some (ok, st') \<and> calls st' = calls st @ new \<and> texts st' = texts st \<and>
    (if ok then saved w path (texts st) (calls st) new \<and> \<not> modified st'
     else spares w path (calls st) new \<and> modified st' = modified st)"
proof -
  define mode where "mode = (if r_val (kernel w (calls st) (Stat path True)) = 0 then st_mode (r_stat (kernel w (calls st) (Stat path True))) AND 4095 else 420)"
  let ?tmp = "tmp_name path" let ?flags = "O_WRONLY OR O_CREAT OR O_TRUNC"
  let ?open = "Open_mode ?tmp ?flags mode"
  let ?s1 = "st\<lparr>calls := calls st @ [Stat path True]\<rparr>"
  define r where "r = kernel w (calls st @ [Stat path True]) ?open"
  let ?s2 = "st\<lparr>calls := calls st @ [Stat path True, ?open]\<rparr>"
  have c1: "ed_call w (Stat path True) st = (kernel w (calls st) (Stat path True), ?s1)" "ed_call w ?open ?s1 = (r, ?s2)"
    by (simp_all add: ed_call_def r_def)
  obtain b where b: "sbuf 512 (cs ''%s.tmp'') [astr path] = Some (b, length path + 4)" "length path + 4 < 512 \<Longrightarrow> cstr_of b = ?tmp"
    using sbuf_tmp [OF assms] by blast
  note start = save_to_def Let_def c1 b(1) mode_def [symmetric]
  have bad: "save_to w path st = Some (False, v) \<Longrightarrow> calls v = calls st @ new \<Longrightarrow> texts v = texts st \<Longrightarrow> modified v = modified st \<Longrightarrow>
      spares w path (calls st) new \<Longrightarrow> ?thesis" for v new by auto
  have good: "save_to w path st = Some (True, v) \<Longrightarrow> calls v = calls st @ new \<Longrightarrow> texts v = texts st \<Longrightarrow> \<not> modified v \<Longrightarrow>
      saved w path (texts st) (calls st) new \<Longrightarrow> ?thesis" for v new by auto
  show ?thesis
  proof (cases "length path + 4 < 512")
    case False
    then have "save_to w path st = Some (False, set_status (cs ''path too long'') ?s1)" by (simp add: start)
    then show ?thesis by (auto simp: set_status_def texts_def)
  next
    case True
    note tc = tmp_cstr [OF assms(1) True]
    have pl: "length path < 2 ^ 32" using True by simp
    let ?fd = "r_val r"
    show ?thesis
    proof (cases "?fd < 0")
      case fd: True
      have "said (cs ''cannot write %s (%d) - Ctrl-O saves it somewhere else'') [astr ?tmp, anum (- ?fd)]"
        using tc by (simp add: cs_def said_simps)
      from status_said [OF this, of 200 ?s2] obtain t where
        "status_fmt 200 (cs ''cannot write %s (%d) - Ctrl-O saves it somewhere else'') [astr ?tmp, anum (- ?fd)] ?s2 = Some (set_status t ?s2)" by auto
      then have "save_to w path st = Some (False, set_status t ?s2)" using True fd b(2) c1(2) by (simp add: start)
      then show ?thesis by (auto simp: set_status_def texts_def)
    next
      case fd: False
      obtain ok u where u: "write_lines w ?fd (map ltext (lines st)) ?s2 = (ok, u)" by fastforce
      obtain ws where ws: "u = ?s2\<lparr>calls := calls ?s2 @ ws\<rparr>" "writes_only ?fd ws" "ok \<Longrightarrow> sent w ?fd (calls ?s2) ws = join_text (texts st)"
        using write_lines_wrote [OF u] by (auto simp: wrote_def texts_def)
      let ?s3 = "st\<lparr>calls := calls st @ [Stat path True, ?open] @ ws @ [Close ?fd]\<rparr>"
      have s3: "ed_did (Close ?fd) u = ?s3" by (simp add: ed_did_def ws(1))
      have sp: "spares w path (calls st) ([Stat path True, ?open] @ ws @ [Close ?fd])"
        using spares_writes [OF ws(2)] by (simp add: spares_append)
      have short: "\<not> 508 \<le> length path" using True by simp
      note run = start short fd b(2) [OF True] c1(2) u s3
      show ?thesis
      proof (cases ok)
        case False
        let ?s4 = "set_status (cs ''write error - the original is untouched (disk full?)'') (ed_did (Unlink ?tmp) ?s3)"
        have "save_to w path st = Some (False, ?s4)" by (simp add: run False)
        moreover have "calls ?s4 = calls st @ ([Stat path True, ?open] @ ws @ [Close ?fd]) @ [Unlink ?tmp]" "texts ?s4 = texts st" "modified ?s4 = modified st"
          by (simp_all add: set_status_def ed_did_def texts_def)
        moreover have "spares w path (calls st) (([Stat path True, ?open] @ ws @ [Close ?fd]) @ [Unlink ?tmp])"
          using sp by (simp only: spares_append) simp
        ultimately show ?thesis by (rule bad)
      next
        case written: True
        let ?q = "kernel w (calls ?s3) (Rename ?tmp path)"
        let ?s4 = "?s3\<lparr>calls := calls ?s3 @ [Rename ?tmp path]\<rparr>"
        have c4: "ed_call w (Rename ?tmp path) ?s3 = (?q, ?s4)" by (simp add: ed_call_def)
        show ?thesis
        proof (cases "r_val ?q < 0")
          case q: True
          let ?m = "cs ''rename failed (%d) - nothing was changed''"
          have "said ?m [anum (- r_val ?q)]" by (simp add: cs_def said_simps)
          from status_said [OF this, of 160 "ed_did (Unlink ?tmp) ?s4"] obtain t where
            t: "status_fmt 160 ?m [anum (- r_val ?q)] (ed_did (Unlink ?tmp) ?s4) = Some (set_status t (ed_did (Unlink ?tmp) ?s4))" by auto
          let ?s5 = "set_status t (ed_did (Unlink ?tmp) ?s4)"
          have "save_to w path st = Some (False, ?s5)" by (simp add: run written c4 [simplified] q [simplified] t [simplified])
          moreover have "calls ?s5 = calls st @ ([Stat path True, ?open] @ ws @ [Close ?fd]) @ [Rename ?tmp path, Unlink ?tmp]"
            "texts ?s5 = texts st" "modified ?s5 = modified st"
            by (simp_all add: set_status_def ed_did_def texts_def)
          moreover have "spares w path (calls st) (([Stat path True, ?open] @ ws @ [Close ?fd]) @ [Rename ?tmp path, Unlink ?tmp])"
            using sp q by (simp only: spares_append) simp
          ultimately show ?thesis by (rule bad)
        next
          case q: False
          let ?s5 = "(ed_did Sync ?s4)\<lparr>modified := False\<rparr>"
          let ?m = "cs ''saved %s (%d lines)''" let ?as = "[astr path, anum (int (nlines ?s4))]"
          have "said ?m ?as" using assms(1) pl by (simp add: cs_def said_simps)
          from status_said [OF this, of 200 ?s5] obtain t where t: "status_fmt 200 ?m ?as ?s5 = Some (set_status t ?s5)" by auto
          have "save_to w path st = Some (True, set_status t ?s5)" by (simp add: run written c4 [simplified] q [simplified] t [simplified])
          moreover have "calls (set_status t ?s5) = calls st @ [Stat path True, ?open] @ ws @ [Close ?fd, Rename ?tmp path, Sync]"
            "texts (set_status t ?s5) = texts st" "\<not> modified (set_status t ?s5)"
            by (simp_all add: set_status_def ed_did_def texts_def)
          moreover have "saved w path (texts st) (calls st) ([Stat path True, ?open] @ ws @ [Close ?fd, Rename ?tmp path, Sync])"
            unfolding saved_def Let_def
            by (rule exI [of _ mode], rule exI [of _ ?fd], rule exI [of _ ws]) (use ws(2,3) written q fd in \<open>simp add: r_def\<close>)
          ultimately show ?thesis by (rule good)
        qed
      qed
    qed
  qed
qed

section \<open>A saved text is read back\<close>

text \<open>What the kernel took of the save: the writes to the descriptor that the second call gave.\<close>

definition stored :: "world \<Rightarrow> call list \<Rightarrow> call list \<Rightarrow> u8 list" where
  "stored w h new = sent w (r_val (kernel w (h @ take 1 new) (new ! 1))) h new"

lemma saved_stored: "saved w path ts h new \<Longrightarrow> stored w h new = join_text ts"
  by (auto simp: saved_def stored_def Let_def sent_append)

text \<open>A read of the descriptor gives nothing within \<open>k\<close> reads.\<close>

fun reads_end :: "world \<Rightarrow> int \<Rightarrow> nat \<Rightarrow> call list \<Rightarrow> bool" where
  "reads_end w fd 0 h = False"
| "reads_end w fd (Suc k) h \<longleftrightarrow> r_val (kernel w h (Read fd 8192)) \<le> 0 \<or> reads_end w fd k (h @ [Read fd 8192])"

lemma length_split: "length (split_lines t) = Suc (length (filter (\<lambda>c. c = LF) t))"
  by (induction t) auto

lemma length_file_lines: "length (file_lines P) \<le> length (file_lines (P @ t))"
  by (simp add: file_lines_def length_split)

lemma load_byte_roomy:
  assumes "roomy w" "texts st = file_lines P" "length (file_lines (P @ [c])) \<le> MAX_LINES"
  shows "\<exists>st'. load_byte w c st = (True, st')"
proof -
  have n: "c = LF \<Longrightarrow> nlines st < MAX_LINES"
    using assms(3) unfolding length_texts [symmetric] assms(2) by (simp add: file_lines_def length_split)
  obtain a where a: "line_reserve w 0 no_line = Some (no_line\<lparr>lcap := a\<rparr>)" using reserve_roomy [OF assms(1)] by blast
  obtain b where b: "line_reserve w (length (ltext (last (lines st))) + 1) (last (lines st)) = Some (last (lines st)\<lparr>lcap := b\<rparr>)"
    using reserve_roomy [OF assms(1)] by blast
  show ?thesis using n a b by (cases "c = LF") (simp_all add: load_byte_def insert_line_def Let_def)
qed

lemma load_bytes_roomy:
  "roomy w \<Longrightarrow> texts st = file_lines P \<Longrightarrow> nlines st \<le> MAX_LINES \<Longrightarrow> length (file_lines (P @ t)) \<le> MAX_LINES \<Longrightarrow> \<exists>st'. load_bytes w t st = (True, st')"
proof (induction t arbitrary: st P)
  case (Cons c t)
  have "length (file_lines (P @ [c])) \<le> MAX_LINES" using Cons.prems(4) length_file_lines [of "P @ [c]" t] by simp
  then obtain u where u: "load_byte w c st = (True, u)" using load_byte_roomy [OF Cons.prems(1,2)] by blast
  note b = load_byte_text [OF u Cons.prems(2,3)]
  show ?case using Cons.IH [OF Cons.prems(1), of u "P @ [c]"] b Cons.prems(4) u by auto
qed simp

lemma load_loop_roomy:
  "roomy w \<Longrightarrow> texts st = file_lines P \<Longrightarrow> nlines st \<le> MAX_LINES \<Longrightarrow> reads_end w fd k (calls st) \<Longrightarrow>
   length (file_lines (P @ received w fd k (calls st))) \<le> MAX_LINES \<Longrightarrow> \<exists>st'. load_loop w fd k st = Some (True, st')"
proof (induction k arbitrary: st P)
  case (Suc k)
  let ?r = "kernel w (calls st) (Read fd 8192)" let ?u = "st\<lparr>calls := calls st @ [Read fd 8192]\<rparr>"
  have tu: "texts ?u = texts st" "nlines ?u = nlines st" by (simp_all add: texts_def nlines_def)
  show ?case
  proof (cases "r_val ?r \<le> 0")
    case True
    then show ?thesis by (simp add: ed_call_def)
  next
    case False
    let ?t = "take (nat (r_val ?r)) (r_bytes ?r)"
    have l: "length (file_lines ((P @ ?t) @ received w fd k (calls st @ [Read fd 8192]))) \<le> MAX_LINES"
      using Suc.prems(5) False by (simp add: Let_def)
    then have "length (file_lines (P @ ?t)) \<le> MAX_LINES" using length_file_lines [of "P @ ?t"] le_trans by blast
    then obtain v where v: "load_bytes w ?t ?u = (True, v)"
      using load_bytes_roomy [OF Suc.prems(1), of ?u P ?t] Suc.prems(2,3) tu by auto
    note b = load_bytes_text [OF v, unfolded tu, OF Suc.prems(2,3)]
    have "\<exists>st'. load_loop w fd k v = Some (True, st')"
      by (rule Suc.IH [OF Suc.prems(1), of v "P @ ?t"]) (use b l Suc.prems(4) False in auto)
    then show ?thesis using v False by (simp add: ed_call_def)
  qed
qed simp

lemma load_file_roomy:
  fixes path
  assumes "roomy w" "fresh st0"
  defines "fd \<equiv> r_val (kernel w (calls st0) (Open path O_RDONLY))" and "h \<equiv> calls st0 @ [Open path O_RDONLY]"
  assumes "reads_end w fd k h" "length (file_lines (received w fd k h)) \<le> MAX_LINES"
  shows "\<exists>st. load_file w k path st0 = Some (True, st)"
proof -
  obtain u where u: "insert_line w 0 (st0\<lparr>calls := calls st0 @ [Open path O_RDONLY]\<rparr>) = (True, u)" "texts u = file_lines []"
    "nlines u \<le> MAX_LINES" "same_but_lines st0 u" "calls u = h"
    using load_start [OF assms(1,2)] unfolding h_def by blast
  from load_loop_roomy [OF assms(1) u(2,3), of fd k] assms(5,6) u(5) obtain v where v: "load_loop w fd k u = Some (True, v)" by auto
  have "said (cs ''%d lines'') [anum (int (nlines v'))]" for v' by (simp add: cs_def said_simps)
  from status_said [OF this, of 128] obtain t where
    "status_fmt 128 (cs ''%d lines'') [anum (int (nlines (ed_did (Close fd) v)))] (ed_did (Close fd) v) = Some (set_status t (ed_did (Close fd) v))" by force
  then show ?thesis using v by (simp add: load_file_def ed_call_def u(1) fd_def [symmetric] Let_def)
qed

lemma file_lines_join:
  assumes "text_ok ts" "list_all (\<lambda>t. CR \<notin> set t) ts" shows "file_lines (join_text ts) = ts"
proof -
  have "set (join_text ts) \<subseteq> insert LF (\<Union> (set ` set ts))" by (induction ts rule: join_text.induct) auto
  then have "CR \<notin> set (join_text ts)" using assms(2) by (auto simp: list_all_iff)
  then have "filter (\<lambda>c. c \<noteq> CR) (join_text ts) = join_text ts" by (intro filter_True) metis
  then show ?thesis using assms(1) split_join [of ts] by (auto simp: file_lines_def text_ok_def)
qed

text \<open>
  C17: \<open>save_to\<close> always returns.  If it says that the text is saved, then its calls were: the mode of the
  file, opening the temporary file beside it, writes to that descriptor of which the kernel took exactly
  the lines joined by newlines, and closing it; then it was renamed over the file, and the text counts
  as unmodified.  If it says that it is not, then nothing was opened for writing or removed but the
  temporary file, the kernel renamed nothing, and the text counts as modified if it did before.  The
  text is the same in both cases.
\<close>

theorem save_to_spares:
  assumes "is_cstr path" "length path < 2 ^ 32 - 4"
  shows "\<exists>ok st' new. save_to w path st = Some (ok, st') \<and> calls st' = calls st @ new \<and> texts st' = texts st \<and>
    (if ok then saved w path (texts st) (calls st) new \<and> \<not> modified st'
     else spares w path (calls st) new \<and> modified st' = modified st)"
  using assms by (rule save_outcome)

text \<open>
  C19: A text that was saved is read back.  If \<open>save_to\<close> says that it saved the text of a state in order
  and no line of it has a carriage return, and later the reads of that file give the bytes that the
  kernel took then, in whatever pieces, then a new \<open>load_file\<close> returns with the same lines, in a state
  in order, without a history.
\<close>

theorem saved_text_loads:
  fixes w' :: world and path k st0
  defines "fd \<equiv> r_val (kernel w' (calls st0) (Open path O_RDONLY))" and "h \<equiv> calls st0 @ [Open path O_RDONLY]"
  assumes "is_cstr path" "length path < 2 ^ 32 - 4" "ed_ok st" "list_all (\<lambda>t. CR \<notin> set t) (texts st)"
    and "save_to w path st = Some (True, st1)" "calls st1 = calls st @ new"
    and "roomy w'" "fresh st0" "0 \<le> fd" "reads_end w' fd k h"
    and "received w' fd k h = stored w (calls st) new"
  shows "\<exists>st2. load_file w' k path st0 = Some (True, st2) \<and> texts st2 = texts st \<and> ed_ok st2 \<and> timeline st2 = ([], texts st, [])"
proof -
  have "saved w path (texts st) (calls st) new" using save_outcome [OF assms(3,4), of w st] assms(7,8) by auto
  then have j: "received w' fd k h = join_text (texts st)" using saved_stored assms(13) by simp
  have t: "text_ok (texts st)" using assms(5) by (simp add: ed_ok_def)
  have f: "file_lines (join_text (texts st)) = texts st" using file_lines_join [OF t assms(6)] .
  obtain st2 where l: "load_file w' k path st0 = Some (True, st2)"
    using load_file_roomy [OF assms(9,10), of path k, folded fd_def h_def] assms(12) j f t by (auto simp: text_ok_def)
  have "settled (texts st) st2" using load_file_text [OF l assms(9,10), folded fd_def h_def] assms(11) j f by simp
  then show ?thesis using l by (auto simp: settled_def)
qed

end
