(* ===== verification/EdSession.thy ===== *)
theory EdSession
  imports EdSave
begin

text \<open>
  The editor from the file it reads until it is left, and the keys of undo and redo.
\<close>

section \<open>Sessions\<close>

lemma main_loop_runs:
  assumes "roomy w" "no_line_feeds w"
  shows "ed_ok st \<Longrightarrow> main_loop w k q st = Some st' \<Longrightarrow> ed_ok st' \<and> runs st st'"
proof (induction k arbitrary: q st)
  case (Suc k)
  show ?case
  proof (cases "running st")
    case False
    then show ?thesis using Suc.prems by (simp add: runs_refl)
  next
    case True
    obtain key u where u: "read_key w k st = Some (key, u)"
      using Suc.prems(2) True by (auto simp: bind_eq_Some_conv)
    note cu = core_read_key [OF u]
    have ou: "ed_ok u" "timeline u = timeline st" using Suc.prems(1) ed_ok_core [OF cu] timeline_core [OF cu] by simp_all
    show ?thesis
    proof (cases key)
      case None
      then show ?thesis using Suc.prems(2) True u ou runs_refl [of st u] by simp
    next
      case (Some c)
      obtain q2 v x where v: "press w k c q u = Some (q2, v)" "(if running v then refresh w v else Some v) = Some x"
          "main_loop w k q2 x = Some st'"
        using Suc.prems(2) True u Some by (auto simp: bind_eq_Some_conv)
      have p: "ed_ok v" "runs u v" using press_fine [OF assms ou(1) v(1)] by (simp_all add: fine_def)
      have cx: "core x = core v" using v(2) core_refresh by (auto split: if_splits)
      have ox: "ed_ok x" "timeline x = timeline v" using p(1) ed_ok_core [OF cx] timeline_core [OF cx] by simp_all
      have "ed_ok st'" "runs x st'" using Suc.IH [OF ox(1) v(3)] by simp_all
      moreover have "runs st v" using p(2) ou(2) by (simp add: runs_def)
      moreover have "runs v st'" using calculation(2) ox(2) by (simp add: runs_def)
      ultimately show ?thesis using runs_trans by blast
    qed
  qed
qed simp

lemma edit_screen_runs:
  assumes "roomy w" "no_line_feeds w" "ed_ok st" "edit_screen w k st = Some (0, st')"
  shows "ed_ok st' \<and> runs st st'"
proof -
  obtain r a where a: "ed_call w (Term_raw 0) st = (r, a)" by fastforce
  obtain z b where b: "term_size w a = (z, b)" by fastforce
  obtain m n where z: "z = (m, n)" by fastforce
  have run: "\<not> r_val r < 0" using assms(4) a by (auto simp: edit_screen_def)
  let ?c = "out_bytes CLEAR_SCREEN (b\<lparr>rows := (if m < 4 then 4 else m), cols := (if n < 20 then 20 else n)\<rparr>)"
  obtain u v where u: "refresh w ?c = Some u" "main_loop w k False u = Some v"
      "st' = flush_out w (out_bytes (CLEAR_SCREEN @ [27, 91, 72]) (ed_did (Term_restore 0) v))"
    using assms(4) a b z run by (auto simp: edit_screen_def bind_eq_Some_conv Let_def)
  have cb: "core ?c = core b" by (simp add: quiet)
  have cu: "core u = core st" using core_refresh [OF u(1)] cb core_term_size [OF b] core_call [OF a] by simp
  have ce: "core st' = core v" unfolding u(3) by (simp add: quiet ed_did_def)
  have "ed_ok u" "timeline u = timeline st" using assms(3) ed_ok_core [OF cu] timeline_core [OF cu] by simp_all
  moreover have "ed_ok v \<and> runs u v" by (rule main_loop_runs [OF assms(1,2) calculation(1) u(2)])
  moreover have "ed_ok st' = ed_ok v" "timeline st' = timeline v" using ed_ok_core [OF ce] timeline_core [OF ce] by simp_all
  ultimately show ?thesis by (simp add: runs_def)
qed

text \<open>A session that began with reading the file \<open>path\<close>, as the calls \<open>h\<close> before say.\<close>

definition first_text :: "world \<Rightarrow> nat \<Rightarrow> cstring \<Rightarrow> call list \<Rightarrow> page" where
  "first_text w k path h =
     (let fd = r_val (kernel w h (Open path O_RDONLY)) in
      if fd < 0 then [[]] else file_lines (received w fd k (h @ [Open path O_RDONLY])))"

lemma edit_file_runs:
  assumes "roomy w" "no_line_feeds w" "fresh st" "edit_file w k path ro st = Some (0, st')"
  shows "ed_ok st' \<and> tstep\<^sup>*\<^sup>* ([], first_text w k (clip 512 path) (calls st @ [Is_dir (clip 512 path)]), []) (timeline st')"
proof -
  let ?p = "clip 512 path"
  let ?a = "st\<lparr>fname := ?p, calls := calls st @ [Is_dir ?p]\<rparr>"
  have fa: "fresh ?a" using assms(3) by (simp add: fresh_def)
  have d: "r_val (kernel w (calls st) (Is_dir ?p)) = 0"
    using assms(4) by (auto simp: edit_file_def ed_call_def Let_def split: if_splits)
  obtain b where b: "load_file w k ?p ?a = Some (True, b)"
    and s: "do {
          let (a, st) = (if ro then (False, b) else path_writable w (fname b) b);
          let st = st\<lparr>readonly := \<not> a\<rparr>;
          st \<leftarrow> (if readonly st
                then status_fmt 220 (cs ''%s  read-only%s'')
                       [astr (status st), astr (if ro then cs '' (-R)'' else cs '' - it cannot be written here'')] st
                else Some st);
          edit_screen w k st
        } = Some (0, st')"
    using assms(4) d by (auto simp: edit_file_def ed_call_def bind_eq_Some_conv Let_def split: if_splits prod.splits)
  have sb: "settled (first_text w k ?p (calls ?a)) b"
    using load_file_text [OF b assms(1) fa] unfolding first_text_def Let_def .
  obtain a c where c: "(if ro then (False, b) else path_writable w (fname b) b) = (a, c)" by fastforce
  have cc: "core c = core b" using c core_path_writable by (auto split: if_splits)
  let ?c = "c\<lparr>readonly := \<not> a\<rparr>"
  obtain u where u: "(if readonly ?c then status_fmt 220 (cs ''%s  read-only%s'')
      [astr (status ?c), astr (if ro then cs '' (-R)'' else cs '' - it cannot be written here'')] ?c else Some ?c) = Some u"
      "edit_screen w k u = Some (0, st')"
    using s c by (auto simp: bind_eq_Some_conv Let_def)
  have "core u = core ?c" using u(1) core_status_fmt by (auto split: if_splits)
  then have cu: "core u = core b" using cc by (simp add: quiet)
  have "ed_ok u" "timeline u = ([], first_text w k ?p (calls ?a), [])"
    using sb ed_ok_core [OF cu] timeline_core [OF cu] by (simp_all add: settled_def)
  then show ?thesis using edit_screen_runs [OF assms(1,2) _ u(2)] by (simp add: runs_def)
qed


section \<open>Undo and redo\<close>







section \<open>Typing a character\<close>


section \<open>Examples\<close>

text \<open>A kernel with a file of two lines, on whose keyboard Ctrl-Q is pressed.\<close>

definition says :: "int \<Rightarrow> u8 list \<Rightarrow> reply" where
  "says v b = \<lparr>r_val = v, r_bytes = b, r_ends = (0, 0), r_stat = \<lparr>st_mode = 0, st_size = 0, st_mtime = 0\<rparr>, r_status = 0, r_dents = []\<rparr>"

definition desk :: world where
  "desk = \<lparr>kernel = (\<lambda>h c. case c of
       Write d t \<Rightarrow> says (int (length t)) []
     | Open p f \<Rightarrow> says 3 [] | Open_mode p f m \<Rightarrow> says 3 []
     | Read d n \<Rightarrow> if d = 0 then says 1 [17] else if length h = 1 then says 5 [104, 105, 10, 121, 111] else says 0 []
     | _ \<Rightarrow> says 0 []), alloc = (\<lambda>n. True)\<rparr>"

definition two_lines :: edit where
  "two_lines = start_edit\<lparr>lines := [\<lparr>ltext = [104, 105], lcap = 64\<rparr>, \<lparr>ltext = [121, 111], lcap = 64\<rparr>]\<rparr>"

lemma desk_ok: "roomy desk" "no_line_feeds desk"
  by (simp_all add: roomy_def no_line_feeds_def desk_def says_def ch_def)

lemma two_lines_settled: "settled [[104, 105], [121, 111]] two_lines"
proof -
  have t: "texts two_lines = [[104, 105], [121, 111]]" by (simp add: two_lines_def texts_def)
  have "same_but_lines start_edit two_lines" unfolding two_lines_def by (rule only_lines)
  then show ?thesis using settled_fresh [OF fresh_start, of two_lines] t by (simp add: text_ok_def plain_def MAX_LINES_def)
qed



text \<open>Saving the two lines: the kernel takes all of each write.\<close>

lemma two_lines_saved:
  "\<exists>st new. save_to desk [97] two_lines = Some (True, st) \<and> calls st = calls two_lines @ new"
proof -
  have p: "is_cstr [97]" "length ([97] :: cstring) < 2 ^ 32 - 4" "length ([97] :: cstring) < 2 ^ 32" by simp_all
  obtain b where b: "sbuf 512 (cs ''%s.tmp'') [astr [97]] = Some (b, 5)" using sbuf_tmp [OF p(1,2)] by auto
  have "said (cs ''saved %s (%d lines)'') [astr [97], anum n]" for n using p by (simp add: cs_def said_simps)
  from status_said [OF this, of 200] have "\<exists>t. status_fmt 200 (cs ''saved %s (%d lines)'') [astr [97], anum n] u = Some (set_status t u)" for n u
    by simp
  then obtain f where f: "status_fmt 200 (cs ''saved %s (%d lines)'') [astr [97], anum n] u = Some (set_status (f n u) u)" for n u
    by metis
  have "\<exists>st. save_to desk [97] two_lines = Some (True, st)"
    by (simp add: save_to_def Let_def b f ed_call_def desk_def says_def two_lines_def start_edit_def write_all.simps ed_did_def nlines_def)
  then show ?thesis using save_outcome [OF p(1,2), of desk two_lines] by auto
qed

lemma save_to_spares_witness:
  "\<exists>st new. save_to desk [97] two_lines = Some (True, st) \<and> saved desk [97] [[104, 105], [121, 111]] [] new \<and> calls st = new"
proof -
  have "is_cstr [97]" "length ([97] :: cstring) < 2 ^ 32 - 4" by simp_all
  from save_to_spares [OF this, of desk two_lines] show ?thesis
    using two_lines_saved two_lines_settled by (auto simp: settled_def two_lines_def start_edit_def)
qed

lemma saved_text_loads_witness:
  "\<exists>st. load_file desk 2 [97] start_edit = Some (True, st) \<and> texts st = [[104, 105], [121, 111]]"
proof -
  have p: "is_cstr [97]" "length ([97] :: cstring) < 2 ^ 32 - 4" by simp_all
  have t: "ed_ok two_lines" "texts two_lines = [[104, 105], [121, 111]]" using two_lines_settled by (simp_all add: settled_def)
  obtain st1 new where s: "save_to desk [97] two_lines = Some (True, st1)" "calls st1 = calls two_lines @ new" using two_lines_saved by blast
  have "stored desk (calls two_lines) new = [104, 105, 10, 121, 111]"
    using save_outcome [OF p, of desk two_lines] s saved_stored [of desk "[97]" "texts two_lines" "calls two_lines" new] t(2) by auto
  moreover have "received desk 3 2 [Open [97] O_RDONLY] = [104, 105, 10, 121, 111]" "reads_end desk 3 2 [Open [97] O_RDONLY]"
    by (simp_all add: numeral_2_eq_2 desk_def says_def Let_def)
  moreover have "r_val (kernel desk (calls start_edit) (Open [97] O_RDONLY)) = 3" "calls start_edit = []"
    by (simp_all add: desk_def says_def start_edit_def)
  moreover have "list_all (\<lambda>t. CR \<notin> set t) (texts two_lines)" by (simp add: t(2))
  ultimately show ?thesis
    using saved_text_loads [where w' = desk and k = 2, OF p t(1) _ s desk_ok(1) fresh_start] t(2) by auto
qed

end
