(* ===== verification/Spec2Isabelle.thy ===== *)
theory Spec2Isabelle
  imports RegexSearch LpMalloc FdtCopy FatRead LpRsa StdioText StdioLine NetHttp CalcWf HttpSafe HttpRange DiffPatch ShGlob ShQuote ShScript ShEdit EdSession
begin

text \<open>
  A verification development for LP-zero, a small Linux distribution in C for the Raspberry Pi Zero
  2 W.  The repository has three layers: a boot loader without a C library (\<open>firmware/\<close>), a C library
  of its own (\<open>userland/libc/\<close>), and the commands and services built on it (\<open>userland/*/\<close>).  This
  development models the parts of the boot loader that read untrusted data, the C library, the
  calculator, the web server, \<open>diff\<close>, the shell and the text editor.

  \<^bold>\<open>Conventions.\<close>  Machine integers are words of their width.  A NUL-terminated string is the list of
  its bytes without the NUL (\<open>LpPrelude.cstring\<close>); a buffer is the list of all its bytes, and a write
  outside it gives \<open>None\<close>.  Loops of the source are recursive functions whose arguments are the loop's
  variables; a loop with \<open>goto\<close> or several exits is a function that returns what its exits compute.
  Memory is a function from addresses to bytes only where addresses matter.  \<open>None\<close> (or an error
  constructor) stands for an access outside an object, an operation C does not define, or fuel used
  up, and the theorems say when it cannot be the result.

  \<^bold>\<open>Theories and sources.\<close>

  \<^item> \<open>LpPrelude\<close>: integer types, strings, byte memory, the error combinator \<open>andthen\<close>, big-endian words.

  \<^item> \<open>LpString\<close> (\<open>userland/libc/src/string.c\<close>, \<open>atoi\<close> of \<open>malloc.c\<close>): block routines with their
    word-at-a-time loops, string routines, \<open>strtol\<close>, UTF-8.  The lemmas show that \<open>memmove\<close>, \<open>memset\<close>,
    \<open>strstr\<close>, \<open>strcmp\<close>, \<open>strlcpy\<close> and \<open>strlcat\<close> meet their contracts and that UTF-8 decodes what
    encodes and steps between characters.

  \<^item> \<open>LpMalloc\<close> (\<open>malloc.c\<close>): the block list on \<open>brk\<close>, and the environment.  The invariant is the
    layout of the blocks; payloads stay apart and keep their contents; \<open>setenv\<close>/\<open>getenv\<close> agree.

  \<^item> \<open>RegexSet\<close>, \<open>RegexProg\<close>, \<open>RegexParse\<close>, \<open>RegexVM\<close>, \<open>RegexWf\<close>, \<open>RegexSearch\<close> (\<open>regex.c\<close>): byte
    sets; emission and rearrangement of instructions; the compiler; the backtracking machine with its
    stack, journal and step budgets; well-formedness of what the compiler emits; the search.  The
    machine is related to a nondeterministic one (\<open>succs\<close>), and the search to leftmost matching.

  \<^item> \<open>LpStdio\<close>, \<open>StdioText\<close>, \<open>StdioLine\<close> (\<open>stdio.c\<close>): the sink, the conversions, \<open>printf\<close>,
    \<open>snprintf\<close>, \<open>readline\<close> and the pager.  Every format stands for a text; the locale \<open>byte_sink\<close>
    states what a sink promises and is interpreted for a descriptor, a buffer and no buffer.

  \<^item> \<open>LpNet\<close>, \<open>NetWf\<close>, \<open>NetHttp\<close> (\<open>net.c\<close>): addresses, the resolver's query and reply, URLs and the
    HTTP transfer as a state over successive reads.  The writes of the body, whose results the code
    ignores, are kept apart, and what the file keeps of them is a parameter (\<open>keeps\<close>).

  \<^item> \<open>LpRsa\<close> (\<open>rsa.c\<close>): RSA-2048 verification on limbs; the lemmas give the number each routine
    computes, up to the equivalence with \<open>s ^ 65537 mod n\<close> and the PKCS#1 block.

  \<^item> \<open>Fdt\<close>, \<open>FdtWf\<close>, \<open>FdtCopy\<close> (\<open>firmware/src/fdt.c\<close>): reading a flattened device tree and copying it
    with the boot arguments and memory size set.  \<open>FdtWf\<close> reads and writes streams of tokens; \<open>FdtCopy\<close>
    shows that the copy is the tree of the transformed tokens.

  \<^item> \<open>Fat32\<close>, \<open>Fat32Wf\<close>, \<open>FatRead\<close> (\<open>firmware/src/fat32.c\<close>): mounting, the root directory with long
    names, and reading a file by its cluster chain; the SD card is a parameter.

  \<^item> \<open>LpTime\<close> (\<open>unistd.c\<close>): the calendar.  \<open>lp_gmtime\<close> is compared with the proleptic Gregorian
    calendar, whose days are numbered by a closed formula, and \<open>lp_timegm\<close> with \<open>lp_gmtime\<close>.  The
    fields are integers; a count of years that leaves an \<open>int\<close> is \<open>None\<close>.

  \<^item> \<open>LpCalc\<close>, \<open>CalcWf\<close> (\<open>userland/calc/calc.c\<close>): the recursive-descent parser with its state, and
    that it computes the value of every printed expression.

  \<^item> \<open>HttpPath\<close>, \<open>PathSafe\<close> (\<open>userland/httpd/httpd.c\<close>): the path of a request, from the target to the
    file, and its specification by segments; \<open>HttpText\<close>, \<open>HttpFormat\<close>, \<open>HttpDate\<close>, \<open>HttpRange\<close>: dates,
    ranges, escapes and headers with the texts of their formats; \<open>LpHttpd\<close>, \<open>HttpSafe\<close>: one connection
    (\<open>serve\<close>) from its first byte to its last.  Its state is the unread input, the answers of the
    client's socket and of the clock, and what has happened: bytes sent, files opened, directories
    listed, lines logged.  \<open>HttpSafe\<close> follows the invariant \<open>keeps\<close> through every handler.  The file
    system is a parameter that does not change during a connection.

  \<^item> \<open>LpDiff\<close>, \<open>DiffMyers\<close>, \<open>DiffText\<close>, \<open>DiffPatch\<close> (\<open>userland/diff/diff.c\<close>, with \<open>LpFiles\<close> and
    \<open>StdioCall\<close> for what the commands share): the whole of \<open>diff\<close>.  \<open>DiffMyers\<close> defines the paths of the
    edit graph and shows that the rows of the walk hold the furthest points, so that the corner is
    reached after the least number of steps and the walk back gathers that edit; \<open>DiffText\<close> reads
    comparison and hash of lines as equality of plain texts and files as their lines; \<open>DiffPatch\<close>
    carries the least edit over the cutting off of both ends and applies the printed hunks.

  \<^item> \<open>ShWord\<close>, \<open>LpShell\<close>, \<open>ShParse\<close>, \<open>ShBuiltin\<close>, \<open>ShExec\<close>, \<open>ShLine\<close> (\<open>userland/sh/sh.c\<close>): the
    whole shell.  \<open>ShWord\<close> has the routines on text (wildcards, keywords, the splitting of a line
    into statements), \<open>LpShell\<close> the static variables as one record, expansion and tokens, \<open>ShParse\<close>
    \<open>parse_line\<close>, \<open>ShBuiltin\<close> the builtins, redirections and pipelines of processes, \<open>ShExec\<close> the control
    structures, functions, \<open>sh -c\<close>, scripts and the profile, \<open>ShLine\<close> history, the line editor, the
    prompt and \<open>main\<close>.  The kernel is a parameter, a function of
    the system calls made so far and the next one; \<open>calls\<close> of the state is their list.  Where \<open>fork\<close>
    answers 0 the run ends with \<open>Child\<close> and what the child goes on with; \<open>follow\<close> goes on with it.
    Static arrays are kept (the arena, the tables of pipelines, the words of \<open>for\<close>, the lines of blocks
    and of a function's body), since nested uses of them overwrite each other.

  \<^item> \<open>ShTable\<close>: what the parser writes stays inside its tables and the arena.  \<open>ShGlob\<close>: wildcards as an
    inductive relation, and the names a word becomes.  \<open>ShQuote\<close>: quoted words through splitter and
    parser; \<open>ShRun\<close>: what a line of them runs.  \<open>ShFrame\<close>: running a line keeps the lines of scripts;
    \<open>ShFuel\<close>: more fuel, the same result.  \<open>ShScript\<close>: structured programs, their big-step relation
    \<open>seq\<close>, and that \<open>exec_block\<close> on their lines is that relation, in both directions.  A \<open>for\<close> loop is
    not part of these programs: its words are static, and a loop inside another changes them.
    \<open>ShEdit\<close>: the line editor on UTF-8 text, as keys on the characters before and after the cursor.

  \<^item> \<open>EdBuffer\<close>, \<open>EdText\<close>, \<open>EdScreen\<close>, \<open>EdFiles\<close>, \<open>EdKeys\<close> (\<open>userland/edit/edit.c\<close>): the whole editor, on
    the kernel of \<open>LpKernel\<close> that the shell has too.  \<open>EdBuffer\<close> has the static variables as one record,
    lines, and the two rings of undo records; \<open>EdText\<close> what keys do to the text; \<open>EdScreen\<close> the drawing;
    \<open>EdFiles\<close> loading and saving; \<open>EdKeys\<close> keys, prompts, the switch and \<open>main\<close>.  \<open>None\<close> is an access
    outside a line or a buffer.

  \<^item> \<open>EdUndo\<close> reads the rings as lists of records, \<open>EdTimeline\<close> these as the texts they lead to: the
    editor is a past, a present and a future (\<open>timeline\<close>), and \<open>tstep\<close> says what may become of them.
    \<open>EdHistory\<close>, \<open>EdSteps\<close>, \<open>EdSelect\<close>, \<open>EdMoves\<close>: undo, redo, the operations on the text, selections,
    searches and replacements are such steps; \<open>EdQuiet\<close>: drawing, reading keys and files are none
    (\<open>core\<close>).  \<open>EdPress\<close> puts them together for every key, \<open>EdSession\<close> for the main loop and the whole of a
    session, and shows that Ctrl-Z takes a key back and Ctrl-Y does it again.  \<open>EdSave\<close>: the lines a file
    is read into, that a save either renames a complete temporary file or leaves everything as it was, and
    that what was saved is read back.  The theorems assume that allocations succeed (\<open>roomy\<close>) and that no
    newline byte comes from the keyboard (\<open>no_line_feeds\<close>; Enter is a carriage return): the code does not
    keep its invariants otherwise.  Fuel bounds the reads and keys of a session and is arbitrary.

  \<^bold>\<open>Interaction.\<close>  \<open>StdioText\<close> uses \<open>strtol\<close> of \<open>LpString\<close> for the round trip of numbers, \<open>StdioLine\<close>
  its UTF-8; the web server prints with \<open>snprintf\<close>, reads numbers with \<open>strtol\<close> and dates with
  \<open>lp_timegm\<close>; \<open>LpNet\<close> prints requests with \<open>snprintf\<close> and \<open>NetHttp\<close> proves that they fit; \<open>LpMalloc\<close>
  copies with \<open>memcpy\<close> and \<open>memset\<close>; the shell keeps its variables with \<open>setenv\<close> of \<open>LpMalloc\<close>; the regex theories import each other in the order the code calls.

  \<^bold>\<open>Bounds and fuel.\<close>  \<open>fmt_uint\<close> has 24 places, enough for 64 bits in base 8.  The walks over a device
  tree and over a cluster chain can be endless on bad input; they take fuel, and the theorems give an
  amount that is enough on well-formed input (the number of tokens, the length of the chain).  The
  loops and calls of the shell take fuel as well: \<open>ShFuel\<close> shows that a result stays what it is with
  more, and \<open>ShScript\<close> that there is enough whenever the big-step relation has a result.  The
  regex machine is bounded by the source's own budgets.

  \<^bold>\<open>Not modelled.\<close>  Hardware drivers and the interactive console of the boot loader (memory-mapped
  registers); the system calls of \<open>unistd.c\<close>; \<open>disk.c\<close>; the interface and routing ioctls and the Python
  hand-over of \<open>net.c\<close>; \<open>strdup\<close> and \<open>fdt_describe\<close>; start-up, forking and timeouts of the web server; awk and the other commands and services, separate programs on top of the
  library modelled here.
\<close>

end
